(* ===== verification/Prelude.thy ===== *)
theory Prelude
  imports Complex_Main "HOL-Library.Word" "HOL-Library.Multiset"
begin

text \<open>
  Shared vocabulary of the development: the machine integers of the Rust sources, strictly
  sorted lists (the representation of index sets), the slice operations of the Rust standard
  library that the components call, and the little- and big-endian byte encodings of the file
  formats.  Every component theory imports this one.

  Conventions: \<open>u8\<close> to \<open>u64\<close> are words of their width, so their arithmetic wraps as the
  release build's does; \<open>usize\<close> values that are lengths or positions of allocated slices are
  \<^typ>\<open>nat\<close>; a fallible function returns \<open>'e + 'a\<close> with \<open>Inl\<close> for the error; a hash map
  is a function into \<open>option\<close>.
\<close>

type_synonym u8 = "8 word"
type_synonym u16 = "16 word"
type_synonym u32 = "32 word"
type_synonym u64 = "64 word"
type_synonym usize = nat

named_theorems ssorted_simps "rewrite rules for strictly sorted lists"
named_theorems le_simps "rewrite rules for byte encodings"

lemma unat_u32_bound: "unat (n :: u32) < 4294967296"
  by (rule order_less_le_trans [OF unsigned_less]) simp

section \<open>Strictly sorted lists\<close>

abbreviation ssorted :: "'a::linorder list \<Rightarrow> bool" where
  "ssorted xs \<equiv> sorted_wrt (<) xs"

lemma ssorted_distinct: "ssorted xs \<Longrightarrow> distinct xs"
  by (induction xs) auto

lemma ssorted_sorted: "ssorted xs \<Longrightarrow> sorted xs"
  by (induction xs) auto

lemma ssorted_card: "ssorted xs \<Longrightarrow> card (set xs) = length xs"
  by (simp add: ssorted_distinct distinct_card)

lemma ssorted_unique: "ssorted xs \<Longrightarrow> ssorted ys \<Longrightarrow> set xs = set ys \<Longrightarrow> xs = ys"
  by (metis strict_sorted_equal)

lemma sorted_distinct_ssorted: "sorted xs \<Longrightarrow> distinct xs \<Longrightarrow> ssorted xs"
  by (simp add: strict_sorted_iff)

lemma ssorted_append [ssorted_simps]:
  "ssorted (xs @ ys) \<longleftrightarrow> ssorted xs \<and> ssorted ys \<and> (\<forall>x \<in> set xs. \<forall>y \<in> set ys. x < y)"
  by (simp add: sorted_wrt_append)

lemma ssorted_take: "ssorted xs \<Longrightarrow> ssorted (take n xs)"
  by (simp add: sorted_wrt_take)

lemma ssorted_drop: "ssorted xs \<Longrightarrow> ssorted (drop n xs)"
  by (simp add: sorted_wrt_drop)

lemma ssorted_take_less_drop:
  assumes "ssorted xs" "x \<in> set (take n xs)" "y \<in> set (drop n xs)"
  shows "x < y"
proof -
  have "ssorted (take n xs @ drop n xs)" using assms(1) by simp
  then show ?thesis using assms(2,3) unfolding ssorted_append by blast
qed

lemma ssorted_take_le_nth:
  assumes "ssorted xs" "x \<in> set (take (Suc n) xs)" "n < length xs"
  shows "x \<le> xs ! n"
proof -
  from assms(2) obtain k where k: "k < Suc n" "k < length xs" "x = xs ! k"
    by (auto simp: in_set_conv_nth)
  then show ?thesis
    using sorted_nth_mono [OF ssorted_sorted [OF assms(1)], of k n] assms(3) by simp
qed

lemma ssorted_hd_le:
  assumes "ssorted xs" "x \<in> set xs"
  shows "xs ! 0 \<le> x"
  using assms by (cases xs) (auto simp: less_imp_le)

lemma ssorted_remdups_adj: "sorted xs \<Longrightarrow> ssorted (remdups_adj xs)"
  by (induction xs rule: remdups_adj.induct) (auto simp: order_less_le)

section \<open>Slice operations of the standard library\<close>

text \<open>
  \<open>slice::partition_point\<close> and \<open>slice::binary_search\<close> are specified for slices that are
  partitioned by the predicate (sorted); on such slices they return exactly the position of the
  first element that fails the predicate, and \<open>Ok\<close> of it when that element is the target.
\<close>

definition partition_point :: "('a \<Rightarrow> bool) \<Rightarrow> 'a list \<Rightarrow> nat" where
  "partition_point P xs = length (takeWhile P xs)"

definition slice_binary_search :: "'a::linorder list \<Rightarrow> 'a \<Rightarrow> nat + nat" where
  "slice_binary_search xs v =
     (let p = partition_point (\<lambda>x. x < v) xs
      in if p < length xs \<and> xs ! p = v then Inr p else Inl p)"

definition vec_insert :: "nat \<Rightarrow> 'a \<Rightarrow> 'a list \<Rightarrow> 'a list" where
  "vec_insert p v xs = take p xs @ v # drop p xs"

definition vec_remove :: "nat \<Rightarrow> 'a list \<Rightarrow> 'a list" where
  "vec_remove p xs = take p xs @ drop (Suc p) xs"

lemma partition_point_le: "partition_point P xs \<le> length xs"
  by (simp add: partition_point_def length_takeWhile_le)

lemma take_partition_point: "take (partition_point P xs) xs = takeWhile P xs"
  by (metis partition_point_def takeWhile_eq_take)

lemma drop_partition_point: "drop (partition_point P xs) xs = dropWhile P xs"
  by (metis partition_point_def dropWhile_eq_drop)

lemma nth_partition_point:
  "partition_point P xs < length xs \<Longrightarrow> \<not> P (xs ! partition_point P xs)"
  unfolding partition_point_def by (rule nth_length_takeWhile)

lemma partition_point_eqI:
  assumes "k \<le> length xs" "\<forall>i < k. P (xs ! i)" "k < length xs \<Longrightarrow> \<not> P (xs ! k)"
  shows "partition_point P xs = k"
  unfolding partition_point_def
proof (rule antisym)
  show "length (takeWhile P xs) \<le> k"
  proof (rule ccontr)
    assume "\<not> ?thesis"
    then have "k < length (takeWhile P xs)" by simp
    moreover have "takeWhile P xs ! k = xs ! k"
      using calculation by (rule takeWhile_nth)
    ultimately show False
      using assms(3) length_takeWhile_le [of P xs] by (metis nth_mem order_less_le_trans set_takeWhileD)
  qed
  show "k \<le> length (takeWhile P xs)"
    using assms(1,2) by (intro length_takeWhile_less_P_nth) auto
qed

lemma partition_point_take:
  "(n < length xs \<Longrightarrow> \<not> P (xs ! n)) \<Longrightarrow> partition_point P (take n xs) = partition_point P xs"
proof (induction xs arbitrary: n)
  case (Cons x xs)
  then show ?case by (cases n) (auto simp: partition_point_def)
qed (simp add: partition_point_def)

lemma sorted_dropWhile_less:
  "sorted xs \<Longrightarrow> set (dropWhile (\<lambda>x. x < v) xs) = {x \<in> set xs. v \<le> (x::'a::linorder)}"
  by (induction xs) (auto simp: not_less)

lemma slice_binary_search_Inr:
  "slice_binary_search xs v = Inr p \<Longrightarrow> p < length xs \<and> xs ! p = v"
  by (auto simp: slice_binary_search_def Let_def split: if_splits)

lemma slice_binary_search_found:
  assumes "sorted xs"
  shows "(\<exists>p. slice_binary_search xs v = Inr p) \<longleftrightarrow> v \<in> set xs"
proof
  assume "\<exists>p. slice_binary_search xs v = Inr p"
  then show "v \<in> set xs"
    by (metis slice_binary_search_Inr nth_mem)
next
  assume v: "v \<in> set xs"
  let ?d = "dropWhile (\<lambda>x. x < v) xs"
  have mem: "v \<in> set ?d" using v sorted_dropWhile_less [OF assms] by auto
  then obtain y ys where d: "?d = y # ys" by (cases ?d) auto
  have "sorted ?d" using assms by (simp add: sorted_dropWhile)
  then have "y \<le> v" using mem d by auto
  moreover have "\<not> y < v" using d by (simp add: dropWhile_eq_Cons_conv)
  ultimately have yv: "y = v" by simp
  let ?p = "partition_point (\<lambda>x. x < v) xs"
  have dd: "drop ?p xs = v # ys" by (simp add: drop_partition_point d yv)
  then have "?p < length xs" by (metis drop_all leI list.distinct(1))
  moreover have "xs ! ?p = v"
    using dd \<open>?p < length xs\<close> by (metis hd_drop_conv_nth list.sel(1))
  ultimately show "\<exists>p. slice_binary_search xs v = Inr p"
    by (simp add: slice_binary_search_def Let_def)
qed

lemma slice_binary_search_Inl:
  assumes "sorted xs" "slice_binary_search xs v = Inl p"
  shows "v \<notin> set xs" "take p xs = takeWhile (\<lambda>x. x < v) xs"
    "drop p xs = dropWhile (\<lambda>x. x < v) xs"
proof -
  show "v \<notin> set xs"
    using slice_binary_search_found [OF assms(1), of v] assms(2) by auto
  have p: "p = partition_point (\<lambda>x. x < v) xs"
    using assms(2) by (auto simp: slice_binary_search_def Let_def split: if_splits)
  show "take p xs = takeWhile (\<lambda>x. x < v) xs" "drop p xs = dropWhile (\<lambda>x. x < v) xs"
    by (simp_all add: p take_partition_point drop_partition_point)
qed

lemma ssorted_vec_insert:
  assumes "ssorted xs" "slice_binary_search xs v = Inl p"
  shows "ssorted (vec_insert p v xs)" "set (vec_insert p v xs) = insert v (set xs)"
proof -
  let ?t = "takeWhile (\<lambda>x. x < v) xs" and ?d = "dropWhile (\<lambda>x. x < v) xs"
  note split = slice_binary_search_Inl [OF ssorted_sorted [OF assms(1)] assms(2)]
  have "set ?d = {x \<in> set xs. v \<le> x}"
    using sorted_dropWhile_less [OF ssorted_sorted [OF assms(1)]] .
  then have d: "\<forall>y \<in> set ?d. v < y" using split(1) by force
  have t: "\<forall>x \<in> set ?t. x < v" by (auto dest: set_takeWhileD)
  have "ssorted (?t @ ?d)" using assms(1) by simp
  then have "ssorted ?t" "ssorted ?d" unfolding ssorted_append by blast+
  then show "ssorted (vec_insert p v xs)"
    using d t by (fastforce simp: vec_insert_def split(2,3) ssorted_append)
  have "set (?t @ ?d) = set xs" by (simp only: takeWhile_dropWhile_id)
  then show "set (vec_insert p v xs) = insert v (set xs)"
    by (auto simp: vec_insert_def split(2,3) simp del: takeWhile_dropWhile_id)
qed

lemma ssorted_vec_remove:
  assumes "ssorted xs" "p < length xs"
  shows "ssorted (vec_remove p xs)" "set (vec_remove p xs) = set xs - {xs ! p}"
proof -
  have split: "xs = take p xs @ xs ! p # drop (Suc p) xs"
    using assms(2) by (simp add: id_take_nth_drop)
  have "ssorted (take p xs @ xs ! p # drop (Suc p) xs)" using assms(1) split by simp
  then have all: "ssorted (take p xs)" "ssorted (drop (Suc p) xs)"
    "\<forall>x \<in> set (take p xs). x < xs ! p \<and> (\<forall>y \<in> set (drop (Suc p) xs). x < y)"
    "\<forall>y \<in> set (drop (Suc p) xs). xs ! p < y"
    by (auto simp: ssorted_simps)
  then show "ssorted (vec_remove p xs)" by (simp add: vec_remove_def ssorted_simps)
  have "set xs = set (take p xs) \<union> {xs ! p} \<union> set (drop (Suc p) xs)"
    by (subst split) auto
  then show "set (vec_remove p xs) = set xs - {xs ! p}"
    using all by (auto simp: vec_remove_def)
qed

end
