(* ===== verification/Intersection.thy ===== *)
theory Intersection
  imports Prelude
begin

text \<open>
  \<open>src/core/intersection.rs\<close> and \<open>src/core/simd_math.rs\<close>: counting the common elements of
  two sorted, deduplicated \<open>u32\<close> slices by a sorted merge, by galloping search, by the AVX2
  block kernel, and the dispatcher that picks one of them.  The interface
  \<open>intersection_kernel\<close> states what every kernel promises, the size of the set
  intersection; each kernel is an interpretation of it.
\<close>

section \<open>Sorted merge\<close>

fun merge_loop :: "u32 list \<Rightarrow> u32 list \<Rightarrow> nat \<Rightarrow> nat" where
  "merge_loop (x # a) (y # b) cnt =
     (if x < y then merge_loop a (y # b) cnt
      else if y < x then merge_loop (x # a) b cnt
      else merge_loop a b (cnt + 1))"
| "merge_loop _ _ cnt = cnt"

definition merge_intersection_count :: "u32 list \<Rightarrow> u32 list \<Rightarrow> nat" where
  "merge_intersection_count a b = merge_loop a b 0"

section \<open>Galloping search\<close>

text \<open>
  The loop state \<open>lo\<close>, \<open>hi\<close> of \<open>binary_search_left\<close>; the midpoint is computed as the
  source does.
\<close>

function binary_search_left_loop :: "u32 list \<Rightarrow> u32 \<Rightarrow> nat \<Rightarrow> nat \<Rightarrow> nat" where
  "binary_search_left_loop sl target lo hi =
     (if lo < hi then
        let mid = lo + (hi - lo) div 2
        in if sl ! mid < target then binary_search_left_loop sl target (mid + 1) hi
           else binary_search_left_loop sl target lo mid
      else lo)"
  by pat_completeness auto
termination
  by (relation "measure (\<lambda>(sl, target, lo, hi). hi - lo)") auto

declare binary_search_left_loop.simps [simp del]

definition binary_search_left :: "u32 list \<Rightarrow> u32 \<Rightarrow> nat" where
  "binary_search_left sl target = binary_search_left_loop sl target 0 (length sl)"

text \<open>
  The doubling of \<open>step\<close>, started at 1.  The conjunct \<open>0 < step\<close> holds on every call the
  source makes and is what makes the recursion well founded.
\<close>

function gallop_step :: "u32 list \<Rightarrow> nat \<Rightarrow> u32 \<Rightarrow> nat \<Rightarrow> nat" where
  "gallop_step large lo val step =
     (if 0 < step \<and> lo + step < length large \<and> large ! (lo + step) < val
      then gallop_step large lo val (step * 2) else step)"
  by pat_completeness auto
termination
  by (relation "measure (\<lambda>(large, lo, val, step). length large - (lo + step))") auto

declare gallop_step.simps [simp del]

fun gallop_loop :: "u32 list \<Rightarrow> u32 list \<Rightarrow> nat \<Rightarrow> nat \<Rightarrow> nat" where
  "gallop_loop large [] lo cnt = cnt"
| "gallop_loop large (val # small) lo cnt =
     (let step = gallop_step large lo val 1;
          hi = min (lo + step) (length large);
          lo' = binary_search_left (take (hi - lo) (drop lo large)) val + lo
      in if lo' < length large \<and> large ! lo' = val
         then gallop_loop large small (lo' + 1) (cnt + 1)
         else gallop_loop large small lo' cnt)"

definition galloping_intersection_count :: "u32 list \<Rightarrow> u32 list \<Rightarrow> nat" where
  "galloping_intersection_count small large = gallop_loop large small 0 0"

section \<open>The AVX2 block kernel\<close>

text \<open>
  One 8-lane compare: every lane of \<open>va\<close> is compared with the broadcast of each element of
  the other block, the comparison masks are or-ed, and the set lanes are counted
  (\<open>movemask\<close>, \<open>count_ones\<close>).
\<close>

definition lane_matches :: "u32 list \<Rightarrow> u32 list \<Rightarrow> nat" where
  "lane_matches va vb =
     length (filter id
       (fold (\<lambda>e v_match. map2 (\<or>) v_match (map (\<lambda>x. x = e) va)) vb (replicate (length va) False)))"

text \<open>The two loops of \<open>avx2_intersection_count\<close>, on the suffixes \<open>a[i..]\<close> and \<open>b[j..]\<close>.\<close>

function avx2_loop :: "u32 list \<Rightarrow> u32 list \<Rightarrow> nat \<Rightarrow> nat" where
  "avx2_loop a b cnt =
     (if 8 \<le> length a \<and> 8 \<le> length b then
        let max_a = a ! 7; max_b = b ! 7
        in if max_a < b ! 0 then avx2_loop (drop 8 a) b cnt
           else if max_b < a ! 0 then avx2_loop a (drop 8 b) cnt
           else avx2_loop (if max_a \<le> max_b then drop 8 a else a)
                          (if max_b \<le> max_a then drop 8 b else b)
                          (cnt + lane_matches (take 8 a) (take 8 b))
      else merge_loop a b cnt)"
  by pat_completeness auto
termination
  by (relation "measure (\<lambda>(a, b, cnt). length a + length b)") auto

declare avx2_loop.simps [simp del]

definition avx2_intersection_count :: "u32 list \<Rightarrow> u32 list \<Rightarrow> nat" where
  "avx2_intersection_count a b = avx2_loop a b 0"

text \<open>\<open>avx2\<close> is the outcome of the run-time feature test (false on other targets).\<close>

definition simd_intersection_count :: "bool \<Rightarrow> u32 list \<Rightarrow> u32 list \<Rightarrow> nat option" where
  "simd_intersection_count avx2 a b =
     (if avx2 \<and> 8 \<le> length a \<and> 8 \<le> length b then Some (avx2_intersection_count a b) else None)"

section \<open>The dispatcher\<close>

definition sparse_intersection_count :: "bool \<Rightarrow> u32 list \<Rightarrow> u32 list \<Rightarrow> nat" where
  "sparse_intersection_count avx2 a b =
     (if a = [] \<or> b = [] then 0
      else
        let (small, large) = (if length a \<le> length b then (a, b) else (b, a))
        in if length small * 8 < length large then galloping_intersection_count small large
           else case simd_intersection_count avx2 small large of
                  Some n \<Rightarrow> n
                | None \<Rightarrow> merge_intersection_count small large)"

section \<open>The contract of a kernel\<close>

locale intersection_kernel =
  fixes count :: "u32 list \<Rightarrow> u32 list \<Rightarrow> nat"
  assumes count_correct: "ssorted a \<Longrightarrow> ssorted b \<Longrightarrow> count a b = card (set a \<inter> set b)"
begin

lemma count_commute: "ssorted a \<Longrightarrow> ssorted b \<Longrightarrow> count a b = count b a"
  by (simp add: count_correct Int_commute)

lemma count_le_left: "ssorted a \<Longrightarrow> ssorted b \<Longrightarrow> count a b \<le> length a"
  by (metis count_correct ssorted_card card_mono inf_le1 List.finite_set)

lemma count_le_right: "ssorted a \<Longrightarrow> ssorted b \<Longrightarrow> count a b \<le> length b"
  by (metis count_correct ssorted_card card_mono inf_le2 List.finite_set)

lemma count_self: "ssorted a \<Longrightarrow> count a a = length a"
  by (simp add: count_correct ssorted_card)

lemma count_union:
  assumes "ssorted a" "ssorted b"
  shows "length a + length b - count a b = card (set a \<union> set b)"
  using card_Un_Int [of "set a" "set b"] assms by (simp add: count_correct ssorted_card)

lemma count_full_iff:
  assumes "ssorted a" "ssorted b"
  shows "count a b = length a \<longleftrightarrow> set a \<subseteq> set b"
proof
  assume "count a b = length a"
  then have "card (set a \<inter> set b) = card (set a)"
    using assms by (simp add: count_correct ssorted_card)
  then have "set a \<inter> set b = set a" by (intro card_subset_eq) auto
  then show "set a \<subseteq> set b" by blast
next
  assume "set a \<subseteq> set b"
  then have "set a \<inter> set b = set a" by blast
  then show "count a b = length a" using assms by (simp add: count_correct ssorted_card)
qed

end

section \<open>The kernels satisfy the contract\<close>

lemma card_Int_Cons:
  "x \<notin> set a \<Longrightarrow> card (set (x # a) \<inter> B) = (if x \<in> B then 1 else 0) + card (set a \<inter> B)"
  by (cases "x \<in> B") (auto simp: Int_insert_left)

lemma merge_loop_correct:
  "ssorted a \<Longrightarrow> ssorted b \<Longrightarrow> merge_loop a b n = n + card (set a \<inter> set b)"
proof (induction a b n rule: merge_loop.induct)
  case (1 x a y b n)
  consider "x < y" | "y < x" | "x = y" by force
  then show ?case
  proof cases
    case 1
    then have "x \<notin> set (y # b)" using "1.prems" by auto
    then have "set (x # a) \<inter> set (y # b) = set a \<inter> set (y # b)" by auto
    then show ?thesis using 1 "1.IH"(1) "1.prems" by simp
  next
    case 2
    then have "y \<notin> set (x # a)" using "1.prems" by auto
    then have "set (x # a) \<inter> set (y # b) = set (x # a) \<inter> set b" by auto
    then show ?thesis using 2 "1.IH"(2) "1.prems" by (simp add: order_less_not_sym)
  next
    case 3
    then have "x \<notin> set a" "x \<notin> set b" using "1.prems" by auto
    then have "card (set (x # a) \<inter> set (y # b)) = 1 + card (set a \<inter> set b)"
      using 3 by (simp add: card_Int_Cons)
    then show ?thesis using 3 "1.IH"(3) "1.prems" by simp
  qed
qed simp_all

interpretation merge_kernel: intersection_kernel merge_intersection_count
  by unfold_locales (simp add: merge_intersection_count_def merge_loop_correct)

lemma binary_search_left_loop_correct:
  assumes "sorted sl" "lo \<le> hi" "hi \<le> length sl"
    "\<forall>i < lo. sl ! i < target" "\<forall>i < length sl. hi \<le> i \<longrightarrow> \<not> sl ! i < target"
  shows "binary_search_left_loop sl target lo hi = partition_point (\<lambda>x. x < target) sl"
  using assms
proof (induction sl target lo hi rule: binary_search_left_loop.induct)
  case (1 sl target lo hi)
  show ?case
  proof (cases "lo < hi")
    case False
    then have "lo = hi" using "1.prems" by simp
    then have "partition_point (\<lambda>x. x < target) sl = lo"
      using "1.prems" by (intro partition_point_eqI) auto
    then show ?thesis
      using False by (simp add: binary_search_left_loop.simps)
  next
    case True
    define mid where "mid = lo + (hi - lo) div 2"
    have mid: "lo \<le> mid" "mid < hi" using True by (auto simp: mid_def)
    note mono = sorted_nth_mono [OF "1.prems"(1)]
    show ?thesis
    proof (cases "sl ! mid < target")
      case T: True
      have "\<forall>i < mid + 1. sl ! i < target"
        using mono [of _ mid] T mid "1.prems"(3) by (auto simp: less_Suc_eq_le intro: le_less_trans)
      then show ?thesis
        using "1.IH"(1) [OF True mid_def T] "1.prems" mid T True
        by (simp add: binary_search_left_loop.simps [of sl target lo hi] mid_def Let_def)
    next
      case F: False
      have "\<forall>i < length sl. mid \<le> i \<longrightarrow> \<not> sl ! i < target"
        using mono [of mid] F by (meson le_less_trans order.strict_trans1)
      then show ?thesis
        using "1.IH"(2) [OF True mid_def F] "1.prems" mid F True
        by (simp add: binary_search_left_loop.simps [of sl target lo hi] mid_def Let_def)
    qed
  qed
qed

lemma binary_search_left_correct:
  "sorted sl \<Longrightarrow> binary_search_left sl target = partition_point (\<lambda>x. x < target) sl"
  unfolding binary_search_left_def by (rule binary_search_left_loop_correct) auto

lemma gallop_step_bound:
  "0 < step \<Longrightarrow>
   (let s = gallop_step large lo val step
    in 0 < s \<and> (lo + s < length large \<longrightarrow> \<not> large ! (lo + s) < val))"
proof (induction large lo val step rule: gallop_step.induct)
  case (1 large lo val step)
  then show ?case
    by (cases "lo + step < length large \<and> large ! (lo + step) < val")
      (auto simp: gallop_step.simps [of large lo val step] Let_def)
qed

lemma gallop_position:
  fixes val :: u32
  assumes "sorted large" "lo \<le> length large"
  defines "hi \<equiv> min (lo + gallop_step large lo val 1) (length large)"
  shows "binary_search_left (take (hi - lo) (drop lo large)) val + lo =
         lo + partition_point (\<lambda>x. x < val) (drop lo large)"
proof -
  let ?s = "gallop_step large lo val 1"
  have s: "lo + ?s < length large \<longrightarrow> \<not> large ! (lo + ?s) < val"
    using gallop_step_bound [of 1 large lo val] by (simp add: Let_def)
  have "sorted (take (hi - lo) (drop lo large))"
    using assms(1) by (simp add: sorted_wrt_take sorted_wrt_drop)
  then have "binary_search_left (take (hi - lo) (drop lo large)) val =
      partition_point (\<lambda>x. x < val) (take (hi - lo) (drop lo large))"
    by (rule binary_search_left_correct)
  also have "\<dots> = partition_point (\<lambda>x. x < val) (drop lo large)"
    using s assms(2) by (intro partition_point_take) (auto simp: hi_def min_def split: if_splits)
  finally show ?thesis by simp
qed

lemma gallop_loop_correct:
  assumes "ssorted large" "ssorted small" "lo \<le> length large"
  shows "gallop_loop large small lo cnt = cnt + card (set small \<inter> set (drop lo large))"
  using assms(2,3)
proof (induction small arbitrary: lo cnt)
  case (Cons val small)
  let ?d = "drop lo large"
  define k where "k = partition_point (\<lambda>x. x < val) ?d"
  have pos: "binary_search_left (take (min (lo + gallop_step large lo val 1) (length large) - lo) ?d) val + lo = lo + k"
    unfolding k_def by (rule gallop_position) (use assms(1) Cons.prems ssorted_sorted in auto)
  have unf: "gallop_loop large (val # small) lo cnt =
      (if lo + k < length large \<and> large ! (lo + k) = val
       then gallop_loop large small (lo + k + 1) (cnt + 1)
       else gallop_loop large small (lo + k) cnt)"
    by (simp only: gallop_loop.simps Let_def pos)
  have d: "ssorted ?d" using assms(1) by (rule ssorted_drop)
  have klen: "lo + k \<le> length large"
    using partition_point_le [of "\<lambda>x. x < val" ?d] Cons.prems(2) by (simp add: k_def)
  have tail: "set (drop k ?d) = {x \<in> set ?d. val \<le> x}"
    unfolding k_def drop_partition_point by (rule sorted_dropWhile_less [OF ssorted_sorted [OF d]])
  have above: "\<forall>x \<in> set small. val < x" using Cons.prems(1) by simp
  have rest: "set small \<inter> set (drop (lo + k) large) = set small \<inter> set ?d"
    using above tail by (auto simp: add.commute [of lo] simp flip: drop_drop)
  show ?case
  proof (cases "lo + k < length large \<and> large ! (lo + k) = val")
    case True
    then have split: "drop (lo + k) large = val # drop (lo + k + 1) large"
      by (metis Cons_nth_drop_Suc add.commute plus_1_eq_Suc)
    then have mem: "val \<in> set ?d"
      using tail by (auto simp: add.commute [of lo] simp flip: drop_drop)
    have "set small \<inter> set (drop (lo + k + 1) large) = set small \<inter> set ?d"
      using rest split above by auto
    moreover have "val \<notin> set small" using above by auto
    ultimately show ?thesis
      using True mem Cons.IH [of "lo + k + 1" "cnt + 1"] Cons.prems
      by (simp add: unf card_Int_Cons del: gallop_loop.simps list.set)
  next
    case False
    have "val \<notin> set ?d"
    proof
      assume "val \<in> set ?d"
      then have v: "val \<in> set (drop k ?d)" using tail by simp
      then obtain y ys where y: "drop k ?d = y # ys" by (cases "drop k ?d") auto
      then have "val \<le> y" using tail by (metis (no_types, lifting) list.set_intros(1) mem_Collect_eq)
      then have "y = val"
        using v y ssorted_drop [OF d, of k] by auto
      then have "drop (lo + k) large = val # ys" using y by (simp add: add.commute)
      then show False using False
        by (metis drop_all hd_drop_conv_nth leI list.distinct(1) list.sel(1))
    qed
    then show ?thesis
      unfolding unf if_not_P [OF False]
      using rest Cons.IH [of "lo + k" cnt] Cons.prems klen by simp
  qed
qed simp

interpretation galloping_kernel: intersection_kernel galloping_intersection_count
  by unfold_locales (simp add: galloping_intersection_count_def gallop_loop_correct)

lemma fold_or_lanes:
  "fold (\<lambda>e m. map2 (\<or>) m (map (\<lambda>x. x = e) va)) vb (map P va) =
   map (\<lambda>x. P x \<or> x \<in> set vb) va"
proof (induction vb arbitrary: P)
  case (Cons e vb)
  have "map2 (\<or>) (map P va) (map (\<lambda>x. x = e) va) = map (\<lambda>x. P x \<or> x = e) va"
    by (simp add: map2_map_map)
  then show ?case using Cons [of "\<lambda>x. P x \<or> x = e"] by (simp add: disj_assoc)
qed simp

lemma lane_matches_card:
  assumes "distinct va"
  shows "lane_matches va vb = card (set va \<inter> set vb)"
proof -
  have rep: "replicate (length va) False = map (\<lambda>_. False) va"
    by (simp add: map_replicate_const)
  have "lane_matches va vb = length (filter (\<lambda>x. x \<in> set vb) va)"
    unfolding lane_matches_def rep fold_or_lanes by (simp add: filter_map comp_def)
  also have "\<dots> = card (set (filter (\<lambda>x. x \<in> set vb) va))"
    using assms by (simp only: distinct_card distinct_filter)
  also have "set (filter (\<lambda>x. x \<in> set vb) va) = set va \<inter> set vb" by auto
  finally show ?thesis .
qed

text \<open>
  The elements of a block and of its successor lie on the two sides of the block's maximum;
  the three ways a block step discards a block lose no common element.
\<close>

lemma block_bounds:
  assumes "ssorted xs" "8 \<le> length xs"
  shows "x \<in> set (take 8 xs) \<Longrightarrow> x \<le> xs ! 7" "x \<in> set (drop 8 xs) \<Longrightarrow> xs ! 7 < x"
    "x \<in> set xs \<Longrightarrow> xs ! 0 \<le> x"
proof -
  show "x \<in> set (take 8 xs) \<Longrightarrow> x \<le> xs ! 7"
    using ssorted_take_le_nth [OF assms(1), of x 7] assms(2) by simp
  have "xs ! 7 \<in> set (take 8 xs)"
    using assms(2) by (auto simp: in_set_conv_nth intro!: exI [of _ 7])
  then show "x \<in> set (drop 8 xs) \<Longrightarrow> xs ! 7 < x"
    using ssorted_take_less_drop [OF assms(1)] by blast
  show "x \<in> set xs \<Longrightarrow> xs ! 0 \<le> x" using ssorted_hd_le [OF assms(1)] .
qed

lemma block_advance:
  assumes "ssorted a" "ssorted b" "8 \<le> length a" "8 \<le> length b"
  shows "card (set a \<inter> set b) =
    card (set (take 8 a) \<inter> set (take 8 b)) +
    card (set (if a ! 7 \<le> b ! 7 then drop 8 a else a) \<inter>
          set (if b ! 7 \<le> a ! 7 then drop 8 b else b))"
proof -
  let ?ta = "set (take 8 a)" and ?da = "set (drop 8 a)"
  let ?tb = "set (take 8 b)" and ?db = "set (drop 8 b)"
  let ?A = "set (if a ! 7 \<le> b ! 7 then drop 8 a else a)"
  let ?B = "set (if b ! 7 \<le> a ! 7 then drop 8 b else b)"
  have sa: "set a = ?ta \<union> ?da" and sb: "set b = ?tb \<union> ?db"
    by (metis append_take_drop_id set_append)+
  note ba = block_bounds [OF assms(1,3)] and bb = block_bounds [OF assms(2,4)]
  have cross: "a ! 7 \<le> b ! 7 \<Longrightarrow> ?ta \<inter> ?db = {}" "b ! 7 \<le> a ! 7 \<Longrightarrow> ?da \<inter> ?tb = {}"
    using ba(1,2) bb(1,2) by (meson disjoint_iff not_less order.trans)+
  have "set a \<inter> set b = (?ta \<inter> ?tb) \<union> (?A \<inter> ?B)"
  proof (cases "a ! 7 \<le> b ! 7"; cases "b ! 7 \<le> a ! 7")
    assume *: "a ! 7 \<le> b ! 7" "b ! 7 \<le> a ! 7"
    show ?thesis using cross(1) [OF *(1)] cross(2) [OF *(2)] * unfolding sa sb by auto
  next
    assume *: "a ! 7 \<le> b ! 7" "\<not> b ! 7 \<le> a ! 7"
    show ?thesis using cross(1) [OF *(1)] sb * unfolding sa by auto
  next
    assume *: "\<not> a ! 7 \<le> b ! 7" "b ! 7 \<le> a ! 7"
    show ?thesis using cross(2) [OF *(2)] sa * unfolding sb by auto
  qed simp
  moreover have "(?ta \<inter> ?tb) \<inter> (?A \<inter> ?B) = {}"
  proof -
    have "?ta \<inter> ?da = {}" "?tb \<inter> ?db = {}"
      using ssorted_take_less_drop [OF assms(1)] ssorted_take_less_drop [OF assms(2)] by blast+
    then show ?thesis by (auto split: if_splits)
  qed
  ultimately show ?thesis by (simp add: card_Un_disjoint)
qed

lemma block_skip:
  assumes "ssorted a" "8 \<le> length a" "a ! 7 < b ! 0" "ssorted b"
  shows "set a \<inter> set b = set (drop 8 a) \<inter> set b"
proof -
  have "set a = set (take 8 a) \<union> set (drop 8 a)" by (metis append_take_drop_id set_append)
  moreover have "set (take 8 a) \<inter> set b = {}"
    using block_bounds(1) [OF assms(1,2)] ssorted_hd_le [OF assms(4)] assms(3) by fastforce
  ultimately show ?thesis by blast
qed

lemma avx2_loop_correct:
  "ssorted a \<Longrightarrow> ssorted b \<Longrightarrow> avx2_loop a b n = n + card (set a \<inter> set b)"
proof (induction a b n rule: avx2_loop.induct)
  case (1 a b n)
  note unf = avx2_loop.simps [of a b n]
  show ?case
  proof (cases "8 \<le> length a \<and> 8 \<le> length b")
    case False
    then show ?thesis
      unfolding unf if_not_P [OF False] using "1.prems" by (simp add: merge_loop_correct)
  next
    case len: True
    consider "a ! 7 < b ! 0" | "\<not> a ! 7 < b ! 0" "b ! 7 < a ! 0"
      | "\<not> a ! 7 < b ! 0" "\<not> b ! 7 < a ! 0" by blast
    then show ?thesis
    proof cases
      case 1
      then show ?thesis
        using len "1.IH"(1) [OF len refl refl 1] "1.prems" block_skip [of a b]
        by (simp add: unf ssorted_drop)
    next
      case 2
      then show ?thesis
        using len "1.IH"(2) [OF len refl refl 2] "1.prems" block_skip [of b a]
        by (simp add: unf ssorted_drop Int_commute)
    next
      case 3
      have "distinct (take 8 a)" using "1.prems"(1) by (simp add: ssorted_distinct)
      then show ?thesis
        using len "1.IH"(3) [OF len refl refl 3] "1.prems" block_advance [of a b] 3
        by (simp add: unf ssorted_drop lane_matches_card Let_def)
    qed
  qed
qed

interpretation avx2_kernel: intersection_kernel avx2_intersection_count
  by unfold_locales (simp add: avx2_intersection_count_def avx2_loop_correct)

interpretation dispatch: intersection_kernel "sparse_intersection_count avx2" for avx2
proof unfold_locales
  fix a b :: "u32 list"
  assume "ssorted a" "ssorted b"
  then show "sparse_intersection_count avx2 a b = card (set a \<inter> set b)"
    by (auto simp: sparse_intersection_count_def simd_intersection_count_def
        merge_kernel.count_correct galloping_kernel.count_correct avx2_kernel.count_correct
        Int_commute split: option.splits)
qed

section \<open>Properties\<close>

text \<open>
  C33. Whatever kernel the dispatcher picks (galloping, AVX2 block or merge), and on every
  processor, the count of two strictly ascending slices is the size of their intersection.
\<close>

theorem sparse_intersection_count_correct:
  assumes "ssorted a" "ssorted b"
  shows "sparse_intersection_count avx2 a b = card (set a \<inter> set b)"
  using assms by (rule dispatch.count_correct)

theorem sparse_intersection_count_correct_witness:
  "sparse_intersection_count True [1, 3, 5] [3, 5, 7] = card (set [1, 3, 5] \<inter> set [3, 5, 7 :: u32])"
  by (rule sparse_intersection_count_correct) simp_all

end
