(* ===== verification/Entangled.thy ===== *)
theory Entangled
  imports Intersection
begin

text \<open>
  \<open>src/core/entangled.rs\<close>: sparse hypervectors, stored as the strictly ascending list of their
  active indices.  The theory models the deterministic constructors, the delta encoding, the
  distances, binding (symmetric difference), cyclic permutation, ordered binding and Bloom
  bundling, and proves the algebra the rest of the engine relies on.  An \<open>EntangledHVec\<close>
  abstracts to the set of its active indices (\<open>active\<close>).  The majority bundle has its own
  theory, \<open>Bundle\<close>.
\<close>

record EntangledHVec =
  dim :: usize
  indices :: "u32 list"

datatype panic = DivisionByZero | ArithmeticOverflow | IndexOutOfBounds | ExpectFailed string

definition DEFAULT_RHO_DENOM :: usize where "DEFAULT_RHO_DENOM = 256"
definition NUM_ENTANGLEMENTS :: usize where "NUM_ENTANGLEMENTS = 64"

section \<open>Constructors\<close>

definition hash_u64 :: "u64 \<Rightarrow> u64 \<Rightarrow> u64" where
  "hash_u64 a b =
     (let z = a * 0x9E3779B97F4A7C15 + b;
          z = xor z (drop_bit 30 z) * 0xBF58476D1CE4E5B9;
          z = xor z (drop_bit 27 z) * 0x94D049BB133111EB
      in xor z (drop_bit 31 z))"

text \<open>\<open>(hash % dim as u64) as u32\<close>.\<close>

definition hash_slot :: "u64 \<Rightarrow> usize \<Rightarrow> u32" where
  "hash_slot h d = ucast (h mod of_nat d)"

function backfill_loop :: "u32 list \<Rightarrow> usize \<Rightarrow> usize \<Rightarrow> u64 \<Rightarrow> nat \<Rightarrow> u32 list" where
  "backfill_loop ixs active_count d seed counter =
     (if length ixs < active_count \<and> counter < active_count * 10 then
        let idx = hash_slot (hash_u64 (seed + 0xDEAD) (of_nat counter)) d
        in backfill_loop
             (case slice_binary_search ixs idx of
                Inl pos \<Rightarrow> vec_insert pos idx ixs
              | Inr _ \<Rightarrow> ixs)
             active_count d seed (counter + 1)
      else ixs)"
  by pat_completeness auto
termination
  by (relation "measure (\<lambda>(ixs, active_count, d, seed, counter). active_count * 10 - counter)") auto

declare backfill_loop.simps [simp del]

definition backfill_collisions :: "u32 list \<Rightarrow> usize \<Rightarrow> usize \<Rightarrow> u64 \<Rightarrow> u32 list" where
  "backfill_collisions ixs active_count d seed = backfill_loop ixs active_count d seed 0"

text \<open>
  \<open>new_deterministic\<close>: with \<open>dim = 0\<close> the remainder by zero panics (there is always at least
  one active index to draw).
\<close>

definition new_deterministic :: "usize \<Rightarrow> u64 \<Rightarrow> panic + EntangledHVec" where
  "new_deterministic d seed =
     (if d = 0 then Inl DivisionByZero
      else
        let active_count = max (d div DEFAULT_RHO_DENOM) 1;
            per_group = active_count div NUM_ENTANGLEMENTS;
            drawn =
              (if 0 < per_group then
                 concat (map (\<lambda>e. map (\<lambda>p. hash_slot (hash_u64 (hash_u64 seed (of_nat e)) (of_nat p)) d)
                                      [0..<per_group])
                             [0..<NUM_ENTANGLEMENTS])
               else map (\<lambda>p. hash_slot (hash_u64 seed (of_nat p)) d) [0..<active_count])
        in Inr \<lparr>dim = d,
                indices = backfill_collisions (remdups_adj (sort drawn)) active_count d seed\<rparr>)"

definition new_with_density :: "usize \<Rightarrow> usize \<Rightarrow> u64 \<Rightarrow> panic + EntangledHVec" where
  "new_with_density d density_denom seed =
     (if d = 0 then Inl DivisionByZero
      else
        let active_count = max (d div (max density_denom 1)) 1;
            drawn = map (\<lambda>p. hash_slot (hash_u64 seed (of_nat p)) d) [0..<active_count]
        in Inr \<lparr>dim = d,
                indices = backfill_collisions (remdups_adj (sort drawn)) active_count d seed\<rparr>)"

definition from_indices :: "u32 list \<Rightarrow> usize \<Rightarrow> EntangledHVec" where
  "from_indices ixs d = \<lparr>dim = d, indices = ixs\<rparr>"

section \<open>Delta encoding\<close>

fun gaps_from :: "u32 \<Rightarrow> u32 list \<Rightarrow> u32 list" where
  "gaps_from prev [] = []"
| "gaps_from prev (x # xs) = (x - prev) # gaps_from x xs"

definition to_deltas :: "EntangledHVec \<Rightarrow> u32 list" where
  "to_deltas v = (case indices v of [] \<Rightarrow> [] | x # xs \<Rightarrow> x # gaps_from x xs)"

text \<open>The loop stops at the first delta that overflows \<open>u32\<close> or leaves \<open>[0, dim)\<close>.\<close>

fun deltas_loop :: "u32 \<Rightarrow> usize \<Rightarrow> u32 list \<Rightarrow> u32 list" where
  "deltas_loop current d [] = []"
| "deltas_loop current d (x # xs) =
     (if unat current + unat x < 2 ^ 32 \<and> unat current + unat x < d
      then (current + x) # deltas_loop (current + x) d xs
      else [])"

definition from_deltas :: "u32 list \<Rightarrow> usize \<Rightarrow> EntangledHVec" where
  "from_deltas deltas d =
     (if deltas = [] then \<lparr>dim = d, indices = []\<rparr>
      else \<lparr>dim = d, indices = deltas_loop 0 d deltas\<rparr>)"

section \<open>Distances\<close>

definition hamming :: "bool \<Rightarrow> EntangledHVec \<Rightarrow> EntangledHVec \<Rightarrow> u32" where
  "hamming avx2 v w =
     (let intersection = sparse_intersection_count avx2 (indices v) (indices w)
      in of_nat (length (indices v) + length (indices w) - 2 * intersection))"

text \<open>
  The \<open>f64\<close> quotients are the exact quotient of two small integers followed by one rounding;
  \<open>rnd\<close> is that rounding.
\<close>

definition similarity :: "(rat \<Rightarrow> rat) \<Rightarrow> bool \<Rightarrow> EntangledHVec \<Rightarrow> EntangledHVec \<Rightarrow> rat" where
  "similarity rnd avx2 v w =
     (let intersection = sparse_intersection_count avx2 (indices v) (indices w);
          union = length (indices v) + length (indices w) - intersection
      in if union = 0 then 1 else rnd (of_nat intersection / of_nat union))"

definition containment_similarity :: "(rat \<Rightarrow> rat) \<Rightarrow> bool \<Rightarrow> EntangledHVec \<Rightarrow> EntangledHVec \<Rightarrow> rat" where
  "containment_similarity rnd avx2 v w =
     (if indices v = [] then 1
      else rnd (of_nat (sparse_intersection_count avx2 (indices v) (indices w))
                / of_nat (length (indices v))))"

section \<open>Binding and permutation\<close>

fun sorted_symmetric_difference :: "u32 list \<Rightarrow> u32 list \<Rightarrow> u32 list" where
  "sorted_symmetric_difference (x # a) (y # b) =
     (if x < y then x # sorted_symmetric_difference a (y # b)
      else if y < x then y # sorted_symmetric_difference (x # a) b
      else sorted_symmetric_difference a b)"
| "sorted_symmetric_difference a b = a @ b"

fun symdiff_count_loop :: "u32 list \<Rightarrow> u32 list \<Rightarrow> nat \<Rightarrow> nat" where
  "symdiff_count_loop (x # a) (y # b) cnt =
     (if x < y then symdiff_count_loop a (y # b) (cnt + 1)
      else if y < x then symdiff_count_loop (x # a) b (cnt + 1)
      else symdiff_count_loop a b cnt)"
| "symdiff_count_loop a b cnt = cnt + length a + length b"

definition sorted_symmetric_difference_count :: "u32 list \<Rightarrow> u32 list \<Rightarrow> nat" where
  "sorted_symmetric_difference_count a b = symdiff_count_loop a b 0"

definition bind_hv :: "EntangledHVec \<Rightarrow> EntangledHVec \<Rightarrow> EntangledHVec" where
  "bind_hv v w =
     \<lparr>dim = dim v, indices = sorted_symmetric_difference (indices v) (indices w)\<rparr>"

definition permute :: "EntangledHVec \<Rightarrow> usize \<Rightarrow> EntangledHVec" where
  "permute v shifts =
     (if dim v = 0 then v
      else
        let d = (of_nat (dim v) :: u32); shift = (of_nat (shifts mod dim v) :: u32)
        in \<lparr>dim = dim v, indices = sort (map (\<lambda>idx. (idx + shift) mod d) (indices v))\<rparr>)"

definition hash_permute :: "EntangledHVec \<Rightarrow> u64 \<Rightarrow> EntangledHVec" where
  "hash_permute v seed =
     (if dim v = 0 then v
      else \<lparr>dim = dim v,
            indices = remdups_adj (sort (map (\<lambda>idx. hash_slot (hash_u64 (ucast idx) seed) (dim v)) (indices v)))\<rparr>)"

definition bind_ordered :: "EntangledHVec \<Rightarrow> EntangledHVec \<Rightarrow> EntangledHVec" where
  "bind_ordered v w = bind_hv (permute v 1) w"

text \<open>\<open>self.dim - 1\<close> wraps for \<open>dim = 0\<close>, where \<open>permute\<close> ignores its argument.\<close>

definition unbind_ordered_left :: "EntangledHVec \<Rightarrow> EntangledHVec \<Rightarrow> EntangledHVec" where
  "unbind_ordered_left v w = permute (bind_hv v w) (dim v - 1)"

section \<open>Bloom bundling\<close>

definition bundle_bloom :: "EntangledHVec list \<Rightarrow> EntangledHVec" where
  "bundle_bloom vectors =
     (case vectors of
        [] \<Rightarrow> \<lparr>dim = 0, indices = []\<rparr>
      | v # _ \<Rightarrow> \<lparr>dim = dim v, indices = remdups_adj (sort (concat (map indices vectors)))\<rparr>)"

section \<open>Well-formedness and abstraction\<close>

definition hv_wf :: "EntangledHVec \<Rightarrow> bool" where
  "hv_wf v \<longleftrightarrow> ssorted (indices v) \<and> (\<forall>i \<in> set (indices v). unat i < dim v)"

abbreviation active :: "EntangledHVec \<Rightarrow> u32 set" where
  "active v \<equiv> set (indices v)"

lemma hv_wfI: "ssorted ixs \<Longrightarrow> (\<And>i. i \<in> set ixs \<Longrightarrow> unat i < d) \<Longrightarrow> hv_wf \<lparr>dim = d, indices = ixs\<rparr>"
  by (simp add: hv_wf_def)

lemma hv_wf_empty [simp]: "hv_wf \<lparr>dim = d, indices = []\<rparr>"
  by (simp add: hv_wf_def)

lemma hv_wf_ssorted [dest]: "hv_wf v \<Longrightarrow> ssorted (indices v)"
  by (simp add: hv_wf_def)

lemma hv_eqI: "hv_wf v \<Longrightarrow> hv_wf w \<Longrightarrow> dim v = dim w \<Longrightarrow> active v = active w \<Longrightarrow> v = w"
  by (auto simp: hv_wf_def intro: EntangledHVec.equality ssorted_unique)

section \<open>Constructors produce well-formed vectors\<close>

lemma hash_slot_bound:
  assumes "0 < d" "d < 2 ^ 64"
  shows "unat (hash_slot h d) < d"
proof -
  have d: "unat (of_nat d :: u64) = d" using assms(2) by (simp add: unat_of_nat)
  have "unat (hash_slot h d) \<le> unat (h mod (of_nat d :: u64))"
    by (simp add: hash_slot_def unsigned_ucast_eq)
  also have "\<dots> = unat h mod d" by (simp add: unat_mod d)
  also have "\<dots> < d" using assms(1) by simp
  finally show ?thesis .
qed

lemma backfill_loop_inv:
  assumes "0 < d" "d < 2 ^ 64" "ssorted ixs" "\<forall>i \<in> set ixs. unat i < d" "length ixs \<le> active_count"
  shows "ssorted (backfill_loop ixs active_count d seed counter) \<and>
         (\<forall>i \<in> set (backfill_loop ixs active_count d seed counter). unat i < d) \<and>
         set ixs \<subseteq> set (backfill_loop ixs active_count d seed counter) \<and>
         length (backfill_loop ixs active_count d seed counter) \<le> active_count"
  using assms
proof (induction ixs active_count d seed counter rule: backfill_loop.induct)
  case (1 ixs active_count d seed counter)
  note unf = backfill_loop.simps [of ixs active_count d seed counter]
  show ?case
  proof (cases "length ixs < active_count \<and> counter < active_count * 10")
    case False
    show ?thesis unfolding unf if_not_P [OF False] using "1.prems" by simp
  next
    case True
    define idx where "idx = hash_slot (hash_u64 (seed + 0xDEAD) (of_nat counter)) d"
    define ixs' where "ixs' = (case slice_binary_search ixs idx of
        Inl pos \<Rightarrow> vec_insert pos idx ixs | Inr _ \<Rightarrow> ixs)"
    have idx: "unat idx < d" unfolding idx_def using "1.prems" by (simp add: hash_slot_bound)
    have step: "ssorted ixs' \<and> (\<forall>i \<in> set ixs'. unat i < d) \<and> set ixs \<subseteq> set ixs' \<and>
        length ixs' \<le> active_count"
      using ssorted_vec_insert [OF "1.prems"(3), of idx] "1.prems" True idx
      by (auto simp: ixs'_def vec_insert_def split: sum.splits)
    have eq: "backfill_loop ixs active_count d seed counter =
        backfill_loop ixs' active_count d seed (counter + 1)"
      unfolding unf if_P [OF True] by (simp only: ixs'_def idx_def Let_def)
    show ?thesis
      unfolding eq using "1.IH" [OF True idx_def] step "1.prems"(1,2) by (auto simp: ixs'_def)
  qed
qed

lemma backfill_drawn_wf:
  assumes "0 < d" "d < 2 ^ 64" "\<forall>i \<in> set drawn. unat i < d" "length drawn \<le> active_count"
  shows "hv_wf \<lparr>dim = d, indices = backfill_collisions (remdups_adj (sort drawn)) active_count d seed\<rparr>"
    "length (backfill_collisions (remdups_adj (sort drawn)) active_count d seed) \<le> active_count"
    "set drawn \<subseteq> set (backfill_collisions (remdups_adj (sort drawn)) active_count d seed)"
proof -
  have "length (remdups_adj (sort drawn)) \<le> active_count"
    using assms(4) remdups_adj_length [of "sort drawn"] by simp
  then show
    "hv_wf \<lparr>dim = d, indices = backfill_collisions (remdups_adj (sort drawn)) active_count d seed\<rparr>"
    "length (backfill_collisions (remdups_adj (sort drawn)) active_count d seed) \<le> active_count"
    "set drawn \<subseteq> set (backfill_collisions (remdups_adj (sort drawn)) active_count d seed)"
    using backfill_loop_inv [of d "remdups_adj (sort drawn)" active_count seed 0] assms(1-3)
      ssorted_remdups_adj [of "sort drawn"]
    by (auto simp: backfill_collisions_def intro: hv_wfI)
qed

lemma new_deterministic_wf:
  assumes "0 < d" "d < 2 ^ 64"
  shows "\<exists>v. new_deterministic d seed = Inr v \<and> dim v = d \<and> hv_wf v \<and> indices v \<noteq> [] \<and>
             length (indices v) \<le> max (d div DEFAULT_RHO_DENOM) 1"
proof -
  define active_count where "active_count = max (d div DEFAULT_RHO_DENOM) 1"
  define per_group where "per_group = active_count div NUM_ENTANGLEMENTS"
  define drawn where "drawn =
      (if 0 < per_group then
         concat (map (\<lambda>e. map (\<lambda>p. hash_slot (hash_u64 (hash_u64 seed (of_nat e)) (of_nat p)) d)
                              [0..<per_group])
                     [0..<NUM_ENTANGLEMENTS])
       else map (\<lambda>p. hash_slot (hash_u64 seed (of_nat p)) d) [0..<active_count])"
  have bound: "\<forall>i \<in> set drawn. unat i < d"
    using hash_slot_bound [OF assms] by (auto simp: drawn_def)
  have "length drawn \<le> active_count"
    by (auto simp: drawn_def length_concat comp_def per_group_def NUM_ENTANGLEMENTS_def sum_list_triv)
  moreover have "drawn \<noteq> []"
    by (simp add: drawn_def active_count_def NUM_ENTANGLEMENTS_def concat_eq_Nil_conv)
      (auto intro!: exI [of _ 0])
  ultimately have ne: "backfill_collisions (remdups_adj (sort drawn)) active_count d seed \<noteq> []"
    using backfill_drawn_wf(3) [OF assms bound, of active_count seed] by auto
  from backfill_drawn_wf [OF assms bound \<open>length drawn \<le> active_count\<close>, of seed]
  have wf: "hv_wf \<lparr>dim = d, indices = backfill_collisions (remdups_adj (sort drawn)) active_count d seed\<rparr>"
    "length (backfill_collisions (remdups_adj (sort drawn)) active_count d seed) \<le> active_count"
    by blast+
  have "new_deterministic d seed =
      Inr \<lparr>dim = d, indices = backfill_collisions (remdups_adj (sort drawn)) active_count d seed\<rparr>"
    unfolding new_deterministic_def drawn_def per_group_def active_count_def Let_def
    using assms(1) by simp
  with wf ne show ?thesis by (simp add: active_count_def)
qed

lemma new_with_density_wf:
  assumes "0 < d" "d < 2 ^ 64"
  shows "\<exists>v. new_with_density d denom seed = Inr v \<and> dim v = d \<and> hv_wf v \<and>
             length (indices v) \<le> max (d div max denom 1) 1"
proof -
  let ?n = "max (d div max denom 1) 1"
  let ?drawn = "map (\<lambda>p. hash_slot (hash_u64 seed (of_nat p)) d) [0..<?n]"
  have "\<forall>i \<in> set ?drawn. unat i < d" using hash_slot_bound [OF assms] by auto
  from backfill_drawn_wf [OF assms this, of ?n] show ?thesis
    using assms(1) by (simp add: new_with_density_def Let_def)
qed

section \<open>Binding is symmetric difference\<close>

lemma symmetric_difference_correct:
  "ssorted a \<Longrightarrow> ssorted b \<Longrightarrow>
   ssorted (sorted_symmetric_difference a b) \<and>
   set (sorted_symmetric_difference a b) = (set a - set b) \<union> (set b - set a)"
proof (induction a b rule: sorted_symmetric_difference.induct)
  case (1 x a y b)
  consider "x < y" | "y < x" | "x = y" by force
  then show ?case
  proof cases
    case 1
    then have "x \<notin> set (y # b)" "x \<notin> set a" using "1.prems" by auto
    then show ?thesis using 1 "1.IH"(1) "1.prems" by auto
  next
    case 2
    then have "y \<notin> set (x # a)" "y \<notin> set b" using "1.prems" by auto
    then show ?thesis using 2 "1.IH"(2) "1.prems" by auto
  next
    case 3
    then have "x \<notin> set a" "x \<notin> set b" using "1.prems" by auto
    then show ?thesis using 3 "1.IH"(3) "1.prems" by auto
  qed
qed auto

lemma symdiff_count_loop_length:
  "symdiff_count_loop a b cnt = cnt + length (sorted_symmetric_difference a b)"
  by (induction a b cnt rule: symdiff_count_loop.induct) auto

lemma bind_hv_dim [simp]: "dim (bind_hv v w) = dim v"
  by (simp add: bind_hv_def)

lemma active_bind_hv [simp]:
  "hv_wf v \<Longrightarrow> hv_wf w \<Longrightarrow> active (bind_hv v w) = (active v - active w) \<union> (active w - active v)"
  using symmetric_difference_correct [of "indices v" "indices w"] by (auto simp: bind_hv_def hv_wf_def)

lemma bind_hv_wf [simp, intro]:
  "hv_wf v \<Longrightarrow> hv_wf w \<Longrightarrow> dim v = dim w \<Longrightarrow> hv_wf (bind_hv v w)"
  using symmetric_difference_correct [of "indices v" "indices w"] by (auto simp: bind_hv_def hv_wf_def)

text \<open>
  The interface of a binding operation on the vectors of one dimension: an abelian group in
  which every element is its own inverse.  Cancellation and the recovery of a factor follow.
\<close>

locale self_inverse_binding =
  fixes carrier :: "'v \<Rightarrow> bool" and bnd :: "'v \<Rightarrow> 'v \<Rightarrow> 'v" and unit :: 'v
  assumes closed: "carrier x \<Longrightarrow> carrier y \<Longrightarrow> carrier (bnd x y)"
    and unit_closed: "carrier unit"
    and commute: "carrier x \<Longrightarrow> carrier y \<Longrightarrow> bnd x y = bnd y x"
    and assoc: "carrier x \<Longrightarrow> carrier y \<Longrightarrow> carrier z \<Longrightarrow> bnd (bnd x y) z = bnd x (bnd y z)"
    and unit_left: "carrier x \<Longrightarrow> bnd unit x = x"
    and self_inverse: "carrier x \<Longrightarrow> bnd x x = unit"
begin

lemma unit_right: "carrier x \<Longrightarrow> bnd x unit = x"
  using commute [of x unit] unit_left unit_closed by simp

lemma unbind_right: "carrier x \<Longrightarrow> carrier y \<Longrightarrow> bnd (bnd x y) y = x"
  by (simp add: assoc self_inverse unit_right)

lemma unbind_left: "carrier x \<Longrightarrow> carrier y \<Longrightarrow> bnd x (bnd x y) = y"
  by (simp add: assoc [symmetric] self_inverse unit_left)

lemma cancel: "carrier x \<Longrightarrow> carrier y \<Longrightarrow> carrier z \<Longrightarrow> bnd x y = bnd x z \<Longrightarrow> y = z"
  by (metis unbind_left)

lemma foldl_closed: "carrier a \<Longrightarrow> list_all carrier xs \<Longrightarrow> carrier (foldl bnd a xs)"
  by (induction xs arbitrary: a) (simp_all add: closed)

lemma foldl_accumulator:
  "carrier a \<Longrightarrow> list_all carrier xs \<Longrightarrow> foldl bnd a xs = bnd a (foldl bnd unit xs)"
proof (induction xs arbitrary: a)
  case (Cons x xs)
  then have "foldl bnd (bnd a x) xs = bnd (bnd a x) (foldl bnd unit xs)" by (simp add: closed)
  moreover have "foldl bnd (bnd unit x) xs = bnd x (foldl bnd unit xs)"
    using Cons by (simp add: unit_left)
  ultimately show ?case
    using Cons.prems by (simp add: assoc foldl_closed unit_closed)
qed (simp add: unit_right)

lemma foldl_insert_middle:
  assumes "list_all carrier pre" "carrier x" "list_all carrier post"
  shows "foldl bnd unit (pre @ x # post) = bnd x (foldl bnd unit (pre @ post))"
proof -
  let ?P = "foldl bnd unit pre" and ?Q = "foldl bnd unit post"
  have c: "carrier ?P" "carrier ?Q" using assms by (simp_all add: foldl_closed unit_closed)
  have "foldl bnd unit (pre @ x # post) = bnd (bnd ?P x) ?Q"
    using foldl_accumulator [of "bnd ?P x" post] c assms by (simp add: closed)
  also have "\<dots> = bnd x (bnd ?P ?Q)" using c assms by (metis assoc commute)
  also have "bnd ?P ?Q = foldl bnd unit (pre @ post)"
    using foldl_accumulator [of ?P post] c assms by simp
  finally show ?thesis .
qed

end

definition hv_space :: "usize \<Rightarrow> EntangledHVec \<Rightarrow> bool" where
  "hv_space d v \<longleftrightarrow> hv_wf v \<and> dim v = d"

interpretation xor_binding: self_inverse_binding "hv_space d" bind_hv "from_indices [] d" for d
  by unfold_locales (auto simp: hv_space_def from_indices_def intro!: hv_eqI)

section \<open>Cyclic permutation\<close>

text \<open>
  For dimensions up to \<open>2 ^ 31\<close> (the engine allows at most a million) the \<open>u32\<close> sum
  \<open>idx + shift\<close> does not wrap, and the permutation rotates every index.
\<close>

definition rotate_index :: "usize \<Rightarrow> usize \<Rightarrow> u32 \<Rightarrow> u32" where
  "rotate_index d k i = of_nat ((unat i + k) mod d)"

lemma unat_rotate_index:
  assumes "0 < d" "d \<le> 2 ^ 31"
  shows "unat (rotate_index d k i) = (unat i + k) mod d"
proof -
  have "(unat i + k) mod d < 2 ^ 32"
    using mod_less_divisor [OF assms(1), of "unat i + k"] assms(2) by (simp del: mod_less_divisor)
  then show ?thesis by (simp add: rotate_index_def unat_of_nat)
qed

lemma permute_slot:
  assumes "0 < d" "d \<le> 2 ^ 31" "unat i < d"
  shows "(i + of_nat (k mod d)) mod of_nat d = rotate_index d k i"
proof (rule word_unat_eq_iff [THEN iffD2])
  have no_wrap: "m < d \<Longrightarrow> unat (i + of_nat m :: u32) = unat i + m" for m
    using assms by (simp add: unat_word_ariths unat_of_nat)
  have "unat (i + of_nat (k mod d) :: u32) = unat i + k mod d"
    by (rule no_wrap) (use assms(1) in simp)
  then show "unat ((i + of_nat (k mod d)) mod of_nat d) = unat (rotate_index d k i)"
    using assms by (simp add: unat_mod unat_rotate_index unat_of_nat mod_simps)
qed

lemma rotate_index_add:
  assumes "0 < d" "d \<le> 2 ^ 31"
  shows "rotate_index d k (rotate_index d j i) = rotate_index d (j + k) i"
proof -
  have "(unat (rotate_index d j i) + k) mod d = (unat i + (j + k)) mod d"
    using assms by (simp add: unat_rotate_index mod_simps add.assoc)
  then show ?thesis by (simp add: rotate_index_def)
qed

lemma rotate_index_period:
  assumes "0 < d" "d \<le> 2 ^ 31" "unat i < d"
  shows "rotate_index d (k * d) i = i"
  using assms by (simp add: word_unat_eq_iff unat_rotate_index)

lemma rotate_index_inj:
  assumes "0 < d" "d \<le> 2 ^ 31"
  shows "inj_on (rotate_index d k) {i. unat i < d}"
proof (rule inj_on_inverseI [where g = "rotate_index d (k * d - k)"])
  fix i :: u32
  assume "i \<in> {i. unat i < d}"
  then show "rotate_index d (k * d - k) (rotate_index d k i) = i"
    using assms rotate_index_period [of d i k] by (simp add: rotate_index_add Suc_leI)
qed

lemma permute_dim [simp]: "dim (permute v k) = dim v"
  by (simp add: permute_def Let_def)

lemma indices_permute:
  assumes "hv_wf v" "0 < dim v" "dim v \<le> 2 ^ 31"
  shows "indices (permute v k) = sort (map (rotate_index (dim v) k) (indices v))"
proof -
  have "indices (permute v k) =
      sort (map (\<lambda>i. (i + of_nat (k mod dim v)) mod of_nat (dim v)) (indices v))"
    using assms(2) by (simp add: permute_def Let_def)
  also have "map (\<lambda>i. (i + of_nat (k mod dim v)) mod of_nat (dim v)) (indices v) =
      map (rotate_index (dim v) k) (indices v)"
    using assms by (intro map_cong) (auto simp: permute_slot hv_wf_def)
  finally show ?thesis .
qed

lemma active_permute:
  "hv_wf v \<Longrightarrow> 0 < dim v \<Longrightarrow> dim v \<le> 2 ^ 31 \<Longrightarrow> active (permute v k) = rotate_index (dim v) k ` active v"
  by (simp add: indices_permute)

lemma permute_wf [simp, intro]:
  assumes "hv_wf v" "dim v \<le> 2 ^ 31"
  shows "hv_wf (permute v k)"
proof (cases "dim v = 0")
  case True
  then show ?thesis using assms by (simp add: permute_def)
next
  case False
  have "distinct (map (rotate_index (dim v) k) (indices v))"
    using assms False rotate_index_inj [of "dim v" k]
    by (auto simp: distinct_map hv_wf_def ssorted_distinct elim: inj_on_subset)
  then have "ssorted (indices (permute v k))"
    using assms False by (simp add: indices_permute sorted_distinct_ssorted)
  moreover have "\<forall>i \<in> active (permute v k). unat i < dim v"
    using assms False by (auto simp: active_permute unat_rotate_index)
  ultimately show ?thesis by (simp add: hv_wf_def)
qed

lemma permute_add:
  assumes "hv_wf v" "dim v \<le> 2 ^ 31"
  shows "permute (permute v j) k = permute v (j + k)"
proof (cases "dim v = 0")
  case True
  then show ?thesis by (simp add: permute_def)
next
  case False
  then have "active (permute (permute v j) k) = active (permute v (j + k))"
    using assms by (simp add: active_permute image_image rotate_index_add)
  then show ?thesis using assms by (intro hv_eqI) auto
qed

lemma permute_multiple:
  assumes "hv_wf v" "dim v \<le> 2 ^ 31"
  shows "permute v (k * dim v) = v"
proof (cases "dim v = 0")
  case True
  then show ?thesis by (simp add: permute_def)
next
  case False
  have "rotate_index (dim v) (k * dim v) ` active v = (\<lambda>i. i) ` active v"
    using assms False by (intro image_cong) (auto simp: hv_wf_def rotate_index_period)
  then have "active (permute v (k * dim v)) = active v"
    using assms False by (simp add: active_permute)
  then show ?thesis using assms by (intro hv_eqI) auto
qed

text \<open>Rotation distributes over symmetric difference because it is injective.\<close>

lemma permute_bind:
  assumes "hv_wf v" "hv_wf w" "dim v = dim w" "dim v \<le> 2 ^ 31"
  shows "permute (bind_hv v w) k = bind_hv (permute v k) (permute w k)"
proof (cases "dim v = 0")
  case True
  then show ?thesis using assms by (simp add: permute_def)
next
  case False
  let ?r = "rotate_index (dim v) k"
  have inj: "inj_on ?r (active v \<union> active w)"
    using rotate_index_inj [of "dim v" k] assms False
    by (auto simp: hv_wf_def elim!: inj_on_subset)
  have diff: "?r ` (active v - active w) = ?r ` active v - ?r ` active w"
    "?r ` (active w - active v) = ?r ` active w - ?r ` active v"
    by (rule inj_on_image_set_diff [OF inj]; blast)+
  have "active (permute (bind_hv v w) k) = active (bind_hv (permute v k) (permute w k))"
    using assms False diff by (simp add: active_permute image_Un)
  then show ?thesis using assms by (intro hv_eqI) auto
qed

lemma bind_ordered_unbind:
  assumes "hv_wf v" "hv_wf w" "dim v = dim w" "dim v \<le> 2 ^ 31"
  shows "unbind_ordered_left (bind_ordered v w) w = v"
proof -
  let ?d = "dim v"
  have sp: "hv_space ?d (permute v 1)" "hv_space ?d w" using assms by (auto simp: hv_space_def)
  have "bind_hv (bind_ordered v w) w = permute v 1"
    unfolding bind_ordered_def by (rule xor_binding.unbind_right [OF sp])
  then have "unbind_ordered_left (bind_ordered v w) w = permute (permute v 1) (?d - 1)"
    by (simp add: unbind_ordered_left_def bind_ordered_def)
  also have "\<dots> = permute v (1 + (?d - 1))" using assms by (intro permute_add) auto
  also have "\<dots> = v"
    using permute_multiple [of v 1] assms by (cases "?d = 0") (simp_all add: permute_def)
  finally show ?thesis .
qed

section \<open>Delta encoding round trip\<close>

lemma deltas_loop_gaps:
  assumes "sorted_wrt (\<le>) (prev # xs)" "\<forall>i \<in> set xs. unat i < d"
  shows "deltas_loop prev d (gaps_from prev xs) = xs"
  using assms
proof (induction xs arbitrary: prev)
  case (Cons x xs)
  have le: "prev \<le> x" using Cons.prems(1) by simp
  then have "unat prev + unat (x - prev) = unat x"
    by (simp add: unat_sub word_le_nat_alt)
  then show ?case
    using Cons unsigned_less [of x] by simp
qed simp

lemma deltas_loop_bounds:
  "\<forall>i \<in> set (deltas_loop current d xs). unat i < d \<and> current \<le> i"
  "sorted (deltas_loop current d xs)"
proof (induction xs arbitrary: current)
  case (Cons x xs)
  {
    case 1
    show ?case using Cons(1) [of "current + x"]
      by (force simp: word_le_nat_alt unat_word_ariths)
  next
    case 2
    show ?case using Cons(1,2) [of "current + x"] by simp
  }
qed simp_all

section \<open>Bloom bundles\<close>

lemma active_bundle_bloom:
  "vectors \<noteq> [] \<Longrightarrow> active (bundle_bloom vectors) = (\<Union>v \<in> set vectors. active v)"
  by (cases vectors) (auto simp: bundle_bloom_def)

lemma bundle_bloom_wf:
  assumes "\<forall>v \<in> set vectors. hv_space d v"
  shows "hv_wf (bundle_bloom vectors)"
proof (cases vectors)
  case (Cons v vs)
  have "\<forall>i \<in> active (bundle_bloom vectors). unat i < dim v"
    using assms Cons active_bundle_bloom [of vectors] by (auto simp: hv_space_def hv_wf_def)
  then show ?thesis
    by (simp add: Cons bundle_bloom_def hv_wf_def ssorted_remdups_adj)
qed (simp add: bundle_bloom_def)

section \<open>Distances\<close>

lemma card_symmetric_difference:
  assumes "finite A" "finite B"
  shows "card ((A - B) \<union> (B - A)) = card A + card B - 2 * card (A \<inter> B)"
proof -
  have "card ((A - B) \<union> (B - A)) = card (A - B) + card (B - A)"
    using assms by (intro card_Un_disjoint) auto
  moreover have "card (A - B) = card A - card (A \<inter> B)" "card (B - A) = card B - card (A \<inter> B)"
    using assms by (metis card_Diff_subset_Int finite_Int Int_commute)+
  moreover have "card (A \<inter> B) \<le> card A" "card (A \<inter> B) \<le> card B"
    using assms by (auto intro: card_mono)
  ultimately show ?thesis by simp
qed

lemma hv_wf_length_bound:
  assumes "hv_wf v"
  shows "length (indices v) \<le> dim v"
proof -
  have "inj_on unat (active v)" by (simp add: inj_on_def word_unat_eq_iff)
  then have "card (active v) = card (unat ` active v)" by (simp add: card_image)
  also have "\<dots> \<le> card {..<dim v}" using assms by (intro card_mono) (auto simp: hv_wf_def)
  finally show ?thesis using assms by (simp add: ssorted_card hv_wf_ssorted)
qed

lemma hamming_symdiff:
  assumes "hv_wf v" "hv_wf w" "dim v = dim w" "dim v \<le> 2 ^ 31"
  shows "unat (hamming avx2 v w) = card ((active v - active w) \<union> (active w - active v))"
proof -
  note s = hv_wf_ssorted [OF assms(1)] hv_wf_ssorted [OF assms(2)]
  have eq: "length (indices v) + length (indices w) - 2 * sparse_intersection_count avx2 (indices v) (indices w)
      = card ((active v - active w) \<union> (active w - active v))" (is "?n = ?c")
    by (simp add: card_symmetric_difference dispatch.count_correct [OF s] ssorted_card s)
  have "?c \<le> dim v"
    using hv_wf_length_bound [OF bind_hv_wf [OF assms(1-3)]]
      ssorted_card [OF hv_wf_ssorted [OF bind_hv_wf [OF assms(1-3)]]] assms(1,2) by simp
  then show ?thesis
    using assms(4) unfolding hamming_def Let_def eq by (simp add: unat_of_nat)
qed

section \<open>Properties\<close>

text \<open>
  The deterministic constructor returns, for every positive dimension, a strictly ascending
  list of indices inside the dimension, with between one and \<open>max (dim / 256) 1\<close> entries.
\<close>

theorem new_deterministic_correct:
  assumes "0 < d" "d < 2 ^ 64"
  shows "\<exists>v. new_deterministic d seed = Inr v \<and> dim v = d \<and> ssorted (indices v) \<and>
             (\<forall>i \<in> set (indices v). unat i < d) \<and> indices v \<noteq> [] \<and>
             length (indices v) \<le> max (d div DEFAULT_RHO_DENOM) 1"
  using new_deterministic_wf [OF assms, of seed] by (auto simp: hv_wf_def)

theorem new_deterministic_correct_witness:
  "\<exists>v. new_deterministic 16384 7 = Inr v \<and> length (indices v) \<le> 64"
  using new_deterministic_correct [of 16384 7] by (auto simp: DEFAULT_RHO_DENOM_def)

text \<open>
  Binding vectors of one dimension is an abelian group operation in which every vector is
  its own inverse: it is closed, commutative and associative, and binding twice with the same
  vector gives the original back.
\<close>

theorem bind_group:
  assumes "hv_space d x" "hv_space d y" "hv_space d z"
  shows "hv_space d (bind_hv x y) \<and> bind_hv x y = bind_hv y x \<and>
    bind_hv (bind_hv x y) z = bind_hv x (bind_hv y z) \<and> bind_hv (bind_hv x y) y = x"
  using assms by (intro conjI) (auto intro: xor_binding.closed xor_binding.commute xor_binding.assoc
      xor_binding.unbind_right)

theorem bind_group_witness:
  "bind_hv (bind_hv (from_indices [1, 5] 8) (from_indices [2, 5] 8)) (from_indices [2, 5] 8) =
   from_indices [1, 5] 8"
proof -
  have h: "hv_space 8 (from_indices [1, 5] 8)" "hv_space 8 (from_indices [2, 5] 8)"
    by (simp_all add: hv_space_def hv_wf_def from_indices_def)
  show ?thesis using bind_group [OF h h(1)] by blast
qed

text \<open>
  The Hamming distance of two vectors of one dimension is the number of active indices of
  their binding, that is, the size of the symmetric difference, with no wrap-around.
\<close>

theorem hamming_is_bind_size:
  assumes "hv_wf v" "hv_wf w" "dim v = dim w" "dim v \<le> 2 ^ 31"
  shows "unat (hamming avx2 v w) = length (indices (bind_hv v w))"
proof -
  have "length (indices (bind_hv v w)) = card (active (bind_hv v w))"
    using assms by (simp only: ssorted_card hv_wf_ssorted bind_hv_wf)
  then show ?thesis using assms hamming_symdiff [OF assms] by simp
qed

theorem hamming_is_bind_size_witness:
  "unat (hamming False (from_indices [1, 5] 8) (from_indices [2, 5] 8)) =
   length (indices (bind_hv (from_indices [1, 5] 8) (from_indices [2, 5] 8)))"
  by (rule hamming_is_bind_size) (simp_all add: hv_wf_def from_indices_def)

text \<open>
  \<open>unbind_ordered_left\<close> inverts \<open>bind_ordered\<close>: the left operand is recovered exactly.
\<close>

theorem unbind_ordered_left_inverts:
  assumes "hv_wf v" "hv_wf w" "dim v = dim w" "dim v \<le> 2 ^ 31"
  shows "unbind_ordered_left (bind_ordered v w) w = v"
  using assms by (rule bind_ordered_unbind)

theorem unbind_ordered_left_inverts_witness:
  "unbind_ordered_left (bind_ordered (from_indices [1, 7] 8) (from_indices [2, 5] 8)) (from_indices [2, 5] 8) =
   from_indices [1, 7] 8"
  by (rule unbind_ordered_left_inverts) (simp_all add: hv_wf_def from_indices_def)

text \<open>
  The delta encoding loses nothing: decoding the deltas of a well-formed vector in its own
  dimension returns the vector.
\<close>

theorem deltas_roundtrip:
  assumes "hv_wf v"
  shows "from_deltas (to_deltas v) (dim v) = v"
proof (cases "indices v")
  case Nil
  then show ?thesis by (simp add: from_deltas_def to_deltas_def)
next
  case (Cons x xs)
  have "sorted_wrt (\<le>) (0 # x # xs)"
    using hv_wf_ssorted [OF assms] Cons by (auto simp: less_imp_le intro: sorted_wrt_mono_rel [of _ "(<)"])
  moreover have "\<forall>i \<in> set (x # xs). unat i < dim v" using assms Cons by (simp add: hv_wf_def)
  ultimately have "deltas_loop 0 (dim v) (gaps_from 0 (x # xs)) = x # xs"
    by (rule deltas_loop_gaps)
  then show ?thesis using Cons by (simp add: from_deltas_def to_deltas_def)
qed

theorem deltas_roundtrip_witness:
  "from_deltas (to_deltas (from_indices [3, 9, 11] 16)) 16 = from_indices [3, 9, 11] 16"
  using deltas_roundtrip [of "from_indices [3, 9, 11] 16"] by (simp add: hv_wf_def from_indices_def)

text \<open>
  Decoding arbitrary (possibly corrupt) deltas never yields an index outside the dimension
  and never a descending pair.
\<close>

theorem from_deltas_safe:
  "sorted (indices (from_deltas deltas d)) \<and> set (indices (from_deltas deltas d)) \<subseteq> {i. unat i < d}"
  using deltas_loop_bounds [of 0 d deltas] by (auto simp: from_deltas_def)

text \<open>
  A Bloom bundle of vectors of one dimension is well formed, its active indices are the
  union of the members', and the containment similarity of every member in it is 1.
\<close>

theorem bundle_bloom_contains_members:
  assumes "\<forall>v \<in> set vectors. hv_space d v" "v \<in> set vectors" "rnd 1 = 1"
  shows "hv_wf (bundle_bloom vectors) \<and>
    set (indices (bundle_bloom vectors)) = (\<Union>v \<in> set vectors. set (indices v)) \<and>
    containment_similarity rnd avx2 v (bundle_bloom vectors) = 1"
proof (intro conjI)
  have ne: "vectors \<noteq> []" using assms(2) by auto
  show wf: "hv_wf (bundle_bloom vectors)" using assms(1) by (rule bundle_bloom_wf)
  show un: "active (bundle_bloom vectors) = (\<Union>v \<in> set vectors. active v)"
    using ne by (rule active_bundle_bloom)
  have "ssorted (indices v)" using assms(1,2) by (auto simp: hv_space_def)
  then have "sparse_intersection_count avx2 (indices v) (indices (bundle_bloom vectors)) = length (indices v)"
    using dispatch.count_full_iff [of "indices v"] wf un assms(2) by (auto simp: hv_wf_def)
  then show "containment_similarity rnd avx2 v (bundle_bloom vectors) = 1"
    using assms(3) by (simp add: containment_similarity_def)
qed

theorem bundle_bloom_contains_members_witness:
  "containment_similarity id False (from_indices [1, 5] 8)
     (bundle_bloom [from_indices [1, 5] 8, from_indices [2, 5] 8]) = 1"
proof -
  let ?vs = "[from_indices [1, 5] 8, from_indices [2, 5] 8]"
  have h: "\<forall>v \<in> set ?vs. hv_space 8 v" "from_indices [1, 5] 8 \<in> set ?vs" "id (1 :: rat) = 1"
    by (simp_all add: hv_space_def hv_wf_def from_indices_def)
  show ?thesis using bundle_bloom_contains_members [OF h(1,2), of id] h(3) by blast
qed

end
