(* ===== verification/Bundle.thy ===== *)
theory Bundle
  imports Entangled
begin

text \<open>
  The majority bundle of \<open>src/core/entangled.rs\<close>: \<open>bundle\<close> counts every index over the
  input vectors and keeps the most frequent of those that reach half the inputs.  The count is
  taken either in a per-thread histogram that must be all zero between calls
  (\<open>count_majority\<close>) or by sorting the concatenated indices and counting runs.  The theory
  proves that the two counts agree, that the histogram is left all zero, and what the bundle
  contains.
\<close>

definition BUNDLE_COUNTING_MAX_DIM :: usize where "BUNDLE_COUNTING_MAX_DIM = 2 ^ 16"

section \<open>Counting in the histogram\<close>

definition bump :: "u32 \<Rightarrow> u32 list \<Rightarrow> u32 list" where
  "bump idx counts = counts[unat idx := counts ! unat idx + 1]"

text \<open>
  The sparse read-out: every slot named by an input index is taken (\<open>mem::take\<close> leaves zero),
  so an index is selected at its first visit only.
\<close>

fun take_counted :: "u32 \<Rightarrow> u32 list \<Rightarrow> u32 list \<Rightarrow> (u32 \<times> u32) list \<times> u32 list" where
  "take_counted threshold [] counts = ([], counts)"
| "take_counted threshold (idx # ixs) counts =
     (let n = counts ! unat idx;
          (selected, counts') = take_counted threshold ixs (counts[unat idx := 0])
      in (if threshold \<le> n then (idx, n) # selected else selected, counts'))"

text \<open>
  \<open>count_majority\<close> on the thread's buffer \<open>counts\<close>: the selected pairs, or \<open>None\<close> when the
  dimension is too large or an index lies outside it, and the buffer after the call.
\<close>

definition count_majority ::
    "u32 list \<Rightarrow> EntangledHVec list \<Rightarrow> usize \<Rightarrow> u32 \<Rightarrow> (u32 \<times> u32) list option \<times> u32 list" where
  "count_majority counts vectors d threshold =
     (if BUNDLE_COUNTING_MAX_DIM < d then (None, counts)
      else if \<exists>v \<in> set vectors. \<exists>idx \<in> set (indices v). d \<le> unat idx then (None, counts)
      else
        let total = sum_list (map (\<lambda>v. length (indices v)) vectors);
            buffer = (if length counts < d then counts @ replicate (d - length counts) 0 else counts);
            all_indices = concat (map indices vectors);
            hist = fold bump all_indices (take d buffer)
        in if total < d then
             let (selected, hist') = take_counted threshold all_indices hist
             in (Some (sort_key fst selected), hist' @ drop d buffer)
           else
             (Some (filter (\<lambda>(idx, n). threshold \<le> n)
                     (map (\<lambda>i. (of_nat i, hist ! i)) [0..<d])),
              replicate d 0 @ drop d buffer))"

section \<open>Counting runs of the sorted indices\<close>

fun run_lengths :: "u32 \<Rightarrow> u32 \<Rightarrow> u32 \<Rightarrow> u32 list \<Rightarrow> (u32 \<times> u32) list" where
  "run_lengths threshold current n [] = (if threshold \<le> n then [(current, n)] else [])"
| "run_lengths threshold current n (idx # ixs) =
     (if idx = current then run_lengths threshold current (n + 1) ixs
      else (if threshold \<le> n then [(current, n)] else []) @ run_lengths threshold idx 1 ixs)"

definition count_runs :: "u32 \<Rightarrow> u32 list \<Rightarrow> (u32 \<times> u32) list" where
  "count_runs threshold sorted_indices =
     (case sorted_indices of [] \<Rightarrow> [] | x # xs \<Rightarrow> run_lengths threshold x 1 xs)"

section \<open>Selection and the bundle\<close>

text \<open>
  \<open>select_nth k\<close> stands for \<open>select_nth_unstable_by(k - 1, count descending)\<close>: a permutation
  whose first \<open>k\<close> entries have counts at least those of the rest; how it orders equal counts
  is not documented.
\<close>

definition from_selected ::
    "(nat \<Rightarrow> (u32 \<times> u32) list \<Rightarrow> (u32 \<times> u32) list) \<Rightarrow> (u32 \<times> u32) list \<Rightarrow> usize \<Rightarrow> usize \<Rightarrow> EntangledHVec"
  where
  "from_selected select_nth selected d target_count =
     (let kept = (if target_count < length selected
                  then take target_count (select_nth target_count selected) else selected)
      in \<lparr>dim = d, indices = sort (map fst kept)\<rparr>)"

definition div_ceil2 :: "u32 \<Rightarrow> u32" where
  "div_ceil2 n = n div 2 + n mod 2"

definition bundle_hv ::
    "(nat \<Rightarrow> (u32 \<times> u32) list \<Rightarrow> (u32 \<times> u32) list) \<Rightarrow> u32 list \<Rightarrow> EntangledHVec list
      \<Rightarrow> EntangledHVec \<times> u32 list" where
  "bundle_hv select_nth counts vectors =
     (case vectors of
        [] \<Rightarrow> (\<lparr>dim = 0, indices = []\<rparr>, counts)
      | v # _ \<Rightarrow>
          let d = dim v;
              threshold = div_ceil2 (of_nat (length vectors));
              target_count = max (d div DEFAULT_RHO_DENOM) 1
          in case count_majority counts vectors d threshold of
               (Some selected, counts') \<Rightarrow> (from_selected select_nth selected d target_count, counts')
             | (None, counts') \<Rightarrow>
                 let all_indices = sort (concat (map indices vectors))
                 in if all_indices = [] then (\<lparr>dim = d, indices = []\<rparr>, counts')
                    else (from_selected select_nth (count_runs threshold all_indices) d target_count, counts'))"

section \<open>The reference count\<close>

definition majority :: "u32 \<Rightarrow> u32 list \<Rightarrow> (u32 \<times> u32) list" where
  "majority threshold ixs =
     map (\<lambda>i. (i, of_nat (count_list ixs i)))
       (filter (\<lambda>i. threshold \<le> of_nat (count_list ixs i)) (remdups_adj (sort ixs)))"

lemma run_lengths_replicate:
  "run_lengths threshold x n (replicate k x @ ys) = run_lengths threshold x (n + of_nat k) ys"
  by (induction k arbitrary: n) (simp_all add: add.assoc)

lemma sorted_split_head:
  assumes "sorted (x # xs)"
  obtains k ys where "xs = replicate k x @ ys" "\<forall>y \<in> set ys. x < y" "sorted ys"
proof -
  let ?k = "length (takeWhile (\<lambda>y. y = x) xs)" and ?ys = "dropWhile (\<lambda>y. y = x) xs"
  have "takeWhile (\<lambda>y. y = x) xs = replicate ?k x"
    by (rule replicate_eqI) (auto dest: set_takeWhileD)
  then have split: "xs = replicate ?k x @ ?ys" by (metis takeWhile_dropWhile_id)
  have s: "sorted ?ys" using assms by (simp add: sorted_dropWhile)
  have "\<forall>y \<in> set ?ys. x < y"
  proof (cases ?ys)
    case (Cons z zs)
    then have "z \<noteq> x" by (simp add: dropWhile_eq_Cons_conv)
    moreover have "z \<in> set xs" using Cons by (metis list.set_intros(1) set_dropWhileD)
    ultimately have "x < z" using assms by auto
    then show ?thesis using s Cons by auto
  next
    case Nil
    then show ?thesis by (simp only: Nil list.set ball_empty)
  qed
  with split s show ?thesis using that by blast
qed

lemma count_list_replicate: "count_list (replicate k x) y = (if x = y then k else 0)"
  by (induction k) auto

lemma remdups_adj_head:
  fixes x :: "'a::linorder"
  assumes "\<forall>y \<in> set ys. x < y"
  shows "remdups_adj (x # replicate k x @ ys) = x # remdups_adj ys"
proof (induction k)
  case 0
  show ?case using assms by (cases ys) auto
qed simp

lemma count_runs_sorted:
  "sorted xs \<Longrightarrow> count_runs threshold xs =
     map (\<lambda>i. (i, of_nat (count_list xs i)))
       (filter (\<lambda>i. threshold \<le> of_nat (count_list xs i)) (remdups_adj xs))"
proof (induction xs rule: length_induct)
  case (1 xs)
  show ?case
  proof (cases xs)
    case (Cons x rest)
    then obtain k ys where split: "rest = replicate k x @ ys" "\<forall>y \<in> set ys. x < y" "sorted ys"
      using "1.prems" sorted_split_head by metis
    have cx: "count_list xs x = Suc k"
      using split(2) count_notin [of x ys] by (auto simp: Cons split(1) count_list_replicate)
    have cy: "y \<in> set ys \<Longrightarrow> count_list xs y = count_list ys y" for y
      using split(2) by (auto simp: Cons split(1) count_list_replicate)
    have IH: "count_runs threshold ys =
       map (\<lambda>i. (i, of_nat (count_list ys i)))
         (filter (\<lambda>i. threshold \<le> of_nat (count_list ys i)) (remdups_adj ys))"
      using 1 split(3) by (simp add: Cons split(1))
    have tail: "run_lengths threshold x n ys =
        (if threshold \<le> n then [(x, n)] else []) @ count_runs threshold ys" for n
      using split(2) by (cases ys) (auto simp: count_runs_def)
    have "count_runs threshold xs =
        (if threshold \<le> 1 + of_nat k then [(x, 1 + of_nat k)] else []) @ count_runs threshold ys"
      by (simp add: Cons split(1) count_runs_def run_lengths_replicate tail)
    moreover have "map (\<lambda>i. (i, of_nat (count_list xs i)))
         (filter (\<lambda>i. threshold \<le> of_nat (count_list xs i)) (remdups_adj ys)) = count_runs threshold ys"
      unfolding IH using cy by (auto intro!: map_cong filter_cong)
    ultimately show ?thesis
      using cx by (simp add: remdups_adj_head [OF split(2)] Cons split(1))
  qed (simp add: count_runs_def)
qed

lemma count_list_sort [simp]: "count_list (sort xs) i = count_list xs i"
  by (metis count_mset mset_sort)

lemma count_runs_majority: "count_runs threshold (sort ixs) = majority threshold ixs"
  by (simp add: count_runs_sorted majority_def)

section \<open>The histogram agrees with the reference count\<close>

lemma length_fold_bump [simp]: "length (fold bump ixs counts) = length counts"
  by (induction ixs arbitrary: counts) (simp_all add: bump_def)

lemma length_bump [simp]: "length (bump i counts) = length counts"
  by (simp add: bump_def)

lemma nth_fold_bump:
  assumes "\<forall>i \<in> set ixs. unat i < length counts" "unat j < length counts"
  shows "fold bump ixs counts ! unat j = counts ! unat j + of_nat (count_list ixs j)"
  using assms
proof (induction ixs arbitrary: counts)
  case (Cons i ixs)
  have "fold bump (i # ixs) counts ! unat j = bump i counts ! unat j + of_nat (count_list ixs j)"
    using Cons by simp
  moreover have "bump i counts ! unat j = counts ! unat j + (if i = j then 1 else 0)"
    using Cons.prems by (auto simp: bump_def nth_list_update word_unat_eq_iff)
  ultimately show ?case by simp
qed simp

lemma take_counted_correct:
  assumes "0 < threshold" "\<forall>i \<in> set ixs. unat i < length counts"
  shows "fst (take_counted threshold ixs counts) =
           map (\<lambda>i. (i, counts ! unat i)) (filter (\<lambda>i. threshold \<le> counts ! unat i) (rev (remdups (rev ixs))))
       \<and> snd (take_counted threshold ixs counts) =
           map (\<lambda>k. if k \<in> unat ` set ixs then 0 else counts ! k) [0..<length counts]"
  using assms(2)
proof (induction ixs arbitrary: counts)
  case Nil
  then show ?case by (simp add: map_nth)
next
  case (Cons i ixs)
  let ?c = "counts[unat i := 0]"
  let ?f = "\<lambda>c. map (\<lambda>i. (i, c ! unat i)) (filter (\<lambda>i. threshold \<le> c ! unat i) (rev (remdups (rev ixs))))"
  have IH: "fst (take_counted threshold ixs ?c) = ?f ?c"
    "snd (take_counted threshold ixs ?c) =
       map (\<lambda>k. if k \<in> unat ` set ixs then 0 else ?c ! k) [0..<length counts]"
    using Cons.IH [of ?c] Cons.prems by auto
  have zero: "\<not> threshold \<le> ?c ! unat i" using assms(1) Cons.prems by simp
  have other: "j \<noteq> i \<Longrightarrow> ?c ! unat j = counts ! unat j" for j
    by (simp add: nth_list_update_neq word_unat_eq_iff)
  have rem: "rev (remdups (rev (i # ixs))) = i # filter (\<lambda>j. j \<noteq> i) (rev (remdups (rev ixs)))"
  proof -
    have "remdups (xs @ [i]) = filter (\<lambda>j. j \<noteq> i) (remdups xs) @ [i]" for xs
      by (induction xs) auto
    then show ?thesis by (simp add: rev_filter)
  qed
  have "?f ?c = map (\<lambda>j. (j, counts ! unat j))
      (filter (\<lambda>j. threshold \<le> counts ! unat j) (filter (\<lambda>j. j \<noteq> i) (rev (remdups (rev ixs)))))"
  proof -
    have "filter (\<lambda>j. threshold \<le> ?c ! unat j) xs =
        filter (\<lambda>j. threshold \<le> counts ! unat j) (filter (\<lambda>j. j \<noteq> i) xs)" for xs
      unfolding filter_filter using zero other by (intro filter_cong) metis+
    then show ?thesis using other by (auto intro!: map_cong)
  qed
  then have "fst (take_counted threshold (i # ixs) counts) =
      map (\<lambda>i. (i, counts ! unat i)) (filter (\<lambda>i. threshold \<le> counts ! unat i) (rev (remdups (rev (i # ixs)))))"
    unfolding rem by (simp add: Let_def IH(1) case_prod_beta del: filter_filter)
  moreover have "snd (take_counted threshold (i # ixs) counts) =
      map (\<lambda>k. if k \<in> unat ` set (i # ixs) then 0 else counts ! k) [0..<length counts]"
    using IH(2) Cons.prems by (auto simp: Let_def nth_list_update case_prod_beta)
  ultimately show ?case by blast
qed

lemma sort_pairs: "sort_key fst (map (\<lambda>i. (i, h i)) xs) = map (\<lambda>i. (i, h i)) (sort xs)"
proof (induction xs)
  case (Cons x xs)
  have "insort_key fst (x, h x) (map (\<lambda>i. (i, h i)) ys) = map (\<lambda>i. (i, h i)) (insort x ys)" for ys
    by (induction ys) auto
  then show ?case using Cons by simp
qed simp

lemma sort_first_visits: "sort (rev (remdups (rev ixs))) = remdups_adj (sort ixs)"
  by (rule ssorted_unique) (auto simp: sorted_distinct_ssorted ssorted_remdups_adj)

lemma take_zero_buffer:
  assumes "\<forall>c \<in> set counts. c = (0::u32)"
  shows "take d (if length counts < d then counts @ replicate (d - length counts) 0 else counts) = replicate d 0"
  using assms by (intro replicate_eqI) (auto dest!: in_set_takeD split: if_splits)

lemma dense_readout:
  assumes "0 < threshold" "d \<le> 2 ^ 16" "\<forall>i \<in> set ixs. unat i < d"
    "\<And>i. unat i < d \<Longrightarrow> hist ! unat i = of_nat (count_list ixs i)"
  shows "filter (\<lambda>(idx, n). threshold \<le> n) (map (\<lambda>i. (of_nat i, hist ! i)) [0..<d]) = majority threshold ixs"
proof -
  let ?U = "map of_nat [0..<d] :: u32 list"
  let ?Q = "\<lambda>i. threshold \<le> of_nat (count_list ixs i)"
  have un: "k < d \<Longrightarrow> unat (of_nat k :: u32) = k" for k
    using assms(2) by (simp add: unat_of_nat)
  have U: "set ?U = {i. unat i < d}"
  proof
    show "{i. unat i < d} \<subseteq> set ?U" by (auto intro!: image_eqI [of _ _ "unat _"])
  qed (use un in auto)
  have sU: "ssorted ?U"
    using un by (auto simp: sorted_wrt_map word_less_nat_alt intro!: sorted_wrt_mono_rel [OF _ sorted_wrt_upt])
  have "filter (\<lambda>(idx, n). threshold \<le> n) (map (\<lambda>i. (of_nat i, hist ! i)) [0..<d]) =
      filter (\<lambda>(idx, n). threshold \<le> n) (map (\<lambda>i. (i, of_nat (count_list ixs i))) ?U)"
  proof -
    have "k < d \<Longrightarrow> hist ! k = of_nat (count_list ixs (of_nat k))" for k
      using assms(4) [of "of_nat k"] un [of k] by simp
    then show ?thesis by (intro arg_cong [where f = "filter _"]) auto
  qed
  also have "\<dots> = map (\<lambda>i. (i, of_nat (count_list ixs i))) (filter ?Q ?U)"
    by (simp add: filter_map comp_def)
  also have "filter ?Q ?U = filter ?Q (remdups_adj (sort ixs))"
  proof (rule ssorted_unique)
    show "ssorted (filter ?Q ?U)" using sU by (rule sorted_wrt_filter)
    show "ssorted (filter ?Q (remdups_adj (sort ixs)))"
      by (intro sorted_wrt_filter ssorted_remdups_adj) simp
    have "?Q i \<Longrightarrow> i \<in> set ixs" for i
      using assms(1) count_notin [of i ixs] by (cases "i \<in> set ixs") auto
    then show "set (filter ?Q ?U) = set (filter ?Q (remdups_adj (sort ixs)))"
      using U assms(3) by auto
  qed
  finally show ?thesis by (simp add: majority_def)
qed

lemma count_majority_correct:
  assumes "0 < threshold" "\<forall>c \<in> set counts. c = 0" "count_majority counts vectors d threshold = (res, counts')"
  shows "\<forall>c \<in> set counts'. c = 0"
    "res = Some sel \<Longrightarrow> sel = majority threshold (concat (map indices vectors))"
proof -
  let ?all = "concat (map indices vectors)"
  define buffer where
    "buffer = (if length counts < d then counts @ replicate (d - length counts) 0 else counts)"
  define hist where "hist = fold bump ?all (replicate d 0)"
  have zero_tail: "\<forall>c \<in> set (drop d buffer). c = 0"
    using assms(2) by (auto simp: buffer_def dest: in_set_dropD)
  consider (fallback) "res = None" "counts' = counts"
    | (counted) "d \<le> 2 ^ 16" "\<forall>i \<in> set ?all. unat i < d"
        "(res, counts') = (if sum_list (map (\<lambda>v. length (indices v)) vectors) < d then
             (Some (sort_key fst (fst (take_counted threshold ?all hist))),
              snd (take_counted threshold ?all hist) @ drop d buffer)
           else (Some (filter (\<lambda>(idx, n). threshold \<le> n) (map (\<lambda>i. (of_nat i, hist ! i)) [0..<d])),
              replicate d 0 @ drop d buffer))"
    using assms(3) take_zero_buffer [OF assms(2), of d]
    unfolding count_majority_def Let_def buffer_def [symmetric] hist_def BUNDLE_COUNTING_MAX_DIM_def
    by (auto simp: case_prod_beta not_le split: if_splits)
  then have both: "(\<forall>c \<in> set counts'. c = 0) \<and> (res = Some sel \<longrightarrow> sel = majority threshold ?all)"
  proof cases
    case counted
    have len: "length hist = d" by (simp add: hist_def)
    have h: "unat i < d \<Longrightarrow> hist ! unat i = of_nat (count_list ?all i)" for i
      using nth_fold_bump [of ?all "replicate d 0" i] counted(2) by (simp add: hist_def)
    have tc: "fst (take_counted threshold ?all hist) =
        map (\<lambda>i. (i, of_nat (count_list ?all i)))
          (filter (\<lambda>i. threshold \<le> of_nat (count_list ?all i)) (rev (remdups (rev ?all))))"
      using take_counted_correct [OF assms(1), of ?all hist] counted(2) len h
      by (auto intro!: map_cong filter_cong simp del: map_map)
    have sparse: "sort_key fst (fst (take_counted threshold ?all hist)) = majority threshold ?all"
      unfolding tc sort_pairs majority_def sort_first_visits [symmetric] by (simp add: filter_sort)
    have cleared: "\<forall>c \<in> set (snd (take_counted threshold ?all hist)). c = 0"
    proof -
      have "hist ! k = 0" if "k < d" "k \<notin> unat ` set ?all" for k
      proof -
        have k: "unat (of_nat k :: u32) = k" using that(1) counted(1) by (simp add: unat_of_nat)
        then have "of_nat k \<notin> set ?all" using that(2) by (metis image_eqI)
        then have c: "count_list ?all (of_nat k) = 0" by (rule count_notin)
        have "hist ! unat (of_nat k :: u32) = of_nat (count_list ?all (of_nat k))"
          by (rule h) (use k that(1) in simp)
        then show ?thesis unfolding k c by simp
      qed
      then show ?thesis
        using take_counted_correct [OF assms(1), of ?all hist] counted(2) len by auto
    qed
    show ?thesis
      using counted(3) sparse cleared zero_tail dense_readout [OF assms(1) counted(1,2) h]
      by (auto split: if_splits)
  qed (use assms(2) in auto)
  then show "\<forall>c \<in> set counts'. c = 0"
    "res = Some sel \<Longrightarrow> sel = majority threshold ?all" by auto
qed

section \<open>What the bundle contains\<close>

definition votes :: "EntangledHVec list \<Rightarrow> u32 \<Rightarrow> nat" where
  "votes vectors i = length (filter (\<lambda>v. i \<in> active v) vectors)"

lemma votes_le: "votes vectors i \<le> length vectors"
  by (simp add: votes_def)

lemma count_list_distinct: "distinct xs \<Longrightarrow> count_list xs i = (if i \<in> set xs then 1 else 0)"
  by (induction xs) auto

lemma count_list_votes:
  "\<forall>v \<in> set vectors. hv_wf v \<Longrightarrow> count_list (concat (map indices vectors)) i = votes vectors i"
proof (induction vectors)
  case (Cons v vectors)
  have "count_list (indices v) i = (if i \<in> active v then 1 else 0)"
    using Cons.prems by (intro count_list_distinct) (simp add: ssorted_distinct hv_wf_def)
  then show ?case using Cons by (simp add: votes_def)
qed (simp add: votes_def)

locale select_nth_by_count =
  fixes select_nth :: "nat \<Rightarrow> (u32 \<times> u32) list \<Rightarrow> (u32 \<times> u32) list"
  assumes permutes: "mset (select_nth k xs) = mset xs"
    and partitions: "i < k \<Longrightarrow> k \<le> j \<Longrightarrow> j < length xs \<Longrightarrow>
      snd (select_nth k xs ! j) \<le> snd (select_nth k xs ! i)"
begin

abbreviation kept :: "nat \<Rightarrow> (u32 \<times> u32) list \<Rightarrow> (u32 \<times> u32) list" where
  "kept k xs \<equiv> (if k < length xs then take k (select_nth k xs) else xs)"

lemma length_select: "length (select_nth k xs) = length xs"
  by (metis permutes size_mset)

lemma set_select: "set (select_nth k xs) = set xs"
  by (metis permutes set_mset_mset)

lemma kept_subset: "set (kept k xs) \<subseteq> set xs"
  using set_select [of k xs] by (auto dest: in_set_takeD)

lemma kept_length: "length (kept k xs) = min k (length xs)"
  by (simp add: length_select)

lemma kept_distinct:
  assumes "distinct (map fst xs)"
  shows "distinct (map fst (kept k xs))"
proof -
  have "mset (map fst (select_nth k xs)) = mset (map fst xs)" by (simp add: permutes)
  then have "distinct (map fst (select_nth k xs))" using assms by (metis distinct_count_atmost_1 mset_eq_imp_distinct_iff)
  then show ?thesis using assms by (simp add: take_map [symmetric])
qed

lemma kept_dominates:
  assumes "p \<in> set (kept k xs)" "q \<in> set xs" "q \<notin> set (kept k xs)"
  shows "snd q \<le> snd p"
proof -
  have k: "k < length xs" using assms(2,3) by (auto split: if_splits)
  let ?s = "select_nth k xs"
  obtain i where i: "i < k" "p = ?s ! i"
    using assms(1) k by (auto simp: in_set_conv_nth length_select)
  have "set ?s = set (take k ?s) \<union> set (drop k ?s)" by (metis append_take_drop_id set_append)
  then have "q \<in> set (drop k ?s)" using assms(2,3) k set_select by auto
  then obtain n where "n < length xs - k" "q = ?s ! (k + n)"
    by (auto simp: in_set_conv_nth length_select)
  then obtain j where j: "k \<le> j" "j < length xs" "q = ?s ! j"
    by (metis le_add1 less_diff_conv add.commute)
  show ?thesis using partitions [OF i(1) j(1,2)] i j by simp
qed

lemma from_selected_correct:
  assumes "distinct (map fst xs)" "\<forall>p \<in> set xs. unat (fst p) < d"
  shows "hv_wf (from_selected select_nth xs d k)"
    "length (indices (from_selected select_nth xs d k)) = min k (length xs)"
    "active (from_selected select_nth xs d k) = fst ` set (kept k xs)"
proof -
  have eq: "from_selected select_nth xs d k = \<lparr>dim = d, indices = sort (map fst (kept k xs))\<rparr>"
    by (simp add: from_selected_def Let_def)
  have "ssorted (sort (map fst (kept k xs)))"
    by (intro sorted_distinct_ssorted) (use kept_distinct [OF assms(1), of k] in auto)
  then show "hv_wf (from_selected select_nth xs d k)"
    unfolding eq using assms(2) kept_subset [of k xs] by (intro hv_wfI) auto
  show "length (indices (from_selected select_nth xs d k)) = min k (length xs)"
    unfolding eq using kept_length [of k xs] by simp
  show "active (from_selected select_nth xs d k) = fst ` set (kept k xs)"
    unfolding eq by simp
qed

end

text \<open>A full descending sort is one implementation of the selection.\<close>

definition select_by_sort :: "nat \<Rightarrow> (u32 \<times> u32) list \<Rightarrow> (u32 \<times> u32) list" where
  "select_by_sort k xs = rev (sort_key snd xs)"

interpretation sort_selection: select_nth_by_count select_by_sort
proof unfold_locales
  fix k i j :: nat and xs :: "(u32 \<times> u32) list"
  show "mset (select_by_sort k xs) = mset xs" by (simp add: select_by_sort_def)
  assume "i < k" "k \<le> j" "j < length xs"
  then show "snd (select_by_sort k xs ! j) \<le> snd (select_by_sort k xs ! i)"
    using sorted_nth_mono [OF sorted_sort_key [of snd xs], of "length xs - Suc j" "length xs - Suc i"]
    by (simp add: select_by_sort_def rev_nth)
qed

lemma unat_div_ceil2: "unat (div_ceil2 n) = (unat n + 1) div 2"
proof -
  have "unat n div 2 + unat n mod 2 < 2 ^ 32"
    using unat_u32_bound [of n] by simp
  then show ?thesis
    by (simp add: div_ceil2_def unat_word_ariths unat_div unat_mod) presburger
qed

lemma majority_threshold:
  assumes "\<forall>v \<in> set vectors. hv_wf v" "length vectors < 2 ^ 32"
  shows "div_ceil2 (of_nat (length vectors)) \<le> of_nat (count_list (concat (map indices vectors)) i)
    \<longleftrightarrow> length vectors \<le> 2 * votes vectors i"
proof -
  have "votes vectors i < 2 ^ 32" using votes_le [of vectors i] assms(2) by linarith
  then show ?thesis
    using assms by (auto simp: word_le_nat_alt unat_div_ceil2 unat_of_nat count_list_votes [OF assms(1)])
qed

lemma majority_pairs:
  assumes "\<forall>v \<in> set vectors. hv_wf v" "length vectors < 2 ^ 32" "vectors \<noteq> []"
  defines "all_indices \<equiv> concat (map indices vectors)"
  defines "m \<equiv> majority (div_ceil2 (of_nat (length vectors))) all_indices"
  shows "distinct (map fst m)"
    "set m = {(i, of_nat (votes vectors i)) |i. length vectors \<le> 2 * votes vectors i}"
proof -
  let ?all = "concat (map indices vectors)"
  have "map fst m = filter (\<lambda>i. length vectors \<le> 2 * votes vectors i) (remdups_adj (sort ?all))"
    unfolding m_def majority_def all_indices_def by (simp add: comp_def majority_threshold [OF assms(1,2)])
  then show "distinct (map fst m)"
    using ssorted_distinct [OF ssorted_remdups_adj [of "sort ?all"]] by simp
  have "length vectors \<le> 2 * votes vectors i \<Longrightarrow> i \<in> set ?all" for i
    using assms(3) count_notin [of i ?all] count_list_votes [OF assms(1), of i]
    by (cases "i \<in> set ?all") auto
  then show "set m = {(i, of_nat (votes vectors i)) |i. length vectors \<le> 2 * votes vectors i}"
    unfolding m_def majority_def all_indices_def set_map set_filter majority_threshold [OF assms(1,2)]
    by (auto simp: count_list_votes [OF assms(1)] simp del: set_concat)
qed

text \<open>Either way the count is taken, the bundle selects from the reference count.\<close>

lemma bundle_hv_eq:
  assumes "vectors \<noteq> []" "length vectors < 2 ^ 32" "\<forall>c \<in> set counts. c = 0"
  defines "thr \<equiv> div_ceil2 (of_nat (length vectors))"
  shows "fst (bundle_hv sel counts vectors) =
      from_selected sel (majority thr (concat (map indices vectors))) (dim (hd vectors))
        (max (dim (hd vectors) div DEFAULT_RHO_DENOM) 1)"
    "\<forall>c \<in> set (snd (bundle_hv sel counts vectors)). c = 0"
proof -
  obtain v vs where vs: "vectors = v # vs" using assms(1) by (cases vectors) auto
  have "unat (of_nat (length vectors) :: u32) = length vectors" using assms(2) by (simp add: unat_of_nat)
  then have "0 < unat thr" using vs by (simp only: thr_def unat_div_ceil2) simp
  then have thr: "0 < thr" by (simp add: word_less_nat_alt)
  obtain res counts' where cm: "count_majority counts vectors (dim v) thr = (res, counts')"
    by (cases "count_majority counts vectors (dim v) thr")
  note ok = count_majority_correct [OF thr assms(3) cm]
  have empty: "majority thr [] = []" by (simp add: majority_def)
  show "fst (bundle_hv sel counts vectors) =
      from_selected sel (majority thr (concat (map indices vectors))) (dim (hd vectors))
        (max (dim (hd vectors) div DEFAULT_RHO_DENOM) 1)"
    using cm ok(2) vs unfolding thr_def [symmetric]
    by (cases res) (auto simp: bundle_hv_def Let_def thr_def count_runs_majority from_selected_def majority_def)
  show "\<forall>c \<in> set (snd (bundle_hv sel counts vectors)). c = 0"
    using cm ok(1) vs by (cases res) (auto simp: bundle_hv_def Let_def thr_def)
qed

section \<open>Properties\<close>

text \<open>
  The histogram count of \<open>count_majority\<close> is equivalent to counting runs of the sorted
  concatenation, whichever of its two read-outs runs, and it leaves the per-thread buffer all
  zero again.
\<close>

theorem count_majority_equals_runs:
  assumes "0 < threshold" "\<forall>c \<in> set counts. c = 0"
    "count_majority counts vectors d threshold = (Some selected, counts')"
  shows "selected = count_runs threshold (sort (concat (map indices vectors))) \<and> (\<forall>c \<in> set counts'. c = 0)"
  using count_majority_correct [OF assms] by (simp add: count_runs_majority)

theorem count_majority_equals_runs_witness:
  "[(5, 2)] = count_runs 2 (sort (concat (map indices [from_indices [1, 5] 8, from_indices [2, 5] 8])))"
proof -
  have run: "count_majority [0, 0, 0, 0, 0, 0, 0, 0] [from_indices [1, 5] 8, from_indices [2, 5] 8] 8 2 =
      (Some [(5, 2)], [0, 0, 0, 0, 0, 0, 0, 0])"
    by (simp add: count_majority_def from_indices_def BUNDLE_COUNTING_MAX_DIM_def bump_def Let_def
        word_le_nat_alt)
  show ?thesis
    using count_majority_equals_runs [OF _ _ run] by simp
qed

text \<open>
  C34. The majority bundle of vectors of one dimension is well formed; every active index was
  active in at least half of the inputs; when no more than \<open>max (dim / 256) 1\<close> indices have a
  majority it keeps all of them, otherwise it keeps exactly that many and no dropped index has
  more votes than a kept one.
\<close>

theorem bundle_majority:
  fixes vectors :: "EntangledHVec list"
  assumes "select_nth_by_count select_nth" "vectors \<noteq> []" "length vectors < 2 ^ 32"
    "\<forall>v \<in> set vectors. hv_space d v" "\<forall>c \<in> set counts. c = 0"
  defines "b \<equiv> fst (bundle_hv select_nth counts vectors)"
    and "M \<equiv> {i. length vectors \<le> 2 * votes vectors i}"
    and "target \<equiv> max (d div DEFAULT_RHO_DENOM) 1"
  shows "hv_space d b \<and> set (indices b) \<subseteq> M \<and> length (indices b) = min target (card M) \<and>
    (\<forall>i \<in> set (indices b). \<forall>j \<in> M - set (indices b). votes vectors j \<le> votes vectors i)"
proof -
  have wf: "\<forall>v \<in> set vectors. hv_wf v" using assms(4) by (simp add: hv_space_def)
  have hd: "dim (hd vectors) = d" using assms(2,4) by (cases vectors) (auto simp: hv_space_def)
  define m where "m = majority (div_ceil2 (of_nat (length vectors))) (concat (map indices vectors))"
  note m = majority_pairs [OF wf assms(3,2), folded m_def]
  have fm: "fst ` set m = M" unfolding m(2) M_def by force
  have b: "b = from_selected select_nth m d target"
    using bundle_hv_eq(1) [OF assms(2,3,5)] by (simp add: b_def m_def hd target_def)
  have bound: "\<forall>p \<in> set m. unat (fst p) < d"
  proof
    fix p assume "p \<in> set m"
    then have "fst p \<in> set (concat (map indices vectors))"
      by (auto simp: m_def majority_def)
    then show "unat (fst p) < d" using assms(4) by (auto simp: hv_space_def hv_wf_def)
  qed
  note sel = select_nth_by_count.from_selected_correct [OF assms(1) m(1) bound, of target, folded b]
  have len: "length m = card M" using m(1) fm by (metis distinct_card length_map set_map)
  have dom: "votes vectors j \<le> votes vectors i" if i: "i \<in> active b" and j: "j \<in> M - active b" for i j
  proof -
    let ?kept = "if target < length m then take target (select_nth target m) else m"
    have vote: "p \<in> set m \<Longrightarrow> unat (snd p) = votes vectors (fst p)" for p
    proof -
      assume "p \<in> set m"
      then have p: "p = (fst p, of_nat (votes vectors (fst p)))" unfolding m(2) by auto
      have "votes vectors (fst p) < 2 ^ 32" using votes_le [of vectors "fst p"] assms(3) by linarith
      then have "unat (of_nat (votes vectors (fst p)) :: u32) = votes vectors (fst p)" by (simp add: unat_of_nat)
      then show "unat (snd p) = votes vectors (fst p)" using p by (metis snd_conv)
    qed
    obtain p q where p: "p \<in> set ?kept" "fst p = i" and q: "q \<in> set m" "fst q = j"
      using i j sel(3) fm by auto
    have "q \<notin> set ?kept" using j q sel(3) by auto
    then have "snd q \<le> snd p"
      using select_nth_by_count.kept_dominates [OF assms(1) p(1) q(1)] by simp
    moreover have "p \<in> set m"
      using select_nth_by_count.kept_subset [OF assms(1), of target m] p(1) by auto
    ultimately show ?thesis using vote p q by (metis word_le_nat_alt)
  qed
  have "active b \<subseteq> M"
    using sel(3) fm select_nth_by_count.kept_subset [OF assms(1), of target m] by auto
  moreover have "dim b = d" unfolding b by (simp add: from_selected_def Let_def)
  ultimately show ?thesis using sel(1,2) dom len by (simp add: hv_space_def)
qed

theorem bundle_majority_witness:
  "hv_space 8 (fst (bundle_hv select_by_sort [] [from_indices [1, 5] 8, from_indices [2, 5] 8]))"
proof -
  have "\<forall>v \<in> set [from_indices [1, 5] 8, from_indices [2, 5] 8]. hv_space 8 v"
    by (simp add: hv_space_def hv_wf_def from_indices_def)
  then show ?thesis
    using bundle_majority [OF sort_selection.select_nth_by_count_axioms,
        of "[from_indices [1, 5] 8, from_indices [2, 5] 8]" 8 "[]"] by simp
qed

end
