(* ===== verification/Tombstone.thy ===== *)
theory Tombstone
  imports Prelude
begin

text \<open>
  \<open>src/core/tombstone.rs\<close>: the bitset of deleted vector ids, 64 ids per \<open>u64\<close> word, grown on
  demand.  The interface \<open>deletion_set\<close> is what the posting shard relies on.
\<close>

unbundle bit_operations_syntax

record TombstoneMap =
  bits :: "u64 list"

definition tombstone_new :: TombstoneMap where
  "tombstone_new = \<lparr>bits = []\<rparr>"

definition mark_deleted :: "TombstoneMap \<Rightarrow> u32 \<Rightarrow> TombstoneMap" where
  "mark_deleted t vec_id =
     (let w = unat vec_id div 64;
          b = unat vec_id mod 64;
          grown = (if length (bits t) \<le> w
                   then bits t @ replicate (w + 1 - length (bits t)) 0 else bits t)
      in t\<lparr>bits := grown[w := (grown ! w) OR push_bit b 1]\<rparr>)"

definition restore :: "TombstoneMap \<Rightarrow> u32 \<Rightarrow> TombstoneMap" where
  "restore t vec_id =
     (let w = unat vec_id div 64
      in if w < length (bits t)
         then t\<lparr>bits := (bits t)[w := (bits t ! w) AND NOT (push_bit (unat vec_id mod 64) 1)]\<rparr>
         else t)"

definition is_deleted :: "TombstoneMap \<Rightarrow> u32 \<Rightarrow> bool" where
  "is_deleted t vec_id =
     (let w = unat vec_id div 64; b = unat vec_id mod 64
      in if length (bits t) \<le> w then False
         else (drop_bit b (bits t ! w)) AND 1 = 1)"

definition count_ones :: "u64 \<Rightarrow> nat" where
  "count_ones w = length (filter (bit w) [0..<64])"

definition tombstone_count :: "TombstoneMap \<Rightarrow> nat" where
  "tombstone_count t = sum_list (map count_ones (bits t))"

section \<open>Bits and ids\<close>

lemma is_deleted_bit:
  "is_deleted t i \<longleftrightarrow> unat i div 64 < length (bits t) \<and> bit (bits t ! (unat i div 64)) (unat i mod 64)"
  by (simp add: is_deleted_def Let_def and_one_eq bit_iff_odd_drop_bit odd_iff_mod_2_eq_one not_le
      flip: mod_2_eq_odd)

text \<open>No stored word can hold a bit that is not the bit of some \<open>u32\<close> id.\<close>

definition tombstone_wf :: "TombstoneMap \<Rightarrow> bool" where
  "tombstone_wf t \<longleftrightarrow> length (bits t) \<le> 2 ^ 26"

lemma id_word_bound: "unat (i :: u32) div 64 < 2 ^ 26"
  using unat_u32_bound [of i] by simp

lemma tombstone_new_wf: "tombstone_wf tombstone_new"
  by (simp add: tombstone_wf_def tombstone_new_def)

lemma mark_deleted_wf: "tombstone_wf t \<Longrightarrow> tombstone_wf (mark_deleted t i)"
  using id_word_bound [of i] by (simp add: tombstone_wf_def mark_deleted_def Let_def)

lemma restore_wf: "tombstone_wf t \<Longrightarrow> tombstone_wf (restore t i)"
  by (simp add: tombstone_wf_def restore_def Let_def)

lemma same_slot_iff: "i = j \<longleftrightarrow> unat i div 64 = unat j div 64 \<and> unat i mod 64 = unat (j :: u32) mod 64"
  by (metis div_mult_mod_eq word_unat_eq_iff)

lemma bit_power_u64 [simp]: "bit (2 ^ a :: u64) b \<longleftrightarrow> a = b \<and> a < 64"
  by (auto simp: bit_exp_iff)

lemma is_deleted_mark_deleted: "is_deleted (mark_deleted t i) j \<longleftrightarrow> j = i \<or> is_deleted t j"
proof -
  let ?w = "unat i div 64" and ?b = "unat i mod 64" and ?w' = "unat j div 64" and ?b' = "unat j mod 64"
  let ?grown = "if length (bits t) \<le> ?w then bits t @ replicate (?w + 1 - length (bits t)) 0 else bits t"
  have len: "?w < length ?grown" by simp
  have nth: "k < length ?grown \<Longrightarrow> ?grown ! k = (if k < length (bits t) then bits t ! k else 0)" for k
    by (auto simp: nth_append)
  have "is_deleted (mark_deleted t i) j \<longleftrightarrow> ?w' < length ?grown \<and>
      (if ?w' = ?w then bit (?grown ! ?w) ?b' \<or> ?b' = ?b else bit (?grown ! ?w') ?b')"
    using len by (auto simp: is_deleted_bit mark_deleted_def Let_def nth_list_update bit_or_iff bit_push_bit_iff
        bit_1_iff)
  also have "\<dots> \<longleftrightarrow> j = i \<or> is_deleted t j"
    unfolding same_slot_iff [of j i] is_deleted_bit using len nth [of ?w] nth [of ?w']
    by (auto split: if_splits)
  finally show ?thesis .
qed

lemma is_deleted_restore: "is_deleted (restore t i) j \<longleftrightarrow> j \<noteq> i \<and> is_deleted t j"
  unfolding same_slot_iff [of j i]
  by (auto simp: is_deleted_bit restore_def Let_def nth_list_update bit_and_iff bit_not_iff bit_push_bit_iff bit_1_iff)

lemma is_deleted_new: "\<not> is_deleted tombstone_new i"
  by (simp add: is_deleted_def tombstone_new_def)

lemma count_ones_card: "count_ones w = card {b. b < 64 \<and> bit w b}"
proof -
  have "count_ones w = card (set (filter (bit w) [0..<64]))"
    unfolding count_ones_def by (rule distinct_card [symmetric]) simp
  also have "set (filter (bit w) [0..<64]) = {b. b < 64 \<and> bit w b}" by auto
  finally show ?thesis .
qed

lemma tombstone_count_card:
  assumes "tombstone_wf t"
  shows "tombstone_count t = card {i. is_deleted t i}"
proof -
  let ?S = "SIGMA w:{..<length (bits t)}. {b. b < 64 \<and> bit (bits t ! w) b}"
  let ?f = "\<lambda>(w, b). (of_nat (w * 64 + b) :: u32)"
  have un: "w < length (bits t) \<Longrightarrow> b < 64 \<Longrightarrow> unat (of_nat (w * 64 + b) :: u32) = w * 64 + b" for w b
    using assms by (subst unat_of_nat) (simp add: tombstone_wf_def)
  have inj: "inj_on ?f ?S"
  proof (rule inj_on_inverseI [where g = "\<lambda>i. (unat i div 64, unat i mod 64)"])
    fix x assume "x \<in> ?S"
    then show "(\<lambda>i. (unat i div 64, unat i mod 64)) (?f x) = x"
      by (cases x) (simp add: un del: of_nat_add of_nat_mult)
  qed
  have "?f ` ?S = {i. is_deleted t i}"
  proof
    show "?f ` ?S \<subseteq> {i. is_deleted t i}"
      by (auto simp: is_deleted_bit un simp del: of_nat_add of_nat_mult)
    show "{i. is_deleted t i} \<subseteq> ?f ` ?S"
    proof
      fix i assume "i \<in> {i. is_deleted t i}"
      then show "i \<in> ?f ` ?S"
        by (intro image_eqI [of _ _ "(unat i div 64, unat i mod 64)"])
          (auto simp: is_deleted_bit simp flip: of_nat_mult of_nat_add)
    qed
  qed
  then have "card {i. is_deleted t i} = card ?S" using card_image [OF inj] by simp
  also have "\<dots> = (\<Sum>w < length (bits t). count_ones (bits t ! w))"
    by (simp add: card_SigmaI count_ones_card)
  also have "\<dots> = tombstone_count t"
    by (simp add: tombstone_count_def sum_list_sum_nth atLeast0LessThan)
  finally show ?thesis by simp
qed

section \<open>The deletion-set interface\<close>

locale deletion_set =
  fixes empty :: 't and mark :: "'t \<Rightarrow> u32 \<Rightarrow> 't" and undo :: "'t \<Rightarrow> u32 \<Rightarrow> 't"
    and deleted :: "'t \<Rightarrow> u32 \<Rightarrow> bool" and invar :: "'t \<Rightarrow> bool"
  assumes deleted_empty: "\<not> deleted empty i"
    and deleted_mark: "invar t \<Longrightarrow> deleted (mark t i) j \<longleftrightarrow> j = i \<or> deleted t j"
    and deleted_undo: "invar t \<Longrightarrow> deleted (undo t i) j \<longleftrightarrow> j \<noteq> i \<and> deleted t j"
    and invar_empty: "invar empty"
    and invar_mark: "invar t \<Longrightarrow> invar (mark t i)"
    and invar_undo: "invar t \<Longrightarrow> invar (undo t i)"
begin

lemma fold_mark:
  "invar t \<Longrightarrow> invar (foldl mark t ids) \<and> (deleted (foldl mark t ids) j \<longleftrightarrow> j \<in> set ids \<or> deleted t j)"
  by (induction ids arbitrary: t) (auto simp: deleted_mark invar_mark)

lemma live_after_marks: "deleted (foldl mark empty ids) j \<longleftrightarrow> j \<in> set ids"
  using fold_mark [OF invar_empty, of ids j] by (simp add: deleted_empty)

lemma undo_mark: "invar t \<Longrightarrow> \<not> deleted t i \<Longrightarrow> deleted (undo (mark t i) i) j \<longleftrightarrow> deleted t j"
  by (auto simp: deleted_undo deleted_mark invar_mark)

end

interpretation tombstones: deletion_set tombstone_new mark_deleted restore is_deleted tombstone_wf
  by unfold_locales
    (simp_all add: is_deleted_new is_deleted_mark_deleted is_deleted_restore
      tombstone_new_wf mark_deleted_wf restore_wf)

section \<open>Properties\<close>

datatype tombstone_op = MarkDeleted u32 | Restore u32

fun tombstone_step :: "TombstoneMap \<Rightarrow> tombstone_op \<Rightarrow> TombstoneMap" where
  "tombstone_step t (MarkDeleted i) = mark_deleted t i"
| "tombstone_step t (Restore i) = restore t i"

fun set_step :: "u32 set \<Rightarrow> tombstone_op \<Rightarrow> u32 set" where
  "set_step A (MarkDeleted i) = insert i A"
| "set_step A (Restore i) = A - {i}"

lemma tombstone_run:
  "tombstone_wf t \<Longrightarrow> tombstone_wf (foldl tombstone_step t ops) \<and>
   {i. is_deleted (foldl tombstone_step t ops) i} = foldl set_step {i. is_deleted t i} ops"
proof (induction ops arbitrary: t)
  case (Cons x ops)
  have "tombstone_wf (tombstone_step t x)"
    using Cons.prems by (cases x) (auto intro: mark_deleted_wf restore_wf)
  moreover have "{i. is_deleted (tombstone_step t x) i} = set_step {i. is_deleted t i} x"
    using Cons.prems by (cases x) (auto simp: is_deleted_mark_deleted is_deleted_restore)
  ultimately show ?case using Cons.IH [of "tombstone_step t x"] by simp
qed simp

text \<open>
  C37. The bitset refines a set of ids: after any sequence of deletions and restorations,
  starting from the empty map, an id tests as deleted exactly when its last operation was a
  deletion, and \<open>count\<close> is the number of deleted ids.
\<close>

theorem tombstones_refine_set:
  "{i. is_deleted (foldl tombstone_step tombstone_new ops) i} = foldl set_step {} ops \<and>
   tombstone_count (foldl tombstone_step tombstone_new ops) = card (foldl set_step {} ops)"
  using tombstone_run [OF tombstone_new_wf, of ops]
    tombstone_count_card [of "foldl tombstone_step tombstone_new ops"]
  by (simp add: is_deleted_new)

end
