(* ===== verification/Posting.thy ===== *)
theory Posting
  imports Tombstone
begin

text \<open>
  \<open>src/core/posting.rs\<close>: the inverted index from dimension indices to sorted lists of vector
  ids.  Every operation keeps each list strictly sorted; the abstraction is the relation
  between dimensions and ids (\<open>posted\<close>).
\<close>

record PostingShard =
  lists :: "u32 list list"
  shard_dim :: usize

definition posting_new :: "usize \<Rightarrow> PostingShard" where
  "posting_new d = \<lparr>lists = map (\<lambda>_. []) [0..<d], shard_dim = d\<rparr>"

text \<open>One list of \<open>insert\<close>: append past the last id, else insert at the search position.\<close>

definition insert_id :: "u32 \<Rightarrow> u32 list \<Rightarrow> u32 list" where
  "insert_id vec_id l =
     (if l = [] \<or> last l < vec_id then l @ [vec_id]
      else case slice_binary_search l vec_id of
             Inr _ \<Rightarrow> l
           | Inl pos \<Rightarrow> vec_insert pos vec_id l)"

definition remove_id :: "u32 \<Rightarrow> u32 list \<Rightarrow> u32 list" where
  "remove_id vec_id l =
     (case slice_binary_search l vec_id of Inr pos \<Rightarrow> vec_remove pos l | Inl _ \<Rightarrow> l)"

definition update_list :: "(u32 list \<Rightarrow> u32 list) \<Rightarrow> PostingShard \<Rightarrow> u32 \<Rightarrow> PostingShard" where
  "update_list f s idx =
     (if unat idx < shard_dim s
      then s\<lparr>lists := (lists s)[unat idx := f (lists s ! unat idx)]\<rparr> else s)"

definition posting_insert :: "PostingShard \<Rightarrow> u32 \<Rightarrow> u32 list \<Rightarrow> PostingShard" where
  "posting_insert s vec_id ixs = foldl (update_list (insert_id vec_id)) s ixs"

definition posting_remove :: "PostingShard \<Rightarrow> u32 \<Rightarrow> u32 list \<Rightarrow> PostingShard" where
  "posting_remove s vec_id ixs = foldl (update_list (remove_id vec_id)) s ixs"

definition get_list :: "PostingShard \<Rightarrow> u32 \<Rightarrow> u32 list" where
  "get_list s dim_index =
     (if unat dim_index < shard_dim s then lists s ! unat dim_index else [])"

definition doc_freq :: "PostingShard \<Rightarrow> u32 \<Rightarrow> u32" where
  "doc_freq s dim_index = of_nat (length (get_list s dim_index))"

definition posting_rebuild :: "PostingShard \<Rightarrow> (u32 \<times> u32 list) list \<Rightarrow> PostingShard" where
  "posting_rebuild s vectors =
     foldl (\<lambda>s (vec_id, ixs). posting_insert s vec_id ixs)
       (s\<lparr>lists := map (\<lambda>_. []) (lists s)\<rparr>) vectors"

text \<open>
  \<open>weighted_overlap\<close>.  The scores are \<open>f32\<close> sums: \<open>fadd\<close> is the rounded addition, \<open>zero\<close>
  and \<open>one\<close> the constants the source names.  The hash map is a map; \<open>iter\<close> is its iteration
  order, which decides the order of equal scores.  The scores are compared by a linear order,
  so no weight is a NaN.
\<close>

definition score_one :: "('w \<Rightarrow> 'w \<Rightarrow> 'w) \<Rightarrow> 'w \<Rightarrow> TombstoneMap \<Rightarrow> 'w \<Rightarrow> (u32 \<rightharpoonup> 'w) \<Rightarrow> u32 \<Rightarrow> (u32 \<rightharpoonup> 'w)"
  where
  "score_one fadd zero tombstones w scores vec_id =
     (if is_deleted tombstones vec_id then scores
      else scores(vec_id \<mapsto> fadd (case scores vec_id of None \<Rightarrow> zero | Some x \<Rightarrow> x) w))"

fun score_dims :: "('w \<Rightarrow> 'w \<Rightarrow> 'w) \<Rightarrow> 'w \<Rightarrow> 'w \<Rightarrow> PostingShard \<Rightarrow> TombstoneMap \<Rightarrow> 'w list
    \<Rightarrow> (nat \<times> u32) list \<Rightarrow> (u32 \<rightharpoonup> 'w) \<Rightarrow> (u32 \<rightharpoonup> 'w)" where
  "score_dims fadd zero one s tombstones dim_weights [] scores = scores"
| "score_dims fadd zero one s tombstones dim_weights ((i, d) # rest) scores =
     (let w = (if i < length dim_weights then dim_weights ! i else one)
      in score_dims fadd zero one s tombstones dim_weights rest
           (foldl (score_one fadd zero tombstones w) scores (get_list s d)))"

definition weighted_overlap :: "((u32 \<rightharpoonup> 'w) \<Rightarrow> (u32 \<times> 'w::linorder) list) \<Rightarrow> ('w \<Rightarrow> 'w \<Rightarrow> 'w) \<Rightarrow> 'w \<Rightarrow> 'w
    \<Rightarrow> PostingShard \<Rightarrow> u32 list \<Rightarrow> 'w list \<Rightarrow> TombstoneMap \<Rightarrow> (u32 \<times> 'w) list" where
  "weighted_overlap iter fadd zero one s query_indices dim_weights tombstones =
     (let scores = score_dims fadd zero one s tombstones dim_weights
                     (enumerate 0 query_indices) Map.empty
      in rev (sort_key snd (iter scores)))"

section \<open>The invariant and the abstraction\<close>

definition posting_wf :: "PostingShard \<Rightarrow> bool" where
  "posting_wf s \<longleftrightarrow> length (lists s) = shard_dim s \<and> (\<forall>l \<in> set (lists s). ssorted l)"

definition posted :: "PostingShard \<Rightarrow> u32 \<Rightarrow> u32 set" where
  "posted s d = set (get_list s d)"

lemma ssorted_last_less: "ssorted l \<Longrightarrow> l \<noteq> [] \<Longrightarrow> last l < v \<Longrightarrow> x \<in> set l \<Longrightarrow> x < v"
  by (induction l) (auto split: if_splits intro: less_trans)

lemma insert_id_correct:
  assumes "ssorted l"
  shows "ssorted (insert_id v l)" "set (insert_id v l) = insert v (set l)"
proof -
  have "ssorted (insert_id v l) \<and> set (insert_id v l) = insert v (set l)"
  proof (cases "l = [] \<or> last l < v")
    case True
    then show ?thesis
      using assms ssorted_last_less [OF assms, of v] by (fastforce simp: insert_id_def ssorted_append)
  next
    case False
    show ?thesis
    proof (cases "slice_binary_search l v")
      case (Inl p)
      then show ?thesis using False ssorted_vec_insert [OF assms Inl] by (simp add: insert_id_def)
    next
      case (Inr p)
      then have "v \<in> set l" by (metis slice_binary_search_Inr nth_mem)
      then show ?thesis using False Inr assms by (auto simp: insert_id_def)
    qed
  qed
  then show "ssorted (insert_id v l)" "set (insert_id v l) = insert v (set l)" by auto
qed

lemma remove_id_correct:
  assumes "ssorted l"
  shows "ssorted (remove_id v l)" "set (remove_id v l) = set l - {v}"
proof -
  have "ssorted (remove_id v l) \<and> set (remove_id v l) = set l - {v}"
  proof (cases "slice_binary_search l v")
    case (Inl p)
    then show ?thesis
      using slice_binary_search_Inl(1) [OF ssorted_sorted [OF assms] Inl] assms by (simp add: remove_id_def)
  next
    case (Inr p)
    then show ?thesis
      using ssorted_vec_remove [OF assms, of p] slice_binary_search_Inr [OF Inr] by (auto simp: remove_id_def)
  qed
  then show "ssorted (remove_id v l)" "set (remove_id v l) = set l - {v}" by auto
qed

text \<open>Folding a per-list update over the indices of a vector.\<close>

lemma update_list_wf:
  "posting_wf s \<Longrightarrow> (\<And>l. ssorted l \<Longrightarrow> ssorted (f l)) \<Longrightarrow> posting_wf (update_list f s i)"
  by (auto simp: posting_wf_def update_list_def dest!: set_update_subset_insert [THEN subsetD])

lemma posted_update_list:
  assumes "posting_wf s"
  shows "get_list (update_list f s i) d = (if d = i \<and> unat d < shard_dim s then f (get_list s d) else get_list s d)"
  using assms by (auto simp: posting_wf_def update_list_def get_list_def nth_list_update word_unat_eq_iff)

lemma shard_dim_update_list [simp]: "shard_dim (update_list f s i) = shard_dim s"
  by (simp add: update_list_def)

lemma get_list_ssorted: "posting_wf s \<Longrightarrow> ssorted (get_list s d)"
  by (auto simp: posting_wf_def get_list_def)

lemma fold_update_list:
  assumes "posting_wf s" "\<And>l. ssorted l \<Longrightarrow> ssorted (f l) \<and> set (f l) = g (set l)" "\<And>A. g (g A) = g A"
  shows "posting_wf (foldl (update_list f) s ixs) \<and>
         shard_dim (foldl (update_list f) s ixs) = shard_dim s \<and>
         posted (foldl (update_list f) s ixs) d =
           (if d \<in> set ixs \<and> unat d < shard_dim s then g (posted s d) else posted s d)"
  using assms(1)
proof (induction ixs arbitrary: s)
  case (Cons i ixs)
  have wf: "posting_wf (update_list f s i)" using Cons.prems assms(2) by (simp add: update_list_wf)
  have "posted (update_list f s i) d = (if d = i \<and> unat d < shard_dim s then g (posted s d) else posted s d)"
    using assms(2) [OF get_list_ssorted [OF Cons.prems]]
    by (auto simp: posted_def posted_update_list [OF Cons.prems])
  then show ?case using Cons.IH [OF wf] assms(3) by auto
qed simp

lemma posting_insert_correct:
  assumes "posting_wf s"
  shows "posting_wf (posting_insert s v ixs)" "shard_dim (posting_insert s v ixs) = shard_dim s"
    "posted (posting_insert s v ixs) d =
      (if d \<in> set ixs \<and> unat d < shard_dim s then insert v (posted s d) else posted s d)"
  using fold_update_list [OF assms, of "insert_id v" "insert v" ixs d] insert_id_correct
  by (auto simp: posting_insert_def)

lemma posting_remove_correct:
  assumes "posting_wf s"
  shows "posting_wf (posting_remove s v ixs)" "shard_dim (posting_remove s v ixs) = shard_dim s"
    "posted (posting_remove s v ixs) d =
      (if d \<in> set ixs \<and> unat d < shard_dim s then posted s d - {v} else posted s d)"
  using fold_update_list [OF assms, of "remove_id v" "\<lambda>A. A - {v}" ixs d] remove_id_correct
  by (auto simp: posting_remove_def)

lemma posting_new_correct: "posting_wf (posting_new d)" "posted (posting_new d) i = {}"
  by (auto simp: posting_wf_def posting_new_def posted_def get_list_def)

lemma foldl_insert_vectors:
  assumes "posting_wf s"
  shows "posting_wf (foldl (\<lambda>s (v, ixs). posting_insert s v ixs) s vectors) \<and>
    posted (foldl (\<lambda>s (v, ixs). posting_insert s v ixs) s vectors) d =
      posted s d \<union> {v. unat d < shard_dim s \<and> (\<exists>ixs. (v, ixs) \<in> set vectors \<and> d \<in> set ixs)}"
  using assms
proof (induction vectors arbitrary: s)
  case (Cons p vectors)
  obtain v ixs where p: "p = (v, ixs)" by (cases p)
  note ins = posting_insert_correct [OF Cons.prems, of v ixs]
  show ?case using Cons.IH [OF ins(1)] ins(2) ins(3) [of d] by (auto simp: p)
qed simp

lemma posting_rebuild_correct:
  assumes "posting_wf s"
  shows "posting_wf (posting_rebuild s vectors)"
    "posted (posting_rebuild s vectors) d =
      {v. unat d < shard_dim s \<and> (\<exists>ixs. (v, ixs) \<in> set vectors \<and> d \<in> set ixs)}"
proof -
  let ?s = "s\<lparr>lists := map (\<lambda>_. []) (lists s)\<rparr>"
  have "posting_wf ?s" "posted ?s d = {}"
    using assms by (auto simp: posting_wf_def posted_def get_list_def)
  then show "posting_wf (posting_rebuild s vectors)"
    "posted (posting_rebuild s vectors) d =
      {v. unat d < shard_dim s \<and> (\<exists>ixs. (v, ixs) \<in> set vectors \<and> d \<in> set ixs)}"
    using foldl_insert_vectors [of ?s vectors d] by (auto simp: posting_rebuild_def)
qed

section \<open>Scores\<close>

text \<open>The score of an id is the sum, in query order, of the weights of the query dimensions
  that list it; deleted ids have no score.\<close>

fun score_sum :: "('w \<Rightarrow> 'w \<Rightarrow> 'w) \<Rightarrow> 'w \<Rightarrow> PostingShard \<Rightarrow> 'w list \<Rightarrow> u32 \<Rightarrow> (nat \<times> u32) list
    \<Rightarrow> 'w \<Rightarrow> 'w" where
  "score_sum fadd one s ws v [] acc = acc"
| "score_sum fadd one s ws v ((i, d) # rest) acc =
     score_sum fadd one s ws v rest
       (if v \<in> posted s d then fadd acc (if i < length ws then ws ! i else one) else acc)"

lemma foldl_score_one:
  assumes "distinct ids"
  shows "foldl (score_one fadd zero t w) scores ids v =
    (if v \<in> set ids \<and> \<not> is_deleted t v
     then Some (fadd (case scores v of None \<Rightarrow> zero | Some x \<Rightarrow> x) w) else scores v)"
  using assms by (induction ids arbitrary: scores) (auto simp: score_one_def)

lemma score_dims_deleted:
  assumes "posting_wf s" "is_deleted t v"
  shows "score_dims fadd zero one s t ws dims scores v = scores v"
  using assms
  by (induction fadd zero one s t ws dims scores rule: score_dims.induct)
    (simp_all add: Let_def foldl_score_one ssorted_distinct get_list_ssorted)

lemma score_dims_live:
  assumes "posting_wf s" "\<not> is_deleted t v"
  shows "score_dims fadd zero one s t ws dims scores v =
    (if scores v = None \<and> (\<forall>(i, d) \<in> set dims. v \<notin> posted s d) then None
     else Some (score_sum fadd one s ws v dims (case scores v of None \<Rightarrow> zero | Some x \<Rightarrow> x)))"
  using assms
proof (induction fadd zero one s t ws dims scores rule: score_dims.induct)
  case (2 fadd zero one s t ws i d rest scores)
  let ?w = "if i < length ws then ws ! i else one"
  let ?scores = "foldl (score_one fadd zero t ?w) scores (get_list s d)"
  have "?scores v = (if v \<in> posted s d
      then Some (fadd (case scores v of None \<Rightarrow> zero | Some x \<Rightarrow> x) ?w) else scores v)"
    using "2.prems" by (simp add: foldl_score_one ssorted_distinct get_list_ssorted posted_def)
  then show ?case using "2.IH" [OF refl "2.prems"] by (auto simp: Let_def)
qed (auto split: option.splits)

section \<open>Properties\<close>

text \<open>
  Inserting a vector id adds it to exactly the posting lists of its in-range indices,
  removing it takes it out of exactly those, and both keep every list strictly sorted.
\<close>

theorem posting_insert_remove:
  assumes "posting_wf s"
  shows "posting_wf (posting_insert s v ixs) \<and> posting_wf (posting_remove s v ixs) \<and>
    set (get_list (posting_insert s v ixs) d) =
      set (get_list s d) \<union> (if d \<in> set ixs \<and> unat d < shard_dim s then {v} else {}) \<and>
    set (get_list (posting_remove s v ixs) d) =
      set (get_list s d) - (if d \<in> set ixs \<and> unat d < shard_dim s then {v} else {})"
  using posting_insert_correct [OF assms, of v ixs] posting_remove_correct [OF assms, of v ixs]
  by (auto simp: posted_def)

theorem posting_insert_remove_witness:
  "set (get_list (posting_insert (posting_new 4) 9 [1, 3, 7]) 3) = set (get_list (posting_new 4) 3) \<union> {9}"
  using posting_insert_remove [OF posting_new_correct(1) [of 4], of 9 "[1, 3, 7]" 3]
  by (simp add: posting_new_def)

text \<open>
  Rebuilding a shard forgets its old content: afterwards a list holds exactly the ids of
  the given vectors that have the dimension active, in strictly ascending order.
\<close>

theorem posting_rebuild_exact:
  assumes "posting_wf s" "unat d < shard_dim s"
  shows "get_list (posting_rebuild s vectors) d =
    sorted_list_of_set {v. \<exists>ixs. (v, ixs) \<in> set vectors \<and> d \<in> set ixs}"
proof -
  have "set (get_list (posting_rebuild s vectors) d) = {v. \<exists>ixs. (v, ixs) \<in> set vectors \<and> d \<in> set ixs}"
    using posting_rebuild_correct(2) [OF assms(1), of vectors d] assms(2) by (simp add: posted_def)
  then show ?thesis
    using get_list_ssorted [OF posting_rebuild_correct(1) [OF assms(1)], of vectors d]
    by (intro ssorted_unique) auto
qed

theorem posting_rebuild_exact_witness:
  "get_list (posting_rebuild (posting_insert (posting_new 4) 9 [1]) [(5, [1, 2]), (3, [1])]) 1 =
   sorted_list_of_set {v. \<exists>ixs. (v, ixs) \<in> set [(5, [1, 2]), (3, [1])] \<and> (1 :: u32) \<in> set ixs}"
  by (rule posting_rebuild_exact)
    (simp_all add: posting_insert_correct posting_new_correct, simp add: posting_new_def)

text \<open>
  C40. The overlap scan returns every live vector that shares a query dimension exactly once,
  with the weights of its shared dimensions summed in query order, and no deleted vector; the
  scores descend.
\<close>

theorem weighted_overlap_exact:
  fixes iter :: "(u32 \<rightharpoonup> 'w) \<Rightarrow> (u32 \<times> 'w::linorder) list" and fadd :: "'w \<Rightarrow> 'w \<Rightarrow> 'w" and zero one :: 'w
    and s :: PostingShard and query :: "u32 list" and ws :: "'w list" and t :: TombstoneMap
  assumes "posting_wf s"
    "\<And>m. finite (dom m) \<Longrightarrow> distinct (map fst (iter m)) \<and> (\<forall>v x. (v, x) \<in> set (iter m) \<longleftrightarrow> m v = Some x)"
  defines "res \<equiv> weighted_overlap iter fadd zero one s query ws t"
  shows "distinct (map fst res) \<and> sorted_wrt (\<lambda>a b. snd b \<le> snd a) res \<and>
    (\<forall>v x. (v, x) \<in> set res \<longleftrightarrow>
       \<not> is_deleted t v \<and> (\<exists>d \<in> set query. v \<in> set (get_list s d)) \<and>
       x = score_sum fadd one s ws v (enumerate 0 query) zero)"
proof -
  define m where "m = score_dims fadd zero one s t ws (enumerate 0 query) Map.empty"
  have m: "m v = (if is_deleted t v \<or> (\<forall>d \<in> set query. v \<notin> posted s d) then None
      else Some (score_sum fadd one s ws v (enumerate 0 query) zero))" for v
  proof -
    have "(\<forall>(i, d) \<in> set (enumerate 0 query). v \<notin> posted s d) \<longleftrightarrow> (\<forall>d \<in> set query. v \<notin> posted s d)"
    proof -
      have "set query = snd ` set (enumerate 0 query)" by (metis map_snd_enumerate set_map)
      then show ?thesis by (simp add: case_prod_beta)
    qed
    then show ?thesis
      using score_dims_live [OF assms(1), of t v fadd zero one ws "enumerate 0 query" Map.empty]
        score_dims_deleted [OF assms(1), of t v fadd zero one ws "enumerate 0 query" Map.empty]
      by (cases "is_deleted t v") (simp_all add: m_def)
  qed
  have "dom m \<subseteq> UNIV" by simp
  then have fin: "finite (dom m)" by (rule finite_subset) simp
  have res: "res = rev (sort_key snd (iter m))" by (simp add: res_def weighted_overlap_def m_def)
  have "mset (map fst res) = mset (map fst (iter m))" by (simp add: res)
  then have "distinct (map fst res)" using assms(2) [OF fin] mset_eq_imp_distinct_iff by metis
  moreover have "sorted_wrt (\<lambda>a b. snd b \<le> snd a) res"
    unfolding res sorted_wrt_rev using sorted_sort_key [of snd "iter m"] by (simp add: sorted_map)
  moreover have "(v, x) \<in> set res \<longleftrightarrow> m v = Some x" for v x
    using assms(2) [OF fin] by (simp add: res)
  ultimately show ?thesis using m by (auto simp: posted_def)
qed

lemma iteration_in_key_order:
  fixes m :: "u32 \<rightharpoonup> nat"
  defines "it \<equiv> map (\<lambda>v. (v, the (m v))) (sorted_list_of_set (dom m))"
  shows "distinct (map fst it) \<and> (\<forall>v x. (v, x) \<in> set it \<longleftrightarrow> m v = Some x)"
proof -
  have "finite (dom m)" by (rule finite_subset [OF subset_UNIV]) simp
  then show ?thesis by (auto simp: it_def comp_def)
qed

theorem weighted_overlap_exact_witness:
  "distinct (map fst (weighted_overlap (\<lambda>m. map (\<lambda>v. (v, the (m v))) (sorted_list_of_set (dom m)))
     (+) 0 (1 :: nat) (posting_insert (posting_new 4) 9 [1]) [1, 2] [5, 7] tombstone_new))"
  using weighted_overlap_exact [OF posting_insert_correct(1) [OF posting_new_correct(1) [of 4], of 9 "[1]"]
      iteration_in_key_order, of "(+)" 0 1 "[1, 2]" "[5, 7]" tombstone_new]
  by blast

end
