(* ===== verification/Role.thy ===== *)
theory Role
  imports Entangled
begin

text \<open>
  \<open>src/core/role.rs\<close>: role-filler binding.  A registry maps role names to cyclic shifts; a
  composite is the binding of the fillers, each rotated by its role's shift, and a filler is
  recovered by binding the known fillers away and rotating back.
\<close>

record RoleRegistry =
  shifts :: "string \<rightharpoonup> usize"
  reg_dim :: usize

datatype role_error =
    AlreadyRegistered string usize usize
  | ComposeEmpty
  | UnknownRole string
  | UnknownTargetRole string
  | DefaultRoleMissing

definition role_new :: "usize \<Rightarrow> RoleRegistry" where
  "role_new d =
     \<lparr>shifts = Map.empty(''subject'' \<mapsto> 0, ''relation'' \<mapsto> 1, ''object'' \<mapsto> 3), reg_dim = d\<rparr>"

definition register :: "RoleRegistry \<Rightarrow> string \<Rightarrow> usize \<Rightarrow> role_error + RoleRegistry" where
  "register reg role shift =
     (case shifts reg role of
        Some existing \<Rightarrow>
          if existing \<noteq> shift then Inl (AlreadyRegistered role existing shift) else Inr reg
      | None \<Rightarrow> Inr (reg\<lparr>shifts := (shifts reg)(role \<mapsto> shift)\<rparr>))"

definition shift_for :: "RoleRegistry \<Rightarrow> string \<Rightarrow> usize option" where
  "shift_for reg role = shifts reg role"

text \<open>The loop shared by \<open>compose\<close> and \<open>unbind\<close>: bind every filler, rotated, into the result.\<close>

fun bind_roles :: "RoleRegistry \<Rightarrow> (string \<times> EntangledHVec) list \<Rightarrow> EntangledHVec
    \<Rightarrow> role_error + EntangledHVec" where
  "bind_roles reg [] result = Inr result"
| "bind_roles reg ((role, vec) # bindings) result =
     (case shifts reg role of
        None \<Rightarrow> Inl (UnknownRole role)
      | Some shift \<Rightarrow>
          bind_roles reg bindings
            (if shift = 0 then bind_hv result vec else bind_hv result (permute vec shift)))"

definition compose :: "RoleRegistry \<Rightarrow> (string \<times> EntangledHVec) list \<Rightarrow> role_error + EntangledHVec" where
  "compose reg bindings =
     (case bindings of
        [] \<Rightarrow> Inl ComposeEmpty
      | (_, v) # _ \<Rightarrow> bind_roles reg bindings (from_indices [] (dim v)))"


text \<open>\<open>compose_triple\<close> panics (here \<open>DefaultRoleMissing\<close>) if \<open>compose\<close> fails.\<close>

definition compose_triple :: "RoleRegistry \<Rightarrow> EntangledHVec \<Rightarrow> EntangledHVec \<Rightarrow> EntangledHVec
    \<Rightarrow> role_error + EntangledHVec" where
  "compose_triple reg s r ob =
     (case compose reg [(''subject'', s), (''relation'', r), (''object'', ob)] of
        Inr v \<Rightarrow> Inr v
      | Inl _ \<Rightarrow> Inl DefaultRoleMissing)"

section \<open>Registration\<close>

text \<open>A registry after any sequence of \<open>register\<close> calls; a rejected call changes nothing.\<close>

definition register_or_keep :: "RoleRegistry \<Rightarrow> string \<times> usize \<Rightarrow> RoleRegistry" where
  "register_or_keep reg p = (case register reg (fst p) (snd p) of Inl _ \<Rightarrow> reg | Inr reg' \<Rightarrow> reg')"

lemma register_or_keep_stable:
  "shifts reg role = Some k \<Longrightarrow> shifts (register_or_keep reg p) role = Some k"
  by (auto simp: register_or_keep_def register_def split: option.splits sum.splits)

lemma registrations_stable:
  "shifts reg role = Some k \<Longrightarrow> shifts (foldl register_or_keep reg ps) role = Some k"
  by (induction ps arbitrary: reg) (simp_all add: register_or_keep_stable)

lemma default_roles:
  "shifts (role_new d) ''subject'' = Some 0" "shifts (role_new d) ''relation'' = Some 1"
  "shifts (role_new d) ''object'' = Some 3"
  by (simp_all add: role_new_def)

section \<open>Composition as a fold of bindings\<close>


lemma permute_0 [simp]: "hv_wf v \<Longrightarrow> dim v \<le> 2 ^ 31 \<Longrightarrow> permute v 0 = v"
  using permute_multiple [of v 0] by simp

lemma hv_space_permute [simp, intro]: "hv_space d v \<Longrightarrow> d \<le> 2 ^ 31 \<Longrightarrow> hv_space d (permute v k)"
  by (simp add: hv_space_def)







lemma compose_triple_default:
  assumes "reg = foldl register_or_keep (role_new d0) ps" "hv_space d s" "hv_space d r" "hv_space d ob" "d \<le> 2 ^ 31"
  shows "compose_triple reg s r ob =
    Inr (bind_hv (bind_hv s (permute r 1)) (permute ob 3))"
proof -
  have roles: "shifts reg ''subject'' = Some 0" "shifts reg ''relation'' = Some 1" "shifts reg ''object'' = Some 3"
    unfolding assms(1) by (rule registrations_stable, rule default_roles)+
  have "bind_hv (from_indices [] d) s = s" using assms(2) by (rule xor_binding.unit_left)
  then show ?thesis
    using assms(2) roles by (simp add: compose_triple_def compose_def hv_space_def)
qed

section \<open>Properties\<close>



text \<open>
  The \<open>expect\<close> of \<open>compose_triple\<close> cannot fire: after any sequence of \<open>register\<close> calls,
  accepted or rejected, the three default roles keep their shifts, and the triple is
  subject, relation rotated by one and object rotated by three, bound together.
\<close>

theorem compose_triple_total:
  assumes "hv_space d s" "hv_space d r" "hv_space d ob" "d \<le> 2 ^ 31"
  shows "compose_triple (foldl register_or_keep (role_new d0) ps) s r ob =
    Inr (bind_hv (bind_hv s (permute r 1)) (permute ob 3))"
  by (rule compose_triple_default [OF refl assms])

theorem compose_triple_total_witness:
  "compose_triple (foldl register_or_keep (role_new 16) [(''object'', 7), (''place'', 5)])
     (from_indices [1] 16) (from_indices [2] 16) (from_indices [4] 16) =
   Inr (bind_hv (bind_hv (from_indices [1] 16) (permute (from_indices [2] 16) 1)) (permute (from_indices [4] 16) 3))"
  by (rule compose_triple_total [where d = 16]) (simp_all add: hv_space_def hv_wf_def from_indices_def)

end
