(* ===== verification/Bytes.thy ===== *)
theory Bytes
  imports Prelude
begin

text \<open>
  Byte strings: the little-endian codecs of \<open>to_le_bytes\<close> and \<open>from_le_bytes\<close>, overwriting a
  range of a buffer (\<open>copy_from_slice\<close>, \<open>fill\<close>) and sub-slices.
\<close>

unbundle bit_operations_syntax

primrec of_le_bytes :: "u8 list \<Rightarrow> 'a::len word" where
  "of_le_bytes [] = 0"
| "of_le_bytes (b # bs) = ucast b OR push_bit 8 (of_le_bytes bs)"

definition le_bytes :: "nat \<Rightarrow> 'a::len word \<Rightarrow> u8 list" where
  "le_bytes n w = map (\<lambda>k. ucast (drop_bit (8 * k) w)) [0..<n]"

abbreviation u16_le_bytes :: "u16 \<Rightarrow> u8 list" where "u16_le_bytes \<equiv> le_bytes 2"
abbreviation u32_le_bytes :: "u32 \<Rightarrow> u8 list" where "u32_le_bytes \<equiv> le_bytes 4"
abbreviation u64_le_bytes :: "u64 \<Rightarrow> u8 list" where "u64_le_bytes \<equiv> le_bytes 8"

definition overwrite :: "u8 list \<Rightarrow> nat \<Rightarrow> u8 list \<Rightarrow> u8 list" where
  "overwrite buf pos bs = take pos buf @ bs @ drop (pos + length bs) buf"

definition sub_slice :: "u8 list \<Rightarrow> nat \<Rightarrow> nat \<Rightarrow> u8 list" where
  "sub_slice buf pos len = take len (drop pos buf)"

section \<open>Codecs\<close>

lemma length_le_bytes [simp]: "length (le_bytes n w) = n"
  by (simp add: le_bytes_def)

lemma bit_of_le_bytes:
  "bit (of_le_bytes bs :: 'a::len word) k \<longleftrightarrow>
     k < LENGTH('a) \<and> k div 8 < length bs \<and> bit (bs ! (k div 8)) (k mod 8)"
proof (induction bs arbitrary: k)
  case (Cons b bs)
  show ?case
  proof (cases "k < 8")
    case True
    then show ?thesis by (auto simp: bit_or_iff bit_push_bit_iff bit_ucast_iff)
  next
    case False
    then obtain j where k: "k = 8 + j" using le_Suc_ex [of 8 k] by auto
    have b: "\<not> bit b (8 + j)" by (rule impossible_bit) simp
    have "(8 + j) div 8 = Suc (j div 8)" "(8 + j) mod 8 = j mod 8" by simp_all
    then show ?thesis using b Cons.IH [of j]
      by (auto simp: k bit_or_iff bit_push_bit_iff bit_ucast_iff)
  qed
qed simp

lemma bit_le_bytes: "k < n \<Longrightarrow> j < 8 \<Longrightarrow> bit (le_bytes n w ! k) j = bit w (8 * k + j)"
  by (simp add: le_bytes_def bit_ucast_iff bit_drop_bit_eq add.commute)

lemma of_le_bytes_le_bytes [simp]:
  assumes "LENGTH('a::len) \<le> 8 * n"
  shows "of_le_bytes (le_bytes n (w :: 'a word)) = w"
proof (rule bit_eqI)
  fix k assume "possible_bit TYPE('a word) k"
  then have k: "k < LENGTH('a)" by simp
  then have "k div 8 < n" using assms by linarith
  moreover have "8 * (k div 8) + k mod 8 = k" by simp
  ultimately show "bit (of_le_bytes (le_bytes n w) :: 'a word) k = bit w k"
    using k bit_le_bytes [of "k div 8" n "k mod 8" w] by (simp add: bit_of_le_bytes)
qed

lemma of_le_bytes_inj:
  assumes "(of_le_bytes bs :: 'a::len word) = of_le_bytes cs" "length bs = length cs" "8 * length bs \<le> LENGTH('a)"
  shows "bs = cs"
proof (rule nth_equalityI [OF assms(2)])
  fix i assume i: "i < length bs"
  show "bs ! i = cs ! i"
  proof (rule bit_eqI)
    fix k assume "possible_bit TYPE(8 word) k"
    then have k: "k < 8" by simp
    have "bit (of_le_bytes bs :: 'a word) (8 * i + k) = bit (of_le_bytes cs :: 'a word) (8 * i + k)"
      using assms(1) by simp
    moreover have "8 * i + k < LENGTH('a)" using i k assms(3) by linarith
    moreover have "(8 * i + k) div 8 = i" "(8 * i + k) mod 8 = k" using k by simp_all
    ultimately show "bit (bs ! i) k = bit (cs ! i) k" using i assms(2) by (simp add: bit_of_le_bytes)
  qed
qed

lemma le_bytes_of_le_bytes:
  "length bs = n \<Longrightarrow> LENGTH('a::len) = 8 * n \<Longrightarrow> le_bytes n (of_le_bytes bs :: 'a word) = bs"
  by (rule of_le_bytes_inj [where 'a = 'a]) simp_all

lemma of_le_bytes_zero [simp]: "of_le_bytes (replicate n 0) = (0 :: 'a::len word)"
  by (induction n) simp_all

lemma le_bytes_zero [simp]: "le_bytes n (0 :: 'a::len word) = replicate n 0"
  by (simp add: le_bytes_def map_replicate_trivial)

section \<open>Buffers\<close>

lemma length_overwrite [simp]: "pos + length bs \<le> length buf \<Longrightarrow> length (overwrite buf pos bs) = length buf"
  by (simp add: overwrite_def)

lemma sub_slice_overwrite [simp]:
  "pos + length bs \<le> length buf \<Longrightarrow> sub_slice (overwrite buf pos bs) pos (length bs) = bs"
  by (simp add: sub_slice_def overwrite_def)

lemma length_sub_slice [simp]: "length (sub_slice buf pos n) = min n (length buf - pos)"
  by (simp add: sub_slice_def min.commute)

lemma take_overwrite: "pos \<le> length buf \<Longrightarrow> n \<le> pos \<Longrightarrow> take n (overwrite buf pos bs) = take n buf"
  by (simp add: overwrite_def)

lemma drop_overwrite:
  "pos + length bs \<le> n \<Longrightarrow> pos \<le> length buf \<Longrightarrow> drop n (overwrite buf pos bs) = drop n buf"
  by (simp add: overwrite_def drop_append min_def)

lemma drop_overwrite_at: "pos \<le> length buf \<Longrightarrow> drop pos (overwrite buf pos bs) = bs @ drop (pos + length bs) buf"
  by (simp add: overwrite_def)

end
