(* ===== verification/Mask.thy ===== *)
theory Mask
  imports Entangled Bytes "HOL-Library.List_Lexorder" "HOL-Library.Product_Lexorder"
begin

text \<open>
  \<open>src/core/mask.rs\<close>: a keyed permutation of the coordinates of sparse hypervectors.  Argon2id
  and SHA-256 are external code: \<open>argon2\<close> derives the key (or fails) and \<open>sha256\<close> is the hash;
  no property here depends on what they return.
\<close>

record VectorMask =
  forward :: "u32 list"

datatype mask_error =
    EmptyPassphrase | SaltTooShort | BadDimensions | KeyDerivationFailed
  | DimensionMismatch usize usize | IndexOutOfRange u32

definition MAX_MASK_DIMENSIONS :: usize where "MAX_MASK_DIMENSIONS = 2 ^ 20"
definition MIN_SALT_LEN :: usize where "MIN_SALT_LEN = 16"

definition DOMAIN :: "u8 list" where
  "DOMAIN = map (\<lambda>c. of_nat (of_char c)) ''hms-vector-mask-v1''"

text \<open>The sorted ranking of the coordinates and the permutation table it fills.\<close>

definition ranked_coordinates :: "(u32 \<Rightarrow> u8 list) \<Rightarrow> usize \<Rightarrow> (u8 list \<times> u32) list" where
  "ranked_coordinates tag d = sort (map (\<lambda>i. (tag (of_nat i), of_nat i)) [0..<d])"

definition fill_ranks :: "usize \<Rightarrow> (u8 list \<times> u32) list \<Rightarrow> u32 list" where
  "fill_ranks d ranked =
     foldl (\<lambda>fwd (rank, (_, idx)). fwd[unat idx := of_nat rank]) (replicate d 0) (enumerate 0 ranked)"

definition derive :: "(u8 list \<Rightarrow> u8 list \<Rightarrow> u8 list option) \<Rightarrow> (u8 list \<Rightarrow> u8 list)
    \<Rightarrow> u8 list \<Rightarrow> u8 list \<Rightarrow> usize \<Rightarrow> mask_error + VectorMask" where
  "derive argon2 sha256 passphrase salt d =
     (if passphrase = [] then Inl EmptyPassphrase
      else if length salt < MIN_SALT_LEN then Inl SaltTooShort
      else if \<not> (1 \<le> d \<and> d \<le> MAX_MASK_DIMENSIONS) then Inl BadDimensions
      else case argon2 passphrase salt of
        None \<Rightarrow> Inl KeyDerivationFailed
      | Some key \<Rightarrow>
          let prefix = DOMAIN @ key @ u64_le_bytes (of_nat d);
              ranked = ranked_coordinates (\<lambda>idx. sha256 (prefix @ u32_le_bytes idx)) d
          in Inr \<lparr>forward = fill_ranks d ranked\<rparr>)"

definition dimensions :: "VectorMask \<Rightarrow> usize" where
  "dimensions m = length (forward m)"

fun map_indices :: "u32 list \<Rightarrow> u32 list \<Rightarrow> mask_error + u32 list" where
  "map_indices table [] = Inr []"
| "map_indices table (idx # ixs) =
     (if unat idx < length table then
        (case map_indices table ixs of
           Inl e \<Rightarrow> Inl e
         | Inr mapped \<Rightarrow> Inr (table ! unat idx # mapped))
      else Inl (IndexOutOfRange idx))"

definition mask_map :: "EntangledHVec \<Rightarrow> u32 list \<Rightarrow> mask_error + EntangledHVec" where
  "mask_map v table =
     (if dim v \<noteq> length table then Inl (DimensionMismatch (dim v) (length table))
      else case map_indices table (indices v) of
        Inl e \<Rightarrow> Inl e
      | Inr mapped \<Rightarrow> Inr (from_indices (sort mapped) (dim v)))"

definition mask_apply :: "VectorMask \<Rightarrow> EntangledHVec \<Rightarrow> mask_error + EntangledHVec" where
  "mask_apply m v = mask_map v (forward m)"

definition inverse_table :: "u32 list \<Rightarrow> u32 list" where
  "inverse_table fwd =
     foldl (\<lambda>inv (idx, target). inv[unat target := of_nat idx]) (replicate (length fwd) 0) (enumerate 0 fwd)"

definition mask_invert :: "VectorMask \<Rightarrow> EntangledHVec \<Rightarrow> mask_error + EntangledHVec" where
  "mask_invert m masked = mask_map masked (inverse_table (forward m))"

section \<open>Permutation tables\<close>

definition permutation_table :: "u32 list \<Rightarrow> bool" where
  "permutation_table t \<longleftrightarrow> distinct t \<and> (\<forall>x \<in> set t. unat x < length t) \<and> length t \<le> 2 ^ 20"

text \<open>Filling a table at distinct positions with their ranks inverts the list of positions.\<close>

lemma length_fill [simp]:
  "length (foldl (\<lambda>f (r, x). f[p x := g r]) f0 rs) = length f0"
  by (induction rs arbitrary: f0) (auto simp: case_prod_beta)

lemma fill_other:
  "k \<notin> p ` snd ` set rs \<Longrightarrow> foldl (\<lambda>f (r, x). f[p x := g r]) f0 rs ! k = f0 ! k"
  by (induction rs arbitrary: f0) (auto simp: case_prod_beta)

lemma fill_nth:
  assumes "distinct (map p xs)" "\<forall>x \<in> set xs. p x < length f0" "j < length xs"
  shows "foldl (\<lambda>f (r, x). f[p x := g r]) f0 (enumerate n xs) ! p (xs ! j) = g (n + j)"
  using assms
proof (induction xs arbitrary: n f0 j)
  case (Cons x xs)
  show ?case
  proof (cases j)
    case 0
    have "p x \<notin> p ` snd ` set (enumerate (Suc n) xs)"
      using Cons.prems(1) by (auto simp: set_zip in_set_enumerate_eq)
    then show ?thesis using 0 Cons.prems(2) by (simp add: fill_other)
  next
    case (Suc i)
    then show ?thesis using Cons.IH [of "f0[p x := g n]" i "Suc n"] Cons.prems by simp
  qed
qed simp

lemma filled_table:
  assumes "distinct (map (\<lambda>x. unat (q x)) xs)" "\<forall>x \<in> set xs. unat (q x) < length xs"
    "length xs \<le> 2 ^ 20"
  defines "t \<equiv> foldl (\<lambda>f (r, x). f[unat (q x) := of_nat r]) (replicate (length xs) (0::u32)) (enumerate 0 xs)"
  shows "permutation_table t" "length t = length xs" "j < length xs \<Longrightarrow> t ! unat (q (xs ! j)) = of_nat j"
proof -
  show len: "length t = length xs"
    unfolding t_def using length_fill [of "\<lambda>x. unat (q x)" "of_nat" "replicate (length xs) 0"] by simp
  have nth: "j < length xs \<Longrightarrow> t ! unat (q (xs ! j)) = of_nat j" for j
    unfolding t_def using fill_nth [of "\<lambda>x. unat (q x)" xs "replicate (length xs) 0" j of_nat 0] assms(1,2) by simp
  show "j < length xs \<Longrightarrow> t ! unat (q (xs ! j)) = of_nat j" by (rule nth)
  have un: "j < length xs \<Longrightarrow> unat (of_nat j :: u32) = j" for j
    using assms(3) by (simp add: unat_of_nat)
  have "(\<lambda>j. of_nat j :: u32) ` {..<length xs} \<subseteq> set t"
  proof
    fix y assume "y \<in> (\<lambda>j. of_nat j :: u32) ` {..<length xs}"
    then obtain j where j: "j < length xs" "y = of_nat j" by auto
    then show "y \<in> set t" using nth [OF j(1)] assms(2) len by (metis nth_mem)
  qed
  moreover have "card ((\<lambda>j. of_nat j :: u32) ` {..<length xs}) = length xs"
    by (subst card_image) (auto intro!: inj_onI dest!: arg_cong [where f = unat] simp: un)
  moreover have "card (set t) \<le> length xs" using len card_length [of t] by simp
  ultimately have eq: "(\<lambda>j. of_nat j :: u32) ` {..<length xs} = set t"
    by (intro card_subset_eq) (auto intro: card_mono le_antisym dest: card_mono [rotated])
  then have "card (set t) = length t"
    using \<open>card ((\<lambda>j. of_nat j :: u32) ` {..<length xs}) = length xs\<close> len by simp
  then show "permutation_table t"
    unfolding permutation_table_def using eq [symmetric] un len assms(3)
    by (auto intro: card_distinct)
qed

lemma derive_permutation:
  assumes "derive argon2 sha256 passphrase salt d = Inr m"
  shows "permutation_table (forward m)" "length (forward m) = d"
proof -
  obtain tag where fwd: "forward m = fill_ranks d (ranked_coordinates tag d)"
    and d: "d \<le> 2 ^ 20"
    using assms by (auto simp: derive_def Let_def MAX_MASK_DIMENSIONS_def split: if_splits option.splits)
  let ?rs = "ranked_coordinates tag d"
  have len: "length ?rs = d" by (simp add: ranked_coordinates_def)
  have un: "j < d \<Longrightarrow> unat (of_nat j :: u32) = j" for j using d by (simp add: unat_of_nat)
  have "mset (map (\<lambda>x. unat (snd x)) ?rs) = mset (map (\<lambda>j. unat (of_nat j :: u32)) [0..<d])"
    by (simp add: ranked_coordinates_def comp_def multiset.map_comp)
  also have "map (\<lambda>j. unat (of_nat j :: u32)) [0..<d] = [0..<d]" by (rule map_idI) (use un in auto)
  finally have ms: "mset (map (\<lambda>x. unat (snd x)) ?rs) = mset [0..<d]" .
  then have dist: "distinct (map (\<lambda>x. unat (snd x)) ?rs)" using mset_eq_imp_distinct_iff by fastforce
  have bound: "\<forall>x \<in> set ?rs. unat (snd x) < length ?rs"
  proof
    fix x assume "x \<in> set ?rs"
    then have "unat (snd x) \<in> set (map (\<lambda>x. unat (snd x)) ?rs)" by simp
    then show "unat (snd x) < length ?rs" using mset_eq_setD [OF ms] len by simp
  qed
  have eq: "fill_ranks d ?rs =
      foldl (\<lambda>f (r, x). f[unat (snd x) := of_nat r]) (replicate (length ?rs) 0) (enumerate 0 ?rs)"
    by (simp add: fill_ranks_def len split_def)
  show "permutation_table (forward m)" "length (forward m) = d"
    unfolding fwd eq using filled_table(1,2) [OF dist bound] d len by auto
qed

section \<open>Applying a table\<close>

definition table_image :: "u32 list \<Rightarrow> EntangledHVec \<Rightarrow> EntangledHVec" where
  "table_image t v = \<lparr>dim = dim v, indices = sort (map (\<lambda>i. t ! unat i) (indices v))\<rparr>"

lemma map_indices_ok:
  "\<forall>i \<in> set ixs. unat i < length t \<Longrightarrow> map_indices t ixs = Inr (map (\<lambda>i. t ! unat i) ixs)"
  by (induction ixs) auto

lemma mask_map_ok: "hv_wf v \<Longrightarrow> dim v = length t \<Longrightarrow> mask_map v t = Inr (table_image t v)"
  by (simp add: mask_map_def map_indices_ok hv_wf_def table_image_def from_indices_def)

lemma active_table_image [simp]: "active (table_image t v) = (\<lambda>i. t ! unat i) ` active v"
  by (simp add: table_image_def)

lemma dim_table_image [simp]: "dim (table_image t v) = dim v"
  by (simp add: table_image_def)

lemma table_inj:
  "permutation_table t \<Longrightarrow> inj_on (\<lambda>i. t ! unat i) {i. unat i < length t}"
  by (auto simp: inj_on_def permutation_table_def nth_eq_iff_index_eq intro: word_unat_eq_iff [THEN iffD2])

lemma table_image_wf:
  assumes "permutation_table t" "hv_wf v" "dim v = length t"
  shows "hv_wf (table_image t v)"
proof -
  have "inj_on (\<lambda>i. t ! unat i) (active v)"
    using table_inj [OF assms(1)] by (rule inj_on_subset) (use assms in \<open>auto simp: hv_wf_def\<close>)
  then have "distinct (map (\<lambda>i. t ! unat i) (indices v))"
    using assms(2) by (simp add: distinct_map ssorted_distinct hv_wf_def)
  then show ?thesis
    using assms by (auto simp: table_image_def permutation_table_def hv_wf_def
        intro!: hv_wfI sorted_distinct_ssorted)
qed

lemma inverse_table_ok:
  assumes "permutation_table t"
  shows "permutation_table (inverse_table t)" "length (inverse_table t) = length t"
    "unat i < length t \<Longrightarrow> inverse_table t ! unat (t ! unat i) = i"
proof -
  have d: "distinct (map (\<lambda>x. unat (x :: u32)) t)"
    using assms by (auto simp: permutation_table_def distinct_map inj_on_def word_unat_eq_iff)
  have b: "\<forall>x \<in> set t. unat x < length t" "length t \<le> 2 ^ 20"
    using assms by (auto simp: permutation_table_def)
  note filled = filled_table [of "\<lambda>x. x" t, OF d b, folded inverse_table_def]
  show "permutation_table (inverse_table t)" "length (inverse_table t) = length t"
    using filled(1,2) by auto
  show "unat i < length t \<Longrightarrow> inverse_table t ! unat (t ! unat i) = i"
    using filled(3) [of "unat i"] by simp
qed

lemma invert_apply:
  assumes "permutation_table t" "hv_wf v" "dim v = length t"
  shows "table_image (inverse_table t) (table_image t v) = v"
proof (rule hv_eqI)
  note inv = inverse_table_ok [OF assms(1)] and wf = table_image_wf [OF assms]
  show "hv_wf (table_image (inverse_table t) (table_image t v))"
    by (rule table_image_wf [OF inv(1) wf]) (use assms inv(2) in simp)
  have "(\<lambda>i. inverse_table t ! unat (t ! unat i)) ` active v = (\<lambda>i. i) ` active v"
    using inv(3) assms(2,3) by (intro image_cong) (auto simp: hv_wf_def)
  then show "active (table_image (inverse_table t) (table_image t v)) = active v"
    by (simp add: image_image)
qed (use assms in auto)

lemma table_image_intersection:
  assumes "permutation_table t" "hv_wf v" "hv_wf w" "dim v = length t" "dim w = length t"
  shows "sparse_intersection_count avx2 (indices (table_image t v)) (indices (table_image t w)) =
         sparse_intersection_count avx2 (indices v) (indices w)"
proof -
  have inj: "inj_on (\<lambda>i. t ! unat i) (active v \<union> active w)"
    using table_inj [OF assms(1)] by (rule inj_on_subset) (use assms in \<open>auto simp: hv_wf_def\<close>)
  have "active (table_image t v) \<inter> active (table_image t w) = (\<lambda>i. t ! unat i) ` (active v \<inter> active w)"
    using inj_on_image_Int [OF inj, of "active v" "active w"] by simp
  moreover have "card ((\<lambda>i. t ! unat i) ` (active v \<inter> active w)) = card (active v \<inter> active w)"
    by (rule card_image) (rule inj_on_subset [OF inj], blast)
  ultimately show ?thesis
    using assms table_image_wf [OF assms(1,2,4)] table_image_wf [OF assms(1,3,5)]
    by (simp add: dispatch.count_correct hv_wf_ssorted)
qed

lemma table_image_bind:
  assumes "permutation_table t" "hv_wf v" "hv_wf w" "dim v = length t" "dim w = length t"
  shows "table_image t (bind_hv v w) = bind_hv (table_image t v) (table_image t w)"
proof (rule hv_eqI)
  note wfs = table_image_wf [OF assms(1,2,4)] table_image_wf [OF assms(1,3,5)]
  show "hv_wf (table_image t (bind_hv v w))"
    by (rule table_image_wf [OF assms(1) bind_hv_wf [OF assms(2,3)]]) (use assms in auto)
  show "hv_wf (bind_hv (table_image t v) (table_image t w))" using wfs assms by auto
  have inj: "inj_on (\<lambda>i. t ! unat i) (active v \<union> active w)"
    using table_inj [OF assms(1)] by (rule inj_on_subset) (use assms in \<open>auto simp: hv_wf_def\<close>)
  have "(\<lambda>i. t ! unat i) ` (active v - active w) = (\<lambda>i. t ! unat i) ` active v - (\<lambda>i. t ! unat i) ` active w"
    "(\<lambda>i. t ! unat i) ` (active w - active v) = (\<lambda>i. t ! unat i) ` active w - (\<lambda>i. t ! unat i) ` active v"
    by (rule inj_on_image_set_diff [OF inj]; blast)+
  then show "active (table_image t (bind_hv v w)) = active (bind_hv (table_image t v) (table_image t w))"
    using assms wfs by (simp add: image_Un)
qed simp

section \<open>Properties\<close>

text \<open>
  C35. A derived mask applies to every well-formed vector of its dimension, gives a well-formed
  vector of the same dimension, and \<open>invert\<close> takes it back to the original, whatever the key
  derivation and the hash return.
\<close>

theorem mask_roundtrip:
  assumes "derive argon2 sha256 passphrase salt d = Inr m" "hv_space d v"
  shows "dimensions m = d \<and> (\<exists>w. mask_apply m v = Inr w \<and> hv_space d w \<and> mask_invert m w = Inr v)"
proof -
  note p = derive_permutation [OF assms(1)]
  have v: "hv_wf v" "dim v = length (forward m)" using assms(2) p(2) by (auto simp: hv_space_def)
  note inv = inverse_table_ok [OF p(1)] and wf = table_image_wf [OF p(1) v]
  have "mask_apply m v = Inr (table_image (forward m) v)"
    by (simp add: mask_apply_def mask_map_ok v)
  moreover have "mask_invert m (table_image (forward m) v) = Inr v"
    using mask_map_ok [OF wf, of "inverse_table (forward m)"] inv(2) v invert_apply [OF p(1) v]
    by (simp add: mask_invert_def)
  ultimately show ?thesis using wf v p(2) by (auto simp: hv_space_def dimensions_def)
qed

lemma derive_example:
  "derive (\<lambda>p s. Some p) (\<lambda>bs. map (\<lambda>b. 1 - b) (rev bs)) [7] (replicate 16 1) 2 = Inr \<lparr>forward = [1, 0]\<rparr>"
proof -
  have upt: "[0..<2] = [0, 1 :: nat]" "[0..<4] = [0, 1, 2, 3 :: nat]" "replicate 2 (0 :: u32) = [0, 0]"
    by (simp_all add: upt_rec numeral_2_eq_2)
  show ?thesis
    by (simp add: derive_def MIN_SALT_LEN_def MAX_MASK_DIMENSIONS_def Let_def ranked_coordinates_def
        fill_ranks_def le_bytes_def upt)
qed

theorem mask_roundtrip_witness:
  "dimensions \<lparr>forward = [1, 0]\<rparr> = 2 \<and> (\<exists>w. mask_apply \<lparr>forward = [1, 0]\<rparr> (from_indices [1] 2) = Inr w \<and> hv_space 2 w \<and>
     mask_invert \<lparr>forward = [1, 0]\<rparr> w = Inr (from_indices [1] 2))"
  by (rule mask_roundtrip [OF derive_example]) (simp add: hv_space_def hv_wf_def from_indices_def)

text \<open>
  Search and binding work on masked vectors as on the originals: masking keeps the
  Hamming distance and the overlap similarity of two vectors and commutes with binding.
\<close>

theorem mask_preserves_search:
  assumes "derive argon2 sha256 passphrase salt d = Inr m" "hv_space d v" "hv_space d w"
    "mask_apply m v = Inr v'" "mask_apply m w = Inr w'"
  shows "hamming avx2 v' w' = hamming avx2 v w \<and> similarity rnd avx2 v' w' = similarity rnd avx2 v w \<and>
    mask_apply m (bind_hv v w) = Inr (bind_hv v' w')"
proof -
  note p = derive_permutation [OF assms(1)]
  have v: "hv_wf v" "dim v = length (forward m)" and w: "hv_wf w" "dim w = length (forward m)"
    using assms(2,3) p(2) by (auto simp: hv_space_def)
  have img: "v' = table_image (forward m) v" "w' = table_image (forward m) w"
    using assms(4,5) mask_map_ok [OF v] mask_map_ok [OF w] by (auto simp: mask_apply_def)
  have len: "length (indices v') = length (indices v)" "length (indices w') = length (indices w)"
    by (simp_all add: img table_image_def)
  have cnt: "sparse_intersection_count avx2 (indices v') (indices w') = sparse_intersection_count avx2 (indices v) (indices w)"
    unfolding img by (rule table_image_intersection [OF p(1) v(1) w(1) v(2) w(2)])
  have "mask_apply m (bind_hv v w) = Inr (bind_hv v' w')"
    using v w mask_map_ok [OF bind_hv_wf [OF v(1) w(1)]] table_image_bind [OF p(1) v(1) w(1) v(2) w(2)]
    by (simp add: mask_apply_def img)
  then show ?thesis using len cnt by (simp add: hamming_def similarity_def)
qed

theorem mask_preserves_search_witness:
  "hamming False (from_indices [1] 2) (from_indices [0, 1] 2) = hamming False (from_indices [0] 2) (from_indices [0, 1] 2)"
  using mask_preserves_search [OF derive_example, of "from_indices [0] 2" "from_indices [0, 1] 2"
      "from_indices [1] 2" "from_indices [0, 1] 2" False]
  by (simp add: hv_space_def hv_wf_def from_indices_def mask_apply_def mask_map_def)

end
