(* ===== verification/Frames.thy ===== *)
theory Frames
  imports Bytes
begin

text \<open>
  The framing of \<open>src/core/storage.rs\<close>: headers, the end marker, the check of one frame, the
  search for committed data and the recovery walk \<open>discover_offset\<close> over the bytes of a segment.
  CRC-32 and LZ4 are external code: \<open>crc32\<close> is the checksum and \<open>lz4 payload n\<close> decompresses a
  block into at most \<open>n\<close> bytes (or fails); nothing is assumed of them in this theory.
\<close>

section \<open>Headers\<close>

definition HEADER_SIZE :: usize where [simp]: "HEADER_SIZE = 16"

definition MAX_RAW_FRAME_SIZE :: usize where "MAX_RAW_FRAME_SIZE = 50 * 1024 * 1024"

definition END_MARK :: u32 where "END_MARK = 0x454E444C"

definition header_words :: "u8 list \<Rightarrow> (u32 \<times> u32 \<times> u32 \<times> u32) option" where
  "header_words bytes =
     (if length bytes < HEADER_SIZE then None
      else Some (of_le_bytes (sub_slice bytes 0 4), of_le_bytes (sub_slice bytes 4 4),
                 of_le_bytes (sub_slice bytes 8 4), of_le_bytes (sub_slice bytes 12 4)))"

definition is_log_end :: "u8 list \<Rightarrow> bool" where
  "is_log_end header =
     (case header_words header of
        None \<Rightarrow> False
      | Some (crc, raw_len, comp_len, version) \<Rightarrow>
          crc = 0 \<and> raw_len = 0 \<and> comp_len = 0 \<and> (version = 0 \<or> version = END_MARK))"

definition end_marker_bytes :: "u8 list" where
  "end_marker_bytes = overwrite (replicate HEADER_SIZE 0) 12 (u32_le_bytes END_MARK)"

section \<open>Checking a frame\<close>

definition frame_checks_out :: "(u8 list \<Rightarrow> u32) \<Rightarrow> (u8 list \<Rightarrow> usize \<Rightarrow> u8 list option)
    \<Rightarrow> u8 list \<Rightarrow> usize \<Rightarrow> bool" where
  "frame_checks_out crc32 lz4 data offset =
     (if length data < offset then False
      else case header_words (drop offset data) of
        None \<Rightarrow> False
      | Some (expected_crc, raw_w, comp_w, _) \<Rightarrow>
          let raw_len = unat raw_w; comp_len = unat comp_w
          in if comp_len = 0 \<or> raw_len = 0 \<or> MAX_RAW_FRAME_SIZE < raw_len \<or> raw_len < comp_len then False
             else if length data < offset + (HEADER_SIZE + comp_len) then False
             else let payload = sub_slice data (offset + HEADER_SIZE) comp_len
               in if comp_len < raw_len then
                    (case lz4 payload raw_len of
                       None \<Rightarrow> False
                     | Some out \<Rightarrow> if length out = raw_len then crc32 out = expected_crc else False)
                  else crc32 payload = expected_crc)"

section \<open>The search for committed data\<close>

text \<open>\<open>rposition\<close> of an iterator: the last index that satisfies the predicate.\<close>

fun rposition :: "('a \<Rightarrow> bool) \<Rightarrow> 'a list \<Rightarrow> nat option" where
  "rposition P [] = None"
| "rposition P (x # xs) =
     (case rposition P xs of Some i \<Rightarrow> Some (Suc i) | None \<Rightarrow> if P x then Some 0 else None)"

definition blocks_of :: "nat \<Rightarrow> u8 list \<Rightarrow> u8 list list" where
  "blocks_of n data = map (\<lambda>k. sub_slice data (k * n) n) [0..<length data div n]"

definition last_nonzero :: "u8 list \<Rightarrow> usize option" where
  "last_nonzero data =
     (let blocks = blocks_of 4096 data;
          tail = drop (length blocks * 4096) data
      in case rposition (\<lambda>b. b \<noteq> 0) tail of
           Some i \<Rightarrow> Some (length blocks * 4096 + i)
         | None \<Rightarrow>
             (case rposition (\<lambda>bytes. bytes \<noteq> replicate 4096 0) blocks of
                None \<Rightarrow> None
              | Some block \<Rightarrow>
                  (case rposition (\<lambda>b. b \<noteq> 0) (blocks ! block) of
                     None \<Rightarrow> None
                   | Some i \<Rightarrow> Some (block * 4096 + i))))"

definition committed_after :: "(u8 list \<Rightarrow> u32) \<Rightarrow> (u8 list \<Rightarrow> usize \<Rightarrow> u8 list option)
    \<Rightarrow> u8 list \<Rightarrow> usize \<Rightarrow> bool \<Rightarrow> usize option" where
  "committed_after crc32 lz4 data from include_end_marker =
     (case last_nonzero data of
        None \<Rightarrow> None
      | Some last_byte \<Rightarrow>
          find (\<lambda>pos. pos + HEADER_SIZE \<le> length data \<and>
                 (frame_checks_out crc32 lz4 data pos \<or>
                  include_end_marker \<and> is_log_end (sub_slice data pos HEADER_SIZE) \<and>
                  sub_slice data (pos + 12) 4 = u32_le_bytes END_MARK))
            [from..<Suc (last_byte - (HEADER_SIZE - 1))])"

section \<open>Recovery\<close>

datatype segment_error = CorruptSegment usize usize

text \<open>The local closure \<open>fail\<close>: a bad frame ends the walk only when nothing committed follows.\<close>

definition recovery_fail :: "(u8 list \<Rightarrow> u32) \<Rightarrow> (u8 list \<Rightarrow> usize \<Rightarrow> u8 list option)
    \<Rightarrow> u8 list \<Rightarrow> usize \<Rightarrow> u32 \<Rightarrow> segment_error + usize \<times> u32" where
  "recovery_fail crc32 lz4 data offset max_version =
     (case committed_after crc32 lz4 data (offset + 1) True of
        Some nxt \<Rightarrow> Inl (CorruptSegment offset nxt)
      | None \<Rightarrow> Inr (offset, max_version))"

function discover_loop :: "(u8 list \<Rightarrow> u32) \<Rightarrow> (u8 list \<Rightarrow> usize \<Rightarrow> u8 list option)
    \<Rightarrow> u8 list \<Rightarrow> usize \<Rightarrow> u32 \<Rightarrow> segment_error + usize \<times> u32" where
  "discover_loop crc32 lz4 data offset max_version =
     (case header_words (drop offset data) of
        None \<Rightarrow> Inr (offset, max_version)
      | Some (_, raw_w, comp_w, version) \<Rightarrow>
          if unat raw_w = 0 \<and> unat comp_w = 0 then
            if is_log_end (sub_slice data offset HEADER_SIZE) then
              if committed_after crc32 lz4 data (offset + HEADER_SIZE) False \<noteq> None
              then recovery_fail crc32 lz4 data offset max_version
              else Inr (offset, max_version)
            else recovery_fail crc32 lz4 data offset max_version
          else if length data < unat comp_w \<or> MAX_RAW_FRAME_SIZE < unat raw_w \<or> unat comp_w = 0
          then recovery_fail crc32 lz4 data offset max_version
          else if length data < offset + (HEADER_SIZE + unat comp_w)
          then recovery_fail crc32 lz4 data offset max_version
          else if \<not> frame_checks_out crc32 lz4 data offset
          then recovery_fail crc32 lz4 data offset max_version
          else discover_loop crc32 lz4 data (offset + (HEADER_SIZE + unat comp_w))
                 (if max_version < version then version else max_version))"
  by pat_completeness auto
termination
  by (relation "measure (\<lambda>(crc32, lz4, data, offset, _). length data - offset)")
    (auto simp: header_words_def split: if_splits)

definition discover_offset :: "(u8 list \<Rightarrow> u32) \<Rightarrow> (u8 list \<Rightarrow> usize \<Rightarrow> u8 list option)
    \<Rightarrow> u8 list \<Rightarrow> segment_error + usize \<times> u32" where
  "discover_offset crc32 lz4 data = discover_loop crc32 lz4 data 0 0"

declare discover_loop.simps [simp del]

section \<open>The reference decoder\<close>

text \<open>
  The frame at the start of \<open>rest\<close>: its payload, version and total size.  The check of a
  frame, the reader of a frame and the verifier of stored segments are all related to it.
\<close>

definition decode_rest :: "(u8 list \<Rightarrow> u32) \<Rightarrow> (u8 list \<Rightarrow> usize \<Rightarrow> u8 list option)
    \<Rightarrow> u8 list \<Rightarrow> (u8 list \<times> u32 \<times> usize) option" where
  "decode_rest crc32 lz4 rest =
     (case header_words rest of
        None \<Rightarrow> None
      | Some (crc, raw_w, comp_w, version) \<Rightarrow>
          if unat comp_w = 0 \<or> MAX_RAW_FRAME_SIZE < unat raw_w \<or> unat raw_w < unat comp_w \<or>
             length rest < 16 + unat comp_w then None
          else
            let stored = sub_slice rest 16 (unat comp_w)
            in (case (if unat comp_w < unat raw_w then lz4 stored (unat raw_w) else Some stored) of
                  None \<Rightarrow> None
                | Some payload \<Rightarrow>
                    if length payload = unat raw_w \<and> crc32 payload = crc
                    then Some (payload, version, 16 + unat comp_w) else None))"

lemma frame_checks_out_decode:
  "frame_checks_out crc32 lz4 data offset \<longleftrightarrow> decode_rest crc32 lz4 (drop offset data) \<noteq> None"
proof (cases "header_words (drop offset data)")
  case None
  then show ?thesis by (simp add: frame_checks_out_def decode_rest_def)
next
  case (Some h)
  obtain crc raw_w comp_w version where h: "h = (crc, raw_w, comp_w, version)" by (cases h)
  have "16 \<le> length (drop offset data)"
    using Some by (auto simp: header_words_def split: if_splits)
  then have len: "offset + 16 \<le> length data" "\<not> length data < offset" by auto
  have bound: "length data < offset + (16 + unat comp_w) \<longleftrightarrow> length data - offset < 16 + unat comp_w"
    using len by linarith
  have sub: "sub_slice data (offset + 16) (unat comp_w) = sub_slice (drop offset data) 16 (unat comp_w)"
    by (simp add: sub_slice_def add.commute)
  show ?thesis
    using Some len
    by (auto simp: frame_checks_out_def decode_rest_def h Let_def bound sub split: option.splits if_splits)
qed

lemma header_words_prefix:
  assumes "16 \<le> n" "take n xs = take n ys"
  shows "header_words xs = header_words ys"
proof -
  have len: "min n (length xs) = min n (length ys)" using arg_cong [OF assms(2), of length] by simp
  have sub: "sub_slice xs k 4 = sub_slice ys k 4" if "k + 4 \<le> 16" for k
  proof -
    have "take (k + 4) xs = take (k + 4) ys"
      using assms that by (metis le_trans min.absorb1 take_take)
    then show ?thesis by (metis sub_slice_def add.commute take_drop)
  qed
  show ?thesis using len assms(1) sub [of 0] sub [of 4] sub [of 8] sub [of 12]
    by (auto simp: header_words_def min_def split: if_splits)
qed

lemma decode_rest_size: "decode_rest crc32 lz4 rest = Some (p, v, n) \<Longrightarrow> 16 < n \<and> n \<le> length rest"
  by (auto simp: decode_rest_def Let_def split: option.splits if_splits)

text \<open>Decoding only looks at the bytes of the frame.\<close>

lemma decode_rest_prefix:
  assumes "decode_rest crc32 lz4 xs = Some (p, v, n)" "take n xs = take n ys"
  shows "decode_rest crc32 lz4 ys = Some (p, v, n)"
proof -
  have n: "16 < n" "n \<le> length xs" using decode_rest_size [OF assms(1)] by auto
  have len: "n \<le> length ys" using arg_cong [OF assms(2), of length] n by simp
  obtain h where h: "header_words xs = Some h" using assms(1) by (auto simp: decode_rest_def split: option.splits)
  then have h': "header_words ys = Some h" using header_words_prefix [OF _ assms(2)] n by simp
  obtain crc raw_w comp_w version where hh: "h = (crc, raw_w, comp_w, version)" by (cases h)
  have size: "n = 16 + unat comp_w"
    using assms(1) h hh by (auto simp: decode_rest_def Let_def split: option.splits if_splits)
  have "sub_slice xs 16 (unat comp_w) = sub_slice ys 16 (unat comp_w)"
    using assms(2) size by (metis sub_slice_def take_drop add.commute)
  then show ?thesis
    using assms(1) h h' hh size n len by (auto simp: decode_rest_def Let_def split: option.splits if_splits)
qed

section \<open>The last written byte\<close>

lemma rposition_None: "rposition P xs = None \<longleftrightarrow> (\<forall>x \<in> set xs. \<not> P x)"
  by (induction xs) (auto split: option.splits)

lemma rposition_append:
  "rposition P (xs @ ys) =
     (case rposition P ys of Some i \<Rightarrow> Some (length xs + i) | None \<Rightarrow> rposition P xs)"
  by (induction xs) (auto split: option.splits)

lemma rposition_Some: "rposition P xs = Some i \<Longrightarrow> i < length xs \<and> P (xs ! i)"
  by (induction xs arbitrary: i) (auto split: option.splits if_splits)

lemma rposition_last: "rposition P xs = Some i \<Longrightarrow> j < length xs \<Longrightarrow> P (xs ! j) \<Longrightarrow> j \<le> i"
proof (induction xs arbitrary: i j)
  case (Cons x xs)
  show ?case
  proof (cases "rposition P xs")
    case None
    then show ?thesis using Cons.prems by (cases j) (auto simp: rposition_None split: if_splits)
  next
    case (Some k)
    then show ?thesis using Cons.prems Cons.IH [OF Some] by (cases j) auto
  qed
qed simp

lemma concat_blocks:
  "concat (map (\<lambda>k. sub_slice data (k * n) n) [0..<m]) = take (m * n) data"
  by (induction m) (simp_all add: sub_slice_def take_add add.commute [of n])

lemma rposition_concat_blocks:
  assumes "\<forall>b \<in> set bs. length b = n"
  shows "rposition (\<lambda>b. b \<noteq> 0) (concat bs) =
    (case rposition (\<lambda>b. b \<noteq> replicate n 0) bs of
       None \<Rightarrow> None
     | Some k \<Rightarrow> (case rposition (\<lambda>b. b \<noteq> 0) (bs ! k) of None \<Rightarrow> None | Some i \<Rightarrow> Some (k * n + i)))"
  using assms
proof (induction bs rule: rev_induct)
  case (snoc b bs)
  have zero: "rposition (\<lambda>x. x \<noteq> 0) b = None \<longleftrightarrow> b = replicate n 0"
  proof
    assume "b = replicate n 0"
    then show "rposition (\<lambda>x. x \<noteq> 0) b = None" by (simp add: rposition_None)
  qed (use snoc.prems in \<open>auto simp: rposition_None intro: replicate_eqI\<close>)
  have len: "length (concat bs) = length bs * n"
    using snoc.prems by (induction bs) (auto simp: algebra_simps)
  show ?case
  proof (cases "b = replicate n 0")
    case True
    then have z: "rposition (\<lambda>x. x \<noteq> 0) b = None" using zero by simp
    have "rposition (\<lambda>b. b \<noteq> replicate n 0) bs = Some k \<Longrightarrow> k < length bs" for k
      using rposition_Some by fastforce
    then show ?thesis using snoc True z
      by (auto simp: rposition_append nth_append split: option.splits)
  next
    case False
    then obtain i where "rposition (\<lambda>x. x \<noteq> 0) b = Some i" using zero by auto
    then show ?thesis using False len by (simp add: rposition_append)
  qed
qed simp

lemma last_nonzero_rposition: "last_nonzero data = rposition (\<lambda>b. b \<noteq> 0) data"
proof -
  let ?m = "length data div 4096"
  let ?bs = "blocks_of 4096 data"
  have len: "length ?bs = ?m" by (simp add: blocks_of_def)
  have all: "\<forall>b \<in> set ?bs. length b = 4096"
  proof
    fix b assume "b \<in> set ?bs"
    then obtain k where k: "k < ?m" "b = sub_slice data (k * 4096) 4096" by (auto simp: blocks_of_def)
    then have "Suc k * 4096 \<le> length data" by (simp add: less_eq_div_iff_mult_less_eq flip: Suc_le_eq)
    then show "length b = 4096" using k by simp
  qed
  have "concat ?bs = take (?m * 4096) data" unfolding blocks_of_def by (rule concat_blocks)
  then have split: "data = concat ?bs @ drop (?m * 4096) data" by simp
  have clen: "length (concat ?bs) = ?m * 4096" using \<open>concat ?bs = _\<close> by simp
  have "rposition (\<lambda>b. b \<noteq> 0) data = rposition (\<lambda>b. b \<noteq> 0) (concat ?bs @ drop (?m * 4096) data)"
    using split by simp
  then show ?thesis
    by (simp add: last_nonzero_def Let_def len rposition_append rposition_concat_blocks [OF all] clen
        split: option.splits)
qed

lemma last_nonzero_bound:
  assumes "last_nonzero data = Some l" "\<forall>x \<in> set (drop e data). x = 0"
  shows "l < e"
proof (rule ccontr)
  assume "\<not> l < e"
  have l: "l < length data" "data ! l \<noteq> 0"
    using rposition_Some [OF assms(1) [unfolded last_nonzero_rposition]] by auto
  then have "drop e data ! (l - e) = data ! l" "l - e < length (drop e data)" using \<open>\<not> l < e\<close> by auto
  then show False using assms(2) l by (metis nth_mem)
qed

lemma committed_after_zero_tail:
  assumes "\<forall>x \<in> set (drop (e + 16) data). x = 0"
  shows "committed_after crc32 lz4 data (e + 16) inc = None"
proof (cases "last_nonzero data")
  case (Some l)
  then have "l < e + 16" by (rule last_nonzero_bound [OF _ assms])
  then have "[e + 16..<Suc (l - 15)] = []" by simp
  then show ?thesis using Some by (simp add: committed_after_def del: upt_Suc)
qed (simp add: committed_after_def)

section \<open>Logs\<close>

text \<open>\<open>frames_at data off fs e\<close>: the frames \<open>fs\<close> (payload and version) stand back to back in
  \<open>data\<close> from \<open>off\<close> to \<open>e\<close>.\<close>

fun frames_at :: "(u8 list \<Rightarrow> u32) \<Rightarrow> (u8 list \<Rightarrow> usize \<Rightarrow> u8 list option)
    \<Rightarrow> u8 list \<Rightarrow> usize \<Rightarrow> (u8 list \<times> u32) list \<Rightarrow> usize \<Rightarrow> bool" where
  "frames_at crc32 lz4 data off [] e = (off = e)"
| "frames_at crc32 lz4 data off ((p, v) # fs) e =
     (case decode_rest crc32 lz4 (drop off data) of
        None \<Rightarrow> False
      | Some (p', v', n) \<Rightarrow> p' = p \<and> v' = v \<and> frames_at crc32 lz4 data (off + n) fs e)"

lemma frames_at_append:
  "frames_at crc32 lz4 data off (fs @ gs) e \<longleftrightarrow>
     (\<exists>m. frames_at crc32 lz4 data off fs m \<and> frames_at crc32 lz4 data m gs e)"
  by (induction fs arbitrary: off) (auto split: option.splits)

lemma frames_at_bounds:
  "frames_at crc32 lz4 data off fs e \<Longrightarrow> off \<le> length data \<Longrightarrow> off \<le> e \<and> e \<le> length data"
proof (induction fs arbitrary: off)
  case (Cons f fs)
  obtain p v where f: "f = (p, v)" by (cases f)
  then obtain n where n: "decode_rest crc32 lz4 (drop off data) = Some (p, v, n)"
    "frames_at crc32 lz4 data (off + n) fs e"
    using Cons.prems by (auto split: option.splits)
  moreover have "off + n \<le> length data" using decode_rest_size [OF n(1)] Cons.prems(2) by auto
  ultimately show ?case using Cons.IH [OF n(2)] by simp
qed simp

lemma decode_rest_take:
  assumes "decode_rest crc32 lz4 (drop off data) = Some (p, v, n)" "take e data = take e data'"
    "off + n \<le> e"
  shows "decode_rest crc32 lz4 (drop off data') = Some (p, v, n)"
proof (rule decode_rest_prefix [OF assms(1)])
  have "take (off + n) data = take (off + n) data'"
    using assms(2,3) by (metis min.absorb1 take_take)
  then show "take n (drop off data) = take n (drop off data')"
    by (metis add.commute take_drop)
qed

text \<open>A log only depends on the bytes up to its end.\<close>

lemma frames_at_take:
  "frames_at crc32 lz4 data off fs e \<Longrightarrow> take e data = take e data' \<Longrightarrow> off \<le> length data \<Longrightarrow>
   frames_at crc32 lz4 data' off fs e"
proof (induction fs arbitrary: off)
  case (Cons f fs)
  obtain p v where f: "f = (p, v)" by (cases f)
  then obtain n where n: "decode_rest crc32 lz4 (drop off data) = Some (p, v, n)"
    "frames_at crc32 lz4 data (off + n) fs e"
    using Cons.prems by (auto split: option.splits)
  have le: "off + n \<le> length data" using decode_rest_size [OF n(1)] Cons.prems(3) by auto
  then have "off + n \<le> e" using frames_at_bounds [OF n(2)] by simp
  then show ?case
    using Cons.IH [OF n(2) Cons.prems(2) le] decode_rest_take [OF n(1) Cons.prems(2)] f by simp
qed simp

definition max_version_of :: "u32 \<Rightarrow> (u8 list \<times> u32) list \<Rightarrow> u32" where
  "max_version_of v0 fs = foldl (\<lambda>m (p, v). if m < v then v else m) v0 fs"

text \<open>What one round of the walk does, in terms of the reference decoder.\<close>

lemma decode_rest_lengths:
  assumes "header_words rest = Some (crc, raw_w, comp_w, version)" "decode_rest crc32 lz4 rest = Some (p, v, n)"
  shows "v = version" "n = 16 + unat comp_w" "unat comp_w \<noteq> 0" "unat raw_w \<le> MAX_RAW_FRAME_SIZE"
    "16 + unat comp_w \<le> length rest"
  using assms by (auto simp: decode_rest_def Let_def split: option.splits if_splits)

lemma discover_loop_step:
  assumes "decode_rest crc32 lz4 (drop off data) = Some (p, v, n)"
  shows "discover_loop crc32 lz4 data off m = discover_loop crc32 lz4 data (off + n) (if m < v then v else m)"
proof -
  obtain crc raw_w comp_w version where h: "header_words (drop off data) = Some (crc, raw_w, comp_w, version)"
    using assms by (auto simp: decode_rest_def split: option.splits)
  note l = decode_rest_lengths [OF h assms]
  have "frame_checks_out crc32 lz4 data off" using assms by (simp add: frame_checks_out_decode)
  moreover have "off + (16 + unat comp_w) \<le> length data" "unat comp_w \<le> length data" using l(5) by auto
  ultimately show ?thesis
    using h l by (subst discover_loop.simps) (auto simp: add.commute)
qed

lemma discover_loop_frames:
  "frames_at crc32 lz4 data off fs e \<Longrightarrow>
   discover_loop crc32 lz4 data off m = discover_loop crc32 lz4 data e (max_version_of m fs)"
proof (induction fs arbitrary: off m)
  case (Cons f fs)
  obtain p v where f: "f = (p, v)" by (cases f)
  then obtain n where n: "decode_rest crc32 lz4 (drop off data) = Some (p, v, n)"
    "frames_at crc32 lz4 data (off + n) fs e"
    using Cons.prems by (auto split: option.splits)
  then show ?case
    using Cons.IH [OF n(2)] discover_loop_step [OF n(1)] by (simp add: f max_version_of_def)
qed (simp add: max_version_of_def)

lemma discover_offset_frames:
  "frames_at crc32 lz4 data 0 fs e \<Longrightarrow>
   discover_offset crc32 lz4 data = discover_loop crc32 lz4 data e (max_version_of 0 fs)"
  unfolding discover_offset_def by (rule discover_loop_frames)

text \<open>The walk stops at an end header with nothing committed after it.\<close>

lemma discover_loop_end:
  assumes "is_log_end (drop e data)" "committed_after crc32 lz4 data (e + 16) False = None"
  shows "discover_loop crc32 lz4 data e m = Inr (e, m)"
proof -
  obtain version where h: "header_words (drop e data) = Some (0, 0, 0, version)"
    and end_word: "version = 0 \<or> version = END_MARK"
    using assms(1) by (auto simp: is_log_end_def split: option.splits)
  have "header_words (sub_slice data e 16) = header_words (drop e data)"
    by (rule header_words_prefix [where n = 16]) (simp_all add: sub_slice_def)
  then have "is_log_end (sub_slice data e 16)" using assms(1) by (simp add: is_log_end_def)
  then show ?thesis using h assms(2) by (subst discover_loop.simps) simp
qed

lemma discover_loop_exhausted: "length data < e + 16 \<Longrightarrow> discover_loop crc32 lz4 data e m = Inr (e, m)"
  by (subst discover_loop.simps) (auto simp: header_words_def)

text \<open>Whatever stands in the segment, the walk returns the end of a log (or an error).\<close>

lemma discover_loop_sound:
  assumes "discover_loop crc32 lz4 data off m = Inr (o', v)"
  shows "\<exists>fs. frames_at crc32 lz4 data off fs o' \<and> v = max_version_of m fs"
  using assms
proof (induction crc32 lz4 data off m rule: discover_loop.induct)
  case (1 crc32 lz4 data off m)
  show ?case
  proof (cases "decode_rest crc32 lz4 (drop off data)")
    case None
    then have "discover_loop crc32 lz4 data off m \<in> {Inr (off, m), recovery_fail crc32 lz4 data off m}"
      by (subst discover_loop.simps) (auto simp: frame_checks_out_decode split: option.splits)
    then have "o' = off \<and> v = m"
      using "1.prems" by (auto simp: recovery_fail_def split: option.splits)
    then show ?thesis by (intro exI [of _ "[]"]) (simp add: max_version_of_def)
  next
    case (Some f)
    obtain p w n where f: "decode_rest crc32 lz4 (drop off data) = Some (p, w, n)" using Some by (cases f) auto
    obtain crc raw_w comp_w version where h: "header_words (drop off data) = Some (crc, raw_w, comp_w, version)"
      using f by (auto simp: decode_rest_def split: option.splits)
    note l = decode_rest_lengths [OF h f]
    have next_step: "discover_loop crc32 lz4 data (off + n) (if m < w then w else m) = Inr (o', v)"
      using "1.prems" discover_loop_step [OF f] by simp
    have "\<exists>fs. frames_at crc32 lz4 data (off + n) fs o' \<and> v = max_version_of (if m < w then w else m) fs"
      using "1.IH" [OF h refl refl refl] l f next_step
      by (auto simp: frame_checks_out_decode)
    then obtain fs where "frames_at crc32 lz4 data (off + n) fs o'" "v = max_version_of (if m < w then w else m) fs"
      by blast
    then show ?thesis using f by (intro exI [of _ "(p, w) # fs"]) (simp add: max_version_of_def)
  qed
qed

end
