(* ===== verification/Arena.thy ===== *)
theory Arena
  imports Frames
begin

text \<open>
  The segmented journal of \<open>src/core/storage.rs\<close>: appending a frame with growth and rotation,
  reading frames back, walking the journal (\<open>next_offset\<close> and the replay loop of
  \<open>src/core/engine/mod.rs\<close>), reopening with recovery and copying a tail into a compacted arena.

  A mapping is the list of its bytes.  The file operations of one append are summarised by an
  \<open>io_outcome\<close> that says which of them succeed, so every early return of the source is a branch.
  The files on disk are the mapped segments, the bytes a failed growth left past the active mapping, and
  the file of the next segment, which a failed rotation leaves behind; an open treats every file but the
  last as sealed.
  The lock guards make each append atomic; the model is sequential.
\<close>

section \<open>State\<close>

definition SEGMENT_SIZE :: usize where "SEGMENT_SIZE = 64 * 1024 * 1024"

definition LEGACY_SEGMENT_SIZE :: usize where "LEGACY_SEGMENT_SIZE = 1024 * 1024 * 1024"

definition STORAGE_FORMAT_VERSION :: nat where "STORAGE_FORMAT_VERSION = 4"

text \<open>\<open>cfg!(unix)\<close>.\<close>

definition INCREMENTAL_ALLOCATION :: bool where "INCREMENTAL_ALLOCATION = True"

record FormatManifest =
  mf_magic :: string
  mf_version :: nat
  mf_segment_size :: usize

text \<open>
  The last two are not fields of the source but what the directory holds beside the mappings: how many zero
  bytes the active file has past its mapping, and the file of segment \<open>active_id + 1\<close>, when there is one.
\<close>

record PersistentArena =
  segment_size :: usize
  format_version :: nat
  read_segments :: "u8 list list"
  active_map :: "u8 list"
  active_id :: usize
  write_offset :: usize
  active_capacity :: usize
  version_counter :: usize
  rotation_pending :: bool
  file_surplus :: usize
  next_file :: "u8 list option"

record ArenaStats =
  st_format_version :: nat
  segment_count :: usize
  used_bytes :: usize
  capacity_bytes :: usize

datatype arena_error =
    DivisionByZeroPanic | SlicePanic | IoError | InvalidGrowth
  | BeyondFinalSegment | ExceedsSegment | OutOfBounds usize usize
  | TruncatedHeader usize | EmptyFrame usize | RawTooLarge usize | CompTooLarge usize
  | TruncatedPayload usize | DecompressionFailed | LengthMismatch | CrcMismatch usize
  | BadPayloadLength | HeaderCapacity
  | UnknownMagic | NewerFormat nat | SegmentSizeMismatch usize usize
  | ActiveTooLarge | CorruptArena segment_error
  | ReplayChanged | CheckpointMovedBack | ReplayTruncated | ReplayEmpty | ReplayLengths | ReplayExceeds

text \<open>
  Which file operations of an append succeed: sealing the current segment, creating the next file, extending it,
  syncing and mapping it, extending the active file, syncing and mapping it again, and the sync of the commit.
\<close>

record io_outcome =
  seal_ok :: bool
  create_ok :: bool
  extend_ok :: bool
  map_ok :: bool
  grow_extend_ok :: bool
  grow_map_ok :: bool
  commit_ok :: bool

abbreviation next_ok :: "io_outcome \<Rightarrow> bool" where
  "next_ok io \<equiv> create_ok io \<and> extend_ok io \<and> map_ok io"

abbreviation grow_ok :: "io_outcome \<Rightarrow> bool" where
  "grow_ok io \<equiv> grow_extend_ok io \<and> grow_map_ok io"

section \<open>Manifest and opening\<close>

definition FORMAT_MAGIC :: string where "FORMAT_MAGIC = ''HMS_ARENA''"

definition validate_or_create_manifest :: "FormatManifest option \<Rightarrow> bool \<Rightarrow> arena_error + FormatManifest" where
  "validate_or_create_manifest stored legacy =
     (case stored of
        Some m \<Rightarrow>
          if mf_magic m \<noteq> FORMAT_MAGIC then Inl UnknownMagic
          else if STORAGE_FORMAT_VERSION < mf_version m then Inl (NewerFormat (mf_version m))
          else let expected = (if mf_version m = 3 then SEGMENT_SIZE else LEGACY_SEGMENT_SIZE)
            in if mf_segment_size m \<noteq> expected then Inl (SegmentSizeMismatch (mf_segment_size m) expected)
               else Inr m
      | None \<Rightarrow>
          Inr \<lparr>mf_magic = FORMAT_MAGIC, mf_version = (if legacy then 2 else STORAGE_FORMAT_VERSION),
               mf_segment_size = LEGACY_SEGMENT_SIZE\<rparr>)"

definition div_ceil :: "nat \<Rightarrow> nat \<Rightarrow> nat" where
  "div_ceil n d = n div d + (if n mod d = 0 then 0 else 1)"

text \<open>
  \<open>new\<close> on the manifest, the bytes of the sealed segments and the bytes of the last segment
  file.  \<open>set_len\<close> extends the file with zeros.
\<close>

definition arena_new :: "(u8 list \<Rightarrow> u32) \<Rightarrow> (u8 list \<Rightarrow> usize \<Rightarrow> u8 list option)
    \<Rightarrow> FormatManifest \<Rightarrow> u8 list list \<Rightarrow> u8 list \<Rightarrow> arena_error + PersistentArena" where
  "arena_new crc32 lz4 manifest sealed file =
     (if mf_segment_size manifest < length file then Inl ActiveTooLarge
      else
        let capacity = (if 4 \<le> mf_version manifest \<and> INCREMENTAL_ALLOCATION
                        then div_ceil (max (length file) SEGMENT_SIZE) SEGMENT_SIZE * SEGMENT_SIZE
                        else mf_segment_size manifest);
            mapped = file @ replicate (capacity - length file) 0
        in case discover_offset crc32 lz4 mapped of
             Inl e \<Rightarrow> Inl (CorruptArena e)
           | Inr (recovered_offset, max_version) \<Rightarrow>
               let marked = (if recovered_offset + HEADER_SIZE \<le> length mapped \<and>
                                sub_slice mapped recovered_offset HEADER_SIZE \<noteq> end_marker_bytes
                             then overwrite mapped recovered_offset end_marker_bytes else mapped)
               in Inr \<lparr>segment_size = mf_segment_size manifest, format_version = mf_version manifest,
                       read_segments = sealed, active_map = marked, active_id = length sealed,
                       write_offset = recovered_offset, active_capacity = capacity,
                       version_counter = (if 0 < recovered_offset then unat max_version + 1 else 0),
                       rotation_pending = False, file_surplus = 0, next_file = None\<rparr>)"

text \<open>\<open>new\<close> on the segment files \<open>seg_0.bin\<close>, \<open>seg_1.bin\<close> and so on: the last one is the active segment.\<close>

definition arena_open :: "(u8 list \<Rightarrow> u32) \<Rightarrow> (u8 list \<Rightarrow> usize \<Rightarrow> u8 list option)
    \<Rightarrow> FormatManifest \<Rightarrow> u8 list list \<Rightarrow> arena_error + PersistentArena" where
  "arena_open crc32 lz4 manifest files =
     (if files = [] then arena_new crc32 lz4 manifest [] []
      else arena_new crc32 lz4 manifest (butlast files) (last files))"

text \<open>The segment files on disk.\<close>

definition active_file :: "PersistentArena \<Rightarrow> u8 list" where
  "active_file a = active_map a @ replicate (file_surplus a) 0"

definition disk_segments :: "PersistentArena \<Rightarrow> u8 list list" where
  "disk_segments a = read_segments a @ active_file a # (case next_file a of None \<Rightarrow> [] | Some f \<Rightarrow> [f])"

definition stats :: "PersistentArena \<Rightarrow> ArenaStats" where
  "stats a =
     (let n = active_id a + 1
      in \<lparr>st_format_version = max (format_version a) 2, segment_count = n,
          used_bytes = active_id a * segment_size a + write_offset a,
          capacity_bytes = (n - 1) * segment_size a + active_capacity a\<rparr>)"

section \<open>Reading\<close>

definition with_mapping :: "PersistentArena \<Rightarrow> usize \<Rightarrow> (u8 list \<Rightarrow> arena_error + 'r) \<Rightarrow> arena_error + 'r" where
  "with_mapping a global_offset rd =
     (if segment_size a = 0 then Inl DivisionByZeroPanic
      else
        let seg_idx = global_offset div segment_size a
        in if active_id a < seg_idx then Inl BeyondFinalSegment
           else
             let local_offset = global_offset mod segment_size a;
                 mapping = (if seg_idx < length (read_segments a) then read_segments a ! seg_idx
                            else active_map a);
                 seg_end = min (length mapping) (segment_size a)
             in if seg_end < local_offset then Inl ExceedsSegment
                else rd (drop local_offset (take seg_end mapping)))"

definition read_slice :: "PersistentArena \<Rightarrow> usize \<Rightarrow> usize \<Rightarrow> arena_error + u8 list" where
  "read_slice a global_offset len =
     with_mapping a global_offset
       (\<lambda>rest. if length rest < len then Inl (OutOfBounds global_offset len) else Inr (take len rest))"

text \<open>The closure of \<open>read_frame\<close> and the checksum test that follows it.\<close>

definition read_frame_body :: "(u8 list \<Rightarrow> usize \<Rightarrow> u8 list option) \<Rightarrow> usize \<Rightarrow> u8 list
    \<Rightarrow> arena_error + u8 list \<times> u32 \<times> u32" where
  "read_frame_body lz4 global_offset rest =
     (case header_words rest of
        None \<Rightarrow> Inl (TruncatedHeader global_offset)
      | Some (expected_crc, raw_w, comp_w, version) \<Rightarrow>
          let raw_len = unat raw_w; comp_len = unat comp_w
          in if raw_len = 0 then Inl (EmptyFrame global_offset)
             else if MAX_RAW_FRAME_SIZE < raw_len then Inl (RawTooLarge global_offset)
             else if comp_len = 0 \<or> raw_len < comp_len then Inl (CompTooLarge global_offset)
             else if length rest < HEADER_SIZE + comp_len then Inl (TruncatedPayload (global_offset + HEADER_SIZE))
             else
               let payload = sub_slice rest HEADER_SIZE comp_len
               in (case (if comp_len < raw_len then lz4 payload raw_len else Some payload) of
                     None \<Rightarrow> Inl DecompressionFailed
                   | Some data \<Rightarrow>
                       if length data \<noteq> raw_len then Inl LengthMismatch
                       else Inr (data, expected_crc, version)))"

definition read_frame :: "(u8 list \<Rightarrow> u32) \<Rightarrow> (u8 list \<Rightarrow> usize \<Rightarrow> u8 list option)
    \<Rightarrow> PersistentArena \<Rightarrow> usize \<Rightarrow> arena_error + u8 list \<times> u32" where
  "read_frame crc32 lz4 a global_offset =
     (case with_mapping a global_offset (read_frame_body lz4 global_offset) of
        Inl e \<Rightarrow> Inl e
      | Inr (data, expected_crc, version) \<Rightarrow>
          if crc32 data \<noteq> expected_crc then Inl (CrcMismatch global_offset) else Inr (data, version))"

definition next_offset :: "PersistentArena \<Rightarrow> usize \<Rightarrow> arena_error + usize" where
  "next_offset a global_offset =
     (case read_slice a global_offset HEADER_SIZE of
        Inl e \<Rightarrow> Inl e
      | Inr header_bytes \<Rightarrow>
          (case header_words header_bytes of
             None \<Rightarrow> Inl (TruncatedHeader global_offset)
           | Some (_, _, comp_w, _) \<Rightarrow>
               if unat comp_w = 0 then Inl (EmptyFrame global_offset)
               else
                 let nxt = global_offset + HEADER_SIZE + unat comp_w;
                     segment = global_offset div segment_size a
                 in if segment < active_id a then
                      if segment_size a < nxt mod segment_size a + HEADER_SIZE
                      then Inr ((segment + 1) * segment_size a)
                      else (case read_slice a nxt HEADER_SIZE of
                              Inl e \<Rightarrow> Inl e
                            | Inr header \<Rightarrow>
                                if is_log_end header then Inr ((segment + 1) * segment_size a) else Inr nxt)
                    else Inr nxt))"

lemma next_offset_progress: "next_offset a g = Inr nxt \<Longrightarrow> g < nxt"
proof -
  assume h: "next_offset a g = Inr nxt"
  then have size: "0 < segment_size a"
    by (auto simp: next_offset_def read_slice_def with_mapping_def split: if_splits)
  have "g < (g div segment_size a + 1) * segment_size a"
    using dividend_less_div_times [OF size, of g] by (simp add: algebra_simps)
  with h show ?thesis
    by (auto simp: next_offset_def Let_def split: sum.splits option.splits if_splits)
qed

text \<open>
  The replay loop of \<open>load_from_log\<close>.  \<open>apply_frame\<close> stands for decrypting a payload and
  applying its mutations to the engine state \<open>'s\<close>.
\<close>

function load_from_log_loop :: "(u8 list \<Rightarrow> u32) \<Rightarrow> (u8 list \<Rightarrow> usize \<Rightarrow> u8 list option)
    \<Rightarrow> (u8 list \<Rightarrow> 's \<Rightarrow> arena_error + 's) \<Rightarrow> PersistentArena \<Rightarrow> usize \<Rightarrow> 's \<Rightarrow> arena_error + 's" where
  "load_from_log_loop crc32 lz4 apply_frame a offset s =
     (if offset < used_bytes (stats a) then
        (case read_frame crc32 lz4 a offset of
           Inl e \<Rightarrow> Inl e
         | Inr (data, _) \<Rightarrow>
             (case apply_frame data s of
                Inl e \<Rightarrow> Inl e
              | Inr s' \<Rightarrow>
                  (case next_offset a offset of
                     Inl e \<Rightarrow> Inl e
                   | Inr nxt \<Rightarrow> load_from_log_loop crc32 lz4 apply_frame a nxt s')))
      else Inr s)"
  by pat_completeness auto
termination
  by (relation "measure (\<lambda>(crc32, lz4, apply_frame, a, offset, s). used_bytes (stats a) - offset)")
    (auto dest!: next_offset_progress)

declare load_from_log_loop.simps [simp del]

definition load_from_log :: "(u8 list \<Rightarrow> u32) \<Rightarrow> (u8 list \<Rightarrow> usize \<Rightarrow> u8 list option)
    \<Rightarrow> (u8 list \<Rightarrow> 's \<Rightarrow> arena_error + 's) \<Rightarrow> PersistentArena \<Rightarrow> 's \<Rightarrow> arena_error + 's" where
  "load_from_log crc32 lz4 apply_frame a s = load_from_log_loop crc32 lz4 apply_frame a 0 s"

section \<open>Writing\<close>

definition grow_segment_locked :: "io_outcome \<Rightarrow> PersistentArena \<Rightarrow> usize
    \<Rightarrow> (arena_error + unit) \<times> PersistentArena" where
  "grow_segment_locked io a required =
     (if \<not> (4 \<le> format_version a \<and> INCREMENTAL_ALLOCATION \<and> required \<le> segment_size a \<and>
            length (active_map a) < required) then (Inl InvalidGrowth, a)
      else if \<not> grow_extend_ok io then (Inl IoError, a)
      else
        let capacity = div_ceil required SEGMENT_SIZE * SEGMENT_SIZE;
            a1 = a\<lparr>file_surplus := capacity - length (active_map a)\<rparr>
        in if \<not> grow_map_ok io then (Inl IoError, a1)
           else (Inr (), a1\<lparr>active_map := active_file a1, active_capacity := capacity, file_surplus := 0\<rparr>))"

definition next_capacity :: "PersistentArena \<Rightarrow> usize" where
  "next_capacity a = (if 4 \<le> format_version a \<and> INCREMENTAL_ALLOCATION then SEGMENT_SIZE else segment_size a)"

text \<open>\<open>set_len\<close> cuts a file or extends it with zeros; the next file is opened without truncation.\<close>

definition set_len :: "usize \<Rightarrow> u8 list \<Rightarrow> u8 list" where
  "set_len n file = take n file @ replicate (n - length file) 0"

definition rotate_segment_locked :: "io_outcome \<Rightarrow> PersistentArena
    \<Rightarrow> (arena_error + unit) \<times> PersistentArena" where
  "rotate_segment_locked io a =
     (if \<not> seal_ok io then (Inl IoError, a)
      else
        let a1 = a\<lparr>rotation_pending := True\<rparr>
        in if \<not> create_ok io then (Inl IoError, a1)
           else
             let created = (case next_file a of None \<Rightarrow> [] | Some f \<Rightarrow> f);
                 a2 = a1\<lparr>next_file := Some created\<rparr>
             in if \<not> extend_ok io then (Inl IoError, a2)
                else
                  let extended = set_len (next_capacity a) created;
                      a3 = a2\<lparr>next_file := Some extended\<rparr>
                  in if \<not> map_ok io then (Inl IoError, a3)
                     else (Inr (), a3\<lparr>read_segments := read_segments a @ [active_file a],
                             active_map := extended,
                             file_surplus := 0,
                             active_capacity := next_capacity a,
                             active_id := active_id a + 1,
                             write_offset := 0,
                             rotation_pending := False,
                             next_file := None\<rparr>))"

definition frame_bytes :: "u32 \<Rightarrow> usize \<Rightarrow> u32 \<Rightarrow> u8 list \<Rightarrow> u8 list" where
  "frame_bytes crc raw_len version write_data =
     u32_le_bytes crc @ u32_le_bytes (of_nat raw_len) @ u32_le_bytes (of_nat (length write_data)) @
     u32_le_bytes version @ write_data"

text \<open>The write under the guard, once the frame is known to belong at \<open>write_offset\<close>.\<close>

definition commit_frame :: "io_outcome \<Rightarrow> PersistentArena \<Rightarrow> u8 list \<Rightarrow> bool
    \<Rightarrow> (arena_error + usize) \<times> PersistentArena" where
  "commit_frame io a frame durable =
     (let offset = write_offset a;
          frame_end = offset + length frame;
          a1 = a\<lparr>write_offset := frame_end\<rparr>
      in if length (active_map a) < frame_end then (Inl SlicePanic, a1)
         else
           let written = overwrite (active_map a) offset frame;
               sentinel_len = (if frame_end + HEADER_SIZE \<le> length written then HEADER_SIZE else 0);
               marked = (if frame_end + HEADER_SIZE \<le> length written
                         then overwrite written frame_end end_marker_bytes else written)
           in if durable \<and> \<not> commit_ok io then
                let unmarked = overwrite marked offset end_marker_bytes;
                    zeroed = overwrite unmarked (offset + HEADER_SIZE)
                               (replicate (frame_end + sentinel_len - (offset + HEADER_SIZE)) 0)
                in (Inl IoError, a1\<lparr>active_map := zeroed, write_offset := offset\<rparr>)
              else (Inr (active_id a * segment_size a + offset), a1\<lparr>active_map := marked\<rparr>))"

definition write_frame :: "(u8 list \<Rightarrow> u32) \<Rightarrow> (u8 list \<Rightarrow> u8 list) \<Rightarrow> io_outcome
    \<Rightarrow> PersistentArena \<Rightarrow> u8 list \<Rightarrow> bool \<Rightarrow> (arena_error + usize) \<times> PersistentArena" where
  "write_frame crc32 compress io a data durable =
     (let raw_len = length data
      in if raw_len = 0 \<or> MAX_RAW_FRAME_SIZE < raw_len then (Inl BadPayloadLength, a)
         else
           let version = of_nat (version_counter a);
               a0 = a\<lparr>version_counter := (version_counter a + 1) mod 2 ^ 64\<rparr>;
               compressed = compress data;
               write_data = (if length compressed < raw_len then compressed else data);
               total_frame_len = HEADER_SIZE + length write_data
           in if 2 ^ 32 \<le> raw_len \<or> 2 ^ 32 \<le> length write_data then (Inl HeaderCapacity, a0)
              else
                case (if segment_size a0 < write_offset a0 + total_frame_len \<or> rotation_pending a0
                      then rotate_segment_locked io a0 else (Inr (), a0)) of
                  (Inl e, a1) \<Rightarrow> (Inl e, a1)
                | (Inr _, a1) \<Rightarrow>
                    (case (if length (active_map a1) < write_offset a1 + total_frame_len
                           then grow_segment_locked io a1 (write_offset a1 + total_frame_len)
                           else (Inr (), a1)) of
                       (Inl e, a2) \<Rightarrow> (Inl e, a2)
                     | (Inr _, a2) \<Rightarrow>
                         commit_frame io a2 (frame_bytes (crc32 data) raw_len version write_data) durable))"

definition write_slice :: "(u8 list \<Rightarrow> u32) \<Rightarrow> (u8 list \<Rightarrow> u8 list) \<Rightarrow> io_outcome
    \<Rightarrow> PersistentArena \<Rightarrow> u8 list \<Rightarrow> (arena_error + usize) \<times> PersistentArena" where
  "write_slice crc32 compress io a data = write_frame crc32 compress io a data True"

section \<open>One frame\<close>

text \<open>What the arena relies on of LZ4: blocks are not empty and decompress to their input.\<close>

definition lz4_codec :: "(u8 list \<Rightarrow> u8 list) \<Rightarrow> (u8 list \<Rightarrow> usize \<Rightarrow> u8 list option) \<Rightarrow> bool" where
  "lz4_codec compress lz4 \<longleftrightarrow>
     (\<forall>d. d \<noteq> [] \<longrightarrow> compress d \<noteq> [] \<and> lz4 (compress d) (length d) = Some d)"

lemma length_frame_bytes [simp]: "length (frame_bytes crc n v w) = 16 + length w"
  by (simp add: frame_bytes_def)

lemma header_words_frame_bytes:
  "header_words (frame_bytes crc n v w @ rest) = Some (crc, of_nat n, of_nat (length w), v)"
  by (simp add: header_words_def frame_bytes_def sub_slice_def)

definition stored_payload :: "(u8 list \<Rightarrow> u8 list) \<Rightarrow> u8 list \<Rightarrow> u8 list" where
  "stored_payload compress data = (if length (compress data) < length data then compress data else data)"

lemma stored_payload_length:
  assumes "lz4_codec compress lz4" "data \<noteq> []"
  shows "0 < length (stored_payload compress data)" "length (stored_payload compress data) \<le> length data"
  using assms by (auto simp: stored_payload_def lz4_codec_def)

lemma decode_frame_bytes:
  assumes "lz4_codec compress lz4" "data \<noteq> []" "length data \<le> MAX_RAW_FRAME_SIZE"
  defines "w \<equiv> stored_payload compress data"
  shows "decode_rest crc32 lz4 (frame_bytes (crc32 data) (length data) v w @ rest) = Some (data, v, 16 + length w)"
proof -
  have len: "0 < length w" "length w \<le> length data"
    using stored_payload_length [OF assms(1,2)] by (auto simp: w_def)
  then have un: "unat (of_nat (length data) :: u32) = length data" "unat (of_nat (length w) :: u32) = length w"
    using assms(3) by (simp_all add: unat_of_nat MAX_RAW_FRAME_SIZE_def)
  have sub: "sub_slice (frame_bytes (crc32 data) (length data) v w @ rest) 16 (length w) = w"
    by (simp add: sub_slice_def frame_bytes_def)
  have dec: "length w < length data \<Longrightarrow> lz4 w (length data) = Some data" "\<not> length w < length data \<Longrightarrow> w = data"
    using assms(1) [unfolded lz4_codec_def, rule_format, OF assms(2)]
    by (auto simp: w_def stored_payload_def split: if_splits)
  show ?thesis
  proof (cases "length w < length data")
    case True
    then show ?thesis
      using len assms(3) dec(1) by (simp add: decode_rest_def header_words_frame_bytes un sub Let_def)
  next
    case False
    then show ?thesis
      using len assms(3) dec(2) sub un by (simp add: decode_rest_def header_words_frame_bytes Let_def)
  qed
qed

text \<open>The reader agrees with the reference decoder.\<close>

lemma read_frame_body_decode:
  "(case read_frame_body lz4 g rest of
      Inl e \<Rightarrow> None
    | Inr (data, crc, version) \<Rightarrow> if crc32 data \<noteq> crc then None else Some (data, version)) =
   map_option (\<lambda>(p, v, n). (p, v)) (decode_rest crc32 lz4 rest)"
proof (cases "header_words rest")
  case None
  then show ?thesis by (simp add: read_frame_body_def decode_rest_def)
next
  case (Some h)
  then show ?thesis
    by (cases h) (auto simp: read_frame_body_def decode_rest_def Let_def split: option.splits if_splits)
qed

lemma read_frame_body_ok:
  "decode_rest crc32 lz4 rest = Some (p, v, n) \<Longrightarrow> read_frame_body lz4 g rest = Inr (p, crc32 p, v)"
  using read_frame_body_decode [where ?lz4.0 = lz4 and g = g and rest = rest and ?crc32.0 = crc32]
  by (auto split: sum.splits if_splits)

lemma is_log_end_marker: "is_log_end (end_marker_bytes @ rest)"
  by (simp add: is_log_end_def header_words_def end_marker_bytes_def overwrite_def sub_slice_def)

lemma length_end_marker [simp]: "length end_marker_bytes = 16"
  by (simp add: end_marker_bytes_def)

lemma is_log_end_zero: "16 \<le> length rest \<Longrightarrow> \<forall>x \<in> set (take 16 rest). x = 0 \<Longrightarrow> is_log_end rest"
proof -
  assume "16 \<le> length rest" "\<forall>x \<in> set (take 16 rest). x = 0"
  then have "take 16 rest = replicate 16 0" by (intro replicate_eqI) auto
  then have "header_words rest = header_words (replicate 16 0)"
    by (intro header_words_prefix [of 16]) simp_all
  then show "is_log_end rest" by (simp add: is_log_end_def header_words_def sub_slice_def)
qed

section \<open>Geometry\<close>

text \<open>The next file exists only while a rotation is pending, and holds nothing but zeros.\<close>

definition next_wf :: "PersistentArena \<Rightarrow> bool" where
  "next_wf a \<longleftrightarrow> (\<forall>f. next_file a = Some f \<longrightarrow> rotation_pending a \<and> length f \<le> next_capacity a \<and> set f \<subseteq> {0})"

definition arena_wf :: "PersistentArena \<Rightarrow> bool" where
  "arena_wf a \<longleftrightarrow>
     segment_size a \<in> {SEGMENT_SIZE, LEGACY_SEGMENT_SIZE} \<and>
     active_id a = length (read_segments a) \<and>
     (\<forall>seg \<in> set (read_segments a). length seg = segment_size a) \<and>
     active_capacity a = length (active_map a) \<and>
     (if 4 \<le> format_version a
      then SEGMENT_SIZE dvd length (active_map a) \<and> SEGMENT_SIZE \<le> length (active_map a) \<and>
           length (active_map a) \<le> segment_size a
      else length (active_map a) = segment_size a) \<and>
     write_offset a \<le> length (active_map a) \<and>
     (rotation_pending a \<longrightarrow> segment_size a < write_offset a + 16 + MAX_RAW_FRAME_SIZE) \<and>
     length (active_map a) + file_surplus a \<le> segment_size a \<and> next_wf a"

lemma arena_wfD:
  assumes "arena_wf a"
  shows "segment_size a = SEGMENT_SIZE \<or> segment_size a = LEGACY_SEGMENT_SIZE"
    "active_id a = length (read_segments a)"
    "\<forall>seg \<in> set (read_segments a). length seg = segment_size a"
    "4 \<le> format_version a \<Longrightarrow> SEGMENT_SIZE dvd length (active_map a)"
    "length (active_map a) \<le> segment_size a"
    "write_offset a \<le> length (active_map a)"
    "rotation_pending a \<Longrightarrow> segment_size a < write_offset a + 16 + MAX_RAW_FRAME_SIZE"
    "active_capacity a = length (active_map a)"
    "\<not> 4 \<le> format_version a \<Longrightarrow> length (active_map a) = segment_size a"
    "SEGMENT_SIZE \<le> length (active_map a)" "next_wf a" "length (active_map a) + file_surplus a \<le> segment_size a"
  using assms unfolding arena_wf_def by (auto split: if_splits simp: SEGMENT_SIZE_def LEGACY_SEGMENT_SIZE_def)

lemmas size_defs = SEGMENT_SIZE_def LEGACY_SEGMENT_SIZE_def MAX_RAW_FRAME_SIZE_def

text \<open>A segment is only ever sealed at its full declared size, and never empty.\<close>

lemma arena_wf_full:
  assumes "arena_wf a" "segment_size a < write_offset a + 16 + MAX_RAW_FRAME_SIZE"
  shows "length (active_map a) = segment_size a" "0 < write_offset a"
proof -
  show "0 < write_offset a" using assms by (auto simp: arena_wf_def size_defs)
  show "length (active_map a) = segment_size a"
  proof (cases "4 \<le> format_version a")
    case True
    note wf = arena_wfD [OF assms(1)]
    obtain k where k1: "length (active_map a) = SEGMENT_SIZE * k" using wf(4) [OF True] by (rule dvdE)
    note k = k1 wf(5) wf(6)
    have "segment_size a = SEGMENT_SIZE * 1 \<or> segment_size a = SEGMENT_SIZE * 16"
      using assms(1) by (auto simp: arena_wf_def size_defs)
    then show ?thesis
    proof
      assume s: "segment_size a = SEGMENT_SIZE * 1"
      have "0 < k" using k assms s \<open>0 < write_offset a\<close> by (cases k) auto
      then show ?thesis using k s by (simp add: size_defs)
    next
      assume s: "segment_size a = SEGMENT_SIZE * 16"
      have "15 < k" "k \<le> 16" using k assms(2) s by (auto simp: size_defs)
      then show ?thesis using k s by (simp add: size_defs)
    qed
  qed (use assms(1) in \<open>simp add: arena_wf_def\<close>)
qed

lemma div_ceil_bounds:
  assumes "0 < d"
  shows "n \<le> div_ceil n d * d" "div_ceil n d * d < n + d" "d dvd div_ceil n d * d"
proof -
  have n: "n = n div d * d + n mod d" and m: "n mod d < d" using assms by simp_all
  show "n \<le> div_ceil n d * d"
  proof (cases "n mod d = 0")
    case True
    then show ?thesis using n by (simp add: div_ceil_def)
  next
    case False
    then have "div_ceil n d * d = n div d * d + d" by (simp add: div_ceil_def)
    then show ?thesis using n m by linarith
  qed
  show "div_ceil n d * d < n + d"
  proof (cases "n mod d = 0")
    case False
    then have "div_ceil n d * d = n div d * d + d" by (simp add: div_ceil_def)
    then show ?thesis using n False by linarith
  qed (use n assms in \<open>simp add: div_ceil_def\<close>)
  show "d dvd div_ceil n d * d" by simp
qed

lemma div_ceil_le: "0 < d \<Longrightarrow> d dvd m \<Longrightarrow> n \<le> m \<Longrightarrow> div_ceil n d * d \<le> m"
proof -
  assume d: "0 < d" "d dvd m" "n \<le> m"
  then obtain k where k: "m = d * k" by (auto elim: dvdE)
  have "div_ceil n d * d < (k + 1) * d" using div_ceil_bounds(2) [OF d(1), of n] d(3) k by (simp add: algebra_simps)
  then have "div_ceil n d < k + 1" by (simp only: mult_less_cancel2)
  then show "div_ceil n d * d \<le> m" using k by (simp add: mult.commute [of d])
qed

section \<open>The journal an arena holds\<close>

definition log_end_at :: "u8 list \<Rightarrow> usize \<Rightarrow> bool" where
  "log_end_at data e \<longleftrightarrow> length data < e + 16 \<or> is_log_end (drop e data)"

definition sealed_log :: "(u8 list \<Rightarrow> u32) \<Rightarrow> (u8 list \<Rightarrow> usize \<Rightarrow> u8 list option)
    \<Rightarrow> u8 list \<Rightarrow> (u8 list \<times> u32) list \<Rightarrow> bool" where
  "sealed_log crc32 lz4 seg fs \<longleftrightarrow> fs \<noteq> [] \<and> (\<exists>e. frames_at crc32 lz4 seg 0 fs e \<and> log_end_at seg e)"

text \<open>The frames of the sealed segments, \<open>fss\<close>, and of the active one, \<open>fs\<close>.\<close>

definition arena_rep :: "(u8 list \<Rightarrow> u32) \<Rightarrow> (u8 list \<Rightarrow> usize \<Rightarrow> u8 list option)
    \<Rightarrow> PersistentArena \<Rightarrow> (u8 list \<times> u32) list list \<Rightarrow> (u8 list \<times> u32) list \<Rightarrow> bool" where
  "arena_rep crc32 lz4 a fss fs \<longleftrightarrow>
     arena_wf a \<and> list_all2 (sealed_log crc32 lz4) (read_segments a) fss \<and>
     frames_at crc32 lz4 (active_map a) 0 fs (write_offset a) \<and> log_end_at (active_map a) (write_offset a)"

text \<open>Nothing but zeros after the end marker, or after the last frame where there is no room for a marker.\<close>

definition tail_start :: "PersistentArena \<Rightarrow> usize" where
  "tail_start a = (if write_offset a + 16 \<le> length (active_map a) then write_offset a + 16 else write_offset a)"

definition clean_tail :: "PersistentArena \<Rightarrow> bool" where
  "clean_tail a \<longleftrightarrow> (\<forall>x \<in> set (drop (tail_start a) (active_map a)). x = 0)"

lemma log_end_replicate: "log_end_at (replicate n 0) 0"
  by (cases "n < 16") (auto simp: log_end_at_def intro!: is_log_end_zero)

lemma next_wf_update [simp]:
  "next_wf (a\<lparr>active_map := m\<rparr>) = next_wf a" "next_wf (a\<lparr>write_offset := k\<rparr>) = next_wf a"
  "next_wf (a\<lparr>active_capacity := c\<rparr>) = next_wf a" "next_wf (a\<lparr>version_counter := n\<rparr>) = next_wf a"
  "next_wf (a\<lparr>file_surplus := n\<rparr>) = next_wf a" "next_wf (a\<lparr>rotation_pending := False, next_file := None\<rparr>)"
  by (simp_all add: next_wf_def next_capacity_def)

text \<open>A failed rotation keeps the journal: it only leaves a next file of zeros.\<close>

lemma arena_rep_pending:
  assumes "arena_rep crc32 lz4 a fss fs" "segment_size a < write_offset a + 16 + MAX_RAW_FRAME_SIZE"
    "\<And>f. n = Some f \<Longrightarrow> length f \<le> next_capacity a \<and> set f \<subseteq> {0}"
  shows "arena_rep crc32 lz4 (a\<lparr>rotation_pending := True, next_file := n\<rparr>) fss fs"
proof -
  have "next_wf (a\<lparr>rotation_pending := True, next_file := n\<rparr>)" using assms(3) by (auto simp: next_wf_def next_capacity_def)
  then show ?thesis using assms(1,2) unfolding arena_rep_def arena_wf_def by simp
qed

lemma zero_file: "set f \<subseteq> {0} \<Longrightarrow> length f \<le> n \<Longrightarrow> set_len n f = replicate n 0"
proof -
  assume f: "set f \<subseteq> {0}" "length f \<le> n"
  have "f = replicate (length f) 0" using f(1) by (intro replicate_eqI) auto
  then have "set_len n f = replicate (length f) 0 @ replicate (n - length f) 0" using f(2) by (simp add: set_len_def)
  then show ?thesis using f(2) by (simp add: replicate_add [symmetric])
qed

lemma rotate_cases:
  assumes "rotate_segment_locked io a = (r, a')" "arena_rep crc32 lz4 a fss fs"
    "segment_size a < write_offset a + 16 + MAX_RAW_FRAME_SIZE"
  shows "r = Inl IoError \<and> \<not> (seal_ok io \<and> next_ok io) \<and> arena_rep crc32 lz4 a' fss fs \<and> (clean_tail a \<longrightarrow> clean_tail a') \<or>
    r = Inr () \<and> arena_rep crc32 lz4 a' (fss @ [fs]) [] \<and> clean_tail a' \<and> write_offset a' = 0 \<and>
      version_counter a' = version_counter a \<and> \<not> rotation_pending a'"
proof -
  have wf: "arena_wf a" and sealed: "list_all2 (sealed_log crc32 lz4) (read_segments a) fss"
    and log: "frames_at crc32 lz4 (active_map a) 0 fs (write_offset a)"
    and end_at: "log_end_at (active_map a) (write_offset a)"
    using assms(2) by (auto simp: arena_rep_def)
  define created where "created = (case next_file a of None \<Rightarrow> [] | Some f \<Rightarrow> f)"
  have left: "length f \<le> next_capacity a \<and> set f \<subseteq> {0}" if "next_file a = Some f" for f
    using arena_wfD(11) [OF wf] that by (simp add: next_wf_def)
  have cr: "length created \<le> next_capacity a" "set created \<subseteq> {0}" using left by (cases "next_file a"; simp add: created_def)+
  have ext: "set_len (next_capacity a) created = replicate (next_capacity a) 0" by (rule zero_file [OF cr(2,1)])
  have pend: "arena_rep crc32 lz4 (a\<lparr>rotation_pending := True, next_file := n\<rparr>) fss fs"
    if "n = next_file a \<or> n = Some created \<or> n = Some (replicate (next_capacity a) 0)" for n
  proof (rule arena_rep_pending [OF assms(2,3)])
    fix f assume "n = Some f"
    then have "next_file a = Some f \<or> f = created \<or> f = replicate (next_capacity a) 0" using that by auto
    moreover have "length (replicate (next_capacity a) (0 :: u8)) \<le> next_capacity a \<and> set (replicate (next_capacity a) (0 :: u8)) \<subseteq> {0}" by auto
    ultimately show "length f \<le> next_capacity a \<and> set f \<subseteq> {0}" using left cr by blast
  qed
  have keep: "a\<lparr>rotation_pending := True\<rparr> = a\<lparr>rotation_pending := True, next_file := next_file a\<rparr>" by simp
  show ?thesis
  proof (cases "seal_ok io \<and> next_ok io")
    case True
    note full = arena_wf_full [OF wf assms(3)]
    have "file_surplus a = 0" using full(1) arena_wfD(12) [OF wf] by simp
    then have same: "active_file a = active_map a" by (simp add: active_file_def)
    have "fs \<noteq> []" using log full(2) by (cases fs) auto
    then have "sealed_log crc32 lz4 (active_map a) fs"
      using log end_at by (auto simp: sealed_log_def)
    then have "list_all2 (sealed_log crc32 lz4) (read_segments a @ [active_map a]) (fss @ [fs])"
      using sealed by (auto intro: list_all2_appendI)
    moreover define c where "c = next_capacity a"
    have a': "r = Inr ()"
      "a' = a\<lparr>read_segments := read_segments a @ [active_map a], active_map := replicate c 0, file_surplus := 0,
        active_capacity := c, active_id := active_id a + 1, write_offset := 0, rotation_pending := False, next_file := None\<rparr>"
      using assms(1) True ext same unfolding rotate_segment_locked_def Let_def created_def [symmetric] c_def by simp_all
    moreover have "arena_wf a'"
      unfolding arena_wf_def a' c_def next_capacity_def INCREMENTAL_ALLOCATION_def
      using arena_wfD(1-3) [OF wf] full(1) by (auto simp: size_defs next_wf_def)
    ultimately show ?thesis
      by (auto simp: arena_rep_def clean_tail_def log_end_replicate dest: in_set_dropD)
  next
    case False
    then have "r = Inl IoError" "a' = a \<or> a' = a\<lparr>rotation_pending := True\<rparr> \<or> (\<exists>n. a' = a\<lparr>rotation_pending := True, next_file := n\<rparr> \<and>
        (n = Some created \<or> n = Some (replicate (next_capacity a) 0)))"
      using assms(1) ext unfolding rotate_segment_locked_def Let_def created_def [symmetric] by (auto split: if_splits)
    moreover have "clean_tail (a\<lparr>rotation_pending := True, next_file := n\<rparr>) = clean_tail a" "clean_tail (a\<lparr>rotation_pending := True\<rparr>) = clean_tail a" for n
      by (simp_all add: clean_tail_def tail_start_def)
    ultimately show ?thesis using False assms(2) pend pend [of "next_file a"] by (auto simp: keep [symmetric])
  qed
qed

text \<open>Appending at the end of a log.\<close>

lemma frames_at_snoc:
  assumes "frames_at crc32 lz4 data 0 fs e" "take e data' = take e data"
    "decode_rest crc32 lz4 (drop e data') = Some (p, v, n)"
  shows "frames_at crc32 lz4 data' 0 (fs @ [(p, v)]) (e + n)"
  using frames_at_take [OF assms(1) assms(2) [symmetric]] assms(3) by (auto simp: frames_at_append)

lemma commit_frame_ok:
  assumes "lz4_codec compress lz4" "data \<noteq> []" "length data \<le> MAX_RAW_FRAME_SIZE"
    and log: "frames_at crc32 lz4 (active_map a) 0 fs (write_offset a)"
    and fits: "write_offset a + 16 + length (stored_payload compress data) \<le> length (active_map a)"
    and run: "commit_frame io a (frame_bytes (crc32 data) (length data) v (stored_payload compress data)) durable = (r, a')"
    and commits: "durable \<longrightarrow> commit_ok io"
  shows "r = Inr (active_id a * segment_size a + write_offset a)"
    "frames_at crc32 lz4 (active_map a') 0 (fs @ [(data, v)]) (write_offset a')"
    "log_end_at (active_map a') (write_offset a')"
    "clean_tail a \<Longrightarrow> clean_tail a'"
    "length (active_map a') = length (active_map a)"
    "a' = a\<lparr>write_offset := write_offset a + 16 + length (stored_payload compress data), active_map := active_map a'\<rparr>"
    "decode_rest crc32 lz4 (drop (write_offset a) (active_map a')) =
       Some (data, v, 16 + length (stored_payload compress data))"
    "frames_at crc32 lz4 (active_map a') 0 fs (write_offset a)"
proof -
  define w where "w = stored_payload compress data"
  define frame where "frame = frame_bytes (crc32 data) (length data) v w"
  define e where "e = write_offset a + 16 + length w"
  define m1 where "m1 = overwrite (active_map a) (write_offset a) frame"
  define m2 where "m2 = (if e + 16 \<le> length m1 then overwrite m1 e end_marker_bytes else m1)"
  have flen: "length frame = 16 + length w" by (simp add: frame_def)
  have fit: "write_offset a + length frame \<le> length (active_map a)" using fits by (simp add: w_def flen)
  have len1: "length m1 = length (active_map a)" using fit by (simp add: m1_def)
  have len2: "length m2 = length (active_map a)" by (simp add: m2_def len1)
  have res: "r = Inr (active_id a * segment_size a + write_offset a)"
    "a' = a\<lparr>write_offset := e, active_map := m2\<rparr>"
    using run commits fit unfolding w_def [symmetric] frame_def [symmetric]
    by (auto simp: commit_frame_def Let_def flen e_def m2_def m1_def add.assoc split: if_splits)
  show "r = Inr (active_id a * segment_size a + write_offset a)" by (rule res)
  show "length (active_map a') = length (active_map a)" by (simp add: res len2)
  show "a' = a\<lparr>write_offset := write_offset a + 16 + length (stored_payload compress data), active_map := active_map a'\<rparr>"
    by (simp add: res e_def w_def)
  have take1: "take (write_offset a) m1 = take (write_offset a) (active_map a)"
    using fit by (simp add: m1_def take_overwrite)
  have le: "write_offset a \<le> e" "e \<le> length m1" using fit len1 by (auto simp: e_def flen)
  have take_e: "take e m2 = take e m1" using le by (simp add: m2_def take_overwrite)
  have take2: "take (write_offset a) m2 = take (write_offset a) (active_map a)"
    using take1 take_e le(1) by (metis min.absorb1 take_take)
  have "drop (write_offset a) m1 = frame @ drop (write_offset a + length frame) (active_map a)"
    unfolding m1_def by (rule drop_overwrite_at) (use fit in simp)
  then have "decode_rest crc32 lz4 (drop (write_offset a) m1) = Some (data, v, 16 + length w)"
    using decode_frame_bytes [OF assms(1-3)] by (simp add: frame_def w_def)
  then have dec: "decode_rest crc32 lz4 (drop (write_offset a) m2) = Some (data, v, 16 + length w)"
    by (rule decode_rest_take [OF _ take_e [symmetric]]) (simp add: e_def)
  then show "decode_rest crc32 lz4 (drop (write_offset a) (active_map a')) =
       Some (data, v, 16 + length (stored_payload compress data))" by (simp add: res w_def)
  show "frames_at crc32 lz4 (active_map a') 0 (fs @ [(data, v)]) (write_offset a')"
    using frames_at_snoc [OF log take2 dec] by (simp add: res e_def add.assoc)
  have "e + 16 \<le> length m1 \<Longrightarrow> drop e m2 = end_marker_bytes @ drop (e + 16) m1"
    using le by (simp add: m2_def drop_overwrite_at)
  then show "log_end_at (active_map a') (write_offset a')"
    using len1 len2 is_log_end_marker
    by (cases "e + 16 \<le> length m1") (simp_all add: res log_end_at_def)
  show "frames_at crc32 lz4 (active_map a') 0 fs (write_offset a)"
    using frames_at_take [OF log take2 [symmetric]] by (simp add: res)
  define t where "t = (if e + 16 \<le> length m1 then e + 16 else e)"
  have "drop t m2 = drop t (active_map a)"
    using le fit by (simp add: t_def m2_def m1_def drop_overwrite flen e_def)
  moreover have "set (drop t (active_map a)) \<subseteq> set (drop (tail_start a) (active_map a))"
    by (rule set_drop_subset_set_drop) (auto simp: e_def t_def tail_start_def)
  moreover have "tail_start a' = t" by (simp add: tail_start_def res t_def len1 len2)
  ultimately show "clean_tail a \<Longrightarrow> clean_tail a'" by (auto simp: clean_tail_def res)
qed

text \<open>A commit that fails takes the frame back out of the log.\<close>

lemma commit_frame_fails:
  assumes log: "frames_at crc32 lz4 (active_map a) 0 fs (write_offset a)"
    and fits: "write_offset a + length frame \<le> length (active_map a)" "16 \<le> length frame"
    and run: "commit_frame io a frame True = (r, a')" "\<not> commit_ok io"
  shows "r = Inl IoError"
    "frames_at crc32 lz4 (active_map a') 0 fs (write_offset a')"
    "log_end_at (active_map a') (write_offset a')"
    "clean_tail a \<Longrightarrow> clean_tail a'"
    "length (active_map a') = length (active_map a)"
    "a' = a\<lparr>active_map := active_map a'\<rparr>"
proof -
  define k where "k = write_offset a"
  define e where "e = k + length frame"
  define m1 where "m1 = overwrite (active_map a) k frame"
  define sent where "sent = (if e + 16 \<le> length m1 then 16 else 0 :: nat)"
  define m2 where "m2 = (if e + 16 \<le> length m1 then overwrite m1 e end_marker_bytes else m1)"
  define m3 where "m3 = overwrite m2 k end_marker_bytes"
  define zs where "zs = replicate (e + sent - (k + 16)) (0 :: u8)"
  define m4 where "m4 = overwrite m3 (k + 16) zs"
  have le: "k + length frame \<le> length (active_map a)" "k + 16 \<le> e" using fits by (auto simp: k_def e_def)
  have len1: "length m1 = length (active_map a)" using le by (simp add: m1_def)
  have len2: "length m2 = length (active_map a)" by (simp add: m2_def len1)
  have len3: "length m3 = length (active_map a)" using le by (simp add: m3_def len2 e_def)
  have sentle: "e + sent \<le> length (active_map a)" using le len1 by (simp add: sent_def e_def)
  have zlen: "length zs = e + sent - (k + 16)" "k + 16 + length zs = e + sent" using le by (auto simp: zs_def)
  have len4: "length m4 = length (active_map a)" using sentle zlen by (simp add: m4_def len3)
  have m2_full: "m2 = overwrite (active_map a) k (frame @ (if sent = 16 then end_marker_bytes else []))"
    using le len1 by (auto simp: m2_def m1_def sent_def overwrite_def e_def add_ac)
  have res: "r = Inl IoError" "a' = a\<lparr>active_map := m4\<rparr>"
    using run le unfolding commit_frame_def Let_def k_def [symmetric] e_def [symmetric]
    by (auto simp: m1_def m2_def m3_def m4_def zs_def sent_def k_def split: if_splits)
  show "r = Inl IoError" by (rule res)
  show "length (active_map a') = length (active_map a)" by (simp add: res len4)
  show "a' = a\<lparr>active_map := active_map a'\<rparr>" by (simp add: res)
  have off: "write_offset a' = k" by (simp add: res k_def)
  have "take k m4 = take k m3" using le len3 by (simp add: m4_def take_overwrite e_def)
  also have "\<dots> = take k m2" using le len2 by (simp add: m3_def take_overwrite)
  also have "\<dots> = take k (active_map a)" using le by (simp add: m2_full take_overwrite)
  finally have "take k (active_map a) = take k m4" by simp
  then show "frames_at crc32 lz4 (active_map a') 0 fs (write_offset a')"
    unfolding off using frames_at_take [OF log] by (simp add: res k_def)
  have "take (k + 16) m4 = take (k + 16) m3" using le len3 by (simp add: m4_def take_overwrite e_def)
  moreover have "drop k m3 = end_marker_bytes @ drop (k + 16) m2"
    using le len2 drop_overwrite_at [of k m2 end_marker_bytes] by (simp add: m3_def)
  ultimately have "take 16 (drop k m4) = take 16 (end_marker_bytes @ drop (k + 16) m2)"
    by (metis add.commute take_drop)
  then have "header_words (drop k m4) = header_words (end_marker_bytes @ drop (k + 16) m2)"
    by (rule header_words_prefix [OF order_refl])
  then show "log_end_at (active_map a') (write_offset a')"
    unfolding off using is_log_end_marker by (simp add: res log_end_at_def is_log_end_def)
  have "drop (k + 16) m4 = zs @ drop (e + sent) m3"
    using le len3 zlen drop_overwrite_at [of "k + 16" m3 zs] by (simp add: m4_def e_def add.assoc)
  moreover have "drop (e + sent) m3 = drop (e + sent) m2"
    using le len2 by (simp add: m3_def drop_overwrite)
  moreover have "drop (e + sent) m2 = drop (e + sent) (active_map a)"
    unfolding m2_full by (rule drop_overwrite) (use le in \<open>auto simp: sent_def e_def\<close>)
  ultimately have "drop (k + 16) m4 = zs @ drop (e + sent) (active_map a)" by simp
  moreover have "set (drop (e + sent) (active_map a)) \<subseteq> set (drop (k + 16) (active_map a))"
    by (rule set_drop_subset_set_drop) (use le in simp)
  ultimately show "clean_tail a \<Longrightarrow> clean_tail a'"
    unfolding clean_tail_def off tail_start_def using le len4 by (auto simp: res zs_def k_def e_def)
qed

lemma grow_cases:
  assumes "grow_segment_locked io a required = (r, a')" "arena_wf a"
    "length (active_map a) < required" "required \<le> segment_size a"
  shows "r = Inl IoError \<and> arena_wf a' \<and> a' = a\<lparr>file_surplus := file_surplus a'\<rparr> \<and> \<not> grow_ok io \<or>
    r = Inr () \<and> arena_wf a' \<and> required \<le> length (active_map a') \<and>
      take (length (active_map a)) (active_map a') = active_map a \<and>
      (clean_tail a \<longrightarrow> clean_tail a') \<and>
      a' = a\<lparr>active_map := active_map a', active_capacity := active_capacity a', file_surplus := file_surplus a'\<rparr>"
proof -
  note wf = arena_wfD [OF assms(2)]
  have v4: "4 \<le> format_version a" using wf(9) assms(3,4) by fastforce
  have pos: "0 < SEGMENT_SIZE" by (simp add: SEGMENT_SIZE_def)
  have dvd: "SEGMENT_SIZE dvd segment_size a" using wf(1) by (auto simp: size_defs)
  let ?c = "div_ceil required SEGMENT_SIZE * SEGMENT_SIZE"
  note c = div_ceil_bounds(1) [OF pos, of required] div_ceil_le [OF pos dvd assms(4)]
  have surplus: "arena_wf (a\<lparr>file_surplus := ?c - length (active_map a)\<rparr>)"
    unfolding arena_wf_def using wf(1-11) c assms(3) v4 by simp
  show ?thesis
  proof (cases "grow_ok io")
    case True
    let ?m = "active_map a @ replicate (?c - length (active_map a)) 0"
    have len: "length ?m = ?c" using c assms(3) by simp
    have a': "r = Inr ()" "a' = a\<lparr>active_map := ?m, active_capacity := ?c, file_surplus := 0\<rparr>"
      using assms(1,3,4) v4 True by (auto simp: grow_segment_locked_def INCREMENTAL_ALLOCATION_def Let_def active_file_def)
    have "SEGMENT_SIZE \<le> ?c" "write_offset a \<le> ?c" using wf(6,10) c(1) assms(3) by linarith+
    then have "arena_wf a'"
      unfolding arena_wf_def a' using wf(1-3,7,11) c len v4
      by (simp del: length_append length_replicate)
    moreover have "clean_tail a \<longrightarrow> clean_tail a'" by (auto simp: clean_tail_def tail_start_def a')
    ultimately show ?thesis using a' c len by simp
  next
    case False
    then show ?thesis
      using assms(1,3,4) v4 surplus assms(2)
      by (auto simp: grow_segment_locked_def INCREMENTAL_ALLOCATION_def Let_def split: if_splits)
  qed
qed

section \<open>Appending\<close>

lemma arena_wf_update:
  assumes "arena_wf a" "length m = length (active_map a)" "k \<le> length m" "\<not> rotation_pending a \<or> k = write_offset a"
  shows "arena_wf (a\<lparr>write_offset := k, active_map := m\<rparr>)"
  using assms by (auto simp: arena_wf_def)

lemma arena_rep_update:
  assumes "arena_rep crc32 lz4 a fss fs" "arena_wf a'" "read_segments a' = read_segments a"
    "frames_at crc32 lz4 (active_map a') 0 fs' (write_offset a')" "log_end_at (active_map a') (write_offset a')"
  shows "arena_rep crc32 lz4 a' fss fs'"
  using assms by (simp add: arena_rep_def)

text \<open>The last phase of \<open>write_frame\<close>, on an arena whose active segment has room in its
  declared size.\<close>

lemma grow_commit:
  fixes data v compress a
  defines "w \<equiv> stored_payload compress data"
  assumes codec: "lz4_codec compress lz4" and data: "data \<noteq> []" "length data \<le> MAX_RAW_FRAME_SIZE"
    and rep: "arena_rep crc32 lz4 a fss fs" and room: "write_offset a + 16 + length w \<le> segment_size a"
    and pending: "\<not> rotation_pending a"
    and run: "(case (if length (active_map a) < write_offset a + (16 + length w)
        then grow_segment_locked io a (write_offset a + (16 + length w)) else (Inr (), a)) of
          (Inl e, a2) \<Rightarrow> (Inl e, a2)
        | (Inr _, a2) \<Rightarrow> commit_frame io a2 (frame_bytes (crc32 data) (length data) v w) durable) = (r, a')"
  shows "(r = Inl IoError \<and> arena_rep crc32 lz4 a' fss fs \<and> \<not> (grow_ok io \<and> commit_ok io)) \<or>
    r = Inr (active_id a' * segment_size a' + write_offset a) \<and> arena_rep crc32 lz4 a' fss (fs @ [(data, v)]) \<and>
      decode_rest crc32 lz4 (drop (write_offset a) (active_map a')) = Some (data, v, 16 + length w) \<and>
      frames_at crc32 lz4 (active_map a') 0 fs (write_offset a) \<and> \<not> rotation_pending a'"
    "clean_tail a \<Longrightarrow> clean_tail a'"
proof -
  have wf: "arena_wf a" and log: "frames_at crc32 lz4 (active_map a) 0 fs (write_offset a)"
    using rep by (auto simp: arena_rep_def)
  define req where "req = write_offset a + (16 + length w)"
  define g where "g = (if length (active_map a) < req then grow_segment_locked io a req else (Inr (), a))"
  obtain gr a2 where g2: "g = (gr, a2)" by (cases g)
  have grown: "gr = Inl IoError \<and> arena_wf a2 \<and> a2 = a\<lparr>file_surplus := file_surplus a2\<rparr> \<and> \<not> grow_ok io \<or>
    gr = Inr () \<and> arena_wf a2 \<and> req \<le> length (active_map a2) \<and>
      take (length (active_map a)) (active_map a2) = active_map a \<and> (clean_tail a \<longrightarrow> clean_tail a2) \<and>
      a2 = a\<lparr>active_map := active_map a2, active_capacity := active_capacity a2, file_surplus := file_surplus a2\<rparr>"
  proof (cases "length (active_map a) < req")
    case True
    have "req \<le> segment_size a" using room by (simp add: req_def)
    then show ?thesis using grow_cases [OF _ wf True] g2 True by (simp add: g_def)
  next
    case False
    then have "gr = Inr ()" "a2 = a" using g2 by (auto simp: g_def)
    then show ?thesis using wf False by simp
  qed
  have run': "(case (gr, a2) of (Inl e, a2) \<Rightarrow> (Inl e, a2)
      | (Inr _, a2) \<Rightarrow> commit_frame io a2 (frame_bytes (crc32 data) (length data) v w) durable) = (r, a')"
    using run unfolding g2 [symmetric] g_def req_def by simp
  have both: "((r = Inl IoError \<and> arena_rep crc32 lz4 a' fss fs \<and> \<not> (grow_ok io \<and> commit_ok io)) \<or>
    r = Inr (active_id a' * segment_size a' + write_offset a) \<and> arena_rep crc32 lz4 a' fss (fs @ [(data, v)]) \<and>
      decode_rest crc32 lz4 (drop (write_offset a) (active_map a')) = Some (data, v, 16 + length w) \<and>
      frames_at crc32 lz4 (active_map a') 0 fs (write_offset a) \<and> \<not> rotation_pending a') \<and>
    (clean_tail a \<longrightarrow> clean_tail a')"
  proof (cases "gr = Inl IoError")
    case True
    then have g: "arena_wf a2" "a2 = a\<lparr>file_surplus := file_surplus a2\<rparr>" "\<not> grow_ok io" using grown by auto
    then obtain n where n: "a2 = a\<lparr>file_surplus := n\<rparr>" by blast
    have "arena_rep crc32 lz4 a2 fss fs" using rep g(1) unfolding arena_rep_def n by simp
    moreover have "clean_tail a2 = clean_tail a" by (simp add: clean_tail_def tail_start_def n)
    ultimately show ?thesis using run' True g(3) by auto
  next
    case False
    then have ok: "gr = Inr ()" "arena_wf a2" "req \<le> length (active_map a2)"
      "take (length (active_map a)) (active_map a2) = active_map a" "clean_tail a \<longrightarrow> clean_tail a2"
      and a2: "a2 = a\<lparr>active_map := active_map a2, active_capacity := active_capacity a2, file_surplus := file_surplus a2\<rparr>"
      using grown by blast+
    have same: "write_offset a2 = write_offset a" "read_segments a2 = read_segments a"
      "active_id a2 = active_id a" "segment_size a2 = segment_size a" "rotation_pending a2 = rotation_pending a"
      by (subst a2, simp)+
    have "take (write_offset a) (active_map a) = take (write_offset a) (active_map a2)"
      using arena_wfD(6) [OF wf] ok(4) by (metis min.absorb1 take_take)
    then have log2: "frames_at crc32 lz4 (active_map a2) 0 fs (write_offset a2)"
      using frames_at_take [OF log] same(1) by simp
    have commit: "commit_frame io a2 (frame_bytes (crc32 data) (length data) v w) durable = (r, a')"
      using run' ok(1) by simp
    show ?thesis
    proof (cases "durable \<and> \<not> commit_ok io")
      case True
      then have commit': "commit_frame io a2 (frame_bytes (crc32 data) (length data) v w) True = (r, a')"
        using commit by simp
      have fits: "write_offset a2 + length (frame_bytes (crc32 data) (length data) v w) \<le> length (active_map a2)"
        using ok(3) same(1) by (simp add: req_def)
      have "\<not> commit_ok io" using True by simp
      note f = commit_frame_fails [OF log2 fits _ commit' this]
      obtain m where a': "a' = a2\<lparr>active_map := m\<rparr>" using f(6) by auto
      have "arena_wf a'"
        using arena_wf_update [OF ok(2), of m "write_offset a2"] f(5) arena_wfD(6) [OF ok(2)] by (simp add: a')
      then have "arena_rep crc32 lz4 a' fss fs"
        using arena_rep_update [OF rep, of a' fs] f(2,3) same by (simp add: a')
      then show ?thesis using f(1,4) True ok(5) by simp
    next
      case False
      have fits: "write_offset a2 + 16 + length (stored_payload compress data) \<le> length (active_map a2)"
        using ok(3) same(1) by (simp add: req_def w_def)
      have "durable \<longrightarrow> commit_ok io" using False by simp
      note f = commit_frame_ok [OF codec data log2 fits commit [unfolded w_def] this]
      obtain m where a': "a' = a2\<lparr>write_offset := req, active_map := m\<rparr>"
        using f(6) same by (auto simp: req_def w_def add.assoc)
      have "arena_wf a'"
        unfolding a' by (rule arena_wf_update [OF ok(2)]) (use f(5) ok(3) pending same in \<open>auto simp: a'\<close>)
      then have "arena_rep crc32 lz4 a' fss (fs @ [(data, v)])"
        using arena_rep_update [OF rep, of a'] f(2,3) same by (simp add: a')
      moreover have "frames_at crc32 lz4 (active_map a') 0 fs (write_offset a)" using f(8) same by simp
      ultimately show ?thesis using f(1,4,7) same ok(5) pending by (simp add: a' w_def)
    qed
  qed
  then show "(r = Inl IoError \<and> arena_rep crc32 lz4 a' fss fs \<and> \<not> (grow_ok io \<and> commit_ok io)) \<or>
    r = Inr (active_id a' * segment_size a' + write_offset a) \<and> arena_rep crc32 lz4 a' fss (fs @ [(data, v)]) \<and>
      decode_rest crc32 lz4 (drop (write_offset a) (active_map a')) = Some (data, v, 16 + length w) \<and>
      frames_at crc32 lz4 (active_map a') 0 fs (write_offset a) \<and> \<not> rotation_pending a'"
    "clean_tail a \<Longrightarrow> clean_tail a'" by blast+
qed

lemma read_frame_decode:
  assumes "arena_wf a" "decode_rest crc32 lz4 (drop off (active_map a)) = Some (p, v, n)"
    "off < length (active_map a)"
  shows "read_frame crc32 lz4 a (active_id a * segment_size a + off) = Inr (p, v)"
proof -
  note wf = arena_wfD [OF assms(1)]
  have size: "0 < segment_size a" "off < segment_size a" using wf(1,5) assms(3) by (auto simp: size_defs)
  have "with_mapping a (active_id a * segment_size a + off) (read_frame_body lz4 (active_id a * segment_size a + off)) =
      read_frame_body lz4 (active_id a * segment_size a + off) (drop off (active_map a))"
    using size wf(2,5) assms(3) by (simp add: with_mapping_def Let_def div_mult_self3 min_absorb1)
  also have "\<dots> = Inr (p, crc32 p, v)" by (rule read_frame_body_ok [OF assms(2)])
  finally show ?thesis by (simp add: read_frame_def)
qed

lemma arena_rep_version [simp]: "arena_rep crc32 lz4 (a\<lparr>version_counter := n\<rparr>) fss fs = arena_rep crc32 lz4 a fss fs"
  unfolding arena_rep_def arena_wf_def by simp

text \<open>Making room: either the rotation fails and the journal is as before, or the active
  segment has room for the frame.\<close>

lemma make_room:
  assumes "arena_rep crc32 lz4 a fss fs" "len \<le> MAX_RAW_FRAME_SIZE"
    "(if segment_size a < write_offset a + (16 + len) \<or> rotation_pending a
      then rotate_segment_locked io a else (Inr (), a)) = (r, a1)"
  shows "r = Inl IoError \<and> arena_rep crc32 lz4 a1 fss fs \<and> \<not> (seal_ok io \<and> next_ok io) \<or>
    r = Inr () \<and> write_offset a1 + 16 + len \<le> segment_size a1 \<and> \<not> rotation_pending a1 \<and>
      (\<exists>fss1 fs1. arena_rep crc32 lz4 a1 fss1 fs1 \<and> concat fss1 @ fs1 = concat fss @ fs)"
    "clean_tail a \<Longrightarrow> clean_tail a1"
proof -
  have wf: "arena_wf a" using assms(1) by (simp add: arena_rep_def)
  have "(r = Inl IoError \<and> arena_rep crc32 lz4 a1 fss fs \<and> \<not> (seal_ok io \<and> next_ok io) \<or>
    r = Inr () \<and> write_offset a1 + 16 + len \<le> segment_size a1 \<and> \<not> rotation_pending a1 \<and>
      (\<exists>fss1 fs1. arena_rep crc32 lz4 a1 fss1 fs1 \<and> concat fss1 @ fs1 = concat fss @ fs)) \<and>
    (clean_tail a \<longrightarrow> clean_tail a1)"
  proof (cases "segment_size a < write_offset a + (16 + len) \<or> rotation_pending a")
    case True
    then have full: "segment_size a < write_offset a + 16 + MAX_RAW_FRAME_SIZE"
      using assms(2) arena_wfD(7) [OF wf] by auto
    have rot: "rotate_segment_locked io a = (r, a1)" using assms(3) True by simp
    show ?thesis
    proof (cases "r = Inr ()")
      case True
      then have ok: "arena_rep crc32 lz4 a1 (fss @ [fs]) []" "clean_tail a1" "write_offset a1 = 0" "\<not> rotation_pending a1"
        using rotate_cases [OF rot assms(1) full] by auto
      have "arena_wf a1" using ok(1) by (simp add: arena_rep_def)
      then have "16 + len \<le> segment_size a1" using arena_wfD(1) [of a1] assms(2) by (auto simp: size_defs)
      moreover have "concat (fss @ [fs]) @ [] = concat fss @ fs" by simp
      ultimately show ?thesis using ok True by (metis add_0)
    next
      case False
      then show ?thesis using rotate_cases [OF rot assms(1) full] by auto
    qed
  next
    case False
    then have "r = Inr ()" "a1 = a" using assms(3) by auto
    then show ?thesis using False assms(1) by (auto simp: not_less)
  qed
  then show "r = Inl IoError \<and> arena_rep crc32 lz4 a1 fss fs \<and> \<not> (seal_ok io \<and> next_ok io) \<or>
    r = Inr () \<and> write_offset a1 + 16 + len \<le> segment_size a1 \<and> \<not> rotation_pending a1 \<and>
      (\<exists>fss1 fs1. arena_rep crc32 lz4 a1 fss1 fs1 \<and> concat fss1 @ fs1 = concat fss @ fs)"
    "clean_tail a \<Longrightarrow> clean_tail a1" by blast+
qed

text \<open>Every outcome of an append.\<close>

definition appended :: "(u8 list \<Rightarrow> u32) \<Rightarrow> (u8 list \<Rightarrow> usize \<Rightarrow> u8 list option) \<Rightarrow> io_outcome
    \<Rightarrow> (u8 list \<times> u32) list \<Rightarrow> u8 list \<times> u32 \<Rightarrow> (arena_error + usize) \<Rightarrow> PersistentArena \<Rightarrow> bool" where
  "appended crc32 lz4 io journal f r a' \<longleftrightarrow>
     (\<exists>fss fs. arena_rep crc32 lz4 a' fss fs \<and>
       (r = Inl IoError \<and> concat fss @ fs = journal \<and> \<not> (seal_ok io \<and> next_ok io \<and> grow_ok io \<and> commit_ok io) \<or>
        (\<exists>g. r = Inr g \<and> concat fss @ fs = journal @ [f] \<and> read_frame crc32 lz4 a' g = Inr f)))"

text \<open>A frame is written to the active segment after the frames before it, and never while a rotation is pending.\<close>

definition placed_frame :: "(u8 list \<Rightarrow> u32) \<Rightarrow> (u8 list \<Rightarrow> usize \<Rightarrow> u8 list option)
    \<Rightarrow> (u8 list \<times> u32) list \<Rightarrow> (arena_error + usize) \<Rightarrow> PersistentArena \<Rightarrow> bool" where
  "placed_frame crc32 lz4 journal r a' \<longleftrightarrow> (\<forall>g. r = Inr g \<longrightarrow> \<not> rotation_pending a' \<and>
     (\<exists>fss fs off. arena_wf a' \<and> list_all2 (sealed_log crc32 lz4) (read_segments a') fss \<and> concat fss @ fs = journal \<and>
        g = active_id a' * segment_size a' + off \<and> off < segment_size a' \<and> off \<le> length (active_map a') \<and>
        frames_at crc32 lz4 (active_map a') 0 fs off))"

lemma write_frame_cases:
  assumes codec: "lz4_codec compress lz4" and rep: "arena_rep crc32 lz4 a fss fs"
    and data: "data \<noteq> []" "length data \<le> MAX_RAW_FRAME_SIZE"
    and run: "write_frame crc32 compress io a data durable = (r, a')"
  shows "appended crc32 lz4 io (concat fss @ fs) (data, of_nat (version_counter a)) r a'"
    "clean_tail a \<Longrightarrow> clean_tail a'" "placed_frame crc32 lz4 (concat fss @ fs) r a'"
proof -
  define v where "v = (of_nat (version_counter a) :: u32)"
  define w where "w = stored_payload compress data"
  define a0 where "a0 = a\<lparr>version_counter := (version_counter a + 1) mod 2 ^ 64\<rparr>"
  define room where "room = (if segment_size a0 < write_offset a0 + (16 + length w) \<or> rotation_pending a0
      then rotate_segment_locked io a0 else (Inr (), a0))"
  obtain r1 a1 where a1: "room = (r1, a1)" by (cases room)
  have rep0: "arena_rep crc32 lz4 a0 fss fs" using rep by (simp add: a0_def)
  have clean0: "clean_tail a0 = clean_tail a" by (simp add: clean_tail_def tail_start_def a0_def)
  have wlen: "length w \<le> MAX_RAW_FRAME_SIZE"
    using stored_payload_length [OF codec data(1)] data(2) by (simp add: w_def)
  have small: "\<not> (2 ^ 32 \<le> length data \<or> 2 ^ 32 \<le> length w)" using data(2) wlen by (simp add: size_defs)
  note rm = make_room [OF rep0 wlen a1 [unfolded room_def]]
  have run1: "(case (r1, a1) of (Inl e, a1) \<Rightarrow> (Inl e, a1) | (Inr _, a1) \<Rightarrow>
      (case (if length (active_map a1) < write_offset a1 + (16 + length w)
             then grow_segment_locked io a1 (write_offset a1 + (16 + length w)) else (Inr (), a1)) of
         (Inl e, a2) \<Rightarrow> (Inl e, a2)
       | (Inr _, a2) \<Rightarrow> commit_frame io a2 (frame_bytes (crc32 data) (length data) v w) durable)) = (r, a')"
    using run data small unfolding write_frame_def Let_def stored_payload_def [symmetric] w_def [symmetric]
      v_def [symmetric] a0_def [symmetric] HEADER_SIZE_def room_def [symmetric] a1
    by (simp add: not_less)
  have "appended crc32 lz4 io (concat fss @ fs) (data, v) r a' \<and> placed_frame crc32 lz4 (concat fss @ fs) r a' \<and>
    (clean_tail a \<longrightarrow> clean_tail a')"
  proof (cases "r1 = Inl IoError")
    case True
    then show ?thesis using run1 rm clean0 by (auto simp: appended_def placed_frame_def)
  next
    case False
    then obtain fss1 fs1 where ok: "r1 = Inr ()" "write_offset a1 + 16 + length w \<le> segment_size a1"
        "\<not> rotation_pending a1" "arena_rep crc32 lz4 a1 fss1 fs1" "concat fss1 @ fs1 = concat fss @ fs"
      using rm(1) by blast
    have run2: "(case (if length (active_map a1) < write_offset a1 + (16 + length w)
             then grow_segment_locked io a1 (write_offset a1 + (16 + length w)) else (Inr (), a1)) of
         (Inl e, a2) \<Rightarrow> (Inl e, a2)
       | (Inr _, a2) \<Rightarrow> commit_frame io a2 (frame_bytes (crc32 data) (length data) v w) durable) = (r, a')"
      using run1 ok(1) by simp
    note gc = grow_commit [OF codec data ok(4) ok(2) [unfolded w_def] ok(3) run2 [unfolded w_def]]
    have "appended crc32 lz4 io (concat fss @ fs) (data, v) r a' \<and> placed_frame crc32 lz4 (concat fss @ fs) r a'"
    proof (cases "r = Inl IoError")
      case True
      then show ?thesis using gc(1) ok(5) by (auto simp: appended_def placed_frame_def)
    next
      case False
      then have s: "r = Inr (active_id a' * segment_size a' + write_offset a1)"
        "arena_rep crc32 lz4 a' fss1 (fs1 @ [(data, v)])"
        "decode_rest crc32 lz4 (drop (write_offset a1) (active_map a')) = Some (data, v, 16 + length w)"
        "frames_at crc32 lz4 (active_map a') 0 fs1 (write_offset a1)" "\<not> rotation_pending a'"
        using gc(1) by (auto simp: w_def)
      have lt: "write_offset a1 < length (active_map a')" using decode_rest_size [OF s(3)] by (simp, linarith)
      have wf': "arena_wf a'" "list_all2 (sealed_log crc32 lz4) (read_segments a') fss1" using s(2) by (auto simp: arena_rep_def)
      have "placed_frame crc32 lz4 (concat fss @ fs) r a'"
        unfolding placed_frame_def using s(1,4,5) wf' lt arena_wfD(5) [OF wf'(1)] ok(5)
        by (auto intro!: exI [of _ fss1] exI [of _ fs1] exI [of _ "write_offset a1"])
      moreover have "read_frame crc32 lz4 a' (active_id a' * segment_size a' + write_offset a1) = Inr (data, v)"
        using wf'(1) lt read_frame_decode [OF _ s(3)] by simp
      then have "appended crc32 lz4 io (concat fss @ fs) (data, v) r a'"
        using s(1,2) ok(5) unfolding appended_def by (metis append.assoc)
      ultimately show ?thesis by simp
    qed
    then show ?thesis using gc(2) rm(2) clean0 by blast
  qed
  then show "appended crc32 lz4 io (concat fss @ fs) (data, of_nat (version_counter a)) r a'"
    "clean_tail a \<Longrightarrow> clean_tail a'" "placed_frame crc32 lz4 (concat fss @ fs) r a'" by (auto simp: v_def)
qed

section \<open>Replay\<close>

fun apply_frames :: "(u8 list \<Rightarrow> 's \<Rightarrow> arena_error + 's) \<Rightarrow> (u8 list \<times> u32) list \<Rightarrow> 's \<Rightarrow> arena_error + 's" where
  "apply_frames apply_frame [] s = Inr s"
| "apply_frames apply_frame ((p, v) # fs) s =
     (case apply_frame p s of Inl e \<Rightarrow> Inl e | Inr s' \<Rightarrow> apply_frames apply_frame fs s')"

lemma apply_frames_append:
  "apply_frames f (fs @ gs) s = (case apply_frames f fs s of Inl e \<Rightarrow> Inl e | Inr s' \<Rightarrow> apply_frames f gs s')"
  by (induction f fs s rule: apply_frames.induct) (auto split: sum.splits)

definition segment_at :: "PersistentArena \<Rightarrow> nat \<Rightarrow> u8 list" where
  "segment_at a i = (if i < length (read_segments a) then read_segments a ! i else active_map a)"

lemma segment_at_length:
  assumes "arena_wf a"
  shows "length (segment_at a i) \<le> segment_size a" "i < active_id a \<Longrightarrow> length (segment_at a i) = segment_size a"
    "16 \<le> length (segment_at a i)" "0 < segment_size a"
  using arena_wfD(1-3,5,10) [OF assms] by (auto simp: segment_at_def size_defs)

lemma with_mapping_at:
  assumes "arena_wf a" "i \<le> active_id a" "off < segment_size a" "off \<le> length (segment_at a i)"
  shows "with_mapping a (i * segment_size a + off) rd = rd (drop off (segment_at a i))"
proof -
  have "(i * segment_size a + off) div segment_size a = i" "(i * segment_size a + off) mod segment_size a = off"
    using assms(3) by simp_all
  then show ?thesis
    using assms segment_at_length(1-3) [OF assms(1), of i] segment_at_length(4) [OF assms(1)]
    by (simp add: with_mapping_def Let_def min_absorb1 flip: segment_at_def)
qed

lemma read_slice_at:
  assumes "arena_wf a" "i \<le> active_id a" "off + n \<le> length (segment_at a i)" "0 < n"
  shows "read_slice a (i * segment_size a + off) n = Inr (take n (drop off (segment_at a i)))"
proof -
  have "off < segment_size a" using assms segment_at_length(1) [OF assms(1), of i] by linarith
  then show ?thesis using assms(3) by (simp add: read_slice_def with_mapping_at [OF assms(1,2)])
qed

lemma read_frame_at:
  assumes "arena_wf a" "i \<le> active_id a" "decode_rest crc32 lz4 (drop off (segment_at a i)) = Some (p, v, n)"
  shows "read_frame crc32 lz4 a (i * segment_size a + off) = Inr (p, v)"
proof -
  have n: "16 < n" "n \<le> length (segment_at a i) - off" using decode_rest_size [OF assms(3)] by auto
  then have "off < segment_size a" "off \<le> length (segment_at a i)"
    using segment_at_length(1) [OF assms(1), of i] by linarith+
  then show ?thesis
    using read_frame_body_ok [OF assms(3)] by (simp add: read_frame_def with_mapping_at [OF assms(1,2)])
qed

lemma is_log_end_prefix: "is_log_end (take 16 xs) = is_log_end xs"
proof -
  have "header_words (take 16 xs) = header_words xs" by (rule header_words_prefix [of 16]) simp_all
  then show ?thesis by (simp add: is_log_end_def)
qed

lemma decode_not_end: "decode_rest crc32 lz4 rest = Some f \<Longrightarrow> \<not> is_log_end rest"
  by (auto simp: decode_rest_def is_log_end_def split: option.splits if_splits)

text \<open>\<open>next_offset\<close> steps to the next frame of the segment, and over the end of a sealed one.\<close>

lemma next_offset_header:
  assumes "arena_wf a" "i \<le> active_id a" "decode_rest crc32 lz4 (drop off (segment_at a i)) = Some (p, v, n)"
  shows "next_offset a (i * segment_size a + off) =
    (let nxt = i * segment_size a + (off + n)
     in if i < active_id a then
          if segment_size a < nxt mod segment_size a + 16 then Inr ((i + 1) * segment_size a)
          else (case read_slice a nxt 16 of
                  Inl e \<Rightarrow> Inl e
                | Inr header \<Rightarrow> if is_log_end header then Inr ((i + 1) * segment_size a) else Inr nxt)
        else Inr nxt)"
proof -
  have n: "16 < n" "n \<le> length (segment_at a i) - off" using decode_rest_size [OF assms(3)] by auto
  then have off: "off + 16 \<le> length (segment_at a i)" "off < segment_size a"
    using segment_at_length(1) [OF assms(1), of i] by linarith+
  obtain crc raw_w comp_w version where h: "header_words (drop off (segment_at a i)) = Some (crc, raw_w, comp_w, version)"
    using assms(3) by (auto simp: decode_rest_def split: option.splits)
  note l = decode_rest_lengths [OF h assms(3)]
  have "header_words (take 16 (drop off (segment_at a i))) = header_words (drop off (segment_at a i))"
    by (rule header_words_prefix [of 16]) simp_all
  moreover have "(i * segment_size a + off) div segment_size a = i" using off(2) by simp
  ultimately show ?thesis
    using read_slice_at [OF assms(1,2) off(1)] h l(2,3)
    by (simp add: next_offset_def Let_def add.assoc)
qed

lemma next_offset_within:
  assumes "arena_wf a" "i \<le> active_id a" "decode_rest crc32 lz4 (drop off (segment_at a i)) = Some (p, v, n)"
    "i = active_id a \<or> decode_rest crc32 lz4 (drop (off + n) (segment_at a i)) = Some f"
  shows "next_offset a (i * segment_size a + off) = Inr (i * segment_size a + (off + n))"
proof (cases "i < active_id a")
  case True
  then have f: "decode_rest crc32 lz4 (drop (off + n) (segment_at a i)) = Some f" using assms(4) by simp
  then have "16 < length (segment_at a i) - (off + n)"
    using decode_rest_size [of crc32 lz4 "drop (off + n) (segment_at a i)"] by (cases f) auto
  then have fits: "off + n + 16 \<le> length (segment_at a i)" "off + n + 16 \<le> segment_size a"
    using segment_at_length(1) [OF assms(1), of i] by linarith+
  then have "(i * segment_size a + (off + n)) mod segment_size a = off + n" by simp
  then show ?thesis
    using True next_offset_header [OF assms(1-3)] read_slice_at [OF assms(1,2) fits(1)] fits(2) decode_not_end [OF f]
    by (simp add: Let_def is_log_end_prefix add.assoc)
qed (use assms next_offset_header [OF assms(1-3)] in \<open>simp add: Let_def\<close>)

lemma next_offset_seal:
  assumes "arena_wf a" "i < active_id a" "decode_rest crc32 lz4 (drop off (segment_at a i)) = Some (p, v, n)"
    "log_end_at (segment_at a i) (off + n)"
  shows "next_offset a (i * segment_size a + off) = Inr ((i + 1) * segment_size a)"
proof -
  note len = segment_at_length [OF assms(1)]
  have full: "length (segment_at a i) = segment_size a" using len(2) [OF assms(2)] .
  have n: "16 < n" "n \<le> length (segment_at a i) - off" using decode_rest_size [OF assms(3)] by auto
  then have le: "off + n \<le> segment_size a" using full by linarith
  have i: "i \<le> active_id a" using assms(2) by simp
  show ?thesis
  proof (cases "off + n = segment_size a")
    case True
    then have nxt: "i * segment_size a + (off + n) = (i + 1) * segment_size a + 0" by simp
    have "read_slice a ((i + 1) * segment_size a + 0) 16 = Inr (take 16 (drop 0 (segment_at a (i + 1))))"
      by (rule read_slice_at [OF assms(1)]) (use assms(2) len(3) in auto)
    moreover have "(i * segment_size a + (off + n)) mod segment_size a = 0" using True by simp
    moreover have "16 \<le> segment_size a" using len(3) full by metis
    ultimately show ?thesis using next_offset_header [OF assms(1) i assms(3)] assms(2) nxt by (simp add: Let_def)
  next
    case False
    then have m: "(i * segment_size a + (off + n)) mod segment_size a = off + n" using le by simp
    show ?thesis
    proof (cases "segment_size a < off + n + 16")
      case True
      then show ?thesis using next_offset_header [OF assms(1) i assms(3)] assms(2) m by (simp add: Let_def)
    next
      case False
      then have "is_log_end (drop (off + n) (segment_at a i))" using assms(4) full by (simp add: log_end_at_def)
      then show ?thesis
        using next_offset_header [OF assms(1) i assms(3)] assms(2) m False full
          read_slice_at [OF assms(1) i, of "off + n" 16]
        by (simp add: Let_def is_log_end_prefix add.assoc)
    qed
  qed
qed

lemma used_bytes_stats: "used_bytes (stats a) = active_id a * segment_size a + write_offset a"
  by (simp add: stats_def Let_def)

lemma load_step:
  assumes "arena_wf a" "i \<le> active_id a" "decode_rest crc32 lz4 (drop off (segment_at a i)) = Some (p, v, n)"
    "i * segment_size a + off < used_bytes (stats a)" "next_offset a (i * segment_size a + off) = Inr nxt"
  shows "load_from_log_loop crc32 lz4 f a (i * segment_size a + off) s =
    (case f p s of Inl e \<Rightarrow> Inl e | Inr s' \<Rightarrow> load_from_log_loop crc32 lz4 f a nxt s')"
  using read_frame_at [OF assms(1-3)] assms(4,5)
  by (subst load_from_log_loop.simps) (simp split: sum.splits)

lemma load_active:
  assumes "arena_wf a" "frames_at crc32 lz4 (active_map a) off fs (write_offset a)" "off \<le> length (active_map a)"
  shows "load_from_log_loop crc32 lz4 f a (active_id a * segment_size a + off) s = apply_frames f fs s"
  using assms(2,3)
proof (induction fs arbitrary: off s)
  case Nil
  then show ?case by (subst load_from_log_loop.simps) (simp add: used_bytes_stats)
next
  case (Cons h fs)
  obtain p v where h: "h = (p, v)" by (cases h)
  then obtain n where n: "decode_rest crc32 lz4 (drop off (active_map a)) = Some (p, v, n)"
    "frames_at crc32 lz4 (active_map a) (off + n) fs (write_offset a)"
    using Cons.prems(1) by (auto split: option.splits)
  have le: "16 < n" "off + n \<le> length (active_map a)" using decode_rest_size [OF n(1)] Cons.prems(2) by auto
  then have "off < write_offset a" using frames_at_bounds [OF n(2)] by simp
  then have used: "active_id a * segment_size a + off < used_bytes (stats a)" by (simp add: used_bytes_stats)
  have seg: "segment_at a (active_id a) = active_map a" using arena_wfD(2) [OF assms(1)] by (simp add: segment_at_def)
  have d: "decode_rest crc32 lz4 (drop off (segment_at a (active_id a))) = Some (p, v, n)"
    using n(1) by (simp add: seg)
  have nxt: "next_offset a (active_id a * segment_size a + off) = Inr (active_id a * segment_size a + (off + n))"
    using next_offset_within [OF assms(1) order_refl d] by simp
  show ?case
    using Cons.IH [OF n(2) le(2)] by (simp add: h load_step [OF assms(1) order_refl d used nxt] split: sum.splits)
qed

lemma load_sealed:
  assumes "arena_wf a" "i < active_id a" "frames_at crc32 lz4 (segment_at a i) off fs e" "fs \<noteq> []"
    "log_end_at (segment_at a i) e" "off \<le> segment_size a"
  shows "load_from_log_loop crc32 lz4 f a (i * segment_size a + off) s =
    (case apply_frames f fs s of Inl er \<Rightarrow> Inl er
     | Inr s' \<Rightarrow> load_from_log_loop crc32 lz4 f a ((i + 1) * segment_size a) s')"
  using assms(3,4,6)
proof (induction fs arbitrary: off s)
  case (Cons h fs)
  obtain p v where h: "h = (p, v)" by (cases h)
  then obtain n where n: "decode_rest crc32 lz4 (drop off (segment_at a i)) = Some (p, v, n)"
    "frames_at crc32 lz4 (segment_at a i) (off + n) fs e"
    using Cons.prems(1) by (auto split: option.splits)
  have full: "length (segment_at a i) = segment_size a" by (rule segment_at_length(2) [OF assms(1,2)])
  have le: "16 < n" "off + n \<le> segment_size a" using decode_rest_size [OF n(1)] Cons.prems(3) full by auto
  have "(i + 1) * segment_size a \<le> active_id a * segment_size a" using assms(2) by (intro mult_le_mono1) simp
  then have used: "i * segment_size a + off < used_bytes (stats a)"
    using le by (simp add: used_bytes_stats)
  have i: "i \<le> active_id a" using assms(2) by simp
  show ?case
  proof (cases fs)
    case Nil
    then have nxt: "next_offset a (i * segment_size a + off) = Inr ((i + 1) * segment_size a)"
      using next_offset_seal [OF assms(1,2) n(1)] n(2) assms(5) by simp
    then show ?thesis
      using Nil by (simp add: h load_step [OF assms(1) i n(1) used nxt] split: sum.splits)
  next
    case (Cons h' fs')
    obtain f' where "decode_rest crc32 lz4 (drop (off + n) (segment_at a i)) = Some f'"
      using n(2) Cons by (cases h') (auto split: option.splits)
    then have nxt: "next_offset a (i * segment_size a + off) = Inr (i * segment_size a + (off + n))"
      using next_offset_within [OF assms(1) i n(1)] by blast
    have "fs \<noteq> []" using Cons by simp
    then show ?thesis
      using Cons.IH [OF n(2) _ le(2)] by (simp add: h load_step [OF assms(1) i n(1) used nxt] split: sum.splits)
  qed
qed simp

lemma load_from_segment:
  assumes "arena_rep crc32 lz4 a fss fs" "i \<le> active_id a"
  shows "load_from_log_loop crc32 lz4 f a (i * segment_size a) s = apply_frames f (concat (drop i fss) @ fs) s"
  using assms(2)
proof (induction arbitrary: s rule: inc_induct)
  case base
  have wf: "arena_wf a" "frames_at crc32 lz4 (active_map a) 0 fs (write_offset a)"
    and sealed: "list_all2 (sealed_log crc32 lz4) (read_segments a) fss" using assms(1) by (auto simp: arena_rep_def)
  have "length fss = active_id a" using list_all2_lengthD [OF sealed] arena_wfD(2) [OF wf(1)] by simp
  then show ?case using load_active [OF wf, of f s] by simp
next
  case (step i)
  have wf: "arena_wf a" and sealed: "list_all2 (sealed_log crc32 lz4) (read_segments a) fss"
    using assms(1) by (auto simp: arena_rep_def)
  have ids: "active_id a = length (read_segments a)" "length fss = length (read_segments a)"
    using arena_wfD(2) [OF wf] list_all2_lengthD [OF sealed] by auto
  have "sealed_log crc32 lz4 (segment_at a i) (fss ! i)"
    using list_all2_nthD [OF sealed, of i] step.hyps ids by (simp add: segment_at_def)
  then obtain e where e: "fss ! i \<noteq> []" "frames_at crc32 lz4 (segment_at a i) 0 (fss ! i) e" "log_end_at (segment_at a i) e"
    by (auto simp: sealed_log_def)
  have "drop i fss = fss ! i # drop (Suc i) fss" using step.hyps ids by (simp add: Cons_nth_drop_Suc)
  then show ?case
    using load_sealed [OF wf step.hyps(2) e(2,1,3), of f s] step.IH
    by (simp add: apply_frames_append split: sum.splits)
qed

text \<open>Replaying an arena applies its frames in the order they were appended.\<close>

lemma load_from_log_rep:
  "arena_rep crc32 lz4 a fss fs \<Longrightarrow> load_from_log crc32 lz4 f a s = apply_frames f (concat fss @ fs) s"
  using load_from_segment [of crc32 lz4 a fss fs 0 f s] by (simp add: load_from_log_def)

end
