(* ===== verification/Journal.thy ===== *)
theory Journal
  imports Arena
begin

text \<open>
  The journal over its life: creating and reopening an arena, recovery after a crash, any
  sequence of appends, and the copy of a journal tail into a compacted arena
  (\<open>replay_compaction_tail\<close>, \<open>PreparedCompaction\<close> and \<open>StagedArena\<close> of
  \<open>src/core/storage.rs\<close> and \<open>src/core/storage/staging.rs\<close>).
\<close>

section \<open>Compaction\<close>

definition append_frame :: "(u8 list \<Rightarrow> u32) \<Rightarrow> (u8 list \<Rightarrow> u8 list) \<Rightarrow> (u8 list \<Rightarrow> usize \<Rightarrow> u8 list option)
    \<Rightarrow> io_outcome \<Rightarrow> PersistentArena \<Rightarrow> u8 list \<Rightarrow> (arena_error + unit) \<times> PersistentArena" where
  "append_frame crc32 compress lz4 io prepared data =
     (case write_frame crc32 compress io prepared data False of
        (Inl e, prepared') \<Rightarrow> (Inl e, prepared')
      | (Inr offset, prepared') \<Rightarrow>
          (case read_frame crc32 lz4 prepared' offset of
             Inl e \<Rightarrow> (Inl e, prepared')
           | Inr (written, _) \<Rightarrow>
               if written \<noteq> data then (Inl ReplayChanged, prepared') else (Inr (), prepared')))"

function replay_tail_loop :: "(u8 list \<Rightarrow> u32) \<Rightarrow> (u8 list \<Rightarrow> u8 list) \<Rightarrow> (u8 list \<Rightarrow> usize \<Rightarrow> u8 list option)
    \<Rightarrow> io_outcome \<Rightarrow> PersistentArena \<Rightarrow> PersistentArena \<Rightarrow> usize \<Rightarrow> usize
    \<Rightarrow> (arena_error + unit) \<times> PersistentArena \<times> usize" where
  "replay_tail_loop crc32 compress lz4 io a prepared cursor tail_end =
     (if \<not> cursor < tail_end then (Inr (), prepared, cursor)
      else if segment_size a = 0 then (Inl DivisionByZeroPanic, prepared, cursor)
      else
        let segment_end = (cursor div segment_size a + 1) * segment_size a;
            header_end = cursor + HEADER_SIZE
        in if segment_end < header_end then
             if tail_end < segment_end then (Inl ReplayTruncated, prepared, cursor)
             else replay_tail_loop crc32 compress lz4 io a prepared segment_end tail_end
           else if tail_end < header_end then (Inl ReplayTruncated, prepared, cursor)
           else
             (case read_slice a cursor HEADER_SIZE of
                Inl e \<Rightarrow> (Inl e, prepared, cursor)
              | Inr header \<Rightarrow>
                  if is_log_end header then
                    if tail_end < segment_end then (Inl ReplayEmpty, prepared, cursor)
                    else replay_tail_loop crc32 compress lz4 io a prepared segment_end tail_end
                  else
                    (case header_words header of
                       None \<Rightarrow> (Inl ReplayTruncated, prepared, cursor)
                     | Some (_, raw_w, comp_w, _) \<Rightarrow>
                         if \<not> (1 \<le> unat raw_w \<and> unat raw_w \<le> MAX_RAW_FRAME_SIZE \<and>
                               1 \<le> unat comp_w \<and> unat comp_w \<le> unat raw_w)
                         then (Inl ReplayLengths, prepared, cursor)
                         else
                           let nxt = header_end + unat comp_w
                           in if tail_end < nxt \<or> segment_end < nxt then (Inl ReplayExceeds, prepared, cursor)
                              else
                                (case read_frame crc32 lz4 a cursor of
                                   Inl e \<Rightarrow> (Inl e, prepared, cursor)
                                 | Inr (data, _) \<Rightarrow>
                                     (case append_frame crc32 compress lz4 io prepared data of
                                        (Inl e, prepared') \<Rightarrow> (Inl e, prepared', cursor)
                                      | (Inr _, prepared') \<Rightarrow>
                                          replay_tail_loop crc32 compress lz4 io a prepared' nxt tail_end)))))"
  by pat_completeness auto
termination
proof (relation "measure (\<lambda>(crc32, compress, lz4, io, a, prepared, cursor, tail_end). tail_end - cursor)", goal_cases)
  case 1
  then show ?case by simp
qed (use dividend_less_div_times in \<open>auto simp: algebra_simps diff_less_mono2\<close>)

declare replay_tail_loop.simps [simp del]

definition replay_compaction_tail :: "(u8 list \<Rightarrow> u32) \<Rightarrow> (u8 list \<Rightarrow> u8 list) \<Rightarrow> (u8 list \<Rightarrow> usize \<Rightarrow> u8 list option)
    \<Rightarrow> io_outcome \<Rightarrow> PersistentArena \<Rightarrow> PersistentArena \<Rightarrow> usize \<Rightarrow> usize
    \<Rightarrow> (arena_error + unit) \<times> PersistentArena \<times> usize" where
  "replay_compaction_tail crc32 compress lz4 io a prepared cursor tail_end =
     (if tail_end < cursor then (Inl CheckpointMovedBack, prepared, cursor)
      else replay_tail_loop crc32 compress lz4 io a prepared cursor tail_end)"

section \<open>Staging\<close>

definition MAX_PENDING_BYTES :: usize where "MAX_PENDING_BYTES = 1024 * 1024"
definition MAX_PENDING_FRAMES :: usize where "MAX_PENDING_FRAMES = 1024"

record StagedArena =
  staged_arena :: PersistentArena
  pending_bytes :: usize
  pending_frames :: usize

text \<open>\<open>write_back_ok\<close> is the outcome of writing the dirty pages back.\<close>

definition staged_write_slice :: "(u8 list \<Rightarrow> u32) \<Rightarrow> (u8 list \<Rightarrow> u8 list) \<Rightarrow> io_outcome \<Rightarrow> bool
    \<Rightarrow> StagedArena \<Rightarrow> u8 list \<Rightarrow> (arena_error + usize) \<times> StagedArena" where
  "staged_write_slice crc32 compress io write_back_ok st data =
     (case write_frame crc32 compress io (staged_arena st) data False of
        (Inl e, a') \<Rightarrow> (Inl e, st\<lparr>staged_arena := a'\<rparr>)
      | (Inr offset, a') \<Rightarrow>
          let st' = st\<lparr>staged_arena := a', pending_bytes := pending_bytes st + length data + HEADER_SIZE,
                       pending_frames := pending_frames st + 1\<rparr>
          in if MAX_PENDING_BYTES \<le> pending_bytes st' \<or> MAX_PENDING_FRAMES \<le> pending_frames st' then
               if \<not> write_back_ok then (Inl IoError, st')
               else (Inr offset, st'\<lparr>pending_bytes := 0, pending_frames := 0\<rparr>)
             else (Inr offset, st'))"

section \<open>Opening\<close>

definition manifest_of :: "PersistentArena \<Rightarrow> FormatManifest" where
  "manifest_of a = \<lparr>mf_magic = FORMAT_MAGIC, mf_version = format_version a, mf_segment_size = segment_size a\<rparr>"

text \<open>The capacity that \<open>new\<close> gives a file.\<close>

lemma open_capacity:
  assumes "mf_segment_size manifest \<in> {SEGMENT_SIZE, LEGACY_SEGMENT_SIZE}" "len \<le> mf_segment_size manifest"
  defines "c \<equiv> (if 4 \<le> mf_version manifest \<and> INCREMENTAL_ALLOCATION
    then div_ceil (max len SEGMENT_SIZE) SEGMENT_SIZE * SEGMENT_SIZE else mf_segment_size manifest)"
  shows "len \<le> c" "c \<le> mf_segment_size manifest" "SEGMENT_SIZE \<le> c"
    "4 \<le> mf_version manifest \<Longrightarrow> SEGMENT_SIZE dvd c"
    "\<not> 4 \<le> mf_version manifest \<Longrightarrow> c = mf_segment_size manifest"
    "4 \<le> mf_version manifest \<Longrightarrow> SEGMENT_SIZE dvd len \<Longrightarrow> SEGMENT_SIZE \<le> len \<Longrightarrow> c = len"
proof -
  have pos: "0 < SEGMENT_SIZE" and dvd: "SEGMENT_SIZE dvd mf_segment_size manifest"
    and ge: "SEGMENT_SIZE \<le> mf_segment_size manifest"
    using assms(1) by (auto simp: size_defs)
  note b = div_ceil_bounds(1) [OF pos, of "max len SEGMENT_SIZE"]
  have le: "div_ceil (max len SEGMENT_SIZE) SEGMENT_SIZE * SEGMENT_SIZE \<le> mf_segment_size manifest"
    by (rule div_ceil_le [OF pos dvd]) (use assms(2) ge in simp)
  show "len \<le> c" "c \<le> mf_segment_size manifest" "SEGMENT_SIZE \<le> c"
    using b le assms(2) ge by (auto simp: c_def)
  show "4 \<le> mf_version manifest \<Longrightarrow> SEGMENT_SIZE dvd c" by (simp add: c_def INCREMENTAL_ALLOCATION_def)
  show "\<not> 4 \<le> mf_version manifest \<Longrightarrow> c = mf_segment_size manifest" by (simp add: c_def)
  show "c = len" if "4 \<le> mf_version manifest" "SEGMENT_SIZE dvd len" "SEGMENT_SIZE \<le> len"
    using that div_ceil_le [OF pos that(2) order_refl] div_ceil_bounds(1) [OF pos, of len]
    by (simp add: c_def INCREMENTAL_ALLOCATION_def max_absorb1)
qed

text \<open>
  Opening on any bytes: if \<open>new\<close> succeeds, the sealed segments are untouched and the active
  one holds the frames the walk accepted, followed by an end header.
\<close>

lemma arena_new_rep:
  assumes "mf_segment_size manifest \<in> {SEGMENT_SIZE, LEGACY_SEGMENT_SIZE}"
    "\<forall>seg \<in> set sealed. length seg = mf_segment_size manifest"
    "list_all2 (sealed_log crc32 lz4) sealed fss"
    "arena_new crc32 lz4 manifest sealed file = Inr a"
  shows "\<exists>fs zs. arena_rep crc32 lz4 a fss fs \<and> set zs \<subseteq> {0} \<and>
    frames_at crc32 lz4 (file @ zs) 0 fs (write_offset a) \<and>
    discover_offset crc32 lz4 (file @ zs) = Inr (write_offset a, max_version_of 0 fs) \<and>
    drop (write_offset a + 16) (active_map a) = drop (write_offset a + 16) (file @ zs) \<and>
    read_segments a = sealed \<and> length file + length zs = length (active_map a)"
proof -
  have flen: "length file \<le> mf_segment_size manifest" using assms(4) by (auto simp: arena_new_def split: if_splits)
  define c where "c = (if 4 \<le> mf_version manifest \<and> INCREMENTAL_ALLOCATION
    then div_ceil (max (length file) SEGMENT_SIZE) SEGMENT_SIZE * SEGMENT_SIZE else mf_segment_size manifest)"
  note cap = open_capacity [OF assms(1) flen, folded c_def]
  define zs where "zs = replicate (c - length file) (0 :: u8)"
  define m where "m = file @ zs"
  have len: "length m = c" using cap(1) by (simp add: m_def zs_def)
  obtain off v where d: "discover_offset crc32 lz4 m = Inr (off, v)"
    using assms(4) flen unfolding arena_new_def Let_def c_def [symmetric] zs_def [symmetric] m_def [symmetric]
    by (auto split: sum.splits)
  define mk where "mk = (if off + HEADER_SIZE \<le> length m \<and> sub_slice m off HEADER_SIZE \<noteq> end_marker_bytes
      then overwrite m off end_marker_bytes else m)"
  have a: "a = \<lparr>segment_size = mf_segment_size manifest, format_version = mf_version manifest,
      read_segments = sealed, active_map = mk, active_id = length sealed, write_offset = off,
      active_capacity = c, version_counter = (if 0 < off then unat v + 1 else 0), rotation_pending = False,
      file_surplus = 0, next_file = None\<rparr>"
    using assms(4) flen d unfolding arena_new_def Let_def c_def [symmetric] zs_def [symmetric] m_def [symmetric] mk_def
    by simp
  obtain fs where fs: "frames_at crc32 lz4 m 0 fs off" "v = max_version_of 0 fs"
    using discover_loop_sound [OF d [unfolded discover_offset_def]] by blast
  have off: "off \<le> length m" using frames_at_bounds [OF fs(1)] by simp
  have mlen: "length mk = c" using off len by (simp add: mk_def)
  have "take off mk = take off m" using off by (simp add: mk_def take_overwrite)
  then have log: "frames_at crc32 lz4 mk 0 fs off" using frames_at_take [OF fs(1)] by simp
  have tail: "drop (off + 16) mk = drop (off + 16) m" using off by (simp add: mk_def drop_overwrite)
  have "is_log_end (drop off mk)" if fits: "off + 16 \<le> length m"
  proof (cases "sub_slice m off 16 = end_marker_bytes")
    case True
    then have "take 16 (drop off m) = take 16 (end_marker_bytes @ [])" by (simp add: sub_slice_def)
    then have "header_words (drop off m) = header_words (end_marker_bytes @ [])"
      by (rule header_words_prefix [OF order_refl])
    then have "is_log_end (drop off m)" using is_log_end_marker [of "[]"] by (simp add: is_log_end_def)
    then show ?thesis using True by (simp add: mk_def)
  next
    case False
    then have "drop off mk = end_marker_bytes @ drop (off + 16) m"
      using fits drop_overwrite_at [of off m end_marker_bytes] by (simp add: mk_def)
    then show ?thesis by (simp add: is_log_end_marker)
  qed
  then have end_at: "log_end_at mk off" using len mlen by (cases "off + 16 \<le> length m") (auto simp: log_end_at_def)
  have "arena_wf a" using cap mlen off len assms(1,2) by (auto simp: arena_wf_def next_wf_def a)
  then have "arena_rep crc32 lz4 a fss fs" using assms(3) log end_at by (simp add: arena_rep_def a)
  moreover have "set zs \<subseteq> {0}" "length file + length zs = length mk"
    using mlen cap(1) by (auto simp: zs_def)
  ultimately show ?thesis
    using fs d tail by (intro exI [of _ fs] exI [of _ zs]) (simp add: a m_def)
qed

lemma frames_at_unique:
  "frames_at crc32 lz4 data off fs e \<Longrightarrow> frames_at crc32 lz4 data off gs e \<Longrightarrow> off \<le> length data \<Longrightarrow> fs = gs"
proof (induction fs arbitrary: off gs)
  case Nil
  show ?case
  proof (cases gs)
    case (Cons g gs')
    obtain p v where g: "g = (p, v)" by (cases g)
    then obtain n where n: "decode_rest crc32 lz4 (drop off data) = Some (p, v, n)"
      "frames_at crc32 lz4 data (off + n) gs' e"
      using Nil.prems(2) Cons by (auto split: option.splits)
    have "16 < n" "off + n \<le> length data" using decode_rest_size [OF n(1)] Nil.prems(3) by auto
    then show ?thesis using frames_at_bounds [OF n(2)] Nil.prems(1) by simp
  qed simp
next
  case (Cons f fs)
  obtain p v where f: "f = (p, v)" by (cases f)
  then obtain n where n: "decode_rest crc32 lz4 (drop off data) = Some (p, v, n)"
    "frames_at crc32 lz4 data (off + n) fs e"
    using Cons.prems(1) by (auto split: option.splits)
  have le: "16 < n" "off + n \<le> length data" using decode_rest_size [OF n(1)] Cons.prems(3) by auto
  then have "off < e" using frames_at_bounds [OF n(2)] by simp
  then obtain g gs' where gs: "gs = g # gs'" using Cons.prems(2) by (cases gs) auto
  then show ?case using Cons.IH [OF n(2) _ le(2), of gs'] Cons.prems(2) n(1) f by (cases g) simp
qed

text \<open>
  Whatever the bytes after the end of the frames \<open>fs\<close>, recovery keeps these frames.
\<close>

lemma recovery_keeps:
  assumes wf: "arena_wf a" and sealed: "list_all2 (sealed_log crc32 lz4) (read_segments a) fss"
    and log: "frames_at crc32 lz4 (active_map a) 0 fs off" and off: "off \<le> length (active_map a)"
    and pre: "take off file = take off (active_map a)"
    and new: "arena_new crc32 lz4 (manifest_of a) (read_segments a) file = Inr a'"
  shows "\<exists>fs'. arena_rep crc32 lz4 a' fss (fs @ fs')"
proof -
  have geo: "mf_segment_size (manifest_of a) \<in> {SEGMENT_SIZE, LEGACY_SEGMENT_SIZE}"
    "\<forall>seg \<in> set (read_segments a). length seg = mf_segment_size (manifest_of a)"
    using arena_wfD(1,3) [OF wf] by (auto simp: manifest_of_def)
  obtain fs2 zs where new: "arena_rep crc32 lz4 a' fss fs2" "frames_at crc32 lz4 (file @ zs) 0 fs2 (write_offset a')"
    "discover_offset crc32 lz4 (file @ zs) = Inr (write_offset a', max_version_of 0 fs2)"
    using arena_new_rep [OF geo sealed new] by blast
  have "off \<le> length file" using arg_cong [OF pre, of length] off by simp
  then have "take off (active_map a) = take off (file @ zs)" using pre by simp
  then have pre: "frames_at crc32 lz4 (file @ zs) 0 fs off" using frames_at_take [OF log] by simp
  have "discover_loop crc32 lz4 (file @ zs) off (max_version_of 0 fs) = Inr (write_offset a', max_version_of 0 fs2)"
    using discover_offset_frames [OF pre] new(3) by simp
  then obtain fs' where "frames_at crc32 lz4 (file @ zs) off fs' (write_offset a')"
    using discover_loop_sound by blast
  then have "frames_at crc32 lz4 (file @ zs) 0 (fs @ fs') (write_offset a')"
    using pre by (auto simp: frames_at_append)
  then have "fs2 = fs @ fs'" using frames_at_unique [OF new(2)] by simp
  then show ?thesis using new(1) by blast
qed

lemma crash_recovery:
  assumes "arena_rep crc32 lz4 a fss fs" "take (write_offset a) file = take (write_offset a) (active_map a)"
    "arena_new crc32 lz4 (manifest_of a) (read_segments a) file = Inr a'"
  shows "\<exists>fs'. arena_rep crc32 lz4 a' fss (fs @ fs')"
proof -
  have wf: "arena_wf a" "list_all2 (sealed_log crc32 lz4) (read_segments a) fss"
    "frames_at crc32 lz4 (active_map a) 0 fs (write_offset a)"
    using assms(1) by (auto simp: arena_rep_def)
  show ?thesis by (rule recovery_keeps [OF wf arena_wfD(6) [OF wf(1)] assms(2,3)])
qed

text \<open>An arena whose tail is clean reopens to the same journal, also when a failed growth has extended its file.\<close>

lemma discover_clean:
  assumes "arena_rep crc32 lz4 a fss fs" "clean_tail a" "set zs \<subseteq> {0}"
  shows "discover_offset crc32 lz4 (active_map a @ zs) = Inr (write_offset a, max_version_of 0 fs)"
proof -
  have wf: "arena_wf a" and log: "frames_at crc32 lz4 (active_map a) 0 fs (write_offset a)"
    and end_at: "log_end_at (active_map a) (write_offset a)"
    using assms(1) by (auto simp: arena_rep_def)
  have le: "write_offset a \<le> length (active_map a)" by (rule arena_wfD(6) [OF wf])
  have log': "frames_at crc32 lz4 (active_map a @ zs) 0 fs (write_offset a)"
    by (rule frames_at_take [OF log]) (use le in simp_all)
  have tail: "\<forall>x \<in> set (drop (tail_start a) (active_map a @ zs)). x = 0"
    using assms(2,3) by (auto simp: clean_tail_def dest: in_set_dropD)
  then have zeros: "\<forall>x \<in> set (drop (write_offset a + 16) (active_map a @ zs)). x = 0"
    using set_drop_subset_set_drop [of "tail_start a" "write_offset a + 16" "active_map a @ zs"]
    by (auto simp: tail_start_def split: if_splits)
  have "discover_loop crc32 lz4 (active_map a @ zs) (write_offset a) v = Inr (write_offset a, v)" for v
  proof (cases "length (active_map a @ zs) < write_offset a + 16")
    case True
    then show ?thesis by (rule discover_loop_exhausted)
  next
    case False
    have "is_log_end (drop (write_offset a) (active_map a @ zs))"
    proof (cases "write_offset a + 16 \<le> length (active_map a)")
      case True
      then have "take 16 (drop (write_offset a) (active_map a @ zs)) = take 16 (drop (write_offset a) (active_map a))"
        by simp
      then show ?thesis using True end_at is_log_end_prefix by (metis log_end_at_def not_less)
    next
      case short: False
      then show ?thesis
        using False tail by (intro is_log_end_zero) (auto simp: tail_start_def dest: in_set_takeD)
    qed
    then show ?thesis by (rule discover_loop_end) (rule committed_after_zero_tail, rule zeros)
  qed
  then show ?thesis using discover_offset_frames [OF log'] by simp
qed

lemma reopen_clean:
  assumes "arena_rep crc32 lz4 a fss fs" "clean_tail a"
  shows "\<exists>a'. arena_new crc32 lz4 (manifest_of a) (read_segments a) (active_file a) = Inr a' \<and>
    arena_rep crc32 lz4 a' fss fs"
proof -
  have wf: "arena_wf a" and sealed: "list_all2 (sealed_log crc32 lz4) (read_segments a) fss"
    and log: "frames_at crc32 lz4 (active_map a) 0 fs (write_offset a)"
    using assms(1) by (auto simp: arena_rep_def)
  note D = arena_wfD [OF wf]
  have geo: "mf_segment_size (manifest_of a) \<in> {SEGMENT_SIZE, LEGACY_SEGMENT_SIZE}"
    "\<forall>seg \<in> set (read_segments a). length seg = mf_segment_size (manifest_of a)"
    using D(1,3) by (auto simp: manifest_of_def)
  have len: "length (active_file a) \<le> mf_segment_size (manifest_of a)"
    using D(12) by (simp add: manifest_of_def active_file_def)
  have d: "discover_offset crc32 lz4 (active_file a @ replicate n 0) = Inr (write_offset a, max_version_of 0 fs)" for n
  proof -
    have "set (replicate (file_surplus a) 0 @ replicate n (0 :: u8)) \<subseteq> {0}" by auto
    from discover_clean [OF assms this] show ?thesis by (simp add: active_file_def)
  qed
  obtain a' where new: "arena_new crc32 lz4 (manifest_of a) (read_segments a) (active_file a) = Inr a'"
    and off: "write_offset a' = write_offset a"
    using len unfolding arena_new_def Let_def d by simp
  obtain fs2 zs where z: "arena_rep crc32 lz4 a' fss fs2"
    "frames_at crc32 lz4 (active_file a @ zs) 0 fs2 (write_offset a')"
    using arena_new_rep [OF geo sealed new] by blast
  have "frames_at crc32 lz4 (active_file a @ zs) 0 fs (write_offset a)"
    by (rule frames_at_take [OF log]) (use D(6) in \<open>simp_all add: active_file_def\<close>)
  then have "fs2 = fs" using frames_at_unique [OF z(2)] off by simp
  then show ?thesis using new z(1) by blast
qed

text \<open>
  After a failed rotation the next file, all zeros, is opened as an empty active segment: the segment the arena
  was on is now sealed.
\<close>

lemma discover_zeros:
  assumes "set m \<subseteq> {0}"
  shows "discover_offset crc32 lz4 m = Inr (0, 0)"
proof (cases "length m < 16")
  case True
  then show ?thesis by (simp add: discover_offset_def discover_loop_exhausted)
next
  case False
  then show ?thesis unfolding discover_offset_def
    by (intro discover_loop_end is_log_end_zero committed_after_zero_tail)
      (use assms in \<open>auto dest: in_set_dropD in_set_takeD\<close>)
qed

lemma new_on_zeros:
  assumes "mf_segment_size m \<in> {SEGMENT_SIZE, LEGACY_SEGMENT_SIZE}"
    "\<forall>seg \<in> set sealed. length seg = mf_segment_size m" "list_all2 (sealed_log crc32 lz4) sealed fss"
    "set file \<subseteq> {0}" "length file \<le> mf_segment_size m"
  shows "\<exists>a. arena_new crc32 lz4 m sealed file = Inr a \<and> arena_rep crc32 lz4 a fss [] \<and> clean_tail a"
proof -
  have d: "discover_offset crc32 lz4 (file @ replicate n 0) = Inr (0, 0)" for n
    by (rule discover_zeros) (use assms(4) in auto)
  have "\<exists>a. arena_new crc32 lz4 m sealed file = Inr a \<and> write_offset a = 0"
    using assms(5) unfolding arena_new_def Let_def d by simp
  then obtain a where a: "arena_new crc32 lz4 m sealed file = Inr a" "write_offset a = 0" by blast
  obtain fs zs where z: "arena_rep crc32 lz4 a fss fs" "set zs \<subseteq> {0}" "frames_at crc32 lz4 (file @ zs) 0 fs 0"
    "drop 16 (active_map a) = drop 16 (file @ zs)"
    using arena_new_rep [OF assms(1-3) a(1)] a(2) by auto
  have "fs = []" using frames_at_unique [OF z(3), of "[]"] by simp
  moreover have "set (drop 16 (file @ zs)) \<subseteq> {0}" using set_drop_subset [of 16 "file @ zs"] z(2) assms(4) by auto
  moreover have "16 \<le> length (active_map a)" using z(1) arena_wfD(10) [of a] by (simp add: arena_rep_def size_defs)
  ultimately have "clean_tail a" using z(4) a(2) by (auto simp: clean_tail_def tail_start_def)
  then show ?thesis using a(1) z(1) \<open>fs = []\<close> by blast
qed

lemma reopen_next:
  assumes "arena_rep crc32 lz4 a fss fs" "next_file a = Some f"
  shows "\<exists>a'. arena_new crc32 lz4 (manifest_of a) (read_segments a @ [active_file a]) f = Inr a' \<and>
    arena_rep crc32 lz4 a' (fss @ [fs]) []"
proof -
  have wf: "arena_wf a" and sealed: "list_all2 (sealed_log crc32 lz4) (read_segments a) fss"
    and log: "frames_at crc32 lz4 (active_map a) 0 fs (write_offset a)" "log_end_at (active_map a) (write_offset a)"
    using assms(1) by (auto simp: arena_rep_def)
  note D = arena_wfD [OF wf]
  have f: "rotation_pending a" "length f \<le> next_capacity a" "set f \<subseteq> {0}" using D(11) assms(2) by (auto simp: next_wf_def)
  note full = arena_wf_full [OF wf D(7) [OF f(1)]]
  have "fs \<noteq> []" using log(1) full(2) by (cases fs) auto
  then have "sealed_log crc32 lz4 (active_map a) fs" using log by (auto simp: sealed_log_def)
  moreover have same: "active_file a = active_map a" using full(1) D(12) by (simp add: active_file_def)
  ultimately have "list_all2 (sealed_log crc32 lz4) (read_segments a @ [active_file a]) (fss @ [fs])"
    using sealed by (auto intro: list_all2_appendI)
  moreover have "length f \<le> segment_size a" using f(2) D(1) by (auto simp: next_capacity_def size_defs split: if_splits)
  ultimately show ?thesis
    using new_on_zeros [of "manifest_of a" "read_segments a @ [active_file a]" crc32 lz4 "fss @ [fs]" f] D(1,3) f(3) full(1) same
    by (auto simp: manifest_of_def)
qed

lemma reopen_disk:
  assumes "arena_rep crc32 lz4 a fss fs" "clean_tail a"
  shows "\<exists>a' fss' fs'. arena_open crc32 lz4 (manifest_of a) (disk_segments a) = Inr a' \<and>
    arena_rep crc32 lz4 a' fss' fs' \<and> concat fss' @ fs' = concat fss @ fs"
proof (cases "next_file a")
  case None
  then show ?thesis using reopen_clean [OF assms] by (auto simp: arena_open_def disk_segments_def)
next
  case (Some f)
  obtain a' where "arena_new crc32 lz4 (manifest_of a) (read_segments a @ [active_file a]) f = Inr a'"
    "arena_rep crc32 lz4 a' (fss @ [fs]) []"
    using reopen_next [OF assms(1) Some] by blast
  then show ?thesis
    using Some by (intro exI [of _ a'] exI [of _ "fss @ [fs]"] exI [of _ "[]"])
      (simp add: arena_open_def disk_segments_def butlast_append)
qed

text \<open>
  The files when the machine stops in an append at the offset \<open>g\<close>: the segment written to holds any bytes from
  there on, the other files are as the append leaves them.
\<close>

definition torn_files :: "PersistentArena \<Rightarrow> usize \<Rightarrow> u8 list \<Rightarrow> u8 list list" where
  "torn_files a g junk =
     (let i = g div segment_size a; files = disk_segments a
      in files[i := take (g mod segment_size a) (files ! i) @ junk])"

lemma reopen_torn:
  assumes "placed_frame crc32 lz4 journal (Inr g) a"
    "arena_open crc32 lz4 (manifest_of a) (torn_files a g junk) = Inr a'"
  shows "\<exists>fss fs fs'. arena_rep crc32 lz4 a' fss (fs @ fs') \<and> concat fss @ fs = journal"
proof -
  obtain fss fs off where p: "\<not> rotation_pending a" "arena_wf a" "list_all2 (sealed_log crc32 lz4) (read_segments a) fss"
    "concat fss @ fs = journal" "g = active_id a * segment_size a + off" "off < segment_size a"
    "off \<le> length (active_map a)" "frames_at crc32 lz4 (active_map a) 0 fs off"
    using assms(1) unfolding placed_frame_def by auto
  have "next_file a = None" using p(1) arena_wfD(11) [OF p(2)] by (cases "next_file a") (auto simp: next_wf_def)
  moreover have "g div segment_size a = length (read_segments a)" "g mod segment_size a = off"
    using p(5,6) arena_wfD(2) [OF p(2)] by simp_all
  ultimately have "torn_files a g junk = read_segments a @ [take off (active_map a) @ junk]"
    using p(7) by (simp add: torn_files_def Let_def disk_segments_def active_file_def nth_append list_update_append)
  then have "arena_new crc32 lz4 (manifest_of a) (read_segments a) (take off (active_map a) @ junk) = Inr a'"
    using assms(2) by (simp add: arena_open_def)
  moreover have "take off (take off (active_map a) @ junk) = take off (active_map a)" using p(7) by simp
  ultimately have "\<exists>fs'. arena_rep crc32 lz4 a' fss (fs @ fs')" using recovery_keeps [OF p(2,3,8,7)] by blast
  then show ?thesis using p(4) by blast
qed

section \<open>Sequences of appends\<close>

text \<open>Appends one after the other, with the payloads whose append returned an offset.\<close>

fun append_all :: "(u8 list \<Rightarrow> u32) \<Rightarrow> (u8 list \<Rightarrow> u8 list) \<Rightarrow> PersistentArena
    \<Rightarrow> (io_outcome \<times> u8 list \<times> bool) list \<Rightarrow> PersistentArena \<times> u8 list list" where
  "append_all crc32 compress a [] = (a, [])"
| "append_all crc32 compress a ((io, data, durable) # ops) =
     (case write_frame crc32 compress io a data durable of
        (r, a1) \<Rightarrow>
          (case append_all crc32 compress a1 ops of
             (a2, accepted) \<Rightarrow> (a2, case r of Inr _ \<Rightarrow> data # accepted | Inl _ \<Rightarrow> accepted)))"

abbreviation collect :: "u8 list \<Rightarrow> u8 list list \<Rightarrow> arena_error + u8 list list" where
  "collect d s \<equiv> Inr (s @ [d])"

lemma collect_frames [simp]: "apply_frames (\<lambda>d s. collect d s) fs s = Inr (s @ map fst fs)"
  by (induction fs arbitrary: s) auto

lemma replay_rep:
  "arena_rep crc32 lz4 a fss fs \<Longrightarrow>
   load_from_log crc32 lz4 (\<lambda>d s. Inr (s @ [d])) a [] = Inr (map fst (concat fss @ fs))"
  using load_from_log_rep [of crc32 lz4 a fss fs "\<lambda>d s. collect d s" "[]"] by simp

lemma write_frame_bad:
  "data = [] \<or> MAX_RAW_FRAME_SIZE < length data \<Longrightarrow> write_frame crc32 compress io a data durable = (Inl BadPayloadLength, a)"
  by (auto simp: write_frame_def Let_def)

lemma write_frame_rep:
  assumes "lz4_codec compress lz4" "arena_rep crc32 lz4 a fss fs"
    "write_frame crc32 compress io a data durable = (r, a')"
  shows "\<exists>fss' fs'. arena_rep crc32 lz4 a' fss' fs' \<and>
    concat fss' @ fs' = concat fss @ fs @ (case r of Inr _ \<Rightarrow> [(data, of_nat (version_counter a))] | Inl _ \<Rightarrow> [])"
    "clean_tail a \<Longrightarrow> clean_tail a'"
proof -
  have "(\<exists>fss' fs'. arena_rep crc32 lz4 a' fss' fs' \<and>
    concat fss' @ fs' = concat fss @ fs @ (case r of Inr _ \<Rightarrow> [(data, of_nat (version_counter a))] | Inl _ \<Rightarrow> [])) \<and>
    (clean_tail a \<longrightarrow> clean_tail a')"
  proof (cases "data = [] \<or> MAX_RAW_FRAME_SIZE < length data")
    case True
    then have "r = Inl BadPayloadLength" "a' = a" using write_frame_bad [OF True] assms(3) by auto
    then show ?thesis using assms(2) by auto
  next
    case False
    then have "data \<noteq> []" "length data \<le> MAX_RAW_FRAME_SIZE" by auto
    note w = write_frame_cases [OF assms(1,2) this assms(3)]
    obtain fss' fs' where j: "arena_rep crc32 lz4 a' fss' fs'"
      "r = Inl IoError \<and> concat fss' @ fs' = concat fss @ fs \<or>
       (\<exists>g. r = Inr g \<and> concat fss' @ fs' = (concat fss @ fs) @ [(data, of_nat (version_counter a))])"
      using w(1) unfolding appended_def by blast
    have "concat fss' @ fs' = concat fss @ fs @ (case r of Inr _ \<Rightarrow> [(data, of_nat (version_counter a))] | Inl _ \<Rightarrow> [])"
      using j(2) by auto
    then show ?thesis using j(1) w(2) by blast
  qed
  then show "\<exists>fss' fs'. arena_rep crc32 lz4 a' fss' fs' \<and>
    concat fss' @ fs' = concat fss @ fs @ (case r of Inr _ \<Rightarrow> [(data, of_nat (version_counter a))] | Inl _ \<Rightarrow> [])"
    "clean_tail a \<Longrightarrow> clean_tail a'" by blast+
qed

lemma write_frame_placed:
  assumes "lz4_codec compress lz4" "arena_rep crc32 lz4 a fss fs"
    "write_frame crc32 compress io a data durable = (Inr g, a')"
  shows "placed_frame crc32 lz4 (concat fss @ fs) (Inr g) a'"
proof -
  have "\<not> (data = [] \<or> MAX_RAW_FRAME_SIZE < length data)"
    using write_frame_bad [of data crc32 compress io a durable] assms(3) by auto
  then have "data \<noteq> []" "length data \<le> MAX_RAW_FRAME_SIZE" by auto
  then show ?thesis by (rule write_frame_cases(3) [OF assms(1,2) _ _ assms(3)])
qed

lemma append_all_rep:
  assumes "lz4_codec compress lz4" "arena_rep crc32 lz4 a fss fs" "clean_tail a"
    "append_all crc32 compress a ops = (a', accepted)"
  shows "\<exists>fss' fs'. arena_rep crc32 lz4 a' fss' fs' \<and> clean_tail a' \<and>
    map fst (concat fss' @ fs') = map fst (concat fss @ fs) @ accepted"
  using assms(2-4)
proof (induction ops arbitrary: a fss fs accepted)
  case (Cons op ops)
  obtain io data durable where op: "op = (io, data, durable)" by (cases op)
  obtain r a1 where w: "write_frame crc32 compress io a data durable = (r, a1)" by fastforce
  obtain rest where rest: "append_all crc32 compress a1 ops = (a', rest)"
    and acc: "accepted = (case r of Inr _ \<Rightarrow> data # rest | Inl _ \<Rightarrow> rest)"
    using Cons.prems(3) by (auto simp: op w split: prod.splits)
  obtain fss1 fs1 where one: "arena_rep crc32 lz4 a1 fss1 fs1"
    "concat fss1 @ fs1 = concat fss @ fs @ (case r of Inr _ \<Rightarrow> [(data, of_nat (version_counter a))] | Inl _ \<Rightarrow> [])"
    using write_frame_rep(1) [OF assms(1) Cons.prems(1) w] by blast
  have "clean_tail a1" by (rule write_frame_rep(2) [OF assms(1) Cons.prems(1) w Cons.prems(2)])
  then obtain fss' fs' where "arena_rep crc32 lz4 a' fss' fs'" "clean_tail a'"
    "map fst (concat fss' @ fs') = map fst (concat fss1 @ fs1) @ rest"
    using Cons.IH [OF one(1) _ rest] by blast
  then show ?case using one(2) acc by (cases r) auto
qed auto

section \<open>Creating an arena\<close>

lemma manifest_size:
  "validate_or_create_manifest stored legacy = Inr m \<Longrightarrow> mf_segment_size m \<in> {SEGMENT_SIZE, LEGACY_SEGMENT_SIZE}"
  by (auto simp: validate_or_create_manifest_def Let_def split: option.splits if_splits)

lemma fresh_arena:
  assumes "mf_segment_size m \<in> {SEGMENT_SIZE, LEGACY_SEGMENT_SIZE}"
  shows "\<exists>a. arena_new crc32 lz4 m [] [] = Inr a \<and> arena_rep crc32 lz4 a [] [] \<and> clean_tail a"
  by (rule new_on_zeros [OF assms]) auto

abbreviation all_ok :: io_outcome where
  "all_ok \<equiv> \<lparr>seal_ok = True, create_ok = True, extend_ok = True, map_ok = True, grow_extend_ok = True,
     grow_map_ok = True, commit_ok = True\<rparr>"

definition acceptable :: "u8 list \<Rightarrow> bool" where
  "acceptable data \<longleftrightarrow> data \<noteq> [] \<and> length data \<le> MAX_RAW_FRAME_SIZE"

lemma write_frame_accepts:
  assumes "lz4_codec compress lz4" "arena_rep crc32 lz4 a fss fs" "acceptable data"
    "write_frame crc32 compress all_ok a data durable = (r, a')"
  shows "\<exists>g. r = Inr g"
  using write_frame_cases(1) [OF assms(1,2) _ _ assms(4)] assms(3) by (auto simp: acceptable_def appended_def)

lemma append_all_accepts_rep:
  assumes "lz4_codec compress lz4" "arena_rep crc32 lz4 a fss fs"
  shows "snd (append_all crc32 compress a (map (\<lambda>(d, durable). (all_ok, d, durable)) ds)) =
    filter acceptable (map fst ds)"
  using assms(2)
proof (induction ds arbitrary: a fss fs)
  case (Cons d ds)
  obtain data durable where d: "d = (data, durable)" by (cases d)
  obtain r a1 where w: "write_frame crc32 compress all_ok a data durable = (r, a1)" by fastforce
  obtain fss1 fs1 where "arena_rep crc32 lz4 a1 fss1 fs1"
    using write_frame_rep(1) [OF assms(1) Cons.prems w] by blast
  note ih = Cons.IH [OF this]
  show ?case
  proof (cases "acceptable data")
    case True
    then obtain g where "r = Inr g" using write_frame_accepts [OF assms(1) Cons.prems _ w] by blast
    then show ?thesis using ih True by (simp add: d w case_prod_beta)
  next
    case False
    then have "r = Inl BadPayloadLength"
      using w write_frame_bad [of data crc32 compress all_ok a durable] by (auto simp: acceptable_def)
    then show ?thesis using ih False by (simp add: d w case_prod_beta)
  qed
qed simp

section \<open>Properties\<close>

text \<open>
  C1. The journal is exactly the accepted appends: on a newly created arena, after any sequence
  of appends (durable or not, with any of their file operations failing, across growth and
  rotation), replay yields the payloads whose append returned an offset, in order.  So does
  replay after all the segment files on disk are opened again, the file of the next segment and the extension
  of the active one that failed operations left behind included.  And when the machine
  stops while the next append writes its frame, so that its segment holds any bytes from the offset
  of that frame on, replay after a successful open still starts with all the accepted payloads.
\<close>

theorem journal_replay_exact:
  assumes "lz4_codec compress lz4" "validate_or_create_manifest stored legacy = Inr m"
    "arena_new crc32 lz4 m [] [] = Inr a0" "append_all crc32 compress a0 ops = (a, accepted)"
  shows "load_from_log crc32 lz4 (\<lambda>d s. Inr (s @ [d])) a [] = Inr accepted \<and>
    (\<exists>a'. arena_open crc32 lz4 (manifest_of a) (disk_segments a) = Inr a' \<and>
      load_from_log crc32 lz4 (\<lambda>d s. Inr (s @ [d])) a' [] = Inr accepted) \<and>
    (\<forall>io data durable g a1 junk a'.
      write_frame crc32 compress io a data durable = (Inr g, a1) \<longrightarrow>
      arena_open crc32 lz4 (manifest_of a1) (torn_files a1 g junk) = Inr a' \<longrightarrow>
      (\<exists>torn. load_from_log crc32 lz4 (\<lambda>d s. Inr (s @ [d])) a' [] = Inr (accepted @ torn)))"
proof -
  have a0: "arena_rep crc32 lz4 a0 [] []" "clean_tail a0"
    using fresh_arena [OF manifest_size [OF assms(2)], of crc32 lz4] assms(3) by auto
  obtain fss fs where rep: "arena_rep crc32 lz4 a fss fs" "clean_tail a" "map fst (concat fss @ fs) = accepted"
    using append_all_rep [OF assms(1) a0 assms(4)] by auto
  obtain a' fss' fs' where disk: "arena_open crc32 lz4 (manifest_of a) (disk_segments a) = Inr a'"
    "arena_rep crc32 lz4 a' fss' fs'" "concat fss' @ fs' = concat fss @ fs"
    using reopen_disk [OF rep(1,2)] by blast
  have "\<exists>torn. load_from_log crc32 lz4 (\<lambda>d s. Inr (s @ [d])) a2 [] = Inr (accepted @ torn)"
    if w: "write_frame crc32 compress io a data durable = (Inr g, a1)"
      and new: "arena_open crc32 lz4 (manifest_of a1) (torn_files a1 g junk) = Inr a2" for io data durable g a1 junk a2
  proof -
    obtain gss gs gs' where t: "arena_rep crc32 lz4 a2 gss (gs @ gs')" "concat gss @ gs = concat fss @ fs"
      using reopen_torn [OF write_frame_placed [OF assms(1) rep(1) w] new] by blast
    have "map fst (concat gss @ gs @ gs') = accepted @ map fst gs'"
      using arg_cong [OF t(2), of "map fst"] rep(3) by simp
    then show ?thesis using replay_rep [OF t(1)] by auto
  qed
  then show ?thesis using replay_rep [OF rep(1)] replay_rep [OF disk(2)] rep(3) disk by auto
qed

text \<open>A run-length block codec for the examples: constant payloads shrink to one byte.\<close>

definition run_compress :: "u8 list \<Rightarrow> u8 list" where
  "run_compress d = (if d = replicate (length d) (hd d) then [hd d] else d)"

definition run_decompress :: "u8 list \<Rightarrow> usize \<Rightarrow> u8 list option" where
  "run_decompress b n = (if length b = 1 then Some (replicate n (hd b)) else Some b)"

lemma run_codec: "lz4_codec run_compress run_decompress"
proof -
  have "run_compress d \<noteq> [] \<and> run_decompress (run_compress d) (length d) = Some d" if "d \<noteq> []" for d
  proof (cases "d = replicate (length d) (hd d)")
    case False
    then have "length d \<noteq> 1" by (auto simp: length_Suc_conv)
    then show ?thesis using False that by (simp add: run_compress_def run_decompress_def)
  qed (simp add: run_compress_def run_decompress_def)
  then show ?thesis by (simp add: lz4_codec_def)
qed

definition byte_sum :: "u8 list \<Rightarrow> u32" where
  "byte_sum d = of_nat (sum_list (map unat d))"

lemma default_manifest:
  "validate_or_create_manifest None False =
     Inr \<lparr>mf_magic = FORMAT_MAGIC, mf_version = 4, mf_segment_size = LEGACY_SEGMENT_SIZE\<rparr>"
  by (simp add: validate_or_create_manifest_def STORAGE_FORMAT_VERSION_def)

lemma example_journal:
  obtains a0 a where "arena_new byte_sum run_decompress (projr (validate_or_create_manifest None False)) [] [] = Inr a0"
    "arena_rep byte_sum run_decompress a0 [] []"
    "append_all byte_sum run_compress a0
       (map (\<lambda>(d, durable). (all_ok, d, durable)) [([7, 7, 7], True), ([], True), ([1, 2], False)]) =
     (a, [[7, 7, 7], [1, 2]])"
proof -
  let ?ds = "[([7, 7, 7], True), ([], True), ([1, 2], False)] :: (u8 list \<times> bool) list"
  obtain a0 where a0: "arena_new byte_sum run_decompress (projr (validate_or_create_manifest None False)) [] [] = Inr a0"
    "arena_rep byte_sum run_decompress a0 [] []"
    using fresh_arena [of "projr (validate_or_create_manifest None False)"] manifest_size [OF default_manifest]
    by (auto simp: default_manifest)
  have "snd (append_all byte_sum run_compress a0 (map (\<lambda>(d, durable). (all_ok, d, durable)) ?ds)) =
      filter acceptable (map fst ?ds)"
    by (rule append_all_accepts_rep [OF run_codec a0(2)])
  also have "\<dots> = [[7, 7, 7], [1, 2]]" by (simp add: acceptable_def MAX_RAW_FRAME_SIZE_def)
  finally show ?thesis using that [OF a0] by (metis prod.collapse)
qed

theorem journal_replay_exact_witness:
  "\<exists>a a'. load_from_log byte_sum run_decompress (\<lambda>d s. Inr (s @ [d])) a [] = Inr [[7, 7, 7], [1, 2]] \<and>
     arena_open byte_sum run_decompress (manifest_of a) (disk_segments a) = Inr a' \<and>
     load_from_log byte_sum run_decompress (\<lambda>d s. Inr (s @ [d])) a' [] = Inr [[7, 7, 7], [1, 2]]"
proof (rule example_journal)
  fix a0 a
  assume a0: "arena_new byte_sum run_decompress (projr (validate_or_create_manifest None False)) [] [] = Inr a0"
    and run: "append_all byte_sum run_compress a0
       (map (\<lambda>(d, durable). (all_ok, d, durable)) [([7, 7, 7], True), ([], True), ([1, 2], False)]) =
     (a, [[7, 7, 7], [1, 2]])"
  have "validate_or_create_manifest None False = Inr (projr (validate_or_create_manifest None False))"
    by (simp add: default_manifest)
  from journal_replay_exact [OF run_codec this a0 run] show ?thesis by blast
qed

text \<open>
  C3. Every outcome of one append on an arena that holds a journal: a payload of a bad length is
  refused and changes nothing; otherwise the append either fails because a file operation
  failed, and the journal is as before, or returns an offset at which the payload is read back,
  and the journal is longer by it.  No other error and no panic is possible.
\<close>

theorem write_frame_outcomes:
  assumes "lz4_codec compress lz4" "arena_rep crc32 lz4 a fss fs"
    "write_frame crc32 compress io a data durable = (r, a')"
    "load_from_log crc32 lz4 (\<lambda>d s. Inr (s @ [d])) a [] = Inr journal"
  shows "(data = [] \<or> MAX_RAW_FRAME_SIZE < length data) \<and> r = Inl BadPayloadLength \<and> a' = a \<or>
    data \<noteq> [] \<and> length data \<le> MAX_RAW_FRAME_SIZE \<and>
    (r = Inl IoError \<and> \<not> (seal_ok io \<and> next_ok io \<and> grow_ok io \<and> commit_ok io) \<and>
       load_from_log crc32 lz4 (\<lambda>d s. Inr (s @ [d])) a' [] = Inr journal \<or>
     (\<exists>g version. r = Inr g \<and> read_frame crc32 lz4 a' g = Inr (data, version) \<and>
       load_from_log crc32 lz4 (\<lambda>d s. Inr (s @ [d])) a' [] = Inr (journal @ [data])))"
proof (cases "data = [] \<or> MAX_RAW_FRAME_SIZE < length data")
  case True
  then show ?thesis using write_frame_bad [OF True] assms(3) by auto
next
  case False
  then have ok: "data \<noteq> []" "length data \<le> MAX_RAW_FRAME_SIZE" by auto
  have j: "journal = map fst (concat fss @ fs)" using assms(4) replay_rep [OF assms(2)] by simp
  obtain fss' fs' where rep: "arena_rep crc32 lz4 a' fss' fs'"
    and cases: "r = Inl IoError \<and> concat fss' @ fs' = concat fss @ fs \<and> \<not> (seal_ok io \<and> next_ok io \<and> grow_ok io \<and> commit_ok io) \<or>
      (\<exists>g. r = Inr g \<and> concat fss' @ fs' = (concat fss @ fs) @ [(data, of_nat (version_counter a))] \<and>
        read_frame crc32 lz4 a' g = Inr (data, of_nat (version_counter a)))"
    using write_frame_cases(1) [OF assms(1,2) ok assms(3)] unfolding appended_def by blast
  have replay: "load_from_log crc32 lz4 (\<lambda>d s. Inr (s @ [d])) a' [] = Inr (map fst (concat fss' @ fs'))"
    by (rule replay_rep [OF rep])
  from cases show ?thesis
  proof
    assume "r = Inl IoError \<and> concat fss' @ fs' = concat fss @ fs \<and> \<not> (seal_ok io \<and> next_ok io \<and> grow_ok io \<and> commit_ok io)"
    then show ?thesis using ok replay j by (simp add: map_append [symmetric] del: map_append)
  next
    assume "\<exists>g. r = Inr g \<and> concat fss' @ fs' = (concat fss @ fs) @ [(data, of_nat (version_counter a))] \<and>
        read_frame crc32 lz4 a' g = Inr (data, of_nat (version_counter a))"
    then obtain g where g: "r = Inr g" "concat fss' @ fs' = (concat fss @ fs) @ [(data, of_nat (version_counter a))]"
      "read_frame crc32 lz4 a' g = Inr (data, of_nat (version_counter a))" by blast
    have "map fst (concat fss' @ fs') = journal @ [data]" unfolding g(2) j by simp
    then show ?thesis using ok replay g(1,3) by metis
  qed
qed

theorem write_frame_outcomes_witness:
  "\<exists>a r a'. write_frame byte_sum run_compress all_ok a [7, 7, 7] True = (r, a') \<and>
     load_from_log byte_sum run_decompress (\<lambda>d s. Inr (s @ [d])) a' [] = Inr ([] @ [[7, 7, 7]])"
proof (rule example_journal)
  fix a0 a
  assume rep: "arena_rep byte_sum run_decompress a0 [] []"
  obtain r a' where w: "write_frame byte_sum run_compress all_ok a0 [7, 7, 7] True = (r, a')" by fastforce
  have "load_from_log byte_sum run_decompress (\<lambda>d s. Inr (s @ [d])) a0 [] = Inr []"
    using replay_rep [OF rep] by simp
  from write_frame_outcomes [OF run_codec rep w this] w show ?thesis
    by (auto simp: MAX_RAW_FRAME_SIZE_def)
qed

text \<open>
  C2. A crash never loses a committed frame: if the segment file agrees with the arena up to the
  committed end and holds any bytes after it, then whenever the arena opens again, replay starts
  with all the accepted payloads.
\<close>

theorem crash_keeps_committed:
  assumes "lz4_codec compress lz4" "validate_or_create_manifest stored legacy = Inr m"
    "arena_new crc32 lz4 m [] [] = Inr a0" "append_all crc32 compress a0 ops = (a, accepted)"
    "take (write_offset a) file = take (write_offset a) (active_map a)"
    "arena_new crc32 lz4 (manifest_of a) (read_segments a) file = Inr a'"
  shows "\<exists>torn. load_from_log crc32 lz4 (\<lambda>d s. Inr (s @ [d])) a' [] = Inr (accepted @ torn)"
proof -
  have a0: "arena_rep crc32 lz4 a0 [] []" "clean_tail a0"
    using fresh_arena [OF manifest_size [OF assms(2)], of crc32 lz4] assms(3) by auto
  obtain fss fs where rep: "arena_rep crc32 lz4 a fss fs" "map fst (concat fss @ fs) = accepted"
    using append_all_rep [OF assms(1) a0 assms(4)] by auto
  obtain fs' where "arena_rep crc32 lz4 a' fss (fs @ fs')"
    using crash_recovery [OF rep(1) assms(5,6)] by blast
  from replay_rep [OF this] show ?thesis using rep(2) by auto
qed

theorem crash_keeps_committed_witness:
  "\<exists>a' torn. load_from_log byte_sum run_decompress (\<lambda>d s. Inr (s @ [d])) a' [] = Inr ([[7, 7, 7], [1, 2]] @ torn)"
proof (rule example_journal)
  fix a0 a
  assume a0: "arena_new byte_sum run_decompress (projr (validate_or_create_manifest None False)) [] [] = Inr a0"
    and run: "append_all byte_sum run_compress a0
       (map (\<lambda>(d, durable). (all_ok, d, durable)) [([7, 7, 7], True), ([], True), ([1, 2], False)]) =
     (a, [[7, 7, 7], [1, 2]])"
  have m: "validate_or_create_manifest None False = Inr (projr (validate_or_create_manifest None False))"
    by (simp add: default_manifest)
  have "arena_rep byte_sum run_decompress a0 [] []" "clean_tail a0"
    using fresh_arena [OF manifest_size [OF m], of byte_sum run_decompress] a0 by auto
  then obtain fss fs where rep: "arena_rep byte_sum run_decompress a fss fs" "clean_tail a"
    using append_all_rep [OF run_codec _ _ run] by blast
  obtain a' where new: "arena_new byte_sum run_decompress (manifest_of a) (read_segments a) (active_file a) = Inr a'"
    using reopen_clean [OF rep] by blast
  have "take (write_offset a) (active_file a) = take (write_offset a) (active_map a)"
    using rep(1) arena_wfD(6) [of a] by (simp add: arena_rep_def active_file_def)
  from crash_keeps_committed [OF run_codec m a0 run this new] show ?thesis by blast
qed

end
