(* ===== verification/SegmentScan.thy ===== *)
theory SegmentScan
  imports Frames
begin

text \<open>
  The offline verifier of stored segments, \<open>scan_segment\<close> of \<open>src/core/format/scan.rs\<close>.  It
  walks the same frames as the engine's recovery \<open>discover_offset\<close> with its own decoder, and the
  theory proves that the two agree on where the log ends and on whether it is damaged.
\<close>

record FrameRef =
  fr_offset :: usize
  fr_raw_len :: u32
  fr_comp_len :: u32
  fr_seq :: u32
  fr_crc :: u32

definition fr_end :: "FrameRef \<Rightarrow> usize" where
  "fr_end f = fr_offset f + HEADER_SIZE + unat (fr_comp_len f)"

datatype SegmentEnd = Marker | ZeroHeader | Exhausted | TornTail string | Corrupt string "usize option"

record SegmentScan =
  frames :: "(FrameRef \<times> u8 list) list"
  end_offset :: usize
  seg_end :: SegmentEnd

definition word_at :: "u8 list \<Rightarrow> usize \<Rightarrow> u32" where
  "word_at data pos = of_le_bytes (sub_slice data pos 4)"

definition scan_is_log_end :: "u8 list \<Rightarrow> usize \<Rightarrow> bool" where
  "scan_is_log_end data pos \<longleftrightarrow>
     pos + HEADER_SIZE \<le> length data \<and>
     word_at data (pos + 4) = 0 \<and> word_at data (pos + 8) = 0 \<and>
     ((word_at data pos = 0 \<and> word_at data (pos + 12) = END_MARK) \<or>
      (\<forall>b \<in> set (sub_slice data pos HEADER_SIZE). b = 0))"

definition is_end_marker :: "u8 list \<Rightarrow> usize \<Rightarrow> bool" where
  "is_end_marker data pos \<longleftrightarrow> scan_is_log_end data pos \<and> word_at data (pos + 12) = END_MARK"

definition decode_frame :: "(u8 list \<Rightarrow> u32) \<Rightarrow> (u8 list \<Rightarrow> usize \<Rightarrow> u8 list option)
    \<Rightarrow> u8 list \<Rightarrow> usize \<Rightarrow> string + FrameRef \<times> u8 list" where
  "decode_frame crc32 lz4 data offset =
     (let header_end = offset + HEADER_SIZE
      in if length data < header_end then Inl ''truncated-header''
         else
           let crc = word_at data offset; raw_w = word_at data (offset + 4);
               comp_w = word_at data (offset + 8); seq = word_at data (offset + 12)
           in if raw_w = 0 \<or> comp_w = 0 \<or> MAX_RAW_FRAME_SIZE < unat raw_w \<or> raw_w < comp_w
              then Inl ''header-lengths''
              else if length data < header_end + unat comp_w then Inl ''truncated-payload''
              else
                let payload = sub_slice data header_end (unat comp_w);
                    decoded = (if comp_w < raw_w then
                                 if unat comp_w * 255 < unat raw_w then Inl ''implausible-ratio''
                                 else (case lz4 payload (unat raw_w) of
                                         None \<Rightarrow> Inl ''lz4''
                                       | Some out \<Rightarrow> if length out \<noteq> unat raw_w then Inl ''raw-length'' else Inr out)
                               else Inr payload)
                in (case decoded of
                      Inl e \<Rightarrow> Inl e
                    | Inr out \<Rightarrow>
                        if crc32 out \<noteq> crc then Inl ''crc32''
                        else Inr (\<lparr>fr_offset = offset, fr_raw_len = raw_w, fr_comp_len = comp_w,
                                   fr_seq = seq, fr_crc = crc\<rparr>, out)))"

definition scan_committed_after :: "(u8 list \<Rightarrow> u32) \<Rightarrow> (u8 list \<Rightarrow> usize \<Rightarrow> u8 list option)
    \<Rightarrow> u8 list \<Rightarrow> usize \<Rightarrow> bool \<Rightarrow> usize option" where
  "scan_committed_after crc32 lz4 data from include_end_marker =
     (case last_nonzero data of
        None \<Rightarrow> None
      | Some last_byte \<Rightarrow>
          find (\<lambda>pos. pos + HEADER_SIZE \<le> length data \<and>
                 (include_end_marker \<and> is_end_marker data pos \<or> \<not> isl (decode_frame crc32 lz4 data pos)))
            [from..<Suc (last_byte - (HEADER_SIZE - 1))])"

definition fault :: "(u8 list \<Rightarrow> u32) \<Rightarrow> (u8 list \<Rightarrow> usize \<Rightarrow> u8 list option) \<Rightarrow> u8 list \<Rightarrow> bool
    \<Rightarrow> (FrameRef \<times> u8 list) list \<Rightarrow> usize \<Rightarrow> string \<Rightarrow> SegmentScan" where
  "fault crc32 lz4 data is_final fs offset reason =
     (let committed_at = scan_committed_after crc32 lz4 data (offset + 1) True;
          seg = (if is_final \<and> committed_at = None then TornTail reason else Corrupt reason committed_at)
      in \<lparr>frames = fs, end_offset = offset, seg_end = seg\<rparr>)"

lemma decode_frame_bounds:
  "decode_frame crc32 lz4 data offset = Inr (f, out) \<Longrightarrow> offset < fr_end f \<and> fr_end f \<le> length data"
  by (auto simp: decode_frame_def Let_def fr_end_def split: if_splits sum.splits option.splits)

text \<open>The frames found so far are kept in order; \<open>visit\<close> sees each with its payload.\<close>

function scan_loop :: "(u8 list \<Rightarrow> u32) \<Rightarrow> (u8 list \<Rightarrow> usize \<Rightarrow> u8 list option) \<Rightarrow> u8 list \<Rightarrow> bool
    \<Rightarrow> (FrameRef \<times> u8 list) list \<Rightarrow> usize \<Rightarrow> SegmentScan" where
  "scan_loop crc32 lz4 data is_final fs offset =
     (if \<not> offset + HEADER_SIZE \<le> length data then \<lparr>frames = fs, end_offset = offset, seg_end = Exhausted\<rparr>
      else if word_at data (offset + 4) = 0 \<and> word_at data (offset + 8) = 0 then
        if scan_is_log_end data offset then
          (case scan_committed_after crc32 lz4 data (offset + HEADER_SIZE) False of
             Some pos \<Rightarrow> \<lparr>frames = fs, end_offset = offset, seg_end = Corrupt ''committed-after-end'' (Some pos)\<rparr>
           | None \<Rightarrow> \<lparr>frames = fs, end_offset = offset,
                      seg_end = (if is_end_marker data offset then Marker else ZeroHeader)\<rparr>)
        else fault crc32 lz4 data is_final fs offset ''invalid-end-header''
      else
        (case decode_frame crc32 lz4 data offset of
           Inr (f, payload) \<Rightarrow> scan_loop crc32 lz4 data is_final (fs @ [(f, payload)]) (fr_end f)
         | Inl reason \<Rightarrow> fault crc32 lz4 data is_final fs offset reason))"
  by pat_completeness auto
termination
  by (relation "measure (\<lambda>(crc32, lz4, data, is_final, fs, offset). length data - offset)")
    (auto dest: decode_frame_bounds simp: diff_less_mono2)

declare scan_loop.simps [simp del]

definition scan_segment :: "(u8 list \<Rightarrow> u32) \<Rightarrow> (u8 list \<Rightarrow> usize \<Rightarrow> u8 list option) \<Rightarrow> u8 list \<Rightarrow> bool
    \<Rightarrow> SegmentScan" where
  "scan_segment crc32 lz4 data is_final = scan_loop crc32 lz4 data is_final [] 0"

section \<open>The decoders agree\<close>

text \<open>The documented bound of an LZ4 block: it never expands by more than 255 times.\<close>

definition lz4_ratio :: "(u8 list \<Rightarrow> usize \<Rightarrow> u8 list option) \<Rightarrow> bool" where
  "lz4_ratio lz4 \<longleftrightarrow> (\<forall>b n out. lz4 b n = Some out \<longrightarrow> length out \<le> 255 * length b)"

lemma header_words_at:
  "offset + 16 \<le> length data \<Longrightarrow> header_words (drop offset data) =
     Some (word_at data offset, word_at data (offset + 4), word_at data (offset + 8), word_at data (offset + 12))"
  by (simp add: header_words_def word_at_def sub_slice_def add.commute)

lemma decode_frame_decode_rest:
  assumes "lz4_ratio lz4"
  shows "(case decode_frame crc32 lz4 data offset of Inl _ \<Rightarrow> None | Inr (f, out) \<Rightarrow> Some (out, fr_seq f, fr_end f - offset)) =
    decode_rest crc32 lz4 (drop offset data)"
proof (cases "offset + 16 \<le> length data")
  case True
  define raw_w where "raw_w = word_at data (offset + 4)"
  define comp_w where "comp_w = word_at data (offset + 8)"
  define stored where "stored = sub_slice data (offset + 16) (unat comp_w)"
  have sub: "sub_slice (drop offset data) 16 (unat comp_w) = stored"
    by (simp add: stored_def sub_slice_def add.commute)
  have le: "length data < offset + 16 + unat comp_w \<longleftrightarrow> length data - offset < 16 + unat comp_w" using True by linarith
  have zero: "raw_w = 0 \<longleftrightarrow> unat raw_w = 0" "comp_w = 0 \<longleftrightarrow> unat comp_w = 0" by (simp_all add: unat_eq_0)
  have less: "raw_w < comp_w \<longleftrightarrow> unat raw_w < unat comp_w" "comp_w < raw_w \<longleftrightarrow> unat comp_w < unat raw_w"
    by (simp_all add: word_less_nat_alt)
  have ratio: "length out = unat raw_w \<Longrightarrow> lz4 stored (unat raw_w) = Some out \<Longrightarrow>
      offset + 16 + unat comp_w \<le> length data \<Longrightarrow> \<not> unat comp_w * 255 < unat raw_w" for out
    using assms unfolding lz4_ratio_def by (fastforce simp: stored_def)
  note unf = decode_frame_def decode_rest_def Let_def header_words_at [OF True]
      raw_w_def [symmetric] comp_w_def [symmetric] HEADER_SIZE_def stored_def [symmetric] sub
  show ?thesis
  proof (cases "unat raw_w = 0 \<or> unat comp_w = 0 \<or> MAX_RAW_FRAME_SIZE < unat raw_w \<or> unat raw_w < unat comp_w \<or>
      length data < offset + 16 + unat comp_w")
    case bad: True
    then show ?thesis unfolding unf using True le zero less by auto
  next
    case ok: False
    show ?thesis
    proof (cases "unat comp_w < unat raw_w")
      case shorter: True
      show ?thesis
      proof (cases "lz4 stored (unat raw_w)")
        case None
        then show ?thesis unfolding unf using ok shorter True le zero less by (simp add: sub)
      next
        case (Some out)
        then show ?thesis
          unfolding unf using ok shorter True le zero less ratio [OF _ Some]
          by (cases "length out = unat raw_w"; cases "crc32 out = word_at data offset") (auto simp: fr_end_def sub)
      qed
    next
      case False
      then have "length stored = unat raw_w" using ok by (simp add: stored_def min_def, linarith)
      moreover have eq: "raw_w = comp_w" using False ok by (simp add: word_unat_eq_iff)
      moreover have "\<not> length data - offset < 16 + unat comp_w" "comp_w \<noteq> 0" using le ok zero by auto
      ultimately show ?thesis
        unfolding unf eq using ok True by (simp add: fr_end_def sub)
    qed
  qed
qed (simp add: decode_frame_def decode_rest_def header_words_def)

lemma word_zero_iff: "length bs = 4 \<Longrightarrow> (of_le_bytes bs :: u32) = 0 \<longleftrightarrow> (\<forall>b \<in> set bs. b = 0)"
proof -
  assume len: "length bs = 4"
  have "(of_le_bytes bs :: u32) = 0 \<longleftrightarrow> bs = replicate 4 0"
    using of_le_bytes_inj [where 'a = 32, of bs "replicate 4 0"] len by auto
  also have "\<dots> \<longleftrightarrow> (\<forall>b \<in> set bs. b = 0)" using len by (auto intro: replicate_eqI)
  finally show ?thesis .
qed

lemma scan_is_log_end_iff:
  assumes "offset + 16 \<le> length data"
  shows "scan_is_log_end data offset \<longleftrightarrow> is_log_end (drop offset data)"
proof -
  have word: "word_at data (offset + k) = 0 \<longleftrightarrow> (\<forall>b \<in> set (sub_slice data (offset + k) 4). b = 0)" if "k + 4 \<le> 16" for k
    unfolding word_at_def by (rule word_zero_iff) (use assms that in simp)
  have "take 16 xs = take 4 xs @ take 4 (drop 4 xs) @ take 4 (drop 8 xs) @ take 4 (drop 12 xs)" for xs :: "u8 list"
    using take_add [of 4 12 xs] take_add [of 4 8 "drop 4 xs"] take_add [of 4 4 "drop 8 xs"] by simp
  then have "sub_slice data offset 16 = sub_slice data (offset + 0) 4 @ sub_slice data (offset + 4) 4 @
      sub_slice data (offset + 8) 4 @ sub_slice data (offset + 12) 4"
    by (simp add: sub_slice_def add.commute)
  then have "(\<forall>b \<in> set (sub_slice data offset 16). b = 0) \<longleftrightarrow> word_at data offset = 0 \<and>
      word_at data (offset + 4) = 0 \<and> word_at data (offset + 8) = 0 \<and> word_at data (offset + 12) = 0"
    using word [of 0] word [of 4] word [of 8] word [of 12] by auto
  then show ?thesis
    using assms by (auto simp: scan_is_log_end_def is_log_end_def header_words_at)
qed

section \<open>The walks agree\<close>

lemma decode_frame_isl:
  assumes "lz4_ratio lz4"
  shows "isl (decode_frame crc32 lz4 data offset) \<longleftrightarrow> \<not> frame_checks_out crc32 lz4 data offset"
  using decode_frame_decode_rest [OF assms, where ?crc32.0 = crc32 and data = data and offset = offset, symmetric]
  by (auto simp: frame_checks_out_decode split: sum.splits)

lemma end_marker_iff:
  assumes "pos + 16 \<le> length data"
  shows "is_end_marker data pos \<longleftrightarrow>
    is_log_end (sub_slice data pos 16) \<and> sub_slice data (pos + 12) 4 = u32_le_bytes END_MARK"
proof -
  have "header_words (sub_slice data pos 16) = header_words (drop pos data)"
    by (rule header_words_prefix [where n = 16]) (simp_all add: sub_slice_def)
  then have log: "is_log_end (sub_slice data pos 16) = is_log_end (drop pos data)" by (simp add: is_log_end_def)
  have "word_at data (pos + 12) = END_MARK \<longleftrightarrow> sub_slice data (pos + 12) 4 = u32_le_bytes END_MARK"
    using of_le_bytes_inj [where 'a = 32, of "sub_slice data (pos + 12) 4" "u32_le_bytes END_MARK"] assms
    by (auto simp: word_at_def)
  then show ?thesis using scan_is_log_end_iff [OF assms] log by (simp add: is_end_marker_def)
qed

lemma scan_committed_after_eq:
  assumes "lz4_ratio lz4"
  shows "scan_committed_after crc32 lz4 data from inc = committed_after crc32 lz4 data from inc"
proof -
  have "(pos + 16 \<le> length data \<and> (inc \<and> is_end_marker data pos \<or> \<not> isl (decode_frame crc32 lz4 data pos))) \<longleftrightarrow>
      (pos + 16 \<le> length data \<and> (frame_checks_out crc32 lz4 data pos \<or>
        inc \<and> is_log_end (sub_slice data pos 16) \<and> sub_slice data (pos + 12) 4 = u32_le_bytes END_MARK))" for pos
    using decode_frame_isl [OF assms] end_marker_iff by auto
  then show ?thesis
    by (simp add: scan_committed_after_def committed_after_def cong: option.case_cong)
qed

definition damaged :: "SegmentEnd \<Rightarrow> bool" where
  "damaged e = (case e of Corrupt _ _ \<Rightarrow> True | _ \<Rightarrow> False)"

lemma committed_after_anti:
  assumes "committed_after crc32 lz4 data from False \<noteq> None" "from' \<le> from"
  shows "committed_after crc32 lz4 data from' True \<noteq> None"
proof (cases "last_nonzero data")
  case (Some l)
  obtain pos where pos: "pos \<in> set [from..<Suc (l - 15)]" "pos + 16 \<le> length data" "frame_checks_out crc32 lz4 data pos"
    using assms(1) Some by (auto simp: committed_after_def find_None_iff simp del: upt_Suc)
  have "pos \<in> set [from'..<Suc (l - 15)]" using pos(1) assms(2) by (auto simp del: upt_Suc)
  then show ?thesis using pos(2,3) Some by (auto simp: committed_after_def find_None_iff simp del: upt_Suc)
qed (use assms(1) in \<open>simp add: committed_after_def\<close>)

text \<open>One outcome of the walk of the engine and one of the verifier that belong together.\<close>

definition same_end :: "segment_error + usize \<times> u32 \<Rightarrow> SegmentScan \<Rightarrow> bool" where
  "same_end d sc \<longleftrightarrow>
     (case d of
        Inr (off, _) \<Rightarrow> end_offset sc = off \<and> \<not> damaged (seg_end sc)
      | Inl (CorruptSegment off _) \<Rightarrow> end_offset sc = off \<and> damaged (seg_end sc))"

lemma fault_agrees:
  assumes "lz4_ratio lz4"
  shows "same_end (recovery_fail crc32 lz4 data offset v) (fault crc32 lz4 data True fs offset reason)"
  by (auto simp: same_end_def recovery_fail_def fault_def Let_def scan_committed_after_eq [OF assms] damaged_def
      split: option.splits)

lemma scan_loop_agrees:
  assumes "lz4_ratio lz4"
  shows "same_end (discover_loop crc32 lz4 data offset v) (scan_loop crc32 lz4 data True fs offset)"
  using assms
proof (induction crc32 lz4 data offset v arbitrary: fs rule: discover_loop.induct)
  case (1 crc32 lz4 data offset v)
  show ?case
  proof (cases "offset + 16 \<le> length data")
    case False
    then have "header_words (drop offset data) = None" by (simp add: header_words_def)
    then show ?thesis
      using False by (subst discover_loop.simps, subst scan_loop.simps) (simp add: same_end_def damaged_def)
  next
    case True
    note h = header_words_at [OF True]
    have zero: "word_at data (offset + k) = 0 \<longleftrightarrow> unat (word_at data (offset + k)) = 0" for k
      by (simp add: unat_eq_0)
    note fail = fault_agrees [OF "1.prems", where offset = offset and v = v and fs = fs and data = data]
    show ?thesis
    proof (cases "unat (word_at data (offset + 4)) = 0 \<and> unat (word_at data (offset + 8)) = 0")
      case ends: True
      have sub: "is_log_end (sub_slice data offset 16) = is_log_end (drop offset data)"
        using header_words_prefix [of 16 "sub_slice data offset 16" "drop offset data"]
        by (simp add: is_log_end_def sub_slice_def)
      have ce: "scan_committed_after crc32 lz4 data (offset + 16) False = committed_after crc32 lz4 data (offset + 16) False"
        by (rule scan_committed_after_eq [OF "1.prems"])
      have words: "word_at data (offset + 4) = 0" "word_at data (offset + 8) = 0" using ends by (simp_all add: unat_eq_0)
      show ?thesis
      proof (cases "is_log_end (drop offset data)")
        case False
        then show ?thesis
          using True h ends words fail
          by (subst discover_loop.simps, subst scan_loop.simps) (simp add: sub scan_is_log_end_iff)
      next
        case log: True
        show ?thesis
        proof (cases "committed_after crc32 lz4 data (offset + 16) False")
          case None
          then show ?thesis
            using True h ends words log ce
            by (subst discover_loop.simps, subst scan_loop.simps)
              (simp add: sub scan_is_log_end_iff same_end_def damaged_def)
        next
          case (Some pos)
          then obtain nxt where "committed_after crc32 lz4 data (offset + 1) True = Some nxt"
            using committed_after_anti [of crc32 lz4 data "offset + 16" "offset + 1"] by auto
          then show ?thesis
            using True h ends words log ce Some
            by (subst discover_loop.simps, subst scan_loop.simps)
              (simp add: sub scan_is_log_end_iff same_end_def damaged_def recovery_fail_def)
        qed
      qed
    next
      case more: False
      then have words: "\<not> (word_at data (offset + 4) = 0 \<and> word_at data (offset + 8) = 0)" by (auto simp: unat_eq_0)
      show ?thesis
      proof (cases "decode_frame crc32 lz4 data offset")
        case (Inl reason)
        then have "\<not> frame_checks_out crc32 lz4 data offset"
          using decode_frame_isl [OF "1.prems", where ?crc32.0 = crc32 and data = data and offset = offset] by simp
        then have "discover_loop crc32 lz4 data offset v = recovery_fail crc32 lz4 data offset v"
          using h more by (subst discover_loop.simps) auto
        moreover have "scan_loop crc32 lz4 data True fs offset = fault crc32 lz4 data True fs offset reason"
          using True words Inl by (subst scan_loop.simps) auto
        ultimately show ?thesis using fail by simp
      next
        case (Inr fo)
        obtain f out where f: "decode_frame crc32 lz4 data offset = Inr (f, out)" using Inr by (cases fo) auto
        then have dec: "decode_rest crc32 lz4 (drop offset data) = Some (out, fr_seq f, fr_end f - offset)"
          using decode_frame_decode_rest [OF "1.prems", where ?crc32.0 = crc32 and data = data and offset = offset] by simp
        note l = decode_rest_lengths [OF h dec]
        have end_f: "offset + (16 + unat (word_at data (offset + 8))) = fr_end f"
          using l(2) decode_frame_bounds [OF f] by simp
        have fits: "\<not> length data < fr_end f" using decode_frame_bounds [OF f] by simp
        have checks: "frame_checks_out crc32 lz4 data offset" using dec by (simp add: frame_checks_out_decode)
        have "discover_loop crc32 lz4 data offset v = discover_loop crc32 lz4 data (fr_end f)
            (if v < word_at data (offset + 12) then word_at data (offset + 12) else v)"
          using discover_loop_step [OF dec, of v] decode_frame_bounds [OF f] l(1) by simp
        moreover have "scan_loop crc32 lz4 data True fs offset = scan_loop crc32 lz4 data True (fs @ [(f, out)]) (fr_end f)"
          using True words f by (subst scan_loop.simps) auto
        moreover have "same_end (discover_loop crc32 lz4 data (fr_end f)
            (if v < word_at data (offset + 12) then word_at data (offset + 12) else v))
            (scan_loop crc32 lz4 data True (fs @ [(f, out)]) (fr_end f))"
          using "1.IH" [OF h refl refl refl more _ _ _ "1.prems"] l fits end_f checks by simp
        ultimately show ?thesis by simp
      qed
    qed
  qed
qed

section \<open>Properties\<close>

text \<open>
  C4. The offline verifier and the engine agree on every byte string: the verifier reports the
  final segment as damaged exactly when recovery refuses to open it, at the same offset, and
  otherwise both end the log at the same offset.
\<close>

theorem scan_agrees_with_recovery:
  assumes "lz4_ratio lz4"
  shows "case discover_offset crc32 lz4 data of
      Inr (off, _) \<Rightarrow> end_offset (scan_segment crc32 lz4 data True) = off \<and>
        (\<forall>reason committed. seg_end (scan_segment crc32 lz4 data True) \<noteq> Corrupt reason committed)
    | Inl (CorruptSegment off _) \<Rightarrow> end_offset (scan_segment crc32 lz4 data True) = off \<and>
        (\<exists>reason committed. seg_end (scan_segment crc32 lz4 data True) = Corrupt reason committed)"
proof -
  have "damaged e \<longleftrightarrow> (\<exists>reason committed. e = Corrupt reason committed)" for e
    by (cases e) (auto simp: damaged_def)
  then show ?thesis
    using scan_loop_agrees [OF assms, where data = data and offset = 0 and v = 0 and fs = "[]" and ?crc32.0 = crc32]
    by (auto simp: same_end_def discover_offset_def scan_segment_def split: sum.splits segment_error.splits)
qed

theorem scan_agrees_with_recovery_witness:
  "case discover_offset (\<lambda>_. 5) (\<lambda>b n. Some b) [5,0,0,0, 1,0,0,0, 1,0,0,0, 0,0,0,0, 9] of
      Inr (off, _) \<Rightarrow> end_offset (scan_segment (\<lambda>_. 5) (\<lambda>b n. Some b) [5,0,0,0, 1,0,0,0, 1,0,0,0, 0,0,0,0, 9] True) = off \<and>
        (\<forall>reason committed. seg_end (scan_segment (\<lambda>_. 5) (\<lambda>b n. Some b) [5,0,0,0, 1,0,0,0, 1,0,0,0, 0,0,0,0, 9] True)
           \<noteq> Corrupt reason committed)
    | Inl (CorruptSegment off _) \<Rightarrow>
        end_offset (scan_segment (\<lambda>_. 5) (\<lambda>b n. Some b) [5,0,0,0, 1,0,0,0, 1,0,0,0, 0,0,0,0, 9] True) = off \<and>
        (\<exists>reason committed. seg_end (scan_segment (\<lambda>_. 5) (\<lambda>b n. Some b) [5,0,0,0, 1,0,0,0, 1,0,0,0, 0,0,0,0, 9] True)
           = Corrupt reason committed)"
  by (rule scan_agrees_with_recovery) (simp add: lz4_ratio_def)

end
