(* ===== verification/Jumbf.thy ===== *)
theory Jumbf
  imports Bytes
begin

text \<open>
  \<open>src/core/provenance/jumbf.rs\<close>: the JUMBF box codec of the provenance manifests.  JSON values
  are external (\<open>serde_json\<close>): \<open>'j\<close> is their type, \<open>to_vec\<close> their serializer and \<open>from_slice\<close>
  their parser.  A string is the list of its UTF-8 bytes.
\<close>

definition ascii :: "string \<Rightarrow> u8 list" where
  "ascii s = map (\<lambda>c. of_nat (of_char c)) s"

definition JUMBF_BOX_TYPE :: "u8 list" where "JUMBF_BOX_TYPE = ascii ''jumb''"
definition DESCRIPTION_BOX_TYPE :: "u8 list" where "DESCRIPTION_BOX_TYPE = ascii ''jumd''"
definition JSON_BOX_TYPE :: "u8 list" where "JSON_BOX_TYPE = ascii ''json''"
definition CBOR_BOX_TYPE :: "u8 list" where "CBOR_BOX_TYPE = ascii ''cbor''"
definition EMBEDDED_FILE_BOX_TYPE :: "u8 list" where "EMBEDDED_FILE_BOX_TYPE = ascii ''bfdb''"

definition C2PA_MANIFEST_UUID :: "u8 list" where
  "C2PA_MANIFEST_UUID = [0x63, 0x32, 0x70, 0x61, 0x00, 0x11, 0x00, 0x10, 0x80, 0x00, 0x00, 0xAA, 0x00, 0x38, 0x9B, 0x71]"

definition C2PA_ASSERTION_STORE_UUID :: "u8 list" where
  "C2PA_ASSERTION_STORE_UUID = [0x63, 0x32, 0x61, 0x73, 0x00, 0x11, 0x00, 0x10, 0x80, 0x00, 0x00, 0xAA, 0x00, 0x38, 0x9B, 0x71]"

record DescriptionBox =
  uuid :: "u8 list"
  label :: "u8 list"
  requestable :: "bool option"

datatype 'j BoxContent = Json 'j | Cbor "u8 list" | Binary "u8 list"

datatype 'j JumbfBox =
  JumbfBox (box_type: "u8 list") (description: "DescriptionBox option") (content: "'j BoxContent option")
    (children: "'j JumbfBox list")

datatype jumbf_error =
    BoxTooLong usize | JsonSerialization | JsonDecode | TooDeep | ShortHeader | BadLength usize
  | TruncatedInner usize | BadInnerLength usize usize | DescriptionNotFirst | AmbiguousContent
  | DescriptionTooShort | InvalidLabel | TrailingData usize usize

section \<open>Building boxes\<close>

definition superbox :: "u8 list \<Rightarrow> u8 list \<Rightarrow> 'j JumbfBox" where
  "superbox l u = JumbfBox JUMBF_BOX_TYPE (Some \<lparr>uuid = u, label = l, requestable = Some True\<rparr>) None []"

definition json_box :: "u8 list \<Rightarrow> 'j \<Rightarrow> 'j JumbfBox" where
  "json_box l v = JumbfBox JUMBF_BOX_TYPE (Some \<lparr>uuid = replicate 16 0, label = l, requestable = None\<rparr>) (Some (Json v)) []"

definition cbor_box :: "u8 list \<Rightarrow> u8 list \<Rightarrow> 'j JumbfBox" where
  "cbor_box l v = JumbfBox JUMBF_BOX_TYPE (Some \<lparr>uuid = replicate 16 0, label = l, requestable = None\<rparr>) (Some (Cbor v)) []"

fun add_child :: "'j JumbfBox \<Rightarrow> 'j JumbfBox \<Rightarrow> 'j JumbfBox" where
  "add_child (JumbfBox t d c cs) child = JumbfBox t d c (cs @ [child])"

fun find_by_label :: "u8 list \<Rightarrow> 'j JumbfBox \<Rightarrow> 'j JumbfBox option"
  and find_in_children :: "u8 list \<Rightarrow> 'j JumbfBox list \<Rightarrow> 'j JumbfBox option" where
  "find_by_label l (JumbfBox t d c cs) =
     (if (case d of Some desc \<Rightarrow> label desc = l | None \<Rightarrow> False) then Some (JumbfBox t d c cs)
      else find_in_children l cs)"
| "find_in_children l [] = None"
| "find_in_children l (b # bs) =
     (case find_by_label l b of Some found \<Rightarrow> Some found | None \<Rightarrow> find_in_children l bs)"

definition build_c2pa_manifest_box :: "u8 list \<Rightarrow> 'j \<Rightarrow> u8 list \<Rightarrow> (u8 list \<times> 'j) list \<Rightarrow> 'j JumbfBox" where
  "build_c2pa_manifest_box l claim_json signature_cbor assertions =
     (let assertion_store = foldl (\<lambda>b (al, av). add_child b (json_box al av))
            (superbox (ascii ''c2pa.assertions'') C2PA_ASSERTION_STORE_UUID) assertions
      in add_child (add_child (add_child (superbox l C2PA_MANIFEST_UUID) assertion_store)
           (json_box (ascii ''c2pa.claim'') claim_json)) (cbor_box (ascii ''c2pa.signature'') signature_cbor))"

section \<open>Encoding\<close>

definition u32_be_bytes :: "u32 \<Rightarrow> u8 list" where "u32_be_bytes w = rev (u32_le_bytes w)"
definition u32_of_be_bytes :: "u8 list \<Rightarrow> u32" where "u32_of_be_bytes bs = of_le_bytes (rev bs)"

definition box_len :: "usize \<Rightarrow> jumbf_error + u32" where
  "box_len payload = (if payload + 8 < 2 ^ 32 then Inr (of_nat (payload + 8)) else Inl (BoxTooLong payload))"

definition TOGGLE_REQUESTABLE :: u8 where "TOGGLE_REQUESTABLE = 1"
definition TOGGLE_LABEL :: u8 where "TOGGLE_LABEL = 2"

text \<open>A box is the length field, its type and its bytes; the length is patched in at the end.\<close>

definition framed :: "u8 list \<Rightarrow> u8 list \<Rightarrow> jumbf_error + u8 list" where
  "framed ty body =
     (case box_len (length body) of Inl e \<Rightarrow> Inl e | Inr n \<Rightarrow> Inr (u32_be_bytes n @ ty @ body))"

definition encode_description_box :: "DescriptionBox \<Rightarrow> jumbf_error + u8 list" where
  "encode_description_box desc =
     (let toggle = (if requestable desc = Some True then TOGGLE_LABEL OR TOGGLE_REQUESTABLE else TOGGLE_LABEL)
      in framed DESCRIPTION_BOX_TYPE (uuid desc @ [toggle] @ label desc @ [0]))"

definition encode_content :: "('j \<Rightarrow> u8 list option) \<Rightarrow> 'j BoxContent option \<Rightarrow> jumbf_error + u8 list" where
  "encode_content to_vec c =
     (case c of
        None \<Rightarrow> Inr []
      | Some (Json v) \<Rightarrow> (case to_vec v of None \<Rightarrow> Inl JsonSerialization | Some bs \<Rightarrow> framed JSON_BOX_TYPE bs)
      | Some (Cbor data) \<Rightarrow> framed CBOR_BOX_TYPE data
      | Some (Binary data) \<Rightarrow> framed EMBEDDED_FILE_BOX_TYPE data)"

text \<open>\<open>encode_box\<close> appends to a buffer; the model returns the appended bytes.\<close>

fun encode_box :: "('j \<Rightarrow> u8 list option) \<Rightarrow> 'j JumbfBox \<Rightarrow> jumbf_error + u8 list"
  and encode_children :: "('j \<Rightarrow> u8 list option) \<Rightarrow> 'j JumbfBox list \<Rightarrow> jumbf_error + u8 list" where
  "encode_box to_vec (JumbfBox t d c cs) =
     (case (case d of None \<Rightarrow> Inr [] | Some desc \<Rightarrow> encode_description_box desc) of
        Inl e \<Rightarrow> Inl e
      | Inr dbytes \<Rightarrow>
          (case encode_content to_vec c of
             Inl e \<Rightarrow> Inl e
           | Inr cbytes \<Rightarrow>
               (case encode_children to_vec cs of
                  Inl e \<Rightarrow> Inl e
                | Inr kbytes \<Rightarrow> framed t (dbytes @ cbytes @ kbytes))))"
| "encode_children to_vec [] = Inr []"
| "encode_children to_vec (b # bs) =
     (case encode_box to_vec b of
        Inl e \<Rightarrow> Inl e
      | Inr bbytes \<Rightarrow> (case encode_children to_vec bs of Inl e \<Rightarrow> Inl e | Inr kbytes \<Rightarrow> Inr (bbytes @ kbytes)))"

definition encode :: "('j \<Rightarrow> u8 list option) \<Rightarrow> 'j JumbfBox \<Rightarrow> jumbf_error + u8 list" where
  "encode to_vec b = encode_box to_vec b"

section \<open>Decoding\<close>

text \<open>UTF-8 well-formedness, the check of \<open>String::from_utf8\<close>.\<close>

definition continuation :: "u8 \<Rightarrow> bool" where
  "continuation b \<longleftrightarrow> 0x80 \<le> b \<and> b \<le> 0xBF"

fun valid_utf8 :: "u8 list \<Rightarrow> bool" where
  "valid_utf8 [] = True"
| "valid_utf8 (a # bs) =
     (if a < 0x80 then valid_utf8 bs
      else if 0xC2 \<le> a \<and> a \<le> 0xDF then
        (case bs of b # r \<Rightarrow> continuation b \<and> valid_utf8 r | _ \<Rightarrow> False)
      else if 0xE0 \<le> a \<and> a \<le> 0xEF then
        (case bs of b # c # r \<Rightarrow>
           (if a = 0xE0 then 0xA0 \<le> b \<and> b \<le> 0xBF else if a = 0xED then 0x80 \<le> b \<and> b \<le> 0x9F else continuation b) \<and>
           continuation c \<and> valid_utf8 r
         | _ \<Rightarrow> False)
      else if 0xF0 \<le> a \<and> a \<le> 0xF4 then
        (case bs of b # c # d # r \<Rightarrow>
           (if a = 0xF0 then 0x90 \<le> b \<and> b \<le> 0xBF else if a = 0xF4 then 0x80 \<le> b \<and> b \<le> 0x8F else continuation b) \<and>
           continuation c \<and> continuation d \<and> valid_utf8 r
         | _ \<Rightarrow> False)
      else False)"

definition decode_description_box :: "u8 list \<Rightarrow> jumbf_error + DescriptionBox" where
  "decode_description_box data =
     (if length data < 17 then Inl DescriptionTooShort
      else
        let u = take 16 data;
            toggle = data ! 16;
            req = Some (toggle AND TOGGLE_REQUESTABLE \<noteq> 0)
        in if toggle AND TOGGLE_LABEL = 0 \<and> (toggle \<noteq> 0 \<or> length data = 17)
           then Inr \<lparr>uuid = u, label = [], requestable = req\<rparr>
           else
             let l = takeWhile (\<lambda>b. b \<noteq> 0) (drop 17 data)
             in if valid_utf8 l then Inr \<lparr>uuid = u, label = l, requestable = req\<rparr> else Inl InvalidLabel)"

definition MAX_JUMBF_DEPTH :: usize where "MAX_JUMBF_DEPTH = 64"

function decode_box_depth :: "(u8 list \<Rightarrow> 'j option) \<Rightarrow> u8 list \<Rightarrow> usize \<Rightarrow> jumbf_error + 'j JumbfBox \<times> usize"
  and decode_inner :: "(u8 list \<Rightarrow> 'j option) \<Rightarrow> u8 list \<Rightarrow> usize \<Rightarrow> usize \<Rightarrow> DescriptionBox option
    \<Rightarrow> 'j BoxContent option \<Rightarrow> 'j JumbfBox list
    \<Rightarrow> jumbf_error + DescriptionBox option \<times> 'j BoxContent option \<times> 'j JumbfBox list" where
  "decode_box_depth from_slice data depth =
     (if MAX_JUMBF_DEPTH < depth then Inl TooDeep
      else if length data < 8 then Inl ShortHeader
      else
        let n = unat (u32_of_be_bytes (sub_slice data 0 4))
        in if n < 8 \<or> length data < n then Inl (BadLength n)
           else (case decode_inner from_slice (sub_slice data 8 (n - 8)) 0 depth None None [] of
                   Inl e \<Rightarrow> Inl e
                 | Inr (d, c, cs) \<Rightarrow> Inr (JumbfBox (sub_slice data 4 4) d c cs, n)))"
| "decode_inner from_slice box_data offset depth d c cs =
     (if \<not> offset < length box_data then Inr (d, c, cs)
      else if length box_data - offset < 8 then Inl (TruncatedInner offset)
      else
        let n = unat (u32_of_be_bytes (sub_slice box_data offset 4));
            ty = sub_slice box_data (offset + 4) 4;
            inner_data = sub_slice box_data (offset + 8) (n - 8)
        in if n < 8 \<or> length box_data - offset < n then Inl (BadInnerLength n offset)
           else if ty = DESCRIPTION_BOX_TYPE then
             if offset \<noteq> 0 then Inl DescriptionNotFirst
             else (case decode_description_box inner_data of
                     Inl e \<Rightarrow> Inl e
                   | Inr desc \<Rightarrow> decode_inner from_slice box_data (offset + n) depth (Some desc) c cs)
           else if (ty = JSON_BOX_TYPE \<or> ty = CBOR_BOX_TYPE) \<and>
                   (case c of Some (Json _) \<Rightarrow> True | Some (Cbor _) \<Rightarrow> True | _ \<Rightarrow> False)
           then Inl AmbiguousContent
           else if ty = JSON_BOX_TYPE then
             (case from_slice inner_data of
                None \<Rightarrow> Inl JsonDecode
              | Some v \<Rightarrow> decode_inner from_slice box_data (offset + n) depth d (Some (Json v)) cs)
           else if ty = CBOR_BOX_TYPE then
             decode_inner from_slice box_data (offset + n) depth d (Some (Cbor inner_data)) cs
           else if ty = JUMBF_BOX_TYPE then
             (case decode_box_depth from_slice (drop offset box_data) (depth + 1) of
                Inl e \<Rightarrow> Inl e
              | Inr (child, _) \<Rightarrow> decode_inner from_slice box_data (offset + n) depth d c (cs @ [child]))
           else decode_inner from_slice box_data (offset + n) depth d (Some (Binary inner_data)) cs)"
  by pat_completeness auto
termination
  by (relation "measure (\<lambda>x. case x of
        Inl (f, data, depth) \<Rightarrow> 2 * length data
      | Inr (f, box_data, offset, depth, d, c, cs) \<Rightarrow> 2 * (length box_data - offset) + 1)")
    (auto simp: min_def)

declare decode_box_depth.simps [simp del] decode_inner.simps [simp del]

definition decode_box :: "(u8 list \<Rightarrow> 'j option) \<Rightarrow> u8 list \<Rightarrow> jumbf_error + 'j JumbfBox \<times> usize" where
  "decode_box from_slice data = decode_box_depth from_slice data 0"

definition decode :: "(u8 list \<Rightarrow> 'j option) \<Rightarrow> u8 list \<Rightarrow> jumbf_error + 'j JumbfBox" where
  "decode from_slice data =
     (case decode_box from_slice data of
        Inl e \<Rightarrow> Inl e
      | Inr (b, consumed) \<Rightarrow> if consumed \<noteq> length data then Inl (TrailingData consumed (length data)) else Inr b)"

section \<open>Well-formed boxes\<close>

text \<open>The values the source's types allow (four type bytes, sixteen uuid bytes, a UTF-8 label),
  labels without a zero byte, superboxes as children and nesting within the decoder's limit.\<close>

definition description_ok :: "DescriptionBox \<Rightarrow> bool" where
  "description_ok desc \<longleftrightarrow> length (uuid desc) = 16 \<and> valid_utf8 (label desc) \<and> 0 \<notin> set (label desc)"

fun box_ok :: "usize \<Rightarrow> 'j JumbfBox \<Rightarrow> bool" and boxes_ok :: "usize \<Rightarrow> 'j JumbfBox list \<Rightarrow> bool" where
  "box_ok depth (JumbfBox t d c cs) \<longleftrightarrow>
     depth \<le> MAX_JUMBF_DEPTH \<and> length t = 4 \<and> (case d of None \<Rightarrow> True | Some desc \<Rightarrow> description_ok desc) \<and>
     boxes_ok (depth + 1) cs"
| "boxes_ok depth [] \<longleftrightarrow> True"
| "boxes_ok depth (b # bs) \<longleftrightarrow> box_type b = JUMBF_BOX_TYPE \<and> box_ok depth b \<and> boxes_ok depth bs"

text \<open>Encoding keeps one bit of \<open>requestable\<close>: an absent flag is read back as false.\<close>

definition norm_description :: "DescriptionBox \<Rightarrow> DescriptionBox" where
  "norm_description desc = desc\<lparr>requestable := Some (requestable desc = Some True)\<rparr>"

fun norm_box :: "'j JumbfBox \<Rightarrow> 'j JumbfBox" where
  "norm_box (JumbfBox t d c cs) = JumbfBox t (map_option norm_description d) c (map norm_box cs)"

fun stated :: "'j JumbfBox \<Rightarrow> bool" where
  "stated (JumbfBox t d c cs) \<longleftrightarrow> (case d of None \<Rightarrow> True | Some desc \<Rightarrow> requestable desc \<noteq> None) \<and> list_all stated cs"

lemma norm_box_stated: "stated b \<Longrightarrow> norm_box b = b"
proof (induction b rule: norm_box.induct)
  case (1 t d c cs)
  have "map norm_box cs = cs" using 1 by (intro map_idI) (auto simp: list_all_iff)
  moreover have "map_option norm_description d = d"
    using "1.prems" by (cases d) (auto simp: norm_description_def)
  ultimately show ?case by simp
qed

lemma encode_norm: "encode_box to_vec (norm_box b) = encode_box to_vec b"
proof (induction b)
  case (JumbfBox t d c cs)
  have "encode_children to_vec (map norm_box cs) = encode_children to_vec cs"
    using JumbfBox by (induction cs) (auto split: sum.splits)
  moreover have "encode_description_box (norm_description desc) = encode_description_box desc" for desc
    by (simp add: encode_description_box_def norm_description_def)
  ultimately show ?case by (cases d) (auto split: sum.split)
qed

lemma find_norm: "find_by_label l (norm_box b) = map_option norm_box (find_by_label l b)"
proof (induction b)
  case (JumbfBox t d c cs)
  have "find_in_children l (map norm_box cs) = map_option norm_box (find_in_children l cs)"
    using JumbfBox by (induction cs) (auto split: option.splits)
  then show ?case by (cases d) (auto simp: norm_description_def)
qed

lemmas box_types = JUMBF_BOX_TYPE_def DESCRIPTION_BOX_TYPE_def JSON_BOX_TYPE_def CBOR_BOX_TYPE_def
  EMBEDDED_FILE_BOX_TYPE_def ascii_def

lemma length_u32_be_bytes [simp]: "length (u32_be_bytes w) = 4"
  by (simp add: u32_be_bytes_def)

lemma u32_be_roundtrip [simp]: "u32_of_be_bytes (u32_be_bytes w) = w"
  by (simp add: u32_be_bytes_def u32_of_be_bytes_def)

lemma framed_ok:
  assumes "framed ty body = Inr bs"
  shows "bs = u32_be_bytes (of_nat (length body + 8)) @ ty @ body"
    "unat (of_nat (length body + 8) :: u32) = length body + 8"
proof -
  have small: "length body + 8 < 2 ^ 32" using assms by (auto simp: framed_def box_len_def split: if_splits)
  show "bs = u32_be_bytes (of_nat (length body + 8)) @ ty @ body"
    using assms small by (simp add: framed_def box_len_def)
  have "unat (of_nat (length body + 8) :: u32) = (length body + 8) mod 2 ^ 32"
    by (subst unat_of_nat) simp
  also have "\<dots> = length body + 8" using small by (rule mod_less)
  finally show "unat (of_nat (length body + 8) :: u32) = length body + 8" .
qed

text \<open>What the decoder reads from an inner box that stands at an offset.\<close>

lemma inner_header:
  assumes "framed ty body = Inr bs" "length ty = 4" "drop offset bd = bs @ rest"
  shows "offset < length bd" "\<not> length bd - offset < 8"
    "unat (u32_of_be_bytes (sub_slice bd offset 4)) = length bs" "sub_slice bd (offset + 4) 4 = ty"
    "sub_slice bd (offset + 8) (length bs - 8) = body" "8 \<le> length bs" "\<not> length bd - offset < length bs"
    "drop (offset + length bs) bd = rest"
proof -
  note f = framed_ok [OF assms(1)]
  have len: "length bs = length body + 8" using f(1) assms(2) by simp
  have "length bd - offset = length bs + length rest" using arg_cong [OF assms(3), of length] by simp
  then show "offset < length bd" "\<not> length bd - offset < 8" "8 \<le> length bs" "\<not> length bd - offset < length bs"
    using len by auto
  show "unat (u32_of_be_bytes (sub_slice bd offset 4)) = length bs"
    unfolding sub_slice_def assms(3) using f len by simp
  have d: "drop (offset + k) bd = drop k (bs @ rest)" for k
    using assms(3) by (metis add.commute drop_drop)
  show "sub_slice bd (offset + 4) 4 = ty"
    unfolding sub_slice_def d using assms(2) f(1) by simp
  show "sub_slice bd (offset + 8) (length bs - 8) = body"
    unfolding sub_slice_def d using assms(2) f(1) len by simp
  show "drop (offset + length bs) bd = rest" using assms(3) by (metis append_eq_conv_conj add.commute drop_drop)
qed

lemma decode_inner_end: "drop offset bd = [] \<Longrightarrow> decode_inner from_slice bd offset depth d c cs = Inr (d, c, cs)"
  by (subst decode_inner.simps) simp

lemma decode_description_roundtrip:
  assumes "description_ok desc" "encode_description_box desc = Inr bs" "drop 0 bd = bs @ rest"
  shows "decode_inner from_slice bd 0 depth None c cs =
    decode_inner from_slice bd (length bs) depth (Some (norm_description desc)) c cs"
proof -
  define toggle where "toggle = (if requestable desc = Some True then TOGGLE_LABEL OR TOGGLE_REQUESTABLE else TOGGLE_LABEL)"
  define body where "body = uuid desc @ [toggle] @ label desc @ [0]"
  have fr: "framed DESCRIPTION_BOX_TYPE body = Inr bs"
    using assms(2) by (simp add: encode_description_box_def Let_def body_def toggle_def)
  have ty: "length DESCRIPTION_BOX_TYPE = 4" by (simp add: box_types)
  note h = inner_header [OF fr ty assms(3)]
  have bits: "toggle AND TOGGLE_LABEL \<noteq> 0" "(toggle AND TOGGLE_REQUESTABLE \<noteq> 0) = (requestable desc = Some True)"
    by (simp_all add: toggle_def TOGGLE_LABEL_def TOGGLE_REQUESTABLE_def)
  have "takeWhile (\<lambda>b. b \<noteq> 0) (label desc @ [0]) = label desc"
    using assms(1) by (auto simp: description_ok_def takeWhile_append)
  then have "decode_description_box body = Inr (norm_description desc)"
    using assms(1) bits
    by (simp add: decode_description_box_def body_def description_ok_def Let_def nth_append norm_description_def)
  then show ?thesis using h by (subst decode_inner.simps) (simp add: Let_def)
qed

lemma decode_content_roundtrip:
  assumes "\<And>v bs. to_vec v = Some bs \<Longrightarrow> from_slice bs = Some v"
    "encode_content to_vec c = Inr bs" "drop offset bd = bs @ rest"
  shows "decode_inner from_slice bd offset depth d None cs = decode_inner from_slice bd (offset + length bs) depth d c cs"
proof (cases c)
  case None
  then show ?thesis using assms(2) by (simp add: encode_content_def)
next
  case (Some x)
  obtain ty body where fr: "framed ty body = Inr bs" and ty: "length ty = 4"
    and x: "x = Json (the (from_slice body)) \<and> from_slice body \<noteq> None \<and> ty = JSON_BOX_TYPE \<or>
      x = Cbor body \<and> ty = CBOR_BOX_TYPE \<or> x = Binary body \<and> ty = EMBEDDED_FILE_BOX_TYPE"
    using assms(1,2) Some
    by (cases x) (auto simp: encode_content_def box_types split: option.splits)
  note h = inner_header [OF fr ty assms(3)]
  from x show ?thesis
    using h Some by (subst decode_inner.simps) (auto simp: Let_def box_types)
qed

lemma encode_box_framed: "encode_box to_vec b = Inr bs \<Longrightarrow> \<exists>body. framed (box_type b) body = Inr bs"
  by (cases b) (auto split: sum.splits)

lemma jumbf_type_distinct:
  "JUMBF_BOX_TYPE \<noteq> DESCRIPTION_BOX_TYPE" "JUMBF_BOX_TYPE \<noteq> JSON_BOX_TYPE" "JUMBF_BOX_TYPE \<noteq> CBOR_BOX_TYPE"
  "length JUMBF_BOX_TYPE = 4"
  by (simp_all add: box_types)

lemma decode_roundtrip_mutual:
  assumes "\<And>v bs. to_vec v = Some bs \<Longrightarrow> from_slice bs = Some v"
  shows "encode_box to_vec b = Inr bs \<Longrightarrow> box_ok depth b \<Longrightarrow>
      decode_box_depth from_slice (bs @ rest) depth = Inr (norm_box b, length bs)"
    and "encode_children to_vec bs' = Inr kb \<Longrightarrow> boxes_ok (depth + 1) bs' \<Longrightarrow> drop offset bd = kb \<Longrightarrow>
      decode_inner from_slice bd offset depth d c cs = Inr (d, c, cs @ map norm_box bs')"
  using assms
proof (induction to_vec b and to_vec bs' arbitrary: bs depth rest and kb depth offset bd d c cs
    rule: encode_box_encode_children.induct)
  case (1 to_vec t d c kids)
  obtain db cb kb where parts: "(case d of None \<Rightarrow> Inr [] | Some desc \<Rightarrow> encode_description_box desc) = Inr db"
    "encode_content to_vec c = Inr cb" "encode_children to_vec kids = Inr kb" and fr: "framed t (db @ cb @ kb) = Inr bs"
    using "1.prems"(1) by (auto split: sum.splits)
  have ok: "depth \<le> MAX_JUMBF_DEPTH" "length t = 4" "case d of None \<Rightarrow> True | Some desc \<Rightarrow> description_ok desc"
    "boxes_ok (depth + 1) kids" using "1.prems"(2) by auto
  note h = inner_header [OF fr ok(2), of 0 "bs @ rest" rest]
  let ?bd = "db @ cb @ kb"
  have d_step: "decode_inner from_slice ?bd 0 depth None None [] =
      decode_inner from_slice ?bd (length db) depth (map_option norm_description d) None []"
  proof (cases d)
    case (Some desc)
    then show ?thesis
      using decode_description_roundtrip [of desc db ?bd "cb @ kb"] parts(1) ok(3) by simp
  qed (use parts(1) in simp)
  have c_step: "decode_inner from_slice ?bd (length db) depth (map_option norm_description d) None [] =
      decode_inner from_slice ?bd (length db + length cb) depth (map_option norm_description d) c []"
    by (rule decode_content_roundtrip [where rest = kb, OF "1.prems"(3) parts(2)]) simp_all
  have k_step: "decode_inner from_slice ?bd (length db + length cb) depth (map_option norm_description d) c [] =
      Inr (map_option norm_description d, c, [] @ map norm_box kids)"
    by (rule "1.IH" [OF parts(1-3) ok(4) _ "1.prems"(3)]) simp_all
  show ?case
    using h ok(1,2) d_step c_step k_step by (subst decode_box_depth.simps) (simp add: Let_def)
next
  case (2 to_vec)
  then show ?case by (simp add: decode_inner_end)
next
  case (3 to_vec b bs)
  obtain bb kb' where parts: "encode_box to_vec b = Inr bb" "encode_children to_vec bs = Inr kb'" "kb = bb @ kb'"
    using "3.prems"(1) by (auto split: sum.splits)
  have ok: "box_type b = JUMBF_BOX_TYPE" "box_ok (depth + 1) b" "boxes_ok (depth + 1) bs" using "3.prems"(2) by auto
  obtain body where fr: "framed JUMBF_BOX_TYPE body = Inr bb" using encode_box_framed [OF parts(1)] ok(1) by auto
  have at_off: "drop offset bd = bb @ kb'" using "3.prems"(3) parts(3) by simp
  note h = inner_header [OF fr jumbf_type_distinct(4) at_off]
  have child: "decode_box_depth from_slice (drop offset bd) (depth + 1) = Inr (norm_box b, length bb)"
    unfolding at_off by (rule "3.IH"(1) [OF parts(1) ok(2) "3.prems"(4)])
  have rest: "decode_inner from_slice bd (offset + length bb) depth d c (cs @ [norm_box b]) =
      Inr (d, c, (cs @ [norm_box b]) @ map norm_box bs)"
    by (rule "3.IH"(2) [OF parts(1) parts(2) ok(3) h(8) "3.prems"(4)])
  show ?case
    using h jumbf_type_distinct child rest by (subst decode_inner.simps) (simp add: Let_def)
qed

lemma foldl_add_child:
  "foldl (\<lambda>b (al, av). add_child b (json_box al av)) (JumbfBox t d c cs) assertions =
     JumbfBox t d c (cs @ map (\<lambda>(al, av). json_box al av) assertions)"
  by (induction assertions arbitrary: cs) (auto simp: case_prod_beta)

lemma find_by_label_leaf [simp]:
  "find_by_label l (json_box al v) = (if al = l then Some (json_box al v) else None)"
  "find_by_label l (cbor_box al cv) = (if al = l then Some (cbor_box al cv) else None)"
  by (simp_all add: json_box_def cbor_box_def)

lemma find_in_assertions:
  "l \<notin> fst ` set assertions \<Longrightarrow> find_in_children l (map (\<lambda>(al, av). json_box al av) assertions) = None"
  by (induction assertions) (auto simp: case_prod_beta)

section \<open>Properties\<close>

text \<open>
  C39. The box codec, for every JSON serializer whose output its parser reads back: decoding the encoding of a
  well-formed hierarchy gives the hierarchy back, except that a description without a \<open>requestable\<close> flag (as
  \<open>json_box\<close> and \<open>cbor_box\<close> make them) comes back with the flag false, the one bit the format has for it.  So a
  hierarchy whose descriptions all state the flag comes back unchanged; in any case the result encodes to the same
  bytes, and looking up a label in it finds what it finds in the original.
\<close>

theorem jumbf_roundtrip:
  assumes "\<And>v bs. to_vec v = Some bs \<Longrightarrow> from_slice bs = Some v" "box_ok 0 b" "encode to_vec b = Inr bs"
  shows "decode from_slice bs = Inr (norm_box b) \<and> (stated b \<longrightarrow> decode from_slice bs = Inr b) \<and>
    encode to_vec (norm_box b) = Inr bs \<and> (\<forall>l. find_by_label l (norm_box b) = map_option norm_box (find_by_label l b))"
proof -
  have "decode from_slice bs = Inr (norm_box b)"
    using decode_roundtrip_mutual(1) [where to_vec = to_vec and from_slice = from_slice, OF assms(1), of b bs 0 "[]"] assms(2,3)
    by (simp add: decode_def decode_box_def encode_def)
  then show ?thesis using norm_box_stated [of b] assms(3) by (simp add: encode_def encode_norm find_norm)
qed

theorem jumbf_roundtrip_witness:
  "\<exists>bs. encode (\<lambda>v. Some [v]) (build_c2pa_manifest_box [97] 7 [1, 2] [([98], 5)]) = Inr bs \<and>
     decode (\<lambda>bs. if length bs = 1 then Some (hd bs) else None) bs =
       Inr (norm_box (build_c2pa_manifest_box [97] 7 [1, 2] [([98], 5 :: u8)]))"
proof -
  let ?b = "build_c2pa_manifest_box [97] 7 [1, 2] [([98], 5 :: u8)]"
  note defs = build_c2pa_manifest_box_def superbox_def json_box_def cbor_box_def box_types
    C2PA_MANIFEST_UUID_def C2PA_ASSERTION_STORE_UUID_def
  have "\<exists>bs. encode (\<lambda>v. Some [v]) ?b = Inr bs"
    by (simp add: encode_def defs encode_description_box_def encode_content_def framed_def box_len_def)
  then obtain bs where bs: "encode (\<lambda>v. Some [v]) ?b = Inr bs" by blast
  have "box_ok 0 ?b" by (simp add: defs description_ok_def MAX_JUMBF_DEPTH_def)
  from jumbf_roundtrip [OF _ this bs, of "\<lambda>bs. if length bs = 1 then Some (hd bs) else None"] bs
  show ?thesis by auto
qed

text \<open>
  In a C2PA manifest whose own label and assertion labels are not reserved, the lookup of
  \<open>c2pa.claim\<close> and \<open>c2pa.signature\<close> finds the claim and the signature that were put in.
\<close>

theorem manifest_lookup:
  assumes "l \<notin> {ascii ''c2pa.claim'', ascii ''c2pa.signature'', ascii ''c2pa.assertions''}"
    "ascii ''c2pa.claim'' \<notin> fst ` set assertions" "ascii ''c2pa.signature'' \<notin> fst ` set assertions"
  shows "find_by_label (ascii ''c2pa.claim'') (build_c2pa_manifest_box l claim signature assertions) =
      Some (json_box (ascii ''c2pa.claim'') claim) \<and>
    find_by_label (ascii ''c2pa.signature'') (build_c2pa_manifest_box l claim signature assertions) =
      Some (cbor_box (ascii ''c2pa.signature'') signature)"
proof -
  have labels: "ascii ''c2pa.assertions'' \<noteq> ascii ''c2pa.claim''" "ascii ''c2pa.assertions'' \<noteq> ascii ''c2pa.signature''"
    "ascii ''c2pa.claim'' \<noteq> ascii ''c2pa.signature''"
    by (simp_all add: ascii_def)
  show ?thesis
    using assms labels find_in_assertions [OF assms(2)] find_in_assertions [OF assms(3)]
    by (simp add: build_c2pa_manifest_box_def superbox_def foldl_add_child)
qed

theorem manifest_lookup_witness:
  "find_by_label (ascii ''c2pa.claim'') (build_c2pa_manifest_box (ascii ''urn'') (7 :: nat) [1] [(ascii ''a'', 8)]) =
     Some (json_box (ascii ''c2pa.claim'') 7)"
  using manifest_lookup [of "ascii ''urn''" "[(ascii ''a'', 8 :: nat)]" 7 "[1]"] by (simp add: ascii_def)

end
