(* ===== verification/MutationGate.thy ===== *)
theory MutationGate
  imports Prelude
begin

text \<open>
  \<open>src/core/engine/mutation_gate.rs\<close>: the gate that orders the writers of the engine.  Writers and
  maintenance take tickets in a queue under a mutex and wait on a condition variable until they
  are served; a transaction then takes a readers-writer lock to publish.  Threads interleave:
  the model is a step relation over the queue counters, the lock and the state of every thread.
  Waking up and re-checking are separate steps, and wake-ups may be spurious.
\<close>

section \<open>The queue\<close>

record WriterState =
  nxt :: u64
  serving :: u64

text \<open>\<open>acquire\<close> under the mutex: the ticket and the new state, or the \<open>expect\<close> panics.\<close>

definition take_ticket :: "WriterState \<Rightarrow> (u64 \<times> WriterState) option" where
  "take_ticket w = (if nxt w = - 1 then None else Some (nxt w, w\<lparr>nxt := nxt w + 1\<rparr>))"

definition release_ticket :: "WriterState \<Rightarrow> WriterState option" where
  "release_ticket w = (if serving w = - 1 then None else Some (w\<lparr>serving := serving w + 1\<rparr>))"

section \<open>Threads\<close>

datatype lease_kind = TransactionLease | MaintenanceLease

datatype thread_state =
    Idle
  | Checking lease_kind u64
  | Asleep lease_kind u64
  | Leased lease_kind u64
  | Publishing u64
  | Dropping u64
  | Released
  | Reading
  | Panicked

datatype rw_lock = Unlocked | ReadLocked nat | WriteLocked

record MutationGate =
  writers :: WriterState
  readers :: rw_lock
  threads :: "nat \<Rightarrow> thread_state"

text \<open>\<open>notify_all\<close>: every sleeping thread goes back to checking its ticket.\<close>

definition wake :: "thread_state \<Rightarrow> thread_state" where
  "wake s = (case s of Asleep k t \<Rightarrow> Checking k t | _ \<Rightarrow> s)"

definition gate_init :: MutationGate where
  "gate_init = \<lparr>writers = \<lparr>nxt = 0, serving = 0\<rparr>, readers = Unlocked, threads = (\<lambda>_. Idle)\<rparr>"

definition set_thread :: "MutationGate \<Rightarrow> nat \<Rightarrow> thread_state \<Rightarrow> MutationGate" where
  "set_thread g i s = g\<lparr>threads := (threads g)(i := s)\<rparr>"

text \<open>\<open>release\<close> of a held lease by thread \<open>i\<close>, which goes on to state \<open>s\<close>.\<close>

definition release_lease :: "MutationGate \<Rightarrow> nat \<Rightarrow> thread_state \<Rightarrow> MutationGate" where
  "release_lease g i s =
     (case release_ticket (writers g) of
        None \<Rightarrow> set_thread g i Panicked
      | Some w \<Rightarrow> g\<lparr>writers := w, threads := (wake \<circ> threads g)(i := s)\<rparr>)"

inductive gate_step :: "MutationGate \<Rightarrow> MutationGate \<Rightarrow> bool" where
  acquire: "threads g i = Idle \<Longrightarrow> take_ticket (writers g) = Some (t, w) \<Longrightarrow>
    gate_step g (set_thread (g\<lparr>writers := w\<rparr>) i (Checking k t))"
| acquire_panics: "threads g i = Idle \<Longrightarrow> take_ticket (writers g) = None \<Longrightarrow>
    gate_step g (set_thread g i Panicked)"
| enter: "threads g i = Checking k t \<Longrightarrow> serving (writers g) = t \<Longrightarrow>
    gate_step g (set_thread g i (Leased k t))"
| sleep: "threads g i = Checking k t \<Longrightarrow> serving (writers g) \<noteq> t \<Longrightarrow>
    gate_step g (set_thread g i (Asleep k t))"
| spurious: "threads g i = Asleep k t \<Longrightarrow> gate_step g (set_thread g i (Checking k t))"
| publish: "threads g i = Leased TransactionLease t \<Longrightarrow> readers g = Unlocked \<Longrightarrow>
    gate_step g (set_thread (g\<lparr>readers := WriteLocked\<rparr>) i (Publishing t))"
| unlock: "threads g i = Publishing t \<Longrightarrow>
    gate_step g (set_thread (g\<lparr>readers := Unlocked\<rparr>) i (Dropping t))"
| drop_guard: "threads g i = Dropping t \<Longrightarrow> gate_step g (release_lease g i Idle)"
| drop_lease: "threads g i = Leased k t \<Longrightarrow> gate_step g (release_lease g i Idle)"
| release: "threads g i = Leased MaintenanceLease t \<Longrightarrow> gate_step g (release_lease g i Released)"
| drop_released: "threads g i = Released \<Longrightarrow> gate_step g (set_thread g i Idle)"
| read_first: "threads g i = Idle \<Longrightarrow> readers g = Unlocked \<Longrightarrow>
    gate_step g (set_thread (g\<lparr>readers := ReadLocked 1\<rparr>) i Reading)"
| read_more: "threads g i = Idle \<Longrightarrow> readers g = ReadLocked n \<Longrightarrow>
    gate_step g (set_thread (g\<lparr>readers := ReadLocked (n + 1)\<rparr>) i Reading)"
| read_done: "threads g i = Reading \<Longrightarrow> readers g = ReadLocked n \<Longrightarrow>
    gate_step g (set_thread (g\<lparr>readers := (if n = 1 then Unlocked else ReadLocked (n - 1))\<rparr>) i Idle)"

inductive_cases gate_stepE: "gate_step g g'"

section \<open>Transition systems\<close>

text \<open>An inductive invariant of a step relation holds in every reachable state.\<close>

locale transition_system =
  fixes init :: 's and step :: "'s \<Rightarrow> 's \<Rightarrow> bool" and inv :: "'s \<Rightarrow> bool"
  assumes init_inv: "inv init"
    and step_inv: "step s s' \<Longrightarrow> inv s \<Longrightarrow> inv s'"
begin

lemma reachable_inv: "step\<^sup>*\<^sup>* init s \<Longrightarrow> inv s"
  by (induction rule: rtranclp_induct) (auto simp: init_inv intro: step_inv)

end

section \<open>The invariant\<close>

fun ticket_of :: "thread_state \<Rightarrow> u64 option" where
  "ticket_of (Checking k t) = Some t"
| "ticket_of (Asleep k t) = Some t"
| "ticket_of (Leased k t) = Some t"
| "ticket_of (Publishing t) = Some t"
| "ticket_of (Dropping t) = Some t"
| "ticket_of _ = None"

fun holds_lease :: "thread_state \<Rightarrow> bool" where
  "holds_lease (Leased k t) = True"
| "holds_lease (Publishing t) = True"
| "holds_lease (Dropping t) = True"
| "holds_lease _ = False"

definition tickets_ok :: "MutationGate \<Rightarrow> bool" where
  "tickets_ok g \<longleftrightarrow>
     serving (writers g) \<le> nxt (writers g) \<and>
     (\<forall>i t. ticket_of (threads g i) = Some t \<longrightarrow> serving (writers g) \<le> t \<and> t < nxt (writers g)) \<and>
     (\<forall>i j t. ticket_of (threads g i) = Some t \<longrightarrow> ticket_of (threads g j) = Some t \<longrightarrow> i = j) \<and>
     (\<forall>t. serving (writers g) \<le> t \<longrightarrow> t < nxt (writers g) \<longrightarrow> (\<exists>i. ticket_of (threads g i) = Some t)) \<and>
     (\<forall>i. holds_lease (threads g i) \<longrightarrow> ticket_of (threads g i) = Some (serving (writers g))) \<and>
     (\<forall>i k t. threads g i = Asleep k t \<longrightarrow> t \<noteq> serving (writers g))"

definition lock_ok :: "MutationGate \<Rightarrow> bool" where
  "lock_ok g \<longleftrightarrow>
     finite {i. threads g i = Reading} \<and>
     (case readers g of
        Unlocked \<Rightarrow> (\<forall>i. threads g i \<noteq> Reading) \<and> (\<forall>i t. threads g i \<noteq> Publishing t)
      | ReadLocked n \<Rightarrow> 0 < n \<and> card {i. threads g i = Reading} = n \<and> (\<forall>i t. threads g i \<noteq> Publishing t)
      | WriteLocked \<Rightarrow> (\<forall>i. threads g i \<noteq> Reading) \<and> (\<exists>i t. threads g i = Publishing t))"

lemma inc_u64: "(x :: u64) \<noteq> - 1 \<Longrightarrow> unat (x + 1) = Suc (unat x)"
  using unatSuc [of x] by (simp add: add.commute eq_neg_iff_add_eq_0)

text \<open>A step that changes no ticket keeps the tickets in order.\<close>

lemma tickets_keep:
  assumes "tickets_ok g" "writers g' = writers g" "\<And>j. ticket_of (threads g' j) = ticket_of (threads g j)"
    "\<And>j. holds_lease (threads g' j) \<Longrightarrow> ticket_of (threads g j) = Some (serving (writers g))"
    "\<And>j k t. threads g' j = Asleep k t \<Longrightarrow> t \<noteq> serving (writers g)"
  shows "tickets_ok g'"
  using assms unfolding tickets_ok_def by auto

lemma tickets_acquire:
  assumes "tickets_ok g" "threads g i = Idle" "take_ticket (writers g) = Some (t, w)"
  shows "tickets_ok (set_thread (g\<lparr>writers := w\<rparr>) i (Checking k t))"
proof -
  have t: "t = nxt (writers g)" "t \<noteq> - 1" "w = (writers g)\<lparr>nxt := t + 1\<rparr>"
    using assms(3) by (auto simp: take_ticket_def split: if_splits)
  have inc: "x < t + 1 \<longleftrightarrow> x \<le> t" for x
    using inc_u64 [OF t(2)] by (auto simp: word_less_nat_alt word_le_nat_alt)
  have i: "ticket_of (threads g i) = None" "\<not> holds_lease (threads g i)" using assms(2) by auto
  have fresh: "ticket_of (threads g j) \<noteq> Some t" for j
    using assms(1) t(1) unfolding tickets_ok_def by (metis less_irrefl)
  have D: "serving (writers g) \<le> t"
    "\<And>j u. ticket_of (threads g j) = Some u \<Longrightarrow> serving (writers g) \<le> u \<and> u < t"
    "\<And>j l u. ticket_of (threads g j) = Some u \<Longrightarrow> ticket_of (threads g l) = Some u \<Longrightarrow> j = l"
    "\<And>u. serving (writers g) \<le> u \<Longrightarrow> u < t \<Longrightarrow> \<exists>j. ticket_of (threads g j) = Some u"
    "\<And>j. holds_lease (threads g j) \<Longrightarrow> ticket_of (threads g j) = Some (serving (writers g))"
    "\<And>j k u. threads g j = Asleep k u \<Longrightarrow> u \<noteq> serving (writers g)"
    using assms(1) t(1) unfolding tickets_ok_def by blast+
  have owner: "\<exists>j. ticket_of (((threads g)(i := Checking k t)) j) = Some u" if u: "serving (writers g) \<le> u" "u \<le> t" for u
  proof (cases "u = t")
    case True
    then show ?thesis by (intro exI [of _ i]) simp
  next
    case False
    then have "u < t" using u(2) by simp
    then obtain j where "ticket_of (threads g j) = Some u" using D(4) u(1) by blast
    then show ?thesis using i by (intro exI [of _ j]) auto
  qed
  show ?thesis
    unfolding tickets_ok_def set_thread_def using D owner inc t fresh
    by (auto simp: less_imp_le split: if_splits)
qed

lemma tickets_release:
  assumes "tickets_ok g" "holds_lease (threads g i)" "ticket_of s = None"
  shows "tickets_ok (release_lease g i s)" "\<exists>w. release_ticket (writers g) = Some w"
proof -
  let ?sv = "serving (writers g)" and ?n = "nxt (writers g)"
  have D: "\<And>j u. ticket_of (threads g j) = Some u \<Longrightarrow> ?sv \<le> u \<and> u < ?n"
    "\<And>j l u. ticket_of (threads g j) = Some u \<Longrightarrow> ticket_of (threads g l) = Some u \<Longrightarrow> j = l"
    "\<And>u. ?sv \<le> u \<Longrightarrow> u < ?n \<Longrightarrow> \<exists>j. ticket_of (threads g j) = Some u"
    "\<And>j. holds_lease (threads g j) \<Longrightarrow> ticket_of (threads g j) = Some ?sv"
    using assms(1) unfolding tickets_ok_def by blast+
  have mine: "ticket_of (threads g i) = Some ?sv" using D(4) assms(2) .
  then have less: "?sv < ?n" using D(1) by blast
  then have ne: "?sv \<noteq> - 1" by (metis word_order.extremum_strict)
  have inc: "?sv + 1 \<le> u \<longleftrightarrow> ?sv < u" for u
    using inc_u64 [OF ne] by (auto simp: word_less_nat_alt word_le_nat_alt)
  have wake_ticket [simp]: "ticket_of (wake x) = ticket_of x" "holds_lease (wake x) = holds_lease x"
    "wake x \<noteq> Asleep k u" for x k u
    by (cases x; simp add: wake_def)+
  have other: "ticket_of (threads g j) = Some u \<Longrightarrow> j \<noteq> i \<Longrightarrow> ?sv < u" for j u
    using D(1,2) mine by (metis order.not_eq_order_implies_strict)
  have rel: "release_ticket (writers g) = Some ((writers g)\<lparr>serving := ?sv + 1\<rparr>)"
    using ne by (simp add: release_ticket_def)
  then show "\<exists>w. release_ticket (writers g) = Some w" by blast
  have holder: "holds_lease (threads g j) \<Longrightarrow> j = i" for j using D(2,4) mine by blast
  have s: "\<not> holds_lease s" "\<And>k u. s \<noteq> Asleep k u" using assms(3) by (cases s; simp)+
  have owner: "\<exists>j. ticket_of (((wake \<circ> threads g)(i := s)) j) = Some u" if u: "?sv < u" "u < ?n" for u
  proof -
    obtain j where j: "ticket_of (threads g j) = Some u" using D(3) u by (meson less_imp_le)
    then have "j \<noteq> i" using mine u(1) by auto
    then show ?thesis using j by (intro exI [of _ j]) simp
  qed
  show "tickets_ok (release_lease g i s)"
    unfolding tickets_ok_def release_lease_def rel option.case
    using D less inc other holder s owner assms(3) by (auto split: if_splits)
qed

lemma lease_serving:
  "tickets_ok g \<Longrightarrow> holds_lease (threads g i) \<Longrightarrow> ticket_of (threads g i) = Some (serving (writers g))"
  by (simp add: tickets_ok_def)

lemma lease_unique:
  "tickets_ok g \<Longrightarrow> holds_lease (threads g i) \<Longrightarrow> holds_lease (threads g j) \<Longrightarrow> i = j"
  unfolding tickets_ok_def by blast

lemma asleep_not_served: "tickets_ok g \<Longrightarrow> threads g i = Asleep k t \<Longrightarrow> t \<noteq> serving (writers g)"
  unfolding tickets_ok_def by blast

lemma tickets_set:
  assumes "tickets_ok g" "ticket_of s = ticket_of (threads g i)"
    "holds_lease s \<Longrightarrow> ticket_of s = Some (serving (writers g))" "\<And>k t. s = Asleep k t \<Longrightarrow> t \<noteq> serving (writers g)"
  shows "tickets_ok (set_thread (g\<lparr>readers := r\<rparr>) i s)" "tickets_ok (set_thread g i s)"
  using assms(2-4) lease_serving [OF assms(1)]
  by (auto simp: set_thread_def intro!: tickets_keep [OF assms(1)] split: if_splits
      dest: asleep_not_served [OF assms(1)])

lemma tickets_step: "gate_step g g' \<Longrightarrow> tickets_ok g \<Longrightarrow> tickets_ok g'"
proof (induction rule: gate_step.induct)
  case (acquire g i t w k)
  then show ?case by (intro tickets_acquire)
next
  case (drop_guard g i t)
  then show ?case by (intro tickets_release) auto
next
  case (drop_lease g i k t)
  then show ?case by (intro tickets_release) auto
next
  case (release g i t)
  then show ?case by (intro tickets_release) auto
next
  case (publish g i t)
  then show ?case using lease_serving [OF publish.prems, of i] by (intro tickets_set) auto
next
  case (unlock g i t)
  then show ?case using lease_serving [OF unlock.prems, of i] by (intro tickets_set) auto
qed (rule tickets_set(1) tickets_set(2), assumption, simp, simp, simp)+

text \<open>Lock steps, by how the set of readers changes.\<close>

lemma lock_keep:
  assumes "lock_ok g" "readers g' = readers g" "\<And>j. (threads g' j = Reading) = (threads g j = Reading)"
    "\<And>j t. (threads g' j = Publishing t) = (threads g j = Publishing t)"
  shows "lock_ok g'"
  using assms by (simp add: lock_ok_def cong: rw_lock.case_cong)

lemma lock_release:
  assumes "lock_ok g" "threads g i = Dropping t \<or> threads g i = Leased k t" "s = Idle \<or> s = Released"
    "\<exists>w. release_ticket (writers g) = Some w"
  shows "lock_ok (release_lease g i s)"
proof -
  have "wake x = Reading \<longleftrightarrow> x = Reading" "wake x = Publishing u \<longleftrightarrow> x = Publishing u" for x u
    by (cases x; simp add: wake_def)+
  note w = this
  obtain wr where rel: "release_ticket (writers g) = Some wr" using assms(4) by blast
  have i: "threads g i \<noteq> Reading" "threads g i \<noteq> Publishing u" "s \<noteq> Reading" "s \<noteq> Publishing u" for u
    using assms(2,3) by auto
  show ?thesis
    by (rule lock_keep [OF assms(1)]) (simp_all add: release_lease_def rel w i)
qed

lemma readers_insert:
  "threads g i \<noteq> Reading \<Longrightarrow> {j. ((threads g)(i := Reading)) j = Reading} = insert i {j. threads g j = Reading}"
  by auto

lemma readers_remove:
  "s \<noteq> Reading \<Longrightarrow> {j. ((threads g)(i := s)) j = Reading} = {j. threads g j = Reading} - {i}"
  by auto

lemma lock_step: "gate_step g g' \<Longrightarrow> tickets_ok g \<Longrightarrow> lock_ok g \<Longrightarrow> lock_ok g'"
proof (induction rule: gate_step.induct)
  case (publish g i t)
  then have "{j. ((threads g)(i := Publishing t)) j = Reading} = {}" by (auto simp: lock_ok_def)
  then show ?case using publish by (auto simp: lock_ok_def set_thread_def)
next
  case (unlock g i t)
  have unique: "threads g j = Publishing u \<Longrightarrow> j = i" for j u
    using lease_unique [OF unlock.prems(1), of j i] unlock.hyps by simp
  have locked: "readers g = WriteLocked" using unlock by (auto simp: lock_ok_def split: rw_lock.splits)
  then have "threads g j \<noteq> Reading" for j using unlock.prems(2) by (simp add: lock_ok_def)
  moreover have "j \<noteq> i \<Longrightarrow> threads g j \<noteq> Publishing u" for j u using unique by blast
  ultimately show ?case by (simp add: lock_ok_def set_thread_def)
next
  case (drop_guard g i t)
  then show ?case using tickets_release(2) [of g i Idle] by (intro lock_release) auto
next
  case (drop_lease g i k t)
  then show ?case using tickets_release(2) [of g i Idle] by (intro lock_release) auto
next
  case (release g i t)
  then show ?case using tickets_release(2) [of g i Idle] by (intro lock_release) auto
next
  case (read_first g i)
  then show ?case
    using readers_insert [of g i] by (auto simp: lock_ok_def set_thread_def)
next
  case (read_more g i n)
  then show ?case
    using readers_insert [of g i] by (auto simp: lock_ok_def set_thread_def)
next
  case (read_done g i n)
  have R: "finite {j. threads g j = Reading}" "card {j. threads g j = Reading} = n" "\<forall>j t. threads g j \<noteq> Publishing t"
    using read_done by (auto simp: lock_ok_def)
  have rest: "card ({j. threads g j = Reading} - {i}) = n - 1" using R read_done.hyps by simp
  have none: "n = 1 \<Longrightarrow> {j. threads g j = Reading} - {i} = {}" using rest R(1) by simp
  have "i \<in> {j. threads g j = Reading}" using read_done.hyps by simp
  then have "n \<noteq> 0" using R(1,2) by (metis card_gt_0_iff empty_iff less_irrefl)
  then show ?case
    using R rest none readers_remove [of Idle g i] by (auto simp: lock_ok_def set_thread_def)
qed (rule lock_keep; auto simp: set_thread_def split: if_splits)+

definition gate_inv :: "MutationGate \<Rightarrow> bool" where
  "gate_inv g \<longleftrightarrow> tickets_ok g \<and> lock_ok g"

interpretation gate: transition_system gate_init gate_step gate_inv
proof
  show "gate_inv gate_init"
    by (simp add: gate_inv_def tickets_ok_def lock_ok_def gate_init_def)
  show "gate_inv g'" if "gate_step g g'" "gate_inv g" for g g'
    using that tickets_step lock_step by (auto simp: gate_inv_def)
qed

lemma gate_tickets: "gate_step\<^sup>*\<^sup>* gate_init g \<Longrightarrow> tickets_ok g"
  and gate_lock: "gate_step\<^sup>*\<^sup>* gate_init g \<Longrightarrow> lock_ok g"
  using gate.reachable_inv by (auto simp: gate_inv_def)

section \<open>Properties\<close>

text \<open>
  C11. Mutual exclusion: in every reachable state at most one thread holds the writer lease
  (as a transaction, as maintenance, or while publishing or dropping its guard), and while a
  thread publishes no thread reads.
\<close>

theorem writer_exclusion:
  assumes "gate_step\<^sup>*\<^sup>* gate_init g"
  shows "(holds_lease (threads g i) \<and> holds_lease (threads g j) \<longrightarrow> i = j) \<and>
    (threads g i = Publishing t \<longrightarrow> threads g j \<noteq> Reading)"
proof -
  have "threads g i = Publishing t \<Longrightarrow> threads g j \<noteq> Reading"
    using gate_lock [OF assms] by (auto simp: lock_ok_def split: rw_lock.splits)
  then show ?thesis using lease_unique [OF gate_tickets [OF assms]] by blast
qed

text \<open>A run in which a transaction holds the lease while a second one waits behind it.\<close>

definition example_gate :: MutationGate where
  "example_gate = \<lparr>writers = \<lparr>nxt = 2, serving = 0\<rparr>, readers = Unlocked,
     threads = (\<lambda>_. Idle)(7 := Leased TransactionLease 0, 8 := Asleep MaintenanceLease 1)\<rparr>"

lemma example_gate_reachable: "gate_step\<^sup>*\<^sup>* gate_init example_gate"
proof -
  define g1 where "g1 = set_thread (gate_init\<lparr>writers := \<lparr>nxt = 1, serving = 0\<rparr>\<rparr>) 7 (Checking TransactionLease 0)"
  define g2 where "g2 = set_thread g1 7 (Leased TransactionLease 0)"
  define g3 where "g3 = set_thread (g2\<lparr>writers := \<lparr>nxt = 2, serving = 0\<rparr>\<rparr>) 8 (Checking MaintenanceLease 1)"
  have s1: "gate_step gate_init g1"
    unfolding g1_def by (rule acquire) (simp_all add: gate_init_def take_ticket_def)
  have s2: "gate_step g1 g2"
    unfolding g2_def by (rule enter) (simp_all add: g1_def set_thread_def)
  have s3: "gate_step g2 g3"
    unfolding g3_def by (rule acquire) (simp_all add: g2_def g1_def gate_init_def set_thread_def take_ticket_def)
  have s4: "gate_step g3 (set_thread g3 8 (Asleep MaintenanceLease 1))"
    by (rule sleep) (simp_all add: g3_def set_thread_def)
  have "set_thread g3 8 (Asleep MaintenanceLease 1) = example_gate"
    by (simp add: g3_def g2_def g1_def set_thread_def gate_init_def example_gate_def fun_upd_twist)
  then show ?thesis using s1 s2 s3 s4 by (metis converse_rtranclp_into_rtranclp rtranclp.rtrancl_refl)
qed

theorem writer_exclusion_witness: "holds_lease (threads example_gate 7) \<and> \<not> holds_lease (threads example_gate 8)"
  using writer_exclusion [OF example_gate_reachable, of 7 8] by (auto simp: example_gate_def)

text \<open>
  C12. Writers are served in ticket order and none is forgotten: in every reachable state, if any
  thread waits, the thread whose ticket is being served exists, is not asleep (no wake-up was
  lost), and is either the holder of the lease or able to take it at once; and releasing a lease
  never overflows its counter.
\<close>

theorem writer_progress:
  assumes "gate_step\<^sup>*\<^sup>* gate_init g" "threads g j = Checking k t \<or> threads g j = Asleep k t"
  shows "\<exists>i. ticket_of (threads g i) = Some (serving (writers g)) \<and> serving (writers g) \<le> t \<and>
    (holds_lease (threads g i) \<and> release_ticket (writers g) \<noteq> None \<or>
     (\<exists>k'. threads g i = Checking k' (serving (writers g)) \<and>
       gate_step g (set_thread g i (Leased k' (serving (writers g))))))"
proof -
  have ok: "tickets_ok g" by (rule gate_tickets [OF assms(1)])
  have "ticket_of (threads g j) = Some t" using assms(2) by auto
  then have le: "serving (writers g) \<le> t" "t < nxt (writers g)" using ok unfolding tickets_ok_def by blast+
  then have "serving (writers g) < nxt (writers g)" by simp
  then obtain i where i: "ticket_of (threads g i) = Some (serving (writers g))"
    using ok unfolding tickets_ok_def by blast
  show ?thesis
  proof (cases "holds_lease (threads g i)")
    case True
    then show ?thesis using i le tickets_release(2) [OF ok True, of Idle] by auto
  next
    case False
    then obtain k' where "threads g i = Checking k' (serving (writers g))"
      using i asleep_not_served [OF ok, of i] by (cases "threads g i") auto
    then show ?thesis using i le gate_step.enter [of g i k' "serving (writers g)"] by blast
  qed
qed

theorem writer_progress_witness:
  "\<exists>i. ticket_of (threads example_gate i) = Some 0 \<and> holds_lease (threads example_gate i)"
  using writer_progress [OF example_gate_reachable, of 8 MaintenanceLease 1]
  by (auto simp: example_gate_def split: if_splits)

end
