(* ===== verification/QueryLimits.thy ===== *)
theory QueryLimits
  imports Prelude
begin

text \<open>
  \<open>src/core/query_limits.rs\<close>: the work, frontier and byte budget of a query.  Counters are
  \<open>usize\<close> with checked arithmetic; an exhausted budget is an error and keeps its counters.
\<close>

definition USIZE_MAX :: usize where "USIZE_MAX = 2 ^ 64 - 1"

definition checked_add :: "usize \<Rightarrow> usize \<Rightarrow> usize option" where
  "checked_add a b = (if a + b \<le> USIZE_MAX then Some (a + b) else None)"

definition saturating_add :: "usize \<Rightarrow> usize \<Rightarrow> usize" where
  "saturating_add a b = min (a + b) USIZE_MAX"

definition saturating_mul :: "usize \<Rightarrow> usize \<Rightarrow> usize" where
  "saturating_mul a b = min (a * b) USIZE_MAX"

record QueryLimits =
  max_work :: usize
  max_frontier :: usize
  max_bytes :: usize

definition default_limits :: QueryLimits where
  "default_limits = \<lparr>max_work = 10000000, max_frontier = 16384, max_bytes = 64 * 1024 * 1024\<rparr>"

datatype query_limit_exceeded = QueryLimitExceeded string usize

record QueryBudget =
  limits :: QueryLimits
  work_used :: usize
  bytes_used :: usize

definition budget_new :: "QueryLimits \<Rightarrow> QueryBudget" where
  "budget_new l = \<lparr>limits = l, work_used = 0, bytes_used = 0\<rparr>"

definition charge :: "usize \<Rightarrow> usize \<Rightarrow> usize \<Rightarrow> string \<Rightarrow> query_limit_exceeded + usize" where
  "charge used amount limit resource =
     (case checked_add used amount of
        Some sum_used \<Rightarrow> if sum_used \<le> limit then Inr sum_used else Inl (QueryLimitExceeded resource limit)
      | None \<Rightarrow> Inl (QueryLimitExceeded resource limit))"

definition budget_work :: "QueryBudget \<Rightarrow> usize \<Rightarrow> query_limit_exceeded + QueryBudget" where
  "budget_work b amount =
     (case charge (work_used b) amount (max_work (limits b)) ''work'' of
        Inl e \<Rightarrow> Inl e | Inr used \<Rightarrow> Inr (b\<lparr>work_used := used\<rparr>))"

definition budget_reserve :: "QueryBudget \<Rightarrow> usize \<Rightarrow> query_limit_exceeded + QueryBudget" where
  "budget_reserve b amount =
     (case charge (bytes_used b) amount (max_bytes (limits b)) ''bytes'' of
        Inl e \<Rightarrow> Inl e | Inr used \<Rightarrow> Inr (b\<lparr>bytes_used := used\<rparr>))"

text \<open>\<open>release\<close> panics (\<open>None\<close>) when more is released than is reserved.\<close>

definition budget_release :: "QueryBudget \<Rightarrow> usize \<Rightarrow> QueryBudget option" where
  "budget_release b amount =
     (if amount \<le> bytes_used b then Some (b\<lparr>bytes_used := bytes_used b - amount\<rparr>) else None)"

definition budget_frontier :: "QueryBudget \<Rightarrow> usize \<Rightarrow> query_limit_exceeded + unit" where
  "budget_frontier b n =
     (if max_frontier (limits b) < n then Inl (QueryLimitExceeded ''frontier'' (max_frontier (limits b)))
      else Inr ())"

section \<open>The invariant\<close>

definition budget_wf :: "QueryBudget \<Rightarrow> bool" where
  "budget_wf b \<longleftrightarrow> work_used b \<le> max_work (limits b) \<and> bytes_used b \<le> max_bytes (limits b) \<and>
     max_work (limits b) \<le> USIZE_MAX \<and> max_bytes (limits b) \<le> USIZE_MAX"

lemma charge_iff:
  "limit \<le> USIZE_MAX \<Longrightarrow> charge used amount limit r =
     (if used + amount \<le> limit then Inr (used + amount) else Inl (QueryLimitExceeded r limit))"
  by (auto simp: charge_def checked_add_def)

lemma budget_work_iff:
  "budget_wf b \<Longrightarrow> budget_work b n =
     (if work_used b + n \<le> max_work (limits b) then Inr (b\<lparr>work_used := work_used b + n\<rparr>)
      else Inl (QueryLimitExceeded ''work'' (max_work (limits b))))"
  by (simp add: budget_work_def budget_wf_def charge_iff)

lemma budget_reserve_iff:
  "budget_wf b \<Longrightarrow> budget_reserve b n =
     (if bytes_used b + n \<le> max_bytes (limits b) then Inr (b\<lparr>bytes_used := bytes_used b + n\<rparr>)
      else Inl (QueryLimitExceeded ''bytes'' (max_bytes (limits b))))"
  by (simp add: budget_reserve_def budget_wf_def charge_iff)

lemma budget_wf_step:
  "budget_wf b \<Longrightarrow> budget_work b n = Inr b' \<Longrightarrow> budget_wf b' \<and> limits b' = limits b"
  "budget_wf b \<Longrightarrow> budget_reserve b n = Inr b' \<Longrightarrow> budget_wf b' \<and> limits b' = limits b"
  "budget_wf b \<Longrightarrow> budget_release b n = Some b' \<Longrightarrow> budget_wf b' \<and> limits b' = limits b"
  by (auto simp: budget_work_iff budget_reserve_iff budget_release_def budget_wf_def split: if_splits)

section \<open>Properties\<close>

datatype budget_op = Work usize | Reserve usize | Release usize

text \<open>
  A query's use of its budget: the operations one after the other, until the first one that is refused (or that
  releases bytes that are not reserved).  The result is the budget and the operations that were done.
\<close>

fun budget_run :: "QueryBudget \<Rightarrow> budget_op list \<Rightarrow> QueryBudget \<times> budget_op list" where
  "budget_run b [] = (b, [])"
| "budget_run b (Work n # ops) =
     (case budget_work b n of Inl _ \<Rightarrow> (b, []) | Inr b' \<Rightarrow> map_prod id ((#) (Work n)) (budget_run b' ops))"
| "budget_run b (Reserve n # ops) =
     (case budget_reserve b n of Inl _ \<Rightarrow> (b, []) | Inr b' \<Rightarrow> map_prod id ((#) (Reserve n)) (budget_run b' ops))"
| "budget_run b (Release n # ops) =
     (case budget_release b n of None \<Rightarrow> (b, []) | Some b' \<Rightarrow> map_prod id ((#) (Release n)) (budget_run b' ops))"

fun work_of :: "budget_op \<Rightarrow> usize" where "work_of (Work n) = n" | "work_of _ = 0"
fun reserved_by :: "budget_op \<Rightarrow> usize" where "reserved_by (Reserve n) = n" | "reserved_by _ = 0"
fun released_by :: "budget_op \<Rightarrow> usize" where "released_by (Release n) = n" | "released_by _ = 0"

definition op_total :: "(budget_op \<Rightarrow> usize) \<Rightarrow> budget_op list \<Rightarrow> usize" where "op_total f ops = sum_list (map f ops)"

lemma op_total_simps [simp]: "op_total f [] = 0" "op_total f (x # xs) = f x + op_total f xs"
  by (simp_all add: op_total_def)

text \<open>The operation a budget does not allow.\<close>

fun refused :: "QueryBudget \<Rightarrow> budget_op \<Rightarrow> bool" where
  "refused b (Work n) \<longleftrightarrow> max_work (limits b) < work_used b + n"
| "refused b (Reserve n) \<longleftrightarrow> max_bytes (limits b) < bytes_used b + n"
| "refused b (Release n) \<longleftrightarrow> bytes_used b < n"

lemma budget_run_exact:
  assumes "budget_wf b" "budget_run b ops = (b', did)"
  shows "budget_wf b' \<and> limits b' = limits b \<and> work_used b' = work_used b + op_total work_of did \<and>
    bytes_used b' + op_total released_by did = bytes_used b + op_total reserved_by did \<and>
    (\<exists>rest. ops = did @ rest \<and> (rest = [] \<or> refused b' (hd rest)))"
  using assms
proof (induction b ops arbitrary: b' did rule: budget_run.induct)
  case (2 b n ops)
  show ?case
  proof (cases "budget_work b n")
    case (Inl e)
    then have "b' = b" "did = []" "refused b (Work n)" using "2.prems" by (auto simp: budget_work_iff split: if_splits)
    then show ?thesis using "2.prems"(1) by simp
  next
    case (Inr c)
    then have c: "c = b\<lparr>work_used := work_used b + n\<rparr>" using "2.prems"(1) by (auto simp: budget_work_iff split: if_splits)
    obtain ds where ds: "budget_run c ops = (b', ds)" "did = Work n # ds" using "2.prems"(2) Inr by (cases "budget_run c ops") simp
    have wf: "budget_wf c" using budget_wf_step(1) [OF "2.prems"(1) Inr] by simp
    note ih = "2.IH" [OF Inr wf ds(1)]
    obtain rest where "ops = ds @ rest" "rest = [] \<or> refused b' (hd rest)" using ih by blast
    then have "\<exists>rest. Work n # ops = did @ rest \<and> (rest = [] \<or> refused b' (hd rest))" using ds(2) by (intro exI [of _ rest]) simp
    then show ?thesis using ih c ds(2) by simp
  qed
next
  case (3 b n ops)
  show ?case
  proof (cases "budget_reserve b n")
    case (Inl e)
    then have "b' = b" "did = []" "refused b (Reserve n)" using "3.prems" by (auto simp: budget_reserve_iff split: if_splits)
    then show ?thesis using "3.prems"(1) by simp
  next
    case (Inr c)
    then have c: "c = b\<lparr>bytes_used := bytes_used b + n\<rparr>" using "3.prems"(1) by (auto simp: budget_reserve_iff split: if_splits)
    obtain ds where ds: "budget_run c ops = (b', ds)" "did = Reserve n # ds" using "3.prems"(2) Inr by (cases "budget_run c ops") simp
    have wf: "budget_wf c" using budget_wf_step(2) [OF "3.prems"(1) Inr] by simp
    note ih = "3.IH" [OF Inr wf ds(1)]
    obtain rest where "ops = ds @ rest" "rest = [] \<or> refused b' (hd rest)" using ih by blast
    then have "\<exists>rest. Reserve n # ops = did @ rest \<and> (rest = [] \<or> refused b' (hd rest))" using ds(2) by (intro exI [of _ rest]) simp
    then show ?thesis using ih c ds(2) by simp
  qed
next
  case (4 b n ops)
  show ?case
  proof (cases "budget_release b n")
    case None
    then have "b' = b" "did = []" "refused b (Release n)" using "4.prems" by (auto simp: budget_release_def split: if_splits)
    then show ?thesis using "4.prems"(1) by simp
  next
    case (Some c)
    then have c: "c = b\<lparr>bytes_used := bytes_used b - n\<rparr>" "n \<le> bytes_used b" using "4.prems"(1) by (auto simp: budget_release_def split: if_splits)
    obtain ds where ds: "budget_run c ops = (b', ds)" "did = Release n # ds" using "4.prems"(2) Some by (cases "budget_run c ops") simp
    have wf: "budget_wf c" using budget_wf_step(3) [OF "4.prems"(1) Some] by simp
    note ih = "4.IH" [OF Some wf ds(1)]
    obtain rest where "ops = ds @ rest" "rest = [] \<or> refused b' (hd rest)" using ih by blast
    then have "\<exists>rest. Release n # ops = did @ rest \<and> (rest = [] \<or> refused b' (hd rest))" using ds(2) by (intro exI [of _ rest]) simp
    moreover have "bytes_used b' + op_total released_by did = bytes_used b + op_total reserved_by did" using ih c ds(2) by auto
    ultimately show ?thesis using ih c(1) ds(2) by simp
  qed
qed simp

text \<open>
  C38. A budget accounts for every operation and stops exactly at its limits: whatever a query asks of a new
  budget, the work counted is the sum of the work it was allowed, the bytes in use are those reserved less those
  released, both are within the limits, and the first operation that is not done is one that would exceed its limit
  (or release more than is reserved).
\<close>

theorem budget_never_exceeded:
  assumes "max_work l \<le> USIZE_MAX" "max_bytes l \<le> USIZE_MAX" "budget_run (budget_new l) ops = (b, did)"
  shows "work_used b = op_total work_of did \<and> op_total work_of did \<le> max_work l \<and>
    bytes_used b + op_total released_by did = op_total reserved_by did \<and> op_total reserved_by did \<le> max_bytes l + op_total released_by did \<and>
    (\<exists>rest. ops = did @ rest \<and>
       (case rest of
          [] \<Rightarrow> True
        | Work n # _ \<Rightarrow> max_work l < op_total work_of did + n
        | Reserve n # _ \<Rightarrow> max_bytes l + op_total released_by did < op_total reserved_by did + n
        | Release n # _ \<Rightarrow> op_total reserved_by did < op_total released_by did + n))"
proof -
  have new: "budget_wf (budget_new l)" using assms(1,2) by (simp add: budget_wf_def budget_new_def)
  note r = budget_run_exact [OF new assms(3)]
  have used: "work_used b = op_total work_of did" "bytes_used b + op_total released_by did = op_total reserved_by did"
    "work_used b \<le> max_work l" "bytes_used b \<le> max_bytes l" "limits b = l"
    using r by (auto simp: budget_new_def budget_wf_def)
  obtain rest where rest: "ops = did @ rest" "rest = [] \<or> refused b (hd rest)" using r by blast
  have "case rest of [] \<Rightarrow> True | Work n # _ \<Rightarrow> max_work l < op_total work_of did + n
      | Reserve n # _ \<Rightarrow> max_bytes l + op_total released_by did < op_total reserved_by did + n
      | Release n # _ \<Rightarrow> op_total reserved_by did < op_total released_by did + n"
    using rest(2) used by (auto split: list.split budget_op.split)
  then show ?thesis using used rest(1) by auto
qed

theorem budget_never_exceeded_witness:
  "\<exists>b. budget_run (budget_new default_limits) [Work 5, Reserve 70, Release 3, Work 20000000, Work 1] = (b, [Work 5, Reserve 70, Release 3]) \<and>
     work_used b = 5 \<and> bytes_used b + 3 = 70"
proof -
  let ?ops = "[Work 5, Reserve 70, Release 3, Work 20000000, Work 1]"
  have run: "\<exists>b. budget_run (budget_new default_limits) ?ops = (b, [Work 5, Reserve 70, Release 3])"
    by (simp add: budget_work_def budget_reserve_def budget_release_def charge_def checked_add_def budget_new_def default_limits_def USIZE_MAX_def)
  then obtain b where b: "budget_run (budget_new default_limits) ?ops = (b, [Work 5, Reserve 70, Release 3])" by blast
  have "max_work default_limits \<le> USIZE_MAX" "max_bytes default_limits \<le> USIZE_MAX" by (simp_all add: default_limits_def USIZE_MAX_def)
  from budget_never_exceeded [OF this b] b show ?thesis by auto
qed

end
