(* ===== verification/TripleStore.thy ===== *)
theory TripleStore
  imports QueryLimits
begin

text \<open>
  \<open>src/core/triple_store.rs\<close>: the triples, their four hash indices and the queries over them.
  A slice access out of bounds panics: such operations return \<open>None\<close>.  A visitor closure is a
  function on the state it captures.  The locks are not modelled: every operation runs alone.
  The order in which a hash map lists its keys is unspecified, so \<open>subject_ids\<close> and
  \<open>relation_ids\<close> are sets.
\<close>

section \<open>Data\<close>

record TripleRecord =
  subject_id :: string
  relation_id :: string
  object_id :: string
  composite_id :: string
  deleted :: bool

type_synonym key_index = "string \<Rightarrow> nat list option"

record TripleStore =
  triples :: "TripleRecord list"
  by_subject :: key_index
  by_relation :: key_index
  by_object :: key_index
  by_composite :: key_index

section \<open>Operations\<close>

definition triple_store_new :: TripleStore where
  "triple_store_new = \<lparr>triples = [], by_subject = (\<lambda>_. None), by_relation = (\<lambda>_. None),
     by_object = (\<lambda>_. None), by_composite = (\<lambda>_. None)\<rparr>"

definition index_push :: "string \<Rightarrow> nat \<Rightarrow> key_index \<Rightarrow> key_index" where
  "index_push k i m = m(k \<mapsto> (case m k of None \<Rightarrow> [] | Some l \<Rightarrow> l) @ [i])"

definition triple_add ::
  "TripleStore \<Rightarrow> string \<Rightarrow> string \<Rightarrow> string \<Rightarrow> string \<Rightarrow> TripleStore \<times> usize" where
  "triple_add st s r ob c =
     (let idx = length (triples st) in
      (st\<lparr>triples := triples st @ [\<lparr>subject_id = s, relation_id = r, object_id = ob,
             composite_id = c, deleted = False\<rparr>],
          by_subject := index_push s idx (by_subject st),
          by_relation := index_push r idx (by_relation st),
          by_object := index_push ob idx (by_object st),
          by_composite := index_push c idx (by_composite st)\<rparr>, idx))"

definition load_triple :: "TripleStore \<Rightarrow> TripleRecord \<Rightarrow> TripleStore" where
  "load_triple st t = fst (triple_add st (subject_id t) (relation_id t) (object_id t) (composite_id t))"

definition hide :: "TripleRecord \<Rightarrow> TripleRecord" where
  "hide t = t\<lparr>deleted := True\<rparr>"

text \<open>The search loop of \<open>remove\<close>: the index of the first live match.\<close>

fun remove_search :: "TripleRecord list \<Rightarrow> string \<Rightarrow> string \<Rightarrow> nat list \<Rightarrow> nat option option" where
  "remove_search ts r ob [] = Some None"
| "remove_search ts r ob (i # is) =
     (if i < length ts then
        (if \<not> deleted (ts ! i) \<and> relation_id (ts ! i) = r \<and> object_id (ts ! i) = ob
         then Some (Some i) else remove_search ts r ob is)
      else None)"

definition triple_remove ::
  "TripleStore \<Rightarrow> string \<Rightarrow> string \<Rightarrow> string \<Rightarrow> (TripleStore \<times> bool) option" where
  "triple_remove st s r ob =
     (case by_subject st s of
        None \<Rightarrow> Some (st, False)
      | Some idxs \<Rightarrow>
          (case remove_search (triples st) r ob idxs of
             None \<Rightarrow> None
           | Some None \<Rightarrow> Some (st, False)
           | Some (Some i) \<Rightarrow> Some (st\<lparr>triples := (triples st)[i := hide (triples st ! i)]\<rparr>, True)))"

fun hide_all :: "TripleRecord list \<Rightarrow> nat list \<Rightarrow> TripleRecord list option" where
  "hide_all ts [] = Some ts"
| "hide_all ts (i # is) = (if i < length ts then hide_all (ts[i := hide (ts ! i)]) is else None)"

definition remove_composite :: "TripleStore \<Rightarrow> string \<Rightarrow> TripleStore option" where
  "remove_composite st c =
     (case by_composite st c of
        None \<Rightarrow> Some st
      | Some idxs \<Rightarrow> map_option (\<lambda>ts. st\<lparr>triples := ts\<rparr>) (hide_all (triples st) idxs))"

text \<open>The filter of the closures \<open>accept\<close>: an absent field accepts every value.\<close>

definition field_ok :: "string option \<Rightarrow> string \<Rightarrow> bool" where
  "field_ok f v = (case f of None \<Rightarrow> True | Some w \<Rightarrow> v = w)"

definition matches :: "string option \<Rightarrow> string option \<Rightarrow> string option \<Rightarrow> TripleRecord \<Rightarrow> bool" where
  "matches s r ob t \<longleftrightarrow> \<not> deleted t \<and> field_ok s (subject_id t) \<and> field_ok r (relation_id t) \<and>
     field_ok ob (object_id t)"

text \<open>
  The index a query goes through: the subject's if there is one, else the relation's, else the
  object's; without any the whole vector is walked.
\<close>

definition indexed :: "TripleStore \<Rightarrow> string option \<Rightarrow> string option \<Rightarrow> string option \<Rightarrow> nat list" where
  "indexed st s r ob =
     (let get = (\<lambda>m k. case m k of None \<Rightarrow> [] | Some l \<Rightarrow> l) in
      case s of Some k \<Rightarrow> get (by_subject st) k
      | None \<Rightarrow> (case r of Some k \<Rightarrow> get (by_relation st) k
      | None \<Rightarrow> (case ob of Some k \<Rightarrow> get (by_object st) k
      | None \<Rightarrow> [0..<length (triples st)])))"

fun visit_loop :: "(TripleRecord \<Rightarrow> bool) \<Rightarrow> ('s \<Rightarrow> TripleRecord \<Rightarrow> 's \<times> bool) \<Rightarrow> TripleRecord list \<Rightarrow>
    nat list \<Rightarrow> 's \<Rightarrow> 's option" where
  "visit_loop P v ts [] a = Some a"
| "visit_loop P v ts (i # is) a =
     (if i < length ts then
        (if P (ts ! i)
         then (case v a (ts ! i) of (a', go) \<Rightarrow> if go then visit_loop P v ts is a' else Some a')
         else visit_loop P v ts is a)
      else None)"

definition visit :: "TripleStore \<Rightarrow> string option \<Rightarrow> string option \<Rightarrow> string option \<Rightarrow>
    ('s \<Rightarrow> TripleRecord \<Rightarrow> 's \<times> bool) \<Rightarrow> 's \<Rightarrow> 's option" where
  "visit st s r ob v a = visit_loop (matches s r ob) v (triples st) (indexed st s r ob) a"

definition triple_query :: "TripleStore \<Rightarrow> string option \<Rightarrow> string option \<Rightarrow> string option \<Rightarrow>
    TripleRecord list option" where
  "triple_query st s r ob = visit st s r ob (\<lambda>acc t. (acc @ [t], True)) []"

definition has :: "TripleStore \<Rightarrow> string option \<Rightarrow> string option \<Rightarrow> string option \<Rightarrow> bool option" where
  "has st s r ob = visit st s r ob (\<lambda>_ _. (True, False)) False"

text \<open>
  \<open>visit_bounded\<close> charges one unit of work for every triple it looks at and stops at the first
  error; the visitor's state and the budget as they are then are part of the result.
\<close>

fun visit_bounded_loop :: "(TripleRecord \<Rightarrow> bool) \<Rightarrow>
    ('s \<Rightarrow> TripleRecord \<Rightarrow> QueryBudget \<Rightarrow> 's \<times> QueryBudget \<times> query_limit_exceeded option) \<Rightarrow>
    TripleRecord list \<Rightarrow> nat list \<Rightarrow> 's \<Rightarrow> QueryBudget \<Rightarrow>
    ('s \<times> QueryBudget \<times> query_limit_exceeded option) option" where
  "visit_bounded_loop P v ts [] a b = Some (a, b, None)"
| "visit_bounded_loop P v ts (i # is) a b =
     (if i < length ts then
        (case budget_work b 1 of
           Inl e \<Rightarrow> Some (a, b, Some e)
         | Inr b1 \<Rightarrow>
             if P (ts ! i) then
               (case v a (ts ! i) b1 of
                  (a', b', Some e) \<Rightarrow> Some (a', b', Some e)
                | (a', b', None) \<Rightarrow> visit_bounded_loop P v ts is a' b')
             else visit_bounded_loop P v ts is a b1)
      else None)"

definition visit_bounded where
  "visit_bounded st s r ob v a b = visit_bounded_loop (matches s r ob) v (triples st) (indexed st s r ob) a b"

definition has_composite :: "TripleStore \<Rightarrow> string \<Rightarrow> bool option" where
  "has_composite st c =
     (case by_composite st c of None \<Rightarrow> Some False
      | Some idxs \<Rightarrow> visit_loop (\<lambda>t. \<not> deleted t) (\<lambda>_ _. (True, False)) (triples st) idxs False)"

definition subject_ids :: "TripleStore \<Rightarrow> string set" where
  "subject_ids st = dom (by_subject st)"

definition relation_ids :: "TripleStore \<Rightarrow> string set" where
  "relation_ids st = dom (by_relation st)"

definition by_composite_id :: "TripleStore \<Rightarrow> string \<Rightarrow> TripleRecord list option" where
  "by_composite_id st c =
     (case by_composite st c of None \<Rightarrow> Some []
      | Some idxs \<Rightarrow> visit_loop (\<lambda>t. \<not> deleted t) (\<lambda>acc t. (acc @ [t], True)) (triples st) idxs [])"

definition triple_count :: "TripleStore \<Rightarrow> usize" where
  "triple_count st = length (filter (\<lambda>t. \<not> deleted t) (triples st))"

definition snapshot :: "TripleStore \<Rightarrow> TripleRecord list" where
  "snapshot st = filter (\<lambda>t. \<not> deleted t) (triples st)"

text \<open>The bytes a snapshot charges for one triple; \<open>len\<close> of a string is its number of bytes.\<close>

definition triple_cost :: "TripleRecord \<Rightarrow> usize" where
  "triple_cost t = foldl (\<lambda>acc ident. saturating_add acc (saturating_mul (length ident) 4)) 512
     [subject_id t, relation_id t, object_id t, composite_id t]"

definition snapshot_visitor :: "TripleRecord list \<Rightarrow> TripleRecord \<Rightarrow> QueryBudget \<Rightarrow>
    TripleRecord list \<times> QueryBudget \<times> query_limit_exceeded option" where
  "snapshot_visitor acc t b =
     (case budget_reserve b (triple_cost t) of
        Inl e \<Rightarrow> (acc, b, Some e) | Inr b' \<Rightarrow> (acc @ [t], b', None))"

definition bounded_snapshot :: "TripleStore \<Rightarrow> QueryBudget \<Rightarrow>
    (QueryBudget \<times> (query_limit_exceeded + TripleRecord list)) option" where
  "bounded_snapshot st b =
     (case visit_bounded st None None None snapshot_visitor [] b of
        None \<Rightarrow> None
      | Some (acc, b', Some e) \<Rightarrow> Some (b', Inl e)
      | Some (acc, b', None) \<Rightarrow> Some (b', Inr acc))"

section \<open>An index over a key that hiding keeps\<close>

text \<open>
  The contract of the four indices: a key that marking a record deleted does not change.  The
  index lists, in order, the positions of the records with the key.
\<close>

definition positions :: "('r \<Rightarrow> string) \<Rightarrow> 'r list \<Rightarrow> string \<Rightarrow> nat list" where
  "positions key ts k = filter (\<lambda>i. key (ts ! i) = k) [0..<length ts]"

definition index_of :: "('r \<Rightarrow> string) \<Rightarrow> 'r list \<Rightarrow> key_index" where
  "index_of key ts = (\<lambda>k. if positions key ts k = [] then None else Some (positions key ts k))"

locale keyed_index =
  fixes key :: "'r \<Rightarrow> string" and hid :: "'r \<Rightarrow> 'r"
  assumes key_hid [simp]: "key (hid t) = key t"
begin

lemma positions_snoc:
  "positions key (ts @ [t]) k = positions key ts k @ (if key t = k then [length ts] else [])"
proof -
  have "filter (\<lambda>i. key ((ts @ [t]) ! i) = k) [0..<length ts] = filter (\<lambda>i. key (ts ! i) = k) [0..<length ts]"
    by (rule filter_cong) (auto simp: nth_append)
  then show ?thesis by (simp add: positions_def)
qed

lemma index_snoc: "index_of key (ts @ [t]) = index_push (key t) (length ts) (index_of key ts)"
  by (rule ext) (simp add: index_of_def index_push_def positions_snoc)

lemma index_hid: "index_of key (ts[i := hid (ts ! i)]) = index_of key ts"
proof -
  have "filter (\<lambda>j. key (ts[i := hid (ts ! i)] ! j) = k) [0..<length ts] =
      filter (\<lambda>j. key (ts ! j) = k) [0..<length ts]" for k
    by (rule filter_cong, simp, cases "i < length ts") (auto simp: nth_list_update list_update_beyond)
  then have "positions key (ts[i := hid (ts ! i)]) k = positions key ts k" for k
    by (simp add: positions_def)
  then show ?thesis by (simp add: index_of_def fun_eq_iff)
qed

lemma index_map: "(\<And>t. key (f t) = key t) \<Longrightarrow> index_of key (map f ts) = index_of key ts"
proof -
  assume f: "\<And>t. key (f t) = key t"
  have "filter (\<lambda>i. key (map f ts ! i) = k) [0..<length ts] = filter (\<lambda>i. key (ts ! i) = k) [0..<length ts]" for k
    by (rule filter_cong) (auto simp: f)
  then show ?thesis by (simp add: index_of_def positions_def fun_eq_iff)
qed

lemma index_nil: "index_of key [] = (\<lambda>_. None)"
  by (simp add: index_of_def positions_def)

lemma index_get: "(case index_of key ts k of None \<Rightarrow> [] | Some l \<Rightarrow> l) = positions key ts k"
  by (simp add: index_of_def)

lemma positions_bound: "i \<in> set (positions key ts k) \<Longrightarrow> i < length ts"
  by (simp add: positions_def)

lemma nth_positions: "map ((!) ts) (positions key ts k) = filter (\<lambda>t. key t = k) ts"
proof -
  have "filter (\<lambda>t. key t = k) (map ((!) ts) [0..<length ts]) = map ((!) ts) (positions key ts k)"
    by (simp add: positions_def filter_map o_def)
  then show ?thesis by (simp add: map_nth)
qed

lemma index_dom: "dom (index_of key ts) = key ` set ts"
proof -
  have "positions key ts k \<noteq> [] \<longleftrightarrow> k \<in> key ` set ts" for k
    by (subst map_is_Nil_conv [of "(!) ts", symmetric], unfold nth_positions) (auto simp: filter_empty_conv)
  then show ?thesis by (auto simp: index_of_def dom_def)
qed

end

interpretation subject_index: keyed_index subject_id hide
  by unfold_locales (simp add: hide_def)

interpretation relation_index: keyed_index relation_id hide
  by unfold_locales (simp add: hide_def)

interpretation object_index: keyed_index object_id hide
  by unfold_locales (simp add: hide_def)

interpretation composite_index: keyed_index composite_id hide
  by unfold_locales (simp add: hide_def)

section \<open>The invariant of the store\<close>

definition store_ok :: "TripleStore \<Rightarrow> bool" where
  "store_ok st \<longleftrightarrow> by_subject st = index_of subject_id (triples st) \<and>
     by_relation st = index_of relation_id (triples st) \<and>
     by_object st = index_of object_id (triples st) \<and>
     by_composite st = index_of composite_id (triples st)"

lemmas index_snocs = subject_index.index_snoc relation_index.index_snoc object_index.index_snoc
  composite_index.index_snoc
lemmas index_hids = subject_index.index_hid relation_index.index_hid object_index.index_hid
  composite_index.index_hid

lemma store_ok_new: "store_ok triple_store_new"
  by (simp add: store_ok_def triple_store_new_def subject_index.index_nil relation_index.index_nil
      object_index.index_nil composite_index.index_nil)

lemma store_ok_add:
  assumes "store_ok st"
  shows "store_ok (fst (triple_add st s r ob c))"
proof -
  define t where "t = \<lparr>subject_id = s, relation_id = r, object_id = ob, composite_id = c, deleted = False\<rparr>"
  show ?thesis
    using assms index_snocs [of "triples st" t]
    by (simp add: store_ok_def triple_add_def Let_def t_def [symmetric]) (simp add: t_def)
qed

lemma store_ok_hide: "store_ok st \<Longrightarrow> store_ok (st\<lparr>triples := (triples st)[i := hide (triples st ! i)]\<rparr>)"
  by (simp add: store_ok_def index_hids)

section \<open>The loops, as filters\<close>

text \<open>Both visiting loops are folds over the records the index names.\<close>

lemma visit_loop_collect:
  "set is \<subseteq> {..<length ts} \<Longrightarrow>
   visit_loop P (\<lambda>acc t. (acc @ [t], True)) ts is acc = Some (acc @ filter P (map ((!) ts) is))"
  by (induction "is" arbitrary: acc) auto

lemma visit_loop_exists:
  "set is \<subseteq> {..<length ts} \<Longrightarrow>
   visit_loop P (\<lambda>_ _. (True, False)) ts is False = Some (\<exists>t \<in> set (map ((!) ts) is). P t)"
  by (induction "is") auto

lemma indexed_cases:
  assumes "store_ok st"
  shows "set (indexed st s r ob) \<subseteq> {..<length (triples st)}"
    "filter (matches s r ob) (map ((!) (triples st)) (indexed st s r ob)) =
       filter (matches s r ob) (triples st)"
proof -
  note get = subject_index.index_get relation_index.index_get object_index.index_get
  note pos = subject_index.nth_positions relation_index.nth_positions object_index.nth_positions
  have ix: "indexed st s r ob = (case s of Some k \<Rightarrow> positions subject_id (triples st) k
      | None \<Rightarrow> (case r of Some k \<Rightarrow> positions relation_id (triples st) k
      | None \<Rightarrow> (case ob of Some k \<Rightarrow> positions object_id (triples st) k
      | None \<Rightarrow> [0..<length (triples st)])))"
    using assms unfolding store_ok_def indexed_def Let_def
    by (cases s; cases r; cases ob) (simp_all add: get)
  show "set (indexed st s r ob) \<subseteq> {..<length (triples st)}"
    unfolding ix by (auto simp: positions_def split: option.splits)
  show "filter (matches s r ob) (map ((!) (triples st)) (indexed st s r ob)) =
      filter (matches s r ob) (triples st)"
    unfolding ix
    by (auto simp: pos filter_filter matches_def field_ok_def map_nth split: option.split
        intro!: filter_cong)
qed

lemma query_filter: "store_ok st \<Longrightarrow> triple_query st s r ob = Some (filter (matches s r ob) (triples st))"
  by (simp add: triple_query_def visit_def visit_loop_collect indexed_cases)

lemma has_iff:
  assumes "store_ok st"
  shows "has st s r ob = Some (\<exists>t \<in> set (triples st). matches s r ob t)"
proof -
  have "(\<exists>t \<in> set (map ((!) (triples st)) (indexed st s r ob)). matches s r ob t) \<longleftrightarrow>
      filter (matches s r ob) (triples st) \<noteq> []"
    unfolding indexed_cases(2) [OF assms, symmetric] filter_empty_conv by blast
  then show ?thesis
    using indexed_cases(1) [OF assms] by (simp add: has_def visit_def visit_loop_exists filter_empty_conv)
qed

section \<open>The abstract store\<close>

text \<open>
  What the store promises: a list of quadruples, to which \<open>add\<close> appends, from which \<open>remove\<close>
  takes the first equal triple and \<open>remove_composite\<close> all those of a composite.
\<close>

type_synonym quad = "string \<times> string \<times> string \<times> string"

definition quad_of :: "TripleRecord \<Rightarrow> quad" where
  "quad_of t = (subject_id t, relation_id t, object_id t, composite_id t)"

definition view :: "TripleRecord list \<Rightarrow> quad list" where
  "view ts = map quad_of (filter (\<lambda>t. \<not> deleted t) ts)"

fun remove_first :: "('a \<Rightarrow> bool) \<Rightarrow> 'a list \<Rightarrow> 'a list" where
  "remove_first P [] = []"
| "remove_first P (x # xs) = (if P x then xs else x # remove_first P xs)"

definition same_triple :: "string \<Rightarrow> string \<Rightarrow> string \<Rightarrow> quad \<Rightarrow> bool" where
  "same_triple s r ob q = (case q of (s', r', o', c') \<Rightarrow> s' = s \<and> r' = r \<and> o' = ob)"

definition of_composite :: "string \<Rightarrow> quad \<Rightarrow> bool" where
  "of_composite c q = (case q of (s', r', o', c') \<Rightarrow> c' = c)"

definition quad_matches :: "string option \<Rightarrow> string option \<Rightarrow> string option \<Rightarrow> quad \<Rightarrow> bool" where
  "quad_matches s r ob q = (case q of (s', r', o', c') \<Rightarrow> field_ok s s' \<and> field_ok r r' \<and> field_ok ob o')"

lemma remove_first_skip: "filter P xs = [] \<Longrightarrow> remove_first P (xs @ ys) = xs @ remove_first P ys"
  by (induction xs) (auto split: if_splits)

lemma view_append: "view (xs @ ys) = view xs @ view ys"
  by (simp add: view_def)

lemma filter_view:
  "filter P (view ts) = map quad_of (filter (\<lambda>t. \<not> deleted t \<and> P (quad_of t)) ts)"
  by (simp add: view_def filter_map o_def conj_commute)

lemma view_matches: "filter (quad_matches s r ob) (view ts) = map quad_of (filter (matches s r ob) ts)"
  unfolding filter_view by (simp add: quad_matches_def quad_of_def matches_def [abs_def])

lemma remove_search_find:
  "set is \<subseteq> {..<length ts} \<Longrightarrow> remove_search ts r ob is =
     Some (find (\<lambda>i. \<not> deleted (ts ! i) \<and> relation_id (ts ! i) = r \<and> object_id (ts ! i) = ob) is)"
  by (induction "is") auto

lemma find_filter: "find P (filter Q xs) = find (\<lambda>x. Q x \<and> P x) xs"
  by (induction xs) auto

lemma view_hide_first:
  assumes "find (\<lambda>i. \<not> deleted (ts ! i) \<and> P (quad_of (ts ! i))) [0..<length ts] = Some i"
  shows "i < length ts" "view (ts[i := hide (ts ! i)]) = remove_first P (view ts)" "\<exists>q \<in> set (view ts). P q"
proof -
  from assms have i: "i < length ts" "\<not> deleted (ts ! i)" "P (quad_of (ts ! i))"
    and before: "\<forall>j < i. deleted (ts ! j) \<or> \<not> P (quad_of (ts ! j))"
    by (auto simp: find_Some_iff)
  show "i < length ts" by (fact i)
  have split: "ts = take i ts @ ts ! i # drop (Suc i) ts" using i(1) by (rule id_take_nth_drop)
  have "filter P (view (take i ts)) = []"
    unfolding filter_view using before i(1) by (fastforce simp: filter_empty_conv in_set_conv_nth)
  then have "remove_first P (view (take i ts @ ts ! i # drop (Suc i) ts)) = view (take i ts @ drop (Suc i) ts)"
    unfolding view_append using i by (simp add: remove_first_skip view_def)
  moreover have "view (ts[i := hide (ts ! i)]) = view (take i ts @ drop (Suc i) ts)"
    using i(1) by (simp add: upd_conv_take_nth_drop view_append) (simp add: view_def hide_def)
  ultimately show "view (ts[i := hide (ts ! i)]) = remove_first P (view ts)" using split by simp
  show "\<exists>q \<in> set (view ts). P q" using i nth_mem [OF i(1)] unfolding view_def by fastforce
qed

lemma find_view_None:
  assumes "find (\<lambda>i. \<not> deleted (ts ! i) \<and> P (quad_of (ts ! i))) [0..<length ts] = None"
  shows "\<not> (\<exists>q \<in> set (view ts). P q)"
  using assms by (auto simp: find_None_iff view_def in_set_conv_nth)

lemma remove_first_none: "\<not> (\<exists>q \<in> set xs. P q) \<Longrightarrow> remove_first P xs = xs"
  by (induction xs) auto

lemma triple_remove_view:
  assumes "store_ok st"
  obtains st' where "triple_remove st s r ob = Some (st', \<exists>q \<in> set (view (triples st)). same_triple s r ob q)"
    "store_ok st'" "view (triples st') = remove_first (same_triple s r ob) (view (triples st))"
proof -
  let ?ts = "triples st"
  let ?f = "find (\<lambda>i. \<not> deleted (?ts ! i) \<and> same_triple s r ob (quad_of (?ts ! i))) [0..<length ?ts]"
  have "set (positions subject_id ?ts s) \<subseteq> {..<length ?ts}" by (auto dest: subject_index.positions_bound)
  then have "remove_search ?ts r ob (positions subject_id ?ts s) = Some ?f"
    by (simp add: remove_search_find) (simp add: positions_def find_filter same_triple_def quad_of_def
        conj_left_commute)
  moreover have "by_subject st s = (if positions subject_id ?ts s = [] then None else Some (positions subject_id ?ts s))"
    using assms by (simp add: store_ok_def index_of_def)
  ultimately have rm: "triple_remove st s r ob =
      (case ?f of None \<Rightarrow> Some (st, False) | Some i \<Rightarrow> Some (st\<lparr>triples := ?ts[i := hide (?ts ! i)]\<rparr>, True))"
    by (auto simp: triple_remove_def split: option.split)
  show ?thesis
  proof (cases ?f)
    case None
    note find_view_None [OF None]
    then show ?thesis using that [of st] rm None assms by (simp add: remove_first_none)
  next
    case (Some i)
    note view_hide_first [OF Some]
    then show ?thesis
      using that [of "st\<lparr>triples := ?ts[i := hide (?ts ! i)]\<rparr>"] rm Some store_ok_hide [OF assms, of i]
      by simp
  qed
qed

lemma hide_all_map:
  "set is \<subseteq> {..<length ts} \<Longrightarrow>
   hide_all ts is = Some (map (\<lambda>i. if i \<in> set is then hide (ts ! i) else ts ! i) [0..<length ts])"
proof (induction "is" arbitrary: ts)
  case Nil
  then show ?case by (simp add: map_nth)
next
  case (Cons i "is")
  have idem: "hide (hide t) = hide t" for t by (simp add: hide_def)
  have "hide_all ts (i # is) = hide_all (ts[i := hide (ts ! i)]) is" using Cons.prems by simp
  also have "\<dots> = Some (map (\<lambda>j. if j \<in> set is then hide (ts[i := hide (ts ! i)] ! j)
      else ts[i := hide (ts ! i)] ! j) [0..<length ts])"
    using Cons.prems by (subst Cons.IH) simp_all
  also have "\<dots> = Some (map (\<lambda>j. if j \<in> set (i # is) then hide (ts ! j) else ts ! j) [0..<length ts])"
    using Cons.prems by (auto simp: nth_list_update idem)
  finally show ?case .
qed

definition hide_composite :: "string \<Rightarrow> TripleRecord \<Rightarrow> TripleRecord" where
  "hide_composite c t = (if composite_id t = c then hide t else t)"

lemma hide_composite_keys:
  "subject_id (hide_composite c t) = subject_id t" "relation_id (hide_composite c t) = relation_id t"
  "object_id (hide_composite c t) = object_id t" "composite_id (hide_composite c t) = composite_id t"
  by (simp_all add: hide_composite_def hide_def)

lemma remove_composite_map:
  assumes "store_ok st"
  shows "remove_composite st c = Some (st\<lparr>triples := map (hide_composite c) (triples st)\<rparr>)"
proof -
  let ?ts = "triples st" and ?p = "positions composite_id (triples st) c"
  have ix: "by_composite st c = (if ?p = [] then None else Some ?p)"
    using assms by (simp add: store_ok_def index_of_def)
  have "set ?p \<subseteq> {..<length ?ts}" by (auto dest: composite_index.positions_bound)
  then have "hide_all ?ts ?p = Some (map (\<lambda>i. if i \<in> set ?p then hide (?ts ! i) else ?ts ! i) [0..<length ?ts])"
    by (rule hide_all_map)
  also have "map (\<lambda>i. if i \<in> set ?p then hide (?ts ! i) else ?ts ! i) [0..<length ?ts] =
      map (hide_composite c) ?ts"
    by (rule nth_equalityI) (auto simp: positions_def hide_composite_def)
  finally have all: "hide_all ?ts ?p = Some (map (hide_composite c) ?ts)" .
  moreover have "st = st\<lparr>triples := map (hide_composite c) ?ts\<rparr>" if "?p = []"
    using all that by simp
  ultimately show ?thesis by (auto simp: remove_composite_def ix)
qed

lemma store_ok_remove_composite:
  "store_ok st \<Longrightarrow> store_ok (st\<lparr>triples := map (hide_composite c) (triples st)\<rparr>)"
  by (simp add: store_ok_def subject_index.index_map relation_index.index_map object_index.index_map
      composite_index.index_map hide_composite_keys)

lemma view_hide_composite: "view (map (hide_composite c) ts) = filter (\<lambda>q. \<not> of_composite c q) (view ts)"
proof -
  have 1: "\<not> deleted (hide_composite c t) \<longleftrightarrow> \<not> deleted t \<and> composite_id t \<noteq> c" for t
    by (simp add: hide_composite_def hide_def)
  have 2: "quad_of (hide_composite c t) = quad_of t" for t
    by (simp add: hide_composite_keys quad_of_def)
  show ?thesis
    unfolding filter_view by (simp add: view_def filter_map o_def 1 2) (simp add: quad_of_def of_composite_def)
qed

lemma view_add: "view (triples (fst (triple_add st s r ob c))) = view (triples st) @ [(s, r, ob, c)]"
  by (simp add: triple_add_def Let_def view_def quad_of_def)

section \<open>Sequences of operations\<close>

datatype triple_op = Add string string string string | Remove string string string | RemoveComposite string

definition apply_op :: "triple_op \<Rightarrow> TripleStore \<Rightarrow> TripleStore option" where
  "apply_op op st = (case op of
     Add s r ob c \<Rightarrow> Some (fst (triple_add st s r ob c))
   | Remove s r ob \<Rightarrow> map_option fst (triple_remove st s r ob)
   | RemoveComposite c \<Rightarrow> remove_composite st c)"

fun run_ops :: "triple_op list \<Rightarrow> TripleStore \<Rightarrow> TripleStore option" where
  "run_ops [] st = Some st"
| "run_ops (op # ops) st = (case apply_op op st of None \<Rightarrow> None | Some st' \<Rightarrow> run_ops ops st')"

definition spec_op :: "triple_op \<Rightarrow> quad list \<Rightarrow> quad list" where
  "spec_op op qs = (case op of
     Add s r ob c \<Rightarrow> qs @ [(s, r, ob, c)]
   | Remove s r ob \<Rightarrow> remove_first (same_triple s r ob) qs
   | RemoveComposite c \<Rightarrow> filter (\<lambda>q. \<not> of_composite c q) qs)"

lemma apply_op_refines:
  assumes "store_ok st"
  obtains st' where "apply_op op st = Some st'" "store_ok st'" "view (triples st') = spec_op op (view (triples st))"
proof (cases op)
  case (Add s r ob c)
  then show ?thesis
    using that [of "fst (triple_add st s r ob c)"] store_ok_add [OF assms]
    by (simp add: apply_op_def spec_op_def view_add)
next
  case (Remove s r ob)
  obtain st' b where "triple_remove st s r ob = Some (st', b)" "store_ok st'"
      "view (triples st') = remove_first (same_triple s r ob) (view (triples st))"
    by (rule triple_remove_view [OF assms])
  then show ?thesis using that [of st'] Remove by (simp add: apply_op_def spec_op_def)
next
  case (RemoveComposite c)
  then show ?thesis
    using that store_ok_remove_composite [OF assms] assms
    by (simp add: apply_op_def spec_op_def remove_composite_map view_hide_composite)
qed

lemma run_ops_refines:
  "store_ok st \<Longrightarrow> \<exists>st'. run_ops ops st = Some st' \<and> store_ok st' \<and>
     view (triples st') = fold spec_op ops (view (triples st))"
proof (induction ops arbitrary: st)
  case (Cons op ops)
  obtain st1 where "apply_op op st = Some st1" "store_ok st1" "view (triples st1) = spec_op op (view (triples st))"
    using apply_op_refines [OF Cons.prems] .
  then show ?case using Cons.IH [of st1] by simp
qed simp

lemma composite_visit:
  assumes "store_ok st"
  shows "by_composite_id st c = Some (filter (\<lambda>t. \<not> deleted t \<and> composite_id t = c) (triples st))"
    "has_composite st c = Some (\<exists>t \<in> set (triples st). \<not> deleted t \<and> composite_id t = c)"
proof -
  let ?p = "positions composite_id (triples st) c"
  have ix: "by_composite st c = (if ?p = [] then None else Some ?p)"
    using assms by (simp add: store_ok_def index_of_def)
  have sub: "set ?p \<subseteq> {..<length (triples st)}" by (auto dest: composite_index.positions_bound)
  have recs: "map ((!) (triples st)) ?p = filter (\<lambda>t. composite_id t = c) (triples st)"
    by (rule composite_index.nth_positions)
  show "by_composite_id st c = Some (filter (\<lambda>t. \<not> deleted t \<and> composite_id t = c) (triples st))"
    using visit_loop_collect [OF sub, of "\<lambda>t. \<not> deleted t" "[]"] recs
    by (auto simp: by_composite_id_def ix conj_commute split: if_splits)
  show "has_composite st c = Some (\<exists>t \<in> set (triples st). \<not> deleted t \<and> composite_id t = c)"
    using visit_loop_exists [OF sub, of "\<lambda>t. \<not> deleted t"] recs
    by (auto simp: has_composite_def ix filter_empty_conv)
qed

section \<open>Bounded snapshots\<close>

definition snapshot_cost :: "TripleRecord list \<Rightarrow> usize" where
  "snapshot_cost ts = sum_list (map triple_cost (filter (\<lambda>t. \<not> deleted t) ts))"

definition fits :: "QueryBudget \<Rightarrow> usize \<Rightarrow> usize \<Rightarrow> bool" where
  "fits b w n \<longleftrightarrow> work_used b + w \<le> max_work (limits b) \<and> bytes_used b + n \<le> max_bytes (limits b)"

definition spend :: "QueryBudget \<Rightarrow> usize \<Rightarrow> usize \<Rightarrow> QueryBudget" where
  "spend b w n = b\<lparr>work_used := work_used b + w, bytes_used := bytes_used b + n\<rparr>"

lemma matches_any: "matches None None None = (\<lambda>t. \<not> deleted t)"
  by (simp add: matches_def field_ok_def fun_eq_iff)

lemma snapshot_visitor_iff:
  "budget_wf b \<Longrightarrow> snapshot_visitor acc t b =
     (if bytes_used b + triple_cost t \<le> max_bytes (limits b)
      then (acc @ [t], b\<lparr>bytes_used := bytes_used b + triple_cost t\<rparr>, None)
      else (acc, b, Some (QueryLimitExceeded ''bytes'' (max_bytes (limits b)))))"
  by (simp add: snapshot_visitor_def budget_reserve_iff)

lemma visit_bounded_snapshot:
  assumes "budget_wf b" "set is \<subseteq> {..<length ts}"
  shows "if fits b (length is) (snapshot_cost (map ((!) ts) is))
    then visit_bounded_loop (\<lambda>t. \<not> deleted t) snapshot_visitor ts is acc b =
      Some (acc @ filter (\<lambda>t. \<not> deleted t) (map ((!) ts) is), spend b (length is) (snapshot_cost (map ((!) ts) is)), None)
    else \<exists>acc' b' e. visit_bounded_loop (\<lambda>t. \<not> deleted t) snapshot_visitor ts is acc b = Some (acc', b', Some e) \<and>
      budget_wf b' \<and> limits b' = limits b"
  using assms
proof (induction "is" arbitrary: acc b)
  case Nil
  then show ?case by (simp add: fits_def spend_def snapshot_cost_def budget_wf_def)
next
  case (Cons i "is")
  let ?b1 = "b\<lparr>work_used := Suc (work_used b)\<rparr>"
  let ?c = "if deleted (ts ! i) then 0 else triple_cost (ts ! i)"
  let ?b2 = "?b1\<lparr>bytes_used := bytes_used b + ?c\<rparr>"
  let ?rest = "snapshot_cost (map ((!) ts) is)"
  have cost: "snapshot_cost (map ((!) ts) (i # is)) = ?c + ?rest" by (simp add: snapshot_cost_def)
  have sub: "i < length ts" "set is \<subseteq> {..<length ts}" using Cons.prems by auto
  consider "max_work (limits b) < Suc (work_used b)"
    | "Suc (work_used b) \<le> max_work (limits b)" "max_bytes (limits b) < bytes_used b + ?c"
    | "Suc (work_used b) \<le> max_work (limits b)" "bytes_used b + ?c \<le> max_bytes (limits b)" by linarith
  then show ?case
  proof cases
    case 1
    then show ?thesis using Cons.prems sub by (simp add: budget_work_iff fits_def)
  next
    case 2
    have wf: "budget_wf ?b1" using Cons.prems(1) 2 by (simp add: budget_wf_def)
    have "\<not> fits b (length (i # is)) (snapshot_cost (map ((!) ts) (i # is)))"
      unfolding cost using 2 by (simp add: fits_def)
    moreover have "\<not> deleted (ts ! i)" using 2 Cons.prems(1) by (auto simp: budget_wf_def)
    ultimately show ?thesis
      using 2 wf Cons.prems sub by (simp add: budget_work_iff snapshot_visitor_iff)
  next
    case 3
    have wf: "budget_wf ?b1" "budget_wf ?b2" using Cons.prems(1) 3 by (auto simp: budget_wf_def)
    have step: "visit_bounded_loop (\<lambda>t. \<not> deleted t) snapshot_visitor ts (i # is) acc b =
        visit_bounded_loop (\<lambda>t. \<not> deleted t) snapshot_visitor ts is
          (acc @ filter (\<lambda>t. \<not> deleted t) [ts ! i]) ?b2"
      using 3 wf Cons.prems(1) sub by (cases "deleted (ts ! i)") (simp_all add: budget_work_iff snapshot_visitor_iff)
    have fits_eq: "fits b (length (i # is)) (?c + ?rest) \<longleftrightarrow> fits ?b2 (length is) ?rest"
      by (auto simp: fits_def)
    have spend_eq: "spend b (length (i # is)) (?c + ?rest) = spend ?b2 (length is) ?rest"
      by (simp add: spend_def)
    have recs: "acc @ filter (\<lambda>t. \<not> deleted t) (map ((!) ts) (i # is)) =
        (acc @ filter (\<lambda>t. \<not> deleted t) [ts ! i]) @ filter (\<lambda>t. \<not> deleted t) (map ((!) ts) is)"
      by simp
    have lim: "limits ?b2 = limits b" by simp
    show ?thesis
      unfolding step cost fits_eq spend_eq recs lim [symmetric] by (rule Cons.IH [OF wf(2) sub(2)])
  qed
qed

section \<open>Properties\<close>

text \<open>
  C26. The triple store implements a list of quadruples: no sequence of additions and removals
  panics, and after it a query returns, in insertion order, exactly the live quadruples that
  agree with the given fields, whichever index the query went through; \<open>has\<close> says whether there
  is one, \<open>by_composite_id\<close> returns those of a composite and \<open>count\<close> their number.
\<close>

theorem triple_store_refines:
  "\<exists>st. run_ops ops triple_store_new = Some st \<and>
     map_option (map quad_of) (triple_query st s r ob) = Some (filter (quad_matches s r ob) (fold spec_op ops [])) \<and>
     has st s r ob = Some (filter (quad_matches s r ob) (fold spec_op ops []) \<noteq> []) \<and>
     map_option (map quad_of) (by_composite_id st c) = Some (filter (of_composite c) (fold spec_op ops [])) \<and>
     has_composite st c = Some (filter (of_composite c) (fold spec_op ops []) \<noteq> []) \<and>
     triple_count st = length (fold spec_op ops [])"
proof -
  obtain st where st: "run_ops ops triple_store_new = Some st" "store_ok st"
      "view (triples st) = fold spec_op ops []"
    using run_ops_refines [OF store_ok_new, of ops] by (auto simp: triple_store_new_def view_def)
  have comp_view: "filter (of_composite c) (view (triples st)) =
      map quad_of (filter (\<lambda>t. \<not> deleted t \<and> composite_id t = c) (triples st))"
    unfolding filter_view by (simp add: of_composite_def quad_of_def)
  have "triple_count st = length (view (triples st))" by (simp add: triple_count_def view_def)
  then show ?thesis
    using st(1) unfolding st(3) [symmetric]
    by (simp add: query_filter has_iff composite_visit st(2) view_matches comp_view filter_empty_conv)
qed

text \<open>
  Removing a triple reports whether it was there: after any sequence of operations
  \<open>remove\<close> returns true exactly when a live quadruple with these three fields exists, and
  removes the oldest of them only.
\<close>

theorem triple_remove_reports:
  "\<exists>st st'. run_ops ops triple_store_new = Some st \<and>
     triple_remove st s r ob = Some (st', filter (same_triple s r ob) (fold spec_op ops []) \<noteq> []) \<and>
     view (triples st') = remove_first (same_triple s r ob) (fold spec_op ops [])"
proof -
  obtain st where st: "run_ops ops triple_store_new = Some st" "store_ok st"
      "view (triples st) = fold spec_op ops []"
    using run_ops_refines [OF store_ok_new, of ops] by (auto simp: triple_store_new_def view_def)
  obtain st' where "triple_remove st s r ob = Some (st', \<exists>q \<in> set (view (triples st)). same_triple s r ob q)"
      "view (triples st') = remove_first (same_triple s r ob) (view (triples st))"
    by (rule triple_remove_view [OF st(2)])
  then show ?thesis using st by (auto simp: filter_empty_conv)
qed

text \<open>
  C27. A bounded snapshot is exact or refused: it returns the complete snapshot and charges one
  unit of work per stored triple and the size of the live ones exactly when both fit the
  budget, and otherwise an error, with the budget still within its limits; it never returns a
  part of the store.
\<close>

theorem bounded_snapshot_exact:
  assumes "budget_wf b"
  shows "bounded_snapshot st b =
      Some (spend b (length (triples st)) (snapshot_cost (triples st)), Inr (snapshot st)) \<and>
      fits b (length (triples st)) (snapshot_cost (triples st)) \<or>
    (\<exists>b' e. bounded_snapshot st b = Some (b', Inl e) \<and> budget_wf b' \<and> limits b' = limits b) \<and>
      \<not> fits b (length (triples st)) (snapshot_cost (triples st))"
proof -
  have all: "map ((!) (triples st)) [0..<length (triples st)] = triples st" by (rule map_nth)
  have sub: "set [0..<length (triples st)] \<subseteq> {..<length (triples st)}" by auto
  have snap: "bounded_snapshot st b = (case visit_bounded_loop (\<lambda>t. \<not> deleted t) snapshot_visitor (triples st)
      [0..<length (triples st)] [] b of None \<Rightarrow> None
      | Some (acc, b', Some e) \<Rightarrow> Some (b', Inl e) | Some (acc, b', None) \<Rightarrow> Some (b', Inr acc))"
    by (simp add: bounded_snapshot_def visit_bounded_def matches_any indexed_def)
  show ?thesis
    using visit_bounded_snapshot [OF assms sub, of "[]"] unfolding all snap snapshot_def
    by (cases "fits b (length (triples st)) (snapshot_cost (triples st))") auto
qed

theorem bounded_snapshot_exact_witness:
  "\<exists>b'. bounded_snapshot (fst (triple_add triple_store_new ''a'' ''b'' ''c'' ''d'')) (budget_new default_limits) =
     Some (b', Inr [\<lparr>subject_id = ''a'', relation_id = ''b'', object_id = ''c'', composite_id = ''d'',
       deleted = False\<rparr>])"
proof -
  let ?st = "fst (triple_add triple_store_new ''a'' ''b'' ''c'' ''d'')"
  let ?b = "budget_new default_limits"
  have wf: "budget_wf ?b" by (simp add: budget_wf_def budget_new_def default_limits_def USIZE_MAX_def)
  have st: "triples ?st = [\<lparr>subject_id = ''a'', relation_id = ''b'', object_id = ''c'', composite_id = ''d'',
      deleted = False\<rparr>]" by (simp add: triple_add_def triple_store_new_def)
  have "fits ?b (length (triples ?st)) (snapshot_cost (triples ?st))"
    unfolding st by (simp add: fits_def snapshot_cost_def triple_cost_def saturating_add_def saturating_mul_def
        USIZE_MAX_def budget_new_def default_limits_def)
  then show ?thesis using bounded_snapshot_exact [OF wf, of ?st] st by (auto simp: snapshot_def)
qed

end
