(* ===== verification/Stamp.thy ===== *)
theory Stamp
  imports Bytes
begin

text \<open>
  \<open>src/core/memory_api/stamp.rs\<close> and \<open>apply_placement\<close> and \<open>valid_id\<close> of
  \<open>src/core/memory_api/write.rs\<close>: the persisted form of the memory fields of a fact.

  A string is the list of its UTF-8 bytes.  \<open>Millis\<close> (\<open>i64\<close>) is an integer.  A JSON value is a
  datatype with the constructors of \<open>serde_json::Value\<close>; an object is a map, since the
  crate's object keeps no insertion order.  Printing and parsing JSON text (\<open>to_string\<close>,
  \<open>from_str\<close>) belong to that crate and are parameters.  A Rust panic is \<open>None\<close>.
\<close>

section \<open>JSON values\<close>

datatype json_number = Integer int | Float u64

datatype json_value =
    Null
  | Bool bool
  | Number json_number
  | Str string
  | Array "json_value list"
  | Object "string \<Rightarrow> json_value option"

type_synonym Millis = int

definition i64_range :: "int set" where "i64_range = {- (2 ^ 63)..<2 ^ 63}"

fun as_i64 :: "json_value \<Rightarrow> Millis option" where
  "as_i64 (Number (Integer n)) = (if - (2 ^ 63) \<le> n \<and> n < 2 ^ 63 then Some n else None)"
| "as_i64 _ = None"

fun as_str :: "json_value \<Rightarrow> string option" where
  "as_str (Str s) = Some s"
| "as_str _ = None"

fun as_array :: "json_value \<Rightarrow> json_value list option" where
  "as_array (Array l) = Some l"
| "as_array _ = None"

fun as_object :: "json_value \<Rightarrow> (string \<Rightarrow> json_value option) option" where
  "as_object (Object m) = Some m"
| "as_object _ = None"

definition value_get :: "json_value \<Rightarrow> string \<Rightarrow> json_value option" where
  "value_get v k = (case v of Object m \<Rightarrow> m k | _ \<Rightarrow> None)"

section \<open>Stamps\<close>

definition KEY :: string where "KEY = ''_mem''"
definition VERSION :: int where "VERSION = 1"
definition VERSION_PREFIX :: string where "VERSION_PREFIX = ''mem1:''"
definition MAX_VERSION_BYTES :: usize where "MAX_VERSION_BYTES = 1024"

datatype Placement = PlaceVersion string | PlaceMetadata json_value

record Stamp =
  ingest :: Millis
  event :: "Millis option"
  valid_from :: "Millis option"
  valid_to :: "Millis option"
  subject :: "string option"
  supersedes :: "string list"
  superseded_by :: "string list"
  entities :: "string list"
  hash :: "string option"

definition stamp_default :: Stamp where
  "stamp_default = \<lparr>ingest = 0, event = None, valid_from = None, valid_to = None, subject = None,
     supersedes = [], superseded_by = [], entities = [], hash = None\<rparr>"

definition option_or :: "'a option \<Rightarrow> 'a option \<Rightarrow> 'a option" where
  "option_or a b = (case a of None \<Rightarrow> b | Some _ \<Rightarrow> a)"

definition effective_from :: "Stamp \<Rightarrow> Millis" where
  "effective_from s = (case option_or (valid_from s) (event s) of None \<Rightarrow> ingest s | Some t \<Rightarrow> t)"

definition windowed :: "Stamp \<Rightarrow> bool" where
  "windowed s \<longleftrightarrow> valid_from s \<noteq> None \<or> valid_to s \<noteq> None"

definition put_some :: "string \<Rightarrow> json_value option \<Rightarrow> (string \<Rightarrow> json_value option) \<Rightarrow> string \<Rightarrow> json_value option" where
  "put_some k v m = (case v of None \<Rightarrow> m | Some x \<Rightarrow> m(k \<mapsto> x))"

definition put_time :: "string \<times> Millis option \<Rightarrow> (string \<Rightarrow> json_value option) \<Rightarrow> string \<Rightarrow> json_value option" where
  "put_time e = put_some (fst e) (map_option (\<lambda>t. Number (Integer t)) (snd e))"

definition list_value :: "string list \<Rightarrow> json_value option" where
  "list_value l = (if l = [] then None else Some (Array (map Str l)))"

definition put_list :: "string \<times> string list \<Rightarrow> (string \<Rightarrow> json_value option) \<Rightarrow> string \<Rightarrow> json_value option" where
  "put_list e = put_some (fst e) (list_value (snd e))"

definition to_value :: "Stamp \<Rightarrow> json_value" where
  "to_value s =
     (let m = [''v'' \<mapsto> Number (Integer VERSION), ''ingest'' \<mapsto> Number (Integer (ingest s))];
          m = fold put_time [(''event'', event s), (''from'', valid_from s), (''to'', valid_to s)] m;
          m = put_some ''subject'' (map_option Str (subject s)) m;
          m = fold put_list [(''supersedes'', supersedes s), (''supersededBy'', superseded_by s),
                             (''entities'', entities s)] m;
          m = put_some ''hash'' (map_option Str (hash s)) m
      in Object m)"

definition get_time :: "(string \<Rightarrow> json_value option) \<Rightarrow> string \<Rightarrow> Millis option" where
  "get_time m k = Option.bind (m k) as_i64"

definition get_strings :: "(string \<Rightarrow> json_value option) \<Rightarrow> string \<Rightarrow> string list" where
  "get_strings m k = (case Option.bind (m k) as_array of None \<Rightarrow> [] | Some items \<Rightarrow> List.map_filter as_str items)"

definition from_object :: "(string \<Rightarrow> json_value option) \<Rightarrow> Stamp option" where
  "from_object m =
     (case get_time m ''ingest'' of
        None \<Rightarrow> None
      | Some t \<Rightarrow> Some \<lparr>ingest = t, event = get_time m ''event'', valid_from = get_time m ''from'',
          valid_to = get_time m ''to'', subject = Option.bind (m ''subject'') as_str,
          supersedes = get_strings m ''supersedes'', superseded_by = get_strings m ''supersededBy'',
          entities = get_strings m ''entities'', hash = Option.bind (m ''hash'') as_str\<rparr>)"

definition from_value :: "json_value \<Rightarrow> Stamp option" where
  "from_value v = Option.bind (as_object v) from_object"

definition from_metadata :: "json_value \<Rightarrow> Stamp option" where
  "from_metadata metadata = Option.bind (value_get metadata KEY) from_value"

definition strip_prefix :: "string \<Rightarrow> string \<Rightarrow> string option" where
  "strip_prefix p s = (if take (length p) s = p then Some (drop (length p) s) else None)"

definition from_parts :: "(string \<Rightarrow> json_value option) \<Rightarrow> string \<Rightarrow> json_value \<Rightarrow> Stamp option" where
  "from_parts from_str version metadata =
     (case strip_prefix VERSION_PREFIX version of
        Some json \<Rightarrow> Option.bind (from_str json) from_value
      | None \<Rightarrow> from_metadata metadata)"

definition placement :: "(json_value \<Rightarrow> string) \<Rightarrow> Stamp \<Rightarrow> Placement" where
  "placement to_string s =
     (let compact = VERSION_PREFIX @ to_string (to_value s)
      in if length compact \<le> MAX_VERSION_BYTES then PlaceVersion compact else PlaceMetadata (to_value s))"

definition user_metadata :: "json_value \<Rightarrow> json_value" where
  "user_metadata metadata = (case metadata of Object m \<Rightarrow> Object (m(KEY := None)) | v \<Rightarrow> v)"

text \<open>
  \<open>apply_placement\<close>: assigning to a key turns \<open>null\<close> into an object and panics on a value that
  is neither.
\<close>

definition apply_placement :: "(json_value \<Rightarrow> string) \<Rightarrow> Stamp \<Rightarrow> json_value \<Rightarrow> (string option \<times> json_value) option" where
  "apply_placement to_string s metadata =
     (let metadata = user_metadata metadata
      in case placement to_string s of
           PlaceVersion version \<Rightarrow> Some (Some version, metadata)
         | PlaceMetadata value \<Rightarrow>
             (case metadata of
                Object m \<Rightarrow> Some (None, Object (m(KEY \<mapsto> value)))
              | Null \<Rightarrow> Some (None, Object [KEY \<mapsto> value])
              | _ \<Rightarrow> None))"

section \<open>The payload hash\<close>

definition PRIME :: u64 where "PRIME = 0x00000100000001b3"

definition feed :: "u8 \<Rightarrow> u64 \<times> u64 \<Rightarrow> u64 \<times> u64" where
  "feed byte lanes = (case lanes of (a, b) \<Rightarrow>
     ((a XOR ucast (byte XOR 0)) * PRIME, (b XOR ucast (byte XOR 0x5a)) * PRIME))"

fun hash_parts :: "u8 list list \<Rightarrow> u64 \<times> u64 \<Rightarrow> u64 \<times> u64" where
  "hash_parts [] lanes = lanes"
| "hash_parts (part # parts) lanes =
     hash_parts parts (fold feed part (fold feed (u64_le_bytes (of_nat (length part))) lanes))"

definition hex_digit :: "nat \<Rightarrow> char" where
  "hex_digit n = ''0123456789abcdef'' ! (n mod 16)"

definition hex16 :: "u64 \<Rightarrow> string" where
  "hex16 w = map (\<lambda>i. hex_digit (unat w div 16 ^ (15 - i))) [0..<16]"

definition stable_hash :: "u8 list list \<Rightarrow> string" where
  "stable_hash parts =
     (case hash_parts parts (0xcbf29ce484222325, 0x84222325cbf29ce4) of (a, b) \<Rightarrow> hex16 a @ hex16 b)"

definition MAX_ID_BYTES :: usize where "MAX_ID_BYTES = 4096"

text \<open>
  A character is a control character when it is below \<open>0x20\<close> or in \<open>0x7f..0x9f\<close>; the latter
  take two bytes, \<open>0xc2\<close> and the code itself.
\<close>

fun has_control :: "string \<Rightarrow> bool" where
  "has_control [] = False"
| "has_control [c] = (of_char c < (0x20 :: nat) \<or> of_char c = (0x7f :: nat))"
| "has_control (c # d # cs) =
     (of_char c < (0x20 :: nat) \<or> of_char c = (0x7f :: nat) \<or>
      of_char c = (0xc2 :: nat) \<and> of_char d < (0xa0 :: nat) \<or> has_control (d # cs))"

definition valid_id :: "string \<Rightarrow> bool" where
  "valid_id s \<longleftrightarrow> s \<noteq> [] \<and> length s \<le> MAX_ID_BYTES \<and> \<not> has_control s \<and> strip_prefix ''hms:'' s = None"

section \<open>Reading back\<close>

lemma map_filter_as_str [simp]: "List.map_filter as_str (map Str l) = l"
  by (induction l) (simp_all add: List.map_filter_simps)

lemma option_or_simps [simp]: "option_or v None = v" "option_or (Some x) w = Some x"
  by (cases v) (simp_all add: option_or_def)

lemma put_some_same: "put_some k v m k = option_or v (m k)"
  by (simp add: put_some_def option_or_def split: option.split)

lemma put_some_other: "j \<noteq> k \<Longrightarrow> put_some k v m j = m j"
  by (simp add: put_some_def split: option.split)

definition stamp_times :: "Stamp \<Rightarrow> int set" where
  "stamp_times s = insert (ingest s) (set_option (event s) \<union> set_option (valid_from s) \<union> set_option (valid_to s))"

text \<open>The object of a stamp, key by key.\<close>

definition stamp_object :: "Stamp \<Rightarrow> string \<Rightarrow> json_value option" where
  "stamp_object s = (case to_value s of Object m \<Rightarrow> m)"

lemma to_value_object: "to_value s = Object (stamp_object s)"
  by (simp add: stamp_object_def to_value_def Let_def)

lemma stamp_object_keys:
  "stamp_object s ''ingest'' = Some (Number (Integer (ingest s)))"
  "stamp_object s ''event'' = map_option (\<lambda>t. Number (Integer t)) (event s)"
  "stamp_object s ''from'' = map_option (\<lambda>t. Number (Integer t)) (valid_from s)"
  "stamp_object s ''to'' = map_option (\<lambda>t. Number (Integer t)) (valid_to s)"
  "stamp_object s ''subject'' = map_option Str (subject s)"
  "stamp_object s ''supersedes'' = list_value (supersedes s)"
  "stamp_object s ''supersededBy'' = list_value (superseded_by s)"
  "stamp_object s ''entities'' = list_value (entities s)"
  "stamp_object s ''hash'' = map_option Str (hash s)"
  by (simp_all add: stamp_object_def to_value_def Let_def put_time_def put_list_def put_some_same put_some_other VERSION_def)

lemma get_time_int:
  "set_option t \<subseteq> i64_range \<Longrightarrow> Option.bind (map_option (\<lambda>t. Number (Integer t)) t) as_i64 = t"
  by (cases t) (auto simp: i64_range_def)

lemma get_str: "Option.bind (map_option Str t) as_str = t"
  by (cases t) auto

lemma from_value_to_value:
  assumes "stamp_times s \<subseteq> i64_range"
  shows "from_value (to_value s) = Some s"
proof -
  have range: "ingest s \<in> i64_range" "set_option (event s) \<subseteq> i64_range"
    "set_option (valid_from s) \<subseteq> i64_range" "set_option (valid_to s) \<subseteq> i64_range"
    using assms by (auto simp: stamp_times_def)
  have times: "get_time (stamp_object s) ''ingest'' = Some (ingest s)"
    "get_time (stamp_object s) ''event'' = event s" "get_time (stamp_object s) ''from'' = valid_from s"
    "get_time (stamp_object s) ''to'' = valid_to s"
    using range by (simp_all add: get_time_def stamp_object_keys get_time_int i64_range_def)
  have lists: "get_strings (stamp_object s) ''supersedes'' = supersedes s"
    "get_strings (stamp_object s) ''supersededBy'' = superseded_by s"
    "get_strings (stamp_object s) ''entities'' = entities s"
    by (auto simp: get_strings_def stamp_object_keys list_value_def)
  show ?thesis
    by (simp add: to_value_object from_value_def from_object_def times lists stamp_object_keys get_str)
qed

lemma strip_prefix_append [simp]: "strip_prefix p (p @ s) = Some s"
  by (simp add: strip_prefix_def)

lemma hex_digit_safe: "of_char (hex_digit n) \<in> {0x30..0x39 :: nat} \<union> {0x61..0x66}"
proof -
  have "\<forall>i \<in> set [0..<16]. of_char (''0123456789abcdef'' ! i) \<in> {0x30..0x39 :: nat} \<union> {0x61..0x66}"
    by code_simp
  then show ?thesis by (simp add: hex_digit_def)
qed

lemma no_control: "(\<forall>c \<in> set s. 0x20 \<le> (of_char c :: nat) \<and> (of_char c :: nat) < 0x7f) \<Longrightarrow> \<not> has_control s"
  by (induction s rule: has_control.induct) auto

lemma stable_hash_digits:
  "length (stable_hash parts) = 32"
  "set (stable_hash parts) \<subseteq> range hex_digit"
  by (auto simp: stable_hash_def hex16_def split: prod.split)

lemma derived_id_ok: "valid_id (''mem:'' @ stable_hash parts)"
proof -
  have "0x20 \<le> (of_char c :: nat) \<and> (of_char c :: nat) < 0x7f" if c: "c \<in> set (stable_hash parts)" for c
  proof -
    obtain n where "c = hex_digit n" using c stable_hash_digits(2) [of parts] by auto
    then show ?thesis using hex_digit_safe [of n] by auto
  qed
  then have "\<forall>c \<in> set (''mem:'' @ stable_hash parts). 0x20 \<le> (of_char c :: nat) \<and> (of_char c :: nat) < 0x7f"
    by simp
  then have "\<not> has_control (''mem:'' @ stable_hash parts)" by (rule no_control)
  then show ?thesis by (simp add: valid_id_def MAX_ID_BYTES_def stable_hash_digits(1) strip_prefix_def)
qed

lemma placement_reads_back:
  assumes "stamp_times s \<subseteq> i64_range" "from_str (to_string (to_value s)) = Some (to_value s)"
    "strip_prefix VERSION_PREFIX engine_default = None"
  shows "\<exists>version metadata. apply_placement to_string s (Object m) = Some (version, metadata) \<and>
    from_parts from_str (case version of None \<Rightarrow> engine_default | Some v \<Rightarrow> v) metadata = Some s \<and>
    user_metadata metadata = user_metadata (Object m)"
  using assms from_value_to_value [OF assms(1)]
  by (simp add: apply_placement_def placement_def Let_def user_metadata_def from_parts_def
      from_metadata_def value_get_def)

section \<open>Properties\<close>

text \<open>
  C32. A stamp survives storage: wherever \<open>placement\<close> puts the stamp of a fact whose times are
  64-bit integers, the version string or the reserved metadata key, reading the stored document
  gives the same stamp, and the caller's metadata is unchanged.
\<close>

theorem stamp_roundtrip:
  assumes "stamp_times s \<subseteq> i64_range" "from_str (to_string (to_value s)) = Some (to_value s)"
    "strip_prefix VERSION_PREFIX engine_default = None"
  shows "\<exists>version metadata. apply_placement to_string s (Object m) = Some (version, metadata) \<and>
    from_parts from_str (case version of None \<Rightarrow> engine_default | Some v \<Rightarrow> v) metadata = Some s \<and>
    user_metadata metadata = user_metadata (Object m)"
  using assms by (rule placement_reads_back)

theorem stamp_roundtrip_witness:
  "\<exists>version metadata. apply_placement (\<lambda>_. ''{}'') stamp_default (Object (\<lambda>_. None)) = Some (version, metadata) \<and>
     from_parts (\<lambda>_. Some (to_value stamp_default)) (case version of None \<Rightarrow> ''1'' | Some v \<Rightarrow> v) metadata =
       Some stamp_default"
  using stamp_roundtrip [of stamp_default "\<lambda>_. Some (to_value stamp_default)" "\<lambda>_. ''{}''" "''1''" "\<lambda>_. None"]
  by (auto simp: stamp_times_def i64_range_def strip_prefix_def VERSION_PREFIX_def stamp_default_def)

end
