(* ===== verification/MemoryIndex.thy ===== *)
theory MemoryIndex
  imports Stamp QueryLimits "HOL-Library.Finite_Map" "HOL-Library.List_Lexorder" "HOL-Library.Char_ord"
    "HOL-Library.Product_Lexorder"
begin

text \<open>
  \<open>src/core/memory_api/index.rs\<close>: the index over fact stamps (supersession links in both
  directions, subject groups, entity postings), its graph walks, and \<open>evaluate\<close> of
  \<open>src/core/memory_api/recall.rs\<close>, the status of a fact at a time.

  A \<open>HashMap\<close> is a finite map, a \<open>HashSet\<close> or \<open>BTreeSet\<close> a set.  A \<open>Vec\<close> used as a stack is a
  list whose head is the last element of the vector.
\<close>

section \<open>Data\<close>

record Edge =
  e_by :: string
  e_effective :: Millis
  e_ingest :: Millis

record Member =
  m_id :: string
  m_effective :: Millis
  m_ingest :: Millis

record Index =
  revision :: "u64 option"
  ix_windowed :: usize
  ix_superseded_by :: "(string, Edge list) fmap"
  predecessors :: "(string, string list) fmap"
  by_subject :: "(string, Member list) fmap"
  by_entity :: "(string, string list) fmap"

definition index_default :: Index where
  "index_default = \<lparr>revision = None, ix_windowed = 0, ix_superseded_by = fmempty,
     predecessors = fmempty, by_subject = fmempty, by_entity = fmempty\<rparr>"

definition lookup_list :: "('k, 'v list) fmap \<Rightarrow> 'k \<Rightarrow> 'v list" where
  "lookup_list m k = (case fmlookup m k of None \<Rightarrow> [] | Some l \<Rightarrow> l)"

section \<open>Lookups\<close>

definition constrained :: "Index \<Rightarrow> bool" where
  "constrained ix \<longleftrightarrow> 0 < ix_windowed ix \<or> ix_superseded_by ix \<noteq> fmempty"

definition edges :: "Index \<Rightarrow> string \<Rightarrow> Edge list" where
  "edges ix i = lookup_list (ix_superseded_by ix) i"

definition members :: "Index \<Rightarrow> string \<Rightarrow> Member list" where
  "members ix s = sort_key (\<lambda>m. (m_effective m, m_ingest m, m_id m)) (lookup_list (by_subject ix) s)"

definition member :: "Index \<Rightarrow> string \<Rightarrow> string \<Rightarrow> (Millis \<times> Millis) option" where
  "member ix s i = map_option (\<lambda>m. (m_effective m, m_ingest m)) (find (\<lambda>m. m_id m = i) (lookup_list (by_subject ix) s))"

definition entity_ids :: "Index \<Rightarrow> string \<Rightarrow> string list" where
  "entity_ids ix e = lookup_list (by_entity ix) e"

definition subject_ids :: "Index \<Rightarrow> string \<Rightarrow> string list" where
  "subject_ids ix s = map m_id (lookup_list (by_subject ix) s)"

definition direct_predecessors :: "Index \<Rightarrow> string \<Rightarrow> string list" where
  "direct_predecessors ix i = lookup_list (predecessors ix) i"

section \<open>Updates\<close>

definition add_edge :: "string \<Rightarrow> string \<Rightarrow> Millis \<Rightarrow> Millis \<Rightarrow> Index \<Rightarrow> Index" where
  "add_edge old by eff ing ix =
     (let es = edges ix old in
      if by \<in> e_by ` set es then ix\<lparr>ix_superseded_by := fmupd old es (ix_superseded_by ix)\<rparr>
      else
        let olds = direct_predecessors ix by in
        ix\<lparr>ix_superseded_by := fmupd old (es @ [\<lparr>e_by = by, e_effective = eff, e_ingest = ing\<rparr>]) (ix_superseded_by ix),
           predecessors := fmupd by (if old \<in> set olds then olds else olds @ [old]) (predecessors ix)\<rparr>)"

definition insert_member :: "string \<Rightarrow> Stamp \<Rightarrow> string \<Rightarrow> Index \<Rightarrow> Index" where
  "insert_member i st s ix =
     ix\<lparr>by_subject := fmupd s (filter (\<lambda>m. m_id m \<noteq> i) (lookup_list (by_subject ix) s) @
         [\<lparr>m_id = i, m_effective = effective_from st, m_ingest = ingest st\<rparr>]) (by_subject ix)\<rparr>"

definition insert_entity :: "string \<Rightarrow> string \<Rightarrow> Index \<Rightarrow> Index" where
  "insert_entity i e ix =
     (let ids = entity_ids ix e
      in ix\<lparr>by_entity := fmupd e (if i \<in> set ids then ids else ids @ [i]) (by_entity ix)\<rparr>)"

definition index_insert :: "string \<Rightarrow> Stamp \<Rightarrow> (string \<Rightarrow> (Millis \<times> Millis) option) \<Rightarrow> Index \<Rightarrow> Index" where
  "index_insert i st lookup ix =
     (let ix = (if windowed st then ix\<lparr>ix_windowed := ix_windowed ix + 1\<rparr> else ix);
          ix = fold (\<lambda>old. add_edge old i (effective_from st) (ingest st)) (supersedes st) ix;
          ix = fold (\<lambda>by ix. case lookup by of None \<Rightarrow> ix | Some (eff, ing) \<Rightarrow> add_edge i by eff ing ix)
                 (superseded_by st) ix;
          ix = (case subject st of None \<Rightarrow> ix | Some s \<Rightarrow> insert_member i st s ix)
      in fold (insert_entity i) (entities st) ix)"

text \<open>\<open>retain\<close> on one list of a map, dropping the key when the list becomes empty.\<close>

definition retain_key :: "('v \<Rightarrow> bool) \<Rightarrow> 'k \<Rightarrow> ('k, 'v list) fmap \<Rightarrow> ('k, 'v list) fmap" where
  "retain_key P k m =
     (case fmlookup m k of None \<Rightarrow> m
      | Some l \<Rightarrow> if filter P l = [] then fmdrop k m else fmupd k (filter P l) m)"

definition index_remove :: "string \<Rightarrow> Stamp \<Rightarrow> Index \<Rightarrow> Index" where
  "index_remove i st ix =
     (let ix = (if windowed st then ix\<lparr>ix_windowed := ix_windowed ix - 1\<rparr> else ix);
          ix = (case fmlookup (predecessors ix) i of None \<Rightarrow> ix
            | Some olds \<Rightarrow> ix\<lparr>predecessors := fmdrop i (predecessors ix),
                ix_superseded_by := fold (retain_key (\<lambda>e. e_by e \<noteq> i)) olds (ix_superseded_by ix)\<rparr>);
          ix = (case fmlookup (ix_superseded_by ix) i of None \<Rightarrow> ix
            | Some es \<Rightarrow> ix\<lparr>ix_superseded_by := fmdrop i (ix_superseded_by ix),
                predecessors := fold (retain_key (\<lambda>old. old \<noteq> i)) (map e_by es) (predecessors ix)\<rparr>);
          ix = (case subject st of None \<Rightarrow> ix
            | Some s \<Rightarrow> ix\<lparr>by_subject := retain_key (\<lambda>m. m_id m \<noteq> i) s (by_subject ix)\<rparr>)
      in ix\<lparr>by_entity := fold (retain_key (\<lambda>j. j \<noteq> i)) (entities st) (by_entity ix)\<rparr>)"

section \<open>Rebuilding\<close>

definition indexed_stamp :: "Stamp \<Rightarrow> bool" where
  "indexed_stamp st \<longleftrightarrow> windowed st \<or> subject st \<noteq> None \<or> supersedes st \<noteq> [] \<or> superseded_by st \<noteq> [] \<or>
     entities st \<noteq> []"

definition collect_stamps :: "(string \<Rightarrow> json_value option) \<Rightarrow> (string \<times> string \<times> json_value) list \<Rightarrow> (string \<times> Stamp) list" where
  "collect_stamps from_str docs = List.map_filter (\<lambda>(i, version, metadata).
     case from_parts from_str version metadata of None \<Rightarrow> None
     | Some st \<Rightarrow> if indexed_stamp st then Some (i, st) else None) docs"

definition known_times :: "(string \<times> Stamp) list \<Rightarrow> string \<Rightarrow> (Millis \<times> Millis) option" where
  "known_times stamps = map_of (rev (map (\<lambda>(i, st). (i, effective_from st, ingest st)) stamps))"

definition build_index :: "(string \<times> Stamp) list \<Rightarrow> Index" where
  "build_index stamps = fold (\<lambda>(i, st). index_insert i st (known_times stamps)) stamps index_default"

definition rebuild :: "(string \<Rightarrow> json_value option) \<Rightarrow> (string \<times> string \<times> json_value) list \<Rightarrow> u64 \<Rightarrow> Index" where
  "rebuild from_str docs rv = (build_index (collect_stamps from_str docs))\<lparr>revision := Some rv\<rparr>"

section \<open>Walks\<close>

text \<open>The ids a walk can meet: those listed anywhere in the map it follows.\<close>

definition listed :: "('k, 'v list) fmap \<Rightarrow> 'v set" where
  "listed m = \<Union> (set ` fmran' m)"

lemma finite_listed [simp]: "finite (listed m)"
  by (simp add: listed_def fmran'_alt_def)

lemma lookup_listed: "set (lookup_list m k) \<subseteq> listed m"
  by (cases "fmlookup m k") (auto simp: lookup_list_def listed_def dest: fmran'I)

text \<open>The inner loop of \<open>walk\<close>: a neighbour not seen before is found and pushed.\<close>

fun walk_push :: "string list \<Rightarrow> string set \<times> string set \<times> string list \<Rightarrow> string set \<times> string set \<times> string list" where
  "walk_push [] w = w"
| "walk_push (n # ns) (seen, found, frontier) =
     (if n \<in> seen then walk_push ns (seen, found, frontier)
      else walk_push ns (insert n seen, insert n found, n # frontier))"

lemma walk_push_fields:
  "fst (walk_push ns w) = fst w \<union> set ns"
  "fst (snd (walk_push ns w)) = fst (snd w) \<union> (set ns - fst w)"
  "set (snd (snd (walk_push ns w))) = set (snd (snd w)) \<union> (set ns - fst w)"
  "set ns \<subseteq> fst w \<Longrightarrow> snd (snd (walk_push ns w)) = snd (snd w)"
  by (induction ns w rule: walk_push.induct) auto

lemma walk_push_eq:
  assumes "walk_push ns (seen, found, frontier) = (seen', found', frontier')"
  shows "seen' = seen \<union> set ns" "found' = found \<union> (set ns - seen)"
    "set frontier' = set frontier \<union> (set ns - seen)" "set ns \<subseteq> seen \<Longrightarrow> frontier' = frontier"
  using walk_push_fields [where ns = ns and w = "(seen, found, frontier)"] assms by simp_all

text \<open>Progress of a walk: it finds an id not seen before, or its frontier shrinks.\<close>

lemma walk_push_progress:
  assumes "walk_push ns (seen, found, frontier) = (seen', found', frontier')" "set ns \<subseteq> U" "finite U"
  shows "card (U - seen') < card (U - seen) \<or>
    card (U - seen') = card (U - seen) \<and> length frontier' < length (x # frontier)"
proof (cases "set ns \<subseteq> seen")
  case True
  then show ?thesis using walk_push_eq [OF assms(1)] by (simp add: Un_absorb2)
next
  case False
  then have "U - seen' \<subset> U - seen" using walk_push_eq(1) [OF assms(1)] assms(2) by blast
  then show ?thesis using assms(3) by (simp add: psubset_card_mono)
qed

function walk_loop :: "(string, string list) fmap \<Rightarrow> string set \<Rightarrow> string set \<Rightarrow> string list \<Rightarrow> string set" where
  "walk_loop m seen found [] = found"
| "walk_loop m seen found (x # frontier) =
     (case walk_push (lookup_list m x) (seen, found, frontier) of
        (seen', found', frontier') \<Rightarrow> walk_loop m seen' found' frontier')"
  by pat_completeness auto
termination
proof (relation "measures [\<lambda>(m, seen, found, frontier). card (listed m - seen), \<lambda>(m, seen, found, frontier). length frontier]")
  fix m :: "(string, string list) fmap" and seen found :: "string set" and x :: string and frontier seen' q found' frontier'
  assume "(seen', q) = walk_push (lookup_list m x) (seen, found, frontier)" "(found', frontier') = q"
  then have "walk_push (lookup_list m x) (seen, found, frontier) = (seen', found', frontier')" by simp
  from walk_push_progress [OF this lookup_listed, of x]
  show "((m, seen', found', frontier'), m, seen, found, x # frontier) \<in>
      measures [\<lambda>(m, seen, found, frontier). card (listed m - seen), \<lambda>(m, seen, found, frontier). length frontier]"
    by simp
qed simp

definition walk :: "(string, string list) fmap \<Rightarrow> string \<Rightarrow> string set" where
  "walk m start = walk_loop m {start} {} [start]"

definition successors :: "Index \<Rightarrow> (string, string list) fmap" where
  "successors ix = fmmap (map e_by) (ix_superseded_by ix)"

definition ancestors :: "Index \<Rightarrow> string \<Rightarrow> string set" where
  "ancestors ix i = walk (predecessors ix) i"

definition descendants :: "Index \<Rightarrow> string \<Rightarrow> string set" where
  "descendants ix i = walk (successors ix) i"

definition supersedes_transitively :: "Index \<Rightarrow> string \<Rightarrow> string \<Rightarrow> bool" where
  "supersedes_transitively ix x target \<longleftrightarrow> target \<in> walk (predecessors ix) x"

function bridge_loop :: "(string, string list) fmap \<Rightarrow> string set \<Rightarrow> string set \<Rightarrow> string set \<Rightarrow> string list \<Rightarrow> string set" where
  "bridge_loop m dead seen survivors [] = survivors"
| "bridge_loop m dead seen survivors (x # stack) =
     (if x \<in> seen then bridge_loop m dead seen survivors stack
      else if x \<in> dead then bridge_loop m dead (insert x seen) survivors (rev (lookup_list m x) @ stack)
      else bridge_loop m dead (insert x seen) (insert x survivors) stack)"
  by pat_completeness auto
termination
proof (relation "measures [\<lambda>(m, dead, seen, survivors, stack). card (listed m \<union> set stack - seen),
    \<lambda>(m, dead, seen, survivors, stack). length stack]")
  fix m :: "(string, string list) fmap" and dead seen survivors :: "string set" and x :: string and stack
  assume x: "x \<notin> seen"
  have "listed m \<union> set (rev (lookup_list m x) @ stack) - insert x seen \<subset> listed m \<union> set (x # stack) - seen"
    using x lookup_listed [of m x] by auto
  then show "((m, dead, insert x seen, survivors, rev (lookup_list m x) @ stack), m, dead, seen, survivors, x # stack)
      \<in> measures [\<lambda>(m, dead, seen, survivors, stack). card (listed m \<union> set stack - seen),
        \<lambda>(m, dead, seen, survivors, stack). length stack]"
    by (simp add: psubset_card_mono)
  have "listed m \<union> set stack - insert x seen \<subset> listed m \<union> set (x # stack) - seen" using x by auto
  then show "((m, dead, insert x seen, insert x survivors, stack), m, dead, seen, survivors, x # stack)
      \<in> measures [\<lambda>(m, dead, seen, survivors, stack). card (listed m \<union> set stack - seen),
        \<lambda>(m, dead, seen, survivors, stack). length stack]"
    by (simp add: psubset_card_mono)
qed (auto intro!: card_mono simp: less_le insert_absorb)

definition bridge :: "Index \<Rightarrow> string \<Rightarrow> string set \<Rightarrow> string set" where
  "bridge ix start dead = bridge_loop (predecessors ix) dead {} {} (rev (direct_predecessors ix start))"

lemma successors_lookup: "lookup_list (successors ix) x = map e_by (edges ix x)"
  by (simp add: successors_def edges_def lookup_list_def split: option.split)

lemma both_listed:
  "set (direct_predecessors ix x @ map e_by (edges ix x)) \<subseteq> listed (predecessors ix) \<union> listed (successors ix)"
  using lookup_listed [of "predecessors ix" x] lookup_listed [of "successors ix" x]
  by (auto simp: direct_predecessors_def successors_lookup)

text \<open>\<open>component\<close> follows both directions.\<close>

function component_loop :: "Index \<Rightarrow> string set \<Rightarrow> string list \<Rightarrow> string set" where
  "component_loop ix seen [] = seen"
| "component_loop ix seen (x # frontier) =
     (case walk_push (direct_predecessors ix x @ map e_by (edges ix x)) (seen, {}, frontier) of
        (seen', _, frontier') \<Rightarrow> component_loop ix seen' frontier')"
  by pat_completeness auto
termination
proof (relation "measures [\<lambda>(ix, seen, frontier). card (listed (predecessors ix) \<union> listed (successors ix) - seen),
    \<lambda>(ix, seen, frontier). length frontier]")
  fix ix seen x frontier seen' q found' frontier'
  assume "(seen', q) = walk_push (direct_predecessors ix x @ map e_by (edges ix x)) (seen, {}, frontier)"
    "(found', frontier') = q"
  then have "walk_push (direct_predecessors ix x @ map e_by (edges ix x)) (seen, {}, frontier) =
      (seen', found', frontier')" by simp
  from walk_push_progress [OF this both_listed, of x]
  show "((ix, seen', frontier'), ix, seen, x # frontier) \<in>
      measures [\<lambda>(ix, seen, frontier). card (listed (predecessors ix) \<union> listed (successors ix) - seen),
        \<lambda>(ix, seen, frontier). length frontier]"
    by simp
qed simp

definition component :: "Index \<Rightarrow> string \<Rightarrow> string set" where
  "component ix i = component_loop ix {i} [i]"

section \<open>Status, snapshots of links\<close>

datatype FactStatus = Current | Superseded | Expired | NotYetValid

definition evaluate :: "Stamp option \<Rightarrow> Edge list \<Rightarrow> Millis \<Rightarrow> Millis option \<Rightarrow> FactStatus option" where
  "evaluate stamp es now known_at =
     (if (case (known_at, stamp) of (Some known, Some st) \<Rightarrow> ingest st > known | _ \<Rightarrow> False) then None
      else if \<exists>e \<in> set es. e_effective e \<le> now \<and> (case known_at of None \<Rightarrow> True | Some known \<Rightarrow> e_ingest e \<le> known)
      then Some Superseded
      else (case stamp of
              None \<Rightarrow> Some Current
            | Some st \<Rightarrow>
                if (case valid_to st of None \<Rightarrow> False | Some to \<Rightarrow> to \<le> now) then Some Expired
                else if (case valid_from st of None \<Rightarrow> False | Some from \<Rightarrow> from > now) then Some NotYetValid
                else Some Current))"

definition sorted_ids :: "Edge list \<Rightarrow> string list" where
  "sorted_ids es = map e_by (sort_key (\<lambda>e. (e_effective e, e_ingest e, e_by e)) es)"

text \<open>
  \<open>capture_edges\<close> copies the links of a scope (of the whole index without one) and charges the
  budget for them.  The layout of an \<open>Edge\<close> is a string header of 24 bytes and two 8-byte
  integers.  \<open>order\<close> lists the keys of the hash map in its iteration order, which is unspecified.
\<close>

definition EDGE_SIZE :: usize where "EDGE_SIZE = 40"

fun reserve_each :: "QueryBudget \<Rightarrow> usize list \<Rightarrow> QueryBudget \<times> query_limit_exceeded option" where
  "reserve_each b [] = (b, None)"
| "reserve_each b (n # ns) = (case budget_reserve b n of Inl e \<Rightarrow> (b, Some e) | Inr b' \<Rightarrow> reserve_each b' ns)"

definition capture_one :: "string \<Rightarrow> Edge list \<Rightarrow> QueryBudget \<Rightarrow> QueryBudget \<times> query_limit_exceeded option" where
  "capture_one i es b =
     (case budget_work b (1 + length es) of
        Inl e \<Rightarrow> (b, Some e)
      | Inr b1 \<Rightarrow> (case budget_reserve b1 (256 + length i + length es * EDGE_SIZE) of
          Inl e \<Rightarrow> (b1, Some e)
        | Inr b2 \<Rightarrow> reserve_each b2 (map (\<lambda>e. length (e_by e)) es)))"

fun capture_scope :: "Index \<Rightarrow> string list \<Rightarrow> (string, Edge list) fmap \<Rightarrow> QueryBudget \<Rightarrow>
    QueryBudget \<times> (query_limit_exceeded + (string, Edge list) fmap)" where
  "capture_scope ix [] acc b = (b, Inr acc)"
| "capture_scope ix (i # ids) acc b =
     (case budget_work b 1 of
        Inl e \<Rightarrow> (b, Inl e)
      | Inr b1 \<Rightarrow>
          (case fmlookup (ix_superseded_by ix) i of
             None \<Rightarrow> capture_scope ix ids acc b1
           | Some es \<Rightarrow> (case capture_one i es b1 of
               (b2, Some e) \<Rightarrow> (b2, Inl e)
             | (b2, None) \<Rightarrow> capture_scope ix ids (fmupd i es acc) b2)))"

fun capture_all :: "Index \<Rightarrow> string list \<Rightarrow> (string, Edge list) fmap \<Rightarrow> QueryBudget \<Rightarrow>
    QueryBudget \<times> (query_limit_exceeded + (string, Edge list) fmap)" where
  "capture_all ix [] acc b = (b, Inr acc)"
| "capture_all ix (i # ids) acc b =
     (case capture_one i (edges ix i) b of
        (b2, Some e) \<Rightarrow> (b2, Inl e)
      | (b2, None) \<Rightarrow> capture_all ix ids (fmupd i (edges ix i) acc) b2)"

definition capture_edges :: "string list \<Rightarrow> Index \<Rightarrow> string set option \<Rightarrow> QueryBudget \<Rightarrow>
    QueryBudget \<times> (query_limit_exceeded + (string, Edge list) fmap)" where
  "capture_edges order ix scope b =
     (case scope of
        Some ids \<Rightarrow> capture_scope ix (sorted_list_of_set ids) fmempty b
      | None \<Rightarrow> capture_all ix order fmempty b)"

section \<open>What the walks compute\<close>

definition adj :: "(string, string list) fmap \<Rightarrow> (string \<times> string) set" where
  "adj m = {(x, y). y \<in> set (lookup_list m x)}"

lemma adj_image: "adj m `` {x} = set (lookup_list m x)"
  by (auto simp: adj_def)

text \<open>
  A partial exploration of the nodes reachable from \<open>s\<close>: the seen nodes are reachable, and the
  neighbours of those that are not on the frontier any more are seen.
\<close>

definition explored :: "('a \<times> 'a) set \<Rightarrow> 'a \<Rightarrow> 'a set \<Rightarrow> 'a list \<Rightarrow> bool" where
  "explored R s seen frontier \<longleftrightarrow> s \<in> seen \<and> set frontier \<subseteq> seen \<and> R `` (seen - set frontier) \<subseteq> seen \<and>
     seen \<subseteq> R\<^sup>* `` {s}"

lemma explored_start: "explored R s {s} [s]"
  by (simp add: explored_def)

lemma explored_done: "explored R s seen [] \<Longrightarrow> seen = R\<^sup>* `` {s}"
  unfolding explored_def using Image_closed_trancl [of R seen] by auto

lemma explored_step:
  assumes "explored R s seen (x # frontier)" "walk_push ns (seen, found, frontier) = (seen', found', frontier')"
    "R `` {x} = set ns"
  shows "explored R s seen' frontier'"
proof -
  note w = walk_push_eq(1,3) [OF assms(2)]
  have "set ns \<subseteq> R\<^sup>* `` {s}"
    using assms(1) unfolding assms(3) [symmetric] explored_def by (auto intro: rtrancl_into_rtrancl)
  moreover have "R `` (seen' - set frontier') \<subseteq> seen'"
  proof
    fix y assume "y \<in> R `` (seen' - set frontier')"
    then obtain z where z: "(z, y) \<in> R" "z \<in> seen" "z \<notin> set frontier" using w by auto
    show "y \<in> seen'"
    proof (cases "z = x")
      case True
      then have "y \<in> set ns" using z(1) assms(3) by auto
      then show ?thesis using w(1) by simp
    next
      case False
      then show ?thesis using z assms(1) w(1) unfolding explored_def by auto
    qed
  qed
  ultimately show ?thesis using assms(1) w unfolding explored_def by auto
qed

lemma walk_loop_explored:
  "explored (adj m) s seen frontier \<Longrightarrow> found = seen - {s} \<Longrightarrow>
     walk_loop m seen found frontier = (adj m)\<^sup>* `` {s} - {s}"
proof (induction m seen found frontier rule: walk_loop.induct)
  case (1 m seen found)
  then show ?case using explored_done [OF "1.prems"(1)] by simp
next
  case (2 m seen found x frontier)
  obtain seen' found' frontier' where w: "walk_push (lookup_list m x) (seen, found, frontier) = (seen', found', frontier')"
    by (cases "walk_push (lookup_list m x) (seen, found, frontier)")
  have "s \<in> seen" using "2.prems"(1) by (simp add: explored_def)
  then have "found' = seen' - {s}" using walk_push_eq(1,2) [OF w] "2.prems"(2) by auto
  then show ?case
    using "2.IH" [OF w [symmetric] refl] explored_step [OF "2.prems"(1) w adj_image] by (simp add: w)
qed

lemma walk_eq: "walk m s = (adj m)\<^sup>* `` {s} - {s}"
  unfolding walk_def by (rule walk_loop_explored) (simp_all add: explored_start)

lemma component_loop_explored:
  "explored (adj (predecessors ix) \<union> adj (successors ix)) s seen frontier \<Longrightarrow>
     component_loop ix seen frontier = (adj (predecessors ix) \<union> adj (successors ix))\<^sup>* `` {s}"
proof (induction ix seen frontier rule: component_loop.induct)
  case (1 ix seen)
  then show ?case using explored_done [OF "1.prems"] by simp
next
  case (2 ix seen x frontier)
  let ?ns = "direct_predecessors ix x @ map e_by (edges ix x)"
  obtain seen' found' frontier' where w: "walk_push ?ns (seen, {}, frontier) = (seen', found', frontier')"
    by (cases "walk_push ?ns (seen, {}, frontier)")
  have "(adj (predecessors ix) \<union> adj (successors ix)) `` {x} = set ?ns"
    using adj_image [of "predecessors ix" x] adj_image [of "successors ix" x]
    by (simp add: Un_Image direct_predecessors_def successors_lookup)
  then show ?case
    using "2.IH" [OF w [symmetric] refl] explored_step [OF "2.prems" w] by (simp add: w)
qed

lemma component_eq: "component ix i = (adj (predecessors ix) \<union> adj (successors ix))\<^sup>* `` {i}"
  unfolding component_def by (rule component_loop_explored) (rule explored_start)

definition through :: "(string, string list) fmap \<Rightarrow> string set \<Rightarrow> (string \<times> string) set" where
  "through m dead = {(d, y) \<in> adj m. d \<in> dead}"

lemma bridge_loop_eq:
  assumes "seen \<union> set stack \<subseteq> (through m dead)\<^sup>* `` N" "N \<subseteq> seen \<union> set stack"
    "through m dead `` seen \<subseteq> seen \<union> set stack" "survivors = seen - dead"
  shows "bridge_loop m dead seen survivors stack = (through m dead)\<^sup>* `` N - dead"
  using assms
proof (induction m dead seen survivors stack rule: bridge_loop.induct)
  case (1 m dead seen survivors)
  have "(through m dead)\<^sup>* `` seen = seen" by (rule Image_closed_trancl) (use "1.prems"(3) in simp)
  moreover have "(through m dead)\<^sup>* `` N \<subseteq> (through m dead)\<^sup>* `` seen" using "1.prems"(2) by auto
  ultimately show ?case using "1.prems" by auto
next
  case (2 m dead seen survivors x stack)
  consider "x \<in> seen" | "x \<notin> seen" "x \<in> dead" | "x \<notin> seen" "x \<notin> dead" by blast
  then show ?case
  proof cases
    case 1
    then have "set (x # stack) \<union> seen = set stack \<union> seen" by auto
    then show ?thesis using 1 "2.IH"(1) "2.prems" by (simp add: insert_absorb)
  next
    case 2
    have out: "through m dead `` {x} = set (lookup_list m x)" using 2 by (auto simp: through_def adj_def)
    then have "set (lookup_list m x) \<subseteq> (through m dead)\<^sup>* `` N"
      using "2.prems"(1) by (auto intro: rtrancl_into_rtrancl)
    moreover have "through m dead `` insert x seen = set (lookup_list m x) \<union> through m dead `` seen"
      using out by auto
    ultimately have "bridge_loop m dead (insert x seen) survivors (rev (lookup_list m x) @ stack) =
        (through m dead)\<^sup>* `` N - dead"
      using 2 "2.prems" by (intro "2.IH"(2)) auto
    then show ?thesis using 2 by simp
  next
    case 3
    have "through m dead `` insert x seen = through m dead `` seen" using 3 by (auto simp: through_def)
    then have "bridge_loop m dead (insert x seen) (insert x survivors) stack = (through m dead)\<^sup>* `` N - dead"
      using 3 "2.prems" by (intro "2.IH"(3)) auto
    then show ?thesis using 3 by simp
  qed
qed

lemma bridge_eq:
  "bridge ix s dead = (through (predecessors ix) dead)\<^sup>* `` (adj (predecessors ix) `` {s}) - dead"
  unfolding bridge_def by (rule bridge_loop_eq) (auto simp: direct_predecessors_def adj_def)

section \<open>The links of an index\<close>

text \<open>
  \<open>links ix\<close> holds \<open>(by, old)\<close> when \<open>by\<close> supersedes \<open>old\<close>.  The invariant: both directions
  record the same links, each once, and no list is left empty.
\<close>

definition links :: "Index \<Rightarrow> (string \<times> string) set" where
  "links ix = adj (predecessors ix)"

definition index_ok :: "Index \<Rightarrow> bool" where
  "index_ok ix \<longleftrightarrow> adj (successors ix) = (links ix)\<inverse> \<and>
     [] \<notin> fmran' (ix_superseded_by ix) \<and> [] \<notin> fmran' (predecessors ix) \<and>
     (\<forall>old. distinct (map e_by (edges ix old))) \<and> (\<forall>by. distinct (direct_predecessors ix by))"

lemma links_iff: "(by, old) \<in> links ix \<longleftrightarrow> old \<in> set (direct_predecessors ix by)"
  by (simp add: links_def adj_def direct_predecessors_def)

lemma successors_iff: "(old, by) \<in> adj (successors ix) \<longleftrightarrow> by \<in> e_by ` set (edges ix old)"
  by (simp add: adj_def successors_lookup)

lemma index_ok_edges: "index_ok ix \<Longrightarrow> by \<in> e_by ` set (edges ix old) \<longleftrightarrow> (by, old) \<in> links ix"
  by (simp add: index_ok_def flip: successors_iff)

lemma index_ok_default [simp]: "index_ok index_default"
  by (auto simp: index_ok_def index_default_def links_def adj_def successors_def edges_def
      direct_predecessors_def lookup_list_def fmran'_def)

lemma lookup_list_upd [simp]: "lookup_list (fmupd k v m) j = (if j = k then v else lookup_list m j)"
  by (simp add: lookup_list_def)

lemma lookup_list_drop [simp]: "lookup_list (fmdrop k m) j = (if j = k then [] else lookup_list m j)"
  by (simp add: lookup_list_def)

lemma fmran_upd_empty: "[] \<in> fmran' (fmupd k l m) \<Longrightarrow> l = [] \<or> [] \<in> fmran' m"
  by (auto simp: fmran'_def split: if_splits)

lemma edges_add_edge:
  "edges (add_edge old by eff ing ix) j =
     (if j = old \<and> by \<notin> e_by ` set (edges ix old)
      then edges ix old @ [\<lparr>e_by = by, e_effective = eff, e_ingest = ing\<rparr>] else edges ix j)"
  by (auto simp: add_edge_def edges_def Let_def)

lemma preds_add_edge:
  assumes "index_ok ix"
  shows "direct_predecessors (add_edge old by eff ing ix) j =
     (if j = by \<and> (by, old) \<notin> links ix then direct_predecessors ix j @ [old] else direct_predecessors ix j)"
proof -
  have "by \<in> e_by ` set (edges ix old) \<longleftrightarrow> old \<in> set (direct_predecessors ix by)"
    by (simp only: index_ok_edges [OF assms] links_iff)
  then show ?thesis by (simp add: add_edge_def Let_def direct_predecessors_def links_iff)
qed

lemma links_add_edge: "index_ok ix \<Longrightarrow> links (add_edge old by eff ing ix) = insert (by, old) (links ix)"
  by (auto simp: links_iff preds_add_edge split: if_splits)

lemma index_ok_add_edge:
  assumes ok: "index_ok ix"
  shows "index_ok (add_edge old by eff ing ix)"
proof -
  have eq: "by \<in> e_by ` set (edges ix old) \<longleftrightarrow> (by, old) \<in> links ix" by (rule index_ok_edges [OF ok])
  have "adj (successors (add_edge old by eff ing ix)) = insert (old, by) (adj (successors ix))"
    by (auto simp: successors_iff edges_add_edge split: if_splits)
  moreover have "[] \<notin> fmran' (ix_superseded_by (add_edge old by eff ing ix))"
    using ok by (auto simp: index_ok_def add_edge_def Let_def dest!: fmran_upd_empty split: if_splits)
  moreover have "[] \<notin> fmran' (predecessors (add_edge old by eff ing ix))"
    using ok by (auto simp: index_ok_def add_edge_def Let_def dest!: fmran_upd_empty split: if_splits)
  moreover have "distinct (map e_by (edges (add_edge old by eff ing ix) j))" for j
    using ok by (auto simp: index_ok_def edges_add_edge)
  moreover have "distinct (direct_predecessors (add_edge old by eff ing ix) j)" for j
    using ok by (auto simp: index_ok_def preds_add_edge [OF ok] links_iff)
  ultimately show ?thesis
    using ok unfolding index_ok_def links_add_edge [OF ok] by auto
qed

text \<open>The operations on the other fields keep the links.\<close>

lemma same_links:
  assumes "ix_superseded_by ix' = ix_superseded_by ix" "predecessors ix' = predecessors ix"
  shows "index_ok ix' = index_ok ix" "links ix' = links ix" "edges ix' = edges ix"
    "direct_predecessors ix' = direct_predecessors ix"
  using assms by (simp_all add: index_ok_def links_def successors_def edges_def direct_predecessors_def fun_eq_iff)

lemma fold_insert_entity_links:
  "ix_superseded_by (fold (insert_entity i) es ix) = ix_superseded_by ix"
  "predecessors (fold (insert_entity i) es ix) = predecessors ix"
  by (induction es arbitrary: ix) (simp_all add: insert_entity_def Let_def)

text \<open>
  A sequence of \<open>add_edge\<close> calls: \<open>es\<close> lists the links with the times of the superseding fact.
\<close>

definition add_edges :: "(string \<times> string \<times> Millis \<times> Millis) list \<Rightarrow> Index \<Rightarrow> Index" where
  "add_edges = fold (\<lambda>(old, by, eff, ing). add_edge old by eff ing)"

definition stamp_edges :: "string \<Rightarrow> Stamp \<Rightarrow> (string \<Rightarrow> (Millis \<times> Millis) option) \<Rightarrow>
    (string \<times> string \<times> Millis \<times> Millis) list" where
  "stamp_edges i st lookup = map (\<lambda>old. (old, i, effective_from st, ingest st)) (supersedes st) @
     List.map_filter (\<lambda>by. map_option (\<lambda>(eff, ing). (i, by, eff, ing)) (lookup by)) (superseded_by st)"

lemma add_edges_append: "add_edges (xs @ ys) ix = add_edges ys (add_edges xs ix)"
  by (simp add: add_edges_def)

lemma fold_supersedes: "fold (\<lambda>old. add_edge old i a b) olds ix = add_edges (map (\<lambda>old. (old, i, a, b)) olds) ix"
  by (simp add: add_edges_def fold_map o_def)

lemma fold_superseded_by:
  "fold (\<lambda>by ix. case lookup by of None \<Rightarrow> ix | Some (eff, ing) \<Rightarrow> add_edge i by eff ing ix) bys ix =
     add_edges (List.map_filter (\<lambda>by. map_option (\<lambda>(eff, ing). (i, by, eff, ing)) (lookup by)) bys) ix"
  by (induction bys arbitrary: ix) (auto simp: add_edges_def List.map_filter_simps split: option.split)

lemma add_edge_fields:
  assumes "ix_superseded_by ix' = ix_superseded_by ix" "predecessors ix' = predecessors ix"
  shows "ix_superseded_by (add_edge old by eff ing ix') = ix_superseded_by (add_edge old by eff ing ix)"
    "predecessors (add_edge old by eff ing ix') = predecessors (add_edge old by eff ing ix)"
  using assms by (simp_all add: add_edge_def Let_def same_links [OF assms])

lemma add_edges_fields:
  "ix_superseded_by ix' = ix_superseded_by ix \<Longrightarrow> predecessors ix' = predecessors ix \<Longrightarrow>
     ix_superseded_by (add_edges es ix') = ix_superseded_by (add_edges es ix) \<and>
     predecessors (add_edges es ix') = predecessors (add_edges es ix)"
proof (induction es arbitrary: ix ix')
  case (Cons e es)
  obtain old by' eff ing where e: "e = (old, by', eff, ing)" by (cases e)
  show ?case using Cons.IH [OF add_edge_fields [OF Cons.prems, of old by' eff ing]] by (simp add: add_edges_def e)
qed (simp add: add_edges_def)

lemma index_insert_fields:
  "ix_superseded_by (index_insert i st lookup ix) = ix_superseded_by (add_edges (stamp_edges i st lookup) ix)"
  "predecessors (index_insert i st lookup ix) = predecessors (add_edges (stamp_edges i st lookup) ix)"
proof -
  define ix1 where "ix1 = (if windowed st then ix\<lparr>ix_windowed := ix_windowed ix + 1\<rparr> else ix)"
  have "ix_superseded_by ix1 = ix_superseded_by ix" "predecessors ix1 = predecessors ix"
    by (simp_all add: ix1_def)
  note fields = add_edges_fields [OF this, of "stamp_edges i st lookup"]
  have "ix_superseded_by (index_insert i st lookup ix) = ix_superseded_by (add_edges (stamp_edges i st lookup) ix1) \<and>
      predecessors (index_insert i st lookup ix) = predecessors (add_edges (stamp_edges i st lookup) ix1)"
    unfolding index_insert_def Let_def ix1_def [symmetric] fold_supersedes fold_superseded_by
    by (simp add: fold_insert_entity_links stamp_edges_def add_edges_append insert_member_def split: option.split)
  then show "ix_superseded_by (index_insert i st lookup ix) = ix_superseded_by (add_edges (stamp_edges i st lookup) ix)"
    "predecessors (index_insert i st lookup ix) = predecessors (add_edges (stamp_edges i st lookup) ix)"
    using fields by simp_all
qed

lemmas index_insert_links = same_links [OF index_insert_fields]

lemma add_edges_ok: "index_ok ix \<Longrightarrow> index_ok (add_edges es ix)"
  by (induction es arbitrary: ix) (auto simp: add_edges_def index_ok_add_edge)

lemma links_add_edges: "index_ok ix \<Longrightarrow> links (add_edges es ix) = (\<lambda>e. (fst (snd e), fst e)) ` set es \<union> links ix"
  by (induction es arbitrary: ix) (simp_all add: add_edges_def split_beta index_ok_add_edge links_add_edge)

text \<open>The times recorded on the links are those of the superseding facts, \<open>T\<close>.\<close>

definition timed :: "(string \<Rightarrow> (Millis \<times> Millis) option) \<Rightarrow> Index \<Rightarrow> bool" where
  "timed T ix \<longleftrightarrow> (\<forall>old. \<forall>e \<in> set (edges ix old). T (e_by e) = Some (e_effective e, e_ingest e))"

lemma timed_add_edges:
  "timed T ix \<Longrightarrow> (\<forall>(old, by, eff, ing) \<in> set es. T by = Some (eff, ing)) \<Longrightarrow> timed T (add_edges es ix)"
proof (induction es arbitrary: ix)
  case (Cons e es)
  obtain old by' eff ing where e: "e = (old, by', eff, ing)" by (cases e)
  have "timed T (add_edge old by' eff ing ix)"
    using Cons.prems by (auto simp: timed_def edges_add_edge e)
  then show ?case using Cons by (simp add: add_edges_def e)
qed (simp add: add_edges_def)

lemma timed_edge_iff:
  assumes "index_ok ix" "timed T ix"
  shows "e \<in> set (edges ix old) \<longleftrightarrow> (e_by e, old) \<in> links ix \<and> T (e_by e) = Some (e_effective e, e_ingest e)"
proof
  assume e: "e \<in> set (edges ix old)"
  then have "e_by e \<in> e_by ` set (edges ix old)" by simp
  then show "(e_by e, old) \<in> links ix \<and> T (e_by e) = Some (e_effective e, e_ingest e)"
    using e assms(2) by (simp add: index_ok_edges [OF assms(1)] timed_def)
next
  assume a: "(e_by e, old) \<in> links ix \<and> T (e_by e) = Some (e_effective e, e_ingest e)"
  then obtain e' where e': "e' \<in> set (edges ix old)" "e_by e' = e_by e"
    using index_ok_edges [OF assms(1), of "e_by e" old] by (auto simp: image_iff)
  moreover have "T (e_by e') = Some (e_effective e', e_ingest e')" using assms(2) e'(1) by (simp add: timed_def)
  ultimately show "e \<in> set (edges ix old)" using a by (metis Edge.equality old.unit.exhaust option.inject prod.inject)
qed

definition stamp_links :: "(string \<Rightarrow> (Millis \<times> Millis) option) \<Rightarrow> string \<times> Stamp \<Rightarrow> (string \<times> string) set" where
  "stamp_links lookup p = {(fst p, old) | old. old \<in> set (supersedes (snd p))} \<union>
     {(by, fst p) | by. by \<in> set (superseded_by (snd p)) \<and> lookup by \<noteq> None}"

lemma stamp_edges_links:
  "(\<lambda>e. (fst (snd e), fst e)) ` set (stamp_edges i st lookup) = stamp_links lookup (i, st)"
  by (force simp: stamp_edges_def stamp_links_def List.map_filter_def image_iff)

lemma index_insert_ok: "index_ok ix \<Longrightarrow> index_ok (index_insert i st lookup ix)"
  by (simp add: index_insert_links add_edges_ok)

lemma links_index_insert:
  "index_ok ix \<Longrightarrow> links (index_insert i st lookup ix) = stamp_links lookup (i, st) \<union> links ix"
  by (simp add: index_insert_links links_add_edges stamp_edges_links)

lemma timed_index_insert:
  assumes "timed T ix" "T i = Some (effective_from st, ingest st)" "\<And>by t. lookup by = Some t \<Longrightarrow> T by = Some t"
  shows "timed T (index_insert i st lookup ix)"
proof -
  have "\<forall>(old, by, eff, ing) \<in> set (stamp_edges i st lookup). T by = Some (eff, ing)"
    using assms(2,3) by (auto simp: stamp_edges_def List.map_filter_def)
  then show ?thesis using timed_add_edges [OF assms(1)] by (simp add: timed_def index_insert_links)
qed

lemma fold_index_insert:
  assumes "index_ok ix" "timed T ix" "\<forall>(i, st) \<in> set stamps. T i = Some (effective_from st, ingest st)"
  shows "index_ok (fold (\<lambda>(i, st). index_insert i st T) stamps ix) \<and>
    timed T (fold (\<lambda>(i, st). index_insert i st T) stamps ix) \<and>
    links (fold (\<lambda>(i, st). index_insert i st T) stamps ix) = \<Union> (stamp_links T ` set stamps) \<union> links ix"
  using assms
proof (induction stamps arbitrary: ix)
  case (Cons p stamps)
  obtain i st where p: "p = (i, st)" by (cases p)
  have "index_ok (index_insert i st T ix)" "timed T (index_insert i st T ix)"
    using Cons.prems p index_insert_ok timed_index_insert by auto
  from Cons.IH [OF this] Cons.prems show ?case
    by (auto simp: p links_index_insert)
qed simp

lemma known_times_distinct:
  assumes "distinct (map fst stamps)" "(i, st) \<in> set stamps"
  shows "known_times stamps i = Some (effective_from st, ingest st)"
proof -
  have "distinct (map fst (rev (map (\<lambda>(i, st). (i, effective_from st, ingest st)) stamps)))"
    using assms(1) by (simp add: rev_map [symmetric] o_def split_def)
  then show ?thesis unfolding known_times_def using assms(2) by (force intro: map_of_is_SomeI)
qed

lemma build_index_exact:
  assumes "distinct (map fst stamps)"
  shows "index_ok (build_index stamps)" "timed (known_times stamps) (build_index stamps)"
    "links (build_index stamps) = \<Union> (stamp_links (known_times stamps) ` set stamps)"
proof -
  have "timed (known_times stamps) index_default" "links index_default = {}"
    by (simp_all add: timed_def edges_def index_default_def lookup_list_def links_def adj_def)
  then show "index_ok (build_index stamps)" "timed (known_times stamps) (build_index stamps)"
    "links (build_index stamps) = \<Union> (stamp_links (known_times stamps) ` set stamps)"
    using fold_index_insert [of index_default "known_times stamps" stamps] known_times_distinct [OF assms]
    unfolding build_index_def by auto
qed

section \<open>Removing a fact\<close>

lemma retain_lookup: "lookup_list (retain_key P k m) j = (if j = k then filter P (lookup_list m j) else lookup_list m j)"
  by (auto simp: retain_key_def lookup_list_def split: option.split)

lemma fold_retain_lookup:
  "lookup_list (fold (retain_key P) ks m) j = (if j \<in> set ks then filter P (lookup_list m j) else lookup_list m j)"
  by (induction ks arbitrary: m) (auto simp: retain_lookup)

lemma retain_nonempty: "[] \<notin> fmran' m \<Longrightarrow> [] \<notin> fmran' (retain_key P k m)"
  by (auto simp: retain_key_def fmran'_def split: option.split if_splits)

lemma fold_retain_nonempty: "[] \<notin> fmran' m \<Longrightarrow> [] \<notin> fmran' (fold (retain_key P) ks m)"
  by (induction ks arbitrary: m) (auto simp: retain_nonempty)

lemma fmran_drop: "[] \<notin> fmran' m \<Longrightarrow> [] \<notin> fmran' (fmdrop k m)"
  by (auto simp: fmran'_def split: if_splits)

lemma fmdrop_none: "fmlookup m k = None \<Longrightarrow> fmdrop k m = m"
  by (rule fmap_ext) auto

text \<open>The maps of the links after a removal, whether or not the fact had any.\<close>

definition removed_superseded :: "string \<Rightarrow> Index \<Rightarrow> (string, Edge list) fmap" where
  "removed_superseded i ix =
     fold (retain_key (\<lambda>e. e_by e \<noteq> i)) (direct_predecessors ix i) (ix_superseded_by ix)"

lemma index_remove_fields:
  "ix_superseded_by (index_remove i st ix) = fmdrop i (removed_superseded i ix)"
  "predecessors (index_remove i st ix) =
     fold (retain_key (\<lambda>old. old \<noteq> i)) (map e_by (lookup_list (removed_superseded i ix) i)) (fmdrop i (predecessors ix))"
proof -
  define ix1 where "ix1 = (if windowed st then ix\<lparr>ix_windowed := ix_windowed ix - 1\<rparr> else ix)"
  have 1: "ix_superseded_by ix1 = ix_superseded_by ix" "predecessors ix1 = predecessors ix"
    by (simp_all add: ix1_def)
  define ix2 where "ix2 = (case fmlookup (predecessors ix1) i of None \<Rightarrow> ix1
      | Some olds \<Rightarrow> ix1\<lparr>predecessors := fmdrop i (predecessors ix1),
          ix_superseded_by := fold (retain_key (\<lambda>e. e_by e \<noteq> i)) olds (ix_superseded_by ix1)\<rparr>)"
  have 2: "ix_superseded_by ix2 = removed_superseded i ix" "predecessors ix2 = fmdrop i (predecessors ix)"
    by (simp_all add: ix2_def 1 removed_superseded_def direct_predecessors_def lookup_list_def fmdrop_none split: option.split)
  have "ix_superseded_by (index_remove i st ix) = fmdrop i (ix_superseded_by ix2) \<and>
      predecessors (index_remove i st ix) =
        fold (retain_key (\<lambda>old. old \<noteq> i)) (map e_by (lookup_list (ix_superseded_by ix2) i)) (predecessors ix2)"
    unfolding index_remove_def Let_def ix1_def [symmetric] ix2_def [symmetric]
    by (simp add: lookup_list_def fmdrop_none split: option.split)
  then show "ix_superseded_by (index_remove i st ix) = fmdrop i (removed_superseded i ix)"
    "predecessors (index_remove i st ix) =
       fold (retain_key (\<lambda>old. old \<noteq> i)) (map e_by (lookup_list (removed_superseded i ix) i)) (fmdrop i (predecessors ix))"
    by (simp_all add: 2)
qed

lemma index_remove_lookup:
  assumes "index_ok ix"
  shows "edges (index_remove i st ix) old = (if old = i then [] else filter (\<lambda>e. e_by e \<noteq> i) (edges ix old))"
    "direct_predecessors (index_remove i st ix) by =
       (if by = i then [] else filter (\<lambda>old. old \<noteq> i) (direct_predecessors ix by))"
proof -
  have nolink: "filter (\<lambda>e. e_by e \<noteq> i) (edges ix old) = edges ix old" if "old \<notin> set (direct_predecessors ix i)" for old
    using that index_ok_edges [OF assms, of i old] by (force simp: links_iff intro!: filter_True)
  have lk: "lookup_list (removed_superseded i ix) j = filter (\<lambda>e. e_by e \<noteq> i) (edges ix j)" for j
    using nolink [of j] by (simp add: removed_superseded_def fold_retain_lookup edges_def)
  show "edges (index_remove i st ix) old = (if old = i then [] else filter (\<lambda>e. e_by e \<noteq> i) (edges ix old))"
    by (simp add: edges_def [of "index_remove i st ix"] index_remove_fields lk)
  have "filter (\<lambda>old. old \<noteq> i) (direct_predecessors ix by) = direct_predecessors ix by"
    if "by \<notin> set (map e_by (lookup_list (removed_superseded i ix) i))" "by \<noteq> i"
  proof (rule filter_True, rule ballI, rule notI)
    fix old assume "old \<in> set (direct_predecessors ix by)" "old = i"
    then have "by \<in> e_by ` set (edges ix i)" by (simp add: index_ok_edges [OF assms] links_iff)
    then show False using that by (auto simp: lk)
  qed
  then show "direct_predecessors (index_remove i st ix) by =
      (if by = i then [] else filter (\<lambda>old. old \<noteq> i) (direct_predecessors ix by))"
    by (auto simp: direct_predecessors_def [of "index_remove i st ix"] index_remove_fields fold_retain_lookup
        direct_predecessors_def [of ix])
qed

lemma links_index_remove:
  "index_ok ix \<Longrightarrow> links (index_remove i st ix) = {(by, old) \<in> links ix. by \<noteq> i \<and> old \<noteq> i}"
  by (auto simp: links_iff index_remove_lookup split: if_splits)

lemma index_remove_ok:
  assumes ok: "index_ok ix"
  shows "index_ok (index_remove i st ix)"
proof -
  have "adj (successors (index_remove i st ix)) = (links (index_remove i st ix))\<inverse>"
  proof (rule set_eqI, clarify)
    fix old by'
    have "(old, by') \<in> adj (successors (index_remove i st ix)) \<longleftrightarrow>
        old \<noteq> i \<and> by' \<noteq> i \<and> by' \<in> e_by ` set (edges ix old)"
      by (auto simp: successors_iff index_remove_lookup(1) [OF ok])
    then show "(old, by') \<in> adj (successors (index_remove i st ix)) \<longleftrightarrow> (old, by') \<in> (links (index_remove i st ix))\<inverse>"
      by (auto simp: index_ok_edges [OF ok] links_index_remove [OF ok])
  qed
  moreover have "[] \<notin> fmran' (ix_superseded_by (index_remove i st ix))" "[] \<notin> fmran' (predecessors (index_remove i st ix))"
    using ok unfolding index_remove_fields removed_superseded_def
    by (simp_all add: index_ok_def fmran_drop fold_retain_nonempty)
  moreover have "distinct (map e_by (edges (index_remove i st ix) old))"
    "distinct (direct_predecessors (index_remove i st ix) old)" for old
    using ok by (simp_all add: index_ok_def index_remove_lookup [OF ok] distinct_map_filter)
  ultimately show ?thesis by (simp add: index_ok_def)
qed

section \<open>Captured links\<close>

lemma capture_scope_Inr:
  "capture_scope ix ids acc b = (b', Inr m) \<Longrightarrow> fmlookup m j =
     (if j \<in> set ids \<and> fmlookup (ix_superseded_by ix) j \<noteq> None then fmlookup (ix_superseded_by ix) j else fmlookup acc j)"
proof (induction ids arbitrary: acc b)
  case (Cons i ids)
  show ?case
  proof (cases "fmlookup (ix_superseded_by ix) i")
    case None
    then show ?thesis using Cons by (auto split: sum.splits)
  next
    case (Some es)
    with Cons.prems obtain b2 where "capture_scope ix ids (fmupd i es acc) b2 = (b', Inr m)"
      by (auto split: sum.splits prod.splits option.splits)
    from Cons.IH [OF this] show ?thesis using Some by auto
  qed
qed simp

lemma capture_all_Inr:
  "capture_all ix ids acc b = (b', Inr m) \<Longrightarrow> fmlookup m j =
     (if j \<in> set ids then Some (edges ix j) else fmlookup acc j)"
proof (induction ids arbitrary: acc b)
  case (Cons i ids)
  then obtain b2 where "capture_all ix ids (fmupd i (edges ix i) acc) b2 = (b', Inr m)"
    by (auto split: prod.splits option.splits)
  from Cons.IH [OF this] show ?case by auto
qed simp

section \<open>Bridging removed facts\<close>

definition bridged :: "Index \<Rightarrow> string set \<Rightarrow> (string \<times> string) set" where
  "bridged ix dead = {(x, y). x \<notin> dead \<and> y \<in> bridge ix x dead}"

lemma bridged_iff:
  "(x, y) \<in> bridged ix dead \<longleftrightarrow> x \<notin> dead \<and> y \<notin> dead \<and>
     (\<exists>z. (x, z) \<in> links ix \<and> (z, y) \<in> (through (predecessors ix) dead)\<^sup>*)"
  by (auto simp: bridged_def bridge_eq links_def)

lemma bridged_sub: "(x, y) \<in> bridged ix dead \<Longrightarrow> (x, y) \<in> (links ix)\<^sup>+"
proof -
  assume "(x, y) \<in> bridged ix dead"
  then obtain z where z: "(x, z) \<in> links ix" "(z, y) \<in> (through (predecessors ix) dead)\<^sup>*"
    by (auto simp: bridged_iff)
  have "through (predecessors ix) dead \<subseteq> links ix" by (auto simp: through_def links_def)
  then have "(z, y) \<in> (links ix)\<^sup>*" using z(2) rtrancl_mono by blast
  with z(1) show ?thesis by (rule rtrancl_into_trancl2)
qed

lemma chain_bridged:
  assumes "(z, y) \<in> (links ix)\<^sup>*" "y \<notin> dead"
  shows "(z \<notin> dead \<longrightarrow> (z, y) \<in> (bridged ix dead)\<^sup>*) \<and>
    (z \<in> dead \<longrightarrow> (\<forall>x w. x \<notin> dead \<longrightarrow> (x, w) \<in> links ix \<longrightarrow> (w, z) \<in> (through (predecessors ix) dead)\<^sup>* \<longrightarrow>
       (x, y) \<in> (bridged ix dead)\<^sup>+))"
  using assms
proof (induction rule: converse_rtrancl_induct)
  case (step z v)
  have "(z, y) \<in> (bridged ix dead)\<^sup>*" if "z \<notin> dead"
  proof (cases "v \<in> dead")
    case True
    then have "(z, y) \<in> (bridged ix dead)\<^sup>+" using step that by blast
    then show ?thesis by (rule trancl_into_rtrancl)
  next
    case False
    then have "(z, v) \<in> bridged ix dead" using that step.hyps(1) by (auto simp: bridged_iff)
    then show ?thesis using step False by (meson converse_rtrancl_into_rtrancl)
  qed
  moreover have "(x, y) \<in> (bridged ix dead)\<^sup>+"
    if "z \<in> dead" "x \<notin> dead" "(x, w) \<in> links ix" "(w, z) \<in> (through (predecessors ix) dead)\<^sup>*" for x w
  proof -
    have wv: "(w, v) \<in> (through (predecessors ix) dead)\<^sup>*"
      using that step.hyps(1) by (auto simp: through_def links_def intro: rtrancl_into_rtrancl)
    show ?thesis
    proof (cases "v \<in> dead")
      case True
      then show ?thesis using step that wv by blast
    next
      case False
      then have "(x, v) \<in> bridged ix dead" using that wv by (auto simp: bridged_iff)
      then show ?thesis using step False by (meson rtrancl_into_trancl2)
    qed
  qed
  ultimately show ?case by blast
qed (auto simp: bridged_iff)

lemma bridged_trancl: "(bridged ix dead)\<^sup>+ = {(x, y) \<in> (links ix)\<^sup>+. x \<notin> dead \<and> y \<notin> dead}"
proof (intro set_eqI iffI; clarify)
  fix x y assume a: "(x, y) \<in> (bridged ix dead)\<^sup>+"
  have "(x, y) \<in> (links ix)\<^sup>+" using a by (induction rule: trancl_induct) (auto dest: bridged_sub intro: trancl_trans)
  moreover have "x \<notin> dead" using tranclD [OF a] by (auto simp: bridged_iff)
  moreover have "y \<notin> dead" using tranclD2 [OF a] by (auto simp: bridged_iff)
  ultimately show "(x, y) \<in> (links ix)\<^sup>+ \<and> x \<notin> dead \<and> y \<notin> dead" by simp
next
  fix x y assume a: "(x, y) \<in> (links ix)\<^sup>+" "x \<notin> dead" "y \<notin> dead"
  obtain z where z: "(x, z) \<in> links ix" "(z, y) \<in> (links ix)\<^sup>*" using tranclD [OF a(1)] by blast
  show "(x, y) \<in> (bridged ix dead)\<^sup>+"
  proof (cases "z \<in> dead")
    case True
    then show ?thesis using chain_bridged [OF z(2) a(3)] a(2) z(1) by blast
  next
    case False
    then have "(x, z) \<in> bridged ix dead" using a(2) z(1) by (auto simp: bridged_iff)
    then show ?thesis using chain_bridged [OF z(2) a(3)] False by (meson rtrancl_into_trancl2)
  qed
qed

lemma distinct_collect:
  "distinct (map fst docs) \<Longrightarrow> distinct (map fst (collect_stamps from_str docs))"
proof (induction docs)
  case (Cons d docs)
  have "fst ` set (collect_stamps from_str docs) \<subseteq> fst ` set docs"
    by (force simp: collect_stamps_def List.map_filter_def split: option.splits if_splits)
  moreover obtain i v md where "d = (i, v, md)" by (cases d)
  ultimately show ?case
    using Cons by (auto simp: collect_stamps_def List.map_filter_simps split: option.split)
qed (simp add: collect_stamps_def List.map_filter_simps)

lemma known_times_iff:
  assumes "distinct (map fst stamps)"
  shows "known_times stamps i = Some p \<longleftrightarrow> (\<exists>st. (i, st) \<in> set stamps \<and> p = (effective_from st, ingest st))"
proof
  assume "known_times stamps i = Some p"
  then have "(i, p) \<in> set (rev (map (\<lambda>(i, st). (i, effective_from st, ingest st)) stamps))"
    unfolding known_times_def by (rule map_of_SomeD)
  then show "\<exists>st. (i, st) \<in> set stamps \<and> p = (effective_from st, ingest st)" by auto
next
  assume "\<exists>st. (i, st) \<in> set stamps \<and> p = (effective_from st, ingest st)"
  then show "known_times stamps i = Some p" using known_times_distinct [OF assms] by auto
qed

lemma build_links_iff:
  assumes "distinct (map fst stamps)"
  shows "(by, old) \<in> links (build_index stamps) \<longleftrightarrow> (\<exists>st. (by, st) \<in> set stamps \<and>
    (old \<in> set (supersedes st) \<or> (\<exists>st'. (old, st') \<in> set stamps \<and> by \<in> set (superseded_by st'))))"
proof -
  have known: "known_times stamps i \<noteq> None \<longleftrightarrow> (\<exists>st. (i, st) \<in> set stamps)" for i
    using known_times_iff [OF assms] by (metis not_None_eq)
  have "(by, old) \<in> links (build_index stamps) \<longleftrightarrow> (\<exists>p \<in> set stamps. by = fst p \<and> old \<in> set (supersedes (snd p)) \<or>
      old = fst p \<and> by \<in> set (superseded_by (snd p)) \<and> (\<exists>st. (by, st) \<in> set stamps))"
    unfolding build_index_exact(3) [OF assms] stamp_links_def known by auto
  then show ?thesis unfolding Bex_def split_paired_Ex fst_conv snd_conv by blast
qed

section \<open>Properties\<close>

datatype index_op = Insert string Stamp "string \<Rightarrow> (Millis \<times> Millis) option" | Remove string Stamp

fun apply_index_op :: "index_op \<Rightarrow> Index \<Rightarrow> Index" where
  "apply_index_op (Insert i st lookup) ix = index_insert i st lookup ix"
| "apply_index_op (Remove i st) ix = index_remove i st ix"

lemma index_ops_ok: "index_ok (fold apply_index_op ops index_default)"
proof -
  have "index_ok (fold apply_index_op ops ix)" if "index_ok ix" for ix
    using that
  proof (induction ops arbitrary: ix)
    case (Cons op ops)
    then show ?case by (cases op) (simp_all add: index_insert_ok index_remove_ok)
  qed simp
  then show ?thesis by simp
qed

text \<open>
  C28. The graph walks are exact, on cyclic links too: after any sequence of insertions and
  removals, \<open>ancestors\<close> and \<open>descendants\<close> are the other facts reachable along the links in one
  direction, \<open>component\<close> those connected in either, \<open>supersedes_transitively\<close> decides
  reachability, and \<open>bridge\<close> returns the surviving facts reached through removed ones only.
\<close>

theorem index_walks_exact:
  "let ix = fold apply_index_op ops index_default in
     ancestors ix i = (links ix)\<^sup>* `` {i} - {i} \<and>
     descendants ix i = ((links ix)\<inverse>)\<^sup>* `` {i} - {i} \<and>
     component ix i = (links ix \<union> (links ix)\<inverse>)\<^sup>* `` {i} \<and>
     supersedes_transitively ix i j = ((i, j) \<in> (links ix)\<^sup>* \<and> i \<noteq> j) \<and>
     bridge ix i dead = {y. y \<notin> dead \<and> (\<exists>z. (i, z) \<in> links ix \<and> (z, y) \<in> {(d, w) \<in> links ix. d \<in> dead}\<^sup>*)}"
  using index_ops_ok [of ops]
  by (auto simp: Let_def ancestors_def descendants_def component_eq supersedes_transitively_def walk_eq bridge_eq
      index_ok_def through_def links_def)

text \<open>
  C30. Removing a fact from the index removes it and nothing else: every other list of links
  loses exactly the entries that name the fact, in both directions, and the two directions
  still agree.
\<close>

theorem index_remove_exact:
  "let ix = fold apply_index_op ops index_default in
     edges (index_remove i st ix) old = (if old = i then [] else filter (\<lambda>e. e_by e \<noteq> i) (edges ix old)) \<and>
     direct_predecessors (index_remove i st ix) by =
       (if by = i then [] else filter (\<lambda>old. old \<noteq> i) (direct_predecessors ix by)) \<and>
     (by \<in> e_by ` set (edges (index_remove i st ix) old)) = (old \<in> set (direct_predecessors (index_remove i st ix) by))"
proof -
  note ok = index_ops_ok [of ops]
  show ?thesis
    unfolding Let_def index_ok_edges [OF index_remove_ok [OF ok]] links_iff
    using index_remove_lookup [OF ok] by simp
qed

text \<open>
  C29. A rebuilt index holds exactly the links of the stored stamps: \<open>by\<close> supersedes \<open>old\<close>, with
  the times of \<open>by\<close>, if and only if the stamp of \<open>by\<close> lists \<open>old\<close>, or the stamp of \<open>old\<close> names
  \<open>by\<close> as a superseder and \<open>by\<close> is an indexed fact.
\<close>

theorem rebuild_exact:
  assumes "distinct (map fst docs)"
  shows "e \<in> set (edges (rebuild from_str docs rv) old) \<longleftrightarrow>
    (\<exists>st. (e_by e, st) \<in> set (collect_stamps from_str docs) \<and>
       e_effective e = effective_from st \<and> e_ingest e = ingest st \<and>
       (old \<in> set (supersedes st) \<or>
        (\<exists>st'. (old, st') \<in> set (collect_stamps from_str docs) \<and> e_by e \<in> set (superseded_by st'))))"
proof -
  let ?s = "collect_stamps from_str docs"
  have dist: "distinct (map fst ?s)" using assms by (rule distinct_collect)
  have known: "known_times ?s i = Some p \<longleftrightarrow> (\<exists>st. (i, st) \<in> set ?s \<and> p = (effective_from st, ingest st))" for i p
    by (rule known_times_iff [OF dist])
  have eq: "edges (rebuild from_str docs rv) = edges (build_index ?s)"
    by (rule same_links) (simp_all add: rebuild_def)
  show ?thesis
    unfolding eq timed_edge_iff [OF build_index_exact(1,2) [OF dist]] build_links_iff [OF dist]
    unfolding known using eq_key_imp_eq_value [OF dist] by auto
qed

definition example_stamp :: Stamp where
  "example_stamp = stamp_default\<lparr>ingest := 5, supersedes := [''a'']\<rparr>"

lemma example_stamp_parts:
  "from_parts from_str ''1'' (Object [KEY \<mapsto> to_value example_stamp]) = Some example_stamp"
proof -
  have "stamp_times example_stamp \<subseteq> i64_range"
    by (simp add: stamp_times_def example_stamp_def stamp_default_def i64_range_def)
  then show ?thesis
    using from_value_to_value
    by (simp add: from_parts_def strip_prefix_def VERSION_PREFIX_def from_metadata_def value_get_def)
qed

theorem rebuild_exact_witness:
  "\<lparr>e_by = ''b'', e_effective = 5, e_ingest = 5\<rparr> \<in>
     set (edges (rebuild (\<lambda>_. None) [(''b'', ''1'', Object [KEY \<mapsto> to_value example_stamp])] 3) ''a'')"
proof -
  have "collect_stamps (\<lambda>_. None) [(''b'', ''1'', Object [KEY \<mapsto> to_value example_stamp])] = [(''b'', example_stamp)]"
    by (simp add: collect_stamps_def List.map_filter_simps example_stamp_parts indexed_stamp_def)
      (simp add: example_stamp_def)
  then show ?thesis
    using rebuild_exact [of "[(''b'', ''1'', Object [KEY \<mapsto> to_value example_stamp])]"
        "\<lparr>e_by = ''b'', e_effective = 5, e_ingest = 5\<rparr>" "\<lambda>_. None" 3 "''a''"]
    by (simp add: example_stamp_def stamp_default_def effective_from_def option_or_def)
qed

text \<open>
  C10. Forgetting facts keeps the chains of the others: with the links of every surviving fact
  replaced by its bridge over the removed ones, one survivor supersedes another, directly or
  not, exactly when it did before.
\<close>

theorem bridge_keeps_chains:
  "{(x, y). x \<notin> dead \<and> y \<in> bridge ix x dead}\<^sup>+ = {(x, y) \<in> (links ix)\<^sup>+. x \<notin> dead \<and> y \<notin> dead}"
  using bridged_trancl by (simp add: bridged_def)

text \<open>
  Captured links are the links: when a capture is within the budget, every captured list is
  the list of the index, and within the scope (or everywhere, when the whole index is captured)
  no list is missing.
\<close>

theorem capture_edges_exact:
  assumes "capture_edges order ix scope b = (b', Inr m)" "set order = fmdom' (ix_superseded_by ix)"
    "case scope of None \<Rightarrow> True | Some ids \<Rightarrow> finite ids"
  shows "fmlookup m j = (case scope of
      None \<Rightarrow> fmlookup (ix_superseded_by ix) j
    | Some ids \<Rightarrow> if j \<in> ids then fmlookup (ix_superseded_by ix) j else None)"
proof (cases scope)
  case None
  then have m: "fmlookup m j = (if j \<in> set order then Some (edges ix j) else None)"
    using assms(1) capture_all_Inr [of ix order fmempty b b' m j] by (simp add: capture_edges_def)
  show ?thesis
    unfolding m assms(2) using None
    by (cases "fmlookup (ix_superseded_by ix) j") (auto simp: edges_def lookup_list_def fmlookup_dom'_iff)
next
  case (Some ids)
  then show ?thesis
    using assms(1,3) capture_scope_Inr [of ix "sorted_list_of_set ids" fmempty b b' m j]
    by (auto simp: capture_edges_def)
qed

theorem capture_edges_exact_witness:
  "\<exists>b' m. capture_edges [''a''] (index_insert ''b'' example_stamp (\<lambda>_. None) index_default) (Some {''a''})
       (budget_new default_limits) = (b', Inr m) \<and>
     fmlookup m ''a'' = fmlookup (ix_superseded_by (index_insert ''b'' example_stamp (\<lambda>_. None) index_default)) ''a''"
proof -
  let ?ix = "index_insert ''b'' example_stamp (\<lambda>_. None) index_default"
  have sb: "ix_superseded_by ?ix = fmupd ''a'' [\<lparr>e_by = ''b'', e_effective = 5, e_ingest = 5\<rparr>] fmempty"
    by (simp add: index_insert_def Let_def windowed_def example_stamp_def stamp_default_def add_edge_def edges_def
        lookup_list_def index_default_def effective_from_def option_or_def)
  have "\<exists>b' m. capture_edges [''a''] ?ix (Some {''a''}) (budget_new default_limits) = (b', Inr m)"
    by (simp add: capture_edges_def sb capture_one_def budget_work_def budget_reserve_def charge_def checked_add_def
        USIZE_MAX_def budget_new_def default_limits_def EDGE_SIZE_def)
  then obtain b' m where m: "capture_edges [''a''] ?ix (Some {''a''}) (budget_new default_limits) = (b', Inr m)"
    by blast
  have "fmlookup m ''a'' = fmlookup (ix_superseded_by ?ix) ''a''"
    using capture_edges_exact [OF m, of "''a''"] by (simp add: sb)
  then show ?thesis using m by blast
qed

end
