(* ===== verification/MemoryPolicy.thy ===== *)
theory MemoryPolicy
  imports MemoryIndex "HOL-Library.Option_ord"
begin

text \<open>
  \<open>src/core/memory_api/policy.rs\<close> and the plain data of \<open>src/core/memory_api/types.rs\<close> that the
  policies read: clocks, supersession, recency, forgetting and consolidation policies.

  \<open>i64\<close> subtraction saturates where the source says so.  Splitting at Unicode white space and
  Unicode lower-casing are parameters; so are the floating-point operations of the recency
  decay.  \<open>sort_by\<close> is stable, as \<open>sort_key\<close> is.
\<close>

section \<open>Time\<close>

definition I64_MAX :: int where "I64_MAX = 2 ^ 63 - 1"
definition I64_MIN :: int where "I64_MIN = - (2 ^ 63)"

definition wrap_i64 :: "int \<Rightarrow> int" where
  "wrap_i64 n = (n + 2 ^ 63) mod 2 ^ 64 - 2 ^ 63"

definition saturating_sub_i64 :: "int \<Rightarrow> int \<Rightarrow> int" where
  "saturating_sub_i64 a b = max I64_MIN (min I64_MAX (a - b))"

text \<open>The system clock: milliseconds since the epoch, clipped, and zero before it.\<close>

definition system_now_millis :: "int option \<Rightarrow> Millis" where
  "system_now_millis elapsed = (case elapsed of None \<Rightarrow> 0 | Some ms \<Rightarrow> if ms \<le> I64_MAX then ms else I64_MAX)"

type_synonym ManualClock = Millis

definition manual_new :: "Millis \<Rightarrow> ManualClock" where "manual_new now = now"
definition manual_set :: "ManualClock \<Rightarrow> Millis \<Rightarrow> ManualClock" where "manual_set c now = now"
definition manual_advance :: "ManualClock \<Rightarrow> Millis \<Rightarrow> ManualClock" where "manual_advance c d = wrap_i64 (c + d)"
definition manual_now_millis :: "ManualClock \<Rightarrow> Millis" where "manual_now_millis c = c"

section \<open>Supersession\<close>

record FactView =
  v_id :: string
  v_subject :: "string option"
  v_effective_from :: Millis
  v_ingest_time :: Millis

record Resolution =
  r_supersedes :: "string list"
  r_superseded_by :: "string list"

definition resolution_default :: Resolution where
  "resolution_default = \<lparr>r_supersedes = [], r_superseded_by = []\<rparr>"

type_synonym SupersessionPolicy = "FactView \<Rightarrow> FactView list \<Rightarrow> Resolution"

definition explicit_only :: SupersessionPolicy where
  "explicit_only incoming same_subject = resolution_default"

definition latest_by_subject :: SupersessionPolicy where
  "latest_by_subject incoming same_subject =
     (let res = resolution_default;
          before = find (\<lambda>f. v_id f \<noteq> v_id incoming \<and> v_effective_from f \<le> v_effective_from incoming) (rev same_subject);
          res = (case before of None \<Rightarrow> res | Some f \<Rightarrow> res\<lparr>r_supersedes := r_supersedes res @ [v_id f]\<rparr>);
          after = find (\<lambda>f. v_id f \<noteq> v_id incoming \<and> v_effective_from f > v_effective_from incoming) same_subject
      in (case after of None \<Rightarrow> res | Some f \<Rightarrow> res\<lparr>r_superseded_by := r_superseded_by res @ [v_id f]\<rparr>))"

datatype SupersessionSpec = ExplicitSpec | LatestBySubjectSpec

section \<open>Recency\<close>

record RecencyContext =
  c_now :: Millis
  c_event_time :: "Millis option"
  c_valid_from :: "Millis option"
  c_ingest_time :: "Millis option"
  c_status :: FactStatus

datatype RecencyBasis = EventBasis | IngestBasis

record 'f ExponentialRecency =
  half_life_ms :: Millis
  basis :: RecencyBasis
  decay_floor :: 'f

text \<open>\<open>one\<close>, \<open>pow_half age half_life\<close> (\<open>0.5.powf(age / half_life)\<close>) and \<open>fmax\<close> are those of \<open>f64\<close>.\<close>

definition exponential_factor :: "'f \<Rightarrow> (Millis \<Rightarrow> Millis \<Rightarrow> 'f) \<Rightarrow> ('f \<Rightarrow> 'f \<Rightarrow> 'f) \<Rightarrow> 'f ExponentialRecency \<Rightarrow>
    RecencyContext \<Rightarrow> 'f" where
  "exponential_factor one pow_half fmax p ctx =
     (let t = (case basis p of
          EventBasis \<Rightarrow> option_or (option_or (c_event_time ctx) (c_valid_from ctx)) (c_ingest_time ctx)
        | IngestBasis \<Rightarrow> c_ingest_time ctx)
      in case t of
           None \<Rightarrow> one
         | Some t \<Rightarrow>
             (let age = saturating_sub_i64 (c_now ctx) t
              in if age \<le> 0 then one else fmax (pow_half age (half_life_ms p)) (decay_floor p)))"

section \<open>Forgetting\<close>

record FactSummary =
  f_id :: string
  f_text :: "string option"
  f_status :: FactStatus
  f_ingest_time :: "Millis option"
  f_event_time :: "Millis option"
  f_valid_from :: "Millis option"
  f_valid_to :: "Millis option"
  f_effective_from :: Millis
  f_subject :: "string option"
  f_superseded_at :: "Millis option"

type_synonym ForgettingPolicy = "FactSummary list \<Rightarrow> Millis \<Rightarrow> string list"

definition keep_all :: ForgettingPolicy where "keep_all facts now = []"

definition expired_for :: "Millis \<Rightarrow> ForgettingPolicy" where
  "expired_for grace_ms facts now = map f_id (filter (\<lambda>f.
     case f_valid_to f of None \<Rightarrow> False | Some to \<Rightarrow> saturating_sub_i64 now to > grace_ms) facts)"

definition superseded_for :: "Millis \<Rightarrow> ForgettingPolicy" where
  "superseded_for age_ms facts now = map f_id (filter (\<lambda>f. f_status f = Superseded \<and>
     (case f_superseded_at f of None \<Rightarrow> False | Some t \<Rightarrow> saturating_sub_i64 now t > age_ms)) facts)"

definition forget_rank :: "FactSummary \<Rightarrow> bool \<times> Millis option \<times> string" where
  "forget_rank f = (f_status f = Current, f_ingest_time f, f_id f)"

definition max_facts :: "usize \<Rightarrow> ForgettingPolicy" where
  "max_facts limit facts now = map f_id (take (length facts - limit) (sort_key forget_rank facts))"

datatype ForgettingSpec = KeepAllSpec | ExpiredForSpec Millis | SupersededForSpec Millis | MaxFactsSpec usize

definition forgetting_policy :: "ForgettingSpec \<Rightarrow> ForgettingPolicy" where
  "forgetting_policy spec = (case spec of
     KeepAllSpec \<Rightarrow> keep_all | ExpiredForSpec g \<Rightarrow> expired_for g | SupersededForSpec a \<Rightarrow> superseded_for a
   | MaxFactsSpec l \<Rightarrow> max_facts l)"

section \<open>Consolidation\<close>

record RememberInput =
  in_id :: "string option"
  in_text :: string
  in_event_time :: "Millis option"
  in_valid_from :: "Millis option"
  in_valid_to :: "Millis option"
  in_subject :: "string option"
  in_supersedes :: "string list option"
  in_entities :: "string list option"
  in_metadata :: "json_value option"
  in_embedding :: "u64 list option"
  in_source_uri :: "string option"

definition remember_default :: RememberInput where
  "remember_default = \<lparr>in_id = None, in_text = [], in_event_time = None, in_valid_from = None, in_valid_to = None,
     in_subject = None, in_supersedes = None, in_entities = None, in_metadata = None, in_embedding = None,
     in_source_uri = None\<rparr>"

record ConsolidationAction =
  a_sources :: "string list"
  a_summary :: RememberInput
  a_forget_sources :: bool

fun join :: "string \<Rightarrow> string list \<Rightarrow> string" where
  "join sep [] = []"
| "join sep [w] = w"
| "join sep (w # ws) = w @ sep @ join sep ws"

definition text_key :: "(string \<Rightarrow> string list) \<Rightarrow> (string \<Rightarrow> string) \<Rightarrow> string \<Rightarrow> string" where
  "text_key split_whitespace to_lowercase text = to_lowercase (join '' '' (split_whitespace text))"

type_synonym group_key = "string option \<times> string"

definition group_of :: "(string \<Rightarrow> string) \<Rightarrow> FactSummary \<Rightarrow> group_key option" where
  "group_of tk f = (if f_status f = Current then map_option (\<lambda>t. (f_subject f, tk t)) (f_text f) else None)"

text \<open>The grouping loop over the facts, into a \<open>BTreeMap\<close>.\<close>

fun group_facts :: "(string \<Rightarrow> string) \<Rightarrow> FactSummary list \<Rightarrow> (group_key, FactSummary list) fmap \<Rightarrow>
    (group_key, FactSummary list) fmap" where
  "group_facts tk [] m = m"
| "group_facts tk (f # fs) m =
     (case group_of tk f of None \<Rightarrow> group_facts tk fs m
      | Some k \<Rightarrow> group_facts tk fs (fmupd k (lookup_list m k @ [f]) m))"

definition collapse_group :: "FactSummary list \<Rightarrow> ConsolidationAction" where
  "collapse_group g =
     (let g = sort_key (\<lambda>f. (f_effective_from f, f_ingest_time f, f_id f)) g;
          newest = last g;
          sources = map f_id g
      in \<lparr>a_sources = sources,
          a_summary = remember_default\<lparr>in_text := (case f_text newest of None \<Rightarrow> [] | Some t \<Rightarrow> t),
            in_event_time := f_event_time newest, in_valid_from := f_valid_from newest,
            in_valid_to := f_valid_to newest, in_subject := f_subject newest,
            in_supersedes := Some sources\<rparr>,
          a_forget_sources = False\<rparr>)"

definition collapse_duplicates :: "(string \<Rightarrow> string) \<Rightarrow> FactSummary list \<Rightarrow> Millis \<Rightarrow> ConsolidationAction list" where
  "collapse_duplicates tk facts now =
     (let groups = group_facts tk facts fmempty
      in map collapse_group (filter (\<lambda>g. length g > 1)
           (map (lookup_list groups) (sorted_list_of_set (fmdom' groups)))))"

definition no_consolidation :: "FactSummary list \<Rightarrow> Millis \<Rightarrow> ConsolidationAction list" where
  "no_consolidation facts now = []"

datatype ConsolidationSpec = NoConsolidationSpec | CollapseDuplicatesSpec

section \<open>Lemmas\<close>

lemma latest_by_subject_eq:
  "latest_by_subject incoming views =
     \<lparr>r_supersedes = (case find (\<lambda>f. v_id f \<noteq> v_id incoming \<and> v_effective_from f \<le> v_effective_from incoming) (rev views) of
          None \<Rightarrow> [] | Some f \<Rightarrow> [v_id f]),
      r_superseded_by = (case find (\<lambda>f. v_id f \<noteq> v_id incoming \<and> v_effective_from f > v_effective_from incoming) views of
          None \<Rightarrow> [] | Some f \<Rightarrow> [v_id f])\<rparr>"
  by (simp add: latest_by_subject_def Let_def resolution_default_def split: option.split)

lemma group_facts_lookup:
  "lookup_list (group_facts tk fs m) k = lookup_list m k @ filter (\<lambda>f. group_of tk f = Some k) fs"
  by (induction tk fs m rule: group_facts.induct) (auto split: option.split)

lemma group_facts_dom:
  "fmdom' (group_facts tk fs m) = fmdom' m \<union> {k. \<exists>f \<in> set fs. group_of tk f = Some k}"
  by (induction tk fs m rule: group_facts.induct) (auto split: option.split)

lemma take_sorted_le:
  assumes "x \<in> set (take n (sort_key r xs))" "y \<in> set (drop n (sort_key r xs))"
  shows "r x \<le> r y"
proof -
  have "sorted (map r (take n (sort_key r xs) @ drop n (sort_key r xs)))" by simp
  then show ?thesis using assms unfolding map_append sorted_append by auto
qed

lemma collapse_actions:
  "set (collapse_duplicates tk facts now) =
     collapse_group ` {g. length g > 1 \<and> (\<exists>k. g = filter (\<lambda>f. group_of tk f = Some k) facts)}"
proof -
  let ?m = "group_facts tk facts fmempty"
  have lk: "lookup_list ?m k = filter (\<lambda>f. group_of tk f = Some k) facts" for k
    by (simp add: group_facts_lookup) (simp add: lookup_list_def)
  have "{g. length g > 1 \<and> (\<exists>k \<in> fmdom' ?m. g = lookup_list ?m k)} =
      {g. length g > 1 \<and> (\<exists>k. g = filter (\<lambda>f. group_of tk f = Some k) facts)}"
  proof (intro Collect_cong conj_cong refl iffI)
    fix g assume "1 < length g" "\<exists>k. g = filter (\<lambda>f. group_of tk f = Some k) facts"
    then obtain k where k: "g = filter (\<lambda>f. group_of tk f = Some k) facts" by blast
    have "hd g \<in> set g" using \<open>1 < length g\<close> by (intro hd_in_set) auto
    then have "hd g \<in> set facts" "group_of tk (hd g) = Some k" by (simp_all add: k)
    then have "k \<in> fmdom' ?m" unfolding group_facts_dom by blast
    then show "\<exists>k \<in> fmdom' ?m. g = lookup_list ?m k" by (intro bexI [of _ k]) (simp_all only: k lk)
  qed (auto simp: lk)
  moreover have "set (collapse_duplicates tk facts now) =
      collapse_group ` {g. length g > 1 \<and> (\<exists>k \<in> fmdom' ?m. g = lookup_list ?m k)}"
  proof -
    have "set (filter (\<lambda>g. length g > 1) (map (lookup_list ?m) (sorted_list_of_set (fmdom' ?m)))) =
        {g. length g > 1 \<and> (\<exists>k \<in> fmdom' ?m. g = lookup_list ?m k)}" by auto
    then show ?thesis by (simp only: collapse_duplicates_def Let_def set_map)
  qed
  ultimately show ?thesis by simp
qed

section \<open>Properties\<close>

text \<open>
  \<open>MaxFacts\<close> forgets exactly the facts over the limit, and the least valuable ones: as many
  ids as there are facts too many, all different, all stored, and no kept fact ranks below a
  forgotten one, so a current fact is forgotten only when every fact that is not current is.
\<close>

theorem max_facts_exact:
  assumes "distinct (map f_id facts)" "f \<in> set facts" "g \<in> set facts"
    "f_id f \<in> set (max_facts limit facts now)" "f_id g \<notin> set (max_facts limit facts now)"
  shows "length (max_facts limit facts now) = length facts - limit \<and> distinct (max_facts limit facts now) \<and>
    set (max_facts limit facts now) \<subseteq> f_id ` set facts \<and> forget_rank f \<le> forget_rank g \<and>
    (f_status f = Current \<longrightarrow> f_status g = Current)"
proof -
  let ?s = "sort_key forget_rank facts" and ?n = "length facts - limit"
  have perm: "distinct (map f_id ?s)" "set ?s = set facts" "length ?s = length facts"
    using assms(1) by (simp_all add: distinct_map)
  have "inj_on f_id (set facts)" using assms(1) by (simp add: distinct_map)
  moreover obtain x where x: "x \<in> set (take ?n ?s)" "f_id f = f_id x" using assms(4) by (auto simp: max_facts_def)
  moreover have "x \<in> set facts" using in_set_takeD [OF x(1)] by simp
  ultimately have "f \<in> set (take ?n ?s)" using assms(2) by (metis inj_onD)
  moreover have "g \<notin> set (take ?n ?s)" using assms(5) by (auto simp: max_facts_def)
  then have "g \<in> set (drop ?n ?s)"
    using assms(3) perm(2) by (metis UnE append_take_drop_id set_append)
  ultimately have rank: "forget_rank f \<le> forget_rank g" by (rule take_sorted_le)
  moreover have "distinct (max_facts limit facts now)"
    using perm(1) by (simp add: max_facts_def take_map [symmetric] distinct_take)
  moreover have "set (max_facts limit facts now) \<subseteq> f_id ` set facts"
    by (auto simp: max_facts_def dest: in_set_takeD)
  ultimately show ?thesis by (auto simp: max_facts_def forget_rank_def less_eq_prod_def)
qed

definition example_fact :: "string \<Rightarrow> FactStatus \<Rightarrow> Millis \<Rightarrow> FactSummary" where
  "example_fact i s t = \<lparr>f_id = i, f_text = Some ''Tea'', f_status = s, f_ingest_time = Some t, f_event_time = None,
     f_valid_from = None, f_valid_to = None, f_effective_from = t, f_subject = None, f_superseded_at = None\<rparr>"

theorem max_facts_exact_witness:
  "forget_rank (example_fact ''b'' Expired 9) \<le> forget_rank (example_fact ''a'' Current 1)"
  using max_facts_exact [of "[example_fact ''a'' Current 1, example_fact ''b'' Expired 9]"
      "example_fact ''b'' Expired 9" "example_fact ''a'' Current 1" 1 0]
  by (simp add: max_facts_def example_fact_def forget_rank_def less_eq_prod_def)

text \<open>
  \<open>CollapseDuplicates\<close> merges exactly the duplicates and destroys nothing: every action
  lists all current facts of one subject with one normalized text, at least two of them; its
  summary supersedes them all, and it never asks for their removal.
\<close>

theorem collapse_duplicates_exact:
  assumes "a \<in> set (collapse_duplicates tk facts now)"
  shows "(\<exists>k. set (a_sources a) = f_id ` {f \<in> set facts. group_of tk f = Some k}) \<and>
    2 \<le> length (a_sources a) \<and> in_supersedes (a_summary a) = Some (a_sources a) \<and> \<not> a_forget_sources a"
proof -
  obtain k where k: "a = collapse_group (filter (\<lambda>f. group_of tk f = Some k) facts)"
    "1 < length (filter (\<lambda>f. group_of tk f = Some k) facts)"
    using assms unfolding collapse_actions by auto
  then have "set (a_sources a) = f_id ` {f \<in> set facts. group_of tk f = Some k}"
    by (simp add: collapse_group_def Let_def)
  moreover have "2 \<le> length (a_sources a)" "in_supersedes (a_summary a) = Some (a_sources a)" "\<not> a_forget_sources a"
    using k by (simp_all add: collapse_group_def Let_def)
  ultimately show ?thesis by blast
qed

theorem collapse_duplicates_exact_witness:
  "collapse_group [example_fact ''a'' Current 1, example_fact ''b'' Current 2] \<in>
     set (collapse_duplicates (\<lambda>t. t) [example_fact ''a'' Current 1, example_fact ''b'' Current 2] 0) \<and>
   2 \<le> length (a_sources (collapse_group [example_fact ''a'' Current 1, example_fact ''b'' Current 2]))"
proof -
  let ?g = "[example_fact ''a'' Current 1, example_fact ''b'' Current 2]"
  have "group_of (\<lambda>t. t) (example_fact i Current n) = Some (None, ''Tea'')" for i n
    by (simp add: group_of_def example_fact_def)
  then have "filter (\<lambda>f. group_of (\<lambda>t. t) f = Some (None, ''Tea'')) ?g = ?g" by simp
  then have "length ?g > 1 \<and> (\<exists>k. ?g = filter (\<lambda>f. group_of (\<lambda>t. t) f = Some k) ?g)"
    by (metis One_nat_def length_Cons lessI list.size(3))
  then have "collapse_group ?g \<in> set (collapse_duplicates (\<lambda>t. t) ?g 0)"
    unfolding collapse_actions by blast
  then show ?thesis using collapse_duplicates_exact [of _ "\<lambda>t. t" ?g 0] by blast
qed

end
