(* ===== verification/MemoryWrite.thy ===== *)
theory MemoryWrite
  imports MemoryPolicy
begin

text \<open>
  \<open>src/core/memory_api/write.rs\<close>: planning a remembered fact, the update of the index that
  follows its commit, and the choice and bridging of the facts to forget.

  The documents of the engine are a finite map from an id to its version, metadata and text; a
  commit of planned documents adds them to it, with the engine's default version.  What the code
  takes from other crates or from Unicode tables is in the environment record: printing and
  parsing JSON, trimming white space, the optional entity extractor and the chunking of a
  document.  Locks, the retry loops of concurrent writers, observers and the journal are not part
  of this theory.
\<close>

section \<open>Data\<close>

datatype MemoryError = Invalid string | NotFound string | Conflict string | Concurrent string | OtherError

datatype IdConflict = Reject | Replace

record DocumentInput =
  d_id :: string
  d_text :: string
  d_source_uri :: "string option"
  d_version :: "string option"
  d_metadata :: "json_value option"
  d_chunk_words :: "nat option"
  d_overlap_words :: "nat option"
  d_store_text :: "bool option"
  d_embeddings :: "u64 list list option"

record memory_env =
  trim :: "string \<Rightarrow> string"
  to_string :: "json_value \<Rightarrow> string"
  from_str :: "string \<Rightarrow> json_value option"
  to_vec :: "json_value \<Rightarrow> u8 list option"
  extractor :: "(string \<Rightarrow> string list) option"
  chunk_count :: "DocumentInput \<Rightarrow> string + nat"

type_synonym stored = "string \<times> json_value \<times> string option"

record Memory =
  m_revision :: u64
  documents :: "(string, stored) fmap"
  m_index :: Index
  on_id_conflict :: IdConflict
  supersession :: SupersessionPolicy
  supersession_active :: bool

record Planned =
  p_id :: string
  p_input :: RememberInput
  p_stamp :: Stamp
  p_idempotent :: bool
  p_replaces :: bool
  p_previous :: "Stamp option"
  p_document :: "DocumentInput option"

definition MAX_BATCH :: usize where "MAX_BATCH = 4096"
definition MAX_TEXT_BYTES :: usize where "MAX_TEXT_BYTES = 64 * 1024"
definition CHUNK_WORDS :: usize where "CHUNK_WORDS = 4096"
definition MAX_LABEL_BYTES :: usize where "MAX_LABEL_BYTES = 1024"
definition MAX_LABELS :: usize where "MAX_LABELS = 256"
definition MAX_LINKS :: usize where "MAX_LINKS = 256"

text \<open>The macro \<open>check!\<close>, and \<open>?\<close> on a result.\<close>

definition check :: "bool \<Rightarrow> string \<Rightarrow> (MemoryError + 'a) \<Rightarrow> MemoryError + 'a" where
  "check c msg r = (if c then r else Inl (Invalid msg))"

definition try_bind :: "(MemoryError + 'a) \<Rightarrow> ('a \<Rightarrow> MemoryError + 'b) \<Rightarrow> MemoryError + 'b" where
  "try_bind r f = (case r of Inl e \<Rightarrow> Inl e | Inr x \<Rightarrow> f x)"

section \<open>Labels, hashes\<close>

definition label :: "memory_env \<Rightarrow> string \<Rightarrow> string \<Rightarrow> MemoryError + string" where
  "label env value what =
     (let value = trim env value
      in check (value \<noteq> [] \<and> length value \<le> MAX_LABEL_BYTES \<and> CHR 0x00 \<notin> set value) what (Inr value))"

definition push_unique :: "'a \<Rightarrow> 'a list \<Rightarrow> 'a list" where
  "push_unique v l = (if v \<in> set l then l else l @ [v])"

fun push_labels :: "memory_env \<Rightarrow> string list \<Rightarrow> string list \<Rightarrow> MemoryError + string list" where
  "push_labels env [] acc = Inr acc"
| "push_labels env (e # es) acc = try_bind (label env e ''entity'') (\<lambda>l. push_labels env es (push_unique l acc))"

definition push_extracted :: "memory_env \<Rightarrow> string list \<Rightarrow> string list \<Rightarrow> string list" where
  "push_extracted env found acc =
     fold (\<lambda>e acc. case label env e ''entity'' of Inl _ \<Rightarrow> acc | Inr l \<Rightarrow> push_unique l acc) found acc"

fun push_ids :: "string list \<Rightarrow> string list \<Rightarrow> MemoryError + string list" where
  "push_ids [] acc = Inr acc"
| "push_ids (i # ids) acc =
     check (valid_id i) ''supersedes holds an invalid fact id'' (push_ids ids (push_unique i acc))"

definition bytes_of :: "string \<Rightarrow> u8 list" where
  "bytes_of s = map of_char s"

fun decimal :: "nat \<Rightarrow> string" where
  "decimal n = (if n < 10 then [hex_digit n] else decimal (n div 10) @ [hex_digit (n mod 10)])"

declare decimal.simps [simp del]

definition time_part :: "Millis option \<Rightarrow> u8 list" where
  "time_part v = (case v of None \<Rightarrow> bytes_of ''-''
     | Some t \<Rightarrow> bytes_of (if t < 0 then ''-'' @ decimal (nat (- t)) else decimal (nat t)))"

definition payload_hash :: "RememberInput \<Rightarrow> u8 list \<Rightarrow> string option \<Rightarrow> string list \<Rightarrow> string list \<Rightarrow> string" where
  "payload_hash input metadata_bytes subj explicit ents =
     stable_hash [bytes_of (in_text input), metadata_bytes, time_part (in_event_time input),
       time_part (in_valid_from input), time_part (in_valid_to input),
       bytes_of (case subj of None \<Rightarrow> [] | Some s \<Rightarrow> s), bytes_of (join [CHR 0x01] explicit),
       bytes_of (join [CHR 0x01] ents), bytes_of (case in_source_uri input of None \<Rightarrow> [] | Some u \<Rightarrow> u),
       concat (map u64_le_bytes (case in_embedding input of None \<Rightarrow> [] | Some v \<Rightarrow> v))]"

section \<open>Supersession links\<close>

definition view_of_member :: "string \<Rightarrow> Member \<Rightarrow> FactView" where
  "view_of_member s m = \<lparr>v_id = m_id m, v_subject = Some s, v_effective_from = m_effective m, v_ingest_time = m_ingest m\<rparr>"

definition view_of_planned :: "string \<Rightarrow> Planned \<Rightarrow> FactView" where
  "view_of_planned s p = \<lparr>v_id = p_id p, v_subject = Some s, v_effective_from = effective_from (p_stamp p),
     v_ingest_time = ingest (p_stamp p)\<rparr>"

definition view_order :: "FactView \<Rightarrow> Millis \<times> Millis \<times> string" where
  "view_order v = (v_effective_from v, v_ingest_time v, v_id v)"

text \<open>The candidates of the subject: its indexed members and the earlier facts of the call.\<close>

definition subject_group :: "Index \<Rightarrow> Planned list \<Rightarrow> string \<Rightarrow> string \<Rightarrow> FactView list" where
  "subject_group ix earlier i s =
     (let g = map (view_of_member s) (filter (\<lambda>m. m_id m \<noteq> i) (members ix s));
          g = fold (\<lambda>p g. filter (\<lambda>v. v_id v \<noteq> p_id p) g @ [view_of_planned s p])
                (filter (\<lambda>p. subject (p_stamp p) = Some s) earlier) g
      in sort_key view_order g)"

definition resolve_links :: "Memory \<Rightarrow> Planned list \<Rightarrow> RememberInput \<Rightarrow> string \<Rightarrow> string option \<Rightarrow> string list \<Rightarrow> Millis \<Rightarrow>
    MemoryError + string list \<times> string list" where
  "resolve_links mem earlier input i subj explicit now =
     (case (supersession_active mem, subj) of
        (True, Some s) \<Rightarrow>
          (let g = subject_group (m_index mem) earlier i s;
               incoming = \<lparr>v_id = i, v_subject = Some s,
                 v_effective_from = (case option_or (in_valid_from input) (in_event_time input) of None \<Rightarrow> now | Some t \<Rightarrow> t),
                 v_ingest_time = now\<rparr>;
               res = supersession mem incoming g
           in check (set (r_supersedes res @ r_superseded_by res) \<subseteq> v_id ` set g) ''not a stored fact of the subject''
                (Inr (sort (fold push_unique (r_supersedes res) explicit),
                      sort (fold push_unique (r_superseded_by res) []))))
      | _ \<Rightarrow> Inr (explicit, []))"

definition check_cycles :: "Index \<Rightarrow> string \<Rightarrow> string list \<Rightarrow> string list \<Rightarrow> (MemoryError + 'a) \<Rightarrow> MemoryError + 'a" where
  "check_cycles ix i olds newer r =
     check (\<not> (\<exists>old \<in> set olds. supersedes_transitively ix old i)) ''superseding would make a cycle''
       (check (\<not> (\<exists>n \<in> set newer. supersedes_transitively ix i n)) ''being superseded would make a cycle'' r)"

section \<open>Planning a fact\<close>

definition plan_new :: "memory_env \<Rightarrow> Memory \<Rightarrow> Planned list \<Rightarrow> RememberInput \<Rightarrow> (string \<Rightarrow> json_value option) \<Rightarrow> Millis \<Rightarrow>
    string \<Rightarrow> string \<Rightarrow> string option \<Rightarrow> string list \<Rightarrow> string list \<Rightarrow> bool \<times> Stamp option \<Rightarrow> MemoryError + Planned" where
  "plan_new env mem earlier input user_md now i hsh subj explicit ents replacing =
     check (\<not> (\<exists>old \<in> set explicit. fmlookup (documents mem) old = None \<and> old \<notin> p_id ` set earlier))
       ''cannot supersede unknown fact''
     (try_bind (resolve_links mem earlier input i subj explicit now) (\<lambda>(olds, newer).
      check_cycles (m_index mem) i olds newer
       (let st = \<lparr>ingest = now, event = in_event_time input, valid_from = in_valid_from input,
              valid_to = in_valid_to input, subject = subj, supersedes = olds, superseded_by = newer,
              entities = ents, hash = Some hsh\<rparr>
        in case apply_placement (to_string env) st (Object user_md) of
             None \<Rightarrow> Inl OtherError
           | Some (version, metadata) \<Rightarrow>
               (let doc = \<lparr>d_id = i, d_text = in_text input, d_source_uri = in_source_uri input, d_version = version,
                      d_metadata = Some metadata, d_chunk_words = Some CHUNK_WORDS, d_overlap_words = Some 0,
                      d_store_text = Some True, d_embeddings = map_option (\<lambda>v. [v]) (in_embedding input)\<rparr>
                in case chunk_count env doc of
                     Inl msg \<Rightarrow> Inl (Invalid msg)
                   | Inr n \<Rightarrow> check (n = 1) ''text must fit one chunk''
                       (Inr \<lparr>p_id = i, p_input = input\<lparr>in_metadata := None\<rparr>, p_stamp = st, p_idempotent = False,
                         p_replaces = fst replacing, p_previous = snd replacing, p_document = Some doc\<rparr>)))))"

definition plan_stored :: "memory_env \<Rightarrow> Memory \<Rightarrow> Planned list \<Rightarrow> RememberInput \<Rightarrow> (string \<Rightarrow> json_value option) \<Rightarrow> Millis \<Rightarrow>
    string \<Rightarrow> string \<Rightarrow> string option \<Rightarrow> string list \<Rightarrow> string list \<Rightarrow> MemoryError + Planned" where
  "plan_stored env mem earlier input user_md now i hsh subj explicit ents =
     (let create = plan_new env mem earlier input user_md now i hsh subj explicit ents
      in case fmlookup (documents mem) i of
           None \<Rightarrow> create (False, None)
         | Some (version, metadata, _) \<Rightarrow>
             (let existing = from_parts (from_str env) version metadata
              in case existing of
                   Some st \<Rightarrow>
                     if hash st = Some hsh
                     then Inr \<lparr>p_id = i, p_input = input\<lparr>in_metadata := None\<rparr>, p_stamp = st, p_idempotent = True, p_replaces = False,
                       p_previous = None, p_document = None\<rparr>
                     else if on_id_conflict mem \<noteq> Replace then Inl (Conflict i)
                     else create (True, existing)
                 | None \<Rightarrow>
                     if on_id_conflict mem \<noteq> Replace then Inl (Conflict i)
                     else check (edges (m_index mem) i = []) ''not a memory fact and superseded by others''
                       (create (True, existing))))"

definition plan_one :: "memory_env \<Rightarrow> Memory \<Rightarrow> Planned list \<Rightarrow> RememberInput \<Rightarrow> Millis \<Rightarrow> MemoryError + Planned" where
  "plan_one env mem earlier input now =
     check (trim env (in_text input) \<noteq> [] \<and> length (in_text input) \<le> MAX_TEXT_BYTES) ''text''
     (check (case (in_valid_from input, in_valid_to input) of (Some a, Some b) \<Rightarrow> a < b | _ \<Rightarrow> True)
        ''validFrom must be before validTo''
     (try_bind (case in_metadata input of
          None \<Rightarrow> Inr (\<lambda>_. None) | Some Null \<Rightarrow> Inr (\<lambda>_. None) | Some (Object m) \<Rightarrow> Inr m
        | Some _ \<Rightarrow> Inl (Invalid ''metadata must be a JSON object'')) (\<lambda>user_md.
      check (user_md KEY = None) ''metadata key is reserved''
     (try_bind (case in_subject input of None \<Rightarrow> Inr None | Some s \<Rightarrow> try_bind (label env s ''subject'') (\<lambda>l. Inr (Some l))) (\<lambda>subj.
      try_bind (push_labels env (case in_entities input of None \<Rightarrow> [] | Some es \<Rightarrow> es) []) (\<lambda>ents.
      let ents = (case extractor env of None \<Rightarrow> ents | Some f \<Rightarrow> push_extracted env (f (in_text input)) ents) in
      check (length ents \<le> MAX_LABELS) ''entities''
     (try_bind (push_ids (case in_supersedes input of None \<Rightarrow> [] | Some ids \<Rightarrow> ids) []) (\<lambda>ids.
      let explicit = sort ids in
      check (length explicit \<le> MAX_LINKS) ''supersedes''
     (case to_vec env (Object user_md) of
        None \<Rightarrow> Inl OtherError
      | Some metadata_bytes \<Rightarrow>
          (let hsh = payload_hash input metadata_bytes subj explicit ents
           in try_bind (case in_id input of
                 Some i \<Rightarrow> check (valid_id i) ''id'' (Inr i) | None \<Rightarrow> Inr (''mem:'' @ hsh)) (\<lambda>i.
              check (i \<notin> set explicit) ''a fact cannot supersede itself''
                (plan_stored env mem earlier input user_md now i hsh subj explicit ents))))))))))))"

fun plan_all :: "memory_env \<Rightarrow> Memory \<Rightarrow> Planned list \<Rightarrow> RememberInput list \<Rightarrow> Millis \<Rightarrow> MemoryError + Planned list" where
  "plan_all env mem planned [] now = Inr planned"
| "plan_all env mem planned (input # inputs) now =
     try_bind (plan_one env mem planned input now) (\<lambda>p.
       check (p_id p \<notin> p_id ` set planned) ''fact id appears twice in one call''
         (plan_all env mem (planned @ [p]) inputs now))"

section \<open>Committing planned facts\<close>

text \<open>A committed document; without a version of its own it has the engine's.\<close>

definition ENGINE_VERSION :: string where "ENGINE_VERSION = ''1''"

definition stored_of :: "DocumentInput \<Rightarrow> stored" where
  "stored_of d = (case d_version d of None \<Rightarrow> ENGINE_VERSION | Some v \<Rightarrow> v,
     case d_metadata d of None \<Rightarrow> Object (\<lambda>_. None) | Some m \<Rightarrow> m, Some (d_text d))"

definition store_documents :: "DocumentInput list \<Rightarrow> (string, stored) fmap \<Rightarrow> (string, stored) fmap" where
  "store_documents ds docs = fold (\<lambda>d. fmupd (d_id d) (stored_of d)) ds docs"

definition scan_documents :: "(string, stored) fmap \<Rightarrow> (string \<times> string \<times> json_value) list" where
  "scan_documents docs = List.map_filter (\<lambda>i. map_option (\<lambda>(version, metadata, _). (i, version, metadata)) (fmlookup docs i))
     (sorted_list_of_set (fmdom' docs))"

definition ensure_fresh :: "memory_env \<Rightarrow> Memory \<Rightarrow> Memory" where
  "ensure_fresh env mem =
     (if revision (m_index mem) = Some (m_revision mem) then mem
      else mem\<lparr>m_index := rebuild (from_str env) (scan_documents (documents mem)) (m_revision mem)\<rparr>)"

text \<open>
  \<open>settle\<close>: the store moved from \<open>before\<close> to \<open>after\<close>; the index follows by \<open>apply\<close> when nothing
  else intervened and \<open>apply\<close> can track the change, and is otherwise left to be rebuilt.
\<close>

definition settle :: "u64 \<Rightarrow> u64 \<Rightarrow> u64 \<Rightarrow> (Index \<Rightarrow> Index option) \<Rightarrow> Index \<Rightarrow> Index" where
  "settle before commits after apply_change ix =
     (if revision ix = Some before \<and> after = before + commits
      then (case apply_change ix of None \<Rightarrow> ix\<lparr>revision := None\<rparr> | Some ix' \<Rightarrow> ix'\<lparr>revision := Some after\<rparr>)
      else ix\<lparr>revision := None\<rparr>)"

definition batch_times :: "Planned list \<Rightarrow> string \<Rightarrow> (Millis \<times> Millis) option" where
  "batch_times written = map_of (rev (map (\<lambda>p. (p_id p, effective_from (p_stamp p), ingest (p_stamp p))) written))"

definition settle_lookup :: "Planned list \<Rightarrow> Planned \<Rightarrow> Index \<Rightarrow> string \<Rightarrow> (Millis \<times> Millis) option" where
  "settle_lookup written p ix i =
     (case batch_times written i of
        Some t \<Rightarrow> Some t
      | None \<Rightarrow> Option.bind (subject (p_stamp p)) (\<lambda>s. member ix s i))"

definition settle_written :: "Planned list \<Rightarrow> Index \<Rightarrow> Index option" where
  "settle_written written ix =
     (if \<exists>p \<in> set written. p_replaces p \<and> (edges ix (p_id p) \<noteq> [] \<or> direct_predecessors ix (p_id p) \<noteq> []) then None
      else
        (let ix = fold (\<lambda>p ix. case p_previous p of None \<Rightarrow> ix | Some old \<Rightarrow> index_remove (p_id p) old ix) written ix
         in Some (fold (\<lambda>p ix. index_insert (p_id p) (p_stamp p) (settle_lookup written p ix) ix) written ix)))"

record Remembered =
  rem_id :: string
  rem_created :: bool
  rem_supersedes :: "string list"
  rem_superseded_by :: "string list"
  rem_ingest_time :: Millis

definition outcome_of :: "Planned \<Rightarrow> Remembered" where
  "outcome_of p = \<lparr>rem_id = p_id p, rem_created = (\<not> p_idempotent p), rem_supersedes = supersedes (p_stamp p),
     rem_superseded_by = superseded_by (p_stamp p), rem_ingest_time = ingest (p_stamp p)\<rparr>"

text \<open>
  \<open>remember_many\<close> with no other writer: the index is brought up to date, the facts are planned,
  their documents are committed in one transaction, and the index is settled.
\<close>

definition remember_many :: "memory_env \<Rightarrow> Memory \<Rightarrow> RememberInput list \<Rightarrow> Millis \<Rightarrow> MemoryError + Memory \<times> Remembered list" where
  "remember_many env mem inputs now =
     check (inputs \<noteq> [] \<and> length inputs \<le> MAX_BATCH) ''remember requires 1..=4096 facts''
     (let mem = ensure_fresh env mem in
      try_bind (plan_all env mem [] inputs now) (\<lambda>planned.
        let docs = List.map_filter p_document planned;
            commits = (if docs = [] then 0 else 1);
            after = m_revision mem + commits;
            written = filter (\<lambda>p. \<not> p_idempotent p) planned;
            ix = (if written = [] then m_index mem
                  else settle (m_revision mem) commits after (settle_written written) (m_index mem))
        in Inr (mem\<lparr>m_revision := after, documents := store_documents docs (documents mem), m_index := ix\<rparr>,
                map outcome_of planned)))"

section \<open>Forgetting\<close>

datatype ForgetScope =
    Ids "string list" | BySubject string | ByEntity string
  | IngestedBefore Millis | EventBefore Millis | Matching json_value

definition stamp_at :: "memory_env \<Rightarrow> Memory \<Rightarrow> string \<Rightarrow> Stamp option" where
  "stamp_at env mem i = Option.bind (fmlookup (documents mem) i)
     (\<lambda>(version, metadata, _). from_parts (from_str env) version metadata)"

definition scan_ids :: "memory_env \<Rightarrow> Memory \<Rightarrow> (Stamp \<Rightarrow> bool) \<Rightarrow> string set" where
  "scan_ids env mem keep = {i \<in> fmdom' (documents mem). \<exists>st. stamp_at env mem i = Some st \<and> keep st}"

definition resolve_scope :: "memory_env \<Rightarrow> Memory \<Rightarrow> ForgetScope \<Rightarrow> MemoryError + string set" where
  "resolve_scope env mem scope = (case scope of
     Ids ids \<Rightarrow> check (list_all valid_id ids) ''ids must be valid fact ids'' (Inr (set ids))
   | BySubject s \<Rightarrow> Inr (set (subject_ids (m_index mem) (trim env s)))
   | ByEntity e \<Rightarrow> Inr (set (entity_ids (m_index mem) (trim env e)))
   | IngestedBefore t \<Rightarrow> Inr (scan_ids env mem (\<lambda>st. ingest st < t))
   | EventBefore t \<Rightarrow> Inr (scan_ids env mem (\<lambda>st.
       (case option_or (event st) (valid_from st) of None \<Rightarrow> ingest st | Some e \<Rightarrow> e) < t))
   | Matching filt \<Rightarrow>
       (case filt of
          Object f \<Rightarrow>
            if f = (\<lambda>_. None) then Inl (Invalid ''filter must be a non-empty JSON object'')
            else check (f KEY = None) ''metadata key is reserved''
              (Inr {i \<in> fmdom' (documents mem). stamp_at env mem i \<noteq> None \<and>
                 (\<forall>k \<in> dom f. \<exists>v md txt. fmlookup (documents mem) i = Some (v, md, txt) \<and> value_get md k = f k)})
        | _ \<Rightarrow> Inl (Invalid ''filter must be a non-empty JSON object'')))"

text \<open>The new stamp of a survivor whose links run through removed facts; \<open>None\<close> when unchanged.\<close>

definition bridge_stamp :: "Index \<Rightarrow> string set \<Rightarrow> string \<Rightarrow> Stamp \<Rightarrow> Stamp option" where
  "bridge_stamp ix dead survivor st =
     (let olds = sorted_list_of_set ({i \<in> set (supersedes st). i \<notin> dead} \<union> bridge ix survivor dead);
          hints = filter (\<lambda>i. i \<notin> dead) (superseded_by st)
      in if olds = sort (supersedes st) \<and> hints = superseded_by st then None
         else Some (st\<lparr>supersedes := olds, superseded_by := hints\<rparr>))"

definition affected :: "Index \<Rightarrow> string list \<Rightarrow> string set" where
  "affected ix forgotten = {by. \<exists>i \<in> set forgotten. by \<in> e_by ` set (edges ix i)} - set forgotten"

fun bridge_loop_docs :: "memory_env \<Rightarrow> Memory \<Rightarrow> string set \<Rightarrow> string list \<Rightarrow> (string \<times> stored) list option" where
  "bridge_loop_docs env mem dead [] = Some []"
| "bridge_loop_docs env mem dead (x # xs) =
     (case fmlookup (documents mem) x of
        None \<Rightarrow> bridge_loop_docs env mem dead xs
      | Some (version, metadata, txt) \<Rightarrow>
          (case Option.bind (from_parts (from_str env) version metadata) (bridge_stamp (m_index mem) dead x) of
             None \<Rightarrow> bridge_loop_docs env mem dead xs
           | Some st \<Rightarrow>
               (case apply_placement (to_string env) st metadata of
                  None \<Rightarrow> None
                | Some (v, md) \<Rightarrow> map_option (\<lambda>rs. (x, (case v of None \<Rightarrow> ENGINE_VERSION | Some v \<Rightarrow> v, md,
                    Some (case txt of None \<Rightarrow> [] | Some s \<Rightarrow> s))) # rs) (bridge_loop_docs env mem dead xs))))"

definition bridge_survivors :: "memory_env \<Rightarrow> Memory \<Rightarrow> string list \<Rightarrow> (string \<times> stored) list option" where
  "bridge_survivors env mem forgotten =
     bridge_loop_docs env mem (set forgotten) (sorted_list_of_set (affected (m_index mem) forgotten))"

definition chunk_commits :: "nat \<Rightarrow> u64" where
  "chunk_commits n = of_nat ((n + MAX_BATCH - 1) div MAX_BATCH)"

text \<open>
  \<open>forget\<close> with no other writer, without the purge and the scrubbing of text: the facts of the
  scope, with their chains when asked, are removed after the survivors are re-linked.  \<open>None\<close> is
  a panic.
\<close>

definition forget :: "memory_env \<Rightarrow> Memory \<Rightarrow> ForgetScope \<Rightarrow> bool \<Rightarrow> bool \<Rightarrow> (MemoryError + Memory \<times> string list) option" where
  "forget env mem scope include_chain dry_run =
     (let mem = ensure_fresh env mem in
      case resolve_scope env mem scope of
        Inl e \<Rightarrow> Some (Inl e)
      | Inr ids \<Rightarrow>
          (let ids = (if include_chain then \<Union> (component (m_index mem) ` ids) else ids);
               forgotten = filter (\<lambda>i. fmlookup (documents mem) i \<noteq> None) (sorted_list_of_set ids);
               stamps = map (\<lambda>i. (i, case stamp_at env mem i of None \<Rightarrow> stamp_default | Some st \<Rightarrow> st)) forgotten
           in if dry_run \<or> forgotten = [] then Some (Inr (mem, forgotten))
              else
                (case bridge_survivors env mem forgotten of
                   None \<Rightarrow> None
                 | Some rewrites \<Rightarrow>
                     (let after = m_revision mem + chunk_commits (length rewrites) + chunk_commits (length forgotten);
                          docs = fold fmdrop forgotten (fold (\<lambda>(i, d). fmupd i d) rewrites (documents mem));
                          ix = (if rewrites = []
                                then settle (m_revision mem) (chunk_commits (length forgotten)) after
                                       (\<lambda>ix. Some (fold (\<lambda>(i, st). index_remove i st) stamps ix)) (m_index mem)
                                else (m_index mem)\<lparr>revision := None\<rparr>)
                      in Some (Inr (mem\<lparr>m_revision := after, documents := docs, m_index := ix\<rparr>, forgotten))))))"

section \<open>What an accepted plan says\<close>

lemma check_Inr: "check c m r = Inr x \<longleftrightarrow> c \<and> r = Inr x"
  by (simp add: check_def)

lemma try_bind_Inr: "try_bind r f = Inr y \<longleftrightarrow> (\<exists>x. r = Inr x \<and> f x = Inr y)"
  by (simp add: try_bind_def split: sum.split)

lemmas plan_Inr = check_Inr try_bind_Inr check_cycles_def

text \<open>The stamp a new fact gets, and the checks it passed.\<close>

definition planned_stamp :: "Memory \<Rightarrow> Planned list \<Rightarrow> RememberInput \<Rightarrow> Millis \<Rightarrow> string \<Rightarrow> string list \<Rightarrow> Stamp \<Rightarrow> bool" where
  "planned_stamp mem earlier input now i explicit st \<longleftrightarrow>
     ingest st = now \<and> event st = in_event_time input \<and> valid_from st = in_valid_from input \<and>
     valid_to st = in_valid_to input \<and>
     resolve_links mem earlier input i (subject st) explicit now = Inr (supersedes st, superseded_by st) \<and>
     \<not> (\<exists>old \<in> set (supersedes st). supersedes_transitively (m_index mem) old i) \<and>
     \<not> (\<exists>n \<in> set (superseded_by st). supersedes_transitively (m_index mem) i n)"

lemma plan_new_Inr:
  assumes "plan_new env mem earlier input user_md now i hsh subj explicit ents rp = Inr p"
  shows "p_id p = i \<and> \<not> p_idempotent p \<and> p_replaces p = fst rp \<and> p_previous p = snd rp \<and>
    subject (p_stamp p) = subj \<and> entities (p_stamp p) = ents \<and> hash (p_stamp p) = Some hsh \<and>
    planned_stamp mem earlier input now i explicit (p_stamp p) \<and>
    (\<forall>old \<in> set explicit. fmlookup (documents mem) old \<noteq> None \<or> old \<in> p_id ` set earlier) \<and>
    (\<exists>doc. p_document p = Some doc \<and> d_id doc = i \<and> d_text doc = in_text input \<and>
       chunk_count env doc = Inr 1 \<and>
       apply_placement (to_string env) (p_stamp p) (Object user_md) = Some (d_version doc, the (d_metadata doc)) \<and>
       d_metadata doc \<noteq> None)"
proof -
  obtain olds newer where links: "resolve_links mem earlier input i subj explicit now = Inr (olds, newer)"
    using assms by (auto simp: plan_new_def plan_Inr)
  define st where "st = \<lparr>ingest = now, event = in_event_time input, valid_from = in_valid_from input,
    valid_to = in_valid_to input, subject = subj, supersedes = olds, superseded_by = newer,
    entities = ents, hash = Some hsh\<rparr>"
  obtain version metadata where place: "apply_placement (to_string env) st (Object user_md) = Some (version, metadata)"
    using assms by (cases "apply_placement (to_string env) st (Object user_md)")
      (auto simp: plan_new_def plan_Inr links Let_def st_def [symmetric])
  define doc where "doc = \<lparr>d_id = i, d_text = in_text input, d_source_uri = in_source_uri input, d_version = version,
    d_metadata = Some metadata, d_chunk_words = Some CHUNK_WORDS, d_overlap_words = Some 0,
    d_store_text = Some True, d_embeddings = map_option (\<lambda>v. [v]) (in_embedding input)\<rparr>"
  obtain n where "chunk_count env doc = Inr n"
    using assms by (cases "chunk_count env doc")
      (auto simp: plan_new_def plan_Inr links Let_def st_def [symmetric] place doc_def [symmetric])
  then have "\<forall>old \<in> set explicit. fmlookup (documents mem) old \<noteq> None \<or> old \<in> p_id ` set earlier"
    "\<not> (\<exists>old \<in> set olds. supersedes_transitively (m_index mem) old i)"
    "\<not> (\<exists>n \<in> set newer. supersedes_transitively (m_index mem) i n)" "chunk_count env doc = Inr 1"
    "p = \<lparr>p_id = i, p_input = input\<lparr>in_metadata := None\<rparr>, p_stamp = st, p_idempotent = False,
       p_replaces = fst rp, p_previous = snd rp, p_document = Some doc\<rparr>"
    using assms by (auto simp: plan_new_def plan_Inr links Let_def st_def [symmetric] place doc_def [symmetric])
  then show ?thesis using links place by (simp add: planned_stamp_def st_def doc_def)
qed

lemma plan_stored_Inr:
  assumes "plan_stored env mem earlier input user_md now i hsh subj explicit ents = Inr p"
  shows "(\<exists>st. stamp_at env mem i = Some st \<and> hash st = Some hsh \<and> p_id p = i \<and> p_stamp p = st \<and>
      p_idempotent p \<and> \<not> p_replaces p \<and> p_previous p = None \<and> p_document p = None) \<or>
    (fmlookup (documents mem) i = None \<or> on_id_conflict mem = Replace) \<and>
    plan_new env mem earlier input user_md now i hsh subj explicit ents
      (fmlookup (documents mem) i \<noteq> None, stamp_at env mem i) = Inr p"
  using assms unfolding plan_stored_def Let_def stamp_at_def
  by (cases "fmlookup (documents mem) i") (auto simp: plan_Inr split: option.splits if_splits)

lemma plan_one_Inr:
  assumes "plan_one env mem earlier input now = Inr p"
  obtains user_md subj ents explicit raw_ids md_bytes where
    "trim env (in_text input) \<noteq> []" "length (in_text input) \<le> MAX_TEXT_BYTES"
    "case (in_valid_from input, in_valid_to input) of (Some a, Some b) \<Rightarrow> a < b | _ \<Rightarrow> True"
    "user_md KEY = None"
    "case in_subject input of None \<Rightarrow> subj = None | Some s \<Rightarrow> \<exists>l. label env s ''subject'' = Inr l \<and> subj = Some l"
    "length ents \<le> MAX_LABELS" "length explicit \<le> MAX_LINKS"
    "push_ids (case in_supersedes input of None \<Rightarrow> [] | Some ids \<Rightarrow> ids) [] = Inr raw_ids" "explicit = sort raw_ids"
    "case in_id input of Some i \<Rightarrow> valid_id i \<and> p_id p = i
       | None \<Rightarrow> p_id p = ''mem:'' @ payload_hash input md_bytes subj explicit ents"
    "p_id p \<notin> set explicit"
    "plan_stored env mem earlier input user_md now (p_id p) (payload_hash input md_bytes subj explicit ents) subj explicit ents = Inr p"
    "\<And>mem' earlier' now'. plan_one env mem' earlier' input now' =
       plan_stored env mem' earlier' input user_md now' (p_id p) (payload_hash input md_bytes subj explicit ents) subj explicit ents"
proof -
  have id_of: "p_id p = i" if "plan_stored env mem earlier input md now i h sj ex en = Inr p" for md i h sj ex en
    using plan_stored_Inr [OF that] plan_new_Inr [of env mem earlier input md now i h sj ex en] by auto
  let ?bytes = "\<lambda>user_md. to_vec env (Object user_md)"
  from assms [unfolded plan_one_def check_Inr try_bind_Inr Let_def]
  obtain user_md subj ents0 ids where c:
    "trim env (in_text input) \<noteq> [] \<and> length (in_text input) \<le> MAX_TEXT_BYTES"
    "case (in_valid_from input, in_valid_to input) of (Some a, Some b) \<Rightarrow> a < b | _ \<Rightarrow> True"
    "user_md KEY = None"
    "(case in_metadata input of None \<Rightarrow> Inr (\<lambda>_. None) | Some Null \<Rightarrow> Inr (\<lambda>_. None) | Some (Object m) \<Rightarrow> Inr m
       | Some _ \<Rightarrow> Inl (Invalid ''metadata must be a JSON object'')) = Inr user_md"
    "push_labels env (case in_entities input of None \<Rightarrow> [] | Some es \<Rightarrow> es) [] = Inr ents0"
    "(case in_subject input of None \<Rightarrow> Inr None | Some s \<Rightarrow> try_bind (label env s ''subject'') (\<lambda>l. Inr (Some l))) = Inr subj"
    "length (case extractor env of None \<Rightarrow> ents0 | Some f \<Rightarrow> push_extracted env (f (in_text input)) ents0) \<le> MAX_LABELS"
    "push_ids (case in_supersedes input of None \<Rightarrow> [] | Some ids \<Rightarrow> ids) [] = Inr ids" "length (sort ids) \<le> MAX_LINKS"
    and rest: "(case ?bytes user_md of None \<Rightarrow> Inl OtherError | Some metadata_bytes \<Rightarrow>
       try_bind (case in_id input of Some i \<Rightarrow> check (valid_id i) ''id'' (Inr i)
         | None \<Rightarrow> Inr (''mem:'' @ payload_hash input metadata_bytes subj (sort ids)
             (case extractor env of None \<Rightarrow> ents0 | Some f \<Rightarrow> push_extracted env (f (in_text input)) ents0))) (\<lambda>i.
       check (i \<notin> set (sort ids)) ''a fact cannot supersede itself''
         (plan_stored env mem earlier input user_md now i (payload_hash input metadata_bytes subj (sort ids)
             (case extractor env of None \<Rightarrow> ents0 | Some f \<Rightarrow> push_extracted env (f (in_text input)) ents0)) subj (sort ids)
             (case extractor env of None \<Rightarrow> ents0 | Some f \<Rightarrow> push_extracted env (f (in_text input)) ents0)))) = Inr p"
    by blast
  obtain bytes i where b: "?bytes user_md = Some bytes" "i \<notin> set (sort ids)"
      "(case in_id input of Some i \<Rightarrow> check (valid_id i) ''id'' (Inr i) | None \<Rightarrow> Inr (''mem:'' @ payload_hash input bytes subj (sort ids)
         (case extractor env of None \<Rightarrow> ents0 | Some f \<Rightarrow> push_extracted env (f (in_text input)) ents0))) = Inr i"
      "plan_stored env mem earlier input user_md now i (payload_hash input bytes subj (sort ids)
         (case extractor env of None \<Rightarrow> ents0 | Some f \<Rightarrow> push_extracted env (f (in_text input)) ents0)) subj (sort ids)
         (case extractor env of None \<Rightarrow> ents0 | Some f \<Rightarrow> push_extracted env (f (in_text input)) ents0) = Inr p"
    using rest by (cases "?bytes user_md") (auto simp only: check_Inr try_bind_Inr option.case)
  note i = id_of [OF b(4)]
  have subj: "case in_subject input of None \<Rightarrow> subj = None | Some s \<Rightarrow> \<exists>l. label env s ''subject'' = Inr l \<and> subj = Some l"
    using c(6) by (auto simp: try_bind_Inr split: option.splits)
  have ident: "case in_id input of Some i \<Rightarrow> valid_id i \<and> p_id p = i
      | None \<Rightarrow> p_id p = ''mem:'' @ payload_hash input bytes subj (sort ids)
         (case extractor env of None \<Rightarrow> ents0 | Some f \<Rightarrow> push_extracted env (f (in_text input)) ents0)"
    using b(3) i by (cases "in_id input") (auto simp: check_Inr)
  have replan: "plan_one env mem' earlier' input now' = plan_stored env mem' earlier' input user_md now' (p_id p)
      (payload_hash input bytes subj (sort ids)
         (case extractor env of None \<Rightarrow> ents0 | Some f \<Rightarrow> push_extracted env (f (in_text input)) ents0)) subj (sort ids)
      (case extractor env of None \<Rightarrow> ents0 | Some f \<Rightarrow> push_extracted env (f (in_text input)) ents0)" for mem' earlier' now'
    unfolding plan_one_def using c b(1,2,3) i by (simp only: check_def try_bind_def sum.case option.case if_True Let_def simp_thms)
  show thesis
    by (rule that [where explicit = "sort ids" and raw_ids = ids and md_bytes = bytes, OF conjunct1 [OF c(1)]
          conjunct2 [OF c(1)] c(2,3) subj c(7,9,8) refl ident _ _ replan])
      (use b(2,4) i in simp_all)
qed

end
