(* ===== verification/MemoryChains.thy ===== *)
theory MemoryChains
  imports MemoryWrite "HOL-Library.Countable"
begin

text \<open>
  What supersession means for a reader: with \<open>LatestBySubject\<close> a subject is a single-valued slot
  on the valid-time axis, whatever the order in which its facts arrive.  The theory composes the
  write path (\<open>write.rs\<close>), the policy (\<open>policy.rs\<close>), the index (\<open>index.rs\<close>) and the status of a
  fact (\<open>recall.rs\<close>), and shows where the promise stops: facts with the same effect and ingest
  time, and explicit links against the time order.
\<close>

section \<open>Slots\<close>








section \<open>The policy finds the neighbours\<close>






section \<open>Inserting a fact into the index\<close>

lemma add_edges_by_subject: "by_subject (add_edges es ix) = by_subject ix"
  by (induction es arbitrary: ix) (simp_all add: add_edges_def split_beta add_edge_def Let_def)

lemma fold_insert_entity_by_subject: "by_subject (fold (insert_entity i) es ix) = by_subject ix"
  by (induction es arbitrary: ix) (simp_all add: insert_entity_def Let_def)

lemma by_subject_index_insert:
  "by_subject (index_insert i st lookup ix) = (case subject st of None \<Rightarrow> by_subject ix
     | Some s \<Rightarrow> fmupd s (filter (\<lambda>m. m_id m \<noteq> i) (lookup_list (by_subject ix) s) @
         [\<lparr>m_id = i, m_effective = effective_from st, m_ingest = ingest st\<rparr>]) (by_subject ix))"
  unfolding index_insert_def Let_def fold_supersedes fold_superseded_by
  by (simp add: fold_insert_entity_by_subject add_edges_by_subject insert_member_def split: option.split)





section \<open>One remembered fact\<close>

definition input_effect :: "RememberInput \<Rightarrow> Millis \<Rightarrow> Millis" where
  "input_effect input now = (case option_or (in_valid_from input) (in_event_time input) of None \<Rightarrow> now | Some t \<Rightarrow> t)"






text \<open>The subject a call is about: the label of the subject it gives.\<close>

definition input_subject :: "memory_env \<Rightarrow> RememberInput \<Rightarrow> string option" where
  "input_subject env input = (case in_subject input of None \<Rightarrow> None
     | Some raw \<Rightarrow> (case label env raw ''subject'' of Inl _ \<Rightarrow> None | Inr s \<Rightarrow> Some s))"

text \<open>The facts a call created, with their subject.\<close>

definition created_members :: "memory_env \<Rightarrow> RememberInput \<Rightarrow> Millis \<Rightarrow> Remembered list \<Rightarrow> (string option \<times> Member) list" where
  "created_members env input now outs =
     map (\<lambda>r. (input_subject env input, \<lparr>m_id = rem_id r, m_effective = input_effect input now, m_ingest = now\<rparr>))
       (filter rem_created outs)"







section \<open>Many remembered facts\<close>

text \<open>A sequence of calls, each with its clock reading, and the facts they created with their subjects.\<close>

fun remember_each :: "memory_env \<Rightarrow> Memory \<Rightarrow> (RememberInput \<times> Millis) list \<Rightarrow>
    MemoryError + Memory \<times> (string option \<times> Member) list" where
  "remember_each env mem [] = Inr (mem, [])"
| "remember_each env mem ((input, now) # rest) =
     try_bind (remember_many env mem [input] now) (\<lambda>(mem', outs).
       try_bind (remember_each env mem' rest) (\<lambda>(mem'', ms). Inr (mem'', created_members env input now outs @ ms)))"


definition memory_new :: "Memory" where
  "memory_new = \<lparr>m_revision = 0, documents = fmempty, m_index = index_default, on_id_conflict = Reject,
     supersession = latest_by_subject, supersession_active = True\<rparr>"




lemma ensure_fresh_idem: "ensure_fresh env (ensure_fresh env mem) = ensure_fresh env mem"
  by (simp add: ensure_fresh_def rebuild_def)




section \<open>Retrying a call\<close>

lemma stored_stamp:
  assumes "apply_placement (to_string env) st (Object m) = Some (d_version doc, the (d_metadata doc))"
    "d_metadata doc \<noteq> None" "stamp_times st \<subseteq> i64_range"
    "from_str env (to_string env (to_value st)) = Some (to_value st)"
  shows "(case stored_of doc of (version, metadata, txt) \<Rightarrow> from_parts (from_str env) version metadata) = Some st"
proof -
  have "strip_prefix VERSION_PREFIX ENGINE_VERSION = None"
    by (simp add: strip_prefix_def VERSION_PREFIX_def ENGINE_VERSION_def)
  from placement_reads_back [where from_str = "from_str env" and to_string = "to_string env", OF assms(3,4) this, of m] assms(1,2)
  show ?thesis by (auto simp: stored_of_def)
qed

lemma ensure_fresh_documents [simp]:
  "documents (ensure_fresh env mem) = documents mem" "on_id_conflict (ensure_fresh env mem) = on_id_conflict mem"
  by (simp_all add: ensure_fresh_def)

text \<open>A call that finds its fact stored writes nothing.\<close>

lemma remember_stored:
  assumes "plan_one env (ensure_fresh env mem) [] input now = Inr p" "p_idempotent p" "p_document p = None"
  shows "remember_many env mem [input] now = Inr (ensure_fresh env mem, [outcome_of p])"
  using assms by (simp add: remember_many_def check_def try_bind_def MAX_BATCH_def Let_def List.map_filter_simps
      store_documents_def)

definition input_times :: "RememberInput \<Rightarrow> Millis \<Rightarrow> int set" where
  "input_times input now = insert now (set_option (in_event_time input) \<union> set_option (in_valid_from input) \<union>
     set_option (in_valid_to input))"

lemma remember_one_cases:
  assumes "remember_many env mem [input] now = Inr (mem', outs)"
  obtains p where "plan_one env (ensure_fresh env mem) [] input now = Inr p" "outs = [outcome_of p]"
    "documents mem' = store_documents (List.map_filter p_document [p]) (documents mem)"
  using assms by (auto simp: remember_many_def check_Inr try_bind_Inr Let_def)

lemma remembered_is_stored:
  assumes "remember_many env mem [input] now = Inr (mem', outs)" "\<And>st. stamp_times st \<subseteq> i64_range \<Longrightarrow> from_str env (to_string env (to_value st)) = Some (to_value st)"
    "input_times input now \<subseteq> i64_range" and plan: "plan_one env (ensure_fresh env mem) [] input now = Inr p"
  shows "stamp_at env mem' (p_id p) = Some (p_stamp p)"
proof -
  obtain md subj ex en bytes where ps: "plan_stored env (ensure_fresh env mem) [] input md now (p_id p)
      (payload_hash input bytes subj ex en) subj ex en = Inr p"
    by (rule plan_one_Inr [OF plan], rule that; assumption)
  have docs: "documents mem' = store_documents (List.map_filter p_document [p]) (documents mem)"
    using remember_one_cases [OF assms(1)] plan by auto
  show ?thesis
  proof (cases "p_idempotent p")
    case True
    then have "p_document p = None" "stamp_at env (ensure_fresh env mem) (p_id p) = Some (p_stamp p)"
      using plan_stored_Inr [OF ps] plan_new_Inr [of env _ "[]" input md now "p_id p" _ subj ex en _ p] by auto
    then show ?thesis using docs by (simp add: List.map_filter_simps store_documents_def stamp_at_def)
  next
    case False
    then obtain rp where "plan_new env (ensure_fresh env mem) [] input md now (p_id p)
        (payload_hash input bytes subj ex en) subj ex en rp = Inr p"
      using plan_stored_Inr [OF ps] by auto
    note q = plan_new_Inr [OF this]
    then obtain doc where doc: "p_document p = Some doc" "d_id doc = p_id p" "d_metadata doc \<noteq> None"
      "apply_placement (to_string env) (p_stamp p) (Object md) = Some (d_version doc, the (d_metadata doc))"
      by blast
    have "stamp_times (p_stamp p) \<subseteq> i64_range"
      using q assms(3) by (simp add: planned_stamp_def stamp_times_def input_times_def)
    from stored_stamp [OF doc(4,3) this assms(2) [OF this]]
    show ?thesis using docs doc(1,2)
      by (simp add: List.map_filter_simps store_documents_def stamp_at_def)
  qed
qed

lemma push_ids_set: "push_ids ids acc = Inr out \<Longrightarrow> set out = set ids \<union> set acc"
  by (induction ids arbitrary: acc) (auto simp: check_Inr push_unique_def split: if_splits)

section \<open>Forgetting\<close>

lemma bridge_docs_keys:
  "bridge_loop_docs env mem dead xs = Some rs \<Longrightarrow> fst ` set rs \<subseteq> set xs \<inter> fmdom' (documents mem)"
proof (induction xs arbitrary: rs)
  case (Cons x xs)
  show ?case
  proof (cases "fmlookup (documents mem) x")
    case None
    then show ?thesis using Cons by auto
  next
    case (Some d)
    obtain version metadata body where d: "d = (version, metadata, body)" by (cases d)
    have x: "x \<in> fmdom' (documents mem)" using Some by (rule fmdom'I)
    consider "bridge_loop_docs env mem dead xs = Some rs"
      | v rs' where "bridge_loop_docs env mem dead xs = Some rs'" "rs = (x, v) # rs'"
      using Cons.prems Some d by (auto split: option.splits)
    then show ?thesis using Cons.IH x by cases auto
  qed
qed simp

lemma fold_fmdrop_lookup: "fmlookup (fold fmdrop ks m) j = (if j \<in> set ks then None else fmlookup m j)"
  by (induction ks arbitrary: m) auto

lemma fold_fmupd_lookup: "j \<notin> fst ` set rs \<Longrightarrow> fmlookup (fold (\<lambda>(i, d). fmupd i d) rs m) j = fmlookup m j"
  by (induction rs arbitrary: m) auto

lemma fold_fmupd_dom: "fmdom' (fold (\<lambda>(i, d). fmupd i d) rs m) = fst ` set rs \<union> fmdom' m"
  by (induction rs arbitrary: m) auto

lemma fold_fmdrop_dom: "fmdom' (fold fmdrop ks m) = fmdom' m - set ks"
  by (induction ks arbitrary: m) auto

lemma finite_affected: "finite (affected ix forgotten)"
proof -
  have "affected ix forgotten \<subseteq> (\<Union>i \<in> set forgotten. e_by ` set (edges ix i))" by (auto simp: affected_def)
  then show ?thesis by (rule finite_subset) simp
qed

section \<open>A concrete memory\<close>

text \<open>A text form of stamps: the number of the stamp in unary.\<close>

definition stamp_tuple where
  "stamp_tuple st = (ingest st, event st, valid_from st, valid_to st, subject st, supersedes st, superseded_by st,
     entities st, hash st)"

definition untuple_stamp where
  "untuple_stamp u = (case u of (a, b, c, d, e, f, g, h, i) \<Rightarrow> \<lparr>ingest = a, event = b, valid_from = c, valid_to = d,
     subject = e, supersedes = f, superseded_by = g, entities = h, hash = i\<rparr>)"

definition example_print :: "json_value \<Rightarrow> string" where
  "example_print v = (case from_value v of None \<Rightarrow> [] | Some st \<Rightarrow> replicate (to_nat (stamp_tuple st)) CHR ''x'')"

definition example_parse :: "string \<Rightarrow> json_value option" where
  "example_parse s = Some (to_value (untuple_stamp (from_nat (length s))))"

lemma untuple_tuple: "untuple_stamp (stamp_tuple st) = (st :: Stamp)"
  by (cases st) (simp add: untuple_stamp_def stamp_tuple_def)

lemma example_parse_print:
  "stamp_times st \<subseteq> i64_range \<Longrightarrow> example_parse (example_print (to_value st)) = Some (to_value st)"
  by (simp add: example_parse_def example_print_def from_value_to_value untuple_tuple)

definition example_env :: memory_env where
  "example_env = \<lparr>trim = (\<lambda>s. s), to_string = example_print, from_str = example_parse, to_vec = (\<lambda>_. Some []),
     extractor = None, chunk_count = (\<lambda>_. Inr 1)\<rparr>"

definition example_fact :: "string \<Rightarrow> string \<Rightarrow> Millis \<Rightarrow> string list option \<Rightarrow> RememberInput" where
  "example_fact u i t ex = remember_default\<lparr>in_id := Some i, in_text := ''x'', in_subject := Some u,
     in_event_time := Some t, in_supersedes := ex\<rparr>"

abbreviation example_input :: "string \<Rightarrow> Millis \<Rightarrow> string list option \<Rightarrow> RememberInput" where
  "example_input \<equiv> example_fact ''s''"

lemma example_fact_fields [simp]:
  "in_id (example_fact u i t ex) = Some i" "in_text (example_fact u i t ex) = ''x''"
  "in_subject (example_fact u i t ex) = Some u" "in_event_time (example_fact u i t ex) = Some t"
  "in_supersedes (example_fact u i t ex) = ex" "in_valid_from (example_fact u i t ex) = None"
  "in_valid_to (example_fact u i t ex) = None" "in_metadata (example_fact u i t ex) = None"
  "in_entities (example_fact u i t ex) = None" "in_embedding (example_fact u i t ex) = None"
  "in_source_uri (example_fact u i t ex) = None"
  by (simp_all add: example_fact_def remember_default_def)

lemma example_env_fields [simp]:
  "trim example_env = (\<lambda>s. s)" "to_vec example_env = (\<lambda>_. Some [])" "extractor example_env = None"
  "chunk_count example_env = (\<lambda>_. Inr 1)" "label example_env ''s'' w = Inr ''s''"
  "label example_env ''o'' w = Inr ''o''"
  by (simp_all add: example_env_def label_def check_def MAX_LABEL_BYTES_def)

lemma example_placement: "\<exists>v md. apply_placement to_text st (Object m) = Some (v, md)"
  by (simp add: apply_placement_def Let_def user_metadata_def split: Placement.split)

text \<open>The conditions under which a fact of the example is accepted, and its stamp.\<close>

lemma example_plan:
  assumes "valid_id i" "label example_env u ''subject'' = Inr u" "fmlookup (documents mem) i = None"
    "push_ids (case ex of None \<Rightarrow> [] | Some ids \<Rightarrow> ids) [] = Inr ids" "length ids \<le> MAX_LINKS" "i \<notin> set ids"
    "\<forall>old \<in> set ids. fmlookup (documents mem) old \<noteq> None \<or> old \<in> p_id ` set earlier"
    "resolve_links mem earlier (example_fact u i t ex) i (Some u) (sort ids) now = Inr (olds, newer)"
    "\<not> (\<exists>old \<in> set olds. supersedes_transitively (m_index mem) old i)"
    "\<not> (\<exists>n \<in> set newer. supersedes_transitively (m_index mem) i n)"
  shows "\<exists>p doc. plan_one example_env mem earlier (example_fact u i t ex) now = Inr p \<and> p_id p = i \<and>
    subject (p_stamp p) = Some u \<and> effective_from (p_stamp p) = t \<and> ingest (p_stamp p) = now \<and>
    supersedes (p_stamp p) = olds \<and> superseded_by (p_stamp p) = newer \<and> entities (p_stamp p) = [] \<and>
    \<not> windowed (p_stamp p) \<and> \<not> p_idempotent p \<and> \<not> p_replaces p \<and> p_previous p = None \<and>
    p_document p = Some doc \<and> d_id doc = i"
proof -
  define h where "h = payload_hash (example_fact u i t ex) [] (Some u) (sort ids) []"
  have "plan_one example_env mem earlier (example_fact u i t ex) now =
      plan_stored example_env mem earlier (example_fact u i t ex) (\<lambda>_. None) now i h (Some u) (sort ids) []"
    using assms(1,2,4,5,6)
    by (simp add: plan_one_def check_def try_bind_def Let_def MAX_TEXT_BYTES_def MAX_LABELS_def h_def)
  also have "\<dots> = plan_new example_env mem earlier (example_fact u i t ex) (\<lambda>_. None) now i h (Some u) (sort ids) []
      (False, None)"
    using assms(3) by (simp add: plan_stored_def Let_def)
  finally have "plan_one example_env mem earlier (example_fact u i t ex) now =
      plan_new example_env mem earlier (example_fact u i t ex) (\<lambda>_. None) now i h (Some u) (sort ids) [] (False, None)" .
  moreover obtain v md where "apply_placement (to_string example_env) \<lparr>ingest = now, event = Some t, valid_from = None,
      valid_to = None, subject = Some u, supersedes = olds, superseded_by = newer, entities = [], hash = Some h\<rparr>
      (Object (\<lambda>_. None)) = Some (v, md)"
    using example_placement by blast
  ultimately show ?thesis
    using assms(7,8,9,10)
    by (auto simp: plan_new_def check_def try_bind_def check_cycles_def Let_def effective_from_def windowed_def option_or_def)
qed

text \<open>
  One accepted call, by what the memory holds before and after it: \<open>D\<close> the ids stored and
  \<open>L\<close> the members of the slot.
\<close>

definition example_state :: "Memory \<Rightarrow> string \<Rightarrow> string set \<Rightarrow> Member list \<Rightarrow> bool" where
  "example_state mem u D L \<longleftrightarrow> supersession mem = latest_by_subject \<and> supersession_active mem \<and>
     revision (m_index mem) = Some (m_revision mem) \<and> lookup_list (by_subject (m_index mem)) u = L \<and>
     fmdom' (documents mem) = D \<and> m_id ` set L \<subseteq> D"

lemma example_remember:
  assumes st: "example_state mem u D L" and i: "valid_id i" "i \<notin> D" "label example_env u ''subject'' = Inr u"
    and ids: "push_ids (case ex of None \<Rightarrow> [] | Some ids \<Rightarrow> ids) [] = Inr ids" "length ids \<le> MAX_LINKS" "i \<notin> set ids"
      "set ids \<subseteq> D"
    and res: "resolve_links mem [] (example_fact u i t ex) i (Some u) (sort ids) now = Inr (olds, newer)"
    and nocycle: "\<not> (\<exists>old \<in> set olds. supersedes_transitively (m_index mem) old i)"
      "\<not> (\<exists>n \<in> set newer. supersedes_transitively (m_index mem) i n)"
  defines "es \<equiv> map (\<lambda>old. (old, i, t, now)) olds @ List.map_filter (\<lambda>by. map_option (\<lambda>(eff, ing). (i, by, eff, ing))
      (if by = i then Some (t, now) else member (m_index mem) u by)) newer"
  shows "\<exists>mem' outs. remember_many example_env mem [example_fact u i t ex] now = Inr (mem', outs) \<and>
    created_members example_env (example_fact u i t ex) now outs = [(Some u, \<lparr>m_id = i, m_effective = t, m_ingest = now\<rparr>)] \<and>
    example_state mem' u (insert i D) (L @ [\<lparr>m_id = i, m_effective = t, m_ingest = now\<rparr>]) \<and>
    by_subject (m_index mem') = fmupd u (L @ [\<lparr>m_id = i, m_effective = t, m_ingest = now\<rparr>]) (by_subject (m_index mem)) \<and>
    ix_superseded_by (m_index mem') = ix_superseded_by (add_edges es (m_index mem)) \<and>
    predecessors (m_index mem') = predecessors (add_edges es (m_index mem))"
proof -
  note s = st [unfolded example_state_def]
  have docs: "fmlookup (documents mem) j \<noteq> None \<longleftrightarrow> j \<in> D" for j
  proof -
    have "fmlookup (documents mem) j \<noteq> None \<longleftrightarrow> j \<in> fmdom' (documents mem)" by (auto simp: fmlookup_dom'_iff)
    then show ?thesis using s by simp
  qed
  have n: "fmlookup (documents mem) i = None"
    "\<forall>old \<in> set ids. fmlookup (documents mem) old \<noteq> None \<or> old \<in> p_id ` set []"
    using docs i(2) ids(4) by blast+
  obtain p doc where p: "plan_one example_env mem [] (example_fact u i t ex) now = Inr p" "p_id p = i"
    "subject (p_stamp p) = Some u" "effective_from (p_stamp p) = t" "ingest (p_stamp p) = now"
    "supersedes (p_stamp p) = olds" "superseded_by (p_stamp p) = newer" "\<not> p_idempotent p" "\<not> p_replaces p"
    "p_previous p = None" "p_document p = Some doc" "d_id doc = i"
    using example_plan [OF i(1,3) n(1) ids(1,2,3) n(2) res nocycle] by blast
  let ?ix = "index_insert i (p_stamp p) (settle_lookup [p] p (m_index mem)) (m_index mem)"
  have settled: "settle_written [p] (m_index mem) = Some ?ix"
    using p by (simp add: settle_written_def Let_def)
  have fresh: "ensure_fresh example_env mem = mem" using s by (simp add: ensure_fresh_def)
  have es: "stamp_edges i (p_stamp p) (settle_lookup [p] p (m_index mem)) = es"
    using p by (simp add: stamp_edges_def es_def settle_lookup_def batch_times_def if_distrib [of "case_option _ _"] cong: if_cong)
  let ?mem = "mem\<lparr>m_revision := m_revision mem + 1, documents := fmupd i (stored_of doc) (documents mem),
      m_index := ?ix\<lparr>revision := Some (m_revision mem + 1)\<rparr>\<rparr>"
  have "remember_many example_env mem [example_fact u i t ex] now = Inr (?mem, [outcome_of p])"
    using s p by (simp add: remember_many_def check_def try_bind_def fresh Let_def MAX_BATCH_def List.map_filter_simps
        store_documents_def settle_def settled)
  moreover have keep: "filter (\<lambda>m. m_id m \<noteq> i) L = L"
  proof (intro filter_True ballI)
    fix m assume "m \<in> set L"
    then have "m_id m \<in> D" using s by blast
    then show "m_id m \<noteq> i" using i(2) by auto
  qed
  moreover have "example_state ?mem u (insert i D) (L @ [\<lparr>m_id = i, m_effective = t, m_ingest = now\<rparr>])"
    using s p keep by (auto simp: example_state_def by_subject_index_insert)
  moreover have "by_subject (m_index ?mem) = fmupd u (L @ [\<lparr>m_id = i, m_effective = t, m_ingest = now\<rparr>]) (by_subject (m_index mem))"
    using s p keep by (simp add: by_subject_index_insert)
  moreover have "created_members example_env (example_fact u i t ex) now [outcome_of p] = [(Some u, \<lparr>m_id = i, m_effective = t, m_ingest = now\<rparr>)]"
    using p i(3) by (simp add: created_members_def outcome_of_def input_effect_def input_subject_def option_or_def)
  ultimately show ?thesis
    by (intro exI [of _ ?mem] exI [of _ "[outcome_of p]"]) (simp add: index_insert_fields es)
qed

lemma example_start: "example_state (ensure_fresh example_env memory_new) u {} []"
  "by_subject (m_index (ensure_fresh example_env memory_new)) = fmempty"
  "ix_superseded_by (m_index (ensure_fresh example_env memory_new)) = fmempty"
  "predecessors (m_index (ensure_fresh example_env memory_new)) = fmempty"
  by (simp_all add: example_state_def ensure_fresh_def memory_new_def index_default_def rebuild_def collect_stamps_def
      scan_documents_def List.map_filter_simps build_index_def lookup_list_def)

lemma no_preds_no_walk: "lookup_list (predecessors ix) x = [] \<Longrightarrow> \<not> supersedes_transitively ix x y"
  by (simp add: supersedes_transitively_def walk_def)

abbreviation example_member :: "string \<Rightarrow> Millis \<Rightarrow> Millis \<Rightarrow> Member" where
  "example_member i t now \<equiv> \<lparr>m_id = i, m_effective = t, m_ingest = now\<rparr>"

lemma example_valid: "valid_id ''a''" "valid_id ''b''" "valid_id ''c''"
  by (simp_all add: valid_id_def MAX_ID_BYTES_def strip_prefix_def)

text \<open>The first fact of the slot is linked to nothing.\<close>

lemma example_first:
  assumes "valid_id i"
  shows "\<exists>mem outs. remember_many example_env memory_new [example_input i t None] now = Inr (mem, outs) \<and>
    created_members example_env (example_input i t None) now outs = [(Some ''s'', example_member i t now)] \<and>
    example_state mem ''s'' {i} [example_member i t now] \<and>
    by_subject (m_index mem) = fmupd ''s'' [example_member i t now] fmempty \<and>
    ix_superseded_by (m_index mem) = fmempty \<and> predecessors (m_index mem) = fmempty"
proof -
  let ?mem = "ensure_fresh example_env memory_new"
  have pol: "supersession ?mem = latest_by_subject" "supersession_active ?mem" "lookup_list (by_subject (m_index ?mem)) ''s'' = []"
    using example_start(1) [of "''s''"] by (simp_all add: example_state_def)
  have res: "resolve_links ?mem [] (example_input i t None) i (Some ''s'') (sort []) now = Inr ([], [])"
    using pol by (simp add: resolve_links_def Let_def subject_group_def members_def latest_by_subject_eq check_def)
  have "remember_many example_env ?mem = remember_many example_env memory_new"
    by (intro ext) (simp add: remember_many_def ensure_fresh_idem)
  then show ?thesis
    using example_remember [OF example_start(1) assms _ _ _ _ _ _ res] example_start(2,3,4)
    by (simp add: add_edges_def List.map_filter_simps)
qed

lemma example_group:
  assumes "example_state mem u D L" "i \<notin> m_id ` set L"
  shows "resolve_links mem [] (example_fact u i t ex) i (Some u) explicit now =
    (let g = sort_key view_order (map (view_of_member u) (sort_key (\<lambda>m. (m_effective m, m_ingest m, m_id m)) L));
         res = latest_by_subject \<lparr>v_id = i, v_subject = Some u, v_effective_from = t, v_ingest_time = now\<rparr> g
     in check (set (r_supersedes res @ r_superseded_by res) \<subseteq> v_id ` set g) ''not a stored fact of the subject''
          (Inr (sort (fold push_unique (r_supersedes res) explicit), sort (fold push_unique (r_superseded_by res) []))))"
proof -
  have "filter (\<lambda>m. m_id m \<noteq> i) (sort_key (\<lambda>m. (m_effective m, m_ingest m, m_id m)) L) =
      sort_key (\<lambda>m. (m_effective m, m_ingest m, m_id m)) L"
    using assms(2) by (intro filter_True ballI) (metis image_eqI set_sort)
  then show ?thesis
    using assms(1) by (simp add: example_state_def resolve_links_def subject_group_def members_def option_or_def Let_def)
qed

lemmas example_eval = example_group latest_by_subject_eq view_of_member_def view_order_def check_def push_unique_def Let_def


section \<open>Properties\<close>



text \<open>
  C9. Retrying a call is safe: when a call remembered a fact, the same call again, at any later
  time, stores nothing, and reports the same id as already present.
\<close>

theorem retry_is_idempotent:
  assumes "remember_many env mem [input] now = Inr (mem', outs)" "\<And>st. stamp_times st \<subseteq> i64_range \<Longrightarrow> from_str env (to_string env (to_value st)) = Some (to_value st)"
    "input_times input now \<subseteq> i64_range"
  shows "\<exists>r. remember_many env mem' [input] now' = Inr (ensure_fresh env mem', [r]) \<and>
    documents (ensure_fresh env mem') = documents mem' \<and> \<not> rem_created r \<and> map rem_id outs = [rem_id r]"
proof -
  obtain p where p: "plan_one env (ensure_fresh env mem) [] input now = Inr p" "outs = [outcome_of p]"
    using remember_one_cases [OF assms(1)] by blast
  obtain md subj ex en bytes where ps: "plan_stored env (ensure_fresh env mem) [] input md now (p_id p)
      (payload_hash input bytes subj ex en) subj ex en = Inr p"
    and replan: "\<And>mem' earlier' now'. plan_one env mem' earlier' input now' = plan_stored env mem' earlier' input md now'
      (p_id p) (payload_hash input bytes subj ex en) subj ex en"
    by (rule plan_one_Inr [OF p(1)], rule that; assumption)
  have hash: "hash (p_stamp p) = Some (payload_hash input bytes subj ex en)"
    using plan_stored_Inr [OF ps] plan_new_Inr by blast
  have "stamp_at env mem' (p_id p) = Some (p_stamp p)"
    using assms p(1) by (rule remembered_is_stored)
  then obtain version md' stext where "fmlookup (documents mem') (p_id p) = Some (version, md', stext)"
    "from_parts (from_str env) version md' = Some (p_stamp p)"
    by (auto simp: stamp_at_def bind_eq_Some_conv)
  then have "\<exists>p'. plan_one env (ensure_fresh env mem') [] input now' = Inr p' \<and> p_id p' = p_id p \<and> p_idempotent p' \<and>
      p_document p' = None"
    using hash by (simp add: replan plan_stored_def Let_def)
  then obtain p' where p': "plan_one env (ensure_fresh env mem') [] input now' = Inr p'" "p_id p' = p_id p"
    "p_idempotent p'" "p_document p' = None" by blast
  have "remember_many env mem' [input] now' = Inr (ensure_fresh env mem', [outcome_of p'])"
    using p'(1,3,4) by (rule remember_stored)
  then show ?thesis using p(2) p'(2,3) by (auto simp: outcome_of_def)
qed

theorem retry_is_idempotent_witness:
  "\<exists>mem outs r. remember_many example_env memory_new [example_input ''b'' 10 None] 100 = Inr (mem, outs) \<and>
     remember_many example_env mem [example_input ''b'' 10 None] 300 = Inr (ensure_fresh example_env mem, [r]) \<and>
     \<not> rem_created r"
proof -
  obtain mem outs where 1: "remember_many example_env memory_new [example_input ''b'' 10 None] 100 = Inr (mem, outs)"
    using example_first [OF example_valid(2)] by blast
  have parse: "from_str example_env (to_string example_env (to_value st)) = Some (to_value st)"
    if "stamp_times st \<subseteq> i64_range" for st
    using example_parse_print [OF that] by (simp add: example_env_def)
  have "input_times (example_input ''b'' 10 None) 100 \<subseteq> i64_range" by (simp add: input_times_def i64_range_def)
  then show ?thesis using retry_is_idempotent [OF 1 parse, of 300] 1 by blast
qed

text \<open>
  C31. Forgetting is exact: a call removes the documents of the facts it reports and no other; a
  document that stays is unchanged unless its fact superseded a removed one.
\<close>

theorem forget_exact:
  assumes "forget env mem scope chain False = Some (Inr (mem', forgotten))"
  shows "fmdom' (documents mem') = fmdom' (documents mem) - set forgotten \<and>
    (i \<notin> set forgotten \<and> i \<notin> affected (m_index (ensure_fresh env mem)) forgotten \<longrightarrow>
       fmlookup (documents mem') i = fmlookup (documents mem) i)"
proof (cases "forgotten = []")
  case True
  then have "documents mem' = documents mem"
    using assms by (auto simp: forget_def Let_def split: sum.splits if_splits option.splits)
  then show ?thesis using True by simp
next
  case False
  obtain rws where rw: "bridge_survivors env (ensure_fresh env mem) forgotten = Some rws"
    "documents mem' = fold fmdrop forgotten (fold (\<lambda>(i, d). fmupd i d) rws (documents mem))"
    using assms False by (auto simp: forget_def Let_def split: sum.splits if_splits option.splits)
  have keys: "fst ` set rws \<subseteq> affected (m_index (ensure_fresh env mem)) forgotten \<inter> fmdom' (documents mem)"
    using bridge_docs_keys [OF rw(1) [unfolded bridge_survivors_def]] by (simp add: finite_affected)
  then have "fmdom' (documents mem') = fmdom' (documents mem) - set forgotten"
    unfolding rw(2) fold_fmdrop_dom fold_fmupd_dom by auto
  moreover have "fmlookup (documents mem') i = fmlookup (documents mem) i"
    if "i \<notin> set forgotten" "i \<notin> affected (m_index (ensure_fresh env mem)) forgotten"
  proof -
    have "i \<notin> fst ` set rws" using keys that(2) by blast
    then show ?thesis using that(1) by (simp add: rw(2) fold_fmdrop_lookup fold_fmupd_lookup)
  qed
  ultimately show ?thesis by blast
qed

theorem forget_exact_witness:
  "\<exists>mem'. forget example_env (memory_new\<lparr>documents := fmupd ''b'' (''1'', Null, None) fmempty\<rparr>) (Ids [''b'']) False False =
     Some (Inr (mem', [''b''])) \<and> fmdom' (documents mem') = {}"
proof -
  let ?mem = "memory_new\<lparr>documents := fmupd ''b'' (''1'', Null, None) fmempty\<rparr>"
  have fresh: "ensure_fresh example_env ?mem = ?mem\<lparr>m_index := index_default\<lparr>revision := Some 0\<rparr>\<rparr>"
    by (simp add: ensure_fresh_def memory_new_def index_default_def rebuild_def collect_stamps_def scan_documents_def
        List.map_filter_simps build_index_def from_parts_def strip_prefix_def VERSION_PREFIX_def from_metadata_def
        value_get_def)
  have "\<exists>mem'. forget example_env ?mem (Ids [''b'']) False False = Some (Inr (mem', [''b'']))"
    unfolding forget_def fresh Let_def
    by (simp add: resolve_scope_def check_def example_valid memory_new_def bridge_survivors_def
        affected_def edges_def index_default_def lookup_list_def)
  then obtain mem' where f: "forget example_env ?mem (Ids [''b'']) False False = Some (Inr (mem', [''b'']))" by blast
  then show ?thesis using forget_exact [OF f, of "''b''"] by (auto simp: memory_new_def)
qed

text \<open>
  What an accepted fact respects: its id is an acceptable id, its text and labels are within
  their limits, its validity window is not empty, it does not supersede itself explicitly, and
  the version string of its document, which may carry the stamp, is within the limit of the
  engine.
\<close>

theorem accepted_fact_bounds:
  assumes "plan_one env mem earlier input now = Inr p" "\<not> p_idempotent p"
  shows "valid_id (p_id p) \<and> length (p_id p) \<le> 4096 \<and> length (in_text input) \<le> 65536 \<and>
    length (entities (p_stamp p)) \<le> 256 \<and>
    (\<forall>a b. valid_from (p_stamp p) = Some a \<and> valid_to (p_stamp p) = Some b \<longrightarrow> a < b) \<and>
    (\<forall>ids. in_supersedes input = Some ids \<longrightarrow> p_id p \<notin> set ids) \<and>
    (\<exists>doc. p_document p = Some doc \<and> (\<forall>v. d_version doc = Some v \<longrightarrow> length v \<le> 1024))"
proof -
  obtain md subj ents explicit raw_ids bytes where c: "length (in_text input) \<le> MAX_TEXT_BYTES"
    "case (in_valid_from input, in_valid_to input) of (Some a, Some b) \<Rightarrow> a < b | _ \<Rightarrow> True"
    "length ents \<le> MAX_LABELS"
    "push_ids (case in_supersedes input of None \<Rightarrow> [] | Some ids \<Rightarrow> ids) [] = Inr raw_ids" "explicit = sort raw_ids"
    "case in_id input of Some i \<Rightarrow> valid_id i \<and> p_id p = i
       | None \<Rightarrow> p_id p = ''mem:'' @ payload_hash input bytes subj explicit ents" "p_id p \<notin> set explicit"
    and ps: "plan_stored env mem earlier input md now (p_id p) (payload_hash input bytes subj explicit ents) subj explicit ents = Inr p"
    by (rule plan_one_Inr [OF assms(1)], rule that; assumption)
  obtain rp where "plan_new env mem earlier input md now (p_id p) (payload_hash input bytes subj explicit ents)
      subj explicit ents rp = Inr p"
    using plan_stored_Inr [OF ps] assms(2) by auto
  note q = plan_new_Inr [OF this]
  obtain doc where doc: "p_document p = Some doc"
    "apply_placement (to_string env) (p_stamp p) (Object md) = Some (d_version doc, the (d_metadata doc))"
    using q by blast
  have id: "valid_id (p_id p)"
    using c(6) derived_id_ok by (cases "in_id input") (auto simp: payload_hash_def)
  moreover have "length (p_id p) \<le> 4096" using id by (simp add: valid_id_def MAX_ID_BYTES_def)
  moreover have "p_id p \<notin> set ids" if "in_supersedes input = Some ids" for ids
    using c(4,5,7) that push_ids_set [of ids "[]" raw_ids] by auto
  moreover have "a < b" if "valid_from (p_stamp p) = Some a" "valid_to (p_stamp p) = Some b" for a b
  proof -
    have "in_valid_from input = Some a" "in_valid_to input = Some b"
      using q that unfolding planned_stamp_def by auto
    then show ?thesis using c(2) by simp
  qed
  moreover have "length v \<le> 1024" if "d_version doc = Some v" for v
    using doc(2) that by (auto simp: apply_placement_def placement_def Let_def user_metadata_def MAX_VERSION_BYTES_def
        split: if_splits)
  ultimately show ?thesis using c(1,3) q doc(1) by (simp add: MAX_TEXT_BYTES_def MAX_LABELS_def)
qed

theorem accepted_fact_bounds_witness:
  "\<exists>p. plan_one example_env memory_new [] (example_input ''b'' 10 None) 100 = Inr p \<and> length (p_id p) \<le> 4096"
proof -
  have "resolve_links memory_new [] (example_input ''b'' 10 None) ''b'' (Some ''s'') (sort []) 100 = Inr ([], [])"
    by (simp add: resolve_links_def Let_def subject_group_def members_def latest_by_subject_eq check_def memory_new_def
        index_default_def lookup_list_def)
  then obtain p where "plan_one example_env memory_new [] (example_input ''b'' 10 None) 100 = Inr p" "\<not> p_idempotent p"
    using example_plan [of "''b''" "''s''" memory_new None "[]" "[]" 10 100 "[]" "[]"]
    by (auto simp: example_valid memory_new_def MAX_LINKS_def)
  then show ?thesis using accepted_fact_bounds [of example_env memory_new "[]" "example_input ''b'' 10 None" 100 p] by blast
qed

section \<open>Where the promise stops\<close>

text \<open>
  A fact that takes effect before a stored one and names it in
  \<open>supersedes\<close> is accepted: the cycle check looks for a path in the index, which has no link of
  the new fact yet, and does not compare the two lists of new links.  The two facts then
  supersede each other, and once both have taken effect neither is current.
\<close>

lemma explicit_link_makes_cycle:
  "\<exists>mem created. remember_each example_env memory_new
       [(example_input ''b'' 10 None, 100), (example_input ''a'' 5 (Some [''b'']), 200)] = Inr (mem, created) \<and>
     {(''a'', ''b''), (''b'', ''a'')} \<subseteq> links (m_index mem) \<and>
     evaluate (Some (stamp_default\<lparr>event := Some 5\<rparr>)) (edges (m_index mem) ''a'') 20 None = Some Superseded \<and>
     evaluate (Some (stamp_default\<lparr>event := Some 10\<rparr>)) (edges (m_index mem) ''b'') 20 None = Some Superseded"
proof -
  obtain mem outs where 1: "remember_many example_env memory_new [example_input ''b'' 10 None] 100 = Inr (mem, outs)"
    "example_state mem ''s'' {''b''} [example_member ''b'' 10 100]" "ix_superseded_by (m_index mem) = fmempty"
    "predecessors (m_index mem) = fmempty"
    using example_first [OF example_valid(2)] by blast
  have res: "resolve_links mem [] (example_input ''a'' 5 (Some [''b''])) ''a'' (Some ''s'') (sort [''b'']) 200 = Inr ([''b''], [''b''])"
    using 1(2) by (simp add: example_eval)
  have nw: "\<not> supersedes_transitively (m_index mem) x y" for x y
    by (rule no_preds_no_walk) (simp add: 1(4) lookup_list_def)
  have mb: "member (m_index mem) ''s'' ''b'' = Some (10, 100)"
    using 1(2) by (simp add: member_def example_state_def)
  obtain mem' outs' where "remember_many example_env mem [example_input ''a'' 5 (Some [''b''])] 200 = Inr (mem', outs')"
    and ix: "ix_superseded_by (m_index mem') = ix_superseded_by (add_edges [(''b'', ''a'', 5, 200), (''a'', ''b'', 10, 100)] (m_index mem))"
      "predecessors (m_index mem') = predecessors (add_edges [(''b'', ''a'', 5, 200), (''a'', ''b'', 10, 100)] (m_index mem))"
    using example_remember [OF 1(2) example_valid(1) _ _ _ _ _ _ res] nw mb
    by (auto simp: MAX_LINKS_def check_def example_valid push_unique_def List.map_filter_simps)
  moreover have "edges (m_index mem') ''a'' = [\<lparr>e_by = ''b'', e_effective = 10, e_ingest = 100\<rparr>]"
    "edges (m_index mem') ''b'' = [\<lparr>e_by = ''a'', e_effective = 5, e_ingest = 200\<rparr>]"
    "direct_predecessors (m_index mem') ''a'' = [''b'']" "direct_predecessors (m_index mem') ''b'' = [''a'']"
    using 1(3,4) ix by (simp_all add: edges_def direct_predecessors_def add_edges_def add_edge_def Let_def lookup_list_def)
  ultimately show ?thesis
    using 1(1) by (auto simp: try_bind_def links_iff evaluate_def)
qed

text \<open>
  Facts of one subject with the same effect and ingest time, as the facts of one call without
  times have: the candidates are ordered by id among themselves, so the third fact supersedes
  the greatest id and not the latest arrival, and two facts stay current.
\<close>

lemma same_instant_leaves_two_current:
  "\<exists>mem created. remember_each example_env memory_new
       [(example_input ''c'' 10 None, 100), (example_input ''a'' 10 None, 100), (example_input ''b'' 10 None, 100)] =
       Inr (mem, created) \<and>
     evaluate (Some (stamp_default\<lparr>event := Some 10\<rparr>)) (edges (m_index mem) ''a'') 20 None = Some Current \<and>
     evaluate (Some (stamp_default\<lparr>event := Some 10\<rparr>)) (edges (m_index mem) ''b'') 20 None = Some Current"
proof -
  obtain mem outs where 1: "remember_many example_env memory_new [example_input ''c'' 10 None] 100 = Inr (mem, outs)"
    "example_state mem ''s'' {''c''} [example_member ''c'' 10 100]" "ix_superseded_by (m_index mem) = fmempty"
    "predecessors (m_index mem) = fmempty"
    using example_first [OF example_valid(3)] by blast
  have res: "resolve_links mem [] (example_input ''a'' 10 None) ''a'' (Some ''s'') (sort []) 100 = Inr ([''c''], [])"
    using 1(2) by (simp add: example_eval)
  have nw: "\<not> supersedes_transitively (m_index mem) x y" for x y
    by (rule no_preds_no_walk) (simp add: 1(4) lookup_list_def)
  obtain mem' outs' where 2: "remember_many example_env mem [example_input ''a'' 10 None] 100 = Inr (mem', outs')"
    "example_state mem' ''s'' {''a'', ''c''} [example_member ''c'' 10 100, example_member ''a'' 10 100]"
    "ix_superseded_by (m_index mem') = ix_superseded_by (add_edges [(''c'', ''a'', 10, 100)] (m_index mem))"
    "predecessors (m_index mem') = predecessors (add_edges [(''c'', ''a'', 10, 100)] (m_index mem))"
    using example_remember [OF 1(2) example_valid(1) _ _ _ _ _ _ res] nw
    by (auto simp: MAX_LINKS_def List.map_filter_simps)
  have ix2: "edges (m_index mem') ''a'' = []" "edges (m_index mem') ''b'' = []" "direct_predecessors (m_index mem') ''c'' = []"
    using 1(3,4) 2(3,4) by (simp_all add: edges_def direct_predecessors_def add_edges_def add_edge_def Let_def lookup_list_def)
  have res2: "resolve_links mem' [] (example_input ''b'' 10 None) ''b'' (Some ''s'') (sort []) 100 = Inr ([''c''], [])"
    using 2(2) by (simp add: example_eval)
  have nw2: "\<not> supersedes_transitively (m_index mem') ''c'' ''b''"
    by (rule no_preds_no_walk) (use ix2(3) in \<open>simp add: direct_predecessors_def\<close>)
  obtain mem'' outs'' where "remember_many example_env mem' [example_input ''b'' 10 None] 100 = Inr (mem'', outs'')"
    and ix: "ix_superseded_by (m_index mem'') = ix_superseded_by (add_edges [(''c'', ''b'', 10, 100)] (m_index mem'))"
    using example_remember [OF 2(2) example_valid(2) _ _ _ _ _ _ res2] nw2
    by (auto simp: MAX_LINKS_def List.map_filter_simps)
  moreover have "edges (m_index mem'') ''a'' = []" "edges (m_index mem'') ''b'' = []"
    using ix ix2(1,2) by (auto simp: edges_def add_edges_def add_edge_def Let_def)
  ultimately show ?thesis
    using 1(1) 2(1) by (simp add: try_bind_def evaluate_def stamp_default_def)
qed

text \<open>
  Forgetting a fact leaves its id in the \<open>superseded_by\<close> list of the facts it superseded: only the
  facts that superseded a removed one are rewritten.  When the id is used again, for a fact of
  another subject, the index that followed the changes has no link between the two facts, and
  the index rebuilt from the same stamps has one.
\<close>

definition late_stamp :: Stamp where
  "late_stamp = stamp_default\<lparr>event := Some 5, subject := Some ''s'', superseded_by := [''y'']\<rparr>"

definition slot_stamp :: "string \<Rightarrow> Stamp" where
  "slot_stamp s = stamp_default\<lparr>event := Some 10, ingest := 3, subject := Some s\<rparr>"

lemma reused_id_revives_hint:
  fixes ix0 ix1 ix2
  defines "ix0 \<equiv> index_insert ''x'' late_stamp (\<lambda>i. if i = ''y'' then Some (10, 3) else None)
      (index_insert ''y'' (slot_stamp ''s'') (\<lambda>_. None) index_default)"
    and "ix1 \<equiv> index_remove ''y'' (slot_stamp ''s'') ix0"
    and "ix2 \<equiv> index_insert ''y'' (slot_stamp ''other'') (\<lambda>_. None) ix1"
  shows "affected ix0 [''y''] = {} \<and> edges ix2 ''x'' = [] \<and>
    e_by ` set (edges (build_index [(''x'', late_stamp), (''y'', slot_stamp ''other'')]) ''x'') = {''y''}"
proof -
  have st: "stamp_edges ''y'' (slot_stamp s) lk = []"
    "stamp_edges ''x'' late_stamp lk = (case lk ''y'' of None \<Rightarrow> [] | Some (a, b) \<Rightarrow> [(''x'', ''y'', a, b)])" for s lk
    by (auto simp: stamp_edges_def slot_stamp_def late_stamp_def stamp_default_def List.map_filter_simps split: option.split)
  have ok: "index_ok ix0" unfolding ix0_def by (intro index_insert_ok index_ok_default)
  have e0: "edges ix0 ''x'' = [\<lparr>e_by = ''y'', e_effective = 10, e_ingest = 3\<rparr>]" "edges ix0 ''y'' = []"
    unfolding ix0_def by (simp_all add: index_insert_links st add_edges_def edges_add_edge)
      (simp_all add: edges_def index_default_def lookup_list_def index_insert_fields st add_edges_def)
  then have "affected ix0 [''y''] = {}" by (simp add: affected_def)
  moreover have "edges ix2 ''x'' = []"
    unfolding ix2_def by (simp add: index_insert_links st add_edges_def ix1_def index_remove_lookup(1) [OF ok] e0)
  moreover have "(z, ''x'') \<in> links (build_index [(''x'', late_stamp), (''y'', slot_stamp ''other'')]) \<longleftrightarrow> z = ''y''" for z
    by (subst build_links_iff) (auto simp: late_stamp_def slot_stamp_def stamp_default_def)
  ultimately show ?thesis
    using index_ok_edges [OF build_index_exact(1), of "[(''x'', late_stamp), (''y'', slot_stamp ''other'')]" _ "''x''"]
    by auto
qed

end
