(* ===== verification/BinaryReader.thy ===== *)
theory BinaryReader
  imports Bytes
begin

text \<open>
  The byte-level reader and writer of \<open>src/core/documents/binary.rs\<close>: \<open>put_varint\<close>, \<open>put_bytes\<close> and
  the cursor \<open>Reader\<close> over untrusted bytes.  A read is a function from the cursor to an error or a
  value with the advanced cursor; after an error the cursor is never used again.  Rust strings are
  their UTF-8 bytes.
\<close>

datatype codec_error =
    Truncated | VarintOverflow | OutOfRange | NotUtf8 | CountExceedsRecord | Malformed string | JsonError | Panic

named_theorems reading "the reading of a written value"
named_theorems safe_reads "reads that stay within the bytes, do not look behind them and do not panic"

section \<open>Writing\<close>

function put_varint :: "u64 \<Rightarrow> u8 list" where
  "put_varint value =
     (if value \<ge> 0x80 then (ucast value OR 0x80) # put_varint (drop_bit 7 value) else [ucast value])"
  by pat_completeness auto
termination
proof (relation "measure unat")
  fix v :: u64
  assume "v \<ge> 0x80"
  then have "0 < unat v" by (simp add: word_le_nat_alt)
  moreover have "unat (drop_bit 7 v) = unat v div 2 ^ 7" by (simp add: drop_bit_eq_div unat_div)
  ultimately show "(drop_bit 7 v, v) \<in> measure unat" by simp
qed simp

declare put_varint.simps [simp del]

definition put_bytes :: "u8 list \<Rightarrow> u8 list" where
  "put_bytes bytes = put_varint (of_nat (length bytes)) @ bytes"

section \<open>UTF-8\<close>

text \<open>\<open>str::from_utf8\<close>: the width of the first character (well-formed byte sequences of Unicode).\<close>

definition cont :: "u8 \<Rightarrow> bool" where "cont b \<longleftrightarrow> 0x80 \<le> b \<and> b \<le> 0xBF"

fun utf8_width :: "u8 list \<Rightarrow> nat option" where
  "utf8_width [] = None"
| "utf8_width (b # bs) =
     (if b < 0x80 then Some 1
      else if 0xC2 \<le> b \<and> b \<le> 0xDF then
        (case bs of c1 # _ \<Rightarrow> if cont c1 then Some 2 else None | _ \<Rightarrow> None)
      else if 0xE0 \<le> b \<and> b \<le> 0xEF then
        (case bs of c1 # c2 # _ \<Rightarrow>
           if cont c1 \<and> cont c2 \<and> (b = 0xE0 \<longrightarrow> 0xA0 \<le> c1) \<and> (b = 0xED \<longrightarrow> c1 \<le> 0x9F) then Some 3 else None
         | _ \<Rightarrow> None)
      else if 0xF0 \<le> b \<and> b \<le> 0xF4 then
        (case bs of c1 # c2 # c3 # _ \<Rightarrow>
           if cont c1 \<and> cont c2 \<and> cont c3 \<and> (b = 0xF0 \<longrightarrow> 0x90 \<le> c1) \<and> (b = 0xF4 \<longrightarrow> c1 \<le> 0x8F) then Some 4 else None
         | _ \<Rightarrow> None)
      else None)"

lemma utf8_width_bounds: "utf8_width bs = Some n \<Longrightarrow> 0 < n \<and> n \<le> length bs"
  by (cases bs) (auto split: if_splits list.splits)

function utf8_valid :: "u8 list \<Rightarrow> bool" where
  "utf8_valid bs =
     (bs = [] \<or> (case utf8_width bs of None \<Rightarrow> False | Some n \<Rightarrow> utf8_valid (drop n bs)))"
  by pat_completeness auto
termination
  by (relation "measure length") (auto dest: utf8_width_bounds)

declare utf8_valid.simps [simp del]

lemma utf8_width_append: "utf8_width bs = Some n \<Longrightarrow> utf8_width (bs @ cs) = Some n"
  by (cases bs) (auto split: if_splits list.splits)

lemma utf8_valid_Nil [simp]: "utf8_valid []"
  by (simp add: utf8_valid.simps)

lemma utf8_valid_append: "utf8_valid as \<Longrightarrow> utf8_valid bs \<Longrightarrow> utf8_valid (as @ bs)"
proof (induction as rule: utf8_valid.induct)
  case (1 as)
  show ?case
  proof (cases "as = []")
    case False
    then obtain n where n: "utf8_width as = Some n" "utf8_valid (drop n as)"
      using "1.prems"(1) utf8_valid.simps [of as] by (auto split: option.splits)
    then have "utf8_valid (drop n as @ bs)" using "1.IH" False "1.prems"(2) by blast
    then show ?thesis
      using n utf8_width_append [OF n(1), of bs] utf8_width_bounds [OF n(1)] utf8_valid.simps [of "as @ bs"] False
      by simp
  qed (simp add: "1.prems")
qed

lemma utf8_valid_concat: "(\<And>x. x \<in> set xs \<Longrightarrow> utf8_valid x) \<Longrightarrow> utf8_valid (concat xs)"
  by (induction xs) (auto intro: utf8_valid_append)

section \<open>The cursor\<close>

record Reader =
  data :: "u8 list"
  at_pos :: usize

type_synonym 'a reads = "Reader \<Rightarrow> codec_error + 'a \<times> Reader"

definition reader_new :: "u8 list \<Rightarrow> Reader" where "reader_new bs = \<lparr>data = bs, at_pos = 0\<rparr>"

definition reader_is_empty :: "Reader \<Rightarrow> bool" where "reader_is_empty r \<longleftrightarrow> at_pos r = length (data r)"

definition remaining :: "Reader \<Rightarrow> usize" where "remaining r = length (data r) - at_pos r"

text \<open>\<open>?\<close>, \<open>Ok\<close> and \<open>ensure!\<close>.\<close>

definition rd_bind :: "'a reads \<Rightarrow> ('a \<Rightarrow> 'b reads) \<Rightarrow> 'b reads" where
  "rd_bind f g r = (case f r of Inl e \<Rightarrow> Inl e | Inr (x, r') \<Rightarrow> g x r')"

definition rd_ok :: "'a \<Rightarrow> 'a reads" where "rd_ok x r = Inr (x, r)"

definition rd_fail :: "codec_error \<Rightarrow> 'a reads" where "rd_fail e r = Inl e"

definition rd_ensure :: "bool \<Rightarrow> codec_error \<Rightarrow> 'a reads \<Rightarrow> 'a reads" where
  "rd_ensure c e f = (if c then f else rd_fail e)"

definition take_bytes :: "usize \<Rightarrow> u8 list reads" where
  "take_bytes len r =
     (if len \<le> remaining r then Inr (sub_slice (data r) (at_pos r) len, r\<lparr>at_pos := at_pos r + len\<rparr>)
      else Inl Truncated)"

text \<open>Indexing the slice that \<open>take\<close> returns panics when it is empty.\<close>

definition read_byte :: "u8 reads" where
  "read_byte = rd_bind (take_bytes 1) (\<lambda>bs. case bs of [] \<Rightarrow> rd_fail Panic | b # _ \<Rightarrow> rd_ok b)"

text \<open>The shifts of \<open>(0..64).step_by(7)\<close>.\<close>

fun varint_loop :: "nat list \<Rightarrow> u64 \<Rightarrow> u64 reads" where
  "varint_loop [] value = rd_fail VarintOverflow"
| "varint_loop (shift # shifts) value =
     rd_bind read_byte (\<lambda>b.
       rd_ensure (shift < 63 \<or> b \<le> 1) VarintOverflow
         (let value = value OR push_bit shift (ucast (b AND 0x7f))
          in if b AND 0x80 = 0 then rd_ok value else varint_loop shifts value))"

definition varint :: "u64 reads" where "varint = varint_loop (map (\<lambda>k. 7 * k) [0..<10]) 0"

definition rd_number :: "(u64 \<Rightarrow> 'a option) \<Rightarrow> 'a reads" where
  "rd_number try_from =
     rd_bind varint (\<lambda>value. case try_from value of None \<Rightarrow> rd_fail OutOfRange | Some n \<Rightarrow> rd_ok n)"

definition usize_try_from :: "u64 \<Rightarrow> usize option" where "usize_try_from v = Some (unat v)"

definition u32_try_from :: "u64 \<Rightarrow> u32 option" where
  "u32_try_from v = (if unat v < 2 ^ 32 then Some (ucast v) else None)"

definition read_bytes :: "u8 list reads" where
  "read_bytes = rd_bind (rd_number usize_try_from) take_bytes"

definition read_str :: "u8 list reads" where
  "read_str = rd_bind read_bytes (\<lambda>bs. rd_ensure (utf8_valid bs) NotUtf8 (rd_ok bs))"

definition read_count :: "usize \<Rightarrow> usize reads" where
  "read_count least =
     rd_bind (rd_number usize_try_from) (\<lambda>n r.
       if n \<le> remaining r div max least 1 then Inr (n, r) else Inl CountExceedsRecord)"

text \<open>A loop that reads one element per iteration, and carries a state.\<close>

fun read_loop :: "('s \<Rightarrow> ('a \<times> 's) reads) \<Rightarrow> nat \<Rightarrow> 's \<Rightarrow> ('a list \<times> 's) reads" where
  "read_loop f 0 s = rd_ok ([], s)"
| "read_loop f (Suc n) s =
     rd_bind (f s) (\<lambda>(x, s1). rd_bind (read_loop f n s1) (\<lambda>(xs, s2). rd_ok (x # xs, s2)))"

section \<open>Reading untrusted bytes\<close>

text \<open>
  What every read of the format promises on any bytes: it does not panic, it stays within the
  bytes, and the bytes behind the ones it consumed do not change its result.
\<close>

locale safe_read =
  fixes f :: "'a reads"
  assumes no_panic: "p \<le> length bs \<Longrightarrow> f \<lparr>data = bs, at_pos = p\<rparr> \<noteq> Inl Panic"
    and within: "p \<le> length bs \<Longrightarrow> f \<lparr>data = bs, at_pos = p\<rparr> = Inr (x, r) \<Longrightarrow>
      \<exists>q. r = \<lparr>data = bs, at_pos = q\<rparr> \<and> p \<le> q \<and> q \<le> length bs"
    and extend: "p \<le> length bs \<Longrightarrow> f \<lparr>data = bs, at_pos = p\<rparr> = Inr (x, \<lparr>data = bs, at_pos = q\<rparr>) \<Longrightarrow>
      f \<lparr>data = bs @ cs, at_pos = p\<rparr> = Inr (x, \<lparr>data = bs @ cs, at_pos = q\<rparr>)"
begin

text \<open>A read that succeeds both on a record and on a prefix of it gives the same.\<close>

lemma prefix_agrees:
  assumes "p \<le> n" "n \<le> length bs" "f \<lparr>data = take n bs, at_pos = p\<rparr> = Inr (x, r)"
  shows "\<exists>q \<le> n. p \<le> q \<and> r = \<lparr>data = take n bs, at_pos = q\<rparr> \<and> f \<lparr>data = bs, at_pos = p\<rparr> = Inr (x, \<lparr>data = bs, at_pos = q\<rparr>)"
proof -
  have p: "p \<le> length (take n bs)" using assms(1,2) by simp
  obtain q where q: "r = \<lparr>data = take n bs, at_pos = q\<rparr>" "p \<le> q" "q \<le> length (take n bs)"
    using within [OF p assms(3)] by blast
  have "f \<lparr>data = take n bs @ drop n bs, at_pos = p\<rparr> = Inr (x, \<lparr>data = take n bs @ drop n bs, at_pos = q\<rparr>)"
    by (rule extend [OF p]) (use assms(3) q(1) in simp)
  then show ?thesis using q assms(2) by auto
qed

end

lemma safe_ok [safe_reads]: "safe_read (rd_ok x)"
  by unfold_locales (auto simp: rd_ok_def)

lemma safe_fail [safe_reads]: "e \<noteq> Panic \<Longrightarrow> safe_read (rd_fail e)"
  by unfold_locales (auto simp: rd_fail_def)

lemma safe_bind:
  assumes f: "safe_read f" and g: "\<And>x bs p q. p \<le> length bs \<Longrightarrow> f \<lparr>data = bs, at_pos = p\<rparr> = Inr (x, \<lparr>data = bs, at_pos = q\<rparr>) \<Longrightarrow> safe_read (g x)"
  shows "safe_read (rd_bind f g)"
proof
  fix bs :: "u8 list" and p
  assume p: "p \<le> length bs"
  show "rd_bind f g \<lparr>data = bs, at_pos = p\<rparr> \<noteq> Inl Panic"
  proof (cases "f \<lparr>data = bs, at_pos = p\<rparr>")
    case (Inl e)
    then show ?thesis using safe_read.no_panic [OF f p] by (simp add: rd_bind_def)
  next
    case (Inr xr)
    then obtain x q where q: "f \<lparr>data = bs, at_pos = p\<rparr> = Inr (x, \<lparr>data = bs, at_pos = q\<rparr>)" "q \<le> length bs"
      using safe_read.within [OF f p] by (metis surj_pair)
    then show ?thesis using safe_read.no_panic [OF g [OF p q(1)] q(2)] by (simp add: rd_bind_def)
  qed
next
  fix bs :: "u8 list" and p y r
  assume p: "p \<le> length bs" and "rd_bind f g \<lparr>data = bs, at_pos = p\<rparr> = Inr (y, r)"
  then obtain x r1 where x: "f \<lparr>data = bs, at_pos = p\<rparr> = Inr (x, r1)" "g x r1 = Inr (y, r)"
    by (auto simp: rd_bind_def split: sum.splits)
  obtain q1 where q1: "r1 = \<lparr>data = bs, at_pos = q1\<rparr>" "p \<le> q1" "q1 \<le> length bs"
    using safe_read.within [OF f p x(1)] by blast
  note gx = g [OF p x(1) [unfolded q1(1)]]
  obtain q where "r = \<lparr>data = bs, at_pos = q\<rparr>" "q1 \<le> q" "q \<le> length bs"
    using safe_read.within [OF gx q1(3)] x(2) q1(1) by blast
  then show "\<exists>q. r = \<lparr>data = bs, at_pos = q\<rparr> \<and> p \<le> q \<and> q \<le> length bs" using q1(2) by auto
next
  fix bs cs :: "u8 list" and p y q
  assume p: "p \<le> length bs" and "rd_bind f g \<lparr>data = bs, at_pos = p\<rparr> = Inr (y, \<lparr>data = bs, at_pos = q\<rparr>)"
  then obtain x r1 where x: "f \<lparr>data = bs, at_pos = p\<rparr> = Inr (x, r1)" "g x r1 = Inr (y, \<lparr>data = bs, at_pos = q\<rparr>)"
    by (auto simp: rd_bind_def split: sum.splits)
  obtain q1 where q1: "r1 = \<lparr>data = bs, at_pos = q1\<rparr>" "q1 \<le> length bs"
    using safe_read.within [OF f p x(1)] by blast
  note gx = g [OF p x(1) [unfolded q1(1)]]
  have "f \<lparr>data = bs @ cs, at_pos = p\<rparr> = Inr (x, \<lparr>data = bs @ cs, at_pos = q1\<rparr>)"
    by (rule safe_read.extend [OF f p]) (use x(1) q1(1) in simp)
  moreover have "g x \<lparr>data = bs @ cs, at_pos = q1\<rparr> = Inr (y, \<lparr>data = bs @ cs, at_pos = q\<rparr>)"
    by (rule safe_read.extend [OF gx q1(2)]) (use x(2) q1(1) in simp)
  ultimately show "rd_bind f g \<lparr>data = bs @ cs, at_pos = p\<rparr> = Inr (y, \<lparr>data = bs @ cs, at_pos = q\<rparr>)"
    by (simp add: rd_bind_def)
qed

lemma safe_binds [safe_reads]: "safe_read f \<Longrightarrow> (\<And>x. safe_read (g x)) \<Longrightarrow> safe_read (rd_bind f g)"
  by (rule safe_bind)

lemma safe_ensure [safe_reads]: "(c \<Longrightarrow> safe_read f) \<Longrightarrow> e \<noteq> Panic \<Longrightarrow> safe_read (rd_ensure c e f)"
  by (simp add: rd_ensure_def safe_fail)

lemma safe_take [safe_reads]: "safe_read (take_bytes n)"
  by unfold_locales (auto simp: take_bytes_def remaining_def sub_slice_def split: if_splits)

lemma safe_byte [safe_reads]: "safe_read read_byte"
  unfolding read_byte_def
proof (rule safe_bind [OF safe_take])
  fix x :: "u8 list" and bs p q
  assume "take_bytes 1 \<lparr>data = bs, at_pos = p\<rparr> = Inr (x, \<lparr>data = bs, at_pos = q\<rparr>)"
  then have "length x = 1" by (auto simp: take_bytes_def remaining_def split: if_splits)
  then show "safe_read (case x of [] \<Rightarrow> rd_fail Panic | b # _ \<Rightarrow> rd_ok b)"
    by (cases x) (simp_all add: safe_ok)
qed

lemma safe_varint_loop: "safe_read (varint_loop ss v)"
  by (induction ss arbitrary: v) (auto simp: Let_def intro!: safe_reads)

interpretation varint_read: safe_read varint
  unfolding varint_def by (rule safe_varint_loop)

lemma safe_number [safe_reads]: "safe_read (rd_number c)"
  unfolding rd_number_def
  by (auto intro!: safe_reads varint_read.safe_read_axioms split: option.split)

lemma safe_read_bytes [safe_reads]: "safe_read read_bytes"
  unfolding read_bytes_def by (intro safe_reads)

lemma safe_str [safe_reads]: "safe_read read_str"
  unfolding read_str_def by (auto intro!: safe_reads)

lemma safe_count_check:
  "safe_read (\<lambda>r. if n \<le> remaining r div k then Inr (n, r) else Inl CountExceedsRecord)"
proof
  fix bs cs :: "u8 list" and p x q
  assume "(if n \<le> remaining \<lparr>data = bs, at_pos = p\<rparr> div k then Inr (n, \<lparr>data = bs, at_pos = p\<rparr>) else Inl CountExceedsRecord)
    = Inr (x, \<lparr>data = bs, at_pos = q\<rparr>)"
  moreover have "(length bs - p) div k \<le> (length (bs @ cs) - p) div k" by (intro div_le_mono) simp
  ultimately show "(if n \<le> remaining \<lparr>data = bs @ cs, at_pos = p\<rparr> div k then Inr (n, \<lparr>data = bs @ cs, at_pos = p\<rparr>)
    else Inl CountExceedsRecord) = Inr (x, \<lparr>data = bs @ cs, at_pos = q\<rparr>)"
    by (auto simp: remaining_def split: if_splits)
qed (auto split: if_splits)

lemma safe_count [safe_reads]: "safe_read (read_count k)"
  unfolding read_count_def by (intro safe_reads safe_count_check)

lemma safe_loop [safe_reads]: "(\<And>s. safe_read (f s)) \<Longrightarrow> safe_read (read_loop f n s)"
  by (induction n arbitrary: s) (auto intro!: safe_reads simp: split_def)

section \<open>Reading what was written\<close>

text \<open>
  \<open>reads_as f bs x need\<close>: reading the bytes \<open>bs\<close> gives \<open>x\<close> and consumes them, whatever follows, if at
  least \<open>need\<close> bytes follow (a count is compared with the bytes that are left).
\<close>

definition reads_as :: "'a reads \<Rightarrow> u8 list \<Rightarrow> 'a \<Rightarrow> nat \<Rightarrow> bool" where
  "reads_as f bs x need \<longleftrightarrow> (\<forall>before after. need \<le> length after \<longrightarrow>
     f \<lparr>data = before @ bs @ after, at_pos = length before\<rparr> =
       Inr (x, \<lparr>data = before @ bs @ after, at_pos = length before + length bs\<rparr>))"

lemma reads_as_ok [reading]: "reads_as (rd_ok x) [] x 0"
  by (simp add: reads_as_def rd_ok_def)

lemma reads_as_bind:
  assumes f: "reads_as f bs x m" and g: "reads_as (g x) cs y n" and m: "m \<le> length cs + n"
  shows "reads_as (rd_bind f g) (bs @ cs) y n"
  unfolding reads_as_def
proof (intro allI impI)
  fix before after :: "u8 list"
  assume n: "n \<le> length after"
  have "f \<lparr>data = before @ bs @ cs @ after, at_pos = length before\<rparr> =
      Inr (x, \<lparr>data = before @ bs @ cs @ after, at_pos = length before + length bs\<rparr>)"
    using f [unfolded reads_as_def, rule_format, of "cs @ after" before] m n by simp
  moreover have "g x \<lparr>data = (before @ bs) @ cs @ after, at_pos = length (before @ bs)\<rparr> =
      Inr (y, \<lparr>data = (before @ bs) @ cs @ after, at_pos = length (before @ bs) + length cs\<rparr>)"
    using g n unfolding reads_as_def by blast
  ultimately show "rd_bind f g \<lparr>data = before @ (bs @ cs) @ after, at_pos = length before\<rparr> =
      Inr (y, \<lparr>data = before @ (bs @ cs) @ after, at_pos = length before + length (bs @ cs)\<rparr>)"
    by (simp add: rd_bind_def add.assoc)
qed

lemma reads_as_bind0 [reading]:
  "reads_as f bs x 0 \<Longrightarrow> reads_as (g x) cs y n \<Longrightarrow> reads_as (rd_bind f g) (bs @ cs) y n"
  using reads_as_bind [of f bs x 0 g cs y n] by simp

lemma reads_as_last:
  "reads_as f bs x 0 \<Longrightarrow> reads_as (g x) [] y n \<Longrightarrow> reads_as (rd_bind f g) bs y n"
  using reads_as_bind0 [of f bs x g "[]"] by simp

lemma reads_as_ensure [reading]: "c \<Longrightarrow> reads_as f bs x n \<Longrightarrow> reads_as (rd_ensure c e f) bs x n"
  by (simp add: rd_ensure_def)

lemma reads_as_take: "length bs = n \<Longrightarrow> reads_as (take_bytes n) bs bs 0"
  by (simp add: reads_as_def take_bytes_def remaining_def sub_slice_def)

lemma reads_as_byte [reading]: "reads_as read_byte [b] b 0"
  unfolding read_byte_def by (rule reads_as_last [OF reads_as_take]) (simp_all add: reads_as_ok)

lemma reads_as_byte_then: "reads_as (g b) cs y n \<Longrightarrow> reads_as (rd_bind read_byte g) (b # cs) y n"
  using reads_as_bind0 [OF reads_as_byte, of g b cs y n] by simp

lemma reads_as_weaken: "reads_as f bs x m \<Longrightarrow> m \<le> n \<Longrightarrow> reads_as f bs x n"
  by (auto simp: reads_as_def)

text \<open>Seven bits at a time.\<close>

lemma bit_0x80: "bit (0x80 :: u8) j \<longleftrightarrow> j = 7"
proof -
  have "(0x80 :: u8) = 2 ^ 7" by simp
  then show ?thesis by (simp only: bit_exp_iff) auto
qed

lemma bit_0x7f: "bit (0x7f :: u8) j \<longleftrightarrow> j < 7"
proof -
  have "(0x7f :: u8) = mask 7" by (simp add: mask_eq_exp_minus_1)
  then show ?thesis by (simp only: bit_mask_iff) auto
qed

lemma low_bits_join:
  "push_bit s (ucast ((ucast v OR 0x80) AND (0x7f :: u8))) OR push_bit (7 + s) (drop_bit 7 v) = push_bit s (v :: u64)"
proof (rule bit_eqI)
  fix n
  have "7 + s \<le> n \<Longrightarrow> 7 + (n - (7 + s)) = n - s" by arith
  then show "bit (push_bit s (ucast ((ucast v OR 0x80) AND (0x7f :: u8))) OR push_bit (7 + s) (drop_bit 7 v)) n = bit (push_bit s v) n"
    by (cases "7 + s \<le> n")
      (auto simp: bit_or_iff bit_and_iff bit_push_bit_iff bit_ucast_iff bit_0x80 bit_0x7f bit_drop_bit_eq
        simp del: bit_numeral_word_iff)
qed

lemma high_bit: "((ucast (v :: u64) OR 0x80) AND (0x80 :: u8)) \<noteq> 0"
proof
  assume "(ucast v OR 0x80) AND (0x80 :: u8) = 0"
  then have "\<not> bit ((ucast v OR 0x80) AND (0x80 :: u8)) 7" by (metis bit_0_eq bot_apply bot_bool_def)
  then show False by (simp add: bit_and_iff bit_or_iff bit_0x80 del: bit_numeral_word_iff)
qed

lemma small_byte:
  assumes "v < (0x80 :: u64)"
  shows "(ucast v AND (0x80 :: u8)) = 0" "ucast (ucast v AND (0x7f :: u8)) = v"
proof -
  have "v mod 2 ^ 7 = v" using assms by (simp add: word_less_nat_alt word_eq_iff_unsigned [where 'a = nat] unat_mod)
  then have v: "take_bit 7 v = v" by (simp add: take_bit_eq_mod)
  have b: "n < 7" if "bit v n" for n using that v by (metis bit_take_bit_iff)
  show "(ucast v AND (0x80 :: u8)) = 0"
    by (rule bit_eqI) (use b in \<open>auto simp: bit_and_iff bit_ucast_iff bit_0x80 simp del: bit_numeral_word_iff\<close>)
  show "ucast (ucast v AND (0x7f :: u8)) = v"
    by (rule bit_eqI) (use b in \<open>auto simp: bit_and_iff bit_ucast_iff bit_0x7f dest: b simp del: bit_numeral_word_iff\<close>)
qed

lemma reads_as_varint_loop:
  assumes "k < 10" "unat v < 2 ^ (64 - 7 * k)"
  shows "reads_as (varint_loop (map (\<lambda>k. 7 * k) [k..<10]) acc) (put_varint v) (acc OR push_bit (7 * k) v) 0"
  using assms
proof (induction v arbitrary: k acc rule: put_varint.induct)
  case (1 v)
  have ks: "[k..<10] = k # [Suc k..<10]" using "1.prems"(1) by (simp add: upt_conv_Cons)
  have u: "unat (drop_bit 7 v) = unat v div 128" by (simp add: drop_bit_eq_div unat_div)
  show ?case
  proof (cases "v \<ge> 0x80")
    case True
    have k9: "k < 9"
    proof (rule ccontr)
      assume "\<not> k < 9"
      then have "k = 9" using "1.prems"(1) by simp
      then show False using "1.prems"(2) True by (simp add: word_le_nat_alt)
    qed
    have "64 - 7 * k = 7 + (64 - 7 * Suc k)" using k9 by simp
    then have "unat v < 128 * 2 ^ (64 - 7 * Suc k)" using "1.prems"(2) by (simp only: power_add) simp
    then have "unat (drop_bit 7 v) < 2 ^ (64 - 7 * Suc k)" by (simp add: u less_mult_imp_div_less mult.commute)
    then have ih: "reads_as (varint_loop (map (\<lambda>k. 7 * k) [Suc k..<10]) a) (put_varint (drop_bit 7 v))
        (a OR push_bit (7 * Suc k) (drop_bit 7 v)) 0" for a
      using "1.IH" [OF True, of "Suc k" a] k9 by simp
    have j: "(acc OR push_bit (7 * k) (ucast ((ucast v OR 0x80) AND (0x7f :: u8)))) OR push_bit (7 * Suc k) (drop_bit 7 v)
        = acc OR push_bit (7 * k) v"
      using low_bits_join [of "7 * k" v] by (simp add: or.assoc)
    show ?thesis
      unfolding ks put_varint.simps [of v] if_P [OF True] list.map varint_loop.simps Let_def
      using ih [of "acc OR push_bit (7 * k) (ucast ((ucast v OR 0x80) AND (0x7f :: u8)))", unfolded j] high_bit [of v] k9
      by (intro reads_as_byte_then) (simp add: rd_ensure_def)
  next
    case False
    then have s: "v < 0x80" by simp
    have ok: "7 * k < 63 \<or> (ucast v :: u8) \<le> 1"
    proof (cases "k = 9")
      case True
      then have "unat v < 2" using "1.prems"(2) by simp
      then have "v = 0 \<or> v = 1" by (metis One_nat_def less_2_cases unsigned_0 unsigned_1 unsigned_word_eqI)
      then show ?thesis by auto
    qed (use "1.prems"(1) in simp)
    show ?thesis
      unfolding ks put_varint.simps [of v] if_not_P [OF False] list.map varint_loop.simps Let_def
      using small_byte [OF s] ok
      by (intro reads_as_last [OF reads_as_byte] reads_as_ensure) (simp_all add: reads_as_ok)
  qed
qed

lemma reads_as_varint [reading]: "reads_as varint (put_varint v) v 0"
  using reads_as_varint_loop [of 0 v 0] unsigned_less [of v] by (simp add: varint_def)

lemma unat_of_usize: "n < 2 ^ 64 \<Longrightarrow> unat (of_nat n :: u64) = n"
  by (simp add: unsigned_of_nat take_bit_nat_eq_self)

lemma unat_of_u32: "unat (ucast (w :: u32) :: u64) = unat w"
  using unat_u32_bound [of w] by (simp add: unsigned_ucast_eq take_bit_nat_eq_self_iff take_bit_nat_eq_self)

lemma reads_as_usize [reading]:
  assumes "n < 2 ^ 64"
  shows "reads_as (rd_number usize_try_from) (put_varint (of_nat n)) n 0"
  unfolding rd_number_def
  by (rule reads_as_last [OF reads_as_varint])
    (simp only: usize_try_from_def option.case unat_of_usize [OF assms] reads_as_ok)

lemma reads_as_u32 [reading]: "reads_as (rd_number u32_try_from) (put_varint (ucast (w :: u32))) w 0"
proof -
  have "u32_try_from (ucast w) = Some w"
    using unat_u32_bound [of w] unat_of_u32 [of w]
    by (simp add: u32_try_from_def) (rule bit_eqI, auto simp: bit_ucast_iff)
  then show ?thesis
    unfolding rd_number_def by (intro reads_as_last [OF reads_as_varint]) (simp add: reads_as_ok)
qed

lemma reads_as_bytes [reading]: "length bs < 2 ^ 64 \<Longrightarrow> reads_as read_bytes (put_bytes bs) bs 0"
  unfolding read_bytes_def put_bytes_def
  by (rule reads_as_bind0 [where x = "length bs"], erule reads_as_usize, rule reads_as_take, rule refl)

lemma reads_as_str [reading]: "length bs < 2 ^ 64 \<Longrightarrow> utf8_valid bs \<Longrightarrow> reads_as read_str (put_bytes bs) bs 0"
  unfolding read_str_def by (rule reads_as_last [OF reads_as_bytes]) (simp_all add: rd_ensure_def reads_as_ok)

lemma reads_as_count:
  assumes "n < 2 ^ 64"
  shows "reads_as (read_count k) (put_varint (of_nat n)) n (n * max k 1)"
proof -
  have "reads_as (\<lambda>r. if n \<le> remaining r div max k 1 then Inr (n, r) else Inl CountExceedsRecord) [] n (n * max k 1)"
    by (auto simp: reads_as_def remaining_def less_eq_div_iff_mult_less_eq)
  then show ?thesis unfolding read_count_def by (intro reads_as_last [OF reads_as_usize [OF assms]])
qed

text \<open>A count is followed by that many elements of the least size or more.\<close>

lemma reads_as_counted:
  assumes "n < 2 ^ 64" "n * max k 1 \<le> length cs" "reads_as (g n) cs y m"
  shows "reads_as (rd_bind (read_count k) g) (put_varint (of_nat n) @ cs) y m"
  by (rule reads_as_bind [where x = n, OF reads_as_count [OF assms(1), of k], where g = g and cs = cs and n = m])
    (use assms(2,3) in simp_all)

text \<open>Bytes that are read back, except that a count may be refused as too large when \<open>ok\<close> does not hold.\<close>

definition reads_or :: "bool \<Rightarrow> 'a reads \<Rightarrow> u8 list \<Rightarrow> 'a \<Rightarrow> bool" where
  "reads_or ok f bs x \<longleftrightarrow> (\<forall>before after.
     f \<lparr>data = before @ bs @ after, at_pos = length before\<rparr> =
       Inr (x, \<lparr>data = before @ bs @ after, at_pos = length before + length bs\<rparr>) \<or>
     \<not> ok \<and> f \<lparr>data = before @ bs @ after, at_pos = length before\<rparr> = Inl CountExceedsRecord)"

lemma reads_or_as: "reads_as f bs x 0 \<Longrightarrow> reads_or ok f bs x"
  by (simp add: reads_or_def reads_as_def)

lemma reads_or_mono: "reads_or ok f bs x \<Longrightarrow> (ok' \<Longrightarrow> ok) \<Longrightarrow> reads_or ok' f bs x"
  unfolding reads_or_def by blast

lemma reads_or_bind:
  assumes f: "reads_or ok f bs x" and g: "reads_or ok (g x) cs y"
  shows "reads_or ok (rd_bind f g) (bs @ cs) y"
  unfolding reads_or_def
proof (intro allI)
  fix before after :: "u8 list"
  let ?r = "\<lparr>data = before @ (bs @ cs) @ after, at_pos = length before\<rparr>"
  consider "f ?r = Inr (x, \<lparr>data = (before @ bs) @ cs @ after, at_pos = length (before @ bs)\<rparr>)"
    | "\<not> ok" "f ?r = Inl CountExceedsRecord"
    using f [unfolded reads_or_def, rule_format, of before "cs @ after"] by auto
  then show "rd_bind f g ?r = Inr (y, \<lparr>data = before @ (bs @ cs) @ after, at_pos = length before + length (bs @ cs)\<rparr>) \<or>
      \<not> ok \<and> rd_bind f g ?r = Inl CountExceedsRecord"
  proof cases
    case 1
    then show ?thesis
      using g [unfolded reads_or_def, rule_format, of "before @ bs" after] by (auto simp: rd_bind_def add.assoc)
  qed (simp add: rd_bind_def)
qed

lemma reads_or_then: "reads_as f bs x 0 \<Longrightarrow> reads_or ok (g x) cs y \<Longrightarrow> reads_or ok (rd_bind f g) (bs @ cs) y"
  by (rule reads_or_bind [OF reads_or_as])

lemma reads_or_last: "reads_or ok f bs x \<Longrightarrow> reads_as (g x) [] y 0 \<Longrightarrow> reads_or ok (rd_bind f g) bs y"
  using reads_or_bind [of ok f bs x g "[]" y, OF _ reads_or_as] by simp

lemma reads_or_byte_then: "reads_or ok (g b) cs y \<Longrightarrow> reads_or ok (rd_bind read_byte g) (b # cs) y"
  using reads_or_then [OF reads_as_byte, of ok g b cs y] by simp

lemma reads_or_counted:
  assumes n: "n < 2 ^ 64" and room: "ok \<Longrightarrow> n * max k 1 \<le> length cs" and g: "reads_or ok (g n) cs y"
  shows "reads_or ok (rd_bind (read_count k) g) (put_varint (of_nat n) @ cs) y"
proof -
  let ?check = "\<lambda>n r. if n \<le> remaining r div max k 1 then Inr (n, r) else Inl CountExceedsRecord"
  have "reads_or ok (rd_bind (?check n) g) cs y"
    unfolding reads_or_def
  proof (intro allI)
    fix before after :: "u8 list"
    let ?r = "\<lparr>data = before @ cs @ after, at_pos = length before\<rparr>"
    have "n \<le> remaining ?r div max k 1" if ok
      using room [OF that] by (simp add: remaining_def less_eq_div_iff_mult_less_eq)
    then show "rd_bind (?check n) g ?r = Inr (y, \<lparr>data = before @ cs @ after, at_pos = length before + length cs\<rparr>) \<or>
        \<not> ok \<and> rd_bind (?check n) g ?r = Inl CountExceedsRecord"
      using g [unfolded reads_or_def, rule_format, of before after] by (auto simp: rd_bind_def)
  qed
  then have "reads_or ok (rd_bind (rd_number usize_try_from) (\<lambda>n. rd_bind (?check n) g)) (put_varint (of_nat n) @ cs) y"
    by (rule reads_or_then [OF reads_as_usize [OF n]])
  moreover have "rd_bind (read_count k) g = rd_bind (rd_number usize_try_from) (\<lambda>n. rd_bind (?check n) g)"
    by (intro ext) (simp add: read_count_def rd_bind_def split: sum.split prod.split)
  ultimately show ?thesis by simp
qed

lemma reads_as_loop:
  assumes "\<And>i. i < length xs \<Longrightarrow> reads_as (f (s i)) (enc i) (xs ! i, s (Suc i)) 0"
  shows "reads_as (read_loop f (length xs) (s 0)) (concat (map enc [0..<length xs])) (xs, s (length xs)) 0"
  using assms
proof (induction xs arbitrary: s enc)
  case (Cons x xs)
  have "reads_as (read_loop f (length xs) (s (Suc 0))) (concat (map (\<lambda>i. enc (Suc i)) [0..<length xs])) (xs, s (Suc (length xs))) 0"
    using Cons.IH [of "\<lambda>i. s (Suc i)" "\<lambda>i. enc (Suc i)"] Cons.prems [of "Suc _"] by simp
  moreover have "concat (map enc [0..<length (x # xs)]) = enc 0 @ concat (map (\<lambda>i. enc (Suc i)) [0..<length xs])"
    by (simp only: length_Cons map_upt_Suc list.map concat.simps)
  moreover have "reads_as (f (s 0)) (enc 0) (x, s (Suc 0)) 0" using Cons.prems [of 0] by simp
  ultimately show ?case
    by (simp only: length_Cons read_loop.simps)
      (rule reads_as_bind0 [where x = "(x, s (Suc 0))"], assumption, unfold prod.case,
        rule reads_as_last [where x = "(xs, s (Suc (length xs)))"], simp_all add: reads_as_ok)
qed (simp add: reads_as_ok)

lemma put_varint_not_Nil [simp]: "put_varint v \<noteq> []"
  by (subst put_varint.simps) simp

lemma put_varint_length: "1 \<le> length (put_varint v)"
  by (cases "put_varint v") (use put_varint_not_Nil [of v] in auto)

end
