(* ===== verification/BitPacking.thy ===== *)
theory BitPacking
  imports Bytes
begin

text \<open>
  The fixed-width bit strings of \<open>src/core/documents/postings.rs\<close>: \<open>pack\<close> and the three ways to read
  them back, \<open>unpack\<close> (one value), \<open>unpack_into\<close> (all values through 64-bit windows) and
  \<open>BitReader\<close> (all values through a 128-bit buffer).  A panic is \<open>None\<close>.
\<close>

type_synonym u128 = "128 word"

definition DIRECT_BITS :: nat where "DIRECT_BITS = 56"

definition pack_step :: "nat \<Rightarrow> u8 list \<times> u64 \<times> nat \<Rightarrow> u64 \<Rightarrow> u8 list \<times> u64 \<times> nat" where
  "pack_step bits st v =
     (case st of (out, buffer, used) \<Rightarrow>
        let buffer = buffer OR push_bit used v;
            sum_used = used + bits
        in if sum_used \<ge> 64
           then (out @ u64_le_bytes buffer, if used = 0 then 0 else drop_bit (64 - used) v, sum_used - 64)
           else (out, buffer, sum_used))"

definition pack :: "u64 list \<Rightarrow> nat \<Rightarrow> u8 list" where
  "pack values bits =
     (case foldl (pack_step bits) ([], 0, 0) values of
        (out, buffer, used) \<Rightarrow> out @ take ((used + 7) div 8) (u64_le_bytes buffer))"

definition unpack :: "u8 list \<Rightarrow> usize \<Rightarrow> nat \<Rightarrow> u64 option" where
  "unpack bytes index bits =
     (if bits = 0 then Some 0
      else
        let b = index * bits; start = b div 8; shift = b mod 8
        in if bits \<le> DIRECT_BITS \<and> start + 8 \<le> length bytes
           then Some (drop_bit shift (of_le_bytes (sub_slice bytes start 8)) AND (push_bit bits 1 - 1))
           else
             let size = (shift + bits + 7) div 8
             in if start + size \<le> length bytes \<and> size \<le> 16
                then Some (ucast (drop_bit shift (of_le_bytes (sub_slice bytes start size @ replicate (16 - size) 0) :: u128)
                       AND (push_bit bits 1 - 1)))
                else None)"

record BitReader =
  br_bytes :: "u8 list"
  br_buffer :: u128
  br_used :: nat
  br_bits :: nat

definition bit_reader_new :: "u8 list \<Rightarrow> nat \<Rightarrow> BitReader" where
  "bit_reader_new bytes bits = \<lparr>br_bytes = bytes, br_buffer = 0, br_used = 0, br_bits = bits\<rparr>"

function bit_reader_fill :: "BitReader \<Rightarrow> BitReader option" where
  "bit_reader_fill r =
     (if br_used r < br_bits r then
        (case br_bytes r of
           [] \<Rightarrow> None
         | b # rest \<Rightarrow> bit_reader_fill
             (r\<lparr>br_buffer := br_buffer r OR push_bit (br_used r) (ucast b), br_bytes := rest, br_used := br_used r + 8\<rparr>))
      else Some r)"
  by pat_completeness auto
termination by (relation "measure (\<lambda>r. length (br_bytes r))") auto

declare bit_reader_fill.simps [simp del]

definition bit_reader_next :: "BitReader \<Rightarrow> (u64 \<times> BitReader) option" where
  "bit_reader_next r =
     (case bit_reader_fill r of
        None \<Rightarrow> None
      | Some r \<Rightarrow> Some (ucast (br_buffer r AND (push_bit (br_bits r) 1 - 1)),
                       r\<lparr>br_buffer := drop_bit (br_bits r) (br_buffer r), br_used := br_used r - br_bits r\<rparr>))"

fun read_all :: "nat \<Rightarrow> BitReader \<Rightarrow> u64 list option" where
  "read_all 0 r = Some []"
| "read_all (Suc n) r =
     (case bit_reader_next r of None \<Rightarrow> None | Some (v, r) \<Rightarrow> map_option ((#) v) (read_all n r))"

text \<open>\<open>unpack_into\<close>: the values it emits, in the order of their index.\<close>

fun unpack_windows :: "u8 list \<Rightarrow> nat \<Rightarrow> nat \<Rightarrow> nat \<Rightarrow> u64 list option" where
  "unpack_windows bytes bits b 0 = Some []"
| "unpack_windows bytes bits b (Suc n) =
     (let byte = b div 8
      in if byte \<le> length bytes then
           let window = (if byte + 8 \<le> length bytes then sub_slice bytes byte 8
                         else drop byte bytes @ replicate (8 - length (drop byte bytes)) 0)
           in map_option ((#) (drop_bit (b mod 8) (of_le_bytes window) AND (push_bit bits 1 - 1)))
                (unpack_windows bytes bits (b + bits) n)
         else None)"

definition unpack_into :: "u8 list \<Rightarrow> nat \<Rightarrow> nat \<Rightarrow> u64 list option" where
  "unpack_into bytes n bits =
     (if bits = 0 then Some (replicate n 0)
      else if bits > DIRECT_BITS then read_all n (bit_reader_new bytes bits)
      else unpack_windows bytes bits 0 n)"

section \<open>Bit strings\<close>

definition stream_bit :: "u8 list \<Rightarrow> nat \<Rightarrow> bool" where
  "stream_bit bs k \<longleftrightarrow> k div 8 < length bs \<and> bit (bs ! (k div 8)) (k mod 8)"

definition value_bit :: "nat \<Rightarrow> u64 list \<Rightarrow> nat \<Rightarrow> bool" where
  "value_bit bits vs k \<longleftrightarrow> k < bits * length vs \<and> bit (vs ! (k div bits)) (k mod bits)"

lemma bit_of_le_bytes_stream: "bit (of_le_bytes bs :: 'a::len word) k \<longleftrightarrow> k < LENGTH('a) \<and> stream_bit bs k"
  by (simp add: bit_of_le_bytes stream_bit_def)

lemma stream_bit_append:
  "stream_bit (as @ bs) k \<longleftrightarrow> (if k < 8 * length as then stream_bit as k else stream_bit bs (k - 8 * length as))"
proof (cases "k < 8 * length as")
  case True
  then have "k div 8 < length as" by simp
  then show ?thesis using True by (simp add: stream_bit_def nth_append)
next
  case False
  then obtain j where "k = 8 * length as + j" by (metis le_Suc_ex not_less)
  then show ?thesis by (simp add: stream_bit_def nth_append)
qed

lemma stream_bit_take: "stream_bit (take n bs) k \<longleftrightarrow> k < 8 * n \<and> stream_bit bs k"
  by (auto simp: stream_bit_def)

lemma stream_bit_drop: "stream_bit (drop n bs) k \<longleftrightarrow> stream_bit bs (8 * n + k)"
  by (auto simp: stream_bit_def)

lemma stream_bit_zeros: "\<not> stream_bit (replicate n 0) k"
  by (simp add: stream_bit_def)

lemma stream_bit_le_bytes: "stream_bit (u64_le_bytes w) k \<longleftrightarrow> bit w k"
proof -
  have "k < 64" if "bit w k" using that bit_imp_le_length by force
  then show ?thesis
    using bit_le_bytes [of "k div 8" 8 "k mod 8" w] by (auto simp: stream_bit_def)
qed

lemma value_bit_snoc:
  "value_bit bits (vs @ [v]) k \<longleftrightarrow>
     value_bit bits vs k \<or> bits * length vs \<le> k \<and> k < bits * length vs + bits \<and> bit v (k - bits * length vs)"
proof (cases "k < bits * length vs")
  case True
  then have "k div bits < length vs" by (simp add: less_mult_imp_div_less mult.commute)
  then show ?thesis using True by (auto simp: value_bit_def nth_append)
next
  case False
  show ?thesis
  proof (cases "k < bits * length vs + bits")
    case t: True
    then have d: "k div bits = length vs" using False by (intro div_nat_eqI) (auto simp: mult.commute)
    then have "k mod bits = k - bits * length vs" by (simp add: modulo_nat_def mult.commute)
    then show ?thesis using d t False by (auto simp: value_bit_def)
  qed (use False in \<open>auto simp: value_bit_def\<close>)
qed

definition narrow :: "nat \<Rightarrow> u64 \<Rightarrow> bool" where
  "narrow bits v \<longleftrightarrow> unat v < 2 ^ bits"

lemma narrow_bit: "narrow bits v \<Longrightarrow> bit v j \<Longrightarrow> j < bits"
  by (metis bit_take_bit_iff narrow_def take_bit_nat_eq_self_iff unsigned_take_bit_eq unsigned_word_eqI)

lemma value_bit_above: "bits * length vs \<le> k \<Longrightarrow> \<not> value_bit bits vs k"
  by (simp add: value_bit_def)

lemma pack_fold:
  assumes "bits \<le> 64" "\<And>v. v \<in> set vs \<Longrightarrow> narrow bits v" "foldl (pack_step bits) ([], 0, 0) vs = (out, buffer, used)"
  shows "bits * length vs = 8 * length out + used \<and> used < 64 \<and>
    (\<forall>k. stream_bit out k \<longleftrightarrow> k < 8 * length out \<and> value_bit bits vs k) \<and>
    (\<forall>j. bit buffer j \<longleftrightarrow> value_bit bits vs (8 * length out + j))"
  using assms(2,3)
proof (induction vs arbitrary: out buffer used rule: rev_induct)
  case Nil
  then show ?case by (simp add: stream_bit_def value_bit_def)
next
  case (snoc v vs)
  obtain out0 buffer0 used0 where f: "foldl (pack_step bits) ([], 0, 0) vs = (out0, buffer0, used0)" by (metis prod_cases3)
  have len: "bits * length vs = 8 * length out0 + used0" and u0: "used0 < 64"
    and so: "\<And>k. stream_bit out0 k \<longleftrightarrow> k < 8 * length out0 \<and> value_bit bits vs k"
    and bo: "\<And>j. bit buffer0 j \<longleftrightarrow> value_bit bits vs (8 * length out0 + j)"
    using snoc.IH [OF _ f] snoc.prems(1) by auto
  have vb: "value_bit bits (vs @ [v]) k \<longleftrightarrow> value_bit bits vs k \<or> bits * length vs \<le> k \<and> bit v (k - bits * length vs)" for k
    using narrow_bit [OF snoc.prems(1) [of v], of "k - bits * length vs"] by (auto simp: value_bit_snoc)
  have step: "pack_step bits (out0, buffer0, used0) v = (out, buffer, used)" using snoc.prems(2) f by simp
  define b where "b = buffer0 OR push_bit used0 v"
  have b: "bit b j \<longleftrightarrow> value_bit bits (vs @ [v]) (8 * length out0 + j)" if "j < 64" for j
    using that by (auto simp: b_def bit_or_iff bit_push_bit_iff bo vb len)
  have b64: "bit b j \<Longrightarrow> j < 64" for j using bit_imp_le_length [of b j] by simp
  show ?case
  proof (cases "used0 + bits \<ge> 64")
    case True
    then have r: "out = out0 @ u64_le_bytes b" "buffer = (if used0 = 0 then 0 else drop_bit (64 - used0) v)" "used = used0 + bits - 64"
      using step by (auto simp: pack_step_def Let_def b_def)
    have 1: "bits * length (vs @ [v]) = 8 * length out + used \<and> used < 64" using len True u0 assms(1) by (simp add: r)
    have 2: "stream_bit out k \<longleftrightarrow> k < 8 * length out \<and> value_bit bits (vs @ [v]) k" for k
    proof (cases "k < 8 * length out0")
      case kt: True
      then show ?thesis using so [of k] by (simp add: r stream_bit_append vb len)
    next
      case kf: False
      then obtain j where j: "k = 8 * length out0 + j" by (metis le_Suc_ex not_less)
      then show ?thesis using b [of j] b64 [of j] by (auto simp: r stream_bit_append stream_bit_le_bytes)
    qed
    have 3: "bit buffer j \<longleftrightarrow> value_bit bits (vs @ [v]) (8 * length out + j)" for j
    proof -
      have "\<not> value_bit bits vs (8 * length out + j)" by (rule value_bit_above) (use len u0 in \<open>simp add: r\<close>)
      moreover have "\<not> bit v (64 + j)" using bit_imp_le_length [of v "64 + j"] by auto
      ultimately show ?thesis using u0 by (auto simp: vb r len bit_drop_bit_eq)
    qed
    show ?thesis using 1 2 3 by blast
  next
    case False
    then have r: "out = out0" "buffer = b" "used = used0 + bits"
      using step by (auto simp: pack_step_def Let_def b_def)
    have "bit b j \<longleftrightarrow> value_bit bits (vs @ [v]) (8 * length out0 + j)" for j
      using b [of j] b64 [of j] False len value_bit_above [of bits "vs @ [v]" "8 * length out0 + j"]
      by (cases "j < 64") auto
    moreover have "stream_bit out0 k \<longleftrightarrow> k < 8 * length out0 \<and> value_bit bits (vs @ [v]) k" for k
      using so [of k] by (auto simp: vb len)
    ultimately show ?thesis using len False by (simp add: r)
  qed
qed

lemma pack_stream:
  assumes "bits \<le> 64" "\<And>v. v \<in> set vs \<Longrightarrow> narrow bits v"
  shows "stream_bit (pack vs bits) k \<longleftrightarrow> value_bit bits vs k" "length (pack vs bits) = (bits * length vs + 7) div 8"
proof -
  obtain out buffer used where f: "foldl (pack_step bits) ([], 0, 0) vs = (out, buffer, used)" by (metis prod_cases3)
  note i = pack_fold [OF assms f]
  have p: "pack vs bits = out @ take ((used + 7) div 8) (u64_le_bytes buffer)" by (simp add: pack_def f)
  show "length (pack vs bits) = (bits * length vs + 7) div 8"
  proof -
    have "(used + 7) div 8 \<le> 8" using i by linarith
    moreover have "(8 * length out + (used + 7)) div 8 = length out + (used + 7) div 8" by simp
    ultimately show ?thesis using i by (simp add: p)
  qed
  have "value_bit bits vs (8 * length out + j) \<Longrightarrow> j < 8 * ((used + 7) div 8)" for j
  proof -
    assume "value_bit bits vs (8 * length out + j)"
    then have "j < used" using i value_bit_above [of bits vs "8 * length out + j"] by force
    then show ?thesis by linarith
  qed
  then show "stream_bit (pack vs bits) k \<longleftrightarrow> value_bit bits vs k"
    using i by (cases "k < 8 * length out")
      (auto simp: p stream_bit_append stream_bit_take stream_bit_le_bytes dest!: le_Suc_ex [of "8 * length out" k] iff: not_less)
qed

lemma mask_bit: "bits < LENGTH('a) \<Longrightarrow> bit (2 ^ bits - 1 :: 'a::len word) j \<longleftrightarrow> j < bits"
  by (auto simp: bit_mask_iff mask_eq_exp_minus_1 [symmetric])

text \<open>A value is read back from a bit string that holds it.\<close>

lemma value_bit_index:
  assumes "index < length vs" "j < bits"
  shows "value_bit bits vs (index * bits + j) \<longleftrightarrow> bit (vs ! index) j"
proof -
  have "index * bits + j < Suc index * bits" using assms(2) by simp
  also have "\<dots> \<le> length vs * bits" using assms(1) by (intro mult_le_mono1) simp
  finally show ?thesis using assms(2) by (simp add: value_bit_def mult.commute)
qed

lemma narrow_zero: "narrow 0 v \<Longrightarrow> v = 0"
  by (simp add: narrow_def unat_eq_zero)

text \<open>A byte string that starts with packed values; what follows them does not matter.\<close>

definition holds :: "nat \<Rightarrow> u8 list \<Rightarrow> u64 list \<Rightarrow> bool" where
  "holds bits bs vs \<longleftrightarrow> (\<forall>v \<in> set vs. narrow bits v) \<and> (bits * length vs + 7) div 8 \<le> length bs \<and>
     (\<forall>k < bits * length vs. stream_bit bs k \<longleftrightarrow> value_bit bits vs k)"

lemma holds_pack: "bits \<le> 64 \<Longrightarrow> \<forall>v \<in> set vs. narrow bits v \<Longrightarrow> holds bits (pack vs bits) vs"
  by (simp add: holds_def pack_stream)

lemma holds_bit:
  assumes "holds bits bs vs" "index < length vs"
  shows "bit (vs ! index) j \<longleftrightarrow> j < bits \<and> stream_bit bs (index * bits + j)"
proof -
  have "index * bits + j < bits * length vs" if "j < bits"
  proof -
    have "index * bits + j < Suc index * bits" using that by simp
    also have "\<dots> \<le> length vs * bits" using assms(2) by (intro mult_le_mono1) simp
    finally show ?thesis by (simp add: mult.commute)
  qed
  then show ?thesis
    using assms narrow_bit [of bits "vs ! index" j] value_bit_index [OF assms(2), of j bits]
    by (auto simp: holds_def)
qed

lemma holds_room:
  assumes "holds bits bs vs" "index < length vs"
  shows "(index * bits + bits + 7) div 8 \<le> length bs"
proof -
  have "index * bits + bits = Suc index * bits" by simp
  also have "\<dots> \<le> length vs * bits" using assms(2) by (intro mult_le_mono1) simp
  finally have "index * bits + bits \<le> bits * length vs" by (simp add: mult.commute)
  then show ?thesis using assms(1) by (auto simp: holds_def intro: div_le_mono)
qed

lemma stream_bit_sub_slice: "stream_bit (sub_slice bs start n) k \<longleftrightarrow> k < 8 * n \<and> stream_bit bs (8 * start + k)"
  by (simp add: sub_slice_def stream_bit_take stream_bit_drop)

lemma window_value:
  assumes "holds bits bs vs" "index < length vs" "bits < LENGTH('a)" "bits \<le> 64" "index * bits mod 8 + bits \<le> LENGTH('a)"
    "\<And>k. k < index * bits mod 8 + bits \<Longrightarrow> stream_bit window k \<longleftrightarrow> stream_bit bs (8 * (index * bits div 8) + k)"
  shows "ucast (drop_bit (index * bits mod 8) (of_le_bytes window :: 'a::len word) AND (push_bit bits 1 - 1)) = vs ! index"
proof (rule bit_eqI)
  fix j
  have "8 * (index * bits div 8) + (index * bits mod 8 + j) = index * bits + j" by simp
  moreover have "bit (vs ! index) j \<Longrightarrow> j < 64" using bit_imp_le_length [of "vs ! index" j] by simp
  ultimately show "bit (ucast (drop_bit (index * bits mod 8) (of_le_bytes window :: 'a::len word) AND (push_bit bits 1 - 1)) :: u64) j
      = bit (vs ! index) j"
    using assms(3-6) holds_bit [OF assms(1,2), of j]
    by (auto simp: bit_ucast_iff bit_and_iff bit_drop_bit_eq bit_of_le_bytes_stream mask_bit)
qed

lemma unpack_holds:
  assumes "holds bits bs vs" "index < length vs" "bits \<le> 64"
  shows "unpack bs index bits = Some (vs ! index)"
proof (cases "bits = 0")
  case True
  then have "vs ! index = 0" using assms(1,2) by (simp add: holds_def narrow_zero)
  then show ?thesis by (simp add: unpack_def True)
next
  case nz: False
  let ?b = "index * bits"
  let ?size = "(?b mod 8 + bits + 7) div 8"
  have "(8 * (?b div 8) + (?b mod 8 + bits + 7)) div 8 = ?b div 8 + ?size" by (rule div_mult_self4) simp
  moreover have "8 * (?b div 8) + (?b mod 8 + bits + 7) = ?b + bits + 7" by simp
  ultimately have sz: "?b div 8 + ?size \<le> length bs" using holds_room [OF assms(1,2)] by simp
  have m: "?b mod 8 < 8" by simp
  then have s16: "?size \<le> 16" using assms(3) by linarith
  show ?thesis
  proof (cases "bits \<le> DIRECT_BITS \<and> ?b div 8 + 8 \<le> length bs")
    case True
    have "ucast (drop_bit (?b mod 8) (of_le_bytes (sub_slice bs (?b div 8) 8) :: u64) AND (push_bit bits 1 - 1)) = vs ! index"
      by (rule window_value [OF assms(1,2)])
        (use True m in \<open>auto simp: DIRECT_BITS_def stream_bit_sub_slice\<close>)
    then show ?thesis using nz True by (simp add: unpack_def Let_def)
  next
    case False
    have "?b mod 8 + bits \<le> 8 * ?size" by linarith
    then have "ucast (drop_bit (?b mod 8) (of_le_bytes (sub_slice bs (?b div 8) ?size @ replicate (16 - ?size) 0) :: u128)
        AND (push_bit bits 1 - 1)) = vs ! index"
      by (intro window_value [OF assms(1,2)])
        (use assms(3) m sz in \<open>auto simp: stream_bit_append stream_bit_sub_slice stream_bit_zeros min_def\<close>)
    then show ?thesis using nz False sz s16 by (auto simp: unpack_def Let_def)
  qed
qed

section \<open>Reading all values\<close>

lemma map_nth_drop: "i < length xs \<Longrightarrow> take (Suc n) (drop i xs) = xs ! i # take n (drop (Suc i) xs)"
  by (simp add: Cons_nth_drop_Suc [symmetric])

lemma unpack_windows_holds:
  assumes "holds bits bs vs" "0 < bits" "bits \<le> DIRECT_BITS" "i + n \<le> length vs"
  shows "unpack_windows bs bits (i * bits) n = Some (take n (drop i vs))"
  using assms(4)
proof (induction n arbitrary: i)
  case (Suc n)
  let ?b = "i * bits"
  let ?w = "if ?b div 8 + 8 \<le> length bs then sub_slice bs (?b div 8) 8
    else drop (?b div 8) bs @ replicate (8 - length (drop (?b div 8) bs)) 0"
  have i: "i < length vs" using Suc.prems by simp
  have "?b div 8 \<le> (?b + bits + 7) div 8" by (intro div_le_mono) simp
  then have room: "?b div 8 \<le> length bs" using holds_room [OF assms(1) i] by simp
  have m: "?b mod 8 < 8" by simp
  have "stream_bit bs (8 * (?b div 8) + k) \<Longrightarrow> k < 8 * (length bs - ?b div 8)" for k
    using room by (auto simp: stream_bit_def)
  then have "ucast (drop_bit (?b mod 8) (of_le_bytes ?w :: u64) AND (push_bit bits 1 - 1)) = vs ! i"
    using assms(3) m
    by (intro window_value [OF assms(1) i])
      (auto simp: DIRECT_BITS_def stream_bit_sub_slice stream_bit_append stream_bit_drop stream_bit_zeros)
  moreover have "unpack_windows bs bits (Suc i * bits) n = Some (take n (drop (Suc i) vs))"
    using Suc.IH [of "Suc i"] Suc.prems by simp
  moreover have "Suc i * bits = ?b + bits" by simp
  ultimately show ?case using room i by (simp add: Let_def map_nth_drop add.commute [of _ bits])
qed simp

text \<open>The reader has consumed whole bytes; its buffer holds the bits that are not yet emitted.\<close>

definition reader_at :: "u8 list \<Rightarrow> nat \<Rightarrow> nat \<Rightarrow> BitReader \<Rightarrow> bool" where
  "reader_at bs bits i r \<longleftrightarrow> br_bits r = bits \<and> br_used r < bits + 8 \<and>
     (\<exists>c \<le> length bs. br_bytes r = drop c bs \<and> i * bits + br_used r = 8 * c) \<and>
     (\<forall>j. bit (br_buffer r) j \<longleftrightarrow> j < br_used r \<and> stream_bit bs (i * bits + j))"

lemma reader_at_byte:
  assumes "reader_at bs bits i r" "br_used r < bits" "br_bytes r = b # rest" "bits \<le> 64"
  shows "reader_at bs bits i (r\<lparr>br_buffer := br_buffer r OR push_bit (br_used r) (ucast b), br_bytes := rest, br_used := br_used r + 8\<rparr>)"
proof -
  obtain c where c: "c \<le> length bs" "br_bytes r = drop c bs" "i * bits + br_used r = 8 * c"
    using assms(1) by (auto simp: reader_at_def)
  have d: "c < length bs" "bs ! c = b" "rest = drop (Suc c) bs"
    using c(2) assms(3) by (metis drop_all leI list.distinct(1), metis drop_eq_Nil2 hd_drop_conv_nth leI list.distinct(1) list.sel(1),
      metis drop_Suc list.sel(3) tl_drop)
  have sb: "stream_bit bs (8 * c + m) \<longleftrightarrow> bit b m" if "m < 8" for m
    using that d(1,2) by (simp add: stream_bit_def)
  have b8: "bit b m \<Longrightarrow> m < 8" for m using bit_imp_le_length [of b m] by simp
  have "bit (br_buffer r OR push_bit (br_used r) (ucast b)) j \<longleftrightarrow> j < br_used r + 8 \<and> stream_bit bs (i * bits + j)" for j
  proof (cases "j < br_used r")
    case True
    then show ?thesis using assms(1) by (auto simp: reader_at_def bit_or_iff bit_push_bit_iff)
  next
    case False
    then obtain m where m: "j = br_used r + m" by (metis le_Suc_ex not_less)
    have "i * bits + (br_used r + m) = 8 * c + m" using c(3) by simp
    then have "stream_bit bs (i * bits + j) = stream_bit bs (8 * c + m)" using m by (simp only:)
    moreover have "\<not> bit (br_buffer r) j" using assms(1) m by (simp add: reader_at_def)
    moreover have "br_used r + m < 128" if "m < 8" using that assms(2,4) by simp
    ultimately show ?thesis
      using m sb [of m] b8 [of m] by (cases "m < 8") (simp_all add: bit_or_iff bit_push_bit_iff bit_ucast_iff, auto)
  qed
  moreover have "Suc c \<le> length bs \<and> rest = drop (Suc c) bs \<and> i * bits + (br_used r + 8) = 8 * Suc c"
    using c d by simp
  ultimately show ?thesis using assms(1,2) unfolding reader_at_def by (simp add: exI [of _ "Suc c"])
qed

lemma bit_reader_fill_holds:
  assumes "reader_at bs bits i r" "bits \<le> 64" "(i * bits + bits + 7) div 8 \<le> length bs"
  shows "\<exists>r'. bit_reader_fill r = Some r' \<and> reader_at bs bits i r' \<and> bits \<le> br_used r'"
  using assms(1)
proof (induction r rule: bit_reader_fill.induct)
  case (1 r)
  show ?case
  proof (cases "br_used r < br_bits r")
    case True
    obtain c where c: "br_bytes r = drop c bs" "i * bits + br_used r = 8 * c"
      using "1.prems" by (auto simp: reader_at_def)
    have "8 * c < i * bits + bits" using True c(2) "1.prems" by (auto simp: reader_at_def)
    then have "c < (i * bits + bits + 7) div 8" by linarith
    then have "br_bytes r \<noteq> []" using c(1) assms(3) by simp
    then obtain b rest where br: "br_bytes r = b # rest" by (cases "br_bytes r") auto
    have ub: "br_used r < bits" using True "1.prems" by (simp add: reader_at_def)
    note at = reader_at_byte [OF "1.prems" ub br assms(2)]
    show ?thesis using "1.IH" [OF True br at] True br by (simp add: bit_reader_fill.simps [of r])
  next
    case False
    then have "bits \<le> br_used r" using "1.prems" by (simp add: reader_at_def)
    then show ?thesis using False "1.prems" by (simp add: bit_reader_fill.simps [of r])
  qed
qed

lemma bit_reader_next_holds:
  assumes "holds bits bs vs" "reader_at bs bits i r" "bits \<le> 64" "i < length vs"
  shows "\<exists>r'. bit_reader_next r = Some (vs ! i, r') \<and> reader_at bs bits (Suc i) r'"
proof -
  obtain r1 where r1: "bit_reader_fill r = Some r1" "reader_at bs bits i r1" "bits \<le> br_used r1"
    using bit_reader_fill_holds [OF assms(2,3) holds_room [OF assms(1,4)]] by blast
  then have f: "br_bits r1 = bits" "br_used r1 < bits + 8"
    "\<And>j. bit (br_buffer r1) j \<longleftrightarrow> j < br_used r1 \<and> stream_bit bs (i * bits + j)"
    by (auto simp: reader_at_def)
  have "ucast (br_buffer r1 AND (push_bit bits 1 - 1)) = vs ! i"
  proof (rule bit_eqI)
    fix j
    show "bit (ucast (br_buffer r1 AND (push_bit bits 1 - 1)) :: u64) j = bit (vs ! i) j"
      using holds_bit [OF assms(1,4), of j] f(3) [of j] r1(3) assms(3)
      by (auto simp: bit_ucast_iff bit_and_iff mask_bit)
  qed
  moreover have "reader_at bs bits (Suc i) (r1\<lparr>br_buffer := drop_bit bits (br_buffer r1), br_used := br_used r1 - bits\<rparr>)"
    using r1(2,3) f(2) by (auto simp: reader_at_def bit_drop_bit_eq f(3) add.assoc [symmetric] add.commute)
  ultimately show ?thesis using r1(1) f(1) by (simp add: bit_reader_next_def)
qed

lemma read_all_holds:
  assumes "holds bits bs vs" "reader_at bs bits i r" "bits \<le> 64" "i + n \<le> length vs"
  shows "read_all n r = Some (take n (drop i vs))"
  using assms(2,4)
proof (induction n arbitrary: i r)
  case (Suc n)
  have i: "i < length vs" using Suc.prems(2) by simp
  obtain r' where "bit_reader_next r = Some (vs ! i, r')" "reader_at bs bits (Suc i) r'"
    using bit_reader_next_holds [OF assms(1) Suc.prems(1) assms(3) i] by blast
  then show ?case using Suc.IH [of "Suc i" r'] Suc.prems(2) i by (simp add: map_nth_drop)
qed simp

lemma unpack_into_holds:
  assumes "holds bits bs vs" "bits \<le> 64" "n \<le> length vs"
  shows "unpack_into bs n bits = Some (take n vs)"
proof -
  have z: "replicate n 0 = take n vs" if "bits = 0"
    using assms(1,3) that by (intro nth_equalityI) (auto simp: holds_def narrow_zero)
  have "reader_at bs bits 0 (bit_reader_new bs bits)"
    by (auto simp: reader_at_def bit_reader_new_def)
  then show ?thesis
    using z read_all_holds [OF assms(1) _ assms(2), of 0 _ n] unpack_windows_holds [OF assms(1), of 0 n] assms(3)
    by (auto simp: unpack_into_def)
qed

text \<open>All ways of reading give back what was packed.\<close>

lemma pack_reads:
  assumes "bits \<le> 64" "\<And>v. v \<in> set vs \<Longrightarrow> narrow bits v"
  shows "i < length vs \<Longrightarrow> unpack (pack vs bits) i bits = Some (vs ! i)"
    "unpack_into (pack vs bits) (length vs) bits = Some vs"
  using unpack_holds [OF holds_pack] unpack_into_holds [OF holds_pack, of bits vs "length vs"] assms by auto

end
