(* ===== verification/PackedTerms.thy ===== *)
theory PackedTerms
  imports BinaryReader BitPacking "HOL-Library.List_Lexorder"
begin

text \<open>
  \<open>src/core/documents/packed_terms.rs\<close>: the term table of a chunk in its three forms (packed text,
  ids into a dictionary shared by the chunks of a frame, or a tree), with every lookup.  Strings are
  their UTF-8 bytes, compared byte by byte as \<open>str\<close> is.  A panic is \<open>None\<close>; the checks of
  \<open>debug_assert!\<close> are not part of the release build.
\<close>

type_synonym rstr = "u8 list"

section \<open>Strings and counters\<close>

text \<open>Slicing a \<open>str\<close> panics outside it and within a character.\<close>

definition char_boundary :: "rstr \<Rightarrow> nat \<Rightarrow> bool" where
  "char_boundary s i \<longleftrightarrow> i = 0 \<or> i = length s \<or> i < length s \<and> \<not> cont (s ! i)"

definition str_slice :: "rstr \<Rightarrow> nat \<Rightarrow> nat \<Rightarrow> rstr option" where
  "str_slice s a b =
     (if a \<le> b \<and> b \<le> length s \<and> char_boundary s a \<and> char_boundary s b then Some (sub_slice s a (b - a)) else None)"

text \<open>\<open>SharedFrequencies\<close> of the tables and \<open>Offsets\<close> of the positions are the same code.\<close>

datatype SharedFrequencies = ByteVec "u8 list" | ShortVec "u16 list" | WordVec "u32 list"

type_synonym Offsets = SharedFrequencies

definition narrow_from :: "u32 list \<Rightarrow> SharedFrequencies" where
  "narrow_from values =
     (let maximum = fold max values 0
      in if maximum \<le> 255 then ByteVec (map ucast values)
         else if maximum \<le> 65535 then ShortVec (map ucast values)
         else WordVec values)"

fun narrow_len :: "SharedFrequencies \<Rightarrow> nat" where
  "narrow_len (ByteVec v) = length v"
| "narrow_len (ShortVec v) = length v"
| "narrow_len (WordVec v) = length v"

definition slice_get :: "'a list \<Rightarrow> nat \<Rightarrow> 'a option" where
  "slice_get xs i = (if i < length xs then Some (xs ! i) else None)"

fun narrow_get :: "SharedFrequencies \<Rightarrow> nat \<Rightarrow> u32 option" where
  "narrow_get (ByteVec v) i = map_option ucast (slice_get v i)"
| "narrow_get (ShortVec v) i = map_option ucast (slice_get v i)"
| "narrow_get (WordVec v) i = slice_get v i"

definition narrow_iter :: "SharedFrequencies \<Rightarrow> u32 list option" where
  "narrow_iter f = those (map (narrow_get f) [0..<narrow_len f])"

record Positions =
  version :: u8
  offsets :: Offsets
  pos_data :: "u8 list"

section \<open>Dictionaries\<close>

text \<open>An \<open>Arc\<close> is its address and what it holds; \<open>Arc::ptr_eq\<close> compares addresses.\<close>

datatype 'a arc = Arc (arc_ptr: nat) (arc_get: 'a)

record SharedDictionary =
  sd_text :: rstr
  sd_starts :: "u32 list"

fun push_words :: "rstr list \<Rightarrow> rstr \<Rightarrow> u32 list \<Rightarrow> (rstr \<times> u32 list) option" where
  "push_words [] txt starts = Some (txt, starts)"
| "push_words (word # words) txt starts =
     (if length txt < 2 ^ 32 then push_words words (txt @ word) (starts @ [of_nat (length txt)]) else None)"

definition dictionary_new :: "rstr list \<Rightarrow> SharedDictionary option" where
  "dictionary_new words = map_option (\<lambda>(t, s). \<lparr>sd_text = t, sd_starts = s\<rparr>) (push_words words [] [])"

definition dictionary_len :: "SharedDictionary \<Rightarrow> nat" where
  "dictionary_len d = length (sd_starts d)"

text \<open>\<open>SharedDictionary::term\<close> and \<open>PackedTerms::key\<close>.\<close>

definition term_at :: "rstr \<Rightarrow> u32 list \<Rightarrow> nat \<Rightarrow> rstr option" where
  "term_at txt starts index =
     (let stop = (case slice_get starts (index + 1) of None \<Rightarrow> length txt | Some v \<Rightarrow> unat v)
      in case slice_get starts index of None \<Rightarrow> None | Some start \<Rightarrow> str_slice txt (unat start) stop)"

definition dictionary_term :: "SharedDictionary \<Rightarrow> nat \<Rightarrow> rstr option" where
  "dictionary_term d index = term_at (sd_text d) (sd_starts d) index"

text \<open>The binary search of every lookup: \<open>low\<close> and \<open>high\<close>, with the comparison of the probed key.\<close>

function search :: "(nat \<Rightarrow> 'k::linorder option) \<Rightarrow> 'k \<Rightarrow> nat \<Rightarrow> nat \<Rightarrow> nat option option" where
  "search key_at key low high =
     (if low < high then
        let middle = low + (high - low) div 2
        in case key_at middle of
             None \<Rightarrow> None
           | Some k \<Rightarrow> if k < key then search key_at key (middle + 1) high
                       else if k = key then Some (Some middle)
                       else search key_at key low middle
      else Some None)"
  by pat_completeness auto
termination by (relation "measure (\<lambda>(_, _, low, high). high - low)") auto

declare search.simps [simp del]

definition dictionary_find :: "SharedDictionary \<Rightarrow> rstr \<Rightarrow> u32 option option" where
  "dictionary_find d key =
     map_option (\<lambda>r. case r of None \<Rightarrow> None | Some middle \<Rightarrow> if middle < 2 ^ 32 then Some (of_nat middle) else None)
       (search (dictionary_term d) key 0 (dictionary_len d))"

section \<open>Tables\<close>

record SharedTerms =
  sh_dictionary :: "SharedDictionary arc"
  sh_ids :: "u8 list"
  sh_bits :: nat
  sh_frequencies :: SharedFrequencies

record PackedTerms =
  pt_text :: rstr
  pt_starts :: "u32 list"
  pt_frequencies :: "u32 list"

text \<open>A \<open>BTreeMap\<close> is the list of its entries in the order of the keys.\<close>

datatype TermData = Packed PackedTerms | Shared SharedTerms | Tree "(rstr \<times> u32) list"

record StoredTerms =
  st_terms :: "TermData option"
  st_positions :: "Positions option"

definition terms_default :: StoredTerms where
  "terms_default = \<lparr>st_terms = None, st_positions = None\<rparr>"

definition shared_id :: "SharedTerms \<Rightarrow> nat \<Rightarrow> u64 option" where
  "shared_id t index = unpack (sh_ids t) index (sh_bits t)"

definition shared_key :: "SharedTerms \<Rightarrow> nat \<Rightarrow> rstr option" where
  "shared_key t index =
     (case shared_id t index of None \<Rightarrow> None | Some v \<Rightarrow> dictionary_term (arc_get (sh_dictionary t)) (unat v))"

definition shared_index :: "SharedTerms \<Rightarrow> rstr \<Rightarrow> nat option option" where
  "shared_index t key = search (shared_key t) key 0 (narrow_len (sh_frequencies t))"

type_synonym WordId = "(SharedDictionary arc \<times> u32 option) option"

text \<open>The widening loops of \<open>bracket\<close>; \<open>step\<close> is \<open>2 ^ e\<close> and doubles each time.\<close>

function bracket_up :: "(nat \<Rightarrow> u64 option) \<Rightarrow> u64 \<Rightarrow> nat \<Rightarrow> nat \<Rightarrow> nat \<Rightarrow> nat \<Rightarrow> (nat \<times> nat) option" where
  "bracket_up id_at i n guess low e =
     (let probe = guess + 2 ^ e
      in if probe \<ge> n then Some (low, n)
         else case id_at probe of
                None \<Rightarrow> None
              | Some v \<Rightarrow> if v \<ge> i then Some (low, probe + 1) else bracket_up id_at i n guess (probe + 1) (Suc e))"
  by pat_completeness auto
termination by (relation "measure (\<lambda>(_, _, n, guess, _, e). n - (guess + 2 ^ e))") (auto intro: diff_less_mono2)

function bracket_down :: "(nat \<Rightarrow> u64 option) \<Rightarrow> u64 \<Rightarrow> nat \<Rightarrow> nat \<Rightarrow> nat \<Rightarrow> (nat \<times> nat) option" where
  "bracket_down id_at i guess high e =
     (if guess < 2 ^ e then Some (0, high)
      else
        let probe = guess - 2 ^ e
        in case id_at probe of
             None \<Rightarrow> None
           | Some v \<Rightarrow> if v \<le> i then Some (probe, high) else bracket_down id_at i guess probe (Suc e))"
  by pat_completeness auto
termination by (relation "measure (\<lambda>(_, _, guess, _, e). Suc guess - 2 ^ e)") (auto intro: diff_less_mono2)

declare bracket_up.simps [simp del] bracket_down.simps [simp del]

definition interpolate :: "u64 \<Rightarrow> u64 \<Rightarrow> u64 \<Rightarrow> nat \<Rightarrow> nat" where
  "interpolate first final i n =
     (if final = first then 0 else unat (i - first) * (n - 1) div unat (final - first))"

definition bracket :: "SharedTerms \<Rightarrow> u64 \<Rightarrow> (nat \<times> nat) option option" where
  "bracket t i =
     (let n = narrow_len (sh_frequencies t)
      in case shared_id t 0 of
           None \<Rightarrow> None
         | Some first \<Rightarrow>
             if n = 0 then Some None
             else (case shared_id t (n - 1) of
                None \<Rightarrow> None
              | Some final \<Rightarrow>
                  if i < first \<or> i > final then Some None
                  else
                    let guess = interpolate first final i n
                    in case shared_id t guess of
                         None \<Rightarrow> None
                       | Some v \<Rightarrow>
                           if v = i then Some (Some (guess, guess + 1))
                           else if v < i then map_option Some (bracket_up (shared_id t) i n guess (guess + 1) 0)
                           else map_option Some (bracket_down (shared_id t) i guess guess 0)))"

definition cached_id :: "SharedTerms \<Rightarrow> rstr \<Rightarrow> WordId \<Rightarrow> (u32 option \<times> WordId) option" where
  "cached_id t key cache =
     (let look_up = map_option (\<lambda>i. (i, Some (sh_dictionary t, i))) (dictionary_find (arc_get (sh_dictionary t)) key)
      in case cache of
           Some (d, i) \<Rightarrow> if arc_ptr d = arc_ptr (sh_dictionary t) then Some (i, cache) else look_up
         | None \<Rightarrow> look_up)"

definition shared_index_cached :: "SharedTerms \<Rightarrow> rstr \<Rightarrow> WordId \<Rightarrow> (nat option \<times> WordId) option" where
  "shared_index_cached t key cache =
     (case cached_id t key cache of
        None \<Rightarrow> None
      | Some (None, cache) \<Rightarrow> Some (None, cache)
      | Some (Some i, cache) \<Rightarrow>
          (case bracket t (ucast i) of
             None \<Rightarrow> None
           | Some None \<Rightarrow> Some (None, cache)
           | Some (Some (low, high)) \<Rightarrow> map_option (\<lambda>r. (r, cache)) (search (shared_id t) (ucast i) low high)))"

definition packed_key :: "PackedTerms \<Rightarrow> nat \<Rightarrow> rstr option" where
  "packed_key t index = term_at (pt_text t) (pt_starts t) index"

definition packed_get :: "PackedTerms \<Rightarrow> rstr \<Rightarrow> u32 option option" where
  "packed_get t key =
     (case search (packed_key t) key 0 (length (pt_frequencies t)) of
        None \<Rightarrow> None
      | Some None \<Rightarrow> Some None
      | Some (Some middle) \<Rightarrow> map_option Some (slice_get (pt_frequencies t) middle))"

text \<open>\<open>Iterator::position\<close>.\<close>

fun position_of :: "'a \<Rightarrow> 'a list \<Rightarrow> nat option" where
  "position_of k [] = None"
| "position_of k (x # xs) = (if x = k then Some 0 else map_option Suc (position_of k xs))"

definition terms_len :: "StoredTerms \<Rightarrow> nat" where
  "terms_len s =
     (case st_terms s of
        None \<Rightarrow> 0
      | Some (Packed t) \<Rightarrow> length (pt_frequencies t)
      | Some (Shared t) \<Rightarrow> narrow_len (sh_frequencies t)
      | Some (Tree t) \<Rightarrow> length t)"

definition terms_get :: "StoredTerms \<Rightarrow> rstr \<Rightarrow> u32 option option" where
  "terms_get s key =
     (case st_terms s of
        None \<Rightarrow> Some None
      | Some (Packed t) \<Rightarrow> packed_get t key
      | Some (Shared t) \<Rightarrow> map_option (\<lambda>r. case r of None \<Rightarrow> None | Some i \<Rightarrow> narrow_get (sh_frequencies t) i) (shared_index t key)
      | Some (Tree t) \<Rightarrow> Some (map_of t key))"

definition is_whole_document :: "StoredTerms \<Rightarrow> bool" where
  "is_whole_document s = (case st_positions s of None \<Rightarrow> False | Some p \<Rightarrow> version p = 2)"

definition terms_index :: "StoredTerms \<Rightarrow> rstr \<Rightarrow> nat option option" where
  "terms_index s key =
     (case st_terms s of
        None \<Rightarrow> Some None
      | Some (Packed t) \<Rightarrow> search (packed_key t) key 0 (length (pt_starts t))
      | Some (Tree t) \<Rightarrow> Some (position_of key (map fst t))
      | Some (Shared t) \<Rightarrow> shared_index t key)"

definition terms_index_cached :: "StoredTerms \<Rightarrow> rstr \<Rightarrow> WordId \<Rightarrow> (nat option \<times> WordId) option" where
  "terms_index_cached s key cache =
     (case st_terms s of
        Some (Shared t) \<Rightarrow> shared_index_cached t key cache
      | _ \<Rightarrow> map_option (\<lambda>r. (r, cache)) (terms_index s key))"

definition frequency_at :: "StoredTerms \<Rightarrow> nat \<Rightarrow> u32 option" where
  "frequency_at s index =
     (case st_terms s of
        None \<Rightarrow> None
      | Some (Packed t) \<Rightarrow> slice_get (pt_frequencies t) index
      | Some (Shared t) \<Rightarrow> narrow_get (sh_frequencies t) index
      | Some (Tree t) \<Rightarrow> slice_get (map snd t) index)"

definition contains_key :: "StoredTerms \<Rightarrow> rstr \<Rightarrow> bool option" where
  "contains_key s key = map_option (\<lambda>r. r \<noteq> None) (terms_get s key)"

text \<open>\<open>into_iter\<close> run to its end: the iterator stops where the frequencies do.\<close>

definition terms_iter :: "StoredTerms \<Rightarrow> (rstr \<times> u32) list option" where
  "terms_iter s =
     (case st_terms s of
        None \<Rightarrow> Some []
      | Some (Tree t) \<Rightarrow> Some t
      | Some (Shared t) \<Rightarrow> those (map (\<lambda>i. case (shared_key t i, narrow_get (sh_frequencies t) i) of
          (Some k, Some f) \<Rightarrow> Some (k, f) | _ \<Rightarrow> None) [0..<narrow_len (sh_frequencies t)])
      | Some (Packed t) \<Rightarrow> those (map (\<lambda>i. case (packed_key t i, slice_get (pt_frequencies t) i) of
          (Some k, Some f) \<Rightarrow> Some (k, f) | _ \<Rightarrow> None) [0..<length (pt_frequencies t)]))"

definition terms_keys :: "StoredTerms \<Rightarrow> rstr list option" where
  "terms_keys s = map_option (map fst) (terms_iter s)"

section \<open>Building a table\<close>

text \<open>\<open>32 - leading_zeros\<close>.\<close>

fun bit_width :: "nat \<Rightarrow> nat" where
  "bit_width n = (if n = 0 then 0 else Suc (bit_width (n div 2)))"

declare bit_width.simps [simp del]

definition from_dictionary :: "SharedDictionary arc \<Rightarrow> u32 list \<Rightarrow> u32 list \<Rightarrow> StoredTerms option" where
  "from_dictionary d ids frequencies =
     (if length ids \<noteq> length frequencies then None
      else if ids = [] then Some terms_default
      else
        let bits = bit_width (unat (last ids))
        in Some \<lparr>st_terms = Some (Shared \<lparr>sh_dictionary = d, sh_ids = pack (map ucast ids) bits, sh_bits = bits,
                   sh_frequencies = narrow_from frequencies\<rparr>), st_positions = None\<rparr>)"

text \<open>\<open>size_of::<(String, u32)>() - 2 * size_of::<u32>()\<close> on a 64-bit target.\<close>

definition can_pack :: "nat \<Rightarrow> nat \<Rightarrow> bool" where
  "can_pack n bytes \<longleftrightarrow> bytes < 2 ^ 32 \<and> n * 24 < 2 ^ 64 \<and> bytes \<le> n * 24"

definition pack_entries :: "(rstr \<times> u32) list \<Rightarrow> StoredTerms option" where
  "pack_entries entries =
     map_option (\<lambda>(t, s). \<lparr>st_terms = Some (Packed \<lparr>pt_text = t, pt_starts = s, pt_frequencies = map snd entries\<rparr>),
       st_positions = None\<rparr>) (push_words (map fst entries) [] [])"

definition from_sorted :: "(rstr \<times> u32) list \<Rightarrow> StoredTerms option" where
  "from_sorted entries =
     (if entries = [] then Some terms_default
      else
        let bytes = sum_list (map (length \<circ> fst) entries)
        in if bytes \<ge> 2 ^ 64 then None
           else if can_pack (length entries) bytes then pack_entries entries
           else Some \<lparr>st_terms = Some (Tree entries), st_positions = None\<rparr>)"

definition from_sorted_refs :: "nat \<Rightarrow> nat \<Rightarrow> (rstr \<times> u32) list \<Rightarrow> StoredTerms option" where
  "from_sorted_refs n bytes entries =
     (if n = 0 then Some terms_default
      else if \<not> can_pack n bytes then from_sorted entries
      else pack_entries entries)"

section \<open>Counters read back\<close>

lemma narrow_cast:
  assumes "(v :: u32) \<le> m" "unat m < 2 ^ LENGTH('a::len)"
  shows "ucast (ucast v :: 'a word) = v"
proof -
  have "unat v < 2 ^ LENGTH('a)" using assms by (meson le_less_trans word_le_nat_alt)
  then have "unat (take_bit LENGTH('a) v) = unat v" by (simp add: unsigned_take_bit_eq take_bit_nat_eq_self)
  then have "take_bit LENGTH('a) v = v" by (rule unsigned_word_eqI)
  then have "bit v n \<Longrightarrow> n < LENGTH('a)" for n by (metis bit_take_bit_iff)
  then show ?thesis by (intro bit_eqI) (auto simp: bit_ucast_iff)
qed

lemma fold_max_ge: "v \<in> set vs \<Longrightarrow> (v :: u32) \<le> fold max vs m"
proof (induction vs arbitrary: m)
  case (Cons x xs)
  have "y \<le> fold max xs y" for y :: u32
    by (induction xs arbitrary: y) (auto intro: order_trans [OF max.cobounded2])
  then show ?case using Cons by (auto intro: order_trans [OF max.cobounded1])
qed simp

lemma narrow_len_from [simp]: "narrow_len (narrow_from vs) = length vs"
  by (simp add: narrow_from_def Let_def)

lemma narrow_vec_get:
  assumes "fold max vs 0 \<le> m" "unat m < 2 ^ LENGTH('a)"
  shows "map_option ucast (slice_get (map (ucast :: u32 \<Rightarrow> 'a::len word) vs) i) = slice_get vs i"
proof -
  have "v \<le> m" if "v \<in> set vs" for v using fold_max_ge [OF that, of 0] assms(1) by simp
  then show ?thesis using assms(2) by (auto simp: slice_get_def intro!: narrow_cast [of _ m])
qed

lemma narrow_get_from [simp]: "narrow_get (narrow_from vs) i = slice_get vs i"
  using narrow_vec_get [of vs 255, where 'a = 8] narrow_vec_get [of vs 65535, where 'a = 16]
  by (auto simp: narrow_from_def Let_def)

lemma those_map_Some [simp]: "those (map (\<lambda>i. Some (f i)) xs) = Some (map f xs)"
  by (induction xs) simp_all

lemma those_map_eqI: "(\<And>x. x \<in> set xs \<Longrightarrow> g x = Some (f x)) \<Longrightarrow> those (map g xs) = Some (map f xs)"
  by (induction xs) simp_all

lemma narrow_iter_from [simp]: "narrow_iter (narrow_from vs) = Some vs"
proof -
  have "those (map (narrow_get (narrow_from vs)) [0..<length vs]) = Some (map ((!) vs) [0..<length vs])"
    by (rule those_map_eqI) (simp add: slice_get_def)
  then show ?thesis by (simp add: narrow_iter_def map_nth)
qed

section \<open>Concatenated words\<close>

definition word_start :: "rstr list \<Rightarrow> nat \<Rightarrow> nat" where
  "word_start words i = length (concat (take i words))"

definition words_at :: "rstr \<Rightarrow> u32 list \<Rightarrow> rstr list \<Rightarrow> bool" where
  "words_at txt starts words \<longleftrightarrow> txt = concat words \<and> starts = map (\<lambda>i. of_nat (word_start words i)) [0..<length words] \<and>
     (\<forall>i < length words. word_start words i < 2 ^ 32) \<and> (\<forall>w \<in> set words. utf8_valid w)"

lemma word_start_Suc: "i < length words \<Longrightarrow> word_start words (Suc i) = word_start words i + length (words ! i)"
  by (simp add: word_start_def take_Suc_conv_app_nth)

lemma word_start_all: "word_start words (length words) = length (concat words)"
  by (simp add: word_start_def)

lemma word_start_le: "word_start words i \<le> length (concat words)"
  by (metis append_take_drop_id concat_append le_add1 length_append word_start_def)

lemma word_slice: "i < length words \<Longrightarrow> sub_slice (concat words) (word_start words i) (length (words ! i)) = words ! i"
proof -
  assume i: "i < length words"
  have "concat words = concat (take i words) @ words ! i @ concat (drop (Suc i) words)"
    using id_take_nth_drop [OF i] by (metis concat.simps(2) concat_append)
  then show ?thesis by (simp add: sub_slice_def word_start_def)
qed

lemma utf8_head: "utf8_valid (b # bs) \<Longrightarrow> \<not> cont b"
proof
  assume "cont b" "utf8_valid (b # bs)"
  then have "\<not> b < 0x80" "\<not> 0xC2 \<le> b" "\<not> 0xE0 \<le> b" "\<not> 0xF0 \<le> b"
    by (auto simp: cont_def word_le_nat_alt word_less_nat_alt)
  then have "utf8_width (b # bs) = None" by simp
  then show False using \<open>utf8_valid (b # bs)\<close> utf8_valid.simps [of "b # bs"] by simp
qed

lemma boundary_word_start:
  assumes "\<forall>w \<in> set words. utf8_valid w"
  shows "char_boundary (concat words) (word_start words i)"
proof -
  have s: "concat words = concat (take i words) @ concat (drop i words)" by (metis append_take_drop_id concat_append)
  have "utf8_valid (concat (drop i words))" using assms by (intro utf8_valid_concat) (auto dest: in_set_dropD)
  then have n: "\<not> cont (hd (concat (drop i words)))" if "concat (drop i words) \<noteq> []"
    using that utf8_head by (cases "concat (drop i words)") auto
  show ?thesis
  proof (cases "concat (drop i words) = []")
    case True
    then have "word_start words i = length (concat words)" using s by (metis append_Nil2 word_start_def)
    then show ?thesis by (simp add: char_boundary_def)
  next
    case False
    then have "concat words ! word_start words i = hd (concat (drop i words))"
      by (subst s) (simp add: nth_append word_start_def hd_conv_nth del: concat_append append_take_drop_id)
    moreover have "word_start words i < length (concat words)"
      using False arg_cong [OF s, of length] by (simp add: word_start_def)
    ultimately show ?thesis using n [OF False] by (simp add: char_boundary_def)
  qed
qed

lemma term_at_words:
  assumes "words_at txt starts words" "i < length words"
  shows "term_at txt starts i = Some (words ! i)"
proof -
  let ?p = "word_start words"
  have t: "txt = concat words" and st: "\<And>k. k < length words \<Longrightarrow> slice_get starts k = Some (of_nat (?p k))"
    "slice_get starts (length words) = None"
    and u: "\<And>k. k < length words \<Longrightarrow> unat (of_nat (?p k) :: u32) = ?p k" and v: "\<forall>w \<in> set words. utf8_valid w"
    using assms(1) by (auto simp: words_at_def slice_get_def unsigned_of_nat take_bit_nat_eq_self)
  have stop: "(case slice_get starts (i + 1) of None \<Rightarrow> length txt | Some v \<Rightarrow> unat v) = ?p (Suc i)"
  proof (cases "Suc i < length words")
    case True
    then show ?thesis using st(1) [of "Suc i"] u [of "Suc i"] by simp
  next
    case False
    then have "Suc i = length words" using assms(2) by simp
    then show ?thesis using st(2) word_start_all [of words] t by simp
  qed
  have "str_slice txt (?p i) (?p (Suc i)) = Some (words ! i)"
    using word_start_Suc [OF assms(2)] word_slice [OF assms(2)] boundary_word_start [OF v, of i]
      boundary_word_start [OF v, of "Suc i"] word_start_le [of words "Suc i"]
    by (simp add: str_slice_def t)
  then show ?thesis using st(1) [OF assms(2)] u [OF assms(2)] stop by (simp add: term_at_def Let_def)
qed

lemma push_words_spec:
  assumes "push_words ws txt starts = Some (t, s)" "txt = concat vs" "starts = map (\<lambda>i. of_nat (word_start vs i)) [0..<length vs]"
    "\<forall>i < length vs. word_start vs i < 2 ^ 32"
  shows "t = concat (vs @ ws) \<and> s = map (\<lambda>i. of_nat (word_start (vs @ ws) i)) [0..<length (vs @ ws)] \<and>
    (\<forall>i < length (vs @ ws). word_start (vs @ ws) i < 2 ^ 32)"
  using assms
proof (induction ws arbitrary: "txt" starts vs)
  case (Cons w ws)
  have ps: "push_words ws (txt @ w) (starts @ [of_nat (length txt)]) = Some (t, s)"
    and l: "length txt < 2 ^ 32"
    using Cons.prems(1) by (auto split: if_splits)
  have "starts @ [of_nat (length txt)] = map (\<lambda>i. of_nat (word_start (vs @ [w]) i)) [0..<length (vs @ [w])]"
    using Cons.prems(2,3) by (simp add: word_start_def)
  moreover have "\<forall>i < length (vs @ [w]). word_start (vs @ [w]) i < 2 ^ 32"
    using Cons.prems(2,4) l by (auto simp: word_start_def less_Suc_eq)
  ultimately show ?case using Cons.IH [OF ps, of "vs @ [w]"] Cons.prems(2) by simp
qed simp

lemma push_words_at:
  "push_words ws [] [] = Some (t, s) \<Longrightarrow> \<forall>w \<in> set ws. utf8_valid w \<Longrightarrow> words_at t s ws"
  using push_words_spec [of ws "[]" "[]" t s "[]"] by (simp add: words_at_def)

lemma push_words_total:
  "length (txt @ concat ws) < 2 ^ 32 \<Longrightarrow> \<exists>t s. push_words ws txt starts = Some (t, s)"
  by (induction ws arbitrary: "txt" starts) auto

section \<open>Searching\<close>

lemma position_Some: "distinct xs \<Longrightarrow> position_of k xs = Some i \<longleftrightarrow> i < length xs \<and> xs ! i = k"
proof (induction xs arbitrary: i)
  case (Cons x xs)
  then show ?case by (cases i) (auto simp: in_set_conv_nth)
qed simp

lemma position_None: "position_of k xs = None \<longleftrightarrow> k \<notin> set xs"
  by (induction xs) auto

lemma position_map:
  assumes "inj_on f (insert k (set xs))"
  shows "position_of (f k) (map f xs) = position_of k xs"
  using assms by (induction xs) (auto simp: inj_on_def)

text \<open>A search in a range that holds the key, if any place does, finds its position.\<close>

lemma search_exact:
  fixes ks :: "'k::linorder list"
  assumes "ssorted ks" "high \<le> length ks" "\<And>i. i < length ks \<Longrightarrow> key_at i = Some (ks ! i)"
    "\<And>i. i < low \<Longrightarrow> i < length ks \<Longrightarrow> ks ! i < key" "\<And>i. high \<le> i \<Longrightarrow> i < length ks \<Longrightarrow> key < ks ! i"
  shows "search key_at key low high = Some (position_of key ks)"
  using assms(2,4,5)
proof (induction "high - low" arbitrary: low high rule: less_induct)
  case less
  have mono: "ks ! i \<le> ks ! j" if "i \<le> j" "j < length ks" for i j
    using that sorted_nth_mono [OF ssorted_sorted [OF assms(1)]] by blast
  show ?case
  proof (cases "low < high")
    case True
    define m where "m = low + (high - low) div 2"
    have m: "low \<le> m" "m < high" using True by (auto simp: m_def)
    have ml: "m < length ks" using m(2) less.prems(1) by simp
    have unfold: "search key_at key low high = (if ks ! m < key then search key_at key (m + 1) high
        else if ks ! m = key then Some (Some m) else search key_at key low m)"
      using True assms(3) [OF ml] by (subst search.simps) (simp add: m_def Let_def)
    consider (lt) "ks ! m < key" | (eq) "ks ! m = key" | (gt) "key < ks ! m" by (metis linorder_cases)
    then show ?thesis
    proof cases
      case lt
      have "search key_at key (m + 1) high = Some (position_of key ks)"
        by (rule less.hyps) (use m less.prems(1,3) mono [OF _ ml] lt in \<open>auto intro: le_less_trans simp: less_Suc_eq_le\<close>)
      then show ?thesis using unfold lt by simp
    next
      case eq
      then show ?thesis using unfold ml position_Some [OF ssorted_distinct [OF assms(1)], of key m] by simp
    next
      case gt
      have "search key_at key low m = Some (position_of key ks)"
        by (rule less.hyps) (use m less.prems(2) ml mono [of m] gt in \<open>auto intro: less_le_trans\<close>)
      moreover have "\<not> ks ! m < key" "ks ! m \<noteq> key" using gt by auto
      ultimately show ?thesis using unfold by simp
    qed
  next
    case False
    have "ks ! i \<noteq> key" if "i < length ks" for i
      using less.prems(2) [of i] less.prems(3) [of i] that False by (cases "i < low") auto
    then have "position_of key ks = None" by (auto simp: position_None in_set_conv_nth)
    then show ?thesis using False by (subst search.simps) simp
  qed
qed

lemma search_all:
  fixes ks :: "'k::linorder list"
  assumes "ssorted ks" "\<And>i. i < length ks \<Longrightarrow> key_at i = Some (ks ! i)"
  shows "search key_at key 0 (length ks) = Some (position_of key ks)"
  by (rule search_exact [OF assms(1) _ assms(2)]) auto

section \<open>The doubling bracket\<close>

lemma bracket_up_exact:
  assumes "ssorted ks" "\<And>i. i < length ks \<Longrightarrow> id_at i = Some (ks ! i)" "\<forall>i < low. ks ! i < x" "low \<le> length ks"
  shows "\<exists>lo hi. bracket_up id_at x (length ks) guess low e = Some (lo, hi) \<and> hi \<le> length ks \<and>
    (\<forall>i < lo. ks ! i < x) \<and> (\<forall>i. hi \<le> i \<and> i < length ks \<longrightarrow> x < ks ! i) \<and> lo \<le> length ks"
  using assms(3,4)
proof (induction "length ks - (guess + 2 ^ e)" arbitrary: low e rule: less_induct)
  case less
  let ?p = "guess + 2 ^ e"
  show ?case
  proof (cases "?p \<ge> length ks")
    case True
    then show ?thesis using less.prems by (subst bracket_up.simps) auto
  next
    case False
    then have p: "id_at ?p = Some (ks ! ?p)" using assms(2) by simp
    show ?thesis
    proof (cases "ks ! ?p \<ge> x")
      case True
      have "x < ks ! i" if "Suc ?p \<le> i" "i < length ks" for i
        using that sorted_wrt_nth_less [OF assms(1), of ?p i] True by (auto intro: le_less_trans)
      then show ?thesis using False p True less.prems by (subst bracket_up.simps) (auto simp: Let_def)
    next
      case lt: False
      have "\<forall>i < ?p + 1. ks ! i < x"
        using sorted_nth_mono [OF ssorted_sorted [OF assms(1)], of _ ?p] lt False by (auto simp: less_Suc_eq_le not_le intro: le_less_trans)
      moreover have "?p < guess + 2 ^ Suc e" by simp
      then have "length ks - (guess + 2 ^ Suc e) < length ks - ?p" using False by (intro diff_less_mono2) auto
      ultimately show ?thesis
        using less.hyps [of "Suc e" "?p + 1"] False p lt by (subst bracket_up.simps) (auto simp: Let_def)
    qed
  qed
qed

lemma bracket_down_exact:
  assumes "ssorted ks" "\<And>i. i < length ks \<Longrightarrow> id_at i = Some (ks ! i)" "\<forall>i. high \<le> i \<and> i < length ks \<longrightarrow> x < ks ! i"
    "guess < length ks" "high \<le> length ks"
  shows "\<exists>lo hi. bracket_down id_at x guess high e = Some (lo, hi) \<and> hi \<le> length ks \<and>
    (\<forall>i < lo. ks ! i < x) \<and> (\<forall>i. hi \<le> i \<and> i < length ks \<longrightarrow> x < ks ! i) \<and> lo \<le> length ks"
  using assms(3,5)
proof (induction "Suc guess - 2 ^ e" arbitrary: high e rule: less_induct)
  case less
  let ?p = "guess - 2 ^ e"
  show ?case
  proof (cases "guess < 2 ^ e")
    case True
    then show ?thesis using less.prems by (subst bracket_down.simps) auto
  next
    case False
    have pl: "?p < length ks" using assms(4) by simp
    then have p: "id_at ?p = Some (ks ! ?p)" using assms(2) by simp
    show ?thesis
    proof (cases "ks ! ?p \<le> x")
      case True
      have "ks ! i < x" if "i < ?p" for i
        using that sorted_wrt_nth_less [OF assms(1), of i ?p] pl True by (auto intro: less_le_trans)
      then show ?thesis using False p True less.prems pl by (subst bracket_down.simps) (auto simp: Let_def)
    next
      case gt: False
      have "\<forall>i. ?p \<le> i \<and> i < length ks \<longrightarrow> x < ks ! i"
        using sorted_nth_mono [OF ssorted_sorted [OF assms(1)], of ?p] gt by (auto simp: not_le intro: less_le_trans)
      moreover have "(2::nat) ^ e < 2 ^ Suc e" by simp
      then have "Suc guess - 2 ^ Suc e < Suc guess - 2 ^ e" using False by (intro diff_less_mono2) auto
      ultimately show ?thesis
        using less.hyps [of "Suc e" ?p] False p gt pl by (subst bracket_down.simps) (auto simp: Let_def)
    qed
  qed
qed

section \<open>Shared tables\<close>

definition shared_ok :: "SharedTerms \<Rightarrow> rstr list \<Rightarrow> u32 list \<Rightarrow> u32 list \<Rightarrow> bool" where
  "shared_ok t words ids fs \<longleftrightarrow>
     words_at (sd_text (arc_get (sh_dictionary t))) (sd_starts (arc_get (sh_dictionary t))) words \<and> ssorted words \<and>
     length words < 2 ^ 32 \<and> ids \<noteq> [] \<and> ssorted ids \<and> (\<forall>i \<in> set ids. unat i < length words) \<and> length fs = length ids \<and>
     sh_bits t \<le> 64 \<and> holds (sh_bits t) (sh_ids t) (map ucast ids) \<and> sh_frequencies t = narrow_from fs"

lemma ucast_less: "(ucast (a :: u32) :: u64) < ucast b \<longleftrightarrow> a < b"
  by (simp add: word_less_nat_alt unat_of_u32)

lemma ucast_inj: "(ucast (a :: u32) :: u64) = ucast b \<longleftrightarrow> a = b"
  by (metis ucast_less linorder_neq_iff)

lemma ssorted_ucast: "ssorted ids \<Longrightarrow> ssorted (map (ucast :: u32 \<Rightarrow> u64) ids)"
  by (simp add: sorted_wrt_map ucast_less)

lemma shared_id_at:
  assumes "shared_ok t words ids fs" "i < length ids"
  shows "shared_id t i = Some (map ucast ids ! i)"
  using assms unpack_holds [of "sh_bits t" "sh_ids t" "map ucast ids" i] by (simp add: shared_ok_def shared_id_def)

lemma shared_key_at:
  assumes "shared_ok t words ids fs" "i < length ids"
  shows "shared_key t i = Some (map (\<lambda>i. words ! unat i) ids ! i)"
proof -
  have "unat (ids ! i) < length words" using assms by (simp add: shared_ok_def)
  then show ?thesis
    using assms(1) shared_id_at [OF assms] assms(2)
    by (simp add: shared_key_def dictionary_term_def term_at_words shared_ok_def unat_of_u32)
qed

lemma shared_keys_sorted:
  assumes "shared_ok t words ids fs"
  shows "ssorted (map (\<lambda>i. words ! unat i) ids)"
proof -
  have "words ! unat a < words ! unat b" if "a \<in> set ids" "b \<in> set ids" "a < b" for a b
    using assms that sorted_wrt_nth_less [of "(<)" words "unat a" "unat b"] by (auto simp: shared_ok_def word_less_nat_alt)
  moreover have "ssorted ids" using assms by (simp add: shared_ok_def)
  ultimately show ?thesis by (auto simp: sorted_wrt_map intro: sorted_wrt_mono_rel)
qed

lemma shared_index_exact:
  assumes "shared_ok t words ids fs"
  shows "shared_index t key = Some (position_of key (map (\<lambda>i. words ! unat i) ids))"
  using search_all [OF shared_keys_sorted [OF assms], of "shared_key t"] shared_key_at [OF assms] assms
  by (simp add: shared_index_def shared_ok_def)

lemma dictionary_find_exact:
  assumes "words_at (sd_text d) (sd_starts d) words" "ssorted words" "length words < 2 ^ 32"
  shows "dictionary_find d key = Some (map_option of_nat (position_of key words))"
proof -
  have "search (dictionary_term d) key 0 (length words) = Some (position_of key words)"
    by (rule search_all [OF assms(2)]) (simp add: dictionary_term_def term_at_words [OF assms(1)])
  moreover have "dictionary_len d = length words" using assms(1) by (simp add: dictionary_len_def words_at_def)
  moreover have "position_of key words = Some i \<Longrightarrow> i < 2 ^ 32" for i
    using assms(3) position_Some [OF ssorted_distinct [OF assms(2)], of key i] by simp
  ultimately show ?thesis by (auto simp: dictionary_find_def split: option.split)
qed

lemma bracket_exact:
  assumes ok: "shared_ok t words ids fs"
  defines "ks \<equiv> map (ucast :: u32 \<Rightarrow> u64) ids"
  shows "bracket t x = Some None \<and> x \<notin> set ks \<or>
    (\<exists>lo hi. bracket t x = Some (Some (lo, hi)) \<and> hi \<le> length ks \<and> (\<forall>i < lo. ks ! i < x) \<and>
      (\<forall>i. hi \<le> i \<and> i < length ks \<longrightarrow> x < ks ! i))"
proof -
  let ?n = "length ks"
  have sk: "ssorted ks" using ok by (simp add: ks_def shared_ok_def ssorted_ucast)
  have at: "\<And>i. i < ?n \<Longrightarrow> shared_id t i = Some (ks ! i)" using shared_id_at [OF ok] by (simp add: ks_def)
  have n: "narrow_len (sh_frequencies t) = ?n" "0 < ?n" using ok by (auto simp: shared_ok_def ks_def)
  have mono: "ks ! i \<le> ks ! j" if "i \<le> j" "j < ?n" for i j
    using that sorted_nth_mono [OF ssorted_sorted [OF sk]] by blast
  show ?thesis
  proof (cases "x < ks ! 0 \<or> x > ks ! (?n - 1)")
    case True
    have "x \<notin> set ks"
    proof
      assume "x \<in> set ks"
      then obtain i where "i < ?n" "ks ! i = x" by (auto simp: in_set_conv_nth)
      moreover have "ks ! i \<le> ks ! (?n - 1)" using \<open>i < ?n\<close> by (intro mono) auto
      ultimately show False using True mono [of 0 i] by auto
    qed
    then show ?thesis using True n at [of 0] at [of "?n - 1"] by (simp add: bracket_def)
  next
    case False
    define g where "g = interpolate (ks ! 0) (ks ! (?n - 1)) x ?n"
    have g: "g < ?n"
    proof (cases "ks ! (?n - 1) = ks ! 0")
      case True
      then show ?thesis using n(2) by (simp add: g_def interpolate_def)
    next
      case ne: False
      have "x - ks ! 0 \<le> ks ! (?n - 1) - ks ! 0" using False
        by (simp add: word_le_nat_alt word_less_nat_alt unat_sub_if' diff_le_mono not_less)
      then have "unat (x - ks ! 0) \<le> unat (ks ! (?n - 1) - ks ! 0)" by (simp add: word_le_nat_alt)
      then have "g \<le> unat (ks ! (?n - 1) - ks ! 0) * (?n - 1) div unat (ks ! (?n - 1) - ks ! 0)"
        unfolding g_def interpolate_def if_not_P [OF ne] by (intro div_le_mono mult_le_mono1)
      also have "\<dots> = ?n - 1" using ne by (simp add: unat_eq_zero)
      finally show ?thesis using n(2) by linarith
    qed
    have b: "bracket t x = (if ks ! g = x then Some (Some (g, g + 1))
        else if ks ! g < x then map_option Some (bracket_up (shared_id t) x ?n g (g + 1) 0)
        else map_option Some (bracket_down (shared_id t) x g g 0))"
    proof -
      have a0: "shared_id t 0 = Some (ks ! 0)" and an: "shared_id t (?n - 1) = Some (ks ! (?n - 1))" using n(2) by (auto intro: at)
      show ?thesis
        unfolding bracket_def Let_def n(1) a0 option.case an g_def [symmetric] at [OF g] using False n(2) by simp
    qed
    consider (eq) "ks ! g = x" | (lt) "ks ! g < x" | (gt) "x < ks ! g" by (metis linorder_cases)
    then show ?thesis
    proof cases
      case eq
      have "\<forall>i < g. ks ! i < x" "\<forall>i. g + 1 \<le> i \<and> i < ?n \<longrightarrow> x < ks ! i"
        using eq g sorted_wrt_nth_less [OF sk] by auto
      then show ?thesis using b eq g by auto
    next
      case lt
      have "\<forall>i < g + 1. ks ! i < x" using lt mono [OF _ g] by (auto simp: less_Suc_eq_le intro: le_less_trans)
      then show ?thesis using bracket_up_exact [OF sk at, of "g + 1" x g 0] b lt g by auto
    next
      case gt
      have "\<forall>i. g \<le> i \<and> i < ?n \<longrightarrow> x < ks ! i" using gt mono by (auto intro: less_le_trans)
      moreover have "\<not> ks ! g < x" "ks ! g \<noteq> x" using gt by auto
      ultimately show ?thesis using bracket_down_exact [OF sk at, of g x g 0] b g by auto
    qed
  qed
qed

lemma shared_index_cached_exact:
  assumes ok: "shared_ok t words ids fs"
    and cache: "\<And>d i. cache = Some (d, i) \<Longrightarrow> arc_ptr d = arc_ptr (sh_dictionary t) \<Longrightarrow>
      dictionary_find (arc_get (sh_dictionary t)) key = Some i"
  shows "\<exists>cache'. shared_index_cached t key cache = Some (position_of key (map (\<lambda>i. words ! unat i) ids), cache') \<and>
    (cache' = cache \<or> (\<exists>i. cache' = Some (sh_dictionary t, i) \<and> dictionary_find (arc_get (sh_dictionary t)) key = Some i))"
proof -
  let ?d = "arc_get (sh_dictionary t)" and ?ks = "map (\<lambda>i. words ! unat i) ids" and ?us = "map (ucast :: u32 \<Rightarrow> u64) ids"
  have w: "words_at (sd_text ?d) (sd_starts ?d) words" "ssorted words" "length words < 2 ^ 32" "ssorted ids"
    "\<forall>i \<in> set ids. unat i < length words"
    using ok by (auto simp: shared_ok_def)
  note f = dictionary_find_exact [OF w(1,2,3), of key]
  obtain c where c: "c = cache \<or> c = Some (sh_dictionary t, map_option of_nat (position_of key words))"
    and r: "cached_id t key cache = Some (map_option of_nat (position_of key words), c)"
  proof (cases cache)
    case None
    then show ?thesis using f by (intro that) (auto simp: cached_id_def)
  next
    case (Some di)
    obtain d i where di: "di = (d, i)" by (cases di)
    show ?thesis
    proof (cases "arc_ptr d = arc_ptr (sh_dictionary t)")
      case True
      then have "i = map_option of_nat (position_of key words)" using cache [of d i] Some di f by simp
      then show ?thesis using True Some di by (intro that [of cache]) (auto simp: cached_id_def)
    next
      case False
      then show ?thesis using Some di f by (intro that [OF disjI2 [OF refl]]) (auto simp: cached_id_def)
    qed
  qed
  have "shared_index_cached t key cache = Some (position_of key ?ks, c)"
  proof (cases "position_of key words")
    case None
    then have "key \<notin> set ?ks" using w(5) by (auto simp: position_None)
    then have "position_of key ?ks = None" using position_None [of key ?ks] by blast
    then show ?thesis using r None by (simp add: shared_index_cached_def)
  next
    case (Some k)
    then have k: "k < length words" "words ! k = key" using position_Some [OF ssorted_distinct [OF w(2)]] by auto
    then have uk: "unat (of_nat k :: u32) = k" using w(3) by (simp add: unsigned_of_nat take_bit_nat_eq_self)
    have pos: "position_of key ?ks = position_of (ucast (of_nat k :: u32)) ?us"
    proof -
      have "position_of (words ! unat (of_nat k :: u32)) ?ks = position_of (of_nat k :: u32) ids"
      proof (rule position_map)
        show "inj_on (\<lambda>i. words ! unat i) (insert (of_nat k :: u32) (set ids))"
          using w(5) k(1) uk ssorted_distinct [OF w(2)] by (auto simp: inj_on_def nth_eq_iff_index_eq dest: unsigned_word_eqI)
      qed
      moreover have "position_of (ucast (of_nat k :: u32)) ?us = position_of (of_nat k) ids"
        by (rule position_map) (simp add: inj_on_def ucast_inj)
      ultimately show ?thesis by (simp add: uk k(2))
    qed
    have sk: "ssorted ?us" by (rule ssorted_ucast [OF w(4)])
    have at: "\<And>i. i < length ?us \<Longrightarrow> shared_id t i = Some (?us ! i)" using shared_id_at [OF ok] by simp
    from bracket_exact [OF ok, of "ucast (of_nat k :: u32)"]
    show ?thesis
    proof (elim disjE exE conjE)
      assume "bracket t (ucast (of_nat k :: u32)) = Some None" "ucast (of_nat k :: u32) \<notin> set ?us"
      then show ?thesis using r Some pos position_None [of "ucast (of_nat k :: u32)" ?us]
        by (simp add: shared_index_cached_def)
    next
      fix lo hi
      assume b: "bracket t (ucast (of_nat k :: u32)) = Some (Some (lo, hi))" "hi \<le> length ?us"
        "\<forall>i < lo. ?us ! i < ucast (of_nat k :: u32)" "\<forall>i. hi \<le> i \<and> i < length ?us \<longrightarrow> ucast (of_nat k :: u32) < ?us ! i"
      have "search (shared_id t) (ucast (of_nat k :: u32)) lo hi = Some (position_of (ucast (of_nat k :: u32)) ?us)"
        by (rule search_exact [OF sk b(2) at]) (use b(3,4) in auto)
      then show ?thesis using r Some pos b(1) by (simp add: shared_index_cached_def)
    qed
  qed
  then show ?thesis using c f by auto
qed

section \<open>What a table holds\<close>

text \<open>The table \<open>s\<close> stands for the entries \<open>es\<close>, in the order of their keys.\<close>

definition table_of :: "StoredTerms \<Rightarrow> (rstr \<times> u32) list \<Rightarrow> bool" where
  "table_of s es \<longleftrightarrow> ssorted (map fst es) \<and>
     (case st_terms s of
        None \<Rightarrow> es = []
      | Some (Tree t) \<Rightarrow> t = es
      | Some (Packed t) \<Rightarrow> words_at (pt_text t) (pt_starts t) (map fst es) \<and> pt_frequencies t = map snd es
      | Some (Shared t) \<Rightarrow> (\<exists>words ids fs. shared_ok t words ids fs \<and> es = zip (map (\<lambda>i. words ! unat i) ids) fs))"

lemma position_map_of:
  "distinct (map fst es) \<Longrightarrow> map_of es k = map_option (\<lambda>i. snd (es ! i)) (position_of k (map fst es))"
  by (induction es) (auto simp: option.map_comp comp_def)

lemma position_less: "position_of k xs = Some i \<Longrightarrow> i < length xs"
  by (induction xs arbitrary: i) (auto split: if_splits)

lemma packed_key_at: "words_at (pt_text t) (pt_starts t) ws \<Longrightarrow> i < length ws \<Longrightarrow> packed_key t i = Some (ws ! i)"
  by (simp add: packed_key_def term_at_words)

lemma shared_zip:
  assumes "shared_ok t words ids fs"
  shows "map fst (zip (map (\<lambda>i. words ! unat i) ids) fs) = map (\<lambda>i. words ! unat i) ids"
    "map snd (zip (map (\<lambda>i. words ! unat i) ids) fs) = fs"
  using assms by (simp_all add: shared_ok_def)

lemma table_len: "table_of s es \<Longrightarrow> terms_len s = length es"
  by (auto simp: table_of_def terms_len_def words_at_def shared_ok_def split: option.splits TermData.splits)

lemma table_index: "table_of s es \<Longrightarrow> terms_index s key = Some (position_of key (map fst es))"
proof -
  assume t: "table_of s es"
  then have d: "ssorted (map fst es)" by (simp add: table_of_def)
  have p: "search (packed_key p) key 0 (length (pt_starts p)) = Some (position_of key (map fst es))"
    if "words_at (pt_text p) (pt_starts p) (map fst es)" for p
    using search_all [OF d, of "packed_key p" key] packed_key_at [OF that] that by (simp add: words_at_def)
  show ?thesis using t p shared_index_exact
    by (auto simp: table_of_def terms_index_def shared_zip split: option.splits TermData.splits)
qed

lemma table_get: "table_of s es \<Longrightarrow> terms_get s key = Some (map_of es key)"
proof -
  assume t: "table_of s es"
  then have d: "ssorted (map fst es)" by (simp add: table_of_def)
  note m = position_map_of [OF ssorted_distinct [OF d], of key]
  have pl: "position_of key (map fst es) = Some i \<Longrightarrow> i < length es" for i using position_less by fastforce
  show ?thesis
  proof (cases "st_terms s")
    case None
    then show ?thesis using t by (simp add: table_of_def terms_get_def)
  next
    case (Some td)
    show ?thesis
    proof (cases td)
      case (Packed p)
      then have w: "words_at (pt_text p) (pt_starts p) (map fst es)" "pt_frequencies p = map snd es"
        using t Some by (auto simp: table_of_def)
      have "search (packed_key p) key 0 (length es) = Some (position_of key (map fst es))"
        using search_all [OF d, of "packed_key p" key] packed_key_at [OF w(1)] by simp
      then show ?thesis using Some Packed w(2) m pl
        by (auto simp: terms_get_def packed_get_def slice_get_def split: option.split)
    next
      case (Shared p)
      then obtain words ids fs where k: "shared_ok p words ids fs" "es = zip (map (\<lambda>i. words ! unat i) ids) fs"
        using t Some by (auto simp: table_of_def)
      have "snd (es ! i) = fs ! i" if "i < length fs" for i using that k by (simp add: shared_ok_def)
      moreover have "length es = length fs" "sh_frequencies p = narrow_from fs" using k by (auto simp: shared_ok_def)
      ultimately show ?thesis
        using Some Shared m pl shared_index_exact [OF k(1), of key] shared_zip(1) [OF k(1)] k(2)
        by (auto simp: terms_get_def slice_get_def split: option.split)
    next
      case (Tree p)
      then show ?thesis using t Some by (simp add: table_of_def terms_get_def)
    qed
  qed
qed

lemma table_iter: "table_of s es \<Longrightarrow> terms_iter s = Some es"
proof -
  assume t: "table_of s es"
  show ?thesis
  proof (cases "st_terms s")
    case None
    then show ?thesis using t by (simp add: table_of_def terms_iter_def)
  next
    case (Some td)
    show ?thesis
    proof (cases td)
      case (Packed p)
      then have w: "words_at (pt_text p) (pt_starts p) (map fst es)" "pt_frequencies p = map snd es"
        using t Some by (auto simp: table_of_def)
      have "those (map (\<lambda>i. case (packed_key p i, slice_get (pt_frequencies p) i) of
          (Some k, Some f) \<Rightarrow> Some (k, f) | _ \<Rightarrow> None) [0..<length es]) = Some (map ((!) es) [0..<length es])"
        by (rule those_map_eqI) (simp add: packed_key_at [OF w(1)] w(2) slice_get_def)
      then show ?thesis using Some Packed w(2) by (simp add: terms_iter_def map_nth)
    next
      case (Shared p)
      then obtain words ids fs where k: "shared_ok p words ids fs" "es = zip (map (\<lambda>i. words ! unat i) ids) fs"
        using t Some by (auto simp: table_of_def)
      have f: "sh_frequencies p = narrow_from fs" "length fs = length ids" "length es = length ids"
        using k by (auto simp: shared_ok_def)
      have "those (map (\<lambda>i. case (shared_key p i, narrow_get (sh_frequencies p) i) of
          (Some k, Some f) \<Rightarrow> Some (k, f) | _ \<Rightarrow> None) [0..<length es]) = Some (map ((!) es) [0..<length es])"
        by (rule those_map_eqI) (simp add: shared_key_at [OF k(1)] f k(2) slice_get_def)
      then show ?thesis using Some Shared f map_nth [of es] by (simp add: terms_iter_def)
    next
      case (Tree p)
      then show ?thesis using t Some by (simp add: table_of_def terms_iter_def)
    qed
  qed
qed

lemma table_frequency: "table_of s es \<Longrightarrow> i < length es \<Longrightarrow> frequency_at s i = Some (snd (es ! i))"
  by (auto simp: table_of_def frequency_at_def slice_get_def shared_ok_def split: option.splits TermData.splits)

lemma table_index_cached:
  assumes "table_of s es"
    and "\<And>t d i. st_terms s = Some (Shared t) \<Longrightarrow> cache = Some (d, i) \<Longrightarrow> arc_ptr d = arc_ptr (sh_dictionary t) \<Longrightarrow>
      dictionary_find (arc_get (sh_dictionary t)) key = Some i"
  shows "\<exists>cache'. terms_index_cached s key cache = Some (position_of key (map fst es), cache')"
proof (cases "\<exists>t. st_terms s = Some (Shared t)")
  case True
  then obtain t where t: "st_terms s = Some (Shared t)" by blast
  then obtain words ids fs where k: "shared_ok t words ids fs" "es = zip (map (\<lambda>i. words ! unat i) ids) fs"
    using assms(1) by (auto simp: table_of_def)
  show ?thesis
    using shared_index_cached_exact [OF k(1), of cache key] assms(2) [OF t] k(2) t
    by (auto simp: terms_index_cached_def shared_zip(1) [OF k(1)])
next
  case False
  then have "terms_index_cached s key cache = map_option (\<lambda>r. (r, cache)) (terms_index s key)"
    by (auto simp: terms_index_cached_def split: option.splits TermData.splits)
  then show ?thesis using table_index [OF assms(1)] by simp
qed

subsection \<open>The tables that are built\<close>

lemma pack_entries_table:
  assumes "ssorted (map fst es)" "\<forall>k \<in> set (map fst es). utf8_valid k" "pack_entries es = Some s"
  shows "table_of s es"
  using assms push_words_at [of "map fst es"] by (auto simp: pack_entries_def table_of_def)

lemma from_sorted_table:
  assumes "ssorted (map fst es)" "\<forall>k \<in> set (map fst es). utf8_valid k" "from_sorted es = Some s"
  shows "table_of s es"
  using assms pack_entries_table [OF assms(1,2)]
  by (auto simp: from_sorted_def terms_default_def table_of_def Let_def split: if_splits)

lemma bit_width_bound: "n < 2 ^ bit_width n"
  by (induction n rule: bit_width.induct) (subst bit_width.simps, auto)

lemma bit_width_le: "n < 2 ^ k \<Longrightarrow> bit_width n \<le> k"
proof (induction k arbitrary: n)
  case (Suc k)
  then show ?case using Suc.IH [of "n div 2"] by (subst bit_width.simps) auto
qed (simp add: bit_width.simps)

lemma ssorted_le_last: "ssorted xs \<Longrightarrow> x \<in> set xs \<Longrightarrow> (x :: 'a::linorder) \<le> last xs"
  by (induction xs) (auto simp: less_imp_le)

lemma from_dictionary_table:
  assumes "dictionary_new words = Some d" "ssorted words" "\<forall>w \<in> set words. utf8_valid w" "length words < 2 ^ 32"
    "ssorted ids" "\<forall>i \<in> set ids. unat i < length words" "from_dictionary (Arc a d) ids fs = Some s"
  shows "table_of s (zip (map (\<lambda>i. words ! unat i) ids) fs) \<and> length ids = length fs"
proof (cases "ids = []")
  case True
  then show ?thesis using assms(7) by (auto simp: from_dictionary_def terms_default_def table_of_def split: if_splits)
next
  case False
  define bits where "bits = bit_width (unat (last ids))"
  define t where "t = \<lparr>sh_dictionary = Arc a d, sh_ids = pack (map ucast ids) bits, sh_bits = bits, sh_frequencies = narrow_from fs\<rparr>"
  have s: "s = \<lparr>st_terms = Some (Shared t), st_positions = None\<rparr>" and l: "length ids = length fs"
    using assms(7) False by (auto simp: from_dictionary_def Let_def t_def bits_def split: if_splits)
  have "bits \<le> 32" unfolding bits_def using unat_u32_bound [of "last ids"] by (intro bit_width_le) simp
  moreover have "narrow bits (ucast i)" if "i \<in> set ids" for i
  proof -
    have "unat i \<le> unat (last ids)" using ssorted_le_last [OF assms(5) that] by (simp add: word_le_nat_alt)
    also have "\<dots> < 2 ^ bits" unfolding bits_def by (rule bit_width_bound)
    finally show ?thesis by (simp add: narrow_def unat_of_u32)
  qed
  ultimately have h: "holds bits (pack (map ucast ids) bits) (map ucast ids)" "bits \<le> 64"
    using holds_pack [of bits "map ucast ids"] by auto
  have "words_at (sd_text d) (sd_starts d) words"
    using assms(1,3) push_words_at [of words] by (auto simp: dictionary_new_def)
  then have ok: "shared_ok t words ids fs" using assms False h l by (simp add: shared_ok_def t_def)
  then show ?thesis
    using l shared_keys_sorted [OF ok] shared_zip(1) [OF ok] unfolding table_of_def s by auto
qed

section \<open>The property\<close>

definition is_table :: "StoredTerms \<Rightarrow> (rstr \<times> u32) list \<Rightarrow> bool" where
  "is_table s es \<longleftrightarrow> from_sorted es = Some s \<or>
     (\<exists>words d a ids. dictionary_new words = Some d \<and> ssorted words \<and> (\<forall>w \<in> set words. utf8_valid w) \<and>
        length words < 2 ^ 32 \<and> ssorted ids \<and> (\<forall>i \<in> set ids. unat i < length words) \<and>
        from_dictionary (Arc a d) ids (map snd es) = Some s \<and> map fst es = map (\<lambda>i. words ! unat i) ids)"

lemma is_table_of:
  assumes "ssorted (map fst es)" "\<forall>k \<in> set (map fst es). utf8_valid k" "is_table s es"
  shows "table_of s es"
  using assms(3) unfolding is_table_def
proof (elim disjE exE conjE)
  fix words d a ids
  assume "dictionary_new words = Some d" "ssorted words" "\<forall>w \<in> set words. utf8_valid w" "length words < 2 ^ 32"
    "ssorted ids" "\<forall>i \<in> set ids. unat i < length words" "from_dictionary (Arc a d) ids (map snd es) = Some s"
    and k: "map fst es = map (\<lambda>i. words ! unat i) ids"
  then have "table_of s (zip (map (\<lambda>i. words ! unat i) ids) (map snd es))" using from_dictionary_table by blast
  then show ?thesis by (simp add: k [symmetric] zip_map_fst_snd)
qed (rule from_sorted_table [OF assms(1,2)])

text \<open>
  C13. The three forms of a term table are one map: whether the entries were packed, put in a tree or
  stored as ids of a shared dictionary, a lookup returns the frequency of exactly that key, the
  index search and the interpolating search over cached dictionary ids both return its position, the
  iterator lists the entries in key order, and no access panics.  A cached id is the id of the word in
  that dictionary.
\<close>

theorem term_tables_agree:
  assumes "ssorted (map fst es)" "\<forall>k \<in> set (map fst es). utf8_valid k" "is_table s es"
    and "\<forall>t d i. st_terms s = Some (Shared t) \<and> cache = Some (d, i) \<and> arc_ptr d = arc_ptr (sh_dictionary t) \<longrightarrow>
      dictionary_find (arc_get (sh_dictionary t)) key = Some i"
  shows "terms_get s key = Some (map_of es key) \<and> terms_index s key = Some (position_of key (map fst es)) \<and>
    terms_iter s = Some es \<and> (\<exists>cache'. terms_index_cached s key cache = Some (position_of key (map fst es), cache')) \<and>
    (i < length es \<longrightarrow> frequency_at s i = Some (snd (es ! i)))"
proof -
  have t: "table_of s es" by (rule is_table_of [OF assms(1-3)])
  have "\<exists>cache'. terms_index_cached s key cache = Some (position_of key (map fst es), cache')"
    by (rule table_index_cached [OF t]) (use assms(4) in blast)
  then show ?thesis using table_get [OF t] table_index [OF t] table_iter [OF t] table_frequency [OF t] by simp
qed

theorem term_tables_agree_witness:
  "\<exists>s. is_table s [([97], 5), ([99], 7)] \<and> terms_get s [99] = Some (Some 7) \<and> terms_get s [98] = Some None"
proof -
  let ?es = "[([97], 5), ([99], 7)] :: (rstr \<times> u32) list"
  have v: "utf8_valid [b]" if "b < 0x80" for b using that by (subst utf8_valid.simps) simp
  have "\<exists>d. dictionary_new [[97], [98], [99]] = Some d" by (simp add: dictionary_new_def)
  then obtain d where d: "dictionary_new [[97], [98], [99]] = Some d" by blast
  have "\<exists>s. from_dictionary (Arc 3 d) [0, 2] (map snd ?es) = Some s" by (simp add: from_dictionary_def Let_def)
  then obtain s where s: "from_dictionary (Arc 3 d) [0, 2] (map snd ?es) = Some s" by blast
  have w: "\<forall>w \<in> set [[97], [98], [99]]. utf8_valid w" by (simp add: v)
  have t: "is_table s ?es"
    unfolding is_table_def
    by (rule disjI2, rule exI [of _ "[[97], [98], [99]]"], rule exI [of _ d], rule exI [of _ 3], rule exI [of _ "[0, 2]"])
      (use d s w in simp)
  have "terms_get s key = Some (map_of ?es key)" for key
    using term_tables_agree [of ?es s None key] t v by simp
  then have "terms_get s [99] = Some (Some 7)" "terms_get s [98] = Some None" by simp_all
  then show ?thesis using t by blast
qed

end
