(* ===== verification/TermPositions.thy ===== *)
theory TermPositions
  imports PackedTerms
begin

text \<open>
  \<open>src/core/documents/positions.rs\<close>: the positions of the terms of a chunk in its token sequence,
  stored as gaps of ascending positions, one run of bytes per term.  Splitting a text into words,
  lower-casing and stemming are parameters.  \<open>None\<close> and \<open>Panic\<close> stand for a panic.
\<close>

definition POSITIONS_VERSION :: u8 where "POSITIONS_VERSION = 1"
definition DOCUMENT_VERSION :: u8 where "DOCUMENT_VERSION = 2"
definition MAX_DOCUMENT_BYTES :: usize where "MAX_DOCUMENT_BYTES = 8 * 1024 * 1024"

section \<open>Building\<close>

definition tokens :: "('t \<Rightarrow> rstr list) \<Rightarrow> (rstr \<Rightarrow> rstr) \<Rightarrow> (rstr \<Rightarrow> rstr) \<Rightarrow> 't \<Rightarrow> bool \<Rightarrow> rstr list" where
  "tokens split_words to_lowercase stem_word txt stem =
     map (\<lambda>word. let lower = to_lowercase word in if stem then stem_word lower else lower)
       (filter (\<lambda>s. s \<noteq> []) (split_words txt))"

fun put_gaps :: "u32 \<Rightarrow> u32 list \<Rightarrow> u8 list" where
  "put_gaps previous [] = []"
| "put_gaps previous (p # ps) = put_varint (ucast (p - previous)) @ put_gaps p ps"

text \<open>The loop over the terms: the bytes of each run are appended, then the end offset is pushed.\<close>

fun put_runs :: "u32 list list \<Rightarrow> u32 list \<Rightarrow> u8 list \<Rightarrow> (u32 list \<times> u8 list) option" where
  "put_runs [] offs bytes = Some (offs, bytes)"
| "put_runs (ps # runs) offs bytes =
     (let bytes = bytes @ put_gaps 0 ps
      in if length bytes < 2 ^ 32 then put_runs runs (offs @ [of_nat (length bytes)]) bytes else None)"

definition positions_of_runs :: "bool \<Rightarrow> u32 list list \<Rightarrow> Positions option" where
  "positions_of_runs whole_document runs =
     map_option (\<lambda>(offs, bytes). \<lparr>version = if whole_document then DOCUMENT_VERSION else POSITIONS_VERSION,
       offsets = narrow_from offs, pos_data = bytes\<rparr>) (put_runs runs [0] [])"

definition count_step :: "u32 list option \<Rightarrow> u32 \<Rightarrow> u32 list option" where
  "count_step starts rank =
     (case starts of None \<Rightarrow> None
      | Some starts \<Rightarrow>
          if unat rank + 1 < length starts
          then Some (starts[unat rank + 1 := starts ! (unat rank + 1) + 1]) else None)"

fun running_totals :: "u32 \<Rightarrow> u32 list \<Rightarrow> u32 list" where
  "running_totals acc [] = []"
| "running_totals acc (x # xs) = (acc + x) # running_totals (acc + x) xs"

definition place_step :: "(u32 list \<times> u32 list) option \<Rightarrow> nat \<times> u32 \<Rightarrow> (u32 list \<times> u32 list) option" where
  "place_step st pr =
     (case (st, pr) of (None, _) \<Rightarrow> None
      | (Some (nexts, srt), (position, rank)) \<Rightarrow>
          if unat rank < length nexts \<and> unat (nexts ! unat rank) < length srt
          then Some (nexts[unat rank := nexts ! unat rank + 1], srt[unat (nexts ! unat rank) := of_nat position])
          else None)"

definition u32_slice :: "u32 list \<Rightarrow> u32 \<Rightarrow> u32 \<Rightarrow> u32 list option" where
  "u32_slice xs a b = (if unat a \<le> unat b \<and> unat b \<le> length xs then Some (take (unat b - unat a) (drop (unat a) xs)) else None)"

definition from_ranks :: "u32 list \<Rightarrow> nat \<Rightarrow> bool \<Rightarrow> Positions option" where
  "from_ranks ranks terms whole_document =
     (case foldl count_step (Some (replicate (terms + 1) 0)) ranks of
        None \<Rightarrow> None
      | Some counts \<Rightarrow>
          let starts = running_totals 0 counts
          in case foldl place_step (Some (starts, replicate (length ranks) 0)) (enumerate 0 ranks) of
               None \<Rightarrow> None
             | Some (_, srt) \<Rightarrow>
                 (case those (map (\<lambda>i. u32_slice srt (starts ! i) (starts ! (i + 1))) [0..<terms]) of
                    None \<Rightarrow> None
                  | Some runs \<Rightarrow> positions_of_runs whole_document runs))"

text \<open>\<open>from_text\<close>: a map from each token to its positions, then the runs of the keys of the table.\<close>

definition add_token :: "(rstr \<Rightarrow> u32 list option) \<Rightarrow> nat \<times> rstr \<Rightarrow> rstr \<Rightarrow> u32 list option" where
  "add_token table pt =
     (case pt of (position, token) \<Rightarrow>
        table(token \<mapsto> (case table token of None \<Rightarrow> [] | Some l \<Rightarrow> l) @ [of_nat position]))"

definition from_tokens :: "rstr list \<Rightarrow> rstr list \<Rightarrow> bool \<Rightarrow> Positions option" where
  "from_tokens toks keys whole_document =
     (case those (map (foldl add_token (\<lambda>_. None) (enumerate 0 toks)) keys) of
        None \<Rightarrow> None
      | Some runs \<Rightarrow> positions_of_runs whole_document runs)"

definition from_text :: "('t \<Rightarrow> rstr list) \<Rightarrow> (rstr \<Rightarrow> rstr) \<Rightarrow> (rstr \<Rightarrow> rstr) \<Rightarrow> 't \<Rightarrow> bool \<Rightarrow> StoredTerms \<Rightarrow> bool \<Rightarrow> Positions option" where
  "from_text split_words to_lowercase stem_word txt stem terms whole_document =
     (case terms_keys terms of
        None \<Rightarrow> None
      | Some keys \<Rightarrow> from_tokens (tokens split_words to_lowercase stem_word txt stem) keys whole_document)"

section \<open>Reading\<close>

definition pos_bytes :: "Positions \<Rightarrow> nat \<Rightarrow> u8 list option" where
  "pos_bytes p index =
     (case (narrow_get (offsets p) index, narrow_get (offsets p) (index + 1)) of
        (Some a, Some b) \<Rightarrow>
          if unat a \<le> unat b \<and> unat b \<le> length (pos_data p) then Some (sub_slice (pos_data p) (unat a) (unat b - unat a)) else None
      | _ \<Rightarrow> None)"

definition long_gap :: "u8 list \<Rightarrow> (u32 \<times> u8 list) option" where
  "long_gap bytes =
     (case varint (reader_new bytes) of
        Inl e \<Rightarrow> None
      | Inr (v, r) \<Rightarrow> (case u32_try_from v of None \<Rightarrow> None | Some gap \<Rightarrow> Some (gap, drop (at_pos r) bytes)))"

definition next_gap :: "u8 \<Rightarrow> u8 list \<Rightarrow> (u32 \<times> u8 list) option" where
  "next_gap first rest =
     (if first < 0x80 then Some (ucast first, rest)
      else case rest of
             second # tail \<Rightarrow>
               if second < 0x80 then Some (ucast (first AND 0x7f) OR push_bit 7 (ucast second), tail) else long_gap (first # rest)
           | [] \<Rightarrow> long_gap (first # rest))"

lemma read_byte_at:
  "read_byte \<lparr>data = bs, at_pos = p\<rparr> = (if p < length bs then Inr (bs ! p, \<lparr>data = bs, at_pos = p + 1\<rparr>) else Inl Truncated)"
proof (cases "p < length bs")
  case True
  then have "sub_slice bs p 1 = [bs ! p]" by (simp add: sub_slice_def take_Suc hd_drop_conv_nth)
  then show ?thesis using True by (simp add: read_byte_def rd_bind_def take_bytes_def remaining_def rd_ok_def)
qed (auto simp: read_byte_def rd_bind_def take_bytes_def remaining_def)

lemma varint_loop_at:
  "varint_loop (s # ss) v \<lparr>data = bs, at_pos = p\<rparr> =
     (if p < length bs then
        if s < 63 \<or> bs ! p \<le> 1 then
          if bs ! p AND 0x80 = 0 then Inr (v OR push_bit s (ucast (bs ! p AND 0x7f)), \<lparr>data = bs, at_pos = p + 1\<rparr>)
          else varint_loop ss (v OR push_bit s (ucast (bs ! p AND 0x7f))) \<lparr>data = bs, at_pos = p + 1\<rparr>
        else Inl VarintOverflow
      else Inl Truncated)"
  by (simp add: rd_bind_def read_byte_at rd_ensure_def rd_fail_def rd_ok_def Let_def)

lemma varint_loop_progress:
  assumes "varint_loop ss v \<lparr>data = bs, at_pos = p\<rparr> = Inr (x, r)"
  shows "\<exists>q. r = \<lparr>data = bs, at_pos = q\<rparr> \<and> p < q \<and> q \<le> length bs"
  using assms
proof (induction ss arbitrary: v p)
  case Nil
  then show ?case by (simp add: rd_fail_def)
next
  case (Cons s ss)
  then show ?case by (auto simp: varint_loop_at simp del: varint_loop.simps split: if_splits) fastforce+
qed

lemma varint_progress:
  "varint \<lparr>data = bs, at_pos = p\<rparr> = Inr (x, r) \<Longrightarrow> \<exists>q. r = \<lparr>data = bs, at_pos = q\<rparr> \<and> p < q \<and> q \<le> length bs"
  unfolding varint_def by (rule varint_loop_progress)

lemma long_gap_shorter: "long_gap bytes = Some (gap, rest) \<Longrightarrow> length rest < length bytes"
  using varint_progress [of bytes 0] by (auto simp: long_gap_def reader_new_def split: sum.splits option.splits)

lemma next_gap_shorter: "next_gap first rest = Some (gap, rest') \<Longrightarrow> length rest' \<le> length rest"
  using long_gap_shorter [of "first # rest" gap rest']
  by (auto simp: next_gap_def split: if_splits list.splits)

function iter_positions :: "u8 list \<Rightarrow> u32 \<Rightarrow> u32 list option" where
  "iter_positions [] position = Some []"
| "iter_positions (first # rest) position =
     (case next_gap first rest of
        None \<Rightarrow> None
      | Some (gap, bytes) \<Rightarrow> map_option ((#) (position + gap)) (iter_positions bytes (position + gap)))"
  by pat_completeness auto
termination
  by (relation "measure (\<lambda>(bytes, _). length bytes)") (auto dest: next_gap_shorter)

definition pos_iter :: "Positions \<Rightarrow> nat \<Rightarrow> u32 list option" where
  "pos_iter p index = (case pos_bytes p index of None \<Rightarrow> None | Some bytes \<Rightarrow> iter_positions bytes 0)"

section \<open>Validation\<close>

function term_positions :: "u8 list \<Rightarrow> nat \<Rightarrow> u32 option \<Rightarrow> nat \<Rightarrow> u32 option \<Rightarrow> codec_error + nat \<times> u32 option" where
  "term_positions bs p previous term_count maximum =
     (if p = length bs then Inr (term_count, maximum)
      else case varint \<lparr>data = bs, at_pos = p\<rparr> of
             Inl e \<Rightarrow> Inl e
           | Inr (v, r) \<Rightarrow>
               (case u32_try_from v of
                  None \<Rightarrow> Inl OutOfRange
                | Some gap \<Rightarrow>
                    if previous = None \<or> gap > 0 then
                      let base = (case previous of None \<Rightarrow> 0 | Some q \<Rightarrow> q)
                      in if unat base + unat gap < 2 ^ 32 then
                           if unat (base + gap) < MAX_DOCUMENT_BYTES then
                             term_positions bs (at_pos r) (Some (base + gap)) (term_count + 1)
                               (Some (case maximum of None \<Rightarrow> base + gap | Some m \<Rightarrow> max m (base + gap)))
                           else Inl (Malformed ''position exceeds document limit'')
                         else Inl (Malformed ''position overflows'')
                    else Inl (Malformed ''positions are not strictly ascending'')))"
  by pat_completeness auto
termination
  by (relation "measure (\<lambda>(bs, p, _). length bs - p)") (auto dest!: varint_progress)

declare term_positions.simps [simp del]

fun validate_terms :: "Positions \<Rightarrow> (rstr \<times> u32) list \<Rightarrow> nat \<Rightarrow> nat \<Rightarrow> u32 option \<Rightarrow> codec_error + nat \<times> u32 option" where
  "validate_terms p [] index n maximum = Inr (n, maximum)"
| "validate_terms p ((_, frequency) # es) index n maximum =
     (case pos_bytes p index of
        None \<Rightarrow> Inl Panic
      | Some bs \<Rightarrow>
          (case term_positions bs 0 None 0 maximum of
             Inl e \<Rightarrow> Inl e
           | Inr (term_count, maximum) \<Rightarrow>
               if term_count > 0 \<and> term_count \<le> unat frequency
               then validate_terms p es (index + 1) (n + term_count) maximum
               else Inl (Malformed ''position count exceeds term frequency'')))"

fun mark_positions :: "nat \<Rightarrow> u64 list \<Rightarrow> u32 list \<Rightarrow> codec_error + u64 list" where
  "mark_positions n seen [] = Inr seen"
| "mark_positions n seen (position # ps) =
     (if unat position < n then
        if unat position div 64 < length seen then
          let b = push_bit (unat position mod 64) 1
          in if seen ! (unat position div 64) AND b = 0
             then mark_positions n (seen[unat position div 64 := seen ! (unat position div 64) OR b]) ps
             else Inl (Malformed ''token position occurs in multiple terms'')
        else Inl Panic
      else Inl (Malformed ''position exceeds token count''))"

fun mark_terms :: "Positions \<Rightarrow> nat \<Rightarrow> u64 list \<Rightarrow> nat list \<Rightarrow> codec_error + unit" where
  "mark_terms p n seen [] = Inr ()"
| "mark_terms p n seen (index # rest) =
     (case pos_iter p index of
        None \<Rightarrow> Inl Panic
      | Some ps \<Rightarrow> (case mark_positions n seen ps of Inl e \<Rightarrow> Inl e | Inr seen \<Rightarrow> mark_terms p n seen rest))"

definition offsets_ok :: "Positions \<Rightarrow> nat \<Rightarrow> bool" where
  "offsets_ok p terms =
     (case narrow_iter (offsets p) of None \<Rightarrow> False
      | Some offs \<Rightarrow> length offs = terms + 1 \<and> hd offs = 0 \<and> unat (last offs) = length (pos_data p) \<and>
          list_all (\<lambda>(a, b). a < b) (zip offs (drop 1 offs)) \<and> length (pos_data p) \<le> MAX_DOCUMENT_BYTES)"

definition validate :: "Positions \<Rightarrow> (rstr \<times> u32) list \<Rightarrow> codec_error + unit" where
  "validate p es =
     (if version p \<in> {POSITIONS_VERSION, DOCUMENT_VERSION} then
        if offsets_ok p (length es) then
          (case validate_terms p es 0 0 None of
             Inl e \<Rightarrow> Inl e
           | Inr (n, maximum) \<Rightarrow>
               if n \<le> MAX_DOCUMENT_BYTES \<and> (case maximum of None \<Rightarrow> 0 | Some m \<Rightarrow> unat m + 1) = n
               then mark_terms p n (replicate ((n + 63) div 64) 0) [0..<length es]
               else Inl (Malformed ''positions do not cover the token sequence''))
        else Inl (Malformed ''invalid positional posting offsets or length'')
      else Inl (Malformed ''positional postings version is newer than supported''))"

section \<open>The two decoders agree\<close>

lemma byte_below_80:
  fixes b :: u8
  shows "b < 0x80 \<longleftrightarrow> \<not> bit b 7" "b AND 0x80 = 0 \<longleftrightarrow> \<not> bit b 7" "b < 0x80 \<Longrightarrow> b AND 0x7f = b"
proof -
  have "b < 0x80 \<longleftrightarrow> unat (take_bit 7 b) = unat b"
    by (simp add: word_less_nat_alt unsigned_take_bit_eq take_bit_nat_eq_self_iff)
  also have "\<dots> \<longleftrightarrow> take_bit 7 b = b" by (metis unsigned_word_eqI)
  also have "\<dots> \<longleftrightarrow> (\<forall>n. bit b n \<longrightarrow> n < 7)"
    by (metis bit_take_bit_iff bit_eqI)
  also have "\<dots> \<longleftrightarrow> \<not> bit b 7"
  proof -
    have "bit b n \<Longrightarrow> n < 8" for n using bit_imp_le_length [of b n] by simp
    then show ?thesis by (metis less_irrefl less_Suc_eq numeral_nat(7) eval_nat_numeral(2,3) semiring_norm(26,27,28))
  qed
  finally show a: "b < 0x80 \<longleftrightarrow> \<not> bit b 7" .
  have e: "bit (b AND 0x80) n \<longleftrightarrow> n = 7 \<and> bit b 7" for n by (simp only: bit_and_iff bit_0x80) blast
  show "b AND 0x80 = 0 \<longleftrightarrow> \<not> bit b 7"
  proof
    assume z: "b AND 0x80 = 0"
    show "\<not> bit b 7" using e [of 7] unfolding z by simp
  next
    assume "\<not> bit b 7"
    then show "b AND 0x80 = 0" by (intro bit_eqI) (simp only: e bit_0_eq bot_apply, simp)
  qed
  assume "b < 0x80"
  then have "unat (take_bit 7 b) = unat b"
    by (simp add: word_less_nat_alt unsigned_take_bit_eq take_bit_nat_eq_self_iff)
  then have "take_bit 7 b = b" by (rule unsigned_word_eqI)
  then show "b AND 0x7f = b" by (simp add: take_bit_eq_mask mask_eq_exp_minus_1)
qed

lemma varint_loop_shift:
  "varint_loop ss v \<lparr>data = bs, at_pos = p + q\<rparr> =
     (case varint_loop ss v \<lparr>data = drop p bs, at_pos = q\<rparr> of Inl e \<Rightarrow> Inl e
      | Inr (x, r) \<Rightarrow> Inr (x, \<lparr>data = bs, at_pos = p + at_pos r\<rparr>))"
proof (induction ss arbitrary: v q)
  case Nil
  then show ?case by (simp add: rd_fail_def)
next
  case (Cons s ss)
  have "p + q < length bs \<longleftrightarrow> q < length (drop p bs)" by auto
  then show ?case using Cons.IH [of _ "q + 1"]
    by (auto simp: varint_loop_at simp del: varint_loop.simps)
qed

lemma varint_shift:
  "varint \<lparr>data = bs, at_pos = p\<rparr> =
     (case varint (reader_new (drop p bs)) of Inl e \<Rightarrow> Inl e | Inr (x, r) \<Rightarrow> Inr (x, \<lparr>data = bs, at_pos = p + at_pos r\<rparr>))"
  using varint_loop_shift [of _ 0 bs p 0] by (simp add: varint_def reader_new_def)

lemma varint_at:
  "varint \<lparr>data = bs, at_pos = p\<rparr> =
     (if p < length bs then
        if bs ! p < 0x80 then Inr (ucast (bs ! p), \<lparr>data = bs, at_pos = p + 1\<rparr>)
        else varint_loop (map (\<lambda>k. 7 * k) [1..<10]) (ucast (bs ! p AND 0x7f)) \<lparr>data = bs, at_pos = p + 1\<rparr>
      else Inl Truncated)"
proof -
  have "[0..<10] = 0 # [1..<10]" by (simp add: upt_conv_Cons)
  then show ?thesis
    using byte_below_80 [of "bs ! p"] by (simp add: varint_def varint_loop_at del: varint_loop.simps upt_rec_numeral)
qed

lemma varint_loop_second:
  "varint_loop (map (\<lambda>k. 7 * k) [1..<10]) v \<lparr>data = bs, at_pos = p\<rparr> =
     (if p < length bs then
        if bs ! p < 0x80 then Inr (v OR push_bit 7 (ucast (bs ! p)), \<lparr>data = bs, at_pos = p + 1\<rparr>)
        else varint_loop (map (\<lambda>k. 7 * k) [2..<10]) (v OR push_bit 7 (ucast (bs ! p AND 0x7f))) \<lparr>data = bs, at_pos = p + 1\<rparr>
      else Inl Truncated)"
proof -
  have "[1..<10] = 1 # [2..<10]" by (simp add: upt_conv_Cons)
  then show ?thesis
    using byte_below_80 [of "bs ! p"] by (simp add: varint_loop_at del: varint_loop.simps upt_rec_numeral)
qed

lemma next_gap_agrees:
  assumes "p < length bs" "varint \<lparr>data = bs, at_pos = p\<rparr> = Inr (v, \<lparr>data = bs, at_pos = q\<rparr>)" "u32_try_from v = Some gap"
  shows "next_gap (bs ! p) (drop (p + 1) bs) = Some (gap, drop q bs)"
proof -
  have g: "gap = ucast v" using assms(3) by (auto simp: u32_try_from_def split: if_splits)
  consider (one) "bs ! p < 0x80" | (two) "\<not> bs ! p < 0x80" "p + 1 < length bs" "bs ! (p + 1) < 0x80"
    | (more) "\<not> bs ! p < 0x80" "\<not> (p + 1 < length bs \<and> bs ! (p + 1) < 0x80)"
    by blast
  then show ?thesis
  proof cases
    case one
    then have "v = ucast (bs ! p)" "q = p + 1" using assms(1,2) by (auto simp: varint_at)
    then show ?thesis using one g by (simp add: next_gap_def) (rule bit_eqI, auto simp: bit_ucast_iff)
  next
    case two
    have "v = ucast (bs ! p AND 0x7f) OR push_bit 7 (ucast (bs ! (p + 1)))" "q = p + 2"
      using two assms(1,2) [unfolded varint_at varint_loop_second] by simp_all
    moreover have "ucast (ucast (bs ! p AND 0x7f) OR push_bit 7 (ucast (bs ! (p + 1))) :: u64) =
        (ucast (bs ! p AND 0x7f) OR push_bit 7 (ucast (bs ! (p + 1))) :: u32)"
      by (rule bit_eqI) (auto simp: bit_or_iff bit_push_bit_iff bit_ucast_iff)
    moreover have "drop (p + 1) bs = bs ! (p + 1) # drop (p + 2) bs" using two(2) Cons_nth_drop_Suc [of "p + 1" bs] by simp
    ultimately show ?thesis using two g by (simp add: next_gap_def)
  next
    case more
    have d: "bs ! p # drop (p + 1) bs = drop p bs" using assms(1) Cons_nth_drop_Suc [of p bs] by simp
    obtain r where r: "varint (reader_new (drop p bs)) = Inr (v, r)" "q = p + at_pos r"
      using assms(2) varint_shift [of bs p] by (auto split: sum.splits)
    have "next_gap (bs ! p) (drop (p + 1) bs) = long_gap (drop p bs)"
    proof (cases "p + 1 < length bs")
      case True
      then have "drop (p + 1) bs = bs ! (p + 1) # drop (p + 2) bs" using Cons_nth_drop_Suc [of "p + 1" bs] by simp
      then show ?thesis using more True d by (simp add: next_gap_def)
    next
      case False
      then show ?thesis using more d by (simp add: next_gap_def)
    qed
    then show ?thesis using r assms(3) by (simp add: long_gap_def add.commute)
  qed
qed

section \<open>What validation accepts\<close>

definition max_fold :: "u32 option \<Rightarrow> u32 list \<Rightarrow> u32 option" where
  "max_fold = foldl (\<lambda>m x. Some (case m of None \<Rightarrow> x | Some y \<Rightarrow> max y x))"

abbreviation base_of :: "u32 option \<Rightarrow> u32" where
  "base_of previous \<equiv> (case previous of None \<Rightarrow> 0 | Some q \<Rightarrow> q)"

lemma term_positions_sound:
  assumes "p \<le> length bs" "term_positions bs p previous tc mx = Inr (n, mx')"
  shows "\<exists>ps. iter_positions (drop p bs) (base_of previous) = Some ps \<and> n = tc + length ps \<and> mx' = max_fold mx ps \<and>
    ssorted ps \<and> (\<forall>q. previous = Some q \<longrightarrow> (\<forall>x \<in> set ps. q < x)) \<and> (\<forall>x \<in> set ps. unat x < MAX_DOCUMENT_BYTES)"
  using assms
proof (induction bs p previous tc mx rule: term_positions.induct)
  case (1 bs p previous tc mx)
  show ?case
  proof (cases "p = length bs")
    case True
    then show ?thesis using "1.prems" by (subst (asm) term_positions.simps) (auto simp: max_fold_def)
  next
    case False
    let ?b = "base_of previous"
    obtain v r gap where v: "varint \<lparr>data = bs, at_pos = p\<rparr> = Inr (v, r)" "u32_try_from v = Some gap"
      "previous = None \<or> gap > 0" "unat ?b + unat gap < 2 ^ 32" "unat (?b + gap) < MAX_DOCUMENT_BYTES"
      and rec: "term_positions bs (at_pos r) (Some (?b + gap)) (tc + 1)
        (Some (case mx of None \<Rightarrow> ?b + gap | Some m \<Rightarrow> max m (?b + gap))) = Inr (n, mx')"
      using "1.prems"(2) False by (subst (asm) term_positions.simps) (auto simp: Let_def split: sum.splits option.splits if_splits)
    obtain q where q: "r = \<lparr>data = bs, at_pos = q\<rparr>" "p < q" "q \<le> length bs" using varint_progress [OF v(1)] by blast
    have ql: "at_pos r \<le> length bs" using q by simp
    obtain ps where ps: "iter_positions (drop q bs) (?b + gap) = Some ps" "n = tc + 1 + length ps"
      "mx' = max_fold (Some (case mx of None \<Rightarrow> ?b + gap | Some m \<Rightarrow> max m (?b + gap))) ps" "ssorted ps"
      "\<forall>x \<in> set ps. ?b + gap < x" "\<forall>x \<in> set ps. unat x < MAX_DOCUMENT_BYTES"
      using "1.IH" [OF False v(1) refl v(2,3) refl v(4,5) ql rec] q(1) by auto
    have "drop p bs = bs ! p # drop (p + 1) bs" using False "1.prems"(1) Cons_nth_drop_Suc [of p bs] by simp
    then have it: "iter_positions (drop p bs) ?b = Some ((?b + gap) # ps)"
      using next_gap_agrees [OF _ v(1) [unfolded q(1)] v(2)] False "1.prems"(1) ps(1) by simp
    have lt: "q' < ?b + gap" if "previous = Some q'" for q'
      using that v(3,4) by (auto simp: word_less_nat_alt unat_plus_if')
    show ?thesis
      by (rule exI [of _ "(?b + gap) # ps"]) (use it ps v(5) lt in \<open>auto simp: max_fold_def intro: less_trans\<close>)
  qed
qed

lemma term_positions_no_panic: "p \<le> length bs \<Longrightarrow> term_positions bs p previous tc mx \<noteq> Inl Panic"
proof (induction bs p previous tc mx rule: term_positions.induct)
  case (1 bs p previous tc mx)
  have "varint \<lparr>data = bs, at_pos = p\<rparr> \<noteq> Inl Panic"
    using safe_read.no_panic [OF safe_varint_loop "1.prems"] by (simp add: varint_def)
  moreover have "at_pos r \<le> length bs" if "varint \<lparr>data = bs, at_pos = p\<rparr> = Inr (v, r)" for v r
    using varint_progress [OF that] by auto
  ultimately show ?case
    using "1.IH" by (subst term_positions.simps) (auto simp: Let_def split: sum.split option.split)
qed

section \<open>The bit set of seen positions\<close>

definition seen_set :: "u64 list \<Rightarrow> nat set" where
  "seen_set seen = {k. k div 64 < length seen \<and> bit (seen ! (k div 64)) (k mod 64)}"

lemma seen_bit:
  assumes "k div 64 < length seen"
  shows "seen ! (k div 64) AND push_bit (k mod 64) 1 = 0 \<longleftrightarrow> k \<notin> seen_set seen"
    "seen_set (seen[k div 64 := seen ! (k div 64) OR push_bit (k mod 64) 1]) = insert k (seen_set seen)"
proof -
  have m: "k mod 64 < 64" by simp
  have "seen ! (k div 64) AND push_bit (k mod 64) 1 = 0 \<longleftrightarrow> \<not> bit (seen ! (k div 64)) (k mod 64)"
    by (simp add: and_exp_eq_0_iff_not_bit)
  then show "seen ! (k div 64) AND push_bit (k mod 64) 1 = 0 \<longleftrightarrow> k \<notin> seen_set seen"
    using assms by (simp add: seen_set_def)
  show "seen_set (seen[k div 64 := seen ! (k div 64) OR push_bit (k mod 64) 1]) = insert k (seen_set seen)"
  proof (rule set_eqI)
    fix j
    have e: "j = k" if "j div 64 = k div 64" "j mod 64 = k mod 64" using that by (metis div_mult_mod_eq)
    have "bit (seen ! (k div 64) OR push_bit (k mod 64) 1) i \<longleftrightarrow> bit (seen ! (k div 64)) i \<or> i = k mod 64" for i
      using m by (auto simp: bit_or_iff bit_exp_iff)
    then show "j \<in> seen_set (seen[k div 64 := seen ! (k div 64) OR push_bit (k mod 64) 1]) \<longleftrightarrow> j \<in> insert k (seen_set seen)"
      using assms e by (cases "j div 64 = k div 64") (auto simp: seen_set_def)
  qed
qed

lemma mark_positions_exact:
  assumes "n \<le> 64 * length seen"
  shows "if (\<forall>x \<in> set ps. unat x < n) \<and> distinct ps \<and> seen_set seen \<inter> unat ` set ps = {}
    then \<exists>seen'. mark_positions n seen ps = Inr seen' \<and> length seen' = length seen \<and> seen_set seen' = seen_set seen \<union> unat ` set ps
    else \<exists>e. mark_positions n seen ps = Inl e \<and> e \<noteq> Panic"
  using assms
proof (induction ps arbitrary: seen)
  case (Cons x ps)
  let ?k = "unat x"
  let ?seen = "seen[?k div 64 := seen ! (?k div 64) OR push_bit (?k mod 64) 1]"
  show ?case
  proof (cases "?k < n \<and> ?k \<notin> seen_set seen")
    case True
    then have "?k div 64 < length seen" using Cons.prems by linarith
    note sb = seen_bit [OF this]
    have m: "mark_positions n seen (x # ps) = mark_positions n ?seen ps"
      using True \<open>?k div 64 < length seen\<close> sb(1) by (simp add: Let_def)
    have u: "x \<in> set ps \<longleftrightarrow> ?k \<in> unat ` set ps" by (auto dest: unsigned_word_eqI)
    show ?thesis using Cons.IH [of ?seen] Cons.prems True u unfolding m sb(2) by (auto split: if_splits)
  next
    case False
    then show ?thesis
      using Cons.prems seen_bit(1) [of ?k seen] by (auto simp: Let_def)
  qed
qed simp

lemma mark_terms_exact:
  assumes "n \<le> 64 * length seen" "\<And>i. i \<in> set is \<Longrightarrow> pos_iter p i = Some (runs i)"
  shows "if (\<forall>x \<in> set (concat (map runs is)). unat x < n) \<and> distinct (concat (map runs is)) \<and>
      seen_set seen \<inter> unat ` set (concat (map runs is)) = {}
    then mark_terms p n seen is = Inr () else \<exists>e. mark_terms p n seen is = Inl e \<and> e \<noteq> Panic"
  using assms
proof (induction "is" arbitrary: seen)
  case (Cons i "is")
  show ?case
  proof (cases "(\<forall>x \<in> set (runs i). unat x < n) \<and> distinct (runs i) \<and> seen_set seen \<inter> unat ` set (runs i) = {}")
    case True
    then obtain seen' where s: "mark_positions n seen (runs i) = Inr seen'" "length seen' = length seen"
      "seen_set seen' = seen_set seen \<union> unat ` set (runs i)"
      using mark_positions_exact [OF Cons.prems(1), of "runs i", unfolded if_P [OF True]] by blast
    have m: "mark_terms p n seen (i # is) = mark_terms p n seen' is" using Cons.prems(2) [of i] s(1) by simp
    have u: "unat ` A \<inter> unat ` B = {} \<longleftrightarrow> A \<inter> B = {}" for A B :: "u32 set"
      by (auto dest: unsigned_word_eqI)
    have "n \<le> 64 * length seen'" using Cons.prems(1) s(2) by simp
    note ih = Cons.IH [OF this Cons.prems(2) [OF list.set_intros(2)]]
    show ?thesis using ih True u [of "set (runs i)" "set (concat (map runs is))"] unfolding m s(3)
      by (auto simp: Int_Un_distrib2 Int_Un_distrib image_Un split: if_splits)
  next
    case False
    then obtain e where "mark_positions n seen (runs i) = Inl e" "e \<noteq> Panic"
      using mark_positions_exact [OF Cons.prems(1), of "runs i", unfolded if_not_P [OF False]] by blast
    then show ?thesis using Cons.prems(2) [of i] False by auto
  qed
qed simp

section \<open>Offsets and runs\<close>

lemma those_Some: "those xs = Some ys \<longleftrightarrow> xs = map Some ys"
proof (induction xs arbitrary: ys)
  case (Cons x xs)
  show ?case by (cases x; cases ys) (auto simp: Cons.IH)
qed auto

lemma offsets_okE:
  assumes "offsets_ok p t"
  obtains offs where "length offs = t + 1" "ssorted offs" "offs ! 0 = 0" "unat (offs ! t) = length (pos_data p)"
    "\<And>i. i \<le> t \<Longrightarrow> narrow_get (offsets p) i = Some (offs ! i)" "length (pos_data p) \<le> MAX_DOCUMENT_BYTES"
proof -
  obtain offs where o: "narrow_iter (offsets p) = Some offs" "length offs = t + 1" "hd offs = 0"
    "unat (last offs) = length (pos_data p)" "list_all (\<lambda>(a, b). a < b) (zip offs (drop 1 offs))"
    "length (pos_data p) \<le> MAX_DOCUMENT_BYTES"
    using assms by (auto simp: offsets_ok_def split: option.splits)
  have ne: "offs \<noteq> []" using o(2) by auto
  have m: "map (narrow_get (offsets p)) [0..<narrow_len (offsets p)] = map Some offs"
    using o(1) by (simp add: narrow_iter_def those_Some)
  have l: "narrow_len (offsets p) = length offs" using arg_cong [OF m, of length] by simp
  have g: "narrow_get (offsets p) i = Some (offs ! i)" if "i < length offs" for i
    using arg_cong [OF m, of "\<lambda>l. l ! i"] that l by simp
  have "offs ! i < offs ! Suc i" if "Suc i < length offs" for i
    using o(5) that by (auto simp: list_all_length)
  then have "ssorted offs" by (simp add: sorted_wrt_iff_nth_Suc_transp)
  then show ?thesis using that [of offs] o ne g by (simp add: hd_conv_nth last_conv_nth)
qed

lemma pos_bytes_ok:
  assumes "offsets_ok p t" "i < t"
  shows "\<exists>bs. pos_bytes p i = Some bs"
proof -
  obtain offs where o: "length offs = t + 1" "ssorted offs" "unat (offs ! t) = length (pos_data p)"
    "\<And>i. i \<le> t \<Longrightarrow> narrow_get (offsets p) i = Some (offs ! i)"
    by (rule offsets_okE [OF assms(1)], rule that; assumption)
  have "offs ! i \<le> offs ! (i + 1)" "offs ! (i + 1) \<le> offs ! t"
    using sorted_nth_mono [OF ssorted_sorted [OF o(2)]] o(1) assms(2) by simp_all
  then show ?thesis using o(3,4) assms(2) by (simp add: pos_bytes_def word_le_nat_alt)
qed

lemma validate_terms_sound:
  assumes "validate_terms p es i n mx = Inr (n', mx')"
  shows "\<exists>runs. length runs = length es \<and> n' = n + length (concat runs) \<and> mx' = max_fold mx (concat runs) \<and>
    (\<forall>k < length es. pos_iter p (i + k) = Some (runs ! k) \<and> runs ! k \<noteq> [] \<and> ssorted (runs ! k) \<and>
      length (runs ! k) \<le> unat (snd (es ! k)))"
  using assms
proof (induction es arbitrary: i n mx)
  case (Cons e es)
  obtain k f where e: "e = (k, f)" by (cases e)
  obtain bs tc mx1 where b: "pos_bytes p i = Some bs" "term_positions bs 0 None 0 mx = Inr (tc, mx1)" "tc > 0" "tc \<le> unat f"
    and rec: "validate_terms p es (i + 1) (n + tc) mx1 = Inr (n', mx')"
    using Cons.prems e by (auto split: option.splits sum.splits if_splits)
  obtain ps where ps: "iter_positions bs 0 = Some ps" "tc = length ps" "mx1 = max_fold mx ps" "ssorted ps"
    using term_positions_sound [OF _ b(2)] by auto
  obtain runs where r: "length runs = length es" "n' = n + tc + length (concat runs)" "mx' = max_fold mx1 (concat runs)"
    "\<And>k. k < length es \<Longrightarrow> pos_iter p (i + 1 + k) = Some (runs ! k) \<and> runs ! k \<noteq> [] \<and> ssorted (runs ! k) \<and>
      length (runs ! k) \<le> unat (snd (es ! k))"
    using Cons.IH [OF rec] by auto
  have p0: "pos_iter p i = Some ps" using b(1) ps(1) by (simp add: pos_iter_def)
  have "pos_iter p (i + k) = Some ((ps # runs) ! k) \<and> (ps # runs) ! k \<noteq> [] \<and> ssorted ((ps # runs) ! k) \<and>
      length ((ps # runs) ! k) \<le> unat (snd ((e # es) ! k))" if "k < length (e # es)" for k
    using that p0 ps b(3,4) e r(4) [of "k - 1"] by (cases k) auto
  then show ?case
    by (intro exI [of _ "ps # runs"]) (use r ps in \<open>simp add: max_fold_def\<close>)
qed (simp add: max_fold_def)

lemma validate_terms_no_panic:
  assumes "offsets_ok p t" "i + length es \<le> t"
  shows "validate_terms p es i n mx \<noteq> Inl Panic"
  using assms(2)
proof (induction es arbitrary: i n mx)
  case (Cons e es)
  obtain bs where b: "pos_bytes p i = Some bs" using pos_bytes_ok [OF assms(1), of i] Cons.prems by auto
  obtain k f where e: "e = (k, f)" by (cases e)
  show ?case
    using Cons.IH [of "i + 1"] Cons.prems term_positions_no_panic [of 0 bs None 0 mx] b e
    by (auto split: sum.split)
qed simp

lemma covered_permutation:
  assumes "distinct ps" "\<forall>x \<in> set ps. unat x < length ps"
  shows "mset (map unat (ps :: u32 list)) = mset [0..<length ps]"
proof -
  have d: "distinct (map unat ps)" using assms(1) by (auto simp: distinct_map inj_on_def dest: unsigned_word_eqI)
  have "set (map unat ps) \<subseteq> {0..<length ps}" using assms(2) by auto
  moreover have "card (set (map unat ps)) = card {0..<length ps}" using d by (simp add: distinct_card del: set_map)
  ultimately have "set (map unat ps) = {0..<length ps}" by (intro card_subset_eq) auto
  then have "set (map unat ps) = set [0..<length ps]" by simp
  then show ?thesis using set_eq_iff_mset_eq_distinct [OF d distinct_upt] by blast
qed

lemma validate_cases:
  assumes "version p \<in> {POSITIONS_VERSION, DOCUMENT_VERSION}" "offsets_ok p (length es)" "validate_terms p es 0 0 None = Inr (n, mx)"
    "n \<le> MAX_DOCUMENT_BYTES" "(case mx of None \<Rightarrow> 0 | Some m \<Rightarrow> unat m + 1) = n"
  shows "\<exists>runs. length runs = length es \<and> n = length (concat runs) \<and>
    (\<forall>k < length es. pos_iter p k = Some (runs ! k) \<and> runs ! k \<noteq> [] \<and> ssorted (runs ! k) \<and> length (runs ! k) \<le> unat (snd (es ! k))) \<and>
    (if (\<forall>x \<in> set (concat runs). unat x < n) \<and> distinct (concat runs) then validate p es = Inr ()
     else \<exists>e. validate p es = Inl e \<and> e \<noteq> Panic)"
proof -
  obtain runs where r: "length runs = length es" "n = length (concat runs)"
    "\<And>k. k < length es \<Longrightarrow> pos_iter p k = Some (runs ! k) \<and> runs ! k \<noteq> [] \<and> ssorted (runs ! k) \<and> length (runs ! k) \<le> unat (snd (es ! k))"
    using validate_terms_sound [OF assms(3)] by auto
  let ?seen = "replicate ((n + 63) div 64) (0 :: u64)"
  have "concat (map ((!) runs) [0..<length es]) = concat runs" using r(1) map_nth [of runs] by simp
  moreover have "seen_set ?seen = {}" by (auto simp: seen_set_def)
  moreover have "n \<le> 64 * length ?seen" by simp
  ultimately have m: "if (\<forall>x \<in> set (concat runs). unat x < n) \<and> distinct (concat runs)
      then mark_terms p n ?seen [0..<length es] = Inr ()
      else \<exists>e. mark_terms p n ?seen [0..<length es] = Inl e \<and> e \<noteq> Panic"
    using mark_terms_exact [of n ?seen "[0..<length es]" p "(!) runs"] r(3) by simp
  have v: "validate p es = mark_terms p n ?seen [0..<length es]" using assms by (simp add: validate_def)
  show ?thesis unfolding v by (rule exI [of _ runs]) (use r m in blast)
qed

section \<open>What is written is read back\<close>

lemma varint_put: "varint \<lparr>data = before @ put_varint v @ rest, at_pos = length before\<rparr> =
    Inr (v, \<lparr>data = before @ put_varint v @ rest, at_pos = length before + length (put_varint v)\<rparr>)"
  using reads_as_varint [of v] by (simp add: reads_as_def)

lemma u32_try_from_ucast: "u32_try_from (ucast (w :: u32)) = Some w"
  using unat_u32_bound [of w] by (simp add: u32_try_from_def unat_of_u32) (rule bit_eqI, auto simp: bit_ucast_iff)

lemma iter_put_gaps: "iter_positions (put_gaps previous ps) previous = Some ps"
proof (induction ps arbitrary: previous)
  case (Cons x ps)
  let ?bs = "put_varint (ucast (x - previous)) @ put_gaps x ps"
  obtain b rest where b: "?bs = b # rest" by (cases ?bs) auto
  have "next_gap (?bs ! 0) (drop (0 + 1) ?bs) = Some (x - previous, drop (length (put_varint (ucast (x - previous)))) ?bs)"
  proof (rule next_gap_agrees [OF _ _ u32_try_from_ucast])
    show "0 < length ?bs" by simp
    show "varint \<lparr>data = ?bs, at_pos = 0\<rparr> = Inr (ucast (x - previous), \<lparr>data = ?bs, at_pos = length (put_varint (ucast (x - previous)))\<rparr>)"
      using varint_put [of "[]"] by simp
  qed
  moreover have "?bs ! 0 = b" "drop (0 + 1) ?bs = rest" using b by simp_all
  moreover have "drop (length (put_varint (ucast (x - previous)))) ?bs = put_gaps x ps" by simp
  ultimately have "next_gap b rest = Some (x - previous, put_gaps x ps)" by (simp only:)
  then show ?case using Cons.IH [of x] unfolding put_gaps.simps b iter_positions.simps by simp
qed simp

lemma put_runs_spec:
  assumes "put_runs runs offs bytes = Some (offs', bytes')"
  shows "bytes' = bytes @ concat (map (put_gaps 0) runs) \<and>
    offs' = offs @ map (\<lambda>i. of_nat (length bytes + length (concat (map (put_gaps 0) (take (Suc i) runs))))) [0..<length runs] \<and>
    (runs \<noteq> [] \<longrightarrow> length bytes' < 2 ^ 32)"
  using assms
proof (induction runs arbitrary: offs bytes)
  case (Cons ps runs)
  let ?b = "bytes @ put_gaps 0 ps"
  have l: "length ?b < 2 ^ 32" and rec: "put_runs runs (offs @ [of_nat (length ?b)]) ?b = Some (offs', bytes')"
    using Cons.prems by (auto simp: Let_def split: if_splits)
  show ?case using Cons.IH [OF rec] l
    by (cases "runs = []") (auto simp: map_upt_Suc add.assoc simp del: upt_Suc)
qed simp

lemma positions_of_runs_bytes:
  assumes "positions_of_runs w runs = Some p" "i < length runs"
  shows "pos_bytes p i = Some (put_gaps 0 (runs ! i))"
proof -
  obtain offs bytes where pr: "put_runs runs [0] [] = Some (offs, bytes)" "offsets p = narrow_from offs" "pos_data p = bytes"
    using assms(1) by (auto simp: positions_of_runs_def)
  let ?e = "\<lambda>k. length (concat (map (put_gaps 0) (take k runs)))"
  have b: "bytes = concat (map (put_gaps 0) runs)" "length bytes < 2 ^ 32"
    "offs = 0 # map (\<lambda>i. of_nat (?e (Suc i))) [0..<length runs]"
    using put_runs_spec [OF pr(1)] assms(2) by auto
  have off: "slice_get offs k = Some (of_nat (?e k))" if "k \<le> length runs" for k
    using that b(3) by (cases k) (auto simp: slice_get_def)
  have split: "bytes = concat (map (put_gaps 0) (take k runs)) @ concat (map (put_gaps 0) (drop k runs))" for k
    by (metis append_take_drop_id b(1) concat_append map_append)
  have le: "?e k \<le> length bytes" for k using arg_cong [OF split [of k], of length] by simp
  have u: "unat (of_nat (?e k) :: u32) = ?e k" for k
    using b(2) le [of k] by (simp add: unsigned_of_nat take_bit_nat_eq_self)
  have s: "?e (Suc i) = ?e i + length (put_gaps 0 (runs ! i))" using assms(2) by (simp add: take_Suc_conv_app_nth)
  have d: "drop i runs = runs ! i # drop (Suc i) runs" using assms(2) by (simp add: Cons_nth_drop_Suc)
  have "sub_slice bytes (?e i) (length (put_gaps 0 (runs ! i))) = put_gaps 0 (runs ! i)"
    by (subst split [of i]) (simp add: sub_slice_def d)
  then show ?thesis using off [of i] off [of "i + 1"] assms(2) s u [of i] u [of "Suc i"] le [of "Suc i"] pr(2,3)
    by (simp add: pos_bytes_def)
qed

lemma positions_of_runs_iter: "positions_of_runs w runs = Some p \<Longrightarrow> i < length runs \<Longrightarrow> pos_iter p i = Some (runs ! i)"
  by (simp add: pos_iter_def positions_of_runs_bytes iter_put_gaps)

section \<open>The counting sort\<close>

lemma unat_of_nat32: "k < 2 ^ 32 \<Longrightarrow> unat (of_nat k :: u32) = k"
  by (simp add: unsigned_of_nat take_bit_nat_eq_self)

definition occurrences :: "u32 list \<Rightarrow> nat \<Rightarrow> u32 list" where
  "occurrences ranks r = map of_nat (filter (\<lambda>i. unat (ranks ! i) = r) [0..<length ranks])"

definition rank_count :: "u32 list \<Rightarrow> nat \<Rightarrow> nat" where
  "rank_count ranks r = length (filter (\<lambda>x. unat x = r) ranks)"

definition rank_start :: "u32 list \<Rightarrow> nat \<Rightarrow> nat" where
  "rank_start ranks r = length (filter (\<lambda>x. unat x < r) ranks)"

lemma rank_count_snoc: "rank_count (rs @ [x]) r = rank_count rs r + (if unat x = r then 1 else 0)"
  by (simp add: rank_count_def)

lemma occurrences_snoc: "occurrences (rs @ [x]) r = occurrences rs r @ (if unat x = r then [of_nat (length rs)] else [])"
proof -
  have "filter (\<lambda>i. unat ((rs @ [x]) ! i) = r) [0..<length rs] = filter (\<lambda>i. unat (rs ! i) = r) [0..<length rs]"
    by (rule filter_cong) (auto simp: nth_append)
  then show ?thesis by (simp add: occurrences_def)
qed

lemma length_occurrences: "length (occurrences rs r) = rank_count rs r"
  by (induction rs rule: rev_induct) (auto simp: occurrences_snoc rank_count_snoc, simp add: occurrences_def rank_count_def)

lemma rank_start_Suc: "rank_start rs (Suc r) = rank_start rs r + rank_count rs r"
  by (induction rs) (auto simp: rank_start_def rank_count_def)

lemma rank_start_mono: "a \<le> b \<Longrightarrow> rank_start rs a \<le> rank_start rs b"
  by (induction b) (auto simp: le_Suc_eq rank_start_Suc)

lemma rank_start_le: "rank_start rs r \<le> length rs"
  by (simp add: rank_start_def)

lemma count_fold:
  assumes "\<forall>x \<in> set rs. unat x < t"
  shows "\<exists>c. foldl count_step (Some (replicate (t + 1) 0)) rs = Some c \<and> length c = t + 1 \<and> c ! 0 = 0 \<and>
    (\<forall>r < t. c ! Suc r = of_nat (rank_count rs r))"
  using assms
proof (induction rs rule: rev_induct)
  case Nil
  then show ?case by (auto simp: rank_count_def)
next
  case (snoc x rs)
  then obtain c where c: "foldl count_step (Some (replicate (t + 1) 0)) rs = Some c" "length c = t + 1" "c ! 0 = 0"
    "\<forall>r < t. c ! Suc r = of_nat (rank_count rs r)" "unat x < t" by auto
  then have "count_step (Some c) x = Some (c[Suc (unat x) := c ! Suc (unat x) + 1])" by (simp add: count_step_def)
  then show ?case
    by (intro exI [of _ "c[Suc (unat x) := c ! Suc (unat x) + 1]"])
      (use c in \<open>auto simp: rank_count_snoc nth_list_update simp del: replicate_Suc\<close>)
qed

lemma running_totals_nth: "k < length xs \<Longrightarrow> running_totals acc xs ! k = acc + sum_list (take (Suc k) xs)"
proof (induction xs arbitrary: acc k)
  case (Cons x xs)
  then show ?case by (cases k) (auto simp: add.assoc)
qed simp

lemma length_running_totals [simp]: "length (running_totals acc xs) = length xs"
  by (induction xs arbitrary: acc) auto

lemma starts_nth:
  assumes "length c = t + 1" "c ! 0 = 0" "\<forall>r < t. c ! Suc r = of_nat (rank_count rs r)" "k \<le> t"
  shows "running_totals 0 c ! k = of_nat (rank_start rs k)"
proof -
  have "sum_list (take (Suc k) c) = of_nat (rank_start rs k)"
    using assms(4)
  proof (induction k)
    case 0
    then show ?case using assms(1,2) by (simp add: take_Suc_conv_app_nth rank_start_def)
  next
    case (Suc k)
    then show ?case using assms(1,3) by (simp add: take_Suc_conv_app_nth rank_start_Suc)
  qed
  then show ?thesis using assms(1,4) by (simp add: running_totals_nth)
qed

definition placed :: "u32 list \<Rightarrow> nat \<Rightarrow> u32 list \<Rightarrow> u32 list \<Rightarrow> u32 list \<Rightarrow> bool" where
  "placed ranks t done nexts srt \<longleftrightarrow> length nexts = t + 1 \<and> length srt = length ranks \<and>
     (\<forall>r < t. nexts ! r = of_nat (rank_start ranks r + rank_count done r) \<and>
        (\<forall>j < rank_count done r. srt ! (rank_start ranks r + j) = occurrences done r ! j))"

lemma placed_step:
  assumes "placed ranks t done nexts srt" "ranks = done @ x # rest" "unat x < t" "length ranks < 2 ^ 32"
  shows "\<exists>nexts' srt'. place_step (Some (nexts, srt)) (length done, x) = Some (nexts', srt') \<and> placed ranks t (done @ [x]) nexts' srt'"
proof -
  let ?q = "unat x"
  define k where "k = rank_start ranks ?q + rank_count done ?q"
  have c: "rank_count done r + (if r = ?q then 1 else 0) \<le> rank_count ranks r" for r
    using assms(2) by (auto simp: rank_count_def)
  have range: "rank_start ranks r + rank_count ranks r \<le> rank_start ranks r'" if "r < r'" for r r'
    using rank_start_mono [of "Suc r" r' ranks] that by (simp add: rank_start_Suc)
  have "k < rank_start ranks ?q + rank_count ranks ?q" using c [of ?q] by (simp add: k_def)
  also have "\<dots> \<le> length ranks" using rank_start_le [of ranks "Suc ?q"] by (simp add: rank_start_Suc)
  finally have k: "k < length ranks" .
  have nq: "nexts ! ?q = of_nat k" "?q < length nexts" "length srt = length ranks"
    using assms(1,3) by (auto simp: placed_def k_def)
  have uk: "unat (of_nat k :: u32) = k" using k assms(4) by (simp add: unsigned_of_nat take_bit_nat_eq_self)
  have apart: "rank_start ranks r + j \<noteq> k" if "r \<noteq> ?q" "j < rank_count done r" for r j
  proof -
    have j: "j < rank_count ranks r" using that c [of r] by simp
    show ?thesis
    proof (cases "r < ?q")
      case True
      then show ?thesis using range [OF True] j by (simp add: k_def)
    next
      case False
      then have "?q < r" using that(1) by simp
      then show ?thesis using range [of ?q r] c [of ?q] by (simp add: k_def)
    qed
  qed
  have st: "place_step (Some (nexts, srt)) (length done, x) = Some (nexts[?q := of_nat k + 1], srt[k := of_nat (length done)])"
    using nq uk k by (simp add: place_step_def)
  have "placed ranks t (done @ [x]) (nexts[?q := of_nat k + 1]) (srt[k := of_nat (length done)])"
    unfolding placed_def
  proof (intro conjI allI impI)
    show "length (nexts[?q := of_nat k + 1]) = t + 1" "length (srt[k := of_nat (length done)]) = length ranks"
      using assms(1) by (simp_all add: placed_def)
  next
    fix r
    assume r: "r < t"
    show "nexts[?q := of_nat k + 1] ! r = of_nat (rank_start ranks r + rank_count (done @ [x]) r)"
      using assms(1) r nq(2) by (cases "r = ?q") (auto simp: placed_def rank_count_snoc k_def)
    fix j
    assume j: "j < rank_count (done @ [x]) r"
    show "srt[k := of_nat (length done)] ! (rank_start ranks r + j) = occurrences (done @ [x]) r ! j"
    proof (cases "r = ?q \<and> j = rank_count done r")
      case True
      then show ?thesis using k nq(3) by (simp add: k_def occurrences_snoc nth_append length_occurrences)
    next
      case False
      then have j': "j < rank_count done r" using j by (auto simp: rank_count_snoc split: if_splits)
      then have "rank_start ranks r + j \<noteq> k" using apart by (cases "r = ?q") (auto simp: k_def)
      then show ?thesis using assms(1) r j' by (simp add: placed_def occurrences_snoc nth_append length_occurrences)
    qed
  qed
  then show ?thesis using st by blast
qed

lemma place_fold:
  assumes "placed ranks t done nexts srt" "ranks = done @ rest" "\<forall>x \<in> set rest. unat x < t" "length ranks < 2 ^ 32"
  shows "\<exists>nexts' srt'. foldl place_step (Some (nexts, srt)) (enumerate (length done) rest) = Some (nexts', srt') \<and> placed ranks t ranks nexts' srt'"
  using assms(1-3)
proof (induction rest arbitrary: "done" nexts srt)
  case (Cons x rest)
  obtain n' s' where s: "place_step (Some (nexts, srt)) (length done, x) = Some (n', s')" "placed ranks t (done @ [x]) n' s'"
    using placed_step [OF Cons.prems(1,2) _ assms(4)] Cons.prems(3) by auto
  then show ?case using Cons.IH [OF s(2)] Cons.prems(2,3) by simp
qed simp

lemma from_ranks_runs:
  assumes "\<forall>x \<in> set ranks. unat x < t" "length ranks < 2 ^ 32"
  shows "from_ranks ranks t w = positions_of_runs w (map (occurrences ranks) [0..<t])"
proof -
  obtain c where c: "foldl count_step (Some (replicate (t + 1) 0)) ranks = Some c" "length c = t + 1" "c ! 0 = 0"
    "\<forall>r < t. c ! Suc r = of_nat (rank_count ranks r)"
    using count_fold [OF assms(1)] by blast
  define starts where "starts = running_totals 0 c"
  have st: "starts ! k = of_nat (rank_start ranks k)" if "k \<le> t" for k using starts_nth [OF c(2-4) that] by (simp add: starts_def)
  have "placed ranks t [] starts (replicate (length ranks) 0)"
    using st c(2) by (simp add: placed_def starts_def rank_count_def)
  from place_fold [OF this append_Nil [symmetric] assms]
  obtain n' srt where f: "foldl place_step (Some (starts, replicate (length ranks) 0)) (enumerate 0 ranks) = Some (n', srt)"
    and p: "placed ranks t ranks n' srt"
    by auto
  have u: "unat (of_nat (rank_start ranks k) :: u32) = rank_start ranks k" for k
    using rank_start_le [of ranks k] assms(2) by (simp add: unsigned_of_nat take_bit_nat_eq_self)
  have "u32_slice srt (starts ! i) (starts ! (i + 1)) = Some (occurrences ranks i)" if i: "i < t" for i
  proof -
    have l: "rank_start ranks i + rank_count ranks i \<le> length srt"
      using rank_start_le [of ranks "Suc i"] p by (simp add: rank_start_Suc placed_def)
    have "take (rank_count ranks i) (drop (rank_start ranks i) srt) = occurrences ranks i"
      using l p i by (intro nth_equalityI) (auto simp: length_occurrences placed_def)
    then show ?thesis using st [of i] st [of "i + 1"] i l u [of i] u [of "Suc i"] by (simp add: u32_slice_def rank_start_Suc)
  qed
  then have "those (map (\<lambda>i. u32_slice srt (starts ! i) (starts ! (i + 1))) [0..<t]) = Some (map (occurrences ranks) [0..<t])"
    by (intro those_map_eqI) auto
  then show ?thesis using c(1) f by (simp add: from_ranks_def starts_def)
qed

section \<open>The reference analysis\<close>

definition token_positions :: "rstr list \<Rightarrow> rstr \<Rightarrow> nat list" where
  "token_positions toks w = filter (\<lambda>i. toks ! i = w) [0..<length toks]"

lemma token_positions_snoc: "token_positions (toks @ [x]) w = token_positions toks w @ (if x = w then [length toks] else [])"
proof -
  have "filter (\<lambda>i. (toks @ [x]) ! i = w) [0..<length toks] = filter (\<lambda>i. toks ! i = w) [0..<length toks]"
    by (rule filter_cong) (auto simp: nth_append)
  then show ?thesis by (simp add: token_positions_def)
qed

lemma token_positions_None: "w \<notin> set toks \<Longrightarrow> token_positions toks w = []"
  by (auto simp: token_positions_def filter_empty_conv)

lemma token_table:
  "foldl add_token (\<lambda>_. None) (enumerate 0 toks) w =
     (if w \<in> set toks then Some (map of_nat (token_positions toks w)) else None)"
  by (induction toks rule: rev_induct)
    (auto simp: enumerate_append_eq add_token_def token_positions_snoc token_positions_None)

lemma occurrences_tokens:
  assumes "\<forall>x \<in> set ranks. unat x < length keys" "distinct keys" "r < length keys"
  shows "occurrences ranks r = map of_nat (token_positions (map (\<lambda>x. keys ! unat x) ranks) (keys ! r))"
proof -
  have "keys ! unat (ranks ! i) = keys ! r \<longleftrightarrow> unat (ranks ! i) = r" if "i < length ranks" for i
    using assms that by (simp add: nth_eq_iff_index_eq)
  then show ?thesis by (auto simp: occurrences_def token_positions_def intro!: filter_cong arg_cong [of _ _ "map of_nat"])
qed

lemma from_tokens_runs:
  assumes "set keys \<subseteq> set toks"
  shows "from_tokens toks keys w = positions_of_runs w (map (\<lambda>k. map of_nat (token_positions toks k)) keys)"
proof -
  have "those (map (foldl add_token (\<lambda>_. None) (enumerate 0 toks)) keys) = Some (map (\<lambda>k. map of_nat (token_positions toks k)) keys)"
    by (rule those_map_eqI) (use assms token_table in auto)
  then show ?thesis by (simp add: from_tokens_def)
qed

section \<open>Validation accepts what is built\<close>

lemma max_fold_Some: "\<exists>m. max_fold (Some y) ps = Some m \<and> m \<in> insert y (set ps) \<and> (\<forall>x \<in> insert y (set ps). x \<le> m)"
proof (induction ps arbitrary: y)
  case (Cons x ps)
  obtain m where m: "max_fold (Some (max y x)) ps = Some m" "m \<in> insert (max y x) (set ps)" "\<forall>z \<in> insert (max y x) (set ps). z \<le> m"
    using Cons.IH by blast
  then show ?case by (intro exI [of _ m]) (auto simp: max_fold_def max_def split: if_splits)
qed (simp add: max_fold_def)

lemma max_fold_None: "ps \<noteq> [] \<Longrightarrow> \<exists>m. max_fold None ps = Some m \<and> m \<in> set ps \<and> (\<forall>x \<in> set ps. x \<le> m)"
proof -
  assume "ps \<noteq> []"
  then obtain y qs where "ps = y # qs" by (cases ps) auto
  then show ?thesis using max_fold_Some [of y qs] by (simp add: max_fold_def)
qed

lemma term_positions_complete:
  assumes "ssorted ps" "\<forall>x \<in> set ps. unat x < MAX_DOCUMENT_BYTES" "\<forall>q. previous = Some q \<longrightarrow> (\<forall>x \<in> set ps. q < x)"
  shows "term_positions (before @ put_gaps (base_of previous) ps) (length before) previous tc mx = Inr (tc + length ps, max_fold mx ps)"
  using assms
proof (induction ps arbitrary: before previous tc mx)
  case Nil
  then show ?case by (subst term_positions.simps) (simp add: max_fold_def)
next
  case (Cons x ps)
  let ?b = "base_of previous"
  let ?v = "put_varint (ucast (x - ?b))"
  let ?bs = "before @ ?v @ put_gaps x ps"
  have le: "?b \<le> x" using Cons.prems(3) by (auto split: option.split intro: less_imp_le)
  have g: "previous = None \<or> x - ?b > 0" using Cons.prems(3) by (auto simp: word_greater_zero_iff)
  have un: "unat (x - ?b) = unat x - unat ?b" using le by (simp add: unat_sub)
  have bound: "unat ?b + unat (x - ?b) < 2 ^ 32"
    using un le unat_u32_bound [of x] by (simp add: word_le_nat_alt)
  have rec: "term_positions ?bs (length before + length ?v) (Some x) (Suc tc) m = Inr (Suc tc + length ps, max_fold m ps)" for m
    using Cons.IH [of "Some x" "before @ ?v" "Suc tc" m] Cons.prems(1,2) by simp
  have x: "unat x < MAX_DOCUMENT_BYTES" using Cons.prems(2) by simp
  have ne: "(length before = length ?bs) = False" by simp
  note vp = varint_put [of before "ucast (x - ?b)" "put_gaps x ps"]
  have add_diff: "?b + (x - ?b) = x" by simp
  show ?case
    unfolding put_gaps.simps
    by (subst term_positions.simps)
      (simp only: ne if_False vp sum.case prod.case u32_try_from_ucast option.case g if_True Let_def bound add_diff x Reader.select_convs
        rec Suc_eq_plus1 [symmetric] max_fold_def foldl_Cons list.size add_Suc_right add_Suc add_0_right)
qed

lemma validate_terms_complete:
  assumes "length runs = length es"
    "\<And>k. k < length es \<Longrightarrow> pos_bytes p (i + k) = Some (put_gaps 0 (runs ! k)) \<and> runs ! k \<noteq> [] \<and> ssorted (runs ! k) \<and>
      length (runs ! k) \<le> unat (snd (es ! k)) \<and> (\<forall>x \<in> set (runs ! k). unat x < MAX_DOCUMENT_BYTES)"
  shows "validate_terms p es i n mx = Inr (n + length (concat runs), max_fold mx (concat runs))"
  using assms
proof (induction es arbitrary: runs i n mx)
  case (Cons e es)
  obtain ps rs where r: "runs = ps # rs" "length rs = length es" using Cons.prems(1) by (cases runs) auto
  obtain k f where e: "e = (k, f)" by (cases e)
  have p0: "pos_bytes p i = Some (put_gaps 0 ps)" "ps \<noteq> []" "ssorted ps" "length ps \<le> unat f" "\<forall>x \<in> set ps. unat x < MAX_DOCUMENT_BYTES"
    using Cons.prems(2) [of 0] r e by auto
  have t: "term_positions (put_gaps 0 ps) 0 None 0 mx = Inr (length ps, max_fold mx ps)"
    using term_positions_complete [OF p0(3,5), of None "[]" 0 mx] by simp
  have "validate_terms p es (i + 1) (n + length ps) (max_fold mx ps) =
      Inr (n + length ps + length (concat rs), max_fold (max_fold mx ps) (concat rs))"
    using Cons.prems(2) [of "Suc _"] r by (intro Cons.IH) auto
  then show ?case using p0 t r e by (simp add: max_fold_def)
qed (simp add: max_fold_def)

lemma put_gaps_not_Nil: "ps \<noteq> [] \<Longrightarrow> put_gaps b ps \<noteq> []"
  by (cases ps) auto

lemma positions_of_runs_offsets:
  assumes "positions_of_runs w runs = Some p" "\<forall>r \<in> set runs. r \<noteq> []" "length (pos_data p) \<le> MAX_DOCUMENT_BYTES"
  shows "offsets_ok p (length runs)" "version p \<in> {POSITIONS_VERSION, DOCUMENT_VERSION}"
proof -
  obtain offs bytes where pr: "put_runs runs [0] [] = Some (offs, bytes)" "offsets p = narrow_from offs" "pos_data p = bytes"
    "version p = (if w then DOCUMENT_VERSION else POSITIONS_VERSION)"
    using assms(1) by (auto simp: positions_of_runs_def)
  let ?e = "\<lambda>k. length (concat (map (put_gaps 0) (take k runs)))"
  have b: "bytes = concat (map (put_gaps 0) runs)" "offs = 0 # map (\<lambda>i. of_nat (?e (Suc i))) [0..<length runs]"
    using put_runs_spec [OF pr(1)] by auto
  have o: "offs = map (\<lambda>i. of_nat (?e i)) [0..<Suc (length runs)]"
    using b(2) by (simp only: map_upt_Suc) simp
  have "length bytes < 2 ^ 32" using assms(3) pr(3) by (simp add: MAX_DOCUMENT_BYTES_def)
  moreover have "?e k \<le> length bytes" for k
    by (metis append_take_drop_id b(1) concat_append le_add1 length_append map_append)
  ultimately have u: "unat (of_nat (?e k) :: u32) = ?e k" for k
    by (meson le_less_trans unat_of_nat32)
  have "?e k < ?e (Suc k)" if "k < length runs" for k
    using that put_gaps_not_Nil [of "runs ! k" 0] assms(2) by (simp add: take_Suc_conv_app_nth)
  then have lt: "(of_nat (?e k) :: u32) < of_nat (?e (Suc k))" if "k < length runs" for k
    using that u by (simp add: word_less_nat_alt)
  have "list_all (\<lambda>(a, b). a < b) (zip offs (drop 1 offs))"
    using lt by (auto simp: list_all_length o simp del: upt_Suc)
  moreover have "unat (last offs) = length bytes" using u [of "length runs"] by (simp add: o b(1))
  moreover have "hd offs = 0" "length offs = length runs + 1" by (simp_all add: b(2))
  ultimately show "offsets_ok p (length runs)" using assms(3) pr(2,3) by (simp add: offsets_ok_def)
  show "version p \<in> {POSITIONS_VERSION, DOCUMENT_VERSION}" using pr(4) by simp
qed

lemma occurrences_set:
  "length ranks < 2 ^ 32 \<Longrightarrow> unat ` set (occurrences ranks r) = {i. i < length ranks \<and> unat (ranks ! i) = r}"
  by (force simp: occurrences_def unat_of_nat32 image_iff)

lemma occurrences_sorted: "length ranks < 2 ^ 32 \<Longrightarrow> ssorted (occurrences ranks r)"
  unfolding occurrences_def
  by (auto simp: sorted_wrt_map word_less_nat_alt unat_of_nat32 intro!: sorted_wrt_mono_rel [OF _ sorted_wrt_filter [OF sorted_wrt_upt]])

lemma runs_length: "length (concat (map (occurrences ranks) [0..<t])) = rank_start ranks t"
  by (induction t) (simp_all add: rank_start_Suc length_occurrences, simp add: rank_start_def)

lemma runs_distinct:
  assumes "length ranks < 2 ^ 32"
  shows "distinct (concat (map (occurrences ranks) [0..<t]))"
proof (induction t)
  case (Suc t)
  have "set (occurrences ranks a) \<inter> set (occurrences ranks t) = {}" if "a < t" for a
  proof (rule ccontr)
    assume "set (occurrences ranks a) \<inter> set (occurrences ranks t) \<noteq> {}"
    then obtain x where "x \<in> set (occurrences ranks a)" "x \<in> set (occurrences ranks t)" by blast
    then have "unat x \<in> unat ` set (occurrences ranks a)" "unat x \<in> unat ` set (occurrences ranks t)" by (simp_all add: imageI)
    then show False using that by (simp add: occurrences_set [OF assms])
  qed
  then show ?case using Suc ssorted_distinct [OF occurrences_sorted [OF assms]] by fastforce
qed simp

lemma runs_small: "length ranks < 2 ^ 32 \<Longrightarrow> x \<in> set (occurrences ranks r) \<Longrightarrow> unat x < length ranks"
  using occurrences_set [of ranks r] by blast

lemma runs_maximum:
  assumes "length ranks < 2 ^ 32" "\<forall>x \<in> set ranks. unat x < t"
  shows "(case max_fold None (concat (map (occurrences ranks) [0..<t])) of None \<Rightarrow> 0 | Some m \<Rightarrow> unat m + 1) = length ranks"
proof (cases "ranks = []")
  case True
  then have "concat (map (occurrences ranks) [0..<t]) = []" by (simp add: occurrences_def)
  then show ?thesis using True by (simp only: max_fold_def) simp
next
  case False
  let ?ps = "concat (map (occurrences ranks) [0..<t])" and ?i = "length ranks - 1"
  have i: "?i < length ranks" "unat (ranks ! ?i) < t" using False assms(2) by auto
  then have "?i \<in> unat ` set (occurrences ranks (unat (ranks ! ?i)))" by (simp add: occurrences_set [OF assms(1)])
  then obtain x where x: "x \<in> set ?ps" "unat x = ?i" using i(2) by fastforce
  then have "?ps \<noteq> []" by (metis empty_iff empty_set)
  then obtain m where m: "max_fold None ?ps = Some m" "m \<in> set ?ps" "\<forall>x \<in> set ?ps. x \<le> m" using max_fold_None by blast
  have "?i \<le> unat m" using m(3) x by (metis word_le_nat_alt)
  moreover have "unat m < length ranks" using m(2) runs_small [OF assms(1)] by fastforce
  ultimately show ?thesis using m(1) by simp
qed

lemma runs_validate:
  assumes "length ranks \<le> MAX_DOCUMENT_BYTES" "\<forall>x \<in> set ranks. unat x < length es"
    "positions_of_runs w (map (occurrences ranks) [0..<length es]) = Some p" "length (pos_data p) \<le> MAX_DOCUMENT_BYTES"
    "\<And>r. r < length es \<Longrightarrow> occurrences ranks r \<noteq> [] \<and> length (occurrences ranks r) \<le> unat (snd (es ! r))"
  shows "validate p es = Inr ()"
proof -
  let ?runs = "map (occurrences ranks) [0..<length es]"
  have n: "length ranks < 2 ^ 32" using assms(1) by (simp add: MAX_DOCUMENT_BYTES_def)
  have all: "length (concat ?runs) = length ranks" using assms(2) by (simp add: runs_length rank_start_def)
  have vt: "validate_terms p es 0 0 None = Inr (0 + length (concat ?runs), max_fold None (concat ?runs))"
    by (rule validate_terms_complete)
      (use positions_of_runs_bytes [OF assms(3)] assms(1,5) occurrences_sorted [OF n] runs_small [OF n] in fastforce)+
  have ok: "offsets_ok p (length es)" "version p \<in> {POSITIONS_VERSION, DOCUMENT_VERSION}"
    using positions_of_runs_offsets [OF assms(3) _ assms(4)] assms(5) by auto
  obtain runs where r: "length runs = length es" "\<forall>k < length es. pos_iter p k = Some (runs ! k)"
    "if (\<forall>x \<in> set (concat runs). unat x < length ranks) \<and> distinct (concat runs) then validate p es = Inr ()
     else \<exists>e. validate p es = Inl e \<and> e \<noteq> Panic"
    using validate_cases [OF ok(2,1) vt] assms(1) runs_maximum [OF n assms(2)] all by auto
  have "runs = ?runs" using r(1,2) positions_of_runs_iter [OF assms(3)] by (intro nth_equalityI) auto
  then show ?thesis using r(3) runs_distinct [OF n, of "length es"] runs_small [OF n] by (auto split: if_splits)
qed

lemma example_runs:
  "\<exists>p. positions_of_runs True [[1], [0, 2]] = Some p \<and> length (pos_data p) = 3"
  "map (occurrences [1, 0, 1]) [0..<2] = [[1], [0, 2]]"
proof -
  have "put_varint 0 = [0]" "put_varint 1 = [1]" "put_varint 2 = [2]"
    by (subst put_varint.simps, simp add: word_le_nat_alt)+
  then show "\<exists>p. positions_of_runs True [[1], [0, 2]] = Some p \<and> length (pos_data p) = 3"
    by (simp add: positions_of_runs_def Let_def)
  show "map (occurrences [1, 0, 1]) [0..<2] = [[1], [0, 2]]" by (simp add: occurrences_def upt_rec)
qed

text \<open>
  C14. Positions are built exactly: the counting sort over term ranks produces byte for byte what the
  reference analysis of the tokens produces; reading the run of a term gives the places of its token,
  in order; and the result passes validation against any term table with these keys whose
  frequencies are no smaller than the number of places.
\<close>

theorem from_ranks_exact:
  assumes "length ranks \<le> MAX_DOCUMENT_BYTES" "\<forall>x \<in> set ranks. unat x < length keys" "distinct keys"
    "toks = map (\<lambda>x. keys ! unat x) ranks" "set keys \<subseteq> set toks"
  shows "from_ranks ranks (length keys) w = from_tokens toks keys w \<and>
    (\<forall>p. from_ranks ranks (length keys) w = Some p \<longrightarrow>
       (\<forall>r < length keys. map_option (map unat) (pos_iter p r) = Some (token_positions toks (keys ! r))) \<and>
       (\<forall>es. map fst es = keys \<and> length (pos_data p) \<le> MAX_DOCUMENT_BYTES \<and>
          (\<forall>(k, f) \<in> set es. length (token_positions toks k) \<le> unat f) \<longrightarrow> validate p es = Inr ()))"
proof -
  let ?t = "length keys"
  let ?runs = "map (occurrences ranks) [0..<?t]"
  have n: "length ranks < 2 ^ 32" using assms(1) by (simp add: MAX_DOCUMENT_BYTES_def)
  have runs: "?runs = map (\<lambda>k. map of_nat (token_positions toks k)) keys"
    by (rule nth_equalityI) (simp_all add: occurrences_tokens [OF assms(2,3)] assms(4))
  have eq: "from_ranks ranks ?t w = positions_of_runs w ?runs" by (rule from_ranks_runs [OF assms(2) n])
  have ref: "from_ranks ranks ?t w = from_tokens toks keys w" using eq from_tokens_runs [OF assms(5)] runs by simp
  have tp: "length (token_positions toks k) = length (occurrences ranks r)" "map unat (occurrences ranks r) = token_positions toks k"
    if "r < ?t" "k = keys ! r" for r k
    using that occurrences_tokens [OF assms(2,3) that(1)] assms(4) n
    by (auto simp: token_positions_def unat_of_nat32 intro!: map_idI)
  have "map_option (map unat) (pos_iter p r) = Some (token_positions toks (keys ! r))"
    if "positions_of_runs w ?runs = Some p" "r < ?t" for p r
    using positions_of_runs_iter [OF that(1), of r] that(2) tp(2) [OF that(2) refl] by simp
  moreover have "validate p es = Inr ()"
    if p: "positions_of_runs w ?runs = Some p" and es: "map fst es = keys" "length (pos_data p) \<le> MAX_DOCUMENT_BYTES"
      "\<forall>(k, f) \<in> set es. length (token_positions toks k) \<le> unat f" for p es
  proof -
    have l: "length es = ?t" using es(1) by (metis length_map)
    show ?thesis
    proof (rule runs_validate [OF assms(1) _ p [folded l] es(2)])
      fix r assume r: "r < length es"
      have k: "(keys ! r, snd (es ! r)) \<in> set es" using r es(1) by (metis nth_map nth_mem prod.collapse)
      have "keys ! r \<in> set toks" using assms(5) r l by auto
      then have "token_positions toks (keys ! r) \<noteq> []" by (auto simp: token_positions_def filter_empty_conv in_set_conv_nth)
      then show "occurrences ranks r \<noteq> [] \<and> length (occurrences ranks r) \<le> unat (snd (es ! r))"
        using k es(3) tp(1) [of r] r l by fastforce
    qed (use assms(2) l in simp)
  qed
  ultimately show ?thesis unfolding eq [symmetric] using ref by blast
qed

theorem from_ranks_exact_witness:
  "\<exists>p. from_ranks [1, 0, 1] 2 True = Some p \<and> validate p [([97], 1), ([98], 2)] = Inr () \<and>
     map_option (map unat) (pos_iter p 1) = Some [0, 2]"
proof -
  let ?keys = "[[97], [98]] :: rstr list" and ?toks = "[[98], [97], [98]] :: rstr list"
  have "from_ranks [1, 0, 1] 2 True = positions_of_runs True [[1], [0, 2]]"
    unfolding example_runs(2) [symmetric] by (rule from_ranks_runs) simp_all
  then obtain p where p: "from_ranks [1, 0, 1] 2 True = Some p" "length (pos_data p) = 3" using example_runs(1) by auto
  have q: "from_ranks [1, 0, 1] (length ?keys) True = Some p" using p(1) by (simp add: numeral_2_eq_2)
  have x: "(\<forall>r < length ?keys. map_option (map unat) (pos_iter p r) = Some (token_positions ?toks (?keys ! r))) \<and>
       (\<forall>es. map fst es = ?keys \<and> length (pos_data p) \<le> MAX_DOCUMENT_BYTES \<and>
          (\<forall>(k, f) \<in> set es. length (token_positions ?toks k) \<le> unat f) \<longrightarrow> validate p es = Inr ())"
    by (rule conjunct2 [OF from_ranks_exact, rule_format, OF _ _ _ _ _ q]) (auto simp: MAX_DOCUMENT_BYTES_def)
  have t: "token_positions ?toks [98] = [0, 2]" "token_positions ?toks [97] = [1]"
    by (simp_all add: token_positions_def upt_rec)
  have "map_option (map unat) (pos_iter p 1) = Some (token_positions ?toks (?keys ! 1))"
    by (rule conjunct1 [OF x, rule_format]) simp
  moreover have "validate p [([97], 1), ([98], 2)] = Inr ()"
    by (rule conjunct2 [OF x, rule_format]) (simp add: p(2) MAX_DOCUMENT_BYTES_def t)
  ultimately show ?thesis using p(1) t by auto
qed

text \<open>
  C15. Validation of untrusted positions is exact about what it lets through: it never panics, and
  when it accepts, the iterator of every term returns ascending positions, at least one and no more
  than the frequency of the term, and all runs together hold every position of a token sequence
  exactly once.
\<close>

theorem validate_sound:
  "validate p es \<noteq> Inl Panic \<and>
   (validate p es = Inr () \<longrightarrow>
     (\<exists>runs. length runs = length es \<and>
        (\<forall>k < length es. pos_iter p k = Some (runs ! k) \<and> runs ! k \<noteq> [] \<and> ssorted (runs ! k) \<and>
           length (runs ! k) \<le> unat (snd (es ! k))) \<and>
        mset (map unat (concat runs)) = mset [0..<length (concat runs)]))"
proof (cases "version p \<in> {POSITIONS_VERSION, DOCUMENT_VERSION} \<and> offsets_ok p (length es)")
  case False
  then show ?thesis by (auto simp: validate_def)
next
  case ok: True
  show ?thesis
  proof (cases "validate_terms p es 0 0 None")
    case (Inl e)
    then show ?thesis using ok validate_terms_no_panic [of p "length es" 0 es 0 None] by (simp add: validate_def)
  next
    case (Inr nm)
    obtain n mx where nm: "nm = (n, mx)" by (cases nm)
    show ?thesis
    proof (cases "n \<le> MAX_DOCUMENT_BYTES \<and> (case mx of None \<Rightarrow> 0 | Some m \<Rightarrow> unat m + 1) = n")
      case True
      obtain runs where r: "length runs = length es" "n = length (concat runs)"
        "\<forall>k < length es. pos_iter p k = Some (runs ! k) \<and> runs ! k \<noteq> [] \<and> ssorted (runs ! k) \<and> length (runs ! k) \<le> unat (snd (es ! k))"
        and v: "if (\<forall>x \<in> set (concat runs). unat x < n) \<and> distinct (concat runs) then validate p es = Inr ()
          else \<exists>e. validate p es = Inl e \<and> e \<noteq> Panic"
        using validate_cases [OF conjunct1 [OF ok] conjunct2 [OF ok] Inr [unfolded nm] conjunct1 [OF True] conjunct2 [OF True]] by blast
      show ?thesis
      proof (cases "(\<forall>x \<in> set (concat runs). unat x < n) \<and> distinct (concat runs)")
        case c: True
        then have "mset (map unat (concat runs)) = mset [0..<length (concat runs)]" using covered_permutation r(2) by blast
        then show ?thesis using v [unfolded if_P [OF c]] r(1,3) by (metis Inr_not_Inl)
      next
        case c: False
        then show ?thesis using v [unfolded if_not_P [OF c]] by auto
      qed
    next
      case False
      then have "validate p es = Inl (Malformed ''positions do not cover the token sequence'')"
        using ok Inr nm by (auto simp: validate_def)
      then show ?thesis by simp
    qed
  qed
qed

theorem validate_sound_witness:
  "\<exists>p runs. validate p [([97], 1), ([98], 2)] = Inr () \<and> length runs = 2 \<and>
     mset (map unat (concat runs :: u32 list)) = mset [0..<length (concat runs)]"
proof -
  obtain p where p: "positions_of_runs True (map (occurrences [1, 0, 1]) [0..<2]) = Some p" "length (pos_data p) = 3"
    using example_runs by auto
  have v: "validate p [([97], 1), ([98], 2)] = Inr ()"
  proof (rule runs_validate [of "[1, 0, 1]" _ True])
    fix r assume "r < length [([97], 1 :: u32), ([98], 2)]"
    then have "r = 0 \<or> r = 1" by auto
    then show "occurrences [1, 0, 1] r \<noteq> [] \<and> length (occurrences [1, 0, 1] r) \<le> unat (snd ([([97], 1), ([98], 2)] ! r) :: u32)"
      by (auto simp: occurrences_def upt_rec)
  qed (use p in \<open>auto simp: MAX_DOCUMENT_BYTES_def numeral_2_eq_2\<close>)
  moreover obtain runs where "length runs = length [([97], 1 :: u32), ([98], 2)]"
    "mset (map unat (concat runs :: u32 list)) = mset [0..<length (concat runs)]"
    using validate_sound [of p "[([97], 1), ([98], 2)]"] v by auto
  ultimately show ?thesis by (intro exI [of _ p] exI [of _ runs]) simp
qed

end
