(* ===== verification/FrameDictionary.thy ===== *)
theory FrameDictionary
  imports TermPositions Frames
begin

text \<open>
  The term dictionary of a journal frame, \<open>FrameTerms\<close> and \<open>DecodedTerms\<close> of
  \<open>src/core/documents/binary.rs\<close>: the writer interns the terms of the frame, sorts the distinct ones
  and replaces every term by its rank; the dictionary is written front-coded, and the reader checks
  it while it rebuilds the terms.
\<close>

section \<open>Writing\<close>

record FrameTerms =
  ft_sorted :: "rstr list"
  ft_ids :: "u32 list"

text \<open>
  The interning loop: the provisional ids of the terms met so far, the terms in the order they were
  met, and the id of every term given.  Every id is below the number of terms met, so the later
  lookups by id are in range.
\<close>

type_synonym interning = "(rstr \<Rightarrow> u32 option) \<times> rstr list \<times> u32 list"

definition intern_term :: "interning \<Rightarrow> rstr \<Rightarrow> interning" where
  "intern_term s term =
     (case s of (provisional, order, ids) \<Rightarrow>
        case provisional term of
          Some i \<Rightarrow> (provisional, order, ids @ [i])
        | None \<Rightarrow> (provisional(term \<mapsto> of_nat (length order)), order @ [term], ids @ [of_nat (length order)]))"

definition by_term :: "rstr list \<Rightarrow> u32 list" where
  "by_term order = sort_key (\<lambda>i. order ! unat i) (map of_nat [0..<unat (of_nat (length order) :: u32)])"

definition rank_table :: "u32 list \<Rightarrow> nat \<Rightarrow> u32 list" where
  "rank_table sorted_ids n = foldl (\<lambda>rank (p, i). rank[unat i := of_nat p]) (replicate n 0) (enumerate 0 sorted_ids)"

definition frame_terms_new :: "rstr list \<Rightarrow> FrameTerms" where
  "frame_terms_new terms =
     (case foldl intern_term (\<lambda>_. None, [], []) terms of (provisional, order, ids) \<Rightarrow>
        let rank = rank_table (by_term order) (length order)
        in \<lparr>ft_sorted = map (\<lambda>i. order ! unat i) (by_term order), ft_ids = map (\<lambda>i. rank ! unat i) ids\<rparr>)"

definition into_shared :: "nat \<Rightarrow> FrameTerms \<Rightarrow> (SharedDictionary arc \<times> u32 list) option" where
  "into_shared address ft = map_option (\<lambda>d. (Arc address d, ft_ids ft)) (dictionary_new (ft_sorted ft))"

definition shared_prefix :: "rstr \<Rightarrow> rstr \<Rightarrow> nat" where
  "shared_prefix previous term = length (takeWhile (\<lambda>(a, b). a = b) (zip previous term))"

fun write_front :: "rstr \<Rightarrow> rstr list \<Rightarrow> u8 list" where
  "write_front previous [] = []"
| "write_front previous (term # terms) =
     (let shared = shared_prefix previous term
      in put_varint (of_nat shared) @ put_bytes (drop shared term) @ write_front term terms)"

definition frame_terms_write :: "FrameTerms \<Rightarrow> u8 list" where
  "frame_terms_write ft = put_varint (of_nat (length (ft_sorted ft))) @ write_front [] (ft_sorted ft)"

section \<open>Reading\<close>

text \<open>The bytes of the terms so far and their offsets; the last offset is the end of the bytes.\<close>

type_synonym term_buffer = "u8 list \<times> nat list"

definition read_term :: "term_buffer \<Rightarrow> (unit \<times> term_buffer) reads" where
  "read_term s =
     (case s of (bytes, offs) \<Rightarrow>
        let previous_start = offs ! (length offs - 2);
            previous_len = length bytes - previous_start
        in rd_bind (rd_number usize_try_from) (\<lambda>shared.
           rd_ensure (shared \<le> previous_len \<and> (length offs > 1 \<or> shared = 0))
             (Malformed ''term prefix exceeds the previous term'')
           (rd_bind read_bytes (\<lambda>suffix.
            rd_ensure (length bytes + shared + length suffix \<le> MAX_RAW_FRAME_SIZE)
              (Malformed ''term dictionary exceeds the frame size limit'')
            (let start = length bytes;
                 bytes = bytes @ sub_slice bytes previous_start shared @ suffix;
                 term = drop start bytes
             in rd_ensure (utf8_valid term) NotUtf8
               (rd_ensure (length offs = 1 \<or> sub_slice bytes previous_start (start - previous_start) < term)
                  (Malformed ''terms are not strictly ascending'')
                  (rd_ok ((), bytes, offs @ [length bytes]))))))))"

definition u32_from_usize :: "usize \<Rightarrow> u32 option" where
  "u32_from_usize v = (if v < 2 ^ 32 then Some (of_nat v) else None)"

text \<open>\<open>DecodedTerms::read\<close>; the new dictionary is behind an \<open>Arc\<close> at a given address.\<close>

definition decoded_terms_read :: "nat \<Rightarrow> SharedDictionary arc reads" where
  "decoded_terms_read address =
     rd_bind (read_count 2) (\<lambda>n.
     rd_bind (read_loop read_term n ([], [0])) (\<lambda>(_, bytes, offs).
       rd_ensure (utf8_valid bytes) NotUtf8
         (case those (map u32_from_usize (take n offs)) of
            None \<Rightarrow> rd_fail OutOfRange
          | Some starts \<Rightarrow> rd_ok (Arc address \<lparr>sd_text = bytes, sd_starts = starts\<rparr>))))"

section \<open>Ranks\<close>

lemma position_append: "t \<in> set xs \<Longrightarrow> position_of t (xs @ ys) = position_of t xs"
  by (induction xs) auto

lemma position_snoc: "t \<notin> set xs \<Longrightarrow> position_of t (xs @ [t]) = Some (length xs)"
  by (induction xs) auto

lemma position_nth: "position_of t xs = Some k \<Longrightarrow> xs ! k = t"
  by (induction xs arbitrary: k) (auto split: if_splits)

lemma position_the:
  assumes "t \<in> set xs"
  shows "the (position_of t xs) < length xs" "xs ! the (position_of t xs) = t"
proof -
  obtain k where "position_of t xs = Some k" using assms position_None [of t xs] by blast
  then show "the (position_of t xs) < length xs" "xs ! the (position_of t xs) = t"
    using position_less [of t xs k] position_nth [of t xs k] by auto
qed

definition interned :: "interning \<Rightarrow> rstr list \<Rightarrow> bool" where
  "interned s terms = (case s of (provisional, order, ids) \<Rightarrow>
     distinct order \<and> set order = set terms \<and> (\<forall>t. provisional t = map_option of_nat (position_of t order)) \<and>
     ids = map (\<lambda>t. of_nat (the (position_of t order))) terms)"

lemma interned_step:
  assumes "interned s terms"
  shows "interned (intern_term s term) (terms @ [term])"
proof (cases s)
  case (fields provisional order ids)
  note i = assms [unfolded interned_def fields, simplified]
  show ?thesis
  proof (cases "term \<in> set order")
    case True
    then obtain k where "position_of term order = Some k" using position_None [of "term" order] by blast
    then show ?thesis using i True by (auto simp: interned_def intern_term_def fields)
  next
    case False
    then have p: "provisional term = None" using i position_None [of "term" order] by simp
    have "position_of t (order @ [term]) = (if t = term then Some (length order) else position_of t order)" for t
      using position_append [of t order "[term]"] position_snoc [OF False] position_None [of t "order @ [term]"]
        position_None [of t order] by (cases "t \<in> set order") auto
    then show ?thesis using i False p by (auto simp: interned_def intern_term_def fields)
  qed
qed

lemma interned_fold: "interned (foldl intern_term (\<lambda>_. None, [], []) terms) terms"
proof (induction terms rule: rev_induct)
  case Nil
  then show ?case by (simp add: interned_def)
next
  case (snoc t terms)
  then show ?case using interned_step by simp
qed

lemma map_sort_key: "map f (sort_key f xs) = sort (map f xs)"
  by (rule properties_for_sort [symmetric]) simp_all

lemma by_term_sorted:
  assumes "length order < 2 ^ 32"
  shows "map (\<lambda>i. order ! unat i) (by_term order) = sort order"
    "mset (map unat (by_term order)) = mset [0..<length order]"
proof -
  have n: "unat (of_nat (length order) :: u32) = length order" by (rule unat_of_nat32 [OF assms])
  have u: "map (unat \<circ> (of_nat :: nat \<Rightarrow> u32)) [0..<length order] = [0..<length order]"
    using assms unat_of_nat32 by (intro nth_equalityI) (simp_all del: unsigned_of_nat)
  have "map (\<lambda>i. order ! unat i) (map (of_nat :: nat \<Rightarrow> u32) [0..<length order]) = map ((!) order) (map (unat \<circ> (of_nat :: nat \<Rightarrow> u32)) [0..<length order])"
    by (simp add: comp_def del: unsigned_of_nat)
  also have "\<dots> = order" unfolding u by (rule map_nth)
  finally show "map (\<lambda>i. order ! unat i) (by_term order) = sort order"
    unfolding by_term_def n by (simp only: map_sort_key)
  have "mset (map unat (by_term order)) = image_mset unat (mset (map (of_nat :: nat \<Rightarrow> u32) [0..<length order]))"
    unfolding by_term_def n by (simp only: mset_map mset_sort)
  also have "\<dots> = mset (map (unat \<circ> (of_nat :: nat \<Rightarrow> u32)) [0..<length order])" by (simp only: mset_map multiset.map_comp)
  finally show "mset (map unat (by_term order)) = mset [0..<length order]" unfolding u .
qed

lemma rank_fold:
  assumes "distinct (map unat xs)" "\<forall>x \<in> set xs. unat (x :: u32) < length rank" "p < length xs"
  shows "foldl (\<lambda>rank (p, i). rank[unat i := of_nat p]) rank (enumerate k xs) ! unat (xs ! p) = of_nat (k + p)"
  using assms
proof (induction xs arbitrary: rank k p)
  case (Cons x xs)
  have keep: "unat y \<notin> set (map unat zs) \<Longrightarrow> unat y < length r \<Longrightarrow>
      foldl (\<lambda>rank (p, i). rank[unat i := of_nat p]) r (enumerate j zs) ! unat y = r ! unat y" for y zs r j
    by (induction zs arbitrary: r j) auto
  show ?case
  proof (cases p)
    case 0
    then show ?thesis using Cons.prems keep [of x xs "rank[unat x := of_nat k]" "Suc k"] by simp
  next
    case (Suc q)
    then show ?thesis using Cons.prems Cons.IH [of "rank[unat x := of_nat k]" q "Suc k"] by simp
  qed
qed simp

text \<open>
  The dictionary is the sorted list of the distinct terms, and the ids are their places in it.
\<close>

lemma frame_terms_exact:
  assumes "card (set terms) < 2 ^ 32"
  shows "ssorted (ft_sorted (frame_terms_new terms))" "set (ft_sorted (frame_terms_new terms)) = set terms"
    "ft_ids (frame_terms_new terms) = map (\<lambda>t. of_nat (the (position_of t (ft_sorted (frame_terms_new terms))))) terms"
proof -
  obtain provisional order ids where f: "foldl intern_term (\<lambda>_. None, [], []) terms = (provisional, order, ids)"
    by (cases "foldl intern_term (\<lambda>_. None, [], []) terms")
  note i = interned_fold [of terms, unfolded f interned_def, simplified]
  have n: "length order < 2 ^ 32" using assms i by (metis distinct_card)
  note b = by_term_sorted [OF n]
  have srt: "ft_sorted (frame_terms_new terms) = sort order" by (simp add: frame_terms_new_def f Let_def b(1))
  then show ss: "ssorted (ft_sorted (frame_terms_new terms))" using i by (simp add: sorted_distinct_ssorted)
  show "set (ft_sorted (frame_terms_new terms)) = set terms" using srt i by simp
  have d: "distinct (map unat (by_term order))" "set (map unat (by_term order)) = {0..<length order}"
    using b(2) by (metis distinct_upt mset_eq_imp_distinct_iff, metis mset_eq_setD set_upt)
  have r: "rank_table (by_term order) (length order) ! k = of_nat (the (position_of (order ! k) (sort order)))" if k: "k < length order" for k
  proof -
    obtain p where p: "p < length (by_term order)" "unat (by_term order ! p) = k"
      using d(2) k by (metis (no_types, lifting) atLeastLessThan_iff in_set_conv_nth length_map nth_map zero_le)
    have "rank_table (by_term order) (length order) ! unat (by_term order ! p) = of_nat (0 + p)"
      unfolding rank_table_def by (rule rank_fold [OF d(1)]) (use d(2) p in \<open>auto\<close>)
    moreover have "sort order ! p = order ! k" unfolding b(1) [symmetric] using p by simp
    moreover have "p < length (sort order)" unfolding b(1) [symmetric] using p(1) by simp
    ultimately show ?thesis using p(2) position_Some [of "sort order" "order ! k" p] i by simp
  qed
  have "rank_table (by_term order) (length order) ! unat (of_nat (the (position_of t order)) :: u32) =
      of_nat (the (position_of t (sort order)))" if "t \<in> set terms" for t
  proof -
    have k: "the (position_of t order) < length order" "order ! the (position_of t order) = t"
      using position_the [of t order] that i by auto
    show ?thesis using r [OF k(1)] k(2) unat_of_nat32 [of "the (position_of t order)"] k(1) n by simp
  qed
  then show "ft_ids (frame_terms_new terms) = map (\<lambda>t. of_nat (the (position_of t (ft_sorted (frame_terms_new terms))))) terms"
    unfolding srt using i by (simp add: frame_terms_new_def f Let_def)
qed

section \<open>The terms of a dictionary\<close>

definition buffer_of :: "rstr list \<Rightarrow> term_buffer" where
  "buffer_of words = (concat words, map (word_start words) [0..<Suc (length words)])"

definition last_word :: "rstr list \<Rightarrow> rstr" where
  "last_word words = (if words = [] then [] else last words)"

text \<open>What the reader checks of one more term.\<close>

definition check_term :: "rstr list \<Rightarrow> rstr \<Rightarrow> (unit \<times> term_buffer) reads" where
  "check_term words term =
     rd_ensure (utf8_valid term) NotUtf8
       (rd_ensure (words = [] \<or> last words < term) (Malformed ''terms are not strictly ascending'')
         (rd_ok ((), buffer_of (words @ [term]))))"

lemma word_start_append: "i \<le> length words \<Longrightarrow> word_start (words @ later) i = word_start words i"
  by (simp add: word_start_def)

lemma buffer_snoc:
  "buffer_of (words @ [term]) = (concat words @ term, snd (buffer_of words) @ [length (concat words @ term)])"
proof -
  have "map (word_start (words @ [term])) [0..<Suc (length words)] = map (word_start words) [0..<Suc (length words)]"
    by (rule map_cong [OF refl]) (auto simp: word_start_append)
  then show ?thesis using word_start_all [of "words @ [term]"] by (simp add: buffer_of_def)
qed

lemma read_term_buffer:
  "read_term (buffer_of words) =
     rd_bind (rd_number usize_try_from) (\<lambda>shared.
       rd_ensure (shared \<le> length (last_word words)) (Malformed ''term prefix exceeds the previous term'')
       (rd_bind read_bytes (\<lambda>suffix.
        rd_ensure (length (concat words) + shared + length suffix \<le> MAX_RAW_FRAME_SIZE)
          (Malformed ''term dictionary exceeds the frame size limit'')
        (check_term words (take shared (last_word words) @ suffix)))))"
proof (cases "words = []")
  case True
  have "read_term (buffer_of []) = read_term ([], [0])" by (simp add: buffer_of_def word_start_def)
  moreover have "buffer_of [t] = (t, [0, length t])" for t by (simp add: buffer_of_def word_start_def)
  ultimately show ?thesis
    by (simp add: True read_term_def last_word_def check_term_def sub_slice_def)
next
  case False
  define k where "k = length words - 1"
  have k: "k < length words" "words ! k = last words" "length words = Suc k"
    using False by (auto simp: k_def last_conv_nth)
  have w: "word_start words k + length (last words) = length (concat words)"
    using word_start_Suc [OF k(1)] word_start_all [of words] k by simp
  have p: "snd (buffer_of words) ! (Suc (length words) - 2) = word_start words k"
    using k(3) by (simp add: buffer_of_def nth_append)
  have b: "fst (buffer_of words) = concat words" "length (snd (buffer_of words)) = Suc (length words)"
    by (simp_all add: buffer_of_def)
  have w2: "length (concat words) - word_start words k = length (last words)" using w by simp
  have l: "sub_slice (concat words) (word_start words k) (length (last words)) = last words"
    using word_slice [OF k(1)] k(2) by simp
  then have whole: "drop (word_start words k) (concat words) = last words"
    using w by (simp add: sub_slice_def)
  have pre: "sub_slice (concat words) (word_start words k) n = take n (last words)" for n
    by (simp add: sub_slice_def whole)
  have prev: "sub_slice (concat words @ later) (word_start words k) (length (last words)) = last words" for later
    using w whole by (simp add: sub_slice_def)
  show ?thesis
    unfolding read_term_def case_prod_unfold Let_def b p
    using False
    by (simp add: last_word_def check_term_def pre prev buffer_snoc w2)
qed

lemma read_term_written:
  assumes "utf8_valid t" "words = [] \<or> last words < t" "length (concat words) + length t \<le> MAX_RAW_FRAME_SIZE"
  defines "shared \<equiv> shared_prefix (last_word words) t"
  shows "reads_as (read_term (buffer_of words)) (put_varint (of_nat shared) @ put_bytes (drop shared t)) ((), buffer_of (words @ [t])) 0"
proof -
  have sh: "shared \<le> length (last_word words)" "shared \<le> length t" "take shared (last_word words) = take shared t"
  proof -
    let ?z = "zip (last_word words) t"
    have l: "shared \<le> length ?z" unfolding shared_def shared_prefix_def by (rule length_takeWhile_le)
    then show "shared \<le> length (last_word words)" "shared \<le> length t" by auto
    have "last_word words ! i = t ! i" if "i < shared" for i
    proof -
      have "(\<lambda>(a, b). a = b) (?z ! i)"
        using that set_takeWhileD [of "takeWhile (\<lambda>(a, b). a = b) ?z ! i" "\<lambda>(a, b). a = b" ?z]
          takeWhile_nth [of i "\<lambda>(a, b). a = b" ?z] nth_mem [of i "takeWhile (\<lambda>(a, b). a = b) ?z"]
        unfolding shared_def shared_prefix_def by auto
      then show ?thesis using that l by simp
    qed
    then show "take shared (last_word words) = take shared t"
      using l by (intro nth_equalityI) auto
  qed
  have t: "take shared (last_word words) @ drop shared t = t" using sh(3) by simp
  have small: "length t < 2 ^ 64" using assms(3) by (simp add: MAX_RAW_FRAME_SIZE_def)
  show ?thesis
    unfolding read_term_buffer
  proof (rule reads_as_bind0 [where x = shared])
    show "reads_as (rd_number usize_try_from) (put_varint (of_nat shared)) shared 0"
      by (rule reads_as_usize) (use sh(2) small in linarith)
    show "reads_as (rd_ensure (shared \<le> length (last_word words)) (Malformed ''term prefix exceeds the previous term'')
        (rd_bind read_bytes (\<lambda>suffix. rd_ensure (length (concat words) + shared + length suffix \<le> MAX_RAW_FRAME_SIZE)
          (Malformed ''term dictionary exceeds the frame size limit'')
          (check_term words (take shared (last_word words) @ suffix))))) (put_bytes (drop shared t)) ((), buffer_of (words @ [t])) 0"
      by (intro reads_as_ensure [OF sh(1)] reads_as_last [OF reads_as_bytes] reads_as_ensure)
        (use small assms sh t in \<open>auto simp: check_term_def rd_ensure_def reads_as_ok\<close>)
  qed
qed

lemma write_front_concat:
  "write_front (last_word done) words = concat (map (\<lambda>i. let w = words ! i; shared = shared_prefix (last_word (done @ take i words)) w
     in put_varint (of_nat shared) @ put_bytes (drop shared w)) [0..<length words])"
proof (induction words arbitrary: "done")
  case (Cons w words)
  have "last_word (done @ [w]) = w" by (simp add: last_word_def)
  then have "write_front w words = concat (map (\<lambda>i. let v = words ! i; shared = shared_prefix (last_word ((done @ [w]) @ take i words)) v
     in put_varint (of_nat shared) @ put_bytes (drop shared v)) [0..<length words])"
    using Cons.IH [of "done @ [w]"] by simp
  then show ?case by (simp only: length_Cons map_upt_Suc list.map concat.simps write_front.simps) (simp add: Let_def)
qed simp

text \<open>A dictionary as both sides agree on it: sorted words of a bounded size.\<close>

definition good_words :: "rstr list \<Rightarrow> bool" where
  "good_words words \<longleftrightarrow> ssorted words \<and> (\<forall>w \<in> set words. utf8_valid w) \<and> length (concat words) \<le> MAX_RAW_FRAME_SIZE"

definition dictionary_of :: "nat \<Rightarrow> rstr list \<Rightarrow> SharedDictionary arc \<Rightarrow> bool" where
  "dictionary_of address words a \<longleftrightarrow> good_words words \<and> (\<exists>d. dictionary_new words = Some d \<and> a = Arc address d)"

lemma words_bound: "ssorted words \<Longrightarrow> length words \<le> Suc (length (concat words))"
proof (induction words)
  case (Cons w words)
  have "length words \<le> length (concat words)"
  proof -
    have "w' \<noteq> []" if "w' \<in> set words" for w' using Cons.prems that by auto
    then have "\<forall>w' \<in> set words. 1 \<le> length w'" by (metis One_nat_def Suc_leI length_greater_0_conv)
    then show ?thesis by (induction words) auto
  qed
  then show ?case by simp
qed simp

lemma good_words_small: "good_words words \<Longrightarrow> length words < 2 ^ 32 \<and> length (concat words) < 2 ^ 32"
  using words_bound [of words] by (simp add: good_words_def MAX_RAW_FRAME_SIZE_def)

lemma dictionary_new_good:
  assumes "good_words words"
  shows "dictionary_new words = Some \<lparr>sd_text = concat words, sd_starts = map (\<lambda>i. of_nat (word_start words i)) [0..<length words]\<rparr>"
proof -
  obtain t s where ts: "push_words words [] [] = Some (t, s)"
    using push_words_total [of "[]" words "[]"] good_words_small [OF assms] by auto
  then have "words_at t s words" using push_words_at assms by (simp add: good_words_def)
  then show ?thesis using ts by (simp add: dictionary_new_def words_at_def)
qed

lemma finish_terms:
  assumes "good_words words"
  shows "those (map u32_from_usize (take (length words) (snd (buffer_of words)))) = Some (sd_starts (the (dictionary_new words)))"
    "\<lparr>sd_text = concat words, sd_starts = sd_starts (the (dictionary_new words))\<rparr> = the (dictionary_new words)" "utf8_valid (concat words)"
proof -
  have "u32_from_usize (word_start words i) = Some (of_nat (word_start words i))" for i
    using word_start_le [of words i] good_words_small [OF assms] by (simp add: u32_from_usize_def)
  then show "those (map u32_from_usize (take (length words) (snd (buffer_of words)))) = Some (sd_starts (the (dictionary_new words)))"
    by (simp add: buffer_of_def comp_def dictionary_new_good [OF assms])
  show "\<lparr>sd_text = concat words, sd_starts = sd_starts (the (dictionary_new words))\<rparr> = the (dictionary_new words)" by (simp add: dictionary_new_good [OF assms])
  show "utf8_valid (concat words)" using assms by (intro utf8_valid_concat) (simp add: good_words_def)
qed

lemma good_words_take: "good_words words \<Longrightarrow> good_words (take n words)"
proof -
  assume g: "good_words words"
  have "length (concat (take n words)) \<le> length (concat words)" using word_start_le [of words n] by (simp add: word_start_def)
  then show ?thesis using g by (auto simp: good_words_def sorted_wrt_take dest: in_set_takeD)
qed

lemma write_front_length: "2 * length words \<le> length (write_front previous words)"
proof (induction words arbitrary: previous)
  case (Cons w words)
  have "2 \<le> length (put_varint (of_nat (shared_prefix previous w)) @ put_bytes (drop (shared_prefix previous w) w))"
    using put_varint_length [of "of_nat (shared_prefix previous w)"] put_varint_length [of "of_nat (length (drop (shared_prefix previous w) w))"]
    by (simp add: put_bytes_def)
  then show ?case using Cons.IH [of w] by (simp add: Let_def)
qed simp

lemma reads_as_terms [reading]:
  assumes "good_words (ft_sorted ft)"
  shows "reads_as (decoded_terms_read address) (frame_terms_write ft) (Arc address (the (dictionary_new (ft_sorted ft)))) 0"
proof -
  let ?w = "ft_sorted ft"
  let ?enc = "\<lambda>i. let v = ?w ! i; shared = shared_prefix (last_word ([] @ take i ?w)) v in put_varint (of_nat shared) @ put_bytes (drop shared v)"
  have front: "write_front [] ?w = concat (map ?enc [0..<length ?w])"
    using write_front_concat [of "[]" ?w] by (simp add: last_word_def)
  have loop: "reads_as (read_loop read_term (length (replicate (length ?w) ())) (buffer_of (take 0 ?w)))
      (concat (map ?enc [0..<length (replicate (length ?w) ())])) (replicate (length ?w) (), buffer_of (take (length (replicate (length ?w) ())) ?w)) 0"
  proof (rule reads_as_loop)
    fix i assume "i < length (replicate (length ?w) ())"
    then have i: "i < length ?w" by simp
    have g: "good_words (take (Suc i) ?w)" by (rule good_words_take [OF assms])
    have sn: "take (Suc i) ?w = take i ?w @ [?w ! i]" using i by (simp add: take_Suc_conv_app_nth)
    have "take i ?w = [] \<or> last (take i ?w) < ?w ! i"
      using g last_in_set [of "take i ?w"] unfolding sn good_words_def by (cases "take i ?w = []") (auto simp: sorted_wrt_append)
    then show "reads_as (read_term (buffer_of (take i ?w))) (?enc i) (replicate (length ?w) () ! i, buffer_of (take (Suc i) ?w)) 0"
      using read_term_written [of "?w ! i" "take i ?w"] g i unfolding sn good_words_def by (simp add: Let_def)
  qed
  have b0: "buffer_of [] = ([], [0])" by (simp add: buffer_of_def word_start_def)
  have split: "(case (replicate (length ?w) (), buffer_of ?w) of (_, bytes, offs) \<Rightarrow>
      rd_ensure (utf8_valid bytes) NotUtf8 (case those (map u32_from_usize (take (length ?w) offs)) of None \<Rightarrow> rd_fail OutOfRange
        | Some starts \<Rightarrow> rd_ok (Arc address \<lparr>sd_text = bytes, sd_starts = starts\<rparr>))) = rd_ok (Arc address (the (dictionary_new ?w)))"
  proof -
    have "fst (buffer_of ?w) = concat ?w" by (simp add: buffer_of_def)
    then show ?thesis using finish_terms [OF assms] by (simp add: case_prod_unfold rd_ensure_def)
  qed
  show ?thesis
    unfolding decoded_terms_read_def frame_terms_write_def
  proof (rule reads_as_counted)
    show "length ?w < 2 ^ 64" using good_words_small [OF assms] by simp
    show "length ?w * max 2 1 \<le> length (write_front [] ?w)" using write_front_length [of ?w "[]"] by simp
    show "reads_as (rd_bind (read_loop read_term (length ?w) ([], [0])) (\<lambda>(_, bytes, offs).
        rd_ensure (utf8_valid bytes) NotUtf8 (case those (map u32_from_usize (take (length ?w) offs)) of None \<Rightarrow> rd_fail OutOfRange
        | Some starts \<Rightarrow> rd_ok (Arc address \<lparr>sd_text = bytes, sd_starts = starts\<rparr>)))) (write_front [] ?w) (Arc address (the (dictionary_new ?w))) 0"
      by (rule reads_as_last [where x = "(replicate (length ?w) (), buffer_of ?w)"])
        (use loop in \<open>simp add: front b0\<close>, simp only: split reads_as_ok)
  qed
qed

text \<open>Whatever bytes are read, an accepted dictionary is sorted, valid text and bounded.\<close>

lemma read_term_sound:
  assumes "good_words words" "read_term (buffer_of words) r = Inr ((u, s), r')"
  shows "\<exists>t. s = buffer_of (words @ [t]) \<and> good_words (words @ [t])"
proof -
  have "\<exists>shared suffix. s = buffer_of (words @ [take shared (last_word words) @ suffix]) \<and> shared \<le> length (last_word words) \<and>
      length (concat words) + shared + length suffix \<le> MAX_RAW_FRAME_SIZE \<and> utf8_valid (take shared (last_word words) @ suffix) \<and>
      (words = [] \<or> last words < take shared (last_word words) @ suffix)"
  proof -
    obtain shared r1 suffix r2 where b: "rd_number usize_try_from r = Inr (shared, r1)" "read_bytes r1 = Inr (suffix, r2)"
      and c: "shared \<le> length (last_word words)" "length (concat words) + shared + length suffix \<le> MAX_RAW_FRAME_SIZE"
      and k: "check_term words (take shared (last_word words) @ suffix) r2 = Inr ((u, s), r')"
      using assms(2) unfolding read_term_buffer
      by (auto simp: rd_bind_def rd_ensure_def rd_fail_def split: sum.splits if_splits)
    then show ?thesis
      by (intro exI [of _ shared] exI [of _ suffix]) (auto simp: check_term_def rd_ensure_def rd_fail_def rd_ok_def split: if_splits)
  qed
  then obtain shared suffix where x: "s = buffer_of (words @ [take shared (last_word words) @ suffix])" "shared \<le> length (last_word words)"
      "length (concat words) + shared + length suffix \<le> MAX_RAW_FRAME_SIZE" "utf8_valid (take shared (last_word words) @ suffix)"
      "words = [] \<or> last words < take shared (last_word words) @ suffix" by blast
  define t where "t = take shared (last_word words) @ suffix"
  have t: "s = buffer_of (words @ [t])" "length (concat words) + length t \<le> MAX_RAW_FRAME_SIZE" "utf8_valid t"
      "words = [] \<or> last words < t"
    using x by (simp_all add: t_def)
  have "x < t" if "x \<in> set words" for x
    using t(4) that ssorted_le_last [of words x] assms(1) by (auto simp: good_words_def)
  then have "good_words (words @ [t])" using assms(1) t by (auto simp: good_words_def sorted_wrt_append)
  then show ?thesis using t(1) by blast
qed

lemma read_terms_sound:
  assumes "good_words words" "read_loop read_term n (buffer_of words) r = Inr ((us, s), r')"
  shows "\<exists>later. length later = n \<and> s = buffer_of (words @ later) \<and> good_words (words @ later)"
  using assms
proof (induction n arbitrary: words r us)
  case 0
  then show ?case by (simp add: rd_ok_def)
next
  case (Suc n)
  obtain s1 r1 us1 where s1: "read_term (buffer_of words) r = Inr (((), s1), r1)" "read_loop read_term n s1 r1 = Inr ((us1, s), r')"
    using Suc.prems(2) by (auto simp: rd_bind_def rd_ok_def split: sum.splits prod.splits)
  obtain t where t: "s1 = buffer_of (words @ [t])" "good_words (words @ [t])" using read_term_sound [OF Suc.prems(1) s1(1)] by blast
  obtain later where "length later = n" "s = buffer_of ((words @ [t]) @ later)" "good_words ((words @ [t]) @ later)"
    using Suc.IH [OF t(2) s1(2) [unfolded t(1)]] by blast
  then show ?case by (intro exI [of _ "t # later"]) simp
qed

lemma decoded_terms_sound:
  assumes "decoded_terms_read address r = Inr (a, r')"
  shows "\<exists>words. dictionary_of address words a"
proof -
  obtain n r1 us bytes offs r2 where l: "read_loop read_term n ([], [0]) r1 = Inr ((us, bytes, offs), r2)"
    and f: "(case those (map u32_from_usize (take n offs)) of None \<Rightarrow> rd_fail OutOfRange
       | Some starts \<Rightarrow> rd_ok (Arc address \<lparr>sd_text = bytes, sd_starts = starts\<rparr>)) r2 = Inr (a, r')"
    using assms unfolding decoded_terms_read_def
    by (auto simp: rd_bind_def rd_ensure_def rd_fail_def [of NotUtf8] split: sum.splits prod.splits if_splits)
  have b0: "buffer_of [] = ([], [0])" by (simp add: buffer_of_def word_start_def)
  obtain words where w: "length words = n" "(bytes, offs) = buffer_of words" "good_words words"
    using read_terms_sound [of "[]" n r1 us "(bytes, offs)" r2] l by (auto simp: b0 good_words_def)
  have "bytes = concat words" "offs = snd (buffer_of words)" using w(2) by (simp_all add: buffer_of_def)
  then have "a = Arc address (the (dictionary_new words))"
    using f finish_terms [OF w(3)] w(1) by (auto simp: rd_ok_def)
  then show ?thesis using w(3) dictionary_new_good [OF w(3)] by (auto simp: dictionary_of_def)
qed

lemma safe_read_term [safe_reads]: "safe_read (read_term s)"
  unfolding read_term_def Let_def by (cases s) (auto intro!: safe_reads)

lemma safe_terms [safe_reads]: "safe_read (decoded_terms_read address)"
  unfolding decoded_terms_read_def
  by (auto intro!: safe_reads split: option.split)

end
