(* ===== verification/TextSegment.thy ===== *)
theory TextSegment
  imports PackedTerms
begin

text \<open>
  \<open>src/core/documents/text.rs\<close>: the file that holds the text of chunks.  The state is the file, the
  published length and the set of scrubbed records.  CRC-32 is a parameter, and so is the optional
  cipher (a pair of functions of the bytes and the associated data).  The outcome of a positioned
  write is \<open>None\<close> (done) or \<open>Some torn\<close>: it failed and left \<open>torn\<close> in the file.
\<close>

datatype text_error = SegIo | CipherError | TextTooLong | OutsideSegment | InsideHeader | ChecksumMismatch | TextNotUtf8

type_synonym cipher = "(u8 list \<Rightarrow> u8 list \<Rightarrow> u8 list option) \<times> (u8 list \<Rightarrow> u8 list \<Rightarrow> u8 list option)"

definition HEADER_LEN :: nat where "HEADER_LEN = 8"

definition FLAG_ENCRYPTED :: u8 where "FLAG_ENCRYPTED = 1"

definition SEGMENT_VERSION :: u8 where "SEGMENT_VERSION = 2"

record TextSegment =
  seg_file :: "u8 list"
  seg_len :: nat
  scrubbed :: "(nat \<times> nat) set"
  seg_cipher :: "cipher option"

definition positioned_write :: "u8 list \<Rightarrow> u8 list \<Rightarrow> nat \<Rightarrow> u8 list" where
  "positioned_write f bytes p = take p (f @ replicate (p - length f) 0) @ bytes @ drop (p + length bytes) f"

text \<open>The magic \<open>HMST\<close>, the version and the flags, zero-padded to eight bytes.\<close>

definition segment_create :: "cipher option \<Rightarrow> u8 list option \<Rightarrow> text_error + TextSegment" where
  "segment_create c outcome =
     (case outcome of
        None \<Rightarrow> Inr \<lparr>seg_file = [0x48, 0x4D, 0x53, 0x54, SEGMENT_VERSION, (if c \<noteq> None then FLAG_ENCRYPTED else 0), 0, 0],
                    seg_len = HEADER_LEN, scrubbed = {}, seg_cipher = c\<rparr>
      | Some _ \<Rightarrow> Inl SegIo)"

definition aad_of :: "nat \<Rightarrow> u8 list" where
  "aad_of p = u64_le_bytes (of_nat p)"

definition sealed_bytes :: "cipher option \<Rightarrow> nat \<Rightarrow> rstr \<Rightarrow> u8 list option" where
  "sealed_bytes c p txt = (case c of None \<Rightarrow> Some txt | Some (encrypt, _) \<Rightarrow> encrypt txt (aad_of p))"

definition segment_append :: "(u8 list \<Rightarrow> u32) \<Rightarrow> u8 list option \<Rightarrow> TextSegment \<Rightarrow> rstr
    \<Rightarrow> (text_error + nat \<times> nat \<times> u32) \<times> TextSegment" where
  "segment_append crc32 outcome s txt =
     (let p = seg_len s
      in case sealed_bytes (seg_cipher s) p txt of
           None \<Rightarrow> (Inl CipherError, s)
         | Some bytes \<Rightarrow>
             if length bytes \<ge> 2 ^ 32 then (Inl TextTooLong, s)
             else (case outcome of
                Some torn \<Rightarrow> (Inl SegIo, s\<lparr>seg_file := positioned_write (seg_file s) torn p\<rparr>)
              | None \<Rightarrow> (Inr (p, length bytes, crc32 txt),
                  s\<lparr>seg_file := positioned_write (seg_file s) bytes p, seg_len := p + length bytes\<rparr>)))"

definition segment_scrub :: "u8 list option \<Rightarrow> TextSegment \<Rightarrow> nat \<Rightarrow> nat \<Rightarrow> (text_error + unit) \<times> TextSegment" where
  "segment_scrub outcome s p len =
     (if HEADER_LEN \<le> p \<and> p + len < 2 ^ 64 \<and> p + len \<le> seg_len s then
        (case outcome of
           Some torn \<Rightarrow> (Inl SegIo, s\<lparr>seg_file := positioned_write (seg_file s) torn p\<rparr>)
         | None \<Rightarrow> (Inr (), s\<lparr>seg_file := positioned_write (seg_file s) (replicate len 0) p,
                             scrubbed := insert (p, len) (scrubbed s)\<rparr>))
      else (Inl OutsideSegment, s))"

definition is_scrubbed :: "TextSegment \<Rightarrow> nat \<Rightarrow> nat \<Rightarrow> bool" where
  "is_scrubbed s p len \<longleftrightarrow> (p, len) \<in> scrubbed s"

definition segment_read :: "(u8 list \<Rightarrow> u32) \<Rightarrow> bool \<Rightarrow> TextSegment \<Rightarrow> nat \<Rightarrow> nat \<Rightarrow> u32 \<Rightarrow> text_error + rstr" where
  "segment_read crc32 read_ok s p len checksum =
     (if \<not> (p + len < 2 ^ 64 \<and> p + len \<le> seg_len s) then Inl OutsideSegment
      else if p < HEADER_LEN then Inl InsideHeader
      else if is_scrubbed s p len then Inr []
      else if \<not> (read_ok \<and> p + len \<le> length (seg_file s)) then Inl SegIo
      else
        let bytes = sub_slice (seg_file s) p len
        in case (case seg_cipher s of None \<Rightarrow> Some bytes | Some (_, decrypt) \<Rightarrow> decrypt bytes (aad_of p)) of
             None \<Rightarrow> Inl CipherError
           | Some bytes \<Rightarrow>
               if crc32 bytes \<noteq> checksum then Inl ChecksumMismatch
               else if utf8_valid bytes then Inr bytes else Inl TextNotUtf8)"

text \<open>
  Runs of a segment: the records a caller holds.  A failed scrub may have overwritten a part of its
  record, which is then given up.
\<close>

inductive seg_run :: "(u8 list \<Rightarrow> u32) \<Rightarrow> cipher option \<Rightarrow> TextSegment \<Rightarrow> (nat \<times> nat \<times> rstr) set \<Rightarrow> bool" for crc32 c where
  create: "segment_create c None = Inr s \<Longrightarrow> seg_run crc32 c s {}"
| append: "seg_run crc32 c s recs \<Longrightarrow> utf8_valid txt \<Longrightarrow> segment_append crc32 None s txt = (Inr (p, len, k), s') \<Longrightarrow>
    seg_run crc32 c s' (insert (p, len, txt) recs)"
| append_fails: "seg_run crc32 c s recs \<Longrightarrow> segment_append crc32 outcome s txt = (Inl e, s') \<Longrightarrow> seg_run crc32 c s' recs"
| scrub: "seg_run crc32 c s recs \<Longrightarrow> (p, len, txt) \<in> recs \<Longrightarrow> segment_scrub None s p len = (Inr (), s') \<Longrightarrow>
    seg_run crc32 c s' recs"
| scrub_fails: "seg_run crc32 c s recs \<Longrightarrow> (p, len, txt) \<in> recs \<Longrightarrow> length torn \<le> len \<Longrightarrow>
    segment_scrub (Some torn) s p len = (Inl e, s') \<Longrightarrow> seg_run crc32 c s' (recs - {(p, len, txt)})"

section \<open>The records of a segment\<close>

text \<open>A record is its place, its stored length and the text it was made from.\<close>

type_synonym text_record = "nat \<times> nat \<times> rstr"

definition record_ok :: "TextSegment \<Rightarrow> text_record \<Rightarrow> bool" where
  "record_ok s r = (case r of (p, len, tx) \<Rightarrow>
     HEADER_LEN \<le> p \<and> p + len \<le> seg_len s \<and> utf8_valid tx \<and>
     (\<exists>bytes. sealed_bytes (seg_cipher s) p tx = Some bytes \<and> length bytes = len \<and>
        (is_scrubbed s p len \<or> sub_slice (seg_file s) p len = bytes)))"

definition apart :: "text_record \<Rightarrow> text_record \<Rightarrow> bool" where
  "apart a b = (case (a, b) of ((p, len, _), (q, len', _)) \<Rightarrow> p + len \<le> q \<or> q + len' \<le> p)"

definition segment_inv :: "TextSegment \<Rightarrow> text_record set \<Rightarrow> bool" where
  "segment_inv s recs \<longleftrightarrow> HEADER_LEN \<le> seg_len s \<and> seg_len s \<le> length (seg_file s) \<and>
     (\<forall>r \<in> recs. record_ok s r) \<and> (\<forall>a \<in> recs. \<forall>b \<in> recs. a \<noteq> b \<longrightarrow> apart a b)"

lemma positioned_write_within:
  "p \<le> length f \<Longrightarrow> positioned_write f bytes p = take p f @ bytes @ drop (p + length bytes) f"
  by (simp add: positioned_write_def)

lemma sub_slice_write_other:
  assumes "p \<le> length f" "q + len \<le> length f" "q + len \<le> p \<or> p + length bytes \<le> q"
  shows "sub_slice (positioned_write f bytes p) q len = sub_slice f q len"
proof (rule nth_equalityI)
  show "length (sub_slice (positioned_write f bytes p) q len) = length (sub_slice f q len)"
    using assms by (auto simp: positioned_write_within)
  fix i
  assume "i < length (sub_slice (positioned_write f bytes p) q len)"
  then have i: "i < len" by simp
  have "positioned_write f bytes p ! (q + i) = f ! (q + i)"
    using assms i by (auto simp: positioned_write_within nth_append)
  then show "sub_slice (positioned_write f bytes p) q len ! i = sub_slice f q len ! i"
    using assms i by (auto simp: sub_slice_def positioned_write_within)
qed

lemma sub_slice_write_same: "p \<le> length f \<Longrightarrow> sub_slice (positioned_write f bytes p) p (length bytes) = bytes"
  by (simp add: positioned_write_within sub_slice_def)

lemma length_positioned_write: "p \<le> length f \<Longrightarrow> length (positioned_write f bytes p) = max (length f) (p + length bytes)"
  by (auto simp: positioned_write_within)

lemma inv_write:
  assumes "segment_inv s recs" "recs' \<subseteq> recs" "p \<le> seg_len s"
    "\<And>q len tx. (q, len, tx) \<in> recs' \<Longrightarrow> q + len \<le> p \<or> p + length bytes \<le> q \<or> (q, len) \<in> scr"
    "scrubbed s \<subseteq> scr"
  shows "segment_inv (s\<lparr>seg_file := positioned_write (seg_file s) bytes p, scrubbed := scr\<rparr>) recs'"
proof -
  have f: "p \<le> length (seg_file s)" "seg_len s \<le> length (seg_file s)" using assms(1,3) by (auto simp: segment_inv_def)
  have "record_ok (s\<lparr>seg_file := positioned_write (seg_file s) bytes p, scrubbed := scr\<rparr>) r" if "r \<in> recs'" for r
  proof -
    obtain q len tx where r: "r = (q, len, tx)" by (cases r)
    have ok: "record_ok s (q, len, tx)" using assms(1,2) that r by (auto simp: segment_inv_def)
    then have "q + len \<le> length (seg_file s)" using f(2) by (auto simp: record_ok_def)
    then have "sub_slice (positioned_write (seg_file s) bytes p) q len = sub_slice (seg_file s) q len \<or> (q, len) \<in> scr"
      using assms(4) that r sub_slice_write_other [OF f(1), of q len bytes] by blast
    then show ?thesis using ok assms(5) r by (auto simp: record_ok_def is_scrubbed_def)
  qed
  moreover have "\<forall>a \<in> recs'. \<forall>b \<in> recs'. a \<noteq> b \<longrightarrow> apart a b" using assms(1,2) unfolding segment_inv_def by blast
  ultimately show ?thesis
    using assms(1) f unfolding segment_inv_def by (simp add: length_positioned_write)
qed

lemma inv_append:
  assumes "segment_inv s recs" "utf8_valid tx" "segment_append crc32 None s tx = (Inr (p, len, k), s')"
  shows "segment_inv s' (insert (p, len, tx) recs)"
proof -
  obtain bytes where b: "sealed_bytes (seg_cipher s) (seg_len s) tx = Some bytes" "p = seg_len s" "len = length bytes"
    and s': "s' = s\<lparr>seg_file := positioned_write (seg_file s) bytes p, seg_len := p + len\<rparr>"
    using assms(3) by (auto simp: segment_append_def Let_def split: option.splits if_splits)
  let ?s1 = "s\<lparr>seg_file := positioned_write (seg_file s) bytes p, scrubbed := scrubbed s\<rparr>"
  have below: "q + l \<le> p" if "(q, l, t) \<in> recs" for q l t
    using assms(1) that b(2) by (auto simp: segment_inv_def record_ok_def)
  have i1: "segment_inv ?s1 recs" by (rule inv_write [OF assms(1)]) (use below b(2) in auto)
  have f: "p \<le> length (seg_file s)" "HEADER_LEN \<le> p" using assms(1) b(2) by (auto simp: segment_inv_def)
  have "record_ok s' r" if "r \<in> recs" for r
  proof -
    have "record_ok ?s1 r" using i1 that by (simp add: segment_inv_def)
    then show ?thesis using b(2) by (auto simp: record_ok_def is_scrubbed_def s' split: prod.splits)
  qed
  moreover have "record_ok s' (p, len, tx)"
    using assms(2) f b by (auto simp: record_ok_def s' sub_slice_write_same is_scrubbed_def)
  moreover have "seg_len s' \<le> length (seg_file s')" using f b by (simp add: s' length_positioned_write)
  moreover have "apart (p, len, tx) r \<and> apart r (p, len, tx)" if "r \<in> recs" for r
    using below that by (cases r) (auto simp: apart_def)
  ultimately show ?thesis using assms(1) f(2) by (auto simp: segment_inv_def s')
qed

lemma inv_scrub:
  assumes "segment_inv s recs" "(p, len, tx) \<in> recs" "segment_scrub None s p len = (Inr (), s')"
  shows "segment_inv s' recs"
proof -
  have s': "s' = s\<lparr>seg_file := positioned_write (seg_file s) (replicate len 0) p, scrubbed := insert (p, len) (scrubbed s)\<rparr>"
    and p: "p + len \<le> seg_len s"
    using assms(3) by (auto simp: segment_scrub_def split: if_splits)
  show ?thesis unfolding s'
  proof (rule inv_write [OF assms(1) subset_refl])
    fix q l t assume r: "(q, l, t) \<in> recs"
    show "q + l \<le> p \<or> p + length (replicate len (0 :: u8)) \<le> q \<or> (q, l) \<in> insert (p, len) (scrubbed s)"
    proof (cases "(q, l, t) = (p, len, tx)")
      case False
      then have "apart (q, l, t) (p, len, tx)" using assms(1,2) r by (simp add: segment_inv_def)
      then show ?thesis by (auto simp: apart_def)
    qed simp
  qed (use p in auto)
qed

lemma run_inv: "seg_run crc32 c s recs \<Longrightarrow> segment_inv s recs \<and> seg_cipher s = c"
proof (induction rule: seg_run.induct)
  case (create s)
  then show ?case by (auto simp: segment_create_def segment_inv_def HEADER_LEN_def)
next
  case (append s recs tx p len k s')
  then show ?case using inv_append [OF conjunct1 [OF append.IH]]
    by (auto simp: segment_append_def Let_def split: option.splits if_splits)
next
  case (append_fails s recs outcome tx e s')
  have "segment_inv (s\<lparr>seg_file := positioned_write (seg_file s) torn (seg_len s), scrubbed := scrubbed s\<rparr>) recs" for torn
    by (rule inv_write [OF conjunct1 [OF append_fails.IH] subset_refl])
      (use append_fails.IH in \<open>auto simp: segment_inv_def record_ok_def\<close>)
  then show ?case using append_fails
    by (auto simp: segment_append_def Let_def split: option.splits if_splits)
next
  case (scrub s recs p len tx s')
  then show ?case using inv_scrub [OF conjunct1 [OF scrub.IH] scrub.hyps(2,3)]
    by (auto simp: segment_scrub_def split: if_splits)
next
  case (scrub_fails s recs p len tx torn e s')
  have "segment_inv (s\<lparr>seg_file := positioned_write (seg_file s) torn p, scrubbed := scrubbed s\<rparr>) (recs - {(p, len, tx)})"
  proof (rule inv_write [OF conjunct1 [OF scrub_fails.IH]])
    show "p \<le> seg_len s" using scrub_fails.IH scrub_fails.hyps(2) by (auto simp: segment_inv_def record_ok_def)
    fix q l t assume "(q, l, t) \<in> recs - {(p, len, tx)}"
    then have "apart (q, l, t) (p, len, tx)" using scrub_fails.IH scrub_fails.hyps(2) by (simp add: segment_inv_def)
    then show "q + l \<le> p \<or> p + length torn \<le> q \<or> (q, l) \<in> scrubbed s" using scrub_fails.hyps(3) by (auto simp: apart_def)
  qed auto
  moreover have "segment_inv s (recs - {(p, len, tx)})" using scrub_fails.IH by (auto simp: segment_inv_def)
  ultimately show ?case using scrub_fails.IH scrub_fails.hyps(4)
    by (auto simp: segment_scrub_def split: if_splits)
qed

text \<open>
  C16. Chunk text is read back: after any appends and scrubs, failed writes included, reading the
  location that an append returned gives the text, with the cipher undone, or the empty text once the
  record was scrubbed.
\<close>

theorem segment_reads_back:
  assumes "seg_run crc32 c s recs" "(p, len, tx) \<in> recs" "seg_len s < 2 ^ 64"
    and "\<And>encrypt decrypt t a bytes. c = Some (encrypt, decrypt) \<Longrightarrow> encrypt t a = Some bytes \<Longrightarrow> decrypt bytes a = Some t"
  shows "segment_read crc32 True s p len (crc32 tx) = Inr (if is_scrubbed s p len then [] else tx)"
proof -
  have i: "segment_inv s recs" and c: "seg_cipher s = c" using run_inv [OF assms(1)] by auto
  have "record_ok s (p, len, tx)" using i assms(2) by (simp add: segment_inv_def)
  then obtain bytes where r: "HEADER_LEN \<le> p" "p + len \<le> seg_len s" "utf8_valid tx" "sealed_bytes c p tx = Some bytes"
    "length bytes = len" "is_scrubbed s p len \<or> sub_slice (seg_file s) p len = bytes"
    by (auto simp: record_ok_def c)
  have "(case c of None \<Rightarrow> Some bytes | Some (_, decrypt) \<Rightarrow> decrypt bytes (aad_of p)) = Some tx"
    using r(4) assms(4) by (cases c) (auto simp: sealed_bytes_def)
  moreover have "sub_slice (seg_file s) p len = bytes" if "\<not> is_scrubbed s p len" using r(6) that by blast
  ultimately show ?thesis using r(1-3) i assms(3) by (simp add: segment_read_def Let_def c segment_inv_def)
qed

text \<open>Two texts, the first scrubbed, under a cipher that flips bits.\<close>

theorem segment_reads_back_witness:
  "\<exists>s recs. seg_run (\<lambda>_. 7) (Some (\<lambda>t a. Some (map not t), \<lambda>t a. Some (map not t))) s recs \<and>
     segment_read (\<lambda>_. 7) True s 8 1 7 = Inr [] \<and> segment_read (\<lambda>_. 7) True s 9 2 7 = Inr [98, 99]"
proof -
  let ?e = "\<lambda>(t :: u8 list) (a :: u8 list). Some (map not t)" and ?k = "\<lambda>_ :: u8 list. 7 :: u32"
  have v: "utf8_valid [97]" "utf8_valid [98, 99]" by (simp_all add: utf8_valid.simps)
  define s0 where "s0 = \<lparr>seg_file = [0x48, 0x4D, 0x53, 0x54, SEGMENT_VERSION, FLAG_ENCRYPTED, 0, 0], seg_len = 8, scrubbed = {}, seg_cipher = Some (?e, ?e)\<rparr>"
  define s1 where "s1 = s0\<lparr>seg_file := seg_file s0 @ [not 97], seg_len := 9\<rparr>"
  define s2 where "s2 = s1\<lparr>seg_file := seg_file s1 @ [not 98, not 99], seg_len := 11\<rparr>"
  define s3 where "s3 = s2\<lparr>seg_file := seg_file s0 @ [0, not 98, not 99], scrubbed := {(8, 1)}\<rparr>"
  have 0: "seg_run ?k (Some (?e, ?e)) s0 {}" by (rule seg_run.create) (simp add: segment_create_def s0_def HEADER_LEN_def)
  have 1: "seg_run ?k (Some (?e, ?e)) s1 {(8, 1, [97])}"
    by (rule seg_run.append [OF 0 v(1)]) (simp add: segment_append_def sealed_bytes_def s1_def s0_def Let_def positioned_write_def)
  have 2: "seg_run ?k (Some (?e, ?e)) s2 {(9, 2, [98, 99]), (8, 1, [97])}"
    by (rule seg_run.append [OF 1 v(2)]) (simp add: segment_append_def sealed_bytes_def s2_def s1_def s0_def Let_def positioned_write_def)
  have 3: "seg_run ?k (Some (?e, ?e)) s3 {(9, 2, [98, 99]), (8, 1, [97])}"
    by (rule seg_run.scrub [OF 2, of 8 1 "[97]"])
      (simp_all add: segment_scrub_def s3_def s2_def s1_def s0_def HEADER_LEN_def positioned_write_def)
  have r: "segment_read ?k True s3 p len 7 = Inr (if is_scrubbed s3 p len then [] else t)"
    if "(p, len, t) \<in> {(9, 2, [98, 99]), (8, 1, [97])}" for p len t
    by (rule segment_reads_back [OF 3 that]) (auto simp: s3_def s2_def comp_def)
  have "segment_read ?k True s3 8 1 7 = Inr []" "segment_read ?k True s3 9 2 7 = Inr [98, 99]"
    using r [of 8 1 "[97]"] r [of 9 2 "[98, 99]"] by (simp_all add: is_scrubbed_def s3_def)
  then show ?thesis using 3 by blast
qed

end
