(* ===== verification/BinaryDocuments.thy ===== *)
theory BinaryDocuments
  imports FrameDictionary TextSegment Entangled
begin

text \<open>
  Stored documents and their binary form in journal frames: \<open>StoredDocument\<close> and the chunk ids of
  \<open>src/core/documents.rs\<close>, \<open>write_document\<close> and \<open>read_document\<close> of \<open>src/core/documents/binary.rs\<close>.
  Metadata is of any type, its JSON text is a parameter.  An \<open>f32\<close> is its bit pattern.
\<close>

section \<open>Documents\<close>

datatype VectorState = Encoded | Pending | Lexical

record StoredChunk =
  chunk_name :: rstr
  chunk_text :: "rstr option"
  text_at :: "(nat \<times> nat \<times> u32) option"
  start_byte :: u32
  end_byte :: u32
  chunk_vector :: EntangledHVec
  embedding :: "u32 list option"
  chunk_terms :: StoredTerms
  word_count :: usize
  stemmed :: bool
  vector_state :: VectorState

record 'j StoredDocument =
  document_id :: rstr
  source_uri :: "rstr option"
  document_version :: rstr
  doc_metadata :: 'j
  chunks :: "StoredChunk list"

section \<open>Chunk ids\<close>

text \<open>The digits of \<open>decimal\<close>, last digit first written; twenty bytes hold every \<open>usize\<close>.\<close>

fun usize_decimal :: "usize \<Rightarrow> rstr \<Rightarrow> rstr" where
  "usize_decimal n buffer =
     (let buffer = of_nat (48 + n mod 10) # buffer
      in if n div 10 = 0 then buffer else usize_decimal (n div 10) buffer)"

declare usize_decimal.simps [simp del]

text \<open>\<open>hms:chunk:\<close>\<close>

definition CHUNK_PREFIX :: rstr where
  "CHUNK_PREFIX = [0x68, 0x6D, 0x73, 0x3A, 0x63, 0x68, 0x75, 0x6E, 0x6B, 0x3A]"

definition chunk_parts :: "rstr \<Rightarrow> usize \<Rightarrow> rstr list" where
  "chunk_parts document index =
     [CHUNK_PREFIX, usize_decimal (length document) [], [0x3A], document, [0x3A], usize_decimal index []]"

definition chunk_id :: "rstr \<Rightarrow> usize \<Rightarrow> rstr" where
  "chunk_id document index = concat (chunk_parts document index)"

definition strip_bytes :: "rstr \<Rightarrow> rstr \<Rightarrow> rstr option" where
  "strip_bytes part rest = (if take (length part) rest = part then Some (drop (length part) rest) else None)"

fun strip_parts :: "rstr list \<Rightarrow> rstr \<Rightarrow> bool" where
  "strip_parts [] rest \<longleftrightarrow> rest = []"
| "strip_parts (part # parts) rest \<longleftrightarrow>
     (case strip_bytes part rest of Some after \<Rightarrow> strip_parts parts after | None \<Rightarrow> False)"

definition is_chunk_id :: "rstr \<Rightarrow> rstr \<Rightarrow> usize \<Rightarrow> bool" where
  "is_chunk_id name document index = strip_parts (chunk_parts document index) name"

section \<open>Writing\<close>

datatype write_error = SegmentNotAttached | SegmentRead text_error | OutOfIds | JsonWrite | WritePanic

definition CHUNK_EXPLICIT_ID :: u8 where "CHUNK_EXPLICIT_ID = 1"
definition CHUNK_TEXT :: u8 where "CHUNK_TEXT = 2"
definition CHUNK_STEMMED :: u8 where "CHUNK_STEMMED = 4"
definition CHUNK_EMBEDDING :: u8 where "CHUNK_EMBEDDING = 8"
definition CHUNK_STATE_SHIFT :: nat where "CHUNK_STATE_SHIFT = 4"
definition CHUNK_POSITIONS :: u8 where "CHUNK_POSITIONS = 64"
definition CHUNK_FLAGS :: u8 where "CHUNK_FLAGS = 0x7F"

definition representable :: "'j StoredDocument \<Rightarrow> bool" where
  "representable document =
     list_all (\<lambda>c. list_all (\<lambda>(a, b). a < b) (zip (indices (chunk_vector c)) (drop 1 (indices (chunk_vector c))))) (chunks document)"

fun state_bits :: "VectorState \<Rightarrow> u8" where
  "state_bits Encoded = 0"
| "state_bits Pending = 1"
| "state_bits Lexical = 2"

text \<open>The text of a chunk: its own, or the record of the attached segment.\<close>

definition resolve_text :: "(u8 list \<Rightarrow> u32) \<Rightarrow> bool \<Rightarrow> TextSegment option \<Rightarrow> StoredChunk \<Rightarrow> write_error + rstr option" where
  "resolve_text crc32 read_ok segment chunk =
     (case (chunk_text chunk, text_at chunk) of
        (Some t, _) \<Rightarrow> Inr (Some t)
      | (None, Some (p, len, checksum)) \<Rightarrow>
          (case segment of
             None \<Rightarrow> Inl SegmentNotAttached
           | Some s \<Rightarrow> (case segment_read crc32 read_ok s p len checksum of Inl e \<Rightarrow> Inl (SegmentRead e) | Inr t \<Rightarrow> Inr (Some t)))
      | (None, None) \<Rightarrow> Inr None)"

definition flag_if :: "bool \<Rightarrow> u8 \<Rightarrow> u8" where "flag_if b flag = (if b then flag else 0)"

definition chunk_flags :: "bool \<Rightarrow> rstr option \<Rightarrow> StoredChunk \<Rightarrow> u8" where
  "chunk_flags explicit_id txt chunk =
     flag_if explicit_id CHUNK_EXPLICIT_ID OR flag_if (txt \<noteq> None) CHUNK_TEXT OR flag_if (stemmed chunk) CHUNK_STEMMED
       OR flag_if (embedding chunk \<noteq> None) CHUNK_EMBEDDING OR push_bit CHUNK_STATE_SHIFT (state_bits (vector_state chunk))
       OR flag_if (st_positions (chunk_terms chunk) \<noteq> None) CHUNK_POSITIONS"

definition write_embedding :: "u32 list option \<Rightarrow> u8 list" where
  "write_embedding e =
     (case e of None \<Rightarrow> [] | Some values \<Rightarrow> put_varint (of_nat (length values)) @ concat (map (le_bytes 4) values))"

definition write_positions :: "Positions option \<Rightarrow> u8 list option" where
  "write_positions p =
     (case p of
        None \<Rightarrow> Some []
      | Some p \<Rightarrow> map_option (\<lambda>offs. version p # put_varint (of_nat (narrow_len (offsets p)))
          @ concat (map (put_varint \<circ> ucast) offs) @ put_bytes (pos_data p)) (narrow_iter (offsets p)))"

text \<open>
  One chunk.  \<open>put_gaps 0\<close> writes the first element itself and then the differences, as both loops
  over indices and term ids do.  The ids are taken from the front of the cursor.
\<close>

definition write_chunk :: "rstr \<Rightarrow> usize \<Rightarrow> rstr option \<Rightarrow> StoredChunk \<Rightarrow> u32 list \<Rightarrow> write_error + u8 list \<times> u32 list" where
  "write_chunk document index txt chunk cursor =
     (let explicit_id = \<not> is_chunk_id (chunk_name chunk) document index
      in case (terms_iter (chunk_terms chunk), write_positions (st_positions (chunk_terms chunk))) of
           (Some entries, Some positions) \<Rightarrow>
             let n = length entries
             in if length cursor < n then Inl OutOfIds
                else Inr ([chunk_flags explicit_id txt chunk]
                  @ (if explicit_id then put_bytes (chunk_name chunk) else [])
                  @ (case txt of None \<Rightarrow> [] | Some t \<Rightarrow> put_bytes t)
                  @ put_varint (ucast (start_byte chunk))
                  @ put_varint (ucast (end_byte chunk))
                  @ put_varint (of_nat (word_count chunk))
                  @ put_varint (of_nat (dim (chunk_vector chunk)))
                  @ put_varint (of_nat (length (indices (chunk_vector chunk))))
                  @ put_gaps 0 (indices (chunk_vector chunk))
                  @ write_embedding (embedding chunk)
                  @ put_varint (of_nat n)
                  @ put_gaps 0 (take n cursor)
                  @ concat (map (put_varint \<circ> ucast \<circ> snd) entries)
                  @ positions, drop n cursor)
         | _ \<Rightarrow> Inl WritePanic)"

fun write_chunks :: "(StoredChunk \<Rightarrow> write_error + rstr option) \<Rightarrow> rstr \<Rightarrow> usize \<Rightarrow> StoredChunk list \<Rightarrow> u32 list
    \<Rightarrow> write_error + u8 list \<times> u32 list" where
  "write_chunks text_of document index [] cursor = Inr ([], cursor)"
| "write_chunks text_of document index (chunk # rest) cursor =
     (case text_of chunk of
        Inl e \<Rightarrow> Inl e
      | Inr txt \<Rightarrow>
          (case write_chunk document index txt chunk cursor of
             Inl e \<Rightarrow> Inl e
           | Inr (bytes, cursor) \<Rightarrow>
               (case write_chunks text_of document (Suc index) rest cursor of
                  Inl e \<Rightarrow> Inl e
                | Inr (more_bytes, cursor) \<Rightarrow> Inr (bytes @ more_bytes, cursor))))"

definition write_document :: "('j \<Rightarrow> u8 list option) \<Rightarrow> (StoredChunk \<Rightarrow> write_error + rstr option) \<Rightarrow> 'j StoredDocument
    \<Rightarrow> u32 list \<Rightarrow> write_error + u8 list \<times> u32 list" where
  "write_document to_vec text_of document cursor =
     (case to_vec (doc_metadata document) of
        None \<Rightarrow> Inl JsonWrite
      | Some json \<Rightarrow>
          (case write_chunks text_of (document_id document) 0 (chunks document) cursor of
             Inl e \<Rightarrow> Inl e
           | Inr (bytes, cursor) \<Rightarrow>
               Inr (put_bytes (document_id document)
                 @ (case source_uri document of None \<Rightarrow> [0] | Some uri \<Rightarrow> 1 # put_bytes uri)
                 @ put_bytes (document_version document) @ put_bytes json
                 @ put_varint (of_nat (length (chunks document))) @ bytes, cursor)))"

section \<open>Reading\<close>

definition read_state :: "u8 \<Rightarrow> VectorState option" where
  "read_state flags =
     (let s = drop_bit CHUNK_STATE_SHIFT flags AND 3
      in if s = 0 then Some Encoded else if s = 1 then Some Pending else if s = 2 then Some Lexical else None)"

definition read_index :: "u32 option \<Rightarrow> (u32 \<times> u32 option) reads" where
  "read_index previous =
     rd_bind (rd_number u32_try_from) (\<lambda>gap.
       case previous of
         None \<Rightarrow> rd_ok (gap, Some gap)
       | Some p \<Rightarrow> rd_ensure (unat p + unat gap < 2 ^ 32) (Malformed ''vector index overflows'') (rd_ok (p + gap, Some (p + gap))))"

definition read_value :: "unit \<Rightarrow> (u32 \<times> unit) reads" where
  "read_value _ = rd_bind (take_bytes 4) (\<lambda>bs. rd_ok (of_le_bytes bs, ()))"

definition read_embedding :: "bool \<Rightarrow> u32 list option reads" where
  "read_embedding present =
     (if present then rd_bind (read_count 4) (\<lambda>n. rd_bind (read_loop read_value n ()) (\<lambda>(values, _). rd_ok (Some values)))
      else rd_ok None)"

definition read_term_id :: "usize \<Rightarrow> usize option \<Rightarrow> (usize \<times> usize option) reads" where
  "read_term_id known_terms previous =
     rd_bind (rd_number usize_try_from) (\<lambda>gap.
       let known = (\<lambda>i. rd_ensure (i < known_terms) (Malformed ''term id is not in the dictionary'') (rd_ok (i, Some i)))
       in case previous of
            None \<Rightarrow> known gap
          | Some p \<Rightarrow>
              rd_ensure (gap > 0) (Malformed ''term ids are not strictly ascending'')
                (rd_ensure (p + gap < 2 ^ 64) (Malformed ''term id overflows'') (known (p + gap))))"

definition read_u32 :: "unit \<Rightarrow> (u32 \<times> unit) reads" where
  "read_u32 _ = rd_bind (rd_number u32_try_from) (\<lambda>v. rd_ok (v, ()))"

definition read_positions :: "bool \<Rightarrow> usize \<Rightarrow> StoredTerms \<Rightarrow> StoredTerms reads" where
  "read_positions present term_count table =
     (if present then
        rd_bind read_byte (\<lambda>v.
        rd_ensure (v \<in> {POSITIONS_VERSION, DOCUMENT_VERSION}) (Malformed ''positional postings version is newer than supported'')
        (rd_bind (read_count 1) (\<lambda>n.
         rd_ensure (n = term_count + 1) (Malformed ''positional term count mismatch'')
         (rd_bind (read_loop read_u32 n ()) (\<lambda>(offs, _).
          rd_bind read_bytes (\<lambda>bytes.
          rd_ensure (length bytes \<le> MAX_DOCUMENT_BYTES) (Malformed ''positional payload exceeds document limit'')
            (let positions = \<lparr>version = v, offsets = narrow_from offs, pos_data = bytes\<rparr>
             in case terms_iter table of
                  None \<Rightarrow> rd_fail Panic
                | Some entries \<Rightarrow>
                    (case validate positions entries of
                       Inl e \<Rightarrow> rd_fail e
                     | Inr _ \<Rightarrow> rd_ok (table\<lparr>st_positions := Some positions\<rparr>)))))))))
      else rd_ok table)"

text \<open>A set bit of the flags.\<close>

definition has_flag :: "u8 \<Rightarrow> u8 \<Rightarrow> bool" where "has_flag flags flag \<longleftrightarrow> flags AND flag \<noteq> 0"

definition read_terms :: "SharedDictionary arc \<Rightarrow> bool \<Rightarrow> StoredTerms reads" where
  "read_terms dictionary positions =
     rd_bind (read_count 2) (\<lambda>n.
     rd_bind (read_loop (read_term_id (dictionary_len (arc_get dictionary))) n None) (\<lambda>(ids, _).
     rd_bind (read_loop read_u32 n ()) (\<lambda>(frequencies, _).
       case those (map u32_from_usize ids) of
         None \<Rightarrow> rd_fail Panic
       | Some ids \<Rightarrow>
           (case from_dictionary dictionary ids frequencies of
              None \<Rightarrow> rd_fail Panic
            | Some table \<Rightarrow> read_positions positions n table))))"

definition read_chunk :: "SharedDictionary arc \<Rightarrow> rstr \<Rightarrow> usize \<Rightarrow> (StoredChunk \<times> usize) reads" where
  "read_chunk dictionary document index =
     rd_bind read_byte (\<lambda>flags.
     rd_ensure (flags AND NOT CHUNK_FLAGS = 0) (Malformed ''chunk flags are invalid'')
     (case read_state flags of
        None \<Rightarrow> rd_fail (Malformed ''vector state is invalid'')
      | Some state \<Rightarrow>
          rd_bind (if has_flag flags CHUNK_EXPLICIT_ID then read_str else rd_ok (chunk_id document index)) (\<lambda>name.
          rd_bind (if has_flag flags CHUNK_TEXT then rd_bind read_str (rd_ok \<circ> Some) else rd_ok None) (\<lambda>txt.
          rd_bind (rd_number u32_try_from) (\<lambda>start.
          rd_bind (rd_number u32_try_from) (\<lambda>stop.
          rd_bind (rd_number usize_try_from) (\<lambda>words.
          rd_bind (rd_number usize_try_from) (\<lambda>d.
          rd_bind (read_count 1) (\<lambda>index_count.
          rd_bind (read_loop read_index index_count None) (\<lambda>(ixs, _).
          rd_bind (read_embedding (has_flag flags CHUNK_EMBEDDING)) (\<lambda>e.
          rd_bind (read_terms dictionary (has_flag flags CHUNK_POSITIONS)) (\<lambda>table.
            rd_ok (\<lparr>chunk_name = name, chunk_text = txt, text_at = None, start_byte = start, end_byte = stop,
              chunk_vector = \<lparr>dim = d, indices = ixs\<rparr>, embedding = e, chunk_terms = table, word_count = words,
              stemmed = has_flag flags CHUNK_STEMMED, vector_state = state\<rparr>, Suc index)))))))))))))"

definition read_source :: "rstr option reads" where
  "read_source =
     rd_bind read_byte (\<lambda>source.
       if source = 0 then rd_ok None
       else if source = 1 then rd_bind read_str (rd_ok \<circ> Some)
       else rd_fail (Malformed ''source flag is invalid''))"

text \<open>
  \<open>compact_metadata\<close> only gives back spare capacity of the parsed value.
\<close>

definition read_document :: "(u8 list \<Rightarrow> 'j option) \<Rightarrow> SharedDictionary arc \<Rightarrow> 'j StoredDocument reads" where
  "read_document from_slice dictionary =
     rd_bind read_str (\<lambda>name.
     rd_bind read_source (\<lambda>uri.
     rd_bind read_str (\<lambda>v.
     rd_bind read_bytes (\<lambda>json.
     case from_slice json of
       None \<Rightarrow> rd_fail JsonError
     | Some metadata \<Rightarrow>
         rd_bind (read_count 8) (\<lambda>n.
         rd_bind (read_loop (read_chunk dictionary name) n 0) (\<lambda>(cs, _).
           rd_ok \<lparr>document_id = name, source_uri = uri, document_version = v, doc_metadata = metadata, chunks = cs\<rparr>))))))"

section \<open>Chunk ids and flags\<close>

lemma strip_parts_concat: "strip_parts parts rest \<longleftrightarrow> rest = concat parts"
proof (induction parts arbitrary: rest)
  case (Cons part parts)
  show ?case
  proof (cases "take (length part) rest = part")
    case True
    then have "rest = part @ drop (length part) rest" by (metis append_take_drop_id)
    then have "rest = concat (part # parts) \<longleftrightarrow> drop (length part) rest = concat parts" by (metis concat.simps(2) same_append_eq)
    then show ?thesis using True Cons.IH by (simp add: strip_bytes_def)
  next
    case False
    then have "rest \<noteq> part @ concat parts" by auto
    then show ?thesis using False by (simp add: strip_bytes_def)
  qed
qed simp

lemma is_chunk_id_exact: "is_chunk_id name document index \<longleftrightarrow> name = chunk_id document index"
  by (simp add: is_chunk_id_def chunk_id_def strip_parts_concat)

lemma decimal_fits: "n < 10 ^ Suc k \<Longrightarrow> length (usize_decimal n buffer) \<le> Suc k + length buffer"
proof (induction k arbitrary: n buffer)
  case (Suc k)
  then have "n div 10 < 10 ^ Suc k" by (simp add: less_mult_imp_div_less)
  then show ?case using Suc.IH [of "n div 10" "of_nat (48 + n mod 10) # buffer"]
    by (subst usize_decimal.simps) (simp add: Let_def)
next
  case 0
  then show ?case by (subst usize_decimal.simps) (simp add: Let_def)
qed

lemma decimal_fits_buffer: "n < 2 ^ 64 \<Longrightarrow> length (usize_decimal n []) \<le> 20"
  using decimal_fits [of n 19 "[]"] by simp

lemmas flag_defs = CHUNK_EXPLICIT_ID_def CHUNK_TEXT_def CHUNK_STEMMED_def CHUNK_EMBEDDING_def CHUNK_STATE_SHIFT_def
  CHUNK_POSITIONS_def CHUNK_FLAGS_def

lemma chunk_flags_read:
  "chunk_flags e t c AND NOT CHUNK_FLAGS = 0" "read_state (chunk_flags e t c) = Some (vector_state c)"
  "has_flag (chunk_flags e t c) CHUNK_EXPLICIT_ID \<longleftrightarrow> e" "has_flag (chunk_flags e t c) CHUNK_TEXT \<longleftrightarrow> t \<noteq> None"
  "has_flag (chunk_flags e t c) CHUNK_STEMMED \<longleftrightarrow> stemmed c" "has_flag (chunk_flags e t c) CHUNK_EMBEDDING \<longleftrightarrow> embedding c \<noteq> None"
  "has_flag (chunk_flags e t c) CHUNK_POSITIONS \<longleftrightarrow> st_positions (chunk_terms c) \<noteq> None"
  by (cases e; cases "t \<noteq> None"; cases "stemmed c"; cases "embedding c \<noteq> None"; cases "st_positions (chunk_terms c) \<noteq> None";
      cases "vector_state c"; simp add: chunk_flags_def flag_if_def has_flag_def read_state_def flag_defs Let_def)+

section \<open>Reading numbers in sequence\<close>

lemma put_gaps_concat:
  "put_gaps b xs = concat (map (\<lambda>i. put_varint (ucast (xs ! i - (if i = 0 then b else xs ! (i - 1))))) [0..<length xs])"
proof (induction xs arbitrary: b)
  case (Cons x xs)
  have "map (\<lambda>i. put_varint (ucast ((x # xs) ! Suc i - (if Suc i = 0 then b else (x # xs) ! (Suc i - 1))))) [0..<length xs] =
      map (\<lambda>i. put_varint (ucast (xs ! i - (if i = 0 then x else xs ! (i - 1))))) [0..<length xs]"
    by (rule map_cong [OF refl]) (auto simp: nth_Cons')
  then show ?case unfolding Cons.IH [of x] put_gaps.simps
    by (simp only: length_Cons map_upt_Suc list.map concat.simps) simp
qed simp

lemma put_gaps_length: "length xs \<le> length (put_gaps b xs)"
proof (induction xs arbitrary: b)
  case (Cons x xs)
  show ?case using add_mono [OF put_varint_length [of "ucast (x - b)"] Cons.IH [of x]] by simp
qed simp

lemma gap_back:
  fixes p x :: u32
  assumes "p < x"
  shows "p + (x - p) = x" "unat p + unat (x - p) = unat x" "unat (x - p) > 0"
  using assms unat_sub [OF less_imp_le [OF assms]] by (auto simp: word_less_nat_alt)

lemma ssorted_step: "ssorted xs \<Longrightarrow> i < length xs \<Longrightarrow> i \<noteq> 0 \<Longrightarrow> xs ! (i - 1) < xs ! i"
  by (metis diff_less gr0I less_one sorted_wrt_nth_less)

lemma reads_as_indices:
  assumes "ssorted xs"
  shows "\<exists>s. reads_as (read_loop read_index (length xs) None) (put_gaps 0 xs) (xs, s) 0"
proof -
  let ?s = "\<lambda>i. if i = 0 then None else Some (xs ! (i - 1))"
  have "reads_as (read_loop read_index (length xs) (?s 0))
      (concat (map (\<lambda>i. put_varint (ucast (xs ! i - (if i = 0 then 0 else xs ! (i - 1))))) [0..<length xs])) (xs, ?s (length xs)) 0"
  proof (rule reads_as_loop)
    fix i assume i: "i < length xs"
    have "i \<noteq> 0 \<Longrightarrow> xs ! (i - 1) < xs ! i" by (rule ssorted_step [OF assms i])
    then show "reads_as (read_index (?s i)) (put_varint (ucast (xs ! i - (if i = 0 then 0 else xs ! (i - 1))))) (xs ! i, ?s (Suc i)) 0"
      unfolding read_index_def
      by (intro reads_as_last [OF reads_as_u32])
        (auto simp: rd_ensure_def reads_as_ok gap_back unat_u32_bound)
  qed
  then show ?thesis using put_gaps_concat [of 0 xs] by auto
qed

lemma reads_as_numbers: "reads_as (read_loop read_u32 (length xs) ()) (concat (map (put_varint \<circ> ucast) xs)) (xs, ()) 0"
proof -
  have "reads_as (read_loop read_u32 (length xs) ((\<lambda>_. ()) 0)) (concat (map (\<lambda>i. put_varint (ucast (xs ! i))) [0..<length xs])) (xs, (\<lambda>_. ()) (length xs)) 0"
    by (rule reads_as_loop, unfold read_u32_def) (intro reads_as_last [OF reads_as_u32], simp add: reads_as_ok)
  moreover have "map (\<lambda>i. put_varint (ucast (xs ! i))) [0..<length xs] = map (put_varint \<circ> ucast) xs"
    by (rule nth_equalityI) simp_all
  ultimately show ?thesis by simp
qed

lemma numbers_length: "length xs \<le> length (concat (map (put_varint \<circ> ucast) (xs :: u32 list)))"
proof (induction xs)
  case (Cons x xs)
  show ?case using add_mono [OF put_varint_length [of "ucast x"] Cons.IH] by simp
qed simp

lemma reads_as_values: "reads_as (read_loop read_value (length xs) ()) (concat (map (le_bytes 4) xs)) (xs, ()) 0"
proof -
  have "reads_as (read_loop read_value (length xs) ((\<lambda>_. ()) 0)) (concat (map (\<lambda>i. le_bytes 4 (xs ! i)) [0..<length xs])) (xs, (\<lambda>_. ()) (length xs)) 0"
    by (rule reads_as_loop, unfold read_value_def) (intro reads_as_last [OF reads_as_take], simp_all add: reads_as_ok)
  moreover have "map (\<lambda>i. le_bytes 4 (xs ! i)) [0..<length xs] = map (le_bytes 4) xs"
    by (rule nth_equalityI) simp_all
  ultimately show ?thesis by simp
qed

lemma values_length: "length (concat (map (le_bytes 4) xs)) = 4 * length xs"
  by (induction xs) auto

lemma reads_as_embedding:
  assumes "\<forall>vs. e = Some vs \<longrightarrow> length vs < 2 ^ 64"
  shows "reads_as (read_embedding (e \<noteq> None)) (write_embedding e) e 0"
proof (cases e)
  case None
  then show ?thesis by (simp add: read_embedding_def write_embedding_def reads_as_ok)
next
  case (Some vs)
  then have "length vs < 2 ^ 64" using assms by blast
  then show ?thesis
    unfolding read_embedding_def write_embedding_def Some
    by (simp, intro reads_as_counted)
      (auto simp: values_length reads_as_ok intro: reads_as_last [OF reads_as_values])
qed

section \<open>Term tables\<close>

text \<open>What the stored form keeps of positions: the numbers, whatever the width of the offsets.\<close>

definition positions_view :: "Positions \<Rightarrow> u8 \<times> u32 list option \<times> u8 list" where
  "positions_view p = (version p, narrow_iter (offsets p), pos_data p)"

lemma narrow_get_iter:
  assumes "narrow_iter f = Some xs"
  shows "narrow_len f = length xs" "narrow_get f i = slice_get xs i"
proof -
  have m: "map (narrow_get f) [0..<narrow_len f] = map Some xs" using assms by (simp add: narrow_iter_def those_Some)
  then show l: "narrow_len f = length xs" by (metis length_map map_nth minus_nat.diff_0 length_upt)
  show "narrow_get f i = slice_get xs i"
  proof (cases "i < length xs")
    case True
    then have "map (narrow_get f) [0..<narrow_len f] ! i = narrow_get f i" using l by simp
    then show ?thesis using True m by (simp add: slice_get_def)
  next
    case False
    then show ?thesis using l by (cases f) (auto simp: slice_get_def)
  qed
qed

lemma pos_bytes_view:
  assumes "positions_view p = positions_view q" "narrow_iter (offsets p) = Some offs"
  shows "pos_bytes p i = pos_bytes q i"
  using assms narrow_get_iter(2) [of "offsets p" offs] narrow_get_iter(2) [of "offsets q" offs]
  by (auto simp: positions_view_def pos_bytes_def split: option.splits)

lemma validate_view:
  assumes "positions_view p = positions_view q" "narrow_iter (offsets p) = Some offs"
  shows "validate p es = validate q es"
proof -
  note b = pos_bytes_view [OF assms]
  have e: "version p = version q" "narrow_iter (offsets p) = narrow_iter (offsets q)" "pos_data p = pos_data q"
    using assms(1) by (simp_all add: positions_view_def)
  have ok: "offsets_ok p (length es) = offsets_ok q (length es)" unfolding offsets_ok_def e ..
  have vt: "validate_terms p es k n m = validate_terms q es k n m" for k n m
    by (induction es arbitrary: k n m) (auto simp: b split: option.splits sum.splits)
  have mt: "mark_terms p n seen ks = mark_terms q n seen ks" for n seen ks
    by (induction ks arbitrary: seen) (auto simp: b pos_iter_def split: option.splits sum.splits)
  show ?thesis unfolding validate_def e(1) ok vt mt ..
qed

lemma validate_accepts:
  assumes "validate p es = Inr u"
  obtains offs where "narrow_iter (offsets p) = Some offs" "length offs = length es + 1" "version p \<in> {POSITIONS_VERSION, DOCUMENT_VERSION}"
    "length (pos_data p) \<le> MAX_DOCUMENT_BYTES"
  using assms by (auto simp: validate_def offsets_ok_def split: if_splits option.splits)

lemma reads_as_positions:
  assumes "terms_iter table = Some es" "st_positions table = None" "write_positions positions = Some bytes" "length es < 2 ^ 32"
    and v: "\<And>p. positions = Some p \<Longrightarrow> validate p es = Inr ()"
  shows "\<exists>positions'. reads_as (read_positions (positions \<noteq> None) (length es) table) bytes (table\<lparr>st_positions := positions'\<rparr>) 0 \<and>
    map_option positions_view positions' = map_option positions_view positions"
proof (cases positions)
  case None
  then have "reads_as (read_positions (positions \<noteq> None) (length es) table) bytes (table\<lparr>st_positions := None\<rparr>) 0"
    using assms(2,3) by (cases table) (simp add: write_positions_def read_positions_def reads_as_ok)
  then show ?thesis using None by auto
next
  case (Some p)
  obtain offs where o: "narrow_iter (offsets p) = Some offs" "length offs = length es + 1" "version p \<in> {POSITIONS_VERSION, DOCUMENT_VERSION}"
      "length (pos_data p) \<le> MAX_DOCUMENT_BYTES"
    by (rule validate_accepts [OF v [OF Some]])
  define q where "q = \<lparr>version = version p, offsets = narrow_from offs, pos_data = pos_data p\<rparr>"
  have view: "positions_view q = positions_view p" using o(1) by (simp add: q_def positions_view_def)
  have q: "validate q es = Inr ()" using validate_view [OF view [symmetric] o(1), of es] v [OF Some] by simp
  have bytes: "bytes = version p # put_varint (of_nat (length offs)) @ concat (map (put_varint \<circ> ucast) offs) @ put_bytes (pos_data p)"
    using assms(3) Some o(1) narrow_get_iter(1) [OF o(1)] by (simp add: write_positions_def)
  have fin: "reads_as (let positions = \<lparr>version = version p, offsets = narrow_from offs, pos_data = pos_data p\<rparr> in case terms_iter table of
        None \<Rightarrow> rd_fail Panic | Some entries \<Rightarrow> (case validate positions entries of Inl e \<Rightarrow> rd_fail e | Inr _ \<Rightarrow> rd_ok (table\<lparr>st_positions := Some positions\<rparr>)))
      [] (table\<lparr>st_positions := Some q\<rparr>) 0"
    unfolding q_def [symmetric] Let_def by (simp add: assms(1) q reads_as_ok)
  have small: "length offs < 2 ^ 64" "length (pos_data p) < 2 ^ 64" using o(2,4) assms(4) by (simp_all add: MAX_DOCUMENT_BYTES_def)
  have "reads_as (read_positions True (length es) table) bytes (table\<lparr>st_positions := Some q\<rparr>) 0"
    unfolding read_positions_def if_True bytes
    apply (rule reads_as_byte_then)
    apply (rule reads_as_ensure [OF o(3)])
    apply (rule reads_as_counted [OF small(1)])
     apply (use numbers_length [of offs] in simp)
    apply (rule reads_as_ensure [OF o(2)])
    apply (rule reads_as_bind0 [OF reads_as_numbers])
    apply (unfold prod.case)
    apply (rule reads_as_last [OF reads_as_bytes [OF small(2)]])
    apply (rule reads_as_ensure [OF o(4)])
    apply (rule fin)
    done
  then show ?thesis using Some view by auto
qed

lemma terms_iter_positions [simp]: "terms_iter (t\<lparr>st_positions := p\<rparr>) = terms_iter t"
  by (simp add: terms_iter_def)

definition ids_in :: "rstr list \<Rightarrow> (rstr \<times> u32) list \<Rightarrow> u32 list" where
  "ids_in words entries = map (\<lambda>e. of_nat (the (position_of (fst e) words))) entries"

lemma ids_in_words:
  assumes "good_words words" "set (map fst entries) \<subseteq> set words" "ssorted (map fst entries)"
  shows "\<forall>i \<in> set (ids_in words entries). unat i < length words"
    "map (\<lambda>i. words ! unat i) (ids_in words entries) = map fst entries" "ssorted (ids_in words entries)"
proof -
  have k: "unat (of_nat (the (position_of (fst e) words)) :: u32) = the (position_of (fst e) words)"
    "the (position_of (fst e) words) < length words" "words ! the (position_of (fst e) words) = fst e" if "e \<in> set entries" for e
    using that assms(2) position_the [of "fst e" words] good_words_small [OF assms(1)] unat_of_nat32 by auto
  then show "\<forall>i \<in> set (ids_in words entries). unat i < length words" by (auto simp: ids_in_def)
  show m: "map (\<lambda>i. words ! unat i) (ids_in words entries) = map fst entries" using k by (simp add: ids_in_def)
  have "a < b" if "a \<in> set (ids_in words entries)" "b \<in> set (ids_in words entries)" "words ! unat a < words ! unat b" for a b
  proof (rule ccontr)
    assume "\<not> a < b"
    then have "unat b \<le> unat a" by (simp add: word_le_nat_alt not_less)
    moreover have "unat a < length words" using that(1) k by (auto simp: ids_in_def)
    ultimately have "words ! unat b \<le> words ! unat a"
      using assms(1) sorted_nth_mono [OF ssorted_sorted] by (auto simp: good_words_def)
    then show False using that(3) by simp
  qed
  moreover have "sorted_wrt (\<lambda>a b. words ! unat a < words ! unat b) (ids_in words entries)"
    using assms(3) unfolding m [symmetric] sorted_wrt_map .
  ultimately show "ssorted (ids_in words entries)"
    using sorted_wrt_mono_rel [of "ids_in words entries" "\<lambda>a b. words ! unat a < words ! unat b" "(<)"] by blast
qed

lemma ucast_of_unat: "(ucast (w :: u32) :: u64) = of_nat (unat w)"
  by simp

lemma reads_as_ids:
  assumes "ssorted ids" "\<forall>i \<in> set ids. unat i < n"
  shows "\<exists>s. reads_as (read_loop (read_term_id n) (length ids) None) (put_gaps 0 ids) (map unat ids, s) 0"
proof -
  let ?s = "\<lambda>i. if i = 0 then None else Some (unat (ids ! (i - 1)))"
  have "reads_as (read_loop (read_term_id n) (length (map unat ids)) (?s 0))
      (concat (map (\<lambda>i. put_varint (ucast (ids ! i - (if i = 0 then 0 else ids ! (i - 1))))) [0..<length (map unat ids)]))
      (map unat ids, ?s (length (map unat ids))) 0"
  proof (rule reads_as_loop)
    fix i assume "i < length (map unat ids)"
    then have i: "i < length ids" by simp
    then have step: "i \<noteq> 0 \<Longrightarrow> ids ! (i - 1) < ids ! i" by (rule ssorted_step [OF assms(1)])
    let ?g = "ids ! i - (if i = 0 then 0 else ids ! (i - 1))"
    have g: "unat ?g < 2 ^ 64" by (rule less_trans [OF unat_u32_bound]) simp
    have c: "put_varint (ucast ?g) = put_varint (of_nat (unat ?g))" by (rule arg_cong [OF ucast_of_unat])
    have "unat (ids ! i) < n" "unat (ids ! i) < 2 ^ 64" using assms(2) i unat_u32_bound [of "ids ! i"] by auto
    then have "reads_as (let known = (\<lambda>i. rd_ensure (i < n) (Malformed ''term id is not in the dictionary'') (rd_ok (i, Some i)))
       in case ?s i of None \<Rightarrow> known (unat ?g)
          | Some p \<Rightarrow> rd_ensure (unat ?g > 0) (Malformed ''term ids are not strictly ascending'')
                (rd_ensure (p + unat ?g < 2 ^ 64) (Malformed ''term id overflows'') (known (p + unat ?g))))
        [] (map unat ids ! i, ?s (Suc i)) 0"
      using i gap_back [OF step] by (cases "i = 0") (simp_all add: rd_ensure_def reads_as_ok)
    then show "reads_as (read_term_id n (?s i)) (put_varint (ucast ?g)) (map unat ids ! i, ?s (Suc i)) 0"
      unfolding read_term_id_def c by (rule reads_as_last [OF reads_as_usize [OF g]])
  qed
  then show ?thesis using put_gaps_concat [of 0 ids] by auto
qed

text \<open>A table of a chunk, its ids taken from the dictionary of the frame.\<close>

lemma reads_as_table:
  assumes d: "dictionary_of address words dictionary" and t: "table_of terms es"
    and w: "set (map fst es) \<subseteq> set words" and p: "write_positions (st_positions terms) = Some bytes"
    and v: "\<And>p. st_positions terms = Some p \<Longrightarrow> validate p es = Inr ()"
  shows "\<exists>table. reads_as (read_terms dictionary (st_positions terms \<noteq> None))
      (put_varint (of_nat (length es)) @ put_gaps 0 (ids_in words es) @ concat (map (put_varint \<circ> ucast \<circ> snd) es) @ bytes) table 0 \<and>
    terms_iter table = Some es \<and> map_option positions_view (st_positions table) = map_option positions_view (st_positions terms)"
proof -
  have g: "good_words words" using d by (simp add: dictionary_of_def)
  obtain dict where dict: "dictionary_new words = Some dict" "dictionary = Arc address dict" using d by (auto simp: dictionary_of_def)
  have ss: "ssorted (map fst es)" using t by (simp add: table_of_def)
  note i = ids_in_words [OF g w ss]
  let ?ids = "ids_in words es"
  have len: "length ?ids = length es" "length es < 2 ^ 32"
  proof -
    show "length ?ids = length es" by (simp add: ids_in_def)
    have "card (set (map fst es)) \<le> card (set words)" by (rule card_mono) (use w in auto)
    then have "length es \<le> length words" using ssorted_card [OF ss] g by (simp add: good_words_def ssorted_card)
    then show "length es < 2 ^ 32" using good_words_small [OF g] by simp
  qed
  have dl: "dictionary_len dict = length words" using dictionary_new_good [OF g] dict(1) by (auto simp: dictionary_len_def)
  obtain s where ids: "reads_as (read_loop (read_term_id (length words)) (length es) None) (put_gaps 0 ?ids) (map unat ?ids, s) 0"
    using reads_as_ids [OF i(3,1)] len(1) by auto
  have fs: "reads_as (read_loop read_u32 (length es) ()) (concat (map (put_varint \<circ> ucast \<circ> snd) es)) (map snd es, ()) 0"
    using reads_as_numbers [of "map snd es"] by (simp add: comp_assoc)
  have idw: "those (map u32_from_usize (map unat ?ids)) = Some ?ids"
    using unat_u32_bound by (simp add: u32_from_usize_def comp_def)
  have "\<exists>table. from_dictionary dictionary ?ids (map snd es) = Some table \<and> st_positions table = None"
    using len(1) by (cases "?ids = []") (simp_all add: from_dictionary_def terms_default_def Let_def)
  then obtain table where table: "from_dictionary dictionary ?ids (map snd es) = Some table" "st_positions table = None" by blast
  have "table_of table (zip (map (\<lambda>i. words ! unat i) ?ids) (map snd es))"
    using from_dictionary_table [OF dict(1) _ _ _ i(3,1) table(1) [unfolded dict(2)]] g good_words_small [OF g] by (simp add: good_words_def)
  then have it: "terms_iter table = Some es" using table_iter i(2) by (simp add: zip_map_fst_snd)
  obtain positions' where r: "reads_as (read_positions (st_positions terms \<noteq> None) (length es) table) bytes (table\<lparr>st_positions := positions'\<rparr>) 0"
    and view: "map_option positions_view positions' = map_option positions_view (st_positions terms)"
    using reads_as_positions [OF it table(2) p len(2) v] by blast
  have "reads_as (read_terms dictionary (st_positions terms \<noteq> None))
      (put_varint (of_nat (length es)) @ put_gaps 0 ?ids @ concat (map (put_varint \<circ> ucast \<circ> snd) es) @ bytes) (table\<lparr>st_positions := positions'\<rparr>) 0"
    unfolding read_terms_def
  proof (rule reads_as_counted)
    show "length es < 2 ^ 64" using len(2) by simp
    show "length es * max 2 1 \<le> length (put_gaps 0 ?ids @ concat (map (put_varint \<circ> ucast \<circ> snd) es) @ bytes)"
      using put_gaps_length [of ?ids 0] numbers_length [of "map snd es"] len(1) by (simp add: comp_assoc)
    show "reads_as (rd_bind (read_loop (read_term_id (dictionary_len (arc_get dictionary))) (length es) None) (\<lambda>(ids, _).
      rd_bind (read_loop read_u32 (length es) ()) (\<lambda>(frequencies, _).
       case those (map u32_from_usize ids) of None \<Rightarrow> rd_fail Panic
       | Some ids \<Rightarrow> (case from_dictionary dictionary ids frequencies of None \<Rightarrow> rd_fail Panic
            | Some table \<Rightarrow> read_positions (st_positions terms \<noteq> None) (length es) table))))
      (put_gaps 0 ?ids @ concat (map (put_varint \<circ> ucast \<circ> snd) es) @ bytes) (table\<lparr>st_positions := positions'\<rparr>) 0"
      apply (rule reads_as_bind0 [where x = "(map unat ?ids, s)"])
       apply (simp add: dict(2) dl ids)
      apply (unfold prod.case)
      apply (rule reads_as_bind0 [OF fs])
      apply (unfold prod.case idw option.case table(1))
      apply (rule r)
      done
  qed
  then show ?thesis using it view by (intro exI [of _ "table\<lparr>st_positions := positions'\<rparr>"]) simp
qed

section \<open>A chunk is read back\<close>

definition carries :: "rstr option \<Rightarrow> StoredChunk \<Rightarrow> StoredChunk \<Rightarrow> bool" where
  "carries txt c c' \<longleftrightarrow> c\<lparr>chunk_text := txt, text_at := None, chunk_terms := terms_default\<rparr> = c'\<lparr>chunk_terms := terms_default\<rparr> \<and>
     terms_iter (chunk_terms c') = terms_iter (chunk_terms c) \<and>
     map_option positions_view (st_positions (chunk_terms c')) = map_option positions_view (st_positions (chunk_terms c))"

text \<open>
  A stored chunk: what the types of the program and \<open>validate_mutation\<close> give, that is text in UTF-8,
  sizes within the machine, ascending vector indices, a term table and its validated positions.
\<close>

definition chunk_ok :: "rstr option \<Rightarrow> StoredChunk \<Rightarrow> (rstr \<times> u32) list \<Rightarrow> bool" where
  "chunk_ok txt c es \<longleftrightarrow>
     utf8_valid (chunk_name c) \<and> length (chunk_name c) < 2 ^ 64 \<and>
     (\<forall>t. txt = Some t \<longrightarrow> utf8_valid t \<and> length t < 2 ^ 64) \<and>
     word_count c < 2 ^ 64 \<and> dim (chunk_vector c) < 2 ^ 64 \<and> length (indices (chunk_vector c)) < 2 ^ 64 \<and>
     ssorted (indices (chunk_vector c)) \<and> (\<forall>vs. embedding c = Some vs \<longrightarrow> length vs < 2 ^ 64) \<and>
     table_of (chunk_terms c) es \<and> (\<forall>k \<in> set (map fst es). utf8_valid k) \<and>
     (\<forall>p. st_positions (chunk_terms c) = Some p \<longrightarrow> validate p es = Inr ())"

text \<open>A chunk that takes at least the eight bytes the reader expects of one.\<close>

definition roomy :: "rstr \<Rightarrow> usize \<Rightarrow> rstr option \<Rightarrow> StoredChunk \<Rightarrow> bool" where
  "roomy document index txt c \<longleftrightarrow> \<not> is_chunk_id (chunk_name c) document index \<or> txt \<noteq> None \<or> 128 \<le> dim (chunk_vector c) \<or>
     128 \<le> unat (start_byte c) \<or> 128 \<le> unat (end_byte c) \<or> 128 \<le> word_count c \<or>
     indices (chunk_vector c) \<noteq> [] \<or> embedding c \<noteq> None \<or> terms_iter (chunk_terms c) \<noteq> Some [] \<or> st_positions (chunk_terms c) \<noteq> None"

lemma varint_long: "128 \<le> unat v \<Longrightarrow> 2 \<le> length (put_varint v)"
  using put_varint_length [of "drop_bit 7 v"] by (subst put_varint.simps) (simp add: word_le_nat_alt)

lemma put_bytes_long: "1 \<le> length (put_bytes bs)"
  using put_varint_length [of "of_nat (length bs)"] by (simp add: put_bytes_def)

lemma write_positions_total: "\<exists>bytes. write_positions p = Some bytes \<and> (p \<noteq> None \<longrightarrow> 1 \<le> length bytes)"
proof -
  have "narrow_iter f = Some (map (the \<circ> narrow_get f) [0..<narrow_len f])" for f
    unfolding narrow_iter_def by (rule those_map_eqI) (cases f; simp add: slice_get_def)
  then obtain xs where "narrow_iter (offsets (the p)) = Some xs" by blast
  then show ?thesis by (cases p) (auto simp: write_positions_def)
qed

text \<open>The bytes of a chunk with the entries \<open>es\<close>, the ids \<open>ids\<close> and the written positions \<open>pos\<close>.\<close>

definition chunk_bytes :: "rstr \<Rightarrow> usize \<Rightarrow> rstr option \<Rightarrow> StoredChunk \<Rightarrow> (rstr \<times> u32) list \<Rightarrow> u32 list \<Rightarrow> u8 list \<Rightarrow> u8 list" where
  "chunk_bytes document index txt c es ids pos = [chunk_flags (\<not> is_chunk_id (chunk_name c) document index) txt c]
      @ (if \<not> is_chunk_id (chunk_name c) document index then put_bytes (chunk_name c) else [])
      @ (case txt of None \<Rightarrow> [] | Some t \<Rightarrow> put_bytes t) @ put_varint (ucast (start_byte c)) @ put_varint (ucast (end_byte c))
      @ put_varint (of_nat (word_count c)) @ put_varint (of_nat (dim (chunk_vector c))) @ put_varint (of_nat (length (indices (chunk_vector c))))
      @ put_gaps 0 (indices (chunk_vector c)) @ write_embedding (embedding c)
      @ put_varint (of_nat (length es)) @ put_gaps 0 ids @ concat (map (put_varint \<circ> ucast \<circ> snd) es) @ pos"

lemma write_chunk_bytes:
  assumes "chunk_ok txt c es"
  obtains pos where "write_positions (st_positions (chunk_terms c)) = Some pos"
    "write_chunk document index txt c (ids_in words es @ rest) = Inr (chunk_bytes document index txt c es (ids_in words es) pos, rest)"
proof -
  have it: "terms_iter (chunk_terms c) = Some es" by (rule table_iter) (use assms(1) in \<open>simp add: chunk_ok_def\<close>)
  obtain pos where "write_positions (st_positions (chunk_terms c)) = Some pos" using write_positions_total by blast
  then show ?thesis using that it by (simp add: write_chunk_def chunk_bytes_def Let_def ids_in_def)
qed

lemma chunk_bytes_long:
  assumes "chunk_ok txt c es" "roomy document index txt c" "write_positions (st_positions (chunk_terms c)) = Some pos"
    and n: "length ids = length es"
  shows "8 \<le> length (chunk_bytes document index txt c es ids pos)"
proof -
  have it: "terms_iter (chunk_terms c) = Some es" by (rule table_iter) (use assms(1) in \<open>simp add: chunk_ok_def\<close>)
  have pl: "st_positions (chunk_terms c) \<noteq> None \<Longrightarrow> 1 \<le> length pos"
    using write_positions_total [of "st_positions (chunk_terms c)"] assms(3) by auto
  have el: "embedding c \<noteq> None \<Longrightarrow> 1 \<le> length (write_embedding (embedding c))"
    using put_varint_length by (auto simp: write_embedding_def trans_le_add1)
  have u: "unat (of_nat (word_count c) :: u64) = word_count c" "unat (of_nat (dim (chunk_vector c)) :: u64) = dim (chunk_vector c)"
    using assms(1) by (simp_all only: chunk_ok_def unat_of_usize)
  note vs = put_varint_length [of "ucast (start_byte c)"] put_varint_length [of "ucast (end_byte c)"]
    put_varint_length [of "of_nat (word_count c)"] put_varint_length [of "of_nat (dim (chunk_vector c))"]
    put_varint_length [of "of_nat (length (indices (chunk_vector c)))"] put_varint_length [of "of_nat (length es)"]
  have nl: "length (chunk_bytes document index txt c es ids pos) = 1 + length (if \<not> is_chunk_id (chunk_name c) document index then put_bytes (chunk_name c) else [])
     + length (case txt of None \<Rightarrow> [] | Some t \<Rightarrow> put_bytes t) + length (put_varint (ucast (start_byte c)))
     + length (put_varint (ucast (end_byte c))) + length (put_varint (of_nat (word_count c))) + length (put_varint (of_nat (dim (chunk_vector c))))
     + length (put_varint (of_nat (length (indices (chunk_vector c))))) + length (put_gaps 0 (indices (chunk_vector c)))
     + length (write_embedding (embedding c)) + length (put_varint (of_nat (length es))) + length (put_gaps 0 ids)
     + length (concat (map (put_varint \<circ> ucast \<circ> snd) es)) + length pos"
    unfolding chunk_bytes_def by (simp only: length_append list.size add.assoc)
  consider "\<not> is_chunk_id (chunk_name c) document index" | "txt \<noteq> None" | "128 \<le> dim (chunk_vector c)"
    | "128 \<le> unat (start_byte c)" | "128 \<le> unat (end_byte c)" | "128 \<le> word_count c"
    | "indices (chunk_vector c) \<noteq> []" | "embedding c \<noteq> None" | "es \<noteq> []" | "st_positions (chunk_terms c) \<noteq> None"
    using assms(2) it unfolding roomy_def by auto
  then show ?thesis
  proof cases
    case 1
    then show ?thesis using nl vs put_bytes_long [of "chunk_name c"] by simp
  next
    case 2
    then have "1 \<le> length (case txt of None \<Rightarrow> [] | Some t \<Rightarrow> put_bytes t)" using put_bytes_long by auto
    then show ?thesis using nl vs by linarith
  next
    case 3
    then show ?thesis using nl vs varint_long [of "of_nat (dim (chunk_vector c))"] u(2) by linarith
  next
    case 4
    then show ?thesis using nl vs varint_long [of "ucast (start_byte c)"] unat_of_u32 [of "start_byte c"] by linarith
  next
    case 5
    then show ?thesis using nl vs varint_long [of "ucast (end_byte c)"] unat_of_u32 [of "end_byte c"] by linarith
  next
    case 6
    then show ?thesis using nl vs varint_long [of "of_nat (word_count c)"] u(1) by linarith
  next
    case 7
    then have "1 \<le> length (put_gaps 0 (indices (chunk_vector c)))" using put_gaps_length [of "indices (chunk_vector c)" 0]
      by (cases "indices (chunk_vector c)") auto
    then show ?thesis using nl vs by linarith
  next
    case 8
    then show ?thesis using nl vs el by linarith
  next
    case 9
    then have "1 \<le> length (put_gaps 0 ids)" using put_gaps_length [of ids 0] n by (cases es) auto
    then show ?thesis using nl vs by linarith
  next
    case 10
    then show ?thesis using nl vs pl by linarith
  qed
qed

lemma reads_as_chunk:
  assumes d: "dictionary_of address words dictionary" and c: "chunk_ok txt c es" and w: "set (map fst es) \<subseteq> set words"
    and pos: "write_positions (st_positions (chunk_terms c)) = Some pos"
  shows "\<exists>c'. reads_as (read_chunk dictionary document index) (chunk_bytes document index txt c es (ids_in words es) pos) (c', Suc index) 0 \<and> carries txt c c'"
proof -
  let ?e = "\<not> is_chunk_id (chunk_name c) document index"
  let ?flags = "chunk_flags ?e txt c"
  have t: "table_of (chunk_terms c) es" and v: "\<And>p. st_positions (chunk_terms c) = Some p \<Longrightarrow> validate p es = Inr ()"
    using c by (auto simp: chunk_ok_def)
  have it: "terms_iter (chunk_terms c) = Some es" by (rule table_iter [OF t])
  obtain table where table: "reads_as (read_terms dictionary (st_positions (chunk_terms c) \<noteq> None))
      (put_varint (of_nat (length es)) @ put_gaps 0 (ids_in words es) @ concat (map (put_varint \<circ> ucast \<circ> snd) es) @ pos) table 0"
    "terms_iter table = Some es" "map_option positions_view (st_positions table) = map_option positions_view (st_positions (chunk_terms c))"
    using reads_as_table [OF d t w pos v] by blast
  obtain s where ix: "reads_as (read_loop read_index (length (indices (chunk_vector c))) None) (put_gaps 0 (indices (chunk_vector c))) (indices (chunk_vector c), s) 0"
    using reads_as_indices [of "indices (chunk_vector c)"] c by (auto simp: chunk_ok_def)
  have name: "reads_as (if ?e then read_str else rd_ok (chunk_id document index)) (if ?e then put_bytes (chunk_name c) else []) (chunk_name c) 0"
    using c by (auto simp: chunk_ok_def is_chunk_id_exact reads_as_ok reads_as_str)
  have tx: "reads_as (if txt \<noteq> None then rd_bind read_str (rd_ok \<circ> Some) else rd_ok None) (case txt of None \<Rightarrow> [] | Some t \<Rightarrow> put_bytes t) txt 0"
    using c by (cases "txt") (auto simp: chunk_ok_def reads_as_ok intro: reads_as_last [OF reads_as_str])
  have em: "reads_as (read_embedding (embedding c \<noteq> None)) (write_embedding (embedding c)) (embedding c) 0"
    by (rule reads_as_embedding) (use c in \<open>simp add: chunk_ok_def\<close>)
  have sizes: "word_count c < 2 ^ 64" "dim (chunk_vector c) < 2 ^ 64" "length (indices (chunk_vector c)) < 2 ^ 64"
    using c by (simp_all add: chunk_ok_def)
  define c' where "c' = \<lparr>chunk_name = chunk_name c, chunk_text = txt, text_at = None, start_byte = start_byte c, end_byte = end_byte c,
              chunk_vector = \<lparr>dim = dim (chunk_vector c), indices = indices (chunk_vector c)\<rparr>, embedding = embedding c, chunk_terms = table,
              word_count = word_count c, stemmed = stemmed c, vector_state = vector_state c\<rparr>"
  have "reads_as (read_chunk dictionary document index) (chunk_bytes document index txt c es (ids_in words es) pos) (c', Suc index) 0"
    unfolding chunk_bytes_def read_chunk_def append_Cons append_Nil
    apply (rule reads_as_byte_then)
    apply (rule reads_as_ensure [OF chunk_flags_read(1)])
    apply (unfold chunk_flags_read option.case)
    apply (rule reads_as_bind0 [OF name])
    apply (rule reads_as_bind0 [OF tx])
    apply (rule reads_as_bind0 [OF reads_as_u32])
    apply (rule reads_as_bind0 [OF reads_as_u32])
    apply (rule reads_as_bind0 [OF reads_as_usize [OF sizes(1)]])
    apply (rule reads_as_bind0 [OF reads_as_usize [OF sizes(2)]])
    apply (rule reads_as_counted [OF sizes(3)])
     apply (use put_gaps_length [of "indices (chunk_vector c)" 0] in simp)
    apply (rule reads_as_bind0 [OF ix])
    apply (unfold prod.case)
    apply (rule reads_as_bind0 [OF em])
    apply (rule reads_as_last [OF table(1)])
    apply (unfold c'_def)
    apply (rule reads_as_ok)
    done
  moreover have "carries txt c c'" using table(2,3) it by (simp add: carries_def c'_def)
  ultimately show ?thesis by blast
qed

section \<open>A document is read back\<close>

definition entries_of :: "StoredChunk \<Rightarrow> (rstr \<times> u32) list" where
  "entries_of c = the (terms_iter (chunk_terms c))"

definition stored_chunk :: "(StoredChunk \<Rightarrow> write_error + rstr option) \<Rightarrow> StoredChunk \<Rightarrow> bool" where
  "stored_chunk text_of c \<longleftrightarrow> (\<exists>txt. text_of c = Inr txt \<and> chunk_ok txt c (entries_of c))"

definition all_roomy :: "(StoredChunk \<Rightarrow> write_error + rstr option) \<Rightarrow> rstr \<Rightarrow> usize \<Rightarrow> StoredChunk list \<Rightarrow> bool" where
  "all_roomy text_of document index cs \<longleftrightarrow>
     (\<forall>i < length cs. \<forall>txt. text_of (cs ! i) = Inr txt \<longrightarrow> roomy document (index + i) txt (cs ! i))"

definition carried :: "(StoredChunk \<Rightarrow> write_error + rstr option) \<Rightarrow> StoredChunk \<Rightarrow> StoredChunk \<Rightarrow> bool" where
  "carried text_of c c' \<longleftrightarrow> (\<exists>txt. text_of c = Inr txt \<and> carries txt c c')"

lemma reads_as_chunks:
  assumes d: "dictionary_of address words dictionary" and c: "\<forall>c \<in> set cs. stored_chunk text_of c"
    and w: "\<forall>c \<in> set cs. set (map fst (entries_of c)) \<subseteq> set words"
  shows "\<exists>bytes cs'. write_chunks text_of document index cs (concat (map (\<lambda>c. ids_in words (entries_of c)) cs) @ rest) = Inr (bytes, rest) \<and>
    reads_as (read_loop (read_chunk dictionary document) (length cs) index) bytes (cs', index + length cs) 0 \<and>
    list_all2 (carried text_of) cs cs' \<and> (all_roomy text_of document index cs \<longrightarrow> 8 * length cs \<le> length bytes)"
  using c w
proof (induction cs arbitrary: index)
  case Nil
  then show ?case by (simp add: reads_as_ok)
next
  case (Cons c cs)
  obtain tx where t: "text_of c = Inr tx" "chunk_ok tx c (entries_of c)" using Cons.prems(1) by (auto simp: stored_chunk_def)
  have room: "roomy document index tx c \<and> all_roomy text_of document (Suc index) cs" if r: "all_roomy text_of document index (c # cs)"
  proof
    show "roomy document index tx c" using r t(1) by (auto simp: all_roomy_def)
    show "all_roomy text_of document (Suc index) cs"
      unfolding all_roomy_def
    proof (intro allI impI)
      fix i tx' assume "i < length cs" "text_of (cs ! i) = Inr tx'"
      then show "roomy document (Suc index + i) tx' (cs ! i)"
        using r [unfolded all_roomy_def, rule_format, of "Suc i" tx'] by simp
    qed
  qed
  obtain bytes cs' where ih: "write_chunks text_of document (Suc index) cs (concat (map (\<lambda>c. ids_in words (entries_of c)) cs) @ rest) = Inr (bytes, rest)"
      "reads_as (read_loop (read_chunk dictionary document) (length cs) (Suc index)) bytes (cs', Suc index + length cs) 0"
      "list_all2 (carried text_of) cs cs'" "all_roomy text_of document (Suc index) cs \<longrightarrow> 8 * length cs \<le> length bytes"
    using Cons.IH [of "Suc index"] Cons.prems(1,2) by auto
  obtain pos where pos: "write_positions (st_positions (chunk_terms c)) = Some pos"
    "write_chunk document index tx c (ids_in words (entries_of c) @ concat (map (\<lambda>c. ids_in words (entries_of c)) cs) @ rest) =
       Inr (chunk_bytes document index tx c (entries_of c) (ids_in words (entries_of c)) pos, concat (map (\<lambda>c. ids_in words (entries_of c)) cs) @ rest)"
    by (rule write_chunk_bytes [OF t(2)])
  let ?b = "chunk_bytes document index tx c (entries_of c) (ids_in words (entries_of c)) pos"
  have "\<exists>c'. reads_as (read_chunk dictionary document index) ?b (c', Suc index) 0 \<and> carries tx c c'"
    by (rule reads_as_chunk [OF d t(2) _ pos(1)]) (use Cons.prems(2) in simp)
  then obtain c' where c': "reads_as (read_chunk dictionary document index) ?b (c', Suc index) 0" "carries tx c c'" by blast
  have "8 \<le> length ?b" if "roomy document index tx c"
    by (rule chunk_bytes_long [OF t(2) that pos(1)]) (simp add: ids_in_def)
  then have "8 * length (c # cs) \<le> length (?b @ bytes)" if "all_roomy text_of document index (c # cs)"
    using room [OF that] ih(4) by simp
  moreover have "reads_as (read_loop (read_chunk dictionary document) (Suc (length cs)) index) (?b @ bytes) (c' # cs', index + Suc (length cs)) 0"
    unfolding read_loop.simps
    apply (rule reads_as_bind0 [OF c'(1)])
    apply (unfold prod.case)
    apply (rule reads_as_last [OF ih(2)])
    apply (simp add: reads_as_ok)
    done
  moreover have "write_chunks text_of document index (c # cs) (concat (map (\<lambda>c. ids_in words (entries_of c)) (c # cs)) @ rest) = Inr (?b @ bytes, rest)"
    using t(1) pos(2) ih(1) by simp
  moreover have "carried text_of c c'" using t(1) c'(2) by (auto simp: carried_def)
  ultimately show ?case using ih(3)
    by (intro exI [of _ "?b @ bytes"] exI [of _ "c' # cs'"]) (simp del: write_chunks.simps)
qed

definition carried_document :: "(StoredChunk \<Rightarrow> write_error + rstr option) \<Rightarrow> 'j StoredDocument \<Rightarrow> 'j StoredDocument \<Rightarrow> bool" where
  "carried_document text_of a b \<longleftrightarrow> a\<lparr>chunks := []\<rparr> = b\<lparr>chunks := []\<rparr> \<and> list_all2 (carried text_of) (chunks a) (chunks b)"

definition document_ok :: "('j \<Rightarrow> u8 list option) \<Rightarrow> (u8 list \<Rightarrow> 'j option) \<Rightarrow> (StoredChunk \<Rightarrow> write_error + rstr option) \<Rightarrow> 'j StoredDocument \<Rightarrow> bool" where
  "document_ok to_vec from_slice text_of a \<longleftrightarrow>
     utf8_valid (document_id a) \<and> length (document_id a) < 2 ^ 64 \<and>
     (\<forall>uri. source_uri a = Some uri \<longrightarrow> utf8_valid uri \<and> length uri < 2 ^ 64) \<and>
     utf8_valid (document_version a) \<and> length (document_version a) < 2 ^ 64 \<and>
     (\<exists>json. to_vec (doc_metadata a) = Some json \<and> from_slice json = Some (doc_metadata a) \<and> length json < 2 ^ 64) \<and>
     length (chunks a) < 2 ^ 64 \<and> (\<forall>c \<in> set (chunks a). stored_chunk text_of c)"

abbreviation roomy_document :: "(StoredChunk \<Rightarrow> write_error + rstr option) \<Rightarrow> 'j StoredDocument \<Rightarrow> bool" where
  "roomy_document text_of a \<equiv> all_roomy text_of (document_id a) 0 (chunks a)"

lemma reads_as_document:
  assumes d: "dictionary_of address words dictionary" and a: "document_ok to_vec from_slice text_of a"
    and w: "\<forall>c \<in> set (chunks a). set (map fst (entries_of c)) \<subseteq> set words"
  shows "\<exists>bytes b. write_document to_vec text_of a (concat (map (\<lambda>c. ids_in words (entries_of c)) (chunks a)) @ rest) = Inr (bytes, rest) \<and>
    reads_or (roomy_document text_of a) (read_document from_slice dictionary) bytes b \<and> carried_document text_of a b \<and> 1 \<le> length bytes"
proof -
  obtain json where json: "to_vec (doc_metadata a) = Some json" "from_slice json = Some (doc_metadata a)" "length json < 2 ^ 64"
    using a by (auto simp: document_ok_def)
  obtain bytes cs where cs: "write_chunks text_of (document_id a) 0 (chunks a) (concat (map (\<lambda>c. ids_in words (entries_of c)) (chunks a)) @ rest) = Inr (bytes, rest)"
      "reads_as (read_loop (read_chunk dictionary (document_id a)) (length (chunks a)) 0) bytes (cs, 0 + length (chunks a)) 0"
      "list_all2 (carried text_of) (chunks a) cs" "roomy_document text_of a \<longrightarrow> 8 * length (chunks a) \<le> length bytes"
    using reads_as_chunks [OF d _ w, where text_of = text_of and document = "document_id a" and index = 0 and rest = rest] a
    by (auto simp: document_ok_def)
  define b where "b = \<lparr>document_id = document_id a, source_uri = source_uri a, document_version = document_version a,
    doc_metadata = doc_metadata a, chunks = cs\<rparr>"
  let ?source = "case source_uri a of None \<Rightarrow> [0] | Some uri \<Rightarrow> 1 # put_bytes uri"
  let ?bytes = "put_bytes (document_id a) @ ?source @ put_bytes (document_version a) @ put_bytes json
                 @ put_varint (of_nat (length (chunks a))) @ bytes"
  have strs: "length (document_id a) < 2 ^ 64" "utf8_valid (document_id a)" "length (document_version a) < 2 ^ 64" "utf8_valid (document_version a)"
    "length (chunks a) < 2 ^ 64" and uri: "\<And>uri. source_uri a = Some uri \<Longrightarrow> utf8_valid uri \<and> length uri < 2 ^ 64"
    using a by (auto simp: document_ok_def)
  have tail: "reads_or (roomy_document text_of a) (rd_bind read_str (\<lambda>v. rd_bind read_bytes (\<lambda>json. case from_slice json of
       None \<Rightarrow> rd_fail JsonError
     | Some metadata \<Rightarrow> rd_bind (read_count 8) (\<lambda>n. rd_bind (read_loop (read_chunk dictionary (document_id a)) n 0) (\<lambda>(cs, _).
           rd_ok \<lparr>document_id = document_id a, source_uri = source_uri a, document_version = v, doc_metadata = metadata, chunks = cs\<rparr>)))))
      (put_bytes (document_version a) @ put_bytes json @ put_varint (of_nat (length (chunks a))) @ bytes) b"
    apply (rule reads_or_then [OF reads_as_str [OF strs(3,4)]])
    apply (rule reads_or_then [OF reads_as_bytes [OF json(3)]])
    apply (unfold json(2) option.case)
    apply (rule reads_or_counted [OF strs(5)])
     apply (use cs(4) in simp)
    apply (rule reads_or_last [OF reads_or_as [OF cs(2)]])
    apply (simp add: b_def reads_as_ok)
    done
  have source: "reads_as read_source ?source (source_uri a) 0"
  proof (cases "source_uri a")
    case None
    then show ?thesis using reads_as_byte_then [OF reads_as_ok] by (auto simp: read_source_def intro!: reads_as_byte_then reads_as_ok)
  next
    case (Some uri)
    have "reads_as (rd_bind read_str (rd_ok \<circ> Some)) (put_bytes uri) (Some uri) 0"
      using uri [OF Some] by (intro reads_as_last [OF reads_as_str]) (simp_all add: reads_as_ok)
    then show ?thesis by (simp add: read_source_def Some reads_as_byte_then)
  qed
  have "reads_or (roomy_document text_of a) (read_document from_slice dictionary) ?bytes b"
    unfolding read_document_def
    by (rule reads_or_then [OF reads_as_str [OF strs(1,2)]], rule reads_or_then [OF source], rule tail)
  moreover have "write_document to_vec text_of a (concat (map (\<lambda>c. ids_in words (entries_of c)) (chunks a)) @ rest) = Inr (?bytes, rest)"
    using json(1) cs(1) by (simp add: write_document_def)
  moreover have "carried_document text_of a b" using cs(3) by (simp add: carried_document_def b_def)
  ultimately show ?thesis using put_bytes_long [of "document_id a"] by (intro exI [of _ ?bytes] exI [of _ b]) auto
qed

section \<open>Reading any bytes\<close>

lemma read_loop_length: "read_loop f n s r = Inr ((xs, s'), r') \<Longrightarrow> length xs = n"
proof (induction n arbitrary: s r xs)
  case (Suc n)
  then show ?case by (fastforce simp: rd_bind_def rd_ok_def split: sum.splits prod.splits)
qed (simp add: rd_ok_def)

lemma read_term_id_result:
  assumes "read_term_id n previous r = Inr ((i, s), r')"
  shows "i < n \<and> s = Some i \<and> (\<forall>p. previous = Some p \<longrightarrow> p < i)"
  using assms unfolding read_term_id_def Let_def
  by (auto simp: rd_bind_def rd_ensure_def rd_fail_def rd_ok_def split: sum.splits option.splits if_splits)

lemma read_ids_result:
  assumes "read_loop (read_term_id n) k previous r = Inr ((is, s), r')"
  shows "ssorted is \<and> (\<forall>i \<in> set is. i < n \<and> (\<forall>p. previous = Some p \<longrightarrow> p < i))"
  using assms
proof (induction k arbitrary: previous r "is")
  case (Suc k)
  obtain i s1 r1 is' where i: "read_term_id n previous r = Inr ((i, s1), r1)" "read_loop (read_term_id n) k s1 r1 = Inr ((is', s), r')" "is = i # is'"
    using Suc.prems by (auto simp: rd_bind_def rd_ok_def split: sum.splits prod.splits)
  note one = read_term_id_result [OF i(1)]
  show ?case using Suc.IH [OF i(2)] one i(3) by fastforce
qed (simp add: rd_ok_def)

lemma validate_no_panic: "validate p es \<noteq> Inl Panic"
proof (cases "version p \<in> {POSITIONS_VERSION, DOCUMENT_VERSION} \<and> offsets_ok p (length es)")
  case False
  then show ?thesis by (auto simp: validate_def)
next
  case ok: True
  show ?thesis
  proof (cases "validate_terms p es 0 0 None")
    case (Inl e)
    then show ?thesis using ok validate_terms_no_panic [of p "length es" 0 es 0 None] by (auto simp: validate_def)
  next
    case (Inr r)
    then obtain n m where nm: "validate_terms p es 0 0 None = Inr (n, m)" by (cases r) auto
    show ?thesis
    proof (cases "n \<le> MAX_DOCUMENT_BYTES \<and> (case m of None \<Rightarrow> 0 | Some m \<Rightarrow> unat m + 1) = n")
      case True
      obtain runs :: "u32 list list" where "if (\<forall>x \<in> set (concat runs). unat x < n) \<and> distinct (concat runs) then validate p es = Inr ()
          else \<exists>e. validate p es = Inl e \<and> e \<noteq> Panic"
        using validate_cases [of p es n m] ok nm True by blast
      then show ?thesis by (auto split: if_splits)
    next
      case False
      then show ?thesis using ok nm by (auto simp: validate_def)
    qed
  qed
qed

lemma safe_positions:
  assumes "terms_iter table = Some es"
  shows "safe_read (read_positions present n table)"
  unfolding read_positions_def Let_def
  using validate_no_panic
  by (auto simp: assms read_u32_def intro!: safe_reads split: sum.split)

lemma safe_terms_table:
  assumes d: "dictionary_of address words dictionary"
  shows "safe_read (read_terms dictionary present)"
  unfolding read_terms_def
proof (rule safe_binds [OF safe_count])
  fix n
  have g: "good_words words" using d by (simp add: dictionary_of_def)
  obtain dict where dict: "dictionary_new words = Some dict" "dictionary = Arc address dict" using d by (auto simp: dictionary_of_def)
  have dl: "dictionary_len (arc_get dictionary) = length words" using dictionary_new_good [OF g] dict by (auto simp: dictionary_len_def)
  have ids: "safe_read (read_loop (read_term_id k) n None)" for k
    unfolding read_term_id_def Let_def by (auto intro!: safe_reads split: option.split)
  have numbers: "safe_read (read_loop read_u32 n ())" unfolding read_u32_def by (auto intro!: safe_reads)
  let ?last = "\<lambda>ids frequencies. case those (map u32_from_usize ids) of None \<Rightarrow> rd_fail Panic
       | Some ids \<Rightarrow> (case from_dictionary dictionary ids frequencies of None \<Rightarrow> rd_fail Panic | Some table \<Rightarrow> read_positions present n table)"
  have last: "safe_read (?last is fs)" if i: "ssorted is" "\<forall>i \<in> set is. i < length words" "length is = length fs" for "is" fs
  proof -
    have u: "unat (of_nat i :: u32) = i" if "i \<in> set is" for i
      using i(2) that good_words_small [OF g] by (intro unat_of_nat32) auto
    have t: "those (map u32_from_usize is) = Some (map of_nat is)"
      by (rule those_map_eqI) (use i(2) good_words_small [OF g] in \<open>auto simp: u32_from_usize_def\<close>)
    have "\<exists>table. from_dictionary dictionary (map of_nat is) fs = Some table"
      using i(3) by (simp add: from_dictionary_def Let_def)
    then obtain table where table: "from_dictionary dictionary (map of_nat is) fs = Some table" by blast
    have "ssorted (map (of_nat :: nat \<Rightarrow> u32) is)"
      unfolding sorted_wrt_map
      by (rule sorted_wrt_mono_rel [OF _ i(1)]) (use u in \<open>simp add: word_less_nat_alt\<close>)
    moreover have "\<forall>i \<in> set (map (of_nat :: nat \<Rightarrow> u32) is). unat i < length words" using i(2) u by simp
    ultimately have "table_of table (zip (map (\<lambda>i. words ! unat i) (map (of_nat :: nat \<Rightarrow> u32) is)) fs)"
      using from_dictionary_table [OF dict(1) _ _ _ _ _ table [unfolded dict(2)]] g good_words_small [OF g] by (simp add: good_words_def)
    then show ?thesis using safe_positions [OF table_iter] t table by simp
  qed
  show "safe_read (rd_bind (read_loop (read_term_id (dictionary_len (arc_get dictionary))) n None) (\<lambda>(ids, _).
     rd_bind (read_loop read_u32 n ()) (\<lambda>(frequencies, _). ?last ids frequencies)))"
    unfolding dl
  proof (rule safe_bind [OF ids])
    fix x bs p q assume x: "read_loop (read_term_id (length words)) n None \<lparr>data = bs, at_pos = p\<rparr> = Inr (x, \<lparr>data = bs, at_pos = q\<rparr>)"
    obtain "is" s where xs: "x = (is, s)" by (cases x)
    have i: "ssorted is" "\<forall>i \<in> set is. i < length words" "length is = n"
      using read_ids_result [OF x [unfolded xs]] read_loop_length [OF x [unfolded xs]] by auto
    show "safe_read (case x of (ids, _) \<Rightarrow> rd_bind (read_loop read_u32 n ()) (\<lambda>(frequencies, _). ?last ids frequencies))"
      unfolding xs prod.case
    proof (rule safe_bind [OF numbers])
      fix y bs p q assume y: "read_loop read_u32 n () \<lparr>data = bs, at_pos = p\<rparr> = Inr (y, \<lparr>data = bs, at_pos = q\<rparr>)"
      obtain fs u where ys: "y = (fs, u)" by (cases y)
      show "safe_read (case y of (frequencies, _) \<Rightarrow> ?last is frequencies)"
        unfolding ys prod.case by (rule last) (use i read_loop_length [OF y [unfolded ys]] in simp_all)
    qed
  qed
qed

lemma safe_chunk:
  assumes "dictionary_of address words dictionary"
  shows "safe_read (read_chunk dictionary document index)"
  unfolding read_chunk_def read_embedding_def read_index_def read_value_def
  by (auto intro!: safe_reads safe_terms_table [OF assms] split: option.split)

lemma safe_document:
  assumes "dictionary_of address words dictionary"
  shows "safe_read (read_document from_slice dictionary)"
  unfolding read_document_def read_source_def
  by (auto intro!: safe_reads safe_chunk [OF assms] split: option.split)

end
