(* ===== verification/BinaryJournal.thy ===== *)
theory BinaryJournal
  imports BinaryDocuments
begin

text \<open>
  The payloads of journal frames, \<open>src/core/engine/journal.rs\<close>: the binary form of a transaction
  (a term dictionary, then one tagged record per mutation), its decoder, and the choice between the
  JSON and the binary form.  \<open>serde_json\<close> is a parameter: a record of its functions.  Mutations other than
  documents and document deletes are carried as JSON and are of any type.
\<close>

datatype ('j, 'm) Mutation = MDocument "'j StoredDocument" | MDeleteDocument rstr | MOther 'm

record ('j, 'm) json_codec =
  value_to_vec :: "'j \<Rightarrow> u8 list option"
  value_from_slice :: "u8 list \<Rightarrow> 'j option"
  mutation_to_vec :: "('j, 'm) Mutation \<Rightarrow> u8 list option"
  mutation_from_slice :: "u8 list \<Rightarrow> ('j, 'm) Mutation option"
  mutations_to_vec :: "('j, 'm) Mutation list \<Rightarrow> u8 list option"
  mutations_from_slice :: "u8 list \<Rightarrow> ('j, 'm) Mutation list option"

text \<open>\<open>HMS-TXN-2\<close> and \<open>HMS-TXN-3\<close>, each with a zero byte behind.\<close>

definition JSON_MAGIC :: "u8 list" where
  "JSON_MAGIC = [0x48, 0x4D, 0x53, 0x2D, 0x54, 0x58, 0x4E, 0x2D, 0x32, 0]"

definition BINARY_MAGIC :: "u8 list" where
  "BINARY_MAGIC = [0x48, 0x4D, 0x53, 0x2D, 0x54, 0x58, 0x4E, 0x2D, 0x33, 0]"

definition TAG_JSON :: u8 where "TAG_JSON = 0"
definition TAG_DOCUMENT :: u8 where "TAG_DOCUMENT = 1"
definition TAG_DELETE_DOCUMENT :: u8 where "TAG_DELETE_DOCUMENT = 2"

datatype JournalFormat = JsonFormat | BinaryFormat

definition for_schema :: "u32 \<Rightarrow> JournalFormat" where
  "for_schema schema = (if schema \<ge> 3 then BinaryFormat else JsonFormat)"

section \<open>Encoding\<close>

fun document_of :: "('j, 'm) Mutation \<Rightarrow> 'j StoredDocument option" where
  "document_of (MDocument document) = (if representable document then Some document else None)"
| "document_of _ = None"

text \<open>The terms of the documents, chunk by chunk, as \<open>FrameTerms::new\<close> visits them.\<close>

definition document_terms :: "'j StoredDocument list \<Rightarrow> rstr list option" where
  "document_terms documents =
     map_option concat (those (map (terms_keys \<circ> chunk_terms) (concat (map chunks documents))))"

fun write_mutations :: "('j, 'm) json_codec \<Rightarrow> (StoredChunk \<Rightarrow> write_error + rstr option) \<Rightarrow> ('j, 'm) Mutation list \<Rightarrow> u32 list
    \<Rightarrow> write_error + u8 list" where
  "write_mutations codec text_of [] cursor = Inr []"
| "write_mutations codec text_of (mutation # rest) cursor =
     (case (case document_of mutation of
              Some document \<Rightarrow>
                (case write_document (value_to_vec codec) text_of document cursor of
                   Inl e \<Rightarrow> Inl e | Inr (bytes, cursor) \<Rightarrow> Inr (TAG_DOCUMENT # bytes, cursor))
            | None \<Rightarrow>
                (case mutation of
                   MDeleteDocument name \<Rightarrow> Inr (TAG_DELETE_DOCUMENT # put_bytes name, cursor)
                 | _ \<Rightarrow>
                     (case mutation_to_vec codec mutation of
                        None \<Rightarrow> Inl JsonWrite | Some json \<Rightarrow> Inr (TAG_JSON # put_bytes json, cursor)))) of
        Inl e \<Rightarrow> Inl e
      | Inr (bytes, cursor) \<Rightarrow>
          (case write_mutations codec text_of rest cursor of Inl e \<Rightarrow> Inl e | Inr later \<Rightarrow> Inr (bytes @ later)))"

text \<open>The text of chunks in a transaction is inline; \<open>crc32\<close> and the file are not reached.\<close>

definition binary_payload :: "('j, 'm) json_codec \<Rightarrow> (u8 list \<Rightarrow> u32) \<Rightarrow> ('j, 'm) Mutation list \<Rightarrow> write_error + u8 list" where
  "binary_payload codec crc32 mutations =
     (case document_terms (List.map_filter document_of mutations) of
        None \<Rightarrow> Inl WritePanic
      | Some terms \<Rightarrow>
          let ft = frame_terms_new terms
          in case write_mutations codec (resolve_text crc32 True None) mutations (ft_ids ft) of
               Inl e \<Rightarrow> Inl e
             | Inr bytes \<Rightarrow> Inr (BINARY_MAGIC @ put_varint (of_nat (length mutations)) @ frame_terms_write ft @ bytes))"

definition binary_document_payload :: "('j, 'm) json_codec \<Rightarrow> (u8 list \<Rightarrow> u32) \<Rightarrow> bool \<Rightarrow> TextSegment option \<Rightarrow> 'j StoredDocument
    \<Rightarrow> write_error + u8 list option" where
  "binary_document_payload codec crc32 read_ok segment document =
     (if \<not> representable document then Inr None
      else
        case document_terms [document] of
          None \<Rightarrow> Inl WritePanic
        | Some terms \<Rightarrow>
            let ft = frame_terms_new terms
            in case write_document (value_to_vec codec) (resolve_text crc32 read_ok segment) document (ft_ids ft) of
                 Inl e \<Rightarrow> Inl e
               | Inr (bytes, _) \<Rightarrow>
                   Inr (Some (BINARY_MAGIC @ put_varint 1 @ frame_terms_write ft @ [TAG_DOCUMENT] @ bytes)))"

section \<open>Decoding\<close>

record BinaryDecoder =
  bd_reader :: Reader
  bd_terms :: "SharedDictionary arc"
  bd_remaining :: usize

definition decoder_new :: "nat \<Rightarrow> u8 list \<Rightarrow> codec_error + BinaryDecoder" where
  "decoder_new address body =
     (case rd_bind (read_count 2) (\<lambda>n. rd_bind (decoded_terms_read address) (\<lambda>terms. rd_ok (n, terms))) (reader_new body) of
        Inl e \<Rightarrow> Inl e
      | Inr ((n, terms), r) \<Rightarrow> Inr \<lparr>bd_reader = r, bd_terms = terms, bd_remaining = n\<rparr>)"

definition read_mutation :: "('j, 'm) json_codec \<Rightarrow> SharedDictionary arc \<Rightarrow> ('j, 'm) Mutation reads" where
  "read_mutation codec terms =
     rd_bind read_byte (\<lambda>tag.
       if tag = TAG_JSON then
         rd_bind read_bytes (\<lambda>json. case mutation_from_slice codec json of None \<Rightarrow> rd_fail JsonError | Some m \<Rightarrow> rd_ok m)
       else if tag = TAG_DOCUMENT then rd_bind (read_document (value_from_slice codec) terms) (rd_ok \<circ> MDocument)
       else if tag = TAG_DELETE_DOCUMENT then rd_bind read_str (rd_ok \<circ> MDeleteDocument)
       else rd_fail (Malformed ''mutation tag is invalid''))"

definition next_mutation :: "('j, 'm) json_codec \<Rightarrow> BinaryDecoder \<Rightarrow> codec_error + ('j, 'm) Mutation option \<times> BinaryDecoder" where
  "next_mutation codec d =
     (if bd_remaining d = 0 then
        if reader_is_empty (bd_reader d) then Inr (None, d)
        else Inl (Malformed ''bytes after the last mutation'')
      else
        case read_mutation codec (bd_terms d) (bd_reader d) of
          Inl e \<Rightarrow> Inl e
        | Inr (m, r) \<Rightarrow> Inr (Some m, d\<lparr>bd_reader := r, bd_remaining := bd_remaining d - 1\<rparr>))"

lemma next_mutation_remaining: "next_mutation codec d = Inr (Some m, d') \<Longrightarrow> bd_remaining d' < bd_remaining d"
  by (auto simp: next_mutation_def split: if_splits sum.splits)

function decode_loop :: "('j, 'm) json_codec \<Rightarrow> BinaryDecoder \<Rightarrow> codec_error + ('j, 'm) Mutation list" where
  "decode_loop codec d =
     (case next_mutation codec d of
        Inl e \<Rightarrow> Inl e
      | Inr (None, _) \<Rightarrow> Inr []
      | Inr (Some m, d') \<Rightarrow> (case decode_loop codec d' of Inl e \<Rightarrow> Inl e | Inr ms \<Rightarrow> Inr (m # ms)))"
  by pat_completeness auto
termination
  by (relation "measure (\<lambda>(_, d). bd_remaining d)") (auto dest: next_mutation_remaining)

declare decode_loop.simps [simp del]

definition decode_body :: "('j, 'm) json_codec \<Rightarrow> nat \<Rightarrow> u8 list \<Rightarrow> codec_error + ('j, 'm) Mutation list" where
  "decode_body codec address body =
     (case decoder_new address body of Inl e \<Rightarrow> Inl e | Inr d \<Rightarrow> decode_loop codec d)"

definition payload_json :: "('j, 'm) json_codec \<Rightarrow> nat \<Rightarrow> u8 list \<Rightarrow> (codec_error + u8 list) option" where
  "payload_json codec address payload =
     (case strip_bytes JSON_MAGIC payload of
        Some json \<Rightarrow> Some (Inr json)
      | None \<Rightarrow>
          (case strip_bytes BINARY_MAGIC payload of
             None \<Rightarrow> None
           | Some body \<Rightarrow>
               Some (case decode_body codec address body of
                       Inl e \<Rightarrow> Inl e
                     | Inr ms \<Rightarrow> (case mutations_to_vec codec ms of None \<Rightarrow> Inl JsonError | Some json \<Rightarrow> Inr json))))"

section \<open>Replay\<close>

text \<open>
  \<open>replay_binary_frame\<close> and \<open>transaction_payload\<close> of \<open>src/core/engine/mod.rs\<close>.  How the engine validates and applies mutations is
  a parameter; its state is of any type.
\<close>

definition REPLAY_CHUNK :: usize where "REPLAY_CHUNK = 512"

datatype 'e replay_error = NotDecoded codec_error | Rejected 'e

definition apply_chunk :: "('a \<Rightarrow> 'e option) \<Rightarrow> ('a list \<Rightarrow> 's \<Rightarrow> 'e + 's) \<Rightarrow> 'a list \<Rightarrow> 's \<Rightarrow> 'e replay_error + 's" where
  "apply_chunk check replay chunk s =
     (case List.map_filter check chunk of
        e # _ \<Rightarrow> Inl (Rejected e)
      | [] \<Rightarrow> (case replay chunk s of Inl e \<Rightarrow> Inl (Rejected e) | Inr s \<Rightarrow> Inr s))"

function replay_loop :: "('j, 'm) json_codec \<Rightarrow> (('j, 'm) Mutation list \<Rightarrow> 's \<Rightarrow> 'e replay_error + 's) \<Rightarrow> BinaryDecoder
    \<Rightarrow> ('j, 'm) Mutation list \<Rightarrow> 's \<Rightarrow> 'e replay_error + 's" where
  "replay_loop codec apply_to d chunk s =
     (case next_mutation codec d of
        Inl e \<Rightarrow> Inl (NotDecoded e)
      | Inr (None, _) \<Rightarrow> (if chunk \<noteq> [] then apply_to chunk s else Inr s)
      | Inr (Some m, d') \<Rightarrow>
          let chunk = chunk @ [m]
          in if length chunk = REPLAY_CHUNK
             then (case apply_to chunk s of Inl e \<Rightarrow> Inl e | Inr s \<Rightarrow> replay_loop codec apply_to d' [] s)
             else replay_loop codec apply_to d' chunk s)"
  by pat_completeness auto
termination
  by (relation "measure (\<lambda>(_, _, d, _). bd_remaining d)") (auto dest: next_mutation_remaining)

declare replay_loop.simps [simp del]

definition replay_binary_frame :: "('j, 'm) json_codec \<Rightarrow> nat \<Rightarrow> (('j, 'm) Mutation \<Rightarrow> 'e option)
    \<Rightarrow> (('j, 'm) Mutation list \<Rightarrow> 's \<Rightarrow> 'e + 's) \<Rightarrow> u8 list \<Rightarrow> 's \<Rightarrow> 'e replay_error + 's" where
  "replay_binary_frame codec address check replay body s =
     (case decoder_new address body of
        Inl e \<Rightarrow> Inl (NotDecoded e)
      | Inr d \<Rightarrow> replay_loop codec (apply_chunk check replay) d [] s)"

definition transaction_payload :: "('j, 'm) json_codec \<Rightarrow> (u8 list \<Rightarrow> u32) \<Rightarrow> JournalFormat \<Rightarrow> ('j, 'm) Mutation list \<Rightarrow> write_error + u8 list" where
  "transaction_payload codec crc32 journal mutations =
     (case journal of
        JsonFormat \<Rightarrow> (case mutations_to_vec codec mutations of None \<Rightarrow> Inl JsonWrite | Some json \<Rightarrow> Inr (JSON_MAGIC @ json))
      | BinaryFormat \<Rightarrow> binary_payload codec crc32 mutations)"

section \<open>Decoding as one read\<close>

definition read_step :: "('j, 'm) json_codec \<Rightarrow> SharedDictionary arc \<Rightarrow> unit \<Rightarrow> (('j, 'm) Mutation \<times> unit) reads" where
  "read_step codec terms u = rd_bind (read_mutation codec terms) (\<lambda>m. rd_ok (m, ()))"

definition read_body :: "('j, 'm) json_codec \<Rightarrow> nat \<Rightarrow> ('j, 'm) Mutation list reads" where
  "read_body codec address =
     rd_bind (read_count 2) (\<lambda>n. rd_bind (decoded_terms_read address) (\<lambda>terms.
       rd_bind (read_loop (read_step codec terms) n ()) (\<lambda>(ms, _). rd_ok ms)))"

abbreviation read_mutations :: "('j, 'm) json_codec \<Rightarrow> SharedDictionary arc \<Rightarrow> nat \<Rightarrow> (('j, 'm) Mutation list \<times> unit) reads" where
  "read_mutations codec terms n \<equiv> read_loop (read_step codec terms) n ()"

lemma read_mutations_Suc:
  "read_mutations codec terms (Suc n) r =
     (case read_mutation codec terms r of
        Inl e \<Rightarrow> Inl e
      | Inr (m, r1) \<Rightarrow> (case read_mutations codec terms n r1 of Inl e \<Rightarrow> Inl e | Inr ((ms, _), r2) \<Rightarrow> Inr ((m # ms, ()), r2)))"
proof -
  have step: "read_step codec terms () r = (case read_mutation codec terms r of Inl e \<Rightarrow> Inl e | Inr (m, r1) \<Rightarrow> Inr ((m, ()), r1))"
    by (auto simp: read_step_def rd_bind_def rd_ok_def split: sum.splits)
  show ?thesis unfolding read_loop.simps rd_bind_def rd_ok_def step by (auto split: sum.splits)
qed

definition finish :: "codec_error + 'a \<times> Reader \<Rightarrow> codec_error + 'a" where
  "finish x = (case x of Inl e \<Rightarrow> Inl e
     | Inr (a, r) \<Rightarrow> if reader_is_empty r then Inr a else Inl (Malformed ''bytes after the last mutation''))"

lemma decode_loop_reads:
  "decode_loop codec \<lparr>bd_reader = r, bd_terms = terms, bd_remaining = n\<rparr> =
     finish (map_sum id (apfst fst) (read_mutations codec terms n r))"
proof (induction n arbitrary: r)
  case 0
  show ?case by (subst decode_loop.simps) (simp add: next_mutation_def finish_def rd_ok_def)
next
  case (Suc n)
  show ?case
  proof (cases "read_mutation codec terms r")
    case (Inl e)
    then show ?thesis by (subst decode_loop.simps) (simp add: next_mutation_def finish_def read_mutations_Suc del: read_loop.simps)
  next
    case (Inr mr)
    obtain m r1 where m: "mr = (m, r1)" by (cases mr)
    have n: "next_mutation codec \<lparr>bd_reader = r, bd_terms = terms, bd_remaining = Suc n\<rparr> =
        Inr (Some m, \<lparr>bd_reader = r1, bd_terms = terms, bd_remaining = n\<rparr>)"
      using Inr m by (simp add: next_mutation_def)
    show ?thesis using Suc.IH [of r1] Inr m
      by (subst decode_loop.simps)
        (auto simp: n finish_def read_mutations_Suc simp del: read_loop.simps split: sum.splits)
  qed
qed

lemma decode_body_reads: "decode_body codec address body = finish (read_body codec address (reader_new body))"
proof -
  have "rd_bind (read_mutations codec terms n) (\<lambda>(ms, _). rd_ok ms) r = map_sum id (apfst fst) (read_mutations codec terms n r)" for terms n r
    by (auto simp: rd_bind_def rd_ok_def split: sum.splits)
  then have "read_body codec address r = (case rd_bind (read_count 2) (\<lambda>n. rd_bind (decoded_terms_read address) (\<lambda>terms. rd_ok (n, terms))) r of
      Inl e \<Rightarrow> Inl e | Inr ((n, terms), r) \<Rightarrow> map_sum id (apfst fst) (read_mutations codec terms n r))" for r
    by (simp add: read_body_def rd_bind_def [of "read_count 2"] rd_bind_def [of "decoded_terms_read address"] rd_ok_def [of "(_, _)"] split: sum.splits prod.splits)
  then show ?thesis
    unfolding decode_body_def decoder_new_def
    by (auto simp: decode_loop_reads finish_def split: sum.splits prod.splits)
qed

lemma safe_body: "safe_read (read_body codec address)"
  unfolding read_body_def
proof (rule safe_binds [OF safe_count], rule safe_bind [OF safe_terms])
  fix n terms bs p q
  assume "decoded_terms_read address \<lparr>data = bs, at_pos = p\<rparr> = Inr (terms, \<lparr>data = bs, at_pos = q\<rparr>)"
  then obtain words where d: "dictionary_of address words terms" using decoded_terms_sound by blast
  have "safe_read (read_mutation codec terms)"
    unfolding read_mutation_def by (auto intro!: safe_reads safe_document [OF d] split: option.split)
  then show "safe_read (rd_bind (read_mutations codec terms n) (\<lambda>(ms, _). rd_ok ms))"
    by (auto simp: read_step_def intro!: safe_reads)
qed

interpretation body_read: safe_read "read_body codec address" for codec address
  by (rule safe_body)

text \<open>A codec for the examples below: one metadata value and one mutation besides documents.\<close>

definition example_codec :: "(unit, unit) json_codec" where
  "example_codec = \<lparr>value_to_vec = \<lambda>_. Some [0x7B, 0x7D], value_from_slice = \<lambda>_. Some (), mutation_to_vec = \<lambda>_. Some [0x30],
     mutation_from_slice = \<lambda>_. Some (MOther ()), mutations_to_vec = \<lambda>_. Some [], mutations_from_slice = \<lambda>_. None\<rparr>"

text \<open>
  C6. Decoding journal payloads is safe on any bytes: it never panics (a damaged or hostile payload is
  an error), and a payload that decodes is complete, since every strict prefix of it is rejected.
\<close>

theorem truncated_payload_rejected:
  "decode_body codec address body \<noteq> Inl Panic \<and>
   (decode_body codec address body = Inr ms \<and> n < length body \<longrightarrow>
      (\<exists>e. decode_body codec address (take n body) = Inl e \<and> e \<noteq> Panic))"
proof -
  have never: "decode_body codec address b \<noteq> Inl Panic" for b
    using body_read.no_panic [of 0 b codec address]
    by (auto simp: decode_body_reads finish_def reader_new_def split: sum.splits if_splits)
  have "\<exists>e. decode_body codec address (take n body) = Inl e"
    if d: "decode_body codec address body = Inr ms" and n: "n < length body"
  proof (rule ccontr)
    assume "\<nexists>e. decode_body codec address (take n body) = Inl e"
    then obtain ms' where "decode_body codec address (take n body) = Inr ms'" by (cases "decode_body codec address (take n body)") auto
    then obtain r where r: "read_body codec address \<lparr>data = take n body, at_pos = 0\<rparr> = Inr (ms', r)" "reader_is_empty r"
      by (auto simp: decode_body_reads finish_def reader_new_def split: sum.splits if_splits)
    obtain q where q: "q \<le> n" "r = \<lparr>data = take n body, at_pos = q\<rparr>" "read_body codec address \<lparr>data = body, at_pos = 0\<rparr> = Inr (ms', \<lparr>data = body, at_pos = q\<rparr>)"
      using body_read.prefix_agrees [OF _ _ r(1)] n by auto
    then show False using d n by (auto simp: decode_body_reads finish_def reader_new_def reader_is_empty_def split: if_splits)
  qed
  then show ?thesis using never by (metis (no_types))
qed

text \<open>A payload that deletes one document, cut before its last byte.\<close>

theorem truncated_payload_rejected_witness:
  "decode_body example_codec 0 [1, 0, 2, 1, 97] = Inr [MDeleteDocument [97]] \<and>
   (\<exists>e. decode_body example_codec 0 [1, 0, 2, 1] = Inl e \<and> e \<noteq> Panic)"
proof -
  have d: "decode_body example_codec 0 [1, 0, 2, 1, 97] = Inr [MDeleteDocument [97]]" by code_simp
  then show ?thesis
    using truncated_payload_rejected [of example_codec 0 "[1, 0, 2, 1, 97]" "[MDeleteDocument [97]]" 4] by simp
qed

section \<open>A transaction is read back\<close>

fun carried_mutation :: "(StoredChunk \<Rightarrow> write_error + rstr option) \<Rightarrow> ('j, 'm) Mutation \<Rightarrow> ('j, 'm) Mutation \<Rightarrow> bool" where
  "carried_mutation text_of (MDocument a) (MDocument b) \<longleftrightarrow> carried_document text_of a b"
| "carried_mutation text_of m m' \<longleftrightarrow> m = m'"

text \<open>
  A mutation the program can hold: a stored document, or one that its JSON form carries.
\<close>

definition mutation_ok :: "('j, 'm) json_codec \<Rightarrow> (StoredChunk \<Rightarrow> write_error + rstr option) \<Rightarrow> ('j, 'm) Mutation \<Rightarrow> bool" where
  "mutation_ok codec text_of m \<longleftrightarrow>
     (case document_of m of
        Some document \<Rightarrow> document_ok (value_to_vec codec) (value_from_slice codec) text_of document
      | None \<Rightarrow>
          (case m of
             MDeleteDocument name \<Rightarrow> utf8_valid name \<and> length name < 2 ^ 64
           | _ \<Rightarrow> (\<exists>json m'. mutation_to_vec codec m = Some json \<and> length json < 2 ^ 64 \<and>
                      mutation_from_slice codec json = Some m' \<and> carried_mutation text_of m m')))"

text \<open>A mutation whose chunks all take the eight bytes that \<open>read_document\<close> counts for a chunk.\<close>

definition mutation_roomy :: "(StoredChunk \<Rightarrow> write_error + rstr option) \<Rightarrow> ('j, 'm) Mutation \<Rightarrow> bool" where
  "mutation_roomy text_of m \<longleftrightarrow> (\<forall>document. document_of m = Some document \<longrightarrow> roomy_document text_of document)"

definition mutation_chunks :: "('j, 'm) Mutation \<Rightarrow> StoredChunk list" where
  "mutation_chunks m = (case document_of m of None \<Rightarrow> [] | Some document \<Rightarrow> chunks document)"

definition all_chunks :: "('j, 'm) Mutation list \<Rightarrow> StoredChunk list" where
  "all_chunks ms = concat (map mutation_chunks ms)"

lemma all_chunks_simps [simp]: "all_chunks [] = []" "all_chunks (m # ms) = mutation_chunks m @ all_chunks ms"
  by (simp_all add: all_chunks_def)

lemma chunks_of_documents: "concat (map chunks (List.map_filter document_of ms)) = all_chunks ms"
  by (induction ms) (auto simp: mutation_chunks_def List.map_filter_def split: option.splits)

lemma reads_as_mutation:
  assumes d: "dictionary_of address words terms" and m: "mutation_ok codec text_of m"
    and w: "\<forall>c \<in> set (mutation_chunks m). set (map fst (entries_of c)) \<subseteq> set words"
  shows "\<exists>bytes m'. write_mutations codec text_of (m # ms) (concat (map (\<lambda>c. ids_in words (entries_of c)) (mutation_chunks m)) @ rest) =
      (case write_mutations codec text_of ms rest of Inl e \<Rightarrow> Inl e | Inr later \<Rightarrow> Inr (bytes @ later)) \<and>
    reads_or (mutation_roomy text_of m) (read_mutation codec terms) bytes m' \<and> carried_mutation text_of m m' \<and> 2 \<le> length bytes"
proof (cases "document_of m")
  case (Some document)
  then have md: "m = MDocument document" "representable document" by (cases m; simp split: if_splits)+
  obtain bytes b where b: "write_document (value_to_vec codec) text_of document (concat (map (\<lambda>c. ids_in words (entries_of c)) (chunks document)) @ rest) = Inr (bytes, rest)"
    "reads_or (roomy_document text_of document) (read_document (value_from_slice codec) terms) bytes b" "carried_document text_of document b" "1 \<le> length bytes"
    using reads_as_document [OF d, of "value_to_vec codec" "value_from_slice codec" text_of document rest] m w
    by (auto simp: mutation_ok_def mutation_chunks_def Some)
  have room: "mutation_roomy text_of m = roomy_document text_of document" using Some by (simp add: mutation_roomy_def)
  have "reads_or (mutation_roomy text_of m) (rd_bind (read_document (value_from_slice codec) terms) (rd_ok \<circ> MDocument)) bytes (MDocument b)"
    unfolding room by (rule reads_or_last [OF b(2)]) (simp add: reads_as_ok)
  then have "reads_or (mutation_roomy text_of m) (read_mutation codec terms) (TAG_DOCUMENT # bytes) (MDocument b)"
    unfolding read_mutation_def by (intro reads_or_byte_then) (simp add: TAG_DOCUMENT_def TAG_JSON_def)
  then show ?thesis using b(1,3,4) by (intro exI [of _ "TAG_DOCUMENT # bytes"] exI [of _ "MDocument b"]) (simp add: md mutation_chunks_def)
next
  case None
  show ?thesis
  proof (cases "\<exists>name. m = MDeleteDocument name")
    case True
    then obtain name where name: "m = MDeleteDocument name" "utf8_valid name" "length name < 2 ^ 64"
      using m by (auto simp: mutation_ok_def)
    have "reads_as (rd_bind read_str (rd_ok \<circ> MDeleteDocument)) (put_bytes name) (MDeleteDocument name) 0"
      by (rule reads_as_last [OF reads_as_str [OF name(3,2)]]) (simp add: reads_as_ok)
    then have "reads_as (read_mutation codec terms) (TAG_DELETE_DOCUMENT # put_bytes name) (MDeleteDocument name) 0"
      unfolding read_mutation_def by (intro reads_as_byte_then) (simp add: TAG_DOCUMENT_def TAG_JSON_def TAG_DELETE_DOCUMENT_def)
    then have "reads_or (mutation_roomy text_of m) (read_mutation codec terms) (TAG_DELETE_DOCUMENT # put_bytes name) (MDeleteDocument name)"
      by (rule reads_or_as)
    then show ?thesis using put_bytes_long [of name]
      by (intro exI [of _ "TAG_DELETE_DOCUMENT # put_bytes name"] exI [of _ m]) (auto simp: name(1) mutation_chunks_def)
  next
    case False
    then obtain json m' where j: "mutation_to_vec codec m = Some json" "length json < 2 ^ 64" "mutation_from_slice codec json = Some m'"
      "carried_mutation text_of m m'"
      using m None by (cases m) (auto simp: mutation_ok_def)
    have "reads_as (rd_bind read_bytes (\<lambda>json. case mutation_from_slice codec json of None \<Rightarrow> rd_fail JsonError | Some m \<Rightarrow> rd_ok m)) (put_bytes json) m' 0"
      by (rule reads_as_last [OF reads_as_bytes [OF j(2)]]) (simp add: j(3) reads_as_ok)
    then have "reads_as (read_mutation codec terms) (TAG_JSON # put_bytes json) m' 0"
      unfolding read_mutation_def by (intro reads_as_byte_then) simp
    then have "reads_or (mutation_roomy text_of m) (read_mutation codec terms) (TAG_JSON # put_bytes json) m'" by (rule reads_or_as)
    then show ?thesis using put_bytes_long [of json] j(1,4) False None
      by (intro exI [of _ "TAG_JSON # put_bytes json"] exI [of _ m']) (cases m; auto simp: mutation_chunks_def)
  qed
qed

lemma reads_as_mutations:
  assumes d: "dictionary_of address words terms" and "\<forall>m \<in> set ms. mutation_ok codec text_of m"
    and "\<forall>c \<in> set (all_chunks ms). set (map fst (entries_of c)) \<subseteq> set words"
  shows "\<exists>bytes ms'. write_mutations codec text_of ms (concat (map (\<lambda>c. ids_in words (entries_of c)) (all_chunks ms))) = Inr bytes \<and>
    reads_or (\<forall>m \<in> set ms. mutation_roomy text_of m) (read_mutations codec terms (length ms)) bytes (ms', ()) \<and> list_all2 (carried_mutation text_of) ms ms' \<and> 2 * length ms \<le> length bytes"
  using assms(2,3)
proof (induction ms)
  case Nil
  then show ?case by (simp add: reads_or_as reads_as_ok)
next
  case (Cons m ms)
  let ?ok = "\<forall>m \<in> set (m # ms). mutation_roomy text_of m"
  let ?ids = "\<lambda>cs. concat (map (\<lambda>c. ids_in words (entries_of c)) cs)"
  have sp: "?ids (all_chunks (m # ms)) = ?ids (mutation_chunks m) @ ?ids (all_chunks ms)" by simp
  obtain later ms' where ih: "write_mutations codec text_of ms (?ids (all_chunks ms)) = Inr later"
    "reads_or (\<forall>m \<in> set ms. mutation_roomy text_of m) (read_mutations codec terms (length ms)) later (ms', ())" "list_all2 (carried_mutation text_of) ms ms'" "2 * length ms \<le> length later"
    using Cons.IH Cons.prems by auto
  obtain bytes m' where b: "write_mutations codec text_of (m # ms) (?ids (mutation_chunks m) @ ?ids (all_chunks ms)) = Inr (bytes @ later)"
    "reads_or (mutation_roomy text_of m) (read_mutation codec terms) bytes m'" "carried_mutation text_of m m'" "2 \<le> length bytes"
    using reads_as_mutation [OF d, of codec text_of m ms "?ids (all_chunks ms)"] Cons.prems ih(1) by auto
  have one: "reads_or ?ok (read_mutation codec terms) bytes m'" by (rule reads_or_mono [OF b(2)]) simp
  have ih_ok: "reads_or ?ok (read_mutations codec terms (length ms)) later (ms', ())" by (rule reads_or_mono [OF ih(2)]) simp
  have "reads_or ?ok (read_step codec terms ()) bytes (m', ())"
    unfolding read_step_def by (rule reads_or_last [OF one]) (rule reads_as_ok)
  then have "reads_or ?ok (read_mutations codec terms (Suc (length ms))) (bytes @ later) (m' # ms', ())"
    unfolding read_loop.simps
    by (rule reads_or_bind, unfold prod.case) (rule reads_or_last [OF ih_ok], simp add: reads_as_ok)
  then show ?case using sp b ih by (intro exI [of _ "bytes @ later"] exI [of _ "m' # ms'"]) simp
qed

definition frame_keys :: "('j, 'm) Mutation list \<Rightarrow> rstr list" where
  "frame_keys ms = concat (map (\<lambda>c. map fst (entries_of c)) (all_chunks ms))"

text \<open>The mutations of one transaction; their distinct terms together are no longer than a frame.\<close>

definition payload_ok :: "('j, 'm) json_codec \<Rightarrow> (StoredChunk \<Rightarrow> write_error + rstr option) \<Rightarrow> ('j, 'm) Mutation list \<Rightarrow> bool" where
  "payload_ok codec text_of ms \<longleftrightarrow> length ms < 2 ^ 64 \<and> (\<forall>m \<in> set ms. mutation_ok codec text_of m) \<and>
     (\<Sum>t \<in> set (frame_keys ms). length t) \<le> MAX_RAW_FRAME_SIZE"

lemma stored_keys:
  assumes "stored_chunk text_of c"
  shows "terms_keys (chunk_terms c) = Some (map fst (entries_of c))" "\<forall>k \<in> set (map fst (entries_of c)). utf8_valid k"
  using assms table_iter [of "chunk_terms c" "entries_of c"] by (auto simp: stored_chunk_def chunk_ok_def terms_keys_def)

lemma payload_chunks: "\<forall>m \<in> set ms. mutation_ok codec text_of m \<Longrightarrow> c \<in> set (all_chunks ms) \<Longrightarrow> stored_chunk text_of c"
  by (induction ms) (auto simp: mutation_chunks_def mutation_ok_def document_ok_def split: option.splits)

lemma document_terms_payload:
  assumes "\<forall>m \<in> set ms. mutation_ok codec text_of m"
  shows "document_terms (List.map_filter document_of ms) = Some (frame_keys ms)"
proof -
  have "those (map (terms_keys \<circ> chunk_terms) (all_chunks ms)) = Some (map (\<lambda>c. map fst (entries_of c)) (all_chunks ms))"
    by (rule those_map_eqI) (simp, rule stored_keys(1), rule payload_chunks [OF assms])
  then show ?thesis by (simp add: document_terms_def chunks_of_documents frame_keys_def)
qed

lemma payload_dictionary:
  assumes "payload_ok codec text_of ms"
  defines "ft \<equiv> frame_terms_new (frame_keys ms)"
  shows "good_words (ft_sorted ft)" "set (ft_sorted ft) = set (frame_keys ms)"
    "ft_ids ft = concat (map (\<lambda>c. ids_in (ft_sorted ft) (entries_of c)) (all_chunks ms))"
proof -
  let ?k = "frame_keys ms"
  have m: "\<forall>m \<in> set ms. mutation_ok codec text_of m" using assms(1) by (simp add: payload_ok_def)
  have size: "length (concat ws) \<le> MAX_RAW_FRAME_SIZE" if "ssorted ws" "set ws = set ?k" for ws
    using assms(1) that sum_list_distinct_conv_sum_set [OF ssorted_distinct [OF that(1)], of length]
    by (simp add: payload_ok_def length_concat)
  obtain ws where ws: "ssorted ws" "set ws = set ?k" using sorted_list_of_set(1) [of "set ?k"]
    by (metis List.finite_set sorted_list_of_set.distinct_sorted_key_list_of_set sorted_list_of_set.sorted_sorted_key_list_of_set list.map_ident map_ident sorted_distinct_ssorted)
  have "card (set ?k) \<le> Suc MAX_RAW_FRAME_SIZE"
    using words_bound [OF ws(1)] size [OF ws] ws ssorted_card by (metis Suc_le_mono le_trans)
  then have c: "card (set ?k) < 2 ^ 32" by (simp add: MAX_RAW_FRAME_SIZE_def)
  note f = frame_terms_exact [OF c, folded ft_def]
  show "set (ft_sorted ft) = set ?k" by (rule f(2))
  have "\<forall>k \<in> set ?k. utf8_valid k" using stored_keys(2) payload_chunks [OF m] by (auto simp: frame_keys_def)
  then show "good_words (ft_sorted ft)" using f(1,2) size [OF f(1,2)] by (simp add: good_words_def)
  show "ft_ids ft = concat (map (\<lambda>c. ids_in (ft_sorted ft) (entries_of c)) (all_chunks ms))"
    using f(3) by (simp add: frame_keys_def ids_in_def map_concat comp_def)
qed

text \<open>The decoder gives the mutations back; only a document with a smaller chunk may be refused.\<close>

definition decodes_to :: "('j, 'm) json_codec \<Rightarrow> usize \<Rightarrow> (StoredChunk \<Rightarrow> write_error + rstr option) \<Rightarrow> ('j, 'm) Mutation list
    \<Rightarrow> u8 list \<Rightarrow> bool" where
  "decodes_to codec address text_of ms body \<longleftrightarrow>
     (\<exists>ms'. decode_body codec address body = Inr ms' \<and> list_all2 (carried_mutation text_of) ms ms') \<or>
     decode_body codec address body = Inl CountExceedsRecord \<and> (\<exists>m \<in> set ms. \<not> mutation_roomy text_of m)"

lemma body_roundtrip:
  assumes "payload_ok codec text_of ms"
  defines "ft \<equiv> frame_terms_new (frame_keys ms)"
  shows "\<exists>bytes. write_mutations codec text_of ms (ft_ids ft) = Inr bytes \<and>
    decodes_to codec address text_of ms (put_varint (of_nat (length ms)) @ frame_terms_write ft @ bytes)"
proof -
  note p = payload_dictionary [OF assms(1), folded ft_def]
  define terms where "terms = Arc address (the (dictionary_new (ft_sorted ft)))"
  have d: "dictionary_of address (ft_sorted ft) terms"
    using p(1) dictionary_new_good [OF p(1)] by (simp add: dictionary_of_def terms_def)
  let ?ok = "\<forall>m \<in> set ms. mutation_roomy text_of m"
  have "\<forall>c \<in> set (all_chunks ms). set (map fst (entries_of c)) \<subseteq> set (ft_sorted ft)"
    unfolding p(2) by (auto simp: frame_keys_def)
  then obtain bytes ms' where b: "write_mutations codec text_of ms (ft_ids ft) = Inr bytes"
    "reads_or ?ok (read_mutations codec terms (length ms)) bytes (ms', ())" "list_all2 (carried_mutation text_of) ms ms'" "2 * length ms \<le> length bytes"
    using reads_as_mutations [OF d, of ms codec text_of] assms(1) unfolding p(3) payload_ok_def by blast
  let ?body = "put_varint (of_nat (length ms)) @ frame_terms_write ft @ bytes"
  have "reads_or ?ok (read_body codec address) ?body ms'"
    unfolding read_body_def
    apply (rule reads_or_counted)
      apply (use assms(1) in \<open>simp add: payload_ok_def\<close>)
     apply (use b(4) in simp)
    apply (rule reads_or_then [OF reads_as_terms [OF p(1)]])
    apply (rule reads_or_last [OF b(2) [unfolded terms_def]])
    apply (simp add: reads_as_ok)
    done
  then have "decode_body codec address ?body = Inr ms' \<or> \<not> ?ok \<and> decode_body codec address ?body = Inl CountExceedsRecord"
    unfolding reads_or_def decode_body_reads
    by (auto simp: finish_def reader_new_def reader_is_empty_def dest!: spec [of _ "[]"])
  then show ?thesis using b(1,3) unfolding decodes_to_def by blast
qed

text \<open>
  C5. A transaction survives the journal format: encoding any mutations the program can hold succeeds, and
  decoding the payload gives the same mutations in the same order.  Documents come back with every
  field, their term tables with the same entries and positions; only the layout of the tables and
  the place of the text in the process differ.  The one exception: when a document has a chunk written in less
  than the eight bytes that \<open>read_document\<close> counts for a chunk, the decoder may refuse the payload with the
  count error, but never gives other mutations (\<open>small_document_unreadable\<close> below shows a refusal).
\<close>

theorem binary_payload_roundtrip:
  assumes "payload_ok codec (resolve_text crc32 True None) ms"
  shows "\<exists>body. binary_payload codec crc32 ms = Inr (BINARY_MAGIC @ body) \<and>
    ((\<exists>ms'. decode_body codec address body = Inr ms' \<and> list_all2 (carried_mutation (resolve_text crc32 True None)) ms ms') \<or>
     decode_body codec address body = Inl CountExceedsRecord \<and>
       (\<exists>m \<in> set ms. \<not> mutation_roomy (resolve_text crc32 True None) m))"
proof -
  have t: "document_terms (List.map_filter document_of ms) = Some (frame_keys ms)"
    by (rule document_terms_payload [of ms codec "resolve_text crc32 True None"]) (use assms in \<open>simp add: payload_ok_def\<close>)
  show ?thesis using body_roundtrip [OF assms, of address] by (auto simp: binary_payload_def t Let_def decodes_to_def)
qed

definition example_chunk :: StoredChunk where
  "example_chunk = \<lparr>chunk_name = [120], chunk_text = Some [104, 105], text_at = None, start_byte = 0, end_byte = 2,
     chunk_vector = \<lparr>dim = 64, indices = [1, 5]\<rparr>, embedding = Some [0x3F800000],
     chunk_terms = \<lparr>st_terms = Some (Tree [([104, 105], 1)]), st_positions = None\<rparr>, word_count = 1, stemmed = True, vector_state = Encoded\<rparr>"

definition example_document :: "unit StoredDocument" where
  "example_document = \<lparr>document_id = [97], source_uri = Some [98], document_version = [49], doc_metadata = (), chunks = [example_chunk]\<rparr>"

text \<open>A document with terms, a vector and an embedding, a delete and a mutation carried as JSON.\<close>

theorem binary_payload_roundtrip_witness:
  "\<exists>body ms'. binary_payload example_codec (\<lambda>_. 0) [MDocument example_document, MDeleteDocument [98], MOther ()] = Inr (BINARY_MAGIC @ body) \<and>
     decode_body example_codec 0 body = Inr ms' \<and>
     list_all2 (carried_mutation (resolve_text (\<lambda>_. 0) True None)) [MDocument example_document, MDeleteDocument [98], MOther ()] ms'"
proof -
  let ?ms = "[MDocument example_document, MDeleteDocument [98], MOther ()] :: (unit, unit) Mutation list"
  let ?t = "resolve_text (\<lambda>_. 0) True None"
  have u: "b < 0x80 \<Longrightarrow> utf8_valid [b]" "utf8_valid [104, 105]" for b by (simp_all add: utf8_valid.simps)
  have it: "entries_of example_chunk = [([104, 105], 1)]" by (simp add: entries_of_def example_chunk_def terms_iter_def)
  have t: "?t example_chunk = Inr (Some [104, 105])" by (simp add: resolve_text_def example_chunk_def)
  have "chunk_ok (Some [104, 105]) example_chunk [([104, 105], 1)]"
    by (simp add: chunk_ok_def example_chunk_def table_of_def u)
  then have c: "stored_chunk ?t example_chunk" using t it by (simp add: stored_chunk_def)
  have "document_ok (value_to_vec example_codec) (value_from_slice example_codec) ?t example_document"
    using c by (simp add: document_ok_def example_document_def example_codec_def u)
  moreover have r: "representable example_document" by (simp add: representable_def example_document_def example_chunk_def)
  ultimately have "\<forall>m \<in> set [MDocument example_document, MDeleteDocument [98], MOther ()]. mutation_ok example_codec ?t m"
    by (simp add: mutation_ok_def u) (simp add: example_codec_def)
  moreover have "frame_keys [MDocument example_document, MDeleteDocument [98], MOther ()] = [[104, 105]]"
    using r it by (simp add: frame_keys_def mutation_chunks_def) (simp add: example_document_def it)
  ultimately have "payload_ok example_codec ?t ?ms" by (simp add: payload_ok_def MAX_RAW_FRAME_SIZE_def)
  moreover have "\<forall>m \<in> set ?ms. mutation_roomy ?t m"
    using t r by (simp add: mutation_roomy_def example_document_def all_roomy_def roomy_def)
  ultimately show ?thesis using binary_payload_roundtrip [of example_codec "\<lambda>_. 0" ?ms 0] by blast
qed

text \<open>The frames of compaction carry one document, its text read from the segment.\<close>

lemma compacted_document_roundtrip:
  fixes codec :: "('a, 'b) json_codec"
  assumes "payload_ok codec (resolve_text crc32 read_ok segment) [MDocument document]" "representable document"
    "roomy_document (resolve_text crc32 read_ok segment) document"
  shows "\<exists>body b. binary_document_payload codec crc32 read_ok segment document = Inr (Some (BINARY_MAGIC @ body)) \<and>
    decode_body codec address body = Inr [MDocument b] \<and> carried_document (resolve_text crc32 read_ok segment) document b"
proof -
  let ?ms = "[MDocument document] :: ('a, 'b) Mutation list" and ?ft = "frame_terms_new (frame_keys ([MDocument document] :: ('a, 'b) Mutation list))"
  obtain bytes ms' where b: "write_mutations codec (resolve_text crc32 read_ok segment) ?ms (ft_ids ?ft) = Inr bytes"
    "decode_body codec address (put_varint (of_nat (length ?ms)) @ frame_terms_write ?ft @ bytes) = Inr ms'"
    "list_all2 (carried_mutation (resolve_text crc32 read_ok segment)) ?ms ms'"
    using body_roundtrip [OF assms(1), of address] assms(2,3) by (auto simp: decodes_to_def mutation_roomy_def)
  obtain m where m: "ms' = [m]" "carried_mutation (resolve_text crc32 read_ok segment) (MDocument document) m"
    using b(3) by (auto simp: list_all2_Cons1)
  obtain bb where mb: "m = MDocument bb" "carried_document (resolve_text crc32 read_ok segment) document bb"
    using m(2) assms(2) by (cases m) auto
  obtain db cur where w: "write_document (value_to_vec codec) (resolve_text crc32 read_ok segment) document (ft_ids ?ft) = Inr (db, cur)" "bytes = TAG_DOCUMENT # db"
    using b(1) assms(2) by (auto split: sum.splits)
  have t: "document_terms [document] = Some (frame_keys ?ms)"
    using document_terms_payload [of ?ms codec "resolve_text crc32 read_ok segment"] assms
    by (simp add: payload_ok_def List.map_filter_def)
  show ?thesis using w b(2) m(1) mb assms(2) by (auto simp: binary_document_payload_def t Let_def)
qed

text \<open>
  Why the chunks of a round trip need room: \<open>read_document\<close> asks for eight bytes per chunk, but a chunk
  without text, terms and vector in a small space takes seven.  The payload of such a document is
  written without error, and the decoder refuses it.
\<close>

definition small_document :: "unit StoredDocument" where
  "small_document = \<lparr>document_id = [97], source_uri = None, document_version = [49], doc_metadata = (),
     chunks = [\<lparr>chunk_name = chunk_id [97] 0, chunk_text = None, text_at = None, start_byte = 0, end_byte = 3,
       chunk_vector = \<lparr>dim = 64, indices = []\<rparr>, embedding = None, chunk_terms = terms_default, word_count = 1,
       stemmed = True, vector_state = Lexical\<rparr>]\<rparr>"

lemma small_document_unreadable:
  "\<exists>body. binary_payload example_codec (\<lambda>_. 0) [MDocument small_document] = Inr (BINARY_MAGIC @ body) \<and>
     decode_body example_codec 0 body = Inl CountExceedsRecord"
proof -
  let ?body = "[1, 0, 1, 1, 97, 0, 1, 49, 2, 0x7B, 0x7D, 1, 36, 0, 3, 1, 64, 0, 0]"
  have "binary_payload example_codec (\<lambda>_. 0) [MDocument small_document] = Inr (BINARY_MAGIC @ ?body)" by code_simp
  moreover have "decode_body example_codec 0 ?body = Inl CountExceedsRecord" by code_simp
  ultimately show ?thesis by blast
qed

section \<open>Replay in blocks\<close>

function blocks :: "nat \<Rightarrow> 'a list \<Rightarrow> 'a list list" where
  "blocks n xs = (if xs = [] then [] else if n = 0 \<or> length xs \<le> n then [xs] else take n xs # blocks n (drop n xs))"
  by pat_completeness auto
termination by (relation "measure (\<lambda>(_, xs). length xs)") auto

declare blocks.simps [simp del]

fun apply_blocks :: "('a list \<Rightarrow> 's \<Rightarrow> 'e + 's) \<Rightarrow> 'a list list \<Rightarrow> 's \<Rightarrow> 'e + 's" where
  "apply_blocks f [] s = Inr s"
| "apply_blocks f (b # bs) s = (case f b s of Inl e \<Rightarrow> Inl e | Inr s \<Rightarrow> apply_blocks f bs s)"

lemma blocks_small: "xs \<noteq> [] \<Longrightarrow> length xs \<le> n \<Longrightarrow> blocks n xs = [xs]"
  by (simp add: blocks.simps [of n xs])

lemma blocks_full: "length xs = n \<Longrightarrow> 0 < n \<Longrightarrow> blocks n (xs @ ys) = xs # blocks n ys"
  by (cases "ys = []") (auto simp: blocks.simps [of n "xs @ ys"] blocks.simps [of n "[]"] blocks.simps [of n xs])

lemma blocks_concat: "concat (blocks n xs) = xs"
  by (induction n xs rule: blocks.induct) (subst blocks.simps, simp)

lemma blocks_sizes: "0 < n \<Longrightarrow> b \<in> set (blocks n xs) \<Longrightarrow> b \<noteq> [] \<and> length b \<le> n"
proof (induction n xs rule: blocks.induct)
  case (1 n xs)
  show ?case
  proof (cases "xs = [] \<or> length xs \<le> n")
    case True
    then show ?thesis using "1.prems" by (auto simp: blocks.simps [of n xs] split: if_splits)
  next
    case False
    then have "b = take n xs \<or> b \<in> set (blocks n (drop n xs))" using "1.prems" by (auto simp: blocks.simps [of n xs])
    then show ?thesis using "1.IH" "1.prems"(1) False by auto
  qed
qed

lemma apply_one: "apply_blocks f [b] s = f b s"
  by (simp split: sum.split)

lemma replay_loop_blocks:
  assumes "decode_loop codec d = Inr ms" "length chunk < REPLAY_CHUNK"
  shows "replay_loop codec f d chunk s = apply_blocks f (blocks REPLAY_CHUNK (chunk @ ms)) s"
  using assms
proof (induction codec d arbitrary: chunk ms s rule: decode_loop.induct)
  case (1 codec d)
  show ?case
  proof (cases "next_mutation codec d")
    case (Inl e)
    then show ?thesis using "1.prems"(1) by (simp add: decode_loop.simps [of codec d])
  next
    case (Inr x)
    obtain o' d' where x: "x = (o', d')" by (cases x)
    show ?thesis
    proof (cases o')
      case None
      then have "ms = []" using "1.prems"(1) Inr x by (simp add: decode_loop.simps [of codec d])
      then show ?thesis
        using Inr x None "1.prems"(2) apply_one [of f chunk s] blocks_small [of chunk REPLAY_CHUNK]
        by (cases "chunk = []") (simp_all add: replay_loop.simps [of codec f d] blocks.simps [of _ "[]"])
    next
      case (Some m)
      obtain ms' where ms': "decode_loop codec d' = Inr ms'" "ms = m # ms'"
        using "1.prems"(1) Inr x Some by (auto simp: decode_loop.simps [of codec d] split: sum.splits)
      have ih: "length c < REPLAY_CHUNK \<Longrightarrow> replay_loop codec f d' c s = apply_blocks f (blocks REPLAY_CHUNK (c @ ms')) s" for c s
        using "1.IH" [OF Inr x [symmetric] Some ms'(1)] by blast
      show ?thesis
      proof (cases "length (chunk @ [m]) = REPLAY_CHUNK")
        case True
        have b: "blocks REPLAY_CHUNK (chunk @ ms) = (chunk @ [m]) # blocks REPLAY_CHUNK ms'"
          using blocks_full [OF True, of ms'] ms'(2) by (simp add: REPLAY_CHUNK_def)
        show ?thesis using Inr x Some True ih [of "[]"] unfolding b
          by (simp add: replay_loop.simps [of codec f d] Let_def REPLAY_CHUNK_def split: sum.split)
      next
        case False
        then have "length (chunk @ [m]) < REPLAY_CHUNK" using "1.prems"(2) by simp
        then show ?thesis using Inr x Some False ih [of "chunk @ [m]"] ms'(2)
          by (simp add: replay_loop.simps [of codec f d] Let_def)
      qed
    qed
  qed
qed

lemma replay_loop_undecodable:
  assumes "decode_loop codec d = Inl e"
  shows "\<exists>e'. replay_loop codec f d chunk s = Inl e'"
  using assms
proof (induction codec d arbitrary: chunk s rule: decode_loop.induct)
  case (1 codec d)
  show ?case
  proof (cases "next_mutation codec d")
    case (Inl e)
    then show ?thesis by (simp add: replay_loop.simps [of codec f d])
  next
    case (Inr x)
    obtain o' d' where x: "x = (o', d')" by (cases x)
    then obtain m where m: "o' = Some m" "decode_loop codec d' = Inl e"
      using "1.prems" Inr by (auto simp: decode_loop.simps [of codec d] split: option.splits sum.splits)
    have ih: "\<exists>e'. replay_loop codec f d' c t = Inl e'" for c t using "1.IH" [OF Inr x [symmetric] m] by blast
    show ?thesis using Inr x m(1) ih
      by (simp add: replay_loop.simps [of codec f d] Let_def split: sum.split)
  qed
qed

text \<open>
  C7. Replaying a binary frame applies exactly its mutations in order: the frame's mutations are cut
  into blocks of at most 512, each block is validated and then applied, and the first failure stops
  the replay.  A frame that does not decode never replays successfully.
\<close>

theorem replay_applies_in_blocks:
  "(case decode_body codec address body of
      Inl e \<Rightarrow> \<exists>e'. replay_binary_frame codec address check replay body s = Inl e'
    | Inr ms \<Rightarrow> \<exists>bs. replay_binary_frame codec address check replay body s = apply_blocks (apply_chunk check replay) bs s \<and>
        concat bs = ms \<and> list_all (\<lambda>b. b \<noteq> [] \<and> length b \<le> 512) bs)"
proof (cases "decoder_new address body")
  case (Inl e)
  then show ?thesis by (simp add: decode_body_def replay_binary_frame_def)
next
  case (Inr d)
  show ?thesis
  proof (cases "decode_loop codec d")
    case (Inl e)
    then show ?thesis using replay_loop_undecodable Inr by (simp add: decode_body_def replay_binary_frame_def)
  next
    case (Inr ms)
    let ?bs = "blocks REPLAY_CHUNK ms"
    have "replay_loop codec (apply_chunk check replay) d [] s = apply_blocks (apply_chunk check replay) ?bs s"
      using replay_loop_blocks [OF Inr, of "[]"] by (simp add: REPLAY_CHUNK_def)
    moreover have "list_all (\<lambda>b. b \<noteq> [] \<and> length b \<le> 512) ?bs"
      using blocks_sizes [of REPLAY_CHUNK _ ms] by (auto simp: list_all_iff REPLAY_CHUNK_def)
    ultimately show ?thesis using \<open>decoder_new address body = Inr d\<close> Inr blocks_concat [of REPLAY_CHUNK ms]
      by (auto simp: decode_body_def replay_binary_frame_def)
  qed
qed

end
