(* ===== verification/CheckpointPostings.thy ===== *)
theory CheckpointPostings
  imports TermPositions
begin

text \<open>
  The posting lists of a document checkpoint, \<open>src/core/documents/postings.rs\<close>: per posting one varint with the
  slot gap and a flag, and the frequency only when it is not one.  A checked decoder reads untrusted
  bytes; a fast decoder reads checked bytes, up to eight postings from one 64-bit load.  A visitor is a
  function of its own state; \<open>None\<close> stands for a panic.
\<close>

type_synonym Posting = "usize \<times> u32"

record Postings =
  post_bytes :: "u8 list"
  post_count :: u32

section \<open>Writing\<close>

fun pack_gaps :: "usize option \<Rightarrow> Posting list \<Rightarrow> u8 list" where
  "pack_gaps previous [] = []"
| "pack_gaps previous ((slot, frequency) # ps) =
     (let gap = (case previous of None \<Rightarrow> slot | Some p \<Rightarrow> slot - p)
      in put_varint (push_bit 1 (of_nat gap) OR (if frequency \<noteq> 1 then 1 else 0))
         @ (if frequency \<noteq> 1 then put_varint (ucast frequency) else []) @ pack_gaps (Some slot) ps)"

definition pack_checkpoint :: "Posting list \<Rightarrow> u8 list" where
  "pack_checkpoint list = pack_gaps None list"

section \<open>The checked decoder\<close>

fun checked_varint_loop :: "nat list \<Rightarrow> u8 list \<Rightarrow> usize \<Rightarrow> u64 \<Rightarrow> codec_error + u64 \<times> usize" where
  "checked_varint_loop [] bytes p v = Inl VarintOverflow"
| "checked_varint_loop (shift # shifts) bytes p v =
     (if p < length bytes then
        let b = bytes ! p; v = v OR push_bit shift (ucast (b AND 0x7f))
        in if b AND 0x80 = 0 then Inr (v, p + 1) else checked_varint_loop shifts bytes (p + 1) v
      else Inl Truncated)"

definition checked_varint :: "u8 list \<Rightarrow> usize \<Rightarrow> codec_error + u64 \<times> usize" where
  "checked_varint bytes p = checked_varint_loop (map (\<lambda>k. 7 * k) [0..<10]) bytes p 0"

definition checked_posting :: "u8 list \<Rightarrow> usize \<Rightarrow> codec_error + u64 \<times> u64 \<times> usize" where
  "checked_posting bytes p =
     (case checked_varint bytes p of
        Inl e \<Rightarrow> Inl e
      | Inr (word, p) \<Rightarrow>
          if word AND 1 = 0 then Inr (word, 1, p)
          else (case checked_varint bytes p of
             Inl e \<Rightarrow> Inl e
           | Inr (frequency, p) \<Rightarrow>
               if frequency \<noteq> 1 then Inr (word, frequency, p) else Inl (Malformed ''packed posting frequency'')))"

fun try_loop :: "('s \<Rightarrow> Posting \<Rightarrow> bool \<times> 's) \<Rightarrow> nat \<Rightarrow> u8 list \<Rightarrow> usize \<Rightarrow> u64 \<Rightarrow> 's \<Rightarrow> codec_error + 's" where
  "try_loop f 0 bytes p slot s = (if p = length bytes then Inr s else Inl (Malformed ''posting list has trailing bytes''))"
| "try_loop f (Suc n) bytes p slot s =
     (case checked_posting bytes p of
        Inl e \<Rightarrow> Inl e
      | Inr (word, frequency, p) \<Rightarrow>
          if unat slot + unat (drop_bit 1 word) < 2 ^ 64 then
            let slot = slot + drop_bit 1 word
            in case u32_try_from frequency of
                 None \<Rightarrow> Inl OutOfRange
               | Some frequency \<Rightarrow>
                   (case f s (unat slot, frequency) of
                      (False, s) \<Rightarrow> Inr s
                    | (True, s) \<Rightarrow> try_loop f n bytes p slot s)
          else Inl (Malformed ''posting slot overflow''))"

definition try_for_each :: "('s \<Rightarrow> Posting \<Rightarrow> bool \<times> 's) \<Rightarrow> Postings \<Rightarrow> 's \<Rightarrow> codec_error + 's" where
  "try_for_each f ps s = try_loop f (unat (post_count ps)) (post_bytes ps) 0 0 s"

section \<open>The fast decoder\<close>

function get_loop :: "u8 list \<Rightarrow> usize \<Rightarrow> u64 \<Rightarrow> nat \<Rightarrow> (u64 \<times> usize) option" where
  "get_loop bytes p v shift =
     (if p < length bytes then
        let b = bytes ! p; v = v OR push_bit shift (ucast (b AND 0x7f))
        in if b AND 0x80 = 0 then Some (v, p + 1)
           else if shift + 7 < 64 then get_loop bytes (p + 1) v (shift + 7) else None
      else None)"
  by pat_completeness auto
termination by (relation "measure (\<lambda>(_, _, _, shift). 64 - shift)") auto

declare get_loop.simps [simp del]

definition get_varint :: "u8 list \<Rightarrow> usize \<Rightarrow> (u64 \<times> usize) option" where
  "get_varint bytes p =
     (if p < length bytes then
        if bytes ! p < 0x80 then Some (ucast (bytes ! p), p + 1)
        else get_loop bytes (p + 1) (ucast (bytes ! p AND 0x7f)) 7
      else None)"

definition trailing_zeros :: "u64 \<Rightarrow> nat" where
  "trailing_zeros w = length (takeWhile (\<lambda>n. \<not> bit w n) [0..<64])"

definition clean_bytes :: "u64 \<Rightarrow> nat" where
  "clean_bytes word =
     (let flags = word AND 0x8181818181818181 in if flags = 0 then 8 else trailing_zeros flags div 8)"

text \<open>The postings of the first bytes of a loaded word, each of frequency one.\<close>

fun visit_clean :: "('s \<Rightarrow> Posting \<Rightarrow> 's) \<Rightarrow> u64 \<Rightarrow> nat \<Rightarrow> nat \<Rightarrow> u64 \<Rightarrow> 's \<Rightarrow> u64 \<times> 's" where
  "visit_clean f word byte 0 slot s = (slot, s)"
| "visit_clean f word byte (Suc n) slot s =
     (let slot = slot + (drop_bit (8 * byte + 1) word AND 0x7f)
      in visit_clean f word (byte + 1) n slot (f s (unat slot, 1)))"

text \<open>The bytes taken from one load: none unless eight postings and eight bytes are left.\<close>

definition load_clean :: "u8 list \<Rightarrow> usize \<Rightarrow> nat \<Rightarrow> nat" where
  "load_clean bytes p left =
     (if left \<ge> 8 \<and> p + 8 \<le> length bytes then clean_bytes (of_le_bytes (sub_slice bytes p 8)) else 0)"

lemma clean_bytes_le: "clean_bytes w \<le> 8"
proof -
  have "trailing_zeros v \<le> 64" for v
    using length_takeWhile_le [of "\<lambda>n. \<not> bit v n" "[0..<64]"] by (simp add: trailing_zeros_def)
  then show ?thesis using div_le_mono [of "trailing_zeros (w AND 0x8181818181818181)" 64 8] by (simp add: clean_bytes_def Let_def)
qed

function for_each_loop :: "('s \<Rightarrow> Posting \<Rightarrow> 's) \<Rightarrow> u8 list \<Rightarrow> usize \<Rightarrow> u64 \<Rightarrow> nat \<Rightarrow> 's \<Rightarrow> 's option" where
  "for_each_loop f bytes p slot left s =
     (if left > 0 then
        let clean = load_clean bytes p left;
            (slot, s) = visit_clean f (of_le_bytes (sub_slice bytes p 8)) 0 clean slot s;
            p = p + clean; left = left - clean
        in if clean = 8 then for_each_loop f bytes p slot left s
           else case get_varint bytes p of
                  None \<Rightarrow> None
                | Some (word, p) \<Rightarrow>
                    let slot = slot + drop_bit 1 word
                    in case (if word AND 1 = 0 then Some (1, p) else get_varint bytes p) of
                         None \<Rightarrow> None
                       | Some (frequency, p) \<Rightarrow> for_each_loop f bytes p slot (left - 1) (f s (unat slot, ucast frequency))
      else Some s)"
  by pat_completeness auto
termination
  by (relation "measure (\<lambda>(_, _, _, _, left, _). left)") auto

declare for_each_loop.simps [simp del]

definition for_each :: "('s \<Rightarrow> Posting \<Rightarrow> 's) \<Rightarrow> Postings \<Rightarrow> 's \<Rightarrow> 's option" where
  "for_each f ps s = for_each_loop f (post_bytes ps) 0 0 (unat (post_count ps)) s"

section \<open>The fast decoder reads one posting after the other\<close>

fun each_posting :: "('s \<Rightarrow> Posting \<Rightarrow> 's) \<Rightarrow> u8 list \<Rightarrow> usize \<Rightarrow> u64 \<Rightarrow> nat \<Rightarrow> 's \<Rightarrow> 's option" where
  "each_posting f bytes p slot 0 s = Some s"
| "each_posting f bytes p slot (Suc left) s =
     (case get_varint bytes p of
        None \<Rightarrow> None
      | Some (word, p) \<Rightarrow>
          let slot = slot + drop_bit 1 word
          in case (if word AND 1 = 0 then Some (1, p) else get_varint bytes p) of
               None \<Rightarrow> None
             | Some (frequency, p) \<Rightarrow> each_posting f bytes p slot left (f s (unat slot, ucast frequency)))"

lemma bit_0x81: "bit (0x81 :: u8) j \<longleftrightarrow> j = 0 \<or> j = 7"
proof -
  have "(0x81 :: u8) = 1 OR push_bit 7 1" by simp
  then show ?thesis by (simp only: bit_or_iff bit_push_bit_iff bit_1_iff) auto
qed

lemma bit_flags: "n < 64 \<Longrightarrow> bit (0x8181818181818181 :: u64) n \<longleftrightarrow> n mod 8 = 0 \<or> n mod 8 = 7"
proof -
  assume n: "n < 64"
  have w: "(0x8181818181818181 :: u64) = of_le_bytes (replicate 8 0x81)" by code_simp
  have "n div 8 < 8" using n by auto
  then show ?thesis unfolding w bit_of_le_bytes using n bit_0x81 by (simp del: bit_numeral_word_iff)
qed

lemma trailing_zeros_bits: "n < trailing_zeros w \<Longrightarrow> \<not> bit w n"
proof -
  let ?z = "takeWhile (\<lambda>n. \<not> bit w n) [0..<64]"
  assume "n < trailing_zeros w"
  then have n: "n < length ?z" by (simp add: trailing_zeros_def)
  then have "n < 64" using length_takeWhile_le [of "\<lambda>n. \<not> bit w n" "[0..<64]"] by simp
  then show ?thesis using set_takeWhileD [OF nth_mem [OF n]] takeWhile_nth [OF n] by simp
qed

definition is_clean :: "u8 \<Rightarrow> bool" where "is_clean b \<longleftrightarrow> \<not> bit b 0 \<and> \<not> bit b 7"

lemma clean_bytes_clean:
  assumes "length bs = 8" "k < clean_bytes (of_le_bytes bs)"
  shows "is_clean (bs ! k)"
proof -
  let ?w = "of_le_bytes bs :: u64" and ?f = "0x8181818181818181 :: u64"
  have k: "k < 8" using assms(2) clean_bytes_le [of ?w] by simp
  have z: "\<not> bit (?w AND ?f) (8 * k + j)" if "j < 8" for j
  proof (cases "?w AND ?f = 0")
    case False
    then have "k < trailing_zeros (?w AND ?f) div 8" using assms(2) by (simp add: clean_bytes_def Let_def)
    then have "8 * k + j < trailing_zeros (?w AND ?f)" using that by linarith
    then show ?thesis by (rule trailing_zeros_bits)
  qed simp
  have "8 * k + j < 64" if "j < 8" for j using k that by linarith
  then have "\<not> bit (bs ! k) j" if "j = 0 \<or> j = 7" for j
    using z [of j] that k assms(1) bit_flags [of "8 * k + j"] bit_of_le_bytes [of bs "8 * k + j", where 'a = 64]
    by (auto simp: bit_and_iff simp del: bit_numeral_word_iff)
  then show ?thesis by (simp add: is_clean_def)
qed

lemma clean_gap:
  assumes "length bs = 8" "k < 8" "is_clean (bs ! k)"
  shows "drop_bit (8 * k + 1) (of_le_bytes bs :: u64) AND 0x7f = drop_bit 1 (ucast (bs ! k))"
proof (rule bit_eqI)
  fix n
  have m: "(0x7f :: u64) = mask 7" by (simp add: mask_eq_exp_minus_1)
  have "bit (of_le_bytes bs :: u64) (8 * k + 1 + n) \<longleftrightarrow> bit (bs ! k) (Suc n)" if "n < 7"
  proof -
    have d: "8 * k + 1 + n = Suc n + 8 * k" by simp
    have "8 * k + 1 + n < 64" "(8 * k + 1 + n) div 8 = k" "(8 * k + 1 + n) mod 8 = Suc n"
      using that assms(2) by (linarith, simp_all only: d div_mult_self2 mod_mult_self2) (simp_all)
    then show ?thesis using bit_of_le_bytes [of bs "8 * k + 1 + n", where 'a = 64] assms(1,2) by simp
  qed
  moreover have "\<not> bit (bs ! k) (Suc n)" if "\<not> n < 7" using that by (simp add: impossible_bit)
  ultimately show "bit (drop_bit (8 * k + 1) (of_le_bytes bs :: u64) AND 0x7f) n = bit (drop_bit 1 (ucast (bs ! k) :: u64)) n"
    unfolding m by (cases "n < 7") (auto simp: bit_and_iff bit_drop_bit_eq bit_mask_iff bit_ucast_iff)
qed

lemma clean_byte_read:
  assumes "p < length bytes" "is_clean (bytes ! p)"
  shows "get_varint bytes p = Some (ucast (bytes ! p), p + 1)" "(ucast (bytes ! p) :: u64) AND 1 = 0"
proof -
  show "get_varint bytes p = Some (ucast (bytes ! p), p + 1)"
    using assms byte_below_80(1) [of "bytes ! p"] by (simp add: get_varint_def is_clean_def)
  show "(ucast (bytes ! p) :: u64) AND 1 = 0"
    using assms(2) and_exp_eq_0_iff_not_bit [of "ucast (bytes ! p) :: u64" 0] by (simp add: is_clean_def bit_ucast_iff)
qed

lemma visit_clean_each:
  assumes "p + 8 \<le> length bytes" "byte + n \<le> 8" "\<And>k. k < n \<Longrightarrow> is_clean (bytes ! (p + byte + k))"
  shows "each_posting f bytes (p + byte) slot (n + left) s =
    (case visit_clean f (of_le_bytes (sub_slice bytes p 8)) byte n slot s of (slot, s) \<Rightarrow> each_posting f bytes (p + byte + n) slot left s)"
  using assms
proof (induction n arbitrary: byte slot s)
  case (Suc n)
  let ?bs = "sub_slice bytes p 8" and ?b = "bytes ! (p + byte)"
  have b: "length ?bs = 8" "byte < 8" "?bs ! byte = ?b" using Suc.prems(1,2) by (auto simp: sub_slice_def)
  have c: "is_clean ?b" using Suc.prems(3) [of 0] by simp
  have len: "p + byte < length bytes" using Suc.prems(1,2) by simp
  have gap: "drop_bit (8 * byte + 1) (of_le_bytes ?bs :: u64) AND 0x7f = drop_bit 1 (ucast ?b)"
    using clean_gap [OF b(1,2)] b(3) c by simp
  have "is_clean (bytes ! (p + Suc byte + k))" if "k < n" for k using Suc.prems(3) [of "Suc k"] that by simp
  then have ih: "each_posting f bytes (p + Suc byte) slot' (n + left) s' =
    (case visit_clean f (of_le_bytes ?bs) (Suc byte) n slot' s' of (slot, s) \<Rightarrow> each_posting f bytes (p + Suc byte + n) slot left s)" for slot' s'
    using Suc.IH [of "Suc byte" slot' s'] Suc.prems(1,2) by simp
  show ?case using ih clean_byte_read [OF len c] gap by (simp add: Let_def)
qed simp

lemma for_each_sequential: "for_each_loop f bytes p slot left s = each_posting f bytes p slot left s"
proof (induction f bytes p slot left s rule: for_each_loop.induct)
  case (1 f bytes p slot left s)
  show ?case
  proof (cases "left > 0")
    case True
    define clean where "clean = load_clean bytes p left"
    define word where "word = (of_le_bytes (sub_slice bytes p 8) :: u64)"
    obtain slot' s' where v: "visit_clean f word 0 clean slot s = (slot', s')" by (cases "visit_clean f word 0 clean slot s")
    have fits: "left \<ge> 8 \<and> p + 8 \<le> length bytes" if "clean > 0" using that by (auto simp: clean_def load_clean_def split: if_splits)
    have le: "clean \<le> 8" using clean_bytes_le by (simp add: clean_def load_clean_def)
    have each: "each_posting f bytes p slot left s = each_posting f bytes (p + clean) slot' (left - clean) s'"
    proof (cases "clean = 0")
      case True
      then show ?thesis using v by simp
    next
      case False
      then have fit: "left \<ge> 8" "p + 8 \<le> length bytes" using fits by auto
      have "is_clean (bytes ! (p + k))" if "k < clean" for k
      proof -
        have "is_clean (sub_slice bytes p 8 ! k)"
          using clean_bytes_clean [of "sub_slice bytes p 8" k] that fit by (simp add: clean_def load_clean_def split: if_splits)
        moreover have "k < 8" using that le by simp
        ultimately show ?thesis using fit by (simp add: sub_slice_def)
      qed
      then show ?thesis
        using visit_clean_each [of p bytes 0 clean f slot "left - clean" s] fit le v by (simp add: word_def)
    qed
    show ?thesis
    proof (cases "clean = 8")
      case True
      then have "for_each_loop f bytes (p + 8) slot' (left - 8) s' = each_posting f bytes (p + 8) slot' (left - 8) s'"
        using "1.IH"(1) [OF \<open>left > 0\<close> refl _ refl refl] v by (simp add: clean_def word_def)
      then show ?thesis using each True \<open>left > 0\<close> v
        by (subst for_each_loop.simps) (simp add: Let_def clean_def [symmetric] word_def [symmetric])
    next
      case False
      have l: "left - clean = Suc (left - clean - 1)" using fits True le False by (cases "clean = 0") auto
      have ih: "for_each_loop f bytes p' (slot' + drop_bit 1 w) (left - clean - 1) (f s' (unat (slot' + drop_bit 1 w), ucast fr)) =
          each_posting f bytes p' (slot' + drop_bit 1 w) (left - clean - 1) (f s' (unat (slot' + drop_bit 1 w), ucast fr))"
        if "get_varint bytes (p + clean) = Some (w, q)" "(if w AND 1 = 0 then Some (1, q) else get_varint bytes q) = Some (fr, p')" for w q fr p'
        using "1.IH"(2) [OF \<open>left > 0\<close> refl _ refl refl] v False that by (simp add: clean_def word_def)
      have "for_each_loop f bytes p slot left s = (case get_varint bytes (p + clean) of None \<Rightarrow> None
                | Some (word, p) \<Rightarrow>
                    let slot = slot' + drop_bit 1 word
                    in case (if word AND 1 = 0 then Some (1, p) else get_varint bytes p) of
                         None \<Rightarrow> None
                       | Some (frequency, p) \<Rightarrow> for_each_loop f bytes p slot (left - clean - 1) (f s' (unat slot, ucast frequency)))"
        using False \<open>left > 0\<close> v by (subst for_each_loop.simps) (simp add: Let_def clean_def [symmetric] word_def [symmetric])
      also have "\<dots> = each_posting f bytes (p + clean) slot' (Suc (left - clean - 1)) s'"
      proof (cases "get_varint bytes (p + clean)")
        case (Some wq)
        obtain w q where wq: "wq = (w, q)" by (cases wq)
        show ?thesis
        proof (cases "if w AND 1 = 0 then Some (1, q) else get_varint bytes q")
          case None
          then show ?thesis using Some wq by (simp add: Let_def)
        next
          case (Some fp)
          obtain fr p' where fp: "fp = (fr, p')" by (cases fp)
          show ?thesis
            using ih [OF \<open>get_varint bytes (p + clean) = Some wq\<close> [unfolded wq] Some [unfolded fp]] Some fp wq
              \<open>get_varint bytes (p + clean) = Some wq\<close>
            by (simp only: each_posting.simps option.case prod.case Let_def)
        qed
      qed simp
      finally show ?thesis using each l by simp
    qed
  next
    case False
    then show ?thesis by (subst for_each_loop.simps) simp
  qed
qed

section \<open>The decoders agree\<close>

lemma get_loop_agrees:
  "k < 10 \<Longrightarrow> checked_varint_loop (map (\<lambda>k. 7 * k) [k..<10]) bytes p v = Inr (w, q) \<Longrightarrow> get_loop bytes p v (7 * k) = Some (w, q)"
proof (induction "10 - k" arbitrary: k p v)
  case (Suc n)
  have ks: "[k..<10] = k # [Suc k..<10]" using Suc.prems(1) by (simp add: upt_conv_Cons)
  let ?v = "v OR push_bit (7 * k) (ucast (bytes ! p AND 0x7f))"
  have p: "p < length bytes" and c: "if bytes ! p AND 0x80 = 0 then (w, q) = (?v, p + 1)
      else checked_varint_loop (map (\<lambda>k. 7 * k) [Suc k..<10]) bytes (p + 1) ?v = Inr (w, q)"
    using Suc.prems(2) unfolding ks by (auto simp: Let_def split: if_splits)
  show ?case
  proof (cases "bytes ! p AND 0x80 = 0")
    case True
    then show ?thesis using p c by (subst get_loop.simps) (simp add: Let_def)
  next
    case False
    then have r: "checked_varint_loop (map (\<lambda>k. 7 * k) [Suc k..<10]) bytes (p + 1) ?v = Inr (w, q)" using c by simp
    then have k: "Suc k < 10" by (cases "Suc k < 10") auto
    then have "get_loop bytes (p + 1) ?v (7 * Suc k) = Some (w, q)" using Suc.hyps(1) [of "Suc k" "p + 1" ?v] Suc.hyps(2) r by simp
    then show ?thesis using p False k by (subst get_loop.simps) (simp add: Let_def add.commute)
  qed
qed simp

lemma get_varint_agrees: "checked_varint bytes p = Inr (w, q) \<Longrightarrow> get_varint bytes p = Some (w, q)"
proof -
  assume c: "checked_varint bytes p = Inr (w, q)"
  have ks: "[0..<10] = 0 # [Suc 0..<10]" by (simp add: upt_conv_Cons)
  let ?v = "ucast (bytes ! p AND 0x7f) :: u64"
  have p: "p < length bytes" and r: "if bytes ! p AND 0x80 = 0 then (w, q) = (?v, p + 1)
      else checked_varint_loop (map (\<lambda>k. 7 * k) [Suc 0..<10]) bytes (p + 1) ?v = Inr (w, q)"
    using c unfolding checked_varint_def ks by (auto simp: Let_def split: if_splits)
  show ?thesis
  proof (cases "bytes ! p AND 0x80 = 0")
    case True
    then show ?thesis using p r byte_below_80 [of "bytes ! p"] by (simp add: get_varint_def)
  next
    case False
    then have "get_loop bytes (p + 1) ?v (7 * Suc 0) = Some (w, q)" using get_loop_agrees [of "Suc 0"] r by simp
    then show ?thesis using p False byte_below_80 [of "bytes ! p"] by (simp add: get_varint_def)
  qed
qed

lemma u32_cast: "u32_try_from v = Some x \<Longrightarrow> x = ucast v"
  by (auto simp: u32_try_from_def split: if_splits)

lemma try_loop_each:
  "try_loop (\<lambda>s p. (True, g s p)) n bytes p slot s = Inr s' \<Longrightarrow> each_posting g bytes p slot n s = Some s'"
proof (induction n arbitrary: p slot s)
  case 0
  then show ?case by (simp split: if_splits)
next
  case (Suc n)
  obtain word fr q x where c: "checked_posting bytes p = Inr (word, fr, q)" "u32_try_from fr = Some x"
    "try_loop (\<lambda>s p. (True, g s p)) n bytes q (slot + drop_bit 1 word) (g s (unat (slot + drop_bit 1 word), x)) = Inr s'"
    using Suc.prems by (auto simp: Let_def split: sum.splits option.splits if_splits)
  obtain p1 where p1: "checked_varint bytes p = Inr (word, p1)"
    "(if word AND 1 = 0 then (fr, q) = (1, p1) else checked_varint bytes p1 = Inr (fr, q))"
    using c(1) by (auto simp: checked_posting_def split: sum.splits if_splits)
  have g: "(if word AND 1 = 0 then Some (1, p1) else get_varint bytes p1) = Some (fr, q)"
    using p1(2) get_varint_agrees by (auto split: if_splits)
  show ?case
    unfolding each_posting.simps get_varint_agrees [OF p1(1)] option.case prod.case Let_def g
    using Suc.IH [OF c(3)] u32_cast [OF c(2)] by simp
qed

section \<open>What is packed is read back\<close>

lemma checked_of_varint:
  "varint_loop ss v \<lparr>data = bytes, at_pos = p\<rparr> = Inr (w, r) \<Longrightarrow> checked_varint_loop ss bytes p v = Inr (w, at_pos r)"
proof (induction ss arbitrary: v p)
  case Nil
  then show ?case by (simp add: rd_fail_def)
next
  case (Cons k ss)
  then show ?case
    by (auto simp: varint_loop_at Let_def simp del: varint_loop.simps split: if_splits)
qed

lemma checked_put: "checked_varint (before @ put_varint v @ after) (length before) = Inr (v, length before + length (put_varint v))"
  using checked_of_varint [of "map (\<lambda>k. 7 * k) [0..<10]" 0 "before @ put_varint v @ after" "length before"]
    varint_put [of before v after] by (simp add: checked_varint_def varint_def)

lemma flagged_gap:
  fixes gap :: nat and flag :: bool
  assumes "gap < 2 ^ 63"
  defines "word \<equiv> push_bit 1 (of_nat gap :: u64) OR (if flag then 1 else 0)"
  shows "drop_bit 1 word = of_nat gap" "word AND 1 = 0 \<longleftrightarrow> \<not> flag" "unat (drop_bit 1 word) = gap"
proof -
  have g: "unat (of_nat gap :: u64) = gap" using assms(1) by (simp add: unsigned_of_nat take_bit_nat_eq_self)
  have top: "\<not> bit (of_nat gap :: u64) 63"
  proof
    assume "bit (of_nat gap :: u64) 63"
    then have "bit (unat (of_nat gap :: u64)) 63" by (simp only: bit_unsigned_iff) simp
    then have "bit gap 63" using g by simp
    moreover have "take_bit 63 gap = gap" using assms(1) by (simp add: take_bit_nat_eq_self)
    ultimately show False by (metis bit_take_bit_iff less_irrefl)
  qed
  have one: "bit (if flag then 1 else 0 :: u64) n \<longleftrightarrow> flag \<and> n = 0" for n by (simp add: bit_1_iff)
  show d: "drop_bit 1 word = of_nat gap"
  proof (rule bit_eqI)
    fix n assume n: "possible_bit TYPE(u64) n"
    show "bit (drop_bit 1 word) n = bit (of_nat gap :: u64) n"
      using top n unfolding word_def bit_drop_bit_eq o_apply bit_or_iff bit_push_bit_iff one
      by (cases "n = 63") (auto simp: possible_bit_word)
  qed
  show "unat (drop_bit 1 word) = gap" unfolding d by (rule g)
  have "bit word 0 \<longleftrightarrow> flag" unfolding word_def bit_or_iff bit_push_bit_iff one by simp
  then show "word AND 1 = 0 \<longleftrightarrow> \<not> flag" using and_exp_eq_0_iff_not_bit [of word 0] by simp
qed

lemma try_loop_packed:
  assumes "ssorted (map fst ps)" "\<forall>x \<in> set ps. fst x < 2 ^ 63" "\<forall>x \<in> set ps. \<forall>q. previous = Some q \<longrightarrow> q < fst x"
  shows "try_loop (\<lambda>s p. (True, g s p)) (length ps) (before @ pack_gaps previous ps) (length before)
    (of_nat (case previous of None \<Rightarrow> 0 | Some q \<Rightarrow> q)) s = Inr (foldl g s ps)"
  using assms
proof (induction ps arbitrary: before previous s)
  case (Cons x ps)
  obtain slot fr where x: "x = (slot, fr)" by (cases x)
  define base where "base = (case previous of None \<Rightarrow> 0 | Some q \<Rightarrow> q)"
  define gap where "gap = slot - base"
  define word where "word = push_bit 1 (of_nat gap :: u64) OR (if fr \<noteq> 1 then 1 else 0)"
  have base: "base \<le> slot" using Cons.prems(3) x by (cases previous) (auto simp: base_def)
  have slot: "slot < 2 ^ 63" using Cons.prems(2) x by simp
  then have gap: "gap < 2 ^ 63" "base + gap = slot" using base by (simp_all add: gap_def)
  note w = flagged_gap [OF gap(1), of "fr \<noteq> 1", folded word_def]
  have us: "unat (of_nat base :: u64) = base" "(of_nat base :: u64) + of_nat gap = of_nat slot" "unat (of_nat slot :: u64) = slot"
    using base slot gap(2) by (simp_all add: unsigned_of_nat take_bit_nat_eq_self flip: of_nat_add)
  define tail where "tail = pack_gaps (Some slot) ps"
  define mid where "mid = put_varint word @ (if fr \<noteq> 1 then put_varint (ucast fr) else [])"
  have pk: "pack_gaps previous (x # ps) = mid @ tail"
    by (cases previous) (simp_all add: x mid_def tail_def word_def gap_def base_def Let_def)
  have cp: "checked_posting (before @ mid @ tail) (length before) = Inr (word, ucast fr, length before + length mid)"
  proof (cases "fr = 1")
    case True
    then show ?thesis using checked_put [of before word tail] w(2) by (simp add: checked_posting_def mid_def)
  next
    case False
    have "(ucast fr :: u64) \<noteq> 1" using False unat_of_u32 [of fr] by (metis unsigned_1 unsigned_word_eqI)
    then show ?thesis
      using False checked_put [of before word "put_varint (ucast fr) @ tail"] checked_put [of "before @ put_varint word" "ucast fr" tail] w(2)
      by (simp add: checked_posting_def mid_def add.assoc)
  qed
  have ih: "try_loop (\<lambda>s p. (True, g s p)) (length ps) ((before @ mid) @ pack_gaps (Some slot) ps) (length (before @ mid))
    (of_nat (case Some slot of None \<Rightarrow> 0 | Some q \<Rightarrow> q)) (g s (slot, fr)) = Inr (foldl g (g s (slot, fr)) ps)"
    using Cons.IH [of "Some slot" "before @ mid" "g s (slot, fr)"] Cons.prems(1,2) x by auto
  have sum: "unat (of_nat base :: u64) + unat (of_nat gap :: u64) < 2 ^ 64" using us(1) w(3) [unfolded w(1)] gap(2) slot by simp
  show ?case
    unfolding pk base_def [symmetric] length_Cons try_loop.simps cp sum.case prod.case if_P [OF sum] w(1) us(2) Let_def
      u32_try_from_ucast option.case us(3) bool.case
    using ih by (simp add: x tail_def)
qed simp

text \<open>On untrusted bytes: the checked decoder never panics, and what it accepts the fast decoder reads alike.\<close>

lemma checked_varint_loop_no_panic: "checked_varint_loop ks bytes p v \<noteq> Inl Panic"
  by (induction ks bytes p v rule: checked_varint_loop.induct) (auto simp: Let_def)

lemma checked_posting_no_panic: "checked_posting bytes p \<noteq> Inl Panic"
  using checked_varint_loop_no_panic by (auto simp: checked_posting_def checked_varint_def split: sum.splits)

lemma try_for_each_no_panic: "try_for_each f q s \<noteq> Inl Panic"
proof -
  have "try_loop f n bytes p slot s \<noteq> Inl Panic" for n bytes p slot
  proof (induction n arbitrary: p slot s)
    case (Suc n)
    then show ?case using checked_posting_no_panic [of bytes p] by (auto simp: Let_def split: sum.splits option.splits prod.splits bool.splits)
  qed simp
  then show ?thesis by (simp add: try_for_each_def)
qed

lemma checked_then_fast: "try_for_each (\<lambda>s p. (True, g s p)) q s = Inr s' \<Longrightarrow> for_each g q s = Some s'"
  using try_loop_each by (simp add: try_for_each_def for_each_def for_each_sequential)

text \<open>Bytes that the checked decoder refuses can make the fast one panic: a list that ends inside a varint.\<close>

lemma damaged_list_panics:
  "try_for_each (\<lambda>s p. (True, s)) \<lparr>post_bytes = [0x80], post_count = 1\<rparr> () = Inl Truncated \<and>
   for_each (\<lambda>s p. s) \<lparr>post_bytes = [0x80], post_count = 1\<rparr> () = None"
  unfolding for_each_def for_each_sequential
  by (simp add: try_for_each_def checked_posting_def checked_varint_def upt_rec get_varint_def get_loop.simps)

text \<open>
  C20. Posting lists of a checkpoint: what is packed is read back by the checked decoder, and on all
  bytes that the checked decoder accepts the fast decoder, which takes up to eight postings from one
  load, visits the same postings in the same order and does not panic.
\<close>

theorem checkpoint_postings_exact:
  "(try_for_each (\<lambda>s p. (True, g s p)) q s = Inr s' \<longrightarrow> for_each g q s = Some s') \<and>
   (ssorted (map fst ps) \<and> list_all (\<lambda>x. fst x < 2 ^ 63) ps \<and> length ps < 2 ^ 32 \<longrightarrow>
     try_for_each (\<lambda>s p. (True, g s p)) \<lparr>post_bytes = pack_checkpoint ps, post_count = of_nat (length ps)\<rparr> s = Inr (foldl g s ps))"
proof (intro conjI impI)
  assume "try_for_each (\<lambda>s p. (True, g s p)) q s = Inr s'"
  then show "for_each g q s = Some s'" by (rule checked_then_fast)
next
  assume h: "ssorted (map fst ps) \<and> list_all (\<lambda>x. fst x < 2 ^ 63) ps \<and> length ps < 2 ^ 32"
  then have "unat (of_nat (length ps) :: u32) = length ps" using unat_of_nat32 by blast
  then show "try_for_each (\<lambda>s p. (True, g s p)) \<lparr>post_bytes = pack_checkpoint ps, post_count = of_nat (length ps)\<rparr> s = Inr (foldl g s ps)"
    using try_loop_packed [of ps None g "[]" s] h by (simp add: try_for_each_def pack_checkpoint_def list_all_iff)
qed

text \<open>Ten postings, so that one load is used, with a frequency that is not one.\<close>

theorem checkpoint_postings_exact_witness:
  "for_each (\<lambda>acc p. acc @ [p]) \<lparr>post_bytes = pack_checkpoint (map (\<lambda>k. (3 * k + 1, if k = 5 then 7 else 1)) [0..<10]), post_count = 10\<rparr> [] =
     Some (map (\<lambda>k. (3 * k + 1, if k = 5 then 7 else 1)) [0..<10])"
proof -
  let ?ps = "map (\<lambda>k. (3 * k + 1, if k = 5 then 7 else 1)) [0..<10] :: Posting list"
  let ?q = "\<lparr>post_bytes = pack_checkpoint ?ps, post_count = of_nat (length ?ps)\<rparr>"
  have fold: "foldl (\<lambda>acc p. acc @ [p]) xs ps = xs @ ps" for xs ps :: "Posting list" by (induction ps arbitrary: xs) auto
  have "ssorted (map fst ?ps) \<and> list_all (\<lambda>x. fst x < 2 ^ 63) ?ps \<and> length ?ps < 2 ^ 32"
    by (simp add: upt_rec)
  then have "try_for_each (\<lambda>s p. (True, s @ [p])) ?q [] = Inr (foldl (\<lambda>acc p. acc @ [p]) [] ?ps)"
    using checkpoint_postings_exact [where ps = ?ps and g = "\<lambda>acc p. acc @ [p]" and s = "[]"] by blast
  then have "for_each (\<lambda>acc p. acc @ [p]) ?q [] = Some (foldl (\<lambda>acc p. acc @ [p]) [] ?ps)"
    using checkpoint_postings_exact [where q = ?q and g = "\<lambda>acc p. acc @ [p]" and s = "[]"] by blast
  then show ?thesis by (simp only: fold append_Nil) simp
qed

end
