(* ===== verification/TermDictionary.thy ===== *)
theory TermDictionary
  imports FrameDictionary
begin

text \<open>
  The term dictionary of the lexical index, \<open>TermDictionary\<close> of \<open>src/core/documents/postings.rs\<close>: a sorted
  base of concatenated terms, in which removed terms stay as tombstones, and an overlay of terms
  added since the base was built.  \<open>None\<close> stands for a panic.  A \<open>BTreeMap\<close> is the list of its entries in the
  order of the keys.
\<close>

definition NONE :: u32 where "NONE = 0xFFFFFFFF"

record TermDictionary =
  td_bytes :: "u8 list"
  td_offsets :: "u32 list"
  base_ids :: "u32 list"
  tombstones :: usize
  overlay :: "(rstr \<times> u32) list"

definition td_default :: TermDictionary where
  "td_default = \<lparr>td_bytes = [], td_offsets = [], base_ids = [], tombstones = 0, overlay = []\<rparr>"

fun bt_insert :: "'k::linorder \<Rightarrow> 'v \<Rightarrow> ('k \<times> 'v) list \<Rightarrow> ('k \<times> 'v) list" where
  "bt_insert k v [] = [(k, v)]"
| "bt_insert k v ((k', v') # es) =
     (if k < k' then (k, v) # (k', v') # es else if k = k' then (k, v) # es else (k', v') # bt_insert k v es)"

definition bt_remove :: "'k \<Rightarrow> ('k \<times> 'v) list \<Rightarrow> ('k \<times> 'v) list" where
  "bt_remove k es = filter (\<lambda>e. fst e \<noteq> k) es"

definition base_term :: "TermDictionary \<Rightarrow> nat \<Rightarrow> rstr option" where
  "base_term d i =
     (case (slice_get (td_offsets d) i, slice_get (td_offsets d) (i + 1)) of
        (Some a, Some b) \<Rightarrow>
          if unat a \<le> unat b \<and> unat b \<le> length (td_bytes d) then Some (sub_slice (td_bytes d) (unat a) (unat b - unat a)) else None
      | _ \<Rightarrow> None)"

text \<open>\<open>Ok\<close> is the place of the term, \<open>Err\<close> the place where it belongs.\<close>

function base_search :: "TermDictionary \<Rightarrow> rstr \<Rightarrow> nat \<Rightarrow> nat \<Rightarrow> (nat + nat) option" where
  "base_search d term lo hi =
     (if lo < hi then
        let mid = lo + (hi - lo) div 2
        in case base_term d mid of
             None \<Rightarrow> None
           | Some t \<Rightarrow>
               if t < term then base_search d term (mid + 1) hi
               else if t = term then Some (Inr mid)
               else base_search d term lo mid
      else Some (Inl lo))"
  by pat_completeness auto
termination by (relation "measure (\<lambda>(_, _, lo, hi). hi - lo)") auto

declare base_search.simps [simp del]

definition base_position :: "TermDictionary \<Rightarrow> rstr \<Rightarrow> (nat + nat) option" where
  "base_position d term = base_search d term 0 (length (base_ids d))"

definition td_get :: "TermDictionary \<Rightarrow> rstr \<Rightarrow> u32 option option" where
  "td_get d term =
     (case map_of (overlay d) term of
        Some i \<Rightarrow> Some (Some i)
      | None \<Rightarrow>
          (case base_position d term of
             None \<Rightarrow> None
           | Some (Inl _) \<Rightarrow> Some None
           | Some (Inr k) \<Rightarrow> Some (if base_ids d ! k \<noteq> NONE then Some (base_ids d ! k) else None)))"

definition overlay_budget :: "TermDictionary \<Rightarrow> nat" where
  "overlay_budget d = length (base_ids d) div 4 + 1024"

section \<open>Rebuilding the base\<close>

type_synonym new_base = "u8 list \<times> u32 list \<times> u32 list"

definition push_term :: "rstr \<Rightarrow> u32 \<Rightarrow> new_base \<Rightarrow> new_base option" where
  "push_term term i acc =
     (case acc of (bytes, offs, ids) \<Rightarrow>
        let bytes = bytes @ term
        in if length bytes < 2 ^ 32 then Some (bytes, offs @ [of_nat (length bytes)], ids @ [i]) else None)"

function base_merge :: "TermDictionary \<Rightarrow> (rstr \<times> u32) list \<Rightarrow> nat \<Rightarrow> nat \<Rightarrow> new_base \<Rightarrow> new_base option" where
  "base_merge d extra i j acc =
     (if i < length (base_ids d) \<or> j < length extra then
        if i < length (base_ids d) \<and> base_ids d ! i = NONE then base_merge d extra (i + 1) j acc
        else if i < length (base_ids d) then
          (case base_term d i of
             None \<Rightarrow> None
           | Some t \<Rightarrow>
               if j < length extra \<longrightarrow> t < fst (extra ! j)
               then (case push_term t (base_ids d ! i) acc of None \<Rightarrow> None | Some acc \<Rightarrow> base_merge d extra (i + 1) j acc)
               else (case push_term (fst (extra ! j)) (snd (extra ! j)) acc of None \<Rightarrow> None | Some acc \<Rightarrow> base_merge d extra i (j + 1) acc))
        else (case push_term (fst (extra ! j)) (snd (extra ! j)) acc of None \<Rightarrow> None | Some acc \<Rightarrow> base_merge d extra i (j + 1) acc)
      else Some acc)"
  by pat_completeness auto
termination by (relation "measure (\<lambda>(d, extra, i, j, _). (length (base_ids d) - i) + (length extra - j))") auto

declare base_merge.simps [simp del]

definition merged_base :: "TermDictionary \<Rightarrow> (rstr \<times> u32) list \<Rightarrow> new_base option" where
  "merged_base d extra = base_merge d extra 0 0 ([], [0], [])"

definition install_base :: "TermDictionary \<Rightarrow> (rstr \<times> u32) list \<Rightarrow> TermDictionary option" where
  "install_base d extra =
     map_option (\<lambda>(bytes, offs, ids). \<lparr>td_bytes = bytes, td_offsets = offs, base_ids = ids, tombstones = 0, overlay = []\<rparr>)
       (merged_base d extra)"

definition td_rebuild :: "TermDictionary \<Rightarrow> TermDictionary option" where
  "td_rebuild d = install_base d (overlay d)"

section \<open>Changes\<close>

text \<open>\<open>tombstones -= 1\<close> wraps in a release build; the dictionary keeps it from being zero there.\<close>

definition td_insert :: "TermDictionary \<Rightarrow> rstr \<Rightarrow> u32 \<Rightarrow> TermDictionary option" where
  "td_insert d term i =
     (case base_position d term of
        None \<Rightarrow> None
      | Some (Inr k) \<Rightarrow> Some (d\<lparr>base_ids := (base_ids d)[k := i], tombstones := (tombstones d + (2 ^ 64 - 1)) mod 2 ^ 64\<rparr>)
      | Some (Inl _) \<Rightarrow>
          let d = d\<lparr>overlay := bt_insert term i (overlay d)\<rparr>
          in if length (overlay d) > overlay_budget d then td_rebuild d else Some d)"

fun insert_each :: "TermDictionary \<Rightarrow> (rstr \<times> u32) list \<Rightarrow> TermDictionary option" where
  "insert_each d [] = Some d"
| "insert_each d ((term, i) # terms) = (case td_insert d term i of None \<Rightarrow> None | Some d \<Rightarrow> insert_each d terms)"

fun merge_extra :: "(rstr \<times> u32) list \<Rightarrow> (rstr \<times> u32) list \<Rightarrow> (rstr \<times> u32) list" where
  "merge_extra [] new = new"
| "merge_extra old [] = old"
| "merge_extra (a # old) (b # new) =
     (if fst a < fst b then a # merge_extra old (b # new) else b # merge_extra (a # old) new)"

definition insert_many :: "TermDictionary \<Rightarrow> (rstr \<times> u32) list \<Rightarrow> TermDictionary option" where
  "insert_many d terms =
     (if length (overlay d) + length terms \<le> overlay_budget d then insert_each d terms
      else install_base d (merge_extra (overlay d) (sort_key fst terms)))"

definition td_remove :: "TermDictionary \<Rightarrow> rstr \<Rightarrow> (u32 option \<times> TermDictionary) option" where
  "td_remove d term =
     (case map_of (overlay d) term of
        Some i \<Rightarrow> Some (Some i, d\<lparr>overlay := bt_remove term (overlay d)\<rparr>)
      | None \<Rightarrow>
          (case base_position d term of
             None \<Rightarrow> None
           | Some (Inl _) \<Rightarrow> Some (None, d)
           | Some (Inr k) \<Rightarrow>
               if base_ids d ! k = NONE then Some (None, d)
               else
                 let i = base_ids d ! k;
                     d = d\<lparr>base_ids := (base_ids d)[k := NONE], tombstones := tombstones d + 1\<rparr>
                 in if tombstones d > length (base_ids d) div 2 + 1024
                    then map_option (Pair (Some i)) (td_rebuild d)
                    else Some (Some i, d)))"

definition td_len :: "TermDictionary \<Rightarrow> nat" where
  "td_len d = length (base_ids d) - tombstones d + length (overlay d)"

section \<open>What a dictionary holds\<close>

definition base_ok :: "TermDictionary \<Rightarrow> rstr list \<Rightarrow> bool" where
  "base_ok d words \<longleftrightarrow> length words = length (base_ids d) \<and> td_bytes d = concat words \<and>
     (words \<noteq> [] \<longrightarrow> td_offsets d = map (\<lambda>i. of_nat (word_start words i)) [0..<Suc (length words)]) \<and>
     length (concat words) < 2 ^ 32 \<and> ssorted words"

definition live :: "TermDictionary \<Rightarrow> rstr list \<Rightarrow> (rstr \<times> u32) list" where
  "live d words = filter (\<lambda>e. snd e \<noteq> NONE) (zip words (base_ids d))"

definition dict_ok :: "TermDictionary \<Rightarrow> rstr list \<Rightarrow> bool" where
  "dict_ok d words \<longleftrightarrow> base_ok d words \<and> tombstones d = count_list (base_ids d) NONE \<and>
     ssorted (map fst (overlay d)) \<and> set (map fst (overlay d)) \<inter> set words = {} \<and> NONE \<notin> set (map snd (overlay d))"

definition represents :: "TermDictionary \<Rightarrow> (rstr \<Rightarrow> u32 option) \<Rightarrow> bool" where
  "represents d m \<longleftrightarrow> (\<exists>words. dict_ok d words \<and> m = map_of (overlay d @ live d words))"

definition td_size :: "TermDictionary \<Rightarrow> nat" where
  "td_size d = length (td_bytes d) + sum_list (map (length \<circ> fst) (overlay d))"

lemma base_term_word:
  assumes "base_ok d words" "i < length words"
  shows "base_term d i = Some (words ! i)"
proof -
  have b: "td_bytes d = concat words" "td_offsets d = map (\<lambda>i. of_nat (word_start words i)) [0..<Suc (length words)]"
    "length (concat words) < 2 ^ 32" using assms by (auto simp: base_ok_def)
  have u: "unat (of_nat (word_start words k) :: u32) = word_start words k" for k
    using word_start_le [of words k] b(3) by (intro unat_of_nat32) simp
  have o: "slice_get (td_offsets d) k = Some (of_nat (word_start words k))" if "k \<le> length words" for k
  proof -
    have "[0..<Suc (length words)] ! k = k" using that nth_upt [of 0 k "Suc (length words)"] by simp
    then show ?thesis using that by (simp add: b(2) slice_get_def del: upt_Suc)
  qed
  have s: "slice_get (td_offsets d) i = Some (of_nat (word_start words i))"
    "slice_get (td_offsets d) (i + 1) = Some (of_nat (word_start words (Suc i)))" using o assms(2) by simp_all
  have n: "word_start words (Suc i) - word_start words i = length (words ! i)" "word_start words i \<le> word_start words (Suc i)"
    using word_start_Suc [OF assms(2)] by simp_all
  show ?thesis
    unfolding base_term_def s option.case prod.case u b(1)
    using n word_slice [OF assms(2)] word_start_le [of words "Suc i"] by simp
qed

lemma base_ok_ids: "base_ok d words \<Longrightarrow> length ids = length (base_ids d) \<Longrightarrow> base_ok (d\<lparr>base_ids := ids, tombstones := n\<rparr>) words"
  by (simp add: base_ok_def)

lemma base_search_as_search:
  "map_option (\<lambda>r. case r of Inl _ \<Rightarrow> None | Inr i \<Rightarrow> Some i) (base_search d term lo hi) = search (base_term d) term lo hi"
proof (induction d "term" lo hi rule: base_search.induct)
  case (1 d "term" lo hi)
  show ?case
  proof (cases "lo < hi")
    case True
    then show ?thesis using 1 by (subst base_search.simps, subst search.simps) (auto simp: Let_def split: option.splits)
  next
    case False
    then show ?thesis by (subst base_search.simps, subst search.simps) simp
  qed
qed

lemma base_position_exact:
  assumes "base_ok d words"
  shows "case base_position d term of None \<Rightarrow> False | Some (Inl _) \<Rightarrow> term \<notin> set words
    | Some (Inr k) \<Rightarrow> k < length words \<and> words ! k = term"
proof -
  have ws: "ssorted words" "length words = length (base_ids d)" using assms by (auto simp: base_ok_def)
  have "search (base_term d) term 0 (length words) = Some (position_of term words)"
    using search_all [of words "base_term d" "term"] base_term_word [OF assms] ws(1) by simp
  then have m: "map_option (\<lambda>r. case r of Inl _ \<Rightarrow> None | Inr i \<Rightarrow> Some i) (base_position d term) = Some (position_of term words)"
    using base_search_as_search [of d "term" 0 "length words"] ws(2) by (simp add: base_position_def)
  then obtain r where r: "base_position d term = Some r" by (cases "base_position d term") auto
  show ?thesis
  proof (cases r)
    case (Inl lo)
    then show ?thesis using m r position_None [of "term" words] by simp
  next
    case (Inr k)
    then show ?thesis using m r position_Some [of words "term" k] ssorted_distinct [OF ws(1)] by simp
  qed
qed

lemma option_eqI: "(\<And>v. a = Some v \<longleftrightarrow> b = Some v) \<Longrightarrow> a = b"
  by (metis not_Some_eq)

lemma live_iff:
  assumes "base_ok d words"
  shows "map_of (live d words) t = Some v \<longleftrightarrow> (\<exists>k < length words. words ! k = t \<and> base_ids d ! k = v \<and> v \<noteq> NONE)"
proof -
  have ws: "distinct words" "length words = length (base_ids d)" using assms ssorted_distinct by (auto simp: base_ok_def)
  have "distinct (map fst (live d words))" unfolding live_def using ws by (intro distinct_map_filter) simp
  then have "map_of (live d words) t = Some v \<longleftrightarrow> (t, v) \<in> set (live d words)" by (rule map_of_eq_Some_iff)
  then show ?thesis by (auto simp: live_def set_zip ws(2))
qed

lemma map_of_live:
  assumes "base_ok d words"
  shows "map_of (live d words) term = (case base_position d term of Some (Inr k) \<Rightarrow> if base_ids d ! k = NONE then None else Some (base_ids d ! k) | _ \<Rightarrow> None)"
proof -
  have "distinct words" using assms ssorted_distinct by (auto simp: base_ok_def)
  then have u: "k = k'" if "words ! k = words ! k'" "k < length words" "k' < length words" for k k'
    using that by (simp add: nth_eq_iff_index_eq)
  have "map_of (live d words) term = Some v \<longleftrightarrow> (case base_position d term of Some (Inr k) \<Rightarrow> if base_ids d ! k = NONE then None else Some (base_ids d ! k) | _ \<Rightarrow> None) = Some v" for v
    unfolding live_iff [OF assms] using base_position_exact [OF assms, of "term"] u
    by (auto split: option.splits sum.splits)
  then show ?thesis by (rule option_eqI)
qed

lemma represents_get:
  assumes "represents d m"
  shows "td_get d term = Some (m term)"
proof -
  obtain words where w: "dict_ok d words" "m = map_of (overlay d @ live d words)" using assms by (auto simp: represents_def)
  have b: "base_ok d words" using w(1) by (simp add: dict_ok_def)
  show ?thesis
    using base_position_exact [OF b, of "term"] map_of_live [OF b, of "term"]
    by (auto simp: td_get_def w(2) map_add_def split: option.splits sum.splits)
qed


section \<open>Folding entries into a new base\<close>

fun push_all :: "(rstr \<times> u32) list \<Rightarrow> new_base \<Rightarrow> new_base option" where
  "push_all [] acc = Some acc"
| "push_all (e # es) acc = (case push_term (fst e) (snd e) acc of None \<Rightarrow> None | Some acc \<Rightarrow> push_all es acc)"

definition base_of :: "rstr list \<Rightarrow> u32 list \<Rightarrow> new_base" where
  "base_of words ids = (concat words, map (\<lambda>i. of_nat (word_start words i)) [0..<Suc (length words)], ids)"

lemma push_term_base:
  assumes "length (concat words) + length term < 2 ^ 32"
  shows "push_term term i (base_of words ids) = Some (base_of (words @ [term]) (ids @ [i]))"
proof -
  have "word_start (words @ [term]) k = word_start words k" if "k \<le> length words" for k
    using that by (simp add: word_start_def)
  moreover have "word_start (words @ [term]) (Suc (length words)) = length (concat words) + length term"
    by (simp add: word_start_def)
  ultimately show ?thesis using assms by (simp add: push_term_def base_of_def Let_def)
qed

lemma push_all_base:
  assumes "length (concat (words @ map fst es)) < 2 ^ 32"
  shows "push_all es (base_of words ids) = Some (base_of (words @ map fst es) (ids @ map snd es))"
  using assms
proof (induction es arbitrary: words ids)
  case (Cons e es)
  have "length (concat words) + length (fst e) < 2 ^ 32" using Cons.prems by simp
  then show ?case using Cons.IH [of "words @ [fst e]" "ids @ [snd e]"] Cons.prems by (simp add: push_term_base)
qed simp

lemma merge_extra_Nil [simp]: "merge_extra old [] = old"
  by (cases old) simp_all

lemma base_merge_as_push:
  assumes "base_ok d words"
  shows "base_merge d extra i j acc
    = push_all (merge_extra (filter (\<lambda>e. snd e \<noteq> NONE) (drop i (zip words (base_ids d)))) (drop j extra)) acc"
  using assms
proof (induction d extra i j acc rule: base_merge.induct)
  case (1 d extra i j acc)
  let ?live = "\<lambda>i. filter (\<lambda>e. snd e \<noteq> NONE) (drop i (zip words (base_ids d)))"
  have n: "length words = length (base_ids d)" using 1 by (simp add: base_ok_def)
  have z: "drop i (zip words (base_ids d)) = (words ! i, base_ids d ! i) # drop (Suc i) (zip words (base_ids d))"
    if "i < length (base_ids d)" using that n by (simp add: Cons_nth_drop_Suc [symmetric])
  have x: "drop j extra = extra ! j # drop (Suc j) extra" if "j < length extra" using that by (simp add: Cons_nth_drop_Suc [symmetric])
  consider (dead) "i < length (base_ids d)" "base_ids d ! i = NONE"
    | (both) "i < length (base_ids d)" "base_ids d ! i \<noteq> NONE" "j < length extra"
    | (base) "i < length (base_ids d)" "base_ids d ! i \<noteq> NONE" "\<not> j < length extra"
    | (new) "\<not> i < length (base_ids d)" "j < length extra"
    | (none) "\<not> i < length (base_ids d)" "\<not> j < length extra" by blast
  then show ?case
  proof cases
    case dead
    then show ?thesis using "1.IH"(1) "1.prems" by (subst base_merge.simps) (simp add: z)
  next
    case both
    then have t: "base_term d i = Some (words ! i)" using base_term_word [OF "1.prems"] n by simp
    show ?thesis
    proof (cases "words ! i < fst (extra ! j)")
      case True
      then show ?thesis using both t "1.IH"(2) "1.prems" by (subst base_merge.simps) (auto simp: z x split: option.splits)
    next
      case False
      then show ?thesis using both t "1.IH"(3) "1.prems" by (subst base_merge.simps) (auto simp: z x split: option.splits)
    qed
  next
    case base
    then have t: "base_term d i = Some (words ! i)" using base_term_word [OF "1.prems"] n by simp
    then show ?thesis using base "1.IH"(2) "1.prems" by (subst base_merge.simps) (auto simp: z split: option.splits)
  next
    case new
    then show ?thesis using "1.IH"(4) "1.prems" n by (subst base_merge.simps) (auto simp: x split: option.splits)
  next
    case none
    then show ?thesis using n by (subst base_merge.simps) simp
  qed
qed

section \<open>The new base holds the live terms and the extra ones\<close>

lemma merge_extra_mset: "mset (merge_extra a b) = mset a + mset b"
  by (induction a b rule: merge_extra.induct) auto

lemma merge_extra_set: "set (merge_extra a b) = set a \<union> set b"
  using arg_cong [OF merge_extra_mset, of set_mset a b] by simp

lemma merge_extra_sum: "sum_list (map (f :: _ \<Rightarrow> nat) (merge_extra a b)) = sum_list (map f a) + sum_list (map f b)"
  by (induction a b rule: merge_extra.induct) auto

lemma merge_extra_ssorted:
  assumes "ssorted (map fst a)" "ssorted (map fst b)" "fst ` set a \<inter> fst ` set b = {}"
  shows "ssorted (map fst (merge_extra a b))"
  using assms
proof (induction a b rule: merge_extra.induct)
  case (3 a old b new)
  show ?case
  proof (cases "fst a < fst b")
    case True
    then have "ssorted (map fst (merge_extra old (b # new)))" using 3 by auto
    then show ?thesis using True "3.prems" by (auto simp: merge_extra_set)
  next
    case False
    then have lt: "fst b < fst a" using "3.prems"(3) by auto
    have "ssorted (map fst (merge_extra (a # old) new))" using 3 False by auto
    then show ?thesis using lt "3.prems" by (auto simp: merge_extra_set)
  qed
qed simp_all

lemma live_ssorted: "base_ok d words \<Longrightarrow> ssorted (map fst (live d words))"
proof -
  assume "base_ok d words"
  then have "ssorted (map fst (zip words (base_ids d)))" by (simp add: base_ok_def)
  then show ?thesis unfolding live_def sorted_wrt_map by (rule sorted_wrt_filter)
qed

lemma live_all: "base_ids d = map snd es \<Longrightarrow> \<forall>e \<in> set es. snd e \<noteq> NONE \<Longrightarrow> live d (map fst es) = es"
  by (simp add: live_def zip_map_fst_snd)

lemma overlay_live_disjoint:
  assumes "dict_ok d words"
  shows "fst ` set (overlay d) \<inter> fst ` set (live d words) = {}"
proof -
  have "fst ` set (live d words) \<subseteq> set words" by (auto simp: live_def dest: set_zip_leftD)
  then show ?thesis using assms by (auto simp: dict_ok_def)
qed

lemma overlay_live_distinct: "dict_ok d words \<Longrightarrow> distinct (map fst (overlay d @ live d words))"
  using overlay_live_disjoint [of d words] live_ssorted [of d words] ssorted_distinct by (auto simp: dict_ok_def)

lemma live_length: "length words = length (base_ids d) \<Longrightarrow> length (live d words) + count_list (base_ids d) NONE = length (base_ids d)"
proof -
  have "length words = length ids \<Longrightarrow> length (filter (\<lambda>e. snd e \<noteq> NONE) (zip words ids)) + count_list ids NONE = length ids" for ids
    by (induction words ids rule: list_induct2) auto
  then show "length words = length (base_ids d) \<Longrightarrow> ?thesis" by (simp add: live_def)
qed

lemma install_base_ok:
  assumes "base_ok d words" "ssorted (map fst extra)" "fst ` set extra \<inter> fst ` set (live d words) = {}"
    "NONE \<notin> snd ` set extra" "length (td_bytes d) + sum_list (map (length \<circ> fst) extra) < 2 ^ 32"
  shows "\<exists>d'. install_base d extra = Some d' \<and> represents d' (map_of (extra @ live d words)) \<and>
    td_size d' \<le> length (td_bytes d) + sum_list (map (length \<circ> fst) extra)"
proof -
  let ?es = "merge_extra (live d words) extra"
  let ?d = "\<lparr>td_bytes = concat (map fst ?es), td_offsets = map (\<lambda>i. of_nat (word_start (map fst ?es) i)) [0..<Suc (length (map fst ?es))],
    base_ids = map snd ?es, tombstones = 0, overlay = []\<rparr>"
  have ws: "ssorted words" "length words = length (base_ids d)" "td_bytes d = concat words" using assms(1) by (auto simp: base_ok_def)
  note sl = live_ssorted [OF assms(1)]
  have se: "ssorted (map fst ?es)" using merge_extra_ssorted [OF sl assms(2)] assms(3) by blast
  have "sum_list (map (length \<circ> fst) (live d words)) \<le> sum_list (map (length \<circ> fst) (zip words (base_ids d)))"
    unfolding live_def by (rule sum_list_filter_le_nat)
  moreover have "map (length \<circ> fst) (zip words (base_ids d)) = map length words"
    using ws(2) by (metis map_map map_fst_zip)
  moreover have "sum_list (map (length \<circ> fst) ?es) = sum_list (map (length \<circ> fst) (live d words)) + sum_list (map (length \<circ> fst) extra)"
    by (rule merge_extra_sum)
  ultimately have len: "length (concat (map fst ?es)) \<le> length (td_bytes d) + sum_list (map (length \<circ> fst) extra)"
    using ws(3) by (simp add: length_concat)
  have inst: "install_base d extra = Some ?d"
    using push_all_base [of "[]" ?es "[]"] base_merge_as_push [OF assms(1), of extra 0 0] len assms(5)
    by (simp add: install_base_def merged_base_def base_of_def live_def word_start_def)
  have nn: "\<forall>e \<in> set ?es. snd e \<noteq> NONE" using assms(4) by (force simp: merge_extra_set live_def)
  have lv: "live ?d (map fst ?es) = ?es" using nn by (simp add: live_all)
  have ok: "dict_ok ?d (map fst ?es)" using se len assms(5) nn by (auto simp: dict_ok_def base_ok_def count_list_0_iff)
  have "map_of ?es = map_of (extra @ live d words)"
    using ssorted_distinct [OF se] ssorted_distinct [OF sl] ssorted_distinct [OF assms(2)] assms(3)
    by (subst map_of_inject_set) (auto simp: merge_extra_set)
  then have "represents ?d (map_of (extra @ live d words))" unfolding represents_def using ok lv by (intro exI [of _ "map fst ?es"]) simp
  then show ?thesis using inst len by (auto simp: td_size_def)
qed

section \<open>Every change\<close>

lemma count_list_update:
  assumes "k < length xs"
  shows "count_list (xs[k := v]) y + (if xs ! k = y then 1 else 0) = count_list xs y + (if v = y then 1 else 0)"
proof -
  have x: "xs = take k xs @ xs ! k # drop (Suc k) xs" "xs[k := v] = take k xs @ v # drop (Suc k) xs"
    using assms by (simp_all add: id_take_nth_drop upd_conv_take_nth_drop)
  have "count_list xs y = count_list (take k xs) y + (if xs ! k = y then 1 else 0) + count_list (drop (Suc k) xs) y"
    by (subst x(1)) simp
  moreover have "count_list (xs[k := v]) y = count_list (take k xs) y + (if v = y then 1 else 0) + count_list (drop (Suc k) xs) y"
    by (subst x(2)) simp
  ultimately show ?thesis by simp
qed

text \<open>Setting the id of one base term, or removing it.\<close>

lemma live_update:
  assumes "base_ok d words" "k < length words"
  shows "map_of (live (d\<lparr>base_ids := (base_ids d)[k := v], tombstones := n\<rparr>) words)
    = (map_of (live d words)) (words ! k := if v = NONE then None else Some v)"
proof (rule ext, rule option_eqI)
  fix t w
  let ?d = "d\<lparr>base_ids := (base_ids d)[k := v], tombstones := n\<rparr>"
  have b: "base_ok ?d words" using base_ok_ids [OF assms(1)] by simp
  have ws: "distinct words" "length words = length (base_ids d)" using assms ssorted_distinct by (auto simp: base_ok_def)
  have u: "words ! k' = words ! k \<longleftrightarrow> k' = k" if "k' < length words" for k' using that ws(1) assms(2) by (simp add: nth_eq_iff_index_eq)
  have "map_of (live ?d words) t = Some w \<longleftrightarrow> (\<exists>j < length words. words ! j = t \<and> (base_ids d)[k := v] ! j = w \<and> w \<noteq> NONE)"
    using live_iff [OF b] by simp
  also have "\<dots> \<longleftrightarrow> (if t = words ! k then v = w \<and> w \<noteq> NONE else (\<exists>j < length words. words ! j = t \<and> base_ids d ! j = w \<and> w \<noteq> NONE))"
    using u assms(2) ws(2) by (auto simp: nth_list_update)
  also have "\<dots> \<longleftrightarrow> ((map_of (live d words)) (words ! k := if v = NONE then None else Some v)) t = Some w"
    using live_iff [OF assms(1)] by auto
  finally show "map_of (live ?d words) t = Some w \<longleftrightarrow> ((map_of (live d words)) (words ! k := if v = NONE then None else Some v)) t = Some w" .
qed

lemma bt_insert_set: "ssorted (map fst es) \<Longrightarrow> set (bt_insert k v es) = insert (k, v) {e \<in> set es. fst e \<noteq> k}"
proof (induction es)
  case (Cons e es)
  obtain k' v' where e: "e = (k', v')" by (cases e)
  have lt: "k' < fst x" if "x \<in> set es" for x using Cons.prems e that by auto
  consider "k < k'" | "k = k'" | "k' < k" by fastforce
  then show ?case
  proof cases
    case 1
    then have "k < fst x" if "x \<in> set es" for x using lt [OF that] by simp
    then show ?thesis using 1 by (auto simp: e)
  next
    case 2
    then show ?thesis using lt by (auto simp: e)
  next
    case 3
    then show ?thesis using Cons e by auto
  qed
qed simp

lemma bt_insert_ssorted: "ssorted (map fst es) \<Longrightarrow> ssorted (map fst (bt_insert k v es))"
proof (induction es)
  case (Cons e es)
  obtain k' v' where e: "e = (k', v')" by (cases e)
  have "ssorted (map fst (bt_insert k v es))" "\<forall>x \<in> set es. k' < fst x" using Cons e by auto
  then show ?case using Cons.prems by (auto simp: e bt_insert_set)
qed simp

lemma bt_insert_map_of: "ssorted (map fst es) \<Longrightarrow> map_of (bt_insert k v es) = (map_of es)(k \<mapsto> v)"
  by (induction es) (auto simp: fun_eq_iff)

lemma bt_insert_size: "ssorted (map fst es) \<Longrightarrow> sum_list (map (length \<circ> fst) (bt_insert k v es)) \<le> sum_list (map (length \<circ> fst) es) + length k"
  by (induction es) auto

lemma td_rebuild_ok:
  assumes "represents d m" "td_size d < 2 ^ 32"
  shows "\<exists>d'. td_rebuild d = Some d' \<and> represents d' m \<and> td_size d' \<le> td_size d"
proof -
  obtain words where w: "dict_ok d words" "m = map_of (overlay d @ live d words)" using assms(1) by (auto simp: represents_def)
  show ?thesis
    using install_base_ok [of d words "overlay d"] overlay_live_disjoint [OF w(1)] w assms(2) by (auto simp: td_rebuild_def dict_ok_def td_size_def)
qed

lemma tombstones_bound:
  assumes "dict_ok d words"
  shows "tombstones d \<le> 2 ^ 32"
proof -
  have "length words \<le> Suc (length (concat words))" "length (concat words) < 2 ^ 32" "length words = length (base_ids d)"
    using assms words_bound [of words] by (auto simp: dict_ok_def base_ok_def)
  then show ?thesis using count_le_length [of "base_ids d" NONE] assms by (simp add: dict_ok_def)
qed

lemma td_insert_ok:
  assumes "represents d m" "m term = None" "i \<noteq> NONE" "td_size d + length term < 2 ^ 32"
  shows "\<exists>d'. td_insert d term i = Some d' \<and> represents d' (m(term \<mapsto> i)) \<and> td_size d' \<le> td_size d + length term"
proof -
  obtain words where w: "dict_ok d words" "m = map_of (overlay d @ live d words)" using assms(1) by (auto simp: represents_def)
  have b: "base_ok d words" using w(1) by (simp add: dict_ok_def)
  have fresh: "map_of (overlay d) term = None" "map_of (live d words) term = None" using assms(2) w(2) by (simp_all add: map_add_None)
  note p = base_position_exact [OF b, of "term"]
  show ?thesis
  proof (cases "base_position d term")
    case None
    then show ?thesis using p by simp
  next
    case (Some r)
    show ?thesis
    proof (cases r)
      case (Inl lo)
      let ?d = "d\<lparr>overlay := bt_insert term i (overlay d)\<rparr>"
      have new: "term \<notin> set words" using p Some Inl by simp
      have "dict_ok ?d words"
        using w(1) new assms(3) by (auto simp: dict_ok_def base_ok_def bt_insert_ssorted bt_insert_set)
      moreover have "live ?d words = live d words" by (simp add: live_def)
      moreover have "m(term \<mapsto> i) = map_of (bt_insert term i (overlay d) @ live d words)"
        using w fresh by (auto simp: dict_ok_def bt_insert_map_of map_add_def fun_eq_iff split: option.split)
      ultimately have r: "represents ?d (m(term \<mapsto> i))" unfolding represents_def by (intro exI [of _ words]) simp
      have z: "td_size ?d \<le> td_size d + length term"
        using bt_insert_size [of "overlay d" "term" i] w(1) by (simp add: td_size_def dict_ok_def)
      show ?thesis
        using td_rebuild_ok [OF r] r z assms(4) Some Inl by (fastforce simp: td_insert_def Let_def)
    next
      case (Inr k)
      let ?n = "(tombstones d + (2 ^ 64 - 1)) mod 2 ^ 64"
      let ?d = "d\<lparr>base_ids := (base_ids d)[k := i], tombstones := ?n\<rparr>"
      have k: "k < length words" "words ! k = term" "k < length (base_ids d)" using p Some Inr b by (auto simp: base_ok_def)
      have none: "base_ids d ! k = NONE" using live_iff [OF b, of "term" "base_ids d ! k"] fresh(2) k by auto
      have t: "tombstones d = count_list (base_ids d) NONE" using w(1) by (simp add: dict_ok_def)
      have c: "count_list ((base_ids d)[k := i]) NONE + 1 = tombstones d"
        using count_list_update [OF k(3), of i NONE] none assms(3) t by simp
      have n: "?n = count_list ((base_ids d)[k := i]) NONE"
        using tombstones_bound [OF w(1)] unfolding c [symmetric] by simp
      have "dict_ok ?d words" using w(1) base_ok_ids [OF b] n by (simp add: dict_ok_def)
      moreover have "m(term \<mapsto> i) = map_of (overlay ?d @ live ?d words)"
        using live_update [OF b k(1), of ?n i] fresh(1) assms(3) k(2) w(2)
        by (auto simp: map_add_def fun_eq_iff split: option.split)
      ultimately have "represents ?d (m(term \<mapsto> i))" unfolding represents_def by blast
      then show ?thesis using Some Inr by (simp add: td_insert_def td_size_def)
    qed
  qed
qed

lemma sum_filter_le: "sum_list (map (f :: _ \<Rightarrow> nat) (filter P xs)) \<le> sum_list (map f xs)"
  by (induction xs) auto

lemma bt_remove_map_of: "map_of (bt_remove k es) = (map_of es)(k := None)"
  unfolding bt_remove_def by (induction es) auto

lemma td_remove_ok:
  assumes "represents d m" "td_size d < 2 ^ 32"
  shows "\<exists>d'. td_remove d term = Some (m term, d') \<and> represents d' (m(term := None)) \<and> td_size d' \<le> td_size d"
proof -
  obtain words where w: "dict_ok d words" "m = map_of (overlay d @ live d words)" using assms(1) by (auto simp: represents_def)
  have b: "base_ok d words" using w(1) by (simp add: dict_ok_def)
  have sub: "fst ` set (live d words) \<subseteq> set words" by (auto simp: live_def dest: set_zip_leftD)
  have idle: "m(term := None) = m" if "m term = None" using that by auto
  note p = base_position_exact [OF b, of "term"]
  note ml = map_of_live [OF b, of "term"]
  show ?thesis
  proof (cases "map_of (overlay d) term")
    case (Some i)
    let ?d = "d\<lparr>overlay := bt_remove term (overlay d)\<rparr>"
    have "term \<in> fst ` set (overlay d)" using Some by (force dest: map_of_SomeD)
    then have nl: "map_of (live d words) term = None" using w(1) sub by (auto simp: dict_ok_def map_of_eq_None_iff)
    have "ssorted (map fst (bt_remove term (overlay d)))"
      using w(1) unfolding bt_remove_def sorted_wrt_map dict_ok_def by (auto intro: sorted_wrt_filter)
    then have "dict_ok ?d words" using w(1) by (auto simp: dict_ok_def base_ok_def bt_remove_def)
    moreover have "m(term := None) = map_of (overlay ?d @ live ?d words)"
      using w(2) nl by (auto simp: bt_remove_map_of live_def map_add_def fun_eq_iff split: option.split)
    ultimately have "represents ?d (m(term := None))" unfolding represents_def by blast
    moreover have "td_size ?d \<le> td_size d"
      using sum_filter_le [of "length \<circ> fst" "\<lambda>e. fst e \<noteq> term" "overlay d"] by (simp add: td_size_def bt_remove_def)
    ultimately show ?thesis using Some w(2) by (simp add: td_remove_def)
  next
    case None
    then have m: "m term = map_of (live d words) term" using w(2) by (simp add: map_add_def)
    show ?thesis
    proof (cases "\<exists>k. base_position d term = Some (Inr k) \<and> base_ids d ! k \<noteq> NONE")
      case True
      then obtain k where k: "base_position d term = Some (Inr k)" "base_ids d ! k \<noteq> NONE" by blast
      let ?d = "d\<lparr>base_ids := (base_ids d)[k := NONE], tombstones := tombstones d + 1\<rparr>"
      have kk: "k < length words" "words ! k = term" "k < length (base_ids d)" using p k b by (auto simp: base_ok_def)
      have "count_list ((base_ids d)[k := NONE]) NONE = tombstones d + 1"
        using count_list_update [OF kk(3), of NONE NONE] k(2) w(1) by (simp add: dict_ok_def)
      then have "dict_ok ?d words" using w(1) base_ok_ids [OF b] by (simp add: dict_ok_def)
      moreover have "m(term := None) = map_of (overlay ?d @ live ?d words)"
        using live_update [OF b kk(1), of "tombstones d + 1" NONE] None kk(2) w(2)
        by (auto simp: map_add_def fun_eq_iff split: option.split)
      ultimately have r: "represents ?d (m(term := None))" unfolding represents_def by blast
      have z: "td_size ?d = td_size d" by (simp add: td_size_def)
      show ?thesis
        using td_rebuild_ok [OF r] r z assms(2) None k ml m by (auto simp: td_remove_def Let_def)
    next
      case False
      then have "map_of (live d words) term = None" using ml by (auto split: option.splits sum.splits)
      then show ?thesis using False p None m idle assms(1)
        by (auto simp: td_remove_def split: option.splits sum.splits)
    qed
  qed
qed

lemma insert_each_ok:
  assumes "represents d m" "distinct (map fst terms)" "\<forall>e \<in> set terms. m (fst e) = None \<and> snd e \<noteq> NONE"
    "td_size d + sum_list (map (length \<circ> fst) terms) < 2 ^ 32"
  shows "\<exists>d'. insert_each d terms = Some d' \<and> represents d' (m ++ map_of terms) \<and>
    td_size d' \<le> td_size d + sum_list (map (length \<circ> fst) terms)"
  using assms
proof (induction terms arbitrary: d m)
  case (Cons e terms)
  obtain t i where e: "e = (t, i)" by (cases e)
  obtain d1 where d1: "td_insert d t i = Some d1" "represents d1 (m(t \<mapsto> i))" "td_size d1 \<le> td_size d + length t"
    using td_insert_ok [OF Cons.prems(1), of t i] Cons.prems(3,4) e by auto
  have f: "map_of terms t = None" using Cons.prems(2) e by (simp add: map_of_eq_None_iff)
  then have "m(t \<mapsto> i) ++ map_of terms = m ++ map_of (e # terms)" by (auto simp: e map_add_def fun_eq_iff split: option.split)
  moreover have "\<forall>x \<in> set terms. (m(t \<mapsto> i)) (fst x) = None \<and> snd x \<noteq> NONE"
    using Cons.prems(2,3) e by (metis fun_upd_other insertCI list.set(2) f map_of_eq_None_iff image_eqI)
  moreover have "distinct (map fst terms)" "td_size d1 + sum_list (map (length \<circ> fst) terms) < 2 ^ 32"
    using Cons.prems(2,4) d1(3) e by (auto simp: comp_def)
  ultimately obtain d' where "insert_each d1 terms = Some d'" "represents d' (m ++ map_of (e # terms))"
    "td_size d' \<le> td_size d1 + sum_list (map (length \<circ> fst) terms)" using Cons.IH [OF d1(2)] by metis
  moreover have "insert_each d (e # terms) = insert_each d1 terms" using d1(1) by (simp add: e)
  ultimately show ?case using d1(3) e by (auto simp: comp_def simp del: insert_each.simps map_of.simps)
qed simp

lemma insert_many_ok:
  assumes "represents d m" "distinct (map fst terms)" "\<forall>e \<in> set terms. m (fst e) = None \<and> snd e \<noteq> NONE"
    "td_size d + sum_list (map (length \<circ> fst) terms) < 2 ^ 32"
  shows "\<exists>d'. insert_many d terms = Some d' \<and> represents d' (m ++ map_of terms) \<and>
    td_size d' \<le> td_size d + sum_list (map (length \<circ> fst) terms)"
proof (cases "length (overlay d) + length terms \<le> overlay_budget d")
  case True
  then show ?thesis using insert_each_ok [OF assms] by (simp add: insert_many_def)
next
  case False
  obtain words where w: "dict_ok d words" "m = map_of (overlay d @ live d words)" using assms(1) by (auto simp: represents_def)
  have b: "base_ok d words" using w(1) by (simp add: dict_ok_def)
  let ?new = "sort_key fst terms" let ?x = "merge_extra (overlay d) ?new"
  have m: "dom m = fst ` set (overlay d) \<union> fst ` set (live d words)" by (auto simp: w(2) dom_map_of_conv_image_fst)
  have fr: "fst ` set terms \<inter> dom m = {}" using assms(3) by auto
  have sn: "ssorted (map fst ?new)" using assms(2) by (intro sorted_distinct_ssorted) (simp_all add: distinct_map)
  have so: "ssorted (map fst (overlay d))" using w(1) by (simp add: dict_ok_def)
  have sx: "ssorted (map fst ?x)" using merge_extra_ssorted [OF so sn] fr m by auto
  have dx: "fst ` set ?x \<inter> fst ` set (live d words) = {}"
  proof -
    have "fst ` set terms \<inter> fst ` set (live d words) = {}" using fr m by auto
    then show ?thesis using overlay_live_disjoint [OF w(1)] by (simp add: merge_extra_set image_Un Int_Un_distrib2)
  qed
  have nx: "NONE \<notin> snd ` set ?x" using w(1) assms(3) by (auto simp: merge_extra_set dict_ok_def)
  have ss: "sum_list (map (length \<circ> fst) ?new) = sum_list (map (length \<circ> fst) terms)"
    by (metis mset_map mset_sort sum_mset_sum_list)
  have lx: "length (td_bytes d) + sum_list (map (length \<circ> fst) ?x) = td_size d + sum_list (map (length \<circ> fst) terms)"
    by (simp add: merge_extra_sum td_size_def ss)
  have mo: "map_of (?x @ live d words) = m ++ map_of terms"
  proof -
    have "distinct (map fst (?x @ live d words))"
      using ssorted_distinct [OF sx] ssorted_distinct [OF live_ssorted [OF b]] dx by auto
    moreover have "distinct (map fst (terms @ overlay d @ live d words))"
      using assms(2) overlay_live_distinct [OF w(1)] fr m by auto
    moreover have "set (?x @ live d words) = set (terms @ overlay d @ live d words)" by (auto simp: merge_extra_set)
    ultimately have "map_of (?x @ live d words) = map_of (terms @ overlay d @ live d words)" using map_of_inject_set by blast
    then show ?thesis using w(2) by simp
  qed
  show ?thesis using install_base_ok [OF b sx dx nx] lx mo assms(4) False by (simp add: insert_many_def)
qed

section \<open>Sequences of changes\<close>

datatype dict_op = DictInsert rstr u32 | DictInsertMany "(rstr \<times> u32) list" | DictRemove rstr | DictRebuild

text \<open>The dictionary after a sequence of calls, with what the removals returned.\<close>

fun dict_run :: "TermDictionary \<Rightarrow> dict_op list \<Rightarrow> (TermDictionary \<times> u32 option list) option" where
  "dict_run d [] = Some (d, [])"
| "dict_run d (DictInsert t i # ops) = (case td_insert d t i of None \<Rightarrow> None | Some d \<Rightarrow> dict_run d ops)"
| "dict_run d (DictInsertMany ts # ops) = (case insert_many d ts of None \<Rightarrow> None | Some d \<Rightarrow> dict_run d ops)"
| "dict_run d (DictRemove t # ops) =
     (case td_remove d t of None \<Rightarrow> None | Some (r, d) \<Rightarrow> map_option (\<lambda>(d, rs). (d, r # rs)) (dict_run d ops))"
| "dict_run d (DictRebuild # ops) = (case td_rebuild d of None \<Rightarrow> None | Some d \<Rightarrow> dict_run d ops)"

text \<open>The finite map it stands for.\<close>

fun map_run :: "(rstr \<rightharpoonup> u32) \<Rightarrow> dict_op list \<Rightarrow> (rstr \<rightharpoonup> u32) \<times> u32 option list" where
  "map_run m [] = (m, [])"
| "map_run m (DictInsert t i # ops) = map_run (m(t \<mapsto> i)) ops"
| "map_run m (DictInsertMany ts # ops) = map_run (m ++ map_of ts) ops"
| "map_run m (DictRemove t # ops) = (case map_run (m(t := None)) ops of (m', rs) \<Rightarrow> (m', m t # rs))"
| "map_run m (DictRebuild # ops) = map_run m ops"

text \<open>What the callers keep: a term is inserted only while it is absent, and no list id is the tombstone mark.\<close>

fun map_allows :: "(rstr \<rightharpoonup> u32) \<Rightarrow> dict_op \<Rightarrow> bool" where
  "map_allows m (DictInsert t i) \<longleftrightarrow> m t = None \<and> i \<noteq> NONE"
| "map_allows m (DictInsertMany ts) \<longleftrightarrow> distinct (map fst ts) \<and> (\<forall>e \<in> set ts. m (fst e) = None \<and> snd e \<noteq> NONE)"
| "map_allows m (DictRemove t) \<longleftrightarrow> True"
| "map_allows m DictRebuild \<longleftrightarrow> True"

fun map_permits :: "(rstr \<rightharpoonup> u32) \<Rightarrow> dict_op list \<Rightarrow> bool" where
  "map_permits m [] \<longleftrightarrow> True"
| "map_permits m (op # ops) \<longleftrightarrow> map_allows m op \<and> map_permits (fst (map_run m [op])) ops"

fun op_bytes :: "dict_op \<Rightarrow> nat" where
  "op_bytes (DictInsert t i) = length t"
| "op_bytes (DictInsertMany ts) = sum_list (map (length \<circ> fst) ts)"
| "op_bytes (DictRemove t) = 0"
| "op_bytes DictRebuild = 0"

lemma dict_run_represents:
  assumes "represents d m" "map_permits m ops" "td_size d + sum_list (map op_bytes ops) < 2 ^ 32"
  shows "\<exists>d'. dict_run d ops = Some (d', snd (map_run m ops)) \<and> represents d' (fst (map_run m ops))"
  using assms
proof (induction ops arbitrary: d m)
  case (Cons op ops)
  show ?case
  proof (cases op)
    case (DictInsert t i)
    then obtain d1 where "td_insert d t i = Some d1" "represents d1 (m(t \<mapsto> i))" "td_size d1 \<le> td_size d + length t"
      using td_insert_ok [OF Cons.prems(1), of t i] Cons.prems(2,3) by auto
    then show ?thesis using Cons.IH [of d1 "m(t \<mapsto> i)"] Cons.prems(2,3) DictInsert by (simp del: fun_upd_apply)
  next
    case (DictInsertMany ts)
    then obtain d1 where "insert_many d ts = Some d1" "represents d1 (m ++ map_of ts)"
      "td_size d1 \<le> td_size d + sum_list (map (length \<circ> fst) ts)"
      using insert_many_ok [OF Cons.prems(1), of ts] Cons.prems(2,3) by auto
    then show ?thesis using Cons.IH [of d1 "m ++ map_of ts"] Cons.prems(2,3) DictInsertMany by auto
  next
    case (DictRemove t)
    then obtain d1 where "td_remove d t = Some (m t, d1)" "represents d1 (m(t := None))" "td_size d1 \<le> td_size d"
      using td_remove_ok [OF Cons.prems(1), of t] Cons.prems(3) by auto
    then show ?thesis using Cons.IH [of d1 "m(t := None)"] Cons.prems(2,3) DictRemove
      by (auto simp del: fun_upd_apply split: prod.splits)
  next
    case DictRebuild
    then obtain d1 where "td_rebuild d = Some d1" "represents d1 m" "td_size d1 \<le> td_size d"
      using td_rebuild_ok [OF Cons.prems(1)] Cons.prems(3) by auto
    then show ?thesis using Cons.IH [of d1 m] Cons.prems(2,3) DictRebuild by auto
  qed
qed simp

lemma represents_default: "represents td_default Map.empty"
  unfolding represents_def by (rule exI [of _ "[]"]) (simp add: td_default_def dict_ok_def base_ok_def live_def)

lemma represents_len:
  assumes "represents d m"
  shows "td_len d = card (dom m)"
proof -
  obtain words where w: "dict_ok d words" "m = map_of (overlay d @ live d words)" using assms by (auto simp: represents_def)
  have "card (fst ` set (overlay d @ live d words)) = length (overlay d) + length (live d words)"
    using distinct_card [OF overlay_live_distinct [OF w(1)]] by (simp add: image_Un)
  moreover have "dom m = fst ` set (overlay d @ live d words)" by (simp add: w(2) dom_map_of_conv_image_fst image_Un Un_commute)
  ultimately show ?thesis using w(1) live_length [of words d] by (simp add: td_len_def dict_ok_def base_ok_def)
qed

text \<open>
  C22. Any sequence of inserts, batch inserts, removals and rebuilds on an empty dictionary implements a
  finite map, as long as terms are inserted only while absent and less than 4 GiB of terms is inserted: no call
  panics, every removal returns what the map held, every lookup agrees with the map and the number of terms is
  its size, whatever went into the base, into the overlay or was left as a tombstone.
\<close>

theorem dictionary_refines_map:
  assumes "map_permits Map.empty ops" "sum_list (map op_bytes ops) < 2 ^ 32"
  shows "\<exists>d. dict_run td_default ops = Some (d, snd (map_run Map.empty ops)) \<and>
    (\<forall>t. td_get d t = Some (fst (map_run Map.empty ops) t)) \<and> td_len d = card (dom (fst (map_run Map.empty ops)))"
proof -
  have "td_size td_default = 0" by (simp add: td_size_def td_default_def)
  then obtain d where "dict_run td_default ops = Some (d, snd (map_run Map.empty ops))" "represents d (fst (map_run Map.empty ops))"
    using dict_run_represents [OF represents_default assms(1)] assms(2) by auto
  then show ?thesis using represents_get represents_len by blast
qed

theorem dictionary_refines_map_witness:
  "\<exists>d. dict_run td_default [DictInsert [0x62] 7, DictRebuild, DictRemove [0x62], DictInsertMany [([0x61], 2), ([0x62], 3)]] = Some (d, [Some 7])
     \<and> td_get d [0x62] = Some (Some 3) \<and> td_get d [0x63] = Some None"
  using dictionary_refines_map [of "[DictInsert [0x62] 7, DictRebuild, DictRemove [0x62], DictInsertMany [([0x61], 2), ([0x62], 3)]]"]
  by (auto simp: NONE_def map_add_def)

end
