(* ===== verification/BlockUnpacking.thy ===== *)
theory BlockUnpacking
  imports PackedTerms
begin

text \<open>
  Decoding a block of bit-packed numbers at once, \<open>src/core/documents/postings.rs\<close>: \<open>unpack_fixed\<close> with its AVX2
  and NEON kernels, and \<open>unpack_values\<close>, which picks it for widths up to 32.  A vector register is the list of
  its bytes or lanes.  \<open>None\<close> stands for a panic.
\<close>

definition BLOCK_LEN :: nat where "BLOCK_LEN = 128"

text \<open>The kernel that the target and the run-time feature test select.\<close>

datatype kernel = Scalar | Avx2 | Neon

definition lane_words :: "u8 list \<Rightarrow> u32 list" where
  "lane_words bs = map (\<lambda>k. of_le_bytes (sub_slice bs (4 * k) 4)) [0..<length bs div 4]"

section \<open>AVX2\<close>

definition avx2_shuffle :: "nat \<Rightarrow> u8 list" where
  "avx2_shuffle bits = map (\<lambda>i. let lane = i div 4 in of_nat (lane * bits div 8 - (lane div 4) * (bits div 2) + i mod 4)) [0..<32]"

definition avx2_shifts :: "nat \<Rightarrow> nat list" where
  "avx2_shifts bits = map (\<lambda>i. i * bits mod 8) [0..<8]"

text \<open>\<open>_mm256_shuffle_epi8\<close>: each byte index selects within its own half of the register.\<close>

definition shuffle_epi8 :: "u8 list \<Rightarrow> u8 list \<Rightarrow> u8 list" where
  "shuffle_epi8 reg idx = map (\<lambda>i. if bit (idx ! i) 7 then 0 else reg ! (16 * (i div 16) + unat (idx ! i AND 15))) [0..<32]"

definition avx2_lanes :: "nat \<Rightarrow> u8 list \<Rightarrow> nat \<Rightarrow> u64 list" where
  "avx2_lanes bits bytes place =
     (let reg = sub_slice bytes place 16 @ sub_slice bytes (place + bits div 2) 16
      in map ucast (map2 (\<lambda>v s. drop_bit s v AND (push_bit bits 1 - 1)) (lane_words (shuffle_epi8 reg (avx2_shuffle bits))) (avx2_shifts bits)))"

text \<open>The values written; \<open>done\<close> of the code is their number.\<close>

function avx2_from :: "nat \<Rightarrow> u8 list \<Rightarrow> nat \<Rightarrow> nat \<Rightarrow> u64 list" where
  "avx2_from bits bytes n written =
     (if written + 8 \<le> n \<and> written * bits div 8 + bits div 2 + 16 \<le> length bytes
      then avx2_lanes bits bytes (written * bits div 8) @ avx2_from bits bytes n (written + 8)
      else [])"
  by pat_completeness auto
termination by (relation "measure (\<lambda>(_, _, n, written). n - written)") auto

declare avx2_from.simps [simp del]

definition unpack_avx2 :: "nat \<Rightarrow> u8 list \<Rightarrow> nat \<Rightarrow> u64 list option" where
  "unpack_avx2 bits bytes n = (if 1 \<le> bits \<and> bits \<le> 25 then Some (avx2_from bits bytes n 0) else None)"

section \<open>NEON\<close>

definition neon_shuffle_lo :: "nat \<Rightarrow> u8 list" where
  "neon_shuffle_lo bits = map (\<lambda>i. of_nat ((i div 4) * bits div 8 + i mod 4)) [0..<16]"

definition neon_shuffle_hi :: "nat \<Rightarrow> u8 list" where
  "neon_shuffle_hi bits = map (\<lambda>i. of_nat ((i div 4 + 4) * bits div 8 - bits div 2 + i mod 4)) [0..<16]"

definition neon_shifts_lo :: "nat \<Rightarrow> int list" where
  "neon_shifts_lo bits = map (\<lambda>i. - int (i * bits mod 8)) [0..<4]"

definition neon_shifts_hi :: "nat \<Rightarrow> int list" where
  "neon_shifts_hi bits = map (\<lambda>i. - int ((i + 4) * bits mod 8)) [0..<4]"

text \<open>\<open>vqtbl1q_u8\<close>: an index past the table gives zero.  \<open>vshlq_u32\<close>: a negative count shifts right.\<close>

definition qtbl1 :: "u8 list \<Rightarrow> u8 list \<Rightarrow> u8 list" where
  "qtbl1 reg idx = map (\<lambda>x. if unat x < 16 then reg ! unat x else 0) idx"

definition vshl :: "u32 \<Rightarrow> int \<Rightarrow> u32" where
  "vshl v s = (if s < 0 then drop_bit (nat (- s)) v else push_bit (nat s) v)"

definition neon_half :: "nat \<Rightarrow> u8 list \<Rightarrow> u8 list \<Rightarrow> int list \<Rightarrow> u64 list" where
  "neon_half bits reg shuffle shifts =
     map ucast (map2 (\<lambda>v s. vshl v s AND ucast (push_bit bits 1 - 1 :: u64)) (lane_words (qtbl1 reg shuffle)) shifts)"

definition neon_lanes :: "nat \<Rightarrow> u8 list \<Rightarrow> nat \<Rightarrow> u64 list" where
  "neon_lanes bits bytes place =
     neon_half bits (sub_slice bytes place 16) (neon_shuffle_lo bits) (neon_shifts_lo bits)
     @ neon_half bits (sub_slice bytes (place + bits div 2) 16) (neon_shuffle_hi bits) (neon_shifts_hi bits)"

function neon_from :: "nat \<Rightarrow> u8 list \<Rightarrow> nat \<Rightarrow> nat \<Rightarrow> u64 list" where
  "neon_from bits bytes n written =
     (if written + 8 \<le> n \<and> written * bits div 8 + bits div 2 + 16 \<le> length bytes
      then neon_lanes bits bytes (written * bits div 8) @ neon_from bits bytes n (written + 8)
      else [])"
  by pat_completeness auto
termination by (relation "measure (\<lambda>(_, _, n, written). n - written)") auto

declare neon_from.simps [simp del]

definition unpack_neon :: "nat \<Rightarrow> u8 list \<Rightarrow> nat \<Rightarrow> u64 list option" where
  "unpack_neon bits bytes n = (if 1 \<le> bits \<and> bits \<le> 25 then Some (neon_from bits bytes n 0) else None)"

section \<open>Any width\<close>

definition simd_values :: "kernel \<Rightarrow> nat \<Rightarrow> u8 list \<Rightarrow> nat \<Rightarrow> u64 list option" where
  "simd_values k bits bytes n =
     (if k \<noteq> Scalar \<and> bits \<le> 25 \<and> n \<ge> 32 then (if k = Avx2 then unpack_avx2 bits bytes n else unpack_neon bits bytes n) else Some [])"

definition whole_windows :: "nat \<Rightarrow> u8 list \<Rightarrow> nat \<Rightarrow> nat" where
  "whole_windows bits bytes n = (if 8 \<le> length bytes then min (((length bytes - 8) * 8 + 7) div bits + 1) n else 0)"

definition window_at :: "nat \<Rightarrow> u8 list \<Rightarrow> nat \<Rightarrow> u64 option" where
  "window_at bits bytes i =
     (let b = i * bits
      in if b div 8 + 8 \<le> length bytes
         then Some (drop_bit (b mod 8) (of_le_bytes (sub_slice bytes (b div 8) 8)) AND (push_bit bits 1 - 1)) else None)"

definition padded_at :: "nat \<Rightarrow> u8 list \<Rightarrow> nat \<Rightarrow> u64 option" where
  "padded_at bits bytes i =
     (let b = i * bits; stop = min (b div 8 + 8) (length bytes)
      in if b div 8 \<le> stop
         then let tail = sub_slice bytes (b div 8) (stop - b div 8)
              in Some (drop_bit (b mod 8) (of_le_bytes (tail @ replicate (8 - length tail) 0)) AND (push_bit bits 1 - 1))
         else None)"

text \<open>The three loops write disjoint or repeated places of the output; the last write of a place stays.\<close>

definition unpack_fixed :: "kernel \<Rightarrow> nat \<Rightarrow> u8 list \<Rightarrow> nat \<Rightarrow> u64 list option" where
  "unpack_fixed k bits bytes n =
     (case simd_values k bits bytes n of
        None \<Rightarrow> None
      | Some vs \<Rightarrow>
          those (map (\<lambda>i. if whole_windows bits bytes n \<le> i then padded_at bits bytes i
                          else if length vs \<le> i then window_at bits bytes i else Some (vs ! i)) [0..<n]))"

definition unpack_values :: "kernel \<Rightarrow> u8 list \<Rightarrow> nat \<Rightarrow> nat \<Rightarrow> u64 list option" where
  "unpack_values k bytes n bits =
     (if n \<le> BLOCK_LEN then
        if bits = 0 then Some (replicate n 0)
        else if bits \<le> 32 then unpack_fixed k bits bytes n
        else unpack_into bytes n bits
      else None)"

section \<open>Every kernel reads the packed values\<close>

text \<open>One lane: four bytes at the place of the value, shifted and masked.\<close>

definition lane_at :: "nat \<Rightarrow> u8 list \<Rightarrow> nat \<Rightarrow> nat \<Rightarrow> u64" where
  "lane_at bits bytes place i =
     ucast (drop_bit (i * bits mod 8) (of_le_bytes (sub_slice bytes (place + i * bits div 8) 4) :: u32) AND (push_bit bits 1 - 1))"

lemma lane_at_holds:
  assumes "holds bits bs vs" "written + i < length vs" "1 \<le> bits" "bits \<le> 25" "written mod 8 = 0"
  shows "lane_at bits bs (written * bits div 8) i = vs ! (written + i)"
proof -
  obtain q where q: "written = 8 * q" using assms(5) by (metis mult_div_mod_eq add.right_neutral)
  have d: "(written + i) * bits div 8 = written * bits div 8 + i * bits div 8" "(written + i) * bits mod 8 = i * bits mod 8"
    by (simp_all add: q add_mult_distrib mult.assoc)
  have "i * bits mod 8 < 8" by simp
  then have "ucast (drop_bit ((written + i) * bits mod 8) (of_le_bytes (sub_slice bs ((written + i) * bits div 8) 4) :: u32) AND (push_bit bits 1 - 1)) = vs ! (written + i)"
    by (intro window_value [OF assms(1,2)]) (use assms(4) d in \<open>auto simp: stream_bit_sub_slice\<close>)
  then show ?thesis by (simp add: lane_at_def d)
qed

lemma lane_words_eq:
  assumes "length reg = 4 * m" "\<And>k r. k < m \<Longrightarrow> r < 4 \<Longrightarrow> reg ! (4 * k + r) = bytes ! (p k + r)" "\<And>k. k < m \<Longrightarrow> p k + 4 \<le> length bytes"
  shows "lane_words reg = map (\<lambda>k. of_le_bytes (sub_slice bytes (p k) 4)) [0..<m]"
proof -
  have "sub_slice reg (4 * k) 4 = sub_slice bytes (p k) 4" if k: "k < m" for k
  proof (rule nth_equalityI)
    have "4 * k + 4 \<le> length reg" using k assms(1) by simp
    then show "length (sub_slice reg (4 * k) 4) = length (sub_slice bytes (p k) 4)" using assms(3) [OF k] by simp
  next
    fix r
    assume "r < length (sub_slice reg (4 * k) 4)"
    then have r: "r < 4" by simp
    have "4 * k + 4 \<le> length reg" using k assms(1) by simp
    then show "sub_slice reg (4 * k) 4 ! r = sub_slice bytes (p k) 4 ! r"
      using assms(2) [OF k r] assms(3) [OF k] r by (simp add: sub_slice_def)
  qed
  then show ?thesis using assms(1) by (simp add: lane_words_def)
qed

text \<open>Where the bytes of a lane are within a 16-byte half.\<close>

lemma lane_place:
  fixes bits lane :: nat
  assumes "bits \<le> 25" "lane < 8"
  shows "lane * bits div 8 = (lane div 4) * (bits div 2) + (lane * bits div 8 - (lane div 4) * (bits div 2))"
    "lane * bits div 8 - (lane div 4) * (bits div 2) + 4 \<le> 16" "lane * bits div 8 + 4 \<le> bits div 2 + 16"
proof -
  consider "lane = 0" | "lane = 1" | "lane = 2" | "lane = 3" | "lane = 4" | "lane = 5" | "lane = 6" | "lane = 7"
    using assms(2) by linarith
  then have "lane * bits div 8 = (lane div 4) * (bits div 2) + (lane * bits div 8 - (lane div 4) * (bits div 2)) \<and>
    lane * bits div 8 - (lane div 4) * (bits div 2) + 4 \<le> 16 \<and> lane * bits div 8 + 4 \<le> bits div 2 + 16"
    using assms(1) by cases (simp_all, linarith+)
  then show "lane * bits div 8 = (lane div 4) * (bits div 2) + (lane * bits div 8 - (lane div 4) * (bits div 2))"
    "lane * bits div 8 - (lane div 4) * (bits div 2) + 4 \<le> 16" "lane * bits div 8 + 4 \<le> bits div 2 + 16" by blast+
qed

lemma shuffle_index:
  assumes "n < 16"
  shows "unat (of_nat n :: u8) = n" "\<not> bit (of_nat n :: u8) 7" "unat (of_nat n AND 15 :: u8) = n"
proof -
  show u: "unat (of_nat n :: u8) = n" using assms by (simp add: unsigned_of_nat take_bit_nat_eq_self)
  have "bit n 7 = False" using assms by (simp add: bit_nat_def)
  then show "\<not> bit (of_nat n :: u8) 7" by (simp add: bit_of_nat_iff)
  have "(15 :: u8) = mask 4" by (simp add: mask_eq_exp_minus_1)
  then have "of_nat n AND (15 :: u8) = take_bit 4 (of_nat n)" by (simp add: take_bit_eq_mask)
  then show "unat (of_nat n AND 15 :: u8) = n" using assms u by (simp add: unsigned_take_bit_eq take_bit_nat_eq_self)
qed

lemma avx2_lanes_eq:
  assumes "bits \<le> 25" "place + bits div 2 + 16 \<le> length bytes"
  shows "avx2_lanes bits bytes place = map (lane_at bits bytes place) [0..<8]"
proof -
  let ?reg = "sub_slice bytes place 16 @ sub_slice bytes (place + bits div 2) 16"
  let ?S = "shuffle_epi8 ?reg (avx2_shuffle bits)"
  have "?S ! (4 * k + r) = bytes ! (place + k * bits div 8 + r)" if k: "k < 8" and r: "r < 4" for k r
  proof -
    let ?o = "k * bits div 8 - (k div 4) * (bits div 2)"
    note lp = lane_place [OF assms(1) k]
    have i: "4 * k + r < 32" "(4 * k + r) div 4 = k" "(4 * k + r) mod 4 = r" "(4 * k + r) div 16 = k div 4" using k r by auto
    have x: "avx2_shuffle bits ! (4 * k + r) = of_nat (?o + r)" using i by (simp add: avx2_shuffle_def Let_def)
    have o: "?o + r < 16" using lp(2) r by linarith
    have "?S ! (4 * k + r) = ?reg ! (16 * (k div 4) + (?o + r))"
      using i(1,4) shuffle_index [OF o] by (simp only: shuffle_epi8_def x length_upt nth_map nth_upt add_0 diff_zero if_False)
    also have "\<dots> = bytes ! (place + (k div 4) * (bits div 2) + (?o + r))"
    proof (cases "k < 4")
      case True
      then show ?thesis using o assms(2) by (simp add: nth_append sub_slice_def)
    next
      case False
      then have "k div 4 = 1" using k by simp
      then show ?thesis using o assms(2) by (simp add: nth_append sub_slice_def)
    qed
    finally show ?thesis using lp(1) by (simp add: add.assoc)
  qed
  moreover have "place + k * bits div 8 + 4 \<le> length bytes" if "k < 8" for k
    using lane_place(3) [OF assms(1) that] assms(2) by linarith
  ultimately have "lane_words ?S = map (\<lambda>k. of_le_bytes (sub_slice bytes (place + k * bits div 8) 4)) [0..<8]"
    by (intro lane_words_eq) (simp_all add: shuffle_epi8_def)
  then show ?thesis by (simp add: avx2_lanes_def Let_def avx2_shifts_def zip_map_map zip_same_conv_map lane_at_def comp_def)
qed

lemma neon_half_eq:
  assumes "bits \<le> 25" "j < 2" "place + j * (bits div 2) + 16 \<le> length bytes"
    "shuffle = map (\<lambda>i. of_nat ((i div 4 + 4 * j) * bits div 8 - j * (bits div 2) + i mod 4)) [0..<16]"
    "shifts = map (\<lambda>i. - int ((i + 4 * j) * bits mod 8)) [0..<4]"
  shows "neon_half bits (sub_slice bytes (place + j * (bits div 2)) 16) shuffle shifts
    = map (\<lambda>i. lane_at bits bytes place (i + 4 * j)) [0..<4]"
proof -
  let ?reg = "sub_slice bytes (place + j * (bits div 2)) 16"
  have eight: "k + 4 * j < 8" "(k + 4 * j) div 4 = j" if "k < 4" for k using that assms(2) by auto
  have "qtbl1 ?reg shuffle ! (4 * k + r) = bytes ! (place + (k + 4 * j) * bits div 8 + r)" if k: "k < 4" and r: "r < 4" for k r
  proof -
    let ?o = "(k + 4 * j) * bits div 8 - j * (bits div 2)"
    note lp = lane_place [OF assms(1) eight(1) [OF k], unfolded eight(2) [OF k]]
    have i: "4 * k + r < 16" "(4 * k + r) div 4 = k" "(4 * k + r) mod 4 = r" using k r by auto
    have x: "shuffle ! (4 * k + r) = of_nat (?o + r)" using i by (simp add: assms(4))
    have o: "?o + r < 16" using lp(2) r by linarith
    have "qtbl1 ?reg shuffle ! (4 * k + r) = ?reg ! (?o + r)"
      using i(1) x shuffle_index(1) [OF o] o by (simp add: qtbl1_def assms(4) del: of_nat_add)
    also have "\<dots> = bytes ! (place + j * (bits div 2) + (?o + r))" using o assms(3) by (simp add: sub_slice_def)
    finally show ?thesis using lp(1) by (simp add: add.assoc)
  qed
  moreover have "place + (k + 4 * j) * bits div 8 + 4 \<le> length bytes" if "k < 4" for k
    using lane_place(2) [OF assms(1) eight(1) [OF that], unfolded eight(2) [OF that]]
      lane_place(1) [OF assms(1) eight(1) [OF that], unfolded eight(2) [OF that]] assms(3) by linarith
  ultimately have "lane_words (qtbl1 ?reg shuffle) = map (\<lambda>k. of_le_bytes (sub_slice bytes (place + (k + 4 * j) * bits div 8) 4)) [0..<4]"
    by (intro lane_words_eq) (simp_all add: qtbl1_def assms(4))
  moreover have "vshl v (- int n) = drop_bit n v" for v n by (auto simp: vshl_def)
  moreover have "ucast (push_bit bits 1 - 1 :: u64) = (push_bit bits 1 - 1 :: u32)"
    using assms(1) by (intro bit_eqI) (simp add: bit_ucast_iff mask_bit)
  ultimately show ?thesis
    by (simp add: neon_half_def assms(5) zip_map_map zip_same_conv_map lane_at_def comp_def del: of_nat_mult of_nat_add)
qed

lemma neon_lanes_eq:
  assumes "bits \<le> 25" "place + bits div 2 + 16 \<le> length bytes"
  shows "neon_lanes bits bytes place = map (lane_at bits bytes place) [0..<8]"
proof -
  have "[0..<8] = [0..<4] @ map (\<lambda>i. i + 4) [0..<4]" by (simp add: upt_rec)
  then have "map (lane_at bits bytes place) [0..<8]
      = map (\<lambda>i. lane_at bits bytes place (i + 4 * 0)) [0..<4] @ map (\<lambda>i. lane_at bits bytes place (i + 4 * 1)) [0..<4]"
    by (simp add: comp_def)
  moreover have "neon_half bits (sub_slice bytes place 16) (neon_shuffle_lo bits) (neon_shifts_lo bits)
      = map (\<lambda>i. lane_at bits bytes place (i + 4 * 0)) [0..<4]"
    using neon_half_eq [OF assms(1), of 0 place bytes] assms(2) by (simp add: neon_shuffle_lo_def neon_shifts_lo_def)
  moreover have "neon_half bits (sub_slice bytes (place + bits div 2) 16) (neon_shuffle_hi bits) (neon_shifts_hi bits)
      = map (\<lambda>i. lane_at bits bytes place (i + 4 * 1)) [0..<4]"
    using neon_half_eq [OF assms(1), of 1 place bytes] assms(2) by (simp add: neon_shuffle_hi_def neon_shifts_hi_def)
  ultimately show ?thesis by (simp add: neon_lanes_def)
qed

lemma neon_is_avx2: "bits \<le> 25 \<Longrightarrow> neon_from bits bytes n written = avx2_from bits bytes n written"
proof (induction bits bytes n written rule: avx2_from.induct)
  case (1 bits bytes n written)
  then show ?case by (subst neon_from.simps, subst avx2_from.simps) (simp add: avx2_lanes_eq neon_lanes_eq)
qed

lemma avx2_from_holds:
  assumes "holds bits bs vs" "1 \<le> bits" "bits \<le> 25" "n \<le> length vs" "written mod 8 = 0" "written \<le> n"
  shows "\<exists>m \<le> n - written. avx2_from bits bs n written = take m (drop written vs)"
  using assms
proof (induction bits bs n written rule: avx2_from.induct)
  case (1 bits bytes n written)
  show ?case
  proof (cases "written + 8 \<le> n \<and> written * bits div 8 + bits div 2 + 16 \<le> length bytes")
    case True
    then obtain m where m: "m \<le> n - (written + 8)" "avx2_from bits bytes n (written + 8) = take m (drop (written + 8) vs)"
      using "1.IH" "1.prems" by auto
    have "map (lane_at bits bytes (written * bits div 8)) [0..<8] = map (\<lambda>i. vs ! (written + i)) [0..<8]"
      using "1.prems" True by (intro map_cong refl lane_at_holds) auto
    also have "\<dots> = take 8 (drop written vs)" using True "1.prems"(4) by (intro nth_equalityI) auto
    finally have "avx2_from bits bytes n written = take 8 (drop written vs) @ take m (drop (written + 8) vs)"
      using True m(2) "1.prems"(3) by (subst avx2_from.simps) (simp add: avx2_lanes_eq)
    then have "avx2_from bits bytes n written = take (8 + m) (drop written vs)" using take_add [of 8 m "drop written vs"] by (simp add: add.commute)
    moreover have "8 + m \<le> n - written" using m(1) True by linarith
    ultimately show ?thesis by blast
  qed (subst avx2_from.simps, auto intro: exI [of _ 0])
qed

lemma simd_values_holds:
  assumes "holds bits bs vs" "1 \<le> bits" "n \<le> length vs"
  shows "\<exists>m \<le> n. simd_values k bits bs n = Some (take m vs)"
proof (cases "k \<noteq> Scalar \<and> bits \<le> 25 \<and> n \<ge> 32")
  case True
  then obtain m where "m \<le> n" "avx2_from bits bs n 0 = take m vs" using avx2_from_holds [OF assms(1,2) _ assms(3), of 0] by auto
  then show ?thesis
    using True assms(2) by (cases k) (auto simp: simd_values_def unpack_avx2_def unpack_neon_def neon_is_avx2)
next
  case False
  then show ?thesis by (auto simp: simd_values_def intro: exI [of _ 0])
qed

lemma whole_window_fits:
  assumes "1 \<le> bits" "i < whole_windows bits bs n"
  shows "i * bits div 8 + 8 \<le> length bs"
proof -
  have l: "8 \<le> length bs" "i \<le> ((length bs - 8) * 8 + 7) div bits" using assms(2) by (auto simp: whole_windows_def split: if_splits)
  then have "i * bits \<le> (length bs - 8) * 8 + 7" using assms(1) by (metis div_times_less_eq_dividend le_trans mult_le_mono1)
  then show ?thesis using l(1) by linarith
qed

lemma window_at_holds:
  assumes "holds bits bs vs" "i < length vs" "1 \<le> bits" "bits \<le> 32" "i * bits div 8 + 8 \<le> length bs"
  shows "window_at bits bs i = Some (vs ! i)"
proof -
  have "i * bits mod 8 < 8" by simp
  then have "ucast (drop_bit (i * bits mod 8) (of_le_bytes (sub_slice bs (i * bits div 8) 8) :: u64) AND (push_bit bits 1 - 1)) = vs ! i"
    by (intro window_value [OF assms(1,2)]) (use assms(4) in \<open>auto simp: stream_bit_sub_slice\<close>)
  then show ?thesis using assms(5) by (simp add: window_at_def Let_def)
qed

lemma stream_bit_length: "stream_bit bs k \<Longrightarrow> k < 8 * length bs"
  by (simp add: stream_bit_def less_mult_imp_div_less div_less_iff_less_mult mult.commute)

lemma padded_at_holds:
  assumes "holds bits bs vs" "i < length vs" "1 \<le> bits" "bits \<le> 32"
  shows "padded_at bits bs i = Some (vs ! i)"
proof -
  let ?b = "i * bits" let ?stop = "min (?b div 8 + 8) (length bs)"
  let ?tail = "sub_slice bs (?b div 8) (?stop - ?b div 8)"
  have m: "?b mod 8 < 8" by simp
  have room: "(?b + bits + 7) div 8 \<le> length bs" by (rule holds_room [OF assms(1,2)])
  then have le: "?b div 8 \<le> length bs" using assms(3) by linarith
  have "8 * (?b div 8) + (?b mod 8 + bits) \<le> 8 * length bs" using room by simp
  then have "ucast (drop_bit (?b mod 8) (of_le_bytes (?tail @ replicate (8 - length ?tail) 0) :: u64) AND (push_bit bits 1 - 1)) = vs ! i"
    by (intro window_value [OF assms(1,2)])
      (use assms(4) m le in \<open>auto simp: stream_bit_append stream_bit_sub_slice stream_bit_zeros min_def dest: stream_bit_length split: if_splits\<close>)
  then show ?thesis using le by (simp add: padded_at_def Let_def)
qed

lemma unpack_values_holds:
  assumes "holds bits bs vs" "bits \<le> 64" "n \<le> length vs" "n \<le> BLOCK_LEN"
  shows "unpack_values k bs n bits = Some (take n vs)"
proof -
  consider "bits = 0" | "1 \<le> bits \<and> bits \<le> 32" | "32 < bits" by linarith
  then show ?thesis
  proof cases
    case 1
    then have "replicate n 0 = take n vs"
      using assms(1,3) by (intro nth_equalityI) (auto simp: holds_def narrow_zero)
    then show ?thesis using 1 assms(4) by (simp add: unpack_values_def)
  next
    case 2
    obtain m where m: "m \<le> n" "simd_values k bits bs n = Some (take m vs)" using simd_values_holds [OF assms(1) _ assms(3)] 2 by blast
    have "those (map (\<lambda>i. if whole_windows bits bs n \<le> i then padded_at bits bs i
        else if length (take m vs) \<le> i then window_at bits bs i else Some (take m vs ! i)) [0..<n]) = Some (map ((!) vs) [0..<n])"
      using 2 assms(3) whole_window_fits [of bits _ bs n] padded_at_holds [OF assms(1)] window_at_holds [OF assms(1)] m(1)
      by (intro those_map_eqI) auto
    moreover have "map ((!) vs) [0..<n] = take n vs" using assms(3) by (intro nth_equalityI) auto
    ultimately have "unpack_fixed k bits bs n = Some (take n vs)" using m(2) by (simp add: unpack_fixed_def)
    then show ?thesis using 2 assms(4) by (simp add: unpack_values_def)
  next
    case 3
    then show ?thesis using unpack_into_holds [OF assms(1-3)] assms(4) by (simp add: unpack_values_def)
  qed
qed

lemma holds_append: "holds bits bs vs \<Longrightarrow> holds bits (bs @ rest) vs"
proof -
  assume h: "holds bits bs vs"
  have "k < 8 * length bs" if "k < bits * length vs" for k using h that by (auto simp: holds_def)
  then show ?thesis using h by (auto simp: holds_def stream_bit_append)
qed

lemma holds_packed: "bits \<le> 64 \<Longrightarrow> \<forall>v \<in> set vs. narrow bits v \<Longrightarrow> holds bits (pack vs bits @ rest) vs"
  by (rule holds_append [OF holds_pack])

text \<open>
  C21. Packed numbers are read back whatever bytes follow them: up to 128 values of any width below 65 bits
  decode to themselves with the scalar loop, the AVX2 kernel and the NEON kernel alike, and so does
  each value alone.
\<close>

theorem packed_block_reads_back:
  assumes "bits \<le> 64" "\<forall>v \<in> set vs. unat v < 2 ^ bits" "length vs \<le> BLOCK_LEN"
  shows "unpack_values k (pack vs bits @ rest) (length vs) bits = Some vs \<and>
    (\<forall>i < length vs. unpack (pack vs bits @ rest) i bits = Some (vs ! i))"
proof -
  have "holds bits (pack vs bits @ rest) vs" using assms(1,2) by (intro holds_packed) (simp_all add: narrow_def)
  then show ?thesis using unpack_values_holds [OF _ assms(1) le_refl assms(3)] unpack_holds assms(1) by simp
qed

theorem packed_block_reads_back_witness:
  "unpack_values Avx2 (pack (map of_nat [0..<40]) 6 @ [1, 2, 3]) 40 6 = Some (map of_nat [0..<40])"
proof -
  have "unat (of_nat n :: u64) < 2 ^ 6" if "n < 40" for n using that by (simp add: unsigned_of_nat take_bit_nat_eq_self)
  then show ?thesis
    using packed_block_reads_back [of 6 "map of_nat [0..<40]" Avx2 "[1, 2, 3]"] by (simp add: BLOCK_LEN_def del: upt_rec_numeral)
qed

end
