(* ===== verification/PostingFrontier.thy ===== *)
theory PostingFrontier
  imports BlockUnpacking
begin

text \<open>
  The impact frontiers of the lexical index, \<open>pareto\<close> and \<open>frontier\<close> of \<open>src/core/documents/postings.rs\<close>: of a set of
  points (frequency, words), those that no other point dominates, by descending frequency.
  \<open>None\<close> at the outer level stands for a panic.
\<close>

type_synonym point = "u32 \<times> u32"

definition dominates :: "point \<Rightarrow> point \<Rightarrow> bool" where
  "dominates q p \<longleftrightarrow> fst p \<le> fst q \<and> snd q \<le> snd p"

text \<open>Both sorts are by frequency descending, then by length; equal points are equal values.\<close>

definition sort_points :: "point list \<Rightarrow> point list" where
  "sort_points ps = sort_key (\<lambda>p. - uint (fst p)) (sort_key snd ps)"

fun pareto_keep :: "point list \<Rightarrow> point list \<Rightarrow> point list" where
  "pareto_keep [] kept = kept"
| "pareto_keep (p # ps) kept = pareto_keep ps (if kept = [] \<or> snd p < snd (last kept) then kept @ [p] else kept)"

definition pareto :: "point list \<Rightarrow> point list" where
  "pareto points = pareto_keep (sort_points points) []"

fun frontier_scan :: "point list \<Rightarrow> nat \<Rightarrow> u32 list \<Rightarrow> point list \<Rightarrow> (u32 list \<times> point list) option" where
  "frontier_scan [] used least spill = Some (least, spill)"
| "frontier_scan ((frequency, words) # ps) used least spill =
     (if used < BLOCK_LEN then
        if unat frequency < length least
        then frontier_scan ps (used + 1) (least[unat frequency := min (least ! unat frequency) words]) spill
        else frontier_scan ps (used + 1) least (spill @ [(frequency, words)])
      else None)"

definition frontier_table :: "u32 list \<Rightarrow> point list" where
  "frontier_table least =
     map (\<lambda>f. (of_nat f, least ! f)) (filter (\<lambda>f. least ! f \<noteq> 0xFFFFFFFF) (rev [1..<BLOCK_LEN + 1]))"

fun frontier_keep :: "point list \<Rightarrow> point list \<Rightarrow> u32 \<Rightarrow> point list option" where
  "frontier_keep [] kept shortest = Some kept"
| "frontier_keep (p # ps) kept shortest =
     (if kept = [] \<or> snd p < shortest
      then if length kept < BLOCK_LEN then frontier_keep ps (kept @ [p]) (snd p) else None
      else frontier_keep ps kept shortest)"

definition frontier :: "point list \<Rightarrow> point list option option" where
  "frontier points =
     (case frontier_scan (filter (\<lambda>p. fst p > 0) points) 0 (replicate (BLOCK_LEN + 1) 0xFFFFFFFF) [] of
        None \<Rightarrow> None
      | Some (least, spill) \<Rightarrow>
          (case frontier_keep (sort_points spill @ frontier_table least) [] 0xFFFFFFFF of
             None \<Rightarrow> None
           | Some kept \<Rightarrow> Some (if length kept > 1 then Some kept else None)))"

section \<open>What a pass over sorted points keeps\<close>

definition points_sorted :: "point list \<Rightarrow> bool" where
  "points_sorted ps \<longleftrightarrow> sorted_wrt (\<lambda>p q. fst q \<le> fst p) ps"

lemma sort_points_set [simp]: "set (sort_points ps) = set ps"
  by (simp add: sort_points_def)

lemma sort_points_length [simp]: "length (sort_points ps) = length ps"
  by (simp add: sort_points_def)

lemma sort_points_sorted: "points_sorted (sort_points ps)"
proof -
  have "sorted (map (\<lambda>p. - uint (fst p)) (sort_points ps))" unfolding sort_points_def by (rule sorted_sort_key)
  then have "sorted_wrt (\<lambda>p q. - uint (fst p) \<le> - uint (fst q)) (sort_points ps)" by (simp add: sorted_wrt_map)
  then show ?thesis unfolding points_sorted_def by (rule sorted_wrt_mono_rel [rotated]) (simp add: word_le_def)
qed

text \<open>\<open>frontier_keep\<close> carries the length of the last point kept, and keeps what \<open>pareto_keep\<close> keeps.\<close>

lemma frontier_keep_pareto:
  assumes "kept \<noteq> [] \<Longrightarrow> shortest = snd (last kept)" "length kept + length ps \<le> BLOCK_LEN"
  shows "frontier_keep ps kept shortest = Some (pareto_keep ps kept)"
  using assms
proof (induction ps arbitrary: kept shortest)
  case (Cons p ps)
  then show ?case by (cases "kept = []") auto
qed simp

lemma pareto_keep_sub: "set (pareto_keep ps kept) \<subseteq> set kept \<union> set ps"
  by (induction ps kept rule: pareto_keep.induct) auto

lemma pareto_keep_keeps: "set kept \<subseteq> set (pareto_keep ps kept)"
  by (induction ps kept rule: pareto_keep.induct) (auto split: if_splits)

lemma pareto_keep_length: "length (pareto_keep ps kept) \<le> length kept + length ps"
  by (induction ps kept rule: pareto_keep.induct) (auto split: if_splits intro: le_trans)

lemma pareto_keep_dominates:
  assumes "points_sorted ps" "\<And>p. p \<in> set ps \<Longrightarrow> kept \<noteq> [] \<Longrightarrow> fst p \<le> fst (last kept)" "p \<in> set ps"
  shows "\<exists>q \<in> set (pareto_keep ps kept). dominates q p"
  using assms
proof (induction ps arbitrary: kept)
  case (Cons a ps)
  let ?kept = "if kept = [] \<or> snd a < snd (last kept) then kept @ [a] else kept"
  have k: "?kept \<noteq> []" "dominates (last ?kept) a" "fst a \<le> fst (last ?kept)"
    using Cons.prems(2) [of a] by (auto simp: dominates_def)
  have le: "fst x \<le> fst a" if "x \<in> set ps" for x using Cons.prems(1) that by (auto simp: points_sorted_def)
  show ?case
  proof (cases "p = a")
    case True
    have "last ?kept \<in> set (pareto_keep ps ?kept)" using pareto_keep_keeps [of ?kept ps] last_in_set [OF k(1)] by blast
    then show ?thesis using k(2) True by auto
  next
    case False
    then show ?thesis
      using Cons.IH [of ?kept] Cons.prems(1,3) le k(3) by (force simp: points_sorted_def)
  qed
qed simp

lemma pareto_dominates: "p \<in> set points \<Longrightarrow> \<exists>q \<in> set (pareto points). dominates q p"
  unfolding pareto_def by (rule pareto_keep_dominates [OF sort_points_sorted]) auto

lemma pareto_sub: "set (pareto points) \<subseteq> set points"
  unfolding pareto_def using pareto_keep_sub [of "sort_points points" "[]"] by simp

section \<open>The table of least lengths\<close>

lemma table_update_length: "length (frontier_table (least[f := v])) \<le> Suc (length (frontier_table least))"
proof -
  let ?ix = "rev [1..<BLOCK_LEN + 1]"
  let ?P = "\<lambda>l f. l ! f \<noteq> (0xFFFFFFFF :: u32)"
  have "set (filter (?P (least[f := v])) ?ix) \<subseteq> insert f (set (filter (?P least) ?ix))"
    by (auto simp: nth_list_update split: if_splits)
  then have "card (set (filter (?P (least[f := v])) ?ix)) \<le> card (insert f (set (filter (?P least) ?ix)))" by (intro card_mono) auto
  also have "\<dots> \<le> Suc (card (set (filter (?P least) ?ix)))" by (simp add: card_insert_if)
  finally show ?thesis
    using distinct_card [of "filter (?P (least[f := v])) ?ix"] distinct_card [of "filter (?P least) ?ix"]
    by (simp add: frontier_table_def)
qed

text \<open>What a scan leaves, given the table and the spill before it.\<close>

definition scanned :: "point list \<Rightarrow> u32 list \<Rightarrow> point list \<Rightarrow> u32 list \<Rightarrow> point list \<Rightarrow> bool" where
  "scanned ps least spill least' spill' \<longleftrightarrow> length least' = length least \<and>
     set spill' = set spill \<union> {p \<in> set ps. length least \<le> unat (fst p)} \<and>
     length (frontier_table least') + length spill' \<le> length (frontier_table least) + length spill + length ps \<and>
     (\<forall>f < length least. least' ! f \<le> least ! f \<and>
        (least' ! f = least ! f \<or> (\<exists>p \<in> set ps. unat (fst p) = f \<and> least' ! f = snd p))) \<and>
     (\<forall>p \<in> set ps. unat (fst p) < length least \<longrightarrow> least' ! unat (fst p) \<le> snd p)"

lemma scanned_table:
  assumes "scanned ps (least[unat f := min (least ! unat f) w]) spill l s" "unat f < length least"
  shows "scanned ((f, w) # ps) least spill l s"
proof -
  let ?least = "least[unat f := min (least ! unat f) w]"
  have low: "?least ! g \<le> least ! g" "g = unat f \<Longrightarrow> ?least ! g \<le> w" if "g < length least" for g
    using that by (cases "g = unat f", auto)
  have l: "l ! g \<le> ?least ! g" "l ! g = ?least ! g \<or> (\<exists>p \<in> set ps. unat (fst p) = g \<and> l ! g = snd p)" if "g < length least" for g
    using assms(1) that by (auto simp: scanned_def)
  have "l ! g \<le> least ! g" if "g < length least" for g using l(1) [OF that] low(1) [OF that] by (rule order_trans)
  moreover have "l ! g = least ! g \<or> (\<exists>p \<in> set ((f, w) # ps). unat (fst p) = g \<and> l ! g = snd p)" if "g < length least" for g
    using l(2) [OF that] that by (cases "g = unat f") (auto simp: min_def split: if_splits)
  moreover have "l ! unat f \<le> w" using l(1) [OF assms(2)] low(2) [OF assms(2)] by (rule order_trans) simp
  moreover have "length (frontier_table l) + length s \<le> length (frontier_table least) + length spill + length ((f, w) # ps)"
    using assms(1) table_update_length [of least "unat f" "min (least ! unat f) w"] by (simp add: scanned_def)
  ultimately show ?thesis using assms by (auto simp: scanned_def)
qed

lemma scanned_spill:
  assumes "scanned ps least (spill @ [(f, w)]) l s" "\<not> unat f < length least"
  shows "scanned ((f, w) # ps) least spill l s"
  using assms unfolding scanned_def by auto

lemma scan_ok: "used + length ps \<le> BLOCK_LEN \<Longrightarrow> \<exists>l s. frontier_scan ps used least spill = Some (l, s) \<and> scanned ps least spill l s"
proof (induction ps used least spill rule: frontier_scan.induct)
  case (1 used least spill)
  then show ?case by (simp add: scanned_def)
next
  case (2 f w ps used least spill)
  then have u: "used < BLOCK_LEN" "(used + 1) + length ps \<le> BLOCK_LEN" by simp_all
  show ?case
  proof (cases "unat f < length least")
    case True
    then show ?thesis using "2.IH"(1) [OF u(1) True u(2)] u(1) scanned_table by fastforce
  next
    case False
    then show ?thesis using "2.IH"(2) [OF u(1) False u(2)] u(1) scanned_spill by fastforce
  qed
qed

lemma frontier_table_sorted: "points_sorted (frontier_table least)"
proof -
  have "sorted_wrt (\<ge>) (rev [1..<BLOCK_LEN + 1])" by (simp add: sorted_wrt_rev del: upt_Suc)
  then have "sorted_wrt (\<ge>) (filter (\<lambda>f. least ! f \<noteq> 0xFFFFFFFF) (rev [1..<BLOCK_LEN + 1]))" by (rule sorted_wrt_filter)
  then have "sorted_wrt (\<lambda>f g. (of_nat g :: u32) \<le> of_nat f) (filter (\<lambda>f. least ! f \<noteq> 0xFFFFFFFF) (rev [1..<BLOCK_LEN + 1]))"
    by (rule sorted_wrt_mono_rel [rotated]) (auto simp: word_le_nat_alt unsigned_of_nat take_bit_nat_eq_self BLOCK_LEN_def)
  then show ?thesis by (simp add: points_sorted_def frontier_table_def sorted_wrt_map)
qed

lemma frontier_table_mem:
  "(f, w) \<in> set (frontier_table least) \<longleftrightarrow> 1 \<le> unat f \<and> unat f \<le> BLOCK_LEN \<and> w = least ! unat f \<and> w \<noteq> 0xFFFFFFFF"
proof -
  have u: "unat (of_nat n :: u32) = n" if "n \<le> BLOCK_LEN" for n
    using that by (simp add: BLOCK_LEN_def unsigned_of_nat take_bit_nat_eq_self)
  show ?thesis
  proof
    assume "(f, w) \<in> set (frontier_table least)"
    then obtain n where n: "1 \<le> n" "n \<le> BLOCK_LEN" "f = of_nat n" "w = least ! n" "w \<noteq> 0xFFFFFFFF"
      by (auto simp: frontier_table_def)
    then show "1 \<le> unat f \<and> unat f \<le> BLOCK_LEN \<and> w = least ! unat f \<and> w \<noteq> 0xFFFFFFFF" using u [OF n(2)] by simp
  next
    assume h: "1 \<le> unat f \<and> unat f \<le> BLOCK_LEN \<and> w = least ! unat f \<and> w \<noteq> 0xFFFFFFFF"
    then show "(f, w) \<in> set (frontier_table least)"
      unfolding frontier_table_def by (auto intro!: image_eqI [of _ _ "unat f"] simp del: upt_Suc)
  qed
qed

definition is_frontier :: "point list \<Rightarrow> point list \<Rightarrow> bool" where
  "is_frontier points kept \<longleftrightarrow> set kept \<subseteq> set points \<and> length kept \<le> length points \<and>
     (\<forall>p \<in> set points. fst p > 0 \<longrightarrow> (\<exists>q \<in> set kept. dominates q p))"

lemma dominates_trans: "dominates r q \<Longrightarrow> dominates q p \<Longrightarrow> dominates r p"
  by (auto simp: dominates_def)

lemma below_max: "(w :: u32) \<noteq> 0xFFFFFFFF \<Longrightarrow> w < 0xFFFFFFFF"
proof -
  assume "w \<noteq> 0xFFFFFFFF"
  then have "unat w \<noteq> unat (0xFFFFFFFF :: u32)" by (simp only: word_unat_eq_iff not_False_eq_True)
  then show ?thesis using unat_u32_bound [of w] by (simp add: word_less_nat_alt)
qed

lemma frontier_ok:
  assumes "length points \<le> BLOCK_LEN" "\<forall>p \<in> set points. snd p \<noteq> 0xFFFFFFFF"
  shows "\<exists>r. frontier points = Some r \<and> (\<forall>kept. r = Some kept \<longrightarrow> is_frontier points kept)"
proof -
  let ?ps = "filter (\<lambda>p. fst p > 0) points" and ?init = "replicate (BLOCK_LEN + 1) 0xFFFFFFFF :: u32 list"
  have len: "length ?ps \<le> BLOCK_LEN" using assms(1) length_filter_le [of "\<lambda>p. fst p > 0" points] by linarith
  obtain least spill where sc: "frontier_scan ?ps 0 ?init [] = Some (least, spill)" "scanned ?ps ?init [] least spill"
    using scan_ok [of 0 ?ps ?init "[]"] len by auto
  let ?all = "sort_points spill @ frontier_table least"
  have empty: "frontier_table ?init = []" by (auto simp: frontier_table_def filter_empty_conv simp del: upt_Suc replicate_Suc)
  have sp: "set spill = {p \<in> set ?ps. BLOCK_LEN < unat (fst p)}" using sc(2) by (auto simp: scanned_def)
  have la: "length ?all \<le> length ?ps" using sc(2) empty by (simp add: scanned_def)
  have least: "least ! f = 0xFFFFFFFF \<or> (\<exists>p \<in> set ?ps. unat (fst p) = f \<and> least ! f = snd p)" if "f \<le> BLOCK_LEN" for f
    using sc(2) that by (auto simp: scanned_def simp del: replicate_Suc)
  have sub: "set ?all \<subseteq> set ?ps"
  proof
    fix x assume "x \<in> set ?all"
    then consider "x \<in> set spill" | "x \<in> set (frontier_table least)" by auto
    then show "x \<in> set ?ps"
    proof cases
      case 2
      then have x: "unat (fst x) \<le> BLOCK_LEN" "snd x = least ! unat (fst x)" "snd x \<noteq> 0xFFFFFFFF"
        using frontier_table_mem [of "fst x" "snd x" least] by auto
      then obtain p where p: "p \<in> set ?ps" "unat (fst p) = unat (fst x)" "snd p = snd x" using least [OF x(1)] by auto
      then have "p = x" by (intro prod_eqI) (auto simp: unsigned_word_eqI)
      then show ?thesis using p(1) by blast
    qed (use sp in simp)
  qed
  have keep: "frontier_keep ?all [] 0xFFFFFFFF = Some (pareto_keep ?all [])"
    using la len by (intro frontier_keep_pareto) simp_all
  have "fst q \<le> fst p" if "p \<in> set spill" "q \<in> set (frontier_table least)" for p q
    using that sp frontier_table_mem [of "fst q" "snd q" least] by (auto simp: word_le_nat_alt)
  then have sorted: "points_sorted ?all"
    using sort_points_sorted [of spill] frontier_table_sorted [of least] by (auto simp: points_sorted_def sorted_wrt_append)
  note all_dom = pareto_keep_dominates [OF sorted, of "[]", simplified]
  have dom: "\<exists>q \<in> set (pareto_keep ?all []). dominates q p" if p: "p \<in> set points" "fst p > 0" for p
  proof (cases "unat (fst p) \<le> BLOCK_LEN")
    case True
    have "p \<in> set ?ps" using p by simp
    then have le: "least ! unat (fst p) \<le> snd p" using sc(2) True by (auto simp: scanned_def simp del: replicate_Suc)
    have "snd p < 0xFFFFFFFF" using assms(2) p(1) below_max by blast
    then have "least ! unat (fst p) \<noteq> 0xFFFFFFFF" using le by (metis leD)
    then have "(fst p, least ! unat (fst p)) \<in> set ?all"
      using True p(2) by (auto simp: frontier_table_mem word_less_nat_alt Suc_le_eq)
    then obtain q where "q \<in> set (pareto_keep ?all [])" "dominates q (fst p, least ! unat (fst p))"
      using all_dom by (metis Un_iff set_append sort_points_set)
    then show ?thesis using le dominates_trans [of q "(fst p, least ! unat (fst p))" p] by (auto simp: dominates_def)
  next
    case False
    then have "p \<in> set ?all" using sp p by simp
    then show ?thesis using all_dom [of p] by auto
  qed
  have pl: "length (pareto_keep ?all []) \<le> length ?all" using pareto_keep_length [of ?all "[]"] by simp
  have "length (pareto_keep ?all []) \<le> length points" by (rule order_trans [OF order_trans [OF pl la] length_filter_le])
  then have "is_frontier points (pareto_keep ?all [])"
    using dom sub pareto_keep_sub [of ?all "[]"]
    by (auto simp: is_frontier_def)
  then show ?thesis unfolding frontier_def sc(1) option.case prod.case keep by simp
qed

end
