(* ===== verification/PostingBlocks.thy ===== *)
theory PostingBlocks
  imports PostingFrontier CheckpointPostings
begin

text \<open>
  The bit-packed blocks of a posting list, \<open>src/core/documents/postings.rs\<close>: the list, how a block is appended, and
  how its postings and ordinals are read back.  \<open>None\<close> stands for a panic.  Slots are \<open>usize\<close>; in a list they
  ascend strictly, so that no difference of slots is negative.
\<close>

record Block =
  blk_offset :: usize
  blk_first :: usize
  blk_last :: usize
  blk_count :: nat
  doc_bits :: nat
  frequency_bits :: nat
  ordinal_bits :: nat
  max_frequency :: u32
  min_words :: u32
  blk_frontier :: "point list option"

text \<open>The two cells of a summary are empty until a query fills them.\<close>

record Summary =
  sum_maxima :: "point option"
  sum_runs :: "point list list option"

record PostingList =
  pl_data :: "u8 list"
  pl_blocks :: "Block list"
  pl_count :: u32
  positive_count :: u32
  pl_last :: u64
  pl_summary :: "Summary option"

definition pl_default :: PostingList where
  "pl_default = \<lparr>pl_data = [], pl_blocks = [], pl_count = 0, positive_count = 0, pl_last = 0, pl_summary = None\<rparr>"

definition SUPER_LEN :: nat where "SUPER_LEN = 32"

definition SUMMARY_MIN_BLOCKS :: nat where "SUMMARY_MIN_BLOCKS = 2 * SUPER_LEN"

definition summary_default :: Summary where "summary_default = \<lparr>sum_maxima = None, sum_runs = None\<rparr>"

definition touch :: "PostingList \<Rightarrow> PostingList" where
  "touch l =
     (if length (pl_blocks l) < SUMMARY_MIN_BLOCKS then l\<lparr>pl_summary := None\<rparr>
      else case pl_summary l of
             Some s \<Rightarrow> if sum_maxima s \<noteq> None \<or> sum_runs s \<noteq> None then l\<lparr>pl_summary := Some summary_default\<rparr> else l
           | None \<Rightarrow> l\<lparr>pl_summary := Some summary_default\<rparr>)"

section \<open>Writing a block\<close>

fun max_gap :: "Posting list \<Rightarrow> u64 \<Rightarrow> u64" where
  "max_gap (p # q # ps) gap = max_gap (q # ps) (max gap (of_nat (fst q - fst p)))"
| "max_gap _ gap = gap"

fun deltas :: "usize \<Rightarrow> Posting list \<Rightarrow> u64 list" where
  "deltas previous [] = []"
| "deltas previous (p # ps) = of_nat (fst p - previous) # deltas (fst p) ps"

definition max_u32 :: "u32 list \<Rightarrow> u32" where "max_u32 ws = foldl max 0 ws"

definition append_block :: "Posting list \<Rightarrow> u32 list \<Rightarrow> u32 \<Rightarrow> point list option \<Rightarrow> PostingList \<Rightarrow> PostingList option" where
  "append_block postings ordinals words fr l =
     (if postings = [] then None
      else
        let dbits = bit_width (unat (max_gap postings 0));
            frequency = max_u32 (map snd postings);
            fbits = bit_width (unat frequency);
            offset = length (pl_data l);
            data = pl_data l @ pack (deltas (fst (hd postings)) postings) dbits @ pack (map (\<lambda>p. ucast (snd p)) postings) fbits;
            obits = bit_width (unat (max_u32 ordinals))
        in if obits > 0 \<and> length ordinals \<noteq> length postings then None
           else Some (touch (l\<lparr>
             pl_data := data @ (if obits > 0 then pack (map ucast ordinals) obits else []),
             pl_blocks := pl_blocks l @ [\<lparr>blk_offset = offset, blk_first = fst (hd postings), blk_last = fst (last postings),
               blk_count = length postings mod 2 ^ 16, doc_bits = dbits, frequency_bits = fbits, ordinal_bits = obits,
               max_frequency = frequency, min_words = words, blk_frontier = fr\<rparr>]\<rparr>)))"

section \<open>Reading a block\<close>

fun running :: "u64 \<Rightarrow> u64 list \<Rightarrow> u64 list" where
  "running slot [] = []"
| "running slot (gap # gaps) = (slot + gap) # running (slot + gap) gaps"

definition byte_len :: "nat \<Rightarrow> nat \<Rightarrow> nat" where "byte_len n bits = (n * bits + 7) div 8"

definition slice_from :: "u8 list \<Rightarrow> usize \<Rightarrow> u8 list option" where
  "slice_from bs i = (if i \<le> length bs then Some (drop i bs) else None)"

text \<open>The first \<open>count\<close> places of \<open>out\<close> are written.\<close>

definition decode_values :: "kernel \<Rightarrow> PostingList \<Rightarrow> Block \<Rightarrow> Posting list \<Rightarrow> Posting list option" where
  "decode_values k l b out =
     (case slice_from (pl_data l) (blk_offset b) of
        None \<Rightarrow> None
      | Some bytes \<Rightarrow>
          (case unpack_values k bytes (blk_count b) (doc_bits b) of
             None \<Rightarrow> None
           | Some gaps \<Rightarrow>
               let slots = running (of_nat (blk_first b)) gaps
               in if last (of_nat (blk_first b) # slots) \<noteq> of_nat (blk_last b) then None
                  else case slice_from bytes (byte_len (blk_count b) (doc_bits b)) of
                         None \<Rightarrow> None
                       | Some bytes \<Rightarrow>
                           (case unpack_values k bytes (blk_count b) (frequency_bits b) of
                              None \<Rightarrow> None
                            | Some fs \<Rightarrow> Some (zip (map unat slots) (map ucast fs) @ drop (blk_count b) out))))"

definition decode_block :: "kernel \<Rightarrow> PostingList \<Rightarrow> nat \<Rightarrow> Posting list \<Rightarrow> Posting list option" where
  "decode_block k l i out = (if i < length (pl_blocks l) then decode_values k l (pl_blocks l ! i) out else None)"

definition decode_block_into :: "kernel \<Rightarrow> PostingList \<Rightarrow> nat \<Rightarrow> Posting list \<Rightarrow> (Posting list \<times> nat) option" where
  "decode_block_into k l i out = map_option (\<lambda>out. (out, blk_count (pl_blocks l ! i))) (decode_block k l i out)"

definition ordinal_bytes :: "PostingList \<Rightarrow> Block \<Rightarrow> u8 list option" where
  "ordinal_bytes l b =
     (let start = blk_offset b + byte_len (blk_count b) (doc_bits b) + byte_len (blk_count b) (frequency_bits b);
          n = byte_len (blk_count b) (ordinal_bits b)
      in if start + n \<le> length (pl_data l) then Some (sub_slice (pl_data l) start n) else None)"

text \<open>The whole of \<open>out\<close> is written, with zeros from \<open>count\<close> on.\<close>

definition decode_ordinals :: "kernel \<Rightarrow> PostingList \<Rightarrow> Block \<Rightarrow> u32 list option" where
  "decode_ordinals k l b =
     (case ordinal_bytes l b of
        None \<Rightarrow> None
      | Some bytes \<Rightarrow>
          map_option (\<lambda>vs. map ucast vs @ replicate (BLOCK_LEN - length vs) 0) (unpack_values k bytes (blk_count b) (ordinal_bits b)))"

definition first_frequency :: "PostingList \<Rightarrow> Block \<Rightarrow> u32 option" where
  "first_frequency l b =
     (case slice_from (pl_data l) (blk_offset b + byte_len (blk_count b) (doc_bits b)) of
        None \<Rightarrow> None
      | Some bytes \<Rightarrow> map_option ucast (unpack bytes 0 (frequency_bits b)))"

definition block_count :: "PostingList \<Rightarrow> nat" where "block_count l = length (pl_blocks l)"

definition block_bounds :: "PostingList \<Rightarrow> nat \<Rightarrow> (point \<times> point list) option" where
  "block_bounds l i =
     (if i < length (pl_blocks l) then
        let b = pl_blocks l ! i
        in Some ((max_frequency b, min_words b), case blk_frontier b of None \<Rightarrow> [] | Some f \<Rightarrow> f)
      else None)"

section \<open>The postings a block holds\<close>

text \<open>A posting with the ordinal of its term within the chunk.\<close>

type_synonym entry = "Posting \<times> u32"

abbreviation entry_slot :: "entry \<Rightarrow> usize" where "entry_slot e \<equiv> fst (fst e)"

definition gap_bits :: "entry list \<Rightarrow> nat" where "gap_bits es = bit_width (unat (max_gap (map fst es) 0))"

definition freq_bits :: "entry list \<Rightarrow> nat" where "freq_bits es = bit_width (unat (max_u32 (map (snd \<circ> fst) es)))"

definition ord_bits :: "entry list \<Rightarrow> nat" where "ord_bits es = bit_width (unat (max_u32 (map snd es)))"

definition gap_values :: "entry list \<Rightarrow> u64 list" where "gap_values es = deltas (entry_slot (hd es)) (map fst es)"

definition freq_values :: "entry list \<Rightarrow> u64 list" where "freq_values es = map (\<lambda>e. ucast (snd (fst e))) es"

definition ord_values :: "entry list \<Rightarrow> u64 list" where "ord_values es = map (\<lambda>e. ucast (snd e)) es"

definition entry_bytes :: "entry list \<Rightarrow> u8 list" where
  "entry_bytes es = pack (gap_values es) (gap_bits es) @ pack (freq_values es) (freq_bits es) @ pack (ord_values es) (ord_bits es)"

definition entry_block :: "usize \<Rightarrow> entry list \<Rightarrow> u32 \<times> point list option \<Rightarrow> Block" where
  "entry_block offset es st = \<lparr>blk_offset = offset, blk_first = entry_slot (hd es), blk_last = entry_slot (last es),
     blk_count = length es, doc_bits = gap_bits es, frequency_bits = freq_bits es, ordinal_bits = ord_bits es,
     max_frequency = max_u32 (map (snd \<circ> fst) es), min_words = fst st, blk_frontier = snd st\<rparr>"

definition part_ok :: "entry list \<Rightarrow> bool" where
  "part_ok es \<longleftrightarrow> es \<noteq> [] \<and> length es \<le> BLOCK_LEN \<and> ssorted (map entry_slot es) \<and> (\<forall>e \<in> set es. entry_slot e < 2 ^ 64)"

lemma max_u32_ge: "w \<in> set ws \<Longrightarrow> w \<le> max_u32 ws"
proof -
  have "(\<forall>w \<in> insert m (set ws). w \<le> foldl max m ws)" for m :: u32
    by (induction ws arbitrary: m) (auto simp: max_def, (force elim: order_trans)+)
  then show "w \<in> set ws \<Longrightarrow> w \<le> max_u32 ws" by (simp add: max_u32_def)
qed

lemma max_gap_ge: "gap \<le> max_gap ps gap"
  by (induction ps gap rule: max_gap.induct) (auto simp: max_def split: if_splits intro: order_trans)

lemma deltas_le: "d \<in> set (deltas (fst p) ps) \<Longrightarrow> d \<le> max_gap (p # ps) gap"
proof (induction ps arbitrary: p gap)
  case (Cons q ps)
  let ?g = "max gap (of_nat (fst q - fst p))"
  consider "d = of_nat (fst q - fst p)" | "d \<in> set (deltas (fst q) ps)" using Cons.prems by auto
  then show ?case
  proof cases
    case 1
    then have "d \<le> ?g" by simp
    then show ?thesis using max_gap_ge [of ?g "q # ps"] by (simp only: max_gap.simps order_trans)
  next
    case 2
    then show ?thesis using Cons.IH by simp
  qed
qed simp

lemma narrow_bit_width: "unat v \<le> n \<Longrightarrow> narrow (bit_width n) v"
  using bit_width_bound [of n] by (simp add: narrow_def)

lemma pack_zero: "pack vs 0 = []"
proof -
  have "\<exists>b. foldl (pack_step 0) ([], buffer, 0) vs = ([], b, 0)" for buffer
    by (induction vs arbitrary: buffer) (simp_all add: pack_step_def Let_def)
  then obtain b where "foldl (pack_step 0) ([], 0, 0) vs = ([], b, 0)" by blast
  then show ?thesis by (simp add: pack_def)
qed

lemma unat_u64_bound: "unat (w :: u64) < 2 ^ 64"
proof -
  have "unat w < 2 ^ LENGTH(64)" by (rule unsigned_less)
  then show ?thesis by simp
qed

lemma entry_values_narrow:
  assumes "part_ok es"
  shows "\<forall>v \<in> set (gap_values es). narrow (gap_bits es) v" "\<forall>v \<in> set (freq_values es). narrow (freq_bits es) v"
    "\<forall>v \<in> set (ord_values es). narrow (ord_bits es) v" "gap_bits es \<le> 64" "freq_bits es \<le> 32" "ord_bits es \<le> 32"
proof -
  obtain e rest where es: "es = e # rest" using assms by (auto simp: part_ok_def neq_Nil_conv)
  show "\<forall>v \<in> set (gap_values es). narrow (gap_bits es) v"
  proof
    fix v assume "v \<in> set (gap_values es)"
    then have "v = 0 \<or> v \<in> set (deltas (entry_slot e) (map fst rest))" by (auto simp: gap_values_def es)
    then have "v \<le> max_gap (map fst es) 0" using deltas_le [of v "fst e" "map fst rest" 0] by (auto simp: es)
    then show "narrow (gap_bits es) v" unfolding gap_bits_def by (intro narrow_bit_width) (simp add: word_le_nat_alt)
  qed
  have f: "unat (ucast w :: u64) = unat w" for w :: u32 using unat_u32_bound [of w] by (simp add: unsigned_ucast_eq take_bit_nat_eq_self)
  show "\<forall>v \<in> set (freq_values es). narrow (freq_bits es) v"
    using max_u32_ge [of "snd (fst e)" "map (snd \<circ> fst) es" for e] unfolding freq_bits_def freq_values_def
    by (force intro!: narrow_bit_width simp: f word_le_nat_alt image_iff)
  show "\<forall>v \<in> set (ord_values es). narrow (ord_bits es) v"
    using max_u32_ge [of "snd e" "map snd es" for e] unfolding ord_bits_def ord_values_def
    by (force intro!: narrow_bit_width simp: f word_le_nat_alt image_iff)
  show "gap_bits es \<le> 64" unfolding gap_bits_def by (rule bit_width_le) (rule unat_u64_bound)
  show "freq_bits es \<le> 32" "ord_bits es \<le> 32" unfolding freq_bits_def ord_bits_def using unat_u32_bound by (intro bit_width_le, simp)+
qed

lemma narrow_wide: "ucast (ucast (w :: u32) :: u64) = w"
  by (rule bit_eqI) (auto simp: bit_ucast_iff dest: bit_imp_le_length)

lemma running_deltas: "sorted (p # map fst ps) \<Longrightarrow> running (of_nat p) (deltas p ps) = map (of_nat \<circ> fst) ps"
proof (induction ps arbitrary: p)
  case (Cons q ps)
  then have "of_nat p + (of_nat (fst q - p) :: u64) = of_nat (fst q)" by (simp flip: of_nat_add)
  then show ?case using Cons by simp
qed simp

lemma entry_pack_length:
  assumes "part_ok es"
  shows "length (pack (gap_values es) (gap_bits es)) = byte_len (length es) (gap_bits es)"
    "length (pack (freq_values es) (freq_bits es)) = byte_len (length es) (freq_bits es)"
    "length (pack (ord_values es) (ord_bits es)) = byte_len (length es) (ord_bits es)"
proof -
  note n = entry_values_narrow [OF assms]
  have "length (deltas p ps) = length ps" for p ps by (induction ps arbitrary: p) auto
  then have l: "length (gap_values es) = length es" "length (freq_values es) = length es" "length (ord_values es) = length es"
    by (simp_all add: gap_values_def freq_values_def ord_values_def)
  show "length (pack (gap_values es) (gap_bits es)) = byte_len (length es) (gap_bits es)"
    "length (pack (freq_values es) (freq_bits es)) = byte_len (length es) (freq_bits es)"
    "length (pack (ord_values es) (ord_bits es)) = byte_len (length es) (ord_bits es)"
    using pack_stream(2) [of "gap_bits es" "gap_values es"] pack_stream(2) [of "freq_bits es" "freq_values es"]
      pack_stream(2) [of "ord_bits es" "ord_values es"] n l by (simp_all add: byte_len_def mult.commute)
qed

text \<open>A block is read back wherever its bytes are.\<close>

definition block_at :: "PostingList \<Rightarrow> Block \<Rightarrow> entry list \<Rightarrow> bool" where
  "block_at l b es \<longleftrightarrow> part_ok es \<and>
     (\<exists>pre rest st. pl_data l = pre @ entry_bytes es @ rest \<and> b = entry_block (length pre) es st)"

lemma block_at_fields:
  assumes "block_at l b es"
  shows "blk_count b = length es" "blk_first b = entry_slot (hd es)" "blk_last b = entry_slot (last es)"
    "max_frequency b = max_u32 (map (snd \<circ> fst) es)" "ordinal_bits b = ord_bits es" "part_ok es"
  using assms by (auto simp: block_at_def entry_block_def)

lemma entry_values_length: "length (gap_values es) = length es" "length (freq_values es) = length es"
proof -
  have "length (deltas p ps) = length ps" for p ps by (induction ps arbitrary: p) auto
  then show "length (gap_values es) = length es" "length (freq_values es) = length es" by (simp_all add: gap_values_def freq_values_def)
qed

lemma gap_slots:
  assumes "part_ok es"
  shows "unpack_values k (pack (gap_values es) (gap_bits es) @ rest) (length es) (gap_bits es) = Some (gap_values es)"
    and "running (of_nat (entry_slot (hd es))) (gap_values es) = map (of_nat \<circ> entry_slot) es"
    and "map unat (map (of_nat \<circ> entry_slot) es :: u64 list) = map entry_slot es"
    and "last (of_nat (entry_slot (hd es)) # map (of_nat \<circ> entry_slot) es) = (of_nat (entry_slot (last es)) :: u64)"
proof -
  note n = entry_values_narrow [OF assms]
  have len: "length es \<le> BLOCK_LEN" and ne: "es \<noteq> []" and srt: "ssorted (map entry_slot es)" using assms by (auto simp: part_ok_def)
  show "unpack_values k (pack (gap_values es) (gap_bits es) @ rest) (length es) (gap_bits es) = Some (gap_values es)"
    using unpack_values_holds [OF holds_packed, of "gap_bits es" "gap_values es" "length es"] n(1,4) entry_values_length len by simp
  have "sorted (entry_slot (hd es) # map entry_slot es)" using ssorted_sorted [OF srt] ne by (cases es) auto
  then show "running (of_nat (entry_slot (hd es))) (gap_values es) = map (of_nat \<circ> entry_slot) es"
    using running_deltas [of "entry_slot (hd es)" "map fst es"] by (simp add: gap_values_def comp_def)
  show "map unat (map (of_nat \<circ> entry_slot) es :: u64 list) = map entry_slot es"
    using assms by (auto simp: part_ok_def unsigned_of_nat take_bit_nat_eq_self)
  show "last (of_nat (entry_slot (hd es)) # map (of_nat \<circ> entry_slot) es) = (of_nat (entry_slot (last es)) :: u64)"
    using ne by (simp add: last_map)
qed

lemma decode_values_at:
  assumes "block_at l b es"
  shows "decode_values k l b out = Some (map fst es @ drop (length es) out)"
proof -
  obtain pre rest st where p: "part_ok es" "pl_data l = pre @ entry_bytes es @ rest" "b = entry_block (length pre) es st"
    using assms by (auto simp: block_at_def)
  note n = entry_values_narrow [OF p(1)]
  let ?G = "pack (gap_values es) (gap_bits es)" and ?F = "pack (freq_values es) (freq_bits es)" and ?O = "pack (ord_values es) (ord_bits es)"
  have len: "length es \<le> BLOCK_LEN" using p(1) by (auto simp: part_ok_def)
  have d1: "drop (length pre) (pl_data l) = ?G @ (?F @ ?O @ rest)" by (simp add: p(2) entry_bytes_def)
  have f: "unpack_values k (?F @ ?O @ rest) (length es) (freq_bits es) = Some (freq_values es)"
    using unpack_values_holds [OF holds_packed, of "freq_bits es" "freq_values es" "length es"] n(2,5) entry_values_length len by simp
  have c: "map ucast (freq_values es) = map (snd \<circ> fst) es" by (simp add: freq_values_def comp_def narrow_wide)
  have z: "zip (map entry_slot es) (map (snd \<circ> fst) es) = map fst es" by (induction es) auto
  have d2: "slice_from (?G @ (?F @ ?O @ rest)) (byte_len (length es) (gap_bits es)) = Some (?F @ ?O @ rest)"
    by (simp add: slice_from_def flip: entry_pack_length(1) [OF p(1)])
  have d3: "slice_from (pl_data l) (length pre) = Some (?G @ (?F @ ?O @ rest))" using d1 by (simp add: slice_from_def p(2))
  show ?thesis
    unfolding decode_values_def p(3) entry_block_def Block.simps d3 option.case gap_slots [OF p(1)] Let_def d2 f c z by simp
qed

lemma ordinal_bytes_at:
  assumes "block_at l b es"
  shows "ordinal_bytes l b = Some (pack (ord_values es) (ord_bits es))"
proof -
  obtain pre rest st where p: "part_ok es" "pl_data l = pre @ entry_bytes es @ rest" "b = entry_block (length pre) es st"
    using assms by (auto simp: block_at_def)
  note n = entry_pack_length [OF p(1), symmetric]
  show ?thesis unfolding ordinal_bytes_def p(2,3) entry_block_def Block.simps n
    by (simp add: Let_def entry_bytes_def sub_slice_def)
qed

lemma decode_ordinals_at:
  assumes "block_at l b es"
  shows "decode_ordinals k l b = Some (map snd es @ replicate (BLOCK_LEN - length es) 0)"
proof -
  have p: "part_ok es" "blk_count b = length es" "ordinal_bits b = ord_bits es" using block_at_fields [OF assms] by auto
  note n = entry_values_narrow [OF p(1)]
  have "holds (ord_bits es) (pack (ord_values es) (ord_bits es)) (ord_values es)" using n by (intro holds_pack) simp_all
  then have "unpack_values k (pack (ord_values es) (ord_bits es)) (length es) (ord_bits es) = Some (ord_values es)"
    using unpack_values_holds [of "ord_bits es" _ "ord_values es" "length es" k] n p(1) by (simp add: ord_values_def part_ok_def)
  moreover have "map ucast (ord_values es) = map snd es" by (simp add: ord_values_def comp_def narrow_wide)
  moreover have "length (ord_values es) = length es" by (simp add: ord_values_def)
  ultimately show ?thesis by (simp add: decode_ordinals_def ordinal_bytes_at [OF assms] p)
qed

lemma first_frequency_at:
  assumes "block_at l b es"
  shows "first_frequency l b = Some (snd (fst (hd es)))"
proof -
  obtain pre rest st where p: "part_ok es" "pl_data l = pre @ entry_bytes es @ rest" "b = entry_block (length pre) es st"
    using assms by (auto simp: block_at_def)
  note n = entry_values_narrow [OF p(1)]
  let ?R = "pack (freq_values es) (freq_bits es) @ (pack (ord_values es) (ord_bits es) @ rest)"
  have "slice_from (pl_data l) (length pre + byte_len (length es) (gap_bits es)) = Some ?R"
    by (simp add: slice_from_def p(2) entry_bytes_def flip: entry_pack_length(1) [OF p(1)])
  moreover have "holds (freq_bits es) ?R (freq_values es)" using n by (intro holds_packed) simp_all
  then have "unpack ?R 0 (freq_bits es) = Some (freq_values es ! 0)"
    using unpack_holds [of "freq_bits es" ?R "freq_values es" 0] n(5) p(1) by (simp add: freq_values_def part_ok_def)
  moreover have "freq_values es ! 0 = ucast (snd (fst (hd es)))" using p(1) by (cases es) (auto simp: freq_values_def part_ok_def)
  ultimately show ?thesis by (simp add: first_frequency_def p(3) entry_block_def narrow_wide)
qed

section \<open>A list of blocks\<close>

text \<open>The blocks of the parts of a list, each with its length bound and frontier, one after the other from an offset on.\<close>

type_synonym part = "entry list \<times> u32 \<times> point list option"

fun layout :: "usize \<Rightarrow> part list \<Rightarrow> Block list" where
  "layout offset [] = []"
| "layout offset ((es, st) # parts) = entry_block offset es st # layout (offset + length (entry_bytes es)) parts"

definition parts_bytes :: "part list \<Rightarrow> u8 list" where
  "parts_bytes parts = concat (map (entry_bytes \<circ> fst) parts)"

lemma parts_bytes_simps [simp]: "parts_bytes [] = []" "parts_bytes (p # ps) = entry_bytes (fst p) @ parts_bytes ps"
  "parts_bytes (ps @ qs) = parts_bytes ps @ parts_bytes qs"
  by (simp_all add: parts_bytes_def)

definition entries :: "part list \<Rightarrow> entry list" where "entries parts = concat (map fst parts)"

lemma entries_simps [simp]: "entries [] = []" "entries (p # ps) = fst p @ entries ps" "entries (ps @ qs) = entries ps @ entries qs"
  by (simp_all add: entries_def)

lemma layout_append: "layout offset (ps @ qs) = layout offset ps @ layout (offset + length (parts_bytes ps)) qs"
  by (induction offset ps rule: layout.induct) (simp_all add: add.assoc)

lemma layout_length [simp]: "length (layout offset ps) = length ps"
  by (induction offset ps rule: layout.induct) simp_all

lemma layout_nth:
  assumes "i < length ps"
  shows "layout offset ps ! i = entry_block (offset + length (parts_bytes (take i ps))) (fst (ps ! i)) (snd (ps ! i))"
proof -
  have "ps = take i ps @ ps ! i # drop (Suc i) ps" using assms by (rule id_take_nth_drop)
  then have "layout offset ps = layout offset (take i ps) @ layout (offset + length (parts_bytes (take i ps))) (ps ! i # drop (Suc i) ps)"
    by (metis layout_append)
  then show ?thesis using assms by (cases "ps ! i") (simp add: nth_append)
qed

definition shift_block :: "nat \<Rightarrow> Block \<Rightarrow> Block" where "shift_block n b = b\<lparr>blk_offset := blk_offset b + n\<rparr>"

lemma layout_shift: "map (shift_block n) (layout offset ps) = layout (offset + n) ps"
proof (induction offset ps rule: layout.induct)
  case (2 offset es st parts)
  have "shift_block n (entry_block offset es st) = entry_block (offset + n) es st" by (simp add: shift_block_def entry_block_def)
  then show ?case using 2 by (simp add: ac_simps)
qed simp

text \<open>A list that holds these parts.\<close>

definition blocks_hold :: "PostingList \<Rightarrow> part list \<Rightarrow> bool" where
  "blocks_hold l parts \<longleftrightarrow> pl_data l = parts_bytes parts \<and> pl_blocks l = layout 0 parts \<and> (\<forall>p \<in> set parts. part_ok (fst p))"

lemma blocks_hold_at:
  assumes "blocks_hold l parts" "i < length parts"
  shows "block_at l (pl_blocks l ! i) (fst (parts ! i))"
proof -
  have "parts = take i parts @ parts ! i # drop (Suc i) parts" using assms(2) by (rule id_take_nth_drop)
  then have "parts_bytes parts = parts_bytes (take i parts) @ entry_bytes (fst (parts ! i)) @ parts_bytes (drop (Suc i) parts)"
    by (metis parts_bytes_simps(2,3))
  then have "pl_data l = parts_bytes (take i parts) @ entry_bytes (fst (parts ! i)) @ parts_bytes (drop (Suc i) parts)"
    "pl_blocks l ! i = entry_block (length (parts_bytes (take i parts))) (fst (parts ! i)) (snd (parts ! i))" "part_ok (fst (parts ! i))"
    using assms layout_nth [OF assms(2), of 0] by (auto simp: blocks_hold_def)
  then show ?thesis unfolding block_at_def by blast
qed

lemma touch_simps [simp]:
  "pl_data (touch l) = pl_data l" "pl_blocks (touch l) = pl_blocks l" "pl_count (touch l) = pl_count l"
  "positive_count (touch l) = positive_count l" "pl_last (touch l) = pl_last l"
  by (simp_all add: touch_def split: option.split)

lemma append_block_ok:
  assumes "blocks_hold l parts" "part_ok es" "ordinals = map snd es \<or> ordinals = [] \<and> (\<forall>e \<in> set es. snd e = 0)"
  obtains l' where "append_block (map fst es) ordinals w fr l = Some l'" "blocks_hold l' (parts @ [(es, w, fr)])"
    "pl_count l' = pl_count l" "positive_count l' = positive_count l" "pl_last l' = pl_last l"
proof -
  have ne: "es \<noteq> []" and len: "length es \<le> 128" using assms(2) by (auto simp: part_ok_def BLOCK_LEN_def)
  have zero: "max_u32 ws = 0" if "\<forall>w \<in> set ws. w = 0" for ws
    using that unfolding max_u32_def by (induction ws) (auto simp: max_def)
  have ob: "bit_width (unat (max_u32 ordinals)) = ord_bits es"
    using assms(3) zero [of "map snd es"] by (auto simp: ord_bits_def max_u32_def)
  have oz: "length ordinals = length es \<or> ord_bits es = 0"
    using assms(3) zero [of "map snd es"] by (auto simp: ord_bits_def bit_width.simps)
  have op: "(if ord_bits es > 0 then pack (map ucast ordinals) (ord_bits es) else []) = pack (ord_values es) (ord_bits es)"
    using assms(3) oz ne by (auto simp: ord_values_def pack_zero comp_def)
  have m: "map snd (map fst es) = map (snd \<circ> fst) es" "hd (map fst es) = fst (hd es)" "last (map fst es) = fst (last es)"
    "map (\<lambda>p. ucast (snd p)) (map fst es) = freq_values es" using ne by (simp_all add: hd_map last_map freq_values_def)
  let ?l = "l\<lparr>pl_data := pl_data l @ entry_bytes es, pl_blocks := pl_blocks l @ [entry_block (length (pl_data l)) es (w, fr)]\<rparr>"
  have "append_block (map fst es) ordinals w fr l = Some (touch ?l)"
    using ne oz len ob op m
    by (simp add: append_block_def Let_def entry_bytes_def entry_block_def gap_bits_def [symmetric] gap_values_def freq_bits_def disj_commute del: map_map)
  moreover have "blocks_hold (touch ?l) (parts @ [(es, w, fr)])"
    using assms(1,2) by (auto simp: blocks_hold_def layout_append)
  ultimately show ?thesis using that by simp
qed

end
