(* ===== verification/PostingCursor.thy ===== *)
theory PostingCursor
  imports PostingBlocks
begin

text \<open>
  The forward cursor over a posting list, \<open>PostingCursor\<close> of \<open>src/core/documents/postings.rs\<close>.  A block is decoded
  only when the cursor needs a posting after its first.  \<open>None\<close> at the outer level stands for a panic.
\<close>

function gallop_from :: "('a \<Rightarrow> bool) \<Rightarrow> 'a list \<Rightarrow> nat \<Rightarrow> nat \<Rightarrow> nat \<times> nat" where
  "gallop_from before items low step =
     (if 0 < step \<and> low + step \<le> length items \<and> before (items ! (low + step - 1))
      then gallop_from before items (low + step) (step * 2) else (low, step))"
  by pat_completeness auto
termination by (relation "measure (\<lambda>(_, items, low, _). length items - low)") auto

declare gallop_from.simps [simp del]

text \<open>The step of the code starts at one and only doubles, so it stays positive.\<close>

definition gallop :: "('a \<Rightarrow> bool) \<Rightarrow> 'a list \<Rightarrow> nat" where
  "gallop before items =
     (case gallop_from before items 0 1 of
        (low, step) \<Rightarrow>
          let high = min (low + step) (length items)
          in low + partition_point before (take (high - low) (drop low items)))"

record PostingCursor =
  cur_block :: usize
  cur_index :: usize
  cur_decoded :: "Posting list"
  cur_length :: usize
  cur_filled :: bool

definition cursor_load :: "PostingList \<Rightarrow> usize \<Rightarrow> PostingCursor \<Rightarrow> PostingCursor option" where
  "cursor_load l block c =
     (let c = c\<lparr>cur_block := block, cur_index := 0, cur_filled := False\<rparr>
      in case slice_get (pl_blocks l) block of
           Some b \<Rightarrow> map_option (\<lambda>f. c\<lparr>cur_length := blk_count b, cur_decoded := (cur_decoded c)[0 := (blk_first b, f)]\<rparr>) (first_frequency l b)
         | None \<Rightarrow> Some (c\<lparr>cur_length := 0\<rparr>))"

definition cursor_new :: "PostingList \<Rightarrow> PostingCursor option" where
  "cursor_new l = cursor_load l 0
     \<lparr>cur_block = 0, cur_index = 0, cur_decoded = replicate BLOCK_LEN (0, 0), cur_length = 0, cur_filled = False\<rparr>"

definition cursor_fill :: "kernel \<Rightarrow> PostingList \<Rightarrow> PostingCursor \<Rightarrow> PostingCursor option" where
  "cursor_fill k l c =
     (if cur_filled c then Some c
      else map_option (\<lambda>d. c\<lparr>cur_decoded := d, cur_filled := True\<rparr>) (decode_block k l (cur_block c) (cur_decoded c)))"

definition cursor_peek :: "PostingCursor \<Rightarrow> Posting option" where
  "cursor_peek c = (if cur_index c < cur_length c then Some (cur_decoded c ! cur_index c) else None)"

fun or_bytes :: "nat \<Rightarrow> u64 \<Rightarrow> u8 list \<Rightarrow> u64" where
  "or_bytes offset v [] = v"
| "or_bytes offset v (b # bs) = or_bytes (offset + 1) (v OR push_bit (offset * 8) (ucast b)) bs"

definition cursor_ordinal :: "PostingList \<Rightarrow> PostingCursor \<Rightarrow> u32 option" where
  "cursor_ordinal l c =
     (case slice_get (pl_blocks l) (cur_block c) of
        None \<Rightarrow> None
      | Some b \<Rightarrow>
          let bits = ordinal_bits b; start = cur_index c * bits
          in case ordinal_bytes l b of
               None \<Rightarrow> None
             | Some bytes \<Rightarrow>
                 let first = start div 8; stop = (start + bits + 7) div 8
                 in if first \<le> stop \<and> stop \<le> length bytes
                    then Some (ucast (drop_bit (start mod 8) (or_bytes 0 0 (sub_slice bytes first (stop - first))) AND (push_bit bits 1 - 1)))
                    else None)"

definition cursor_term_index :: "PostingList \<Rightarrow> PostingCursor \<Rightarrow> usize option" where
  "cursor_term_index l c =
     (case cursor_ordinal l c of None \<Rightarrow> None | Some n \<Rightarrow> if n = 0 then None else Some (unat (n - 1)))"

definition cursor_locate :: "PostingList \<Rightarrow> usize \<Rightarrow> PostingCursor \<Rightarrow> (bool \<times> PostingCursor) option" where
  "cursor_locate l target c =
     (if cur_index c \<ge> cur_length c then Some (False, c)
      else case slice_get (pl_blocks l) (cur_block c) of
             None \<Rightarrow> None
           | Some b \<Rightarrow>
               map_option (\<lambda>c. (cur_length c > 0, c))
                 (if blk_last b < target
                  then let after = cur_block c + 1
                       in cursor_load l (after + gallop (\<lambda>b. blk_last b < target) (drop after (pl_blocks l))) c
                  else Some c))"

definition cursor_range_maximum :: "PostingList \<Rightarrow> usize \<Rightarrow> usize \<Rightarrow> PostingCursor \<Rightarrow> point option" where
  "cursor_range_maximum l from to c =
     (if cur_index c \<ge> cur_length c then None
      else
        let blocks = drop (cur_block c) (pl_blocks l);
            start = partition_point (\<lambda>b. blk_last b < from) blocks;
            ms = map (\<lambda>b. (max_frequency b, min_words b)) (takeWhile (\<lambda>b. blk_first b \<le> to) (drop start blocks))
        in case ms of [] \<Rightarrow> None | m # ms \<Rightarrow> Some (foldl (\<lambda>(f, w) (g, v). (max f g, min w v)) m ms))"

definition cursor_block_end :: "PostingList \<Rightarrow> PostingCursor \<Rightarrow> usize option" where
  "cursor_block_end l c = map_option (\<lambda>_. blk_last (pl_blocks l ! cur_block c)) (cursor_peek c)"

definition cursor_at_block_start :: "PostingCursor \<Rightarrow> bool" where
  "cursor_at_block_start c \<longleftrightarrow> cur_index c = 0 \<and> \<not> cur_filled c \<and> cur_length c > 0"

definition cursor_block_maximum :: "PostingList \<Rightarrow> PostingCursor \<Rightarrow> point option" where
  "cursor_block_maximum l c = map_option (\<lambda>b. (max_frequency b, min_words b)) (slice_get (pl_blocks l) (cur_block c))"

definition cursor_advance :: "kernel \<Rightarrow> PostingList \<Rightarrow> usize \<Rightarrow> PostingCursor \<Rightarrow> (Posting option \<times> PostingCursor) option" where
  "cursor_advance k l target c =
     (if (case cursor_peek c of None \<Rightarrow> True | Some p \<Rightarrow> fst p \<ge> target) then Some (cursor_peek c, c)
      else case cursor_locate l target c of
             None \<Rightarrow> None
           | Some (found, c) \<Rightarrow>
               if \<not> found \<or> fst (cur_decoded c ! 0) \<ge> target \<and> cur_index c = 0 then Some (cursor_peek c, c)
               else map_option (\<lambda>c.
                      let c = c\<lparr>cur_index := cur_index c
                                + gallop (\<lambda>p. fst p < target) (take (cur_length c - cur_index c) (drop (cur_index c) (cur_decoded c)))\<rparr>
                      in (cursor_peek c, c)) (cursor_fill k l c))"

definition cursor_next :: "kernel \<Rightarrow> PostingList \<Rightarrow> PostingCursor \<Rightarrow> (Posting option \<times> PostingCursor) option" where
  "cursor_next k l c =
     (case cursor_peek c of
        None \<Rightarrow> Some (None, c)
      | Some v \<Rightarrow>
          let c = c\<lparr>cur_index := cur_index c + 1\<rparr>
          in map_option (Pair (Some v))
               (if cur_index c = cur_length c then cursor_load l (cur_block c + 1) c else cursor_fill k l c))"

lemma cursor_next_decreases:
  assumes "cursor_next k l c = Some (Some v, c')"
  shows "((length (pl_blocks l) - cur_block c', cur_length c' - cur_index c'), (length (pl_blocks l) - cur_block c, cur_length c - cur_index c))
    \<in> less_than <*lex*> less_than"
  using assms
  by (auto simp: cursor_next_def cursor_peek_def cursor_load_def cursor_fill_def Let_def slice_get_def
      split: option.splits if_splits)

text \<open>Collecting what the cursor yields, and the ordinals of what it yields.\<close>

function cursor_collect :: "kernel \<Rightarrow> PostingList \<Rightarrow> PostingCursor \<Rightarrow> Posting list option" where
  "cursor_collect k l c =
     (case cursor_next k l c of
        None \<Rightarrow> None
      | Some (None, c) \<Rightarrow> Some []
      | Some (Some v, c) \<Rightarrow> map_option ((#) v) (cursor_collect k l c))"
  by pat_completeness auto
termination
  by (relation "inv_image (less_than <*lex*> less_than) (\<lambda>(_, l, c). (length (pl_blocks l) - cur_block c, cur_length c - cur_index c))")
    (auto dest: cursor_next_decreases)

function cursor_ordinals :: "kernel \<Rightarrow> PostingList \<Rightarrow> PostingCursor \<Rightarrow> u32 list option" where
  "cursor_ordinals k l c =
     (case cursor_peek c of
        None \<Rightarrow> Some []
      | Some _ \<Rightarrow>
          (case cursor_ordinal l c of
             None \<Rightarrow> None
           | Some n \<Rightarrow>
               (case cursor_next k l c of
                  None \<Rightarrow> None
                | Some (None, c) \<Rightarrow> None
                | Some (Some v, c) \<Rightarrow> map_option ((#) n) (cursor_ordinals k l c))))"
  by pat_completeness auto
termination
  by (relation "inv_image (less_than <*lex*> less_than) (\<lambda>(_, l, c). (length (pl_blocks l) - cur_block c, cur_length c - cur_index c))")
    (auto dest: cursor_next_decreases)

declare cursor_collect.simps [simp del] cursor_ordinals.simps [simp del]

definition pl_decode :: "kernel \<Rightarrow> PostingList \<Rightarrow> Posting list option" where
  "pl_decode k l = (case cursor_new l of None \<Rightarrow> None | Some c \<Rightarrow> cursor_collect k l c)"

section \<open>Exponential search\<close>

definition partitioned :: "('a \<Rightarrow> bool) \<Rightarrow> 'a list \<Rightarrow> bool" where
  "partitioned P xs \<longleftrightarrow> sorted_wrt (\<lambda>x y. P y \<longrightarrow> P x) xs"

lemma gallop_from_ok:
  assumes "partitioned P xs" "\<forall>x \<in> set (take low xs). P x" "0 < step" "low \<le> length xs"
  shows "case gallop_from P xs low step of (low, step) \<Rightarrow>
    low \<le> length xs \<and> (\<forall>x \<in> set (take low xs). P x) \<and> 0 < step \<and> (low + step \<le> length xs \<longrightarrow> \<not> P (xs ! (low + step - 1)))"
  using assms
proof (induction P xs low step rule: gallop_from.induct)
  case (1 P xs low step)
  show ?case
  proof (cases "low + step \<le> length xs \<and> P (xs ! (low + step - 1))")
    case True
    have "P x" if x: "x \<in> set (take (low + step) xs)" for x
    proof -
      obtain i where i: "i < low + step" "x = xs ! i" "i < length xs" using x by (auto simp: in_set_conv_nth)
      then show ?thesis using "1.prems"(1,3) True sorted_wrt_nth_less [of "\<lambda>x y. P y \<longrightarrow> P x" xs i "low + step - 1"]
        by (cases "i = low + step - 1") (auto simp: partitioned_def)
    qed
    then show ?thesis using 1 True by (subst gallop_from.simps) auto
  next
    case False
    then show ?thesis using "1.prems" by (subst gallop_from.simps) auto
  qed
qed

lemma takeWhile_prefix:
  assumes "0 < n" "n \<le> length ys \<longrightarrow> \<not> P (ys ! (n - 1))"
  shows "takeWhile P (take n ys) = takeWhile P ys"
proof (cases "n \<le> length ys")
  case True
  then have "ys ! (n - 1) \<in> set (take n ys)" using assms(1) by (auto simp: in_set_conv_nth intro!: exI [of _ "n - 1"])
  then have "takeWhile P (take n ys @ drop n ys) = takeWhile P (take n ys)" using assms(2) True by (intro takeWhile_append1) auto
  then show ?thesis by simp
qed simp

lemma gallop_exact:
  assumes "partitioned P xs"
  shows "gallop P xs = length (takeWhile P xs)"
proof -
  obtain low step where g: "gallop_from P xs 0 1 = (low, step)" by (cases "gallop_from P xs 0 1") auto
  have r: "low \<le> length xs" "\<forall>x \<in> set (take low xs). P x" "0 < step" "low + step \<le> length xs \<longrightarrow> \<not> P (xs ! (low + step - 1))"
    using gallop_from_ok [OF assms, of 0 1] g by auto
  have "min (low + step) (length xs) - low = min step (length xs - low)" using r(1) by simp
  then have "take (min (low + step) (length xs) - low) (drop low xs) = take step (drop low xs)" by (simp add: min_def)
  moreover have "takeWhile P (take step (drop low xs)) = takeWhile P (drop low xs)"
    using r(3,4) by (intro takeWhile_prefix) (auto simp: add.commute)
  moreover have "takeWhile P (take low xs @ drop low xs) = take low xs @ takeWhile P (drop low xs)"
    using r(2) by (intro takeWhile_append2) auto
  then have "length (takeWhile P xs) = low + length (takeWhile P (drop low xs))" using r(1) by simp
  ultimately show ?thesis unfolding gallop_def g prod.case Let_def partition_point_def by simp
qed

section \<open>What a cursor has before it\<close>

definition cursor_ok :: "part list \<Rightarrow> PostingCursor \<Rightarrow> bool" where
  "cursor_ok parts c \<longleftrightarrow> length (cur_decoded c) = BLOCK_LEN \<and>
     (if cur_block c < length parts then
        let es = fst (parts ! cur_block c)
        in cur_length c = length es \<and> cur_index c < length es \<and>
           (if cur_filled c then take (length es) (cur_decoded c) = map fst es
            else cur_index c = 0 \<and> cur_decoded c ! 0 = fst (hd es))
      else cur_length c = 0 \<and> cur_index c = 0)"

definition cursor_rest :: "part list \<Rightarrow> PostingCursor \<Rightarrow> entry list" where
  "cursor_rest parts c =
     (if cur_block c < length parts
      then drop (cur_index c) (fst (parts ! cur_block c)) @ entries (drop (Suc (cur_block c)) parts) else [])"

lemma part_at: "blocks_hold l parts \<Longrightarrow> i < length parts \<Longrightarrow> part_ok (fst (parts ! i))"
  by (simp add: blocks_hold_def)

lemma block_get: "blocks_hold l parts \<Longrightarrow> slice_get (pl_blocks l) i = (if i < length parts then Some (pl_blocks l ! i) else None)"
  by (simp add: blocks_hold_def slice_get_def)

lemma cursor_load_ok:
  assumes "blocks_hold l parts" "length (cur_decoded c) = BLOCK_LEN"
  obtains c' where "cursor_load l i c = Some c'" "cursor_ok parts c'" "cursor_rest parts c' = entries (drop i parts)" "cur_block c' = i"
proof (cases "i < length parts")
  case True
  note b = blocks_hold_at [OF assms(1) True] note f = block_at_fields [OF b] note p = part_at [OF assms(1) True]
  let ?es = "fst (parts ! i)"
  let ?c = "c\<lparr>cur_block := i, cur_index := 0, cur_filled := False, cur_length := length ?es, cur_decoded := (cur_decoded c)[0 := fst (hd ?es)]\<rparr>"
  have "cursor_load l i c = Some ?c"
    using True first_frequency_at [OF b] f by (simp add: cursor_load_def block_get [OF assms(1)] Let_def)
  moreover have "cursor_ok parts ?c" using True p assms(2) by (auto simp: cursor_ok_def part_ok_def Let_def BLOCK_LEN_def)
  moreover have "cursor_rest parts ?c = entries (drop i parts)"
    using True by (simp add: cursor_rest_def Cons_nth_drop_Suc [symmetric])
  ultimately show ?thesis using that by simp
next
  case False
  then show ?thesis
    using that [of "c\<lparr>cur_block := i, cur_index := 0, cur_filled := False, cur_length := 0\<rparr>"] assms
    by (simp add: cursor_load_def block_get [OF assms(1)] cursor_ok_def cursor_rest_def)
qed

lemma cursor_peek_ok:
  assumes "blocks_hold l parts" "cursor_ok parts c"
  shows "cursor_peek c = (case cursor_rest parts c of [] \<Rightarrow> None | e # _ \<Rightarrow> Some (fst e))"
proof (cases "cur_block c < length parts")
  case True
  let ?es = "fst (parts ! cur_block c)"
  have c: "cur_length c = length ?es" "cur_index c < length ?es" using assms(2) True by (auto simp: cursor_ok_def Let_def)
  have "cur_decoded c ! cur_index c = fst (?es ! cur_index c)"
  proof (cases "cur_filled c")
    case filled: True
    then have "take (length ?es) (cur_decoded c) = map fst ?es" using assms(2) True by (simp add: cursor_ok_def Let_def)
    then have "take (length ?es) (cur_decoded c) ! cur_index c = map fst ?es ! cur_index c" by simp
    then show ?thesis using c by simp
  next
    case False
    then show ?thesis using assms(2) True c by (auto simp: cursor_ok_def Let_def hd_conv_nth)
  qed
  then show ?thesis using True c by (simp add: cursor_peek_def cursor_rest_def Cons_nth_drop_Suc [symmetric])
next
  case False
  then show ?thesis using assms(2) by (simp add: cursor_ok_def cursor_peek_def cursor_rest_def)
qed

lemma cursor_fill_ok:
  assumes "blocks_hold l parts" "length (cur_decoded c) = BLOCK_LEN" "cur_block c < length parts"
    "cur_length c = length (fst (parts ! cur_block c))" "cur_index c < cur_length c"
    "cur_filled c \<longrightarrow> take (cur_length c) (cur_decoded c) = map fst (fst (parts ! cur_block c))"
  obtains d where "cursor_fill k l c = Some (c\<lparr>cur_decoded := d, cur_filled := True\<rparr>)" "length d = BLOCK_LEN"
    "take (cur_length c) d = map fst (fst (parts ! cur_block c))"
proof (cases "cur_filled c")
  case True
  then show ?thesis using that [of "cur_decoded c"] assms by (simp add: cursor_fill_def)
next
  case False
  have "length (fst (parts ! cur_block c)) \<le> BLOCK_LEN" using part_at [OF assms(1,3)] by (simp add: part_ok_def)
  then show ?thesis
    using that [of "map fst (fst (parts ! cur_block c)) @ drop (length (fst (parts ! cur_block c))) (cur_decoded c)"]
      decode_values_at [OF blocks_hold_at [OF assms(1,3)]] False assms
    by (auto simp: cursor_fill_def decode_block_def blocks_hold_def)
qed

lemma cursor_next_ok:
  assumes "blocks_hold l parts" "cursor_ok parts c"
  shows "\<exists>c'. cursor_next k l c = Some (cursor_peek c, c') \<and> cursor_ok parts c' \<and> cursor_rest parts c' = tl (cursor_rest parts c)"
proof (cases "cur_block c < length parts")
  case True
  let ?es = "fst (parts ! cur_block c)" and ?c = "c\<lparr>cur_index := cur_index c + 1\<rparr>"
  have c: "cur_length c = length ?es" "cur_index c < length ?es" "length (cur_decoded c) = BLOCK_LEN"
    "cur_filled c \<longrightarrow> take (length ?es) (cur_decoded c) = map fst ?es"
    using assms(2) True by (auto simp: cursor_ok_def Let_def)
  obtain v where v: "cursor_peek c = Some v" using c by (simp add: cursor_peek_def)
  have rest: "cursor_rest parts c = ?es ! cur_index c # drop (Suc (cur_index c)) ?es @ entries (drop (Suc (cur_block c)) parts)"
    using True c(2) by (simp add: cursor_rest_def Cons_nth_drop_Suc [symmetric])
  show ?thesis
  proof (cases "cur_index c + 1 = cur_length c")
    case stop: True
    obtain c' where c': "cursor_load l (cur_block c + 1) ?c = Some c'" "cursor_ok parts c'" "cursor_rest parts c' = entries (drop (cur_block c + 1) parts)"
      using cursor_load_ok [OF assms(1), of ?c "cur_block c + 1"] c(3) by auto
    then show ?thesis using v stop rest c(1) by (simp add: cursor_next_def Let_def)
  next
    case False
    obtain d where d: "cursor_fill k l ?c = Some (?c\<lparr>cur_decoded := d, cur_filled := True\<rparr>)" "length d = BLOCK_LEN" "take (length ?es) d = map fst ?es"
      using cursor_fill_ok [OF assms(1), of ?c k] c False True by auto
    then show ?thesis
      using v False rest c True by (auto simp: cursor_next_def Let_def cursor_ok_def cursor_rest_def)
  qed
next
  case False
  then show ?thesis using assms(2) by (simp add: cursor_next_def cursor_peek_def cursor_ok_def cursor_rest_def)
qed

lemma cursor_collect_ok:
  assumes "blocks_hold l parts" "cursor_ok parts c"
  shows "cursor_collect k l c = Some (map fst (cursor_rest parts c))"
  using assms(2)
proof (induction "cursor_rest parts c" arbitrary: c)
  case Nil
  then obtain c' where "cursor_next k l c = Some (None, c')" using cursor_next_ok [OF assms(1), of c k] cursor_peek_ok [OF assms(1), of c] by auto
  then show ?case using Nil by (subst cursor_collect.simps) (simp add: Nil.hyps [symmetric])
next
  case (Cons e es)
  then obtain c' where c': "cursor_next k l c = Some (Some (fst e), c')" "cursor_ok parts c'" "cursor_rest parts c' = es"
    using cursor_next_ok [OF assms(1), of c k] cursor_peek_ok [OF assms(1), of c] by (auto simp: Cons.hyps(2) [symmetric])
  then show ?case using Cons.hyps(1) [of c'] by (subst cursor_collect.simps) (simp add: Cons.hyps(2) [symmetric])
qed

lemma cursor_new_ok:
  assumes "blocks_hold l parts"
  obtains c where "cursor_new l = Some c" "cursor_ok parts c" "cursor_rest parts c = entries parts"
  using cursor_load_ok [OF assms, of "\<lparr>cur_block = 0, cur_index = 0, cur_decoded = replicate BLOCK_LEN (0, 0), cur_length = 0, cur_filled = False\<rparr>" 0]
  by (auto simp: cursor_new_def)

lemma pl_decode_ok: "blocks_hold l parts \<Longrightarrow> pl_decode k l = Some (map fst (entries parts))"
  using cursor_new_ok [of l parts] cursor_collect_ok [of l parts _ k] by (metis (no_types, lifting) option.simps(5) pl_decode_def)

section \<open>Ordinals\<close>

lemma or_bytes_le: "or_bytes i v bs = v OR push_bit (i * 8) (of_le_bytes bs)"
proof (induction bs arbitrary: i v)
  case (Cons b bs)
  have "push_bit (i * 8) (push_bit 8 (of_le_bytes bs :: u64)) = push_bit ((i + 1) * 8) (of_le_bytes bs)"
    by (simp add: push_bit_push_bit algebra_simps)
  then show ?case using Cons by (simp add: push_bit_or or.assoc)
qed simp

lemma byte_span: "s mod 8 + b \<le> 8 * ((s + b + 7) div 8 - s div 8)" for s b :: nat
proof -
  have "s + b + 7 = 8 * (s div 8) + (s mod 8 + b + 7)" by simp
  then have "(s + b + 7) div 8 = s div 8 + (s mod 8 + b + 7) div 8" by (metis div_mult_self4 zero_neq_numeral)
  moreover have "s mod 8 + b \<le> 8 * ((s mod 8 + b + 7) div 8)" by linarith
  ultimately show ?thesis by simp
qed

lemma cursor_ordinal_ok:
  assumes "blocks_hold l parts" "cursor_ok parts c" "cursor_rest parts c = e # es"
  shows "cursor_ordinal l c = Some (snd e)"
proof -
  have i: "cur_block c < length parts" using assms(3) by (auto simp: cursor_rest_def split: if_splits)
  let ?es = "fst (parts ! cur_block c)"
  have x: "cur_index c < length ?es" using assms(2) i by (simp add: cursor_ok_def Let_def)
  then have e: "e = ?es ! cur_index c" using assms(3) i by (simp add: cursor_rest_def Cons_nth_drop_Suc [symmetric])
  note b = blocks_hold_at [OF assms(1) i] note p = part_at [OF assms(1) i] note n = entry_values_narrow [OF p]
  let ?bits = "ord_bits ?es" and ?bs = "pack (ord_values ?es) (ord_bits ?es)"
  let ?start = "cur_index c * ?bits"
  have h: "holds ?bits ?bs (ord_values ?es)" using n by (intro holds_pack) simp_all
  have xl: "cur_index c < length (ord_values ?es)" using x by (simp add: ord_values_def)
  have room: "(?start + ?bits + 7) div 8 \<le> length ?bs" by (rule holds_room [OF h xl])
  have "?start mod 8 + ?bits \<le> 8 * ((?start + ?bits + 7) div 8 - ?start div 8)" by (rule byte_span)
  then have "ucast (drop_bit (?start mod 8) (of_le_bytes (sub_slice ?bs (?start div 8) ((?start + ?bits + 7) div 8 - ?start div 8)) :: u64)
      AND (push_bit ?bits 1 - 1)) = ord_values ?es ! cur_index c"
    using n(6) by (intro window_value [OF h xl]) (auto simp: stream_bit_sub_slice)
  moreover have "ord_values ?es ! cur_index c = ucast (snd e)" using x e by (simp add: ord_values_def)
  moreover have "?start div 8 \<le> (?start + ?bits + 7) div 8" by (intro div_le_mono) simp
  ultimately show ?thesis
    using room block_at_fields(5) [OF b]
    by (simp add: cursor_ordinal_def block_get [OF assms(1)] i ordinal_bytes_at [OF b] Let_def or_bytes_le narrow_wide)
qed

lemma cursor_ordinals_ok:
  assumes "blocks_hold l parts" "cursor_ok parts c"
  shows "cursor_ordinals k l c = Some (map snd (cursor_rest parts c))"
  using assms(2)
proof (induction "cursor_rest parts c" arbitrary: c)
  case Nil
  then show ?case using cursor_peek_ok [OF assms(1), of c] by (subst cursor_ordinals.simps) (simp add: Nil.hyps [symmetric])
next
  case (Cons e es)
  note r = Cons.hyps(2) [symmetric]
  have "cursor_peek c = Some (fst e)" using cursor_peek_ok [OF assms(1) Cons.prems] r by simp
  moreover obtain c' where c': "cursor_next k l c = Some (cursor_peek c, c')" "cursor_ok parts c'" "cursor_rest parts c' = es"
    using cursor_next_ok [OF assms(1) Cons.prems, of k] r by auto
  ultimately show ?case
    using Cons.hyps(1) [of c'] cursor_ordinal_ok [OF assms(1) Cons.prems r] r by (subst cursor_ordinals.simps) simp
qed

section \<open>Skipping ahead\<close>

definition slots_ok :: "part list \<Rightarrow> bool" where
  "slots_ok parts \<longleftrightarrow> (\<forall>p \<in> set parts. part_ok (fst p)) \<and> ssorted (map entry_slot (entries parts))"

abbreviation part_last :: "part \<Rightarrow> usize" where "part_last p \<equiv> entry_slot (last (fst p))"

lemma slots_ok_Cons: "slots_ok (p # ps) \<longleftrightarrow> part_ok (fst p) \<and> slots_ok ps \<and> (\<forall>e \<in> set (fst p). \<forall>f \<in> set (entries ps). entry_slot e < entry_slot f)"
  by (auto simp: slots_ok_def sorted_wrt_append part_ok_def)

lemma part_last_max: "part_ok es \<Longrightarrow> e \<in> set es \<Longrightarrow> entry_slot e \<le> entry_slot (last es)"
  using ssorted_le_last [of "map entry_slot es" "entry_slot e"] by (simp add: part_ok_def last_map)

lemma slots_ok_drop: "slots_ok parts \<Longrightarrow> slots_ok (drop n parts)"
proof (induction n arbitrary: parts)
  case (Suc n)
  then show ?case by (cases parts) (auto simp: slots_ok_Cons)
qed simp

lemma slots_ok_lasts: "slots_ok parts \<Longrightarrow> ssorted (map part_last parts)"
proof (induction parts)
  case (Cons p ps)
  have "last (fst p) \<in> set (fst p)" using Cons.prems by (auto simp: slots_ok_Cons part_ok_def)
  moreover have "last (fst q) \<in> set (entries ps)" if "q \<in> set ps" for q
    using Cons.prems that by (auto simp: slots_ok_def part_ok_def entries_def intro!: bexI [of _ q])
  ultimately show ?case using Cons by (auto simp: slots_ok_Cons)
qed simp

lemma partitioned_keys: "sorted (map f xs) \<Longrightarrow> partitioned (\<lambda>x. f x < t) xs"
  unfolding partitioned_def sorted_wrt_map by (erule sorted_wrt_mono_rel [rotated]) auto

lemma dropWhile_parts:
  assumes "slots_ok parts"
  shows "dropWhile (\<lambda>e. entry_slot e < t) (entries parts)
    = dropWhile (\<lambda>e. entry_slot e < t) (entries (drop (length (takeWhile (\<lambda>p. part_last p < t) parts)) parts))"
  using assms
proof (induction parts)
  case (Cons p ps)
  show ?case
  proof (cases "part_last p < t")
    case True
    then have "\<forall>e \<in> set (fst p). entry_slot e < t" using part_last_max Cons.prems by (fastforce simp: slots_ok_Cons)
    then show ?thesis using Cons True by (simp add: slots_ok_Cons dropWhile_append2)
  qed simp
qed simp

lemma layout_lasts: "map blk_last (layout offset parts) = map part_last parts"
  by (induction offset parts rule: layout.induct) (simp_all add: entry_block_def)

lemma gallop_blocks:
  assumes "blocks_hold l parts" "slots_ok parts"
  shows "gallop (\<lambda>b. blk_last b < t) (drop n (pl_blocks l)) = length (takeWhile (\<lambda>p. part_last p < t) (drop n parts))"
proof -
  have m: "map blk_last (drop n (pl_blocks l)) = map part_last (drop n parts)"
    using assms(1) layout_lasts [of 0 parts] by (simp add: blocks_hold_def drop_map [symmetric])
  then have "partitioned (\<lambda>b. blk_last b < t) (drop n (pl_blocks l))"
    using slots_ok_lasts [OF slots_ok_drop [OF assms(2)], of n] by (intro partitioned_keys) (simp add: ssorted_sorted)
  then have "gallop (\<lambda>b. blk_last b < t) (drop n (pl_blocks l)) = length (takeWhile (\<lambda>s. s < t) (map blk_last (drop n (pl_blocks l))))"
    by (simp add: gallop_exact takeWhile_map comp_def)
  then show ?thesis by (simp add: m takeWhile_map comp_def)
qed

lemma cursor_locate_ok:
  assumes "blocks_hold l parts" "slots_ok parts" "cursor_ok parts c"
  obtains c' where "cursor_locate l t c = Some (cur_block c' < length parts, c')" "cursor_ok parts c'"
    "cur_block c' < length parts \<longrightarrow> t \<le> part_last (parts ! cur_block c')"
    "dropWhile (\<lambda>e. entry_slot e < t) (cursor_rest parts c') = dropWhile (\<lambda>e. entry_slot e < t) (cursor_rest parts c)"
proof (cases "cur_block c < length parts")
  case True
  let ?i = "cur_block c" let ?es = "fst (parts ! ?i)"
  have c: "cur_length c = length ?es" "cur_index c < length ?es" "length (cur_decoded c) = BLOCK_LEN"
    using assms(3) True by (auto simp: cursor_ok_def Let_def)
  note f = block_at_fields [OF blocks_hold_at [OF assms(1) True]]
  show ?thesis
  proof (cases "part_last (parts ! ?i) < t")
    case skip: True
    let ?rest = "drop (?i + 1) parts" let ?n = "length (takeWhile (\<lambda>p. part_last p < t) ?rest)"
    obtain c' where c': "cursor_load l (?i + 1 + ?n) c = Some c'" "cursor_ok parts c'"
      "cursor_rest parts c' = entries (drop (?i + 1 + ?n) parts)" "cur_block c' = ?i + 1 + ?n"
      using cursor_load_ok [OF assms(1) c(3)] by blast
    have len: "cur_length c' > 0 \<longleftrightarrow> cur_block c' < length parts" using c'(2) by (cases "cur_block c' < length parts") (auto simp: cursor_ok_def Let_def)
    have "t \<le> part_last (parts ! (?i + 1 + ?n))" if "?i + 1 + ?n < length parts"
      using nth_length_takeWhile [of "\<lambda>p. part_last p < t" ?rest] that by (simp add: not_less)
    moreover have "\<forall>e \<in> set (drop (cur_index c) ?es). entry_slot e < t"
      using part_last_max [OF f(6)] skip by (meson in_set_dropD le_less_trans)
    then have "dropWhile (\<lambda>e. entry_slot e < t) (cursor_rest parts c) = dropWhile (\<lambda>e. entry_slot e < t) (entries (drop (?i + 1 + ?n) parts))"
      using dropWhile_parts [OF slots_ok_drop [OF assms(2)], of t "?i + 1"] True
      by (simp add: cursor_rest_def dropWhile_append2 add.commute)
    ultimately show ?thesis
      using that [of c'] c' len skip c(1,2) f(3)
      by (simp add: cursor_locate_def block_get [OF assms(1)] True gallop_blocks [OF assms(1,2)] Let_def)
  next
    case False
    then show ?thesis
      using that [of c] c f(3,6) assms(3) True by (auto simp: cursor_locate_def block_get [OF assms(1)] part_ok_def)
  qed
next
  case False
  then show ?thesis using that [of c] assms(3) by (simp add: cursor_locate_def cursor_ok_def)
qed

lemma takeWhile_shorter: "x \<in> set xs \<Longrightarrow> \<not> P x \<Longrightarrow> length (takeWhile P xs) < length xs"
  by (induction xs) auto

lemma cursor_advance_ok:
  assumes "blocks_hold l parts" "slots_ok parts" "cursor_ok parts c"
  shows "\<exists>c'. cursor_advance k l t c = Some (cursor_peek c', c') \<and> cursor_ok parts c' \<and>
    cursor_rest parts c' = dropWhile (\<lambda>e. entry_slot e < t) (cursor_rest parts c)"
proof (cases "case cursor_peek c of None \<Rightarrow> True | Some p \<Rightarrow> fst p \<ge> t")
  case True
  then have "dropWhile (\<lambda>e. entry_slot e < t) (cursor_rest parts c) = cursor_rest parts c"
    using cursor_peek_ok [OF assms(1,3)] by (cases "cursor_rest parts c") auto
  then show ?thesis using True assms(3) by (simp add: cursor_advance_def)
next
  case ahead: False
  obtain c1 where c1: "cursor_locate l t c = Some (cur_block c1 < length parts, c1)" "cursor_ok parts c1"
    "cur_block c1 < length parts \<longrightarrow> t \<le> part_last (parts ! cur_block c1)"
    "dropWhile (\<lambda>e. entry_slot e < t) (cursor_rest parts c1) = dropWhile (\<lambda>e. entry_slot e < t) (cursor_rest parts c)"
    using cursor_locate_ok [OF assms] by blast
  let ?stop = "\<not> cur_block c1 < length parts \<or> fst (cur_decoded c1 ! 0) \<ge> t \<and> cur_index c1 = 0"
  have adv: "cursor_advance k l t c = (if ?stop then Some (cursor_peek c1, c1)
      else map_option (\<lambda>c. let c = c\<lparr>cur_index := cur_index c
                                + gallop (\<lambda>p. fst p < t) (take (cur_length c - cur_index c) (drop (cur_index c) (cur_decoded c)))\<rparr>
                      in (cursor_peek c, c)) (cursor_fill k l c1))"
    using ahead c1(1) by (simp add: cursor_advance_def)
  show ?thesis
  proof (cases ?stop)
    case True
    have "dropWhile (\<lambda>e. entry_slot e < t) (cursor_rest parts c1) = cursor_rest parts c1"
    proof (cases "cur_block c1 < length parts")
      case b: True
      then have i: "cur_index c1 < cur_length c1" "cur_index c1 = 0" using c1(2) True by (auto simp: cursor_ok_def Let_def)
      then have "cursor_peek c1 = Some (cur_decoded c1 ! 0)" by (simp add: cursor_peek_def)
      then show ?thesis using cursor_peek_ok [OF assms(1) c1(2)] True b by (cases "cursor_rest parts c1") auto
    qed (simp add: cursor_rest_def)
    then show ?thesis unfolding adv using True c1 by simp
  next
    case False
    then have b: "cur_block c1 < length parts" by simp
    let ?es = "fst (parts ! cur_block c1)" and ?i = "cur_index c1"
    have c: "cur_length c1 = length ?es" "?i < length ?es" "length (cur_decoded c1) = BLOCK_LEN"
      "cur_filled c1 \<longrightarrow> take (length ?es) (cur_decoded c1) = map fst ?es"
      using c1(2) b by (auto simp: cursor_ok_def Let_def)
    obtain d where d: "cursor_fill k l c1 = Some (c1\<lparr>cur_decoded := d, cur_filled := True\<rparr>)" "length d = BLOCK_LEN" "take (length ?es) d = map fst ?es"
      using cursor_fill_ok [OF assms(1) c(3) b] c by auto
    have p: "part_ok ?es" by (rule part_at [OF assms(1) b])
    let ?tail = "drop ?i ?es" let ?n = "length (takeWhile (\<lambda>e. entry_slot e < t) ?tail)"
    have "take (length ?es - ?i) (drop ?i d) = map fst ?tail" using d(3) by (metis drop_map drop_take)
    moreover have "sorted (map fst (map fst ?tail))" using p ssorted_sorted [OF ssorted_drop, of "map entry_slot ?es" ?i]
      by (simp add: part_ok_def drop_map comp_def)
    then have "gallop (\<lambda>p. fst p < t) (map fst ?tail) = ?n"
      by (simp add: gallop_exact partitioned_keys takeWhile_map comp_def)
    ultimately have g: "gallop (\<lambda>p. fst p < t) (take (length ?es - ?i) (drop ?i d)) = ?n" by simp
    have lst: "last ?es \<in> set ?tail" "\<not> entry_slot (last ?es) < t" using c(2) c1(3) b by (auto simp: last_drop [symmetric] simp del: last_drop)
    have "?n < length ?tail" using lst by (rule takeWhile_shorter)
    then have n: "?i + ?n < length ?es" by simp
    have "drop (?i + ?n) ?es = dropWhile (\<lambda>e. entry_slot e < t) ?tail"
      by (simp add: dropWhile_eq_drop add.commute)
    then have "drop (?i + ?n) ?es @ entries (drop (Suc (cur_block c1)) parts) = dropWhile (\<lambda>e. entry_slot e < t) (cursor_rest parts c1)"
      using b dropWhile_append1 [OF lst(1), of "\<lambda>e. entry_slot e < t"] lst(2) by (simp add: cursor_rest_def)
    moreover let ?c = "c1\<lparr>cur_decoded := d, cur_filled := True, cur_index := ?i + ?n\<rparr>"
    have "cursor_ok parts ?c" "cursor_rest parts ?c = drop (?i + ?n) ?es @ entries (drop (Suc (cur_block c1)) parts)"
      using b n c d by (simp_all add: cursor_ok_def cursor_rest_def)
    moreover have "cursor_advance k l t c = Some (cursor_peek ?c, ?c)"
      unfolding adv if_not_P [OF False] using d(1) c(1) g by (simp add: Let_def)
    ultimately show ?thesis using c1(4) by auto
  qed
qed

end
