(* ===== verification/PostingEdits.thy ===== *)
theory PostingEdits
  imports PostingCursor
begin

text \<open>
  The edits of a posting list, \<open>PostingList\<close> of \<open>src/core/documents/postings.rs\<close>: appending a run, inserting and
  removing a posting, changing an entry, and what a query reads of the whole list.  \<open>words\<close> gives the length of
  the chunk in a slot.  \<open>None\<close> stands for a panic; counters wrap like \<open>u32\<close> does in a release build.
\<close>

definition MIN_BLOCK_LEN :: nat where "MIN_BLOCK_LEN = BLOCK_LEN div 4"

function slice_chunks :: "nat \<Rightarrow> 'a list \<Rightarrow> 'a list list" where
  "slice_chunks n xs = (if n = 0 \<or> xs = [] then [] else take n xs # slice_chunks n (drop n xs))"
  by pat_completeness auto
termination by (relation "measure (\<lambda>(_, xs). length xs)") auto

declare slice_chunks.simps [simp del]

fun merge_sorted :: "Posting list \<Rightarrow> Posting list \<Rightarrow> Posting list option" where
  "merge_sorted [] b = Some b"
| "merge_sorted a [] = Some a"
| "merge_sorted (p # a) (q # b) =
     (if fst p < fst q then map_option ((#) p) (merge_sorted a (q # b))
      else if fst q < fst p then map_option ((#) q) (merge_sorted (p # a) b)
      else None)"

definition points_of :: "(usize \<Rightarrow> u32) \<Rightarrow> Posting list \<Rightarrow> point list" where
  "points_of words ps = map (\<lambda>p. (snd p, words (fst p))) ps"

definition least_words :: "(usize \<Rightarrow> u32) \<Rightarrow> Posting list \<Rightarrow> u32" where
  "least_words words ps = (case map (\<lambda>p. words (fst p)) ps of [] \<Rightarrow> 0 | w # ws \<Rightarrow> foldl min w ws)"

definition positives :: "Posting list \<Rightarrow> u32" where
  "positives ps = of_nat (length (filter (\<lambda>p. snd p > 0) ps))"

section \<open>Encoding whole lists\<close>

definition ordinal_range :: "u32 list \<Rightarrow> nat \<Rightarrow> nat \<Rightarrow> u32 list" where
  "ordinal_range ordinals start n = (if start + n \<le> length ordinals then take n (drop start ordinals) else [])"

fun append_chunks :: "(usize \<Rightarrow> u32) \<Rightarrow> u32 list \<Rightarrow> nat \<Rightarrow> Posting list list \<Rightarrow> PostingList \<Rightarrow> PostingList option" where
  "append_chunks words ordinals start [] l = Some l"
| "append_chunks words ordinals start (block # blocks) l =
     (case frontier (points_of words block) of
        None \<Rightarrow> None
      | Some fr \<Rightarrow>
          (case append_block block (ordinal_range ordinals start (length block)) (least_words words block) fr l of
             None \<Rightarrow> None
           | Some l \<Rightarrow> append_chunks words ordinals (start + BLOCK_LEN) blocks l))"

definition encode_with_ordinals :: "Posting list \<Rightarrow> u32 list \<Rightarrow> (usize \<Rightarrow> u32) \<Rightarrow> PostingList \<Rightarrow> PostingList option" where
  "encode_with_ordinals postings ordinals words l =
     (if ordinals = [] \<or> length ordinals = length postings then
        case append_chunks words ordinals 0 (slice_chunks BLOCK_LEN postings) (touch (l\<lparr>pl_data := [], pl_blocks := []\<rparr>)) of
          None \<Rightarrow> None
        | Some l \<Rightarrow>
            if length postings < 2 ^ 32
            then Some (l\<lparr>pl_count := of_nat (length postings), positive_count := positives postings,
                   pl_last := (if postings = [] then 0 else of_nat (fst (last postings)))\<rparr>)
            else None
      else None)"

definition pl_encode :: "Posting list \<Rightarrow> (usize \<Rightarrow> u32) \<Rightarrow> PostingList \<Rightarrow> PostingList option" where
  "pl_encode postings words l = encode_with_ordinals postings [] words l"

section \<open>Rewriting one block\<close>

fun scratch_blocks :: "(usize \<Rightarrow> u32) \<Rightarrow> u32 list \<Rightarrow> nat \<Rightarrow> nat \<Rightarrow> Posting list list \<Rightarrow> PostingList \<Rightarrow> PostingList option" where
  "scratch_blocks words ordinals width part [] l = Some l"
| "scratch_blocks words ordinals width part (run # runs) l =
     (if part * width + length run \<le> length ordinals then
        case frontier (points_of words run) of
          None \<Rightarrow> None
        | Some fr \<Rightarrow>
            (case append_block run (take (length run) (drop (part * width) ordinals)) (least_words words run) fr l of
               None \<Rightarrow> None
             | Some l \<Rightarrow> scratch_blocks words ordinals width (part + 1) runs l)
      else None)"

definition rewrite_block :: "nat \<Rightarrow> Posting list \<Rightarrow> u32 list \<Rightarrow> (usize \<Rightarrow> u32) \<Rightarrow> PostingList \<Rightarrow> PostingList option" where
  "rewrite_block i postings ordinals words l =
     (if i < length (pl_blocks l) then
        let start = blk_offset (pl_blocks l ! i);
            stop = (case slice_get (pl_blocks l) (i + 1) of None \<Rightarrow> length (pl_data l) | Some b \<Rightarrow> blk_offset b);
            width = (if length postings > BLOCK_LEN then (length postings + 1) div 2 else BLOCK_LEN)
        in case scratch_blocks words ordinals width 0 (slice_chunks width postings) pl_default of
             None \<Rightarrow> None
           | Some scratch \<Rightarrow>
               if start \<le> stop \<and> stop \<le> length (pl_data l) then
                 Some (touch (l\<lparr>
                   pl_data := take start (pl_data l) @ pl_data scratch @ drop stop (pl_data l),
                   pl_blocks := take i (pl_blocks l)
                     @ map (\<lambda>b. b\<lparr>blk_offset := blk_offset b + start\<rparr>) (pl_blocks scratch)
                     @ map (\<lambda>b. b\<lparr>blk_offset := blk_offset b - (stop - start) + length (pl_data scratch)\<rparr>) (drop (i + 1) (pl_blocks l))\<rparr>))
               else None
      else None)"

definition zero_block :: "Posting list" where "zero_block = replicate BLOCK_LEN (0, 0)"

definition pl_insert :: "kernel \<Rightarrow> Posting \<Rightarrow> u32 \<Rightarrow> (usize \<Rightarrow> u32) \<Rightarrow> PostingList \<Rightarrow> PostingList option" where
  "pl_insert k posting ordinal words l =
     (let block = partition_point (\<lambda>b. blk_last b < fst posting) (pl_blocks l)
      in case decode_block_into k l block zero_block of
           None \<Rightarrow> None
         | Some (decoded, n) \<Rightarrow>
             (case slice_binary_search (map fst (take n decoded)) (fst posting) of
                Inr _ \<Rightarrow> None
              | Inl i \<Rightarrow>
                  (case decode_ordinals k l (pl_blocks l ! block) of
                     None \<Rightarrow> None
                   | Some ordinals \<Rightarrow>
                       map_option (\<lambda>l. l\<lparr>pl_count := pl_count l + 1, positive_count := positive_count l + (if snd posting > 0 then 1 else 0)\<rparr>)
                         (rewrite_block block (vec_insert i posting (take n decoded)) (vec_insert i ordinal (take n ordinals)) words l))))"

definition block_of :: "kernel \<Rightarrow> PostingList \<Rightarrow> usize \<Rightarrow> (nat \<times> Posting list \<times> nat) option" where
  "block_of k l slot =
     (let block = partition_point (\<lambda>b. blk_last b < slot) (pl_blocks l)
      in if block < length (pl_blocks l) then map_option (Pair block) (decode_block_into k l block zero_block) else None)"

definition pl_remove :: "kernel \<Rightarrow> usize \<Rightarrow> (usize \<Rightarrow> u32) \<Rightarrow> PostingList \<Rightarrow> PostingList option" where
  "pl_remove k slot words l =
     (case block_of k l slot of
        None \<Rightarrow> None
      | Some (block, decoded, n) \<Rightarrow>
          if n \<le> MIN_BLOCK_LEN \<and> block + 1 < length (pl_blocks l) then
            case pl_decode k l of
              None \<Rightarrow> None
            | Some postings \<Rightarrow>
                (case slice_binary_search (map fst postings) slot of
                   Inl _ \<Rightarrow> None
                 | Inr i \<Rightarrow>
                     (case cursor_new l of
                        None \<Rightarrow> None
                      | Some c \<Rightarrow>
                          (case cursor_ordinals k l c of
                             None \<Rightarrow> None
                           | Some ordinals \<Rightarrow> encode_with_ordinals (vec_remove i postings) (vec_remove i ordinals) words l)))
          else
            case slice_binary_search (map fst (take n decoded)) slot of
              Inl _ \<Rightarrow> None
            | Inr i \<Rightarrow>
                (case decode_ordinals k l (pl_blocks l ! block) of
                   None \<Rightarrow> None
                 | Some ordinals \<Rightarrow>
                     map_option (\<lambda>r.
                       let r = r\<lparr>pl_count := pl_count r - 1, positive_count := positive_count r - (if snd (decoded ! i) > 0 then 1 else 0),
                                 pl_last := (if pl_blocks r = [] then 0 else of_nat (blk_last (last (pl_blocks r))))\<rparr>
                       in if pl_count r = 0 then touch (r\<lparr>pl_data := [], pl_blocks := []\<rparr>) else r)
                       (rewrite_block block (vec_remove i (take n decoded)) (vec_remove i (take n ordinals)) words l)))"

definition pl_set_entry :: "kernel \<Rightarrow> usize \<Rightarrow> u32 \<Rightarrow> u32 option \<Rightarrow> (usize \<Rightarrow> u32) \<Rightarrow> PostingList \<Rightarrow> PostingList option" where
  "pl_set_entry k slot frequency ordinal words l =
     (case block_of k l slot of
        None \<Rightarrow> None
      | Some (block, decoded, n) \<Rightarrow>
          (case slice_binary_search (map fst (take n decoded)) slot of
             Inl _ \<Rightarrow> None
           | Inr i \<Rightarrow>
               (case decode_ordinals k l (pl_blocks l ! block) of
                  None \<Rightarrow> None
                | Some ordinals \<Rightarrow>
                    if frequency = snd (decoded ! i) \<and> (case ordinal of None \<Rightarrow> True | Some m \<Rightarrow> m = ordinals ! i) then Some l
                    else
                      let ordinals = (case ordinal of None \<Rightarrow> ordinals | Some m \<Rightarrow> ordinals[i := m]);
                          previous = snd (decoded ! i);
                          decoded = decoded[i := (fst (decoded ! i), frequency)];
                          l = l\<lparr>positive_count := positive_count l - (if previous > 0 then 1 else 0) + (if frequency > 0 then 1 else 0)\<rparr>
                      in rewrite_block block (take n decoded) (take n ordinals) words l)))"

definition invalidate_length :: "usize \<Rightarrow> PostingList \<Rightarrow> PostingList option" where
  "invalidate_length slot l =
     (let block = partition_point (\<lambda>b. blk_last b < slot) (pl_blocks l)
      in if block < length (pl_blocks l)
         then Some (touch (l\<lparr>pl_blocks := (pl_blocks l)[block := (pl_blocks l ! block)\<lparr>min_words := 0, blk_frontier := None\<rparr>]\<rparr>))
         else None)"

section \<open>Appending a run\<close>

fun merge_ordinals :: "kernel \<Rightarrow> PostingList \<Rightarrow> Posting list \<Rightarrow> u32 list \<Rightarrow> nat \<Rightarrow> PostingCursor \<Rightarrow> Posting list \<Rightarrow> u32 list option" where
  "merge_ordinals k l run ordinals pos c [] = Some []"
| "merge_ordinals k l run ordinals pos c (p # merged) =
     (if pos < length run \<and> fst (run ! pos) = fst p
      then map_option ((#) (if pos < length ordinals then ordinals ! pos else 0))
             (merge_ordinals k l run ordinals (pos + 1) c merged)
      else case cursor_advance k l (fst p) c of
             None \<Rightarrow> None
           | Some (found, c) \<Rightarrow>
               if map_option fst found = Some (fst p)
               then case cursor_ordinal l c of
                      None \<Rightarrow> None
                    | Some m \<Rightarrow> map_option ((#) m) (merge_ordinals k l run ordinals pos c merged)
               else None)"

text \<open>The last block, when it is not full, is taken off and filled up first; the result has the postings it took.\<close>

definition fill_last :: "kernel \<Rightarrow> Posting list \<Rightarrow> u32 list \<Rightarrow> (usize \<Rightarrow> u32) \<Rightarrow> PostingList \<Rightarrow> (PostingList \<times> nat) option" where
  "fill_last k run ordinals words l =
     (if pl_blocks l \<noteq> [] \<and> blk_count (last (pl_blocks l)) < BLOCK_LEN then
        let b = last (pl_blocks l); l = l\<lparr>pl_blocks := butlast (pl_blocks l)\<rparr>
        in case (decode_values k l b zero_block, decode_ordinals k l b) of
             (Some decoded, Some block_ordinals) \<Rightarrow>
               let old = blk_count b;
                   taken = min (BLOCK_LEN - old) (length run);
                   decoded = take old decoded @ take taken run;
                   block_ordinals = take old block_ordinals @ (if ordinals \<noteq> [] then take taken ordinals else take taken (drop old block_ordinals));
                   words' = min (least_words words (take taken run)) (min_words b);
                   old_points = (case blk_frontier b of Some f \<Rightarrow> f | None \<Rightarrow> [(max_frequency b, min_words b)])
               in (case frontier (old_points @ points_of words (take taken run)) of
                     None \<Rightarrow> None
                   | Some fr \<Rightarrow>
                       map_option (\<lambda>l. (l, taken))
                         (append_block decoded block_ordinals words' fr (l\<lparr>pl_data := take (blk_offset b) (pl_data l)\<rparr>)))
           | _ \<Rightarrow> None
      else Some (l, 0))"

definition append_run_with_ordinals :: "kernel \<Rightarrow> Posting list \<Rightarrow> u32 list \<Rightarrow> (usize \<Rightarrow> u32) \<Rightarrow> PostingList \<Rightarrow> PostingList option" where
  "append_run_with_ordinals k run ordinals words l =
     (if ordinals = [] \<or> length ordinals = length run then
        if run = [] then Some l
        else if pl_count l > 0 \<and> of_nat (fst (hd run)) \<le> pl_last l then
          if length run = 1 then pl_insert k (hd run) (case ordinals of [] \<Rightarrow> 0 | m # _ \<Rightarrow> m) words l
          else case pl_decode k l of
                 None \<Rightarrow> None
               | Some old \<Rightarrow>
                   (case merge_sorted old run of
                      None \<Rightarrow> None
                    | Some merged \<Rightarrow>
                        (case cursor_new l of
                           None \<Rightarrow> None
                         | Some c \<Rightarrow>
                             (case merge_ordinals k l run ordinals 0 c merged of
                                None \<Rightarrow> None
                              | Some ms \<Rightarrow> encode_with_ordinals merged ms words l)))
        else
          case fill_last k run ordinals words l of
            None \<Rightarrow> None
          | Some (l, start) \<Rightarrow>
              (case append_chunks words ordinals start (slice_chunks BLOCK_LEN (drop start run)) l of
                 None \<Rightarrow> None
               | Some l \<Rightarrow>
                   if unat (pl_count l) + length run < 2 ^ 32
                   then Some (l\<lparr>pl_count := of_nat (unat (pl_count l) + length run), positive_count := positive_count l + positives run,
                          pl_last := of_nat (fst (last run))\<rparr>)
                   else None)
      else None)"

section \<open>What queries read\<close>

definition pl_for_each :: "kernel \<Rightarrow> PostingList \<Rightarrow> ('s \<Rightarrow> Posting \<Rightarrow> 's) \<Rightarrow> 's \<Rightarrow> 's option" where
  "pl_for_each k l f s = map_option fst (
     foldl (\<lambda>acc b. case acc of
         None \<Rightarrow> None
       | Some (s, decoded) \<Rightarrow>
           map_option (\<lambda>decoded. (foldl f s (take (blk_count b) decoded), decoded)) (decode_values k l b decoded))
       (Some (s, zero_block)) (pl_blocks l))"

definition block_maxima :: "PostingList \<Rightarrow> point" where
  "block_maxima l = foldl (\<lambda>(f, w) b. (max f (max_frequency b), min w (min_words b))) (0, 0xFFFFFFFF) (pl_blocks l)"

text \<open>A summary cell is filled by the first query that needs it and read by later ones.\<close>

definition pl_maxima :: "PostingList \<Rightarrow> point \<times> PostingList" where
  "pl_maxima l =
     (case pl_summary l of
        None \<Rightarrow> (block_maxima l, l)
      | Some s \<Rightarrow>
          (case sum_maxima s of
             Some m \<Rightarrow> (m, l)
           | None \<Rightarrow> (block_maxima l, l\<lparr>pl_summary := Some (s\<lparr>sum_maxima := Some (block_maxima l)\<rparr>)\<rparr>)))"

definition block_points :: "Block \<Rightarrow> point list" where
  "block_points b = (case blk_frontier b of Some f \<Rightarrow> f | None \<Rightarrow> [(max_frequency b, min_words b)])"

definition run_frontiers :: "PostingList \<Rightarrow> point list list" where
  "run_frontiers l = map (\<lambda>run. pareto (concat (map block_points run))) (slice_chunks SUPER_LEN (pl_blocks l))"

definition pl_runs :: "PostingList \<Rightarrow> point list list option \<times> PostingList" where
  "pl_runs l =
     (case pl_summary l of
        None \<Rightarrow> (None, l)
      | Some s \<Rightarrow>
          (case sum_runs s of
             Some r \<Rightarrow> (Some r, l)
           | None \<Rightarrow> (Some (run_frontiers l), l\<lparr>pl_summary := Some (s\<lparr>sum_runs := Some (run_frontiers l)\<rparr>)\<rparr>)))"

section \<open>Bounds that cover a block\<close>

definition covers :: "(usize \<Rightarrow> u32) \<Rightarrow> part \<Rightarrow> bool" where
  "covers words p \<longleftrightarrow> (case p of (es, w, fr) \<Rightarrow>
     w \<noteq> 0xFFFFFFFF \<and> (\<forall>e \<in> set es. w \<le> words (entry_slot e)) \<and>
     (case fr of None \<Rightarrow> True
      | Some kept \<Rightarrow> length kept \<le> length es \<and> (\<forall>q \<in> set kept. snd q \<noteq> 0xFFFFFFFF) \<and>
          (\<forall>e \<in> set es. snd (fst e) > 0 \<longrightarrow> (\<exists>q \<in> set kept. dominates q (snd (fst e), words (entry_slot e))))))"

definition words_ok :: "(usize \<Rightarrow> u32) \<Rightarrow> bool" where "words_ok words \<longleftrightarrow> (\<forall>s. words s \<noteq> 0xFFFFFFFF)"

lemma foldl_min: "foldl min w ws \<in> insert w (set ws)" "v \<in> insert w (set ws) \<Longrightarrow> foldl min w ws \<le> (v :: 'a::linorder)"
proof -
  show "foldl min w ws \<in> insert w (set ws)"
  proof (induction ws arbitrary: w)
    case (Cons x ws)
    then show ?case using Cons.IH [of "min w x"] by (auto simp: min_def split: if_splits)
  qed simp
  show "v \<in> insert w (set ws) \<Longrightarrow> foldl min w ws \<le> v"
  proof (induction ws arbitrary: w v)
    case (Cons x ws)
    have "foldl min (min w x) ws \<le> min w x" by (rule Cons.IH) simp
    moreover have "foldl min (min w x) ws \<le> v" if "v \<in> set ws" using that by (intro Cons.IH) simp
    ultimately show ?case using Cons.prems by auto
  qed auto
qed

lemma least_words_ok:
  assumes "ps \<noteq> []"
  shows "least_words words ps \<in> (\<lambda>p. words (fst p)) ` set ps" "p \<in> set ps \<Longrightarrow> least_words words ps \<le> words (fst p)"
proof -
  obtain q qs where q: "ps = q # qs" using assms by (cases ps) auto
  have l: "least_words words ps = foldl min (words (fst q)) (map (\<lambda>p. words (fst p)) qs)" by (simp add: least_words_def q)
  show "least_words words ps \<in> (\<lambda>p. words (fst p)) ` set ps"
    using foldl_min(1) [of "words (fst q)" "map (\<lambda>p. words (fst p)) qs"] unfolding l by (auto simp: q)
  show "p \<in> set ps \<Longrightarrow> least_words words ps \<le> words (fst p)"
    unfolding l by (rule foldl_min(2)) (auto simp: q)
qed

lemma fresh_covers:
  assumes "part_ok es" "words_ok words"
  obtains fr where "frontier (points_of words (map fst es)) = Some fr" "covers words (es, least_words words (map fst es), fr)"
proof -
  let ?ps = "points_of words (map fst es)"
  have "length ?ps \<le> BLOCK_LEN" "\<forall>p \<in> set ?ps. snd p \<noteq> 0xFFFFFFFF" using assms by (auto simp: part_ok_def points_of_def words_ok_def)
  then obtain fr where fr: "frontier ?ps = Some fr" "\<forall>kept. fr = Some kept \<longrightarrow> is_frontier ?ps kept" using frontier_ok by blast
  have ne: "map fst es \<noteq> []" using assms(1) by (simp add: part_ok_def)
  have "least_words words (map fst es) \<noteq> 0xFFFFFFFF" using least_words_ok(1) [OF ne, of words] assms(2) by (auto simp: words_ok_def)
  moreover have "least_words words (map fst es) \<le> words (entry_slot e)" if "e \<in> set es" for e
    using least_words_ok(2) [OF ne, of "fst e" words] that by simp
  moreover have "length kept \<le> length es \<and> (\<forall>q \<in> set kept. snd q \<noteq> 0xFFFFFFFF) \<and>
      (\<forall>e \<in> set es. snd (fst e) > 0 \<longrightarrow> (\<exists>q \<in> set kept. dominates q (snd (fst e), words (entry_slot e))))" if "fr = Some kept" for kept
  proof -
    have k: "is_frontier ?ps kept" using fr(2) that by blast
    have "\<forall>q \<in> set kept. snd q \<noteq> 0xFFFFFFFF" using k assms(2) by (auto simp: is_frontier_def points_of_def words_ok_def)
    moreover have "(snd (fst e), words (entry_slot e)) \<in> set ?ps" if "e \<in> set es" for e using that by (force simp: points_of_def)
    ultimately show ?thesis using k by (auto simp: is_frontier_def points_of_def)
  qed
  ultimately have "covers words (es, least_words words (map fst es), fr)" by (auto simp: covers_def split: option.split)
  then show ?thesis using that fr(1) by blast
qed

section \<open>Appending blocks\<close>

definition run_ok :: "entry list \<Rightarrow> bool" where
  "run_ok es \<longleftrightarrow> ssorted (map entry_slot es) \<and> (\<forall>e \<in> set es. entry_slot e < 2 ^ 64)"

lemma run_ok_take: "run_ok es \<Longrightarrow> run_ok (take n es)" "run_ok es \<Longrightarrow> run_ok (drop n es)"
  by (auto simp: run_ok_def take_map [symmetric] drop_map [symmetric] ssorted_take ssorted_drop dest: in_set_takeD in_set_dropD)

lemma run_ok_part: "run_ok es \<Longrightarrow> es \<noteq> [] \<Longrightarrow> length es \<le> BLOCK_LEN \<Longrightarrow> part_ok es"
  by (simp add: run_ok_def part_ok_def)

text \<open>The ordinals of a run are all given, or none is and all are zero.\<close>

definition ordinals_for :: "u32 list \<Rightarrow> entry list \<Rightarrow> bool" where
  "ordinals_for ordinals es \<longleftrightarrow> ordinals = map snd es \<or> ordinals = [] \<and> (\<forall>e \<in> set es. snd e = 0)"

definition same_counts :: "PostingList \<Rightarrow> PostingList \<Rightarrow> bool" where
  "same_counts l m \<longleftrightarrow> pl_count m = pl_count l \<and> positive_count m = positive_count l \<and> pl_last m = pl_last l"

lemma append_chunks_ok:
  assumes "blocks_hold l parts" "run_ok es" "words_ok words"
    "ordinals = [] \<and> (\<forall>e \<in> set es. snd e = 0) \<or> es = [] \<or> start \<le> length ordinals \<and> drop start ordinals = map snd es"
  shows "\<exists>l' new. append_chunks words ordinals start (slice_chunks BLOCK_LEN (map fst es)) l = Some l' \<and>
    blocks_hold l' (parts @ new) \<and> entries new = es \<and> (\<forall>p \<in> set new. covers words p) \<and> same_counts l l'"
  using assms
proof (induction "length es" arbitrary: es l parts start rule: less_induct)
  case less
  show ?case
  proof (cases "es = []")
    case True
    then show ?thesis using less.prems(1) by (intro exI [of _ l] exI [of _ "[]"]) (simp add: slice_chunks.simps same_counts_def)
  next
    case False
    let ?a = "take BLOCK_LEN es" and ?b = "drop BLOCK_LEN es"
    have pos: "BLOCK_LEN > 0" by (simp add: BLOCK_LEN_def)
    have pa: "part_ok ?a" using run_ok_part [OF run_ok_take(1) [OF less.prems(2)]] False pos by simp
    have sc: "slice_chunks BLOCK_LEN (map fst es) = map fst ?a # slice_chunks BLOCK_LEN (map fst ?b)"
      using False pos by (subst slice_chunks.simps) (simp add: take_map drop_map)
    obtain fr where fr: "frontier (points_of words (map fst ?a)) = Some fr" "covers words (?a, least_words words (map fst ?a), fr)"
      using fresh_covers [OF pa less.prems(3)] by blast
    have o: "ordinal_range ordinals start (length (map fst ?a)) = map snd ?a \<or>
        ordinal_range ordinals start (length (map fst ?a)) = [] \<and> (\<forall>e \<in> set ?a. snd e = 0)"
    proof (cases "start \<le> length ordinals \<and> drop start ordinals = map snd es")
      case True
      then have "length ordinals - start = length es" by (metis length_drop length_map)
      then show ?thesis using True by (auto simp: ordinal_range_def take_map min_def)
    next
      case f: False
      then have "ordinals = []" "\<forall>e \<in> set ?a. snd e = 0" using less.prems(4) False by (auto dest: in_set_takeD)
      then show ?thesis by (simp add: ordinal_range_def)
    qed
    obtain l1 where l1: "append_block (map fst ?a) (ordinal_range ordinals start (length (map fst ?a))) (least_words words (map fst ?a)) fr l = Some l1"
      "blocks_hold l1 (parts @ [(?a, least_words words (map fst ?a), fr)])"
      "pl_count l1 = pl_count l" "positive_count l1 = positive_count l" "pl_last l1 = pl_last l"
      using append_block_ok [OF less.prems(1) pa o] by blast
    have o2: "ordinals = [] \<and> (\<forall>e \<in> set ?b. snd e = 0) \<or> ?b = [] \<or> start + BLOCK_LEN \<le> length ordinals \<and> drop (start + BLOCK_LEN) ordinals = map snd ?b"
    proof (cases "start \<le> length ordinals \<and> drop start ordinals = map snd es")
      case True
      then have "length ordinals - start = length es" "drop (start + BLOCK_LEN) ordinals = map snd ?b"
        by (metis length_drop length_map, metis add.commute drop_drop drop_map)
      then show ?thesis using True by auto
    next
      case f: False
      then show ?thesis using less.prems(4) False by (auto dest: in_set_dropD)
    qed
    have shorter: "length ?b < length es" using False pos by simp
    obtain l2 new where l2: "append_chunks words ordinals (start + BLOCK_LEN) (slice_chunks BLOCK_LEN (map fst ?b)) l1 = Some l2"
      "blocks_hold l2 ((parts @ [(?a, least_words words (map fst ?a), fr)]) @ new)" "entries new = ?b" "\<forall>p \<in> set new. covers words p" "same_counts l1 l2"
      using less.hyps [OF _ l1(2) run_ok_take(2) [OF less.prems(2)] less.prems(3) o2] shorter by blast
    show ?thesis
      using fr l1 l2 by (intro exI [of _ l2] exI [of _ "(?a, least_words words (map fst ?a), fr) # new"]) (simp add: sc same_counts_def)
  qed
qed

section \<open>Lists that hold postings\<close>

definition summary_ok :: "PostingList \<Rightarrow> bool" where
  "summary_ok l \<longleftrightarrow>
     (case pl_summary l of
        None \<Rightarrow> length (pl_blocks l) < SUMMARY_MIN_BLOCKS
      | Some s \<Rightarrow> SUMMARY_MIN_BLOCKS \<le> length (pl_blocks l) \<and> (\<forall>m. sum_maxima s = Some m \<longrightarrow> m = block_maxima l) \<and>
          (\<forall>r. sum_runs s = Some r \<longrightarrow> r = run_frontiers l))"

lemma summary_touch: "summary_ok (touch l)"
  by (auto simp: summary_ok_def touch_def summary_default_def split: option.split)

lemma summary_cong: "pl_summary a = pl_summary b \<Longrightarrow> pl_blocks a = pl_blocks b \<Longrightarrow> summary_ok a \<longleftrightarrow> summary_ok b"
  by (simp add: summary_ok_def block_maxima_def run_frontiers_def split: option.split)

lemma hold_cong: "pl_data a = pl_data b \<Longrightarrow> pl_blocks a = pl_blocks b \<Longrightarrow> blocks_hold a parts \<longleftrightarrow> blocks_hold b parts"
  by (simp add: blocks_hold_def)

lemma append_block_summary: "append_block ps os w fr l = Some l' \<Longrightarrow> summary_ok l'"
  by (auto simp: append_block_def Let_def summary_touch split: if_splits)

lemma append_chunks_summary: "append_chunks words os start blocks l = Some l' \<Longrightarrow> summary_ok l \<Longrightarrow> summary_ok l'"
proof (induction words os start blocks l rule: append_chunks.induct)
  case (2 words os start block blocks l)
  then show ?case by (auto split: option.splits dest: append_block_summary)
qed simp

definition list_ok :: "(usize \<Rightarrow> u32) \<Rightarrow> PostingList \<Rightarrow> part list \<Rightarrow> bool" where
  "list_ok words l parts \<longleftrightarrow> blocks_hold l parts \<and> slots_ok parts \<and> (\<forall>p \<in> set parts. covers words p) \<and> summary_ok l \<and>
     length (entries parts) < 2 ^ 32 \<and> pl_count l = of_nat (length (entries parts)) \<and>
     positive_count l = positives (map fst (entries parts)) \<and>
     pl_last l = (if entries parts = [] then 0 else of_nat (entry_slot (last (entries parts))))"

lemma slots_ok_run: "blocks_hold l parts \<Longrightarrow> slots_ok parts \<longleftrightarrow> run_ok (entries parts)"
  by (auto simp: slots_ok_def run_ok_def blocks_hold_def entries_def part_ok_def)

lemma encode_ok:
  assumes "run_ok es" "words_ok words" "ordinals_for ordinals es" "length es < 2 ^ 32"
  shows "\<exists>l' parts. encode_with_ordinals (map fst es) ordinals words l = Some l' \<and> list_ok words l' parts \<and> entries parts = es"
proof -
  let ?l = "touch (l\<lparr>pl_data := [], pl_blocks := []\<rparr>)"
  have "blocks_hold ?l []" by (simp add: blocks_hold_def)
  then obtain l1 new where l1: "append_chunks words ordinals 0 (slice_chunks BLOCK_LEN (map fst es)) ?l = Some l1" "blocks_hold l1 new"
    "entries new = es" "\<forall>p \<in> set new. covers words p"
    using append_chunks_ok [of ?l "[]" es words ordinals 0] assms by (auto simp: ordinals_for_def)
  let ?r = "l1\<lparr>pl_count := of_nat (length es), positive_count := positives (map fst es), pl_last := (if es = [] then 0 else of_nat (entry_slot (last es)))\<rparr>"
  have "encode_with_ordinals (map fst es) ordinals words l = Some ?r"
    using l1(1) assms(3,4) by (auto simp: encode_with_ordinals_def ordinals_for_def last_map)
  moreover have "blocks_hold ?r new" using l1(2) by (simp add: blocks_hold_def)
  moreover have "summary_ok ?r" using append_chunks_summary [OF l1(1) summary_touch] summary_cong [of ?r l1] by simp
  ultimately show ?thesis using l1 assms(1,4) slots_ok_run [of ?r new] by (intro exI [of _ ?r] exI [of _ new]) (simp add: list_ok_def)
qed

lemma scratch_ok:
  assumes "blocks_hold l parts" "run_ok es" "words_ok words" "0 < width" "width \<le> BLOCK_LEN"
    "es = [] \<or> part * width \<le> length ordinals \<and> drop (part * width) ordinals = map snd es"
  shows "\<exists>l' new. scratch_blocks words ordinals width part (slice_chunks width (map fst es)) l = Some l' \<and>
    blocks_hold l' (parts @ new) \<and> entries new = es \<and> (\<forall>p \<in> set new. covers words p)"
  using assms
proof (induction "length es" arbitrary: es l parts part rule: less_induct)
  case less
  show ?case
  proof (cases "es = []")
    case True
    then show ?thesis using less.prems(1) by (intro exI [of _ l] exI [of _ "[]"]) (simp add: slice_chunks.simps)
  next
    case False
    let ?a = "take width es" and ?b = "drop width es"
    have pa: "part_ok ?a" using run_ok_part [OF run_ok_take(1) [OF less.prems(2)]] False less.prems(4,5) by simp
    have sc: "slice_chunks width (map fst es) = map fst ?a # slice_chunks width (map fst ?b)"
      using False less.prems(4) by (subst slice_chunks.simps) (simp add: take_map drop_map)
    obtain fr where fr: "frontier (points_of words (map fst ?a)) = Some fr" "covers words (?a, least_words words (map fst ?a), fr)"
      using fresh_covers [OF pa less.prems(3)] by blast
    have d: "part * width \<le> length ordinals" "drop (part * width) ordinals = map snd es" using less.prems(6) False by auto
    then have n: "length ordinals - part * width = length es" by (metis length_drop length_map)
    have o: "take (length (map fst ?a)) (drop (part * width) ordinals) = map snd ?a" by (simp add: d(2) take_map min_def)
    obtain l1 where l1: "append_block (map fst ?a) (map snd ?a) (least_words words (map fst ?a)) fr l = Some l1"
      "blocks_hold l1 (parts @ [(?a, least_words words (map fst ?a), fr)])"
      using append_block_ok [OF less.prems(1) pa, of "map snd ?a"] by blast
    have o2: "?b = [] \<or> (part + 1) * width \<le> length ordinals \<and> drop ((part + 1) * width) ordinals = map snd ?b"
    proof -
      have "drop ((part + 1) * width) ordinals = map snd ?b" using d(2) by (metis add_mult_distrib2 drop_drop drop_map mult.commute mult.right_neutral add.commute)
      then show ?thesis using n d(1) by auto
    qed
    have shorter: "length ?b < length es" using False less.prems(4) by simp
    obtain l2 new where l2: "scratch_blocks words ordinals width (part + 1) (slice_chunks width (map fst ?b)) l1 = Some l2"
      "blocks_hold l2 ((parts @ [(?a, least_words words (map fst ?a), fr)]) @ new)" "entries new = ?b" "\<forall>p \<in> set new. covers words p"
      using less.hyps [OF shorter l1(2) run_ok_take(2) [OF less.prems(2)] less.prems(3,4,5) o2] by blast
    have room: "part * width + length (map fst ?a) \<le> length ordinals" using n d(1) by simp
    show ?thesis
      using fr l1 l2 room
      by (intro exI [of _ l2] exI [of _ "(?a, least_words words (map fst ?a), fr) # new"]) (simp add: sc o del: length_map length_take)
  qed
qed

lemma rewrite_ok:
  assumes "blocks_hold l (pre @ p # post)" "run_ok es" "words_ok words" "length es \<le> BLOCK_LEN + 1"
  shows "\<exists>l' new. rewrite_block (length pre) (map fst es) (map snd es) words l = Some l' \<and> blocks_hold l' (pre @ new @ post) \<and>
    entries new = es \<and> (\<forall>p \<in> set new. covers words p) \<and> same_counts l l' \<and> summary_ok l'"
proof -
  let ?i = "length pre" and ?start = "length (parts_bytes pre)" let ?stop = "?start + length (entry_bytes (fst p))"
  let ?width = "if length (map fst es) > BLOCK_LEN then (length (map fst es) + 1) div 2 else BLOCK_LEN"
  have blocks: "pl_blocks l = layout 0 pre @ entry_block ?start (fst p) (snd p) # layout ?stop post"
    and data: "pl_data l = parts_bytes pre @ entry_bytes (fst p) @ parts_bytes post"
    using assms(1) by (cases p, auto simp: blocks_hold_def layout_append)
  have w: "0 < ?width" "?width \<le> BLOCK_LEN" using assms(4) by (auto simp: BLOCK_LEN_def)
  have d: "blocks_hold pl_default []" by (simp add: blocks_hold_def pl_default_def)
  obtain sc new where sc: "scratch_blocks words (map snd es) ?width 0 (slice_chunks ?width (map fst es)) pl_default = Some sc"
    "blocks_hold sc new" "entries new = es" "\<forall>p \<in> set new. covers words p"
    using scratch_ok [OF d assms(2,3) w, of 0 "map snd es"] by auto
  have start: "blk_offset (pl_blocks l ! ?i) = ?start" by (simp add: blocks nth_append entry_block_def)
  have stop: "(case slice_get (pl_blocks l) (?i + 1) of None \<Rightarrow> length (pl_data l) | Some b \<Rightarrow> blk_offset b) = ?stop"
    by (cases post) (auto simp: blocks data slice_get_def nth_append entry_block_def)
  have t: "map (\<lambda>b. b\<lparr>blk_offset := blk_offset b - (?stop - ?start) + length (pl_data sc)\<rparr>) (layout ?stop post)
      = layout (?start + length (pl_data sc)) post"
  proof -
    have "map (\<lambda>b. b\<lparr>blk_offset := blk_offset b - (?stop - ?start) + length (pl_data sc)\<rparr>) (map (shift_block ?stop) (layout 0 post))
        = map (shift_block (?start + length (pl_data sc))) (layout 0 post)" by (simp add: shift_block_def)
    then show ?thesis by (simp only: layout_shift add_0)
  qed
  have m: "map (\<lambda>b. b\<lparr>blk_offset := blk_offset b + ?start\<rparr>) (pl_blocks sc) = layout ?start new"
    using layout_shift [of ?start 0 new] sc(2) by (simp add: shift_block_def [abs_def] blocks_hold_def)
  let ?l = "touch (l\<lparr>pl_data := parts_bytes pre @ pl_data sc @ parts_bytes post,
    pl_blocks := layout 0 pre @ layout ?start new @ layout (?start + length (pl_data sc)) post\<rparr>)"
  have "rewrite_block ?i (map fst es) (map snd es) words l = Some ?l"
    unfolding rewrite_block_def Let_def start stop sc(1) option.case m using t by (simp add: blocks data)
  moreover have "blocks_hold ?l (pre @ new @ post)"
    using sc(2) assms(1) by (auto simp: blocks_hold_def layout_append add.assoc)
  moreover have "same_counts l ?l" by (simp add: same_counts_def)
  ultimately show ?thesis using sc summary_touch by blast
qed

section \<open>Finding a block\<close>

lemma block_position:
  assumes "blocks_hold l parts"
  shows "partition_point (\<lambda>b. blk_last b < t) (pl_blocks l) = length (takeWhile (\<lambda>p. part_last p < t) parts)"
proof -
  have "takeWhile (\<lambda>s. s < t) (map blk_last (pl_blocks l)) = takeWhile (\<lambda>s. s < t) (map part_last parts)"
    using assms layout_lasts [of 0 parts] by (simp add: blocks_hold_def)
  then have "map blk_last (takeWhile (\<lambda>b. blk_last b < t) (pl_blocks l)) = map part_last (takeWhile (\<lambda>p. part_last p < t) parts)"
    by (simp add: takeWhile_map comp_def)
  then show ?thesis unfolding partition_point_def by (metis length_map)
qed

text \<open>Where a slot belongs: the parts before hold smaller slots only, those after greater ones only.\<close>

lemma part_split:
  assumes "slots_ok parts" "length (takeWhile (\<lambda>p. part_last p < t) parts) < length parts"
  obtains pre p post where "parts = pre @ p # post" "length pre = length (takeWhile (\<lambda>p. part_last p < t) parts)"
    "\<forall>e \<in> set (entries pre). entry_slot e < t" "t \<le> part_last p" "\<forall>e \<in> set (entries post). t < entry_slot e"
proof -
  let ?n = "length (takeWhile (\<lambda>p. part_last p < t) parts)"
  have s: "parts = take ?n parts @ parts ! ?n # drop (Suc ?n) parts" using assms(2) by (rule id_take_nth_drop)
  have t: "take ?n parts = takeWhile (\<lambda>p. part_last p < t) parts" by (metis takeWhile_eq_take)
  have ge: "t \<le> part_last (parts ! ?n)" using nth_length_takeWhile [OF assms(2)] by simp
  have "entry_slot e < t" if e: "e \<in> set (entries (take ?n parts))" for e
  proof -
    obtain q where q: "q \<in> set (take ?n parts)" "e \<in> set (fst q)" using e by (auto simp: entries_def)
    then have "part_last q < t" using t set_takeWhileD by metis
    then show ?thesis using part_last_max [of "fst q" e] q assms(1) by (auto simp: slots_ok_def dest: in_set_takeD)
  qed
  moreover have "t < entry_slot e" if "e \<in> set (entries (drop (Suc ?n) parts))" for e
  proof -
    have "slots_ok (drop ?n parts)" using slots_ok_drop [OF assms(1)] .
    then have "slots_ok (parts ! ?n # drop (Suc ?n) parts)" using assms(2) by (simp add: Cons_nth_drop_Suc)
    then have "part_last (parts ! ?n) < entry_slot e" using that by (auto simp: slots_ok_Cons part_ok_def)
    then show ?thesis using ge by simp
  qed
  moreover have "length (take ?n parts) = ?n" using assms(2) by simp
  ultimately show ?thesis using that [OF s] ge by blast
qed

section \<open>Counting entries\<close>

lemma run_ok_distinct: "run_ok es \<Longrightarrow> distinct es"
  using ssorted_distinct [of "map entry_slot es"] by (simp add: run_ok_def distinct_map)

lemma run_ok_card: "run_ok es \<Longrightarrow> length es = card (set es)"
  by (simp add: distinct_card run_ok_distinct)

lemma run_ok_positive: "run_ok es \<Longrightarrow> positives (map fst es) = of_nat (card {e \<in> set es. snd (fst e) > 0})"
proof -
  assume "run_ok es"
  then have "distinct (filter (\<lambda>e. snd (fst e) > 0) es)" using run_ok_distinct by simp
  then have "length (filter (\<lambda>e. snd (fst e) > 0) es) = card (set (filter (\<lambda>e. snd (fst e) > 0) es))" by (rule distinct_card [symmetric])
  then show ?thesis by (simp add: positives_def filter_map comp_def)
qed

lemma run_ok_le_last:
  assumes "run_ok es" "e \<in> set es"
  shows "entry_slot e \<le> entry_slot (last es)"
proof -
  have "entry_slot e \<le> last (map entry_slot es)" using assms by (intro ssorted_le_last) (auto simp: run_ok_def)
  moreover have "es \<noteq> []" using assms(2) by auto
  ultimately show ?thesis by (simp add: last_map)
qed

lemma run_ok_last:
  assumes "run_ok es" "e \<in> set es" "\<forall>f \<in> set es. entry_slot f \<le> entry_slot e"
  shows "entry_slot (last es) = entry_slot e"
proof -
  have ne: "es \<noteq> []" using assms(2) by auto
  have "entry_slot e \<le> entry_slot (last es)" by (rule run_ok_le_last [OF assms(1,2)])
  moreover have "entry_slot (last es) \<le> entry_slot e" using assms(3) last_in_set [OF ne] by blast
  ultimately show ?thesis by simp
qed

text \<open>One slot has one entry.\<close>

lemma run_ok_unique: "run_ok es \<Longrightarrow> e \<in> set es \<Longrightarrow> f \<in> set es \<Longrightarrow> entry_slot e = entry_slot f \<Longrightarrow> e = f"
  using ssorted_distinct [of "map entry_slot es"] by (auto simp: run_ok_def distinct_map dest: inj_onD)

lemma list_ok_run: "list_ok words l parts \<Longrightarrow> run_ok (entries parts)"
  using slots_ok_run [of l parts] by (simp add: list_ok_def)

lemma between_run:
  assumes "run_ok (entries (pre @ p # post))" "run_ok es"
    "\<forall>e \<in> set es. (\<forall>f \<in> set (entries pre). entry_slot f < entry_slot e) \<and> (\<forall>g \<in> set (entries post). entry_slot e < entry_slot g)"
  shows "run_ok (entries pre @ es @ entries post)"
proof -
  have s: "ssorted (map entry_slot (entries pre))" "ssorted (map entry_slot (entries post))"
    "\<forall>f \<in> set (entries pre). \<forall>g \<in> set (entries post). entry_slot f < entry_slot g"
    using assms(1) by (simp_all add: run_ok_def sorted_wrt_append ball_Un)
  then show ?thesis using assms by (simp add: run_ok_def sorted_wrt_append ball_Un)
qed

text \<open>The block of a slot that is at most the last slot of the list, decoded.\<close>

lemma block_decoded:
  assumes "blocks_hold l (pre @ p # post)"
  shows "decode_block_into k l (length pre) zero_block = Some (map fst (fst p) @ drop (length (fst p)) zero_block, length (fst p))"
    "decode_ordinals k l (pl_blocks l ! length pre) = Some (map snd (fst p) @ replicate (BLOCK_LEN - length (fst p)) 0)"
proof -
  have i: "length pre < length (pre @ p # post)" by simp
  have n: "(pre @ p # post) ! length pre = p" by simp
  note b = blocks_hold_at [OF assms i, unfolded n]
  have "length (pl_blocks l) = length (pre @ p # post)" using assms by (simp add: blocks_hold_def)
  then show "decode_block_into k l (length pre) zero_block = Some (map fst (fst p) @ drop (length (fst p)) zero_block, length (fst p))"
    using block_at_fields(1) [OF b] by (simp add: decode_block_into_def decode_block_def decode_values_at [OF b])
  show "decode_ordinals k l (pl_blocks l ! length pre) = Some (map snd (fst p) @ replicate (BLOCK_LEN - length (fst p)) 0)"
    by (rule decode_ordinals_at [OF b])
qed

lemma find_part:
  assumes "list_ok words l parts" "e0 \<in> set (entries parts)" "t \<le> entry_slot e0"
  obtains pre p post where "parts = pre @ p # post" "partition_point (\<lambda>b. blk_last b < t) (pl_blocks l) = length pre"
    "\<forall>e \<in> set (entries pre). entry_slot e < t" "t \<le> part_last p" "\<forall>e \<in> set (entries post). t < entry_slot e" "part_ok (fst p)"
proof -
  have b: "blocks_hold l parts" and s: "slots_ok parts" using assms(1) by (auto simp: list_ok_def)
  obtain q where q: "q \<in> set parts" "e0 \<in> set (fst q)" using assms(2) by (auto simp: entries_def)
  then have "\<not> part_last q < t" using part_last_max [of "fst q" e0] s assms(3) by (auto simp: slots_ok_def)
  then have "length (takeWhile (\<lambda>p. part_last p < t) parts) < length parts" using q(1) by (intro takeWhile_shorter [of q]) auto
  then obtain pre p post where "parts = pre @ p # post" "length pre = length (takeWhile (\<lambda>p. part_last p < t) parts)"
    "\<forall>e \<in> set (entries pre). entry_slot e < t" "t \<le> part_last p" "\<forall>e \<in> set (entries post). t < entry_slot e"
    using part_split [OF s] by metis
  then show ?thesis using that [of pre p post] block_position [OF b] s by (simp add: slots_ok_def)
qed

lemma counts_insert:
  assumes "run_ok all" "run_ok old" "set all = insert e (set old)" "e \<notin> set old"
  shows "length all = length old + 1" "positives (map fst all) = positives (map fst old) + (if snd (fst e) > 0 then 1 else 0)"
proof -
  show "length all = length old + 1" using assms by (simp add: run_ok_card)
  have "{x \<in> set all. snd (fst x) > 0} = (if snd (fst e) > 0 then insert e {x \<in> set old. snd (fst x) > 0} else {x \<in> set old. snd (fst x) > 0})"
    using assms(3) by auto
  then show "positives (map fst all) = positives (map fst old) + (if snd (fst e) > 0 then 1 else 0)"
    using assms(4) by (simp add: run_ok_positive [OF assms(1)] run_ok_positive [OF assms(2)])
qed

lemma last_insert:
  assumes "run_ok all" "run_ok old" "set all = insert e (set old)" "e0 \<in> set old" "entry_slot e < entry_slot e0"
  shows "entry_slot (last all) = entry_slot (last old)"
proof (rule run_ok_last [OF assms(1)])
  have "old \<noteq> []" using assms(4) by auto
  then show "last old \<in> set all" using assms(3) by simp
  show "\<forall>f \<in> set all. entry_slot f \<le> entry_slot (last old)"
  proof
    fix f assume "f \<in> set all"
    then consider "f = e" | "f \<in> set old" using assms(3) by blast
    then show "entry_slot f \<le> entry_slot (last old)"
      using run_ok_le_last [OF assms(2)] run_ok_le_last [OF assms(2,4)] assms(5) by cases auto
  qed
qed

lemma list_okI:
  assumes "blocks_hold r parts" "run_ok (entries parts)" "\<And>p. p \<in> set parts \<Longrightarrow> covers words p" "summary_ok r"
    "length (entries parts) < 2 ^ 32" "pl_count r = of_nat (length (entries parts))" "positive_count r = positives (map fst (entries parts))"
    "pl_last r = (if entries parts = [] then 0 else of_nat (entry_slot (last (entries parts))))"
  shows "list_ok words r parts"
  using assms slots_ok_run [OF assms(1)] by (simp add: list_ok_def)

lemma list_ok_counts:
  assumes "list_ok words l parts"
  shows "pl_count l = of_nat (length (entries parts))" "positive_count l = positives (map fst (entries parts))"
    "pl_last l = (if entries parts = [] then 0 else of_nat (entry_slot (last (entries parts))))" "length (entries parts) < 2 ^ 32"
  using assms by (auto simp: list_ok_def)

section \<open>Inserting a posting\<close>

lemma vec_insert_map: "map f (vec_insert i x xs) = vec_insert i (f x) (map f xs)"
  by (simp add: vec_insert_def take_map drop_map)

lemma vec_remove_map: "map f (vec_remove i xs) = vec_remove i (map f xs)"
  by (simp add: vec_remove_def take_map drop_map)

lemma set_vec_insert: "set (vec_insert i x xs) = insert x (set xs)"
proof -
  have "set xs = set (take i xs) \<union> set (drop i xs)" by (metis append_take_drop_id set_append)
  then show ?thesis by (auto simp: vec_insert_def)
qed

lemma covers_parts: "list_ok words l (pre @ p # post) \<Longrightarrow> q \<in> set pre \<union> set post \<Longrightarrow> covers words q"
  by (auto simp: list_ok_def)

text \<open>The list after one block was rewritten as \<open>es\<close>, up to its counters.\<close>

lemma edit_block:
  assumes "list_ok words l0 (pre @ p # post)" "pl_data l = pl_data l0" "pl_blocks l = pl_blocks l0" "words_ok words"
    "run_ok es" "length es \<le> BLOCK_LEN + 1"
    "\<forall>e \<in> set es. (\<forall>f \<in> set (entries pre). entry_slot f < entry_slot e) \<and> (\<forall>g \<in> set (entries post). entry_slot e < entry_slot g)"
  obtains r new where "rewrite_block (length pre) (map fst es) (map snd es) words l = Some r" "blocks_hold r (pre @ new @ post)"
    "entries new = es" "run_ok (entries (pre @ new @ post))" "\<And>q. q \<in> set (pre @ new @ post) \<Longrightarrow> covers words q" "same_counts l r" "summary_ok r"
proof -
  have b: "blocks_hold l (pre @ p # post)" using assms(1-3) hold_cong [of l l0] by (simp add: list_ok_def)
  obtain r new where r: "rewrite_block (length pre) (map fst es) (map snd es) words l = Some r" "blocks_hold r (pre @ new @ post)"
    "entries new = es" "\<forall>p \<in> set new. covers words p" "same_counts l r" "summary_ok r"
    using rewrite_ok [OF b assms(5,4,6)] by blast
  have "run_ok (entries (pre @ new @ post))" using between_run [OF list_ok_run [OF assms(1)] assms(5,7)] r(3) by simp
  moreover have "covers words q" if "q \<in> set (pre @ new @ post)" for q using that r(4) covers_parts [OF assms(1), of q] by auto
  ultimately show ?thesis using that r by blast
qed

lemma pl_insert_ok:
  assumes "list_ok words l parts" "words_ok words" "s < 2 ^ 64" "s \<notin> entry_slot ` set (entries parts)"
    "e0 \<in> set (entries parts)" "s < entry_slot e0" "length (entries parts) + 1 < 2 ^ 32"
  shows "\<exists>l' parts'. pl_insert k (s, f) m words l = Some l' \<and> list_ok words l' parts' \<and> set (entries parts') = insert ((s, f), m) (set (entries parts))"
proof -
  obtain pre p post where sp: "parts = pre @ p # post" "partition_point (\<lambda>b. blk_last b < s) (pl_blocks l) = length pre"
    "\<forall>e \<in> set (entries pre). entry_slot e < s" "s \<le> part_last p" "\<forall>e \<in> set (entries post). s < entry_slot e" "part_ok (fst p)"
    using find_part [OF assms(1,5) less_imp_le [OF assms(6)]] .
  let ?es = "fst p" let ?e = "((s, f), m)"
  have b: "blocks_hold l (pre @ p # post)" and run: "run_ok (entries (pre @ p # post))"
    using assms(1) sp(1) list_ok_run [OF assms(1)] by (simp_all add: list_ok_def)
  have fresh: "s \<notin> set (map entry_slot ?es)" using assms(4) sp(1) by auto
  have srt: "ssorted (map entry_slot ?es)" using sp(6) by (simp add: part_ok_def)
  obtain i where i: "slice_binary_search (map entry_slot ?es) s = Inl i"
    using slice_binary_search_found [OF ssorted_sorted [OF srt], of s] fresh by (cases "slice_binary_search (map entry_slot ?es) s") auto
  let ?es' = "vec_insert i ?e ?es"
  have run': "run_ok ?es'"
    using ssorted_vec_insert(1) [OF srt i] sp(6) assms(3) by (auto simp: run_ok_def part_ok_def vec_insert_map set_vec_insert)
  have len': "length ?es' \<le> BLOCK_LEN + 1" using sp(6) by (auto simp: part_ok_def vec_insert_def min_def)
  have bt: "\<forall>e \<in> set ?es'. (\<forall>f \<in> set (entries pre). entry_slot f < entry_slot e) \<and> (\<forall>g \<in> set (entries post). entry_slot e < entry_slot g)"
    using sp(3,5) run by (simp add: set_vec_insert run_ok_def sorted_wrt_append ball_Un)
  obtain r new where r: "rewrite_block (length pre) (map fst ?es') (map snd ?es') words l = Some r" "blocks_hold r (pre @ new @ post)"
    "entries new = ?es'" and all: "run_ok (entries (pre @ new @ post))" and cov: "\<And>q. q \<in> set (pre @ new @ post) \<Longrightarrow> covers words q"
    and sc: "same_counts l r" and sm: "summary_ok r"
    using edit_block [OF assms(1) [unfolded sp(1)] refl refl assms(2) run' len' bt] by metis
  let ?r = "r\<lparr>pl_count := pl_count r + 1, positive_count := positive_count r + (if f > 0 then 1 else 0)\<rparr>"
  let ?old = "entries (pre @ p # post)" and ?all = "entries (pre @ new @ post)"
  have nth: "slice_binary_search (map fst (map fst ?es)) s = Inl i" using i by (simp add: comp_def)
  have ins: "pl_insert k (s, f) m words l = Some ?r"
    using r(1) nth block_decoded [OF b, of k] by (simp add: pl_insert_def sp(2) vec_insert_map)
  have sets: "set ?all = insert ?e (set ?old)" by (auto simp: r(3) set_vec_insert)
  have new: "?e \<notin> set ?old" using assms(4) sp(1) by force
  note len = counts_insert(1) [OF all run sets new] note pos = counts_insert(2) [OF all run sets new, unfolded fst_conv snd_conv]
  have ne: "?old \<noteq> []" "?all \<noteq> []" using assms(5) sp(1) len by auto
  have lst: "entry_slot (last ?all) = entry_slot (last ?old)"
    using assms(5,6) sp(1) by (intro last_insert [OF all run sets, of e0]) simp_all
  note old = list_ok_counts [OF assms(1), unfolded sp(1)]
  have "list_ok words ?r (pre @ new @ post)"
  proof (rule list_okI [OF _ all])
    show "blocks_hold ?r (pre @ new @ post)" using r(2) by (simp add: blocks_hold_def)
    show "covers words q" if "q \<in> set (pre @ new @ post)" for q using cov [OF that] .
    show "summary_ok ?r" using sm summary_cong [of ?r r] by simp
    show "length ?all < 2 ^ 32" using len assms(7) sp(1) by simp
    show "pl_count ?r = of_nat (length ?all)" using len old(1) sc by (simp add: same_counts_def)
    show "positive_count ?r = positives (map fst ?all)" using pos old(2) sc by (simp add: same_counts_def del: entries_simps)
    show "pl_last ?r = (if ?all = [] then 0 else of_nat (entry_slot (last ?all)))"
      using lst ne old(3) sc by (simp add: same_counts_def del: entries_simps)
  qed
  then show ?thesis using ins sets sp(1) by blast
qed

section \<open>Changing an entry\<close>

lemma find_entry:
  assumes "list_ok words l parts" "e \<in> set (entries parts)"
  obtains pre p post i where "parts = pre @ p # post" "partition_point (\<lambda>b. blk_last b < entry_slot e) (pl_blocks l) = length pre" "part_ok (fst p)"
    "slice_binary_search (map fst (map fst (fst p))) (entry_slot e) = Inr i" "i < length (fst p)" "fst p ! i = e"
    "length pre < length (pl_blocks l)"
proof -
  obtain pre p post where sp: "parts = pre @ p # post" "partition_point (\<lambda>b. blk_last b < entry_slot e) (pl_blocks l) = length pre"
    "\<forall>x \<in> set (entries pre). entry_slot x < entry_slot e" "\<forall>x \<in> set (entries post). entry_slot e < entry_slot x" "part_ok (fst p)"
    using find_part [OF assms order_refl] by metis
  have e: "e \<in> set (fst p)" using assms(2) sp(1,3,4) by auto
  have srt: "ssorted (map entry_slot (fst p))" using sp(5) by (simp add: part_ok_def)
  obtain i where i: "slice_binary_search (map entry_slot (fst p)) (entry_slot e) = Inr i"
    using slice_binary_search_found [OF ssorted_sorted [OF srt], of "entry_slot e"] e by auto
  have il: "i < length (fst p)" "entry_slot (fst p ! i) = entry_slot e" using slice_binary_search_Inr [OF i] by auto
  have "run_ok (fst p)" using sp(5) by (simp add: part_ok_def run_ok_def)
  then have "fst p ! i = e" using run_ok_unique [of "fst p" "fst p ! i" e] il e by simp
  moreover have "length (pl_blocks l) = length parts" using assms(1) by (simp add: list_ok_def blocks_hold_def)
  ultimately show ?thesis using that [OF sp(1,2,5)] i il sp(1) by (simp add: comp_def)
qed

lemma part_between:
  assumes "run_ok (entries (pre @ p # post))" "\<forall>e \<in> set es. entry_slot e \<in> entry_slot ` set (fst p)"
  shows "\<forall>e \<in> set es. (\<forall>f \<in> set (entries pre). entry_slot f < entry_slot e) \<and> (\<forall>g \<in> set (entries post). entry_slot e < entry_slot g)"
proof
  fix e assume "e \<in> set es"
  then obtain x where "x \<in> set (fst p)" "entry_slot e = entry_slot x" using assms(2) by auto
  then show "(\<forall>f \<in> set (entries pre). entry_slot f < entry_slot e) \<and> (\<forall>g \<in> set (entries post). entry_slot e < entry_slot g)"
    using assms(1) by (simp add: run_ok_def sorted_wrt_append ball_Un)
qed

lemma counts_replace:
  assumes "run_ok all" "run_ok old" "e \<in> set old" "set all = insert e' (set old - {e})" "entry_slot e' = entry_slot e"
  shows "map entry_slot all = map entry_slot old"
    "positives (map fst all) = positives (map fst old) - (if snd (fst e) > 0 then 1 else 0) + (if snd (fst e') > 0 then 1 else 0)"
proof -
  let ?rest = "filter (\<lambda>x. x \<noteq> e) old"
  have r: "run_ok ?rest" using assms(2) by (auto simp: run_ok_def sorted_wrt_map intro: sorted_wrt_filter)
  have "e' \<notin> set ?rest" using run_ok_unique [OF assms(2,3), of e'] assms(5) by auto
  moreover have "set all = insert e' (set ?rest)" using assms(4) by auto
  ultimately have a: "positives (map fst all) = positives (map fst ?rest) + (if snd (fst e') > 0 then 1 else 0)"
    using counts_insert(2) [OF assms(1) r] by blast
  have "set old = insert e (set ?rest)" "e \<notin> set ?rest" using assms(3) by auto
  then have o: "positives (map fst old) = positives (map fst ?rest) + (if snd (fst e) > 0 then 1 else 0)"
    using counts_insert(2) [OF assms(2) r] by blast
  show "positives (map fst all) = positives (map fst old) - (if snd (fst e) > 0 then 1 else 0) + (if snd (fst e') > 0 then 1 else 0)"
    using a o by simp
  have "entry_slot ` set all = entry_slot ` set old" using assms(3-5) by force
  then show "map entry_slot all = map entry_slot old"
    using assms(1,2) by (intro ssorted_unique) (auto simp: run_ok_def)
qed

lemma last_slot_eq: "map entry_slot a = map entry_slot b \<Longrightarrow> a \<noteq> [] \<Longrightarrow> entry_slot (last a) = entry_slot (last b)"
proof -
  assume h: "map entry_slot a = map entry_slot b" "a \<noteq> []"
  then have "b \<noteq> []" by auto
  moreover have "last (map entry_slot a) = last (map entry_slot b)" by (simp only: h(1))
  ultimately show ?thesis using h(2) unfolding last_map [OF h(2)] by (simp add: last_map)
qed

lemma pl_set_entry_ok:
  assumes "list_ok words l parts" "words_ok words" "e \<in> set (entries parts)"
  shows "\<exists>l' parts'. pl_set_entry k (entry_slot e) f om words l = Some l' \<and> list_ok words l' parts' \<and>
    set (entries parts') = insert ((entry_slot e, f), case om of None \<Rightarrow> snd e | Some m \<Rightarrow> m) (set (entries parts) - {e})"
proof -
  let ?e = "((entry_slot e, f), case om of None \<Rightarrow> snd e | Some m \<Rightarrow> m)"
  obtain pre p post i where sp: "parts = pre @ p # post" "partition_point (\<lambda>b. blk_last b < entry_slot e) (pl_blocks l) = length pre" "part_ok (fst p)"
    "slice_binary_search (map fst (map fst (fst p))) (entry_slot e) = Inr i" "i < length (fst p)" "fst p ! i = e" "length pre < length (pl_blocks l)"
    using find_entry [OF assms(1,3)] by blast
  let ?es = "fst p" let ?es' = "?es[i := ?e]"
  have b: "blocks_hold l (pre @ p # post)" using assms(1) sp(1) by (simp add: list_ok_def)
  note run = list_ok_run [OF assms(1), unfolded sp(1)]
  define d where "d = map fst ?es @ drop (length ?es) zero_block"
  define os where "os = map snd ?es @ replicate (BLOCK_LEN - length ?es) (0 :: u32)"
  let ?os = "case om of None \<Rightarrow> os | Some m \<Rightarrow> os[i := m]"
  have at: "d ! i = fst e" "os ! i = snd e" "take (length ?es) d = map fst ?es" using sp(5,6) by (simp_all add: d_def os_def nth_append)
  have td: "take (length ?es) (d[i := (fst (d ! i), f)]) = map fst ?es'" unfolding at using sp(5) by (simp add: d_def list_update_append map_update)
  have to: "take (length ?es) ?os = map snd ?es'"
  proof -
    have "(map snd ?es)[i := snd e] = map snd ?es" using sp(5,6) by (simp add: list_update_same_conv)
    then show ?thesis using sp(5) by (simp add: os_def list_update_append map_update split: option.split)
  qed
  let ?l = "l\<lparr>positive_count := positive_count l - (if snd (fst e) > 0 then 1 else 0) + (if f > 0 then 1 else 0)\<rparr>"
  have step: "pl_set_entry k (entry_slot e) f om words l =
      (if f = snd (fst e) \<and> (case om of None \<Rightarrow> True | Some m \<Rightarrow> m = snd e) then Some l
       else rewrite_block (length pre) (map fst ?es') (map snd ?es') words ?l)"
    unfolding pl_set_entry_def block_of_def sp(2) Let_def if_P [OF sp(7)] block_decoded [OF b] option.map prod.case option.case d_def [symmetric] os_def [symmetric]
      at(3) sp(4) sum.case at(1,2) td [unfolded at(1)] to by simp
  show ?thesis
  proof (cases "f = snd (fst e) \<and> (case om of None \<Rightarrow> True | Some m \<Rightarrow> m = snd e)")
    case True
    then have "?e = e" by (auto simp: prod_eq_iff split: option.splits)
    then show ?thesis using step True assms(1,3) by (intro exI [of _ l] exI [of _ parts]) (auto split: option.splits)
  next
    case False
    have slots: "map entry_slot ?es' = map entry_slot ?es" using sp(5,6) by (simp add: map_update list_update_same_conv)
    then have set_slots: "entry_slot ` set ?es' = entry_slot ` set ?es" by (metis set_map)
    have run': "run_ok ?es'"
    proof -
      have "run_ok ?es" using sp(3) by (simp add: part_ok_def run_ok_def)
      moreover have "\<forall>s \<in> entry_slot ` set ?es'. s < 2 ^ 64" unfolding set_slots using sp(3) by (simp add: part_ok_def)
      ultimately show ?thesis using slots by (simp add: run_ok_def)
    qed
    have len': "length ?es' \<le> BLOCK_LEN + 1" using sp(3) by (simp add: part_ok_def)
    have bt: "\<forall>e \<in> set ?es'. (\<forall>f \<in> set (entries pre). entry_slot f < entry_slot e) \<and> (\<forall>g \<in> set (entries post). entry_slot e < entry_slot g)"
      using set_slots by (intro part_between [OF run]) blast
    obtain r new where r: "rewrite_block (length pre) (map fst ?es') (map snd ?es') words ?l = Some r" "blocks_hold r (pre @ new @ post)"
      "entries new = ?es'" and all: "run_ok (entries (pre @ new @ post))" and cov: "\<And>q. q \<in> set (pre @ new @ post) \<Longrightarrow> covers words q"
      and sc: "same_counts ?l r" and sm: "summary_ok r"
      using edit_block [OF assms(1) [unfolded sp(1)] _ _ assms(2) run' len' bt, of ?l] by auto
    let ?old = "entries (pre @ p # post)" and ?all = "entries (pre @ new @ post)"
    have dist: "distinct ?old" by (rule run_ok_distinct [OF run])
    have ex: "e \<notin> set (entries pre)" "e \<notin> set (entries post)" using dist nth_mem [OF sp(5)] sp(6) by auto
    have "distinct ?es" using dist by simp
    then have "set ?es' = insert ?e (set ?es - {e})" using sp(5,6) set_update_distinct by metis
    then have sets: "set ?all = insert ?e (set ?old - {e})" unfolding entries_simps set_append r(3) using ex by blast
    have mem: "e \<in> set ?old" using assms(3) sp(1) by simp
    note cr = counts_replace [OF all run mem sets]
    have ms: "map entry_slot ?all = map entry_slot ?old" using cr(1) by simp
    then have len: "length ?all = length ?old" by (metis length_map)
    have ne: "?old \<noteq> []" "?all \<noteq> []" using mem len by auto
    have lst: "entry_slot (last ?all) = entry_slot (last ?old)" by (rule last_slot_eq [OF ms ne(2)])
    note old = list_ok_counts [OF assms(1), unfolded sp(1)]
    have "list_ok words r (pre @ new @ post)"
    proof (rule list_okI [OF r(2) all cov sm])
      show "length ?all < 2 ^ 32" using len old(4) by simp
      show "pl_count r = of_nat (length ?all)" using len old(1) sc by (simp add: same_counts_def del: entries_simps)
      show "positive_count r = positives (map fst ?all)" using cr(2) old(2) sc by (simp add: same_counts_def del: entries_simps)
      show "pl_last r = (if ?all = [] then 0 else of_nat (entry_slot (last ?all)))"
        using lst ne old(3) sc by (simp add: same_counts_def del: entries_simps)
    qed
    then show ?thesis using step False r(1) sets sp(1) by (metis (no_types, lifting))
  qed
qed

section \<open>Removing a posting\<close>

lemma run_ok_remove:
  assumes "run_ok es" "i < length es"
  shows "run_ok (vec_remove i es)" "set (vec_remove i es) = set es - {es ! i}"
proof -
  have sub: "set (vec_remove i es) \<subseteq> set es" by (auto simp: vec_remove_def dest: in_set_takeD in_set_dropD)
  then show "run_ok (vec_remove i es)"
    using assms ssorted_vec_remove(1) [of "map entry_slot es" i] by (auto simp: run_ok_def vec_remove_map)
  obtain a x b where x: "es = a @ x # b" "length a = i" using id_take_nth_drop [OF assms(2)] assms(2) by (metis length_take min.absorb4)
  then have "vec_remove i es = a @ b" "es ! i = x" by (simp_all add: vec_remove_def nth_append)
  moreover have "x \<notin> set a \<union> set b" using run_ok_distinct [OF assms(1)] x(1) by simp
  ultimately show "set (vec_remove i es) = set es - {es ! i}" using x(1) by auto
qed

lemma last_block:
  assumes "blocks_hold r parts" "run_ok (entries parts)" "parts \<noteq> []"
  shows "blk_last (last (pl_blocks r)) = entry_slot (last (entries parts))"
proof -
  obtain ps p where p: "parts = ps @ [p]" using assms(3) by (metis rev_exhaust)
  have "last (pl_blocks r) = entry_block (length (parts_bytes ps)) (fst p) (snd p)"
    using assms(1) p by (cases p) (simp add: blocks_hold_def layout_append)
  moreover have "fst p \<noteq> []" using assms(1) p by (simp add: blocks_hold_def part_ok_def)
  ultimately show ?thesis using p by (simp add: entry_block_def)
qed

lemma blocks_empty: "blocks_hold r parts \<Longrightarrow> pl_blocks r = [] \<longleftrightarrow> parts = []"
proof -
  assume "blocks_hold r parts"
  then have "length (pl_blocks r) = length parts" by (simp add: blocks_hold_def)
  then show ?thesis by auto
qed

lemma parts_empty: "blocks_hold r parts \<Longrightarrow> entries parts = [] \<longleftrightarrow> parts = []"
  by (cases parts) (auto simp: blocks_hold_def part_ok_def)

lemma repack_ok:
  assumes "list_ok words l parts" "words_ok words" "e \<in> set (entries parts)"
  obtains i c where "pl_decode k l = Some (map fst (entries parts))"
    "slice_binary_search (map fst (map fst (entries parts))) (entry_slot e) = Inr i" "i < length (entries parts)" "entries parts ! i = e"
    "cursor_new l = Some c" "cursor_ordinals k l c = Some (map snd (entries parts))"
proof -
  have b: "blocks_hold l parts" using assms(1) by (simp add: list_ok_def)
  note run = list_ok_run [OF assms(1)]
  have srt: "ssorted (map entry_slot (entries parts))" using run by (simp add: run_ok_def)
  obtain i where i: "slice_binary_search (map entry_slot (entries parts)) (entry_slot e) = Inr i"
    using slice_binary_search_found [OF ssorted_sorted [OF srt], of "entry_slot e"] assms(3) by auto
  have il: "i < length (entries parts)" "entry_slot (entries parts ! i) = entry_slot e" using slice_binary_search_Inr [OF i] by auto
  have e: "entries parts ! i = e" using run_ok_unique [OF run _ assms(3)] il by simp
  obtain c where c: "cursor_new l = Some c" "cursor_ok parts c" "cursor_rest parts c = entries parts" using cursor_new_ok [OF b] .
  have "cursor_ordinals k l c = Some (map snd (entries parts))" using cursor_ordinals_ok [OF b c(2), of k] c(3) by simp
  then show ?thesis using that [OF pl_decode_ok [OF b]] i il(1) e c(1) by (simp add: comp_def)
qed

lemma pl_remove_ok:
  assumes "list_ok words l parts" "words_ok words" "e \<in> set (entries parts)"
  shows "\<exists>l' parts'. pl_remove k (entry_slot e) words l = Some l' \<and> list_ok words l' parts' \<and> set (entries parts') = set (entries parts) - {e}"
proof -
  obtain pre p post i where sp: "parts = pre @ p # post" "partition_point (\<lambda>b. blk_last b < entry_slot e) (pl_blocks l) = length pre" "part_ok (fst p)"
    "slice_binary_search (map fst (map fst (fst p))) (entry_slot e) = Inr i" "i < length (fst p)" "fst p ! i = e" "length pre < length (pl_blocks l)"
    using find_entry [OF assms(1,3)] by blast
  let ?es = "fst p"
  have b: "blocks_hold l (pre @ p # post)" using assms(1) sp(1) by (simp add: list_ok_def)
  note run = list_ok_run [OF assms(1), unfolded sp(1)] note old = list_ok_counts [OF assms(1), unfolded sp(1)]
  let ?old = "entries (pre @ p # post)"
  let ?repack = "length ?es \<le> MIN_BLOCK_LEN \<and> length pre + 1 < length (pl_blocks l)"
  have bo: "block_of k l (entry_slot e) = Some (length pre, map fst ?es @ drop (length ?es) zero_block, length ?es)"
    using sp(7) by (simp add: block_of_def sp(2) block_decoded [OF b] Let_def)
  show ?thesis
  proof (cases ?repack)
    case True
    obtain j c where j: "pl_decode k l = Some (map fst (entries parts))"
      "slice_binary_search (map fst (map fst (entries parts))) (entry_slot e) = Inr j" "j < length (entries parts)" "entries parts ! j = e"
      "cursor_new l = Some c" "cursor_ordinals k l c = Some (map snd (entries parts))"
      using repack_ok [OF assms] .
    let ?new = "vec_remove j (entries parts)"
    note rr = run_ok_remove [OF list_ok_run [OF assms(1)] j(3)]
    have "length ?new < 2 ^ 32" using old(4) sp(1) j(3) by (simp add: vec_remove_def)
    moreover have "ordinals_for (map snd ?new) ?new" by (simp add: ordinals_for_def)
    ultimately obtain l' parts' where "encode_with_ordinals (map fst ?new) (map snd ?new) words l = Some l'" "list_ok words l' parts'" "entries parts' = ?new"
      using encode_ok [OF rr(1) assms(2)] by blast
    moreover have "pl_remove k (entry_slot e) words l = encode_with_ordinals (map fst ?new) (map snd ?new) words l"
      unfolding pl_remove_def bo option.case prod.case if_P [OF True] j(1) j(2) j(5) j(6) sum.case by (simp add: vec_remove_map)
    ultimately show ?thesis using rr(2) j(4) by auto
  next
    case False
    let ?es' = "vec_remove i ?es"
    have rp: "run_ok ?es" using sp(3) by (simp add: part_ok_def run_ok_def)
    note rr = run_ok_remove [OF rp sp(5)]
    have len': "length ?es' \<le> BLOCK_LEN + 1" using sp(3) by (auto simp: part_ok_def vec_remove_def min_def)
    have bt: "\<forall>e \<in> set ?es'. (\<forall>f \<in> set (entries pre). entry_slot f < entry_slot e) \<and> (\<forall>g \<in> set (entries post). entry_slot e < entry_slot g)"
      using rr(2) by (intro part_between [OF run]) auto
    obtain r new where r: "rewrite_block (length pre) (map fst ?es') (map snd ?es') words l = Some r" "blocks_hold r (pre @ new @ post)"
      "entries new = ?es'" and all: "run_ok (entries (pre @ new @ post))" and cov: "\<And>q. q \<in> set (pre @ new @ post) \<Longrightarrow> covers words q"
      and sc: "same_counts l r" and sm: "summary_ok r"
      using edit_block [OF assms(1) [unfolded sp(1)] refl refl assms(2) rr(1) len' bt] by metis
    let ?all = "entries (pre @ new @ post)"
    have ex: "e \<notin> set (entries pre)" "e \<notin> set (entries post)" using run_ok_distinct [OF run] nth_mem [OF sp(5)] sp(6) by auto
    have mem: "e \<in> set ?old" using assms(3) sp(1) by simp
    have sets: "set ?all = set ?old - {e}" unfolding entries_simps set_append r(3) rr(2) sp(6) using ex by blast
    then have ins: "set ?old = insert e (set ?all)" "e \<notin> set ?all" using mem by auto
    note ci = counts_insert [OF run all ins]
    let ?r = "r\<lparr>pl_count := pl_count r - 1, positive_count := positive_count r - (if snd (fst e) > 0 then 1 else 0),
      pl_last := (if pl_blocks r = [] then 0 else of_nat (blk_last (last (pl_blocks r))))\<rparr>"
    have nb: "pl_blocks r = [] \<longleftrightarrow> pre @ new @ post = []" by (rule blocks_empty [OF r(2)])
    have ok: "list_ok words ?r (pre @ new @ post)"
    proof (rule list_okI [OF _ all cov])
      show "blocks_hold ?r (pre @ new @ post)" using r(2) hold_cong [of ?r r] by simp
      show "summary_ok ?r" using sm summary_cong [of ?r r] by simp
      show "length ?all < 2 ^ 32" using ci(1) old(4) by simp
      show "pl_count ?r = of_nat (length ?all)" using ci(1) old(1) sc by (simp add: same_counts_def del: entries_simps)
      show "positive_count ?r = positives (map fst ?all)" using ci(2) old(2) sc by (simp add: same_counts_def del: entries_simps)
      show "pl_last ?r = (if ?all = [] then 0 else of_nat (entry_slot (last ?all)))"
        using last_block [OF r(2) all] parts_empty [OF r(2)] nb by (simp del: entries_simps)
    qed
    define d where "d = map fst ?es @ drop (length ?es) zero_block"
    define os where "os = map snd ?es @ replicate (BLOCK_LEN - length ?es) (0 :: u32)"
    have dd: "snd (d ! i) = snd (fst e)" "take (length ?es) d = map fst ?es" "take (length ?es) os = map snd ?es"
      using sp(5,6) by (simp_all add: d_def os_def nth_append)
    have step: "pl_remove k (entry_slot e) words l = Some (if pl_count ?r = 0 then touch (?r\<lparr>pl_data := [], pl_blocks := []\<rparr>) else ?r)"
      unfolding pl_remove_def bo [folded d_def] option.case prod.case if_not_P [OF False] dd sp(4) sum.case block_decoded(2) [OF b] os_def [symmetric]
        vec_remove_map [symmetric] r(1) option.map Let_def by (rule refl)
    show ?thesis
    proof (cases "pl_count ?r = 0")
      case True
      have "pl_count ?r = of_nat (length ?all)" "length ?all < 2 ^ 32" using list_ok_counts [OF ok] by auto
      then have "unat (of_nat (length ?all) :: u32) = 0" "length ?all < 2 ^ 32" using True by (auto simp del: entries_simps)
      then have em: "?all = []" using unat_of_nat32 [of "length ?all"] by (simp del: entries_simps)
      let ?t = "touch (?r\<lparr>pl_data := [], pl_blocks := []\<rparr>)"
      have "list_ok words ?t []"
        using list_ok_counts [OF ok] em by (intro list_okI) (simp_all add: blocks_hold_def run_ok_def summary_touch positives_def)
      then show ?thesis using step True sets em sp(1) by (intro exI [of _ ?t] exI [of _ "[]"]) (simp del: entries_simps(2,3))
    next
      case f: False
      then show ?thesis using step ok sets sp(1) by (intro exI [of _ ?r] exI [of _ "pre @ new @ post"]) (simp del: entries_simps)
    qed
  qed
qed

section \<open>Changed lengths\<close>

lemma invalidate_length_ok:
  assumes "list_ok words l parts" "e0 \<in> set (entries parts)" "slot \<le> entry_slot e0" "words_ok words'" "\<forall>s. s \<noteq> slot \<longrightarrow> words' s = words s"
  shows "\<exists>l' parts'. invalidate_length slot l = Some l' \<and> list_ok words' l' parts' \<and> entries parts' = entries parts"
proof -
  obtain pre p post where sp: "parts = pre @ p # post" "partition_point (\<lambda>b. blk_last b < slot) (pl_blocks l) = length pre"
    "\<forall>e \<in> set (entries pre). entry_slot e < slot" "slot \<le> part_last p" "\<forall>e \<in> set (entries post). slot < entry_slot e" "part_ok (fst p)"
    using find_part [OF assms(1-3)] .
  have b: "blocks_hold l (pre @ p # post)" using assms(1) sp(1) by (simp add: list_ok_def)
  let ?p = "(fst p, 0, None) :: part" let ?start = "length (parts_bytes pre)" let ?stop = "?start + length (entry_bytes (fst p))"
  have blocks: "pl_blocks l = layout 0 pre @ entry_block ?start (fst p) (snd p) # layout ?stop post"
    using b by (cases p) (simp add: blocks_hold_def layout_append)
  let ?b = "(pl_blocks l ! length pre)\<lparr>min_words := 0, blk_frontier := None\<rparr>"
  have nb: "?b = entry_block ?start (fst p) (0, None)" by (simp add: blocks nth_append entry_block_def)
  let ?l = "touch (l\<lparr>pl_blocks := (pl_blocks l)[length pre := ?b]\<rparr>)"
  have "(pl_blocks l)[length pre := ?b] = layout 0 (pre @ ?p # post)"
    unfolding nb by (simp add: blocks layout_append list_update_append)
  then have hold: "blocks_hold ?l (pre @ ?p # post)" using b by (auto simp: blocks_hold_def)
  have same: "covers words' q" if "q \<in> set pre \<union> set post" for q
  proof -
    have "\<forall>e \<in> set (fst q). entry_slot e \<noteq> slot" using that sp(3,5) by (fastforce simp: entries_def)
    then have "\<forall>e \<in> set (fst q). words' (entry_slot e) = words (entry_slot e)" using assms(5) by auto
    moreover have "covers words q" using covers_parts [OF assms(1) [unfolded sp(1)] that] .
    ultimately show ?thesis by (cases q) (auto simp: covers_def split: option.splits)
  qed
  have e: "entries (pre @ ?p # post) = entries parts" by (simp add: sp(1))
  have "covers words' ?p" by (simp add: covers_def)
  then have "list_ok words' ?l (pre @ ?p # post)"
    using list_ok_counts [OF assms(1)] list_ok_run [OF assms(1)] same summary_touch
    by (intro list_okI [OF hold]) (auto simp only: e set_append list.set Un_iff insert_iff, simp_all)
  moreover have "length pre < length (pl_blocks l)" by (simp add: blocks)
  then have "invalidate_length slot l = Some ?l" by (simp add: invalidate_length_def sp(2) Let_def)
  ultimately show ?thesis using e by blast
qed

section \<open>Merging a run\<close>

fun merge_entries :: "entry list \<Rightarrow> entry list \<Rightarrow> entry list" where
  "merge_entries [] [] = []"
| "merge_entries [] (y # b) = y # merge_entries [] b"
| "merge_entries (x # a) [] = x # merge_entries a []"
| "merge_entries (x # a) (y # b) = (if entry_slot x < entry_slot y then x # merge_entries a (y # b) else y # merge_entries (x # a) b)"

lemma merge_entries_Nil [simp]: "merge_entries [] b = b" "merge_entries a [] = a"
proof -
  show "merge_entries [] b = b" by (induction b) simp_all
  show "merge_entries a [] = a" by (induction a) simp_all
qed

lemma merge_entries_set: "set (merge_entries a b) = set a \<union> set b"
  by (induction a b rule: merge_entries.induct) auto

lemma merge_entries_length: "length (merge_entries a b) = length a + length b"
  by (induction a b rule: merge_entries.induct) auto

definition apart :: "entry list \<Rightarrow> entry list \<Rightarrow> bool" where
  "apart a b \<longleftrightarrow> (\<forall>x \<in> set a. \<forall>y \<in> set b. entry_slot x \<noteq> entry_slot y)"

lemma run_ok_Cons: "run_ok (x # a) \<longleftrightarrow> run_ok a \<and> (\<forall>y \<in> set a. entry_slot x < entry_slot y) \<and> entry_slot x < 2 ^ 64"
  by (auto simp: run_ok_def)

lemma merge_entries_run: "run_ok a \<Longrightarrow> run_ok b \<Longrightarrow> apart a b \<Longrightarrow> run_ok (merge_entries a b)"
proof (induction a b rule: merge_entries.induct)
  case (4 x a y b)
  show ?case
  proof (cases "entry_slot x < entry_slot y")
    case True
    then have "\<forall>z \<in> set (merge_entries a (y # b)). entry_slot x < entry_slot z"
      using "4.prems"(1,2) unfolding run_ok_Cons merge_entries_set by (auto dest: less_trans)
    then show ?thesis using 4 True by (auto simp: run_ok_Cons apart_def)
  next
    case False
    then have lt: "entry_slot y < entry_slot x" using "4.prems"(3) by (force simp: apart_def)
    then have "\<forall>z \<in> set (merge_entries (x # a) b). entry_slot y < entry_slot z"
      using "4.prems"(1,2) unfolding run_ok_Cons merge_entries_set by (auto dest: less_trans)
    then show ?thesis using 4 False by (auto simp: run_ok_Cons apart_def)
  qed
qed (simp_all add: run_ok_Cons)

lemma merge_sorted_Nil [simp]: "merge_sorted a [] = Some a"
  by (cases a) simp_all

lemma merge_sorted_ok: "apart a b \<Longrightarrow> merge_sorted (map fst a) (map fst b) = Some (map fst (merge_entries a b))"
proof (induction a b rule: merge_entries.induct)
  case (4 x a y b)
  have "entry_slot x \<noteq> entry_slot y" using "4.prems" by (simp add: apart_def)
  then show ?case using 4 by (auto simp: apart_def)
qed simp_all

lemma ordinal_from_run:
  assumes "pos < length run" "run ! pos = fst y" "pos < length ordinals \<and> ordinals ! pos = snd y \<or> length ordinals \<le> pos \<and> snd y = 0"
  shows "merge_ordinals k l run ordinals pos c (fst y # merged) = map_option ((#) (snd y)) (merge_ordinals k l run ordinals (pos + 1) c merged)"
  using assms by auto

lemma ordinal_from_list:
  assumes "blocks_hold l parts" "slots_ok parts" "cursor_ok parts c" "cursor_rest parts c = old @ x # a" "\<forall>d \<in> set old. entry_slot d < entry_slot x"
    "pos < length run \<longrightarrow> fst (run ! pos) \<noteq> entry_slot x"
  obtains c' where "cursor_ok parts c'" "cursor_rest parts c' = x # a"
    "merge_ordinals k l run ordinals pos c (fst x # merged) = map_option ((#) (snd x)) (merge_ordinals k l run ordinals pos c' merged)"
proof -
  obtain c' where c': "cursor_advance k l (entry_slot x) c = Some (cursor_peek c', c')" "cursor_ok parts c'"
    "cursor_rest parts c' = dropWhile (\<lambda>e. entry_slot e < entry_slot x) (cursor_rest parts c)"
    using cursor_advance_ok [OF assms(1-3), of k "entry_slot x"] by blast
  have rest: "cursor_rest parts c' = x # a" using c'(3) assms(4,5) by (simp add: dropWhile_append2)
  then have "cursor_peek c' = Some (fst x)" using cursor_peek_ok [OF assms(1) c'(2)] by simp
  then have "merge_ordinals k l run ordinals pos c (fst x # merged) = map_option ((#) (snd x)) (merge_ordinals k l run ordinals pos c' merged)"
  proof -
    assume pk: "cursor_peek c' = Some (fst x)"
    have np: "\<not> (pos < length run \<and> fst (run ! pos) = entry_slot x)" using assms(6) by blast
    show ?thesis
      unfolding merge_ordinals.simps if_not_P [OF np] c'(1) pk option.case prod.case option.map
      using cursor_ordinal_ok [OF assms(1) c'(2) rest] by simp
  qed
  then show ?thesis using that [OF c'(2) rest] by blast
qed

definition run_ordinals :: "Posting list \<Rightarrow> u32 list \<Rightarrow> nat \<Rightarrow> entry list \<Rightarrow> bool" where
  "run_ordinals run ordinals pos b \<longleftrightarrow> pos \<le> length run \<and> drop pos run = map fst b \<and>
     (pos \<le> length ordinals \<and> drop pos ordinals = map snd b \<or> ordinals = [] \<and> (\<forall>y \<in> set b. snd y = 0))"

lemma run_ordinals_Cons:
  assumes "run_ordinals run ordinals pos (y # b)"
  shows "pos < length run" "run ! pos = fst y" "pos < length ordinals \<and> ordinals ! pos = snd y \<or> length ordinals \<le> pos \<and> snd y = 0"
    "run_ordinals run ordinals (pos + 1) b"
proof -
  have d: "drop pos run = fst y # map fst b" using assms by (simp add: run_ordinals_def)
  then show l: "pos < length run" by (metis drop_all leI list.distinct(1))
  have r: "run ! pos = fst y \<and> drop (Suc pos) run = map fst b" using d l by (metis Cons_nth_drop_Suc list.inject)
  then show "run ! pos = fst y" by simp
  have o: "pos < length ordinals \<and> ordinals ! pos = snd y \<and> drop (Suc pos) ordinals = map snd b \<or> ordinals = [] \<and> snd y = 0 \<and> (\<forall>y \<in> set b. snd y = 0)"
  proof (cases "ordinals = [] \<and> (\<forall>y \<in> set (y # b). snd y = 0)")
    case False
    then have do: "drop pos ordinals = snd y # map snd b" using assms by (auto simp: run_ordinals_def)
    then have "pos < length ordinals" by (metis drop_all leI list.distinct(1))
    then show ?thesis using do by (metis Cons_nth_drop_Suc list.inject)
  qed simp
  then show "pos < length ordinals \<and> ordinals ! pos = snd y \<or> length ordinals \<le> pos \<and> snd y = 0" by auto
  show "run_ordinals run ordinals (pos + 1) b" using l r o by (auto simp: run_ordinals_def)
qed

lemma merge_ordinals_ok:
  assumes "blocks_hold l parts" "slots_ok parts"
  shows "cursor_ok parts c \<Longrightarrow> cursor_rest parts c = old @ a \<Longrightarrow> \<forall>d \<in> set old. \<forall>x \<in> set a. entry_slot d < entry_slot x \<Longrightarrow> run_ok a \<Longrightarrow>
    apart a b \<Longrightarrow> run_ordinals run ordinals pos b \<Longrightarrow>
    merge_ordinals k l run ordinals pos c (map fst (merge_entries a b)) = Some (map snd (merge_entries a b))"
proof (induction a b arbitrary: c old pos rule: merge_entries.induct)
  case (2 y b)
  note y = run_ordinals_Cons [OF "2.prems"(6)]
  have "apart [] b" by (simp add: apart_def)
  then show ?case using "2.IH" [OF "2.prems"(1) "2.prems"(2) _ "2.prems"(4) _ y(4)] ordinal_from_run [OF y(1-3)] by simp
next
  case (3 x a)
  have p: "pos < length run \<longrightarrow> fst (run ! pos) \<noteq> entry_slot x" using "3.prems"(6) by (auto simp: run_ordinals_def)
  have d: "\<forall>d \<in> set old. entry_slot d < entry_slot x" using "3.prems"(3) by simp
  obtain c' where c': "cursor_ok parts c'" "cursor_rest parts c' = x # a"
    "merge_ordinals k l run ordinals pos c (fst x # map fst a) = map_option ((#) (snd x)) (merge_ordinals k l run ordinals pos c' (map fst a))"
    using ordinal_from_list [OF assms "3.prems"(1,2) d p] by blast
  have "cursor_rest parts c' = [x] @ a" "\<forall>d \<in> set [x]. \<forall>y \<in> set a. entry_slot d < entry_slot y" "run_ok a" "apart a []"
    using c'(2) "3.prems"(4) by (auto simp: run_ok_Cons apart_def)
  then show ?case using "3.IH" [OF c'(1) _ _ _ _ "3.prems"(6)] c'(3) by simp
next
  case (4 x a y b)
  note y = run_ordinals_Cons [OF "4.prems"(6)]
  have ne: "entry_slot x \<noteq> entry_slot y" using "4.prems"(5) by (simp add: apart_def)
  show ?case
  proof (cases "entry_slot x < entry_slot y")
    case True
    have d: "\<forall>d \<in> set old. entry_slot d < entry_slot x" using "4.prems"(3) by simp
    have p: "pos < length run \<longrightarrow> fst (run ! pos) \<noteq> entry_slot x" using y(2) ne by simp
    obtain c' where c': "cursor_ok parts c'" "cursor_rest parts c' = x # a"
      "merge_ordinals k l run ordinals pos c (fst x # map fst (merge_entries a (y # b)))
        = map_option ((#) (snd x)) (merge_ordinals k l run ordinals pos c' (map fst (merge_entries a (y # b))))"
      using ordinal_from_list [OF assms "4.prems"(1,2) d p] by blast
    have "cursor_rest parts c' = [x] @ a" "\<forall>d \<in> set [x]. \<forall>y \<in> set a. entry_slot d < entry_slot y" "run_ok a" "apart a (y # b)"
      using c'(2) "4.prems"(4,5) by (auto simp: run_ok_Cons apart_def)
    then show ?thesis using "4.IH"(1) [OF True c'(1) _ _ _ _ "4.prems"(6)] c'(3) True by simp
  next
    case False
    have "apart (x # a) b" using "4.prems"(5) by (simp add: apart_def)
    then show ?thesis
      using "4.IH"(2) [OF False "4.prems"(1,2,3,4) _ y(4)] ordinal_from_run [OF y(1-3)] False by simp
  qed
qed (simp add: run_ordinals_def)

section \<open>Appending a run\<close>

lemma max_frequency_covers: "e \<in> set es \<Longrightarrow> snd (fst e) \<le> max_u32 (map (snd \<circ> fst) es)"
  using max_u32_ge [of "snd (fst e)" "map (snd \<circ> fst) es"] by force

lemma grown_covers:
  assumes "covers words (es, w, fr)" "part_ok es" "words_ok words" "new \<noteq> []" "length es + length new \<le> BLOCK_LEN"
  obtains fr' where "frontier ((case fr of Some f \<Rightarrow> f | None \<Rightarrow> [(max_u32 (map (snd \<circ> fst) es), w)]) @ points_of words (map fst new)) = Some fr'"
    "covers words (es @ new, min (least_words words (map fst new)) w, fr')"
proof -
  let ?old = "case fr of Some f \<Rightarrow> f | None \<Rightarrow> [(max_u32 (map (snd \<circ> fst) es), w)]"
  let ?ps = "?old @ points_of words (map fst new)"
  have c: "w \<noteq> 0xFFFFFFFF" "\<forall>e \<in> set es. w \<le> words (entry_slot e)" using assms(1) by (auto simp: covers_def)
  have ol: "length ?old \<le> length es" "\<forall>q \<in> set ?old. snd q \<noteq> 0xFFFFFFFF"
    using assms(1,2) c(1) by (auto simp: covers_def part_ok_def Suc_le_eq split: option.splits)
  have od: "\<exists>q \<in> set ?old. dominates q (snd (fst e), words (entry_slot e))" if "e \<in> set es" "snd (fst e) > 0" for e
    using that assms(1) c(2) max_frequency_covers [OF that(1)] by (auto simp: covers_def dominates_def split: option.splits)
  have len: "length ?ps \<le> BLOCK_LEN" using ol(1) assms(5) by (simp add: points_of_def)
  have fin: "\<forall>p \<in> set ?ps. snd p \<noteq> 0xFFFFFFFF" using ol(2) assms(3) by (auto simp: points_of_def words_ok_def)
  obtain fr' where fr': "frontier ?ps = Some fr'" "\<forall>kept. fr' = Some kept \<longrightarrow> is_frontier ?ps kept" using frontier_ok [OF len fin] by blast
  have nn: "map fst new \<noteq> []" using assms(4) by simp
  have lw: "least_words words (map fst new) \<noteq> 0xFFFFFFFF" "\<forall>e \<in> set new. least_words words (map fst new) \<le> words (entry_slot e)"
    using least_words_ok(1) [OF nn, of words] least_words_ok(2) [OF nn] assms(3) by (auto simp: words_ok_def)
  have dom: "\<exists>q \<in> set kept. dominates q (snd (fst e), words (entry_slot e))"
    if k: "is_frontier ?ps kept" and e: "e \<in> set (es @ new)" "snd (fst e) > 0" for kept e
  proof -
    obtain q where q: "q \<in> set ?ps" "dominates q (snd (fst e), words (entry_slot e))"
    proof (cases "e \<in> set es")
      case True
      then obtain q where "q \<in> set ?old" "dominates q (snd (fst e), words (entry_slot e))" using od [OF True e(2)] by blast
      then show ?thesis using that [of q] by simp
    next
      case False
      then have "(snd (fst e), words (entry_slot e)) \<in> set (points_of words (map fst new))" using e(1) by (force simp: points_of_def)
      then show ?thesis using that [of "(snd (fst e), words (entry_slot e))"] by (simp add: dominates_def)
    qed
    moreover have "fst q > 0" using q(2) e(2) by (auto simp: dominates_def elim: less_le_trans)
    ultimately obtain x where x: "x \<in> set kept" "dominates x q" using k by (auto simp: is_frontier_def)
    show ?thesis using x(1) dominates_trans [OF x(2) q(2)] by blast
  qed
  have "length kept \<le> length (es @ new) \<and> (\<forall>q \<in> set kept. snd q \<noteq> 0xFFFFFFFF)" if "is_frontier ?ps kept" for kept
    using that fin ol(1) by (auto simp: is_frontier_def points_of_def)
  then have "covers words (es @ new, min (least_words words (map fst new)) w, fr')"
    using fr'(2) dom lw c by (auto simp: covers_def min_def split: option.split)
  then show ?thesis using that fr'(1) by blast
qed

lemma decode_data:
  "pl_data a = pl_data b \<Longrightarrow> decode_values k a blk out = decode_values k b blk out"
  "pl_data a = pl_data b \<Longrightarrow> decode_ordinals k a blk = decode_ordinals k b blk"
  by (simp_all add: decode_values_def decode_ordinals_def ordinal_bytes_def Let_def)

lemma fill_last_ok:
  assumes "list_ok words l parts" "words_ok words" "run_ok (entries parts @ es)" "es \<noteq> []" "ordinals_for ordinals es"
  shows "\<exists>l' parts' n. fill_last k (map fst es) ordinals words l = Some (l', n) \<and> n \<le> length es \<and> blocks_hold l' parts' \<and>
    entries parts' = entries parts @ take n es \<and> (\<forall>p \<in> set parts'. covers words p) \<and> summary_ok l' \<and> same_counts l l'"
proof (cases "pl_blocks l \<noteq> [] \<and> blk_count (last (pl_blocks l)) < BLOCK_LEN")
  case False
  then show ?thesis
    using assms(1) unfolding fill_last_def if_not_P [OF False]
    by (intro exI [of _ l] exI [of _ parts] exI [of _ 0]) (auto simp: list_ok_def same_counts_def)
next
  case room: True
  have b: "blocks_hold l parts" using assms(1) by (simp add: list_ok_def)
  have "parts \<noteq> []" using room blocks_empty [OF b] by blast
  then obtain ps p where p: "parts = ps @ [p]" by (metis rev_exhaust)
  obtain eo w fr where eo: "p = (eo, w, fr)" by (cases p) auto
  let ?start = "length (parts_bytes ps)" let ?blk = "entry_block ?start eo (w, fr)"
  have blocks: "pl_blocks l = layout 0 ps @ [?blk]" and data: "pl_data l = parts_bytes ps @ entry_bytes eo"
    using b p eo by (simp_all add: blocks_hold_def layout_append)
  have po: "part_ok eo" and cov: "covers words (eo, w, fr)" using b assms(1) p eo by (auto simp: blocks_hold_def list_ok_def)
  have at: "block_at l ?blk eo" using po data unfolding block_at_def by (metis append_Nil2)
  note f = block_at_fields [OF at]
  have lb: "last (pl_blocks l) = ?blk" by (simp add: blocks)
  have old: "length eo < BLOCK_LEN" using room lb f(1) by simp
  define taken where "taken = min (BLOCK_LEN - length eo) (length es)"
  let ?new = "take taken es"
  have tl: "taken \<le> length es" "length eo + taken \<le> BLOCK_LEN" "?new \<noteq> []" "length ?new = taken"
    using old assms(4) by (auto simp: taken_def)
  let ?l1 = "l\<lparr>pl_blocks := butlast (pl_blocks l)\<rparr>"
  define d where "d = map fst eo @ drop (length eo) zero_block"
  define os where "os = map snd eo @ replicate (BLOCK_LEN - length eo) (0 :: u32)"
  have dv: "decode_values k ?l1 ?blk zero_block = Some d" "decode_ordinals k ?l1 ?blk = Some os"
    using decode_values_at [OF at, of k zero_block] decode_ordinals_at [OF at, of k] decode_data [of ?l1 l] by (simp_all add: d_def os_def)
  have td: "take (length eo) d @ take taken (map fst es) = map fst (eo @ ?new)" by (simp add: d_def take_map)
  have to: "take (length eo) os @ (if ordinals \<noteq> [] then take taken ordinals else take taken (drop (length eo) os)) = map snd (eo @ ?new)"
  proof (cases "ordinals = []")
    case True
    then have "\<forall>e \<in> set es. snd e = 0" using assms(4,5) by (auto simp: ordinals_for_def)
    then have "map snd ?new = replicate taken 0" using tl(4) by (intro replicate_eqI) (auto dest: in_set_takeD)
    moreover have "take taken (drop (length eo) os) = replicate taken 0" using tl(2) by (simp add: os_def)
    ultimately show ?thesis using True by (simp add: os_def)
  next
    case False
    then show ?thesis using assms(5) by (auto simp: ordinals_for_def os_def take_map)
  qed
  obtain fr' where fr': "frontier ((case fr of Some f \<Rightarrow> f | None \<Rightarrow> [(max_u32 (map (snd \<circ> fst) eo), w)]) @ points_of words (map fst ?new)) = Some fr'"
    "covers words (eo @ ?new, min (least_words words (map fst ?new)) w, fr')"
    using grown_covers [OF cov po assms(2) tl(3)] tl(2,4) by metis
  have pn: "part_ok (eo @ ?new)"
  proof -
    have "run_ok (eo @ es)" using assms(3) p eo by (auto simp: run_ok_def sorted_wrt_append)
    then have "run_ok (take (length eo + taken) (eo @ es))" by (rule run_ok_take(1))
    then have "run_ok (eo @ ?new)" by simp
    then show ?thesis using tl(2,3,4) by (intro run_ok_part) auto
  qed
  let ?l2 = "?l1\<lparr>pl_data := take ?start (pl_data l)\<rparr>"
  have bl: "butlast (pl_blocks l) = layout 0 ps" by (simp add: blocks)
  have "\<forall>q \<in> set ps. part_ok (fst q)" using b p by (simp add: blocks_hold_def)
  then have b2: "blocks_hold ?l2 ps" by (simp add: blocks_hold_def bl data)
  obtain r where r: "append_block (map fst (eo @ ?new)) (map snd (eo @ ?new)) (min (least_words words (map fst ?new)) w) fr' ?l2 = Some r"
    "blocks_hold r (ps @ [(eo @ ?new, min (least_words words (map fst ?new)) w, fr')])"
    "pl_count r = pl_count ?l2" "positive_count r = positive_count ?l2" "pl_last r = pl_last ?l2"
    using append_block_ok [OF b2 pn] by blast
  have bc: "blk_count ?blk = length eo" "blk_offset ?blk = ?start" "min_words ?blk = w" "blk_frontier ?blk = fr"
    "max_frequency ?blk = max_u32 (map (snd \<circ> fst) eo)" by (simp_all add: entry_block_def)
  have tm: "take taken (map fst es) = map fst ?new" by (simp add: take_map)
  have "fill_last k (map fst es) ordinals words l = Some (r, taken)"
    unfolding fill_last_def if_P [OF room]
    unfolding Let_def lb bc length_map taken_def [symmetric] tm dv option.case prod.case td [unfolded tm] to fr'(1)
    using r(1) by simp
  moreover have "\<forall>q \<in> set (ps @ [(eo @ ?new, min (least_words words (map fst ?new)) w, fr')]). covers words q"
    using fr'(2) assms(1) p by (auto simp: list_ok_def)
  ultimately show ?thesis
    using r tl(1) p eo append_block_summary [OF r(1)]
    by (intro exI [of _ r] exI [of _ "ps @ [(eo @ ?new, min (least_words words (map fst ?new)) w, fr')]"] exI [of _ taken]) (simp add: same_counts_def)
qed

lemma slot_le_word: "a < 2 ^ 64 \<Longrightarrow> b < 2 ^ 64 \<Longrightarrow> (of_nat a :: u64) \<le> of_nat b \<longleftrightarrow> a \<le> b"
  by (simp add: word_le_nat_alt unsigned_of_nat take_bit_nat_eq_self)

lemma append_end_ok:
  assumes "list_ok words l parts" "words_ok words" "run_ok (entries parts @ es)" "es \<noteq> []" "ordinals_for ordinals es"
    "length (entries parts) + length es < 2 ^ 32" "\<not> (pl_count l > 0 \<and> of_nat (fst (hd (map fst es))) \<le> pl_last l)"
  shows "\<exists>l' parts'. append_run_with_ordinals k (map fst es) ordinals words l = Some l' \<and> list_ok words l' parts' \<and>
    entries parts' = entries parts @ es"
proof -
  obtain l1 ps n where l1: "fill_last k (map fst es) ordinals words l = Some (l1, n)" "n \<le> length es" "blocks_hold l1 ps"
    "entries ps = entries parts @ take n es" "\<forall>p \<in> set ps. covers words p" "summary_ok l1" "same_counts l l1"
    using fill_last_ok [OF assms(1-5)] by blast
  have "run_ok (drop (length (entries parts)) (entries parts @ es))" using run_ok_take(2) [OF assms(3)] .
  then have rd: "run_ok (drop n es)" using run_ok_take(2) [of es n] by simp
  have o: "ordinals = [] \<and> (\<forall>e \<in> set (drop n es). snd e = 0) \<or> drop n es = [] \<or> n \<le> length ordinals \<and> drop n ordinals = map snd (drop n es)"
    using assms(5) l1(2) by (auto simp: ordinals_for_def drop_map dest: in_set_dropD)
  obtain l2 new where l2: "append_chunks words ordinals n (slice_chunks BLOCK_LEN (map fst (drop n es))) l1 = Some l2" "blocks_hold l2 (ps @ new)"
    "entries new = drop n es" "\<forall>p \<in> set new. covers words p" "same_counts l1 l2"
    using append_chunks_ok [OF l1(3) rd assms(2) o] by blast
  have all: "entries (ps @ new) = entries parts @ es" using l1(4) l2(3) by simp
  note old = list_ok_counts [OF assms(1)]
  have u: "unat (pl_count l2) = length (entries parts)" using old(1,4) l1(7) l2(5) unat_of_nat32 by (simp add: same_counts_def)
  let ?r = "l2\<lparr>pl_count := of_nat (length (entries parts) + length es), positive_count := positive_count l2 + positives (map fst es),
    pl_last := of_nat (entry_slot (last es))\<rparr>"
  have "append_run_with_ordinals k (map fst es) ordinals words l = Some ?r"
  proof -
    have "ordinals = [] \<or> length ordinals = length (map fst es)" "map fst es \<noteq> []" using assms(4,5) by (auto simp: ordinals_for_def)
    then show ?thesis
      unfolding append_run_with_ordinals_def if_not_P [OF assms(7)] l1(1) option.case prod.case drop_map l2(1) u
      using assms(4,6) by (simp add: last_map)
  qed
  moreover have "list_ok words ?r (ps @ new)"
  proof (rule list_okI)
    show "blocks_hold ?r (ps @ new)" using l2(2) hold_cong [of ?r l2] by simp
    show "run_ok (entries (ps @ new))" using assms(3) all by simp
    show "covers words p" if "p \<in> set (ps @ new)" for p using that l1(5) l2(4) by auto
    show "summary_ok ?r" using append_chunks_summary [OF l2(1) l1(6)] summary_cong [of ?r l2] by simp
    show "length (entries (ps @ new)) < 2 ^ 32" unfolding all using assms(6) by simp
    show "pl_count ?r = of_nat (length (entries (ps @ new)))" unfolding all by simp
    show "positive_count ?r = positives (map fst (entries (ps @ new)))"
      unfolding all using old(2) l1(7) l2(5) by (simp add: same_counts_def positives_def)
    show "pl_last ?r = (if entries (ps @ new) = [] then 0 else of_nat (entry_slot (last (entries (ps @ new)))))"
      unfolding all using assms(4) by simp
  qed
  ultimately show ?thesis using all by blast
qed

lemma append_merge_ok:
  assumes "list_ok words l parts" "words_ok words" "run_ok es" "apart (entries parts) es" "ordinals_for ordinals es" "length es \<noteq> 1" "es \<noteq> []"
    "length (entries parts) + length es < 2 ^ 32" "pl_count l > 0 \<and> of_nat (fst (hd (map fst es))) \<le> pl_last l"
  shows "\<exists>l' parts'. append_run_with_ordinals k (map fst es) ordinals words l = Some l' \<and> list_ok words l' parts' \<and>
    set (entries parts') = set (entries parts) \<union> set es"
proof -
  have b: "blocks_hold l parts" "slots_ok parts" using assms(1) by (auto simp: list_ok_def)
  note run = list_ok_run [OF assms(1)]
  let ?m = "merge_entries (entries parts) es"
  obtain c where c: "cursor_new l = Some c" "cursor_ok parts c" "cursor_rest parts c = entries parts" using cursor_new_ok [OF b(1)] .
  have ro: "run_ordinals (map fst es) ordinals 0 es" using assms(5) by (auto simp: run_ordinals_def ordinals_for_def)
  have mo: "merge_ordinals k l (map fst es) ordinals 0 c (map fst ?m) = Some (map snd ?m)"
    using merge_ordinals_ok [OF b c(2), of "[]" "entries parts" es] c(3) run assms(4) ro by simp
  have rm: "run_ok ?m" using merge_entries_run [OF run assms(3,4)] .
  have "length ?m < 2 ^ 32" using assms(8) by (simp add: merge_entries_length)
  then obtain l' parts' where e: "encode_with_ordinals (map fst ?m) (map snd ?m) words l = Some l'" "list_ok words l' parts'" "entries parts' = ?m"
    using encode_ok [OF rm assms(2), of "map snd ?m" l] by (auto simp: ordinals_for_def)
  have "ordinals = [] \<or> length ordinals = length (map fst es)" "map fst es \<noteq> []" "length (map fst es) \<noteq> 1" using assms(5,6,7) by (auto simp: ordinals_for_def)
  then have "append_run_with_ordinals k (map fst es) ordinals words l = Some l'"
    unfolding append_run_with_ordinals_def if_P [OF assms(9)] pl_decode_ok [OF b(1)] option.case merge_sorted_ok [OF assms(4)] c(1) mo e(1) by simp
  then show ?thesis using e(2,3) merge_entries_set by metis
qed

lemma append_run_ok:
  assumes "list_ok words l parts" "words_ok words" "run_ok es" "apart (entries parts) es" "ordinals_for ordinals es"
    "length (entries parts) + length es < 2 ^ 32"
  shows "\<exists>l' parts'. append_run_with_ordinals k (map fst es) ordinals words l = Some l' \<and> list_ok words l' parts' \<and>
    set (entries parts') = set (entries parts) \<union> set es"
proof -
  note run = list_ok_run [OF assms(1)] note old = list_ok_counts [OF assms(1)]
  consider "es = []" | (late) "es \<noteq> []" "\<not> (pl_count l > 0 \<and> of_nat (fst (hd (map fst es))) \<le> pl_last l)"
    | (one) e where "es = [e]" "pl_count l > 0 \<and> of_nat (fst (hd (map fst es))) \<le> pl_last l"
    | (merge) "es \<noteq> []" "length es \<noteq> 1" "pl_count l > 0 \<and> of_nat (fst (hd (map fst es))) \<le> pl_last l"
    by (metis length_0_conv length_Suc_conv One_nat_def)
  then show ?thesis
  proof cases
    case 1
    then show ?thesis using assms(1,5) by (intro exI [of _ l] exI [of _ parts]) (auto simp: append_run_with_ordinals_def ordinals_for_def)
  next
    case late
    have "run_ok (entries parts @ es)"
    proof (cases "entries parts = []")
      case True
      then show ?thesis using assms(3) by simp
    next
      case False
      let ?z = "last (entries parts)"
      have z: "?z \<in> set (entries parts)" "entry_slot ?z < 2 ^ 64" "entry_slot (hd es) < 2 ^ 64"
        using False run assms(3) late(1) by (auto simp: run_ok_def)
      have "unat (pl_count l) = length (entries parts)" using old(1,4) unat_of_nat32 by simp
      then have "pl_count l > 0" using False by (simp add: word_less_nat_alt)
      then have "\<not> entry_slot (hd es) \<le> entry_slot ?z" using late old(3) False slot_le_word [OF z(3,2)] by (simp add: hd_map)
      then have "entry_slot x < entry_slot y" if "x \<in> set (entries parts)" "y \<in> set es" for x y
      proof -
        have "entry_slot (hd es) \<le> entry_slot y"
          using that(2) assms(3) late(1) by (cases es) (auto simp: run_ok_def less_imp_le)
        then show ?thesis using run_ok_le_last [OF run that(1)] \<open>\<not> entry_slot (hd es) \<le> entry_slot ?z\<close> by linarith
      qed
      then show ?thesis using run assms(3) by (simp add: run_ok_def sorted_wrt_append ball_Un)
    qed
    then show ?thesis using append_end_ok [OF assms(1,2) _ late(1) assms(5,6) late(2)] by fastforce
  next
    case one
    obtain s f m where e: "e = ((s, f), m)" by (metis prod.exhaust)
    have ne: "entries parts \<noteq> []" using one(2) old(1) by auto
    let ?z = "last (entries parts)"
    have z: "?z \<in> set (entries parts)" "entry_slot ?z < 2 ^ 64" "s < 2 ^ 64" using ne run assms(3) one(1) e by (auto simp: run_ok_def)
    have "s \<le> entry_slot ?z" using one old(3) ne slot_le_word [OF z(3,2)] e by simp
    moreover have fresh: "s \<notin> entry_slot ` set (entries parts)" using assms(4) one(1) e by (auto simp: apart_def)
    ultimately have "s < entry_slot ?z" using z(1) by (metis imageI le_neq_implies_less)
    then obtain l' parts' where "pl_insert k (s, f) m words l = Some l'" "list_ok words l' parts'"
      "set (entries parts') = insert ((s, f), m) (set (entries parts))"
      using pl_insert_ok [OF assms(1,2) z(3) fresh z(1)] assms(6) one(1) by fastforce
    moreover have "append_run_with_ordinals k (map fst es) ordinals words l = pl_insert k (s, f) m words l"
      using assms(5) one e by (auto simp: append_run_with_ordinals_def ordinals_for_def)
    ultimately show ?thesis using one(1) e by auto
  next
    case merge
    then show ?thesis using append_merge_ok [OF assms(1-5) merge(2,1) assms(6) merge(3)] by blast
  qed
qed

end
