(* ===== verification/PostingList.thy ===== *)
theory PostingList
  imports PostingEdits
begin

text \<open>
  Posting lists as a whole, \<open>PostingList\<close> of \<open>src/core/documents/postings.rs\<close>: what queries read of a list, and
  what any sequence of edits leaves.  A list refines a finite map from slots to frequency and ordinal,
  and the bounds it keeps for pruning cover every posting.
\<close>

definition pl_len :: "PostingList \<Rightarrow> nat" where "pl_len l = unat (pl_count l)"

definition positive_len :: "PostingList \<Rightarrow> nat" where "positive_len l = unat (positive_count l)"

definition pl_is_empty :: "PostingList \<Rightarrow> bool" where "pl_is_empty l \<longleftrightarrow> pl_count l = 0"

definition mark_slot :: "usize \<Rightarrow> u64 list \<Rightarrow> u64 list option" where
  "mark_slot slot matched =
     (if slot div 64 < length matched
      then Some (matched[slot div 64 := matched ! (slot div 64) OR push_bit (slot mod 64) 1]) else None)"

fun mark_all :: "usize list \<Rightarrow> u64 list \<Rightarrow> u64 list option" where
  "mark_all [] matched = Some matched"
| "mark_all (slot # slots) matched = (case mark_slot slot matched of None \<Rightarrow> None | Some matched \<Rightarrow> mark_all slots matched)"

text \<open>One block of the path that reads gaps only; the slots are marked before the end is checked.\<close>

definition mark_block :: "kernel \<Rightarrow> PostingList \<Rightarrow> Block \<Rightarrow> u64 list \<Rightarrow> u64 list option" where
  "mark_block k l b matched =
     (case slice_from (pl_data l) (blk_offset b) of
        None \<Rightarrow> None
      | Some bytes \<Rightarrow>
          (case unpack_values k bytes (blk_count b) (doc_bits b) of
             None \<Rightarrow> None
           | Some gaps \<Rightarrow>
               let slots = running (of_nat (blk_first b)) gaps
               in case mark_all (map unat slots) matched of
                    None \<Rightarrow> None
                  | Some matched \<Rightarrow> if last (of_nat (blk_first b) # slots) = of_nat (blk_last b) then Some matched else None))"

fun mark_blocks :: "kernel \<Rightarrow> PostingList \<Rightarrow> Block list \<Rightarrow> u64 list \<Rightarrow> u64 list option" where
  "mark_blocks k l [] matched = Some matched"
| "mark_blocks k l (b # bs) matched = (case mark_block k l b matched of None \<Rightarrow> None | Some matched \<Rightarrow> mark_blocks k l bs matched)"

definition mark_slots :: "kernel \<Rightarrow> PostingList \<Rightarrow> u64 list \<Rightarrow> u64 list option" where
  "mark_slots k l matched =
     (if positive_count l \<noteq> pl_count l then
        case pl_for_each k l (\<lambda>acc p. case acc of None \<Rightarrow> None | Some m \<Rightarrow> if snd p > 0 then mark_slot (fst p) m else Some m) (Some matched) of
          None \<Rightarrow> None
        | Some r \<Rightarrow> r
      else mark_blocks k l (pl_blocks l) matched)"

text \<open>The check of the test suite that the bounds of every block hold for its postings.\<close>

definition bounds_cover :: "kernel \<Rightarrow> PostingList \<Rightarrow> (usize \<Rightarrow> u32) \<Rightarrow> bool option" where
  "bounds_cover k l words =
     map_option (\<lambda>oks. list_all id oks)
       (those (map (\<lambda>i. map_option (\<lambda>postings.
           let b = pl_blocks l ! i
           in list_all (\<lambda>(slot, frequency).
                frequency \<le> max_frequency b \<and> min_words b \<le> words slot \<and>
                (frequency = 0 \<or> (case blk_frontier b of None \<Rightarrow> True
                   | Some points \<Rightarrow> list_ex (\<lambda>(f, w). frequency \<le> f \<and> w \<le> words slot) points)))
              (take (blk_count b) postings))
         (decode_block k l i zero_block)) [0..<length (pl_blocks l)]))"

section \<open>Visiting every posting\<close>

lemma zero_block_length: "length zero_block = BLOCK_LEN"
  by (simp add: zero_block_def)

lemma pl_for_each_ok:
  assumes "blocks_hold l parts"
  shows "pl_for_each k l f s = Some (foldl f s (map fst (entries parts)))"
proof -
  let ?step = "\<lambda>acc b. case acc of None \<Rightarrow> None | Some (s, decoded) \<Rightarrow>
    map_option (\<lambda>decoded. (foldl f s (take (blk_count b) decoded), decoded)) (decode_values k l b decoded)"
  have "\<exists>d. foldl ?step (Some (s, d0)) (map (\<lambda>i. pl_blocks l ! i) is) = Some (foldl f s (map fst (concat (map (\<lambda>i. fst (parts ! i)) is))), d)"
    if "set is \<subseteq> {..<length parts}" for "is" d0 s
    using that
  proof (induction "is" arbitrary: s d0)
    case (Cons i "is")
    then have b: "block_at l (pl_blocks l ! i) (fst (parts ! i))" using blocks_hold_at [OF assms] by simp
    then show ?case
      using Cons decode_values_at [OF b, of k d0] block_at_fields(1) [OF b] by simp
  qed simp
  moreover have "set [0..<length parts] \<subseteq> {..<length parts}" by auto
  ultimately have "\<exists>d. foldl ?step (Some (s, zero_block)) (map (\<lambda>i. pl_blocks l ! i) [0..<length parts])
      = Some (foldl f s (map fst (concat (map (\<lambda>i. fst (parts ! i)) [0..<length parts]))), d)" by blast
  moreover have "map (\<lambda>i. pl_blocks l ! i) [0..<length parts] = pl_blocks l"
    using assms map_nth [of "pl_blocks l"] by (simp add: blocks_hold_def)
  moreover have "concat (map (\<lambda>i. fst (parts ! i)) [0..<length parts]) = entries parts"
    using arg_cong [OF map_nth [of parts], of "map fst"] by (simp add: entries_def comp_def)
  ultimately obtain d where "foldl ?step (Some (s, zero_block)) (pl_blocks l) = Some (foldl f s (map fst (entries parts)), d)" by auto
  then show ?thesis by (simp add: pl_for_each_def)
qed

section \<open>Marking slots\<close>

lemma mark_all_append: "mark_all (a @ b) m = (case mark_all a m of None \<Rightarrow> None | Some m \<Rightarrow> mark_all b m)"
  by (induction a m rule: mark_all.induct) (auto split: option.split)

lemma mark_block_ok:
  assumes "block_at l b es"
  shows "mark_block k l b m = mark_all (map entry_slot es) m"
proof -
  obtain pre rest st where p: "part_ok es" "pl_data l = pre @ entry_bytes es @ rest" "b = entry_block (length pre) es st"
    using assms by (auto simp: block_at_def)
  obtain rest' where d: "slice_from (pl_data l) (length pre) = Some (pack (gap_values es) (gap_bits es) @ rest')"
    by (simp add: slice_from_def p(2) entry_bytes_def)
  show ?thesis
    unfolding mark_block_def p(3) entry_block_def Block.simps d option.case gap_slots [OF p(1)] Let_def by (simp split: option.split)
qed

lemma mark_blocks_ok:
  assumes "blocks_hold l parts"
  shows "mark_blocks k l (pl_blocks l) m = mark_all (map entry_slot (entries parts)) m"
proof -
  have "mark_blocks k l (layout off ps) m = mark_all (map entry_slot (entries ps)) m"
    if "\<And>i. i < length ps \<Longrightarrow> block_at l (layout off ps ! i) (fst (ps ! i))" for off ps
    using that
  proof (induction off ps arbitrary: m rule: layout.induct)
    case (2 off es st ps)
    have "block_at l (entry_block off es st) es" using "2.prems" [of 0] by simp
    moreover have "mark_blocks k l (layout (off + length (entry_bytes es)) ps) m = mark_all (map entry_slot (entries ps)) m" for m
      using "2.prems" [of "Suc i" for i] by (intro "2.IH") fastforce
    ultimately show ?case by (simp add: mark_block_ok mark_all_append split: option.split)
  qed simp
  then show ?thesis using blocks_hold_at [OF assms] assms by (simp add: blocks_hold_def)
qed

lemma mark_positive: "foldl (\<lambda>acc p. case acc of None \<Rightarrow> None | Some m \<Rightarrow> if snd p > 0 then mark_slot (fst p) m else Some m) (Some m) (ps :: Posting list)
    = mark_all (map fst (filter (\<lambda>p. snd p > 0) ps)) m"
proof (induction ps arbitrary: m)
  case (Cons p ps)
  have none: "foldl (\<lambda>acc p. case acc of None \<Rightarrow> None | Some m \<Rightarrow> if snd p > 0 then mark_slot (fst p) m else Some m) None qs = None"
    for qs :: "Posting list" by (induction qs) auto
  show ?case using Cons none by (simp split: option.split)
qed simp

lemma mark_slots_all:
  assumes "list_ok words l parts"
  shows "mark_slots k l m = mark_all (map entry_slot (filter (\<lambda>e. snd (fst e) > 0) (entries parts))) m"
proof -
  have b: "blocks_hold l parts" using assms by (simp add: list_ok_def)
  note c = list_ok_counts [OF assms]
  show ?thesis
  proof (cases "positive_count l = pl_count l")
    case True
    let ?pos = "filter (\<lambda>e. snd (fst e) > 0) (entries parts)"
    have "length ?pos < 2 ^ 32" using c(4) by (rule le_less_trans [OF length_filter_le])
    moreover have "unat (positive_count l) = unat (pl_count l)" using True by simp
    moreover have "positive_count l = of_nat (length ?pos)" using c(2) by (simp add: positives_def filter_map comp_def)
    ultimately have "length ?pos = length (entries parts)"
      using c(1,4) unat_of_nat32 [of "length ?pos"] unat_of_nat32 [of "length (entries parts)"] by simp
    then have "?pos = entries parts" by (metis length_filter_less filter_True less_irrefl)
    then show ?thesis using True mark_blocks_ok [OF b] by (simp add: mark_slots_def)
  next
    case False
    then show ?thesis
      by (simp add: mark_slots_def pl_for_each_ok [OF b] mark_positive filter_map comp_def split: option.split)
  qed
qed

lemma mark_all_ok:
  assumes "\<forall>s \<in> set slots. s div 64 < length m"
  shows "\<exists>m'. mark_all slots m = Some m' \<and> length m' = length m \<and>
    (\<forall>s. s div 64 < length m \<longrightarrow> (bit (m' ! (s div 64)) (s mod 64) \<longleftrightarrow> bit (m ! (s div 64)) (s mod 64) \<or> s \<in> set slots))"
  using assms
proof (induction slots arbitrary: m)
  case (Cons t slots)
  let ?m = "m[t div 64 := m ! (t div 64) OR push_bit (t mod 64) 1]"
  obtain m' where m': "mark_all slots ?m = Some m'" "length m' = length m"
    "\<forall>s. s div 64 < length m \<longrightarrow> (bit (m' ! (s div 64)) (s mod 64) \<longleftrightarrow> bit (?m ! (s div 64)) (s mod 64) \<or> s \<in> set slots)"
    using Cons.IH [of ?m] Cons.prems by auto
  have "bit (?m ! (s div 64)) (s mod 64) \<longleftrightarrow> bit (m ! (s div 64)) (s mod 64) \<or> s = t" if "s div 64 < length m" for s
  proof (cases "s div 64 = t div 64")
    case True
    then have "s = t \<longleftrightarrow> s mod 64 = t mod 64" by (metis div_mult_mod_eq)
    then show ?thesis using True that by (auto simp: bit_simps)
  next
    case False
    then show ?thesis by auto
  qed
  then show ?case using m' Cons.prems by (intro exI [of _ m']) (auto simp: mark_slot_def)
qed simp

section \<open>Edits against a map\<close>

text \<open>
  Everything the index does to a list.  \<open>Resize\<close> changes the length of a chunk whose slot the list does not
  have, \<open>Relength\<close> that of one it has, which the index follows by \<open>invalidate_length\<close>.  Queries fill the
  cells of the summary.
\<close>

datatype edit =
    Append "Posting list" "u32 list"
  | Remove usize
  | SetEntry usize u32 "u32 option"
  | Relength usize u32
  | Resize usize u32
  | ReadMaxima
  | ReadRuns

fun pl_edit :: "kernel \<Rightarrow> edit \<Rightarrow> (usize \<Rightarrow> u32) \<times> PostingList \<Rightarrow> ((usize \<Rightarrow> u32) \<times> PostingList) option" where
  "pl_edit k (Append run ordinals) (words, l) = map_option (Pair words) (append_run_with_ordinals k run ordinals words l)"
| "pl_edit k (Remove s) (words, l) = map_option (Pair words) (pl_remove k s words l)"
| "pl_edit k (SetEntry s f om) (words, l) = map_option (Pair words) (pl_set_entry k s f om words l)"
| "pl_edit k (Relength s w) (words, l) = map_option (Pair (words(s := w))) (invalidate_length s l)"
| "pl_edit k (Resize s w) (words, l) = Some (words(s := w), l)"
| "pl_edit k ReadMaxima (words, l) = Some (words, snd (pl_maxima l))"
| "pl_edit k ReadRuns (words, l) = Some (words, snd (pl_runs l))"

fun pl_edits :: "kernel \<Rightarrow> edit list \<Rightarrow> (usize \<Rightarrow> u32) \<times> PostingList \<Rightarrow> ((usize \<Rightarrow> u32) \<times> PostingList) option" where
  "pl_edits k [] st = Some st"
| "pl_edits k (e # es) st = (case pl_edit k e st of None \<Rightarrow> None | Some st \<Rightarrow> pl_edits k es st)"

type_synonym posting_map = "usize \<rightharpoonup> u32 \<times> u32"

definition run_entries :: "Posting list \<Rightarrow> u32 list \<Rightarrow> entry list" where
  "run_entries run ordinals = zip run (if ordinals = [] then replicate (length run) 0 else ordinals)"

fun map_edit :: "edit \<Rightarrow> posting_map \<Rightarrow> posting_map" where
  "map_edit (Append run ordinals) M = M ++ map_of (map (\<lambda>((s, f), m). (s, f, m)) (run_entries run ordinals))"
| "map_edit (Remove s) M = M(s := None)"
| "map_edit (SetEntry s f om) M = (case M s of None \<Rightarrow> M | Some (_, m) \<Rightarrow> M(s \<mapsto> (f, case om of None \<Rightarrow> m | Some m \<Rightarrow> m)))"
| "map_edit _ M = M"

fun edit_ok :: "edit \<Rightarrow> posting_map \<Rightarrow> bool" where
  "edit_ok (Append run ordinals) M \<longleftrightarrow> sorted_wrt (<) (map fst run) \<and> (\<forall>p \<in> set run. fst p < 2 ^ 64 \<and> M (fst p) = None) \<and>
     (ordinals = [] \<or> length ordinals = length run) \<and> card (dom M) + length run < 2 ^ 32"
| "edit_ok (Remove s) M \<longleftrightarrow> M s \<noteq> None"
| "edit_ok (SetEntry s f om) M \<longleftrightarrow> M s \<noteq> None"
| "edit_ok (Relength s w) M \<longleftrightarrow> M s \<noteq> None \<and> w \<noteq> 0xFFFFFFFF"
| "edit_ok (Resize s w) M \<longleftrightarrow> M s = None \<and> w \<noteq> 0xFFFFFFFF"
| "edit_ok _ M \<longleftrightarrow> True"

fun edits_ok :: "edit list \<Rightarrow> posting_map \<Rightarrow> bool" where
  "edits_ok [] M \<longleftrightarrow> True"
| "edits_ok (e # es) M \<longleftrightarrow> edit_ok e M \<and> edits_ok es (map_edit e M)"

definition map_entries :: "posting_map \<Rightarrow> entry set" where "map_entries M = {((s, f), m) | s f m. M s = Some (f, m)}"

definition holds_map :: "(usize \<Rightarrow> u32) \<Rightarrow> PostingList \<Rightarrow> posting_map \<Rightarrow> bool" where
  "holds_map words l M \<longleftrightarrow> words_ok words \<and> (\<exists>parts. list_ok words l parts \<and> set (entries parts) = map_entries M)"

lemma map_entries_mem: "((s, f), m) \<in> map_entries M \<longleftrightarrow> M s = Some (f, m)"
  by (simp add: map_entries_def)

lemma map_entriesI: "(\<And>s f m. ((s, f), m) \<in> A \<longleftrightarrow> M s = Some (f, m)) \<Longrightarrow> A = map_entries M"
  by (auto simp: map_entries_mem)

lemma map_entries_slot: "s \<in> entry_slot ` map_entries M \<longleftrightarrow> M s \<noteq> None"
  by (force simp: map_entries_def)

lemma map_entries_dom: "entry_slot ` map_entries M = dom M"
  using map_entries_slot by blast

lemma map_entries_add:
  assumes "distinct (map entry_slot es)" "\<forall>e \<in> set es. M (entry_slot e) = None"
  shows "map_entries (M ++ map_of (map (\<lambda>((s, f), m). (s, f, m)) es)) = map_entries M \<union> set es"
proof -
  let ?kv = "map (\<lambda>((s, f), m). (s, f, m)) es"
  have d: "distinct (map fst ?kv)" using assms(1) by (simp add: comp_def case_prod_unfold)
  have mem: "(s, f, m) \<in> set ?kv \<longleftrightarrow> ((s, f), m) \<in> set es" for s f m by force
  have "(M ++ map_of ?kv) s = Some (f, m) \<longleftrightarrow> M s = Some (f, m) \<or> ((s, f), m) \<in> set es" for s f m
  proof -
    have "map_of ?kv s = Some (f, m) \<longleftrightarrow> ((s, f), m) \<in> set es" using d mem by (metis map_of_eq_Some_iff)
    moreover have "map_of ?kv s = None" if "M s = Some (f, m)"
      using that assms(2) mem by (metis map_of_SomeD fst_conv option.distinct(1) not_None_eq surj_pair)
    ultimately show ?thesis by (auto simp: map_add_Some_iff)
  qed
  then show ?thesis by (force simp: map_entries_def)
qed

lemma run_entries_ok:
  assumes "ordinals = [] \<or> length ordinals = length run"
  shows "map fst (run_entries run ordinals) = run" "ordinals_for ordinals (run_entries run ordinals)"
    "length (run_entries run ordinals) = length run"
proof -
  show "map fst (run_entries run ordinals) = run" "length (run_entries run ordinals) = length run"
    using assms by (auto simp: run_entries_def)
  show "ordinals_for ordinals (run_entries run ordinals)"
    using assms by (auto simp: ordinals_for_def run_entries_def dest: set_zip_rightD)
qed

lemma holds_map_card:
  assumes "list_ok words l parts" "set (entries parts) = map_entries M"
  shows "length (entries parts) = card (dom M)"
proof -
  note run = list_ok_run [OF assms(1)]
  have "inj_on entry_slot (map_entries M)" using run_ok_unique [OF run] assms(2) by (auto intro!: inj_onI)
  then have "card (dom M) = card (map_entries M)" using card_image map_entries_dom by metis
  then show ?thesis using run_ok_card [OF run] assms(2) by simp
qed

lemma holds_mapE:
  assumes "holds_map words l M"
  obtains parts where "words_ok words" "list_ok words l parts" "set (entries parts) = map_entries M"
  using assms by (auto simp: holds_map_def)

lemma holds_mapI: "words_ok words \<Longrightarrow> list_ok words l parts \<Longrightarrow> set (entries parts) = map_entries M \<Longrightarrow> holds_map words l M"
  by (auto simp: holds_map_def)

lemma append_holds:
  assumes "holds_map words l M" "edit_ok (Append run ordinals) M"
  shows "\<exists>l'. append_run_with_ordinals k run ordinals words l = Some l' \<and> holds_map words l' (map_edit (Append run ordinals) M)"
proof -
  obtain parts where p: "words_ok words" "list_ok words l parts" "set (entries parts) = map_entries M" using holds_mapE [OF assms(1)] .
  let ?es = "run_entries run ordinals"
  note r = run_entries_ok [of ordinals run]
  have o: "ordinals = [] \<or> length ordinals = length run" using assms(2) by simp
  have m: "map entry_slot ?es = map fst run" using arg_cong [OF r(1) [OF o], of "map fst"] by (simp add: comp_def)
  have e: "fst e \<in> set run" if "e \<in> set ?es" for e using r(1) [OF o] that by (metis image_eqI set_map)
  have run: "run_ok ?es" using assms(2) m e by (auto simp: run_ok_def)
  have free: "\<forall>e \<in> set ?es. M (entry_slot e) = None" using assms(2) e by auto
  have "apart (entries parts) ?es" using free p(3) by (auto simp: apart_def map_entries_def)
  moreover have "length (entries parts) + length ?es < 2 ^ 32" using holds_map_card [OF p(2,3)] r(3) [OF o] assms(2) by simp
  ultimately obtain l' parts' where l': "append_run_with_ordinals k (map fst ?es) ordinals words l = Some l'" "list_ok words l' parts'"
    "set (entries parts') = set (entries parts) \<union> set ?es"
    using append_run_ok [OF p(2,1) run _ r(2) [OF o]] by blast
  have "distinct (map entry_slot ?es)" using run ssorted_distinct by (auto simp: run_ok_def)
  then have "set (entries parts') = map_entries (map_edit (Append run ordinals) M)" unfolding l'(3) p(3) using map_entries_add free by simp
  then show ?thesis using l'(1) holds_mapI [OF p(1) l'(2)] unfolding r(1) [OF o] by blast
qed

lemma remove_holds:
  assumes "holds_map words l M" "M s = Some (f, m)"
  shows "\<exists>l'. pl_remove k s words l = Some l' \<and> holds_map words l' (M(s := None))"
proof -
  obtain parts where p: "words_ok words" "list_ok words l parts" "set (entries parts) = map_entries M" using holds_mapE [OF assms(1)] .
  have "((s, f), m) \<in> set (entries parts)" using p(3) assms(2) by (simp add: map_entries_mem)
  then obtain l' parts' where l': "pl_remove k s words l = Some l'" "list_ok words l' parts'" "set (entries parts') = set (entries parts) - {((s, f), m)}"
    using pl_remove_ok [OF p(2,1), of "((s, f), m)" k] by auto
  have "set (entries parts') = map_entries (M(s := None))" unfolding l'(3) p(3) using assms(2) by (intro map_entriesI) (auto simp: map_entries_mem)
  then show ?thesis using l'(1) holds_mapI [OF p(1) l'(2)] by blast
qed

lemma set_entry_holds:
  assumes "holds_map words l M" "M s = Some (f, m)"
  shows "\<exists>l'. pl_set_entry k s g om words l = Some l' \<and> holds_map words l' (M(s \<mapsto> (g, case om of None \<Rightarrow> m | Some m \<Rightarrow> m)))"
proof -
  obtain parts where p: "words_ok words" "list_ok words l parts" "set (entries parts) = map_entries M" using holds_mapE [OF assms(1)] .
  let ?e = "((s, g), case om of None \<Rightarrow> m | Some m \<Rightarrow> m)"
  have "((s, f), m) \<in> set (entries parts)" using p(3) assms(2) by (simp add: map_entries_mem)
  then obtain l' parts' where l': "pl_set_entry k s g om words l = Some l'" "list_ok words l' parts'"
    "set (entries parts') = insert ?e (set (entries parts) - {((s, f), m)})"
    using pl_set_entry_ok [OF p(2,1), of "((s, f), m)" k g om, unfolded fst_conv snd_conv] by blast
  have "set (entries parts') = map_entries (M(s \<mapsto> (g, case om of None \<Rightarrow> m | Some m \<Rightarrow> m)))"
    unfolding l'(3) p(3) using assms(2) by (intro map_entriesI) (auto simp: map_entries_mem)
  then show ?thesis using l'(1) holds_mapI [OF p(1) l'(2)] by blast
qed

lemma words_ok_upd: "words_ok words \<Longrightarrow> w \<noteq> 0xFFFFFFFF \<Longrightarrow> words_ok (words(s := w))"
  by (simp add: words_ok_def)

lemma relength_holds:
  assumes "holds_map words l M" "M s = Some (f, m)" "w \<noteq> 0xFFFFFFFF"
  shows "\<exists>l'. invalidate_length s l = Some l' \<and> holds_map (words(s := w)) l' M"
proof -
  obtain parts where p: "words_ok words" "list_ok words l parts" "set (entries parts) = map_entries M" using holds_mapE [OF assms(1)] .
  note w = words_ok_upd [OF p(1) assms(3), of s]
  have "((s, f), m) \<in> set (entries parts)" using p(3) assms(2) by (simp add: map_entries_mem)
  then obtain l' parts' where "invalidate_length s l = Some l'" "list_ok (words(s := w)) l' parts'" "entries parts' = entries parts"
    using invalidate_length_ok [OF p(2) _ _ w, of "((s, f), m)" s] by auto
  then show ?thesis using w p(3) holds_mapI by metis
qed

lemma resize_holds:
  assumes "holds_map words l M" "M s = None" "w \<noteq> 0xFFFFFFFF"
  shows "holds_map (words(s := w)) l M"
proof -
  obtain parts where p: "words_ok words" "list_ok words l parts" "set (entries parts) = map_entries M" using holds_mapE [OF assms(1)] .
  have other: "(words(s := w)) (entry_slot e) = words (entry_slot e)" if "e \<in> set (entries parts)" for e
    using that p(3) assms(2) by (auto simp: map_entries_def)
  have "covers (words(s := w)) q" if q: "q \<in> set parts" for q
  proof -
    have "\<forall>e \<in> set (fst q). (words(s := w)) (entry_slot e) = words (entry_slot e)" using q by (intro ballI other) (auto simp: entries_def)
    moreover have "covers words q" using p(2) q by (simp add: list_ok_def)
    ultimately show ?thesis unfolding covers_def by (auto split: prod.splits option.splits simp del: fun_upd_apply)
  qed
  then have "list_ok (words(s := w)) l parts" using p(2) by (simp add: list_ok_def)
  then show ?thesis using words_ok_upd [OF p(1) assms(3)] p(3) holds_mapI by metis
qed

lemma cached_holds:
  assumes "holds_map words l M" "pl_data l' = pl_data l" "pl_blocks l' = pl_blocks l" "same_counts l l'" "summary_ok l'"
  shows "holds_map words l' M"
proof -
  obtain parts where p: "words_ok words" "list_ok words l parts" "set (entries parts) = map_entries M" using holds_mapE [OF assms(1)] .
  then have "list_ok words l' parts" using assms(2-5) by (simp add: list_ok_def same_counts_def blocks_hold_def)
  then show ?thesis using p holds_mapI by metis
qed

lemma maxima_holds:
  assumes "holds_map words l M"
  shows "holds_map words (snd (pl_maxima l)) M" "holds_map words (snd (pl_runs l)) M"
proof -
  have s: "summary_ok l" using assms by (auto simp: holds_map_def list_ok_def)
  show "holds_map words (snd (pl_maxima l)) M"
    using s by (intro cached_holds [OF assms]) (auto simp: pl_maxima_def same_counts_def summary_ok_def block_maxima_def run_frontiers_def split: option.splits)
  show "holds_map words (snd (pl_runs l)) M"
    using s by (intro cached_holds [OF assms]) (auto simp: pl_runs_def same_counts_def summary_ok_def block_maxima_def run_frontiers_def split: option.splits)
qed

lemma pl_edit_holds:
  assumes "holds_map words l M" "edit_ok e M"
  shows "\<exists>words' l'. pl_edit k e (words, l) = Some (words', l') \<and> holds_map words' l' (map_edit e M)"
proof (cases e)
  case (Append run ordinals)
  then show ?thesis using append_holds [OF assms(1)] assms(2) by fastforce
next
  case (Remove s)
  then show ?thesis using remove_holds [OF assms(1)] assms(2) by fastforce
next
  case (SetEntry s g om)
  then obtain f m where fm: "M s = Some (f, m)" using assms(2) by auto
  then obtain l' where "pl_set_entry k s g om words l = Some l'" "holds_map words l' (M(s \<mapsto> (g, case om of None \<Rightarrow> m | Some m \<Rightarrow> m)))"
    using set_entry_holds [OF assms(1)] by blast
  then show ?thesis using SetEntry fm by simp
next
  case (Relength s w)
  then show ?thesis using relength_holds [OF assms(1)] assms(2) by fastforce
next
  case (Resize s w)
  then show ?thesis using resize_holds [OF assms(1)] assms(2) by simp
qed (use maxima_holds [OF assms(1)] in simp_all)

lemma pl_edits_holds:
  "holds_map words l M \<Longrightarrow> edits_ok es M \<Longrightarrow>
    \<exists>words' l'. pl_edits k es (words, l) = Some (words', l') \<and> holds_map words' l' (fold map_edit es M)"
proof (induction es arbitrary: words l M)
  case (Cons e es)
  obtain words1 l1 where "pl_edit k e (words, l) = Some (words1, l1)" "holds_map words1 l1 (map_edit e M)"
    using pl_edit_holds [OF Cons.prems(1)] Cons.prems(2) by fastforce
  then show ?case using Cons by simp
qed simp

lemma default_holds: "holds_map (\<lambda>_. 0) pl_default Map.empty"
  by (rule holds_mapI [of _ _ "[]"])
    (simp_all add: words_ok_def list_ok_def blocks_hold_def slots_ok_def pl_default_def summary_ok_def SUMMARY_MIN_BLOCKS_def SUPER_LEN_def positives_def map_entries_def)

section \<open>What a query sees\<close>

definition seek :: "kernel \<Rightarrow> PostingList \<Rightarrow> usize \<Rightarrow> entry option option" where
  "seek k l t =
     (case cursor_new l of
        None \<Rightarrow> None
      | Some c \<Rightarrow>
          (case cursor_advance k l t c of
             None \<Rightarrow> None
           | Some (None, c) \<Rightarrow> Some None
           | Some (Some p, c) \<Rightarrow> map_option (\<lambda>m. Some (p, m)) (cursor_ordinal l c)))"

definition first_from :: "posting_map \<Rightarrow> usize \<Rightarrow> entry option \<Rightarrow> bool" where
  "first_from M t r \<longleftrightarrow>
     (case r of
        None \<Rightarrow> \<forall>s. t \<le> s \<longrightarrow> M s = None
      | Some ((s, f), m) \<Rightarrow> t \<le> s \<and> M s = Some (f, m) \<and> (\<forall>s'. t \<le> s' \<and> M s' \<noteq> None \<longrightarrow> s \<le> s'))"

lemma seek_dropWhile:
  assumes "blocks_hold l parts" "slots_ok parts"
  shows "seek k l t = Some (case dropWhile (\<lambda>e. entry_slot e < t) (entries parts) of [] \<Rightarrow> None | e # _ \<Rightarrow> Some e)"
proof -
  obtain c where c: "cursor_new l = Some c" "cursor_ok parts c" "cursor_rest parts c = entries parts" using cursor_new_ok [OF assms(1)] .
  obtain c' where c': "cursor_advance k l t c = Some (cursor_peek c', c')" "cursor_ok parts c'"
    "cursor_rest parts c' = dropWhile (\<lambda>e. entry_slot e < t) (entries parts)"
    using cursor_advance_ok [OF assms c(2), of k t] c(3) by auto
  note peek = cursor_peek_ok [OF assms(1) c'(2)]
  show ?thesis
  proof (cases "cursor_rest parts c'")
    case Nil
    then show ?thesis unfolding seek_def c(1) option.case c'(1) c'(3) [symmetric] peek by simp
  next
    case (Cons e es)
    then show ?thesis
      unfolding seek_def c(1) option.case c'(1) c'(3) [symmetric] peek using cursor_ordinal_ok [OF assms(1) c'(2) Cons] by simp
  qed
qed

lemma first_of_dropWhile:
  assumes "run_ok es" "set es = map_entries M"
  shows "first_from M t (case dropWhile (\<lambda>e. entry_slot e < t) es of [] \<Rightarrow> None | e # _ \<Rightarrow> Some e)"
proof (cases "dropWhile (\<lambda>e. entry_slot e < t) es")
  case Nil
  then have "\<forall>e \<in> map_entries M. entry_slot e < t" using assms(2) by (auto simp: dropWhile_eq_Nil_conv)
  then have "M s = None" if "t \<le> s" for s
    using that map_entries_mem by (metis fst_conv leD not_None_eq surj_pair)
  then show ?thesis unfolding Nil first_from_def by simp
next
  case (Cons e rest)
  have split: "es = takeWhile (\<lambda>e. entry_slot e < t) es @ e # rest" using takeWhile_dropWhile_id [of _ es] Cons by metis
  obtain s f m where e: "e = ((s, f), m)" by (metis prod.exhaust)
  have s: "t \<le> s" using hd_dropWhile [of "\<lambda>e. entry_slot e < t" es] Cons e by simp
  have "e \<in> set es" by (subst split) simp
  then have M: "M s = Some (f, m)" using assms(2) e by (simp add: map_entries_mem)
  have "s \<le> s'" if "t \<le> s'" "M s' = Some (g, n)" for s' g n
  proof -
    have "((s', g), n) \<in> set es" using assms(2) that(2) by (simp add: map_entries_mem)
    moreover have "((s', g), n) \<notin> set (takeWhile (\<lambda>e. entry_slot e < t) es)" using that(1) by (auto dest!: set_takeWhileD)
    ultimately have "((s', g), n) \<in> set (e # rest)" by (metis split UnE set_append)
    moreover have "run_ok (e # rest)" using run_ok_take(2) [OF assms(1)] Cons by (metis dropWhile_eq_drop)
    ultimately show ?thesis using e by (auto simp: run_ok_Cons)
  qed
  then have "s \<le> s'" if "t \<le> s'" "M s' \<noteq> None" for s' using that by (metis not_None_eq surj_pair)
  then show ?thesis unfolding Cons e first_from_def using s M by simp
qed

lemma positive_card:
  assumes "run_ok es" "set es = map_entries M"
  shows "card {e \<in> set es. snd (fst e) > 0} = card {s. \<exists>f m. M s = Some (f, m) \<and> f > 0}"
proof -
  have "inj_on entry_slot {e \<in> set es. snd (fst e) > 0}" using run_ok_unique [OF assms(1)] by (auto intro!: inj_onI)
  then have "card (entry_slot ` {e \<in> set es. snd (fst e) > 0}) = card {e \<in> set es. snd (fst e) > 0}" by (rule card_image)
  moreover have "entry_slot ` {e \<in> set es. snd (fst e) > 0} = {s. \<exists>f m. M s = Some (f, m) \<and> f > 0}"
    unfolding assms(2) map_entries_def by (force simp: image_iff)
  ultimately show ?thesis by simp
qed

lemma holds_map_reads:
  assumes "holds_map words l M"
  shows "pl_len l = card (dom M)" "positive_len l = card {s. \<exists>f m. M s = Some (f, m) \<and> f > 0}"
    "\<exists>ps. pl_decode k l = Some ps \<and> sorted_wrt (<) (map fst ps) \<and> set ps = {(s, f). \<exists>m. M s = Some (f, m)}"
    "\<exists>r. seek k l t = Some r \<and> first_from M t r"
proof -
  obtain parts where p: "words_ok words" "list_ok words l parts" "set (entries parts) = map_entries M" using holds_mapE [OF assms] .
  note c = list_ok_counts [OF p(2)] note run = list_ok_run [OF p(2)]
  have b: "blocks_hold l parts" "slots_ok parts" using p(2) by (auto simp: list_ok_def)
  show "pl_len l = card (dom M)" using c(1,4) holds_map_card [OF p(2,3)] by (simp add: pl_len_def unat_of_nat32)
  have "card {e \<in> set (entries parts). snd (fst e) > 0} \<le> length (entries parts)"
    unfolding run_ok_card [OF run] by (intro card_mono) auto
  then show "positive_len l = card {s. \<exists>f m. M s = Some (f, m) \<and> f > 0}"
    using c(2,4) run_ok_positive [OF run] positive_card [OF run p(3)] by (simp add: positive_len_def unat_of_nat32)
  show "\<exists>ps. pl_decode k l = Some ps \<and> sorted_wrt (<) (map fst ps) \<and> set ps = {(s, f). \<exists>m. M s = Some (f, m)}"
  proof (intro exI conjI)
    show "pl_decode k l = Some (map fst (entries parts))" using pl_decode_ok [OF b(1)] .
    show "sorted_wrt (<) (map fst (map fst (entries parts)))" using run by (simp add: run_ok_def comp_def)
    show "set (map fst (entries parts)) = {(s, f). \<exists>m. M s = Some (f, m)}" using p(3) by (force simp: map_entries_def)
  qed
  show "\<exists>r. seek k l t = Some r \<and> first_from M t r" using seek_dropWhile [OF b] first_of_dropWhile [OF run p(3)] by blast
qed

lemma holds_map_marks:
  assumes "holds_map words l M" "\<forall>s \<in> dom M. s div 64 < length matched"
  shows "\<exists>m'. mark_slots k l matched = Some m' \<and> length m' = length matched \<and>
    (\<forall>s. s div 64 < length matched \<longrightarrow>
       (bit (m' ! (s div 64)) (s mod 64) \<longleftrightarrow> bit (matched ! (s div 64)) (s mod 64) \<or> (\<exists>f n. M s = Some (f, n) \<and> f > 0)))"
proof -
  obtain parts where p: "words_ok words" "list_ok words l parts" "set (entries parts) = map_entries M" using holds_mapE [OF assms(1)] .
  let ?slots = "map entry_slot (filter (\<lambda>e. snd (fst e) > 0) (entries parts))"
  have set: "set ?slots = {s. \<exists>f n. M s = Some (f, n) \<and> f > 0}" using p(3) by (force simp: map_entries_def)
  have "\<forall>s \<in> set ?slots. s div 64 < length matched" unfolding set using assms(2) by auto
  from mark_all_ok [OF this] show ?thesis unfolding set mark_slots_all [OF p(2)] by simp
qed

section \<open>Bounds that pruning relies on\<close>

lemma block_bound:
  assumes "list_ok words l parts" "j < length parts" "e \<in> set (fst (parts ! j))"
  defines "b \<equiv> pl_blocks l ! j"
  shows "snd (fst e) \<le> max_frequency b" "min_words b \<le> words (entry_slot e)"
    "snd (fst e) > 0 \<Longrightarrow> \<exists>q \<in> set (block_points b). dominates q (snd (fst e), words (entry_slot e))"
    "blk_first b = entry_slot (hd (fst (parts ! j)))" "entry_slot e \<le> blk_last b"
proof -
  have h: "blocks_hold l parts" "covers words (parts ! j)" using assms(1,2) by (auto simp: list_ok_def)
  obtain es w fr where p: "parts ! j = (es, w, fr)" by (metis prod.exhaust)
  have b: "b = entry_block (length (parts_bytes (take j parts))) es (w, fr)"
    using h(1) layout_nth [OF assms(2), of 0] p by (simp add: b_def blocks_hold_def)
  have f: "max_frequency b = max_u32 (map (snd \<circ> fst) es)" "min_words b = w" "blk_frontier b = fr" by (simp_all add: b entry_block_def)
  show m: "snd (fst e) \<le> max_frequency b" using max_frequency_covers [of e es] assms(3) p f(1) by simp
  show w: "min_words b \<le> words (entry_slot e)" using h(2) assms(3) p f(2) by (auto simp: covers_def)
  show "blk_first b = entry_slot (hd (fst (parts ! j)))" by (simp add: b entry_block_def p)
  have "part_ok es" using h(1) assms(2) p nth_mem [OF assms(2)] by (auto simp: blocks_hold_def)
  then show "entry_slot e \<le> blk_last b" using part_last_max [of es e] assms(3) p by (simp add: b entry_block_def)
  show "\<exists>q \<in> set (block_points b). dominates q (snd (fst e), words (entry_slot e))" if "snd (fst e) > 0"
  proof (cases fr)
    case None
    then show ?thesis using m w by (simp add: block_points_def f(3) dominates_def)
  next
    case (Some kept)
    then show ?thesis using h(2) that assms(3) p by (auto simp: block_points_def f(3) covers_def)
  qed
qed

lemma entry_part:
  assumes "e \<in> set (entries (drop n parts))"
  obtains j where "n \<le> j" "j < length parts" "e \<in> set (fst (parts ! j))"
proof -
  obtain q where "q \<in> set (drop n parts)" "e \<in> set (fst q)" using assms by (auto simp: entries_def)
  then obtain i where "i < length (drop n parts)" "e \<in> set (fst (drop n parts ! i))" by (metis in_set_conv_nth)
  then show ?thesis using that [of "n + i"] by simp
qed

lemma first_le_later:
  assumes "slots_ok parts" "i \<le> j" "j < length parts" "e \<in> set (fst (parts ! j))"
  shows "entry_slot (hd (fst (parts ! i))) \<le> entry_slot e"
proof -
  have d: "drop i parts = parts ! i # drop (Suc i) parts" using assms(2,3) by (simp add: Cons_nth_drop_Suc)
  have s: "slots_ok (parts ! i # drop (Suc i) parts)" using slots_ok_drop [OF assms(1), of i] d by simp
  show ?thesis
  proof (cases "i = j")
    case True
    then show ?thesis using s assms(4) by (cases "fst (parts ! i)") (auto simp: slots_ok_Cons part_ok_def less_imp_le)
  next
    case False
    then have "parts ! j \<in> set (drop (Suc i) parts)" using assms(2,3) by (auto simp: in_set_conv_nth intro!: exI [of _ "j - Suc i"])
    then have "e \<in> set (entries (drop (Suc i) parts))" using assms(4) by (auto simp: entries_def)
    moreover have "hd (fst (parts ! i)) \<in> set (fst (parts ! i))" using s by (simp add: slots_ok_Cons part_ok_def)
    ultimately show ?thesis using s by (auto simp: slots_ok_Cons less_imp_le)
  qed
qed

lemma bounds_cover_ok:
  assumes "list_ok words l parts"
  shows "bounds_cover k l words = Some True"
proof -
  have b: "blocks_hold l parts" using assms by (simp add: list_ok_def)
  have n: "length (pl_blocks l) = length parts" using b by (simp add: blocks_hold_def)
  let ?ok = "\<lambda>i postings. let b = pl_blocks l ! i
           in list_all (\<lambda>(slot, frequency).
                frequency \<le> max_frequency b \<and> min_words b \<le> words slot \<and>
                (frequency = 0 \<or> (case blk_frontier b of None \<Rightarrow> True
                   | Some points \<Rightarrow> list_ex (\<lambda>(f, w). frequency \<le> f \<and> w \<le> words slot) points)))
              (take (blk_count b) postings)"
  have one: "map_option (?ok i) (decode_block k l i zero_block) = Some True" if i: "i < length parts" for i
  proof -
    note at = blocks_hold_at [OF b i] note f = block_at_fields [OF at]
    have d: "decode_block k l i zero_block = Some (map fst (fst (parts ! i)) @ drop (length (fst (parts ! i))) zero_block)"
      using decode_values_at [OF at] i n by (simp add: decode_block_def)
    have p: "f \<le> max_frequency (pl_blocks l ! i) \<and> min_words (pl_blocks l ! i) \<le> words s \<and>
        (f = 0 \<or> (case blk_frontier (pl_blocks l ! i) of None \<Rightarrow> True
           | Some points \<Rightarrow> list_ex (\<lambda>(g, w). f \<le> g \<and> w \<le> words s) points))" if "((s, f), m) \<in> set (fst (parts ! i))" for s f m
      using block_bound [OF assms i that] 
      by (cases "f = 0") (auto simp: block_points_def dominates_def list_ex_iff word_neq_0_conv case_prod_unfold split: option.split)
    show ?thesis unfolding d Let_def option.map f(1) by (auto simp: list_all_iff dest!: p)
  qed
  have "those (map (\<lambda>i. map_option (?ok i) (decode_block k l i zero_block)) is) = Some (replicate (length is) True)"
    if "set is \<subseteq> {..<length parts}" for "is"
    using that by (induction "is") (simp_all add: one)
  from this [of "[0..<length parts]"] show ?thesis unfolding bounds_cover_def n by (simp add: atLeastLessThan_upt [symmetric] subset_iff list_all_iff)
qed

text \<open>Folding maxima and minima over blocks bounds what the blocks bound.\<close>

lemma fold_bounds:
  assumes "b \<in> set bs"
  shows "max_frequency b \<le> fst (foldl (\<lambda>(f, w) b. (max f (max_frequency b), min w (min_words b))) z bs)"
    "snd (foldl (\<lambda>(f, w) b. (max f (max_frequency b), min w (min_words b))) z bs) \<le> min_words b"
proof -
  let ?g = "\<lambda>(f, w) b. (max f (max_frequency b), min w (min_words b))"
  have mono: "fst z \<le> fst (foldl ?g z bs) \<and> snd (foldl ?g z bs) \<le> snd z" for z bs
  proof (induction bs arbitrary: z)
    case (Cons b bs)
    then show ?case using Cons [of "?g z b"] by (auto simp: case_prod_unfold)
  qed simp
  have "max_frequency b \<le> fst (foldl ?g z bs) \<and> snd (foldl ?g z bs) \<le> min_words b"
    using assms
  proof (induction bs arbitrary: z)
    case (Cons c bs)
    then show ?case using Cons.IH [of "?g z c"] mono [of "?g z c" bs] by (auto simp: case_prod_unfold)
  qed simp
  then show "max_frequency b \<le> fst (foldl ?g z bs)" "snd (foldl ?g z bs) \<le> min_words b" by auto
qed

lemma pl_maxima_fold: "summary_ok l \<Longrightarrow> fst (pl_maxima l) = block_maxima l"
  by (auto simp: summary_ok_def pl_maxima_def split: option.splits)

lemma pl_runs_frontiers: "summary_ok l \<Longrightarrow> fst (pl_runs l) = (if SUMMARY_MIN_BLOCKS \<le> length (pl_blocks l) then Some (run_frontiers l) else None)"
  by (auto simp: summary_ok_def pl_runs_def split: option.splits)

lemma slice_chunks_nth:
  assumes "0 < n" "j < length xs"
  shows "j div n < length (slice_chunks n xs) \<and> xs ! j \<in> set (slice_chunks n xs ! (j div n))"
  using assms
proof (induction n xs arbitrary: j rule: slice_chunks.induct)
  case (1 n xs)
  have c: "slice_chunks n xs = take n xs # slice_chunks n (drop n xs)" using "1.prems" by (subst slice_chunks.simps) auto
  show "j div n < length (slice_chunks n xs) \<and> xs ! j \<in> set (slice_chunks n xs ! (j div n))"
  proof (cases "j < n")
    case True
    then have "xs ! j \<in> set (take n xs)" using "1.prems" by (auto simp: in_set_conv_nth intro!: exI [of _ j])
    then show ?thesis using True by (simp add: c)
  next
    case False
    have ne: "\<not> (n = 0 \<or> xs = [])" using "1.prems" by auto
    have "j div n = Suc ((j - n) div n)" using False "1.prems"(1) by (simp add: le_div_geq)
    then show ?thesis using "1.IH" [OF ne, of "j - n"] "1.prems" False by (auto simp: c)
  qed
qed

lemma run_frontiers_cover:
  assumes "list_ok words l parts" "j < length parts" "e \<in> set (fst (parts ! j))" "snd (fst e) > 0"
  shows "j div SUPER_LEN < length (run_frontiers l) \<and>
    (\<exists>q \<in> set (run_frontiers l ! (j div SUPER_LEN)). dominates q (snd (fst e), words (entry_slot e)))"
proof -
  have n: "j < length (pl_blocks l)" using assms(1,2) by (simp add: list_ok_def blocks_hold_def)
  have c: "j div SUPER_LEN < length (slice_chunks SUPER_LEN (pl_blocks l))" "pl_blocks l ! j \<in> set (slice_chunks SUPER_LEN (pl_blocks l) ! (j div SUPER_LEN))"
    using slice_chunks_nth [OF _ n, of SUPER_LEN] by (auto simp: SUPER_LEN_def)
  obtain q where q: "q \<in> set (block_points (pl_blocks l ! j))" "dominates q (snd (fst e), words (entry_slot e))"
    using block_bound(3) [OF assms] by blast
  let ?run = "slice_chunks SUPER_LEN (pl_blocks l) ! (j div SUPER_LEN)"
  have "q \<in> set (concat (map block_points ?run))" using q(1) c(2) by auto
  then obtain r where r: "r \<in> set (pareto (concat (map block_points ?run)))" "dominates r q" using pareto_dominates by blast
  show ?thesis using c(1) r(1) dominates_trans [OF r(2) q(2)] by (auto simp: run_frontiers_def)
qed

lemma entry_position:
  assumes "blocks_hold l parts" "slots_ok parts" "j < length parts" "e \<in> set (fst (parts ! j))"
  shows "partition_point (\<lambda>b. blk_last b < entry_slot e) (pl_blocks l) = j"
proof -
  let ?P = "\<lambda>p. part_last p < entry_slot e"
  have "\<not> ?P (parts ! j)" using part_last_max [OF part_at [OF assms(1,3)] assms(4)] by simp
  moreover have "?P (parts ! i)" if i: "i < j" for i
  proof -
    have d: "drop i parts = parts ! i # drop (Suc i) parts" using i assms(3) by (simp add: Cons_nth_drop_Suc)
    have s: "slots_ok (parts ! i # drop (Suc i) parts)" using slots_ok_drop [OF assms(2), of i] d by simp
    have "parts ! j \<in> set (drop (Suc i) parts)" using i assms(3) by (auto simp: in_set_conv_nth intro!: exI [of _ "j - Suc i"])
    then have "e \<in> set (entries (drop (Suc i) parts))" using assms(4) by (auto simp: entries_def)
    then show ?thesis using s by (auto simp: slots_ok_Cons part_ok_def)
  qed
  ultimately have "length (takeWhile ?P parts) = j"
    using assms(3) by (metis (mono_tags, lifting) length_takeWhile_less_P_nth nth_length_takeWhile length_takeWhile_le le_neq_implies_less linorder_neqE_nat order_less_le_trans set_takeWhileD nth_mem takeWhile_nth)
  then show ?thesis using block_position [OF assms(1)] by simp
qed

section \<open>Bounds over a range of slots\<close>

definition range_from :: "kernel \<Rightarrow> PostingList \<Rightarrow> usize \<Rightarrow> usize \<Rightarrow> usize \<Rightarrow> point option option" where
  "range_from k l t from to =
     (case cursor_new l of
        None \<Rightarrow> None
      | Some c \<Rightarrow> map_option (\<lambda>(_, c). cursor_range_maximum l from to c) (cursor_advance k l t c))"

lemma maxima_cons: "foldl (\<lambda>(f, w) (g, v). (max f g, min w v)) z (map (\<lambda>b. (max_frequency b, min_words b)) bs)
    = foldl (\<lambda>(f, w) b. (max f (max_frequency b), min w (min_words b))) z bs"
  by (induction bs arbitrary: z) (auto simp: case_prod_unfold)

lemma range_maximum_bounds:
  assumes "list_ok words l parts" "cursor_ok parts c" "e \<in> set (cursor_rest parts c)" "from \<le> entry_slot e" "entry_slot e \<le> to"
  shows "\<exists>F W. cursor_range_maximum l from to c = Some (F, W) \<and> snd (fst e) \<le> F \<and> W \<le> words (entry_slot e)"
proof -
  have b: "blocks_hold l parts" "slots_ok parts" using assms(1) by (auto simp: list_ok_def)
  have n: "length (pl_blocks l) = length parts" using b(1) by (simp add: blocks_hold_def)
  let ?k = "cur_block c"
  have k: "?k < length parts" using assms(3) by (auto simp: cursor_rest_def split: if_splits)
  have ix: "\<not> cur_length c \<le> cur_index c" using assms(2) k by (simp add: cursor_ok_def Let_def)
  have "drop ?k parts = parts ! ?k # drop (Suc ?k) parts" using k by (simp add: Cons_nth_drop_Suc)
  then have "e \<in> set (entries (drop ?k parts))" using assms(3) k by (auto simp: cursor_rest_def dest: in_set_dropD)
  then obtain j where j: "?k \<le> j" "j < length parts" "e \<in> set (fst (parts ! j))" by (rule entry_part)
  note bound = block_bound [OF assms(1) j(2,3)]
  let ?blocks = "drop ?k (pl_blocks l)" and ?start = "partition_point (\<lambda>b. blk_last b < from) (drop ?k (pl_blocks l))"
  have at: "?blocks ! (j - ?k) = pl_blocks l ! j" using j n by simp
  have late: "?start \<le> j - ?k"
  proof (rule ccontr)
    assume "\<not> ?start \<le> j - ?k"
    then have lt: "j - ?k < length (takeWhile (\<lambda>b. blk_last b < from) ?blocks)" by (simp add: partition_point_def)
    then have "takeWhile (\<lambda>b. blk_last b < from) ?blocks ! (j - ?k) = pl_blocks l ! j" using takeWhile_nth at by metis
    then have "blk_last (pl_blocks l ! j) < from" using lt by (metis nth_mem set_takeWhileD)
    then show False using bound(5) assms(4) by simp
  qed
  let ?rest = "drop ?start ?blocks"
  let ?d = "j - ?k - ?start"
  have d: "?d < length ?rest" "?rest ! ?d = pl_blocks l ! j" using late j n at by simp_all
  have "blk_first (?rest ! i) \<le> to" if i: "i \<le> ?d" for i
  proof -
    have i': "?k + ?start + i \<le> j" "?rest ! i = pl_blocks l ! (?k + ?start + i)" using i late j n by (simp_all add: ac_simps)
    have "blk_first (pl_blocks l ! (?k + ?start + i)) = entry_slot (hd (fst (parts ! (?k + ?start + i))))"
      using block_at_fields(2) [OF blocks_hold_at [OF b(1)]] i'(1) j(2) by simp
    then show ?thesis using first_le_later [OF b(2) i'(1) j(2,3)] i'(2) assms(5) by simp
  qed
  then have "?d < length (takeWhile (\<lambda>b. blk_first b \<le> to) ?rest)"
    using d(1) by (metis (mono_tags, lifting) length_takeWhile_le nth_length_takeWhile order_le_less not_le)
  then have m: "pl_blocks l ! j \<in> set (takeWhile (\<lambda>b. blk_first b \<le> to) ?rest)" using d(2) by (metis nth_mem takeWhile_nth)
  then obtain z zs where z: "takeWhile (\<lambda>b. blk_first b \<le> to) ?rest = z # zs" by (cases "takeWhile (\<lambda>b. blk_first b \<le> to) ?rest") auto
  have mz: "pl_blocks l ! j \<in> set (z # zs)" using m unfolding z .
  let ?r = "foldl (\<lambda>(f, w) b. (max f (max_frequency b), min w (min_words b))) (max_frequency z, min_words z) (z # zs)"
  have "cursor_range_maximum l from to c = Some ?r"
    unfolding cursor_range_maximum_def if_not_P [OF ix] Let_def z by (simp add: maxima_cons)
  moreover have "max_frequency (pl_blocks l ! j) \<le> fst ?r" "snd ?r \<le> min_words (pl_blocks l ! j)" by (rule fold_bounds [OF mz])+
  moreover obtain F W where "?r = (F, W)" by fastforce
  ultimately show ?thesis using order_trans [OF bound(1)] order_trans [OF _ bound(2)] by auto
qed

lemma range_from_bounds:
  assumes "list_ok words l parts" "e \<in> set (entries parts)" "t \<le> entry_slot e" "from \<le> entry_slot e" "entry_slot e \<le> to"
  shows "\<exists>F W. range_from k l t from to = Some (Some (F, W)) \<and> snd (fst e) \<le> F \<and> W \<le> words (entry_slot e)"
proof -
  have b: "blocks_hold l parts" "slots_ok parts" using assms(1) by (auto simp: list_ok_def)
  obtain c where c: "cursor_new l = Some c" "cursor_ok parts c" "cursor_rest parts c = entries parts" using cursor_new_ok [OF b(1)] .
  obtain c' where c': "cursor_advance k l t c = Some (cursor_peek c', c')" "cursor_ok parts c'"
    "cursor_rest parts c' = dropWhile (\<lambda>e. entry_slot e < t) (entries parts)"
    using cursor_advance_ok [OF b c(2), of k t] c(3) by auto
  have "e \<in> set (takeWhile (\<lambda>e. entry_slot e < t) (entries parts)) \<union> set (dropWhile (\<lambda>e. entry_slot e < t) (entries parts))"
    using assms(2) by (metis set_append takeWhile_dropWhile_id)
  then have "e \<in> set (cursor_rest parts c')" using assms(3) c'(3) by (auto dest!: set_takeWhileD)
  then obtain F W where "cursor_range_maximum l from to c' = Some (F, W)" "snd (fst e) \<le> F" "W \<le> words (entry_slot e)"
    using range_maximum_bounds [OF assms(1) c'(2) _ assms(4,5)] by blast
  then show ?thesis using c(1) c'(1) by (simp add: range_from_def)
qed

lemma holds_map_bounds:
  assumes "holds_map words l M"
  shows "bounds_cover k l words = Some True"
    "M s = Some (f, m) \<Longrightarrow> f \<le> fst (fst (pl_maxima l)) \<and> snd (fst (pl_maxima l)) \<le> words s"
    "M s = Some (f, m) \<Longrightarrow> f > 0 \<Longrightarrow> fst (pl_runs l) = Some rs \<Longrightarrow>
      (\<exists>q \<in> set (rs ! (partition_point (\<lambda>b. blk_last b < s) (pl_blocks l) div SUPER_LEN)). dominates q (f, words s))"
    "M s = Some (f, m) \<Longrightarrow> t \<le> s \<Longrightarrow> from \<le> s \<Longrightarrow> s \<le> to \<Longrightarrow>
      (\<exists>F W. range_from k l t from to = Some (Some (F, W)) \<and> f \<le> F \<and> W \<le> words s)"
proof -
  obtain parts where p: "words_ok words" "list_ok words l parts" "set (entries parts) = map_entries M" using holds_mapE [OF assms] .
  have b: "blocks_hold l parts" "slots_ok parts" "summary_ok l" using p(2) by (auto simp: list_ok_def)
  show "bounds_cover k l words = Some True" by (rule bounds_cover_ok [OF p(2)])
  assume M: "M s = Some (f, m)"
  then have e: "((s, f), m) \<in> set (entries parts)" using p(3) by (simp add: map_entries_mem)
  then obtain j where j: "j < length parts" "((s, f), m) \<in> set (fst (parts ! j))" using entry_part [of "((s, f), m)" 0 parts] unfolding drop_0 by blast
  have bj: "pl_blocks l ! j \<in> set (pl_blocks l)" using j(1) b(1) by (simp add: blocks_hold_def)
  show "f \<le> fst (fst (pl_maxima l)) \<and> snd (fst (pl_maxima l)) \<le> words s"
    unfolding pl_maxima_fold [OF b(3)] block_maxima_def
    using fold_bounds [OF bj, of "(0, 0xFFFFFFFF)"] block_bound(1,2) [OF p(2) j] by (auto elim: order_trans)
  show "\<exists>F W. range_from k l t from to = Some (Some (F, W)) \<and> f \<le> F \<and> W \<le> words s" if "t \<le> s" "from \<le> s" "s \<le> to"
    using range_from_bounds [OF p(2) e] that by simp
  show "\<exists>q \<in> set (rs ! (partition_point (\<lambda>b. blk_last b < s) (pl_blocks l) div SUPER_LEN)). dominates q (f, words s)"
    if "f > 0" "fst (pl_runs l) = Some rs"
    using run_frontiers_cover [OF p(2) j] entry_position [OF b(1,2) j] pl_runs_frontiers [OF b(3)] that by (auto split: if_splits)
qed

section \<open>Properties\<close>

text \<open>
  C23. Refinement: every sequence of edits that the index may make of an empty list (appends of runs in any order, with
  or without ordinals, removals, changed entries, changed lengths, queries that fill the summary) ends without a
  panic, and the bit-packed list then is the map the same edits make: its counts are the map's, decoding gives
  the map in slot order, a cursor advanced to any target stops at the map's next slot with its frequency and
  ordinal, and marking sets the bits of exactly the slots with a positive frequency.
\<close>

theorem posting_list_refines_map:
  assumes "edits_ok es Map.empty"
  shows "\<exists>words l. pl_edits k es (\<lambda>_. 0, pl_default) = Some (words, l) \<and>
    (let M = fold map_edit es Map.empty
     in pl_len l = card (dom M) \<and> positive_len l = card {s. \<exists>f m. M s = Some (f, m) \<and> f > 0} \<and>
        (\<exists>ps. pl_decode k l = Some ps \<and> sorted_wrt (<) (map fst ps) \<and> set ps = {(s, f). \<exists>m. M s = Some (f, m)}) \<and>
        (\<forall>t. \<exists>r. seek k l t = Some r \<and> first_from M t r) \<and>
        (\<forall>matched. (\<forall>s \<in> dom M. s div 64 < length matched) \<longrightarrow>
          (\<exists>m'. mark_slots k l matched = Some m' \<and> length m' = length matched \<and>
            (\<forall>s. s div 64 < length matched \<longrightarrow>
              (bit (m' ! (s div 64)) (s mod 64) \<longleftrightarrow> bit (matched ! (s div 64)) (s mod 64) \<or> (\<exists>f n. M s = Some (f, n) \<and> f > 0))))))"
proof -
  obtain words l where l: "pl_edits k es (\<lambda>_. 0, pl_default) = Some (words, l)" "holds_map words l (fold map_edit es Map.empty)"
    using pl_edits_holds [OF default_holds assms] by blast
  show ?thesis
    unfolding Let_def
    by (intro exI [of _ words] exI [of _ l] conjI allI impI l(1) holds_map_reads [OF l(2)] holds_map_marks [OF l(2)])
qed

theorem posting_list_refines_map_witness:
  "edits_ok [Append [(3, 2), (9, 1)] [1, 0], Append [(5, 1)] [], SetEntry 3 4 None, Remove 9] Map.empty \<and>
   (\<exists>words l. pl_edits Scalar [Append [(3, 2), (9, 1)] [1, 0], Append [(5, 1)] [], SetEntry 3 4 None, Remove 9] (\<lambda>_. 0, pl_default) = Some (words, l) \<and>
     (\<forall>t. \<exists>r. seek Scalar l t = Some r \<and>
        first_from (fold map_edit [Append [(3, 2), (9, 1)] [1, 0], Append [(5, 1)] [], SetEntry 3 4 None, Remove 9] Map.empty) t r))"
proof -
  have ok: "edits_ok [Append [(3, 2), (9, 1)] [1, 0], Append [(5, 1)] [], SetEntry 3 4 None, Remove 9] Map.empty"
    by (simp add: run_entries_def)
  then show ?thesis using posting_list_refines_map [OF ok, of Scalar] unfolding Let_def by blast
qed

text \<open>
  C24. Safety of pruning: after any such sequence of edits the bounds a query prunes with cover every posting: the check of
  the test suite accepts every block; the maxima of the list, read or cached, bound each frequency from above
  and each length from below; the run of blocks a posting is in has a summary point that dominates it; and the
  maximum a cursor gives for a range of slots bounds every posting of the range still ahead of it.
\<close>

theorem posting_bounds_cover:
  assumes "edits_ok es Map.empty"
  shows "\<exists>words l. pl_edits k es (\<lambda>_. 0, pl_default) = Some (words, l) \<and> bounds_cover k l words = Some True \<and>
    (\<forall>s f m. fold map_edit es Map.empty s = Some (f, m) \<longrightarrow>
       f \<le> fst (fst (pl_maxima l)) \<and> snd (fst (pl_maxima l)) \<le> words s \<and>
       (\<forall>rs. f > 0 \<and> fst (pl_runs l) = Some rs \<longrightarrow>
          (\<exists>q \<in> set (rs ! (partition_point (\<lambda>b. blk_last b < s) (pl_blocks l) div SUPER_LEN)). dominates q (f, words s))) \<and>
       (\<forall>t from to. t \<le> s \<and> from \<le> s \<and> s \<le> to \<longrightarrow>
          (\<exists>F W. range_from k l t from to = Some (Some (F, W)) \<and> f \<le> F \<and> W \<le> words s)))"
proof -
  obtain words l where l: "pl_edits k es (\<lambda>_. 0, pl_default) = Some (words, l)" "holds_map words l (fold map_edit es Map.empty)"
    using pl_edits_holds [OF default_holds assms] by blast
  note h = holds_map_bounds [OF l(2)]
  show ?thesis
    by (intro exI [of _ words] exI [of _ l] conjI allI impI l(1) h(1) conjunct1 [OF h(2)] conjunct2 [OF h(2)] h(3) h(4)) auto
qed

theorem posting_bounds_cover_witness:
  "edits_ok [Resize 3 7, Append [(3, 2), (9, 1)] [], Relength 9 4, ReadMaxima] Map.empty \<and>
   (\<exists>words l. pl_edits Scalar [Resize 3 7, Append [(3, 2), (9, 1)] [], Relength 9 4, ReadMaxima] (\<lambda>_. 0, pl_default) = Some (words, l) \<and>
     bounds_cover Scalar l words = Some True \<and> 2 \<le> fst (fst (pl_maxima l)) \<and> snd (fst (pl_maxima l)) \<le> words 3)"
proof -
  let ?es = "[Resize 3 7, Append [(3, 2), (9, 1)] [], Relength 9 4, ReadMaxima]"
  have ok: "edits_ok ?es Map.empty" by (simp add: run_entries_def)
  moreover have "fold map_edit ?es Map.empty 3 = Some (2, 0)" by (simp add: run_entries_def)
  ultimately show ?thesis using posting_bounds_cover [OF ok, of Scalar] by blast
qed

end
