(* ===== verification/PostingLists.thy ===== *)
theory PostingLists
  imports PostingList TermDictionary
begin

text \<open>
  The posting lists of one term form, \<open>PostingLists\<close> of \<open>src/core/documents/postings.rs\<close>: the dictionary of terms,
  the ls by id, and the ids of ls without a term.  Together they refine a map from terms to posting maps.
  \<open>None\<close> stands for a panic.
\<close>

record PostingLists =
  pls_dictionary :: TermDictionary
  pls_lists :: "PostingList list"
  pls_free :: "u32 list"

definition pls_default :: PostingLists where
  "pls_default = \<lparr>pls_dictionary = td_default, pls_lists = [], pls_free = []\<rparr>"

definition slot_length :: "u32 list \<Rightarrow> usize \<Rightarrow> u32" where
  "slot_length words slot = (case slice_get words slot of None \<Rightarrow> 0 | Some w \<Rightarrow> w)"

definition on_list :: "u32 \<Rightarrow> (PostingList \<Rightarrow> PostingList option) \<Rightarrow> PostingLists \<Rightarrow> PostingLists option" where
  "on_list i f s =
     (case slice_get (pls_lists s) (unat i) of
        None \<Rightarrow> None
      | Some l \<Rightarrow> map_option (\<lambda>l. s\<lparr>pls_lists := (pls_lists s)[unat i := l]\<rparr>) (f l))"

section \<open>Reading\<close>

definition pls_get :: "PostingLists \<Rightarrow> rstr \<Rightarrow> PostingList option option" where
  "pls_get s term =
     (case td_get (pls_dictionary s) term of
        None \<Rightarrow> None
      | Some None \<Rightarrow> Some None
      | Some (Some i) \<Rightarrow> map_option Some (slice_get (pls_lists s) (unat i)))"

definition sorted_terms :: "PostingLists \<Rightarrow> (u8 list \<times> u32 list \<times> PostingList list) option" where
  "sorted_terms s =
     (case merged_base (pls_dictionary s) (overlay (pls_dictionary s)) of
        None \<Rightarrow> None
      | Some (bytes, offs, ids) \<Rightarrow> map_option (\<lambda>ls. (bytes, offs, ls)) (those (map (\<lambda>i. slice_get (pls_lists s) (unat i)) ids)))"

definition term_count :: "PostingLists \<Rightarrow> nat" where "term_count s = td_len (pls_dictionary s)"

section \<open>Building from sorted entries\<close>

fun from_sorted_loop :: "u32 list \<Rightarrow> nat \<Rightarrow> (rstr \<times> Posting list) list \<Rightarrow> new_base \<Rightarrow> PostingList list \<Rightarrow> (new_base \<times> PostingList list) option" where
  "from_sorted_loop words i [] acc ls = Some (acc, ls)"
| "from_sorted_loop words i ((term, postings) # es) acc ls =
     (case push_term term (of_nat i) acc of
        None \<Rightarrow> None
      | Some acc \<Rightarrow>
          if i < 2 ^ 32 then
            case pl_encode postings (slot_length words) pl_default of
              None \<Rightarrow> None
            | Some l \<Rightarrow> from_sorted_loop words (i + 1) es acc (ls @ [l])
          else None)"

definition pls_from_sorted :: "(rstr \<times> Posting list) list \<Rightarrow> u32 list \<Rightarrow> PostingLists option" where
  "pls_from_sorted es words =
     map_option (\<lambda>((bytes, offs, ids), ls).
         \<lparr>pls_dictionary = td_default\<lparr>td_bytes := bytes, td_offsets := offs, base_ids := ids\<rparr>, pls_lists = ls, pls_free = []\<rparr>)
       (from_sorted_loop words 0 es ([], [0], []) [])"

section \<open>Changes\<close>

definition allocate_list :: "PostingLists \<Rightarrow> (u32 \<times> PostingLists) option" where
  "allocate_list s =
     (if pls_free s \<noteq> [] then Some (last (pls_free s), s\<lparr>pls_free := butlast (pls_free s)\<rparr>)
      else if length (pls_lists s) < 2 ^ 32 then Some (of_nat (length (pls_lists s)), s\<lparr>pls_lists := pls_lists s @ [pl_default]\<rparr>)
      else None)"

definition insert_with_ordinal :: "kernel \<Rightarrow> rstr \<Rightarrow> usize \<Rightarrow> u32 \<Rightarrow> u32 \<Rightarrow> u32 list \<Rightarrow> PostingLists \<Rightarrow> PostingLists option" where
  "insert_with_ordinal k term slot frequency ordinal words s =
     (case td_get (pls_dictionary s) term of
        None \<Rightarrow> None
      | Some found \<Rightarrow>
          (case (case found of
                   Some i \<Rightarrow> Some (i, s)
                 | None \<Rightarrow>
                     (case allocate_list s of
                        None \<Rightarrow> None
                      | Some (i, s) \<Rightarrow> map_option (\<lambda>d. (i, s\<lparr>pls_dictionary := d\<rparr>)) (td_insert (pls_dictionary s) term i))) of
             None \<Rightarrow> None
           | Some (i, s) \<Rightarrow> on_list i (append_run_with_ordinals k [(slot, frequency)] [ordinal] (slot_length words)) s))"

record TermRun =
  run_term :: rstr
  run_postings :: "Posting list"
  run_ordinals :: "u32 list"

fun insert_runs_loop :: "kernel \<Rightarrow> u32 list \<Rightarrow> (TermRun \<times> u32 option) list \<Rightarrow> (rstr \<times> u32) list \<Rightarrow> PostingLists \<Rightarrow> ((rstr \<times> u32) list \<times> PostingLists) option" where
  "insert_runs_loop k words [] new s = Some (new, s)"
| "insert_runs_loop k words ((run, found) # runs) new s =
     (case (case found of
              Some i \<Rightarrow> Some (i, new, s)
            | None \<Rightarrow> map_option (\<lambda>(i, s). (i, new @ [(run_term run, i)], s)) (allocate_list s)) of
        None \<Rightarrow> None
      | Some (i, new, s) \<Rightarrow>
          (case on_list i (append_run_with_ordinals k (run_postings run) (run_ordinals run) (slot_length words)) s of
             None \<Rightarrow> None
           | Some s \<Rightarrow> insert_runs_loop k words runs new s))"

text \<open>The lookups run in parallel when there are many; their order is the order of the runs.\<close>

definition insert_runs_with_lengths :: "kernel \<Rightarrow> TermRun list \<Rightarrow> u32 list \<Rightarrow> PostingLists \<Rightarrow> PostingLists option" where
  "insert_runs_with_lengths k runs words s =
     (if runs = [] then Some s
      else case those (map (\<lambda>run. td_get (pls_dictionary s) (run_term run)) runs) of
             None \<Rightarrow> None
           | Some ids \<Rightarrow>
               (case insert_runs_loop k words (zip runs ids) [] s of
                  None \<Rightarrow> None
                | Some (new, s) \<Rightarrow> map_option (\<lambda>d. s\<lparr>pls_dictionary := d\<rparr>) (insert_many (pls_dictionary s) new)))"

definition live_id :: "PostingLists \<Rightarrow> rstr \<Rightarrow> u32 option" where
  "live_id s term = (case td_get (pls_dictionary s) term of None \<Rightarrow> None | Some found \<Rightarrow> found)"

definition pls_remove :: "kernel \<Rightarrow> rstr \<Rightarrow> usize \<Rightarrow> u32 list \<Rightarrow> PostingLists \<Rightarrow> PostingLists option" where
  "pls_remove k term slot words s =
     (case live_id s term of
        None \<Rightarrow> None
      | Some i \<Rightarrow>
          (case on_list i (pl_remove k slot (slot_length words)) s of
             None \<Rightarrow> None
           | Some s \<Rightarrow>
               if pl_is_empty (pls_lists s ! unat i)
               then map_option (\<lambda>(_, d). s\<lparr>pls_lists := (pls_lists s)[unat i := pl_default], pls_dictionary := d, pls_free := pls_free s @ [i]\<rparr>)
                      (td_remove (pls_dictionary s) term)
               else Some s))"

definition pls_invalidate_length :: "rstr \<Rightarrow> usize \<Rightarrow> PostingLists \<Rightarrow> PostingLists option" where
  "pls_invalidate_length term slot s =
     (case live_id s term of None \<Rightarrow> None | Some i \<Rightarrow> on_list i (invalidate_length slot) s)"

definition pls_set_entry :: "kernel \<Rightarrow> rstr \<Rightarrow> usize \<Rightarrow> u32 \<Rightarrow> u32 option \<Rightarrow> u32 list \<Rightarrow> PostingLists \<Rightarrow> PostingLists option" where
  "pls_set_entry k term slot frequency ordinal words s =
     (case live_id s term of None \<Rightarrow> None | Some i \<Rightarrow> on_list i (pl_set_entry k slot frequency ordinal (slot_length words)) s)"

section \<open>What the ls hold\<close>

type_synonym term_maps = "rstr \<Rightarrow> posting_map"

text \<open>
  \<open>W t\<close> gives the lengths the bounds of the list of \<open>t\<close> are right for: while the postings of a changed chunk are
  moved, ls already visited and ls still to be visited differ.
\<close>

definition store_ok :: "(rstr \<Rightarrow> usize \<Rightarrow> u32) \<Rightarrow> (rstr \<rightharpoonup> u32) \<Rightarrow> PostingList list \<Rightarrow> u32 list \<Rightarrow> term_maps \<Rightarrow> bool" where
  "store_ok W m ls free I \<longleftrightarrow>
     inj_on m (dom m) \<and>
     (\<forall>t i. m t = Some i \<longrightarrow> i \<noteq> NONE \<and> unat i < length ls \<and> holds_map (W t) (ls ! unat i) (I t) \<and> I t \<noteq> Map.empty) \<and>
     (\<forall>t. m t = None \<longrightarrow> I t = Map.empty) \<and>
     distinct free \<and> (\<forall>i \<in> set free. i \<noteq> NONE \<and> unat i < length ls \<and> ls ! unat i = pl_default \<and> i \<notin> ran m) \<and>
     (\<forall>j < length ls. of_nat j \<in> ran m \<union> set free)"

definition lists_hold :: "(rstr \<Rightarrow> usize \<Rightarrow> u32) \<Rightarrow> PostingLists \<Rightarrow> term_maps \<Rightarrow> bool" where
  "lists_hold W s I \<longleftrightarrow> (\<exists>m. represents (pls_dictionary s) m \<and> store_ok W m (pls_lists s) (pls_free s) I)"

definition pls_cost :: "PostingLists \<Rightarrow> nat" where "pls_cost s = td_size (pls_dictionary s) + length (pls_lists s)"

lemma store_okD:
  assumes "store_ok W m ls free I" "m t = Some i"
  shows "i \<noteq> NONE" "unat i < length ls" "holds_map (W t) (ls ! unat i) (I t)" "I t \<noteq> Map.empty" "i \<notin> set free"
  using assms by (auto simp: store_ok_def ranI)

lemma store_ok_other: "store_ok W m ls free I \<Longrightarrow> m t = Some i \<Longrightarrow> m u = Some i \<Longrightarrow> t = u"
  by (auto simp: store_ok_def inj_on_def dom_def)

lemma store_put:
  assumes "store_ok W m ls free I" "m t = Some i" "holds_map w l M" "M \<noteq> Map.empty"
  shows "store_ok (W(t := w)) m (ls[unat i := l]) free (I(t := M))"
proof -
  have "holds_map ((W(t := w)) u) (ls[unat i := l] ! unat j) ((I(t := M)) u) \<and> (I(t := M)) u \<noteq> Map.empty" if u: "m u = Some j" for u j
  proof (cases "u = t")
    case True
    then show ?thesis using u assms(2-4) store_okD(2) [OF assms(1,2)] by simp
  next
    case False
    then have "unat j \<noteq> unat i" using store_ok_other [OF assms(1) u] assms(2) by (metis word_unat_eq_iff)
    then show ?thesis using False store_okD [OF assms(1) u] by simp
  qed
  moreover have "ls[unat i := l] ! unat j = pl_default" if "j \<in> set free" for j
  proof -
    have "unat j \<noteq> unat i" using store_okD(5) [OF assms(1,2)] that by (metis word_unat_eq_iff)
    then show ?thesis using assms(1) that by (simp add: store_ok_def)
  qed
  ultimately show ?thesis using assms(1,2) unfolding store_ok_def by (simp add: fun_upd_other)
qed

lemma store_drop:
  assumes "store_ok W m ls free I" "m t = Some i"
  shows "store_ok W (m(t := None)) (ls[unat i := pl_default]) (free @ [i]) (I(t := Map.empty))"
proof -
  note i = store_okD [OF assms]
  have other: "unat j \<noteq> unat i" if "m u = Some j" "u \<noteq> t" for u j
    using store_ok_other [OF assms(1) that(1)] that(2) assms(2) by (metis word_unat_eq_iff)
  have ran: "ran (m(t := None)) = ran m - {i}"
  proof (intro equalityI subsetI)
    fix j
    assume "j \<in> ran (m(t := None))"
    then obtain u where "m u = Some j" "u \<noteq> t" by (auto simp: ran_def split: if_splits)
    then show "j \<in> ran m - {i}" using other [of u j] by (auto intro: ranI)
  next
    fix j
    assume "j \<in> ran m - {i}"
    then obtain u where u: "m u = Some j" "j \<noteq> i" by (auto simp: ran_def)
    then have "u \<noteq> t" using assms(2) by auto
    then show "j \<in> ran (m(t := None))" using u(1) by (auto intro!: ranI [of _ u])
  qed
  have "holds_map (W u) (ls[unat i := pl_default] ! unat j) (I u)" if "m u = Some j" "u \<noteq> t" for u j
    using other [OF that] store_okD(3) [OF assms(1) that(1)] by simp
  moreover have "ls[unat i := pl_default] ! unat j = pl_default" if "j \<in> set free" for j
    using assms(1) that i(2) by (cases "unat j = unat i") (auto simp: store_ok_def)
  moreover have "inj_on (m(t := None)) (dom (m(t := None)))" using assms(1) by (auto simp: store_ok_def inj_on_def dom_def split: if_splits)
  moreover have "of_nat j \<in> ran (m(t := None)) \<union> set (free @ [i])" if "j < length ls" for j
    using assms(1) that unfolding ran by (auto simp: store_ok_def)
  ultimately show ?thesis using assms(1) i unfolding store_ok_def ran by (auto split: if_splits)
qed

lemma store_add:
  assumes "store_ok W m ls (free @ [i]) I" "m t = None" "holds_map w l M" "M \<noteq> Map.empty"
  shows "store_ok (W(t := w)) (m(t \<mapsto> i)) (ls[unat i := l]) free (I(t := M))"
proof -
  have i: "i \<noteq> NONE" "unat i < length ls" "i \<notin> ran m" "i \<notin> set free" using assms(1) by (auto simp: store_ok_def)
  have other: "unat j \<noteq> unat i" if "m u = Some j" for u j using i(3) that by (metis ranI word_unat_eq_iff)
  have ran: "ran (m(t \<mapsto> i)) = insert i (ran m)" using assms(2) by simp
  have "holds_map ((W(t := w)) u) (ls[unat i := l] ! unat j) ((I(t := M)) u) \<and> (I(t := M)) u \<noteq> Map.empty"
    if "(m(t \<mapsto> i)) u = Some j" for u j
    using that assms(3,4) i(2) other [of u j] store_okD [OF assms(1), of u j] by (auto split: if_splits)
  moreover have "ls[unat i := l] ! unat j = pl_default" if "j \<in> set free" for j
  proof -
    have "unat j \<noteq> unat i" using i(4) that by (metis word_unat_eq_iff)
    then show ?thesis using assms(1) that by (simp add: store_ok_def)
  qed
  moreover have "inj_on (m(t \<mapsto> i)) (dom (m(t \<mapsto> i)))"
    using assms(1) i(3) by (auto simp: store_ok_def inj_on_def dom_def ran_def split: if_splits)
  moreover have "of_nat j \<in> ran (m(t \<mapsto> i)) \<union> set free" if "j < length ls" for j
    using assms(1) that unfolding ran by (auto simp: store_ok_def)
  moreover have "j \<noteq> NONE \<and> unat j < length (ls[unat i := l])" if "(m(t \<mapsto> i)) u = Some j" for u j
    using that i(1,2) store_okD [OF assms(1), of u j] by (auto split: if_splits)
  moreover have "distinct free" "\<forall>j \<in> set free. j \<noteq> NONE \<and> unat j < length ls \<and> j \<notin> insert i (ran m)"
    using assms(1) i(4) by (auto simp: store_ok_def)
  moreover have "(I(t := M)) u = Map.empty" if "(m(t \<mapsto> i)) u = None" for u
    using that assms(1) by (auto simp: store_ok_def split: if_splits)
  ultimately show ?thesis unfolding store_ok_def ran by (metis length_list_update)
qed

lemma store_words:
  assumes "store_ok W m ls free I" "\<And>t i. m t = Some i \<Longrightarrow> holds_map (W' t) (ls ! unat i) (I t)"
  shows "store_ok W' m ls free I"
  using assms by (simp add: store_ok_def)

lemma next_id:
  assumes "n < 2 ^ 32 - 1"
  shows "unat (of_nat n :: u32) = n" "(of_nat n :: u32) \<noteq> NONE"
proof -
  show u: "unat (of_nat n :: u32) = n" using assms by (simp add: unat_of_nat32)
  have "unat NONE = 2 ^ 32 - 1" by (simp add: NONE_def)
  then show "(of_nat n :: u32) \<noteq> NONE" using u assms by (metis less_irrefl)
qed

text \<open>A new list is a free one: allocation takes the last free id, or makes one that is free at once.\<close>

lemma allocate_list_ok:
  assumes "store_ok W m (pls_lists s) (pls_free s) I" "length (pls_lists s) < 2 ^ 32 - 1"
  obtains i s' where "allocate_list s = Some (i, s')" "store_ok W m (pls_lists s') (pls_free s' @ [i]) I"
    "pls_dictionary s' = pls_dictionary s" "length (pls_lists s') \<le> length (pls_lists s) + 1"
proof (cases "pls_free s = []")
  case False
  then show ?thesis using assms(1) that [of "last (pls_free s)" "s\<lparr>pls_free := butlast (pls_free s)\<rparr>"] by (simp add: allocate_list_def)
next
  case True
  let ?n = "length (pls_lists s)" and ?s = "s\<lparr>pls_lists := pls_lists s @ [pl_default]\<rparr>"
  note n = next_id [OF assms(2)]
  have lt: "unat j < ?n" if "m t = Some j" for t j using store_okD(2) [OF assms(1) that] .
  have "of_nat ?n \<notin> ran m" using lt n(1) by (force simp: ran_def)
  moreover have "of_nat j \<in> ran m \<union> {of_nat ?n :: u32}" if "j < Suc ?n" for j
    using that assms(1) True by (cases "j = ?n") (auto simp: store_ok_def)
  moreover have "holds_map (W t) ((pls_lists s @ [pl_default]) ! unat j) (I t)" if "m t = Some j" for t j
    using that lt store_okD(3) [OF assms(1)] by (simp add: nth_append)
  ultimately have "store_ok W m (pls_lists s @ [pl_default]) [of_nat ?n] I"
    using assms(1) n True unfolding store_ok_def by (auto simp: less_SucI)
  then show ?thesis using that [of "of_nat ?n" ?s] True assms(2) by (simp add: allocate_list_def)
qed

lemma on_list_ok:
  assumes "unat i < length (pls_lists s)" "f (pls_lists s ! unat i) = Some l"
  shows "on_list i f s = Some (s\<lparr>pls_lists := (pls_lists s)[unat i := l]\<rparr>)"
  using assms by (simp add: on_list_def slice_get_def)

lemma live_id_ok: "represents (pls_dictionary s) m \<Longrightarrow> live_id s term = m term"
  by (simp add: live_id_def represents_get)

section \<open>Lengths that differ at one slot\<close>

lemma chunks_cong: "(\<And>x. x \<in> set xs \<Longrightarrow> P x) \<Longrightarrow> ys \<in> set (slice_chunks n xs) \<Longrightarrow> x \<in> set ys \<Longrightarrow> P x"
proof (induction n xs rule: slice_chunks.induct)
  case (1 n xs)
  then show ?case by (subst (asm) (2) slice_chunks.simps) (auto split: if_splits dest: in_set_takeD in_set_dropD)
qed

lemma words_cong:
  assumes "\<And>p. p \<in> set ps \<Longrightarrow> v (fst p) = w (fst p)"
  shows "points_of v ps = points_of w ps" "least_words v ps = least_words w ps"
proof -
  have m: "map (\<lambda>p. v (fst p)) ps = map (\<lambda>p. w (fst p)) ps" using assms by simp
  show "points_of v ps = points_of w ps" using assms by (auto simp: points_of_def)
  show "least_words v ps = least_words w ps" unfolding least_words_def m ..
qed

lemma append_chunks_cong:
  assumes "\<And>b p. b \<in> set bs \<Longrightarrow> p \<in> set b \<Longrightarrow> v (fst p) = w (fst p)"
  shows "append_chunks v os start bs l = append_chunks w os start bs l"
  using assms
proof (induction bs arbitrary: start l)
  case (Cons b bs)
  have ih: "append_chunks v os n bs l = append_chunks w os n bs l" for n l using Cons.prems by (intro Cons.IH) auto
  have b: "v (fst p) = w (fst p)" if "p \<in> set b" for p using that Cons.prems [of b p] by simp
  have wc: "points_of v b = points_of w b" "least_words v b = least_words w b" by (rule words_cong, erule b)+
  show ?case unfolding append_chunks.simps ih wc ..
qed simp

lemma scratch_blocks_cong:
  assumes "\<And>b p. b \<in> set bs \<Longrightarrow> p \<in> set b \<Longrightarrow> v (fst p) = w (fst p)"
  shows "scratch_blocks v os width part bs l = scratch_blocks w os width part bs l"
  using assms
proof (induction bs arbitrary: part l)
  case (Cons b bs)
  have ih: "scratch_blocks v os width n bs l = scratch_blocks w os width n bs l" for n l using Cons.prems by (intro Cons.IH) auto
  have b: "v (fst p) = w (fst p)" if "p \<in> set b" for p using that Cons.prems [of b p] by simp
  have wc: "points_of v b = points_of w b" "least_words v b = least_words w b" by (rule words_cong, erule b)+
  show ?case unfolding scratch_blocks.simps ih wc ..
qed simp

lemma edit_cong:
  assumes "\<And>p. p \<in> set ps \<Longrightarrow> v (fst p) = w (fst p)"
  shows "encode_with_ordinals ps os v l = encode_with_ordinals ps os w l" "rewrite_block i ps os v l = rewrite_block i ps os w l"
proof -
  note c = chunks_cong [of ps "\<lambda>p. v (fst p) = w (fst p)", OF assms]
  have a: "append_chunks v os n (slice_chunks BLOCK_LEN ps) l = append_chunks w os n (slice_chunks BLOCK_LEN ps) l" for n l
    by (rule append_chunks_cong) (rule c)
  have b: "scratch_blocks v os width n (slice_chunks width ps) l = scratch_blocks w os width n (slice_chunks width ps) l" for width n l
    by (rule scratch_blocks_cong) (rule c)
  show "encode_with_ordinals ps os v l = encode_with_ordinals ps os w l" unfolding encode_with_ordinals_def a ..
  show "rewrite_block i ps os v l = rewrite_block i ps os w l" unfolding rewrite_block_def Let_def b ..
qed

lemma pl_remove_cong:
  assumes "list_ok words l parts" "words_ok words" "e \<in> set (entries parts)" "\<And>t. t \<noteq> entry_slot e \<Longrightarrow> v t = w t"
  shows "pl_remove k (entry_slot e) v l = pl_remove k (entry_slot e) w l"
proof -
  obtain pre p post i where sp: "parts = pre @ p # post" "partition_point (\<lambda>b. blk_last b < entry_slot e) (pl_blocks l) = length pre" "part_ok (fst p)"
    "slice_binary_search (map fst (map fst (fst p))) (entry_slot e) = Inr i" "i < length (fst p)" "fst p ! i = e" "length pre < length (pl_blocks l)"
    using find_entry [OF assms(1,3)] by blast
  obtain j c where j: "pl_decode k l = Some (map fst (entries parts))"
    "slice_binary_search (map fst (map fst (entries parts))) (entry_slot e) = Inr j" "j < length (entries parts)" "entries parts ! j = e"
    "cursor_new l = Some c" "cursor_ordinals k l c = Some (map snd (entries parts))"
    using repack_ok [OF assms(1-3)] .
  have b: "blocks_hold l (pre @ p # post)" using assms(1) sp(1) by (simp add: list_ok_def)
  let ?es = "fst p"
  have bo: "block_of k l (entry_slot e) = Some (length pre, map fst ?es @ drop (length ?es) zero_block, length ?es)"
    using sp(7) by (simp add: block_of_def sp(2) block_decoded [OF b] Let_def)
  have rp: "run_ok ?es" using sp(3) by (simp add: part_ok_def run_ok_def)
  have agree: "v (fst q) = w (fst q)" if "run_ok es" "n < length es" "es ! n = e" "q \<in> set (vec_remove n (map fst es))" for es n q
  proof -
    have "set (vec_remove n (map fst es)) = fst ` set (vec_remove n es)" by (simp flip: vec_remove_map)
    then have "q \<in> fst ` (set es - {e})" using that(4) run_ok_remove(2) [OF that(1,2)] that(3) by simp
    then obtain x where x: "q = fst x" "x \<in> set es" "x \<noteq> e" by blast
    have "e \<in> set es" using nth_mem [OF that(2)] that(3) by simp
    then have "fst q \<noteq> entry_slot e" using run_ok_unique [OF that(1) x(2), of e] x by blast
    then show ?thesis by (rule assms(4))
  qed
  have 1: "encode_with_ordinals (vec_remove j (map fst (entries parts))) os v l' = encode_with_ordinals (vec_remove j (map fst (entries parts))) os w l'" for os l'
    by (rule edit_cong(1)) (rule agree [OF list_ok_run [OF assms(1)] j(3,4)])
  have 2: "rewrite_block n (vec_remove i (map fst ?es)) os v l' = rewrite_block n (vec_remove i (map fst ?es)) os w l'" for n os l'
    by (rule edit_cong(2)) (rule agree [OF rp sp(5,6)])
  have tk: "take (length ?es) (map fst ?es @ drop (length ?es) zero_block) = map fst ?es" by simp
  show ?thesis unfolding pl_remove_def bo option.case prod.case j(1,2,5,6) sum.case tk sp(4) 1 2 ..
qed

section \<open>Every operation on the map\<close>

lemma holds_map_mono:
  assumes "holds_map v l M" "words_ok w" "\<And>t. v t \<le> w t"
  shows "holds_map w l M"
proof -
  obtain parts where p: "words_ok v" "list_ok v l parts" "set (entries parts) = map_entries M" using holds_mapE [OF assms(1)] .
  have "covers w q" if "q \<in> set parts" for q
  proof -
    have up: "\<exists>y \<in> A. dominates y (f, v t) \<Longrightarrow> \<exists>y \<in> A. dominates y (f, w t)" for A f t
      using assms(3) [of t] by (auto simp: dominates_def intro: order_trans)
    have le: "x \<le> v t \<Longrightarrow> x \<le> w t" for x t using assms(3) [of t] by simp
    have "covers v q" using p(2) that by (simp add: list_ok_def)
    then show ?thesis unfolding covers_def by (auto split: prod.splits option.splits intro: le intro!: up)
  qed
  then have "list_ok w l parts" using p(2) by (simp add: list_ok_def)
  then show ?thesis using assms(2) p(3) holds_mapI by metis
qed

lemma remove_holds_except:
  assumes "holds_map v l M" "M s = Some (f, m)" "words_ok w" "\<And>t. t \<noteq> s \<Longrightarrow> w t = v t"
  shows "\<exists>l'. pl_remove k s w l = Some l' \<and> holds_map w l' (M(s := None))"
proof -
  obtain parts where p: "words_ok v" "list_ok v l parts" "set (entries parts) = map_entries M" using holds_mapE [OF assms(1)] .
  have "((s, f), m) \<in> set (entries parts)" using p(3) assms(2) by (simp add: map_entries_mem)
  then have "pl_remove k s w l = pl_remove k s v l"
    using pl_remove_cong [OF p(2,1), of "((s, f), m)" w v k] assms(4) by simp
  then obtain l' where l': "pl_remove k s w l = Some l'" "holds_map v l' (M(s := None))" using remove_holds [OF assms(1,2)] by metis
  have w: "v(s := w s) = w" using assms(4) by (auto simp: fun_eq_iff)
  have "w s \<noteq> 0xFFFFFFFF" using assms(3) by (simp add: words_ok_def)
  then have "holds_map (v(s := w s)) l' (M(s := None))" by (intro resize_holds [OF l'(2)]) simp_all
  then show ?thesis using l'(1) unfolding w by blast
qed

lemma map_entries_empty: "map_entries M = {} \<longleftrightarrow> M = Map.empty"
  unfolding dom_eq_empty_conv [symmetric] map_entries_dom [symmetric] by simp

lemma lists_holdE:
  assumes "lists_hold W s I"
  obtains m where "represents (pls_dictionary s) m" "store_ok W m (pls_lists s) (pls_free s) I"
  using assms by (auto simp: lists_hold_def)

lemma lists_hold_live:
  assumes "represents (pls_dictionary s) m" "store_ok W m (pls_lists s) (pls_free s) I" "I t slot = Some p"
  obtains i where "m t = Some i" "live_id s t = Some i" "unat i < length (pls_lists s)" "holds_map (W t) (pls_lists s ! unat i) (I t)"
proof -
  have "m t \<noteq> None" using assms(2,3) by (auto simp: store_ok_def)
  then obtain i where "m t = Some i" by blast
  then show ?thesis using that store_okD [OF assms(2)] live_id_ok [OF assms(1)] by simp
qed

lemma pls_remove_ok:
  assumes "lists_hold W s I" "I t slot = Some (f, m)" "words_ok (slot_length ws)" "\<And>x. x \<noteq> slot \<Longrightarrow> slot_length ws x = W t x" "pls_cost s < 2 ^ 32"
  shows "\<exists>s'. pls_remove k t slot ws s = Some s' \<and> lists_hold (W(t := slot_length ws)) s' (I(t := (I t)(slot := None))) \<and> pls_cost s' \<le> pls_cost s"
proof -
  obtain dm where d: "represents (pls_dictionary s) dm" "store_ok W dm (pls_lists s) (pls_free s) I" using lists_holdE [OF assms(1)] .
  obtain i where i: "dm t = Some i" "live_id s t = Some i" "unat i < length (pls_lists s)" "holds_map (W t) (pls_lists s ! unat i) (I t)"
    using lists_hold_live [OF d assms(2)] .
  let ?M = "(I t)(slot := None)"
  obtain l where l: "pl_remove k slot (slot_length ws) (pls_lists s ! unat i) = Some l" "holds_map (slot_length ws) l ?M"
    using remove_holds_except [OF i(4) assms(2-4)] by blast
  let ?s = "s\<lparr>pls_lists := (pls_lists s)[unat i := l]\<rparr>"
  have on: "on_list i (pl_remove k slot (slot_length ws)) s = Some ?s" using on_list_ok [of i s] i(3) l(1) by blast
  have cd: "pl_is_empty l \<longleftrightarrow> ?M = Map.empty"
  proof -
    obtain parts where "list_ok (slot_length ws) l parts" "set (entries parts) = map_entries ?M" using holds_mapE [OF l(2)] .
    then have "length (entries parts) < 2 ^ 32" "pl_count l = of_nat (length (entries parts))" "entries parts = [] \<longleftrightarrow> map_entries ?M = {}"
      using list_ok_counts by auto
    then show ?thesis using map_entries_empty [of ?M] unat_of_nat32 [of "length (entries parts)"] by (auto simp: pl_is_empty_def word_unat_eq_iff)
  qed
  show ?thesis
  proof (cases "?M = Map.empty")
    case True
    have "td_size (pls_dictionary s) < 2 ^ 32" using assms(5) by (simp add: pls_cost_def)
    then obtain d' where d': "td_remove (pls_dictionary s) t = Some (dm t, d')" "represents d' (dm(t := None))" "td_size d' \<le> td_size (pls_dictionary s)"
      using td_remove_ok [OF d(1)] by blast
    let ?r = "s\<lparr>pls_lists := (pls_lists s)[unat i := pl_default], pls_dictionary := d', pls_free := pls_free s @ [i]\<rparr>"
    have "pls_remove k t slot ws s = Some ?r" using i on cd True d'(1) by (simp add: pls_remove_def)
    moreover have "store_ok (W(t := slot_length ws)) (dm(t := None)) (pls_lists ?r) (pls_free ?r) (I(t := ?M))"
    proof -
      note dr = store_drop [OF d(2) i(1)]
      have "holds_map ((W(t := slot_length ws)) u) ((pls_lists s)[unat i := pl_default] ! unat j) ((I(t := Map.empty)) u)" if "(dm(t := None)) u = Some j" for u j
        using store_okD(3) [OF dr that] that by (auto split: if_splits)
      then have "store_ok (W(t := slot_length ws)) (dm(t := None)) ((pls_lists s)[unat i := pl_default]) (pls_free s @ [i]) (I(t := Map.empty))"
        by (rule store_words [OF dr])
      then show ?thesis using True by simp
    qed
    ultimately show ?thesis using d'(2,3) by (intro exI [of _ ?r]) (auto simp: lists_hold_def pls_cost_def)
  next
    case False
    then have "pls_remove k t slot ws s = Some ?s" using i on cd by (simp add: pls_remove_def)
    moreover have "lists_hold (W(t := slot_length ws)) ?s (I(t := ?M))" using store_put [OF d(2) i(1) l(2) False] d(1) by (auto simp: lists_hold_def)
    ultimately show ?thesis by (intro exI [of _ ?s]) (simp add: pls_cost_def)
  qed
qed

lemma pls_edit_ok:
  assumes "lists_hold W s I" "I t slot = Some p"
    "\<And>l. holds_map (W t) l (I t) \<Longrightarrow> \<exists>l'. f l = Some l' \<and> holds_map w l' M" "M \<noteq> Map.empty"
  obtains i s' where "live_id s t = Some i" "on_list i f s = Some s'" "lists_hold (W(t := w)) s' (I(t := M))" "pls_cost s' = pls_cost s"
proof -
  obtain dm where d: "represents (pls_dictionary s) dm" "store_ok W dm (pls_lists s) (pls_free s) I" using lists_holdE [OF assms(1)] .
  obtain i where i: "dm t = Some i" "live_id s t = Some i" "unat i < length (pls_lists s)" "holds_map (W t) (pls_lists s ! unat i) (I t)"
    using lists_hold_live [OF d assms(2)] .
  obtain l where l: "f (pls_lists s ! unat i) = Some l" "holds_map w l M" using assms(3) [OF i(4)] by blast
  let ?s = "s\<lparr>pls_lists := (pls_lists s)[unat i := l]\<rparr>"
  have "on_list i f s = Some ?s" using on_list_ok [of i s] i(3) l(1) by blast
  moreover have "lists_hold (W(t := w)) ?s (I(t := M))" using store_put [OF d(2) i(1) l(2) assms(4)] d(1) by (auto simp: lists_hold_def)
  ultimately show ?thesis using that i(2) by (simp add: pls_cost_def)
qed

lemma pls_invalidate_ok:
  assumes "lists_hold W s I" "I t slot = Some (f, m)" "w \<noteq> 0xFFFFFFFF"
  shows "\<exists>s'. pls_invalidate_length t slot s = Some s' \<and> lists_hold (W(t := (W t)(slot := w))) s' I \<and> pls_cost s' = pls_cost s"
proof -
  have ne: "I t \<noteq> Map.empty" using assms(2) by auto
  have relength: "\<exists>l'. invalidate_length slot l = Some l' \<and> holds_map ((W t)(slot := w)) l' (I t)" if "holds_map (W t) l (I t)" for l
    using that assms(2,3) by (rule relength_holds)
  obtain i s' where "live_id s t = Some i" "on_list i (invalidate_length slot) s = Some s'"
    "lists_hold (W(t := (W t)(slot := w))) s' (I(t := I t))" "pls_cost s' = pls_cost s"
    using pls_edit_ok [OF assms(1,2) relength ne] .
  then show ?thesis by (simp add: pls_invalidate_length_def)
qed

lemma pls_set_entry_ok:
  assumes "lists_hold W s I" "I t slot = Some (f, m)" "W t = slot_length ws"
  shows "\<exists>s'. pls_set_entry k t slot g (Some n) ws s = Some s' \<and> lists_hold W s' (I(t := (I t)(slot \<mapsto> (g, n)))) \<and> pls_cost s' = pls_cost s"
proof -
  have set: "\<exists>l'. pl_set_entry k slot g (Some n) (slot_length ws) l = Some l' \<and> holds_map (slot_length ws) l' ((I t)(slot \<mapsto> (g, n)))"
    if "holds_map (W t) l (I t)" for l using set_entry_holds [OF that assms(2), of k g "Some n"] assms(3) by simp
  have ne: "(I t)(slot \<mapsto> (g, n)) \<noteq> Map.empty" by (metis fun_upd_same option.distinct(1))
  obtain i s' where "live_id s t = Some i" "on_list i (pl_set_entry k slot g (Some n) (slot_length ws)) s = Some s'"
    "lists_hold (W(t := slot_length ws)) s' (I(t := (I t)(slot \<mapsto> (g, n))))" "pls_cost s' = pls_cost s"
    using pls_edit_ok [OF assms(1,2) set ne] .
  moreover have "W(t := slot_length ws) = W" using assms(3) by auto
  ultimately show ?thesis by (simp add: pls_set_entry_def)
qed

lemma append_one_ok:
  assumes "holds_map w l M" "M slot = None" "slot < 2 ^ 64" "card (dom M) + 1 < 2 ^ 32"
  shows "\<exists>l'. append_run_with_ordinals k [(slot, f)] [n] w l = Some l' \<and> holds_map w l' (M(slot \<mapsto> (f, n)))"
proof -
  have "edit_ok (Append [(slot, f)] [n]) M" using assms(2-4) by simp
  from append_holds [OF assms(1) this, of k] show ?thesis by (simp add: run_entries_def)
qed

lemma default_holds_words: "words_ok w \<Longrightarrow> holds_map w pl_default Map.empty"
  by (rule holds_mapI [of _ _ "[]"])
    (simp_all add: list_ok_def blocks_hold_def slots_ok_def pl_default_def summary_ok_def SUMMARY_MIN_BLOCKS_def SUPER_LEN_def positives_def map_entries_def)

lemma insert_with_ordinal_ok:
  assumes "lists_hold W s I" "W t = slot_length ws" "words_ok (slot_length ws)" "I t slot = None" "slot < 2 ^ 64" "card (dom (I t)) + 1 < 2 ^ 32"
    "pls_cost s + length t + 1 < 2 ^ 32 - 1"
  shows "\<exists>s'. insert_with_ordinal k t slot f n ws s = Some s' \<and> lists_hold W s' (I(t := (I t)(slot \<mapsto> (f, n)))) \<and>
    pls_cost s' \<le> pls_cost s + length t + 1"
proof -
  obtain dm where d: "represents (pls_dictionary s) dm" "store_ok W dm (pls_lists s) (pls_free s) I" using lists_holdE [OF assms(1)] .
  have WW: "W(t := slot_length ws) = W" using assms(2) by auto
  have ne: "(I t)(slot \<mapsto> (f, n)) \<noteq> Map.empty" by (metis fun_upd_same option.distinct(1))
  note one = append_one_ok [OF _ assms(4-6), of "slot_length ws" _ k f n]
  show ?thesis
  proof (cases "dm t")
    case (Some i)
    note h = store_okD [OF d(2) Some]
    obtain l where l: "append_run_with_ordinals k [(slot, f)] [n] (slot_length ws) (pls_lists s ! unat i) = Some l" "holds_map (slot_length ws) l ((I t)(slot \<mapsto> (f, n)))"
      using one h(3) assms(2) by metis
    let ?s = "s\<lparr>pls_lists := (pls_lists s)[unat i := l]\<rparr>"
    have "insert_with_ordinal k t slot f n ws s = Some ?s"
      using on_list_ok [of i s "append_run_with_ordinals k [(slot, f)] [n] (slot_length ws)"] h(2) l(1) represents_get [OF d(1), of t] Some
      by (simp add: insert_with_ordinal_def)
    moreover have "lists_hold W ?s (I(t := (I t)(slot \<mapsto> (f, n))))"
      using store_put [OF d(2) Some l(2) ne] d(1) WW by (auto simp: lists_hold_def)
    ultimately show ?thesis by (intro exI [of _ ?s]) (simp add: pls_cost_def)
  next
    case None
    have "length (pls_lists s) < 2 ^ 32 - 1" using assms(7) by (simp add: pls_cost_def)
    then obtain i s1 where s1: "allocate_list s = Some (i, s1)" "store_ok W dm (pls_lists s1) (pls_free s1 @ [i]) I"
      "pls_dictionary s1 = pls_dictionary s" "length (pls_lists s1) \<le> length (pls_lists s) + 1"
      using allocate_list_ok [OF d(2)] by blast
    have i: "i \<noteq> NONE" "unat i < length (pls_lists s1)" "pls_lists s1 ! unat i = pl_default" using s1(2) by (auto simp: store_ok_def)
    have "td_size (pls_dictionary s) + length t < 2 ^ 32" using assms(7) by (simp add: pls_cost_def)
    then obtain d' where d': "td_insert (pls_dictionary s) t i = Some d'" "represents d' (dm(t \<mapsto> i))" "td_size d' \<le> td_size (pls_dictionary s) + length t"
      using td_insert_ok [OF d(1) None i(1)] by blast
    have em: "I t = Map.empty" using d(2) None by (auto simp: store_ok_def)
    obtain l where l: "append_run_with_ordinals k [(slot, f)] [n] (slot_length ws) pl_default = Some l" "holds_map (slot_length ws) l ((I t)(slot \<mapsto> (f, n)))"
      using one default_holds_words [OF assms(3)] em by metis
    let ?s1 = "s1\<lparr>pls_dictionary := d'\<rparr>" let ?s = "?s1\<lparr>pls_lists := (pls_lists s1)[unat i := l]\<rparr>"
    have "insert_with_ordinal k t slot f n ws s = Some ?s"
      using on_list_ok [of i ?s1 "append_run_with_ordinals k [(slot, f)] [n] (slot_length ws)"] i l(1) represents_get [OF d(1), of t] None s1(1,3) d'(1)
      by (simp add: insert_with_ordinal_def)
    moreover have "lists_hold W ?s (I(t := (I t)(slot \<mapsto> (f, n))))"
      using store_add [OF s1(2) None l(2) ne] d'(2) WW by (auto simp: lists_hold_def)
    ultimately show ?thesis using d'(3) s1(4) by (intro exI [of _ ?s]) (simp add: pls_cost_def)
  qed
qed

section \<open>A run per term\<close>

definition run_edit :: "TermRun \<Rightarrow> edit" where "run_edit run = Append (run_postings run) (run_ordinals run)"

definition add_run :: "TermRun \<Rightarrow> term_maps \<Rightarrow> term_maps" where
  "add_run run I = I(run_term run := map_edit (run_edit run) (I (run_term run)))"

lemma add_runs_other: "t \<notin> run_term ` set runs \<Longrightarrow> fold add_run runs I t = I t"
  by (induction runs arbitrary: I) (auto simp: add_run_def)

lemma map_edit_append_nonempty: "run \<noteq> [] \<Longrightarrow> edit_ok (Append run os) M \<Longrightarrow> map_edit (Append run os) M \<noteq> Map.empty"
proof
  assume a: "run \<noteq> []" "edit_ok (Append run os) M" "map_edit (Append run os) M = Map.empty"
  have "length (run_entries run os) = length run" using run_entries_ok(3) [of os run] a(2) by simp
  then have "map_of (map (\<lambda>((s, f), m). (s, f, m)) (run_entries run os)) \<noteq> Map.empty" using a(1) by auto
  then show False using a(3) by auto
qed

lemma map_of_snoc: "t \<notin> fst ` set new \<Longrightarrow> m ++ map_of (new @ [(t, i)]) = (m ++ map_of new)(t \<mapsto> i)"
proof -
  assume "t \<notin> fst ` set new"
  then have "map_of new t = None" by (simp add: map_of_eq_None_iff)
  then show ?thesis by (auto simp: map_add_def fun_eq_iff split: option.split)
qed

definition new_ok :: "(rstr \<rightharpoonup> u32) \<Rightarrow> (rstr \<times> u32) list \<Rightarrow> bool" where
  "new_ok m new \<longleftrightarrow> distinct (map fst new) \<and> (\<forall>e \<in> set new. m (fst e) = None \<and> snd e \<noteq> NONE)"

definition run_cost :: "TermRun \<Rightarrow> nat" where "run_cost run = length (run_term run) + 1"

abbreviation new_bytes :: "(rstr \<times> u32) list \<Rightarrow> nat" where "new_bytes new \<equiv> sum_list (map (length \<circ> fst) new)"

lemma insert_run_ok:
  assumes "store_ok (\<lambda>_. w) (m ++ map_of new) (pls_lists s) (pls_free s) I" "w = slot_length ws" "words_ok w"
    "run_term run \<notin> fst ` set new" "new_ok m new" "run_postings run \<noteq> []" "edit_ok (run_edit run) (I (run_term run))"
    "length (pls_lists s) < 2 ^ 32 - 1"
  shows "\<exists>new' s'. (\<forall>runs. insert_runs_loop k ws ((run, m (run_term run)) # runs) new s = insert_runs_loop k ws runs new' s') \<and>
    store_ok (\<lambda>_. w) (m ++ map_of new') (pls_lists s') (pls_free s') (add_run run I) \<and> new_ok m new' \<and>
    fst ` set new' \<subseteq> insert (run_term run) (fst ` set new) \<and> pls_dictionary s' = pls_dictionary s \<and>
    length (pls_lists s') \<le> length (pls_lists s) + 1 \<and> new_bytes new' \<le> new_bytes new + length (run_term run)"
proof -
  let ?t = "run_term run" let ?app = "append_run_with_ordinals k (run_postings run) (run_ordinals run) (slot_length ws)"
  let ?M = "map_edit (run_edit run) (I ?t)"
  have ne: "?M \<noteq> Map.empty" using map_edit_append_nonempty assms(6,7) by (simp add: run_edit_def del: map_edit.simps)
  have app: "\<exists>l'. ?app l = Some l' \<and> holds_map w l' ?M" if "holds_map w l (I ?t)" for l
    using append_holds [OF that assms(7) [unfolded run_edit_def], of k] by (simp add: assms(2) run_edit_def del: map_edit.simps)
  have "map_of new ?t = None" using assms(4) by (simp add: map_of_eq_None_iff)
  then have mt: "(m ++ map_of new) ?t = m ?t" by (simp add: map_add_def)
  have id: "(\<lambda>_. w)(?t := w) = (\<lambda>_ :: rstr. w)" by auto
  show ?thesis
  proof (cases "m ?t")
    case (Some i)
    have mi: "(m ++ map_of new) ?t = Some i" using mt Some by simp
    note h = store_okD [OF assms(1) mi]
    obtain l where l: "?app (pls_lists s ! unat i) = Some l" "holds_map w l ?M" using app h(3) by blast
    let ?s = "s\<lparr>pls_lists := (pls_lists s)[unat i := l]\<rparr>"
    have "on_list i ?app s = Some ?s" using on_list_ok [of i s ?app] h(2) l(1) by blast
    moreover have "store_ok (\<lambda>_. w) (m ++ map_of new) (pls_lists ?s) (pls_free ?s) (add_run run I)"
      using store_put [OF assms(1) mi l(2) ne] unfolding id by (simp add: add_run_def)
    ultimately show ?thesis using assms(5) Some by (intro exI [of _ new] exI [of _ ?s]) auto
  next
    case None
    have mn: "(m ++ map_of new) ?t = None" using mt None by simp
    obtain i s1 where s1: "allocate_list s = Some (i, s1)" "store_ok (\<lambda>_. w) (m ++ map_of new) (pls_lists s1) (pls_free s1 @ [i]) I"
      "pls_dictionary s1 = pls_dictionary s" "length (pls_lists s1) \<le> length (pls_lists s) + 1"
      using allocate_list_ok [OF assms(1,8)] .
    have i: "i \<noteq> NONE" "unat i < length (pls_lists s1)" "pls_lists s1 ! unat i = pl_default" using s1(2) by (auto simp: store_ok_def)
    have em: "I ?t = Map.empty" using assms(1) mn by (auto simp: store_ok_def)
    obtain l where l: "?app pl_default = Some l" "holds_map w l ?M" using app default_holds_words [OF assms(3)] em by metis
    let ?s = "s1\<lparr>pls_lists := (pls_lists s1)[unat i := l]\<rparr>" and ?new = "new @ [(?t, i)]"
    have "on_list i ?app s1 = Some ?s" using on_list_ok [of i s1 ?app] i(2,3) l(1) by metis
    moreover have "store_ok (\<lambda>_. w) (m ++ map_of ?new) (pls_lists ?s) (pls_free ?s) (add_run run I)"
      using store_add [OF s1(2) mn l(2) ne] unfolding id map_of_snoc [OF assms(4)] by (simp add: add_run_def)
    moreover have "new_ok m ?new" using assms(4,5) None i(1) by (auto simp: new_ok_def)
    ultimately show ?thesis using s1 None by (intro exI [of _ ?new] exI [of _ ?s]) auto
  qed
qed

lemma disjoint_grown: "A \<inter> B = {} \<Longrightarrow> C \<subseteq> insert x B \<Longrightarrow> x \<notin> A \<Longrightarrow> A \<inter> C = {}"
  by blast

lemma insert_runs_loop_ok:
  assumes "store_ok (\<lambda>_. w) (m ++ map_of new) (pls_lists s) (pls_free s) I" "w = slot_length ws" "words_ok w" "new_ok m new"
    "distinct (map run_term runs)" "run_term ` set runs \<inter> fst ` set new = {}"
    "\<forall>run \<in> set runs. run_postings run \<noteq> [] \<and> edit_ok (run_edit run) (I (run_term run))"
    "length (pls_lists s) + length runs < 2 ^ 32 - 1"
  shows "\<exists>new' s'. insert_runs_loop k ws (zip runs (map (m \<circ> run_term) runs)) new s = Some (new', s') \<and>
    store_ok (\<lambda>_. w) (m ++ map_of new') (pls_lists s') (pls_free s') (fold add_run runs I) \<and> new_ok m new' \<and>
    pls_dictionary s' = pls_dictionary s \<and> length (pls_lists s') \<le> length (pls_lists s) + length runs \<and>
    new_bytes new' \<le> new_bytes new + sum_list (map (length \<circ> run_term) runs)"
  using assms
proof (induction runs arbitrary: new s I)
  case (Cons run runs)
  have fresh: "run_term run \<notin> fst ` set new" "run_term run \<notin> run_term ` set runs" using Cons.prems(5,6) by auto
  have run: "run_postings run \<noteq> []" "edit_ok (run_edit run) (I (run_term run))" "length (pls_lists s) < 2 ^ 32 - 1" using Cons.prems(7,8) by auto
  obtain new1 s1 where s1: "\<And>rs. insert_runs_loop k ws ((run, m (run_term run)) # rs) new s = insert_runs_loop k ws rs new1 s1"
    "store_ok (\<lambda>_. w) (m ++ map_of new1) (pls_lists s1) (pls_free s1) (add_run run I)" "new_ok m new1"
    "fst ` set new1 \<subseteq> insert (run_term run) (fst ` set new)" "pls_dictionary s1 = pls_dictionary s"
    "length (pls_lists s1) \<le> length (pls_lists s) + 1" "new_bytes new1 \<le> new_bytes new + length (run_term run)"
    using insert_run_ok [OF Cons.prems(1-3) fresh(1) Cons.prems(4) run, of k] by blast
  have d: "distinct (map run_term runs)" using Cons.prems(5) by simp
  have "run_term ` set runs \<inter> fst ` set new = {}" using Cons.prems(6) by auto
  then have dj: "run_term ` set runs \<inter> fst ` set new1 = {}" using s1(4) fresh(2) by (rule disjoint_grown)
  have e: "\<forall>r \<in> set runs. run_postings r \<noteq> [] \<and> edit_ok (run_edit r) (add_run run I (run_term r))"
  proof
    fix r
    assume r: "r \<in> set runs"
    then have "run_term r \<noteq> run_term run" using fresh(2) by (metis imageI)
    then show "run_postings r \<noteq> [] \<and> edit_ok (run_edit r) (add_run run I (run_term r))" using Cons.prems(7) r by (simp add: add_run_def)
  qed
  have l: "length (pls_lists s1) + length runs < 2 ^ 32 - 1" using Cons.prems(8) s1(6) by simp
  obtain new2 s2 where s2: "insert_runs_loop k ws (zip runs (map (m \<circ> run_term) runs)) new1 s1 = Some (new2, s2)"
    "store_ok (\<lambda>_. w) (m ++ map_of new2) (pls_lists s2) (pls_free s2) (fold add_run runs (add_run run I))" "new_ok m new2"
    "pls_dictionary s2 = pls_dictionary s1" "length (pls_lists s2) \<le> length (pls_lists s1) + length runs"
    "new_bytes new2 \<le> new_bytes new1 + sum_list (map (length \<circ> run_term) runs)"
    using Cons.IH [OF s1(2) Cons.prems(2,3) s1(3) d dj e l] by blast
  show ?case using s1 s2 by (intro exI [of _ new2] exI [of _ s2]) (simp add: comp_def del: insert_runs_loop.simps)
qed simp

lemma those_some: "those (map (\<lambda>x. Some (f x)) xs) = Some (map f xs)"
  by (induction xs) simp_all

lemma insert_runs_ok:
  assumes "lists_hold (\<lambda>_. slot_length ws) s I" "words_ok (slot_length ws)" "distinct (map run_term runs)"
    "\<forall>run \<in> set runs. run_postings run \<noteq> [] \<and> edit_ok (run_edit run) (I (run_term run))"
    "pls_cost s + sum_list (map run_cost runs) < 2 ^ 32 - 1"
  shows "\<exists>s'. insert_runs_with_lengths k runs ws s = Some s' \<and> lists_hold (\<lambda>_. slot_length ws) s' (fold add_run runs I) \<and>
    pls_cost s' \<le> pls_cost s + sum_list (map run_cost runs)"
proof (cases "runs = []")
  case True
  then show ?thesis using assms(1) by (simp add: insert_runs_with_lengths_def)
next
  case False
  obtain m where d: "represents (pls_dictionary s) m" "store_ok (\<lambda>_. slot_length ws) m (pls_lists s) (pls_free s) I" using lists_holdE [OF assms(1)] .
  have ids: "those (map (\<lambda>run. td_get (pls_dictionary s) (run_term run)) runs) = Some (map (m \<circ> run_term) runs)"
    using those_some [of "m \<circ> run_term" runs] by (simp add: represents_get [OF d(1)] comp_def)
  have cost: "sum_list (map run_cost runs) = sum_list (map (length \<circ> run_term) runs) + length runs" by (induction runs) (simp_all add: run_cost_def)
  have l: "length (pls_lists s) + length runs < 2 ^ 32 - 1" using assms(5) cost by (simp add: pls_cost_def)
  have n: "new_ok m []" "run_term ` set runs \<inter> fst ` set ([] :: (rstr \<times> u32) list) = {}" by (simp_all add: new_ok_def)
  obtain new s1 where s1: "insert_runs_loop k ws (zip runs (map (m \<circ> run_term) runs)) [] s = Some (new, s1)"
    "store_ok (\<lambda>_. slot_length ws) (m ++ map_of new) (pls_lists s1) (pls_free s1) (fold add_run runs I)" "new_ok m new"
    "pls_dictionary s1 = pls_dictionary s" "length (pls_lists s1) \<le> length (pls_lists s) + length runs"
    "new_bytes new \<le> sum_list (map (length \<circ> run_term) runs)"
    using insert_runs_loop_ok [of "slot_length ws" m "[]" s I ws runs k] d(2) assms(2,3,4) n l by auto
  have "td_size (pls_dictionary s) + new_bytes new < 2 ^ 32" using assms(5) s1(6) cost by (simp add: pls_cost_def)
  then obtain d' where d': "insert_many (pls_dictionary s) new = Some d'" "represents d' (m ++ map_of new)"
    "td_size d' \<le> td_size (pls_dictionary s) + new_bytes new"
    using insert_many_ok [OF d(1)] s1(3) by (auto simp: new_ok_def)
  let ?s = "s1\<lparr>pls_dictionary := d'\<rparr>"
  have "insert_runs_with_lengths k runs ws s = Some ?s" using False ids s1(1,4) d'(1) by (simp add: insert_runs_with_lengths_def)
  moreover have "lists_hold (\<lambda>_. slot_length ws) ?s (fold add_run runs I)" using s1(2) d'(2) by (auto simp: lists_hold_def)
  moreover have "pls_cost ?s \<le> pls_cost s + sum_list (map run_cost runs)" using d'(3) s1(5,6) cost by (simp add: pls_cost_def)
  ultimately show ?thesis by blast
qed

end
