(* ===== verification/IndexChunks.thy ===== *)
theory IndexChunks
  imports PostingLists BinaryDocuments
begin

text \<open>
  Bulk indexing, \<open>index_chunks\<close> of \<open>src/core/documents/postings.rs\<close>: ranges of cs are scanned into hash maps of
  runs, the maps of one bucket are merged, and each run is appended to its list.  \<open>threads\<close> is the size of the
  thread pool and \<open>order\<close> the order in which a hash map lists its values; neither matters for the result.
\<close>

definition MERGE_BUCKETS :: nat where "MERGE_BUCKETS = 16"
definition PARALLEL_CHUNKS :: nat where "PARALLEL_CHUNKS = 64"
definition MIN_RANGE :: nat where "MIN_RANGE = 32"

definition bucket_of :: "rstr \<Rightarrow> nat \<Rightarrow> nat" where
  "bucket_of term buckets =
     unat (foldl (\<lambda>hash byte. (hash XOR ucast byte) * 0x100000001b3) (0xcbf29ce484222325 :: u64) term mod of_nat buckets)"

text \<open>A hash map of runs, as the list of its values; the keys are the terms of the runs.\<close>

type_synonym RunMap = "TermRun list"

definition add_posting :: "usize \<Rightarrow> u32 \<Rightarrow> u32 \<Rightarrow> TermRun \<Rightarrow> TermRun" where
  "add_posting slot frequency ordinal run =
     (let ords = (if ordinal > 0 \<and> TermRun.run_ordinals run = [] then replicate (length (run_postings run)) 0 else TermRun.run_ordinals run);
          ords = (if ordinal > 0 \<or> ords \<noteq> [] then ords @ [ordinal] else ords)
      in run\<lparr>run_postings := run_postings run @ [(slot, frequency)], run_ordinals := ords\<rparr>)"

fun update_run :: "rstr \<Rightarrow> (TermRun \<Rightarrow> TermRun) \<Rightarrow> RunMap \<Rightarrow> RunMap" where
  "update_run term f [] = [f \<lparr>run_term = term, run_postings = [], run_ordinals = []\<rparr>]"
| "update_run term f (run # runs) = (if run_term run = term then f run # runs else run # update_run term f runs)"

fun scan_terms :: "nat \<Rightarrow> usize \<Rightarrow> bool \<Rightarrow> nat \<Rightarrow> (rstr \<times> u32) list \<Rightarrow> RunMap list \<Rightarrow> RunMap list option" where
  "scan_terms buckets slot positional index [] form = Some form"
| "scan_terms buckets slot positional index ((term, frequency) # es) form =
     (let bucket = (if buckets = 1 then 0 else bucket_of term buckets);
          ordinal = (if positional then of_nat index + 1 else 0)
      in if bucket < length form
         then scan_terms buckets slot positional (index + 1) es (form[bucket := update_run term (add_posting slot frequency ordinal) (form ! bucket)])
         else None)"

text \<open>The maps of the unstemmed and of the stemmed form.\<close>

fun scan_chunks :: "nat \<Rightarrow> (usize \<times> StoredChunk) list \<Rightarrow> RunMap list \<times> RunMap list \<Rightarrow> (RunMap list \<times> RunMap list) option" where
  "scan_chunks buckets [] maps = Some maps"
| "scan_chunks buckets ((slot, chunk) # rs) (plain, stem) =
     (case terms_iter (chunk_terms chunk) of
        None \<Rightarrow> None
      | Some es \<Rightarrow>
          (case scan_terms buckets slot (st_positions (chunk_terms chunk) \<noteq> None) 0 es (if stemmed chunk then stem else plain) of
             None \<Rightarrow> None
           | Some form \<Rightarrow> scan_chunks buckets rs (if stemmed chunk then (plain, form) else (form, stem))))"

definition scan_range :: "nat \<Rightarrow> (usize \<times> StoredChunk) list \<Rightarrow> (RunMap list \<times> RunMap list) option" where
  "scan_range buckets rs = scan_chunks buckets rs (replicate buckets [], replicate buckets [])"

definition vec_resize :: "nat \<Rightarrow> 'a \<Rightarrow> 'a list \<Rightarrow> 'a list" where
  "vec_resize n x xs = take n xs @ replicate (n - length xs) x"

definition extend_run :: "TermRun \<Rightarrow> TermRun \<Rightarrow> TermRun" where
  "extend_run run previous =
     (let ords =
        (if TermRun.run_ordinals previous \<noteq> [] \<or> TermRun.run_ordinals run \<noteq> []
         then vec_resize (length (run_postings previous) + length (run_postings run)) 0
                (vec_resize (length (run_postings previous)) 0 (TermRun.run_ordinals previous) @ TermRun.run_ordinals run)
         else TermRun.run_ordinals previous)
      in previous\<lparr>run_ordinals := ords, run_postings := run_postings previous @ run_postings run\<rparr>)"

fun merge_entry :: "TermRun \<Rightarrow> RunMap \<Rightarrow> RunMap" where
  "merge_entry run [] = [run]"
| "merge_entry run (previous # runs) =
     (if run_term previous = run_term run then extend_run run previous # runs else previous # merge_entry run runs)"

definition merge_bucket :: "(TermRun list \<Rightarrow> TermRun list) \<Rightarrow> RunMap list \<Rightarrow> TermRun list" where
  "merge_bucket order maps =
     (case maps of
        [] \<Rightarrow> []
      | merged # maps \<Rightarrow> sort_key run_term (order (foldl (\<lambda>merged m. foldl (\<lambda>merged run. merge_entry run merged) merged (order m)) merged maps)))"

definition gather :: "(TermRun list \<Rightarrow> TermRun list) \<Rightarrow> nat \<Rightarrow> RunMap list list \<Rightarrow> TermRun list" where
  "gather order buckets forms = concat (map (\<lambda>b. merge_bucket order (map (\<lambda>form. form ! b) forms)) [0..<buckets])"

definition index_chunks :: "kernel \<Rightarrow> (TermRun list \<Rightarrow> TermRun list) \<Rightarrow> nat \<Rightarrow> (usize \<times> StoredChunk) list \<Rightarrow> u32 list \<Rightarrow>
    PostingLists \<times> PostingLists \<Rightarrow> (PostingLists \<times> PostingLists) option" where
  "index_chunks k order threads cs words postings =
     (if cs = [] then Some postings
      else
        let buckets = (if length cs < PARALLEL_CHUNKS then 1 else MERGE_BUCKETS);
            rs = max ((length cs + max threads 1 - 1) div max threads 1) MIN_RANGE
        in case those (map (scan_range buckets) (slice_chunks rs cs)) of
             None \<Rightarrow> None
           | Some partials \<Rightarrow>
               (case insert_runs_with_lengths k (gather order buckets (map fst partials)) words (fst postings) of
                  None \<Rightarrow> None
                | Some plain \<Rightarrow> map_option (Pair plain) (insert_runs_with_lengths k (gather order buckets (map snd partials)) words (snd postings))))"

section \<open>The runs a map should hold\<close>

definition dense_ordinals :: "u32 list \<Rightarrow> u32 list" where
  "dense_ordinals os = (if \<forall>n \<in> set os. n = 0 then [] else os)"

definition run_of :: "rstr \<Rightarrow> entry list \<Rightarrow> TermRun" where
  "run_of t es = \<lparr>run_term = t, run_postings = map fst es, run_ordinals = dense_ordinals (map snd es)\<rparr>"

definition runs_hold :: "(rstr \<Rightarrow> entry list) \<Rightarrow> RunMap \<Rightarrow> bool" where
  "runs_hold C runs \<longleftrightarrow> distinct (map run_term runs) \<and> set runs = {run_of t (C t) | t. C t \<noteq> []}"

lemma run_of_term [simp]: "run_term (run_of t es) = t"
  by (simp add: run_of_def)

lemma runs_hold_mem:
  assumes "runs_hold C runs" "run \<in> set runs"
  shows "run = run_of (run_term run) (C (run_term run))" "C (run_term run) \<noteq> []"
  using assms by (auto simp: runs_hold_def)

lemma runs_hold_terms: "runs_hold C runs \<Longrightarrow> t \<in> run_term ` set runs \<longleftrightarrow> C t \<noteq> []"
  by (force simp: runs_hold_def)

lemma runs_holdI:
  assumes "distinct (map run_term runs)" "\<And>run. run \<in> set runs \<Longrightarrow> run = run_of (run_term run) (C (run_term run)) \<and> C (run_term run) \<noteq> []"
    "\<And>t. C t \<noteq> [] \<Longrightarrow> t \<in> run_term ` set runs"
  shows "runs_hold C runs"
proof -
  have "run_of t (C t) \<in> set runs" if "C t \<noteq> []" for t using assms(2,3) that by (metis imageE)
  then show ?thesis using assms(1,2) by (fastforce simp: runs_hold_def)
qed

lemma runs_hold_Cons:
  assumes "runs_hold C (run # runs)"
  shows "runs_hold (C(run_term run := [])) runs" "run = run_of (run_term run) (C (run_term run))" "C (run_term run) \<noteq> []"
proof -
  note m = runs_hold_mem [OF assms]
  show "run = run_of (run_term run) (C (run_term run))" "C (run_term run) \<noteq> []" using m by auto
  have d: "distinct (map run_term (run # runs))" using assms by (simp add: runs_hold_def)
  show "runs_hold (C(run_term run := [])) runs"
  proof (rule runs_holdI)
    show "distinct (map run_term runs)" using d by simp
    show "r = run_of (run_term r) ((C(run_term run := [])) (run_term r)) \<and> (C(run_term run := [])) (run_term r) \<noteq> []" if "r \<in> set runs" for r
    proof -
      have "run_term r \<noteq> run_term run" using d that by (metis distinct.simps(2) imageI list.simps(9) set_map)
      then show ?thesis using m [of r] that by simp
    qed
    show "t \<in> run_term ` set runs" if "(C(run_term run := [])) t \<noteq> []" for t
      using that runs_hold_terms [OF assms, of t] by (auto split: if_splits)
  qed
qed

lemma add_posting_run_of: "add_posting slot f n (run_of t es) = run_of t (es @ [((slot, f), n)])"
  by (auto simp: add_posting_def run_of_def dense_ordinals_def Let_def word_neq_0_conv intro!: replicate_eqI [symmetric])

lemma empty_run_of: "\<lparr>run_term = t, run_postings = [], run_ordinals = []\<rparr> = run_of t []"
  by (simp add: run_of_def dense_ordinals_def)

lemma update_run_hold:
  assumes "runs_hold C runs" "\<And>es. f (run_of t es) = run_of t (es @ [e])"
  shows "runs_hold (C(t := C t @ [e])) (update_run t f runs)"
  using assms(1)
proof (induction runs arbitrary: C)
  case Nil
  then have "C u = []" for u by (auto simp: runs_hold_def)
  then show ?case using assms(2) [of "[]"] by (intro runs_holdI) (auto simp: empty_run_of split: if_splits)
next
  case (Cons run runs)
  note h = runs_hold_Cons [OF Cons.prems]
  have d: "run_term run \<notin> run_term ` set runs" using Cons.prems by (simp add: runs_hold_def)
  show ?case
  proof (cases "run_term run = t")
    case True
    have fr: "f run = run_of t (C t @ [e])" using h(2) True assms(2) by metis
    show ?thesis
    proof (rule runs_holdI)
      show "distinct (map run_term (update_run t f (run # runs)))" using Cons.prems True fr by (simp add: runs_hold_def)
      show "r = run_of (run_term r) ((C(t := C t @ [e])) (run_term r)) \<and> (C(t := C t @ [e])) (run_term r) \<noteq> []" if "r \<in> set (update_run t f (run # runs))" for r
      proof (cases "r = f run")
        case e: True
        then show ?thesis using fr by simp
      next
        case f: False
        then have r: "r \<in> set runs" using that True by simp
        then have "run_term r \<noteq> t" using d True by (metis imageI)
        then show ?thesis using runs_hold_mem [OF Cons.prems, of r] r by simp
      qed
      show "u \<in> run_term ` set (update_run t f (run # runs))" if "(C(t := C t @ [e])) u \<noteq> []" for u
        using that True fr runs_hold_terms [OF Cons.prems, of u] by (auto split: if_splits)
    qed
  next
    case False
    let ?C = "C(run_term run := [])"
    have ih: "runs_hold (?C(t := ?C t @ [e])) (update_run t f runs)" by (rule Cons.IH [OF h(1)])
    have ct: "?C t = C t" using False by simp
    show ?thesis
    proof (rule runs_holdI)
      have "run_term run \<notin> run_term ` set (update_run t f runs)" using runs_hold_terms [OF ih, of "run_term run"] False by simp
      then show "distinct (map run_term (update_run t f (run # runs)))" using False ih by (simp add: runs_hold_def)
      show "r = run_of (run_term r) ((C(t := C t @ [e])) (run_term r)) \<and> (C(t := C t @ [e])) (run_term r) \<noteq> []" if "r \<in> set (update_run t f (run # runs))" for r
        using that False h(2,3) runs_hold_mem [OF ih, of r] ct by (auto split: if_splits)
      show "u \<in> run_term ` set (update_run t f (run # runs))" if "(C(t := C t @ [e])) u \<noteq> []" for u
        using that False runs_hold_terms [OF ih, of u] ct by (auto split: if_splits)
    qed
  qed
qed

lemma dense_append: "dense_ordinals (as @ bs) = (if dense_ordinals as = [] \<and> dense_ordinals bs = [] then []
    else vec_resize (length as + length bs) 0 (vec_resize (length as) 0 (dense_ordinals as) @ dense_ordinals bs))"
proof -
  have z: "vec_resize (length xs) 0 (dense_ordinals xs) = xs" for xs
    by (auto simp: dense_ordinals_def vec_resize_def intro!: replicate_eqI [symmetric])
  have "vec_resize (length as + length bs) 0 (as @ dense_ordinals bs) = as @ bs"
    using z [of bs] by (simp add: vec_resize_def dense_ordinals_def split: if_splits)
  then show ?thesis unfolding z by (auto simp: dense_ordinals_def)
qed

lemma extend_run_of: "extend_run (run_of t bs) (run_of t as) = run_of t (as @ bs)"
  by (simp add: extend_run_def run_of_def Let_def dense_append)


text \<open>Merging a run is an update whatever the run: a vacant entry takes it, an occupied one is extended.\<close>

lemma merge_entry_hold:
  assumes "runs_hold C runs" "es \<noteq> []"
  shows "runs_hold (C(t := C t @ es)) (merge_entry (run_of t es) runs)"
  using assms(1)
proof (induction runs arbitrary: C)
  case Nil
  then have "C u = []" for u by (auto simp: runs_hold_def)
  then show ?case using assms(2) by (intro runs_holdI) (auto split: if_splits)
next
  case (Cons run runs)
  note h = runs_hold_Cons [OF Cons.prems]
  have d: "run_term run \<notin> run_term ` set runs" using Cons.prems by (simp add: runs_hold_def)
  let ?m = "merge_entry (run_of t es) (run # runs)" let ?C' = "C(t := C t @ es)"
  show ?case
  proof (cases "run_term run = t")
    case True
    have fr: "extend_run (run_of t es) run = run_of t (C t @ es)" using h(2) True extend_run_of by metis
    then have m: "?m = run_of t (C t @ es) # runs" using True by simp
    show ?thesis
      unfolding m
    proof (rule runs_holdI)
      show "distinct (map run_term (run_of t (C t @ es) # runs))" using Cons.prems True by (simp add: runs_hold_def)
      show "r = run_of (run_term r) (?C' (run_term r)) \<and> ?C' (run_term r) \<noteq> []" if r: "r \<in> set (run_of t (C t @ es) # runs)" for r
      proof (cases "r = run_of t (C t @ es)")
        case e: True
        then show ?thesis using assms(2) by simp
      next
        case f: False
        then have r: "r \<in> set runs" using r by simp
        then have "run_term r \<noteq> t" using d True by (metis imageI)
        then show ?thesis using runs_hold_mem [OF Cons.prems, of r] r by simp
      qed
      show "u \<in> run_term ` set (run_of t (C t @ es) # runs)" if "?C' u \<noteq> []" for u
        using that True runs_hold_terms [OF Cons.prems, of u] by (auto split: if_splits)
    qed
  next
    case False
    let ?C = "C(run_term run := [])"
    have ih: "runs_hold (?C(t := ?C t @ es)) (merge_entry (run_of t es) runs)" by (rule Cons.IH [OF h(1)])
    have ct: "?C t = C t" using False by simp
    have m: "?m = run # merge_entry (run_of t es) runs" using False by simp
    show ?thesis
      unfolding m
    proof (rule runs_holdI)
      have "run_term run \<notin> run_term ` set (merge_entry (run_of t es) runs)" using runs_hold_terms [OF ih, of "run_term run"] False by simp
      then show "distinct (map run_term (run # merge_entry (run_of t es) runs))" using ih by (simp add: runs_hold_def)
      show "r = run_of (run_term r) (?C' (run_term r)) \<and> ?C' (run_term r) \<noteq> []" if "r \<in> set (run # merge_entry (run_of t es) runs)" for r
        using that False h(2,3) runs_hold_mem [OF ih, of r] ct by (auto split: if_splits)
      show "u \<in> run_term ` set (run # merge_entry (run_of t es) runs)" if "?C' u \<noteq> []" for u
        using that False runs_hold_terms [OF ih, of u] ct by (auto split: if_splits)
    qed
  qed
qed

lemma runs_hold_perm:
  assumes "runs_hold C runs" "mset runs' = mset runs"
  shows "runs_hold C runs'"
proof -
  have "mset (map run_term runs') = mset (map run_term runs)" using assms(2) by simp
  then show ?thesis using assms mset_eq_setD [OF assms(2)] mset_eq_imp_distinct_iff unfolding runs_hold_def by metis
qed

lemma merge_map_hold:
  assumes "runs_hold C runs" "runs_hold D m"
  shows "runs_hold (\<lambda>t. C t @ D t) (foldl (\<lambda>merged run. merge_entry run merged) runs m)"
  using assms
proof (induction m arbitrary: C D runs)
  case Nil
  then have "D t = []" for t by (auto simp: runs_hold_def)
  then show ?case using Nil by simp
next
  case (Cons run m)
  note h = runs_hold_Cons [OF Cons.prems(2)]
  let ?t = "run_term run"
  have "runs_hold (C(?t := C ?t @ D ?t)) (merge_entry run runs)" using merge_entry_hold [OF Cons.prems(1) h(3), of ?t] h(2) by simp
  then have "runs_hold (\<lambda>t. (C(?t := C ?t @ D ?t)) t @ (D(?t := [])) t) (foldl (\<lambda>merged run. merge_entry run merged) (merge_entry run runs) m)"
    by (rule Cons.IH [OF _ h(1)])
  moreover have "(\<lambda>t. (C(?t := C ?t @ D ?t)) t @ (D(?t := [])) t) = (\<lambda>t. C t @ D t)" by auto
  ultimately show ?case by simp
qed

lemma merge_bucket_hold:
  assumes "length Cs = length maps" "\<And>i. i < length maps \<Longrightarrow> runs_hold (Cs ! i) (maps ! i)" "\<And>xs. mset (order xs) = mset xs"
  shows "runs_hold (\<lambda>t. concat (map (\<lambda>C. C t) Cs)) (merge_bucket order maps)"
proof (cases maps)
  case Nil
  then show ?thesis using assms(1) by (simp add: merge_bucket_def runs_hold_def)
next
  case (Cons m ms)
  then obtain C Ds where C: "Cs = C # Ds" using assms(1) by (cases Cs) auto
  have fold: "runs_hold (\<lambda>t. C t @ concat (map (\<lambda>C. C t) Ds)) (foldl (\<lambda>merged m. foldl (\<lambda>merged run. merge_entry run merged) merged (order m)) r ms)"
    if "runs_hold C r" "length Ds = length ms" "\<forall>i < length ms. runs_hold (Ds ! i) (ms ! i)" for C r ms Ds
    using that
  proof (induction ms arbitrary: C r Ds)
    case (Cons m ms)
    then obtain D Es where D: "Ds = D # Es" by (cases Ds) auto
    have "runs_hold D (order m)" using Cons.prems(3) runs_hold_perm [OF _ assms(3)] by (auto simp: D)
    note step = merge_map_hold [OF Cons.prems(1) this]
    have "\<forall>i < length ms. runs_hold (Es ! i) (ms ! i)" using Cons.prems(3) by (auto simp: D)
    then show ?case using Cons.IH [OF step, of Es] Cons.prems(2) by (simp add: D)
  qed simp
  have "runs_hold C m" "length Ds = length ms" "\<forall>i < length ms. runs_hold (Ds ! i) (ms ! i)" using assms(1) assms(2) [of 0] assms(2) [of "Suc i" for i] Cons C by auto
  from fold [OF this] have "runs_hold (\<lambda>t. C t @ concat (map (\<lambda>C. C t) Ds)) (foldl (\<lambda>merged m. foldl (\<lambda>merged run. merge_entry run merged) merged (order m)) m ms)" .
  then show ?thesis using C Cons assms(3) by (auto simp: merge_bucket_def intro: runs_hold_perm)
qed

section \<open>What the scans collect\<close>

fun term_entries :: "usize \<Rightarrow> bool \<Rightarrow> nat \<Rightarrow> (rstr \<times> u32) list \<Rightarrow> rstr \<Rightarrow> entry list" where
  "term_entries slot positional i [] t = []"
| "term_entries slot positional i ((u, f) # es) t =
     (if u = t then [((slot, f), if positional then of_nat i + 1 else 0)] else []) @ term_entries slot positional (i + 1) es t"

definition chunk_table :: "StoredChunk \<Rightarrow> (rstr \<times> u32) list" where
  "chunk_table c = (case terms_iter (chunk_terms c) of None \<Rightarrow> [] | Some es \<Rightarrow> es)"

definition chunk_ok :: "StoredChunk \<Rightarrow> bool" where
  "chunk_ok c \<longleftrightarrow> (\<exists>es. table_of (chunk_terms c) es)"

abbreviation positional :: "StoredChunk \<Rightarrow> bool" where "positional c \<equiv> st_positions (chunk_terms c) \<noteq> None"

definition collect :: "bool \<Rightarrow> (usize \<times> StoredChunk) list \<Rightarrow> rstr \<Rightarrow> entry list" where
  "collect stem cs t = concat (map (\<lambda>(slot, c). if stemmed c = stem then term_entries slot (positional c) 0 (chunk_table c) t else []) cs)"

definition bucket :: "nat \<Rightarrow> rstr \<Rightarrow> nat" where
  "bucket buckets t = (if buckets = 1 then 0 else bucket_of t buckets)"

definition forms_hold :: "nat \<Rightarrow> (rstr \<Rightarrow> entry list) \<Rightarrow> RunMap list \<Rightarrow> bool" where
  "forms_hold buckets C form \<longleftrightarrow> length form = buckets \<and> (\<forall>b < buckets. runs_hold (\<lambda>t. if bucket buckets t = b then C t else []) (form ! b))"

lemma bucket_less: "0 < buckets \<Longrightarrow> buckets < 2 ^ 64 \<Longrightarrow> bucket buckets t < buckets"
proof -
  assume b: "0 < buckets" "buckets < 2 ^ 64"
  have "unat (h mod of_nat buckets :: u64) < buckets" for h
    using b by (simp add: unat_mod unsigned_of_nat take_bit_nat_eq_self)
  then show ?thesis using b by (simp add: bucket_def bucket_of_def)
qed

lemma scan_terms_hold:
  assumes "forms_hold buckets C form" "\<And>t. bucket buckets t < buckets"
  shows "\<exists>form'. scan_terms buckets slot pos i es form = Some form' \<and> forms_hold buckets (\<lambda>t. C t @ term_entries slot pos i es t) form'"
  using assms(1)
proof (induction es arbitrary: C form i)
  case (Cons e es)
  obtain u f where e: "e = (u, f)" by (cases e)
  let ?n = "if pos then of_nat i + 1 else 0 :: u32" let ?b = "bucket buckets u"
  let ?form = "form[?b := update_run u (add_posting slot f ?n) (form ! ?b)]" and ?C = "C(u := C u @ [((slot, f), ?n)])"
  have len: "length form = buckets" "?b < length form" using Cons.prems assms(2) by (auto simp: forms_hold_def)
  have "runs_hold (\<lambda>t. if bucket buckets t = b then ?C t else []) (?form ! b)" if b: "b < buckets" for b
  proof (cases "b = ?b")
    case True
    have "runs_hold ((\<lambda>t. if bucket buckets t = ?b then C t else [])(u := (\<lambda>t. if bucket buckets t = ?b then C t else []) u @ [((slot, f), ?n)]))
        (update_run u (add_posting slot f ?n) (form ! ?b))"
      by (rule update_run_hold [OF _ add_posting_run_of]) (use Cons.prems len in \<open>simp add: forms_hold_def\<close>)
    moreover have "(\<lambda>t. if bucket buckets t = ?b then C t else [])(u := (\<lambda>t. if bucket buckets t = ?b then C t else []) u @ [((slot, f), ?n)])
        = (\<lambda>t. if bucket buckets t = ?b then ?C t else [])" by auto
    ultimately show ?thesis using True len by simp
  next
    case False
    have "(\<lambda>t. if bucket buckets t = b then ?C t else []) = (\<lambda>t. if bucket buckets t = b then C t else [])" using False by auto
    then show ?thesis using False Cons.prems b by (simp add: forms_hold_def)
  qed
  then have "forms_hold buckets ?C ?form" using len by (simp add: forms_hold_def)
  from Cons.IH [OF this, of "i + 1"] obtain form' where f': "scan_terms buckets slot pos (i + 1) es ?form = Some form'"
    "forms_hold buckets (\<lambda>t. ?C t @ term_entries slot pos (i + 1) es t) form'" by blast
  have "(\<lambda>t. ?C t @ term_entries slot pos (i + 1) es t) = (\<lambda>t. C t @ term_entries slot pos i (e # es) t)" by (auto simp: e)
  then have "forms_hold buckets (\<lambda>t. C t @ term_entries slot pos i (e # es) t) form'" using f'(2) by metis
  moreover have "scan_terms buckets slot pos i (e # es) form = Some form'"
    unfolding e scan_terms.simps Let_def bucket_def [symmetric] if_P [OF len(2)] f'(1) ..
  ultimately show ?case by blast
qed simp

lemma chunk_ok_iter: "chunk_ok c \<Longrightarrow> terms_iter (chunk_terms c) = Some (chunk_table c)"
  by (auto simp: chunk_ok_def chunk_table_def table_iter)

lemma scan_chunks_hold:
  assumes "\<And>t. bucket buckets t < buckets" "\<forall>(slot, c) \<in> set cs. chunk_ok c" "forms_hold buckets P plain" "forms_hold buckets S stem"
  shows "\<exists>p s. scan_chunks buckets cs (plain, stem) = Some (p, s) \<and> forms_hold buckets (\<lambda>t. P t @ collect False cs t) p \<and>
    forms_hold buckets (\<lambda>t. S t @ collect True cs t) s"
  using assms(2-4)
proof (induction cs arbitrary: P S plain stem)
  case Nil
  then show ?case by (simp add: collect_def)
next
  case (Cons sc cs)
  obtain slot c where sc: "sc = (slot, c)" by (cases sc)
  have it: "terms_iter (chunk_terms c) = Some (chunk_table c)" using Cons.prems(1) chunk_ok_iter by (simp add: sc)
  let ?E = "term_entries slot (positional c) 0 (chunk_table c)"
  have step: "\<exists>p s. scan_chunks buckets cs (if stemmed c then (plain, form) else (form, stem)) = Some (p, s) \<and>
      forms_hold buckets (\<lambda>t. P t @ collect False (sc # cs) t) p \<and> forms_hold buckets (\<lambda>t. S t @ collect True (sc # cs) t) s"
    if "forms_hold buckets (\<lambda>t. (if stemmed c then S else P) t @ ?E t) form" for form
    using that Cons.prems Cons.IH [of "\<lambda>t. P t @ (if stemmed c then [] else ?E t)" "if stemmed c then plain else form"
        "\<lambda>t. S t @ (if stemmed c then ?E t else [])" "if stemmed c then form else stem"] by (auto simp: collect_def sc)
  have "forms_hold buckets (if stemmed c then S else P) (if stemmed c then stem else plain)" using Cons.prems(2,3) by simp
  from scan_terms_hold [OF this assms(1)] obtain form where
    "scan_terms buckets slot (positional c) 0 (chunk_table c) (if stemmed c then stem else plain) = Some form"
    "forms_hold buckets (\<lambda>t. (if stemmed c then S else P) t @ ?E t) form" by blast
  then show ?case using step by (simp add: sc it)
qed

lemma scan_range_hold:
  assumes "\<And>t. bucket buckets t < buckets" "\<forall>(slot, c) \<in> set cs. chunk_ok c"
  shows "\<exists>p s. scan_range buckets cs = Some (p, s) \<and> forms_hold buckets (collect False cs) p \<and> forms_hold buckets (collect True cs) s"
proof -
  have "forms_hold buckets (\<lambda>_. []) (replicate buckets [])" by (simp add: forms_hold_def runs_hold_def)
  from scan_chunks_hold [OF assms this this] show ?thesis by (simp add: scan_range_def)
qed

lemma concat_hold:
  assumes "\<And>b. b < n \<Longrightarrow> runs_hold (\<lambda>t. if g t = b then D t else []) (R b)"
  shows "runs_hold (\<lambda>t. if g t < n then D t else []) (concat (map R [0..<n]))"
  using assms
proof (induction n)
  case 0
  then show ?case by (simp add: runs_hold_def)
next
  case (Suc n)
  have ih: "runs_hold (\<lambda>t. if g t < n then D t else []) (concat (map R [0..<n]))" using Suc by simp
  have r: "runs_hold (\<lambda>t. if g t = n then D t else []) (R n)" using Suc.prems by simp
  let ?A = "concat (map R [0..<n])"
  have "run_term ` set ?A \<inter> run_term ` set (R n) = {}"
  proof (rule ccontr)
    assume "\<not> ?thesis"
    then obtain t where "t \<in> run_term ` set ?A" "t \<in> run_term ` set (R n)" by blast
    then show False using runs_hold_terms [OF ih, of t] runs_hold_terms [OF r, of t] by (auto split: if_splits)
  qed
  then have "distinct (map run_term (?A @ R n))" using ih r by (simp add: runs_hold_def)
  moreover have "set (?A @ R n) = {run_of t (if g t < Suc n then D t else []) | t. (if g t < Suc n then D t else []) \<noteq> []}"
    using ih r unfolding runs_hold_def set_append by (auto simp: less_Suc_eq)
  ultimately show ?case by (simp add: runs_hold_def)
qed

lemma gather_hold:
  assumes "\<And>t. bucket buckets t < buckets" "length Cs = length forms" "\<And>i. i < length forms \<Longrightarrow> forms_hold buckets (Cs ! i) (forms ! i)"
    "\<And>xs. mset (order xs) = mset xs"
  shows "runs_hold (\<lambda>t. concat (map (\<lambda>C. C t) Cs)) (gather order buckets forms)"
proof -
  let ?D = "\<lambda>t. concat (map (\<lambda>C. C t) Cs)"
  have "runs_hold (\<lambda>t. if bucket buckets t = b then ?D t else []) (merge_bucket order (map (\<lambda>form. form ! b) forms))" if b: "b < buckets" for b
  proof -
    let ?Cs = "map (\<lambda>C t. if bucket buckets t = b then C t else []) Cs"
    have "runs_hold (\<lambda>t. concat (map (\<lambda>C. C t) ?Cs)) (merge_bucket order (map (\<lambda>form. form ! b) forms))"
      using assms(2,3) b by (intro merge_bucket_hold assms(4)) (auto simp: forms_hold_def)
    moreover have "(\<lambda>t. concat (map (\<lambda>C. C t) ?Cs)) = (\<lambda>t. if bucket buckets t = b then ?D t else [])" by (auto simp: fun_eq_iff comp_def)
    ultimately show ?thesis by simp
  qed
  then have "runs_hold (\<lambda>t. if bucket buckets t < buckets then ?D t else []) (concat (map (\<lambda>b. merge_bucket order (map (\<lambda>form. form ! b) forms)) [0..<buckets]))"
    by (rule concat_hold)
  then show ?thesis using assms(1) by (simp add: gather_def)
qed

section \<open>The posting of a chunk\<close>

definition chunk_posting :: "StoredChunk \<Rightarrow> rstr \<rightharpoonup> u32 \<times> u32" where
  "chunk_posting c = map_of (map (\<lambda>(i, u, f). (u, f, if positional c then of_nat i + 1 else 0)) (enumerate 0 (chunk_table c)))"

definition entry_at :: "usize \<Rightarrow> (u32 \<times> u32) option \<Rightarrow> entry list" where
  "entry_at slot p = (case p of None \<Rightarrow> [] | Some (f, n) \<Rightarrow> [((slot, f), n)])"

lemma term_entries_absent: "t \<notin> fst ` set es \<Longrightarrow> term_entries slot pos i es t = []"
  by (induction slot pos i es t rule: term_entries.induct) auto

lemma term_entries_map: "distinct (map fst es) \<Longrightarrow>
    term_entries slot pos i es t = entry_at slot (map_of (map (\<lambda>(i, u, f). (u, f, if pos then of_nat i + 1 else 0)) (enumerate i es)) t)"
proof (induction slot pos i es t rule: term_entries.induct)
  case (2 slot pos i u f es t)
  then show ?case using term_entries_absent [of t es] by (auto simp: entry_at_def)
qed (simp add: entry_at_def)

lemma chunk_table_ssorted: "chunk_ok c \<Longrightarrow> ssorted (map fst (chunk_table c))"
  by (auto simp: chunk_ok_def chunk_table_def table_iter table_of_def)

lemma collect_postings:
  assumes "\<forall>(slot, c) \<in> set cs. chunk_ok c"
  shows "collect stem cs t = concat (map (\<lambda>(slot, c). entry_at slot (if stemmed c = stem then chunk_posting c t else None)) cs)"
proof -
  have "(if stemmed c = stem then term_entries slot (positional c) 0 (chunk_table c) t else []) = entry_at slot (if stemmed c = stem then chunk_posting c t else None)"
    if "(slot, c) \<in> set cs" for slot c
  proof -
    have "distinct (map fst (chunk_table c))" using that assms chunk_table_ssorted ssorted_distinct by blast
    then show ?thesis using term_entries_map [of "chunk_table c" slot "positional c" 0 t] by (simp add: chunk_posting_def entry_at_def)
  qed
  then show ?thesis unfolding collect_def by (intro arg_cong [of _ _ concat] map_cong) auto
qed

lemma entries_of_slots:
  fixes g :: "'c \<Rightarrow> (u32 \<times> u32) option"
  assumes "sorted_wrt (<) (map fst cs)"
  defines "es \<equiv> concat (map (\<lambda>(slot, c). entry_at slot (g c)) cs)"
  shows "sorted_wrt (<) (map entry_slot es)" "entry_slot ` set es \<subseteq> fst ` set cs"
    "map_of (map (\<lambda>((s, f), m). (s, f, m)) es) slot = (case map_of cs slot of None \<Rightarrow> None | Some c \<Rightarrow> g c)"
proof -
  have sub: "entry_slot ` set (concat (map (\<lambda>(slot, c). entry_at slot (g c)) cs)) \<subseteq> fst ` set cs" for cs :: "(usize \<times> 'c) list"
    by (force simp: entry_at_def split: option.splits)
  then show "entry_slot ` set es \<subseteq> fst ` set cs" by (simp add: es_def)
  show "sorted_wrt (<) (map entry_slot es)"
    using assms(1) unfolding es_def
  proof (induction cs)
    case (Cons sc cs)
    obtain s c where sc: "sc = (s, c)" by (cases sc)
    have "\<forall>e \<in> set (concat (map (\<lambda>(slot, c). entry_at slot (g c)) cs)). s < entry_slot e"
    proof
      fix e
      assume "e \<in> set (concat (map (\<lambda>(slot, c). entry_at slot (g c)) cs))"
      then have "entry_slot e \<in> fst ` set cs" by (rule subsetD [OF sub [of cs] imageI])
      then obtain x where "x \<in> set cs" "entry_slot e = fst x" by blast
      then show "s < entry_slot e" using Cons.prems by (simp add: sc)
    qed
    then show ?case using Cons by (cases "g c") (auto simp: sc entry_at_def)
  qed simp
  show "map_of (map (\<lambda>((s, f), m). (s, f, m)) es) slot = (case map_of cs slot of None \<Rightarrow> None | Some c \<Rightarrow> g c)"
    using assms(1) unfolding es_def
  proof (induction cs)
    case (Cons sc cs)
    obtain s c where sc: "sc = (s, c)" by (cases sc)
    have "map_of cs s = None" using Cons.prems by (force simp: sc map_of_eq_None_iff)
    then show ?case using Cons by (cases "g c") (auto simp: sc entry_at_def map_add_def split: option.split if_splits)
  qed simp
qed

definition index_add :: "term_maps \<Rightarrow> bool \<Rightarrow> (usize \<times> StoredChunk) list \<Rightarrow> term_maps" where
  "index_add I stem cs t slot =
     (case map_of cs slot of None \<Rightarrow> I t slot | Some c \<Rightarrow> if stemmed c = stem then chunk_posting c t else None)"

definition chunk_cost :: "StoredChunk \<Rightarrow> nat" where
  "chunk_cost c = sum_list (map (\<lambda>e. length (fst e) + 1) (chunk_table c))"

lemma sum_distinct_le:
  fixes f :: "'a \<Rightarrow> nat"
  assumes "distinct xs" "set xs \<subseteq> set ys"
  shows "sum_list (map f xs) \<le> sum_list (map f ys)"
proof -
  have "sum_list (map f xs) = sum f (set xs)" using assms(1) by (rule sum_list_distinct_conv_sum_set)
  also have "\<dots> \<le> sum f (set ys)" using assms(2) by (intro sum_mono2) auto
  also have "\<dots> \<le> sum_list (map f ys)"
  proof (induction ys)
    case (Cons y ys)
    then show ?case by (cases "y \<in> set ys") (auto simp: insert_absorb)
  qed simp
  finally show ?thesis .
qed

lemma collect_terms: "collect stem cs t \<noteq> [] \<Longrightarrow> t \<in> set (concat (map (\<lambda>sc. map fst (chunk_table (snd sc))) cs))"
proof -
  assume "collect stem cs t \<noteq> []"
  then obtain slot c where "(slot, c) \<in> set cs" "term_entries slot (positional c) 0 (chunk_table c) t \<noteq> []" by (auto simp: collect_def split: if_splits)
  then show ?thesis using term_entries_absent [of t "chunk_table c"] by force
qed

lemma runs_cost:
  assumes "runs_hold (collect stem cs) runs"
  shows "sum_list (map run_cost runs) \<le> sum_list (map (chunk_cost \<circ> snd) cs)"
proof -
  let ?L = "concat (map (\<lambda>sc. map fst (chunk_table (snd sc))) cs)"
  have "set (map run_term runs) \<subseteq> set ?L" using collect_terms runs_hold_terms [OF assms] by fastforce
  then have "sum_list (map (\<lambda>t. length t + 1) (map run_term runs)) \<le> sum_list (map (\<lambda>t. length t + 1) ?L)"
    using assms by (intro sum_distinct_le) (auto simp: runs_hold_def)
  moreover have "sum_list (map (\<lambda>t. length t + 1) ?L) = sum_list (map (chunk_cost \<circ> snd) cs)"
    by (induction cs) (simp_all add: chunk_cost_def comp_def)
  ultimately show ?thesis by (simp add: run_cost_def [abs_def] comp_def)
qed

section \<open>Indexing a batch\<close>

lemma those_all2:
  assumes "\<And>x. x \<in> set xs \<Longrightarrow> \<exists>y. f x = Some y \<and> Q x y"
  shows "\<exists>ys. those (map f xs) = Some ys \<and> list_all2 Q xs ys"
  using assms
proof (induction xs)
  case (Cons x xs)
  obtain y where "f x = Some y" "Q x y" using Cons.prems by auto
  moreover obtain ys where "those (map f xs) = Some ys" "list_all2 Q xs ys" using Cons by auto
  ultimately show ?case by auto
qed simp

lemma slice_chunks_concat: "0 < n \<Longrightarrow> concat (slice_chunks n xs) = xs"
proof (induction n xs rule: slice_chunks.induct)
  case (1 n xs)
  then show ?case by (subst slice_chunks.simps) auto
qed

lemma collect_concat: "concat (map (\<lambda>cs. collect stem cs t) css) = collect stem (concat css) t"
  by (induction css) (simp_all add: collect_def)

lemma gathered_runs:
  assumes "0 < r" "\<forall>(slot, c) \<in> set cs. chunk_ok c" "\<And>xs. mset (order xs) = mset xs" "buckets = 1 \<or> buckets = MERGE_BUCKETS"
  obtains partials where "those (map (scan_range buckets) (slice_chunks r cs)) = Some partials"
    "runs_hold (collect False cs) (gather order buckets (map fst partials))" "runs_hold (collect True cs) (gather order buckets (map snd partials))"
proof -
  let ?css = "slice_chunks r cs"
  have bl: "bucket buckets t < buckets" for t using assms(4) by (intro bucket_less) (auto simp: MERGE_BUCKETS_def)
  have "\<forall>(slot, c) \<in> set xs. chunk_ok c" if "xs \<in> set ?css" for xs using that assms(2) slice_chunks_concat [OF assms(1), of cs] by (metis UN_I set_concat)
  then have "\<exists>ps. scan_range buckets xs = Some ps \<and> (forms_hold buckets (collect False xs) (fst ps) \<and> forms_hold buckets (collect True xs) (snd ps))"
    if "xs \<in> set ?css" for xs using scan_range_hold [OF bl] that by fastforce
  from those_all2 [of ?css "scan_range buckets", OF this] obtain ps where
    ps: "those (map (scan_range buckets) ?css) = Some ps"
    "list_all2 (\<lambda>xs ps. forms_hold buckets (collect False xs) (fst ps) \<and> forms_hold buckets (collect True xs) (snd ps)) ?css ps" by blast
  have l: "length ps = length ?css" "\<And>i. i < length ps \<Longrightarrow> forms_hold buckets (collect False (?css ! i)) (fst (ps ! i)) \<and> forms_hold buckets (collect True (?css ! i)) (snd (ps ! i))"
    using ps(2) by (auto simp: list_all2_conv_all_nth)
  have all: "concat (map (\<lambda>C. C t) (map (collect stem) ?css)) = collect stem cs t" for stem t
    using collect_concat [of stem t ?css] slice_chunks_concat [OF assms(1), of cs] by (simp add: comp_def)
  have "runs_hold (\<lambda>t. concat (map (\<lambda>C. C t) (map (collect False) ?css))) (gather order buckets (map fst ps))"
    using l by (intro gather_hold bl assms(3)) auto
  moreover have "runs_hold (\<lambda>t. concat (map (\<lambda>C. C t) (map (collect True) ?css))) (gather order buckets (map snd ps))"
    using l by (intro gather_hold bl assms(3)) auto
  ultimately show ?thesis using that [OF ps(1)] unfolding all by simp
qed

lemma run_of_edit: "run_edit (run_of t es) = Append (map fst es) (dense_ordinals (map snd es))"
  by (simp add: run_edit_def run_of_def)

lemma run_of_entries: "run_entries (map fst es) (dense_ordinals (map snd es)) = es"
proof (cases "\<forall>n \<in> set (map snd es). n = 0")
  case True
  then have "map snd es = replicate (length es) 0" by (intro replicate_eqI) auto
  then show ?thesis using True zip_map_fst_snd [of es] by (simp add: run_entries_def dense_ordinals_def)
next
  case False
  then have "dense_ordinals (map snd es) = map snd es" "map snd es \<noteq> []" unfolding dense_ordinals_def by auto
  then show ?thesis using zip_map_fst_snd [of es] by (simp add: run_entries_def)
qed

lemma fold_runs:
  assumes "runs_hold C runs"
  shows "fold add_run runs I t = I t ++ map_of (map (\<lambda>((s, f), m). (s, f, m)) (C t))"
  using assms
proof (induction runs arbitrary: C I)
  case Nil
  then have "C t = []" by (auto simp: runs_hold_def)
  then show ?case by simp
next
  case (Cons run runs)
  note h = runs_hold_Cons [OF Cons.prems]
  let ?u = "run_term run"
  have ar: "add_run run I = I(?u := I ?u ++ map_of (map (\<lambda>((s, f), m). (s, f, m)) (C ?u)))"
    using h(2) by (metis (no_types, lifting) add_run_def map_edit.simps(1) run_of_edit run_of_entries)
  have "fold add_run (run # runs) I t = add_run run I t ++ map_of (map (\<lambda>((s, f), m). (s, f, m)) ((C(?u := [])) t))" using Cons.IH [OF h(1)] by simp
  then show ?case unfolding ar by (cases "t = ?u") simp_all
qed

lemma insert_collected:
  assumes "runs_hold (collect stem cs) runs" "lists_hold (\<lambda>_. slot_length ws) s I" "words_ok (slot_length ws)" "sorted_wrt (<) (map fst cs)"
    "\<forall>(slot, c) \<in> set cs. chunk_ok c \<and> slot < N" "N < 2 ^ 32" "\<forall>t. dom (I t) \<subseteq> {..<N} - fst ` set cs"
    "pls_cost s + sum_list (map (chunk_cost \<circ> snd) cs) < 2 ^ 32 - 1"
  shows "\<exists>s'. insert_runs_with_lengths k runs ws s = Some s' \<and> lists_hold (\<lambda>_. slot_length ws) s' (index_add I stem cs) \<and>
    pls_cost s' \<le> pls_cost s + sum_list (map (chunk_cost \<circ> snd) cs)"
proof -
  note cost = runs_cost [OF assms(1)]
  have ok: "\<forall>(slot, c) \<in> set cs. chunk_ok c" using assms(5) by auto
  have col: "collect stem cs t = concat (map (\<lambda>(slot, c). entry_at slot (if stemmed c = stem then chunk_posting c t else None)) cs)" for t
    by (rule collect_postings [OF ok])
  note es = entries_of_slots [OF assms(4), of "\<lambda>c. if stemmed c = stem then chunk_posting c t else None" for t, folded col]
  have ed: "edit_ok (run_edit run) (I (run_term run))" "run_postings run \<noteq> []" if "run \<in> set runs" for run
  proof -
    let ?t = "run_term run" let ?es = "collect stem cs ?t"
    have r: "run = run_of ?t ?es" "?es \<noteq> []" using runs_hold_mem [OF assms(1) that] by auto
    show "run_postings run \<noteq> []" by (subst r(1)) (simp add: run_of_def r(2))
    have slots: "entry_slot e < N \<and> I ?t (entry_slot e) = None" if "e \<in> set ?es" for e
    proof -
      have "entry_slot e \<in> fst ` set cs" using es(2) [of ?t] that by blast
      then show ?thesis using assms(5,7) by fastforce
    qed
    have fin: "finite (dom (I ?t))" using assms(7) finite_subset by blast
    have "entry_slot ` set ?es \<subseteq> {..<N} - dom (I ?t)" using slots by (auto simp: dom_def)
    moreover have "dom (I ?t) \<subseteq> {..<N}" using assms(7) by blast
    ultimately have "dom (I ?t) \<union> entry_slot ` set ?es \<subseteq> {..<N}" "dom (I ?t) \<inter> entry_slot ` set ?es = {}" by blast+
    moreover from this(1) have "card (dom (I ?t) \<union> entry_slot ` set ?es) \<le> card {..<N}" by (intro card_mono) simp
    ultimately have "card (dom (I ?t)) + card (entry_slot ` set ?es) \<le> N" using card_Un_disjoint [OF fin] by simp
    moreover have "card (entry_slot ` set ?es) = length ?es"
    proof -
      have "distinct (map entry_slot ?es)" by (rule ssorted_distinct [OF es(1)])
      from distinct_card [OF this] show ?thesis by simp
    qed
    ultimately have "card (dom (I ?t)) + length ?es < 2 ^ 32" using assms(6) by simp
    moreover have "sorted_wrt (<) (map fst (map fst ?es))" using es(1) [of ?t] by (simp add: comp_def)
    moreover have "\<forall>p \<in> set (map fst ?es). fst p < 2 ^ 64 \<and> I ?t (fst p) = None"
    proof
      fix p
      assume "p \<in> set (map fst ?es)"
      then obtain e where "e \<in> set ?es" "p = fst e" by auto
      then show "fst p < 2 ^ 64 \<and> I ?t (fst p) = None" using slots [of e] assms(6) by simp
    qed
    ultimately show "edit_ok (run_edit run) (I ?t)" by (subst (1) r(1)) (simp add: run_of_edit dense_ordinals_def)
  qed
  have "distinct (map run_term runs)" using assms(1) by (simp add: runs_hold_def)
  moreover have "fold add_run runs I = index_add I stem cs"
  proof (intro ext)
    fix t slot
    have "I t slot = None" if "map_of cs slot = Some c" for c
    proof -
      have "slot \<in> fst ` set cs" using map_of_SomeD [OF that] by force
      then have "slot \<notin> dom (I t)" using assms(7) by blast
      then show ?thesis by (meson domIff)
    qed
    then show "fold add_run runs I t slot = index_add I stem cs t slot"
      unfolding fold_runs [OF assms(1)] map_add_def es(3) [of t] index_add_def by (auto split: option.splits)
  qed
  ultimately show ?thesis using insert_runs_ok [OF assms(2,3), of runs k] ed cost assms(8) by fastforce
qed

lemma index_chunks_ok:
  assumes "lists_hold (\<lambda>_. slot_length ws) p P" "lists_hold (\<lambda>_. slot_length ws) s S" "words_ok (slot_length ws)" "sorted_wrt (<) (map fst cs)"
    "\<forall>(slot, c) \<in> set cs. chunk_ok c \<and> slot < N" "N < 2 ^ 32"
    "\<forall>t. dom (P t) \<subseteq> {..<N} - fst ` set cs" "\<forall>t. dom (S t) \<subseteq> {..<N} - fst ` set cs"
    "pls_cost p + sum_list (map (chunk_cost \<circ> snd) cs) < 2 ^ 32 - 1" "pls_cost s + sum_list (map (chunk_cost \<circ> snd) cs) < 2 ^ 32 - 1"
    "\<And>xs. mset (order xs) = mset xs"
  shows "\<exists>p' s'. index_chunks k order threads cs ws (p, s) = Some (p', s') \<and> lists_hold (\<lambda>_. slot_length ws) p' (index_add P False cs) \<and>
    lists_hold (\<lambda>_. slot_length ws) s' (index_add S True cs) \<and> pls_cost p' \<le> pls_cost p + sum_list (map (chunk_cost \<circ> snd) cs) \<and>
    pls_cost s' \<le> pls_cost s + sum_list (map (chunk_cost \<circ> snd) cs)"
proof (cases "cs = []")
  case True
  have "index_add I stem [] = I" for I stem by (simp add: index_add_def fun_eq_iff)
  then show ?thesis using True assms(1,2) by (simp add: index_chunks_def)
next
  case False
  let ?b = "if length cs < PARALLEL_CHUNKS then 1 else MERGE_BUCKETS"
  let ?r = "max ((length cs + max threads 1 - 1) div max threads 1) MIN_RANGE"
  have r: "0 < ?r" "\<forall>(slot, c) \<in> set cs. chunk_ok c" "?b = 1 \<or> ?b = MERGE_BUCKETS" using assms(5) by (auto simp: MIN_RANGE_def)
  obtain ps where ps: "those (map (scan_range ?b) (slice_chunks ?r cs)) = Some ps"
    "runs_hold (collect False cs) (gather order ?b (map fst ps))" "runs_hold (collect True cs) (gather order ?b (map snd ps))"
    using gathered_runs [OF r(1,2) assms(11) r(3)] .
  obtain p' where p': "insert_runs_with_lengths k (gather order ?b (map fst ps)) ws p = Some p'" "lists_hold (\<lambda>_. slot_length ws) p' (index_add P False cs)"
    "pls_cost p' \<le> pls_cost p + sum_list (map (chunk_cost \<circ> snd) cs)"
    using insert_collected [OF ps(2) assms(1,3-7,9)] by blast
  obtain s' where s': "insert_runs_with_lengths k (gather order ?b (map snd ps)) ws s = Some s'" "lists_hold (\<lambda>_. slot_length ws) s' (index_add S True cs)"
    "pls_cost s' \<le> pls_cost s + sum_list (map (chunk_cost \<circ> snd) cs)"
    using insert_collected [OF ps(3) assms(2,3-6,8,10)] by blast
  have "index_chunks k order threads cs ws (p, s) = Some (p', s')"
    unfolding index_chunks_def if_not_P [OF False] Let_def ps(1) option.case fst_conv snd_conv p'(1) s'(1) by simp
  then show ?thesis using p'(2,3) s'(2,3) by blast
qed

section \<open>Reading the index back\<close>

definition term_postings :: "kernel \<Rightarrow> PostingLists \<Rightarrow> rstr \<Rightarrow> Posting list option" where
  "term_postings k s t = (case pls_get s t of None \<Rightarrow> None | Some None \<Rightarrow> Some [] | Some (Some l) \<Rightarrow> pl_decode k l)"

lemma sorted_fst_unique:
  assumes "sorted_wrt (<) (map fst xs)" "sorted_wrt (<) (map fst ys)" "set xs = set (ys :: ('a::linorder \<times> 'b) list)"
  shows "xs = ys"
proof -
  have "distinct (map fst xs)" "sorted (map fst xs)" "distinct (map fst ys)" "sorted (map fst ys)"
    using assms(1,2) by (simp_all add: strict_sorted_iff)
  moreover have "inj_on fst (set xs \<union> set ys)" using assms(3) \<open>distinct (map fst xs)\<close> by (simp add: distinct_map)
  ultimately show ?thesis using assms(3) map_sorted_distinct_set_unique [of fst xs ys] by (simp add: distinct_map)
qed

lemma term_postings_ok:
  assumes "lists_hold W s I"
  obtains ps where "term_postings k s t = Some ps" "sorted_wrt (<) (map fst ps)" "set ps = {(slot, f). \<exists>n. I t slot = Some (f, n)}"
proof -
  obtain m where d: "represents (pls_dictionary s) m" "store_ok W m (pls_lists s) (pls_free s) I" using lists_holdE [OF assms] .
  show ?thesis
  proof (cases "m t")
    case None
    then have "I t = Map.empty" using d(2) by (auto simp: store_ok_def)
    then show ?thesis using that [of "[]"] None represents_get [OF d(1)] by (simp add: term_postings_def pls_get_def)
  next
    case (Some i)
    note h = store_okD [OF d(2) Some]
    obtain ps where "pl_decode k (pls_lists s ! unat i) = Some ps" "sorted_wrt (<) (map fst ps)" "set ps = {(slot, f). \<exists>n. I t slot = Some (f, n)}"
      using holds_map_reads(3) [OF h(3)] by blast
    then show ?thesis using that Some represents_get [OF d(1)] h(2) by (simp add: term_postings_def pls_get_def slice_get_def)
  qed
qed

lemma pls_default_holds: "lists_hold W pls_default (\<lambda>_. Map.empty)"
  using represents_default by (auto simp: lists_hold_def pls_default_def store_ok_def)

lemma map_of_enumerate: "map_option fst (map_of (map (\<lambda>(i, u, f). (u, f, g i)) (enumerate n es)) t) = map_of es t"
  by (induction es arbitrary: n) auto

lemma collect_frequencies:
  assumes "\<forall>(slot, c) \<in> set cs. chunk_ok c"
  shows "map fst (collect stem cs t)
    = concat (map (\<lambda>(slot, c). case map_of (chunk_table c) t of Some f \<Rightarrow> if stemmed c = stem then [(slot, f)] else [] | None \<Rightarrow> []) cs)"
proof -
  have "map fst (entry_at slot (if stemmed c = stem then chunk_posting c t else None))
      = (case map_of (chunk_table c) t of Some f \<Rightarrow> if stemmed c = stem then [(slot, f)] else [] | None \<Rightarrow> [])" for slot c
  proof -
    have "map_of (chunk_table c) t = map_option fst (chunk_posting c t)" unfolding chunk_posting_def by (rule map_of_enumerate [symmetric])
    then show ?thesis by (cases "chunk_posting c t") (auto simp: entry_at_def)
  qed
  then show ?thesis unfolding collect_postings [OF assms] map_concat map_map
    by (intro arg_cong [of _ _ concat] map_cong) auto
qed

text \<open>
  C25. Bulk indexing of chunks with ascending slots into empty lists ends without a panic, and the postings of
  every term of either form are then exactly those of the chunks of that form, in slot order, with the frequency
  the term table of the chunk gives.  How many threads scan the chunks, in which order hash maps are walked and
  into how many buckets terms are hashed makes no difference.
\<close>

theorem bulk_index_exact:
  assumes "sorted_wrt (<) (map fst cs)" "\<forall>(slot, c) \<in> set cs. chunk_ok c \<and> slot < 2 ^ 32 - 1" "\<forall>w \<in> set ws. w \<noteq> 0xFFFFFFFF"
    "sum_list (map (chunk_cost \<circ> snd) cs) < 2 ^ 32 - 1" "\<And>xs. mset (order xs) = mset xs"
  shows "\<exists>p s. index_chunks k order threads cs ws (pls_default, pls_default) = Some (p, s) \<and>
    (\<forall>t stem. term_postings k (if stem then s else p) t =
       Some (concat (map (\<lambda>(slot, c). case map_of (chunk_table c) t of Some f \<Rightarrow> if stemmed c = stem then [(slot, f)] else [] | None \<Rightarrow> []) cs)))"
proof -
  have w: "words_ok (slot_length ws)" using assms(3) by (auto simp: words_ok_def slot_length_def slice_get_def split: option.splits if_splits)
  have cost: "pls_cost pls_default = 0" by (simp add: pls_cost_def pls_default_def td_size_def td_default_def)
  obtain p s where ps: "index_chunks k order threads cs ws (pls_default, pls_default) = Some (p, s)"
    "lists_hold (\<lambda>_. slot_length ws) p (index_add (\<lambda>_. Map.empty) False cs)" "lists_hold (\<lambda>_. slot_length ws) s (index_add (\<lambda>_. Map.empty) True cs)"
    using index_chunks_ok [OF pls_default_holds pls_default_holds w assms(1), of "2 ^ 32 - 1" order k threads] assms(2,4,5) cost by auto
  have ok: "\<forall>(slot, c) \<in> set cs. chunk_ok c" using assms(2) by auto
  have "term_postings k (if stem then s else p) t =
      Some (concat (map (\<lambda>(slot, c). case map_of (chunk_table c) t of Some f \<Rightarrow> if stemmed c = stem then [(slot, f)] else [] | None \<Rightarrow> []) cs))" for t stem
  proof -
    let ?I = "index_add (\<lambda>_. Map.empty) stem cs"
    have "lists_hold (\<lambda>_. slot_length ws) (if stem then s else p) ?I" using ps(2,3) by (cases stem) simp_all
    then obtain qs where qs: "term_postings k (if stem then s else p) t = Some qs" "sorted_wrt (<) (map fst qs)"
      "set qs = {(slot, f). \<exists>n. ?I t slot = Some (f, n)}" by (rule term_postings_ok)
    let ?es = "collect stem cs t"
    have col: "?es = concat (map (\<lambda>(slot, c). entry_at slot (if stemmed c = stem then chunk_posting c t else None)) cs)" by (rule collect_postings [OF ok])
    note es = entries_of_slots [OF assms(1), of "\<lambda>c. if stemmed c = stem then chunk_posting c t else None", folded col]
    have d: "distinct (map fst (map (\<lambda>((s, f), m). (s, f, m)) ?es))" using ssorted_distinct [OF es(1)] by (simp add: comp_def case_prod_unfold)
    have "?I t slot = Some (f, n) \<longleftrightarrow> ((slot, f), n) \<in> set ?es" for slot f n
    proof -
      have "?I t slot = map_of (map (\<lambda>((s, f), m). (s, f, m)) ?es) slot" unfolding es(3) index_add_def by (simp split: option.split)
      then show ?thesis using map_of_eq_Some_iff [OF d, of slot "(f, n)"] by force
    qed
    then have "set qs = set (map fst ?es)" unfolding qs(3) by force
    moreover have "sorted_wrt (<) (map fst (map fst ?es))" using es(1) by (simp add: comp_def)
    ultimately have "qs = map fst ?es" using sorted_fst_unique [OF qs(2)] by blast
    moreover have "map fst ?es = concat (map (\<lambda>(slot, c). case map_of (chunk_table c) t of Some f \<Rightarrow> if stemmed c = stem then [(slot, f)] else [] | None \<Rightarrow> []) cs)"
      using collect_frequencies [OF ok] .
    ultimately show ?thesis using qs(1) by simp
  qed
  then show ?thesis using ps(1) by blast
qed

theorem bulk_index_exact_witness:
  "\<exists>c p s. chunk_table c = [([97], 2)] \<and> stemmed c \<and> index_chunks Scalar rev 4 [(5, c)] [] (pls_default, pls_default) = Some (p, s) \<and>
     term_postings Scalar s [97] = Some [(5, 2)] \<and> term_postings Scalar p [97] = Some []"
proof -
  let ?c = "\<lparr>chunk_name = [], chunk_text = None, text_at = None, start_byte = 0, end_byte = 0, chunk_vector = \<lparr>dim = 64, indices = []\<rparr>, embedding = None,
    chunk_terms = \<lparr>st_terms = Some (Tree [([97], 2)]), st_positions = None\<rparr>, word_count = 2, stemmed = True, vector_state = Lexical\<rparr>"
  have tab: "table_of (chunk_terms ?c) [([97], 2)]" by (simp add: table_of_def)
  then have c: "chunk_ok ?c" "chunk_table ?c = [([97], 2)]" by (auto simp: chunk_ok_def chunk_table_def table_iter)
  have "sum_list (map (chunk_cost \<circ> snd) [(5, ?c)]) < 2 ^ 32 - 1" by (simp add: chunk_cost_def c(2))
  then have "\<exists>p s. index_chunks Scalar rev 4 [(5, ?c)] [] (pls_default, pls_default) = Some (p, s) \<and>
    (\<forall>t stem. term_postings Scalar (if stem then s else p) t =
       Some (concat (map (\<lambda>(slot, c). case map_of (chunk_table c) t of Some f \<Rightarrow> if stemmed c = stem then [(slot, f)] else [] | None \<Rightarrow> []) [(5, ?c)])))"
    using c(1) by (intro bulk_index_exact) auto
  then obtain p s where ps: "index_chunks Scalar rev 4 [(5, ?c)] [] (pls_default, pls_default) = Some (p, s)"
    "\<And>t stem. term_postings Scalar (if stem then s else p) t =
       Some (concat (map (\<lambda>(slot, c). case map_of (chunk_table c) t of Some f \<Rightarrow> if stemmed c = stem then [(slot, f)] else [] | None \<Rightarrow> []) [(5, ?c)]))" by blast
  have "term_postings Scalar s [97] = Some [(5, 2)]" "term_postings Scalar p [97] = Some []"
    using ps(2) [of True "[97]"] ps(2) [of False "[97]"] c(2) by simp_all
  then show ?thesis using ps(1) c(2) by (intro exI [of _ ?c] exI [of _ p] exI [of _ s]) simp
qed

end
