(* ===== verification/CheckpointImage.thy ===== *)
theory CheckpointImage
  imports CheckpointPostings
begin

text \<open>
  A document checkpoint as it is opened and read, \<open>ServingImage\<close> of \<open>src/core/documents/image.rs\<close>: the header,
  the checks of every section at open, and the reads that rely on them (the owner of a slot, the
  ordinal of a document, the posting list of a term by a binary search over the blocks of a
  front-coded dictionary).  A read that panics is \<open>None\<close>; an error of the checks is a \<^typ>\<open>codec_error\<close>, with
  \<open>Panic\<close> for an index out of range.
\<close>

unbundle bit_operations_syntax

section \<open>Layout\<close>

definition MAGIC :: "u8 list" where "MAGIC = [0x48, 0x4D, 0x53, 0x43, 0x4B, 0x50, 0x00, 0x01]"
definition HEADER_WORDS :: usize where "HEADER_WORDS = 40"
definition IMAGE_HEADER_LEN :: usize where "IMAGE_HEADER_LEN = 8 + 8 * HEADER_WORDS"
definition BLOCK :: usize where "BLOCK = 32"
definition H_GENERATION :: usize where "H_GENERATION = 1"
definition H_DIMENSIONS :: usize where "H_DIMENSIONS = 2"
definition H_SLOTS :: usize where "H_SLOTS = 8"
definition H_CHUNKS :: usize where "H_CHUNKS = 9"
definition H_WORDS :: usize where "H_WORDS = 10"
definition H_DOCS :: usize where "H_DOCS = 11"
definition H_TERMS :: usize where "H_TERMS = 12"
definition H_SECTIONS :: usize where "H_SECTIONS = 14"
definition SLOT_BYTES :: usize where "SLOT_BYTES = 12"
definition FREE :: u32 where "FREE = 0xFFFFFFFF"

datatype Section = Dict0 | Blocks0 | Dict1 | Blocks1 | PostingBytes | SlotTable | IdOffsets | IdBytes | DocOffsets | Docs

primrec section_number :: "Section \<Rightarrow> nat" where
  "section_number Dict0 = 0"
| "section_number Blocks0 = 1"
| "section_number Dict1 = 2"
| "section_number Blocks1 = 3"
| "section_number PostingBytes = 4"
| "section_number SlotTable = 5"
| "section_number IdOffsets = 6"
| "section_number IdBytes = 7"
| "section_number DocOffsets = 8"
| "section_number Docs = 9"

definition SECTIONS :: usize where "SECTIONS = 10"

definition byte_range :: "u8 list \<Rightarrow> usize \<Rightarrow> usize \<Rightarrow> u8 list option" where
  "byte_range bytes a b = (if a \<le> b \<and> b \<le> length bytes then Some (sub_slice bytes a (b - a)) else None)"

definition header_word :: "u8 list \<Rightarrow> usize \<Rightarrow> u64 option" where
  "header_word bytes index = (let p = 8 + 8 * index in map_option of_le_bytes (byte_range bytes p (p + 8)))"

definition u32_at :: "u8 list \<Rightarrow> usize \<Rightarrow> u32 option" where
  "u32_at bytes p = map_option of_le_bytes (byte_range bytes p (p + 4))"

record Dictionary =
  dict_span :: "usize \<times> usize"
  block_span :: "usize \<times> usize"
  dict_terms :: usize

definition dictionary_default :: Dictionary where
  "dictionary_default = \<lparr>dict_span = (0, 0), block_span = (0, 0), dict_terms = 0\<rparr>"

record ServingImage =
  img_bytes :: "u8 list"
  img_slots :: usize
  img_chunks :: usize
  img_words :: usize
  img_docs :: usize
  img_dimensions :: usize
  img_dictionaries :: "Dictionary list"
  img_sections :: "(usize \<times> usize) list"

definition section_bytes :: "ServingImage \<Rightarrow> Section \<Rightarrow> u8 list option" where
  "section_bytes img s =
     (case slice_get (img_sections img) (section_number s) of
        None \<Rightarrow> None
      | Some (p, len) \<Rightarrow> byte_range (img_bytes img) p (p + len))"

definition span :: "ServingImage \<Rightarrow> Section \<Rightarrow> usize \<Rightarrow> (usize \<times> usize) option" where
  "span img offs i =
     (case section_bytes img offs of
        None \<Rightarrow> None
      | Some table \<Rightarrow>
          (case (u32_at table (4 * i), u32_at table (4 * i + 4)) of
             (Some a, Some b) \<Rightarrow> Some (unat a, unat b)
           | _ \<Rightarrow> None))"

section \<open>The checks at open\<close>

definition sum_bind :: "codec_error + 'a \<Rightarrow> ('a \<Rightarrow> codec_error + 'b) \<Rightarrow> codec_error + 'b" where
  "sum_bind m f = (case m of Inl e \<Rightarrow> Inl e | Inr x \<Rightarrow> f x)"

definition or_panic :: "'a option \<Rightarrow> codec_error + 'a" where
  "or_panic m = (case m of None \<Rightarrow> Inl Panic | Some x \<Rightarrow> Inr x)"

definition ensure :: "bool \<Rightarrow> string \<Rightarrow> codec_error + unit" where
  "ensure c what = (if c then Inr () else Inl (Malformed what))"

fun check_sections :: "u8 list \<Rightarrow> nat list \<Rightarrow> usize \<Rightarrow> codec_error + (usize \<times> usize) list \<times> usize" where
  "check_sections bytes [] e = Inr ([], e)"
| "check_sections bytes (i # is) e =
     sum_bind (or_panic (header_word bytes (H_SECTIONS + 2 * i))) (\<lambda>p.
     sum_bind (or_panic (header_word bytes (H_SECTIONS + 2 * i + 1))) (\<lambda>len.
     sum_bind (ensure (unat p = e \<and> unat p + unat len < 2 ^ 64 \<and> unat p + unat len \<le> length bytes) ''checkpoint section out of range'') (\<lambda>_.
     sum_bind (check_sections bytes is (unat p + unat len)) (\<lambda>(ss, e). Inr ((unat p, unat len) # ss, e)))))"

fun check_offsets :: "u8 list \<Rightarrow> usize \<Rightarrow> nat list \<Rightarrow> u32 \<Rightarrow> codec_error + u32" where
  "check_offsets offs len [] previous = Inr previous"
| "check_offsets offs len (i # is) previous =
     sum_bind (or_panic (u32_at offs (4 * i))) (\<lambda>p.
     sum_bind (ensure (p \<ge> previous \<and> unat p \<le> len \<and> (i > 0 \<or> p = 0)) ''checkpoint document offsets'') (\<lambda>_.
     check_offsets offs len is p))"

definition check_table :: "ServingImage \<Rightarrow> Section \<Rightarrow> Section \<Rightarrow> codec_error + unit" where
  "check_table img offs_section data_section =
     sum_bind (or_panic (section_bytes img offs_section)) (\<lambda>offs.
     sum_bind (or_panic (section_bytes img data_section)) (\<lambda>bytes.
     sum_bind (ensure (img_docs img + 1 < 2 ^ 64 \<and> (img_docs img + 1) * 4 < 2 ^ 64 \<and> (img_docs img + 1) * 4 = length offs)
       ''checkpoint document table size'') (\<lambda>_.
     sum_bind (check_offsets offs (length bytes) [0..<img_docs img + 1] 0) (\<lambda>previous.
     ensure (unat previous = length bytes) ''checkpoint document offsets''))))"

fun check_ids :: "ServingImage \<Rightarrow> rstr \<Rightarrow> nat list \<Rightarrow> rstr option \<Rightarrow> codec_error + unit" where
  "check_ids img ids [] previous = Inr ()"
| "check_ids img ids (i # is) previous =
     sum_bind (or_panic (span img IdOffsets i)) (\<lambda>(a, b).
     sum_bind (ensure (char_boundary ids a \<and> char_boundary ids b) ''checkpoint id boundary'') (\<lambda>_.
     sum_bind (or_panic (str_slice ids a b)) (\<lambda>key.
     sum_bind (ensure (case previous of None \<Rightarrow> True | Some p \<Rightarrow> p < key) ''checkpoint ids out of order'') (\<lambda>_.
     sum_bind (ensure (key \<noteq> [] \<and> length key \<le> 65535 \<and> 0 \<notin> set key) ''checkpoint document id'') (\<lambda>_.
     check_ids img ids is (Some key))))))"

definition check_documents :: "ServingImage \<Rightarrow> codec_error + unit" where
  "check_documents img =
     sum_bind (check_table img IdOffsets IdBytes) (\<lambda>_.
     sum_bind (check_table img DocOffsets Docs) (\<lambda>_.
     sum_bind (or_panic (section_bytes img IdBytes)) (\<lambda>ids.
     if utf8_valid ids then check_ids img ids [0..<img_docs img] None else Inl NotUtf8)))"

fun check_owners :: "ServingImage \<Rightarrow> u8 list \<Rightarrow> nat list \<Rightarrow> usize \<Rightarrow> codec_error + usize" where
  "check_owners img table [] used = Inr used"
| "check_owners img table (slot # ss) used =
     sum_bind (or_panic (u32_at table (slot * SLOT_BYTES + 4))) (\<lambda>ordinal.
     sum_bind (ensure (ordinal = FREE \<or> unat ordinal < img_docs img) ''checkpoint slot owner'') (\<lambda>_.
     check_owners img table ss (used + (if ordinal \<noteq> FREE then 1 else 0))))"

definition check_slots :: "ServingImage \<Rightarrow> codec_error + unit" where
  "check_slots img =
     sum_bind (or_panic (section_bytes img SlotTable)) (\<lambda>table.
     sum_bind (ensure (img_slots img * SLOT_BYTES < 2 ^ 64 \<and> img_slots img * SLOT_BYTES = length table) ''checkpoint slot table size'') (\<lambda>_.
     sum_bind (check_owners img table [0..<img_slots img] 0) (\<lambda>used.
     ensure (used = img_chunks img \<and> img_chunks img \<le> img_slots img) ''checkpoint chunk count'')))"

text \<open>One entry of a dictionary: the block table at a block's first entry, then the entry itself.\<close>

definition rd_lift :: "codec_error + 'a \<Rightarrow> 'a reads" where
  "rd_lift m r = (case m of Inl e \<Rightarrow> Inl e | Inr x \<Rightarrow> Inr (x, r))"

definition check_block :: "u8 list \<Rightarrow> nat \<Rightarrow> usize option \<Rightarrow> usize option reads" where
  "check_block blocks i posting_at r =
     (if i mod BLOCK = 0 then
        rd_lift
          (sum_bind (or_panic (u32_at blocks (i div BLOCK * 8))) (\<lambda>p.
           sum_bind (ensure (unat p = at_pos r) ''checkpoint block offset'') (\<lambda>_.
           sum_bind (or_panic (u32_at blocks (i div BLOCK * 8 + 4))) (\<lambda>start.
           sum_bind (ensure (case posting_at of None \<Rightarrow> True | Some p \<Rightarrow> p = unat start) ''checkpoint block postings'') (\<lambda>_.
           Inr (Some (unat start))))))) r
      else Inr (posting_at, r))"

definition check_entry :: "u8 list \<Rightarrow> usize \<Rightarrow> nat \<Rightarrow> rstr \<Rightarrow> usize option \<Rightarrow> (rstr \<times> usize option) reads" where
  "check_entry blocks postings i previous posting_at =
     rd_bind (check_block blocks i posting_at) (\<lambda>posting_at.
     rd_bind (rd_number usize_try_from) (\<lambda>prefix.
     rd_bind read_bytes (\<lambda>suffix.
     rd_ensure (prefix \<le> length previous \<and> (i mod BLOCK \<noteq> 0 \<or> prefix = 0)) (Malformed ''checkpoint term prefix'')
     (let t = take prefix previous @ suffix in
     rd_ensure (utf8_valid t \<and> (i = 0 \<or> previous < t)) (Malformed ''checkpoint terms out of order'')
     (rd_bind varint (\<lambda>n.
      rd_bind (rd_number usize_try_from) (\<lambda>len.
      rd_ensure (n > 0 \<and> n \<le> of_nat len \<and> n \<le> 0xFFFFFFFF) (Malformed ''checkpoint posting count'')
      (rd_bind (rd_lift (or_panic posting_at)) (\<lambda>p.
       rd_ensure (p + len < 2 ^ 64 \<and> p + len \<le> postings) (Malformed ''checkpoint posting range'')
       (rd_ok (t, Some (p + len))))))))))))"

fun check_entries :: "u8 list \<Rightarrow> usize \<Rightarrow> nat \<Rightarrow> nat \<Rightarrow> rstr \<Rightarrow> usize option \<Rightarrow> unit reads" where
  "check_entries blocks postings i 0 previous posting_at = rd_ok ()"
| "check_entries blocks postings i (Suc n) previous posting_at =
     rd_bind (check_entry blocks postings i previous posting_at) (\<lambda>(previous, posting_at).
     check_entries blocks postings (i + 1) n previous posting_at)"

definition form_sections :: "nat \<Rightarrow> Section \<times> Section" where
  "form_sections form = (if form = 0 then (Dict0, Blocks0) else (Dict1, Blocks1))"

definition check_dictionary :: "ServingImage \<Rightarrow> nat \<Rightarrow> codec_error + Dictionary" where
  "check_dictionary img form =
     (let (dict_section, block_section) = form_sections form in
     sum_bind (or_panic (header_word (img_bytes img) (H_TERMS + form))) (\<lambda>terms.
     sum_bind (or_panic (section_bytes img dict_section)) (\<lambda>dict.
     sum_bind (or_panic (section_bytes img block_section)) (\<lambda>blocks.
     sum_bind (ensure (length blocks = (unat terms + (BLOCK - 1)) div BLOCK * 8) ''checkpoint block table size'') (\<lambda>_.
     sum_bind (or_panic (section_bytes img PostingBytes)) (\<lambda>postings.
     sum_bind (check_entries blocks (length postings) 0 (unat terms) [] None (reader_new dict)) (\<lambda>(_, r).
     sum_bind (ensure (reader_is_empty r) ''checkpoint dictionary has trailing bytes'') (\<lambda>_.
     sum_bind (or_panic (slice_get (img_sections img) (section_number dict_section))) (\<lambda>d.
     sum_bind (or_panic (slice_get (img_sections img) (section_number block_section))) (\<lambda>b.
     Inr \<lparr>dict_span = d, block_span = b, dict_terms = unat terms\<rparr>))))))))))"

definition image_new :: "u8 list \<Rightarrow> codec_error + ServingImage" where
  "image_new bytes =
     sum_bind (ensure (IMAGE_HEADER_LEN \<le> length bytes \<and> take 8 bytes = MAGIC) ''not a document checkpoint of this version'') (\<lambda>_.
     sum_bind (check_sections bytes [0..<SECTIONS] IMAGE_HEADER_LEN) (\<lambda>(ss, e).
     sum_bind (ensure (e = length bytes) ''checkpoint has trailing bytes'') (\<lambda>_.
     sum_bind (or_panic (header_word bytes H_SLOTS)) (\<lambda>slots.
     sum_bind (or_panic (header_word bytes H_CHUNKS)) (\<lambda>chs.
     sum_bind (or_panic (header_word bytes H_WORDS)) (\<lambda>words.
     sum_bind (or_panic (header_word bytes H_DOCS)) (\<lambda>docs.
     sum_bind (or_panic (header_word bytes H_DIMENSIONS)) (\<lambda>dims.
     let img = \<lparr>img_bytes = bytes, img_slots = unat slots, img_chunks = unat chs, img_words = unat words, img_docs = unat docs,
           img_dimensions = unat dims, img_dictionaries = [dictionary_default, dictionary_default], img_sections = ss\<rparr> in
     sum_bind (check_documents img) (\<lambda>_.
     sum_bind (check_slots img) (\<lambda>_.
     sum_bind (check_dictionary img 0) (\<lambda>d0.
     let img = img\<lparr>img_dictionaries := (img_dictionaries img)[0 := d0]\<rparr> in
     sum_bind (check_dictionary img 1) (\<lambda>d1.
     Inr (img\<lparr>img_dictionaries := (img_dictionaries img)[1 := d1]\<rparr>)))))))))))))"

section \<open>The reads\<close>

definition image_id :: "ServingImage \<Rightarrow> usize \<Rightarrow> rstr option" where
  "image_id img ordinal =
     (case (span img IdOffsets ordinal, section_bytes img IdBytes) of
        (Some (a, b), Some ids) \<Rightarrow>
          (case byte_range ids a b of Some key \<Rightarrow> if utf8_valid key then Some key else None | None \<Rightarrow> None)
      | _ \<Rightarrow> None)"

function lower_bound_loop :: "ServingImage \<Rightarrow> rstr \<Rightarrow> nat \<Rightarrow> nat \<Rightarrow> nat option" where
  "lower_bound_loop img key lo hi =
     (if lo < hi then
        let mid = lo + (hi - lo) div 2
        in case image_id img mid of
             None \<Rightarrow> None
           | Some t \<Rightarrow> if t < key then lower_bound_loop img key (mid + 1) hi else lower_bound_loop img key lo mid
      else Some lo)"
  by pat_completeness auto
termination by (relation "measure (\<lambda>(_, _, lo, hi). hi - lo)") auto

declare lower_bound_loop.simps [simp del]

definition lower_bound :: "ServingImage \<Rightarrow> rstr \<Rightarrow> nat option" where
  "lower_bound img key = lower_bound_loop img key 0 (img_docs img)"

definition image_ordinal :: "ServingImage \<Rightarrow> rstr \<Rightarrow> nat option option" where
  "image_ordinal img key =
     (case lower_bound img key of
        None \<Rightarrow> None
      | Some i \<Rightarrow> if i < img_docs img then map_option (\<lambda>t. if t = key then Some i else None) (image_id img i) else Some None)"

definition image_slot :: "ServingImage \<Rightarrow> usize \<Rightarrow> (u32 \<times> u32 \<times> u32) option" where
  "image_slot img slot =
     (case section_bytes img SlotTable of
        None \<Rightarrow> None
      | Some table \<Rightarrow>
          let p = slot * SLOT_BYTES
          in case (u32_at table p, u32_at table (p + 4), u32_at table (p + 8)) of
               (Some w, Some ordinal, Some index) \<Rightarrow> Some (w, ordinal, index)
             | _ \<Rightarrow> None)"

definition slot_owner :: "ServingImage \<Rightarrow> usize \<Rightarrow> usize option option" where
  "slot_owner img slot = map_option (\<lambda>(_, ordinal, _). if ordinal \<noteq> FREE then Some (unat ordinal) else None) (image_slot img slot)"

definition image_slot_words :: "ServingImage \<Rightarrow> usize \<Rightarrow> u32 option" where
  "image_slot_words img slot = map_option fst (image_slot img slot)"

definition slot_order :: "ServingImage \<Rightarrow> usize \<Rightarrow> (rstr \<times> usize) option" where
  "slot_order img slot =
     (case image_slot img slot of
        None \<Rightarrow> None
      | Some (_, ordinal, index) \<Rightarrow>
          if ordinal = FREE then Some ([], unat index)
          else map_option (\<lambda>key. (key, unat index)) (image_id img (unat ordinal)))"

text \<open>The posting list of a term; \<open>expect\<close> panics on a failed read.\<close>

definition expect :: "codec_error + 'a \<Rightarrow> 'a option" where
  "expect m = (case m of Inl _ \<Rightarrow> None | Inr x \<Rightarrow> Some x)"

definition suffix_from :: "u8 list \<Rightarrow> usize \<Rightarrow> u8 list option" where
  "suffix_from bytes p = byte_range bytes p (length bytes)"

definition block_reader :: "u8 list \<Rightarrow> u8 list \<Rightarrow> nat \<Rightarrow> Reader option" where
  "block_reader dict blocks b =
     (case u32_at blocks (b * 8) of None \<Rightarrow> None | Some p \<Rightarrow> map_option reader_new (suffix_from dict (unat p)))"

definition first_term :: "u8 list \<Rightarrow> u8 list \<Rightarrow> nat \<Rightarrow> rstr option" where
  "first_term dict blocks b =
     (case block_reader dict blocks b of
        None \<Rightarrow> None
      | Some r \<Rightarrow> map_option fst (expect (rd_bind varint (\<lambda>_. read_bytes) r)))"

function find_block :: "u8 list \<Rightarrow> u8 list \<Rightarrow> rstr \<Rightarrow> nat \<Rightarrow> nat \<Rightarrow> nat option" where
  "find_block dict blocks target lo hi =
     (if hi - lo > 1 then
        let mid = lo + (hi - lo) div 2
        in case first_term dict blocks mid of
             None \<Rightarrow> None
           | Some t \<Rightarrow> if t \<le> target then find_block dict blocks target mid hi else find_block dict blocks target lo mid
      else Some lo)"
  by pat_completeness auto
termination by (relation "measure (\<lambda>(_, _, _, lo, hi). hi - lo)") auto

declare find_block.simps [simp del]

definition raw_entry :: "(u64 \<times> rstr \<times> u64 \<times> u64) reads" where
  "raw_entry =
     rd_bind varint (\<lambda>prefix. rd_bind read_bytes (\<lambda>suffix. rd_bind varint (\<lambda>n. rd_bind varint (\<lambda>len. rd_ok (prefix, suffix, n, len)))))"

fun scan_block :: "u8 list \<Rightarrow> rstr \<Rightarrow> nat \<Rightarrow> rstr \<Rightarrow> usize \<Rightarrow> Reader \<Rightarrow> Postings option option" where
  "scan_block postings target 0 current p r = Some None"
| "scan_block postings target (Suc n) current p r =
     (case raw_entry r of
        Inl _ \<Rightarrow> None
      | Inr ((prefix, suffix, n', len), r) \<Rightarrow>
          let current = take (unat prefix) current @ suffix
          in if current = target then map_option (\<lambda>bs. Some \<lparr>post_bytes = bs, post_count = ucast n'\<rparr>) (byte_range postings p (p + unat len))
             else if target < current then Some None
             else scan_block postings target n current (p + unat len) r)"

text \<open>The entries of a dictionary one after the other, as hydration reads them.\<close>

fun read_entries :: "nat \<Rightarrow> rstr \<Rightarrow> usize \<Rightarrow> (rstr \<times> u32 \<times> usize \<times> usize) list reads" where
  "read_entries 0 current p = rd_ok []"
| "read_entries (Suc n) current p =
     rd_bind (rd_number usize_try_from) (\<lambda>prefix.
     rd_bind read_bytes (\<lambda>suffix.
     let current = take prefix current @ suffix in
     rd_bind (rd_number u32_try_from) (\<lambda>n'.
     rd_bind (rd_number usize_try_from) (\<lambda>len.
     rd_bind (read_entries n current (p + len)) (\<lambda>es. rd_ok ((current, n', p, len) # es))))))"

definition image_entries :: "ServingImage \<Rightarrow> nat \<Rightarrow> codec_error + (rstr \<times> u32 \<times> usize \<times> usize) list" where
  "image_entries img form =
     sum_bind (or_panic (slice_get (img_dictionaries img) form)) (\<lambda>d.
     sum_bind (or_panic (byte_range (img_bytes img) (fst (dict_span d)) (fst (dict_span d) + snd (dict_span d)))) (\<lambda>dict.
     sum_bind (if dict_terms d = 0 then Inr 0
               else sum_bind (or_panic (byte_range (img_bytes img) (fst (block_span d)) (fst (block_span d) + 8))) (\<lambda>blocks.
                    sum_bind (or_panic (u32_at blocks 4)) (\<lambda>p. Inr (unat p)))) (\<lambda>p.
     map_sum id fst (read_entries (dict_terms d) [] p (reader_new dict)))))"

definition image_postings :: "ServingImage \<Rightarrow> nat \<Rightarrow> rstr \<Rightarrow> Postings option option" where
  "image_postings img form target =
     (case slice_get (img_dictionaries img) form of
        None \<Rightarrow> None
      | Some d \<Rightarrow>
          if dict_terms d = 0 then Some None
          else case (byte_range (img_bytes img) (fst (dict_span d)) (fst (dict_span d) + snd (dict_span d)),
                     byte_range (img_bytes img) (fst (block_span d)) (fst (block_span d) + snd (block_span d))) of
                 (Some dict, Some blocks) \<Rightarrow>
                   (case find_block dict blocks target 0 (length blocks div 8) of
                      None \<Rightarrow> None
                    | Some b \<Rightarrow>
                        (case (block_reader dict blocks b, section_bytes img PostingBytes, u32_at blocks (b * 8 + 4)) of
                           (Some r, Some postings, Some p) \<Rightarrow>
                             if b * BLOCK \<le> dict_terms d
                             then scan_block postings target (min (dict_terms d - b * BLOCK) BLOCK) [] (unat p) r
                             else None
                         | _ \<Rightarrow> None))
               | _ \<Rightarrow> None)"


section \<open>Slices of strings\<close>

lemma utf8_width_cont: "utf8_width bs = Some n \<Longrightarrow> 0 < j \<Longrightarrow> j < n \<Longrightarrow> cont (bs ! j)"
  by (cases bs) (auto split: if_splits list.splits simp: less_Suc_eq numeral_2_eq_2 numeral_3_eq_3 nth_Cons' eval_nat_numeral)

lemma utf8_split:
  assumes "utf8_valid bs" "char_boundary bs i" "i \<le> length bs"
  shows "utf8_valid (take i bs) \<and> utf8_valid (drop i bs)"
  using assms
proof (induction bs arbitrary: i rule: utf8_valid.induct)
  case (1 bs)
  show ?case
  proof (cases "bs = [] \<or> i = 0")
    case False
    then obtain n where n: "utf8_width bs = Some n" "utf8_valid (drop n bs)"
      using "1.prems"(1) utf8_valid.simps [of bs] by (auto split: option.splits)
    note nb = utf8_width_bounds [OF n(1)]
    have ni: "n \<le> i"
    proof (rule ccontr)
      assume "\<not> n \<le> i"
      then have "cont (bs ! i)" using utf8_width_cont [OF n(1), of i] False by simp
      then show False using "1.prems"(2) \<open>\<not> n \<le> i\<close> False nb by (auto simp: char_boundary_def)
    qed
    have "char_boundary (drop n bs) (i - n)"
      using "1.prems"(2,3) ni nb False by (auto simp: char_boundary_def)
    then have ih: "utf8_valid (take (i - n) (drop n bs)) \<and> utf8_valid (drop (i - n) (drop n bs))"
      using "1.IH" [OF n(1) n(2), of "i - n"] False "1.prems"(3) by simp
    have w: "utf8_width (take i bs) = Some n"
    proof -
      have "take i bs = take n bs @ take (i - n) (drop n bs)" using ni by (metis le_add_diff_inverse take_add)
      moreover have "utf8_width (take n bs) = Some n" using n(1) by (cases bs) (auto split: if_splits list.splits)
      ultimately show ?thesis using utf8_width_append by metis
    qed
    have "utf8_valid (take i bs)"
      using ih w ni by (subst utf8_valid.simps) (simp add: drop_take)
    then show ?thesis using ih ni by simp
  qed (use "1.prems" in auto)
qed

lemma str_slice_valid:
  assumes "utf8_valid s" "str_slice s a b = Some t"
  shows "utf8_valid t" "byte_range s a b = Some t"
proof -
  have c: "a \<le> b" "b \<le> length s" "char_boundary s a" "char_boundary s b" "t = sub_slice s a (b - a)"
    using assms(2) by (auto simp: str_slice_def split: if_splits)
  have "utf8_valid (drop a s)" using utf8_split [OF assms(1) c(3)] c(1,2) by simp
  moreover have "char_boundary (drop a s) (b - a)" using c by (auto simp: char_boundary_def)
  ultimately show "utf8_valid t" using utf8_split [of "drop a s" "b - a"] c by (auto simp: sub_slice_def)
  show "byte_range s a b = Some t" using c by (simp add: byte_range_def)
qed

section \<open>What the checks establish\<close>

lemma sum_bind_Inr: "sum_bind m f = Inr y \<longleftrightarrow> (\<exists>x. m = Inr x \<and> f x = Inr y)"
  by (simp add: sum_bind_def split: sum.split)

lemma or_panic_Inr: "or_panic m = Inr x \<longleftrightarrow> m = Some x"
  by (simp add: or_panic_def split: option.split)

lemma ensure_Inr: "ensure c w = Inr u \<longleftrightarrow> c"
  by (simp add: ensure_def)

lemmas check_simps = sum_bind_Inr or_panic_Inr ensure_Inr

lemma check_sections_ok:
  "check_sections bytes is e = Inr (ss, e') \<Longrightarrow> length ss = length is \<and> (\<forall>(p, len) \<in> set ss. p + len \<le> length bytes)"
  by (induction "is" arbitrary: e ss e') (fastforce simp: check_simps split: prod.splits)+

lemma section_number_less: "section_number s < SECTIONS"
  by (cases s) (simp_all add: SECTIONS_def)

definition sections_ok :: "ServingImage \<Rightarrow> bool" where
  "sections_ok img \<longleftrightarrow> length (img_sections img) = SECTIONS \<and> (\<forall>(p, len) \<in> set (img_sections img). p + len \<le> length (img_bytes img))"

lemma section_reads:
  assumes "sections_ok img"
  obtains p len where "img_sections img ! section_number s = (p, len)" "p + len \<le> length (img_bytes img)"
    "section_bytes img s = Some (sub_slice (img_bytes img) p len)"
proof -
  obtain p len where pl: "img_sections img ! section_number s = (p, len)" by (metis prod.exhaust)
  have "section_number s < length (img_sections img)" using assms section_number_less by (simp add: sections_ok_def)
  then have "(p, len) \<in> set (img_sections img)" using pl nth_mem by metis
  then have "p + len \<le> length (img_bytes img)" using assms by (auto simp: sections_ok_def)
  then show ?thesis using that pl \<open>section_number s < length (img_sections img)\<close>
    by (simp add: section_bytes_def slice_get_def byte_range_def)
qed

lemma u32_at_Some: "p + 4 \<le> length bs \<Longrightarrow> u32_at bs p = Some (of_le_bytes (sub_slice bs p 4))"
  by (simp add: u32_at_def byte_range_def)

lemma check_offsets_ok:
  assumes "check_offsets offs len [m..<m + n] prev = Inr final" "unat prev \<le> len"
  shows "\<exists>os. length os = n \<and> (\<forall>i < n. u32_at offs (4 * (m + i)) = Some (os ! i)) \<and> sorted (prev # os) \<and> (\<forall>x \<in> set os. unat x \<le> len)"
  using assms
proof (induction n arbitrary: m prev)
  case (Suc n)
  have u: "[m..<m + Suc n] = m # [Suc m..<Suc m + n]" by (simp add: upt_conv_Cons)
  obtain p where p: "u32_at offs (4 * m) = Some p" "prev \<le> p" "unat p \<le> len" "check_offsets offs len [Suc m..<Suc m + n] p = Inr final"
    using Suc.prems(1) unfolding u by (auto simp: check_simps)
  obtain os where os: "length os = n" "\<forall>i < n. u32_at offs (4 * (Suc m + i)) = Some (os ! i)" "sorted (p # os)" "\<forall>x \<in> set os. unat x \<le> len"
    using Suc.IH [OF p(4,3)] by blast
  have "\<forall>i < Suc n. u32_at offs (4 * (m + i)) = Some ((p # os) ! i)"
    using p(1) os(2) by (auto simp: less_Suc_eq_0_disj add.left_commute add.assoc)
  moreover have "sorted (prev # p # os)" using p(2) os(3) by auto
  ultimately show ?case using os(1,4) p(3) by (intro exI [of _ "p # os"]) simp
qed simp


text \<open>The ids are read back in ascending order.\<close>

lemma check_ids_ok:
  assumes "check_ids img ids [m..<m + n] prev = Inr ()" "utf8_valid ids" "section_bytes img IdBytes = Some ids"
  shows "\<exists>ks. length ks = n \<and> (\<forall>i < n. image_id img (m + i) = Some (ks ! i)) \<and> ssorted (case prev of None \<Rightarrow> ks | Some p \<Rightarrow> p # ks)"
  using assms(1)
proof (induction n arbitrary: m prev)
  case (Suc n)
  have u: "[m..<m + Suc n] = m # [Suc m..<Suc m + n]" by (simp add: upt_conv_Cons)
  obtain a b key where k: "span img IdOffsets m = Some (a, b)" "str_slice ids a b = Some key"
      "\<forall>p. prev = Some p \<longrightarrow> p < key" "check_ids img ids [Suc m..<Suc m + n] (Some key) = Inr ()"
    using Suc.prems(1) unfolding u by (auto simp: check_simps split: option.splits)
  obtain ks where ks: "length ks = n" "\<forall>i < n. image_id img (Suc m + i) = Some (ks ! i)" "ssorted (key # ks)"
    using Suc.IH [OF k(4)] by auto
  have "image_id img m = Some key"
    using k(1) str_slice_valid [OF assms(2) k(2)] assms(3) by (simp add: image_id_def)
  then have "\<forall>i < Suc n. image_id img (m + i) = Some ((key # ks) ! i)"
    using ks(2) by (auto simp: less_Suc_eq_0_disj)
  moreover have "ssorted (case prev of None \<Rightarrow> key # ks | Some p \<Rightarrow> p # key # ks)"
    using k(3) ks(3) by (cases prev) fastforce+
  ultimately show ?case using ks(1) by (intro exI [of _ "key # ks"]) simp
qed (auto split: option.split)

lemma check_owners_ok:
  assumes "check_owners img table ss used = Inr r"
  shows "(\<forall>s \<in> set ss. \<exists>i. u32_at table (s * SLOT_BYTES + 4) = Some i \<and> (i = FREE \<or> unat i < img_docs img)) \<and>
    r = used + length (filter (\<lambda>s. u32_at table (s * SLOT_BYTES + 4) \<noteq> Some FREE) ss)"
  using assms
proof (induction ss arbitrary: used)
  case (Cons s ss)
  obtain i where i: "u32_at table (s * SLOT_BYTES + 4) = Some i" "i = FREE \<or> unat i < img_docs img"
      "check_owners img table ss (used + (if i \<noteq> FREE then 1 else 0)) = Inr r"
    using Cons.prems by (auto simp: check_simps)
  then show ?case using Cons.IH [OF i(3)] by auto
qed simp

section \<open>The dict_entries of a dictionary\<close>

type_synonym raw = "u64 \<times> rstr \<times> u64 \<times> u64"

fun raws_at :: "u8 list \<Rightarrow> usize \<Rightarrow> raw list \<Rightarrow> usize \<Rightarrow> bool" where
  "raws_at d p [] q \<longleftrightarrow> p = q"
| "raws_at d p (e # es) q \<longleftrightarrow> (\<exists>p'. raw_entry \<lparr>data = d, at_pos = p\<rparr> = Inr (e, \<lparr>data = d, at_pos = p'\<rparr>) \<and> p \<le> p' \<and> p' \<le> length d \<and> raws_at d p' es q)"

type_synonym dict_entry = "rstr \<times> u32 \<times> usize \<times> usize"

text \<open>The front coding undone: each term with its number of postings and the bytes of its list.\<close>

fun dict_entries :: "rstr \<Rightarrow> usize \<Rightarrow> raw list \<Rightarrow> dict_entry list" where
  "dict_entries prev p [] = []"
| "dict_entries prev p ((prefix, suffix, n, len) # es) =
     (let t = take (unat prefix) prev @ suffix in (t, ucast n, p, unat len) # dict_entries t (p + unat len) es)"

definition lens :: "raw list \<Rightarrow> nat" where "lens es = sum_list (map (\<lambda>(_, _, _, len). unat len) es)"

lemma lens_simps [simp]: "lens [] = 0" "lens ((a, b, c, len) # es) = unat len + lens es" "lens (es @ fs) = lens es + lens fs"
  by (simp_all add: lens_def)

lemma length_dict_entries [simp]: "length (dict_entries prev p es) = length es"
  by (induction prev p es rule: dict_entries.induct) (simp_all add: Let_def)

lemma raws_at_append: "raws_at d p (es @ fs) q \<longleftrightarrow> (\<exists>m. raws_at d p es m \<and> raws_at d m fs q)"
  by (induction es arbitrary: p) auto

lemma raws_at_unique: "raws_at d p es q \<Longrightarrow> raws_at d p es q' \<Longrightarrow> q = q'"
  by (induction es arbitrary: p) auto

lemma raws_at_le: "raws_at d p es q \<Longrightarrow> p \<le> q \<and> (p \<le> length d \<longrightarrow> q \<le> length d)"
proof (induction es arbitrary: p)
  case (Cons e es)
  then obtain p' where "p \<le> p'" "p' \<le> length d" "raws_at d p' es q" by auto
  then show ?case using Cons.IH [of p'] by simp
qed simp

definition raw_prefix :: "raw \<Rightarrow> nat" where "raw_prefix e = unat (fst e)"

definition raw_small :: "raw \<Rightarrow> bool" where "raw_small e \<longleftrightarrow> unat (fst (snd (snd e))) < 2 ^ 32"

lemma dict_entries_append:
  "dict_entries prev p (es @ fs) = dict_entries prev p es @ dict_entries (last (prev # map fst (dict_entries prev p es))) (p + lens es) fs"
  by (induction prev p es rule: dict_entries.induct) (simp_all add: Let_def add.assoc)

lemma dict_entries_reset: "es \<noteq> [] \<Longrightarrow> raw_prefix (hd es) = 0 \<Longrightarrow> dict_entries prev p es = dict_entries [] p es"
  by (cases es) (auto simp: raw_prefix_def Let_def)

lemma dict_entries_start: "a \<in> set (dict_entries prev p es) \<Longrightarrow> p \<le> fst (snd (snd a))"
  by (induction prev p es rule: dict_entries.induct) (auto simp: Let_def)


lemma rd_bind_Inr: "rd_bind f g r = Inr (y, r') \<longleftrightarrow> (\<exists>x r1. f r = Inr (x, r1) \<and> g x r1 = Inr (y, r'))"
  by (auto simp: rd_bind_def split: sum.splits)

lemma rd_ensure_Inr: "rd_ensure c e f r = Inr y \<longleftrightarrow> c \<and> f r = Inr y"
  by (simp add: rd_ensure_def rd_fail_def)

lemma rd_ok_Inr: "rd_ok x r = Inr (y, r') \<longleftrightarrow> y = x \<and> r' = r"
  by (auto simp: rd_ok_def)

lemma rd_lift_Inr: "rd_lift m r = Inr (y, r') \<longleftrightarrow> m = Inr y \<and> r' = r"
  by (auto simp: rd_lift_def split: sum.split)

lemma rd_number_Inr: "rd_number usize_try_from r = Inr (n, r') \<longleftrightarrow> (\<exists>v. varint r = Inr (v, r') \<and> n = unat v)"
  by (auto simp: rd_number_def rd_bind_Inr usize_try_from_def rd_ok_Inr)

lemmas reader_simps = rd_bind_Inr rd_ensure_Inr rd_ok_Inr rd_lift_Inr rd_number_Inr

lemma check_block_Inr:
  "check_block blocks i pa r = Inr (pa', r') \<longleftrightarrow> r' = r \<and>
     (if i mod BLOCK = 0 then \<exists>b s. u32_at blocks (i div BLOCK * 8) = Some b \<and> unat b = at_pos r \<and>
        u32_at blocks (i div BLOCK * 8 + 4) = Some s \<and> (\<forall>x. pa = Some x \<longrightarrow> x = unat s) \<and> pa' = Some (unat s)
      else pa' = pa)"
  by (auto simp: check_block_def reader_simps check_simps split: option.splits)

text \<open>What one entry that passes has: its block's table entry, and its own bounds.\<close>

definition block_entry :: "u8 list \<Rightarrow> nat \<Rightarrow> usize \<Rightarrow> usize \<Rightarrow> bool" where
  "block_entry blocks b p st \<longleftrightarrow> map_option unat (u32_at blocks (b * 8)) = Some p \<and> map_option unat (u32_at blocks (b * 8 + 4)) = Some st"

definition entry_fits :: "usize \<Rightarrow> dict_entry \<Rightarrow> bool" where
  "entry_fits plen e \<longleftrightarrow> (case e of (t, n, p, len) \<Rightarrow> utf8_valid t \<and> 0 < n \<and> unat n \<le> len \<and> p + len \<le> plen)"

lemma safe_raw_entry: "safe_read raw_entry"
  unfolding raw_entry_def by (intro safe_reads varint_read.safe_read_axioms)

lemma small_count:
  assumes "(n :: u64) > 0" "n \<le> of_nat (unat (len :: u64))" "n \<le> 0xFFFFFFFF"
  shows "0 < (ucast n :: u32)" "unat (ucast n :: u32) \<le> unat len" "unat (ucast n :: u32) = unat n"
proof -
  have "unat n < 2 ^ 32" using assms(3) by (simp add: word_le_nat_alt)
  then show u: "unat (ucast n :: u32) = unat n" by (simp add: unsigned_ucast_eq take_bit_nat_eq_self)
  show "0 < (ucast n :: u32)" using assms(1) u by (simp add: word_less_nat_alt)
  show "unat (ucast n :: u32) \<le> unat len" using assms(2) u by (simp add: word_le_nat_alt)
qed

lemma check_entry_ok:
  assumes "check_entry blocks plen i prev pa \<lparr>data = d, at_pos = p\<rparr> = Inr ((t, pa'), r)" "p \<le> length d"
  shows "\<exists>e q st. raw_entry \<lparr>data = d, at_pos = p\<rparr> = Inr (e, \<lparr>data = d, at_pos = q\<rparr>) \<and> r = \<lparr>data = d, at_pos = q\<rparr> \<and> p \<le> q \<and> q \<le> length d \<and>
    fst (hd (dict_entries prev st [e])) = t \<and> pa' = Some (st + lens [e]) \<and> entry_fits plen (hd (dict_entries prev st [e])) \<and>
    (i = 0 \<or> prev < t) \<and> (\<forall>x. pa = Some x \<longrightarrow> x = st) \<and> raw_small e \<and>
    (i mod BLOCK = 0 \<longrightarrow> raw_prefix e = 0 \<and> block_entry blocks (i div BLOCK) p st)"
proof -
  from assms(1) obtain pa1 r1 v r2 suffix r3 n r4 len st where
    c: "check_block blocks i pa \<lparr>data = d, at_pos = p\<rparr> = Inr (pa1, r1)" "varint r1 = Inr (v, r2)" "read_bytes r2 = Inr (suffix, r3)"
      "unat v \<le> length prev" "i mod BLOCK \<noteq> 0 \<or> unat v = 0" "utf8_valid (take (unat v) prev @ suffix)" "i = 0 \<or> prev < take (unat v) prev @ suffix"
      "varint r3 = Inr (n, r4)" "varint r4 = Inr (len, r)" "n > 0" "n \<le> of_nat (unat len)" "n \<le> 0xFFFFFFFF"
      "pa1 = Some st" "st + unat len \<le> plen" "t = take (unat v) prev @ suffix" "pa' = Some (st + unat len)"
    by (auto simp: check_entry_def reader_simps check_simps Let_def)
  have r1: "r1 = \<lparr>data = d, at_pos = p\<rparr>" using c(1) by (simp add: check_block_Inr)
  have e: "raw_entry \<lparr>data = d, at_pos = p\<rparr> = Inr ((v, suffix, n, len), r)"
    using c(2,3,8,9) unfolding r1 by (simp add: raw_entry_def reader_simps)
  obtain q where q: "r = \<lparr>data = d, at_pos = q\<rparr>" "p \<le> q" "q \<le> length d"
    using safe_read.within [OF safe_raw_entry assms(2) e] by blast
  have b: "i mod BLOCK = 0 \<longrightarrow> raw_prefix (v, suffix, n, len) = 0 \<and> block_entry blocks (i div BLOCK) p st"
    using c(1,5,13) by (auto simp: check_block_Inr block_entry_def raw_prefix_def)
  have s: "\<forall>x. pa = Some x \<longrightarrow> x = st" using c(1,13) by (auto simp: check_block_Inr split: if_splits)
  have f: "entry_fits plen (hd (dict_entries prev st [(v, suffix, n, len)]))"
    using c small_count [OF c(10-12)] by (simp add: entry_fits_def)
  have "raw_small (v, suffix, n, len)" using c(12) by (simp add: raw_small_def word_le_nat_alt)
  then show ?thesis using e q b s f c(7,15,16) by (intro exI [of _ "(v, suffix, n, len)"] exI [of _ q] exI [of _ st]) simp
qed


lemma check_entries_ok:
  assumes "check_entries blocks plen i n prev pa \<lparr>data = d, at_pos = p\<rparr> = Inr ((), r)" "p \<le> length d"
  shows "\<exists>es q st. length es = n \<and> raws_at d p es q \<and> r = \<lparr>data = d, at_pos = q\<rparr> \<and> (\<forall>x. pa = Some x \<longrightarrow> x = st) \<and>
    (\<forall>e \<in> set es. raw_small e) \<and> (\<forall>e \<in> set (dict_entries prev st es). entry_fits plen e) \<and>
    ssorted ((if i = 0 then [] else [prev]) @ map fst (dict_entries prev st es)) \<and>
    (\<forall>j < n. (i + j) mod BLOCK = 0 \<longrightarrow> raw_prefix (es ! j) = 0 \<and>
       (\<exists>m. raws_at d p (take j es) m \<and> block_entry blocks ((i + j) div BLOCK) m (st + lens (take j es))))"
  using assms
proof (induction n arbitrary: i prev pa p)
  case 0
  then have "r = \<lparr>data = d, at_pos = p\<rparr>" by (simp add: rd_ok_Inr)
  then show ?case by (cases pa) auto
next
  case (Suc n)
  obtain t pa' r1 where c: "check_entry blocks plen i prev pa \<lparr>data = d, at_pos = p\<rparr> = Inr ((t, pa'), r1)"
      "check_entries blocks plen (i + 1) n t pa' r1 = Inr ((), r)"
    using Suc.prems(1) by (auto simp: rd_bind_Inr)
  obtain e q1 st where e: "raw_entry \<lparr>data = d, at_pos = p\<rparr> = Inr (e, \<lparr>data = d, at_pos = q1\<rparr>)" "r1 = \<lparr>data = d, at_pos = q1\<rparr>" "p \<le> q1" "q1 \<le> length d"
      "fst (hd (dict_entries prev st [e])) = t" "pa' = Some (st + lens [e])" "entry_fits plen (hd (dict_entries prev st [e]))"
      "i = 0 \<or> prev < t" "\<forall>x. pa = Some x \<longrightarrow> x = st" "raw_small e" "i mod BLOCK = 0 \<longrightarrow> raw_prefix e = 0 \<and> block_entry blocks (i div BLOCK) p st"
    using check_entry_ok [OF c(1) Suc.prems(2)] by (elim exE conjE) (rule that)
  obtain es q st1 where es: "length es = n" "raws_at d q1 es q" "r = \<lparr>data = d, at_pos = q\<rparr>" "\<forall>x. pa' = Some x \<longrightarrow> x = st1" "\<forall>e \<in> set es. raw_small e"
      "\<forall>e \<in> set (dict_entries t st1 es). entry_fits plen e" "ssorted ([t] @ map fst (dict_entries t st1 es))"
      "\<forall>j < n. (i + 1 + j) mod BLOCK = 0 \<longrightarrow> raw_prefix (es ! j) = 0 \<and>
         (\<exists>m. raws_at d q1 (take j es) m \<and> block_entry blocks ((i + 1 + j) div BLOCK) m (st1 + lens (take j es)))"
    using Suc.IH [OF c(2) [unfolded e(2)] e(4)] by auto
  have st1: "st1 = st + lens [e]" using es(4) e(6) by simp
  obtain a b c' l where ee: "e = (a, b, c', l)" by (metis prod.exhaust)
  have ent: "dict_entries prev st (e # es) = hd (dict_entries prev st [e]) # dict_entries t st1 es"
    using e(5) unfolding st1 ee by (simp add: Let_def)
  have srt: "ssorted ((if i = 0 then [] else [prev]) @ map fst (dict_entries prev st (e # es)))"
    using es(7) e(5,8) unfolding ent by (auto intro: order_less_trans)
  have raws: "raws_at d p (e # es) q" using e(1,3,4) es(2) by auto
  have blk: "raw_prefix ((e # es) ! j) = 0 \<and> (\<exists>m. raws_at d p (take j (e # es)) m \<and> block_entry blocks ((i + j) div BLOCK) m (st + lens (take j (e # es))))"
    if j: "j < Suc n" "(i + j) mod BLOCK = 0" for j
  proof (cases j)
    case 0
    then show ?thesis using j(2) e(11) by simp
  next
    case (Suc k)
    then have "raw_prefix (es ! k) = 0 \<and> (\<exists>m. raws_at d q1 (take k es) m \<and> block_entry blocks ((i + 1 + k) div BLOCK) m (st1 + lens (take k es)))"
      using es(8) j by simp
    moreover have "st1 + lens (take k es) = st + lens (take j (e # es))" unfolding st1 Suc ee by simp
    ultimately show ?thesis using e(1,3,4) Suc by auto
  qed
  show ?case
    using es(1,3,5,6) e(7,9,10) srt raws blk unfolding ent [symmetric]
    by (intro exI [of _ "e # es"] exI [of _ q] exI [of _ st] conjI) (simp_all add: ent)
qed

section \<open>Reading from the middle\<close>

text \<open>A read does not depend on the bytes before the cursor.\<close>

definition shifts :: "'a reads \<Rightarrow> bool" where
  "shifts f \<longleftrightarrow> (\<forall>d k p x q. k + p \<le> length d \<longrightarrow> f \<lparr>data = d, at_pos = k + p\<rparr> = Inr (x, \<lparr>data = d, at_pos = q\<rparr>) \<longrightarrow>
     f \<lparr>data = drop k d, at_pos = p\<rparr> = Inr (x, \<lparr>data = drop k d, at_pos = q - k\<rparr>))"

lemma shiftsD:
  "shifts f \<Longrightarrow> k + p \<le> length d \<Longrightarrow> f \<lparr>data = d, at_pos = k + p\<rparr> = Inr (x, \<lparr>data = d, at_pos = q\<rparr>) \<Longrightarrow>
    f \<lparr>data = drop k d, at_pos = p\<rparr> = Inr (x, \<lparr>data = drop k d, at_pos = q - k\<rparr>)"
  unfolding shifts_def by blast

lemma shifts_bind [intro]:
  assumes "shifts f" "safe_read f" "\<And>x. shifts (g x)"
  shows "shifts (rd_bind f g)"
  unfolding shifts_def
proof (intro allI impI)
  fix d k p y q
  assume p: "k + p \<le> length d" and "rd_bind f g \<lparr>data = d, at_pos = k + p\<rparr> = Inr (y, \<lparr>data = d, at_pos = q\<rparr>)"
  then obtain x r1 where x: "f \<lparr>data = d, at_pos = k + p\<rparr> = Inr (x, r1)" "g x r1 = Inr (y, \<lparr>data = d, at_pos = q\<rparr>)"
    by (auto simp: rd_bind_Inr)
  obtain q1 where q1: "r1 = \<lparr>data = d, at_pos = q1\<rparr>" "k + p \<le> q1" "q1 \<le> length d"
    using safe_read.within [OF assms(2) p x(1)] by blast
  have "f \<lparr>data = drop k d, at_pos = p\<rparr> = Inr (x, \<lparr>data = drop k d, at_pos = q1 - k\<rparr>)"
    using shiftsD [OF assms(1) p] x(1) q1(1) by blast
  moreover have "g x \<lparr>data = drop k d, at_pos = q1 - k\<rparr> = Inr (y, \<lparr>data = drop k d, at_pos = q - k\<rparr>)"
    using shiftsD [OF assms(3), of k "q1 - k" d x y q] x(2) q1 by simp
  ultimately show "rd_bind f g \<lparr>data = drop k d, at_pos = p\<rparr> = Inr (y, \<lparr>data = drop k d, at_pos = q - k\<rparr>)"
    by (auto simp: rd_bind_Inr)
qed

lemma shifts_ok [intro]: "shifts (rd_ok x)"
  by (simp add: shifts_def rd_ok_def)

lemma shifts_fail [intro]: "shifts (rd_fail e)"
  by (simp add: shifts_def rd_fail_def)

lemma shifts_ensure [intro]: "shifts f \<Longrightarrow> shifts (rd_ensure c e f)"
  by (simp add: rd_ensure_def shifts_fail)

lemma shifts_take [intro]: "shifts (take_bytes n)"
  by (auto simp: shifts_def take_bytes_def remaining_def sub_slice_def add.commute)

lemma shifts_byte [intro]: "shifts read_byte"
  unfolding read_byte_def by (rule shifts_bind [OF shifts_take safe_take]) (simp add: shifts_fail shifts_ok split: list.split)

lemma shifts_varint_loop: "shifts (varint_loop ss v)"
proof (induction ss arbitrary: v)
  case (Cons s ss)
  show ?case unfolding varint_loop.simps Let_def
    by (rule shifts_bind [OF shifts_byte safe_byte]) (simp add: shifts_ensure shifts_ok Cons.IH)
qed (simp add: shifts_fail)

lemma shifts_varint [intro]: "shifts varint"
  unfolding varint_def by (rule shifts_varint_loop)

lemma shifts_read_bytes [intro]: "shifts read_bytes"
  unfolding read_bytes_def rd_number_def
  by (intro shifts_bind shifts_varint varint_read.safe_read_axioms shifts_take)
    (auto simp: usize_try_from_def intro: safe_binds varint_read.safe_read_axioms safe_ok split: option.split)

lemma shifts_raw_entry: "shifts raw_entry"
  unfolding raw_entry_def by (intro shifts_bind shifts_varint shifts_read_bytes shifts_ok varint_read.safe_read_axioms safe_read_bytes)


section \<open>Looking a term up\<close>

definition served :: "u8 list \<Rightarrow> dict_entry list \<Rightarrow> rstr \<Rightarrow> Postings option" where
  "served postings es target = map_option (\<lambda>(n, p, len). \<lparr>post_bytes = sub_slice postings p len, post_count = n\<rparr>) (map_of es target)"

lemma served_later: "ssorted (map fst es) \<Longrightarrow> es \<noteq> [] \<Longrightarrow> target < fst (hd es) \<Longrightarrow> served postings es target = None"
  by (cases es) (auto simp: served_def map_of_eq_None_iff)

lemma scan_block_ok:
  assumes "raws_at d (k + p) (es @ fs) q" "k + p \<le> length d" "ssorted (map fst (dict_entries cur a es))"
    "\<forall>e \<in> set (dict_entries cur a es). entry_fits (length postings) e"
  shows "scan_block postings target (length es) cur a \<lparr>data = drop k d, at_pos = p\<rparr> = Some (served postings (dict_entries cur a es) target)"
  using assms
proof (induction es arbitrary: p cur a)
  case Nil
  then show ?case by (simp add: served_def)
next
  case (Cons e es)
  obtain pre suf n len where e: "e = (pre, suf, n, len)" by (metis prod.exhaust)
  obtain p' where p': "raw_entry \<lparr>data = d, at_pos = k + p\<rparr> = Inr (e, \<lparr>data = d, at_pos = p'\<rparr>)" "k + p \<le> p'" "p' \<le> length d" "raws_at d p' (es @ fs) q"
    using Cons.prems(1) by auto
  have r: "raw_entry \<lparr>data = drop k d, at_pos = p\<rparr> = Inr (e, \<lparr>data = drop k d, at_pos = p' - k\<rparr>)"
    by (rule shiftsD [OF shifts_raw_entry Cons.prems(2) p'(1)])
  let ?t = "take (unat pre) cur @ suf"
  have ent: "dict_entries cur a (e # es) = (?t, ucast n, a, unat len) # dict_entries ?t (a + unat len) es" by (simp add: e Let_def)
  have fit: "a + unat len \<le> length postings" using Cons.prems(4) unfolding ent by (simp add: entry_fits_def)
  have srt: "ssorted (map fst (dict_entries ?t (a + unat len) es))" "\<forall>x \<in> set (dict_entries ?t (a + unat len) es). ?t < fst x"
    using Cons.prems(3) unfolding ent by auto
  have ih: "scan_block postings target (length es) ?t (a + unat len) \<lparr>data = drop k d, at_pos = p' - k\<rparr>
      = Some (served postings (dict_entries ?t (a + unat len) es) target)"
    using Cons.IH [of "p' - k" ?t "a + unat len"] p' srt(1) Cons.prems(4) unfolding ent by simp
  have none: "served postings (dict_entries ?t (a + unat len) es) target = None" if "target < ?t"
    using srt(2) that by (auto simp: served_def map_of_eq_None_iff dest: order_less_trans)
  have "served postings (dict_entries cur a (e # es)) target
      = (if ?t = target then Some \<lparr>post_bytes = sub_slice postings a (unat len), post_count = ucast n\<rparr>
         else served postings (dict_entries ?t (a + unat len) es) target)"
    unfolding ent by (simp add: served_def)
  then show ?case using r ih none fit unfolding e by (auto simp: Let_def byte_range_def)
qed

text \<open>What a dictionary that passed the checks holds.\<close>

definition opened_dict :: "u8 list \<Rightarrow> u8 list \<Rightarrow> usize \<Rightarrow> raw list \<Rightarrow> usize \<Rightarrow> bool" where
  "opened_dict d blocks plen es st \<longleftrightarrow>
     (\<exists>q. raws_at d 0 es q) \<and> (\<forall>e \<in> set es. raw_small e) \<and> length blocks = (length es + (BLOCK - 1)) div BLOCK * 8 \<and>
     (\<forall>e \<in> set (dict_entries [] st es). entry_fits plen e) \<and> ssorted (map fst (dict_entries [] st es)) \<and>
     (\<forall>b. b * BLOCK < length es \<longrightarrow> raw_prefix (es ! (b * BLOCK)) = 0 \<and>
        (\<exists>m. raws_at d 0 (take (b * BLOCK) es) m \<and> block_entry blocks b m (st + lens (take (b * BLOCK) es))))"

lemma BLOCK_pos [simp]: "0 < BLOCK"
  by (simp add: BLOCK_def)

lemma block_located:
  assumes "opened_dict d blocks plen es st" "b * BLOCK < length es"
  obtains m q s where "block_reader d blocks b = Some \<lparr>data = drop m d, at_pos = 0\<rparr>" "m \<le> length d"
    "raws_at d m (drop (b * BLOCK) es) q" "u32_at blocks (b * 8 + 4) = Some s" "unat s = st + lens (take (b * BLOCK) es)"
    "dict_entries [] st es = dict_entries [] st (take (b * BLOCK) es) @ dict_entries [] (unat s) (drop (b * BLOCK) es)"
proof -
  let ?n = "b * BLOCK"
  obtain q where q: "raws_at d 0 es q" using assms(1) by (auto simp: opened_dict_def)
  obtain m where m: "raws_at d 0 (take ?n es) m" "block_entry blocks b m (st + lens (take ?n es))" "raw_prefix (es ! ?n) = 0"
    using assms by (auto simp: opened_dict_def)
  have tail: "raws_at d m (drop ?n es) q"
    using q m(1) raws_at_append [of d 0 "take ?n es" "drop ?n es" q] raws_at_unique by (metis append_take_drop_id)
  have md: "m \<le> length d" using raws_at_le [OF m(1)] by simp
  obtain x s where x: "u32_at blocks (b * 8) = Some x" "unat x = m" "u32_at blocks (b * 8 + 4) = Some s" "unat s = st + lens (take ?n es)"
    using m(2) by (auto simp: block_entry_def)
  have rd: "block_reader d blocks b = Some \<lparr>data = drop m d, at_pos = 0\<rparr>"
    using x md by (simp add: block_reader_def suffix_from_def byte_range_def sub_slice_def reader_new_def)
  have "raw_prefix (hd (drop ?n es)) = 0" using m(3) assms(2) by (simp add: hd_drop_conv_nth)
  then have "dict_entries [] st (take ?n es @ drop ?n es) = dict_entries [] st (take ?n es) @ dict_entries [] (unat s) (drop ?n es)"
    using assms(2) dict_entries_reset [of "drop ?n es"] unfolding dict_entries_append x(4) by simp
  then show ?thesis using that [OF rd md tail x(3,4)] by simp
qed

lemma first_term_ok:
  assumes "opened_dict d blocks plen es st" "b * BLOCK < length es"
  shows "first_term d blocks b = Some (fst (dict_entries [] st es ! (b * BLOCK)))"
proof -
  obtain m q s where b: "block_reader d blocks b = Some \<lparr>data = drop m d, at_pos = 0\<rparr>" "m \<le> length d" "raws_at d m (drop (b * BLOCK) es) q"
      "u32_at blocks (b * 8 + 4) = Some s" "unat s = st + lens (take (b * BLOCK) es)"
      "dict_entries [] st es = dict_entries [] st (take (b * BLOCK) es) @ dict_entries [] (unat s) (drop (b * BLOCK) es)"
    by (rule block_located [OF assms])
  obtain e fs where ef: "drop (b * BLOCK) es = e # fs" using assms(2) by (metis Cons_nth_drop_Suc)
  obtain pre suf n len where e: "e = (pre, suf, n, len)" by (metis prod.exhaust)
  obtain p' where "raw_entry \<lparr>data = d, at_pos = m + 0\<rparr> = Inr (e, \<lparr>data = d, at_pos = p'\<rparr>)" using b(3) ef by auto
  from shiftsD [OF shifts_raw_entry _ this] b(2)
  have r: "raw_entry \<lparr>data = drop m d, at_pos = 0\<rparr> = Inr (e, \<lparr>data = drop m d, at_pos = p' - m\<rparr>)" by simp
  obtain r1 r2 where "varint \<lparr>data = drop m d, at_pos = 0\<rparr> = Inr (pre, r1)" "read_bytes r1 = Inr (suf, r2)"
    using r unfolding e by (auto simp: raw_entry_def reader_simps)
  then have "first_term d blocks b = Some suf" using b(1) by (simp add: first_term_def rd_bind_def expect_def)
  moreover have "dict_entries [] st es ! (b * BLOCK) = hd (dict_entries [] (unat s) (e # fs))"
    unfolding b(6) ef using assms(2) by (simp add: nth_append e Let_def)
  ultimately show ?thesis by (simp add: e Let_def)
qed

lemma find_block_ok:
  assumes "\<And>b. b < nb \<Longrightarrow> first_term d blocks b = Some (ft b)" "lo < hi" "hi \<le> nb" "lo = 0 \<or> ft lo \<le> target" "hi = nb \<or> target < ft hi"
  shows "\<exists>b. find_block d blocks target lo hi = Some b \<and> b < nb \<and> (b = 0 \<or> ft b \<le> target) \<and> (b + 1 = nb \<or> target < ft (b + 1))"
  using assms
proof (induction d blocks target lo hi rule: find_block.induct)
  case (1 d blocks target lo hi)
  show ?case
  proof (cases "hi - lo > 1")
    case False
    then have "hi = lo + 1" using "1.prems"(2) by simp
    then show ?thesis using "1.prems" by (subst find_block.simps) auto
  next
    case True
    let ?m = "lo + (hi - lo) div 2"
    have m: "?m < nb" "lo < ?m" "?m < hi" using True "1.prems"(2,3) by auto
    note f = "1.prems"(1) [OF m(1)]
    show ?thesis
    proof (cases "ft ?m \<le> target")
      case le: True
      show ?thesis using "1.IH"(1) [OF True refl f le] "1.prems" m le True f
        by (subst find_block.simps) (simp add: Let_def)
    next
      case gt: False
      show ?thesis using "1.IH"(2) [OF True refl f gt] "1.prems" m gt True f
        by (subst find_block.simps) (simp add: Let_def)
    qed
  qed
qed


lemma blocks_cover: "b < (n + (BLOCK - 1)) div BLOCK \<longleftrightarrow> b * BLOCK < n"
  by (auto simp: BLOCK_def)

lemma served_middle:
  assumes "\<forall>e \<in> set xs \<union> set zs. fst e \<noteq> target"
  shows "served postings (xs @ ys @ zs) target = served postings ys target"
proof -
  have "map_of xs target = None" "map_of zs target = None" using assms by (auto simp: map_of_eq_None_iff)
  then show ?thesis by (simp add: served_def map_add_def split: option.split)
qed

lemma lookup_ok:
  assumes "opened_dict d blocks (length postings) es st" "es \<noteq> []"
  obtains b r s where "find_block d blocks target 0 (length blocks div 8) = Some b" "block_reader d blocks b = Some r"
    "u32_at blocks (b * 8 + 4) = Some s" "b * BLOCK < length es"
    "scan_block postings target (min (length es - b * BLOCK) BLOCK) [] (unat s) r = Some (served postings (dict_entries [] st es) target)"
proof -
  let ?nb = "length blocks div 8" and ?E = "dict_entries [] st es"
  have nb: "?nb = (length es + (BLOCK - 1)) div BLOCK" using assms(1) by (simp add: opened_dict_def)
  have ft: "first_term d blocks b = Some (fst (?E ! (b * BLOCK)))" if "b < ?nb" for b
    using first_term_ok [OF assms(1)] that unfolding nb blocks_cover by simp
  have "0 < ?nb" unfolding nb blocks_cover using assms(2) by simp
  then obtain b where b: "find_block d blocks target 0 ?nb = Some b" "b < ?nb" "b = 0 \<or> fst (?E ! (b * BLOCK)) \<le> target"
      "b + 1 = ?nb \<or> target < fst (?E ! ((b + 1) * BLOCK))"
    using find_block_ok [where nb = ?nb and ft = "\<lambda>b. fst (?E ! (b * BLOCK))" and lo = 0 and hi = ?nb, OF ft] by blast
  have bn: "b * BLOCK < length es" using b(2) unfolding nb blocks_cover .
  let ?n = "b * BLOCK"
  obtain m q s where m: "block_reader d blocks b = Some \<lparr>data = drop m d, at_pos = 0\<rparr>" "m \<le> length d"
      "raws_at d m (drop ?n es) q" "u32_at blocks (b * 8 + 4) = Some s" "unat s = st + lens (take ?n es)"
      "?E = dict_entries [] st (take ?n es) @ dict_entries [] (unat s) (drop ?n es)"
    by (rule block_located [OF assms(1) bn])
  let ?B = "take BLOCK (drop ?n es)" and ?C = "drop BLOCK (drop ?n es)"
  let ?A' = "dict_entries [] st (take ?n es)" and ?B' = "dict_entries [] (unat s) ?B"
    and ?C' = "dict_entries (last ([] # map fst (dict_entries [] (unat s) ?B))) (unat s + lens ?B) ?C"
  have "dict_entries [] (unat s) (?B @ ?C) = ?B' @ ?C'" by (rule dict_entries_append)
  then have E: "?E = ?A' @ ?B' @ ?C'" unfolding m(6) by (simp only: append_take_drop_id)
  have srt: "ssorted (map fst (?A' @ ?B' @ ?C'))" and fits: "\<forall>e \<in> set ?B'. entry_fits (length postings) e"
    using assms(1) unfolding opened_dict_def E by auto
  have la: "length ?A' = ?n" using bn by simp
  have "?A' = [] \<or> (\<forall>e \<in> set ?A'. fst e < target)"
  proof (cases "b = 0")
    case False
    have hd: "?E ! ?n = ?B' ! 0" "0 < length ?B'" unfolding E using la bn by (simp_all add: nth_append)
    then have "\<forall>e \<in> set ?A'. fst e < fst (?B' ! 0)" using srt nth_mem [OF hd(2)] by (auto simp: ssorted_append)
    then show ?thesis using b(3) False hd(1) by auto
  qed simp
  moreover have "?C' = [] \<or> (\<forall>e \<in> set ?C'. target < fst e)"
  proof (cases "b + 1 = ?nb")
    case True
    then have "\<not> (b + 1) * BLOCK < length es" using blocks_cover [of "b + 1" "length es"] unfolding nb by simp
    then show ?thesis by (simp add: add.commute)
  next
    case False
    then have "(b + 1) * BLOCK < length es" using b(2) blocks_cover [of "b + 1" "length es"] unfolding nb by simp
    then have lb: "length ?B' = BLOCK" "0 < length ?C'" by simp_all
    then have "?E ! ((b + 1) * BLOCK) = ?C' ! 0" unfolding E using la by (simp add: nth_append)
    then have c0: "target < fst (?C' ! 0)" using b(4) False by simp
    have "ssorted (map fst ?C')" using srt by (simp add: ssorted_append)
    then have "fst (?C' ! 0) \<le> fst e" if "e \<in> set ?C'" for e
      using ssorted_hd_le [of "map fst ?C'" "fst e"] that lb(2) by simp
    then show ?thesis using c0 by (meson order_less_le_trans)
  qed
  ultimately have "\<forall>e \<in> set ?A' \<union> set ?C'. fst e \<noteq> target" by auto
  then have lst: "served postings ?E target = served postings ?B' target" unfolding E by (rule served_middle)
  have sb: "ssorted (map fst ?B')" using srt by (simp add: ssorted_append)
  have "raws_at d (m + 0) (?B @ ?C) q" using m(3) by (simp only: append_take_drop_id add_0_right)
  then have "scan_block postings target (length ?B) [] (unat s) \<lparr>data = drop m d, at_pos = 0\<rparr> = Some (served postings ?B' target)"
    by (rule scan_block_ok) (use m(2) sb fits in simp_all)
  moreover have "length ?B = min (length es - ?n) BLOCK" by simp
  ultimately show ?thesis using that [OF b(1) m(1,4) bn] unfolding lst by simp
qed


section \<open>An opened checkpoint\<close>

lemma update_dictionaries [simp]:
  "section_bytes (img\<lparr>img_dictionaries := ds\<rparr>) = section_bytes img" "span (img\<lparr>img_dictionaries := ds\<rparr>) = span img"
  "image_id (img\<lparr>img_dictionaries := ds\<rparr>) = image_id img" "image_slot (img\<lparr>img_dictionaries := ds\<rparr>) = image_slot img"
  "sections_ok (img\<lparr>img_dictionaries := ds\<rparr>) = sections_ok img"
  by (simp_all add: fun_eq_iff section_bytes_def span_def image_id_def image_slot_def sections_ok_def cong: option.case_cong)

definition ids_ok :: "ServingImage \<Rightarrow> rstr list \<Rightarrow> bool" where
  "ids_ok img ids \<longleftrightarrow> length ids = img_docs img \<and> ssorted ids \<and> (\<forall>i < img_docs img. image_id img i = Some (ids ! i))"

definition table_ok :: "ServingImage \<Rightarrow> (u32 \<times> u32 \<times> u32) list \<Rightarrow> bool" where
  "table_ok img ss \<longleftrightarrow> length ss = img_slots img \<and> (\<forall>i < img_slots img. image_slot img i = Some (ss ! i)) \<and>
     (\<forall>(w, ordinal, index) \<in> set ss. ordinal = FREE \<or> unat ordinal < img_docs img) \<and>
     length (filter (\<lambda>(w, ordinal, index). ordinal \<noteq> FREE) ss) = img_chunks img"

definition dictionary_ok :: "ServingImage \<Rightarrow> Dictionary \<Rightarrow> raw list \<Rightarrow> usize \<Rightarrow> bool" where
  "dictionary_ok img dc es st \<longleftrightarrow> (\<exists>d blocks postings.
     byte_range (img_bytes img) (fst (dict_span dc)) (fst (dict_span dc) + snd (dict_span dc)) = Some d \<and>
     byte_range (img_bytes img) (fst (block_span dc)) (fst (block_span dc) + snd (block_span dc)) = Some blocks \<and>
     section_bytes img PostingBytes = Some postings \<and> dict_terms dc = length es \<and> opened_dict d blocks (length postings) es st)"

lemma check_documents_ok:
  assumes "check_documents img = Inr u"
  shows "\<exists>ids. ids_ok img ids"
proof -
  obtain ids where "section_bytes img IdBytes = Some ids" "utf8_valid ids" "check_ids img ids [0..<0 + img_docs img] None = Inr ()"
    using assms by (auto simp: check_documents_def check_simps split: if_splits)
  from check_ids_ok [OF this(3,2,1)] show ?thesis by (auto simp: ids_ok_def)
qed

lemma check_slots_ok:
  assumes "check_slots img = Inr u"
  shows "\<exists>ss. table_ok img ss"
proof -
  obtain table used where t: "section_bytes img SlotTable = Some table" "img_slots img * SLOT_BYTES = length table"
      "check_owners img table [0..<img_slots img] 0 = Inr used" "used = img_chunks img"
    using assms by (auto simp: check_slots_def check_simps)
  define f where "f = (\<lambda>s. (of_le_bytes (sub_slice table (s * SLOT_BYTES) 4) :: u32, of_le_bytes (sub_slice table (s * SLOT_BYTES + 4) 4) :: u32,
    of_le_bytes (sub_slice table (s * SLOT_BYTES + 8) 4) :: u32))"
  have b: "s * SLOT_BYTES + 12 \<le> length table" if "s < img_slots img" for s
    using that mult_le_mono1 [of "Suc s" "img_slots img" SLOT_BYTES] t(2) by (simp add: SLOT_BYTES_def)
  have slot: "image_slot img s = Some (f s)" if "s < img_slots img" for s
    using b [OF that] by (simp add: image_slot_def t(1) Let_def u32_at_Some f_def)
  have own: "u32_at table (s * SLOT_BYTES + 4) = Some (fst (snd (f s)))" if "s < img_slots img" for s
    using b [OF that] by (simp add: u32_at_Some f_def)
  note ok = check_owners_ok [OF t(3)]
  have "filter (\<lambda>s. u32_at table (s * SLOT_BYTES + 4) \<noteq> Some FREE) [0..<img_slots img] = filter (\<lambda>s. fst (snd (f s)) \<noteq> FREE) [0..<img_slots img]"
    by (rule filter_cong) (simp_all add: own)
  then have len: "length (filter (\<lambda>(w, ordinal, index). ordinal \<noteq> FREE) (map f [0..<img_slots img])) = img_chunks img"
    using ok t(4) by (simp add: filter_map comp_def split_def)
  have "\<forall>s < img_slots img. fst (snd (f s)) = FREE \<or> unat (fst (snd (f s))) < img_docs img"
  proof (intro allI impI)
    fix s assume s: "s < img_slots img"
    have "\<exists>i. u32_at table (s * SLOT_BYTES + 4) = Some i \<and> (i = FREE \<or> unat i < img_docs img)" using ok s by simp
    then show "fst (snd (f s)) = FREE \<or> unat (fst (snd (f s))) < img_docs img" unfolding own [OF s] by simp
  qed
  then have "table_ok img (map f [0..<img_slots img])"
    unfolding table_ok_def split_def using slot len [unfolded split_def] by simp
  then show ?thesis ..
qed

lemma check_dictionary_ok:
  assumes "check_dictionary img form = Inr dc" "sections_ok img"
  shows "\<exists>es st. dictionary_ok img dc es st"
proof -
  obtain ds bs where fs: "form_sections form = (ds, bs)" by (metis prod.exhaust)
  obtain terms d blocks postings r where c: "section_bytes img ds = Some d" "section_bytes img bs = Some blocks"
      "length blocks = (unat (terms :: u64) + (BLOCK - 1)) div BLOCK * 8" "section_bytes img PostingBytes = Some postings"
      "check_entries blocks (length postings) 0 (unat terms) [] None \<lparr>data = d, at_pos = 0\<rparr> = Inr ((), r)"
      "slice_get (img_sections img) (section_number ds) = Some (dict_span dc)"
      "slice_get (img_sections img) (section_number bs) = Some (block_span dc)" "dict_terms dc = unat terms"
    using assms(1) by (auto simp: check_dictionary_def fs check_simps reader_new_def split: prod.splits)
  have spans: "byte_range (img_bytes img) (fst (dict_span dc)) (fst (dict_span dc) + snd (dict_span dc)) = Some d"
    "byte_range (img_bytes img) (fst (block_span dc)) (fst (block_span dc) + snd (block_span dc)) = Some blocks"
    using c(1,2,6,7) by (simp_all add: section_bytes_def split_def)
  obtain es q st where es: "length es = unat terms" "raws_at d 0 es q" "\<forall>e \<in> set es. raw_small e" "\<forall>e \<in> set (dict_entries [] st es). entry_fits (length postings) e"
      "ssorted ((if (0::nat) = 0 then [] else [[]]) @ map fst (dict_entries [] st es))"
      "\<forall>j < unat terms. (0 + j) mod BLOCK = 0 \<longrightarrow> raw_prefix (es ! j) = 0 \<and>
         (\<exists>m. raws_at d 0 (take j es) m \<and> block_entry blocks ((0 + j) div BLOCK) m (st + lens (take j es)))"
    using check_entries_ok [OF c(5)] by auto
  have "raw_prefix (es ! (b * BLOCK)) = 0 \<and> (\<exists>m. raws_at d 0 (take (b * BLOCK) es) m \<and> block_entry blocks b m (st + lens (take (b * BLOCK) es)))"
    if "b * BLOCK < length es" for b
    using es(6) [rule_format, of "b * BLOCK"] that es(1) by simp
  then have "opened_dict d blocks (length postings) es st"
    unfolding opened_dict_def using es(1-5) c(3) by auto
  then have "dictionary_ok img dc es st" unfolding dictionary_ok_def using spans c(4,8) es(1) by auto
  then show ?thesis by blast
qed


text \<open>Everything an opened checkpoint was checked for.\<close>

definition opened :: "ServingImage \<Rightarrow> bool" where
  "opened img \<longleftrightarrow> sections_ok img \<and> (\<exists>ids. ids_ok img ids) \<and> (\<exists>ss. table_ok img ss) \<and> length (img_dictionaries img) = 2 \<and>
     (\<forall>dc \<in> set (img_dictionaries img). \<exists>es st. dictionary_ok img dc es st)"

lemma update_dictionaries_ok [simp]:
  "ids_ok (img\<lparr>img_dictionaries := ds\<rparr>) = ids_ok img" "table_ok (img\<lparr>img_dictionaries := ds\<rparr>) = table_ok img"
  "dictionary_ok (img\<lparr>img_dictionaries := ds\<rparr>) = dictionary_ok img"
  by (simp_all add: fun_eq_iff ids_ok_def table_ok_def dictionary_ok_def)

lemma image_new_opened:
  assumes "image_new bytes = Inr img"
  shows "opened img"
proof -
  obtain ss e slots chs words docs dims img0 d0 d1 where
    c: "check_sections bytes [0..<SECTIONS] IMAGE_HEADER_LEN = Inr (ss, e)"
      "img0 = \<lparr>img_bytes = bytes, img_slots = slots, img_chunks = chs, img_words = words, img_docs = docs,
         img_dimensions = dims, img_dictionaries = [dictionary_default, dictionary_default], img_sections = ss\<rparr>"
      "check_documents img0 = Inr ()" "check_slots img0 = Inr ()" "check_dictionary img0 0 = Inr d0"
      "check_dictionary (img0\<lparr>img_dictionaries := [d0, dictionary_default]\<rparr>) 1 = Inr d1" "img = img0\<lparr>img_dictionaries := [d0, d1]\<rparr>"
    using assms by (auto simp: image_new_def check_simps Let_def)
  have so: "sections_ok img0" using check_sections_ok [OF c(1)] by (simp add: c(2) sections_ok_def)
  obtain es0 st0 where d0: "dictionary_ok img0 d0 es0 st0" using check_dictionary_ok [OF c(5) so] by blast
  obtain es1 st1 where d1: "dictionary_ok img0 d1 es1 st1" using check_dictionary_ok [OF c(6)] so by auto
  show ?thesis
    using so check_documents_ok [OF c(3)] check_slots_ok [OF c(4)] d0 d1 unfolding opened_def c(7) by auto
qed

lemma lower_bound_loop_ok:
  assumes "ids_ok img ids" "hi \<le> length ids" "lo \<le> hi" "\<forall>i < lo. ids ! i < key" "\<forall>i < length ids. hi \<le> i \<longrightarrow> \<not> ids ! i < key"
  shows "lower_bound_loop img key lo hi = Some (partition_point (\<lambda>t. t < key) ids)"
  using assms
proof (induction img key lo hi rule: lower_bound_loop.induct)
  case (1 img key lo hi)
  have srt: "ids ! i \<le> ids ! j" if "i \<le> j" "j < length ids" for i j
    using sorted_nth_mono [OF ssorted_sorted, of ids i j] "1.prems"(1) that by (simp add: ids_ok_def)
  show ?case
  proof (cases "lo < hi")
    case False
    then have "partition_point (\<lambda>t. t < key) ids = lo" using "1.prems" by (intro partition_point_eqI) auto
    then show ?thesis using False by (subst lower_bound_loop.simps) simp
  next
    case True
    let ?m = "lo + (hi - lo) div 2"
    have m: "?m < hi" "lo \<le> ?m" "?m < length ids" using True "1.prems"(2) by auto
    have g: "image_id img ?m = Some (ids ! ?m)" using m(3) "1.prems"(1) by (simp add: ids_ok_def)
    show ?thesis
    proof (cases "ids ! ?m < key")
      case less: True
      have "\<forall>i < ?m + 1. ids ! i < key"
      proof (intro allI impI)
        fix i assume "i < ?m + 1"
        then have "ids ! i \<le> ids ! ?m" using srt m(3) by simp
        then show "ids ! i < key" using less by (rule order_le_less_trans)
      qed
      then have "lower_bound_loop img key (?m + 1) hi = Some (partition_point (\<lambda>t. t < key) ids)"
        using "1.IH"(1) [OF True refl g less] "1.prems" m by simp
      then show ?thesis using True g less by (subst lower_bound_loop.simps) (simp add: Let_def)
    next
      case geq: False
      have "\<forall>i < length ids. ?m \<le> i \<longrightarrow> \<not> ids ! i < key" using srt geq by (meson order_le_less_trans)
      then have "lower_bound_loop img key lo ?m = Some (partition_point (\<lambda>t. t < key) ids)"
        using "1.IH"(2) [OF True refl g geq] "1.prems" m by simp
      then show ?thesis using True g geq by (subst lower_bound_loop.simps) (simp add: Let_def)
    qed
  qed
qed

lemma lower_bound_ok: "ids_ok img ids \<Longrightarrow> lower_bound img key = Some (partition_point (\<lambda>t. t < key) ids)"
  unfolding lower_bound_def using lower_bound_loop_ok [of img ids "img_docs img" 0 key] by (simp add: ids_ok_def)

lemma image_ordinal_ok:
  assumes "ids_ok img ids"
  shows "image_ordinal img key = Some (position_of key ids)"
proof -
  let ?p = "partition_point (\<lambda>t. t < key) ids"
  note a = assms [unfolded ids_ok_def]
  have srt: "sorted ids" using ssorted_sorted a by blast
  have pos: "position_of key ids = (if ?p < length ids \<and> ids ! ?p = key then Some ?p else None)"
  proof (cases "slice_binary_search ids key")
    case (Inl p)
    then have "\<not> (?p < length ids \<and> ids ! ?p = key)" by (auto simp: slice_binary_search_def Let_def split: if_splits)
    then show ?thesis using slice_binary_search_Inl(1) [OF srt Inl] position_None [of key ids] by auto
  next
    case (Inr p)
    then have "?p < length ids \<and> ids ! ?p = key" by (auto simp: slice_binary_search_def Let_def split: if_splits)
    then show ?thesis using position_Some [OF ssorted_distinct, of ids key ?p] a by simp
  qed
  show ?thesis unfolding image_ordinal_def lower_bound_ok [OF assms] option.case pos using a by simp
qed

lemma read_entries_ok:
  assumes "raws_at d p es q" "p \<le> length d" "\<forall>e \<in> set es. raw_small e"
  shows "read_entries (length es) cur a \<lparr>data = d, at_pos = p\<rparr> = Inr (dict_entries cur a es, \<lparr>data = d, at_pos = q\<rparr>)"
  using assms
proof (induction es arbitrary: p cur a)
  case (Cons e es)
  obtain pre suf n len where e: "e = (pre, suf, n, len)" by (metis prod.exhaust)
  obtain p' where p': "raw_entry \<lparr>data = d, at_pos = p\<rparr> = Inr (e, \<lparr>data = d, at_pos = p'\<rparr>)" "p' \<le> length d" "raws_at d p' es q"
    using Cons.prems(1) by auto
  obtain r1 r2 r3 where r: "varint \<lparr>data = d, at_pos = p\<rparr> = Inr (pre, r1)" "read_bytes r1 = Inr (suf, r2)" "varint r2 = Inr (n, r3)"
      "varint r3 = Inr (len, \<lparr>data = d, at_pos = p'\<rparr>)"
    using p'(1) unfolding e by (auto simp: raw_entry_def reader_simps)
  have n: "rd_number u32_try_from r2 = Inr (ucast n, r3)"
    using r(3) Cons.prems(3) by (simp add: rd_number_def rd_bind_def u32_try_from_def e rd_ok_def raw_small_def)
  have "read_entries (length es) c x \<lparr>data = d, at_pos = p'\<rparr> = Inr (dict_entries c x es, \<lparr>data = d, at_pos = q\<rparr>)" for c x
    using Cons.IH [OF p'(3,2)] Cons.prems(3) by simp
  then show ?case using r n by (auto simp: e reader_simps Let_def)
qed (simp add: rd_ok_def)

lemma dictionary_reads:
  assumes "dictionary_ok img dc es st" "slice_get (img_dictionaries img) form = Some dc" "section_bytes img PostingBytes = Some postings"
  shows "image_entries img form = Inr (dict_entries [] st es)"
    "image_postings img form target = Some (served postings (dict_entries [] st es) target)"
proof -
  obtain d blocks where o: "byte_range (img_bytes img) (fst (dict_span dc)) (fst (dict_span dc) + snd (dict_span dc)) = Some d"
      "byte_range (img_bytes img) (fst (block_span dc)) (fst (block_span dc) + snd (block_span dc)) = Some blocks"
      "dict_terms dc = length es" "opened_dict d blocks (length postings) es st"
    using assms(1,3) by (auto simp: dictionary_ok_def)
  obtain q where q: "raws_at d 0 es q" "\<forall>e \<in> set es. raw_small e" using o(4) by (auto simp: opened_dict_def)
  note rd = read_entries_ok [OF q(1) _ q(2), of "[]"]
  show "image_entries img form = Inr (dict_entries [] st es)"
  proof (cases "es = []")
    case True
    then show ?thesis using o(1,3) assms(2) rd [of 0]
      by (simp add: image_entries_def sum_bind_def or_panic_def reader_new_def rd_ok_def)
  next
    case False
    then have "0 * BLOCK < length es" by simp
    then obtain s where s: "u32_at blocks 4 = Some s" "unat s = st"
      using block_located [OF o(4), of 0] by (metis (no_types, lifting) add_0 lens_simps(1) mult_0 take0 add.right_neutral)
    have lb: "8 \<le> length blocks" using o(4) blocks_cover [of 0 "length es"] False by (simp add: opened_dict_def)
    have bl: "blocks = sub_slice (img_bytes img) (fst (block_span dc)) (snd (block_span dc))" "fst (block_span dc) + snd (block_span dc) \<le> length (img_bytes img)"
      using o(2) by (auto simp: byte_range_def split: if_splits)
    have "fst (block_span dc) + 8 \<le> length (img_bytes img)" "8 \<le> snd (block_span dc)" using lb bl by simp_all
    then have first: "byte_range (img_bytes img) (fst (block_span dc)) (fst (block_span dc) + 8) = Some (take 8 blocks)"
      by (simp add: bl(1) byte_range_def sub_slice_def min_def)
    have "u32_at (take 8 blocks) 4 = Some s"
      using s(1) lb by (simp add: u32_at_def byte_range_def sub_slice_def drop_take)
    then show ?thesis using False o(1,3) assms(2) rd [of st] first s(2)
      by (simp add: image_entries_def sum_bind_def or_panic_def reader_new_def)
  qed
  show "image_postings img form target = Some (served postings (dict_entries [] st es) target)"
  proof (cases "es = []")
    case True
    then show ?thesis using o(3) assms(2) by (simp add: image_postings_def served_def)
  next
    case False
    obtain b r s where "find_block d blocks target 0 (length blocks div 8) = Some b" "block_reader d blocks b = Some r"
        "u32_at blocks (b * 8 + 4) = Some s" "b * BLOCK < length es"
        "scan_block postings target (min (length es - b * BLOCK) BLOCK) [] (unat s) r = Some (served postings (dict_entries [] st es) target)"
      by (rule lookup_ok [OF o(4) False])
    then show ?thesis using False o(1-3) assms(2,3) by (simp add: image_postings_def)
  qed
qed

end
