(* ===== verification/CheckpointWriter.thy ===== *)
theory CheckpointWriter
  imports CheckpointImage IndexChunks
begin

text \<open>
  Writing a document checkpoint, \<open>encode\<close> of \<open>src/core/documents/image.rs\<close>: the dictionaries and posting bytes of both
  term forms, the slot table, the ids and records of the documents, and the header.  The parts of the live store
  that it reads are a record; the text of a chunk, the JSON of the metadata and the CRC are parameters.
\<close>

section \<open>The store\<close>

record 'j DocumentStore =
  documents :: "(rstr \<times> 'j StoredDocument) list"
  store_postings :: "PostingLists list"
  store_slots :: "rstr \<rightharpoonup> usize list"
  slot_count :: usize
  chunk_count :: usize
  total_words :: usize
  nonpositional_chunks :: usize
  word_counts :: "u32 list"

definition checkpoint_representable :: "'j DocumentStore \<Rightarrow> bool" where
  "checkpoint_representable store \<longleftrightarrow>
     nonpositional_chunks store = chunk_count store \<and>
     list_all (\<lambda>(_, document).
       list_all (\<lambda>c. vector_state c = Lexical \<and> embedding c = None \<and> indices (chunk_vector c) = [] \<and> st_positions (chunk_terms c) = None)
         (chunks document)) (documents store)"

text \<open>\<open>NotHeld\<close> is the answer \<open>Ok(None)\<close>: the checkpoint cannot hold the store.\<close>

datatype encode_stop = NotHeld | EncodePanic | EncodeRefused string | EncodeWrite write_error

definition stop_bind :: "encode_stop + 'a \<Rightarrow> ('a \<Rightarrow> encode_stop + 'b) \<Rightarrow> encode_stop + 'b" where
  "stop_bind m f = (case m of Inl e \<Rightarrow> Inl e | Inr x \<Rightarrow> f x)"

definition unless_panic :: "'a option \<Rightarrow> encode_stop + 'a" where
  "unless_panic m = (case m of None \<Rightarrow> Inl EncodePanic | Some x \<Rightarrow> Inr x)"

definition fits_u32 :: "usize \<Rightarrow> encode_stop \<Rightarrow> encode_stop + u32" where
  "fits_u32 n e = (if n < 2 ^ 32 then Inr (of_nat n) else Inl e)"

section \<open>Dictionaries\<close>

definition pack_pair :: "usize \<times> bool \<times> u8 list \<Rightarrow> Posting \<Rightarrow> usize \<times> bool \<times> u8 list" where
  "pack_pair = (\<lambda>(previous, first, out) (slot, frequency).
     let gap = if first then slot else slot - previous
     in (slot, False, out @ put_varint (push_bit 1 (of_nat gap) OR (if frequency \<noteq> 1 then 1 else 0))
           @ (if frequency \<noteq> 1 then put_varint (ucast frequency) else [])))"

definition pack_list :: "kernel \<Rightarrow> PostingList \<Rightarrow> u8 list \<Rightarrow> u8 list option" where
  "pack_list k l out = map_option (\<lambda>(_, _, out). out) (pl_for_each k l pack_pair (0, True, out))"

definition sorted_term :: "u8 list \<Rightarrow> u32 list \<Rightarrow> nat \<Rightarrow> rstr option" where
  "sorted_term terms offs i =
     (case (slice_get offs i, slice_get offs (i + 1)) of (Some a, Some b) \<Rightarrow> byte_range terms (unat a) (unat b) | _ \<Rightarrow> None)"

definition previous_term :: "u8 list \<Rightarrow> u32 list \<Rightarrow> PostingList list \<Rightarrow> nat \<Rightarrow> rstr option" where
  "previous_term terms offs ls i =
     (case find (\<lambda>j. \<not> pl_is_empty (ls ! j)) (rev [0..<i]) of None \<Rightarrow> None | Some j \<Rightarrow> sorted_term terms offs j)"

type_synonym dict_state = "u8 list \<times> u8 list \<times> nat \<times> u8 list"

definition encode_term :: "kernel \<Rightarrow> u8 list \<Rightarrow> u32 list \<Rightarrow> PostingList list \<Rightarrow> nat \<Rightarrow> dict_state \<Rightarrow> encode_stop + dict_state" where
  "encode_term k terms offs ls i = (\<lambda>(dict, blocks, n, postings).
     if pl_is_empty (ls ! i) then Inr (dict, blocks, n, postings)
     else
       stop_bind (unless_panic (sorted_term terms offs i)) (\<lambda>t.
       stop_bind
         (if n mod BLOCK = 0 then
            stop_bind (fits_u32 (length dict) NotHeld) (\<lambda>p.
            stop_bind (fits_u32 (length postings) NotHeld) (\<lambda>posting.
            Inr (0, blocks @ u32_le_bytes p @ u32_le_bytes posting)))
          else
            stop_bind (unless_panic (previous_term terms offs ls i)) (\<lambda>previous.
            Inr (shared_prefix previous t, blocks))) (\<lambda>(prefix, blocks).
       stop_bind (unless_panic (pack_list k (ls ! i) postings)) (\<lambda>packed.
       Inr (dict @ put_varint (of_nat prefix) @ put_bytes (drop prefix t) @ put_varint (of_nat (pl_len (ls ! i)))
              @ put_varint (of_nat (length packed - length postings)),
            blocks, n + 1, packed)))))"

fun encode_terms :: "kernel \<Rightarrow> u8 list \<Rightarrow> u32 list \<Rightarrow> PostingList list \<Rightarrow> nat list \<Rightarrow> dict_state \<Rightarrow> encode_stop + dict_state" where
  "encode_terms k terms offs ls [] s = Inr s"
| "encode_terms k terms offs ls (i # is) s =
     stop_bind (encode_term k terms offs ls i s) (\<lambda>s. encode_terms k terms offs ls is s)"

definition encode_form :: "kernel \<Rightarrow> PostingLists \<Rightarrow> u8 list \<Rightarrow> encode_stop + dict_state" where
  "encode_form k pls postings =
     stop_bind (unless_panic (sorted_terms pls)) (\<lambda>(terms, offs, ls).
     encode_terms k terms offs ls [0..<length ls] ([], [], 0, postings))"

section \<open>Documents\<close>

definition OWN_ID :: u8 where "OWN_ID = 1"
definition STEMMED :: u8 where "STEMMED = 2"
definition TEXT_NONE :: u8 where "TEXT_NONE = 0"
definition TEXT_INLINE :: u8 where "TEXT_INLINE = 2"

fun encode_chunks :: "(StoredChunk \<Rightarrow> write_error + rstr option) \<Rightarrow> rstr \<Rightarrow> nat \<Rightarrow> StoredChunk list \<Rightarrow> encode_stop + u8 list" where
  "encode_chunks text_of key index [] = Inr []"
| "encode_chunks text_of key index (c # cs) =
     (let own_id = \<not> is_chunk_id (chunk_name c) key index;
          head = ((if own_id then OWN_ID else 0) OR (if stemmed c then STEMMED else 0)) # (if own_id then put_bytes (chunk_name c) else [])
            @ put_varint (ucast (start_byte c)) @ put_varint (ucast (end_byte c))
      in case text_of c of
           Inl e \<Rightarrow> Inl (EncodeWrite e)
         | Inr t \<Rightarrow>
             stop_bind (encode_chunks text_of key (index + 1) cs) (\<lambda>rest.
             Inr (head @ (case t of None \<Rightarrow> [TEXT_NONE] | Some t \<Rightarrow> TEXT_INLINE # put_bytes t) @ rest)))"

definition encode_document :: "('j \<Rightarrow> u8 list option) \<Rightarrow> (StoredChunk \<Rightarrow> write_error + rstr option) \<Rightarrow> 'j StoredDocument \<Rightarrow> encode_stop + u8 list" where
  "encode_document to_vec text_of document =
     (case to_vec (doc_metadata document) of
        None \<Rightarrow> Inl (EncodeWrite JsonWrite)
      | Some json \<Rightarrow>
          stop_bind (encode_chunks text_of (document_id document) 0 (chunks document)) (\<lambda>cs.
          Inr (put_bytes (document_version document) @ (case source_uri document of None \<Rightarrow> [0] | Some uri \<Rightarrow> 1 # put_bytes uri)
            @ put_bytes json @ put_varint (of_nat (length (chunks document))) @ cs)))"

fun place_chunks :: "u32 \<Rightarrow> nat \<Rightarrow> usize list \<Rightarrow> (u32 \<times> u32) list \<Rightarrow> encode_stop + (u32 \<times> u32) list" where
  "place_chunks ordinal index [] owners = Inr owners"
| "place_chunks ordinal index (slot # ss) owners =
     stop_bind (fits_u32 index (EncodeRefused ''chunk index'')) (\<lambda>i.
     if slot < length owners then place_chunks ordinal (index + 1) ss (owners[slot := (ordinal, i)]) else Inl EncodePanic)"

record doc_state =
  ds_owners :: "(u32 \<times> u32) list"
  ds_ids :: "u8 list"
  ds_id_offsets :: "u8 list"
  ds_docs :: "u8 list"
  ds_doc_offsets :: "u8 list"

fun encode_documents :: "('j \<Rightarrow> u8 list option) \<Rightarrow> (StoredChunk \<Rightarrow> write_error + rstr option) \<Rightarrow> 'j DocumentStore \<Rightarrow> nat
    \<Rightarrow> (rstr \<times> 'j StoredDocument) list \<Rightarrow> doc_state \<Rightarrow> encode_stop + doc_state" where
  "encode_documents to_vec text_of store ordinal [] s = Inr s"
| "encode_documents to_vec text_of store ordinal ((key, document) # ds) s =
     stop_bind (fits_u32 ordinal (EncodeRefused ''checkpoint document count'')) (\<lambda>o32.
     case store_slots store key of
       None \<Rightarrow> Inl (EncodeRefused ''document without slots'')
     | Some ss \<Rightarrow>
         if length ss = length (chunks document) then
           stop_bind (place_chunks o32 0 ss (ds_owners s)) (\<lambda>owners.
           stop_bind (fits_u32 (length (ds_ids s)) NotHeld) (\<lambda>id_at.
           stop_bind (fits_u32 (length (ds_docs s)) NotHeld) (\<lambda>doc_at.
           stop_bind (encode_document to_vec text_of document) (\<lambda>record.
           encode_documents to_vec text_of store (ordinal + 1) ds
             \<lparr>ds_owners = owners, ds_ids = ds_ids s @ key, ds_id_offsets = ds_id_offsets s @ u32_le_bytes id_at,
              ds_docs = ds_docs s @ record, ds_doc_offsets = ds_doc_offsets s @ u32_le_bytes doc_at\<rparr>))))
         else Inl (EncodeRefused ''document slots and chunks disagree''))"

section \<open>The slot table and the header\<close>

fun encode_slots :: "u32 list \<Rightarrow> nat \<Rightarrow> (u32 \<times> u32) list \<Rightarrow> encode_stop + u8 list" where
  "encode_slots words slot [] = Inr []"
| "encode_slots words slot ((ordinal, chunk) # os) =
     stop_bind (unless_panic (slice_get words slot)) (\<lambda>w.
     stop_bind (encode_slots words (slot + 1) os) (\<lambda>rest.
     Inr (u32_le_bytes w @ u32_le_bytes ordinal @ u32_le_bytes chunk @ rest)))"

fun place_sections :: "nat \<Rightarrow> u64 \<Rightarrow> u8 list list \<Rightarrow> u64 list \<Rightarrow> u64 list" where
  "place_sections i p [] words = words"
| "place_sections i p (s # ss) words =
     place_sections (i + 1) (p + of_nat (length s)) ss
       (words[H_SECTIONS + 2 * i := p, H_SECTIONS + 2 * i + 1 := of_nat (length s)])"

definition assemble :: "(u8 list \<Rightarrow> u32) \<Rightarrow> u64 list \<Rightarrow> u8 list list \<Rightarrow> u8 list" where
  "assemble crc32 words sections =
     (let words = place_sections 0 (of_nat IMAGE_HEADER_LEN) sections words;
          out = MAGIC @ concat (map u64_le_bytes words) @ concat sections
      in overwrite out 8 (u64_le_bytes (ucast (crc32 (drop 16 out)))))"

definition encode_checkpoint :: "kernel \<Rightarrow> (u8 list \<Rightarrow> u32) \<Rightarrow> ('j \<Rightarrow> u8 list option) \<Rightarrow> (StoredChunk \<Rightarrow> write_error + rstr option)
    \<Rightarrow> 'j DocumentStore \<Rightarrow> u32 \<Rightarrow> usize \<Rightarrow> encode_stop + u8 list" where
  "encode_checkpoint k crc32 to_vec text_of store generation dimensions =
     (if \<not> checkpoint_representable store then Inl NotHeld
      else
        stop_bind (unless_panic (slice_get (store_postings store) 0)) (\<lambda>lists0.
        stop_bind (unless_panic (slice_get (store_postings store) 1)) (\<lambda>lists1.
        stop_bind (encode_form k lists0 []) (\<lambda>(dict0, blocks0, terms0, postings).
        stop_bind (encode_form k lists1 postings) (\<lambda>(dict1, blocks1, terms1, postings).
        stop_bind (fits_u32 (length postings) NotHeld) (\<lambda>_.
        stop_bind (encode_documents to_vec text_of store 0 (documents store)
            \<lparr>ds_owners = replicate (slot_count store) (FREE, 0), ds_ids = [], ds_id_offsets = [], ds_docs = [], ds_doc_offsets = []\<rparr>) (\<lambda>s.
        stop_bind (fits_u32 (length (ds_ids s)) NotHeld) (\<lambda>id_end.
        stop_bind (fits_u32 (length (ds_docs s)) NotHeld) (\<lambda>doc_end.
        stop_bind (encode_slots (word_counts store) 0 (ds_owners s)) (\<lambda>slots.
        Inr (assemble crc32
          ((replicate HEADER_WORDS 0)
             [H_TERMS := of_nat terms0, H_TERMS + 1 := of_nat terms1, H_GENERATION := ucast generation, H_DIMENSIONS := of_nat dimensions,
              H_SLOTS := of_nat (slot_count store), H_CHUNKS := of_nat (chunk_count store), H_WORDS := of_nat (total_words store),
              H_DOCS := of_nat (length (documents store))])
          [dict0, blocks0, dict1, blocks1, postings, slots, ds_id_offsets s @ u32_le_bytes id_end, ds_ids s,
           ds_doc_offsets s @ u32_le_bytes doc_end, ds_docs s])))))))))))"


section \<open>Writing the entries of a dictionary\<close>

lemma stop_bind_Inr: "stop_bind m f = Inr y \<longleftrightarrow> (\<exists>x. m = Inr x \<and> f x = Inr y)"
  by (simp add: stop_bind_def split: sum.split)

lemma unless_panic_Inr: "unless_panic m = Inr x \<longleftrightarrow> m = Some x"
  by (simp add: unless_panic_def split: option.split)

lemma fits_u32_Inr: "fits_u32 n e = Inr w \<longleftrightarrow> n < 2 ^ 32 \<and> w = of_nat n"
  by (auto simp: fits_u32_def)

lemmas stop_simps = stop_bind_Inr unless_panic_Inr fits_u32_Inr

lemma pack_pairs:
  "foldl pack_pair (prev, first, out) ps = (if ps = [] then (prev, first, out) else (fst (last ps), False, out @ pack_gaps (if first then None else Some prev) ps))"
  by (induction ps arbitrary: prev first out) (auto simp: pack_pair_def Let_def)

lemma pack_list_ok:
  assumes "blocks_hold l parts"
  shows "pack_list k l out = Some (out @ pack_checkpoint (map fst (entries parts)))"
  unfolding pack_list_def pl_for_each_ok [OF assms] pack_pairs by (simp add: pack_checkpoint_def)

definition raw_bytes :: "raw \<Rightarrow> u8 list" where
  "raw_bytes = (\<lambda>(prefix, suffix, n, len). put_varint prefix @ put_bytes suffix @ put_varint n @ put_varint len)"

lemma reads_as_raw: "length suffix < 2 ^ 64 \<Longrightarrow> reads_as raw_entry (raw_bytes (prefix, suffix, n, len)) (prefix, suffix, n, len) 0"
  unfolding raw_entry_def raw_bytes_def prod.case
  by (rule reads_as_bind0 [OF reads_as_varint], rule reads_as_bind0 [OF reads_as_bytes], assumption,
      rule reads_as_bind0 [OF reads_as_varint], rule reads_as_last [OF reads_as_varint], rule reads_as_ok)

text \<open>A term with its number of postings and their bytes.\<close>

type_synonym item = "rstr \<times> nat \<times> u8 list"

definition code_item :: "nat \<Rightarrow> rstr \<Rightarrow> item \<Rightarrow> raw" where
  "code_item n prev = (\<lambda>(t, c, bs). let p = if n mod BLOCK = 0 then 0 else shared_prefix prev t in (of_nat p, drop p t, of_nat c, of_nat (length bs)))"

fun code_items :: "nat \<Rightarrow> rstr \<Rightarrow> item list \<Rightarrow> raw list" where
  "code_items n prev [] = []"
| "code_items n prev (x # xs) = code_item n prev x # code_items (n + 1) (fst x) xs"

fun placed_items :: "nat \<Rightarrow> item list \<Rightarrow> dict_entry list" where
  "placed_items p [] = []"
| "placed_items p ((t, c, bs) # xs) = (t, of_nat c, p, length bs) # placed_items (p + length bs) xs"

definition item_bytes :: "item list \<Rightarrow> u8 list" where "item_bytes xs = concat (map (\<lambda>(_, _, bs). bs) xs)"

definition write_item :: "nat \<Rightarrow> rstr \<Rightarrow> item \<Rightarrow> u8 list \<times> u8 list \<times> u8 list \<Rightarrow> encode_stop + u8 list \<times> u8 list \<times> u8 list" where
  "write_item n prev x = (\<lambda>(dict, blocks, postings).
     if n mod BLOCK = 0 \<longrightarrow> length dict < 2 ^ 32 \<and> length postings < 2 ^ 32
     then Inr (dict @ raw_bytes (code_item n prev x),
            if n mod BLOCK = 0 then blocks @ u32_le_bytes (of_nat (length dict)) @ u32_le_bytes (of_nat (length postings)) else blocks,
            postings @ snd (snd x))
     else Inl NotHeld)"

fun write_items :: "nat \<Rightarrow> rstr \<Rightarrow> item list \<Rightarrow> u8 list \<times> u8 list \<times> u8 list \<Rightarrow> encode_stop + u8 list \<times> u8 list \<times> u8 list" where
  "write_items n prev [] s = Inr s"
| "write_items n prev (x # xs) s = stop_bind (write_item n prev x s) (\<lambda>s. write_items (n + 1) (fst x) xs s)"

definition item_ok :: "item \<Rightarrow> bool" where
  "item_ok = (\<lambda>(t, c, bs). utf8_valid t \<and> 0 < c \<and> c \<le> length bs \<and> c < 2 ^ 32 \<and> length t < 2 ^ 32 \<and> length bs < 2 ^ 64)"

text \<open>The checks an entry passes at open.\<close>

fun entries_pass :: "u8 list \<Rightarrow> usize \<Rightarrow> u8 list \<Rightarrow> nat \<Rightarrow> rstr \<Rightarrow> usize \<Rightarrow> usize \<Rightarrow> raw list \<Rightarrow> usize \<Rightarrow> bool" where
  "entries_pass blocks plen d i prev st p [] q \<longleftrightarrow> p = q"
| "entries_pass blocks plen d i prev st p (e # es) q \<longleftrightarrow>
     raw_prefix e \<le> length prev \<and> raw_small e \<and> entry_fits plen (hd (dict_entries prev st [e])) \<and>
     (i = 0 \<or> prev < fst (hd (dict_entries prev st [e]))) \<and>
     (i mod BLOCK = 0 \<longrightarrow> raw_prefix e = 0 \<and> block_entry blocks (i div BLOCK) p st) \<and>
     (\<exists>p'. raw_entry \<lparr>data = d, at_pos = p\<rparr> = Inr (e, \<lparr>data = d, at_pos = p'\<rparr>) \<and>
        entries_pass blocks plen d (i + 1) (fst (hd (dict_entries prev st [e]))) (st + lens [e]) p' es q)"

lemma check_entry_pass:
  assumes "raw_prefix e \<le> length prev" "raw_small e" "entry_fits plen (hd (dict_entries prev st [e]))"
    "i = 0 \<or> prev < fst (hd (dict_entries prev st [e]))" "i mod BLOCK = 0 \<longrightarrow> raw_prefix e = 0 \<and> block_entry blocks (i div BLOCK) p st"
    "raw_entry \<lparr>data = d, at_pos = p\<rparr> = Inr (e, r)" "plen < 2 ^ 64" "\<forall>x. pa = Some x \<longrightarrow> x = st" "i mod BLOCK \<noteq> 0 \<longrightarrow> pa = Some st"
  shows "check_entry blocks plen i prev pa \<lparr>data = d, at_pos = p\<rparr> = Inr ((fst (hd (dict_entries prev st [e])), Some (st + lens [e])), r)"
proof -
  obtain pre suf n len where e: "e = (pre, suf, n, len)" by (metis prod.exhaust)
  obtain r1 r2 r3 where r: "varint \<lparr>data = d, at_pos = p\<rparr> = Inr (pre, r1)" "read_bytes r1 = Inr (suf, r2)" "varint r2 = Inr (n, r3)" "varint r3 = Inr (len, r)"
    using assms(6) unfolding e by (auto simp: raw_entry_def reader_simps)
  have blk: "check_block blocks i pa \<lparr>data = d, at_pos = p\<rparr> = Inr (Some st, \<lparr>data = d, at_pos = p\<rparr>)"
  proof (cases "i mod BLOCK = 0")
    case True
    then obtain b s where "u32_at blocks (i div BLOCK * 8) = Some b" "unat b = p" "u32_at blocks (i div BLOCK * 8 + 4) = Some s" "unat s = st"
      using assms(5) by (auto simp: block_entry_def)
    then show ?thesis using True assms(8) unfolding check_block_Inr by (cases pa) auto
  qed (use assms(9) in \<open>simp add: check_block_Inr\<close>)
  have small: "unat n < 2 ^ 32" using assms(2) by (simp add: raw_small_def e)
  then have un: "unat (ucast n :: u32) = unat n" by (simp add: unsigned_ucast_eq take_bit_nat_eq_self)
  have fit: "utf8_valid (take (unat pre) prev @ suf)" "0 < (ucast n :: u32)" "unat n \<le> unat len" "st + unat len \<le> plen"
    using assms(3) un by (auto simp: e entry_fits_def Let_def)
  have n: "n > 0" "n \<le> of_nat (unat len)" "n \<le> 0xFFFFFFFF"
    using fit(2,3) un small by (simp_all add: word_less_nat_alt word_le_nat_alt del: unsigned_ucast_eq)
  have num: "rd_number usize_try_from x = (case varint x of Inl e \<Rightarrow> Inl e | Inr (v, y) \<Rightarrow> Inr (unat v, y))" for x
    by (simp add: rd_number_def rd_bind_def usize_try_from_def rd_ok_def split: sum.split)
  let ?t = "take (unat pre) prev @ suf"
  have c1: "unat pre \<le> length prev \<and> (i mod BLOCK \<noteq> 0 \<or> unat pre = 0)" using assms(1,5) by (auto simp: e raw_prefix_def)
  have c2: "utf8_valid ?t \<and> (i = 0 \<or> prev < ?t)" using fit(1) assms(4) by (simp add: e Let_def)
  have c3: "n > 0 \<and> n \<le> of_nat (unat len) \<and> n \<le> 0xFFFFFFFF" using n by blast
  have c4: "st + unat len < 2 ^ 64 \<and> st + unat len \<le> plen" using fit(4) assms(7) by linarith
  have pan: "rd_lift (or_panic (Some st)) x = Inr (st, x)" for x :: Reader by (simp add: rd_lift_def or_panic_def)
  have "check_entry blocks plen i prev pa \<lparr>data = d, at_pos = p\<rparr> = Inr ((?t, Some (st + unat len)), r)"
    unfolding check_entry_def rd_bind_def blk sum.case prod.case num r rd_ensure_def Let_def if_P [OF c1] if_P [OF c2] if_P [OF c3] if_P [OF c4] pan rd_ok_def
    by (rule refl)
  then show ?thesis by (simp add: e Let_def)
qed

lemma check_entries_pass:
  assumes "entries_pass blocks plen d i prev st p es q" "plen < 2 ^ 64" "\<forall>x. pa = Some x \<longrightarrow> x = st" "i mod BLOCK \<noteq> 0 \<longrightarrow> pa = Some st"
  shows "check_entries blocks plen i (length es) prev pa \<lparr>data = d, at_pos = p\<rparr> = Inr ((), \<lparr>data = d, at_pos = q\<rparr>)"
  using assms
proof (induction es arbitrary: i prev st p pa)
  case (Cons e es)
  let ?t = "fst (hd (dict_entries prev st [e]))"
  obtain p' where p': "raw_entry \<lparr>data = d, at_pos = p\<rparr> = Inr (e, \<lparr>data = d, at_pos = p'\<rparr>)" "entries_pass blocks plen d (i + 1) ?t (st + lens [e]) p' es q"
    using Cons.prems(1) by auto
  note pass = Cons.prems(1) [unfolded entries_pass.simps]
  note c = conjunct1 [OF pass] conjunct1 [OF conjunct2 [OF pass]] conjunct1 [OF conjunct2 [OF conjunct2 [OF pass]]]
    conjunct1 [OF conjunct2 [OF conjunct2 [OF conjunct2 [OF pass]]]] conjunct1 [OF conjunct2 [OF conjunct2 [OF conjunct2 [OF conjunct2 [OF pass]]]]]
  have "check_entry blocks plen i prev pa \<lparr>data = d, at_pos = p\<rparr> = Inr ((?t, Some (st + lens [e])), \<lparr>data = d, at_pos = p'\<rparr>)"
    by (rule check_entry_pass [OF c p'(1) Cons.prems(2-4)])
  moreover have "check_entries blocks plen (i + 1) (length es) ?t (Some (st + lens [e])) \<lparr>data = d, at_pos = p'\<rparr> = Inr ((), \<lparr>data = d, at_pos = q\<rparr>)"
    by (rule Cons.IH [OF p'(2) Cons.prems(2)]) simp_all
  ultimately show ?case by (simp add: rd_bind_def)
qed (simp add: rd_ok_def)


text \<open>The front coding is undone by the reader.\<close>

lemma shared_prefix_take: "take (shared_prefix prev t) prev @ drop (shared_prefix prev t) t = t" "shared_prefix prev t \<le> length prev"
proof -
  have "take (shared_prefix prev t) prev = take (shared_prefix prev t) t \<and> shared_prefix prev t \<le> length prev \<and> shared_prefix prev t \<le> length t"
    unfolding shared_prefix_def
  proof (induction prev arbitrary: t)
    case (Cons x prev)
    then show ?case by (cases t) auto
  qed simp
  then show "take (shared_prefix prev t) prev @ drop (shared_prefix prev t) t = t" "shared_prefix prev t \<le> length prev"
    using append_take_drop_id [of "shared_prefix prev t" t] by auto
qed

lemma code_item_entry:
  assumes "item_ok (t, c, bs)" "length prev < 2 ^ 32"
  shows "dict_entries prev st [code_item n prev (t, c, bs)] = [(t, of_nat c, st, length bs)]" "lens [code_item n prev (t, c, bs)] = length bs"
    "raw_prefix (code_item n prev (t, c, bs)) \<le> length prev" "n mod BLOCK = 0 \<Longrightarrow> raw_prefix (code_item n prev (t, c, bs)) = 0"
    "raw_small (code_item n prev (t, c, bs))"
    "reads_as raw_entry (raw_bytes (code_item n prev (t, c, bs))) (code_item n prev (t, c, bs)) 0"
proof -
  define p where "p = (if n mod BLOCK = 0 then 0 else shared_prefix prev t)"
  have e: "code_item n prev (t, c, bs) = (of_nat p, drop p t, of_nat c, of_nat (length bs))" by (simp add: code_item_def p_def Let_def)
  have p: "take p prev @ drop p t = t" "p \<le> length prev" using shared_prefix_take [of prev t] by (auto simp: p_def)
  have u: "unat (of_nat p :: u64) = p" using p(2) assms(2) by (intro unat_of_usize) simp
  have uc: "unat (of_nat c :: u64) = c" "unat (of_nat (length bs) :: u64) = length bs"
    using assms(1) by (auto simp: item_ok_def intro: unat_of_usize)
  have nc: "(ucast (of_nat c :: u64) :: u32) = of_nat c" using assms(1) by (simp add: word_eq_iff_unsigned [where 'a = nat] unsigned_ucast_eq uc unsigned_of_nat)
  show "dict_entries prev st [code_item n prev (t, c, bs)] = [(t, of_nat c, st, length bs)]" using p u uc nc by (simp add: e Let_def)
  show "lens [code_item n prev (t, c, bs)] = length bs" using uc by (simp add: e)
  show "raw_prefix (code_item n prev (t, c, bs)) \<le> length prev" "n mod BLOCK = 0 \<Longrightarrow> raw_prefix (code_item n prev (t, c, bs)) = 0"
    using u p(2) by (auto simp: e raw_prefix_def p_def)
  show "raw_small (code_item n prev (t, c, bs))" using assms(1) uc by (simp add: e raw_small_def item_ok_def)
  show "reads_as raw_entry (raw_bytes (code_item n prev (t, c, bs))) (code_item n prev (t, c, bs)) 0"
    unfolding e by (rule reads_as_raw) (use assms(1) in \<open>auto simp: item_ok_def\<close>)
qed

lemma u32_at_append: "p + 4 \<le> length xs \<Longrightarrow> u32_at (xs @ ys) p = u32_at xs p"
  by (simp add: u32_at_Some sub_slice_def)

lemma u32_at_written: "u32_at (xs @ u32_le_bytes w @ ys) (length xs) = Some w"
  by (simp add: u32_at_def byte_range_def sub_slice_def)

lemma block_entry_written:
  assumes "length blocks = b * 8" "p < 2 ^ 32" "st < 2 ^ 32"
  shows "block_entry (blocks @ u32_le_bytes (of_nat p) @ u32_le_bytes (of_nat st) @ rest) b p st"
  using u32_at_written [of blocks "of_nat p" "u32_le_bytes (of_nat st) @ rest"]
    u32_at_written [of "blocks @ u32_le_bytes (of_nat p)" "of_nat st" rest] assms
  by (simp add: block_entry_def unat_of_nat32)

lemma blocks_next: "(n + 1 + (BLOCK - 1)) div BLOCK = (if n mod BLOCK = 0 then (n + (BLOCK - 1)) div BLOCK + 1 else (n + (BLOCK - 1)) div BLOCK)"
proof -
  define q r where "q = n div BLOCK" and "r = n mod BLOCK"
  have n: "n = q * BLOCK + r" "r < BLOCK" by (simp_all add: q_def r_def)
  have "(n + 1 + (BLOCK - 1)) div BLOCK = q + 1" by (rule div_nat_eqI) (use n in \<open>simp_all add: BLOCK_def\<close>)
  moreover have "(n + (BLOCK - 1)) div BLOCK = (if r = 0 then q else q + 1)" by (rule div_nat_eqI) (use n in \<open>auto simp: BLOCK_def\<close>)
  ultimately show ?thesis by (simp add: r_def)
qed

lemma blocks_start: "n mod BLOCK = 0 \<Longrightarrow> (n + (BLOCK - 1)) div BLOCK = n div BLOCK"
  by (rule div_nat_eqI) (auto simp: BLOCK_def)

lemma code_items_length [simp]: "length (code_items n prev xs) = length xs"
  by (induction xs arbitrary: n prev) auto

lemma dict_entries_code:
  assumes "list_all item_ok xs" "length prev < 2 ^ 32"
  shows "dict_entries prev st (code_items n prev xs) = placed_items st xs"
  using assms
proof (induction xs arbitrary: n prev st)
  case (Cons x xs)
  obtain t c bs where x: "x = (t, c, bs)" by (metis prod.exhaust)
  have t: "item_ok (t, c, bs)" "length t < 2 ^ 32" using Cons.prems(1) by (auto simp: x item_ok_def)
  note e = code_item_entry [OF t(1) Cons.prems(2), where n = n]
  have "dict_entries prev st ([code_item n prev x] @ code_items (n + 1) t xs) = placed_items st (x # xs)"
    unfolding dict_entries_append unfolding x e using Cons.IH [of t "st + length bs" "n + 1"] Cons.prems(1) t(2) x by simp
  then show ?case by (simp add: x)
qed simp

lemma write_items_ok:
  assumes "write_items n prev xs (dict, blocks, postings) = Inr (dict', blocks', postings')" "list_all item_ok xs" "length prev < 2 ^ 32"
    "length blocks = (n + (BLOCK - 1)) div BLOCK * 8" "ssorted ((if n = 0 then [] else [prev]) @ map fst xs)" "length postings' \<le> plen"
  shows "dict' = dict @ concat (map raw_bytes (code_items n prev xs)) \<and> postings' = postings @ item_bytes xs \<and> (\<exists>rest. blocks' = blocks @ rest) \<and>
    length blocks' = (n + length xs + (BLOCK - 1)) div BLOCK * 8 \<and>
    entries_pass blocks' plen dict' n prev (length postings) (length dict) (code_items n prev xs) (length dict')"
  using assms
proof (induction xs arbitrary: n prev dict blocks postings)
  case (Cons x xs)
  obtain t c bs where x: "x = (t, c, bs)" by (metis prod.exhaust)
  let ?e = "code_item n prev x"
  let ?b = "if n mod BLOCK = 0 then blocks @ u32_le_bytes (of_nat (length dict)) @ u32_le_bytes (of_nat (length postings)) else blocks"
  have w: "n mod BLOCK = 0 \<longrightarrow> length dict < 2 ^ 32 \<and> length postings < 2 ^ 32"
      "write_items (n + 1) t xs (dict @ raw_bytes ?e, ?b, postings @ bs) = Inr (dict', blocks', postings')"
    using Cons.prems(1) by (auto simp: stop_bind_Inr write_item_def x split: if_splits)
  have t: "item_ok (t, c, bs)" "length t < 2 ^ 32" "list_all item_ok xs" using Cons.prems(2) by (auto simp: x item_ok_def)
  have lb: "length ?b = (n + 1 + (BLOCK - 1)) div BLOCK * 8" using Cons.prems(4) unfolding blocks_next by simp
  have srt: "ssorted ((if n + 1 = 0 then [] else [t]) @ map fst xs)" using Cons.prems(5) by (cases "n = 0") (auto simp: x)
  have ih: "dict' = (dict @ raw_bytes ?e) @ concat (map raw_bytes (code_items (n + 1) t xs))" "postings' = (postings @ bs) @ item_bytes xs"
      "\<exists>rest. blocks' = ?b @ rest" "length blocks' = (n + 1 + length xs + (BLOCK - 1)) div BLOCK * 8"
      "entries_pass blocks' plen dict' (n + 1) t (length (postings @ bs)) (length (dict @ raw_bytes ?e)) (code_items (n + 1) t xs) (length dict')"
    using Cons.IH [OF w(2) t(3,2) lb srt Cons.prems(6)] by blast+
  obtain rest where rest: "blocks' = ?b @ rest" using ih(3) by blast
  note e = code_item_entry [OF t(1) Cons.prems(3), where n = n, folded x]
  have fits: "entry_fits plen (t, of_nat c, length postings, length bs)"
  proof -
    have "unat (of_nat c :: u32) = c" "0 < c" using t(1) by (auto simp: item_ok_def intro: unat_of_nat32)
    then show ?thesis using t(1) Cons.prems(6) ih(2) by (simp add: entry_fits_def item_ok_def word_less_nat_alt)
  qed
  have blk: "block_entry blocks' (n div BLOCK) (length dict) (length postings)" if "n mod BLOCK = 0"
    using block_entry_written [of blocks "n div BLOCK" "length dict" "length postings" rest] w(1) that Cons.prems(4) blocks_start [OF that] rest by simp
  have rd: "raw_entry \<lparr>data = dict', at_pos = length dict\<rparr> = Inr (?e, \<lparr>data = dict', at_pos = length (dict @ raw_bytes ?e)\<rparr>)"
    using e(6) ih(1) unfolding reads_as_def by simp
  have lt: "n = 0 \<or> prev < t" using Cons.prems(5) by (cases "n = 0") (auto simp: x)
  have pass: "entries_pass blocks' plen dict' n prev (length postings) (length dict) (?e # code_items (n + 1) t xs) (length dict')"
    unfolding entries_pass.simps e(1,2) list.sel fst_conv
    using e(3-5) fits blk rd ih(5) lt by (intro conjI impI exI [of _ "length (dict @ raw_bytes ?e)"]) simp_all
  have "dict' = dict @ concat (map raw_bytes (code_items n prev (x # xs)))" using ih(1) by (simp add: x)
  moreover have "postings' = postings @ item_bytes (x # xs)" using ih(2) by (simp add: x item_bytes_def)
  moreover have "\<exists>rest. blocks' = blocks @ rest" using rest by (cases "n mod BLOCK = 0") auto
  moreover have "code_items n prev (x # xs) = ?e # code_items (n + 1) t xs" by (simp add: x)
  ultimately show ?case using ih(4) pass by simp
qed (simp add: item_bytes_def)


text \<open>The lists of one form, without the empty ones.\<close>

definition live_items :: "rstr list \<Rightarrow> PostingList list \<Rightarrow> (nat \<Rightarrow> u8 list) \<Rightarrow> nat list \<Rightarrow> item list" where
  "live_items words ls packed is = map (\<lambda>i. (words ! i, pl_len (ls ! i), packed i)) (filter (\<lambda>i. \<not> pl_is_empty (ls ! i)) is)"

lemma live_items_simps [simp]:
  "live_items words ls packed [] = []"
  "live_items words ls packed (i # is) = (if pl_is_empty (ls ! i) then live_items words ls packed is
     else (words ! i, pl_len (ls ! i), packed i) # live_items words ls packed is)"
  by (simp_all add: live_items_def)

lemma previous_term_Suc:
  "previous_term terms offs ls (Suc i) = (if pl_is_empty (ls ! i) then previous_term terms offs ls i else sorted_term terms offs i)"
  by (simp add: previous_term_def)

lemma encode_term_item:
  assumes "\<not> pl_is_empty (ls ! i)" "sorted_term terms offs i = Some t" "n mod BLOCK \<noteq> 0 \<longrightarrow> previous_term terms offs ls i = Some prev"
    "pack_list k (ls ! i) postings = Some (postings @ bs)"
  shows "encode_term k terms offs ls i (dict, blocks, n, postings) =
    map_sum id (\<lambda>(dict, blocks, postings). (dict, blocks, n + 1, postings)) (write_item n prev (t, pl_len (ls ! i), bs) (dict, blocks, postings))"
proof (cases "n mod BLOCK = 0")
  case True
  then show ?thesis using assms
    by (simp add: encode_term_def stop_bind_def unless_panic_def fits_u32_def write_item_def raw_bytes_def code_item_def)
next
  case False
  then show ?thesis using assms
    by (simp add: encode_term_def stop_bind_def unless_panic_def write_item_def raw_bytes_def code_item_def Let_def)
qed

lemma encode_terms_items:
  assumes "\<And>j. j < N \<Longrightarrow> sorted_term terms offs j = Some (words ! j)" "\<And>j out. j < N \<Longrightarrow> pack_list k (ls ! j) out = Some (out @ packed j)"
    "n \<noteq> 0 \<longrightarrow> previous_term terms offs ls i = Some prev" "i \<le> N"
  shows "encode_terms k terms offs ls [i..<N] (dict, blocks, n, postings) =
    map_sum id (\<lambda>(dict, blocks, postings). (dict, blocks, n + length (live_items words ls packed [i..<N]), postings))
      (write_items n prev (live_items words ls packed [i..<N]) (dict, blocks, postings))"
  using assms(3,4)
proof (induction "N - i" arbitrary: i n prev dict blocks postings)
  case (Suc m)
  then have i: "i < N" "[i..<N] = i # [Suc i..<N]" by (simp_all add: upt_conv_Cons)
  have m: "m = N - Suc i" using Suc.hyps(2) by simp
  show ?case
  proof (cases "pl_is_empty (ls ! i)")
    case True
    then have "encode_terms k terms offs ls [i..<N] (dict, blocks, n, postings) = encode_terms k terms offs ls [Suc i..<N] (dict, blocks, n, postings)"
      by (simp add: i(2) encode_term_def stop_bind_def)
    moreover have "n \<noteq> 0 \<longrightarrow> previous_term terms offs ls (Suc i) = Some prev" using Suc.prems(1) True by (simp add: previous_term_Suc)
    ultimately show ?thesis using Suc.hyps(1) [OF m, of n prev dict blocks postings] i True by simp
  next
    case False
    let ?x = "(words ! i, pl_len (ls ! i), packed i)"
    have step: "encode_term k terms offs ls i (dict, blocks, n, postings) =
        map_sum id (\<lambda>(dict, blocks, postings). (dict, blocks, n + 1, postings)) (write_item n prev ?x (dict, blocks, postings))"
      by (rule encode_term_item [OF False assms(1) [OF i(1)] _ assms(2) [OF i(1)]]) (use Suc.prems(1) in \<open>cases "n = 0", auto\<close>)
    have prev: "n + 1 \<noteq> 0 \<longrightarrow> previous_term terms offs ls (Suc i) = Some (words ! i)"
      using False assms(1) [OF i(1)] by (simp add: previous_term_Suc)
    show ?thesis
    proof (cases "write_item n prev ?x (dict, blocks, postings)")
      case (Inl e)
      then show ?thesis using step False i(2) by (simp add: stop_bind_def)
    next
      case (Inr s)
      obtain d b p where s: "s = (d, b, p)" by (metis prod.exhaust)
      have "encode_terms k terms offs ls [Suc i..<N] (d, b, n + 1, p) =
          map_sum id (\<lambda>(dict, blocks, postings). (dict, blocks, n + 1 + length (live_items words ls packed [Suc i..<N]), postings))
            (write_items (n + 1) (words ! i) (live_items words ls packed [Suc i..<N]) (d, b, p))"
        by (rule Suc.hyps(1) [OF m prev]) (use i in simp)
      then show ?thesis using step Inr False i(2) s by (simp add: stop_bind_def)
    qed
  qed
qed simp

lemma sorted_term_word:
  assumes "length (concat words) < 2 ^ 32" "i < length words"
  shows "sorted_term (concat words) (map (\<lambda>i. of_nat (word_start words i)) [0..<Suc (length words)]) i = Some (words ! i)"
proof -
  have ws: "unat (of_nat (word_start words j) :: u32) = word_start words j" for j
    using word_start_le [of words j] assms(1) by (intro unat_of_nat32) simp
  have le: "word_start words (Suc i) \<le> length (concat words)" by (rule word_start_le)
  have "sorted_term (concat words) (map (\<lambda>i. of_nat (word_start words i)) [0..<Suc (length words)]) i
      = byte_range (concat words) (word_start words i) (word_start words (Suc i))"
    using assms(2) by (simp add: sorted_term_def slice_get_def ws del: upt_Suc)
  then show ?thesis using assms(2) word_slice [OF assms(2)] le by (simp add: byte_range_def word_start_Suc)
qed


section \<open>A form of the live store\<close>

text \<open>The postings of a term in slot order.\<close>

definition listing :: "posting_map \<Rightarrow> Posting list" where
  "listing M = map (\<lambda>s. (s, fst (the (M s)))) (sorted_list_of_set (dom M))"

lemma list_ok_listing:
  assumes "list_ok w l parts" "set (entries parts) = map_entries M"
  shows "map fst (entries parts) = listing M"
proof -
  note run = list_ok_run [OF assms(1)]
  have srt: "ssorted (map entry_slot (entries parts))" using run by (simp add: run_ok_def)
  have "set (map entry_slot (entries parts)) = dom M" using assms(2) map_entries_dom by (simp only: set_map)
  then have slots: "map entry_slot (entries parts) = sorted_list_of_set (dom M)"
    using srt ssorted_unique [OF srt] by (metis List.finite_set strict_sorted_list_of_set sorted_list_of_set.set_sorted_key_list_of_set)
  have "fst e = (entry_slot e, fst (the (M (entry_slot e))))" if e: "e \<in> set (entries parts)" for e
  proof -
    obtain s f m where x: "e = ((s, f), m)" by (metis prod.exhaust)
    then have "M s = Some (f, m)" using e assms(2) map_entries_mem by blast
    then show ?thesis by (simp add: x)
  qed
  then have "map fst (entries parts) = map (\<lambda>e. (entry_slot e, fst (the (M (entry_slot e))))) (entries parts)" by simp
  then show ?thesis unfolding listing_def slots [symmetric] by (simp add: comp_def)
qed

lemma holds_map_packed:
  assumes "holds_map w l M"
  shows "pack_list k l out = Some (out @ pack_checkpoint (listing M))" "pl_len l = length (listing M)" "length (listing M) < 2 ^ 32"
    "pl_is_empty l \<longleftrightarrow> M = Map.empty" "ssorted (map fst (listing M))"
proof -
  obtain parts where p: "list_ok w l parts" "set (entries parts) = map_entries M" using holds_mapE [OF assms] by blast
  have b: "blocks_hold l parts" and c: "pl_count l = of_nat (length (entries parts))" "length (entries parts) < 2 ^ 32"
    using p(1) by (auto simp: list_ok_def)
  note ls = list_ok_listing [OF p]
  have len: "length (listing M) = length (entries parts)" using arg_cong [OF ls, of length] by simp
  show "pack_list k l out = Some (out @ pack_checkpoint (listing M))" using pack_list_ok [OF b] ls by simp
  show "pl_len l = length (listing M)" "length (listing M) < 2 ^ 32" using c len by (simp_all add: pl_len_def unat_of_nat32)
  have "pl_count l = 0 \<longleftrightarrow> entries parts = []"
  proof
    assume "pl_count l = 0"
    then have "unat (of_nat (length (entries parts)) :: u32) = 0" unfolding c(1) by simp
    then show "entries parts = []" unfolding unat_of_nat32 [OF c(2)] by simp
  qed (simp add: c(1))
  moreover have "entries parts = [] \<longleftrightarrow> map_entries M = {}" unfolding p(2) [symmetric] by simp
  ultimately show "pl_is_empty l \<longleftrightarrow> M = Map.empty" unfolding map_entries_empty pl_is_empty_def by (rule trans)
  have "map fst (listing M) = map entry_slot (entries parts)" unfolding ls [symmetric] by simp
  then show "ssorted (map fst (listing M))" using list_ok_run [OF p(1)] by (simp add: run_ok_def)
qed

lemma pack_gaps_length: "length ps \<le> length (pack_gaps prev ps)"
proof (induction prev ps rule: pack_gaps.induct)
  case (2 prev slot f ps)
  define gap where "gap = (case prev of None \<Rightarrow> slot | Some p \<Rightarrow> slot - p)"
  have "1 \<le> length (put_varint (push_bit 1 (of_nat gap) OR (if f \<noteq> 1 then 1 else 0)))" by (rule put_varint_length)
  then show ?case using 2 [of gap] unfolding pack_gaps.simps gap_def [symmetric] Let_def length_append list.size by linarith
qed simp

text \<open>The dictionary merged into one sorted run.\<close>

lemma merged_terms:
  assumes "represents d m" "td_size d < 2 ^ 32"
  obtains es where "merged_base d (overlay d) = Some (base_of (map fst es) (map snd es))" "ssorted (map fst es)" "m = map_of es"
    "length (concat (map fst es)) < 2 ^ 32"
proof -
  obtain words where w: "dict_ok d words" "m = map_of (overlay d @ live d words)" using assms(1) by (auto simp: represents_def)
  have b: "base_ok d words" "ssorted (map fst (overlay d))" using w(1) by (auto simp: dict_ok_def)
  note sl = live_ssorted [OF b(1)]
  let ?es = "merge_extra (live d words) (overlay d)"
  have dj: "fst ` set (live d words) \<inter> fst ` set (overlay d) = {}" using overlay_live_disjoint [OF w(1)] by auto
  have se: "ssorted (map fst ?es)" by (rule merge_extra_ssorted [OF sl b(2) dj])
  have ws: "length words = length (base_ids d)" "td_bytes d = concat words" using b(1) by (auto simp: base_ok_def)
  have "sum_list (map (length \<circ> fst) (live d words)) \<le> sum_list (map (length \<circ> fst) (zip words (base_ids d)))"
    unfolding live_def by (rule sum_list_filter_le_nat)
  moreover have "map (length \<circ> fst) (zip words (base_ids d)) = map length words" using ws(1) by (metis map_map map_fst_zip)
  ultimately have len: "length (concat (map fst ?es)) < 2 ^ 32"
    using assms(2) merge_extra_sum [of "length \<circ> fst" "live d words" "overlay d"] ws(2) by (simp add: length_concat td_size_def)
  have "merged_base d (overlay d) = Some (base_of (map fst ?es) (map snd ?es))"
    using push_all_base [of "[]" ?es "[]"] base_merge_as_push [OF b(1), of "overlay d" 0 0] len
    by (simp add: merged_base_def base_of_def live_def word_start_def)
  moreover have "m = map_of ?es"
    unfolding w(2) using ssorted_distinct [OF se] overlay_live_distinct [OF w(1)]
    by (subst map_of_inject_set) (auto simp: merge_extra_set)
  ultimately show ?thesis using that se len by blast
qed


lemma sorted_terms_ok:
  assumes "lists_hold W pls I" "td_size (pls_dictionary pls) < 2 ^ 32"
  obtains words ls where "sorted_terms pls = Some (concat words, map (\<lambda>i. of_nat (word_start words i)) [0..<Suc (length words)], ls)"
    "length ls = length words" "ssorted words" "length (concat words) < 2 ^ 32" "set words = {t. I t \<noteq> Map.empty}"
    "\<forall>i < length words. holds_map (W (words ! i)) (ls ! i) (I (words ! i))"
proof -
  obtain m where m: "represents (pls_dictionary pls) m" "store_ok W m (pls_lists pls) (pls_free pls) I" by (rule lists_holdE [OF assms(1)])
  obtain es where es: "merged_base (pls_dictionary pls) (overlay (pls_dictionary pls)) = Some (base_of (map fst es) (map snd es))"
      "ssorted (map fst es)" "m = map_of es" "length (concat (map fst es)) < 2 ^ 32"
    by (rule merged_terms [OF m(1) assms(2)])
  have get: "m (fst (es ! i)) = Some (snd (es ! i))" if "i < length es" for i
    unfolding es(3) using ssorted_distinct [OF es(2)] that by (metis map_of_eq_Some_iff nth_mem prod.collapse)
  let ?ls = "map (\<lambda>i. pls_lists pls ! unat i) (map snd es)"
  have "slice_get (pls_lists pls) (unat (snd e)) = Some (pls_lists pls ! unat (snd e))" if "e \<in> set es" for e
    using store_okD(2) [OF m(2), of "fst e" "snd e"] get that by (metis in_set_conv_nth slice_get_def)
  then have "map (\<lambda>i. slice_get (pls_lists pls) (unat i)) (map snd es) = map (\<lambda>i. Some (pls_lists pls ! unat i)) (map snd es)" by simp
  then have "those (map (\<lambda>i. slice_get (pls_lists pls) (unat i)) (map snd es)) = Some ?ls" by (simp only: those_some)
  then have st: "sorted_terms pls = Some (concat (map fst es), map (\<lambda>i. of_nat (word_start (map fst es) i)) [0..<Suc (length (map fst es))], ?ls)"
    using es(1) by (simp add: sorted_terms_def base_of_def)
  have "I t \<noteq> Map.empty \<longleftrightarrow> m t \<noteq> None" for t
    using m(2) store_okD(4) [OF m(2)] by (auto simp: store_ok_def)
  then have "{t. I t \<noteq> Map.empty} = dom m" by auto
  then have dom: "set (map fst es) = {t. I t \<noteq> Map.empty}" unfolding es(3) dom_map_of_conv_image_fst by simp
  have "holds_map (W (map fst es ! i)) (?ls ! i) (I (map fst es ! i))" if "i < length (map fst es)" for i
    using store_okD(3) [OF m(2) get] that by simp
  then show ?thesis using that [OF st _ es(2,4) dom] by simp
qed

text \<open>What a form writes, as a list of terms with their packed postings.\<close>

definition form_items :: "(rstr \<Rightarrow> posting_map) \<Rightarrow> rstr list \<Rightarrow> item list" where
  "form_items I words = map (\<lambda>t. (t, length (listing (I t)), pack_checkpoint (listing (I t)))) words"

lemma form_items_of:
  "map_of (form_items I words) t = (if t \<in> set words then Some (length (listing (I t)), pack_checkpoint (listing (I t))) else None)"
  by (induction words) (auto simp: form_items_def)

lemma write_items_postings: "write_items n prev xs (dict, blocks, postings) = Inr (dict', blocks', postings') \<Longrightarrow> postings' = postings @ item_bytes xs"
proof (induction xs arbitrary: n prev dict blocks postings)
  case (Cons x xs)
  then obtain d b where "write_items (n + 1) (fst x) xs (d, b, postings @ snd (snd x)) = Inr (dict', blocks', postings')"
    by (auto simp: stop_bind_Inr write_item_def split: if_splits)
  from Cons.IH [OF this] show ?case by (simp add: item_bytes_def split_def)
qed (simp add: item_bytes_def)

lemma encode_form_items:
  assumes "lists_hold W pls I" "td_size (pls_dictionary pls) < 2 ^ 32"
  obtains words where "ssorted words" "set words = {t. I t \<noteq> Map.empty}" "length (concat words) < 2 ^ 32"
    "\<And>t. t \<in> set words \<Longrightarrow> listing (I t) \<noteq> [] \<and> length (listing (I t)) < 2 ^ 32 \<and> ssorted (map fst (listing (I t)))"
    "\<And>postings. encode_form k pls postings = map_sum id (\<lambda>(dict, blocks, postings). (dict, blocks, length words, postings))
       (write_items 0 [] (form_items I words) ([], [], postings))"
proof -
  obtain words ls where w: "sorted_terms pls = Some (concat words, map (\<lambda>i. of_nat (word_start words i)) [0..<Suc (length words)], ls)"
      "length ls = length words" "ssorted words" "length (concat words) < 2 ^ 32" "set words = {t. I t \<noteq> Map.empty}"
      "\<forall>i < length words. holds_map (W (words ! i)) (ls ! i) (I (words ! i))"
    by (rule sorted_terms_ok [OF assms])
  note held = w(6) [rule_format]
  let ?packed = "\<lambda>i. pack_checkpoint (listing (I (words ! i)))"
  have ne: "\<not> pl_is_empty (ls ! i)" if "i < length words" for i
    using holds_map_packed(4) [OF held [OF that]] w(5) nth_mem [OF that] by auto
  have "live_items words ls ?packed [0..<length words] = map (\<lambda>i. (words ! i, pl_len (ls ! i), ?packed i)) [0..<length words]"
    unfolding live_items_def by (subst filter_True) (simp_all add: ne)
  also have "\<dots> = map (\<lambda>i. (\<lambda>t. (t, length (listing (I t)), pack_checkpoint (listing (I t)))) (words ! i)) [0..<length words]"
    by (rule map_cong [OF refl]) (simp add: holds_map_packed(2) [OF held])
  also have "\<dots> = form_items I words"
    unfolding form_items_def by (rule nth_equalityI) simp_all
  finally have items: "live_items words ls ?packed [0..<length words] = form_items I words" .
  have "encode_form k pls postings = map_sum id (\<lambda>(dict, blocks, postings). (dict, blocks, length words, postings))
       (write_items 0 [] (form_items I words) ([], [], postings))" for postings
    using encode_terms_items [where N = "length words" and words = words and packed = ?packed and n = 0 and prev = "[]" and i = 0,
        OF sorted_term_word [OF w(4)] holds_map_packed(1) [OF held]]
    by (simp add: encode_form_def w(1,2) stop_bind_def unless_panic_def items form_items_def del: upt_Suc)
  moreover have "listing (I t) \<noteq> [] \<and> length (listing (I t)) < 2 ^ 32 \<and> ssorted (map fst (listing (I t)))" if t: "t \<in> set words" for t
  proof -
    obtain i where i: "i < length words" "words ! i = t" using t by (auto simp: in_set_conv_nth)
    note h = holds_map_packed [OF held [OF i(1)]]
    have "pl_len (ls ! i) \<noteq> 0" using ne [OF i(1)] by (simp add: pl_len_def pl_is_empty_def unsigned_eq_0_iff)
    then show ?thesis using h i(2) by auto
  qed
  ultimately show ?thesis using that w(3-5) by blast
qed


lemma raws_at_same: "raws_at d p es q \<Longrightarrow> raws_at d p fs q' \<Longrightarrow> length es = length fs \<Longrightarrow> es = fs"
proof (induction es arbitrary: p fs)
  case (Cons e es)
  obtain f fs' where fs: "fs = f # fs'" using Cons.prems(3) by (cases fs) auto
  obtain a where a: "raw_entry \<lparr>data = d, at_pos = p\<rparr> = Inr (e, \<lparr>data = d, at_pos = a\<rparr>)" "raws_at d a es q" using Cons.prems(1) by auto
  obtain b where b: "raw_entry \<lparr>data = d, at_pos = p\<rparr> = Inr (f, \<lparr>data = d, at_pos = b\<rparr>)" "raws_at d b fs' q'" using Cons.prems(2) fs by auto
  have "e = f" "a = b" using a(1) b(1) by simp_all
  then show ?case using Cons.IH [of a fs'] a(2) b(2) Cons.prems(3) fs by simp
qed simp

lemma entries_pass_raws: "entries_pass blocks plen d i prev st p es q \<Longrightarrow> p \<le> length d \<Longrightarrow> raws_at d p es q"
proof (induction es arbitrary: i prev st p)
  case (Cons e es)
  obtain p' where p': "raw_entry \<lparr>data = d, at_pos = p\<rparr> = Inr (e, \<lparr>data = d, at_pos = p'\<rparr>)"
      "entries_pass blocks plen d (i + 1) (fst (hd (dict_entries prev st [e]))) (st + lens [e]) p' es q"
    using Cons.prems(1) by auto
  have "p \<le> p'" "p' \<le> length d" using safe_read.within [OF safe_raw_entry Cons.prems(2) p'(1)] by auto
  then show ?case using p'(1) Cons.IH [OF p'(2)] by auto
qed simp

lemma item_length: "x \<in> set xs \<Longrightarrow> length (snd (snd x)) \<le> length (item_bytes xs)"
proof (induction xs)
  case (Cons y xs)
  then show ?case by (auto simp: item_bytes_def split_def)
qed simp

lemma word_length: "t \<in> set words \<Longrightarrow> length t \<le> length (concat words)"
  by (induction words) auto

lemma form_items_ok:
  assumes "length (concat words) < 2 ^ 32" "\<forall>t \<in> set words. utf8_valid t"
    "\<And>t. t \<in> set words \<Longrightarrow> listing (I t) \<noteq> [] \<and> length (listing (I t)) < 2 ^ 32 \<and> ssorted (map fst (listing (I t)))"
    "length (item_bytes (form_items I words)) < 2 ^ 32"
  shows "list_all item_ok (form_items I words)"
  unfolding list_all_iff
proof
  fix x assume x: "x \<in> set (form_items I words)"
  then obtain t where t: "t \<in> set words" "x = (t, length (listing (I t)), pack_checkpoint (listing (I t)))" by (auto simp: form_items_def)
  have "length (pack_checkpoint (listing (I t))) < 2 ^ 32" using item_length [OF x] assms(4) t(2) by simp
  then show "item_ok x"
    using assms(2) assms(3) [OF t(1)] word_length [OF t(1)] assms(1) pack_gaps_length [of "listing (I t)" None] t
    by (simp add: item_ok_def pack_checkpoint_def)
qed

text \<open>A form that is written passes the checks at open, and its entries are those written.\<close>

lemma form_written:
  assumes "lists_hold W pls I" "td_size (pls_dictionary pls) < 2 ^ 32" "encode_form k pls postings = Inr (dict, blocks, n, postings')"
    "length postings' < 2 ^ 32" "\<And>t. I t \<noteq> Map.empty \<Longrightarrow> utf8_valid t"
  obtains words where "ssorted words" "set words = {t. I t \<noteq> Map.empty}" "n = length words" "postings' = postings @ item_bytes (form_items I words)"
    "length blocks = (n + (BLOCK - 1)) div BLOCK * 8" "n < 2 ^ 32" "list_all item_ok (form_items I words)"
    "\<And>plen. length postings' \<le> plen \<Longrightarrow> plen < 2 ^ 64 \<Longrightarrow> check_entries blocks plen 0 n [] None (reader_new dict) = Inr ((), \<lparr>data = dict, at_pos = length dict\<rparr>)"
    "raws_at dict 0 (code_items 0 [] (form_items I words)) (length dict)" "n \<noteq> 0 \<Longrightarrow> block_entry blocks 0 0 (length postings)"
proof -
  obtain words where w: "ssorted words" "set words = {t. I t \<noteq> Map.empty}" "length (concat words) < 2 ^ 32"
    "\<And>t. t \<in> set words \<Longrightarrow> listing (I t) \<noteq> [] \<and> length (listing (I t)) < 2 ^ 32 \<and> ssorted (map fst (listing (I t)))"
    "\<And>postings. encode_form k pls postings = map_sum id (\<lambda>(dict, blocks, postings). (dict, blocks, length words, postings))
       (write_items 0 [] (form_items I words) ([], [], postings))"
    by (rule encode_form_items [OF assms(1,2), where k = k]) (rule that)
  have wi: "write_items 0 [] (form_items I words) ([], [], postings) = Inr (dict, blocks, postings')" and n: "n = length words"
    using assms(3) unfolding w(5) by (cases "write_items 0 [] (form_items I words) ([], [], postings)"; auto)+
  note wp = write_items_postings [OF wi]
  have ok: "list_all item_ok (form_items I words)"
    by (rule form_items_ok [OF w(3) _ w(4)]) (use assms(4,5) wp w(2) in auto)
  have srt: "ssorted ((if (0::nat) = 0 then [] else [[]]) @ map fst (form_items I words))" using w(1) by (simp add: form_items_def comp_def)
  have len: "length (form_items I words) = n" by (simp add: n form_items_def)
  have wk: "postings' = postings @ item_bytes (form_items I words)" "length blocks = (0 + n + (BLOCK - 1)) div BLOCK * 8"
    "entries_pass blocks plen dict 0 [] (length postings) (length []) (code_items 0 [] (form_items I words)) (length dict)" if "length postings' \<le> plen" for plen
    using write_items_ok [OF wi ok _ _ srt that] len by (auto simp: BLOCK_def)
  have ce: "check_entries blocks plen 0 n [] None (reader_new dict) = Inr ((), \<lparr>data = dict, at_pos = length dict\<rparr>)"
    if "length postings' \<le> plen" "plen < 2 ^ 64" for plen
    using check_entries_pass [OF wk(3) [OF that(1)] that(2), of None] len by (simp add: reader_new_def)
  have raws: "raws_at dict 0 (code_items 0 [] (form_items I words)) (length dict)"
    using entries_pass_raws [OF wk(3) [OF order_refl]] by simp
  have "block_entry blocks 0 0 (length postings)" if nz: "n \<noteq> 0"
  proof -
    obtain x xs where "form_items I words = x # xs" using nz len by (cases "form_items I words") auto
    then show ?thesis using wk(3) [OF order_refl] by simp
  qed
  moreover have "n < 2 ^ 32"
  proof -
    have "length xs \<le> length (item_bytes xs)" if "list_all item_ok xs" for xs using that by (induction xs) (auto simp: item_bytes_def item_ok_def)
    from this [OF ok] show ?thesis using len wp assms(4) by simp
  qed
  ultimately show ?thesis using that [OF w(1,2) n wp _ _ ok ce raws] wk(2) [OF order_refl] by simp
qed


lemma served_items:
  assumes "P = before @ item_bytes xs @ after"
  shows "served P (placed_items (length before) xs) t = map_option (\<lambda>(c, bs). \<lparr>post_bytes = bs, post_count = of_nat c\<rparr>) (map_of xs t)"
  using assms
proof (induction xs arbitrary: before)
  case (Cons x xs)
  obtain u c bs where x: "x = (u, c, bs)" by (metis prod.exhaust)
  have P: "P = (before @ bs) @ item_bytes xs @ after" using Cons.prems by (simp add: x item_bytes_def)
  have "sub_slice P (length before) (length bs) = bs" unfolding P by (simp add: sub_slice_def)
  then show ?case using Cons.IH [OF P] by (auto simp: x served_def)
qed (simp add: served_def)

lemma written_entries:
  assumes "dictionary_ok img dc es st" "byte_range (img_bytes img) (fst (dict_span dc)) (fst (dict_span dc) + snd (dict_span dc)) = Some dict"
    "byte_range (img_bytes img) (fst (block_span dc)) (fst (block_span dc) + snd (block_span dc)) = Some blocks"
    "dict_terms dc = length xs" "raws_at dict 0 (code_items 0 [] xs) q" "length xs \<noteq> 0 \<Longrightarrow> block_entry blocks 0 0 st'" "list_all item_ok xs"
  shows "dict_entries [] st es = placed_items st' xs"
proof -
  obtain postings :: "u8 list" where o: "dict_terms dc = length es" "opened_dict dict blocks (length postings) es st"
    using assms(1-3) by (auto simp: dictionary_ok_def)
  obtain q' where "raws_at dict 0 es q'" using o(2) by (auto simp: opened_dict_def)
  then have es: "es = code_items 0 [] xs" using raws_at_same [OF _ assms(5)] o(1) assms(4) by simp
  show ?thesis
  proof (cases "xs = []")
    case True
    then show ?thesis by (simp add: es)
  next
    case False
    then have "0 * BLOCK < length es" by (simp add: es)
    then have "\<exists>m. raws_at dict 0 (take (0 * BLOCK) es) m \<and> block_entry blocks 0 m (st + lens (take (0 * BLOCK) es))"
      using o(2) unfolding opened_dict_def by blast
    then have "block_entry blocks 0 0 st" by simp
    then have "st = st'" using assms(6) False by (auto simp: block_entry_def)
    then show ?thesis using dict_entries_code [OF assms(7), of "[]" st 0] by (simp add: es)
  qed
qed

section \<open>The header and the sections\<close>

lemma place_sections_length [simp]: "length (place_sections i p ss words) = length words"
  by (induction ss arbitrary: i p words) simp_all

lemma place_sections_other: "k < H_SECTIONS + 2 * i \<or> H_SECTIONS + 2 * (i + length ss) \<le> k \<Longrightarrow> place_sections i p ss words ! k = words ! k"
proof (induction ss arbitrary: i p words)
  case (Cons s ss)
  have "place_sections (i + 1) (p + of_nat (length s)) ss (words[H_SECTIONS + 2 * i := p, H_SECTIONS + 2 * i + 1 := of_nat (length s)]) ! k
      = words[H_SECTIONS + 2 * i := p, H_SECTIONS + 2 * i + 1 := of_nat (length s)] ! k"
    by (rule Cons.IH) (use Cons.prems in auto)
  then show ?case using Cons.prems by auto
qed simp

lemma place_sections_at:
  assumes "H_SECTIONS + 2 * (i + length ss) \<le> length words" "j < length ss"
  shows "place_sections i p ss words ! (H_SECTIONS + 2 * (i + j)) = p + of_nat (length (concat (take j ss)))"
    "place_sections i p ss words ! (H_SECTIONS + 2 * (i + j) + 1) = of_nat (length (ss ! j))"
proof -
  have "place_sections i p ss words ! (H_SECTIONS + 2 * (i + j)) = p + of_nat (length (concat (take j ss))) \<and>
      place_sections i p ss words ! (H_SECTIONS + 2 * (i + j) + 1) = of_nat (length (ss ! j))"
    using assms
  proof (induction ss arbitrary: i p words j)
    case (Cons s ss)
    let ?w = "words[H_SECTIONS + 2 * i := p, H_SECTIONS + 2 * i + 1 := of_nat (length s)]"
    show ?case
    proof (cases j)
      case 0
      then show ?thesis using Cons.prems(1) place_sections_other [of "H_SECTIONS + 2 * i" "i + 1" ss "p + of_nat (length s)" ?w]
          place_sections_other [of "H_SECTIONS + 2 * i + 1" "i + 1" ss "p + of_nat (length s)" ?w] by simp
    next
      case (Suc m)
      have "place_sections (i + 1) (p + of_nat (length s)) ss ?w ! (H_SECTIONS + 2 * (i + 1 + m)) = p + of_nat (length s) + of_nat (length (concat (take m ss))) \<and>
          place_sections (i + 1) (p + of_nat (length s)) ss ?w ! (H_SECTIONS + 2 * (i + 1 + m) + 1) = of_nat (length (ss ! m))"
        by (rule Cons.IH) (use Cons.prems Suc in auto)
      then show ?thesis by (simp add: Suc add.assoc)
    qed
  qed simp
  then show "place_sections i p ss words ! (H_SECTIONS + 2 * (i + j)) = p + of_nat (length (concat (take j ss)))"
    "place_sections i p ss words ! (H_SECTIONS + 2 * (i + j) + 1) = of_nat (length (ss ! j))" by simp_all
qed

lemma concat_words_length: "length (concat (map u64_le_bytes ws)) = 8 * length ws"
  by (induction ws) simp_all

lemma concat_words_at: "k < length ws \<Longrightarrow> sub_slice (concat (map u64_le_bytes ws) @ rest) (8 * k) 8 = u64_le_bytes (ws ! k)"
proof (induction ws arbitrary: k)
  case (Cons w ws)
  show ?case
  proof (cases k)
    case 0
    then show ?thesis by (simp add: sub_slice_def)
  next
    case (Suc j)
    then show ?thesis using Cons.IH [of j] Cons.prems by (simp add: sub_slice_def)
  qed
qed simp


definition section_start :: "u8 list list \<Rightarrow> nat \<Rightarrow> nat" where
  "section_start ss j = IMAGE_HEADER_LEN + length (concat (take j ss))"

lemma assemble_layout:
  assumes "length words = HEADER_WORDS"
  obtains c where "assemble crc32 words ss = MAGIC @ concat (map u64_le_bytes ((place_sections 0 (of_nat IMAGE_HEADER_LEN) ss words)[0 := c])) @ concat ss"
proof -
  let ?W = "place_sections 0 (of_nat IMAGE_HEADER_LEN) ss words"
  let ?out = "MAGIC @ concat (map u64_le_bytes ?W) @ concat ss"
  let ?c = "ucast (crc32 (drop 16 ?out)) :: u64"
  have W: "?W = hd ?W # tl ?W" using assms by (metis HEADER_WORDS_def hd_Cons_tl length_greater_0_conv place_sections_length zero_less_numeral)
  have m: "length MAGIC = 8" by (simp add: MAGIC_def)
  have out: "?out = MAGIC @ u64_le_bytes (hd ?W) @ concat (map u64_le_bytes (tl ?W)) @ concat ss" by (subst W) simp
  have "assemble crc32 words ss = MAGIC @ u64_le_bytes ?c @ concat (map u64_le_bytes (tl ?W)) @ concat ss"
    unfolding assemble_def Let_def by (subst out) (simp add: overwrite_def m)
  moreover have "?W[0 := ?c] = ?c # tl ?W" by (subst W) simp
  ultimately show ?thesis using that [of ?c] by simp
qed

lemma assemble_facts:
  assumes "length words = HEADER_WORDS"
  shows "length (assemble crc32 words ss) = IMAGE_HEADER_LEN + length (concat ss)" "take 8 (assemble crc32 words ss) = MAGIC"
    "0 < k \<Longrightarrow> k < HEADER_WORDS \<Longrightarrow> header_word (assemble crc32 words ss) k = Some (place_sections 0 (of_nat IMAGE_HEADER_LEN) ss words ! k)"
    "j < length ss \<Longrightarrow> sub_slice (assemble crc32 words ss) (section_start ss j) (length (ss ! j)) = ss ! j"
proof -
  obtain c where c: "assemble crc32 words ss = MAGIC @ concat (map u64_le_bytes ((place_sections 0 (of_nat IMAGE_HEADER_LEN) ss words)[0 := c])) @ concat ss"
    by (rule assemble_layout [OF assms])
  let ?W = "(place_sections 0 (of_nat IMAGE_HEADER_LEN) ss words)[0 := c]"
  have m: "length MAGIC = 8" by (simp add: MAGIC_def)
  have l: "length ?W = HEADER_WORDS" using assms by simp
  show len: "length (assemble crc32 words ss) = IMAGE_HEADER_LEN + length (concat ss)"
    unfolding c length_append concat_words_length l m by (simp add: IMAGE_HEADER_LEN_def)
  show "take 8 (assemble crc32 words ss) = MAGIC" unfolding c by (simp add: m)
  show "header_word (assemble crc32 words ss) k = Some (place_sections 0 (of_nat IMAGE_HEADER_LEN) ss words ! k)" if k: "0 < k" "k < HEADER_WORDS"
  proof -
    have "sub_slice (assemble crc32 words ss) (8 + 8 * k) 8 = u64_le_bytes (?W ! k)"
      using concat_words_at [of k ?W "concat ss"] k(2) l unfolding c by (simp add: sub_slice_def m)
    moreover have "8 + 8 * k + 8 \<le> length (assemble crc32 words ss)" using len k(2) by (simp add: IMAGE_HEADER_LEN_def)
    ultimately show ?thesis using k(1) by (simp add: header_word_def byte_range_def Let_def)
  qed
  show "sub_slice (assemble crc32 words ss) (section_start ss j) (length (ss ! j)) = ss ! j" if j: "j < length ss"
  proof -
    have cs: "concat ss = concat (take j ss) @ ss ! j @ concat (drop (Suc j) ss)"
      using j by (metis append.assoc concat.simps(2) concat_append id_take_nth_drop)
    let ?H = "(MAGIC @ concat (map u64_le_bytes ?W)) @ concat (take j ss)"
    have h: "length ?H = section_start ss j"
      unfolding length_append concat_words_length l m section_start_def by (simp add: IMAGE_HEADER_LEN_def)
    have "assemble crc32 words ss = ?H @ ss ! j @ concat (drop (Suc j) ss)" unfolding c cs by simp
    then show ?thesis unfolding h [symmetric] sub_slice_def by simp
  qed
qed

lemma section_start_Suc: "j < length ss \<Longrightarrow> section_start ss (Suc j) = section_start ss j + length (ss ! j)"
  by (simp add: section_start_def take_Suc_conv_app_nth)

lemma section_start_le: "section_start ss j \<le> IMAGE_HEADER_LEN + length (concat ss)"
proof -
  have "length (concat ss) = length (concat (take j ss)) + length (concat (drop j ss))" by (metis append_take_drop_id concat_append length_append)
  then show ?thesis by (simp add: section_start_def)
qed

lemma assemble_sections:
  assumes "length words = HEADER_WORDS" "length ss = SECTIONS" "length (assemble crc32 words ss) < 2 ^ 64" "j \<le> SECTIONS"
  shows "check_sections (assemble crc32 words ss) [j..<SECTIONS] (section_start ss j) =
    Inr (map (\<lambda>i. (section_start ss i, length (ss ! i))) [j..<SECTIONS], length (assemble crc32 words ss))"
  using assms(4)
proof (induction "SECTIONS - j" arbitrary: j)
  case 0
  then have "j = SECTIONS" by simp
  then show ?case using assemble_facts(1) [OF assms(1), where ss = ss] assms(2) by (simp add: section_start_def)
next
  case (Suc m)
  then have j: "j < SECTIONS" "[j..<SECTIONS] = j # [Suc j..<SECTIONS]" by (simp_all add: upt_conv_Cons)
  note af = assemble_facts [OF assms(1), where ss = ss]
  let ?b = "assemble crc32 words ss"
  have le: "section_start ss (Suc j) \<le> length ?b" "section_start ss j \<le> length ?b" using section_start_le [of ss] af(1) by simp_all
  have hw: "H_SECTIONS + 2 * j + 1 < HEADER_WORDS" "0 < H_SECTIONS" using j(1) by (simp_all add: H_SECTIONS_def HEADER_WORDS_def SECTIONS_def)
  have bnd: "H_SECTIONS + 2 * (0 + length ss) \<le> length words" using assms(1,2) by (simp add: H_SECTIONS_def HEADER_WORDS_def SECTIONS_def)
  have jl: "j < length ss" using j(1) assms(2) by simp
  have h1: "header_word ?b (H_SECTIONS + 2 * j) = Some (of_nat (section_start ss j))"
    using af(3) [of "H_SECTIONS + 2 * j"] hw place_sections_at(1) [OF bnd jl] by (simp add: section_start_def)
  have h2: "header_word ?b (H_SECTIONS + 2 * j + 1) = Some (of_nat (length (ss ! j)))"
    using af(3) [of "H_SECTIONS + 2 * j + 1"] hw place_sections_at(2) [OF bnd jl] by simp
  have u: "unat (of_nat (section_start ss j) :: u64) = section_start ss j" "unat (of_nat (length (ss ! j)) :: u64) = length (ss ! j)"
    using le section_start_Suc [OF jl] assms(3) by (auto intro!: unat_of_usize)
  have ih: "check_sections ?b [Suc j..<SECTIONS] (section_start ss (Suc j)) =
      Inr (map (\<lambda>i. (section_start ss i, length (ss ! i))) [Suc j..<SECTIONS], length ?b)"
    using Suc.hyps(1) [of "Suc j"] Suc.hyps(2) j(1) by simp
  have c: "section_start ss j = section_start ss j \<and> section_start ss j + length (ss ! j) < 2 ^ 64 \<and> section_start ss j + length (ss ! j) \<le> length ?b"
    using le section_start_Suc [OF jl] assms(3) by simp
  show ?case
    unfolding j(2) check_sections.simps h1 h2 or_panic_def option.case sum_bind_def sum.case u ensure_def if_P [OF c]
    using ih section_start_Suc [OF jl] by simp
qed

end
