(* ===== verification/CheckpointRoundtrip.thy ===== *)
theory CheckpointRoundtrip
  imports CheckpointWriter
begin

text \<open>
  A checkpoint that is written opens, and serves what the store held: every term's postings, the ordinal of
  every document, and the owner of every slot.
\<close>

section \<open>Tables of offsets\<close>

definition offset_table :: "(nat \<Rightarrow> nat) \<Rightarrow> nat \<Rightarrow> u8 list" where
  "offset_table f n = concat (map (\<lambda>i. u32_le_bytes (of_nat (f i))) [0..<n])"

lemma offset_table_length [simp]: "length (offset_table f n) = 4 * n"
  by (induction n) (simp_all add: offset_table_def)

lemma offset_table_Suc: "offset_table f (Suc n) = offset_table f n @ u32_le_bytes (of_nat (f n))"
  by (simp add: offset_table_def)

lemma offset_table_at: "i < n \<Longrightarrow> u32_at (offset_table f n) (4 * i) = Some (of_nat (f i))"
proof (induction n)
  case (Suc n)
  show ?case
  proof (cases "i = n")
    case True
    then show ?thesis using u32_at_written [of "offset_table f n" "of_nat (f n)" "[]"] by (simp add: offset_table_Suc)
  next
    case False
    then show ?thesis using Suc u32_at_append [of "4 * i" "offset_table f n" "u32_le_bytes (of_nat (f n))"] by (simp add: offset_table_Suc)
  qed
qed simp

lemma check_offsets_table:
  assumes "\<And>i. i < n \<Longrightarrow> f i \<le> len \<and> f i < 2 ^ 32" "\<And>i j. i \<le> j \<Longrightarrow> j < n \<Longrightarrow> f i \<le> f j" "f 0 = 0" "m \<le> n" "unat prev \<le> (if m < n then f m else len)"
  shows "check_offsets (offset_table f n) len [m..<n] prev = Inr (if m < n then of_nat (f (n - 1)) else prev)"
  using assms(4,5)
proof (induction "n - m" arbitrary: m prev)
  case (Suc k)
  then have m: "m < n" "[m..<n] = m # [Suc m..<n]" by (simp_all add: upt_conv_Cons)
  have u: "unat (of_nat (f m) :: u32) = f m" using assms(1) [OF m(1)] by (intro unat_of_nat32) simp
  have c: "of_nat (f m) \<ge> prev \<and> unat (of_nat (f m) :: u32) \<le> len \<and> (m > 0 \<or> (of_nat (f m) :: u32) = 0)"
    using Suc.prems(2) m(1) u assms(1) [OF m(1)] assms(3) by (cases "m = 0") (auto simp: word_le_nat_alt)
  have "unat (of_nat (f m) :: u32) \<le> (if Suc m < n then f (Suc m) else len)"
    using u assms(1) [OF m(1)] assms(2) [of m "Suc m"] by simp
  then have ih: "check_offsets (offset_table f n) len [Suc m..<n] (of_nat (f m)) = Inr (if Suc m < n then of_nat (f (n - 1)) else of_nat (f m))"
    using Suc.hyps(1) [of "Suc m" "of_nat (f m)"] Suc.hyps(2) m(1) by simp
  have "n - 1 = m" if "\<not> Suc m < n" using that m(1) by simp
  then show ?case
    unfolding m(2) check_offsets.simps offset_table_at [OF m(1)] or_panic_def option.case sum_bind_def sum.case ensure_def if_P [OF c]
    using ih m(1) by (cases "Suc m < n") auto
qed simp

lemma check_table_written:
  assumes "section_bytes img a = Some (offset_table (word_start ws) (Suc (length ws)))" "section_bytes img b = Some (concat ws)"
    "img_docs img = length ws" "length (concat ws) < 2 ^ 32" "length ws < 2 ^ 32"
  shows "check_table img a b = Inr ()"
proof -
  have le: "word_start ws i \<le> length (concat ws)" for i by (rule word_start_le)
  have mono: "word_start ws i \<le> word_start ws j" if "i \<le> j" "j < Suc (length ws)" for i j
    using that
  proof (induction j)
    case (Suc j)
    then show ?case by (cases "i = Suc j") (auto simp: word_start_Suc)
  qed simp
  have "check_offsets (offset_table (word_start ws) (Suc (length ws))) (length (concat ws)) [0..<Suc (length ws)] 0
      = Inr (if 0 < Suc (length ws) then of_nat (word_start ws (Suc (length ws) - 1)) else 0)"
    by (rule check_offsets_table) (use le mono assms(4) in \<open>auto simp: word_start_def intro: le_less_trans\<close>)
  moreover have "unat (of_nat (length (concat ws)) :: u32) = length (concat ws)" using assms(4) by (rule unat_of_nat32)
  ultimately show ?thesis
    using assms by (simp add: check_table_def or_panic_def sum_bind_def ensure_def word_start_all del: upt_Suc)
qed

lemma span_written:
  assumes "section_bytes img a = Some (offset_table (word_start ws) (Suc (length ws)))" "length (concat ws) < 2 ^ 32" "i < length ws"
  shows "span img a i = Some (word_start ws i, word_start ws (Suc i))"
proof -
  have u: "unat (of_nat (word_start ws j) :: u32) = word_start ws j" for j
    using word_start_le [of ws j] assms(2) by (intro unat_of_nat32) simp
  have "u32_at (offset_table (word_start ws) (Suc (length ws))) (4 * i) = Some (of_nat (word_start ws i))"
    by (rule offset_table_at) (use assms(3) in simp)
  moreover have "u32_at (offset_table (word_start ws) (Suc (length ws))) (4 * Suc i) = Some (of_nat (word_start ws (Suc i)))"
    by (rule offset_table_at) (use assms(3) in simp)
  ultimately show ?thesis unfolding span_def assms(1) by (simp add: u add.commute)
qed

definition valid_key :: "rstr \<Rightarrow> bool" where
  "valid_key key \<longleftrightarrow> utf8_valid key \<and> key \<noteq> [] \<and> length key \<le> 65535 \<and> 0 \<notin> set key"

lemma check_ids_written:
  assumes "section_bytes img IdOffsets = Some (offset_table (word_start ws) (Suc (length ws)))" "length (concat ws) < 2 ^ 32"
    "ssorted ws" "\<forall>w \<in> set ws. valid_key w" "m \<le> length ws" "\<forall>p. prev = Some p \<longrightarrow> m < length ws \<longrightarrow> p < ws ! m"
  shows "check_ids img (concat ws) [m..<length ws] prev = Inr ()"
  using assms(5,6)
proof (induction "length ws - m" arbitrary: m prev)
  case (Suc k)
  then have m: "m < length ws" "[m..<length ws] = m # [Suc m..<length ws]" by (simp_all add: upt_conv_Cons)
  have v: "\<forall>w \<in> set ws. utf8_valid w" using assms(4) by (simp add: valid_key_def)
  have cb: "char_boundary (concat ws) (word_start ws m) \<and> char_boundary (concat ws) (word_start ws (Suc m))"
    using boundary_word_start [OF v] by simp
  have sl: "str_slice (concat ws) (word_start ws m) (word_start ws (Suc m)) = Some (ws ! m)"
    using cb word_slice [OF m(1)] word_start_le [of ws "Suc m"] m(1) by (simp add: str_slice_def word_start_Suc)
  have lt: "case prev of None \<Rightarrow> True | Some p \<Rightarrow> p < ws ! m" using Suc.prems(2) m(1) by (auto split: option.split)
  have vk: "ws ! m \<noteq> [] \<and> length (ws ! m) \<le> 65535 \<and> 0 \<notin> set (ws ! m)" using assms(4) m(1) by (simp add: valid_key_def)
  have ih: "check_ids img (concat ws) [Suc m..<length ws] (Some (ws ! m)) = Inr ()"
    using Suc.hyps(1) [of "Suc m" "Some (ws ! m)"] Suc.hyps(2) m(1) assms(3) by (simp add: sorted_wrt_nth_less)
  show ?case
    unfolding m(2) check_ids.simps span_written [OF assms(1,2) m(1)] or_panic_def option.case sum_bind_def sum.case prod.case ensure_def
      if_P [OF cb] sl if_P [OF lt] if_P [OF vk] using ih by simp
qed simp


lemma check_documents_written:
  assumes "section_bytes img IdOffsets = Some (offset_table (word_start ws) (Suc (length ws)))" "section_bytes img IdBytes = Some (concat ws)"
    "section_bytes img DocOffsets = Some (offset_table (word_start rs) (Suc (length rs)))" "section_bytes img Docs = Some (concat rs)"
    "img_docs img = length ws" "length rs = length ws" "length ws < 2 ^ 32" "length (concat ws) < 2 ^ 32" "length (concat rs) < 2 ^ 32"
    "ssorted ws" "\<forall>w \<in> set ws. valid_key w"
  shows "check_documents img = Inr ()"
proof -
  have "check_table img IdOffsets IdBytes = Inr ()" by (rule check_table_written [OF assms(1,2,5,8,7)])
  moreover have "check_table img DocOffsets Docs = Inr ()" by (rule check_table_written [OF assms(3,4) _ assms(9)]) (use assms(5-7) in simp_all)
  moreover have "utf8_valid (concat ws)" using assms(11) by (intro utf8_valid_concat) (simp add: valid_key_def)
  moreover have "check_ids img (concat ws) [0..<length ws] None = Inr ()" by (rule check_ids_written [OF assms(1,8,10,11)]) simp_all
  ultimately show ?thesis using assms(2,5) by (simp add: check_documents_def sum_bind_def or_panic_def)
qed

section \<open>The owners of the slots\<close>

lemma place_chunks_ok:
  assumes "distinct ss" "set ss \<subseteq> {..<length owners}" "index + length ss \<le> 2 ^ 32"
  shows "\<exists>owners'. place_chunks ordinal index ss owners = Inr owners' \<and> length owners' = length owners \<and>
    (\<forall>j < length ss. owners' ! (ss ! j) = (ordinal, of_nat (index + j))) \<and> (\<forall>s. s \<notin> set ss \<longrightarrow> owners' ! s = owners ! s)"
  using assms
proof (induction ss arbitrary: index owners)
  case (Cons slot ss)
  let ?o = "owners[slot := (ordinal, of_nat index)]"
  have sl: "slot < length owners" "index < 2 ^ 32" using Cons.prems by auto
  obtain o' where o: "place_chunks ordinal (index + 1) ss ?o = Inr o'" "length o' = length ?o"
      "\<forall>j < length ss. o' ! (ss ! j) = (ordinal, of_nat (index + 1 + j))" "\<forall>s. s \<notin> set ss \<longrightarrow> o' ! s = ?o ! s"
    using Cons.IH [of ?o "index + 1"] Cons.prems by auto
  have "o' ! ((slot # ss) ! j) = (ordinal, of_nat (index + j))" if "j < length (slot # ss)" for j
  proof (cases j)
    case 0
    then show ?thesis using o(4) Cons.prems(1) sl(1) by simp
  next
    case (Suc i)
    then show ?thesis using o(3) that by (simp add: add.assoc)
  qed
  moreover have "o' ! s = owners ! s" if "s \<notin> set (slot # ss)" for s using o(4) that by auto
  ultimately show ?case using o(1,2) sl by (simp add: fits_u32_def stop_bind_def)
qed simp

text \<open>What the documents of a store own.\<close>

definition owns :: "'j DocumentStore \<Rightarrow> (rstr \<times> 'j StoredDocument) list \<Rightarrow> nat \<Rightarrow> nat \<Rightarrow> nat \<Rightarrow> bool" where
  "owns store ds slot i j \<longleftrightarrow> i < length ds \<and> (\<exists>ss. store_slots store (fst (ds ! i)) = Some ss \<and> j < length ss \<and> ss ! j = slot)"

definition document_fits :: "'j DocumentStore \<Rightarrow> rstr \<times> 'j StoredDocument \<Rightarrow> bool" where
  "document_fits store kd \<longleftrightarrow> valid_key (fst kd) \<and> (\<exists>ss. store_slots store (fst kd) = Some ss \<and> length ss = length (chunks (snd kd)) \<and>
     distinct ss \<and> set ss \<subseteq> {..<slot_count store})"

definition store_wf :: "'j DocumentStore \<Rightarrow> bool" where
  "store_wf store \<longleftrightarrow> length (store_postings store) = 2 \<and> length (word_counts store) = slot_count store \<and> slot_count store < 2 ^ 32 \<and>
     length (documents store) < 2 ^ 32 - 1 \<and> total_words store < 2 ^ 64 \<and>
     ssorted (map fst (documents store)) \<and> list_all (document_fits store) (documents store) \<and>
     (\<forall>slot i j i' j'. owns store (documents store) slot i j \<and> owns store (documents store) slot i' j' \<longrightarrow> i = i') \<and>
     chunk_count store = card {slot. \<exists>i j. owns store (documents store) slot i j}"

text \<open>Documents are written after the others.\<close>

definition owners_ok :: "'j DocumentStore \<Rightarrow> (rstr \<times> 'j StoredDocument) list \<Rightarrow> (u32 \<times> u32) list \<Rightarrow> bool" where
  "owners_ok store ds owners \<longleftrightarrow> length owners = slot_count store \<and>
     (\<forall>slot i j. owns store ds slot i j \<longrightarrow> owners ! slot = (of_nat i, of_nat j)) \<and>
     (\<forall>slot < slot_count store. (\<nexists>i j. owns store ds slot i j) \<longrightarrow> owners ! slot = (FREE, 0))"

definition written :: "'j DocumentStore \<Rightarrow> (rstr \<times> 'j StoredDocument) list \<Rightarrow> rstr list \<Rightarrow> doc_state \<Rightarrow> bool" where
  "written store ds rs s \<longleftrightarrow> length rs = length ds \<and> ds_ids s = concat (map fst ds) \<and> ds_docs s = concat rs \<and>
     ds_id_offsets s = offset_table (word_start (map fst ds)) (length ds) \<and> ds_doc_offsets s = offset_table (word_start rs) (length rs) \<and>
     owners_ok store ds (ds_owners s)"

lemma owns_snoc:
  "owns store (ds @ [kd]) slot i j \<longleftrightarrow> owns store ds slot i j \<or> i = length ds \<and> (\<exists>ss. store_slots store (fst kd) = Some ss \<and> j < length ss \<and> ss ! j = slot)"
  by (auto simp: owns_def nth_append less_Suc_eq)

lemma owns_append: "owns store ds slot i j \<Longrightarrow> owns store (ds @ es) slot i j"
  by (auto simp: owns_def nth_append)

lemma owners_snoc:
  assumes "owners_ok store ds owners" "document_fits store kd" "slot_count store < 2 ^ 32"
    "\<forall>slot i j i' j'. owns store (ds @ [kd]) slot i j \<and> owns store (ds @ [kd]) slot i' j' \<longrightarrow> i = i'"
  obtains ss owners' where "store_slots store (fst kd) = Some ss" "length ss = length (chunks (snd kd))"
    "place_chunks (of_nat (length ds)) 0 ss owners = Inr owners'" "owners_ok store (ds @ [kd]) owners'"
proof -
  obtain ss where ss: "store_slots store (fst kd) = Some ss" "length ss = length (chunks (snd kd))" "distinct ss" "set ss \<subseteq> {..<slot_count store}"
    using assms(2) by (auto simp: document_fits_def)
  have lo: "length owners = slot_count store" using assms(1) by (simp add: owners_ok_def)
  have "length ss = card (set ss)" using ss(3) by (simp add: distinct_card)
  also have "\<dots> \<le> card {..<slot_count store}" using ss(4) by (intro card_mono) simp_all
  finally have "0 + length ss \<le> 2 ^ 32" using assms(3) by simp
  then obtain o' where o: "place_chunks (of_nat (length ds)) 0 ss owners = Inr o'" "length o' = length owners"
      "\<forall>j < length ss. o' ! (ss ! j) = (of_nat (length ds), of_nat (0 + j))" "\<forall>s. s \<notin> set ss \<longrightarrow> o' ! s = owners ! s"
    using place_chunks_ok [OF ss(3), of owners 0 "of_nat (length ds)"] ss(4) lo by auto
  have "owners_ok store (ds @ [kd]) o'"
    unfolding owners_ok_def
  proof (intro conjI allI impI)
    show "length o' = slot_count store" using o(2) lo by simp
  next
    fix slot i j assume a: "owns store (ds @ [kd]) slot i j"
    show "o' ! slot = (of_nat i, of_nat j)"
    proof (cases "owns store ds slot i j")
      case True
      have "slot \<notin> set ss"
      proof
        assume "slot \<in> set ss"
        then obtain j' where "j' < length ss" "ss ! j' = slot" by (auto simp: in_set_conv_nth)
        then have "owns store (ds @ [kd]) slot (length ds) j'" using ss(1) by (simp add: owns_snoc)
        then have "i = length ds" using assms(4) a by blast
        then show False using True by (simp add: owns_def)
      qed
      then show ?thesis using o(4) assms(1) True by (simp add: owners_ok_def)
    next
      case False
      then have "i = length ds" "j < length ss" "ss ! j = slot" using a ss(1) by (auto simp: owns_snoc)
      then show ?thesis using o(3) by auto
    qed
  next
    fix slot assume s: "slot < slot_count store" "\<nexists>i j. owns store (ds @ [kd]) slot i j"
    have "slot \<notin> set ss" using s(2) ss(1) by (auto simp: owns_snoc in_set_conv_nth)
    then show "o' ! slot = (FREE, 0)" using o(4) assms(1) s by (simp add: owners_ok_def owns_snoc)
  qed
  then show ?thesis using that [OF ss(1,2) o(1)] by blast
qed


definition disjoint_owned :: "'j DocumentStore \<Rightarrow> (rstr \<times> 'j StoredDocument) list \<Rightarrow> bool" where
  "disjoint_owned store ds \<longleftrightarrow> (\<forall>slot i j i' j'. owns store ds slot i j \<and> owns store ds slot i' j' \<longrightarrow> i = i')"

lemma disjoint_owned_append: "disjoint_owned store (ds @ es) \<Longrightarrow> disjoint_owned store ds"
  unfolding disjoint_owned_def using owns_append by blast

definition soft_stop :: "encode_stop \<Rightarrow> bool" where "soft_stop e \<longleftrightarrow> e = NotHeld \<or> (\<exists>w. e = EncodeWrite w)"

lemma soft_stop_simps [simp]: "soft_stop NotHeld" "soft_stop (EncodeWrite w)" "\<not> soft_stop EncodePanic" "\<not> soft_stop (EncodeRefused r)"
  by (simp_all add: soft_stop_def)

text \<open>A stage that stops does so softly; what it returns otherwise.\<close>

definition outcome :: "('a \<Rightarrow> bool) \<Rightarrow> encode_stop + 'a \<Rightarrow> bool" where
  "outcome P m \<longleftrightarrow> (case m of Inl e \<Rightarrow> soft_stop e | Inr x \<Rightarrow> P x)"

lemma outcome_bind: "outcome (\<lambda>_. True) m \<Longrightarrow> (\<And>x. m = Inr x \<Longrightarrow> outcome P (f x)) \<Longrightarrow> outcome P (stop_bind m f)"
  by (simp add: outcome_def stop_bind_def split: sum.splits)

lemma outcome_weaken: "outcome P m \<Longrightarrow> outcome (\<lambda>_. True) m"
  by (simp add: outcome_def split: sum.splits)

lemma outcome_fits [simp]: "outcome (\<lambda>_. True) (fits_u32 n NotHeld)"
  by (simp add: outcome_def fits_u32_def)

lemma outcome_simps [simp]: "outcome P (Inr x) = P x" "outcome P (Inl e) = soft_stop e"
  by (simp_all add: outcome_def)

lemma encode_chunks_stop: "encode_chunks text_of key i cs = Inl e \<Longrightarrow> soft_stop e"
proof (induction cs arbitrary: i)
  case (Cons c cs)
  then show ?case by (auto simp: Let_def stop_bind_def split: sum.splits)
qed simp

lemma encode_document_stop: "encode_document to_vec text_of d = Inl e \<Longrightarrow> soft_stop e"
  by (auto simp: encode_document_def stop_bind_def split: option.splits sum.splits dest: encode_chunks_stop)

lemma offset_table_snoc:
  "offset_table (word_start (ws @ [w])) (Suc (length ws)) = offset_table (word_start ws) (length ws) @ u32_le_bytes (of_nat (length (concat ws)))"
proof -
  have "map (\<lambda>i. u32_le_bytes (of_nat (word_start (ws @ [w]) i))) [0..<length ws] = map (\<lambda>i. u32_le_bytes (of_nat (word_start ws i))) [0..<length ws]"
    by (rule map_cong) (auto simp: word_start_def)
  then have "offset_table (word_start (ws @ [w])) (length ws) = offset_table (word_start ws) (length ws)" unfolding offset_table_def by (rule arg_cong)
  then show ?thesis unfolding offset_table_Suc by (simp add: word_start_def)
qed

lemma offset_table_end: "offset_table (word_start ws) (length ws) @ u32_le_bytes (of_nat (length (concat ws))) = offset_table (word_start ws) (Suc (length ws))"
  by (simp add: offset_table_Suc word_start_all)

lemma encode_documents_ok:
  assumes "written store done rs s" "list_all (document_fits store) ds" "disjoint_owned store (done @ ds)"
    "length (done @ ds) < 2 ^ 32" "slot_count store < 2 ^ 32"
  shows "case encode_documents to_vec text_of store (length done) ds s of Inl e \<Rightarrow> soft_stop e | Inr s' \<Rightarrow> \<exists>rs'. written store (done @ ds) rs' s'"
  using assms
proof (induction ds arbitrary: "done" rs s)
  case Nil
  then show ?case by auto
next
  case (Cons kd ds)
  obtain key document where kd: "kd = (key, document)" by (metis prod.exhaust)
  have dj: "disjoint_owned store (done @ [kd])" using disjoint_owned_append [of store "done @ [kd]" ds] Cons.prems(3) by simp
  have fit: "document_fits store kd" using Cons.prems(2) by simp
  have ok: "owners_ok store done (ds_owners s)" using Cons.prems(1) by (simp add: written_def)
  obtain ss owners' where o: "store_slots store (fst kd) = Some ss" "length ss = length (chunks (snd kd))"
      "place_chunks (of_nat (length done)) 0 ss (ds_owners s) = Inr owners'" "owners_ok store (done @ [kd]) owners'"
    by (rule owners_snoc [OF ok fit Cons.prems(5) dj [unfolded disjoint_owned_def]])
  have od: "length done < 2 ^ 32" using Cons.prems(4) by simp
  show ?case
  proof (cases "length (ds_ids s) < 2 ^ 32 \<and> length (ds_docs s) < 2 ^ 32")
    case False
    then show ?thesis using o od unfolding kd by (auto simp: fits_u32_def stop_bind_def)
  next
    case True
    show ?thesis
    proof (cases "encode_document to_vec text_of document")
      case (Inl e)
      then show ?thesis using o od True encode_document_stop [OF Inl] unfolding kd by (simp add: fits_u32_def stop_bind_def)
    next
      case (Inr rec_bytes)
      let ?s = "\<lparr>ds_owners = owners', ds_ids = ds_ids s @ key, ds_id_offsets = ds_id_offsets s @ u32_le_bytes (of_nat (length (ds_ids s))),
        ds_docs = ds_docs s @ rec_bytes, ds_doc_offsets = ds_doc_offsets s @ u32_le_bytes (of_nat (length (ds_docs s)))\<rparr>"
      have step: "encode_documents to_vec text_of store (length done) (kd # ds) s = encode_documents to_vec text_of store (length (done @ [kd])) ds ?s"
        using o od True Inr unfolding kd by (simp add: fits_u32_def stop_bind_def)
      have w: "written store (done @ [kd]) (rs @ [rec_bytes]) ?s"
        using Cons.prems(1) o(4) offset_table_snoc [of "map fst done" key] offset_table_snoc [of rs rec_bytes] unfolding written_def kd by simp
      show ?thesis unfolding step
        using Cons.IH [OF w, unfolded append_assoc append_Cons append_Nil] Cons.prems by simp
    qed
  qed
qed

section \<open>The slot table\<close>

lemma encode_slots_ok:
  assumes "slot + length os \<le> length words"
  shows "encode_slots words slot os = Inr (concat (map (\<lambda>i. u32_le_bytes (words ! (slot + i)) @ u32_le_bytes (fst (os ! i)) @ u32_le_bytes (snd (os ! i))) [0..<length os]))"
  using assms
proof (induction os arbitrary: slot)
  case (Cons x os)
  obtain o' c where x: "x = (o', c)" by (metis prod.exhaust)
  have "[0..<length (x # os)] = 0 # map Suc [0..<length os]" by (simp add: map_Suc_upt upt_conv_Cons del: upt_Suc)
  then show ?case using Cons.IH [of "slot + 1"] Cons.prems
    by (simp add: x stop_bind_def unless_panic_def slice_get_def comp_def del: upt_Suc)
qed simp

definition slot_row :: "u32 list \<Rightarrow> (u32 \<times> u32) list \<Rightarrow> nat \<Rightarrow> u8 list" where
  "slot_row words os i = u32_le_bytes (words ! i) @ u32_le_bytes (fst (os ! i)) @ u32_le_bytes (snd (os ! i))"

lemma slot_rows_at:
  fixes words :: "u32 list" and os :: "(u32 \<times> u32) list"
  assumes "i < n"
  defines "T \<equiv> concat (map (slot_row words os) [0..<n])"
  shows "u32_at T (i * SLOT_BYTES) = Some (words ! i)" "u32_at T (i * SLOT_BYTES + 4) = Some (fst (os ! i))"
    "u32_at T (i * SLOT_BYTES + 8) = Some (snd (os ! i))"
proof -
  have len: "length (concat (map (slot_row words os) [0..<m])) = m * SLOT_BYTES" for m
    by (induction m) (simp_all add: slot_row_def SLOT_BYTES_def)
  have "[0..<n] = [0..<i] @ i # [Suc i..<n]" using assms(1) by (metis le_add1 le_add_same_cancel1 less_imp_le upt_add_eq_append upt_conv_Cons le_add_diff_inverse)
  then have T: "T = concat (map (slot_row words os) [0..<i]) @ slot_row words os i @ concat (map (slot_row words os) [Suc i..<n])" by (simp add: T_def)
  define a r where "a = concat (map (slot_row words os) [0..<i])" and "r = concat (map (slot_row words os) [Suc i..<n])"
  have la: "length a = i * SLOT_BYTES" unfolding a_def by (rule len)
  have T': "T = a @ u32_le_bytes (words ! i) @ u32_le_bytes (fst (os ! i)) @ u32_le_bytes (snd (os ! i)) @ r" unfolding T a_def r_def slot_row_def by simp
  show "u32_at T (i * SLOT_BYTES) = Some (words ! i)" using u32_at_written [of a "words ! i"] la unfolding T' by simp
  show "u32_at T (i * SLOT_BYTES + 4) = Some (fst (os ! i))" using u32_at_written [of "a @ u32_le_bytes (words ! i)" "fst (os ! i)"] la unfolding T' by simp
  show "u32_at T (i * SLOT_BYTES + 8) = Some (snd (os ! i))"
    using u32_at_written [of "a @ u32_le_bytes (words ! i) @ u32_le_bytes (fst (os ! i))" "snd (os ! i)" r] la unfolding T' by simp
qed


lemma slot_rows_length: "length (concat (map (slot_row words os) [0..<m])) = m * SLOT_BYTES"
  by (induction m) (simp_all add: slot_row_def SLOT_BYTES_def)

lemma check_owners_written:
  assumes "\<And>s. s \<in> set ss \<Longrightarrow> u32_at table (s * SLOT_BYTES + 4) = Some (f s) \<and> (f s = FREE \<or> unat (f s) < img_docs img)"
  shows "check_owners img table ss used = Inr (used + length (filter (\<lambda>s. f s \<noteq> FREE) ss))"
  using assms
proof (induction ss arbitrary: used)
  case (Cons s ss)
  then have h: "u32_at table (s * SLOT_BYTES + 4) = Some (f s)" "f s = FREE \<or> unat (f s) < img_docs img" by auto
  show ?case
    unfolding check_owners.simps h(1) or_panic_def option.case sum_bind_def sum.case ensure_def if_P [OF h(2)]
    using Cons.IH Cons.prems by auto
qed simp

lemma check_slots_written:
  assumes "section_bytes img SlotTable = Some (concat (map (slot_row words os) [0..<n]))" "img_slots img = n" "n < 2 ^ 32"
    "\<forall>i < n. fst (os ! i) = FREE \<or> unat (fst (os ! i)) < img_docs img" "img_chunks img = card {i. i < n \<and> fst (os ! i) \<noteq> FREE}"
  shows "check_slots img = Inr ()" "i < n \<Longrightarrow> image_slot img i = Some (words ! i, os ! i)"
proof -
  let ?T = "concat (map (slot_row words os) [0..<n])"
  have co: "check_owners img ?T [0..<n] 0 = Inr (0 + length (filter (\<lambda>s. fst (os ! s) \<noteq> FREE) [0..<n]))"
    by (rule check_owners_written) (use slot_rows_at(2) [where words = words and os = os] assms(4) in auto)
  have "length (filter (\<lambda>s. fst (os ! s) \<noteq> FREE) [0..<n]) = card (set (filter (\<lambda>s. fst (os ! s) \<noteq> FREE) [0..<n]))" by (rule distinct_card [symmetric]) simp
  also have "set (filter (\<lambda>s. fst (os ! s) \<noteq> FREE) [0..<n]) = {i. i < n \<and> fst (os ! i) \<noteq> FREE}" by auto
  finally have used: "length (filter (\<lambda>s. fst (os ! s) \<noteq> FREE) [0..<n]) = img_chunks img" using assms(5) by simp
  have "length (filter (\<lambda>s. fst (os ! s) \<noteq> FREE) [0..<n]) \<le> n" using length_filter_le [of _ "[0..<n]"] by simp
  then show "check_slots img = Inr ()"
    using co used assms(2,3) unfolding check_slots_def assms(1) or_panic_def option.case sum_bind_def sum.case slot_rows_length
    by (simp add: ensure_def SLOT_BYTES_def)
  show "image_slot img i = Some (words ! i, os ! i)" if "i < n"
    using slot_rows_at [OF that, where words = words and os = os] by (simp add: image_slot_def assms(1) Let_def)
qed

section \<open>The dictionaries\<close>

lemma check_dictionary_written:
  assumes "header_word (img_bytes img) (H_TERMS + form) = Some (of_nat n)" "n < 2 ^ 32" "form_sections form = (ds, bs)"
    "section_bytes img ds = Some dict" "section_bytes img bs = Some blocks" "section_bytes img PostingBytes = Some postings"
    "length blocks = (n + (BLOCK - 1)) div BLOCK * 8"
    "check_entries blocks (length postings) 0 n [] None (reader_new dict) = Inr ((), \<lparr>data = dict, at_pos = length dict\<rparr>)"
    "slice_get (img_sections img) (section_number ds) = Some d" "slice_get (img_sections img) (section_number bs) = Some b"
  shows "check_dictionary img form = Inr \<lparr>dict_span = d, block_span = b, dict_terms = n\<rparr>"
proof -
  have u: "unat (of_nat n :: u64) = n" using assms(2) by (intro unat_of_usize) simp
  show ?thesis
    unfolding check_dictionary_def assms(3) Let_def prod.case assms(1,4,5,6) or_panic_def option.case sum_bind_def sum.case u assms(7) ensure_def assms(8-10)
    by (simp add: reader_is_empty_def)
qed


lemma written_ids:
  assumes "section_bytes img IdOffsets = Some (offset_table (word_start ws) (Suc (length ws)))" "section_bytes img IdBytes = Some (concat ws)"
    "img_docs img = length ws" "length (concat ws) < 2 ^ 32" "ssorted ws" "\<forall>w \<in> set ws. valid_key w"
  shows "ids_ok img ws"
  unfolding ids_ok_def
proof (intro conjI allI impI)
  fix i assume "i < img_docs img"
  then have i: "i < length ws" using assms(3) by simp
  have "byte_range (concat ws) (word_start ws i) (word_start ws (Suc i)) = Some (ws ! i)"
    using word_slice [OF i] word_start_le [of ws "Suc i"] i by (simp add: byte_range_def word_start_Suc)
  then show "image_id img i = Some (ws ! i)"
    using assms(6) i by (simp add: image_id_def span_written [OF assms(1,4) i] assms(2) valid_key_def)
qed (use assms in simp_all)

section \<open>The whole checkpoint\<close>

definition forms_held :: "'j DocumentStore \<Rightarrow> (nat \<Rightarrow> rstr \<Rightarrow> posting_map) \<Rightarrow> bool" where
  "forms_held store I \<longleftrightarrow> (\<forall>form < 2. (\<exists>W. lists_hold W (store_postings store ! form) (I form)) \<and>
     td_size (pls_dictionary (store_postings store ! form)) < 2 ^ 32 \<and> (\<forall>t. I form t \<noteq> Map.empty \<longrightarrow> utf8_valid t))"

definition doc_start :: "'j DocumentStore \<Rightarrow> doc_state" where
  "doc_start store = \<lparr>ds_owners = replicate (slot_count store) (FREE, 0), ds_ids = [], ds_id_offsets = [], ds_docs = [], ds_doc_offsets = []\<rparr>"

lemma doc_start_written: "written store [] [] (doc_start store)"
  by (simp add: written_def doc_start_def offset_table_def owners_ok_def owns_def)

lemma write_items_stop: "write_items n prev xs s = Inl e \<Longrightarrow> e = NotHeld"
proof (induction xs arbitrary: n prev s)
  case (Cons x xs)
  then show ?case by (auto simp: stop_bind_def write_item_def split: sum.splits if_splits prod.splits)
qed simp

lemma encode_form_outcome:
  assumes "lists_hold W pls I" "td_size (pls_dictionary pls) < 2 ^ 32"
  shows "outcome (\<lambda>_. True) (encode_form k pls postings)"
proof -
  obtain words where w: "\<And>postings. encode_form k pls postings = map_sum id (\<lambda>(dict, blocks, postings). (dict, blocks, length words, postings))
       (write_items 0 [] (form_items I words) ([], [], postings))"
    by (rule encode_form_items [OF assms(1,2), where k = k]) (rule that)
  show ?thesis unfolding w
    by (cases "write_items 0 [] (form_items I words) ([], [], postings)") (auto dest: write_items_stop)
qed

lemma documents_written:
  assumes "store_wf store"
  shows "outcome (\<lambda>s. \<exists>rs. written store (documents store) rs s) (encode_documents to_vec text_of store 0 (documents store) (doc_start store))"
proof -
  have "list_all (document_fits store) (documents store)" "disjoint_owned store ([] @ documents store)" "length ([] @ documents store) < 2 ^ 32" "slot_count store < 2 ^ 32"
    using assms by (auto simp: store_wf_def disjoint_owned_def)
  from encode_documents_ok [OF doc_start_written this, of to_vec text_of, unfolded append_Nil] show ?thesis by (simp add: outcome_def)
qed

definition header_base :: "'j DocumentStore \<Rightarrow> u32 \<Rightarrow> usize \<Rightarrow> nat \<Rightarrow> nat \<Rightarrow> u64 list" where
  "header_base store generation dimensions terms0 terms1 = (replicate HEADER_WORDS 0)
     [H_TERMS := of_nat terms0, H_TERMS + 1 := of_nat terms1, H_GENERATION := ucast generation, H_DIMENSIONS := of_nat dimensions,
      H_SLOTS := of_nat (slot_count store), H_CHUNKS := of_nat (chunk_count store), H_WORDS := of_nat (total_words store),
      H_DOCS := of_nat (length (documents store))]"

lemma header_base_words:
  "length (header_base store g d t0 t1) = HEADER_WORDS" "header_base store g d t0 t1 ! H_TERMS = of_nat t0" "header_base store g d t0 t1 ! (H_TERMS + 1) = of_nat t1"
  "header_base store g d t0 t1 ! H_DIMENSIONS = of_nat d" "header_base store g d t0 t1 ! H_SLOTS = of_nat (slot_count store)"
  "header_base store g d t0 t1 ! H_CHUNKS = of_nat (chunk_count store)" "header_base store g d t0 t1 ! H_WORDS = of_nat (total_words store)"
  "header_base store g d t0 t1 ! H_DOCS = of_nat (length (documents store))"
  by (simp_all add: header_base_def H_TERMS_def H_GENERATION_def H_DIMENSIONS_def H_SLOTS_def H_CHUNKS_def H_WORDS_def H_DOCS_def HEADER_WORDS_def)

text \<open>A store is either not held (or the text or metadata of a document cannot be read), or its parts are assembled.\<close>

definition checkpoint_sections :: "'j DocumentStore \<Rightarrow> dict_state \<Rightarrow> dict_state \<Rightarrow> doc_state \<Rightarrow> rstr list \<Rightarrow> u8 list list" where
  "checkpoint_sections store = (\<lambda>(dict0, blocks0, n0, p0) (dict1, blocks1, n1, postings) s rs.
     [dict0, blocks0, dict1, blocks1, postings, concat (map (slot_row (word_counts store) (ds_owners s)) [0..<slot_count store]),
      offset_table (word_start (map fst (documents store))) (Suc (length (documents store))), ds_ids s,
      offset_table (word_start rs) (Suc (length rs)), ds_docs s])"

lemma written_tables:
  assumes "store_wf store" "written store (documents store) rs s"
  shows "encode_slots (word_counts store) 0 (ds_owners s) = Inr (concat (map (slot_row (word_counts store) (ds_owners s)) [0..<slot_count store]))"
    "ds_id_offsets s @ u32_le_bytes (of_nat (length (ds_ids s))) = offset_table (word_start (map fst (documents store))) (Suc (length (documents store)))"
    "ds_doc_offsets s @ u32_le_bytes (of_nat (length (ds_docs s))) = offset_table (word_start rs) (Suc (length rs))"
proof -
  have "length (ds_owners s) = slot_count store" "length (word_counts store) = slot_count store"
    using assms by (auto simp: written_def owners_ok_def store_wf_def)
  then show "encode_slots (word_counts store) 0 (ds_owners s) = Inr (concat (map (slot_row (word_counts store) (ds_owners s)) [0..<slot_count store]))"
    using encode_slots_ok [of 0 "ds_owners s" "word_counts store"] by (simp add: slot_row_def [abs_def])
  show "ds_id_offsets s @ u32_le_bytes (of_nat (length (ds_ids s))) = offset_table (word_start (map fst (documents store))) (Suc (length (documents store)))"
    "ds_doc_offsets s @ u32_le_bytes (of_nat (length (ds_docs s))) = offset_table (word_start rs) (Suc (length rs))"
    using assms(2) offset_table_end [of "map fst (documents store)"] offset_table_end [of rs] by (simp_all add: written_def)
qed

lemma encode_checkpoint_parts:
  assumes "store_wf store" "forms_held store I"
  shows "outcome (\<lambda>bytes. \<exists>f0 f1 s rs. encode_form k (store_postings store ! 0) [] = Inr f0 \<and>
      encode_form k (store_postings store ! 1) (snd (snd (snd f0))) = Inr f1 \<and> length (snd (snd (snd f1))) < 2 ^ 32 \<and>
      written store (documents store) rs s \<and> length (ds_ids s) < 2 ^ 32 \<and> length (ds_docs s) < 2 ^ 32 \<and>
      bytes = assemble crc32 (header_base store generation dimensions (fst (snd (snd f0))) (fst (snd (snd f1)))) (checkpoint_sections store f0 f1 s rs))
    (encode_checkpoint k crc32 to_vec text_of store generation dimensions)"
proof (cases "checkpoint_representable store")
  case False
  then show ?thesis by (simp add: encode_checkpoint_def)
next
  case True
  have two: "length (store_postings store) = 2" using assms(1) by (simp add: store_wf_def)
  have form: "outcome (\<lambda>_. True) (encode_form k (store_postings store ! form) postings)" if "form < 2" for form postings
    using assms(2) that encode_form_outcome unfolding forms_held_def by blast
  have E: "encode_checkpoint k crc32 to_vec text_of store generation dimensions =
      stop_bind (encode_form k (store_postings store ! 0) []) (\<lambda>f0.
      stop_bind (encode_form k (store_postings store ! 1) (snd (snd (snd f0)))) (\<lambda>f1.
      stop_bind (fits_u32 (length (snd (snd (snd f1)))) NotHeld) (\<lambda>_.
      stop_bind (encode_documents to_vec text_of store 0 (documents store) (doc_start store)) (\<lambda>s.
      stop_bind (fits_u32 (length (ds_ids s)) NotHeld) (\<lambda>id_end.
      stop_bind (fits_u32 (length (ds_docs s)) NotHeld) (\<lambda>doc_end.
      stop_bind (encode_slots (word_counts store) 0 (ds_owners s)) (\<lambda>slots.
      Inr (assemble crc32 (header_base store generation dimensions (fst (snd (snd f0))) (fst (snd (snd f1))))
        [fst f0, fst (snd f0), fst f1, fst (snd f1), snd (snd (snd f1)), slots, ds_id_offsets s @ u32_le_bytes id_end, ds_ids s,
         ds_doc_offsets s @ u32_le_bytes doc_end, ds_docs s]))))))))"
    using True two by (simp add: encode_checkpoint_def stop_bind_def unless_panic_def slice_get_def header_base_def doc_start_def split_def)
  show ?thesis
    unfolding E
  proof (intro outcome_bind form outcome_fits outcome_weaken [OF documents_written [OF assms(1)]])
    fix f0 f1 w3 s w1 w2
    assume f: "encode_form k (store_postings store ! 0) [] = Inr f0" "encode_form k (store_postings store ! 1) (snd (snd (snd f0))) = Inr f1"
      and p: "fits_u32 (length (snd (snd (snd f1)))) NotHeld = Inr w3" "fits_u32 (length (ds_ids s)) NotHeld = Inr w1" "fits_u32 (length (ds_docs s)) NotHeld = Inr w2"
      and d: "encode_documents to_vec text_of store 0 (documents store) (doc_start store) = Inr s"
    obtain rs where w: "written store (documents store) rs s" using documents_written [OF assms(1), of to_vec text_of] d by auto
    note t = written_tables [OF assms(1) w]
    show "outcome (\<lambda>_. True) (encode_slots (word_counts store) 0 (ds_owners s))" by (simp add: t)
    fix slots assume "encode_slots (word_counts store) 0 (ds_owners s) = Inr slots"
    then show "outcome (\<lambda>bytes. \<exists>f0 f1 s rs. encode_form k (store_postings store ! 0) [] = Inr f0 \<and>
      encode_form k (store_postings store ! 1) (snd (snd (snd f0))) = Inr f1 \<and> length (snd (snd (snd f1))) < 2 ^ 32 \<and>
      written store (documents store) rs s \<and> length (ds_ids s) < 2 ^ 32 \<and> length (ds_docs s) < 2 ^ 32 \<and>
      bytes = assemble crc32 (header_base store generation dimensions (fst (snd (snd f0))) (fst (snd (snd f1)))) (checkpoint_sections store f0 f1 s rs))
      (Inr (assemble crc32 (header_base store generation dimensions (fst (snd (snd f0))) (fst (snd (snd f1))))
        [fst f0, fst (snd f0), fst f1, fst (snd f1), snd (snd (snd f1)), slots, ds_id_offsets s @ u32_le_bytes w1, ds_ids s,
         ds_doc_offsets s @ u32_le_bytes w2, ds_docs s]))"
      unfolding outcome_simps using f p w t
      by (intro exI [of _ f0] exI [of _ f1] exI [of _ s] exI [of _ rs]) (simp add: checkpoint_sections_def split_def fits_u32_Inr)
  qed simp_all
qed


text \<open>The image the header describes.\<close>

definition assembled_image :: "u8 list \<Rightarrow> u8 list list \<Rightarrow> 'j DocumentStore \<Rightarrow> usize \<Rightarrow> Dictionary list \<Rightarrow> ServingImage" where
  "assembled_image bytes ss store dims ds = \<lparr>img_bytes = bytes, img_slots = slot_count store, img_chunks = chunk_count store, img_words = total_words store,
     img_docs = length (documents store), img_dimensions = dims, img_dictionaries = ds,
     img_sections = map (\<lambda>i. (section_start ss i, length (ss ! i))) [0..<SECTIONS]\<rparr>"

lemma assembled_section:
  assumes "length words = HEADER_WORDS" "length ss = SECTIONS" "bytes = assemble crc32 words ss"
  shows "section_bytes (assembled_image bytes ss store dims ds) sec = Some (ss ! section_number sec)"
    "slice_get (img_sections (assembled_image bytes ss store dims ds)) (section_number sec) = Some (section_start ss (section_number sec), length (ss ! section_number sec))"
proof -
  note n = section_number_less [of sec]
  show g: "slice_get (img_sections (assembled_image bytes ss store dims ds)) (section_number sec) = Some (section_start ss (section_number sec), length (ss ! section_number sec))"
    using n by (simp add: slice_get_def assembled_image_def)
  have "section_start ss (section_number sec) + length (ss ! section_number sec) \<le> length bytes"
    using section_start_Suc [of "section_number sec" ss] section_start_le [of ss "Suc (section_number sec)"] n assms(2)
    by (simp add: assms(3) assemble_facts(1) [OF assms(1)])
  then show "section_bytes (assembled_image bytes ss store dims ds) sec = Some (ss ! section_number sec)"
    using g assemble_facts(4) [OF assms(1), of "section_number sec" ss crc32] n assms(2,3)
    by (simp add: section_bytes_def byte_range_def assembled_image_def)
qed

lemma assembled_header:
  assumes "bytes = assemble crc32 (header_base store g dims n0 n1) ss" "0 < i" "i < H_SECTIONS"
  shows "header_word bytes i = Some (header_base store g dims n0 n1 ! i)"
proof -
  have "i < HEADER_WORDS" using assms(3) by (simp add: H_SECTIONS_def HEADER_WORDS_def)
  then show ?thesis
    using assemble_facts(3) [OF header_base_words(1), of i crc32 store g dims n0 n1 ss] place_sections_other [of i 0 ss] assms by simp
qed

lemma owns_slot:
  assumes "store_wf store" "owns store (documents store) slot i j"
  shows "slot < slot_count store"
proof -
  obtain ss where o: "i < length (documents store)" "store_slots store (fst (documents store ! i)) = Some ss" "j < length ss" "ss ! j = slot"
    using assms(2) by (auto simp: owns_def)
  have "document_fits store (documents store ! i)" using assms(1) o(1) by (simp add: store_wf_def list_all_length)
  then have "set ss \<subseteq> {..<slot_count store}" using o(2) by (simp add: document_fits_def)
  then show ?thesis using o(3,4) nth_mem by blast
qed

lemma chunk_count_bound:
  assumes "store_wf store"
  shows "chunk_count store < 2 ^ 32"
proof -
  have "{slot. \<exists>i j. owns store (documents store) slot i j} \<subseteq> {..<slot_count store}" using owns_slot [OF assms] by blast
  then have "card {slot. \<exists>i j. owns store (documents store) slot i j} \<le> card {..<slot_count store}" by (intro card_mono) simp_all
  then show ?thesis using assms by (simp add: store_wf_def)
qed

lemma image_new_assembled:
  assumes "bytes = assemble crc32 (header_base store g dims n0 n1) ss" "length ss = SECTIONS" "length bytes < 2 ^ 64" "store_wf store"
    "check_documents (assembled_image bytes ss store dims [dictionary_default, dictionary_default]) = Inr ()"
    "check_slots (assembled_image bytes ss store dims [dictionary_default, dictionary_default]) = Inr ()"
    "check_dictionary (assembled_image bytes ss store dims [dictionary_default, dictionary_default]) 0 = Inr d0"
    "check_dictionary (assembled_image bytes ss store dims [d0, dictionary_default]) 1 = Inr d1" "dims < 2 ^ 64"
  shows "image_new bytes = Inr (assembled_image bytes ss store dims [d0, d1])"
proof -
  note h = assembled_header [OF assms(1)] note w = header_base_words [where store = store and g = g and d = dims and ?t0.0 = n0 and ?t1.0 = n1]
  have hw: "header_word bytes H_SLOTS = Some (of_nat (slot_count store))" "header_word bytes H_CHUNKS = Some (of_nat (chunk_count store))"
    "header_word bytes H_WORDS = Some (of_nat (total_words store))" "header_word bytes H_DOCS = Some (of_nat (length (documents store)))"
    "header_word bytes H_DIMENSIONS = Some (of_nat dims)"
    using h [of H_SLOTS] h [of H_CHUNKS] h [of H_WORDS] h [of H_DOCS] h [of H_DIMENSIONS] w
    by (simp_all add: H_SLOTS_def H_CHUNKS_def H_WORDS_def H_DOCS_def H_DIMENSIONS_def H_SECTIONS_def)
  have u: "unat (of_nat (slot_count store) :: u64) = slot_count store" "unat (of_nat (chunk_count store) :: u64) = chunk_count store"
    "unat (of_nat (total_words store) :: u64) = total_words store" "unat (of_nat (length (documents store)) :: u64) = length (documents store)"
    "unat (of_nat dims :: u64) = dims"
    using assms(4,9) chunk_count_bound [OF assms(4)] by (auto simp: store_wf_def intro!: unat_of_usize)
  have c0: "IMAGE_HEADER_LEN \<le> length bytes \<and> take 8 bytes = MAGIC"
    unfolding assms(1) using assemble_facts(1,2) [OF w(1)] by simp
  have cs: "check_sections bytes [0..<SECTIONS] IMAGE_HEADER_LEN = Inr (img_sections (assembled_image bytes ss store dims [dictionary_default, dictionary_default]), length bytes)"
    using assemble_sections [OF w(1) assms(2), of crc32 0] assms(1,3) by (simp add: section_start_def assembled_image_def)
  have up: "assembled_image bytes ss store dims [dictionary_default, dictionary_default]\<lparr>img_dictionaries := ds\<rparr> = assembled_image bytes ss store dims ds" for ds
    by (simp add: assembled_image_def)
  have img: "\<lparr>img_bytes = bytes, img_slots = slot_count store, img_chunks = chunk_count store, img_words = total_words store, img_docs = length (documents store),
      img_dimensions = dims, img_dictionaries = [dictionary_default, dictionary_default],
      img_sections = img_sections (assembled_image bytes ss store dims [dictionary_default, dictionary_default])\<rparr>
      = assembled_image bytes ss store dims [dictionary_default, dictionary_default]"
    by (simp add: assembled_image_def)
  have lists: "img_dictionaries (assembled_image bytes ss store dims ds) = ds" for ds by (simp add: assembled_image_def)
  show ?thesis
    unfolding image_new_def ensure_def if_P [OF c0] sum_bind_def sum.case cs prod.case hw or_panic_def option.case u Let_def img assms(5,6,7) lists
    using assms(8) up by (simp add: lists) (simp add: assembled_image_def)
qed


lemma owners_checked:
  assumes "store_wf store" "owners_ok store (documents store) os"
  shows "i < slot_count store \<Longrightarrow> fst (os ! i) = FREE \<or> unat (fst (os ! i)) < length (documents store)"
    "chunk_count store = card {i. i < slot_count store \<and> fst (os ! i) \<noteq> FREE}"
proof -
  have n: "length (documents store) < 2 ^ 32 - 1" using assms(1) by (simp add: store_wf_def)
  have nf: "unat (of_nat i :: u32) = i" "(of_nat i :: u32) \<noteq> FREE" if "i < length (documents store)" for i
  proof -
    show u: "unat (of_nat i :: u32) = i" using that n by (intro unat_of_nat32) simp
    show "(of_nat i :: u32) \<noteq> FREE"
    proof
      assume "(of_nat i :: u32) = FREE"
      then have "i = 0xFFFFFFFF" using u by (simp add: FREE_def)
      then show False using that n by simp
    qed
  qed
  have own: "fst (os ! slot) = of_nat i \<and> i < length (documents store)" if "owns store (documents store) slot i j" for slot i j
    using assms(2) that by (auto simp: owners_ok_def owns_def)
  have free: "os ! slot = (FREE, 0)" if "slot < slot_count store" "\<nexists>i j. owns store (documents store) slot i j" for slot
    using assms(2) that by (auto simp: owners_ok_def)
  show "fst (os ! i) = FREE \<or> unat (fst (os ! i)) < length (documents store)" if "i < slot_count store"
    using own free that nf by (cases "\<exists>a b. owns store (documents store) i a b") auto
  have "{i. i < slot_count store \<and> fst (os ! i) \<noteq> FREE} = {slot. \<exists>i j. owns store (documents store) slot i j}"
  proof (intro set_eqI iffI)
    fix slot assume "slot \<in> {i. i < slot_count store \<and> fst (os ! i) \<noteq> FREE}"
    then show "slot \<in> {slot. \<exists>i j. owns store (documents store) slot i j}" using free by fastforce
  next
    fix slot assume "slot \<in> {slot. \<exists>i j. owns store (documents store) slot i j}"
    then obtain i j where o: "owns store (documents store) slot i j" by blast
    then show "slot \<in> {i. i < slot_count store \<and> fst (os ! i) \<noteq> FREE}" using own [OF o] nf owns_slot [OF assms(1) o] by simp
  qed
  then show "chunk_count store = card {i. i < slot_count store \<and> fst (os ! i) \<noteq> FREE}" using assms(1) by (simp add: store_wf_def)
qed

text \<open>What an image serves of a store.\<close>

definition serves :: "ServingImage \<Rightarrow> 'j DocumentStore \<Rightarrow> (nat \<Rightarrow> rstr \<Rightarrow> posting_map) \<Rightarrow> bool" where
  "serves img store I \<longleftrightarrow>
     img_slots img = slot_count store \<and> img_chunks img = chunk_count store \<and> img_words img = total_words store \<and> img_docs img = length (documents store) \<and>
     (\<forall>key. image_ordinal img key = Some (position_of key (map fst (documents store)))) \<and>
     (\<forall>slot i j. owns store (documents store) slot i j \<longrightarrow> image_slot img slot = Some (word_counts store ! slot, of_nat i, of_nat j)) \<and>
     (\<forall>slot < slot_count store. (\<nexists>i j. owns store (documents store) slot i j) \<longrightarrow> slot_owner img slot = Some None) \<and>
     (\<forall>form < 2. \<forall>t. image_postings img form t = Some (if I form t = Map.empty then None
        else Some \<lparr>post_bytes = pack_checkpoint (listing (I form t)), post_count = of_nat (length (listing (I form t)))\<rparr>))"

text \<open>One form of an opened image.\<close>

lemma form_served:
  assumes "image_new bytes = Inr img" "slice_get (img_dictionaries img) form = Some dc" "form < 2"
    "byte_range (img_bytes img) (fst (dict_span dc)) (fst (dict_span dc) + snd (dict_span dc)) = Some dict"
    "byte_range (img_bytes img) (fst (block_span dc)) (fst (block_span dc) + snd (block_span dc)) = Some blocks"
    "section_bytes img PostingBytes = Some P" "P = before @ item_bytes (form_items J words) @ after"
    "dict_terms dc = length words" "raws_at dict 0 (code_items 0 [] (form_items J words)) q"
    "length words \<noteq> 0 \<Longrightarrow> block_entry blocks 0 0 (length before)" "list_all item_ok (form_items J words)" "set words = {t. J t \<noteq> Map.empty}"
  shows "image_postings img form t = Some (if J t = Map.empty then None
        else Some \<lparr>post_bytes = pack_checkpoint (listing (J t)), post_count = of_nat (length (listing (J t)))\<rparr>)"
proof -
  have "dc \<in> set (img_dictionaries img)" using assms(2) by (auto simp: slice_get_def split: if_splits)
  then obtain es st where d: "dictionary_ok img dc es st" using image_new_opened [OF assms(1)] by (auto simp: opened_def)
  have len: "length (form_items J words) = length words" by (simp add: form_items_def)
  have e: "dict_entries [] st es = placed_items (length before) (form_items J words)"
    by (rule written_entries [OF d assms(4,5) _ assms(9) _ assms(11)]) (use assms(8,10) len in simp_all)
  show ?thesis
    unfolding dictionary_reads(2) [OF d assms(2,6)] e served_items [OF assms(7)] form_items_of using assms(12) by simp
qed


text \<open>One form as it stands in the sections, and what becomes of it.\<close>

definition written_form :: "(rstr \<Rightarrow> posting_map) \<Rightarrow> u8 list \<Rightarrow> dict_state \<Rightarrow> u8 list \<Rightarrow> rstr list \<Rightarrow> bool" where
  "written_form J before = (\<lambda>(dict, blocks, n, _) P words. set words = {t. J t \<noteq> Map.empty} \<and> n = length words \<and>
     (\<exists>after. P = before @ item_bytes (form_items J words) @ after) \<and> length blocks = (n + (BLOCK - 1)) div BLOCK * 8 \<and> n < 2 ^ 32 \<and>
     list_all item_ok (form_items J words) \<and>
     check_entries blocks (length P) 0 n [] None (reader_new dict) = Inr ((), \<lparr>data = dict, at_pos = length dict\<rparr>) \<and>
     raws_at dict 0 (code_items 0 [] (form_items J words)) (length dict) \<and> (n \<noteq> 0 \<longrightarrow> block_entry blocks 0 0 (length before)))"

lemma encode_form_written:
  assumes "forms_held store I" "form < 2" "encode_form k (store_postings store ! form) before = Inr f" "P = snd (snd (snd f)) @ after" "length P < 2 ^ 32"
  shows "\<exists>words. written_form (I form) before f P words"
proof -
  obtain dict blocks n p where f: "f = (dict, blocks, n, p)" by (metis prod.exhaust)
  obtain W where W: "lists_hold W (store_postings store ! form) (I form)" "td_size (pls_dictionary (store_postings store ! form)) < 2 ^ 32"
      "\<And>t. I form t \<noteq> Map.empty \<Longrightarrow> utf8_valid t"
    using assms(1,2) by (auto simp: forms_held_def)
  have p: "length p < 2 ^ 32" "length p \<le> length P" "length P < 2 ^ 64" using assms(4,5) f by auto
  show ?thesis
    by (rule form_written [OF W(1,2) assms(3) [unfolded f] p(1) W(3)]) (use p(2,3) assms(4) f in \<open>auto simp: written_form_def\<close>)
qed

lemma written_form_passes:
  assumes "written_form J before (dict, blocks, n, p) P words" "header_word (img_bytes img) (H_TERMS + form) = Some (of_nat n)"
    "form_sections form = (ds, bs)" "section_bytes img ds = Some dict" "section_bytes img bs = Some blocks" "section_bytes img PostingBytes = Some P"
    "slice_get (img_sections img) (section_number ds) = Some d" "slice_get (img_sections img) (section_number bs) = Some b"
  shows "check_dictionary img form = Inr \<lparr>dict_span = d, block_span = b, dict_terms = n\<rparr>"
  by (rule check_dictionary_written [OF assms(2) _ assms(3-6) _ _ assms(7,8)]) (use assms(1) in \<open>auto simp: written_form_def\<close>)

lemma section_span:
  assumes "section_bytes img sc = Some bs" "slice_get (img_sections img) (section_number sc) = Some d"
  shows "byte_range (img_bytes img) (fst d) (fst d + snd d) = Some bs"
  using assms by (simp add: section_bytes_def split_def)

lemma written_form_served:
  assumes "written_form J before (dict, blocks, n, p) P words" "image_new bytes = Inr img" "form < 2"
    "slice_get (img_dictionaries img) form = Some dc" "dc = \<lparr>dict_span = d, block_span = b, dict_terms = n\<rparr>"
    "section_bytes img ds = Some dict" "section_bytes img bs = Some blocks" "section_bytes img PostingBytes = Some P"
    "slice_get (img_sections img) (section_number ds) = Some d" "slice_get (img_sections img) (section_number bs) = Some b"
  shows "image_postings img form t = Some (if J t = Map.empty then None
        else Some \<lparr>post_bytes = pack_checkpoint (listing (J t)), post_count = of_nat (length (listing (J t)))\<rparr>)"
proof -
  obtain after where a: "P = before @ item_bytes (form_items J words) @ after" using assms(1) by (auto simp: written_form_def)
  show ?thesis
    by (rule form_served [OF assms(2,4,3) _ _ assms(8) a])
      (use assms(1) section_span [OF assms(6,9)] section_span [OF assms(7,10)] assms(5) in \<open>auto simp: written_form_def\<close>)
qed

lemma checkpoint_section_parts:
  assumes "written store (documents store) rs s" "ss = checkpoint_sections store (dict0, blocks0, n0, p0) (dict1, blocks1, n1, p1) s rs"
  shows "length ss = SECTIONS" "ss ! section_number Dict0 = dict0" "ss ! section_number Blocks0 = blocks0"
    "ss ! section_number Dict1 = dict1" "ss ! section_number Blocks1 = blocks1" "ss ! section_number PostingBytes = p1"
    "ss ! section_number SlotTable = concat (map (slot_row (word_counts store) (ds_owners s)) [0..<slot_count store])"
    "ss ! section_number IdOffsets = offset_table (word_start (map fst (documents store))) (Suc (length (map fst (documents store))))"
    "ss ! section_number IdBytes = concat (map fst (documents store))"
    "ss ! section_number DocOffsets = offset_table (word_start rs) (Suc (length rs))" "ss ! section_number Docs = concat rs"
  using assms(1) by (simp_all add: assms(2) checkpoint_sections_def written_def SECTIONS_def del: upt_Suc)

lemma assembled_serves:
  assumes wf: "store_wf store" and w: "written store (documents store) rs s" "length (ds_ids s) < 2 ^ 32" "length (ds_docs s) < 2 ^ 32"
    and f: "written_form (I 0) [] (dict0, blocks0, n0, p0) p1 words0" "written_form (I 1) p0 (dict1, blocks1, n1, p1) p1 words1"
    and bytes: "bytes = assemble crc32 (header_base store g dims n0 n1) ss" "ss = checkpoint_sections store (dict0, blocks0, n0, p0) (dict1, blocks1, n1, p1) s rs"
    and small: "length bytes < 2 ^ 64" "dims < 2 ^ 64"
  shows "\<exists>img. image_new bytes = Inr img \<and> serves img store I"
proof -
  note parts = checkpoint_section_parts [OF w(1) bytes(2)]
  let ?img = "\<lambda>ds. assembled_image bytes ss store dims ds" and ?keys = "map fst (documents store)"
  let ?span = "\<lambda>sc. (section_start ss (section_number sc), length (ss ! section_number sc))"
  have sec: "section_bytes (?img ds) sc = Some (ss ! section_number sc)" "slice_get (img_sections (?img ds)) (section_number sc) = Some (?span sc)" for ds sc
    by (rule assembled_section [OF header_base_words(1) parts(1) bytes(1)])+
  have img: "img_bytes (?img ds) = bytes" "img_docs (?img ds) = length ?keys" "img_slots (?img ds) = slot_count store" "img_chunks (?img ds) = chunk_count store"
    "img_words (?img ds) = total_words store" "img_dictionaries (?img ds) = ds" for ds by (simp_all add: assembled_image_def)
  have ids: "length (concat ?keys) < 2 ^ 32" "length (concat rs) < 2 ^ 32" "length rs = length ?keys" using w by (simp_all add: written_def)
  have keys: "ssorted ?keys" "\<forall>key \<in> set ?keys. valid_key key" "length ?keys < 2 ^ 32"
    using wf by (auto simp: store_wf_def list_all_iff document_fits_def)
  have own: "owners_ok store (documents store) (ds_owners s)" using w(1) by (simp add: written_def)
  have secs: "section_bytes (?img ds) Dict0 = Some dict0" "section_bytes (?img ds) Blocks0 = Some blocks0" "section_bytes (?img ds) Dict1 = Some dict1"
    "section_bytes (?img ds) Blocks1 = Some blocks1" "section_bytes (?img ds) PostingBytes = Some p1"
    "section_bytes (?img ds) SlotTable = Some (concat (map (slot_row (word_counts store) (ds_owners s)) [0..<slot_count store]))"
    "section_bytes (?img ds) IdOffsets = Some (offset_table (word_start ?keys) (Suc (length ?keys)))" "section_bytes (?img ds) IdBytes = Some (concat ?keys)"
    "section_bytes (?img ds) DocOffsets = Some (offset_table (word_start rs) (Suc (length rs)))" "section_bytes (?img ds) Docs = Some (concat rs)" for ds
    by (simp_all only: sec parts)
  have docs: "check_documents (?img ds) = Inr ()" for ds
    by (rule check_documents_written [OF secs(7-10) img(2) ids(3) keys(3) ids(1,2) keys(1,2)])
  have sc: "slot_count store < 2 ^ 32" using wf by (simp add: store_wf_def)
  have oc: "\<forall>i < slot_count store. fst (ds_owners s ! i) = FREE \<or> unat (fst (ds_owners s ! i)) < img_docs (?img ds)"
    "img_chunks (?img ds) = card {i. i < slot_count store \<and> fst (ds_owners s ! i) \<noteq> FREE}" for ds
    unfolding img using owners_checked [OF wf own] by simp_all
  note slots = check_slots_written [OF secs(6) img(3) sc oc]
  have hd: "header_word (img_bytes (?img ds)) (H_TERMS + 0) = Some (of_nat n0)" "header_word (img_bytes (?img ds)) (H_TERMS + 1) = Some (of_nat n1)" for ds
    unfolding img using assembled_header [OF bytes(1), of H_TERMS] assembled_header [OF bytes(1), of "H_TERMS + 1"] header_base_words(2,3)
    by (simp_all add: H_TERMS_def H_SECTIONS_def)
  define d0 d1 where "d0 = \<lparr>dict_span = ?span Dict0, block_span = ?span Blocks0, dict_terms = n0\<rparr>" and "d1 = \<lparr>dict_span = ?span Dict1, block_span = ?span Blocks1, dict_terms = n1\<rparr>"
  have fs: "form_sections 0 = (Dict0, Blocks0)" "form_sections 1 = (Dict1, Blocks1)" by (simp_all add: form_sections_def)
  have dict: "check_dictionary (?img ds) 0 = Inr d0" "check_dictionary (?img ds) 1 = Inr d1" for ds
    unfolding d0_def d1_def
    by (rule written_form_passes [OF f(1) hd(1) fs(1) secs(1,2,5) sec(2) sec(2)],
        rule written_form_passes [OF f(2) hd(2) fs(2) secs(3,4,5) sec(2) sec(2)])
  have new: "image_new bytes = Inr (?img [d0, d1])"
    by (rule image_new_assembled [OF bytes(1) parts(1) small(1) wf docs slots(1) dict small(2)])
  have post: "image_postings (?img [d0, d1]) form t = Some (if I form t = Map.empty then None
        else Some \<lparr>post_bytes = pack_checkpoint (listing (I form t)), post_count = of_nat (length (listing (I form t)))\<rparr>)" if "form < 2" for form t
  proof -
    have d: "slice_get (img_dictionaries (?img [d0, d1])) 0 = Some d0" "slice_get (img_dictionaries (?img [d0, d1])) 1 = Some d1"
      unfolding img by (simp_all add: slice_get_def)
    have "form = 0 \<or> form = 1" using that by auto
    then show ?thesis
      using written_form_served [OF f(1) new _ d(1) d0_def secs(1,2,5) sec(2) sec(2), of t]
        written_form_served [OF f(2) new _ d(2) d1_def secs(3,4,5) sec(2) sec(2), of t] by auto
  qed
  have "serves (?img [d0, d1]) store I"
    unfolding serves_def
  proof (intro conjI allI impI post)
    fix slot i j assume o: "owns store (documents store) slot i j"
    then show "image_slot (?img [d0, d1]) slot = Some (word_counts store ! slot, of_nat i, of_nat j)"
      using slots(2) [OF owns_slot [OF wf o]] own by (simp add: owners_ok_def)
  next
    fix slot assume "slot < slot_count store" "\<nexists>i j. owns store (documents store) slot i j"
    then show "slot_owner (?img [d0, d1]) slot = Some None" using slots(2) own by (simp add: owners_ok_def slot_owner_def)
  qed (simp_all add: img image_ordinal_ok [OF written_ids [OF secs(7,8) img(2) ids(1) keys(1,2)]])
  then show ?thesis using new by blast
qed

lemma checkpoint_serves:
  assumes "store_wf store" "forms_held store I" "dimensions < 2 ^ 64"
  shows "outcome (\<lambda>bytes. length bytes < 2 ^ 64 \<longrightarrow> (\<exists>img. image_new bytes = Inr img \<and> serves img store I))
    (encode_checkpoint k crc32 to_vec text_of store generation dimensions)"
proof -
  have "\<exists>img. image_new bytes = Inr img \<and> serves img store I"
    if f: "encode_form k (store_postings store ! 0) [] = Inr f0" "encode_form k (store_postings store ! 1) (snd (snd (snd f0))) = Inr f1" "length (snd (snd (snd f1))) < 2 ^ 32"
      and w: "written store (documents store) rs s" "length (ds_ids s) < 2 ^ 32" "length (ds_docs s) < 2 ^ 32"
      and b: "bytes = assemble crc32 (header_base store generation dimensions (fst (snd (snd f0))) (fst (snd (snd f1)))) (checkpoint_sections store f0 f1 s rs)"
      and small: "length bytes < 2 ^ 64" for f0 f1 s rs bytes
  proof -
    obtain dict0 blocks0 n0 p0 where f0: "f0 = (dict0, blocks0, n0, p0)" by (metis prod.exhaust)
    obtain dict1 blocks1 n1 p1 where f1: "f1 = (dict1, blocks1, n1, p1)" by (metis prod.exhaust)
    obtain words1 where w1: "written_form (I 1) p0 f1 p1 words1"
      using encode_form_written [OF assms(2) _ f(2), of p1 "[]"] f(3) by (auto simp: f0 f1)
    then obtain after where "p1 = p0 @ after" by (auto simp: written_form_def f1)
    then obtain words0 where w0: "written_form (I 0) [] f0 p1 words0"
      using encode_form_written [OF assms(2) _ f(1), of p1 after] f(3) by (auto simp: f0 f1)
    show ?thesis
      by (rule assembled_serves [OF assms(1) w w0 [unfolded f0] w1 [unfolded f1] _ _ small assms(3)]) (simp_all add: b f0 f1)
  qed
  then show ?thesis using encode_checkpoint_parts [OF assms(1,2), of k crc32 generation dimensions to_vec text_of]
    by (auto simp: outcome_def split: sum.splits)
qed

section \<open>A checkpoint of one document\<close>

definition sample_chunk :: StoredChunk where
  "sample_chunk = \<lparr>chunk_name = [], chunk_text = None, text_at = None, start_byte = 0, end_byte = 1, chunk_vector = \<lparr>dim = 64, indices = []\<rparr>, embedding = None,
    chunk_terms = \<lparr>st_terms = Some (Tree [([97], 2)]), st_positions = None\<rparr>, word_count = 2, stemmed = False, vector_state = Lexical\<rparr>"

definition sample_store :: "PostingLists \<Rightarrow> unit DocumentStore" where
  "sample_store pls = \<lparr>documents = [([100], \<lparr>document_id = [100], source_uri = None, document_version = [49], doc_metadata = (), chunks = [sample_chunk]\<rparr>)],
     store_postings = [pls, pls_default], store_slots = [[100] \<mapsto> [0]], slot_count = 1, chunk_count = 1, total_words = 2, nonpositional_chunks = 1, word_counts = [2]\<rparr>"

definition sample_maps :: "nat \<Rightarrow> rstr \<Rightarrow> posting_map" where
  "sample_maps form = (\<lambda>t. if form = 0 \<and> t = [97] then [0 \<mapsto> (2, 0)] else Map.empty)"

lemma sample_owns: "owns (sample_store pls) (documents (sample_store pls)) slot i j \<longleftrightarrow> slot = 0 \<and> i = 0 \<and> j = 0"
  by (cases i) (auto simp: owns_def sample_store_def)

lemma sample_wf: "store_wf (sample_store pls)"
proof -
  have "utf8_valid [100 :: u8]" by (simp add: utf8_valid.simps)
  then have "document_fits (sample_store pls) (hd (documents (sample_store pls)))" by (simp add: document_fits_def sample_store_def valid_key_def)
  then have "list_all (document_fits (sample_store pls)) (documents (sample_store pls))" by (simp add: sample_store_def)
  then show ?thesis unfolding store_wf_def sample_owns by (simp add: sample_store_def)
qed

lemma sample_listing: "listing [0 \<mapsto> (2, 0)] = [(0, 2)]"
  by (simp add: listing_def)

lemma sample_lists:
  obtains pls where "insert_with_ordinal Scalar [97] 0 2 0 [2] pls_default = Some pls" "forms_held (sample_store pls) sample_maps"
proof -
  have w: "words_ok (slot_length [2])" by (auto simp: words_ok_def slot_length_def slice_get_def)
  have cost: "pls_cost pls_default = 0" by (simp add: pls_cost_def pls_default_def td_size_def td_default_def)
  obtain pls where p: "insert_with_ordinal Scalar [97] 0 2 0 [2] pls_default = Some pls"
      "lists_hold (\<lambda>_. slot_length [2]) pls ((\<lambda>_. Map.empty)([97] := Map.empty(0 \<mapsto> (2, 0))))" "pls_cost pls \<le> 2"
    using insert_with_ordinal_ok [OF pls_default_holds [of "\<lambda>_. slot_length [2]"] refl w, where t = "[97]" and slot = 0 and k = Scalar and f = 2 and n = 0] cost by auto
  have m: "sample_maps 0 = (\<lambda>_. Map.empty)([97] := Map.empty(0 \<mapsto> (2, 0)))" "sample_maps 1 = (\<lambda>_. Map.empty)"
    by (auto simp: sample_maps_def fun_eq_iff)
  have u: "utf8_valid [97 :: u8]" by (simp add: utf8_valid.simps)
  have l0: "lists_hold (\<lambda>_. slot_length [2]) pls (sample_maps 0)" unfolding m by (rule p(2))
  have l1: "lists_hold W pls_default (sample_maps 1)" for W unfolding m by (rule pls_default_holds)
  have v: "sample_maps form t \<noteq> Map.empty \<Longrightarrow> utf8_valid t" for form t using u by (auto simp: sample_maps_def split: if_splits)
  have t: "td_size (pls_dictionary pls) < 2 ^ 32" "td_size (pls_dictionary pls_default) < 2 ^ 32" using p(3) cost by (auto simp: pls_cost_def)
  have "(\<exists>W. lists_hold W (store_postings (sample_store pls) ! form) (sample_maps form)) \<and> td_size (pls_dictionary (store_postings (sample_store pls) ! form)) < 2 ^ 32"
    if "form < 2" for form using that l0 l1 t by (cases "form = 0") (auto simp: sample_store_def less_2_cases_iff)
  then have "forms_held (sample_store pls) sample_maps" unfolding forms_held_def using v by blast
  then show ?thesis using that p(1) by blast
qed


lemma encode_form_words:
  assumes "lists_hold W pls J" "td_size (pls_dictionary pls) < 2 ^ 32" "{t. J t \<noteq> Map.empty} = set words" "ssorted words"
  shows "encode_form k pls postings = map_sum id (\<lambda>(dict, blocks, postings). (dict, blocks, length words, postings))
    (write_items 0 [] (form_items J words) ([], [], postings))"
proof -
  obtain ws where w: "ssorted ws" "set ws = {t. J t \<noteq> Map.empty}" "length (concat ws) < 2 ^ 32"
    "\<And>t. t \<in> set ws \<Longrightarrow> listing (J t) \<noteq> [] \<and> length (listing (J t)) < 2 ^ 32 \<and> ssorted (map fst (listing (J t)))"
    "\<And>postings. encode_form k pls postings = map_sum id (\<lambda>(dict, blocks, postings). (dict, blocks, length ws, postings))
       (write_items 0 [] (form_items J ws) ([], [], postings))"
    by (rule encode_form_items [OF assms(1,2), where k = k]) (rule that)
  have "ws = words" using ssorted_unique [OF w(1) assms(4)] w(2) assms(3) by simp
  then show ?thesis using w(5) by simp
qed

lemma sample_encodes:
  obtains pls bytes where "insert_with_ordinal Scalar [97] 0 2 0 [2] pls_default = Some pls" "forms_held (sample_store pls) sample_maps"
    "encode_checkpoint Scalar (\<lambda>_. 0) (\<lambda>_. Some []) (\<lambda>_. Inr None) (sample_store pls) 0 16 = Inr bytes" "length bytes < 2 ^ 64"
proof -
  obtain pls where p: "insert_with_ordinal Scalar [97] 0 2 0 [2] pls_default = Some pls" "forms_held (sample_store pls) sample_maps"
    by (rule sample_lists)
  have h: "\<exists>W. lists_hold W pls (sample_maps 0)" "td_size (pls_dictionary pls) < 2 ^ 32" "\<exists>W. lists_hold W pls_default (sample_maps 1)"
      "td_size (pls_dictionary pls_default) < 2 ^ 32"
    using p(2) unfolding forms_held_def less_2_cases_iff by (auto simp: sample_store_def)
  have d0: "{t. sample_maps 0 t \<noteq> Map.empty} = set [[97]]" by (auto simp: sample_maps_def)
  have d1: "{t. sample_maps 1 t \<noteq> Map.empty} = set []" by (auto simp: sample_maps_def)
  have i0: "form_items (sample_maps 0) [[97]] = [([97], 1, pack_checkpoint [(0, 2)])]" by (simp add: form_items_def sample_maps_def sample_listing)
  have pk: "pack_checkpoint [(0, 2)] = [1, 2]" by code_simp
  have f0: "encode_form Scalar pls [] = Inr (raw_bytes (code_item 0 [] ([97], 1, [1, 2])), u32_le_bytes 0 @ u32_le_bytes 0, 1, [1, 2])"
    using h(1,2) encode_form_words [OF _ _ d0, of _ pls Scalar "[]"] by (auto simp: i0 pk write_item_def stop_bind_def)
  have f1: "encode_form Scalar pls_default [1, 2] = Inr ([], [], 0, [1, 2])"
    using h(3,4) encode_form_words [OF _ _ d1, of _ pls_default Scalar "[1, 2]"] by (auto simp: form_items_def)
  have rep: "checkpoint_representable (sample_store pls)" by (simp add: checkpoint_representable_def sample_store_def sample_chunk_def)
  have doc: "encode_document (\<lambda>_. Some []) (\<lambda>_. Inr None) \<lparr>document_id = [100], source_uri = None, document_version = [49], doc_metadata = (), chunks = [sample_chunk]\<rparr>
      = Inr [1, 49, 0, 0, 1, 1, 0, 0, 1, 0]" by code_simp
  have raw: "raw_bytes (code_item 0 [] ([97], 1, [1, 2])) = [0, 1, 97, 1, 2]" by code_simp
  have posts: "slice_get (store_postings (sample_store pls)) 0 = Some pls" "slice_get (store_postings (sample_store pls)) 1 = Some pls_default"
    by (simp_all add: slice_get_def sample_store_def)
  let ?D = "[1, 49, 0, 0, 1, 1, 0, 0, 1, 0] :: u8 list"
  let ?s = "\<lparr>ds_owners = [(0, 0)], ds_ids = [100], ds_id_offsets = u32_le_bytes 0, ds_docs = ?D, ds_doc_offsets = u32_le_bytes 0\<rparr>"
  have docs: "encode_documents (\<lambda>_. Some []) (\<lambda>_. Inr None) (sample_store pls) 0 (documents (sample_store pls)) (doc_start (sample_store pls)) = Inr ?s"
    using doc by (simp add: sample_store_def doc_start_def stop_bind_def fits_u32_def)
  have slots: "encode_slots (word_counts (sample_store pls)) 0 [(0, 0)] = Inr (u32_le_bytes 2 @ u32_le_bytes 0 @ u32_le_bytes 0)"
    by (simp add: sample_store_def stop_bind_def unless_panic_def slice_get_def)
  let ?ss = "[[0, 1, 97, 1, 2], u32_le_bytes 0 @ u32_le_bytes 0, [], [], [1, 2], u32_le_bytes 2 @ u32_le_bytes 0 @ u32_le_bytes 0,
    u32_le_bytes 0 @ u32_le_bytes 1, [100], u32_le_bytes 0 @ u32_le_bytes 10, ?D]"
  have e: "encode_checkpoint Scalar (\<lambda>_. 0) (\<lambda>_. Some []) (\<lambda>_. Inr None) (sample_store pls) 0 16
      = Inr (assemble (\<lambda>_. 0) (header_base (sample_store pls) 0 16 1 0) ?ss)"
    unfolding encode_checkpoint_def using rep f0 f1 docs slots raw posts
    by (simp add: stop_bind_def unless_panic_def fits_u32_def doc_start_def header_base_def)
  have "length (assemble (\<lambda>_. 0) (header_base (sample_store pls) 0 16 1 0) ?ss) < 2 ^ 64"
    unfolding assemble_facts(1) [OF header_base_words(1)] by (simp add: IMAGE_HEADER_LEN_def HEADER_WORDS_def)
  then show ?thesis using that [OF p e] by blast
qed


section \<open>The contract of a checkpoint\<close>

text \<open>
  C17. Writing a checkpoint of a well-formed store either stops without a panic (the store is not held, or a
  text or a metadata value cannot be read), or gives bytes that pass every check at open; the opened image has the
  counts of the store, gives every document its ordinal, every slot its owner, chunk index and word count, and
  every term of both forms exactly the packed postings of its list.
\<close>

theorem written_checkpoint_opens:
  assumes "store_wf store" "forms_held store I" "dimensions < 2 ^ 64"
  shows "case encode_checkpoint k crc32 to_vec text_of store generation dimensions of
      Inl e \<Rightarrow> e = NotHeld \<or> (\<exists>w. e = EncodeWrite w)
    | Inr bytes \<Rightarrow> length bytes < 2 ^ 64 \<longrightarrow> (\<exists>img. image_new bytes = Inr img \<and> serves img store I)"
  using checkpoint_serves [OF assms, of k crc32 to_vec text_of generation] by (simp add: outcome_def soft_stop_def split: sum.splits)

theorem written_checkpoint_opens_witness:
  "\<exists>pls bytes img. store_wf (sample_store pls) \<and> forms_held (sample_store pls) sample_maps \<and>
     encode_checkpoint Scalar (\<lambda>_. 0) (\<lambda>_. Some []) (\<lambda>_. Inr None) (sample_store pls) 0 16 = Inr bytes \<and> image_new bytes = Inr img \<and>
     image_postings img 0 [97] = Some (Some \<lparr>post_bytes = [1, 2], post_count = 1\<rparr>) \<and> image_ordinal img [100] = Some (Some 0)"
proof -
  obtain pls bytes where s: "forms_held (sample_store pls) sample_maps"
    "encode_checkpoint Scalar (\<lambda>_. 0) (\<lambda>_. Some []) (\<lambda>_. Inr None) (sample_store pls) 0 16 = Inr bytes" "length bytes < 2 ^ 64"
    using sample_encodes by metis
  have "(16 :: nat) < 2 ^ 64" by simp
  from written_checkpoint_opens [OF sample_wf s(1) this, of Scalar "\<lambda>_. 0" "\<lambda>_. Some []" "\<lambda>_. Inr None" 0] s(2,3)
  obtain img where img: "image_new bytes = Inr img" "serves img (sample_store pls) sample_maps" by auto
  have "pack_checkpoint (listing (sample_maps 0 [97])) = [1, 2]" "length (listing (sample_maps 0 [97])) = 1"
    unfolding sample_maps_def by (simp_all add: sample_listing, code_simp)
  then have "image_postings img 0 [97] = Some (Some \<lparr>post_bytes = [1, 2], post_count = 1\<rparr>)" "image_ordinal img [100] = Some (Some 0)"
    using img(2) by (simp_all add: serves_def sample_maps_def sample_store_def)
  then show ?thesis using sample_wf s(1,2) img(1) by blast
qed

text \<open>
  C18. What the checks at open give, whatever the bytes: ids are found by the binary search exactly where they stand,
  every slot has an owner that exists or none, and the lookup of a term (a binary search over blocks, then a scan
  that undoes the front coding from the middle of the dictionary) gives exactly the slice that reading all entries
  from the start gives, the order hydration reads them in; none of these reads panics.  The posting bytes inside a
  slice are not checked at open: the checked decoder of hydration never panics on them, and on every list it accepts
  the fast decoder of the searches does not panic and visits the same postings.
\<close>

theorem opened_checkpoint_reads:
  assumes "image_new bytes = Inr img"
  shows "(\<exists>ids. length ids = img_docs img \<and> ssorted ids \<and> (\<forall>i < img_docs img. image_id img i = Some (ids ! i)) \<and>
       (\<forall>key. lower_bound img key = Some (partition_point (\<lambda>t. t < key) ids) \<and> image_ordinal img key = Some (position_of key ids))) \<and>
     (\<forall>slot < img_slots img. \<exists>w owner key. image_slot_words img slot = Some w \<and> slot_owner img slot = Some owner \<and> slot_order img slot = Some key \<and>
       (\<forall>i. owner = Some i \<longrightarrow> i < img_docs img)) \<and>
     (\<forall>form < 2. \<exists>es postings. image_entries img form = Inr es \<and> section_bytes img PostingBytes = Some postings \<and> ssorted (map fst es) \<and>
       (\<forall>target. image_postings img form target =
          Some (map_option (\<lambda>(n, p, len). \<lparr>post_bytes = sub_slice postings p len, post_count = n\<rparr>) (map_of es target)))) \<and>
     (\<forall>form target ps f g s. image_postings img form target = Some (Some ps) \<longrightarrow> try_for_each f ps s \<noteq> Inl Panic \<and>
       (\<forall>s'. try_for_each (\<lambda>s p. (True, g s p)) ps s = Inr s' \<longrightarrow> for_each g ps s = Some s'))"
proof -
  obtain ids ss where o: "sections_ok img" "ids_ok img ids" "table_ok img ss" "length (img_dictionaries img) = 2"
      "\<forall>dc \<in> set (img_dictionaries img). \<exists>es st. dictionary_ok img dc es st"
    using image_new_opened [OF assms] by (auto simp: opened_def)
  have "\<exists>w owner key. image_slot_words img slot = Some w \<and> slot_owner img slot = Some owner \<and> slot_order img slot = Some key \<and> (\<forall>i. owner = Some i \<longrightarrow> i < img_docs img)"
    if sl: "slot < img_slots img" for slot
  proof -
    obtain w i c where s: "ss ! slot = (w, i, c)" by (metis prod.exhaust)
    have "ss ! slot \<in> set ss" using o(3) sl by (simp add: table_ok_def)
    then have "i = FREE \<or> unat i < img_docs img" using o(3) s by (auto simp: table_ok_def)
    then show ?thesis using o(2,3) sl s by (auto simp: table_ok_def ids_ok_def image_slot_words_def slot_owner_def slot_order_def)
  qed
  moreover have "\<exists>es postings. image_entries img form = Inr es \<and> section_bytes img PostingBytes = Some postings \<and> ssorted (map fst es) \<and>
       (\<forall>target. image_postings img form target =
          Some (map_option (\<lambda>(n, p, len). \<lparr>post_bytes = sub_slice postings p len, post_count = n\<rparr>) (map_of es target)))" if fm: "form < 2" for form
  proof -
    have g: "slice_get (img_dictionaries img) form = Some (img_dictionaries img ! form)" using o(4) fm by (simp add: slice_get_def)
    obtain es st where d: "dictionary_ok img (img_dictionaries img ! form) es st" using o(4,5) fm by (metis nth_mem)
    obtain postings where p: "section_bytes img PostingBytes = Some postings" using d by (auto simp: dictionary_ok_def)
    have "ssorted (map fst (dict_entries [] st es))" using d by (auto simp: dictionary_ok_def opened_dict_def)
    then show ?thesis using dictionary_reads [OF d g p] p by (auto simp: served_def)
  qed
  ultimately show ?thesis
    using o(2) lower_bound_ok [OF o(2)] image_ordinal_ok [OF o(2)] by (auto simp: ids_ok_def try_for_each_no_panic checked_then_fast)
qed

theorem opened_checkpoint_reads_witness:
  "\<exists>bytes img. image_new bytes = Inr img \<and> img_docs img = 1 \<and> img_slots img = 1 \<and>
     (\<exists>owner. slot_owner img 0 = Some owner) \<and> (\<exists>es. image_entries img 0 = Inr es \<and> ssorted (map fst es))"
proof -
  obtain pls bytes where s: "forms_held (sample_store pls) sample_maps"
    "encode_checkpoint Scalar (\<lambda>_. 0) (\<lambda>_. Some []) (\<lambda>_. Inr None) (sample_store pls) 0 16 = Inr bytes" "length bytes < 2 ^ 64"
    using sample_encodes by metis
  have "(16 :: nat) < 2 ^ 64" by simp
  from checkpoint_serves [OF sample_wf s(1) this, of Scalar "\<lambda>_. 0" "\<lambda>_. Some []" "\<lambda>_. Inr None" 0] s(2,3)
  obtain img where img: "image_new bytes = Inr img" "serves img (sample_store pls) sample_maps" by auto
  have n: "img_docs img = 1" "img_slots img = 1" using img(2) by (simp_all add: serves_def sample_store_def)
  note r = opened_checkpoint_reads [OF img(1)]
  have "\<exists>es. image_entries img 0 = Inr es \<and> ssorted (map fst es)" using conjunct1 [OF conjunct2 [OF conjunct2 [OF r]], rule_format, of 0] by auto
  moreover have "\<exists>owner. slot_owner img 0 = Some owner" using conjunct1 [OF conjunct2 [OF r], rule_format, of 0] n(2) by auto
  ultimately show ?thesis using n img(1) by blast
qed

end
