(* ===== verification/CheckpointBase.thy ===== *)
theory CheckpointBase
  imports CheckpointRoundtrip
begin

text \<open>
  The checkpoint below a live store, \<open>Base\<close> of \<open>src/core/documents/overlay.rs\<close>: which of its documents are dead, and the
  counts of what is left.  \<open>None\<close> stands for a panic; the counters that grow are unbounded, as they count slots and
  words of one checkpoint, and the subtractions wrap around as those of the release build do.
\<close>

unbundle bit_operations_syntax

record Base =
  base_image :: ServingImage
  dead_slots :: "u64 list"
  dead_documents :: "u64 list"
  dead_document_count :: usize
  dead_chunks :: usize
  dead_words :: usize
  document_slots :: "(u32 list \<times> u32 list) option"

definition base_bit :: "u64 list \<Rightarrow> nat \<Rightarrow> bool option" where
  "base_bit bits i = map_option (\<lambda>w. w AND push_bit (i mod 64) 1 \<noteq> 0) (slice_get bits (i div 64))"

definition base_new :: "ServingImage \<Rightarrow> Base" where
  "base_new img = \<lparr>base_image = img, dead_slots = replicate ((img_slots img + 63) div 64) 0,
     dead_documents = replicate ((img_docs img + 63) div 64) 0, dead_document_count = 0, dead_chunks = 0, dead_words = 0, document_slots = None\<rparr>"

definition intact :: "Base \<Rightarrow> bool" where "intact b \<longleftrightarrow> dead_document_count b = 0"

definition base_live :: "Base \<Rightarrow> rstr \<Rightarrow> nat option option" where
  "base_live b key =
     (case image_ordinal (base_image b) key of
        None \<Rightarrow> None
      | Some None \<Rightarrow> Some None
      | Some (Some i) \<Rightarrow> map_option (\<lambda>dead. if \<not> dead then Some i else None) (base_bit (dead_documents b) i))"

text \<open>Subtraction of \<open>usize\<close>; a debug build panics instead of wrapping around.\<close>

definition usize_sub :: "usize \<Rightarrow> usize \<Rightarrow> usize" where
  "usize_sub a b = unat (of_nat a - of_nat b :: u64)"

definition live_documents :: "Base \<Rightarrow> usize" where "live_documents b = usize_sub (img_docs (base_image b)) (dead_document_count b)"

text \<open>An iterator that is read to its end.\<close>

fun select_ordinals :: "(nat \<Rightarrow> bool option) \<Rightarrow> nat list \<Rightarrow> nat list option" where
  "select_ordinals keep [] = Some []"
| "select_ordinals keep (i # is) =
     (case keep i of None \<Rightarrow> None | Some k \<Rightarrow> map_option (\<lambda>rest. if k then i # rest else rest) (select_ordinals keep is))"

definition live_ordinals_from :: "Base \<Rightarrow> rstr option \<Rightarrow> nat list option" where
  "live_ordinals_from b from_id =
     (case (case from_id of None \<Rightarrow> Some 0 | Some key \<Rightarrow> lower_bound (base_image b) key) of
        None \<Rightarrow> None
      | Some start \<Rightarrow> select_ordinals (\<lambda>i. map_option Not (base_bit (dead_documents b) i)) [start..<img_docs (base_image b)])"

definition slot_dead :: "Base \<Rightarrow> nat \<Rightarrow> bool option" where "slot_dead b slot = base_bit (dead_slots b) slot"

definition dead_ordinals :: "Base \<Rightarrow> nat list option" where
  "dead_ordinals b = select_ordinals (base_bit (dead_documents b)) [0..<img_docs (base_image b)]"

definition live_chunks :: "Base \<Rightarrow> usize" where "live_chunks b = usize_sub (img_chunks (base_image b)) (dead_chunks b)"

definition live_words :: "Base \<Rightarrow> usize" where "live_words b = usize_sub (img_words (base_image b)) (dead_words b)"

text \<open>The slots of each document, by a counting sort over the owners.\<close>

fun count_slots :: "ServingImage \<Rightarrow> nat list \<Rightarrow> u32 list \<Rightarrow> u32 list option" where
  "count_slots img [] offs = Some offs"
| "count_slots img (slot # ss) offs =
     (case slot_owner img slot of
        None \<Rightarrow> None
      | Some None \<Rightarrow> count_slots img ss offs
      | Some (Some i) \<Rightarrow> if i + 1 < length offs then count_slots img ss (offs[i + 1 := offs ! (i + 1) + 1]) else None)"

fun prefix_sums :: "nat list \<Rightarrow> u32 list \<Rightarrow> u32 list" where
  "prefix_sums [] offs = offs"
| "prefix_sums (i # is) offs = prefix_sums is (offs[i + 1 := offs ! (i + 1) + offs ! i])"

fun place_slots :: "ServingImage \<Rightarrow> nat list \<Rightarrow> u32 list \<Rightarrow> u32 list \<Rightarrow> u32 list option" where
  "place_slots img [] nxt ss = Some ss"
| "place_slots img (slot # rest) nxt ss =
     (case slot_owner img slot of
        None \<Rightarrow> None
      | Some None \<Rightarrow> place_slots img rest nxt ss
      | Some (Some i) \<Rightarrow>
          if i < length nxt \<and> unat (nxt ! i) < length ss
          then place_slots img rest (nxt[i := nxt ! i + 1]) (ss[unat (nxt ! i) := of_nat slot]) else None)"

definition slots_by_document :: "ServingImage \<Rightarrow> (u32 list \<times> u32 list) option" where
  "slots_by_document img =
     (let n = img_docs img; all = [0..<img_slots img]
      in case count_slots img all (replicate (n + 1) 0) of
           None \<Rightarrow> None
         | Some offs \<Rightarrow>
             let offs = prefix_sums [0..<n] offs
             in map_option (Pair offs) (place_slots img all offs (replicate (unat (offs ! n)) 0)))"

fun kill_slots :: "nat list \<Rightarrow> Base \<Rightarrow> Base option" where
  "kill_slots [] b = Some b"
| "kill_slots (slot # ss) b =
     (case (slice_get (dead_slots b) (slot div 64), image_slot_words (base_image b) slot) of
        (Some w, Some words) \<Rightarrow>
          kill_slots ss (b\<lparr>dead_slots := (dead_slots b)[slot div 64 := w OR push_bit (slot mod 64) 1],
            dead_chunks := dead_chunks b + 1, dead_words := dead_words b + unat words\<rparr>)
      | _ \<Rightarrow> None)"

definition base_kill :: "nat \<Rightarrow> Base \<Rightarrow> Base option" where
  "base_kill i b =
     (case (case document_slots b of Some t \<Rightarrow> Some t | None \<Rightarrow> slots_by_document (base_image b)) of
        None \<Rightarrow> None
      | Some (offs, ss) \<Rightarrow>
          let b = b\<lparr>document_slots := Some (offs, ss)\<rparr>
          in if i + 1 < length offs \<and> unat (offs ! i) \<le> unat (offs ! (i + 1)) \<and> unat (offs ! (i + 1)) \<le> length ss
             then case kill_slots (map unat (take (unat (offs ! (i + 1)) - unat (offs ! i)) (drop (unat (offs ! i)) ss))) b of
                    None \<Rightarrow> None
                  | Some b \<Rightarrow>
                      map_option (\<lambda>w. b\<lparr>dead_documents := (dead_documents b)[i div 64 := w OR push_bit (i mod 64) 1],
                          dead_document_count := dead_document_count b + 1\<rparr>) (slice_get (dead_documents b) (i div 64))
             else None)"

fun base_kills :: "nat list \<Rightarrow> Base \<Rightarrow> Base option" where
  "base_kills [] b = Some b"
| "base_kills (i # is) b = (case base_kill i b of None \<Rightarrow> None | Some b \<Rightarrow> base_kills is b)"

section \<open>The slots of a document\<close>

text \<open>What the checks at open establish, and fewer than \<open>2 ^ 32\<close> slots.\<close>

definition owners_known :: "ServingImage \<Rightarrow> bool" where
  "owners_known img \<longleftrightarrow> img_slots img < 2 ^ 32 \<and> (\<forall>s < img_slots img. \<exists>w owner. image_slot_words img s = Some w \<and>
     slot_owner img s = Some owner \<and> (\<forall>i. owner = Some i \<longrightarrow> i < img_docs img))"

lemma opened_owners_known: "opened img \<Longrightarrow> img_slots img < 2 ^ 32 \<Longrightarrow> owners_known img"
proof -
  assume o: "opened img" and n: "img_slots img < 2 ^ 32"
  obtain ss where ss: "table_ok img ss" using o by (auto simp: opened_def)
  have "\<exists>w owner. image_slot_words img s = Some w \<and> slot_owner img s = Some owner \<and> (\<forall>i. owner = Some i \<longrightarrow> i < img_docs img)"
    if "s < img_slots img" for s
  proof -
    obtain w i c where e: "ss ! s = (w, i, c)" by (metis prod.exhaust)
    have "ss ! s \<in> set ss" using ss that by (simp add: table_ok_def)
    then have "i = FREE \<or> unat i < img_docs img" using ss e by (auto simp: table_ok_def)
    then show ?thesis using ss that e by (auto simp: table_ok_def image_slot_words_def slot_owner_def)
  qed
  then show ?thesis using n by (simp add: owners_known_def)
qed

definition owned :: "ServingImage \<Rightarrow> nat list \<Rightarrow> nat \<Rightarrow> nat list" where
  "owned img ss i = filter (\<lambda>s. slot_owner img s = Some (Some i)) ss"

lemma owned_simps [simp]: "owned img [] i = []" "owned img (s # ss) i = (if slot_owner img s = Some (Some i) then s # owned img ss i else owned img ss i)"
  "owned img (ss @ ts) i = owned img ss i @ owned img ts i"
  by (simp_all add: owned_def)

abbreviation document_owned :: "ServingImage \<Rightarrow> nat \<Rightarrow> nat list" where
  "document_owned img \<equiv> owned img [0..<img_slots img]"

lemma slot_owner_cases:
  assumes "owners_known img" "s < img_slots img"
  obtains "slot_owner img s = Some None" | i where "slot_owner img s = Some (Some i)" "i < img_docs img"
  using assms unfolding owners_known_def by (metis not_None_eq)

lemma count_slots_ok:
  assumes "owners_known img" "\<forall>s \<in> set ss. s < img_slots img" "length offs = img_docs img + 1"
  shows "\<exists>r. count_slots img ss offs = Some r \<and> length r = length offs \<and> r ! 0 = offs ! 0 \<and>
    (\<forall>i < img_docs img. r ! Suc i = offs ! Suc i + of_nat (length (owned img ss i)))"
  using assms(2,3)
proof (induction ss arbitrary: offs)
  case (Cons s ss)
  have s: "s < img_slots img" "\<forall>s \<in> set ss. s < img_slots img" using Cons.prems(1) by auto
  show ?case
  proof (cases rule: slot_owner_cases [OF assms(1) s(1)])
    case 1
    then show ?thesis using Cons.IH [OF s(2) Cons.prems(2)] by simp
  next
    case (2 i)
    let ?offs = "offs[Suc i := offs ! Suc i + 1]"
    obtain r where r: "count_slots img ss ?offs = Some r" "length r = length offs" "r ! 0 = ?offs ! 0"
      "\<forall>j < img_docs img. r ! Suc j = ?offs ! Suc j + of_nat (length (owned img ss j))"
      using Cons.IH [OF s(2), of ?offs] Cons.prems(2) by auto
    have "r ! Suc j = offs ! Suc j + of_nat (length (owned img (s # ss) j))" if "j < img_docs img" for j
      using r(4) that 2 Cons.prems(2) by (cases "j = i") auto
    then show ?thesis using r 2 Cons.prems(2) by simp
  qed
qed simp

lemma prefix_sums_snoc: "prefix_sums (is @ [i]) offs = (let r = prefix_sums is offs in r[i + 1 := r ! (i + 1) + r ! i])"
  by (induction "is" arbitrary: offs) (simp_all add: Let_def)

lemma prefix_sums_ok:
  assumes "m < length offs"
  shows "length (prefix_sums [0..<m] offs) = length offs"
    "j \<le> m \<Longrightarrow> prefix_sums [0..<m] offs ! j = sum_list (map (\<lambda>i. offs ! i) [0..<Suc j])"
proof -
  have "length (prefix_sums [0..<m] offs) = length offs \<and> (\<forall>j \<le> m. prefix_sums [0..<m] offs ! j = sum_list (map (\<lambda>i. offs ! i) [0..<Suc j])) \<and>
      (\<forall>j. m < j \<and> j < length offs \<longrightarrow> prefix_sums [0..<m] offs ! j = offs ! j)"
    using assms
  proof (induction m)
    case (Suc m)
    let ?r = "prefix_sums [0..<m] offs"
    have ih: "length ?r = length offs" "\<And>j. j \<le> m \<Longrightarrow> ?r ! j = sum_list (map (\<lambda>i. offs ! i) [0..<Suc j])"
      "\<And>j. m < j \<Longrightarrow> j < length offs \<Longrightarrow> ?r ! j = offs ! j" using Suc by auto
    have r: "prefix_sums [0..<Suc m] offs = ?r[Suc m := ?r ! Suc m + ?r ! m]" by (simp add: prefix_sums_snoc Let_def)
    have "prefix_sums [0..<Suc m] offs ! j = sum_list (map (\<lambda>i. offs ! i) [0..<Suc j])" if "j \<le> Suc m" for j
      using that ih(1) ih(2) [of j] ih(2) [of m] ih(3) [of "Suc m"] Suc.prems unfolding r by (cases "j = Suc m") (auto simp: add.commute)
    then show ?case using ih(1,3) unfolding r by auto
  qed simp
  then show "length (prefix_sums [0..<m] offs) = length offs"
    "j \<le> m \<Longrightarrow> prefix_sums [0..<m] offs ! j = sum_list (map (\<lambda>i. offs ! i) [0..<Suc j])" by auto
qed

definition first_slot :: "ServingImage \<Rightarrow> nat \<Rightarrow> nat" where
  "first_slot img i = sum_list (map (\<lambda>j. length (document_owned img j)) [0..<i])"

lemma first_slot_Suc: "first_slot img (Suc i) = first_slot img i + length (document_owned img i)"
  by (simp add: first_slot_def)

lemma first_slot_mono: "i \<le> j \<Longrightarrow> first_slot img i \<le> first_slot img j"
  by (induction j) (auto simp: le_Suc_eq first_slot_Suc)

lemma filter_one: "distinct js \<Longrightarrow> length (filter (\<lambda>j. k = j) js) \<le> 1"
  by (induction js) (auto simp: filter_empty_conv)

lemma first_slot_bound: "first_slot img i \<le> img_slots img"
proof -
  have "sum_list (map (\<lambda>j. length (owned img ss j)) [0..<i]) \<le> length ss" for ss
  proof (induction ss)
    case (Cons s ss)
    have "sum_list (map (\<lambda>j. length (owned img (s # ss) j)) is)
        = sum_list (map (\<lambda>j. length (owned img ss j)) is) + length (filter (\<lambda>j. slot_owner img s = Some (Some j)) is)" for "is"
      by (induction "is") auto
    moreover have "length (filter (\<lambda>j. slot_owner img s = Some (Some j)) [0..<i]) \<le> 1"
      using filter_one [of "[0..<i]"] by (cases "slot_owner img s"; cases "the (slot_owner img s)") auto
    ultimately show ?case using Cons by simp
  qed (simp add: map_replicate_const)
  from this [of "[0..<img_slots img]"] show ?thesis by (simp add: first_slot_def)
qed


definition placed_ok :: "ServingImage \<Rightarrow> nat list \<Rightarrow> u32 list \<Rightarrow> bool" where
  "placed_ok img pre arr \<longleftrightarrow> length arr = first_slot img (img_docs img) \<and>
     (\<forall>i < img_docs img. \<forall>j < length (owned img pre i). arr ! (first_slot img i + j) = of_nat (owned img pre i ! j))"

lemma first_slot_apart:
  assumes "i \<noteq> i'" "j < length (document_owned img i)" "j' < length (document_owned img i')"
  shows "first_slot img i + j \<noteq> first_slot img i' + j'"
proof -
  have "first_slot img a + x < first_slot img b + y" if "a < b" "x < length (document_owned img a)" for a b x y
  proof -
    have "first_slot img a + x < first_slot img (Suc a)" using that(2) by (simp add: first_slot_Suc)
    also have "\<dots> \<le> first_slot img b" using that(1) by (intro first_slot_mono) simp
    finally show ?thesis by simp
  qed
  then show ?thesis using assms by (metis nat_neq_iff)
qed

lemma place_slots_ok:
  assumes "owners_known img" "[0..<img_slots img] = pre @ ss" "length nxt = img_docs img + 1"
    "\<forall>i < img_docs img. nxt ! i = of_nat (first_slot img i + length (owned img pre i))" "placed_ok img pre arr"
  shows "\<exists>r. place_slots img ss nxt arr = Some r \<and> placed_ok img [0..<img_slots img] r"
  using assms(2-5)
proof (induction ss arbitrary: pre nxt arr)
  case (Cons s ss)
  have s: "s < img_slots img" using Cons.prems(1) by (metis atLeastLessThan_iff in_set_conv_decomp set_upt)
  have all: "[0..<img_slots img] = (pre @ [s]) @ ss" using Cons.prems(1) by simp
  show ?case
  proof (cases rule: slot_owner_cases [OF assms(1) s])
    case 1
    then have "owned img (pre @ [s]) i = owned img pre i" for i by simp
    then show ?thesis using Cons.IH [OF all, of nxt arr] Cons.prems 1 by (simp add: placed_ok_def)
  next
    case (2 i)
    let ?p = "first_slot img i + length (owned img pre i)"
    have own: "document_owned img i = owned img pre i @ s # owned img ss i" using Cons.prems(1) 2(1) by (simp only: owned_simps) simp
    have "?p < first_slot img (Suc i)" using own by (simp add: first_slot_Suc)
    also have "\<dots> \<le> first_slot img (img_docs img)" using 2(2) by (intro first_slot_mono) simp
    finally have p: "?p < first_slot img (img_docs img)" .
    have pn: "?p < 2 ^ 32" using p first_slot_bound [of img "img_docs img"] assms(1) by (simp add: owners_known_def)
    have nx: "nxt ! i = of_nat ?p" "unat (nxt ! i) = ?p" using Cons.prems(3) 2(2) unat_of_nat32 [OF pn] by simp_all
    have la: "length arr = first_slot img (img_docs img)" using Cons.prems(4) by (simp add: placed_ok_def)
    let ?n = "nxt[i := nxt ! i + 1]" and ?a = "arr[?p := of_nat s]"
    have n': "\<forall>j < img_docs img. ?n ! j = of_nat (first_slot img j + length (owned img (pre @ [s]) j))"
    proof (intro allI impI)
      fix j assume j: "j < img_docs img"
      show "?n ! j = of_nat (first_slot img j + length (owned img (pre @ [s]) j))"
        using Cons.prems(2,3) j 2 nx(1) by (cases "j = i") (auto simp: add.assoc)
    qed
    have "?a ! (first_slot img k + j) = of_nat (owned img (pre @ [s]) k ! j)"
      if k: "k < img_docs img" "j < length (owned img (pre @ [s]) k)" for k j
    proof (cases "k = i \<and> j = length (owned img pre i)")
      case True
      then show ?thesis using p la 2(1) by (simp add: nth_append)
    next
      case False
      then have j: "j < length (owned img pre k)" using k(2) 2(1) by (auto split: if_splits)
      have "length (owned img pre k) \<le> length (document_owned img k)" unfolding Cons.prems(1) by simp
      then have "first_slot img k + j \<noteq> ?p"
        using first_slot_apart [of k i j img "length (owned img pre i)"] False j own by (cases "k = i") auto
      then show ?thesis using Cons.prems(4) k(1) j by (auto simp: placed_ok_def nth_append)
    qed
    then have a': "placed_ok img (pre @ [s]) ?a" using la unfolding placed_ok_def by simp
    have "place_slots img (s # ss) nxt arr = place_slots img ss ?n ?a" using 2 nx Cons.prems(2) la p by simp
    then show ?thesis using Cons.IH [OF all _ n' a'] Cons.prems(2) by simp
  qed
qed simp

lemma slots_by_document_ok:
  assumes "owners_known img"
  obtains offs ss where "slots_by_document img = Some (offs, ss)" "length offs = img_docs img + 1" "\<forall>i \<le> img_docs img. unat (offs ! i) = first_slot img i"
    "placed_ok img [0..<img_slots img] ss"
proof -
  let ?n = "img_docs img"
  obtain c where c: "count_slots img [0..<img_slots img] (replicate (?n + 1) 0) = Some c" "length c = ?n + 1" "c ! 0 = 0"
      "\<forall>i < ?n. c ! Suc i = of_nat (length (document_owned img i))"
    using count_slots_ok [OF assms, of "[0..<img_slots img]" "replicate (?n + 1) 0"] by auto
  let ?offs = "prefix_sums [0..<?n] c"
  have po: "length ?offs = ?n + 1" "\<And>j. j \<le> ?n \<Longrightarrow> ?offs ! j = sum_list (map (\<lambda>i. c ! i) [0..<Suc j])"
    using prefix_sums_ok [of ?n c] c(2) by simp_all
  have sum: "sum_list (map (\<lambda>i. c ! i) [0..<Suc j]) = of_nat (first_slot img j)" if "j \<le> ?n" for j
    using that by (induction j) (auto simp: first_slot_def c(3,4))
  have small: "first_slot img j < 2 ^ 32" for j using first_slot_bound [of img j] assms by (simp add: owners_known_def)
  have offs: "?offs ! j = of_nat (first_slot img j)" "unat (?offs ! j) = first_slot img j" if "j \<le> ?n" for j
    using po(2) sum that unat_of_nat32 [OF small] by simp_all
  have "placed_ok img [] (replicate (unat (?offs ! ?n)) 0)" using offs(2) by (simp add: placed_ok_def)
  then obtain ss where ss: "place_slots img [0..<img_slots img] ?offs (replicate (unat (?offs ! ?n)) 0) = Some ss" "placed_ok img [0..<img_slots img] ss"
    using place_slots_ok [OF assms, of "[]" "[0..<img_slots img]" ?offs] po(1) offs(1) by auto
  have "slots_by_document img = Some (?offs, ss)" using c(1) ss(1) by (simp add: slots_by_document_def Let_def)
  then show ?thesis using that [OF _ po(1) _ ss(2)] offs(2) by blast
qed

lemma document_slice:
  assumes "placed_ok img [0..<img_slots img] ss" "i < img_docs img" "owners_known img"
  shows "map unat (take (length (document_owned img i)) (drop (first_slot img i) ss)) = document_owned img i"
proof (rule nth_equalityI)
  have "first_slot img (Suc i) \<le> first_slot img (img_docs img)" using assms(2) by (intro first_slot_mono) simp
  then have l: "first_slot img i + length (document_owned img i) \<le> length ss" using assms(1) by (simp add: placed_ok_def first_slot_Suc)
  then show "length (map unat (take (length (document_owned img i)) (drop (first_slot img i) ss))) = length (document_owned img i)" by simp
  fix j assume "j < length (map unat (take (length (document_owned img i)) (drop (first_slot img i) ss)))"
  then have j: "j < length (document_owned img i)" by simp
  then have "document_owned img i ! j < 2 ^ 32" using nth_mem [OF j] assms(3) by (auto simp: owned_def owners_known_def)
  then show "map unat (take (length (document_owned img i)) (drop (first_slot img i) ss)) ! j = document_owned img i ! j"
    using j l assms(1,2) by (simp add: placed_ok_def unat_of_nat32)
qed


section \<open>Sets as bits\<close>

definition holds_bits :: "u64 list \<Rightarrow> nat \<Rightarrow> nat set \<Rightarrow> bool" where
  "holds_bits bits n S \<longleftrightarrow> length bits = (n + 63) div 64 \<and> (\<forall>i < n. base_bit bits i = Some (i \<in> S))"

lemma base_bit_at: "i div 64 < length bits \<Longrightarrow> base_bit bits i = Some (bit (bits ! (i div 64)) (i mod 64))"
  by (simp add: base_bit_def slice_get_def and_exp_eq_0_iff_not_bit flip: push_bit_eq_mult)

lemma word_in_range: "i < n \<Longrightarrow> i div 64 < (n + 63) div (64 :: nat)"
proof -
  assume "i < n"
  then have "i + 64 \<le> n + 63" by simp
  then have "(i + 64) div 64 \<le> (n + 63) div 64" by (rule div_le_mono)
  then show ?thesis by simp
qed

lemma empty_bits: "holds_bits (replicate ((n + 63) div 64) 0) n {}"
  unfolding holds_bits_def using word_in_range by (auto simp: base_bit_at)

lemma set_bit_holds:
  assumes "holds_bits bits n S" "s < n"
  shows "slice_get bits (s div 64) = Some (bits ! (s div 64))" "holds_bits (bits[s div 64 := bits ! (s div 64) OR push_bit (s mod 64) 1]) n (insert s S)"
proof -
  have l: "length bits = (n + 63) div 64" and b: "\<And>i. i < n \<Longrightarrow> base_bit bits i = Some (i \<in> S)" using assms(1) by (auto simp: holds_bits_def)
  have r: "i div 64 < length bits" if "i < n" for i using word_in_range [OF that] l by simp
  show "slice_get bits (s div 64) = Some (bits ! (s div 64))" using r [OF assms(2)] by (simp add: slice_get_def)
  have "base_bit (bits[s div 64 := bits ! (s div 64) OR push_bit (s mod 64) 1]) i = Some (i \<in> insert s S)" if i: "i < n" for i
  proof (cases "i div 64 = s div 64")
    case True
    then have "i = s \<longleftrightarrow> i mod 64 = s mod 64" by (metis div_mult_mod_eq)
    then show ?thesis using b [OF i] r [OF i] r [OF assms(2)] True
      by (auto simp: base_bit_at bit_or_iff bit_exp_iff)
  next
    case False
    then show ?thesis using b [OF i] r [OF i] by (auto simp: base_bit_at)
  qed
  then show "holds_bits (bits[s div 64 := bits ! (s div 64) OR push_bit (s mod 64) 1]) n (insert s S)" using l by (simp add: holds_bits_def)
qed

section \<open>Killing documents\<close>

definition words_of :: "ServingImage \<Rightarrow> nat \<Rightarrow> nat" where "words_of img s = unat (the (image_slot_words img s))"

lemma kill_slots_ok:
  assumes "owners_known (base_image b)" "\<forall>s \<in> set ss. s < img_slots (base_image b)" "holds_bits (dead_slots b) (img_slots (base_image b)) S"
  shows "\<exists>bits. kill_slots ss b = Some (b\<lparr>dead_slots := bits, dead_chunks := dead_chunks b + length ss,
      dead_words := dead_words b + sum_list (map (words_of (base_image b)) ss)\<rparr>) \<and> holds_bits bits (img_slots (base_image b)) (S \<union> set ss)"
  using assms
proof (induction ss arbitrary: b S)
  case Nil
  then show ?case by (intro exI [of _ "dead_slots b"]) simp
next
  case (Cons s ss)
  have s: "s < img_slots (base_image b)" using Cons.prems(2) by simp
  obtain w where w: "image_slot_words (base_image b) s = Some w" using Cons.prems(1) s by (auto simp: owners_known_def)
  note sb = set_bit_holds [OF Cons.prems(3) s]
  let ?b = "b\<lparr>dead_slots := (dead_slots b)[s div 64 := dead_slots b ! (s div 64) OR push_bit (s mod 64) 1], dead_chunks := dead_chunks b + 1,
    dead_words := dead_words b + unat w\<rparr>"
  have k: "kill_slots (s # ss) b = kill_slots ss ?b" unfolding kill_slots.simps sb(1) w option.case prod.case by simp
  obtain bits where bits: "kill_slots ss ?b = Some (?b\<lparr>dead_slots := bits, dead_chunks := dead_chunks ?b + length ss,
      dead_words := dead_words ?b + sum_list (map (words_of (base_image ?b)) ss)\<rparr>)" "holds_bits bits (img_slots (base_image ?b)) (insert s S \<union> set ss)"
    using Cons.IH [of ?b "insert s S"] Cons.prems(1,2) sb(2) by auto
  have "words_of (base_image b) s = unat w" using w by (simp add: words_of_def)
  then show ?case unfolding k bits(1) using bits(2) by (intro exI [of _ bits]) (simp add: add.assoc)
qed

definition dead_list :: "ServingImage \<Rightarrow> nat set \<Rightarrow> nat list" where
  "dead_list img D = filter (\<lambda>s. \<exists>i \<in> D. slot_owner img s = Some (Some i)) [0..<img_slots img]"

lemma sum_filter_or:
  "(\<And>x. x \<in> set xs \<Longrightarrow> \<not> (P x \<and> Q x)) \<Longrightarrow> sum_list (map f (filter (\<lambda>x. P x \<or> Q x) xs)) = sum_list (map f (filter P xs)) + (sum_list (map f (filter Q xs)) :: nat)"
  by (induction xs) auto

lemma dead_list_insert:
  assumes "i \<notin> D"
  shows "sum_list (map f (dead_list img (insert i D))) = sum_list (map f (dead_list img D)) + (sum_list (map f (document_owned img i)) :: nat)"
proof -
  have "dead_list img (insert i D) = filter (\<lambda>s. (\<exists>i \<in> D. slot_owner img s = Some (Some i)) \<or> slot_owner img s = Some (Some i)) [0..<img_slots img]"
    unfolding dead_list_def by (rule filter_cong) auto
  moreover have "\<And>s. \<not> ((\<exists>i \<in> D. slot_owner img s = Some (Some i)) \<and> slot_owner img s = Some (Some i))" using assms by auto
  then have "sum_list (map f (filter (\<lambda>s. (\<exists>i \<in> D. slot_owner img s = Some (Some i)) \<or> slot_owner img s = Some (Some i)) [0..<img_slots img])) =
      sum_list (map f (dead_list img D)) + sum_list (map f (filter (\<lambda>s. slot_owner img s = Some (Some i)) [0..<img_slots img]))"
    unfolding dead_list_def by (intro sum_filter_or)
  ultimately show ?thesis by (simp add: owned_def)
qed

definition kills_held :: "Base \<Rightarrow> ServingImage \<Rightarrow> nat list \<Rightarrow> bool" where
  "kills_held b img is \<longleftrightarrow> base_image b = img \<and> (document_slots b = None \<or> document_slots b = slots_by_document img) \<and>
     holds_bits (dead_documents b) (img_docs img) (set is) \<and> holds_bits (dead_slots b) (img_slots img) (set (dead_list img (set is))) \<and>
     dead_document_count b = length is \<and> dead_chunks b = length (dead_list img (set is)) \<and>
     dead_words b = sum_list (map (words_of img) (dead_list img (set is)))"

lemma base_new_ok: "kills_held (base_new img) img []"
  by (simp add: kills_held_def base_new_def empty_bits dead_list_def)

lemma length_as_sum: "length xs = sum_list (map (\<lambda>_. 1 :: nat) xs)"
  by (induction xs) auto

lemma base_kill_ok:
  assumes "kills_held b img is" "owners_known img" "i < img_docs img" "i \<notin> set is"
  shows "\<exists>b'. base_kill i b = Some b' \<and> kills_held b' img (is @ [i])"
proof -
  note ok = assms(1) [unfolded kills_held_def]
  obtain offs ss where t: "slots_by_document img = Some (offs, ss)" "length offs = img_docs img + 1" "\<forall>i \<le> img_docs img. unat (offs ! i) = first_slot img i"
      "placed_ok img [0..<img_slots img] ss"
    by (rule slots_by_document_ok [OF assms(2)])
  have tb: "(case document_slots b of Some t \<Rightarrow> Some t | None \<Rightarrow> slots_by_document (base_image b)) = Some (offs, ss)" using ok t(1) by auto
  have o: "unat (offs ! i) = first_slot img i" "unat (offs ! (i + 1)) = first_slot img (Suc i)" using t(3) assms(3) by simp_all
  have "first_slot img (Suc i) \<le> first_slot img (img_docs img)" using assms(3) by (intro first_slot_mono) simp
  then have c: "i + 1 < length offs \<and> unat (offs ! i) \<le> unat (offs ! (i + 1)) \<and> unat (offs ! (i + 1)) \<le> length ss"
    using t(2,4) o assms(3) by (simp add: placed_ok_def first_slot_Suc)
  let ?b = "b\<lparr>document_slots := Some (offs, ss)\<rparr>" and ?mine = "document_owned img i"
  have sl: "map unat (take (unat (offs ! (i + 1)) - unat (offs ! i)) (drop (unat (offs ! i)) ss)) = ?mine"
    using document_slice [OF t(4) assms(3,2)] unfolding o by (simp add: first_slot_Suc)
  obtain bits where k: "kill_slots ?mine ?b = Some (?b\<lparr>dead_slots := bits, dead_chunks := dead_chunks ?b + length ?mine,
      dead_words := dead_words ?b + sum_list (map (words_of (base_image ?b)) ?mine)\<rparr>)"
      "holds_bits bits (img_slots (base_image ?b)) (set (dead_list img (set is)) \<union> set ?mine)"
    using kill_slots_ok [of ?b ?mine "set (dead_list img (set is))"] ok assms(2) by (auto simp: owned_def)
  have "holds_bits (dead_documents b) (img_docs img) (set is)" using ok by simp
  note sb = set_bit_holds [OF this assms(3)]
  let ?b' = "?b\<lparr>dead_slots := bits, dead_chunks := dead_chunks b + length ?mine, dead_words := dead_words b + sum_list (map (words_of img) ?mine),
    dead_documents := (dead_documents b)[i div 64 := dead_documents b ! (i div 64) OR push_bit (i mod 64) 1], dead_document_count := dead_document_count b + 1\<rparr>"
  have "base_kill i b = Some ?b'"
    unfolding base_kill_def tb option.case prod.case Let_def if_P [OF c] sl k(1) using sb(1) ok by simp
  moreover have "set (dead_list img (set is)) \<union> set ?mine = set (dead_list img (set (is @ [i])))" by (auto simp: dead_list_def owned_def)
  moreover have "set (is @ [i]) = insert i (set is)" by simp
  ultimately show ?thesis
    using ok t(1) k(2) sb(2) dead_list_insert [OF assms(4), of "\<lambda>_. 1" img] dead_list_insert [OF assms(4), of "words_of img" img]
    by (intro exI [of _ ?b']) (simp add: kills_held_def length_as_sum [of "dead_list _ _"] length_as_sum [of "owned _ _ _"])
qed

lemma base_kills_ok:
  assumes "kills_held b img done" "owners_known img" "distinct (done @ is)" "\<forall>i \<in> set is. i < img_docs img"
  shows "\<exists>b'. base_kills is b = Some b' \<and> kills_held b' img (done @ is)"
  using assms
proof (induction "is" arbitrary: b "done")
  case (Cons i "is")
  obtain b1 where b1: "base_kill i b = Some b1" "kills_held b1 img (done @ [i])"
    using base_kill_ok [OF Cons.prems(1,2), of i] Cons.prems(3,4) by auto
  then show ?case using Cons.IH [OF b1(2) Cons.prems(2)] Cons.prems(3,4) by auto
qed auto


section \<open>What is left\<close>

lemma select_ordinals_filter: "(\<forall>i \<in> set is. keep i = Some (P i)) \<Longrightarrow> select_ordinals keep is = Some (filter P is)"
  by (induction "is") auto

text \<open>The slots of the documents outside a set.\<close>

definition live_list :: "ServingImage \<Rightarrow> nat set \<Rightarrow> nat list" where
  "live_list img D = filter (\<lambda>s. \<exists>i. i \<notin> D \<and> slot_owner img s = Some (Some i)) [0..<img_slots img]"

lemma live_dead_sum: "sum_list (map f (live_list img {})) = sum_list (map f (live_list img D)) + (sum_list (map f (dead_list img D)) :: nat)"
proof -
  let ?L = "\<lambda>s. \<exists>i. i \<notin> D \<and> slot_owner img s = Some (Some i)" and ?D = "\<lambda>s. \<exists>i \<in> D. slot_owner img s = Some (Some i)"
  have "live_list img {} = filter (\<lambda>s. ?L s \<or> ?D s) [0..<img_slots img]"
    unfolding live_list_def by (rule filter_cong) auto
  moreover have "\<And>s. \<not> (?L s \<and> ?D s)" by auto
  then have "sum_list (map f (filter (\<lambda>s. ?L s \<or> ?D s) [0..<img_slots img])) = sum_list (map f (live_list img D)) + sum_list (map f (dead_list img D))"
    unfolding live_list_def dead_list_def by (intro sum_filter_or)
  ultimately show ?thesis by simp
qed

lemma live_dead_length: "length (live_list img {}) = length (live_list img D) + length (dead_list img D)"
  using live_dead_sum [of "\<lambda>_. 1" img D] unfolding length_as_sum by simp

lemma owned_slots_counted: "table_ok img ss \<Longrightarrow> length (live_list img {}) = img_chunks img"
proof -
  assume t: "table_ok img ss"
  have l: "length ss = img_slots img" using t by (simp add: table_ok_def)
  have "(\<exists>i. i \<notin> {} \<and> slot_owner img s = Some (Some i)) \<longleftrightarrow> (case ss ! s of (w, ordinal, index) \<Rightarrow> ordinal \<noteq> FREE)" if "s < img_slots img" for s
    using t that by (auto simp: table_ok_def slot_owner_def split: prod.splits)
  then have "live_list img {} = filter (\<lambda>s. case ss ! s of (w, ordinal, index) \<Rightarrow> ordinal \<noteq> FREE) [0..<img_slots img]"
    unfolding live_list_def by (intro filter_cong) auto
  also have "length \<dots> = length (filter (\<lambda>(w, ordinal, index). ordinal \<noteq> FREE) (map ((!) ss) [0..<length ss]))"
    unfolding filter_map length_map l comp_def ..
  finally show ?thesis using t unfolding map_nth by (simp add: table_ok_def)
qed

lemma kills_held_dead:
  assumes "kills_held b img is" "i < img_docs img"
  shows "base_bit (dead_documents b) i = Some (i \<in> set is)"
  using assms by (simp add: kills_held_def holds_bits_def)

lemma base_live_ok:
  assumes "kills_held b img is" "ids_ok img ids"
  shows "base_live b key = Some (case position_of key ids of None \<Rightarrow> None | Some i \<Rightarrow> if i \<in> set is then None else Some i)"
proof -
  have "base_image b = img" using assms(1) by (simp add: kills_held_def)
  moreover have "i < img_docs img" if "position_of key ids = Some i" for i
    using position_less [OF that] assms(2) by (simp add: ids_ok_def)
  ultimately show ?thesis
    unfolding base_live_def using image_ordinal_ok [OF assms(2), of key] kills_held_dead [OF assms(1)] by (auto split: option.splits)
qed


lemma image_new_counts:
  assumes "image_new bytes = Inr img"
  shows "img_docs img < 2 ^ 64" "img_chunks img < 2 ^ 64" "img_words img < 2 ^ 64"
proof -
  obtain slots chs words docs :: u64 where "img_docs img = unat docs" "img_chunks img = unat chs" "img_words img = unat words"
    using assms by (auto simp: image_new_def sum_bind_Inr Let_def)
  then show "img_docs img < 2 ^ 64" "img_chunks img < 2 ^ 64" "img_words img < 2 ^ 64"
    using unsigned_less [of docs] unsigned_less [of chs] unsigned_less [of words] by simp_all
qed

lemma usize_sub_less: "b \<le> a \<Longrightarrow> a < 2 ^ 64 \<Longrightarrow> usize_sub a b = a - b"
proof -
  assume h: "b \<le> a" "a < 2 ^ 64"
  then have "(of_nat a - of_nat b :: u64) = of_nat (a - b)" by simp
  then show ?thesis using h by (simp add: usize_sub_def unat_of_nat del: of_nat_diff)
qed

text \<open>
  C19. Killing distinct documents of an opened checkpoint with fewer than \<open>2 ^ 32\<close> slots never panics, in any order, and
  leaves exactly the others: an id is live when its document was not killed, the ordinals that are listed are the
  killed and the other ones in order, a slot is dead when its owner was killed (the counting sort of the first kill
  gives each document its own slots), and the counts of documents and chunks are those of what is left.  The count of
  words is the one the header states less the words of the dead slots, wrapping around when the header states too
  few, which the checks at open do not exclude; when the header states the sum over the owned slots, it is the sum
  over the live ones.
\<close>

theorem killed_documents_exact:
  assumes "image_new bytes = Inr img" "img_slots img < 2 ^ 32" "distinct is" "\<forall>i \<in> set is. i < img_docs img"
  shows "\<exists>b. base_kills is (base_new img) = Some b \<and>
     (\<forall>key. \<exists>found. image_ordinal img key = Some found \<and>
        base_live b key = Some (case found of None \<Rightarrow> None | Some i \<Rightarrow> if i \<in> set is then None else Some i)) \<and>
     (\<forall>from_id. \<exists>start. (case from_id of None \<Rightarrow> Some 0 | Some key \<Rightarrow> lower_bound img key) = Some start \<and>
        live_ordinals_from b from_id = Some (filter (\<lambda>i. i \<notin> set is) [start..<img_docs img])) \<and>
     dead_ordinals b = Some (filter (\<lambda>i. i \<in> set is) [0..<img_docs img]) \<and>
     live_documents b + length is = img_docs img \<and> (intact b \<longleftrightarrow> is = []) \<and>
     (\<forall>s < img_slots img. slot_dead b s = Some (\<exists>i \<in> set is. slot_owner img s = Some (Some i))) \<and>
     live_chunks b = length (live_list img (set is)) \<and>
     live_words b = usize_sub (img_words img) (sum_list (map (words_of img) (dead_list img (set is)))) \<and>
     (img_words img = sum_list (map (words_of img) (live_list img {})) \<longrightarrow> live_words b = sum_list (map (words_of img) (live_list img (set is))))"
proof -
  have o: "opened img" by (rule image_new_opened [OF assms(1)])
  obtain ids ss where t: "ids_ok img ids" "table_ok img ss" using o by (auto simp: opened_def)
  obtain b where b: "base_kills is (base_new img) = Some b" and h: "kills_held b img is"
    using base_kills_ok [OF base_new_ok opened_owners_known [OF o assms(2)], of "is"] assms(3,4) by auto
  note k = h [unfolded kills_held_def]
  note bit = kills_held_dead [OF h]
  have img: "base_image b = img" using k by simp
  have "length is = card (set is)" by (rule distinct_card [OF assms(3), symmetric])
  also have "\<dots> \<le> card {..<img_docs img}" using assms(4) by (intro card_mono) auto
  finally have n: "length is \<le> img_docs img" by simp
  have "live_ordinals_from b from_id = Some (filter (\<lambda>i. i \<notin> set is) [start..<img_docs img])"
    if "(case from_id of None \<Rightarrow> Some 0 | Some key \<Rightarrow> lower_bound img key) = Some start" for from_id start
    unfolding live_ordinals_from_def img that option.case by (rule select_ordinals_filter) (simp add: bit)
  moreover have "\<exists>start. (case from_id of None \<Rightarrow> Some 0 | Some key \<Rightarrow> lower_bound img key) = Some start" for from_id
    using lower_bound_ok [OF t(1)] by (cases from_id) auto
  ultimately have live: "\<forall>from_id. \<exists>start. (case from_id of None \<Rightarrow> Some 0 | Some key \<Rightarrow> lower_bound img key) = Some start \<and>
        live_ordinals_from b from_id = Some (filter (\<lambda>i. i \<notin> set is) [start..<img_docs img])" by blast
  have dead: "dead_ordinals b = Some (filter (\<lambda>i. i \<in> set is) [0..<img_docs img])"
    unfolding dead_ordinals_def img by (rule select_ordinals_filter) (simp add: bit)
  have slots: "\<forall>s < img_slots img. slot_dead b s = Some (\<exists>i \<in> set is. slot_owner img s = Some (Some i))"
    using k by (simp add: slot_dead_def holds_bits_def dead_list_def)
  note small = image_new_counts [OF assms(1)]
  have chs: "live_chunks b = length (live_list img (set is))"
    using k owned_slots_counted [OF t(2)] live_dead_length [of img "set is"] small(2) by (simp add: live_chunks_def usize_sub_less)
  have wrap: "live_words b = usize_sub (img_words img) (sum_list (map (words_of img) (dead_list img (set is))))" using k by (simp add: live_words_def)
  have words: "img_words img = sum_list (map (words_of img) (live_list img {})) \<longrightarrow> live_words b = sum_list (map (words_of img) (live_list img (set is)))"
    using wrap live_dead_sum [of "words_of img" img "set is"] small(3) by (simp add: usize_sub_less)
  have "live_documents b + length is = img_docs img" "intact b \<longleftrightarrow> is = []" using k n small(1) by (auto simp: live_documents_def intact_def usize_sub_less)
  then show ?thesis using b base_live_ok [OF h t(1)] image_ordinal_ok [OF t(1)] live dead slots chs wrap words by auto
qed

theorem killed_documents_exact_witness:
  "\<exists>bytes img b. image_new bytes = Inr img \<and> img_docs img = 1 \<and> image_ordinal img [100] = Some (Some 0) \<and> base_live (base_new img) [100] = Some (Some 0) \<and>
     base_kills [0] (base_new img) = Some b \<and> base_live b [100] = Some None \<and> dead_ordinals b = Some [0] \<and> live_documents b = 0 \<and> live_chunks b = 0 \<and>
     slot_dead b 0 = Some True"
proof -
  obtain pls bytes where s: "forms_held (sample_store pls) sample_maps"
    "encode_checkpoint Scalar (\<lambda>_. 0) (\<lambda>_. Some []) (\<lambda>_. Inr None) (sample_store pls) 0 16 = Inr bytes" "length bytes < 2 ^ 64"
    using sample_encodes by metis
  have "(16 :: nat) < 2 ^ 64" by simp
  from checkpoint_serves [OF sample_wf s(1) this, of Scalar "\<lambda>_. 0" "\<lambda>_. Some []" "\<lambda>_. Inr None" 0] s(2,3)
  obtain img where img: "image_new bytes = Inr img" "serves img (sample_store pls) sample_maps" by auto
  have n: "img_docs img = 1" "img_slots img = 1" "image_ordinal img [100] = Some (Some 0)" "image_slot img 0 = Some (2, 0, 0)"
    using img(2) sample_owns [of pls 0 0 0] by (simp_all add: serves_def sample_store_def)
  have own: "slot_owner img 0 = Some (Some 0)" using n(4) by (simp add: slot_owner_def FREE_def)
  have lv: "live_list img {0} = []" using n(2) own by (simp add: live_list_def)
  have sm: "img_slots img < 2 ^ 32" "distinct [0 :: nat]" "\<forall>i \<in> set [0]. i < img_docs img" using n by simp_all
  obtain b where b: "base_kills [0] (base_new img) = Some b" "\<forall>key. \<exists>found. image_ordinal img key = Some found \<and>
        base_live b key = Some (case found of None \<Rightarrow> None | Some i \<Rightarrow> if i \<in> set [0] then None else Some i)"
      "dead_ordinals b = Some (filter (\<lambda>i. i \<in> set [0]) [0..<img_docs img])" "live_documents b + length [0 :: nat] = img_docs img"
      "\<forall>s < img_slots img. slot_dead b s = Some (\<exists>i \<in> set [0]. slot_owner img s = Some (Some i))" "live_chunks b = length (live_list img (set [0]))"
    using killed_documents_exact [OF img(1) sm] by blast
  have "base_live b [100] = Some None" using b(2) n(3) by (auto dest: spec [of _ "[100]"])
  moreover have "base_live (base_new img) [100] = Some (Some 0)" using n(1,3) by (simp add: base_live_def base_new_def base_bit_def slice_get_def)
  moreover have "slot_dead b 0 = Some True" using b(5) n(2) own by simp
  ultimately show ?thesis using b(1,3,4,6) n lv img(1) by (intro exI [of _ bytes] exI [of _ img] exI [of _ b]) simp
qed

end
