(* ===== verification/Spec2Isabelle.thy ===== *)
theory Spec2Isabelle
  imports Intersection Entangled Bundle Tombstone Posting Role Mask Journal SegmentScan Jumbf MutationGate TripleStore MemoryChains
    BinaryJournal CheckpointPostings TermDictionary IndexChunks CheckpointBase
begin

text \<open>
  A verification development for WARM, an embeddable store for documents, facts and sparse
  hypervectors (Rust, under \<^verbatim>\<open>src/\<close>; the library is \<^verbatim>\<open>src/core\<close>).

  \<^bold>\<open>The program.\<close>  Writers enter the engine one at a time through the mutation gate.  A mutation is
  serialised and appended as one frame to a segmented, memory-mapped journal; opening a store
  recovers the end of the journal and replays its frames into the in-memory tables.  An offline
  verifier reads the same segments.  On top of the documents the memory API keeps facts: every fact
  is a document with a stamp (times, subject, links to the facts it supersedes), an index over the
  stamps answers which facts are current, and policies decide supersession, forgetting and
  consolidation.  A transaction of documents is encoded in a binary form with one term dictionary per
  frame; chunk text may move to a separate segment file.  A store of lexical documents is also
  written as a checkpoint, which serves searches without being read in.  Beside it lies the vector-symbolic layer: sparse hypervectors with binding,
  bundling and permutation, roles, masks, posting shards with tombstones, and a triple store whose
  queries run under a budget.  Provenance manifests are stored in JUMBF boxes.

  \<^bold>\<open>Theories and sources.\<close>  Each theory follows the order of its source file and keeps its names.

  \<^item> Prelude: machine integers, strictly sorted lists, slice operations of the standard library.
    Bytes: little- and big-endian codecs and overwriting a slice.
  \<^item> Intersection (\<^verbatim>\<open>intersection.rs\<close>, \<^verbatim>\<open>simd_math.rs\<close>): the merge, galloping and AVX2 kernels, each an
    instance of the locale \<open>intersection_kernel\<close>; all count the intersection.
  \<^item> Entangled, Bundle (\<^verbatim>\<open>entangled.rs\<close>): \<open>EntangledHVec\<close>, its constructors, delta coding, similarity,
    binding (an abelian group of involutions, locale \<open>self_inverse_binding\<close>), permutation, Bloom
    bundles, and the majority bundle with its thread-local histogram.
  \<^item> Tombstone (\<^verbatim>\<open>tombstone.rs\<close>): the bitset of deleted ids refines a set (locale \<open>deletion_set\<close>).
    Posting (\<^verbatim>\<open>posting.rs\<close>): the inverted index and the overlap scan, which skips tombstones.
  \<^item> Role (\<^verbatim>\<open>role.rs\<close>): unbinding recovers a filler whose shift is within the dimension.  Mask (\<^verbatim>\<open>mask.rs\<close>): the keyed permutation can be
    inverted and preserves distances.
  \<^item> Frames, Arena, Journal (\<^verbatim>\<open>storage.rs\<close>, \<^verbatim>\<open>storage/staging.rs\<close>, the replay of \<^verbatim>\<open>engine/mod.rs\<close>): the frame
    format and recovery of a segment; the arena with append, growth, rotation, failed commits and
    reading; the files on disk with what a failed growth or rotation leaves there; its life over any
    sequence of appends, crashes and restarts.  The journal is the list of accepted payloads.
  \<^item> SegmentScan (\<^verbatim>\<open>format/scan.rs\<close>): the verifier agrees with the recovery on every byte string.
  \<^item> Jumbf (\<^verbatim>\<open>provenance/jumbf.rs\<close>): the box codec and its limits.
  \<^item> MutationGate (\<^verbatim>\<open>engine/mutation_gate.rs\<close>): ticket queue, leases and reader lock as a step
    relation over threads (locale \<open>transition_system\<close>); exclusion and progress hold in all
    reachable states.
  \<^item> QueryLimits (\<^verbatim>\<open>query_limits.rs\<close>), TripleStore (\<^verbatim>\<open>triple_store.rs\<close>): the budget; the triples with four
    hash indices (locale \<open>keyed_index\<close>, interpreted for each) refine a list of quadruples.
  \<^item> Stamp, MemoryIndex, MemoryPolicy, MemoryWrite, MemoryChains (\<^verbatim>\<open>memory_api/\<close>): stamps and their
    places in a document; the index and its graph walks; the policies; \<open>remember_many\<close> and \<open>forget\<close>
    over a store of documents; what they mean together: single-valued slots (many subjects, facts without explicit links and with different
    effect times), idempotent retries, exact removal, and three places where the code departs from its intent
    (\<open>explicit_link_makes_cycle\<close>, \<open>same_instant_leaves_two_current\<close>, \<open>reused_id_revives_hint\<close>).

  \<^item> BinaryReader, BitPacking, PackedTerms, TermPositions, TextSegment (\<^verbatim>\<open>documents/binary.rs\<close>,
    \<^verbatim>\<open>postings.rs\<close>, \<^verbatim>\<open>packed_terms.rs\<close>, \<^verbatim>\<open>positions.rs\<close>, \<^verbatim>\<open>text.rs\<close>): the parts a stored document is made of.  The
    cursor over untrusted bytes (locale \<open>safe_read\<close>: no panic, no over-read, no look-ahead; interpreted
    for \<open>varint\<close> and for whole payloads), bit-packed numbers, the three forms of a term table,
    token positions with their validation, and the file of chunk texts.
  \<^item> FrameDictionary, BinaryDocuments, BinaryJournal (\<^verbatim>\<open>documents/binary.rs\<close>, \<^verbatim>\<open>engine/journal.rs\<close>, the replay of
    binary frames in \<^verbatim>\<open>engine/mod.rs\<close>): the term dictionary of a frame, documents in binary form, and
    transactions as journal payloads.  What is written is read back, unless a chunk takes less than the eight bytes
    the reader counts for one (\<open>small_document_unreadable\<close>), truncated and damaged payloads
    are errors, and replay applies the mutations in order.  These payloads are what the frames of Arena carry.
  \<^item> BlockUnpacking, CheckpointPostings, TermDictionary (\<^verbatim>\<open>documents/postings.rs\<close>): the decoders of
    packed blocks (scalar, AVX2, NEON), the posting lists of a checkpoint with their checked and fast decoders, and the two-level dictionary of the lexical index, which refines a
    finite map.
  \<^item> PostingFrontier, PostingBlocks, PostingCursor, PostingEdits, PostingList (\<^verbatim>\<open>documents/postings.rs\<close>): the posting
    list of a term: frontiers of undominated points, blocks of packed gaps, frequencies and ordinals, the forward
    cursor with its galloping search, the edits and the cached summary.  A list refines a map from slots to
    frequency and ordinal, and every bound a query prunes with covers the postings it stands for.  The length of a
    chunk is assumed below the largest \<open>u32\<close>, which the table of a frontier uses as its mark for no length.
  \<^item> PostingLists, IndexChunks (\<^verbatim>\<open>documents/postings.rs\<close>): the lists of all terms with their dictionary and free ids,
    which refine a map from terms to posting maps, and the parallel bulk build, which gives exactly the postings
    of the chunks whatever the threads and hash orders.
  \<^item> CheckpointImage, CheckpointWriter, CheckpointRoundtrip (\<^verbatim>\<open>documents/image.rs\<close>): the file a store is served from: the
    checks at open, the reads that rely on them, and the writer.  A written checkpoint opens and serves what the
    store held; in bytes that pass the checks, ids, slots and terms are read without a panic (posting bytes are not
    checked at open, \<open>damaged_list_panics\<close>).  CheckpointBase (\<^verbatim>\<open>documents/overlay.rs\<close>): the
    checkpoint below a live store, with its dead documents and the counts of the others.

  \<^bold>\<open>Conventions.\<close>  \<open>u8\<close> to \<open>u64\<close> are words, \<open>usize\<close> is a natural number with its bound written where the
  code depends on it, and \<open>Millis\<close> is an integer with the wrap-around of \<open>i64\<close> written out.  Errors are the
  left summand of a sum; a panic is an error constructor of its own or \<open>None\<close>.  Loops are functions
  with a termination proof; no model uses fuel.  Library code is a parameter: CRC-32, LZ4, SHA-256,
  Argon2, JSON text, Unicode case folding, floating-point addition and comparison, selection and the
  iteration order of hash maps.  What the proofs need of a parameter is a hypothesis of the theorem,
  and the witness that follows it instantiates the parameter with a concrete function.  File
  operations are summarised by their outcome, which the environment chooses freely at each call.

  \<^bold>\<open>Not modelled.\<close>  Approximate nearest-neighbour indexes, lexical ranking and the neural models: their
  results are floating-point scores without an exact contract.  Cryptographic credential formats,
  private queries and access control: they rest on cryptographic libraries.  Directory operations
  (renames, the \<open>CURRENT\<close> pointer, locks), servers, bindings and benchmarks: input and output.  The
  in-memory document tables, the hydration of a checkpoint into them, recall and maintenance of the
  memory API, and concurrent revisions within \<open>remember\<close>: still to be modelled, in this order.
\<close>

end
